(* ===== verification/Prelude.thy ===== *)
theory Prelude
  imports Main "HOL-Library.Word" "HOL-Library.List_Lexorder"
begin

text \<open>
  Shared vocabulary of the development: the machine types of the C sources, the
  SQLite result codes, the error-propagating composition used by every fallible
  operation, bounds-checked reads of a byte buffer, and the generic list lemmas
  that several components need.
\<close>

unbundle bit_operations_syntax

named_theorems res_simps \<open>elimination of the result composition\<close>
named_theorems byte_simps \<open>lengths and reads of encoded byte strings\<close>

section \<open>Machine types and result codes\<close>

type_synonym byte = "8 word"
type_synonym u16 = "16 word"
type_synonym u32 = "32 word"
type_synonym u64 = "64 word"

text \<open>A C \<open>int\<close> is an \<open>int\<close>; where an operation can leave its range, the result is cut to 32 bits.\<close>

definition int32 :: "int \<Rightarrow> int" where
  "int32 n = sint (of_int n :: u32)"

lemma int32_id [simp]: "- 2147483648 \<le> n \<Longrightarrow> n < 2147483648 \<Longrightarrow> int32 n = n"
  by (simp add: int32_def signed_of_int signed_take_bit_int_eq_self)

text \<open>
  The result codes the modelled functions return. \<open>SQLITE_OK\<close> is the right
  injection of the result type. \<open>OUT_OF_BOUNDS\<close> is not a code of the program: it
  marks a read outside the buffer, which is undefined behaviour in C, so that the
  absence of such reads is a theorem and not an assumption.  \<open>NO_RETURN\<close> likewise marks
  a loop or a recursion that has used up the fuel its model was given; the theorems
  show that the fuel suffices.
\<close>

datatype rc =
    SQLITE_ERROR
  | SQLITE_READONLY
  | SQLITE_CORRUPT
  | SQLITE_NOTFOUND
  | SQLITE_FULL
  | SQLITE_TOOBIG
  | SQLITE_CONSTRAINT
  | SQLITE_DONE
  | SQLITE_NOMEM
  | SQLITE_NOTADB
  | SQLITE_CANTOPEN
  | SQLITE_IOERR
  | SQLITE_IOERR_SHORT_READ
  | SQLITE_IOERR_TRUNCATE
  | SQLITE_BUSY
  | OUT_OF_BOUNDS
  | NO_RETURN

type_synonym 'a res = "rc + 'a"

section \<open>Composition of fallible operations\<close>

definition bindR :: "'a res \<Rightarrow> ('a \<Rightarrow> 'b res) \<Rightarrow> 'b res" where
  "bindR m f = (case m of Inl e \<Rightarrow> Inl e | Inr x \<Rightarrow> f x)"

lemma bindR_Inl [simp]: "bindR (Inl e) f = Inl e"
  by (simp add: bindR_def)

lemma bindR_Inr [simp]: "bindR (Inr x) f = f x"
  by (simp add: bindR_def)

lemma bindR_eq_Inr [res_simps]: "bindR m f = Inr y \<longleftrightarrow> (\<exists>x. m = Inr x \<and> f x = Inr y)"
  by (simp add: bindR_def split: sum.split)

lemma bindR_eq_Inl [res_simps]:
  "bindR m f = Inl e \<longleftrightarrow> m = Inl e \<or> (\<exists>x. m = Inr x \<and> f x = Inl e)"
  by (auto simp add: bindR_def split: sum.split)

lemma bindR_assoc: "bindR (bindR m f) g = bindR m (\<lambda>x. bindR (f x) g)"
  by (simp add: bindR_def split: sum.split)

lemma bindR_cong [fundef_cong]:
  "m = n \<Longrightarrow> (\<And>x. n = Inr x \<Longrightarrow> f x = g x) \<Longrightarrow> bindR m f = bindR n g"
  by (simp add: bindR_def split: sum.split)

definition guardR :: "bool \<Rightarrow> rc \<Rightarrow> unit res" where
  "guardR b e = (if b then Inr () else Inl e)"

lemma guardR_simps [simp]:
  "guardR True e = Inr ()"
  "guardR False e = Inl e"
  by (simp_all add: guardR_def)

lemma guardR_eq_Inr [res_simps]: "guardR b e = Inr u \<longleftrightarrow> b"
  by (simp add: guardR_def)

lemma guardR_eq_Inl [res_simps]: "guardR b e = Inl e' \<longleftrightarrow> \<not> b \<and> e = e'"
  by (auto simp add: guardR_def)

text \<open>\<open>fails_only E m\<close>: the only failures of the computation \<open>m\<close> are the codes of \<open>E\<close>.\<close>

definition fails_only :: "rc set \<Rightarrow> 'a res \<Rightarrow> bool" where
  "fails_only E m \<longleftrightarrow> (\<forall>e. m = Inl e \<longrightarrow> e \<in> E)"

lemma fails_only_Inr [simp, intro]: "fails_only E (Inr x)"
  by (simp add: fails_only_def)

lemma fails_only_Inl [simp]: "fails_only E (Inl e) \<longleftrightarrow> e \<in> E"
  by (simp add: fails_only_def)

lemma fails_only_bind:
  "fails_only E m \<Longrightarrow> (\<And>x. m = Inr x \<Longrightarrow> fails_only E (f x)) \<Longrightarrow> fails_only E (bindR m f)"
  by (auto simp: fails_only_def res_simps)

lemma fails_only_guard:
  "e \<in> E \<Longrightarrow> (b \<Longrightarrow> fails_only E (f ())) \<Longrightarrow> fails_only E (bindR (guardR b e) f)"
  by (cases b) simp_all

lemma fails_only_guardR [simp]: "fails_only E (guardR b e) \<longleftrightarrow> b \<or> e \<in> E"
  by (simp add: guardR_def)

lemma fails_only_if:
  "(b \<Longrightarrow> fails_only E m) \<Longrightarrow> (\<not> b \<Longrightarrow> fails_only E n) \<Longrightarrow> fails_only E (if b then m else n)"
  by simp

lemmas fails_only_intros = fails_only_if fails_only_guard fails_only_bind

lemma fails_only_cases:
  "fails_only {e} m \<Longrightarrow> m = Inl e \<or> (\<exists>x. m = Inr x)"
  by (cases m) auto

section \<open>Bounds-checked reads\<close>

definition read_byte :: "byte list \<Rightarrow> nat \<Rightarrow> byte res" where
  "read_byte d p = (if p < length d then Inr (d ! p) else Inl OUT_OF_BOUNDS)"

definition read_bytes :: "byte list \<Rightarrow> nat \<Rightarrow> nat \<Rightarrow> byte list res" where
  "read_bytes d p n = (if p + n \<le> length d then Inr (take n (drop p d)) else Inl OUT_OF_BOUNDS)"

lemma read_byte_ok [simp]: "p < length d \<Longrightarrow> read_byte d p = Inr (d ! p)"
  by (simp add: read_byte_def)

lemma read_bytes_ok [simp]: "p + n \<le> length d \<Longrightarrow> read_bytes d p n = Inr (take n (drop p d))"
  by (simp add: read_bytes_def)

lemma read_bytes_eq_Inr [res_simps]:
  "read_bytes d p n = Inr x \<longleftrightarrow> p + n \<le> length d \<and> x = take n (drop p d)"
  by (auto simp: read_bytes_def)

lemma fails_only_read_byte [simp]: "p < length d \<Longrightarrow> fails_only E (read_byte d p)"
  by simp

lemma fails_only_read_bytes [simp]: "p + n \<le> length d \<Longrightarrow> fails_only E (read_bytes d p n)"
  by simp

lemma read_bytes_append:
  "p = length xs \<Longrightarrow> n = length ys \<Longrightarrow> read_bytes (xs @ ys @ zs) p n = Inr ys"
  by (simp add: read_bytes_def)

section \<open>Lists\<close>

lemma nth_append_shift: "p = length xs + i \<Longrightarrow> (xs @ ys) ! p = ys ! i"
  by (simp add: nth_append)

lemma take_drop_nth_1: "p < length d \<Longrightarrow> take (Suc 0) (drop p d) = [d ! p]"
  by (simp add: take_Suc_conv_app_nth)

lemma filter_upt_Suc: "[i \<leftarrow> [0..<Suc n]. P i] = [i \<leftarrow> [0..<n]. P i] @ (if P n then [n] else [])"
  by simp

lemma sum_list_take_Suc:
  "i < length xs \<Longrightarrow> sum_list (take (Suc i) xs) = sum_list (take i xs) + (xs ! i :: nat)"
  by (simp add: take_Suc_conv_app_nth)

lemma sum_list_take_mono:
  "i \<le> j \<Longrightarrow> sum_list (take i xs) \<le> sum_list (take j (xs :: nat list))"
proof (induction "j - i" arbitrary: j)
  case 0
  then show ?case by simp
next
  case (Suc d)
  then obtain k where k: "j = Suc k" "d = k - i" "i \<le> k" by (cases j) auto
  have "sum_list (take k xs) \<le> sum_list (take j xs)"
    by (cases "k < length xs") (simp_all add: k sum_list_take_Suc)
  with Suc k show ?case by (metis le_trans)
qed

lemma concat_take_drop_nth:
  assumes "i < length xs"
  shows "take (length (xs ! i)) (drop (length (concat (take i xs))) (concat xs)) = xs ! i"
proof -
  have "concat xs = concat (take i xs) @ xs ! i @ concat (drop (Suc i) xs)"
    using assms by (metis append_take_drop_id concat.simps(2) concat_append Cons_nth_drop_Suc)
  then show ?thesis by simp
qed

lemma length_concat_take_Suc:
  "i < length xs \<Longrightarrow>
    length (concat (take (Suc i) xs)) = length (concat (take i xs)) + length (xs ! i)"
  by (simp add: take_Suc_conv_app_nth)

lemma length_concat_take_le: "length (concat (take i xs)) \<le> length (concat xs)"
  by (metis append_take_drop_id concat_append le_add1 length_append)

lemma option_eqI: "(\<And>v. a = Some v \<longleftrightarrow> b = Some v) \<Longrightarrow> a = b"
  by (cases a; cases b) auto

section \<open>Allocation\<close>

text \<open>
  \<open>sqlite3_malloc(int n)\<close>: the argument is converted to \<open>int\<close>, a size that is not positive or
  above the limit gives the null pointer, which every caller turns into \<open>SQLITE_NOMEM\<close>; the
  value is the number of bytes obtained.
\<close>

definition SQLITE_MAX_ALLOCATION_SIZE :: int where "SQLITE_MAX_ALLOCATION_SIZE = 2147483391"

definition sqlite3_malloc :: "int \<Rightarrow> int res" where
  "sqlite3_malloc n =
     (if int32 n \<le> 0 \<or> SQLITE_MAX_ALLOCATION_SIZE < int32 n then Inl SQLITE_NOMEM else Inr (int32 n))"

lemma sqlite3_malloc_ok: "0 < n \<Longrightarrow> n \<le> SQLITE_MAX_ALLOCATION_SIZE \<Longrightarrow> sqlite3_malloc n = Inr n"
  by (simp add: sqlite3_malloc_def SQLITE_MAX_ALLOCATION_SIZE_def)

section \<open>Growing capacities\<close>

text \<open>The loop \<open>while( n < need ) n *= 2\<close> of every growing array.\<close>

function double_until :: "nat \<Rightarrow> nat \<Rightarrow> nat" where
  "double_until n need = (if 0 < n \<and> n < need then double_until (n * 2) need else n)"
  by pat_completeness auto
termination by (relation "measure (\<lambda>(n, need). need - n)") auto

declare double_until.simps [simp del]

lemma double_until_ge: "n \<le> double_until n need"
proof (induction n need rule: double_until.induct)
  case (1 n need)
  then show ?case by (subst double_until.simps) (auto dest: le_trans [rotated])
qed

lemma double_until_need: "0 < n \<Longrightarrow> need \<le> double_until n need"
proof (induction n need rule: double_until.induct)
  case (1 n need)
  then show ?case by (subst double_until.simps) auto
qed

text \<open>\<open>nNew = nAlloc ? nAlloc*2 : nInit; while( nNew<nNeeded ) nNew *= 2\<close>.\<close>

definition grow_cap :: "nat \<Rightarrow> nat \<Rightarrow> nat \<Rightarrow> nat" where
  "grow_cap n init need = double_until (if n \<noteq> 0 then n * 2 else init) need"

lemma grow_cap_ge:
  assumes "0 < init"
  shows "need \<le> grow_cap n init need" "n \<le> grow_cap n init need"
proof -
  show "need \<le> grow_cap n init need"
    unfolding grow_cap_def by (rule double_until_need) (use assms in simp)
  show "n \<le> grow_cap n init need"
    using double_until_ge [of "if n \<noteq> 0 then n * 2 else init" need]
    by (auto simp: grow_cap_def split: if_splits)
qed

text \<open>\<open>realloc\<close>: the old contents followed by cells whose contents are never read.\<close>

definition realloc :: "'a \<Rightarrow> 'a list \<Rightarrow> nat \<Rightarrow> 'a list" where
  "realloc junk xs n = take n xs @ replicate (n - length xs) junk"

lemma length_realloc [simp]: "length (realloc junk xs n) = n"
  by (simp add: realloc_def)

lemma realloc_take: "m \<le> length xs \<Longrightarrow> m \<le> n \<Longrightarrow> take m (realloc junk xs n) = take m xs"
  by (simp add: realloc_def min_def)

lemma realloc_nth: "i < length xs \<Longrightarrow> i < n \<Longrightarrow> realloc junk xs n ! i = xs ! i"
  by (simp add: realloc_def nth_append)

text \<open>\<open>memcpy\<close> into a buffer at an offset.\<close>

definition memcpy :: "'a list \<Rightarrow> nat \<Rightarrow> 'a list \<Rightarrow> 'a list" where
  "memcpy buf off xs = take off buf @ xs @ drop (off + length xs) buf"

lemma length_memcpy [simp]: "off + length xs \<le> length buf \<Longrightarrow> length (memcpy buf off xs) = length buf"
  by (simp add: memcpy_def)

lemma take_memcpy: "off \<le> length buf \<Longrightarrow> take (off + length xs) (memcpy buf off xs) = take off buf @ xs"
  by (simp add: memcpy_def)

end
