(* ===== verification/Bytes.thy ===== *)
theory Bytes
  imports Prelude
begin

text \<open>
  Byte-level encodings shared by the storage engine: the little-endian integer macros
  of \<open>prolly_encoding.h\<close> (repeated in \<open>chunk_store.c\<close> and \<open>doltlite_commit.c\<close>), the
  sortable big-endian form of integer keys (\<open>prolly_node.c\<close>, \<open>prolly_mutmap.c\<close>), and
  the byte-string key comparison.  The lemmas show that every integer is read back as
  it was written, and that comparing encoded keys as byte strings is comparing them
  as signed integers.
\<close>

section \<open>Little-endian integers\<close>

definition put_u16 :: "u16 \<Rightarrow> byte list" where
  "put_u16 v = [ucast v, ucast (drop_bit 8 v)]"

definition get_u16 :: "byte list \<Rightarrow> nat \<Rightarrow> u16 res" where
  "get_u16 d p =
     (if p + 2 \<le> length d
      then Inr (ucast (d ! p) OR push_bit 8 (ucast (d ! (p + 1))))
      else Inl OUT_OF_BOUNDS)"

definition put_u32 :: "u32 \<Rightarrow> byte list" where
  "put_u32 v = [ucast v, ucast (drop_bit 8 v), ucast (drop_bit 16 v), ucast (drop_bit 24 v)]"

definition get_u32 :: "byte list \<Rightarrow> nat \<Rightarrow> u32 res" where
  "get_u32 d p =
     (if p + 4 \<le> length d
      then Inr (ucast (d ! p) OR push_bit 8 (ucast (d ! (p + 1)))
             OR push_bit 16 (ucast (d ! (p + 2))) OR push_bit 24 (ucast (d ! (p + 3))))
      else Inl OUT_OF_BOUNDS)"

definition put_i64 :: "u64 \<Rightarrow> byte list" where
  "put_i64 v = [ucast v, ucast (drop_bit 8 v), ucast (drop_bit 16 v), ucast (drop_bit 24 v),
     ucast (drop_bit 32 v), ucast (drop_bit 40 v), ucast (drop_bit 48 v), ucast (drop_bit 56 v)]"

definition get_i64 :: "byte list \<Rightarrow> nat \<Rightarrow> u64 res" where
  "get_i64 d p =
     (if p + 8 \<le> length d
      then Inr (ucast (d ! p) OR push_bit 8 (ucast (d ! (p + 1)))
             OR push_bit 16 (ucast (d ! (p + 2))) OR push_bit 24 (ucast (d ! (p + 3)))
             OR push_bit 32 (ucast (d ! (p + 4))) OR push_bit 40 (ucast (d ! (p + 5)))
             OR push_bit 48 (ucast (d ! (p + 6))) OR push_bit 56 (ucast (d ! (p + 7))))
      else Inl OUT_OF_BOUNDS)"

lemma length_put [simp, byte_simps]:
  "length (put_u16 a) = 2" "length (put_u32 b) = 4" "length (put_i64 c) = 8"
  by (simp_all add: put_u16_def put_u32_def put_i64_def)

lemma get_u16_ok: "p + 2 \<le> length d \<Longrightarrow> \<exists>v. get_u16 d p = Inr v"
  by (simp add: get_u16_def)

lemma get_u32_ok: "p + 4 \<le> length d \<Longrightarrow> \<exists>v. get_u32 d p = Inr v"
  by (simp add: get_u32_def)

lemma fails_only_get [simp]:
  "p + 2 \<le> length d \<Longrightarrow> fails_only E (get_u16 d p)"
  "p + 4 \<le> length d \<Longrightarrow> fails_only E (get_u32 d p)"
  "p + 8 \<le> length d \<Longrightarrow> fails_only E (get_i64 d p)"
  by (simp_all add: get_u16_def get_u32_def get_i64_def)

text \<open>Reassembling a word from its bytes, one byte at a time.\<close>

lemma byte_join:
  fixes v :: "'a::len word"
  shows "push_bit k (ucast (ucast (drop_bit k v) :: byte)) OR push_bit (k + 8) (drop_bit (k + 8) v)
     = push_bit k (drop_bit k v)"
proof (rule bit_word_eqI)
  fix n assume "n < LENGTH('a)"
  then show "bit (push_bit k (ucast (ucast (drop_bit k v) :: byte)) OR push_bit (k + 8) (drop_bit (k + 8) v)) n
     = bit (push_bit k (drop_bit k v)) n"
    by (cases "n < k + 8") (auto simp: bit_simps)
qed

lemma byte_join_low:
  fixes v :: "'a::len word"
  shows "ucast (ucast v :: byte) OR push_bit 8 (drop_bit 8 v) = v"
  using byte_join [of 0 v] by simp

lemma byte_join_top:
  fixes v :: "'a::len word"
  assumes "LENGTH('a) = k + 8"
  shows "push_bit k (ucast (ucast (drop_bit k v) :: byte)) = push_bit k (drop_bit k v)"
  using assms by (intro bit_word_eqI) (auto simp: bit_simps)

lemmas byte_joins = byte_join [where k = 8, simplified] byte_join [where k = 16, simplified]
  byte_join [where k = 24, simplified] byte_join [where k = 32, simplified]
  byte_join [where k = 40, simplified] byte_join [where k = 48, simplified]
  byte_join_low

lemma bytes_of_u16:
  "ucast (ucast v :: byte) OR push_bit 8 (ucast (ucast (drop_bit 8 v) :: byte)) = (v :: u16)"
  using byte_join_top [of 8 v] by (simp add: byte_joins)

lemma bytes_of_u32:
  "ucast (ucast v :: byte) OR push_bit 8 (ucast (ucast (drop_bit 8 v) :: byte))
     OR push_bit 16 (ucast (ucast (drop_bit 16 v) :: byte))
     OR push_bit 24 (ucast (ucast (drop_bit 24 v) :: byte)) = (v :: u32)"
  using byte_join_top [of 24 v] by (simp add: or.assoc byte_joins)

lemma bytes_of_u64:
  "ucast (ucast v :: byte) OR push_bit 8 (ucast (ucast (drop_bit 8 v) :: byte))
     OR push_bit 16 (ucast (ucast (drop_bit 16 v) :: byte))
     OR push_bit 24 (ucast (ucast (drop_bit 24 v) :: byte))
     OR push_bit 32 (ucast (ucast (drop_bit 32 v) :: byte))
     OR push_bit 40 (ucast (ucast (drop_bit 40 v) :: byte))
     OR push_bit 48 (ucast (ucast (drop_bit 48 v) :: byte))
     OR push_bit 56 (ucast (ucast (drop_bit 56 v) :: byte)) = (v :: u64)"
  using byte_join_top [of 56 v] by (simp add: or.assoc byte_joins)

lemma nth_append_Sucs:
  "(xs @ ys) ! length xs = ys ! 0" "(xs @ ys) ! Suc (length xs) = ys ! 1"
  "(xs @ ys) ! Suc (Suc (length xs)) = ys ! 2" "(xs @ ys) ! (length xs + n) = ys ! n"
  by (simp_all add: nth_append)

lemma get_u16_put [byte_simps]:
  assumes "p = length pre"
  shows "get_u16 (pre @ put_u16 v @ post) p = Inr v"
  using assms bytes_of_u16[of v] by (simp add: get_u16_def put_u16_def nth_append_Sucs)

lemma get_u32_put [byte_simps]:
  assumes "p = length pre"
  shows "get_u32 (pre @ put_u32 v @ post) p = Inr v"
  using assms bytes_of_u32[of v] by (simp add: get_u32_def put_u32_def nth_append_Sucs)

lemma get_i64_put [byte_simps]:
  assumes "p = length pre"
  shows "get_i64 (pre @ put_i64 v @ post) p = Inr v"
  using assms bytes_of_u64[of v] by (simp add: get_i64_def put_i64_def nth_append_Sucs)

section \<open>Byte-string comparison\<close>

text \<open>
  \<open>memcmp\<close> compares the first \<open>n\<close> bytes; C fixes only the sign of its result, which
  is all the callers use, so the model returns -1, 0 or 1.  \<open>key_cmp\<close> is the body
  the sources repeat as \<open>compareKeys\<close>, \<open>compareEntries\<close>, \<open>fmKeyCmp\<close> and the blob
  branch of \<open>prollyCompareKeys\<close>.
\<close>

fun memcmp :: "byte list \<Rightarrow> byte list \<Rightarrow> nat \<Rightarrow> int" where
  "memcmp (x # xs) (y # ys) (Suc n) = (if x < y then -1 else if y < x then 1 else memcmp xs ys n)"
| "memcmp _ _ _ = 0"

definition key_cmp :: "byte list \<Rightarrow> byte list \<Rightarrow> int" where
  "key_cmp a b =
     (let n = (if length a < length b then length a else length b);
          c = memcmp a b n
      in if c \<noteq> 0 then c
         else if length a < length b then -1
         else if length a > length b then 1
         else 0)"

lemma key_cmp_simps [simp]:
  "key_cmp [] [] = 0" "key_cmp [] (y # ys) = -1" "key_cmp (x # xs) [] = 1"
  "key_cmp (x # xs) (y # ys) = (if x < y then -1 else if y < x then 1 else key_cmp xs ys)"
  by (auto simp: key_cmp_def Let_def)

text \<open>The comparison decides the lexicographic order of byte strings.\<close>

lemma key_cmp_eq: "key_cmp a b = (if a < b then -1 else if b < a then 1 else 0)"
proof (induction a arbitrary: b)
  case Nil
  then show ?case by (cases b) auto
next
  case (Cons x xs)
  then show ?case by (cases b) auto
qed

lemma memcmp_same_length: "length a = length b \<Longrightarrow> memcmp a b (length a) = key_cmp a b"
  by (simp add: key_cmp_def Let_def)

lemma key_cmp_sign [simp]:
  "key_cmp a b = 0 \<longleftrightarrow> a = b" "key_cmp a b < 0 \<longleftrightarrow> a < b" "0 < key_cmp a b \<longleftrightarrow> b < a"
  "key_cmp a b \<le> 0 \<longleftrightarrow> a \<le> b"
  by (auto simp: key_cmp_eq)

section \<open>Sortable integer keys\<close>

text \<open>
  \<open>prollyEncodeIntKey\<close> (and its copy \<open>encodeIntKeyBE\<close>) flips the sign bit and stores
  the result big-endian; the decoder is the tail of \<open>prollyNodeIntKey\<close> and
  \<open>prollyMutMapEntryIntKey\<close>.
\<close>

definition be_bytes :: "u64 \<Rightarrow> byte list" where
  "be_bytes u = [ucast (drop_bit 56 u), ucast (drop_bit 48 u), ucast (drop_bit 40 u), ucast (drop_bit 32 u),
     ucast (drop_bit 24 u), ucast (drop_bit 16 u), ucast (drop_bit 8 u), ucast u]"

definition get_be64 :: "byte list \<Rightarrow> nat \<Rightarrow> u64 res" where
  "get_be64 d p =
     (if p + 8 \<le> length d
      then Inr (push_bit 56 (ucast (d ! p)) OR push_bit 48 (ucast (d ! (p + 1)))
             OR push_bit 40 (ucast (d ! (p + 2))) OR push_bit 32 (ucast (d ! (p + 3)))
             OR push_bit 24 (ucast (d ! (p + 4))) OR push_bit 16 (ucast (d ! (p + 5)))
             OR push_bit 8 (ucast (d ! (p + 6))) OR ucast (d ! (p + 7)))
      else Inl OUT_OF_BOUNDS)"

definition prollyEncodeIntKey :: "u64 \<Rightarrow> byte list" where
  "prollyEncodeIntKey v = be_bytes (v XOR push_bit 63 1)"

definition prollyDecodeIntKey :: "byte list \<Rightarrow> nat \<Rightarrow> u64 res" where
  "prollyDecodeIntKey d p = bindR (get_be64 d p) (\<lambda>u. Inr (u XOR push_bit 63 1))"

lemma unat_byte_less: "unat (b :: byte) < 256"
  by (rule order_less_le_trans [OF unsigned_less]) simp

lemma unat_u64_less: "unat (u :: u64) < 2 ^ 64"
  by (rule order_less_le_trans [OF unsigned_less]) simp


lemma length_be_bytes [simp]: "length (be_bytes u) = 8"
  by (simp add: be_bytes_def)

fun be_val :: "byte list \<Rightarrow> nat" where
  "be_val [] = 0"
| "be_val (b # bs) = unat b * 256 ^ length bs + be_val bs"

lemma be_val_less: "be_val bs < 256 ^ length bs"
proof (induction bs)
  case (Cons b bs)
  let ?p = "256 ^ length bs :: nat"
  have "unat b * ?p + be_val bs < unat b * ?p + ?p" using Cons by simp
  also have "\<dots> = (unat b + 1) * ?p" by simp
  also have "\<dots> \<le> 256 * ?p" using unat_byte_less[of b] by (intro mult_le_mono1) simp
  finally show ?case by simp
qed simp

lemma be_val_order: "length xs = length ys \<Longrightarrow> xs < ys \<longleftrightarrow> be_val xs < be_val ys"
proof (induction xs ys rule: list_induct2)
  case (Cons x xs y ys)
  let ?p = "256 ^ length ys :: nat"
  have l: "be_val xs < ?p" "be_val ys < ?p"
    using be_val_less[of xs] be_val_less[of ys] Cons.hyps by simp_all
  consider "unat x < unat y" | "x = y" | "unat y < unat x"
    using word_unat_eq_iff[of x y] by linarith
  then show ?case
  proof cases
    case 1
    then have "(unat x + 1) * ?p \<le> unat y * ?p" by (intro mult_le_mono1) simp
    with 1 l Cons.hyps show ?thesis by (simp add: word_less_nat_alt)
  next
    case 2
    with Cons show ?thesis by simp
  next
    case 3
    then have "(unat y + 1) * ?p \<le> unat x * ?p" by (intro mult_le_mono1) simp
    with 3 l Cons.hyps show ?thesis by (auto simp add: word_less_nat_alt)
  qed
qed simp

lemma digits8:
  fixes n :: nat
  assumes "n < 18446744073709551616"
  shows "n div 72057594037927936 * 72057594037927936 +
        n div 281474976710656 mod 256 * 281474976710656 +
        n div 1099511627776 mod 256 * 1099511627776 +
        n div 4294967296 mod 256 * 4294967296 +
        n div 16777216 mod 256 * 16777216 +
        n div 65536 mod 256 * 65536 +
        n div 256 mod 256 * 256 + n mod 256 = n"
proof -
  have d: "n div 256 div 256 = n div 65536" "n div 65536 div 256 = n div 16777216"
    "n div 16777216 div 256 = n div 4294967296" "n div 4294967296 div 256 = n div 1099511627776"
    "n div 1099511627776 div 256 = n div 281474976710656"
    "n div 281474976710656 div 256 = n div 72057594037927936"
    by (simp_all add: div_mult2_eq[symmetric])
  have e: "m = 256 * (m div 256) + m mod 256" for m :: nat by simp
  show ?thesis
    using e[of n] e[of "n div 256"] e[of "n div 65536"] e[of "n div 16777216"] e[of "n div 4294967296"]
      e[of "n div 1099511627776"] e[of "n div 281474976710656"]
    unfolding d by linarith
qed

lemma be_val_be_bytes: "be_val (be_bytes u) = unat u"
proof -
  have "unat u < 2 ^ 64" using unat_u64_less[of u] by simp
  then show ?thesis
    using digits8[of "unat u"]
    by (simp add: be_bytes_def unsigned_ucast_eq take_bit_eq_mod drop_bit_eq_div unat_div)
qed

lemma be_bytes_order: "be_bytes u < be_bytes v \<longleftrightarrow> u < v"
  by (simp add: be_val_order be_val_be_bytes word_less_nat_alt)

lemma bytes_of_be64: "push_bit 56 (ucast (ucast (drop_bit 56 v) :: byte))
      OR push_bit 48 (ucast (ucast (drop_bit 48 v) :: byte))
      OR push_bit 40 (ucast (ucast (drop_bit 40 v) :: byte))
      OR push_bit 32 (ucast (ucast (drop_bit 32 v) :: byte))
      OR push_bit 24 (ucast (ucast (drop_bit 24 v) :: byte))
      OR push_bit 16 (ucast (ucast (drop_bit 16 v) :: byte))
      OR push_bit 8 (ucast (ucast (drop_bit 8 v) :: byte))
      OR ucast (ucast v :: byte) = (v :: u64)"
  by (subst (8) bytes_of_u64 [of v, symmetric]) (simp only: or.assoc or.commute or.left_commute)

lemma get_be64_bytes:
  assumes "p = length pre"
  shows "get_be64 (pre @ be_bytes v @ post) p = Inr v"
  using assms bytes_of_be64 [of v] by (simp add: get_be64_def be_bytes_def nth_append_Sucs)



lemma xor_sign_add: "x XOR push_bit 63 1 = x + 2 ^ 63" for x :: u64
  unfolding flip_bit_eq_xor[symmetric]
  by (cases "bit x 63") (simp_all add: flip_bit_eq_if set_bit_eq unset_bit_eq)

lemma uint_xor_sign: "uint (x XOR push_bit 63 1) = sint x + 2 ^ 63" for x :: u64
  unfolding xor_sign_add
  by (simp add: sint_uint signed_take_bit_eq_take_bit_shift uint_word_ariths take_bit_eq_mod)

lemma xor_sign_less: "a XOR push_bit 63 1 < b XOR push_bit 63 1 \<longleftrightarrow> sint a < sint (b :: u64)"
  unfolding word_less_def uint_xor_sign by simp

lemma length_prollyEncodeIntKey [simp, byte_simps]: "length (prollyEncodeIntKey v) = 8"
  by (simp add: prollyEncodeIntKey_def)

lemma prollyDecodeIntKey_encode:
  "p = length pre \<Longrightarrow> prollyDecodeIntKey (pre @ prollyEncodeIntKey v @ post) p = Inr v"
  by (simp add: prollyDecodeIntKey_def prollyEncodeIntKey_def get_be64_bytes xor.assoc)

lemma prollyEncodeIntKey_less:
  "prollyEncodeIntKey a < prollyEncodeIntKey b \<longleftrightarrow> sint a < sint b"
  by (simp only: prollyEncodeIntKey_def be_bytes_order xor_sign_less)

lemma prollyEncodeIntKey_inj [simp]: "prollyEncodeIntKey a = prollyEncodeIntKey b \<longleftrightarrow> a = b"
proof
  assume e: "prollyEncodeIntKey a = prollyEncodeIntKey b"
  have d: "prollyDecodeIntKey (prollyEncodeIntKey v) 0 = Inr v" for v
    using prollyDecodeIntKey_encode [of 0 "[]" v "[]"] by (simp only: append_Nil append_Nil2 list.size)
  show "a = b" using d [of a] d [of b] unfolding e by (simp only: sum.inject)
qed simp

lemma be_val_surj:
  assumes "length k = 8"
  shows "be_bytes (of_nat (be_val k)) = k"
proof -
  have "be_val k < 256 ^ length k" by (rule be_val_less)
  also have "(256::nat) ^ length k = 2 ^ 64" by (simp only: assms) simp
  finally have "unat (of_nat (be_val k) :: u64) = be_val k"
    by (simp add: unsigned_of_nat take_bit_eq_mod)
  then have "be_val (be_bytes (of_nat (be_val k))) = be_val k" by (simp add: be_val_be_bytes)
  then show ?thesis
    using be_val_order [of k "be_bytes (of_nat (be_val k))"]
      be_val_order [of "be_bytes (of_nat (be_val k))" k] assms by simp
qed

lemma prollyEncodeIntKey_surj:
  assumes "length k = 8"
  obtains v where "prollyEncodeIntKey v = k"
proof
  show "prollyEncodeIntKey (of_nat (be_val k) XOR push_bit 63 1) = k"
    by (simp add: prollyEncodeIntKey_def xor.assoc be_val_surj [OF assms])
qed

lemma prollyDecodeIntKey_take:
  assumes "p + 8 \<le> length d" "prollyEncodeIntKey v = take 8 (drop p d)"
  shows "prollyDecodeIntKey d p = Inr v"
proof -
  have "d = take p d @ take 8 (drop p d) @ drop (p + 8) d"
    by (metis append_take_drop_id drop_drop add.commute)
  then have "d = take p d @ prollyEncodeIntKey v @ drop (p + 8) d" using assms(2) by simp
  moreover have "length (take p d) = p" using assms(1) by simp
  ultimately show ?thesis by (metis prollyDecodeIntKey_encode)
qed

section \<open>Key order of a tree\<close>

text \<open>\<open>prollyCompareKeys\<close>: integer keys by value, blob keys by content.\<close>

definition PROLLY_NODE_INTKEY :: byte where "PROLLY_NODE_INTKEY = 1"
definition PROLLY_NODE_BLOBKEY :: byte where "PROLLY_NODE_BLOBKEY = 2"

definition prollyCompareKeys ::
  "byte \<Rightarrow> byte list \<Rightarrow> u64 \<Rightarrow> byte list \<Rightarrow> u64 \<Rightarrow> int" where
  "prollyCompareKeys flags key1 iKey1 key2 iKey2 =
     (if flags AND PROLLY_NODE_INTKEY \<noteq> 0
      then (if sint iKey1 < sint iKey2 then -1
            else if sint iKey1 > sint iKey2 then 1
            else 0)
      else key_cmp key1 key2)"

text \<open>Masks are written on integers, which evaluate; as naturals they are the same.\<close>

lemma nat_uint_and: "nat (uint w AND int n) = unat w AND n"
proof -
  have "uint w = int (unat w)" by simp
  then have "uint w AND int n = int (unat w AND n)" by (simp only: of_nat_and_eq)
  then show ?thesis by (simp only: nat_int)
qed

end
