(* ===== verification/Probe.thy ===== *)
theory Probe
  imports Prelude
begin

text \<open>
  Linear probing in an open-addressing table, shared by the three hash tables of the
  engine (\<open>prolly_hashset.c\<close>, the set of \<open>doltlite_ancestor.c\<close> and the key index of
  \<open>prolly_mutmap.c\<close>).  A table is a list of optional keys; a key's search starts at a
  slot computed from its hash and walks the slots cyclically.  The invariant says that
  no key is separated from its start slot by an empty slot; under it a search that
  stops at the first empty slot finds exactly the stored keys.
\<close>

section \<open>Masks\<close>

definition pow2 :: "nat \<Rightarrow> bool" where
  "pow2 n \<longleftrightarrow> (\<exists>k. n = 2 ^ k)"

lemma pow2_pos [simp]: "pow2 n \<Longrightarrow> 0 < n"
  by (auto simp: pow2_def)

lemma pow2_double [intro]: "pow2 n \<Longrightarrow> pow2 (n * 2)"
  by (auto simp: pow2_def intro: exI [of _ "Suc _"])

lemma double_until_pow2: "pow2 n \<Longrightarrow> pow2 (double_until n need)"
proof (induction n need rule: double_until.induct)
  case (1 n need)
  then show ?case by (subst double_until.simps) auto
qed

lemma and_mask_pow2: "pow2 n \<Longrightarrow> x AND (n - 1) = x mod (n :: nat)"
  unfolding pow2_def
  by (elim exE) (simp only: mask_eq_exp_minus_1 [symmetric] take_bit_eq_mask [symmetric] take_bit_eq_mod)

lemma and_mask_pow2_Suc: "pow2 n \<Longrightarrow> x AND (n - Suc 0) = x mod (n :: nat)"
  using and_mask_pow2 [of n x] by simp

section \<open>Searching\<close>

fun probe :: "'k option list \<Rightarrow> 'k \<Rightarrow> nat \<Rightarrow> nat \<Rightarrow> nat option" where
  "probe t k s 0 = None"
| "probe t k s (Suc m) =
     (case t ! (s mod length t) of
        None \<Rightarrow> None
      | Some k' \<Rightarrow> if k' = k then Some (s mod length t) else probe t k (Suc s) m)"

fun first_free :: "'k option list \<Rightarrow> nat \<Rightarrow> nat \<Rightarrow> nat option" where
  "first_free t s 0 = None"
| "first_free t s (Suc m) =
     (if t ! (s mod length t) = None then Some (s mod length t) else first_free t (Suc s) m)"

text \<open>Slot \<open>j\<close> is reached from \<open>s\<close> without crossing an empty slot.\<close>

definition reaches :: "'k option list \<Rightarrow> nat \<Rightarrow> nat \<Rightarrow> bool" where
  "reaches t s j \<longleftrightarrow>
     (\<exists>d < length t. j = (s + d) mod length t \<and> (\<forall>i < d. t ! ((s + i) mod length t) \<noteq> None))"

definition probe_inv :: "('k \<Rightarrow> nat) \<Rightarrow> 'k option list \<Rightarrow> bool" where
  "probe_inv st t \<longleftrightarrow>
     (\<forall>j < length t. \<forall>k. t ! j = Some k \<longrightarrow> reaches t (st k) j) \<and>
     (\<forall>i < length t. \<forall>j < length t. t ! i \<noteq> None \<longrightarrow> t ! i = t ! j \<longrightarrow> i = j)"

lemma probe_inv_unique:
  "probe_inv st t \<Longrightarrow> i < length t \<Longrightarrow> j < length t \<Longrightarrow> t ! i = Some k \<Longrightarrow> t ! j = Some k \<Longrightarrow> i = j"
  unfolding probe_inv_def by (metis option.distinct(1))

lemma probe_inv_reaches:
  "probe_inv st t \<Longrightarrow> j < length t \<Longrightarrow> t ! j = Some k \<Longrightarrow> reaches t (st k) j"
  unfolding probe_inv_def by blast

lemma probe_invI:
  assumes "\<And>j k. j < length t \<Longrightarrow> t ! j = Some k \<Longrightarrow> reaches t (st k) j"
    and "\<And>i j k. i < length t \<Longrightarrow> j < length t \<Longrightarrow> t ! i = Some k \<Longrightarrow> t ! j = Some k \<Longrightarrow> i = j"
  shows "probe_inv st t"
  unfolding probe_inv_def using assms by (metis option.exhaust)

definition table_keys :: "'k option list \<Rightarrow> 'k set" where
  "table_keys t = {k. Some k \<in> set t}"

lemma table_keys_conv: "k \<in> table_keys t \<longleftrightarrow> (\<exists>j < length t. t ! j = Some k)"
  by (auto simp: table_keys_def in_set_conv_nth)

lemma finite_table_keys [simp]: "finite (table_keys t)"
proof -
  have "table_keys t = {k. Some k \<in> set t}" by (simp add: table_keys_def)
  also have "finite \<dots>" by (rule finite_imageD [where f = Some])
      (auto intro: finite_subset [where B = "set t"])
  finally show ?thesis .
qed

lemma probe_sound:
  "length t > 0 \<Longrightarrow> probe t k s m = Some j \<Longrightarrow> j < length t \<and> t ! j = Some k"
  by (induction t k s m rule: probe.induct) (auto split: option.splits if_splits)

lemma probe_skip:
  assumes "\<forall>i < d. \<exists>k'. t ! ((s + i) mod length t) = Some k' \<and> k' \<noteq> k"
  shows "probe t k s (d + m) = probe t k (s + d) m"
  using assms
proof (induction d arbitrary: s)
  case (Suc d)
  from Suc.prems have "\<exists>k'. t ! (s mod length t) = Some k' \<and> k' \<noteq> k"
    by (metis add_0_right zero_less_Suc)
  then have "probe t k s (Suc d + m) = probe t k (Suc s) (d + m)" by auto
  moreover have "\<forall>i < d. \<exists>k'. t ! ((Suc s + i) mod length t) = Some k' \<and> k' \<noteq> k"
    using Suc.prems by (metis Suc_less_eq add_Suc add_Suc_right)
  ultimately show ?case using Suc.IH [of "Suc s"] by simp
qed simp

lemma mod_window_inj:
  assumes "(s + i) mod n = (s + d) mod n" "i < n" "d < (n :: nat)"
  shows "i = d"
proof -
  have *: "i = d" if "(s + i) mod n = (s + d) mod n" "i \<le> d" "d < n" for i d
  proof -
    have "n dvd (s + d) - (s + i)"
      using that by (metis mod_eq_dvd_iff_nat add_le_cancel_left)
    then have "n dvd d - i" by simp
    then have "d - i = 0" using that by (metis dvd_imp_le less_imp_diff_less not_gr0 not_le)
    then show ?thesis using that by simp
  qed
  show ?thesis
    using * [of i d] * [of d i] assms by (cases "i \<le> d") auto
qed

lemma probe_complete:
  assumes inv: "probe_inv st t" and j: "j < length t" "t ! j = Some k"
  shows "probe t k (st k) (length t) = Some j"
proof -
  obtain d where d: "d < length t" "j = (st k + d) mod length t"
    and occ: "\<forall>i < d. t ! ((st k + i) mod length t) \<noteq> None"
    using probe_inv_reaches [OF inv j] unfolding reaches_def by blast
  have other: "\<exists>k'. t ! ((st k + i) mod length t) = Some k' \<and> k' \<noteq> k" if "i < d" for i
  proof -
    have "t ! ((st k + i) mod length t) \<noteq> Some k"
    proof
      assume "t ! ((st k + i) mod length t) = Some k"
      moreover have "(st k + i) mod length t < length t" using d(1) by (intro mod_less_divisor) linarith
      ultimately have "(st k + i) mod length t = (st k + d) mod length t"
        using probe_inv_unique [OF inv, of "(st k + i) mod length t" j] j d by simp
      then show False using mod_window_inj [of "st k" i "length t" d] d that by simp
    qed
    then show ?thesis using occ that by (metis not_None_eq)
  qed
  obtain m where m: "length t = d + Suc m" using d by (metis less_imp_Suc_add add_Suc_right)
  have "probe t k (st k) (length t) = probe t k (st k + d) (Suc m)"
    unfolding m by (rule probe_skip) (use other m in auto)
  then show ?thesis using j d by simp
qed

lemma probe_None:
  assumes "probe_inv st t" "length t > 0"
  shows "probe t k (st k) (length t) = None \<longleftrightarrow> k \<notin> table_keys t"
  using assms probe_complete [OF assms(1)] probe_sound [of t k "st k" "length t"]
  by (cases "probe t k (st k) (length t)") (auto simp: table_keys_conv)

lemma first_free_Some:
  assumes "first_free t s m = Some j" "length t > 0"
  shows "\<exists>d < m. j = (s + d) mod length t \<and> t ! j = None \<and>
           (\<forall>i < d. t ! ((s + i) mod length t) \<noteq> None)"
  using assms
proof (induction t s m rule: first_free.induct)
  case (2 t s m)
  show ?case
  proof (cases "t ! (s mod length t) = None")
    case True
    with 2 show ?thesis by (auto intro!: exI [of _ 0])
  next
    case False
    with 2 obtain d where "d < m" "j = (Suc s + d) mod length t" "t ! j = None"
      "\<forall>i < d. t ! ((Suc s + i) mod length t) \<noteq> None" by auto
    with False show ?thesis
      by (intro exI [of _ "Suc d"]) (auto simp: less_Suc_eq_0_disj)
  qed
qed simp

lemma first_free_exists:
  assumes "j < length t" "t ! j = None"
  shows "\<exists>j'. first_free t s (length t) = Some j'"
proof -
  have n: "length t > 0" using assms by linarith
  define d where "d = (j + length t - s mod length t) mod length t"
  have dn: "d < length t" using n by (simp add: d_def)
  have sj: "(s + d) mod length t = j"
  proof -
    have "s mod length t < length t" using n by simp
    then have "(s mod length t + (j + length t - s mod length t)) = j + length t" by simp
    then have "(s + d) mod length t = (j + length t) mod length t"
      unfolding d_def by (metis mod_add_left_eq mod_add_right_eq)
    then show ?thesis using assms by simp
  qed
  have gen: "\<exists>j'. first_free t s (d' + Suc m) = Some j'" if "t ! ((s + d') mod length t) = None" for d' m s
    using that by (induction d' arbitrary: s) auto
  obtain m where "length t = d + Suc m" using dn by (metis less_imp_Suc_add add_Suc_right)
  then show ?thesis using gen [of s d m] assms sj by simp
qed

text \<open>Storing a new key in the first free slot of its path keeps the invariant.\<close>

lemma probe_inv_insert:
  assumes inv: "probe_inv st t" and new: "k \<notin> table_keys t"
    and free: "first_free t (st k) (length t) = Some j" and n: "length t > 0"
  shows "probe_inv st (t[j := Some k])" "table_keys (t[j := Some k]) = insert k (table_keys t)"
    "j < length t" "t ! j = None"
proof -
  obtain d where d: "d < length t" "j = (st k + d) mod length t" and tj: "t ! j = None"
    and occ: "\<forall>i < d. t ! ((st k + i) mod length t) \<noteq> None"
    using first_free_Some [OF free n] by blast
  show jn: "j < length t" using d n by simp
  show "t ! j = None" by (rule tj)
  have keep: "t[j := Some k] ! i \<noteq> None" if "t ! i \<noteq> None" for i
    using that jn by (cases "i = j") auto
  have r: "reaches (t[j := Some k]) s i" if "reaches t s i" for s i
  proof -
    obtain e where e: "e < length t" "i = (s + e) mod length t"
      "\<forall>i' < e. t ! ((s + i') mod length t) \<noteq> None"
      using \<open>reaches t s i\<close> unfolding reaches_def by auto
    then show ?thesis unfolding reaches_def using keep by (intro exI [of _ e]) simp
  qed
  have rk: "reaches (t[j := Some k]) (st k) j"
    unfolding reaches_def using d occ keep by (intro exI [of _ d]) auto
  show "probe_inv st (t[j := Some k])"
  proof (rule probe_invI)
    fix i k' assume i: "i < length (t[j := Some k])" "t[j := Some k] ! i = Some k'"
    show "reaches (t[j := Some k]) (st k') i"
    proof (cases "i = j")
      case True
      then show ?thesis using i jn rk by simp
    next
      case False
      then show ?thesis using i r probe_inv_reaches [OF inv] by simp
    qed
  next
    fix i i' k' assume "i < length (t[j := Some k])" "i' < length (t[j := Some k])"
      "t[j := Some k] ! i = Some k'" "t[j := Some k] ! i' = Some k'"
    then show "i = i'"
      using new probe_inv_unique [OF inv, of i i' k'] jn
      by (cases "i = j"; cases "i' = j") (auto simp: table_keys_conv)
  qed
  show "table_keys (t[j := Some k]) = insert k (table_keys t)"
  proof (rule set_eqI)
    fix x
    show "x \<in> table_keys (t[j := Some k]) \<longleftrightarrow> x \<in> insert k (table_keys t)"
    proof
      assume "x \<in> table_keys (t[j := Some k])"
      then obtain i where "i < length t" "t[j := Some k] ! i = Some x"
        by (auto simp: table_keys_conv)
      then show "x \<in> insert k (table_keys t)"
        by (cases "i = j") (auto simp: table_keys_conv)
    next
      assume "x \<in> insert k (table_keys t)"
      then consider "x = k" | i where "i < length t" "t ! i = Some x" "i \<noteq> j"
        using tj unfolding table_keys_conv by (metis insertE option.distinct(1) table_keys_conv)
      then show "x \<in> table_keys (t[j := Some k])"
      proof cases
        case 1
        with jn show ?thesis by (simp add: table_keys_def set_update_memI)
      next
        case 2
        then show ?thesis unfolding table_keys_conv by (intro exI [of _ i]) simp
      qed
    qed
  qed
qed

lemma probe_inv_replicate [simp]: "probe_inv st (replicate n None)"
  by (simp add: probe_inv_def)

lemma table_keys_replicate [simp]: "table_keys (replicate n None) = {}"
  by (auto simp: table_keys_def)

text \<open>The load factor guarantees a free slot.\<close>

lemma card_table_keys_less:
  assumes inv: "probe_inv st t" and c: "card (table_keys t) < length t"
  shows "\<exists>j < length t. t ! j = None"
proof (rule ccontr)
  assume "\<not> ?thesis"
  then have full: "\<forall>j < length t. t ! j \<noteq> None" by simp
  have inj: "inj_on (\<lambda>j. the (t ! j)) {..<length t}"
  proof (rule inj_onI)
    fix i j assume ij: "i \<in> {..<length t}" "j \<in> {..<length t}" "the (t ! i) = the (t ! j)"
    have l: "i < length t" "j < length t" using ij(1,2) by simp_all
    obtain a where a: "t ! i = Some a" using full l(1) by blast
    obtain b where b: "t ! j = Some b" using full l(2) by blast
    from ij(3) have "a = b" unfolding a b by simp
    then show "i = j" using probe_inv_unique [OF inv l a] b by simp
  qed
  have "(\<lambda>j. the (t ! j)) ` {..<length t} \<subseteq> table_keys t"
  proof
    fix x assume "x \<in> (\<lambda>j. the (t ! j)) ` {..<length t}"
    then obtain j where j: "j < length t" "x = the (t ! j)" by auto
    moreover obtain y where "t ! j = Some y" using full j(1) by blast
    ultimately have "t ! j = Some x" by simp
    with j show "x \<in> table_keys t" unfolding table_keys_conv by blast
  qed
  then have "card {..<length t} \<le> card (table_keys t)"
    using card_image [OF inj] by (metis card_mono finite_table_keys)
  with c show False by simp
qed

end
