(* ===== verification/Search.thy ===== *)
theory Search
  imports Prelude
begin

text \<open>
  The binary search that \<open>prollyNodeSearchBlob\<close>, \<open>prollyNodeSearchInt\<close>, the ordered
  array of \<open>prolly_mutmap.c\<close> and the chunk index of \<open>chunk_store.c\<close> share.  The
  comparison is the argument: it gives the sign of the sought key against the key at a
  position.  On a strictly descending sequence of signs the search finds the zero if
  there is one, and otherwise the position where the sign turns.
\<close>

function bsearch :: "(nat \<Rightarrow> int res) \<Rightarrow> int \<Rightarrow> int \<Rightarrow> (int \<times> bool) res" where
  "bsearch cmp lo hi =
     (if lo \<le> hi then
        let mid = lo + (hi - lo) div 2 in
        bindR (cmp (nat mid)) (\<lambda>c.
          if c = 0 then Inr (mid, True)
          else if c < 0 then bsearch cmp lo (mid - 1)
          else bsearch cmp (mid + 1) hi)
      else Inr (lo, False))"
  by pat_completeness auto
termination
  by (relation "measure (\<lambda>(cmp, lo, hi). nat (hi + 1 - lo))") auto

declare bsearch.simps [simp del]

text \<open>The signs of a sought key against a strictly sorted sequence of \<open>n\<close> keys.\<close>

definition descending :: "(nat \<Rightarrow> int) \<Rightarrow> nat \<Rightarrow> bool" where
  "descending s n \<longleftrightarrow> (\<forall>i j. i < j \<longrightarrow> j < n \<longrightarrow> s i \<le> 0 \<longrightarrow> s j < 0)"

definition bsearch_post :: "(nat \<Rightarrow> int) \<Rightarrow> nat \<Rightarrow> int \<times> bool \<Rightarrow> bool" where
  "bsearch_post s n r \<longleftrightarrow> (case r of (i, found) \<Rightarrow>
     0 \<le> i \<and> nat i \<le> n \<and>
     (if found then nat i < n \<and> s (nat i) = 0
      else (\<forall>j < n. s j \<noteq> 0 \<and> (s j > 0 \<longleftrightarrow> j < nat i))))"

lemma bsearch_correct_aux:
  assumes cmp: "\<And>i. i < n \<Longrightarrow> cmp i = Inr (s i)" and desc: "descending s n"
  shows "0 \<le> lo \<Longrightarrow> hi < int n \<Longrightarrow> lo \<le> hi + 1 \<Longrightarrow>
     (\<forall>j < nat lo. s j > 0) \<Longrightarrow> (\<forall>j < n. nat (hi + 1) \<le> j \<longrightarrow> s j < 0) \<Longrightarrow>
     \<exists>r. bsearch cmp lo hi = Inr r \<and> bsearch_post s n r"
proof (induction "nat (hi + 1 - lo)" arbitrary: lo hi rule: less_induct)
  case less
  note prems = less.prems
  show ?case
  proof (cases "lo \<le> hi")
    case False
    then have e: "lo = hi + 1" using prems(3) by simp
    have "s j \<noteq> 0 \<and> (s j > 0 \<longleftrightarrow> j < nat lo)" if "j < n" for j
      using prems(4,5) that e by (cases "j < nat lo") (fastforce simp: not_less)+
    then show ?thesis
      using prems(1,2) e False unfolding bsearch_post_def by (subst bsearch.simps) simp
  next
    case True
    define mid where "mid = lo + (hi - lo) div 2"
    have m: "lo \<le> mid" "mid \<le> hi" "0 \<le> mid" "nat mid < n"
      using True prems(1,2) by (simp_all add: mid_def)
    have step: "bsearch cmp lo hi =
        (if s (nat mid) = 0 then Inr (mid, True)
         else if s (nat mid) < 0 then bsearch cmp lo (mid - 1) else bsearch cmp (mid + 1) hi)"
      using True cmp [OF m(4)] by (subst bsearch.simps) (simp add: Let_def mid_def [symmetric])
    consider "s (nat mid) = 0" | "s (nat mid) < 0" | "s (nat mid) > 0" by linarith
    then show ?thesis
    proof cases
      case 1
      then show ?thesis using step m by (simp add: bsearch_post_def)
    next
      case 2
      have right: "\<forall>j < n. nat (mid - 1 + 1) \<le> j \<longrightarrow> s j < 0"
      proof (intro allI impI)
        fix j assume "j < n" "nat (mid - 1 + 1) \<le> j"
        then have "j = nat mid \<or> nat mid < j" by auto
        then show "s j < 0"
          using 2 desc \<open>j < n\<close> unfolding descending_def by (meson less_imp_le)
      qed
      have "\<exists>r. bsearch cmp lo (mid - 1) = Inr r \<and> bsearch_post s n r"
        by (rule less.hyps) (use m prems right in simp_all)
      then show ?thesis using step 2 by simp
    next
      case 3
      have left: "\<forall>j < nat (mid + 1). s j > 0"
      proof (intro allI impI)
        fix j assume "j < nat (mid + 1)"
        then have "j = nat mid \<or> j < nat mid" using m(3) by auto
        then show "s j > 0"
          using 3 desc m(4) unfolding descending_def by (meson not_le less_not_sym)
      qed
      have "\<exists>r. bsearch cmp (mid + 1) hi = Inr r \<and> bsearch_post s n r"
        by (rule less.hyps) (use m prems left True in simp_all)
      then show ?thesis using step 3 by simp
    qed
  qed
qed

lemma bsearch_correct:
  assumes "\<And>i. i < n \<Longrightarrow> cmp i = Inr (s i)" and "descending s n"
  obtains r where "bsearch cmp 0 (int n - 1) = Inr r" "bsearch_post s n r"
  using bsearch_correct_aux [where cmp = cmp and n = n and s = s and lo = 0 and hi = "int n - 1"] assms
  by auto

text \<open>A sorted list of keys gives a descending sequence of signs.\<close>

lemma sorted_descending:
  fixes ks :: "'k::linorder list"
  assumes "sorted_wrt (<) ks" and "\<And>i. i < length ks \<Longrightarrow> s i \<le> 0 \<longleftrightarrow> k \<le> ks ! i"
    and "\<And>i. i < length ks \<Longrightarrow> s i < 0 \<longleftrightarrow> k < ks ! i"
  shows "descending s (length ks)"
  unfolding descending_def
proof (intro allI impI)
  fix i j assume ij: "i < j" "j < length ks" and "s i \<le> 0"
  then have "k \<le> ks ! i" using assms(2) by simp
  also have "ks ! i < ks ! j" using ij sorted_wrt_nth_less [OF assms(1)] by simp
  finally show "s j < 0" using assms(3) ij by simp
qed

text \<open>The search never fails when the comparison does not, whatever the order of the keys.\<close>

lemma bsearch_total:
  "(\<And>i. i < n \<Longrightarrow> \<exists>c. cmp i = Inr c) \<Longrightarrow> 0 \<le> lo \<Longrightarrow> hi < int n \<Longrightarrow> lo \<le> hi + 1 \<Longrightarrow>
     \<exists>i f. bsearch cmp lo hi = Inr (i, f) \<and> 0 \<le> i \<and> i \<le> int n \<and> (f \<longrightarrow> i < int n)"
proof (induction "nat (hi + 1 - lo)" arbitrary: lo hi rule: less_induct)
  case less
  note prems = less.prems
  show ?case
  proof (cases "lo \<le> hi")
    case False
    then show ?thesis using prems by (subst bsearch.simps) auto
  next
    case True
    define mid where "mid = lo + (hi - lo) div 2"
    have m: "lo \<le> mid" "mid \<le> hi" "0 \<le> mid" "nat mid < n"
      using True prems(2,3) by (simp_all add: mid_def)
    obtain c where c: "cmp (nat mid) = Inr c" using prems(1) m(4) by blast
    have l: "\<exists>i f. bsearch cmp lo (mid - 1) = Inr (i, f) \<and> 0 \<le> i \<and> i \<le> int n \<and> (f \<longrightarrow> i < int n)"
      by (rule less.hyps) (use m prems in simp_all)
    have r: "\<exists>i f. bsearch cmp (mid + 1) hi = Inr (i, f) \<and> 0 \<le> i \<and> i \<le> int n \<and> (f \<longrightarrow> i < int n)"
      by (rule less.hyps) (use m prems True in simp_all)
    have step: "bsearch cmp lo hi = (if c = 0 then Inr (mid, True)
        else if c < 0 then bsearch cmp lo (mid - 1) else bsearch cmp (mid + 1) hi)"
      using True c by (subst bsearch.simps) (simp add: Let_def mid_def [symmetric])
    consider "c = 0" | "c < 0" | "c > 0" by linarith
    then show ?thesis
    proof cases
      case 1
      then show ?thesis using step m prems(3) by (intro exI [of _ mid] exI [of _ True]) simp
    qed (use step l r in simp_all)
  qed
qed

end
