(* ===== verification/Interfaces.thy ===== *)
theory Interfaces
  imports Prelude
begin

text \<open>
  The contracts between the components, as locales.  \<open>visited_set\<close> is what the graph
  walks (garbage collection, ancestor search) rely on in their set of visited hashes, \<open>edit_map\<close>
  what the writers of a table rely on in its map of pending edits, and \<open>chunk_repo\<close> what the
  writers and readers of trees rely on in the chunk store.
  Each contract is interpreted, in the theory of the component that provides it, on
  the definitions that model that component.
\<close>

section \<open>Visited sets\<close>

text \<open>
  A walk calls \<open>contains\<close> and \<open>add\<close>.  The laws: an insertion keeps a valid set valid and adds
  exactly the key; it fails only where the set has no \<open>room\<close>, and then for lack of memory; the
  membership test decides the set.
\<close>

locale visited_set =
  fixes inv :: "'s \<Rightarrow> bool"
    and abs :: "'s \<Rightarrow> 'k set"
    and contains :: "'s \<Rightarrow> 'k \<Rightarrow> bool"
    and add :: "'s \<Rightarrow> 'k \<Rightarrow> 's res"
    and room :: "'k set \<Rightarrow> bool"
  assumes contains_iff: "inv s \<Longrightarrow> contains s k \<longleftrightarrow> k \<in> abs s"
    and add_Inr: "inv s \<Longrightarrow> add s k = Inr s' \<Longrightarrow> inv s' \<and> abs s' = insert k (abs s)"
    and add_Inl: "inv s \<Longrightarrow> add s k = Inl e \<Longrightarrow> e = SQLITE_NOMEM \<and> \<not> room (abs s)"
    and room_subset: "room T \<Longrightarrow> S \<subseteq> T \<Longrightarrow> room S"
begin

lemma add_ok: "inv s \<Longrightarrow> room (abs s) \<Longrightarrow> \<exists>s'. add s k = Inr s' \<and> inv s' \<and> abs s' = insert k (abs s)"
  using add_Inr [of s k] add_Inl [of s k] by (cases "add s k") auto

text \<open>Marking a list of keys: the set gains exactly the list, unless the list has no room.\<close>

definition add_all :: "'s \<Rightarrow> 'k list \<Rightarrow> 's res" where
  "add_all s ks = foldl (\<lambda>r k. bindR r (\<lambda>s. add s k)) (Inr s) ks"

lemma add_all_Inl: "foldl (\<lambda>r k. bindR r (\<lambda>s. add s k)) (Inl e) ks = Inl e"
  by (induction ks) simp_all

lemma add_all_simps: "add_all s [] = Inr s" "add_all s (k # ks) = bindR (add s k) (\<lambda>s. add_all s ks)"
  by (simp add: add_all_def) (cases "add s k"; simp add: add_all_def add_all_Inl)

lemma add_all_ok:
  "inv s \<Longrightarrow> (\<exists>s'. add_all s ks = Inr s' \<and> inv s' \<and> abs s' = abs s \<union> set ks)
     \<or> add_all s ks = Inl SQLITE_NOMEM \<and> \<not> room (abs s \<union> set ks)"
proof (induction ks arbitrary: s)
  case (Cons k ks)
  show ?case
  proof (cases "add s k")
    case (Inl e)
    then show ?thesis
      using add_Inl [OF Cons.prems Inl] room_subset [of "abs s \<union> set (k # ks)" "abs s"] by (auto simp: add_all_simps)
  next
    case (Inr s1)
    then show ?thesis using add_Inr [OF Cons.prems Inr] Cons.IH [of s1] by (auto simp: add_all_simps)
  qed
qed (simp add: add_all_simps)

lemma contains_after_add:
  "inv s \<Longrightarrow> add s k = Inr s' \<Longrightarrow> contains s' k' \<longleftrightarrow> k' = k \<or> contains s k'"
  using add_Inr [of s k s'] by (auto simp: contains_iff)

end

section \<open>Edit maps\<close>

text \<open>
  The pending edits of a table, as the mutation, flush and merge code uses them: an edit is
  \<open>Some v\<close> (write the value) or \<open>None\<close> (delete the key).  The laws: an insertion and a deletion of
  a valid key succeed and record exactly that edit, a lookup changes nothing and returns it.
\<close>

locale edit_map =
  fixes inv :: "'s \<Rightarrow> bool"
    and abs :: "'s \<Rightarrow> 'k \<rightharpoonup> 'v option"
    and valid :: "'k \<Rightarrow> bool"
    and ins :: "'s \<Rightarrow> 'k \<Rightarrow> 'v \<Rightarrow> 's res"
    and del :: "'s \<Rightarrow> 'k \<Rightarrow> 's res"
    and find :: "'s \<Rightarrow> 'k \<Rightarrow> ('s \<times> 'v option option) res"
  assumes ins_ok: "inv s \<Longrightarrow> valid k \<Longrightarrow> \<exists>s'. ins s k v = Inr s' \<and> inv s' \<and> abs s' = (abs s)(k \<mapsto> Some v)"
    and del_ok: "inv s \<Longrightarrow> valid k \<Longrightarrow> \<exists>s'. del s k = Inr s' \<and> inv s' \<and> abs s' = (abs s)(k \<mapsto> None)"
    and find_ok: "inv s \<Longrightarrow> valid k \<Longrightarrow> find s k = Inr (s, abs s k)"
begin

definition apply_edit :: "'s \<Rightarrow> 'k \<times> 'v option \<Rightarrow> 's res" where
  "apply_edit s e = (case snd e of Some v \<Rightarrow> ins s (fst e) v | None \<Rightarrow> del s (fst e))"

primrec apply_edits :: "'s \<Rightarrow> ('k \<times> 'v option) list \<Rightarrow> 's res" where
  "apply_edits s [] = Inr s"
| "apply_edits s (e # es) = bindR (apply_edit s e) (\<lambda>s. apply_edits s es)"

lemma apply_edit_ok:
  assumes "inv s" "valid (fst e)"
  shows "\<exists>s'. apply_edit s e = Inr s' \<and> inv s' \<and> abs s' = (abs s)(fst e \<mapsto> snd e)"
  using ins_ok [OF assms] del_ok [OF assms] by (cases "snd e") (simp_all add: apply_edit_def)

text \<open>A list of edits: none fails, and the last edit of each key wins.\<close>

lemma apply_edits_ok:
  "inv s \<Longrightarrow> \<forall>e \<in> set es. valid (fst e) \<Longrightarrow>
     \<exists>s'. apply_edits s es = Inr s' \<and> inv s' \<and> abs s' = abs s ++ map_of (rev es)"
proof (induction es arbitrary: s)
  case (Cons e es)
  obtain s1 where s1: "apply_edit s e = Inr s1" "inv s1" "abs s1 = (abs s)(fst e \<mapsto> snd e)"
    using apply_edit_ok [OF Cons.prems(1)] Cons.prems(2) by force
  obtain s2 where s2: "apply_edits s1 es = Inr s2" "inv s2" "abs s2 = abs s1 ++ map_of (rev es)"
    using Cons.IH [OF s1(2)] Cons.prems(2) by force
  have "abs s2 = abs s ++ map_of (rev (e # es))"
    unfolding s2(3) s1(3) by (cases e) (simp add: map_add_upd_left [symmetric] map_of_append [symmetric])
  then show ?case using s1(1) s2(1,2) by simp
qed simp

end

section \<open>Stores of chunks\<close>

text \<open>
  What the tree builder, the readers of trees and the references rely on in the chunk store: a
  set of chunks that is read by hash.  The laws speak of the chunks of a set \<open>U\<close>: adding one
  succeeds, returns its hash and adds exactly it; reading the hash of a chunk of the store
  returns the chunk; a hash that no chunk of the store has is not found.  Cursors rely on the reading alone.
\<close>

locale chunk_reader =
  fixes inv :: "'s \<Rightarrow> bool"
    and chunks :: "'s \<Rightarrow> 'd set"
    and U :: "'d set"
    and hash :: "'d \<Rightarrow> 'h"
    and get :: "'s \<Rightarrow> 'h \<Rightarrow> 's \<times> 'd res"
  assumes get_ok: "inv s \<Longrightarrow> d \<in> chunks s \<Longrightarrow> \<exists>s'. get s (hash d) = (s', Inr d) \<and> inv s' \<and> chunks s' = chunks s"

locale chunk_repo = chunk_reader inv chunks U hash get
  for inv :: "'s \<Rightarrow> bool"
    and chunks :: "'s \<Rightarrow> 'd set"
    and U :: "'d set"
    and hash :: "'d \<Rightarrow> 'h"
    and put :: "'s \<Rightarrow> 'd \<Rightarrow> ('s \<times> 'h) res"
    and get :: "'s \<Rightarrow> 'h \<Rightarrow> 's \<times> 'd res" +
  assumes put_ok: "inv s \<Longrightarrow> d \<in> U \<Longrightarrow> \<exists>s'. put s d = Inr (s', hash d) \<and> inv s' \<and> chunks s' = insert d (chunks s)"
    and get_missing: "inv s \<Longrightarrow> d \<in> U \<Longrightarrow> \<forall>d' \<in> chunks s. hash d' \<noteq> hash d \<Longrightarrow>
        \<exists>s'. get s (hash d) = (s', Inl SQLITE_NOTFOUND) \<and> inv s' \<and> chunks s' = chunks s"
begin

primrec put_all :: "'s \<Rightarrow> 'd list \<Rightarrow> ('s \<times> 'h list) res" where
  "put_all s [] = Inr (s, [])"
| "put_all s (d # ds) = bindR (put s d) (\<lambda>(s, h). bindR (put_all s ds) (\<lambda>(s, hs). Inr (s, h # hs)))"

lemma put_all_ok:
  "inv s \<Longrightarrow> set ds \<subseteq> U \<Longrightarrow>
     \<exists>s'. put_all s ds = Inr (s', map hash ds) \<and> inv s' \<and> chunks s' = chunks s \<union> set ds"
proof (induction ds arbitrary: s)
  case (Cons d ds)
  obtain s1 where s1: "put s d = Inr (s1, hash d)" "inv s1" "chunks s1 = insert d (chunks s)"
    using put_ok [OF Cons.prems(1), of d] Cons.prems(2) by auto
  obtain s2 where "put_all s1 ds = Inr (s2, map hash ds)" "inv s2" "chunks s2 = chunks s1 \<union> set ds"
    using Cons.IH [OF s1(2)] Cons.prems(2) by auto
  with s1 show ?case by simp
qed simp

text \<open>Every chunk of a list that has been put is read back, whatever was put after it.\<close>

lemma get_after_put_all:
  assumes "inv s" "set ds \<subseteq> U" "d \<in> set ds"
  shows "\<exists>s' s''. put_all s ds = Inr (s', map hash ds) \<and> get s' (hash d) = (s'', Inr d)"
proof -
  obtain s' where s: "put_all s ds = Inr (s', map hash ds)" "inv s'" "chunks s' = chunks s \<union> set ds"
    using put_all_ok [OF assms(1,2)] by blast
  then have "d \<in> chunks s'" using assms(3) by simp
  from get_ok [OF s(2) this] s(1) show ?thesis by blast
qed

lemma get_iff:
  assumes "inv s" "d \<in> U" "inj_on hash U" "chunks s \<subseteq> U"
  shows "snd (get s (hash d)) = (if d \<in> chunks s then Inr d else Inl SQLITE_NOTFOUND)"
proof (cases "d \<in> chunks s")
  case True
  then show ?thesis using get_ok [OF assms(1) True] by auto
next
  case False
  have "\<forall>d' \<in> chunks s. hash d' \<noteq> hash d" using assms(2,3,4) False by (metis inj_onD subsetD)
  then show ?thesis using get_missing [OF assms(1,2)] False by auto
qed

end

end
