(* ===== verification/HashSet.thy ===== *)
theory HashSet
  imports Bytes Probe Interfaces
begin

text \<open>
  Chunk hashes (\<open>prolly_hash.h\<close>) and the open-addressing set of hashes of
  \<open>prolly_hashset.c\<close> that the garbage collector and the chunk walkers use to mark what
  they have visited.  A slot is used or not, the start slot is the hash's first four
  bytes under the mask, a set that is half full doubles and re-inserts.  The slot counts are
  32-bit and the sizes of the allocations are cut to 32 bits, so a table has at most \<open>2 ^ 26\<close>
  slots.  The lemmas show that the set never fills up, that the growing recursion is one level
  deep, that membership after an insertion is membership in the mathematical set, and that an
  insertion fails only with \<open>SQLITE_NOMEM\<close>, when the set holds \<open>2 ^ 25\<close> hashes.
\<close>

section \<open>Hashes\<close>

text \<open>A \<open>ProllyHash\<close> is a struct of twenty bytes; \<open>memcmp\<close> of two of them is a comparison
  of the lists.\<close>

type_synonym hash = "byte list"

definition PROLLY_HASH_SIZE :: nat where "PROLLY_HASH_SIZE = 20"

definition prollyHashCompare :: "hash \<Rightarrow> hash \<Rightarrow> int" where
  "prollyHashCompare a b = memcmp a b PROLLY_HASH_SIZE"

fun hash_zero_from :: "hash \<Rightarrow> nat \<Rightarrow> bool" where
  "hash_zero_from [] n = True"
| "hash_zero_from (b # bs) 0 = True"
| "hash_zero_from (b # bs) (Suc n) = (if b \<noteq> 0 then False else hash_zero_from bs n)"

definition prollyHashIsEmpty :: "hash \<Rightarrow> bool" where
  "prollyHashIsEmpty h = hash_zero_from h PROLLY_HASH_SIZE"

definition hash0 :: hash where "hash0 = replicate PROLLY_HASH_SIZE 0"

definition hash_ok :: "hash \<Rightarrow> bool" where
  "hash_ok h \<longleftrightarrow> length h = PROLLY_HASH_SIZE"

lemma prollyHashCompare_0: "hash_ok a \<Longrightarrow> hash_ok b \<Longrightarrow> prollyHashCompare a b = 0 \<longleftrightarrow> a = b"
  unfolding prollyHashCompare_def hash_ok_def
  by (metis memcmp_same_length key_cmp_sign(1))

lemma prollyHashCompare_less:
  "hash_ok a \<Longrightarrow> hash_ok b \<Longrightarrow> prollyHashCompare a b < 0 \<longleftrightarrow> a < b"
  unfolding prollyHashCompare_def hash_ok_def
  by (metis memcmp_same_length key_cmp_sign(2))

lemma hash_zero_from_conv: "hash_zero_from h n \<longleftrightarrow> take n h = replicate (min n (length h)) 0"
  by (induction h n rule: hash_zero_from.induct) auto

lemma prollyHashIsEmpty_iff: "hash_ok h \<Longrightarrow> prollyHashIsEmpty h \<longleftrightarrow> h = hash0"
  by (simp add: prollyHashIsEmpty_def hash_zero_from_conv hash_ok_def hash0_def)

lemma hash_ok_hash0 [simp]: "hash_ok hash0"
  by (simp add: hash_ok_def hash0_def)

section \<open>State and operations\<close>

text \<open>\<open>ProllyHashSet\<close>: the two arrays have \<open>nSlots\<close> entries; what \<open>malloc\<close> leaves in
  \<open>aSlots\<close> is never read where \<open>aUsed\<close> is clear.\<close>

record hashset =
  aSlots :: "hash list"
  aUsed :: "bool list"
  nSlots :: nat
  nUsed :: nat

definition prollyHashSetSlotIndex :: "hash \<Rightarrow> nat \<Rightarrow> nat" where
  "prollyHashSetSlotIndex h n =
     (let v = ucast (h ! 0) OR push_bit 8 (ucast (h ! 1)) OR push_bit 16 (ucast (h ! 2))
            OR push_bit 24 (ucast (h ! 3)) :: u32
      in nat (uint v AND int (n - 1)))"

definition hs_new :: "nat \<Rightarrow> hashset" where
  "hs_new n = \<lparr>aSlots = replicate n [], aUsed = replicate n False, nSlots = n, nUsed = 0\<rparr>"

text \<open>
  The two \<open>sqlite3_malloc\<close> calls for \<open>n\<close> slots, as \<open>Init\<close> and \<open>Grow\<close> make them.  The size
  \<open>n * sizeof(ProllyHash)\<close> is cut to an \<open>int\<close>: where the cut size is positive but too small for
  \<open>n\<close> slots, the accesses to \<open>aSlots\<close> would leave the array.
\<close>

definition hs_alloc :: "int \<Rightarrow> hashset res" where
  "hs_alloc n =
     bindR (sqlite3_malloc (n * int PROLLY_HASH_SIZE)) (\<lambda>size.
     bindR (sqlite3_malloc n) (\<lambda>used.
     bindR (guardR (n * int PROLLY_HASH_SIZE \<le> size) OUT_OF_BOUNDS) (\<lambda>_.
     Inr (hs_new (nat n)))))"

text \<open>
  \<open>while( n < nCapacity*2 ) n *= 2\<close> on 32-bit integers.  The twenty-fourth doubling of 256 gives
  0, and the loop runs for ever: the fuel of 32 iterations decides whether it ends.
\<close>

fun hs_double :: "nat \<Rightarrow> int \<Rightarrow> int \<Rightarrow> int res" where
  "hs_double 0 n need = Inl NO_RETURN"
| "hs_double (Suc f) n need = (if n < need then hs_double f (int32 (n * 2)) need else Inr n)"

definition prollyHashSetInit :: "int \<Rightarrow> hashset res" where
  "prollyHashSetInit nCapacity = bindR (hs_double 32 256 (int32 (nCapacity * 2))) hs_alloc"

function hs_contains_loop :: "hashset \<Rightarrow> hash \<Rightarrow> nat \<Rightarrow> nat \<Rightarrow> bool" where
  "hs_contains_loop hs h idx i =
     (if i < nSlots hs then
        let slot = (idx + i) AND (nSlots hs - 1) in
        if \<not> aUsed hs ! slot then False
        else if aSlots hs ! slot = h then True
        else hs_contains_loop hs h idx (i + 1)
      else False)"
  by pat_completeness auto
termination by (relation "measure (\<lambda>(hs, h, idx, i). nSlots hs - i)") auto

declare hs_contains_loop.simps [simp del]

definition prollyHashSetContains :: "hashset \<Rightarrow> hash \<Rightarrow> bool" where
  "prollyHashSetContains hs h = hs_contains_loop hs h (prollyHashSetSlotIndex h (nSlots hs)) 0"

function hs_add_loop :: "hashset \<Rightarrow> hash \<Rightarrow> nat \<Rightarrow> nat \<Rightarrow> hashset res" where
  "hs_add_loop hs h idx i =
     (if i < nSlots hs then
        let slot = (idx + i) AND (nSlots hs - 1) in
        if \<not> aUsed hs ! slot then
          Inr (hs\<lparr>aSlots := (aSlots hs)[slot := h], aUsed := (aUsed hs)[slot := True],
                  nUsed := nUsed hs + 1\<rparr>)
        else if aSlots hs ! slot = h then Inr hs
        else hs_add_loop hs h idx (i + 1)
      else Inl SQLITE_FULL)"
  by pat_completeness auto
termination by (relation "measure (\<lambda>(hs, h, idx, i). nSlots hs - i)") auto

declare hs_add_loop.simps [simp del]

text \<open>
  \<open>prollyHashSetAdd\<close> and \<open>prollyHashSetGrow\<close> call each other.  The growing body takes the
  insertion it calls as an argument; the insertion is unrolled by a fuel.
\<close>

fun hs_reinsert :: "(hashset \<Rightarrow> hash \<Rightarrow> hashset res) \<Rightarrow> hashset \<Rightarrow> nat list \<Rightarrow> hashset \<Rightarrow> hashset res" where
  "hs_reinsert add hs [] new = Inr new"
| "hs_reinsert add hs (i # is) new =
     (if aUsed hs ! i
      then bindR (add new (aSlots hs ! i)) (\<lambda>new. hs_reinsert add hs is new)
      else hs_reinsert add hs is new)"

definition prollyHashSetGrow ::
  "(hashset \<Rightarrow> hash \<Rightarrow> hashset res) \<Rightarrow> hashset \<Rightarrow> hashset res" where
  "prollyHashSetGrow add hs =
     bindR (hs_alloc (int32 (int (nSlots hs) * 2))) (\<lambda>newHs. hs_reinsert add hs [0..<nSlots hs] newHs)"

primrec hs_add_fuel :: "nat \<Rightarrow> hashset \<Rightarrow> hash \<Rightarrow> hashset res" where
  "hs_add_fuel 0 = (\<lambda>hs h. Inl NO_RETURN)"
| "hs_add_fuel (Suc f) = (\<lambda>hs h.
     bindR (if nUsed hs \<ge> nSlots hs div 2 then prollyHashSetGrow (hs_add_fuel f) hs else Inr hs)
       (\<lambda>hs. hs_add_loop hs h (prollyHashSetSlotIndex h (nSlots hs)) 0))"

definition prollyHashSetAdd :: "hashset \<Rightarrow> hash \<Rightarrow> hashset res" where
  "prollyHashSetAdd = hs_add_fuel 2"

section \<open>Invariant and abstraction\<close>

definition hs_table :: "hashset \<Rightarrow> hash option list" where
  "hs_table hs = map (\<lambda>i. if aUsed hs ! i then Some (aSlots hs ! i) else None) [0..<nSlots hs]"

definition hs_start :: "hashset \<Rightarrow> hash \<Rightarrow> nat" where
  "hs_start hs h = prollyHashSetSlotIndex h (nSlots hs)"

definition hs_abs :: "hashset \<Rightarrow> hash set" where
  "hs_abs hs = table_keys (hs_table hs)"

definition hs_shape :: "hashset \<Rightarrow> bool" where
  "hs_shape hs \<longleftrightarrow> length (aSlots hs) = nSlots hs \<and> length (aUsed hs) = nSlots hs
     \<and> pow2 (nSlots hs) \<and> 2 \<le> nSlots hs
     \<and> probe_inv (\<lambda>h. prollyHashSetSlotIndex h (nSlots hs)) (hs_table hs)
     \<and> card (hs_abs hs) = nUsed hs"

text \<open>No table has more than \<open>2 ^ 26\<close> slots; a set with \<open>2 ^ 25\<close> hashes has no room for another.\<close>

definition hs_max :: nat where "hs_max = 67108864"

definition hs_inv :: "hashset \<Rightarrow> bool" where
  "hs_inv hs \<longleftrightarrow> hs_shape hs \<and> nUsed hs \<le> nSlots hs div 2 \<and> nSlots hs \<le> hs_max"

definition hs_room :: "hash set \<Rightarrow> bool" where
  "hs_room S \<longleftrightarrow> finite S \<and> card S < hs_max div 2"

lemma hs_alloc_ok: "0 < n \<Longrightarrow> n \<le> hs_max \<Longrightarrow> hs_alloc (int n) = Inr (hs_new n)"
  by (simp add: hs_alloc_def sqlite3_malloc_ok SQLITE_MAX_ALLOCATION_SIZE_def PROLLY_HASH_SIZE_def hs_max_def)

lemma hs_alloc_max: "hs_alloc (int hs_max * 2) = Inl SQLITE_NOMEM"
  by (simp add: hs_alloc_def hs_max_def PROLLY_HASH_SIZE_def sqlite3_malloc_def int32_def)

lemma length_hs_table [simp]: "length (hs_table hs) = nSlots hs"
  by (simp add: hs_table_def)

lemma hs_table_nth: "i < nSlots hs \<Longrightarrow>
  hs_table hs ! i = (if aUsed hs ! i then Some (aSlots hs ! i) else None)"
  by (simp add: hs_table_def)

lemma finite_hs_abs [simp]: "finite (hs_abs hs)"
  by (simp add: hs_abs_def)

lemma hs_table_new [simp]: "hs_table (hs_new n) = replicate n None"
  by (simp add: hs_table_def hs_new_def map_replicate_trivial cong: map_cong)
     (simp add: list_eq_iff_nth_eq)

lemma hs_new_shape: "pow2 n \<Longrightarrow> 2 \<le> n \<Longrightarrow> hs_shape (hs_new n) \<and> hs_abs (hs_new n) = {}"
  by (simp add: hs_shape_def hs_abs_def) (simp add: hs_new_def)

lemma hs_contains_probe:
  "pow2 (nSlots hs) \<Longrightarrow>
     hs_contains_loop hs h idx i \<longleftrightarrow> probe (hs_table hs) h (idx + i) (nSlots hs - i) \<noteq> None"
proof (induction hs h idx i rule: hs_contains_loop.induct)
  case (1 hs h idx i)
  show ?case
  proof (cases "i < nSlots hs")
    case True
    then obtain m where m: "nSlots hs - i = Suc m" "nSlots hs - Suc i = m"
      by (metis Suc_diff_Suc)
    have b: "(idx + i) mod nSlots hs < nSlots hs" using True by simp
    show ?thesis
      using 1 True b
      by (subst hs_contains_loop.simps) (auto simp: and_mask_pow2_Suc m hs_table_nth Let_def)
  qed (simp add: hs_contains_loop.simps)
qed

lemma hs_add_loop_present:
  "pow2 (nSlots hs) \<Longrightarrow> probe (hs_table hs) h (idx + i) (nSlots hs - i) \<noteq> None \<Longrightarrow>
     hs_add_loop hs h idx i = Inr hs"
proof (induction hs h idx i rule: hs_add_loop.induct)
  case (1 hs h idx i)
  have i: "i < nSlots hs" using 1 by (cases "nSlots hs - i") auto
  then obtain m where m: "nSlots hs - i = Suc m" "nSlots hs - Suc i = m"
    by (metis Suc_diff_Suc)
  have b: "(idx + i) mod nSlots hs < nSlots hs" using i by simp
  show ?case
    using 1 i b
    by (subst hs_add_loop.simps)
       (auto simp: and_mask_pow2_Suc m hs_table_nth Let_def split: if_splits)
qed

definition hs_put :: "hashset \<Rightarrow> nat \<Rightarrow> hash \<Rightarrow> hashset" where
  "hs_put hs j h = hs\<lparr>aSlots := (aSlots hs)[j := h], aUsed := (aUsed hs)[j := True], nUsed := nUsed hs + 1\<rparr>"

lemma hs_add_loop_absent:
  "pow2 (nSlots hs) \<Longrightarrow> h \<notin> hs_abs hs \<Longrightarrow>
     first_free (hs_table hs) (idx + i) (nSlots hs - i) = Some j \<Longrightarrow>
     hs_add_loop hs h idx i = Inr (hs_put hs j h)"
proof (induction hs h idx i rule: hs_add_loop.induct)
  case (1 hs h idx i)
  have i: "i < nSlots hs" using 1 by (cases "nSlots hs - i") auto
  then obtain m where m: "nSlots hs - i = Suc m" "nSlots hs - Suc i = m"
    by (metis Suc_diff_Suc)
  have b: "(idx + i) mod nSlots hs < nSlots hs" using i by simp
  have ne: "aUsed hs ! ((idx + i) mod nSlots hs) \<Longrightarrow> aSlots hs ! ((idx + i) mod nSlots hs) \<noteq> h"
    using 1(3) b unfolding hs_abs_def table_keys_conv by (auto simp: hs_table_nth)
  show ?case
    using 1 i b ne
    by (subst hs_add_loop.simps)
       (auto simp: and_mask_pow2_Suc m hs_table_nth hs_put_def Let_def split: if_splits)
qed

lemma hs_table_put:
  "j < nSlots hs \<Longrightarrow> length (aSlots hs) = nSlots hs \<Longrightarrow> length (aUsed hs) = nSlots hs \<Longrightarrow>
     hs_table (hs_put hs j h) = (hs_table hs)[j := Some h]"
  by (auto simp: hs_table_def hs_put_def list_eq_iff_nth_eq nth_list_update)

text \<open>The insertion loop, on a set that has room.\<close>

lemma hs_add_loop_correct:
  assumes sh: "hs_shape hs" and room: "nUsed hs < nSlots hs"
  shows "\<exists>hs'. hs_add_loop hs h (prollyHashSetSlotIndex h (nSlots hs)) 0 = Inr hs'
     \<and> hs_shape hs' \<and> hs_abs hs' = insert h (hs_abs hs) \<and> nSlots hs' = nSlots hs
     \<and> nUsed hs' \<le> nUsed hs + 1"
proof (cases "h \<in> hs_abs hs")
  case True
  let ?st = "\<lambda>h. prollyHashSetSlotIndex h (nSlots hs)"
  have "probe (hs_table hs) h (?st h) (length (hs_table hs)) \<noteq> None"
    using probe_None [of ?st "hs_table hs" h] sh True by (simp add: hs_shape_def hs_abs_def)
  then show ?thesis
    using hs_add_loop_present [of hs h "?st h" 0] sh True
    by (simp add: hs_shape_def insert_absorb)
next
  case False
  let ?st = "\<lambda>h. prollyHashSetSlotIndex h (nSlots hs)" and ?t = "hs_table hs"
  have inv: "probe_inv ?st ?t" and n: "length ?t > 0" and nk: "h \<notin> table_keys ?t"
    using sh False by (simp_all add: hs_shape_def hs_abs_def)
  have "card (table_keys ?t) < length ?t" using sh room by (simp add: hs_shape_def hs_abs_def)
  then obtain e where "e < length ?t" "?t ! e = None" using card_table_keys_less [OF inv] by blast
  then obtain j where j: "first_free ?t (?st h) (length ?t) = Some j"
    using first_free_exists by blast
  note ins = probe_inv_insert [OF inv nk j n]
  have tp: "hs_table (hs_put hs j h) = ?t[j := Some h]"
    using ins(3) sh by (intro hs_table_put) (simp_all add: hs_shape_def)
  have res: "hs_add_loop hs h (?st h) 0 = Inr (hs_put hs j h)"
    using hs_add_loop_absent [of hs h "?st h" 0 j] sh False j by (simp add: hs_shape_def)
  have ab: "hs_abs (hs_put hs j h) = insert h (hs_abs hs)" using ins(2) tp by (simp add: hs_abs_def)
  moreover have "hs_shape (hs_put hs j h)"
    unfolding hs_shape_def tp ab using ins(1) sh False
    by (simp add: hs_shape_def hs_put_def)
  ultimately show ?thesis using res by (simp add: hs_put_def)
qed

lemma hs_add_fuel_room:
  assumes "hs_shape hs" "nUsed hs < nSlots hs div 2"
  shows "\<exists>hs'. hs_add_fuel (Suc f) hs h = Inr hs'
     \<and> hs_shape hs' \<and> hs_abs hs' = insert h (hs_abs hs) \<and> nSlots hs' = nSlots hs
     \<and> nUsed hs' \<le> nUsed hs + 1"
  using hs_add_loop_correct [of hs h] assms by simp

lemma hs_reinsert_correct:
  assumes "hs_shape new" "nUsed new + length is < nSlots new div 2 + 1"
  shows "\<exists>hs'. hs_reinsert (hs_add_fuel (Suc f)) hs is new = Inr hs' \<and> hs_shape hs'
     \<and> hs_abs hs' = hs_abs new \<union> {aSlots hs ! i | i. i \<in> set is \<and> aUsed hs ! i}
     \<and> nSlots hs' = nSlots new \<and> nUsed hs' \<le> nUsed new + length is"
  using assms
proof (induction "is" arbitrary: new)
  case (Cons i "is")
  show ?case
  proof (cases "aUsed hs ! i")
    case True
    obtain n1 where n1: "hs_add_fuel (Suc f) new (aSlots hs ! i) = Inr n1" "hs_shape n1"
      "hs_abs n1 = insert (aSlots hs ! i) (hs_abs new)" "nSlots n1 = nSlots new"
      "nUsed n1 \<le> nUsed new + 1"
      using hs_add_fuel_room [of new f "aSlots hs ! i"] Cons.prems by auto
    obtain n2 where "hs_reinsert (hs_add_fuel (Suc f)) hs is n1 = Inr n2" "hs_shape n2"
      "hs_abs n2 = hs_abs n1 \<union> {aSlots hs ! i | i. i \<in> set is \<and> aUsed hs ! i}"
      "nSlots n2 = nSlots n1" "nUsed n2 \<le> nUsed n1 + length is"
      using Cons.IH [of n1] n1 Cons.prems by auto
    with n1 True show ?thesis by auto
  next
    case False
    obtain n2 where "hs_reinsert (hs_add_fuel (Suc f)) hs is new = Inr n2" "hs_shape n2"
      "hs_abs n2 = hs_abs new \<union> {aSlots hs ! i | i. i \<in> set is \<and> aUsed hs ! i}"
      "nSlots n2 = nSlots new" "nUsed n2 \<le> nUsed new + length is"
      using Cons.IH [of new] Cons.prems by auto
    with False show ?thesis by auto
  qed
qed simp

lemma hs_abs_used: "hs_shape hs \<Longrightarrow> {aSlots hs ! i | i. i \<in> set [0..<nSlots hs] \<and> aUsed hs ! i} = hs_abs hs"
  unfolding hs_abs_def table_keys_def hs_table_def by (auto simp: image_iff split: if_splits)

lemma prollyHashSetGrow_correct:
  assumes "hs_shape hs" and max: "nSlots hs * 2 \<le> hs_max"
  shows "\<exists>hs'. prollyHashSetGrow (hs_add_fuel (Suc f)) hs = Inr hs' \<and> hs_shape hs'
     \<and> hs_abs hs' = hs_abs hs \<and> nSlots hs' = nSlots hs * 2 \<and> nUsed hs' = nUsed hs"
proof -
  let ?new = "hs_new (nSlots hs * 2)"
  have "hs_shape ?new \<and> hs_abs ?new = {}"
    using assms by (intro hs_new_shape) (auto simp: hs_shape_def)
  moreover have "nSlots ?new = nSlots hs * 2" "nUsed ?new = 0" by (simp_all add: hs_new_def)
  ultimately obtain hs' where "hs_reinsert (hs_add_fuel (Suc f)) hs [0..<nSlots hs] ?new = Inr hs'"
      "hs_shape hs'" "hs_abs hs' = hs_abs hs" "nSlots hs' = nSlots hs * 2"
    using hs_reinsert_correct [of ?new "[0..<nSlots hs]" f hs] hs_abs_used [OF assms(1)] by auto
  moreover from this have "nUsed hs' = nUsed hs" using assms by (simp add: hs_shape_def)
  moreover have "hs_alloc (int32 (int (nSlots hs) * 2)) = Inr ?new"
    using hs_alloc_ok [of "nSlots hs * 2"] assms by (simp add: hs_shape_def hs_max_def)
  ultimately show ?thesis by (simp add: prollyHashSetGrow_def)
qed

text \<open>
  A table that is full to its half and cannot double has \<open>2 ^ 26\<close> slots and \<open>2 ^ 25\<close> hashes:
  the insertion fails, also that of a hash the set already has.
\<close>

lemma hs_full_max:
  assumes inv: "hs_inv hs" and full: "nUsed hs \<ge> nSlots hs div 2" and max: "\<not> nSlots hs * 2 \<le> hs_max"
  shows "nSlots hs = hs_max" "\<not> hs_room (hs_abs hs)"
proof -
  obtain k where k: "nSlots hs = 2 ^ k" using inv by (auto simp: hs_inv_def hs_shape_def pow2_def)
  have "(2::nat) ^ 25 < 2 ^ k" "(2::nat) ^ k \<le> 2 ^ 26" using inv max k by (simp_all add: hs_inv_def hs_max_def)
  then have "25 < k" "k \<le> 26" using power_less_imp_less_exp power_le_imp_le_exp by (metis one_less_numeral_iff semiring_norm(76))+
  then have "k = 26" by simp
  then show n: "nSlots hs = hs_max" using k by (simp add: hs_max_def)
  then show "\<not> hs_room (hs_abs hs)" using inv full by (simp add: hs_inv_def hs_shape_def hs_room_def)
qed

lemma prollyHashSetAdd_cases:
  assumes inv: "hs_inv hs"
  shows "(\<exists>hs'. prollyHashSetAdd hs h = Inr hs' \<and> hs_inv hs' \<and> hs_abs hs' = insert h (hs_abs hs))
     \<or> prollyHashSetAdd hs h = Inl SQLITE_NOMEM \<and> \<not> hs_room (hs_abs hs)"
proof (cases "nUsed hs \<ge> nSlots hs div 2")
  case full: True
  show ?thesis
  proof (cases "nSlots hs * 2 \<le> hs_max")
    case True
    obtain g where g: "prollyHashSetGrow (hs_add_fuel (Suc 0)) hs = Inr g" "hs_shape g"
      "hs_abs g = hs_abs hs" "nSlots g = nSlots hs * 2" "nUsed g = nUsed hs"
      using prollyHashSetGrow_correct [of hs 0] inv True by (auto simp: hs_inv_def)
    have n2: "2 \<le> nSlots hs" using inv by (simp add: hs_inv_def hs_shape_def)
    have room: "nUsed g < nSlots g div 2" using g(4,5) inv n2 unfolding hs_inv_def by linarith
    then have room': "nUsed g < nSlots g" by linarith
    obtain r where "hs_add_loop g h (prollyHashSetSlotIndex h (nSlots g)) 0 = Inr r" "hs_shape r"
      "hs_abs r = insert h (hs_abs g)" "nSlots r = nSlots g" "nUsed r \<le> nUsed g + 1"
      using hs_add_loop_correct [OF g(2), of h] room' by auto
    then show ?thesis
      using full g room True by (simp add: prollyHashSetAdd_def numeral_2_eq_2 hs_inv_def)
  next
    case False
    note m = hs_full_max [OF inv full False]
    have "int32 (int hs_max * 2) = int hs_max * 2" by (simp add: hs_max_def)
    then have "prollyHashSetGrow (hs_add_fuel (Suc 0)) hs = Inl SQLITE_NOMEM"
      using hs_alloc_max m(1) by (simp add: prollyHashSetGrow_def)
    then show ?thesis using m(2) full by (simp add: prollyHashSetAdd_def numeral_2_eq_2)
  qed
next
  case False
  then have room: "nUsed hs < nSlots hs" by linarith
  obtain r where "hs_add_loop hs h (prollyHashSetSlotIndex h (nSlots hs)) 0 = Inr r" "hs_shape r"
    "hs_abs r = insert h (hs_abs hs)" "nSlots r = nSlots hs" "nUsed r \<le> nUsed hs + 1"
    using hs_add_loop_correct [of hs h] inv room by (auto simp: hs_inv_def)
  then show ?thesis
    using False inv by (simp add: prollyHashSetAdd_def numeral_2_eq_2 hs_inv_def)
qed

lemma prollyHashSetContains_iff: "hs_inv hs \<Longrightarrow> prollyHashSetContains hs h \<longleftrightarrow> h \<in> hs_abs hs"
  using probe_None [of "\<lambda>h. prollyHashSetSlotIndex h (nSlots hs)" "hs_table hs" h]
  by (simp add: prollyHashSetContains_def hs_contains_probe hs_inv_def hs_shape_def hs_abs_def)

interpretation hs: visited_set hs_inv hs_abs prollyHashSetContains prollyHashSetAdd hs_room
proof unfold_locales
  fix s h s' assume "hs_inv s" "prollyHashSetAdd s h = Inr s'"
  then show "hs_inv s' \<and> hs_abs s' = insert h (hs_abs s)" using prollyHashSetAdd_cases [of s h] by auto
next
  fix s h e assume "hs_inv s" "prollyHashSetAdd s h = Inl e"
  then show "e = SQLITE_NOMEM \<and> \<not> hs_room (hs_abs s)" using prollyHashSetAdd_cases [of s h] by auto
next
  fix S T :: "hash set" assume "hs_room T" "S \<subseteq> T"
  then show "hs_room S" using card_mono [of T S] finite_subset [of S T] by (simp add: hs_room_def)
qed (simp add: prollyHashSetContains_iff)

lemma hs_double_ok:
  "k \<le> 26 \<Longrightarrow> need \<le> 2 ^ 26 \<Longrightarrow> 26 < f + k \<Longrightarrow>
     \<exists>j. k \<le> j \<and> j \<le> 26 \<and> hs_double f (2 ^ k) need = Inr (2 ^ j)"
proof (induction f arbitrary: k)
  case (Suc f)
  show ?case
  proof (cases "2 ^ k < need")
    case True
    then have "(2::int) ^ k < 2 ^ 26" using Suc.prems(2) by simp
    then have k: "k < 26" by (rule power_less_imp_less_exp [rotated]) simp
    then have le: "(2::int) ^ Suc k \<le> 2 ^ 26" by (intro power_increasing) auto
    define m :: int where "m = 2 ^ k"
    have "0 < m" "m * 2 \<le> 67108864" using le unfolding m_def by simp_all
    then have "int32 (m * 2) = m * 2" by simp
    then have "int32 (2 ^ k * 2) = 2 ^ Suc k" by (simp add: m_def)
    then show ?thesis using True Suc.IH [of "Suc k"] Suc.prems k by (simp del: power_Suc) (meson Suc_leD)
  next
    case False
    then show ?thesis using Suc.prems by auto
  qed
qed simp

lemma prollyHashSetInit_ok:
  assumes "0 \<le> n" "n \<le> 2 ^ 25"
  shows "\<exists>hs. prollyHashSetInit n = Inr hs \<and> hs_inv hs \<and> hs_abs hs = {}"
proof -
  have c: "int32 (n * 2) = n * 2" using assms by simp
  obtain j where j: "8 \<le> j" "j \<le> 26" "hs_double 32 (2 ^ 8) (n * 2) = Inr (2 ^ j)"
    using hs_double_ok [of 8 "n * 2" 32] assms(2) by auto
  have "(2::nat) ^ j \<le> 2 ^ 26" using j(2) by (intro power_increasing) auto
  then have m: "2 ^ j \<le> hs_max" by (simp add: hs_max_def)
  have "prollyHashSetInit n = Inr (hs_new (2 ^ j))"
    using j(3) c hs_alloc_ok [of "2 ^ j"] m by (simp add: prollyHashSetInit_def)
  moreover have "(2::nat) ^ 1 \<le> 2 ^ j" using j(1) by (intro power_increasing) auto
  then have "hs_shape (hs_new (2 ^ j)) \<and> hs_abs (hs_new (2 ^ j)) = {}"
    by (intro hs_new_shape) (auto simp: pow2_def)
  ultimately show ?thesis using m by (simp add: hs_inv_def) (simp add: hs_new_def)
qed

section \<open>Properties\<close>

text \<open>
  C27. Adding to the hash set.  A set initialised for up to \<open>2 ^ 25\<close> hashes is allocated, and
  any sequence of \<open>prollyHashSetAdd\<close> calls on it succeeds with exactly the hashes that were
  added as members, or stops with \<open>SQLITE_NOMEM\<close>, which happens only where the sequence has
  \<open>2 ^ 25\<close> distinct hashes or more: never \<open>SQLITE_FULL\<close>, never an array that is too small for
  its slots, never stuck in the mutual recursion of adding and growing.
\<close>

theorem prollyHashSet_correct:
  assumes "0 \<le> n" "n \<le> 2 ^ 25"
  shows "case bindR (prollyHashSetInit n) (\<lambda>s. foldl (\<lambda>r h. bindR r (\<lambda>s. prollyHashSetAdd s h)) (Inr s) ks) of
      Inr hs \<Rightarrow> \<forall>h. prollyHashSetContains hs h = (h \<in> set ks)
    | Inl e \<Rightarrow> e = SQLITE_NOMEM \<and> 2 ^ 25 \<le> card (set ks)"
proof -
  obtain s where s: "prollyHashSetInit n = Inr s" "hs_inv s" "hs_abs s = {}"
    using prollyHashSetInit_ok [OF assms] by blast
  show ?thesis
    using hs.add_all_ok [OF s(2), of ks] s(1,3)
    by (auto simp: hs.add_all_def hs.contains_iff hs_room_def hs_max_def)
qed

lemma prollyHashSet_correct_witness:
  "case bindR (prollyHashSetInit 1) (\<lambda>s. foldl (\<lambda>r h. bindR r (\<lambda>s. prollyHashSetAdd s h)) (Inr s)
       [replicate 20 1, replicate 20 2, replicate 20 1]) of
      Inr hs \<Rightarrow> prollyHashSetContains hs (replicate 20 2) \<and> \<not> prollyHashSetContains hs (replicate 20 3)
    | Inl e \<Rightarrow> False"
proof -
  have "card (set [replicate 20 1, replicate 20 2, replicate 20 (1 :: byte)]) \<le> 3"
    by (rule order_trans [OF card_length]) simp
  moreover have "replicate 20 3 \<notin> set [replicate 20 1, replicate 20 2, replicate 20 (1 :: byte)]" by simp
  ultimately show ?thesis
    using prollyHashSet_correct [of 1 "[replicate 20 1, replicate 20 2, replicate 20 1]"]
    by (auto split: sum.splits)
qed

end
