(* ===== verification/Node.thy ===== *)
theory Node
  imports Bytes Search HashSet
begin

text \<open>
  Tree nodes (\<open>prolly_node.c\<close>, \<open>prolly_node.h\<close>): the serialised layout, its parser, the
  accessors, the two binary searches and the builder that writes a node.  A pointer into
  the node's buffer is an offset into \<open>pData\<close>; every read is checked against the buffer,
  so that a parsed node is shown to be safe to read.  The central lemmas: a node that
  parses is read in bounds, a node that the builder writes is parsed back to its rows,
  and the searches find the position of a key.
\<close>

section \<open>Parsed nodes\<close>

definition PROLLY_NODE_MAGIC :: u32 where "PROLLY_NODE_MAGIC = 0x504E4F44"
definition PROLLY_NODE_MAX_ITEMS :: nat where "PROLLY_NODE_MAX_ITEMS = 4096"
definition PROLLY_HDR_SIZE :: nat where "PROLLY_HDR_SIZE = 8"

record node =
  pData :: "byte list"
  level :: byte
  nItems :: nat
  flags :: byte
  aKeyOff :: nat
  aValOff :: nat
  pKeyData :: nat
  pValData :: nat

text \<open>One round of the check of the offset arrays.\<close>

definition check_offsets ::
  "byte list \<Rightarrow> node \<Rightarrow> u32 \<Rightarrow> u32 \<Rightarrow> nat \<Rightarrow> unit res" where
  "check_offsets d nd totalKeyBytes totalValBytes i =
     bindR (get_u32 d (aKeyOff nd + 4 * i)) (\<lambda>keyOff.
     bindR (get_u32 d (aValOff nd + 4 * i)) (\<lambda>valOff.
     bindR (guardR (\<not> (keyOff > totalKeyBytes \<or> valOff > totalValBytes)) SQLITE_CORRUPT) (\<lambda>_.
     if i > 0 then
       bindR (get_u32 d (aKeyOff nd + 4 * (i - 1))) (\<lambda>prevKeyOff.
       bindR (get_u32 d (aValOff nd + 4 * (i - 1))) (\<lambda>prevValOff.
       bindR (guardR (\<not> (keyOff < prevKeyOff \<or> valOff < prevValOff)) SQLITE_CORRUPT) (\<lambda>_.
       bindR (guardR (\<not> (flags nd AND PROLLY_NODE_INTKEY \<noteq> 0 \<and> keyOff - prevKeyOff \<noteq> 8))
                SQLITE_CORRUPT) (\<lambda>_.
       guardR (\<not> (level nd > 0 \<and> valOff - prevValOff \<noteq> of_nat PROLLY_HASH_SIZE))
         SQLITE_CORRUPT))))
     else Inr ())))"

fun check_all_offsets ::
  "byte list \<Rightarrow> node \<Rightarrow> u32 \<Rightarrow> u32 \<Rightarrow> nat list \<Rightarrow> unit res" where
  "check_all_offsets d nd tk tv [] = Inr ()"
| "check_all_offsets d nd tk tv (i # is) =
     bindR (check_offsets d nd tk tv i) (\<lambda>_. check_all_offsets d nd tk tv is)"

definition prollyNodeParse :: "byte list \<Rightarrow> node res" where
  "prollyNodeParse d =
     bindR (guardR (\<not> length d < PROLLY_HDR_SIZE) SQLITE_CORRUPT) (\<lambda>_.
     bindR (get_u32 d 0) (\<lambda>magic.
     bindR (guardR (magic = PROLLY_NODE_MAGIC) SQLITE_CORRUPT) (\<lambda>_.
     bindR (read_byte d 4) (\<lambda>lev.
     bindR (get_u16 d 5) (\<lambda>cnt.
     let count = unat cnt in
     bindR (guardR (\<not> count > PROLLY_NODE_MAX_ITEMS) SQLITE_CORRUPT) (\<lambda>_.
     bindR (read_byte d 7) (\<lambda>fl.
     bindR (guardR (\<not> (fl \<noteq> PROLLY_NODE_INTKEY \<and> fl \<noteq> PROLLY_NODE_BLOBKEY)) SQLITE_CORRUPT) (\<lambda>_.
     if count = 0 then
       bindR (guardR (\<not> lev > 0) SQLITE_CORRUPT) (\<lambda>_.
       Inr \<lparr>pData = d, level = lev, nItems = 0, flags = fl, aKeyOff = 0, aValOff = 0,
            pKeyData = PROLLY_HDR_SIZE, pValData = PROLLY_HDR_SIZE\<rparr>)
     else
       let nOffsets = (count + 1) * 4 * 2; minSize = PROLLY_HDR_SIZE + nOffsets in
       bindR (guardR (\<not> length d < minSize) SQLITE_CORRUPT) (\<lambda>_.
       let keyArr = PROLLY_HDR_SIZE; valArr = keyArr + (count + 1) * 4;
           keyData = valArr + (count + 1) * 4 in
       bindR (get_u32 d (keyArr + 4 * count)) (\<lambda>totalKeyBytes.
       bindR (get_u32 d (valArr + 4 * count)) (\<lambda>totalValBytes.
       bindR (guardR (\<not> (unat totalKeyBytes > length d \<or> unat totalValBytes > length d
                       \<or> minSize + unat totalKeyBytes + unat totalValBytes \<noteq> length d))
                SQLITE_CORRUPT) (\<lambda>_.
       let nd = \<lparr>pData = d, level = lev, nItems = count, flags = fl, aKeyOff = keyArr,
                 aValOff = valArr, pKeyData = keyData, pValData = keyData + unat totalKeyBytes\<rparr> in
       bindR (check_all_offsets d nd totalKeyBytes totalValBytes [0..<count + 1]) (\<lambda>_.
       Inr nd)))))))))))))"

section \<open>Accessors\<close>

text \<open>The accessors return the bytes their pointer and length designate.\<close>

definition prollyNodeKey :: "node \<Rightarrow> nat \<Rightarrow> byte list res" where
  "prollyNodeKey nd i =
     bindR (guardR (i < nItems nd) OUT_OF_BOUNDS) (\<lambda>_.
     bindR (get_u32 (pData nd) (aKeyOff nd + 4 * i)) (\<lambda>off0.
     bindR (get_u32 (pData nd) (aKeyOff nd + 4 * (i + 1))) (\<lambda>off1.
     read_bytes (pData nd) (pKeyData nd + unat off0) (unat (off1 - off0)))))"

definition prollyNodeValue :: "node \<Rightarrow> nat \<Rightarrow> byte list res" where
  "prollyNodeValue nd i =
     bindR (guardR (i < nItems nd) OUT_OF_BOUNDS) (\<lambda>_.
     bindR (get_u32 (pData nd) (aValOff nd + 4 * i)) (\<lambda>off0.
     bindR (get_u32 (pData nd) (aValOff nd + 4 * (i + 1))) (\<lambda>off1.
     read_bytes (pData nd) (pValData nd + unat off0) (unat (off1 - off0)))))"

definition prollyNodeIntKey :: "node \<Rightarrow> nat \<Rightarrow> u64 res" where
  "prollyNodeIntKey nd i =
     bindR (guardR (i < nItems nd) OUT_OF_BOUNDS) (\<lambda>_.
     bindR (get_u32 (pData nd) (aKeyOff nd + 4 * i)) (\<lambda>off.
     prollyDecodeIntKey (pData nd) (pKeyData nd + unat off)))"

definition prollyNodeChildHash :: "node \<Rightarrow> nat \<Rightarrow> hash res" where
  "prollyNodeChildHash nd i =
     bindR (guardR (i < nItems nd) OUT_OF_BOUNDS) (\<lambda>_.
     bindR (get_u32 (pData nd) (aValOff nd + 4 * i)) (\<lambda>off.
     read_bytes (pData nd) (pValData nd + unat off) PROLLY_HASH_SIZE))"

section \<open>Searching\<close>

text \<open>
  The result is the position and \<open>*pRes\<close>: 0 for an exact match, -1 when the key at the
  position is the first greater one, 1 when every key is smaller.
\<close>

definition search_result :: "nat \<Rightarrow> int \<times> bool \<Rightarrow> nat \<times> int" where
  "search_result n r =
     (if snd r then (nat (fst r), 0)
      else if fst r \<ge> int n then (n - 1, 1)
      else (nat (fst r), -1))"

definition prollyNodeSearchBlob :: "node \<Rightarrow> byte list \<Rightarrow> (nat \<times> int) res" where
  "prollyNodeSearchBlob nd key =
     (if nItems nd = 0 then Inr (0, -1)
      else bindR (bsearch (\<lambda>mid. bindR (prollyNodeKey nd mid) (\<lambda>midKey.
                let nCmp = (if length midKey < length key then length midKey else length key);
                    c = memcmp key midKey nCmp
                in Inr (if c = 0 then int (length key) - int (length midKey) else c)))
              0 (int (nItems nd) - 1))
            (\<lambda>r. Inr (search_result (nItems nd) r)))"

definition prollyNodeSearchInt :: "node \<Rightarrow> u64 \<Rightarrow> (nat \<times> int) res" where
  "prollyNodeSearchInt nd intKey =
     (if nItems nd = 0 then Inr (0, -1)
      else bindR (bsearch (\<lambda>mid. bindR (prollyNodeIntKey nd mid) (\<lambda>midKey.
                Inr (if intKey = midKey then 0 else if sint intKey < sint midKey then -1 else 1)))
              0 (int (nItems nd) - 1))
            (\<lambda>r. Inr (search_result (nItems nd) r)))"

section \<open>The builder\<close>

text \<open>
  \<open>ProllyNodeBuilder\<close>: the arrays are the allocated blocks, so that a reset builder still
  holds the offsets and bytes of the node before.
\<close>

definition PROLLY_BUILDER_INIT_CAP :: nat where "PROLLY_BUILDER_INIT_CAP = 64"
definition PROLLY_BUILDER_INIT_BUF :: nat where "PROLLY_BUILDER_INIT_BUF = 1024"

record builder =
  bLevel :: byte
  bFlags :: byte
  bItems :: nat
  nKeyBytes :: nat
  nValBytes :: nat
  nAlloc :: nat
  bKeyOff :: "u32 list"
  bValOff :: "u32 list"
  pKeyBuf :: "byte list"
  nKeyBufAlloc :: nat
  pValBuf :: "byte list"
  nValBufAlloc :: nat

definition prollyNodeBuilderInit :: "byte \<Rightarrow> byte \<Rightarrow> builder" where
  "prollyNodeBuilderInit lev fl =
     \<lparr>bLevel = lev, bFlags = fl, bItems = 0, nKeyBytes = 0, nValBytes = 0, nAlloc = 0,
      bKeyOff = [], bValOff = [], pKeyBuf = [], nKeyBufAlloc = 0, pValBuf = [], nValBufAlloc = 0\<rparr>"

definition builderGrowOffsets :: "builder \<Rightarrow> builder" where
  "builderGrowOffsets b =
     (let nNeeded = bItems b + 2 in
      if nNeeded > nAlloc b then
        let nNew = grow_cap (nAlloc b) PROLLY_BUILDER_INIT_CAP nNeeded
        in b\<lparr>bKeyOff := realloc 0 (bKeyOff b) nNew, bValOff := realloc 0 (bValOff b) nNew, nAlloc := nNew\<rparr>
      else b)"

definition builderGrowKeyBuf :: "builder \<Rightarrow> nat \<Rightarrow> builder" where
  "builderGrowKeyBuf b nAdd =
     (let nNeeded = nKeyBytes b + nAdd in
      if nNeeded > nKeyBufAlloc b then
        let nNew = grow_cap (nKeyBufAlloc b) PROLLY_BUILDER_INIT_BUF nNeeded
        in b\<lparr>pKeyBuf := realloc 0 (pKeyBuf b) nNew, nKeyBufAlloc := nNew\<rparr>
      else b)"

definition builderGrowValBuf :: "builder \<Rightarrow> nat \<Rightarrow> builder" where
  "builderGrowValBuf b nAdd =
     (let nNeeded = nValBytes b + nAdd in
      if nNeeded > nValBufAlloc b then
        let nNew = grow_cap (nValBufAlloc b) PROLLY_BUILDER_INIT_BUF nNeeded
        in b\<lparr>pValBuf := realloc 0 (pValBuf b) nNew, nValBufAlloc := nNew\<rparr>
      else b)"

definition builder_first :: "builder \<Rightarrow> builder" where
  "builder_first b =
     (if bItems b = 0 then b\<lparr>bKeyOff := (bKeyOff b)[0 := 0], bValOff := (bValOff b)[0 := 0]\<rparr> else b)"

definition builder_key :: "builder \<Rightarrow> byte list \<Rightarrow> builder" where
  "builder_key b key =
     (let b = (if length key > 0
               then b\<lparr>pKeyBuf := memcpy (pKeyBuf b) (nKeyBytes b) key, nKeyBytes := nKeyBytes b + length key\<rparr>
               else b)
      in b\<lparr>bKeyOff := (bKeyOff b)[bItems b + 1 := of_nat (nKeyBytes b)]\<rparr>)"

definition builder_val :: "builder \<Rightarrow> byte list \<Rightarrow> builder" where
  "builder_val b val =
     (let b = (if length val > 0
               then b\<lparr>pValBuf := memcpy (pValBuf b) (nValBytes b) val, nValBytes := nValBytes b + length val\<rparr>
               else b)
      in b\<lparr>bValOff := (bValOff b)[bItems b + 1 := of_nat (nValBytes b)]\<rparr>)"

definition prollyNodeBuilderAdd :: "builder \<Rightarrow> byte list \<Rightarrow> byte list \<Rightarrow> builder res" where
  "prollyNodeBuilderAdd b key val =
     (if bItems b \<ge> PROLLY_NODE_MAX_ITEMS then Inl SQLITE_FULL
      else
        let b = builderGrowOffsets b;
            b = builderGrowKeyBuf b (length key);
            b = builderGrowValBuf b (length val);
            b = builder_first b;
            b = builder_key b key;
            b = builder_val b val
        in Inr (b\<lparr>bItems := bItems b + 1\<rparr>))"

definition prollyNodeBuilderFinish :: "builder \<Rightarrow> byte list res" where
  "prollyNodeBuilderFinish b =
     bindR (guardR (bItems b + 1 \<le> length (bKeyOff b) \<and> bItems b + 1 \<le> length (bValOff b)) OUT_OF_BOUNDS) (\<lambda>_.
     bindR (read_bytes (pKeyBuf b) 0 (nKeyBytes b)) (\<lambda>keys.
     bindR (read_bytes (pValBuf b) 0 (nValBytes b)) (\<lambda>vals.
     Inr (put_u32 PROLLY_NODE_MAGIC @ [bLevel b] @ put_u16 (of_nat (bItems b)) @ [bFlags b]
          @ concat (map put_u32 (take (bItems b + 1) (bKeyOff b)))
          @ concat (map put_u32 (take (bItems b + 1) (bValOff b)))
          @ keys @ vals))))"

definition prollyNodeBuilderReset :: "builder \<Rightarrow> builder" where
  "prollyNodeBuilderReset b = b\<lparr>bItems := 0, nKeyBytes := 0, nValBytes := 0\<rparr>"

definition prollyNodeBuilderFree :: "builder \<Rightarrow> builder" where
  "prollyNodeBuilderFree b = prollyNodeBuilderInit 0 0"

section \<open>Parsing is safe\<close>

lemma check_all_offsets_iff:
  "check_all_offsets d nd tk tv is = Inr u \<longleftrightarrow> (\<forall>i \<in> set is. check_offsets d nd tk tv i = Inr ())"
  by (induction "is") (auto simp: res_simps)

text \<open>The offset words of a node, where they can be read.\<close>

definition key_off :: "node \<Rightarrow> nat \<Rightarrow> u32" where
  "key_off nd i = projr (get_u32 (pData nd) (aKeyOff nd + 4 * i))"

definition val_off :: "node \<Rightarrow> nat \<Rightarrow> u32" where
  "val_off nd i = projr (get_u32 (pData nd) (aValOff nd + 4 * i))"

text \<open>
  What the parser guarantees of a node: the offset arrays lie in the buffer, the offsets
  ascend and stay within the buffer, an integer key has eight bytes, a child reference
  is a hash.
\<close>

definition node_wf :: "node \<Rightarrow> bool" where
  "node_wf nd \<longleftrightarrow>
     nItems nd \<le> PROLLY_NODE_MAX_ITEMS \<and>
     (flags nd = PROLLY_NODE_INTKEY \<or> flags nd = PROLLY_NODE_BLOBKEY) \<and>
     (level nd > 0 \<longrightarrow> nItems nd > 0) \<and>
     (\<forall>i. i \<le> nItems nd \<longrightarrow> nItems nd > 0 \<longrightarrow>
        get_u32 (pData nd) (aKeyOff nd + 4 * i) = Inr (key_off nd i) \<and>
        get_u32 (pData nd) (aValOff nd + 4 * i) = Inr (val_off nd i) \<and>
        pKeyData nd + unat (key_off nd i) \<le> length (pData nd) \<and>
        pValData nd + unat (val_off nd i) \<le> length (pData nd)) \<and>
     (\<forall>i < nItems nd. key_off nd i \<le> key_off nd (i + 1) \<and> val_off nd i \<le> val_off nd (i + 1) \<and>
        (flags nd = PROLLY_NODE_INTKEY \<longrightarrow> key_off nd (i + 1) - key_off nd i = 8) \<and>
        (level nd > 0 \<longrightarrow> val_off nd (i + 1) - val_off nd i = 20))"

lemma get_u32_projr: "p + 4 \<le> length d \<Longrightarrow> get_u32 d p = Inr (projr (get_u32 d p))"
  by (simp add: get_u32_def)

lemma check_offsets_OK:
  assumes "check_offsets (pData nd) nd tk tv i = Inr ()"
  shows "get_u32 (pData nd) (aKeyOff nd + 4 * i) = Inr (key_off nd i)"
    "get_u32 (pData nd) (aValOff nd + 4 * i) = Inr (val_off nd i)"
    "key_off nd i \<le> tk" "val_off nd i \<le> tv"
    "i > 0 \<Longrightarrow> key_off nd (i - 1) \<le> key_off nd i \<and> val_off nd (i - 1) \<le> val_off nd i \<and>
       (flags nd AND PROLLY_NODE_INTKEY \<noteq> 0 \<longrightarrow> key_off nd i - key_off nd (i - 1) = 8) \<and>
       (level nd > 0 \<longrightarrow> val_off nd i - val_off nd (i - 1) = 20)"
  using assms unfolding check_offsets_def key_off_def val_off_def PROLLY_HASH_SIZE_def
  by (auto simp: res_simps not_less split: if_splits)

lemma intkey_and: "PROLLY_NODE_INTKEY AND PROLLY_NODE_INTKEY \<noteq> 0" "PROLLY_NODE_BLOBKEY AND PROLLY_NODE_INTKEY = 0"
  by (simp_all add: PROLLY_NODE_INTKEY_def PROLLY_NODE_BLOBKEY_def)

lemma prollyNodeParse_wf:
  assumes "prollyNodeParse d = Inr nd"
  shows "node_wf nd" "pData nd = d"
proof -
  show "pData nd = d"
    using assms unfolding prollyNodeParse_def Let_def
    by (auto simp: res_simps split: if_splits)
  from assms consider
      "nItems nd = 0" "level nd = 0" "flags nd = PROLLY_NODE_INTKEY \<or> flags nd = PROLLY_NODE_BLOBKEY"
    | tk tv where "0 < nItems nd" "nItems nd \<le> PROLLY_NODE_MAX_ITEMS"
        "flags nd = PROLLY_NODE_INTKEY \<or> flags nd = PROLLY_NODE_BLOBKEY"
        "pKeyData nd + unat tk = pValData nd" "pValData nd + unat tv = length (pData nd)"
        "check_all_offsets (pData nd) nd tk tv [0..<nItems nd + 1] = Inr ()"
    unfolding prollyNodeParse_def Let_def
    by (auto simp: res_simps not_less PROLLY_HDR_SIZE_def split: if_splits)
  then show "node_wf nd"
  proof cases
    case 1
    then show ?thesis by (simp add: node_wf_def)
  next
    case 2
    have c: "check_offsets (pData nd) nd tk tv i = Inr ()" if "i \<le> nItems nd" for i
      using 2(6) that by (auto simp: check_all_offsets_iff)
    note ok = check_offsets_OK [OF c]
    have b: "pKeyData nd + unat (key_off nd i) \<le> length (pData nd)"
      "pValData nd + unat (val_off nd i) \<le> length (pData nd)" if "i \<le> nItems nd" for i
      using ok(3,4) [OF that] 2(4,5) by (simp_all add: word_le_nat_alt)
    show ?thesis
      unfolding node_wf_def
    proof (intro conjI allI impI)
      fix i assume "i < nItems nd"
      then have "Suc i \<le> nItems nd" by simp
      note s = ok(5) [OF this]
      show "key_off nd i \<le> key_off nd (i + 1)" "val_off nd i \<le> val_off nd (i + 1)"
        using s by simp_all
      show "key_off nd (i + 1) - key_off nd i = 8" if "flags nd = PROLLY_NODE_INTKEY"
        using s that intkey_and by simp
      show "val_off nd (i + 1) - val_off nd i = 20" if "level nd > 0"
        using s that by simp
    qed (use 2 ok(1,2) b in auto)
  qed
qed

lemma node_wf_readable:
  assumes wf: "node_wf nd" and i: "i < nItems nd"
  shows "prollyNodeKey nd i = Inr (take (unat (key_off nd (i + 1) - key_off nd i))
             (drop (pKeyData nd + unat (key_off nd i)) (pData nd)))"
    "prollyNodeValue nd i = Inr (take (unat (val_off nd (i + 1) - val_off nd i))
             (drop (pValData nd + unat (val_off nd i)) (pData nd)))"
    "pKeyData nd + unat (key_off nd i) + unat (key_off nd (i + 1) - key_off nd i) \<le> length (pData nd)"
    "pValData nd + unat (val_off nd i) + unat (val_off nd (i + 1) - val_off nd i) \<le> length (pData nd)"
proof -
  note [simp del] = One_nat_def
  have n: "0 < nItems nd" "i \<le> nItems nd" "i + 1 \<le> nItems nd" using i by simp_all
  from wf have g: "get_u32 (pData nd) (aKeyOff nd + 4 * j) = Inr (key_off nd j)"
    "get_u32 (pData nd) (aValOff nd + 4 * j) = Inr (val_off nd j)"
    "pKeyData nd + unat (key_off nd j) \<le> length (pData nd)"
    "pValData nd + unat (val_off nd j) \<le> length (pData nd)" if "j \<le> nItems nd" for j
    using that n(1) unfolding node_wf_def by blast+
  have o: "key_off nd i \<le> key_off nd (i + 1)" "val_off nd i \<le> val_off nd (i + 1)"
    using wf i unfolding node_wf_def by blast+
  have s: "unat (key_off nd i) + unat (key_off nd (i + 1) - key_off nd i) = unat (key_off nd (i + 1))"
    "unat (val_off nd i) + unat (val_off nd (i + 1) - val_off nd i) = unat (val_off nd (i + 1))"
    using o by (simp_all add: unat_sub word_le_nat_alt)
  show kb: "pKeyData nd + unat (key_off nd i) + unat (key_off nd (i + 1) - key_off nd i) \<le> length (pData nd)"
    using g(3) [OF n(3)] s(1) by linarith
  show vb: "pValData nd + unat (val_off nd i) + unat (val_off nd (i + 1) - val_off nd i) \<le> length (pData nd)"
    using g(4) [OF n(3)] s(2) by linarith
  have gd: "guardR (i < nItems nd) OUT_OF_BOUNDS = Inr ()" using i by simp
  show "prollyNodeKey nd i = Inr (take (unat (key_off nd (i + 1) - key_off nd i))
             (drop (pKeyData nd + unat (key_off nd i)) (pData nd)))"
    unfolding prollyNodeKey_def gd g(1) [OF n(2)] g(1) [OF n(3)] bindR_Inr
    by (rule read_bytes_ok [OF kb])
  show "prollyNodeValue nd i = Inr (take (unat (val_off nd (i + 1) - val_off nd i))
             (drop (pValData nd + unat (val_off nd i)) (pData nd)))"
    unfolding prollyNodeValue_def gd g(2) [OF n(2)] g(2) [OF n(3)] bindR_Inr
    by (rule read_bytes_ok [OF vb])
qed

lemma prollyNodeKey_offset:
  "node_wf nd \<Longrightarrow> i < nItems nd \<Longrightarrow> get_u32 (pData nd) (aKeyOff nd + 4 * i) = Inr (key_off nd i)"
  "node_wf nd \<Longrightarrow> i < nItems nd \<Longrightarrow> get_u32 (pData nd) (aValOff nd + 4 * i) = Inr (val_off nd i)"
  unfolding node_wf_def by simp_all

lemma prollyNodeIntKey_key:
  assumes wf: "node_wf nd" and i: "i < nItems nd" and fl: "flags nd = PROLLY_NODE_INTKEY"
  shows "\<exists>u. prollyNodeIntKey nd i = Inr u \<and> prollyNodeKey nd i = Inr (prollyEncodeIntKey u)"
proof -
  have "key_off nd (i + 1) - key_off nd i = 8" using wf i fl unfolding node_wf_def by blast
  then have l: "unat (key_off nd (i + 1) - key_off nd i) = 8" by simp
  note r = node_wf_readable [OF wf i, unfolded l]
  let ?p = "pKeyData nd + unat (key_off nd i)"
  have "length (take 8 (drop ?p (pData nd))) = 8" using r(3) by simp
  then obtain u where u: "prollyEncodeIntKey u = take 8 (drop ?p (pData nd))"
    by (rule prollyEncodeIntKey_surj)
  then have "prollyDecodeIntKey (pData nd) ?p = Inr u"
    using r(3) by (intro prollyDecodeIntKey_take)
  then show ?thesis
    using r(1) u prollyNodeKey_offset(1) [OF wf i] by (simp add: prollyNodeIntKey_def i)
qed

lemma prollyNodeChildHash_value:
  assumes wf: "node_wf nd" and i: "i < nItems nd" and lv: "level nd > 0"
  shows "\<exists>h. prollyNodeChildHash nd i = Inr h \<and> prollyNodeValue nd i = Inr h \<and> hash_ok h"
proof -
  have "val_off nd (i + 1) - val_off nd i = 20" using wf i lv unfolding node_wf_def by blast
  then have l: "unat (val_off nd (i + 1) - val_off nd i) = 20" by simp
  note r = node_wf_readable [OF wf i, unfolded l]
  show ?thesis
    using r(2,4) prollyNodeKey_offset(2) [OF wf i]
    by (simp add: prollyNodeChildHash_def PROLLY_HASH_SIZE_def hash_ok_def i)
qed


lemma check_offsets_in_bounds:
  assumes "aKeyOff nd + 4 * i + 4 \<le> length d" "aValOff nd + 4 * i + 4 \<le> length d"
  shows "fails_only {SQLITE_CORRUPT} (check_offsets d nd tk tv i)"
  unfolding check_offsets_def using assms by (intro fails_only_intros) simp_all

lemma check_all_offsets_in_bounds:
  "\<forall>i \<in> set is. aKeyOff nd + 4 * i + 4 \<le> length d \<and> aValOff nd + 4 * i + 4 \<le> length d \<Longrightarrow>
     fails_only {SQLITE_CORRUPT} (check_all_offsets d nd tk tv is)"
  by (induction "is") (simp_all add: fails_only_bind check_offsets_in_bounds)

lemma prollyNodeParse_fails_only: "fails_only {SQLITE_CORRUPT} (prollyNodeParse d)"
  unfolding prollyNodeParse_def Let_def PROLLY_HDR_SIZE_def
  by (intro fails_only_intros check_all_offsets_in_bounds) auto

section \<open>Searching a node\<close>

definition node_holds :: "node \<Rightarrow> (byte list \<times> byte list) list \<Rightarrow> bool" where
  "node_holds nd rows \<longleftrightarrow> nItems nd = length rows \<and>
     (\<forall>i < length rows. prollyNodeKey nd i = Inr (fst (rows ! i)) \<and>
                        prollyNodeValue nd i = Inr (snd (rows ! i)))"

lemma node_wf_holds:
  assumes "node_wf nd"
  obtains rows where "node_holds nd rows"
proof
  show "node_holds nd (map (\<lambda>i. (projr (prollyNodeKey nd i), projr (prollyNodeValue nd i))) [0..<nItems nd])"
    using node_wf_readable(1,2) [OF assms] by (simp add: node_holds_def)
qed

text \<open>What the searches promise of a position and \<open>*pRes\<close>.\<close>

definition search_post :: "'k::linorder list \<Rightarrow> 'k \<Rightarrow> nat \<times> int \<Rightarrow> bool" where
  "search_post ks k ir \<longleftrightarrow> (case ir of (i, r) \<Rightarrow>
     if ks = [] then i = 0 \<and> r = -1
     else i < length ks \<and>
       (r = 0 \<and> ks ! i = k \<or>
        r = -1 \<and> k < ks ! i \<and> (\<forall>j < i. ks ! j < k) \<or>
        r = 1 \<and> i = length ks - 1 \<and> (\<forall>x \<in> set ks. x < k)))"

lemma search_result_post:
  fixes ks :: "'k::linorder list"
  assumes b: "bsearch_post s (length ks) r" and ne: "ks \<noteq> []"
    and s0: "\<And>i. i < length ks \<Longrightarrow> s i = 0 \<longleftrightarrow> ks ! i = k"
    and sp: "\<And>i. i < length ks \<Longrightarrow> s i > 0 \<longleftrightarrow> ks ! i < k"
  shows "search_post ks k (search_result (length ks) r)"
proof -
  obtain i f where r: "r = (i, f)" by (cases r)
  have i0: "0 \<le> i" "nat i \<le> length ks" using b by (simp_all add: r bsearch_post_def)
  show ?thesis
  proof (cases f)
    case True
    then have "nat i < length ks" "s (nat i) = 0" using b by (simp_all add: r bsearch_post_def)
    then show ?thesis using True s0 ne by (simp add: search_post_def search_result_def r)
  next
    case False
    then have q: "j < length ks \<Longrightarrow> s j \<noteq> 0 \<and> (s j > 0 \<longleftrightarrow> j < nat i)" for j
      using b by (simp add: r bsearch_post_def)
    show ?thesis
    proof (cases "i \<ge> int (length ks)")
      case True
      then have ii: "nat i = length ks" using i0 by simp
      have "ks ! j < k" if "j < length ks" for j using q [OF that] sp [OF that] ii that by simp
      then have "\<forall>x \<in> set ks. x < k" by (auto simp: in_set_conv_nth)
      then show ?thesis using False True ne by (simp add: search_post_def search_result_def r)
    next
      case False
      then have ii: "nat i < length ks" using i0 by simp
      have "k < ks ! nat i"
        using q [OF ii] s0 [OF ii] sp [OF ii] by (simp add: not_less) (metis le_less not_le)
      moreover have "ks ! j < k" if "j < nat i" for j
        using q [of j] sp [of j] that ii by simp
      ultimately show ?thesis
        using False \<open>\<not> f\<close> ii ne by (simp add: search_post_def search_result_def r)
    qed
  qed
qed

lemma blob_cmp_eq:
  "(let nCmp = (if length m < length k then length m else length k); c = memcmp k m nCmp
    in if c = 0 then int (length k) - int (length m) else c) < 0 \<longleftrightarrow> k < m"
  "0 < (let nCmp = (if length m < length k then length m else length k); c = memcmp k m nCmp
    in if c = 0 then int (length k) - int (length m) else c) \<longleftrightarrow> m < k"
proof -
  let ?n = "if length m < length k then length m else length k"
  have n: "?n = (if length k < length m then length k else length m)" by simp
  have c: "key_cmp k m = (let c = memcmp k m ?n in if c \<noteq> 0 then c
      else if length k < length m then -1 else if length k > length m then 1 else 0)"
    unfolding key_cmp_def n by (simp add: Let_def)
  show "(let nCmp = ?n; c = memcmp k m nCmp in if c = 0 then int (length k) - int (length m) else c) < 0
      \<longleftrightarrow> k < m"
    unfolding key_cmp_sign(2) [symmetric, of k m] c by (simp add: Let_def)
  show "0 < (let nCmp = ?n; c = memcmp k m nCmp in if c = 0 then int (length k) - int (length m) else c)
      \<longleftrightarrow> m < k"
    unfolding key_cmp_sign(3) [symmetric, of m k] c by (simp add: Let_def)
qed

lemma prollyNodeSearchBlob_post:
  assumes h: "node_holds nd rows" and s: "sorted_wrt (<) (map fst rows)"
  shows "\<exists>ir. prollyNodeSearchBlob nd k = Inr ir \<and> search_post (map fst rows) k ir"
proof (cases "rows = []")
  case True
  then show ?thesis using h by (simp add: prollyNodeSearchBlob_def node_holds_def search_post_def)
next
  case False
  let ?c = "\<lambda>m. let nCmp = (if length m < length k then length m else length k); c = memcmp k m nCmp
    in if c = 0 then int (length k) - int (length m) else c"
  let ?cmp = "\<lambda>mid. bindR (prollyNodeKey nd mid) (\<lambda>midKey.
                let nCmp = (if length midKey < length k then length midKey else length k);
                    c = memcmp k midKey nCmp
                in Inr (if c = 0 then int (length k) - int (length midKey) else c))"
  let ?s = "\<lambda>i. ?c (map fst rows ! i)"
  have n: "nItems nd = length (map fst rows)" using h by (simp add: node_holds_def)
  have cmp: "?cmp i = Inr (?s i)" if "i < length (map fst rows)" for i
    using h that by (simp add: node_holds_def Let_def)
  have z: "?c m = 0 \<longleftrightarrow> m = k" for m
    using blob_cmp_eq [of m k] by (metis linorder_less_linear less_irrefl)
  have desc: "descending ?s (length (map fst rows))"
    by (rule sorted_descending [OF s, where k = k])
       (simp_all only: blob_cmp_eq not_less [symmetric] simp_thms)
  obtain r where r: "bsearch ?cmp 0 (int (length (map fst rows)) - 1) = Inr r"
      "bsearch_post ?s (length (map fst rows)) r"
    using bsearch_correct [of "length (map fst rows)" ?cmp ?s] cmp desc by blast
  have "search_post (map fst rows) k (search_result (length (map fst rows)) r)"
    by (rule search_result_post [OF r(2)]) (use False in \<open>simp_all only: z blob_cmp_eq, simp\<close>)
  moreover have "prollyNodeSearchBlob nd k = Inr (search_result (length (map fst rows)) r)"
    using False r(1) n by (simp add: prollyNodeSearchBlob_def)
  ultimately show ?thesis by blast
qed

lemma bsearch_cong_range:
  "(\<And>i. i < n \<Longrightarrow> cmp i = cmp' i) \<Longrightarrow> 0 \<le> lo \<Longrightarrow> hi < int n \<Longrightarrow> bsearch cmp lo hi = bsearch cmp' lo hi"
proof (induction "nat (hi + 1 - lo)" arbitrary: lo hi rule: less_induct)
  case less
  show ?case
  proof (cases "lo \<le> hi")
    case False
    then show ?thesis by (simp add: bsearch.simps)
  next
    case True
    define mid where "mid = lo + (hi - lo) div 2"
    have m: "lo \<le> mid" "mid \<le> hi" "0 \<le> mid" "nat mid < n"
      using True less.prems(2,3) by (simp_all add: mid_def)
    have c: "cmp (nat mid) = cmp' (nat mid)" using less.prems(1) m(4) by blast
    have l: "bsearch cmp lo (mid - 1) = bsearch cmp' lo (mid - 1)"
      by (rule less.hyps) (use m less.prems in simp_all)
    have r: "bsearch cmp (mid + 1) hi = bsearch cmp' (mid + 1) hi"
      by (rule less.hyps) (use m True less.prems in simp_all)
    show ?thesis
      unfolding bsearch.simps [of cmp lo hi] bsearch.simps [of cmp' lo hi] Let_def
        mid_def [symmetric] l r c ..
  qed
qed

lemma prollyNodeSearchInt_blob:
  assumes wf: "node_wf nd" and fl: "flags nd = PROLLY_NODE_INTKEY"
  shows "prollyNodeSearchInt nd u = prollyNodeSearchBlob nd (prollyEncodeIntKey u)"
proof -
  let ?k = "prollyEncodeIntKey u"
  let ?ci = "\<lambda>mid. bindR (prollyNodeIntKey nd mid) (\<lambda>midKey.
                Inr (if u = midKey then 0 else if sint u < sint midKey then -1 else 1))"
  let ?cb = "\<lambda>mid. bindR (prollyNodeKey nd mid) (\<lambda>midKey.
                let nCmp = (if length midKey < length ?k then length midKey else length ?k);
                    c = memcmp ?k midKey nCmp
                in Inr (if c = 0 then int (length ?k) - int (length midKey) else c))"
  have "?ci i = ?cb i" if i: "i < nItems nd" for i
  proof -
    obtain m where m: "prollyNodeIntKey nd i = Inr m" "prollyNodeKey nd i = Inr (prollyEncodeIntKey m)"
      using prollyNodeIntKey_key [OF wf i fl] by blast
    have "memcmp ?k (prollyEncodeIntKey m) 8 = key_cmp ?k (prollyEncodeIntKey m)"
      using memcmp_same_length [of ?k "prollyEncodeIntKey m"] by simp
    also have "\<dots> = (if u = m then 0 else if sint u < sint m then -1 else 1)"
      by (auto simp: key_cmp_eq prollyEncodeIntKey_less) 
         (metis linorder_neqE_linordered_idom signed_word_eqI)
    finally show ?thesis using m by (simp add: Let_def)
  qed
  then have "bsearch ?ci 0 (int (nItems nd) - 1) = bsearch ?cb 0 (int (nItems nd) - 1)"
    by (intro bsearch_cong_range [where n = "nItems nd"]) simp_all
  then show ?thesis by (simp only: prollyNodeSearchInt_def prollyNodeSearchBlob_def)
qed

section \<open>Building a node\<close>

text \<open>The cumulative offsets of a list of byte strings.\<close>

definition offsets :: "byte list list \<Rightarrow> u32 list" where
  "offsets xs = map (\<lambda>i. of_nat (length (concat (take i xs)))) [0..<length xs + 1]"

lemma length_offsets [simp]: "length (offsets xs) = length xs + 1"
  by (simp add: offsets_def)

lemma offsets_nth: "i \<le> length xs \<Longrightarrow> offsets xs ! i = of_nat (length (concat (take i xs)))"
  unfolding offsets_def by (subst nth_map) (simp_all del: upt_Suc)

lemma offsets_snoc: "offsets (xs @ [x]) = offsets xs @ [of_nat (length (concat xs) + length x)]"
  by (rule nth_equalityI) (auto simp: offsets_nth nth_append less_Suc_eq)

text \<open>The builder's arrays hold the rows added since it was reset.\<close>

definition arr_holds :: "u32 list \<Rightarrow> byte list \<Rightarrow> nat \<Rightarrow> nat \<Rightarrow> nat \<Rightarrow> byte list list \<Rightarrow> bool" where
  "arr_holds offs buf nBytes nCells nBuf xs \<longleftrightarrow>
     nBytes = length (concat xs) \<and> nBytes \<le> length buf \<and> length buf = nBuf \<and>
     length offs = nCells \<and> take nBytes buf = concat xs \<and>
     (xs \<noteq> [] \<longrightarrow> length xs + 1 \<le> nCells \<and> take (length xs + 1) offs = offsets xs)"

lemma arr_holdsD:
  assumes "arr_holds offs buf nb nc nbuf xs"
  shows "nb = length (concat xs)" "nb \<le> length buf" "length buf = nbuf" "length offs = nc"
    "take nb buf = concat xs" "xs \<noteq> [] \<Longrightarrow> length xs + 1 \<le> nc"
    "xs \<noteq> [] \<Longrightarrow> take (length xs + 1) offs = offsets xs"
  using assms unfolding arr_holds_def by blast+

definition builds :: "builder \<Rightarrow> (byte list \<times> byte list) list \<Rightarrow> bool" where
  "builds b rows \<longleftrightarrow> bItems b = length rows \<and>
     arr_holds (bKeyOff b) (pKeyBuf b) (nKeyBytes b) (nAlloc b) (nKeyBufAlloc b) (map fst rows) \<and>
     arr_holds (bValOff b) (pValBuf b) (nValBytes b) (nAlloc b) (nValBufAlloc b) (map snd rows)"

lemma builds_init [simp]: "builds (prollyNodeBuilderInit lev fl) []"
  by (simp add: builds_def arr_holds_def prollyNodeBuilderInit_def)

lemma builds_reset: "builds b rows \<Longrightarrow> builds (prollyNodeBuilderReset b) []"
  by (simp add: builds_def arr_holds_def prollyNodeBuilderReset_def)

lemma arr_holds_realloc_offs:
  "arr_holds offs buf nb nc nbuf xs \<Longrightarrow> nc \<le> nc' \<Longrightarrow> arr_holds (realloc 0 offs nc') buf nb nc' nbuf xs"
  by (auto simp: arr_holds_def realloc_take)

lemma arr_holds_realloc_buf:
  "arr_holds offs buf nb nc nbuf xs \<Longrightarrow> nbuf \<le> nbuf' \<Longrightarrow> arr_holds offs (realloc 0 buf nbuf') nb nc nbuf' xs"
  by (auto simp: arr_holds_def realloc_take)

lemma caps_pos [simp]: "0 < PROLLY_BUILDER_INIT_CAP" "0 < PROLLY_BUILDER_INIT_BUF"
  by (simp_all add: PROLLY_BUILDER_INIT_CAP_def PROLLY_BUILDER_INIT_BUF_def)

lemma builderGrowOffsets_builds:
  assumes "builds b rows"
  shows "builds (builderGrowOffsets b) rows" "length rows + 2 \<le> nAlloc (builderGrowOffsets b)"
    "bLevel (builderGrowOffsets b) = bLevel b" "bFlags (builderGrowOffsets b) = bFlags b"
  using assms grow_cap_ge [OF caps_pos(1), where need = "bItems b + 2" and n = "nAlloc b"]
  unfolding builderGrowOffsets_def builds_def Let_def
  by (auto intro: arr_holds_realloc_offs less_imp_le)

lemma builderGrowKeyBuf_builds:
  assumes "builds b rows"
  shows "builds (builderGrowKeyBuf b n) rows" "nKeyBytes b + n \<le> nKeyBufAlloc (builderGrowKeyBuf b n)"
    "bLevel (builderGrowKeyBuf b n) = bLevel b" "bFlags (builderGrowKeyBuf b n) = bFlags b"
    "nAlloc (builderGrowKeyBuf b n) = nAlloc b" "nValBytes (builderGrowKeyBuf b n) = nValBytes b"
    "nKeyBytes (builderGrowKeyBuf b n) = nKeyBytes b"
  using assms grow_cap_ge [OF caps_pos(2), where need = "nKeyBytes b + n" and n = "nKeyBufAlloc b"]
  unfolding builderGrowKeyBuf_def builds_def Let_def
  by (auto intro: arr_holds_realloc_buf less_imp_le)

lemma builderGrowValBuf_builds:
  assumes "builds b rows"
  shows "builds (builderGrowValBuf b n) rows" "nValBytes b + n \<le> nValBufAlloc (builderGrowValBuf b n)"
    "bLevel (builderGrowValBuf b n) = bLevel b" "bFlags (builderGrowValBuf b n) = bFlags b"
    "nAlloc (builderGrowValBuf b n) = nAlloc b"
    "nKeyBytes (builderGrowValBuf b n) = nKeyBytes b"
    "nKeyBufAlloc (builderGrowValBuf b n) = nKeyBufAlloc b"
    "nValBytes (builderGrowValBuf b n) = nValBytes b"
  using assms grow_cap_ge [OF caps_pos(2), where need = "nValBytes b + n" and n = "nValBufAlloc b"]
  unfolding builderGrowValBuf_def builds_def Let_def
  by (auto intro: arr_holds_realloc_buf less_imp_le)

text \<open>One array after one more string: first offset, bytes, next offset.\<close>

definition buf_add :: "byte list \<Rightarrow> nat \<Rightarrow> byte list \<Rightarrow> byte list" where
  "buf_add buf n x = (if length x > 0 then memcpy buf n x else buf)"

definition arr_first :: "nat \<Rightarrow> u32 list \<Rightarrow> u32 list" where
  "arr_first n offs = (if n = 0 then offs[0 := 0] else offs)"

lemma arr_holds_add:
  assumes h: "arr_holds offs buf nb nc nbuf xs" and c: "length xs + 2 \<le> nc" and r: "nb + length x \<le> nbuf"
  shows "arr_holds ((arr_first (length xs) offs)[length xs + 1 := of_nat (nb + length x)])
           (buf_add buf nb x) (nb + length x) nc nbuf (xs @ [x])"
proof -
  let ?n = "length xs" and ?o = "arr_first (length xs) offs"
  have lo: "length ?o = nc" using h by (simp add: arr_first_def arr_holds_def)
  have to: "take (?n + 1) ?o = offsets xs"
  proof (cases "xs = []")
    case True
    have "take (Suc 0) (offs[0 := 0]) = [0]" using h c True
      by (cases offs) (auto simp: arr_holds_def)
    then show ?thesis using True by (simp add: arr_first_def offsets_def)
  qed (use h in \<open>simp add: arr_first_def arr_holds_def\<close>)
  have "take (Suc (?n + 1)) (?o[?n + 1 := v]) = take (?n + 1) ?o @ [v]" for v
    using lo c by (subst take_Suc_conv_app_nth) simp_all
  then have t: "take (length (xs @ [x]) + 1) (?o[?n + 1 := of_nat (nb + length x)]) = offsets (xs @ [x])"
    using to h by (simp add: offsets_snoc arr_holds_def)
  have bl: "length buf = nbuf" "nb \<le> length buf" "take nb buf = concat xs" "nb = length (concat xs)"
    using h unfolding arr_holds_def by blast+
  have b: "take (nb + length x) (buf_add buf nb x) = concat (xs @ [x])"
    using bl take_memcpy [of nb buf x] by (simp add: buf_add_def)
  show ?thesis
    unfolding arr_holds_def t b using lo c r bl by (simp add: buf_add_def)
qed

lemma builder_first_offs:
  "bKeyOff (builder_first b) = arr_first (bItems b) (bKeyOff b)"
  "bValOff (builder_first b) = arr_first (bItems b) (bValOff b)"
  by (simp_all add: builder_first_def arr_first_def)

lemma builder_first_other [simp]:
  "bItems (builder_first b) = bItems b" "nKeyBytes (builder_first b) = nKeyBytes b"
  "nValBytes (builder_first b) = nValBytes b" "nAlloc (builder_first b) = nAlloc b"
  "pKeyBuf (builder_first b) = pKeyBuf b" "pValBuf (builder_first b) = pValBuf b"
  "nKeyBufAlloc (builder_first b) = nKeyBufAlloc b" "nValBufAlloc (builder_first b) = nValBufAlloc b"
  "bLevel (builder_first b) = bLevel b" "bFlags (builder_first b) = bFlags b"
  by (simp_all add: builder_first_def)

lemma builder_key_fields:
  "builder_key b key = b\<lparr>pKeyBuf := buf_add (pKeyBuf b) (nKeyBytes b) key,
     nKeyBytes := nKeyBytes b + length key,
     bKeyOff := (bKeyOff b)[bItems b + 1 := of_nat (nKeyBytes b + length key)]\<rparr>"
  by (simp add: builder_key_def buf_add_def)

lemma builder_val_fields:
  "builder_val b val = b\<lparr>pValBuf := buf_add (pValBuf b) (nValBytes b) val,
     nValBytes := nValBytes b + length val,
     bValOff := (bValOff b)[bItems b + 1 := of_nat (nValBytes b + length val)]\<rparr>"
  by (simp add: builder_val_def buf_add_def)

lemma prollyNodeBuilderAdd_builds:
  assumes "builds b rows" "length rows < PROLLY_NODE_MAX_ITEMS"
  shows "\<exists>b'. prollyNodeBuilderAdd b key val = Inr b' \<and> builds b' (rows @ [(key, val)])
     \<and> bLevel b' = bLevel b \<and> bFlags b' = bFlags b"
proof -
  define b1 where "b1 = builderGrowOffsets b"
  define b2 where "b2 = builderGrowKeyBuf b1 (length key)"
  define b3 where "b3 = builderGrowValBuf b2 (length val)"
  note g1 = builderGrowOffsets_builds [OF assms(1), folded b1_def]
  note g2 = builderGrowKeyBuf_builds [OF g1(1), of "length key", folded b2_def]
  note g3 = builderGrowValBuf_builds [OF g2(1), of "length val", folded b3_def]
  have n: "bItems b = length rows" "bItems b3 = length rows" using assms(1) g3(1) by (simp_all add: builds_def)
  define b4 where "b4 = builder_val (builder_key (builder_first b3) key) val"
  have add: "prollyNodeBuilderAdd b key val = Inr (b4\<lparr>bItems := bItems b4 + 1\<rparr>)"
    using assms(2) n by (simp add: prollyNodeBuilderAdd_def Let_def b1_def b2_def b3_def b4_def)
  have k: "arr_holds (bKeyOff b3) (pKeyBuf b3) (nKeyBytes b3) (nAlloc b3) (nKeyBufAlloc b3) (map fst rows)"
    and v: "arr_holds (bValOff b3) (pValBuf b3) (nValBytes b3) (nAlloc b3) (nValBufAlloc b3) (map snd rows)"
    using g3(1) by (simp_all add: builds_def)
  have c: "length rows + 2 \<le> nAlloc b3" using g1(2) g2(5) g3(5) by simp
  have rk: "nKeyBytes b3 + length key \<le> nKeyBufAlloc b3"
    and rv: "nValBytes b3 + length val \<le> nValBufAlloc b3"
    using g2(2,7) g3(2,6,7,8) by simp_all
  have "builds (b4\<lparr>bItems := bItems b4 + 1\<rparr>) (rows @ [(key, val)])"
    unfolding builds_def b4_def builder_val_fields builder_key_fields
    using arr_holds_add [OF k, of key, unfolded length_map, OF c rk]
      arr_holds_add [OF v, of val, unfolded length_map, OF c rv] n
    by (simp add: builder_first_offs)
  then show ?thesis
    using add g1(3,4) g2(3,4) g3(3,4) by (simp add: b4_def builder_val_fields builder_key_fields)
qed

lemma prollyNodeBuilderAdd_full:
  "bItems b \<ge> PROLLY_NODE_MAX_ITEMS \<Longrightarrow> prollyNodeBuilderAdd b key val = Inl SQLITE_FULL"
  by (simp add: prollyNodeBuilderAdd_def)

text \<open>The serialised form of a list of rows.\<close>

definition node_bytes :: "byte \<Rightarrow> byte \<Rightarrow> (byte list \<times> byte list) list \<Rightarrow> byte list" where
  "node_bytes lev fl rows =
     put_u32 PROLLY_NODE_MAGIC @ [lev] @ put_u16 (of_nat (length rows)) @ [fl]
     @ concat (map put_u32 (offsets (map fst rows))) @ concat (map put_u32 (offsets (map snd rows)))
     @ concat (map fst rows) @ concat (map snd rows)"

lemma prollyNodeBuilderFinish_bytes:
  assumes "builds b rows" "rows \<noteq> []"
  shows "prollyNodeBuilderFinish b = Inr (node_bytes (bLevel b) (bFlags b) rows)"
proof -
  have h: "arr_holds (bKeyOff b) (pKeyBuf b) (nKeyBytes b) (nAlloc b) (nKeyBufAlloc b) (map fst rows)"
    "arr_holds (bValOff b) (pValBuf b) (nValBytes b) (nAlloc b) (nValBufAlloc b) (map snd rows)"
    "bItems b = length rows"
    using assms(1) by (simp_all add: builds_def)
  have ne: "map fst rows \<noteq> []" "map snd rows \<noteq> []" using assms(2) by simp_all
  note k = arr_holdsD [OF h(1)] and v = arr_holdsD [OF h(2)]
  have t: "take (bItems b + 1) (bKeyOff b) = offsets (map fst rows)"
    "take (bItems b + 1) (bValOff b) = offsets (map snd rows)"
    using k(7) [OF ne(1)] v(7) [OF ne(2)] h(3) by simp_all
  have g: "bItems b + 1 \<le> length (bKeyOff b) \<and> bItems b + 1 \<le> length (bValOff b)"
    using k(4) k(6) [OF ne(1)] v(4) h(3) by simp
  have r: "read_bytes (pKeyBuf b) 0 (nKeyBytes b) = Inr (concat (map fst rows))"
    "read_bytes (pValBuf b) 0 (nValBytes b) = Inr (concat (map snd rows))"
    using k(2,5) v(2,5) by simp_all
  show ?thesis
    unfolding prollyNodeBuilderFinish_def r bindR_Inr t using g h(3) by (simp add: node_bytes_def)
qed

section \<open>A built node parses back\<close>

lemma length_concat_put_u32 [simp]: "length (concat (map put_u32 us)) = 4 * length us"
  by (induction us) simp_all

lemma get_u32_array:
  assumes "i < length us" "p = length pre + 4 * i"
  shows "get_u32 (pre @ concat (map put_u32 us) @ post) p = Inr (us ! i)"
proof -
  have "us = take i us @ us ! i # drop (Suc i) us" using assms(1) by (rule id_take_nth_drop)
  then have "concat (map put_u32 us) =
      concat (map put_u32 (take i us)) @ put_u32 (us ! i) @ concat (map put_u32 (drop (Suc i) us))"
    by (metis concat.simps(2) concat_append list.simps(9) map_append)
  then have "pre @ concat (map put_u32 us) @ post =
      (pre @ concat (map put_u32 (take i us))) @ put_u32 (us ! i) @ (concat (map put_u32 (drop (Suc i) us)) @ post)"
    by simp
  moreover have "p = length (pre @ concat (map put_u32 (take i us)))" using assms by simp
  ultimately show ?thesis by (simp only: get_u32_put)
qed

definition storable :: "byte \<Rightarrow> byte \<Rightarrow> (byte list \<times> byte list) list \<Rightarrow> bool" where
  "storable lev fl rows \<longleftrightarrow>
     rows \<noteq> [] \<and> length rows \<le> PROLLY_NODE_MAX_ITEMS \<and>
     (fl = PROLLY_NODE_INTKEY \<or> fl = PROLLY_NODE_BLOBKEY) \<and>
     (fl = PROLLY_NODE_INTKEY \<longrightarrow> (\<forall>r \<in> set rows. length (fst r) = 8)) \<and>
     (lev > 0 \<longrightarrow> (\<forall>r \<in> set rows. length (snd r) = PROLLY_HASH_SIZE)) \<and>
     length (concat (map fst rows)) + length (concat (map snd rows)) < 2 ^ 31"

lemma unat_of_nat_u32: "n < 2 ^ 32 \<Longrightarrow> unat (of_nat n :: u32) = n"
  by (simp add: unsigned_of_nat take_bit_eq_mod)

lemma offsets_unat:
  assumes "length (concat xs) < 2 ^ 32" "i \<le> length xs"
  shows "unat (offsets xs ! i) = length (concat (take i xs))"
  unfolding offsets_nth [OF assms(2)]
  by (rule unat_of_nat_u32) (use length_concat_take_le [of i xs] assms(1) in linarith)

lemma offsets_step:
  assumes "length (concat xs) < 2 ^ 32" "i < length xs"
  shows "offsets xs ! i \<le> offsets xs ! (i + 1)"
    "offsets xs ! (i + 1) - offsets xs ! i = of_nat (length (xs ! i))"
    "offsets xs ! (i + 1) \<le> offsets xs ! length xs"
proof -
  have s: "length (concat (take (i + 1) xs)) = length (concat (take i xs)) + length (xs ! i)"
    using length_concat_take_Suc [OF assms(2)] by simp
  show "offsets xs ! i \<le> offsets xs ! (i + 1)"
    using assms s by (simp add: word_le_nat_alt offsets_unat del: length_concat)
  show "offsets xs ! (i + 1) - offsets xs ! i = of_nat (length (xs ! i))"
    using assms s by (simp add: offsets_nth del: length_concat)
  show "offsets xs ! (i + 1) \<le> offsets xs ! length xs"
    using assms length_concat_take_le [of "i + 1" xs]
    by (simp add: word_le_nat_alt offsets_unat del: length_concat)
qed

lemma read_concat:
  assumes "i < length xs" "p = length pre + length (concat (take i xs))" "n = length (xs ! i)"
  shows "read_bytes (pre @ concat xs @ post) p n = Inr (xs ! i)"
proof -
  have "xs = take i xs @ xs ! i # drop (Suc i) xs" using assms(1) by (rule id_take_nth_drop)
  then have "concat xs = concat (take i xs) @ xs ! i @ concat (drop (Suc i) xs)"
    by (metis concat.simps(2) concat_append)
  then have "pre @ concat xs @ post =
      (pre @ concat (take i xs)) @ xs ! i @ (concat (drop (Suc i) xs) @ post)" by simp
  then show ?thesis using assms(2,3) by (simp only: read_bytes_append length_append)
qed

lemma node_bytes_parse:
  assumes st: "storable lev fl rows"
  shows "\<exists>nd. prollyNodeParse (node_bytes lev fl rows) = Inr nd \<and> node_holds nd rows
     \<and> level nd = lev \<and> flags nd = fl \<and> pData nd = node_bytes lev fl rows"
proof -
  let ?ks = "map fst rows" and ?vs = "map snd rows" and ?n = "length rows"
  let ?ko = "offsets ?ks" and ?vo = "offsets ?vs"
  let ?hdr = "put_u32 PROLLY_NODE_MAGIC @ [lev] @ put_u16 (of_nat ?n) @ [fl]"
  let ?d = "node_bytes lev fl rows"
  let ?K = "length (concat ?ks)" and ?V = "length (concat ?vs)"
  have n: "0 < ?n" "?n \<le> 4096" and KV: "?K < 2 ^ 32" "?V < 2 ^ 32"
    using st by (auto simp: storable_def PROLLY_NODE_MAX_ITEMS_def simp del: length_concat)
  have lh: "length ?hdr = 8" by simp
  have d1: "?d = ?hdr @ concat (map put_u32 ?ko) @ (concat (map put_u32 ?vo) @ concat ?ks @ concat ?vs)"
    by (simp add: node_bytes_def)
  have d2: "?d = (?hdr @ concat (map put_u32 ?ko)) @ concat (map put_u32 ?vo) @ (concat ?ks @ concat ?vs)"
    by (simp add: node_bytes_def)
  have d3: "?d = (?hdr @ concat (map put_u32 ?ko) @ concat (map put_u32 ?vo)) @ concat ?ks @ concat ?vs"
    by (simp add: node_bytes_def)
  have d4: "?d = (?hdr @ concat (map put_u32 ?ko) @ concat (map put_u32 ?vo) @ concat ?ks) @ concat ?vs @ []"
    by (simp add: node_bytes_def)
  have len: "length ?d = 8 + (?n + 1) * 4 * 2 + ?K + ?V"
    by (simp add: node_bytes_def del: length_concat)
  have gk: "get_u32 ?d (8 + 4 * i) = Inr (?ko ! i)" if "i \<le> ?n" for i
    unfolding d1 by (rule get_u32_array) (use that lh in simp_all)
  have gv: "get_u32 ?d (8 + (?n + 1) * 4 + 4 * i) = Inr (?vo ! i)" if "i \<le> ?n" for i
    unfolding d2 by (rule get_u32_array) (use that lh in simp_all)
  have magic: "get_u32 ?d 0 = Inr PROLLY_NODE_MAGIC"
    using get_u32_put [of 0 "[]"] by (simp add: node_bytes_def)
  have cnt: "get_u16 ?d 5 = Inr (of_nat ?n)"
    using get_u16_put [of 5 "put_u32 PROLLY_NODE_MAGIC @ [lev]" "of_nat ?n"] by (simp add: node_bytes_def)
  have lev: "read_byte ?d 4 = Inr lev" and fl: "read_byte ?d 7 = Inr fl"
    by (simp_all add: node_bytes_def nth_append read_byte_def)
  have un: "unat (of_nat ?n :: u16) = ?n"
    using n(2) by (simp add: unsigned_of_nat take_bit_eq_mod)
  have tot: "unat (?ko ! ?n) = ?K" "unat (?vo ! ?n) = ?V"
    using offsets_unat [of ?ks ?n] offsets_unat [of ?vs ?n] KV by (simp_all del: length_concat)
  define nd where "nd = \<lparr>pData = ?d, level = lev, nItems = ?n, flags = fl, aKeyOff = 8,
     aValOff = 8 + (?n + 1) * 4, pKeyData = 8 + (?n + 1) * 4 + (?n + 1) * 4,
     pValData = 8 + (?n + 1) * 4 + (?n + 1) * 4 + ?K\<rparr>"
  have check: "check_offsets ?d nd (?ko ! ?n) (?vo ! ?n) i = Inr ()" if i: "i \<le> ?n" for i
  proof (cases i)
    case 0
    then show ?thesis
      using gk [of 0] gv [of 0] by (simp add: check_offsets_def nd_def offsets_nth)
  next
    case (Suc j)
    then have j: "j < ?n" using i by simp
    note k = offsets_step [of ?ks j, unfolded length_map, OF KV(1) j]
      and v = offsets_step [of ?vs j, unfolded length_map, OF KV(2) j]
    have len8: "fl AND PROLLY_NODE_INTKEY = 0 \<or> length (?ks ! j) = 8"
      using st j intkey_and by (auto simp: storable_def)
    have len20: "\<not> lev > 0 \<or> length (?vs ! j) = 20"
      using st j by (auto simp: storable_def PROLLY_HASH_SIZE_def)
    have gj: "get_u32 ?d (8 + 4 * j) = Inr (?ko ! j)" "get_u32 ?d (8 + (?n + 1) * 4 + 4 * j) = Inr (?vo ! j)"
      "get_u32 ?d (8 + 4 * (j + 1)) = Inr (?ko ! (j + 1))"
      "get_u32 ?d (8 + (?n + 1) * 4 + 4 * (j + 1)) = Inr (?vo ! (j + 1))"
      using gk [of j] gv [of j] gk [of "j + 1"] gv [of "j + 1"] j by simp_all
    have fields: "aKeyOff nd = 8" "aValOff nd = 8 + (?n + 1) * 4" "flags nd = fl" "level nd = lev"
      by (simp_all add: nd_def)
    have ij: "i = j + 1" "0 < j + 1" "j + 1 - 1 = j" using Suc by simp_all
    have g: "guardR (\<not> (?ko ! (j + 1) > ?ko ! ?n \<or> ?vo ! (j + 1) > ?vo ! ?n)) SQLITE_CORRUPT = Inr ()"
      "guardR (\<not> (?ko ! (j + 1) < ?ko ! j \<or> ?vo ! (j + 1) < ?vo ! j)) SQLITE_CORRUPT = Inr ()"
      "guardR (\<not> (fl AND PROLLY_NODE_INTKEY \<noteq> 0 \<and> ?ko ! (j + 1) - ?ko ! j \<noteq> 8)) SQLITE_CORRUPT = Inr ()"
      "guardR (\<not> (lev > 0 \<and> ?vo ! (j + 1) - ?vo ! j \<noteq> of_nat PROLLY_HASH_SIZE)) SQLITE_CORRUPT = Inr ()"
      unfolding guardR_eq_Inr using k v len8 len20 by (auto simp: not_less PROLLY_HASH_SIZE_def)
    show ?thesis
      unfolding check_offsets_def fields ij gj bindR_Inr g if_True by (simp add: g)
  qed
  have all: "check_all_offsets ?d nd (?ko ! ?n) (?vo ! ?n) [0..<?n + 1] = Inr ()"
    unfolding check_all_offsets_iff using check by simp
  have kn: "get_u32 ?d (8 + 4 * ?n) = Inr (?ko ! ?n)"
    and vn: "get_u32 ?d (8 + (?n + 1) * 4 + 4 * ?n) = Inr (?vo ! ?n)"
    by (rule gk gv, simp)+
  have g: "guardR (\<not> length ?d < 8) SQLITE_CORRUPT = Inr ()"
    "guardR (\<not> ?n > PROLLY_NODE_MAX_ITEMS) SQLITE_CORRUPT = Inr ()"
    "guardR (\<not> (fl \<noteq> PROLLY_NODE_INTKEY \<and> fl \<noteq> PROLLY_NODE_BLOBKEY)) SQLITE_CORRUPT = Inr ()"
    "guardR (\<not> length ?d < 8 + (?n + 1) * 4 * 2) SQLITE_CORRUPT = Inr ()"
    "guardR (\<not> (?K > length ?d \<or> ?V > length ?d \<or> 8 + (?n + 1) * 4 * 2 + ?K + ?V \<noteq> length ?d))
       SQLITE_CORRUPT = Inr ()"
    "guardR (PROLLY_NODE_MAGIC = PROLLY_NODE_MAGIC) SQLITE_CORRUPT = Inr ()"
    using len st unfolding guardR_eq_Inr storable_def by simp_all
  have n0: "(?n = 0) = False" using n by simp
  have parse: "prollyNodeParse ?d = Inr nd"
    unfolding prollyNodeParse_def PROLLY_HDR_SIZE_def magic cnt lev fl bindR_Inr un Let_def
      g n0 if_False kn vn tot nd_def [symmetric] all ..
  have holds: "node_holds nd rows"
    unfolding node_holds_def
  proof (intro conjI allI impI)
    show "nItems nd = ?n" by (simp add: nd_def)
    fix i assume i: "i < ?n"
    then have i': "i \<le> ?n" "i + 1 \<le> ?n" by simp_all
    note k = offsets_step(2) [of ?ks i, unfolded length_map, OF KV(1) i]
      and v = offsets_step(2) [of ?vs i, unfolded length_map, OF KV(2) i]
    have lk: "length (?ks ! i) \<le> ?K" "length (?vs ! i) \<le> ?V"
      using length_concat_take_Suc [of i ?ks] length_concat_take_le [of "Suc i" ?ks]
        length_concat_take_Suc [of i ?vs] length_concat_take_le [of "Suc i" ?vs] i
      by (simp_all del: length_concat)
    have uk: "unat (of_nat (length (?ks ! i)) :: u32) = length (?ks ! i)"
      "unat (of_nat (length (?vs ! i)) :: u32) = length (?vs ! i)"
      by (rule unat_of_nat_u32, use lk KV in linarith)+
    have fields: "aKeyOff nd = 8" "aValOff nd = 8 + (?n + 1) * 4" "pData nd = ?d"
      "pKeyData nd = 8 + (?n + 1) * 4 + (?n + 1) * 4" "pValData nd = 8 + (?n + 1) * 4 + (?n + 1) * 4 + ?K"
      by (simp_all only: nd_def node.simps)
    have gd: "guardR (i < nItems nd) OUT_OF_BOUNDS = Inr ()" using i by (simp add: nd_def)
    show "prollyNodeKey nd i = Inr (fst (rows ! i))"
      unfolding prollyNodeKey_def gd fields gk [OF i'(1)] gk [OF i'(2)] bindR_Inr k uk
    proof -
      have "read_bytes ?d (8 + (?n + 1) * 4 + (?n + 1) * 4 + unat (?ko ! i)) (length (?ks ! i)) = Inr (?ks ! i)"
        unfolding d3
        by (rule read_concat) (use i lh offsets_unat [of ?ks i] KV in \<open>simp_all del: length_concat\<close>)
      then show "read_bytes ?d (8 + (?n + 1) * 4 + (?n + 1) * 4 + unat (?ko ! i)) (length (?ks ! i))
          = Inr (fst (rows ! i))" using i by simp
    qed
    show "prollyNodeValue nd i = Inr (snd (rows ! i))"
      unfolding prollyNodeValue_def gd fields gv [OF i'(1)] gv [OF i'(2)] bindR_Inr v uk
    proof -
      have "read_bytes ?d (8 + (?n + 1) * 4 + (?n + 1) * 4 + ?K + unat (?vo ! i)) (length (?vs ! i))
          = Inr (?vs ! i)"
        unfolding d4
        by (rule read_concat) (use i lh offsets_unat [of ?vs i] KV in \<open>simp_all del: length_concat\<close>)
      then show "read_bytes ?d (8 + (?n + 1) * 4 + (?n + 1) * 4 + ?K + unat (?vo ! i)) (length (?vs ! i))
          = Inr (snd (rows ! i))" using i by simp
    qed
  qed
  show ?thesis using parse holds by (simp add: nd_def)
qed

section \<open>Properties\<close>

text \<open>
  C23. Parsing is memory-safe and strict.  On any byte string the parser either reports
  \<open>SQLITE_CORRUPT\<close> or returns a node, never reading outside the string; and on a node
  it returns every accessor stays within the buffer: key and value of each item can be
  read, an integer-key node has eight-byte keys that \<open>prollyNodeIntKey\<close> decodes to the
  integer they encode, and each value of an interior node is a child hash.
\<close>

theorem prollyNodeParse_safe:
  "(\<forall>e. prollyNodeParse d = Inl e \<longrightarrow> e = SQLITE_CORRUPT) \<and>
   (\<forall>nd i. prollyNodeParse d = Inr nd \<longrightarrow> i < nItems nd \<longrightarrow>
      (\<exists>k v. prollyNodeKey nd i = Inr k \<and> prollyNodeValue nd i = Inr v \<and>
         (flags nd = PROLLY_NODE_INTKEY \<longrightarrow>
            (\<exists>u. prollyNodeIntKey nd i = Inr u \<and> k = prollyEncodeIntKey u)) \<and>
         (level nd > 0 \<longrightarrow> prollyNodeChildHash nd i = Inr v \<and> length v = 20)))"
proof (intro conjI allI impI)
  fix e assume "prollyNodeParse d = Inl e"
  then show "e = SQLITE_CORRUPT" using prollyNodeParse_fails_only [of d] by (simp add: fails_only_def)
next
  fix nd i assume "prollyNodeParse d = Inr nd" and i: "i < nItems nd"
  then have wf: "node_wf nd" using prollyNodeParse_wf by blast
  show "\<exists>k v. prollyNodeKey nd i = Inr k \<and> prollyNodeValue nd i = Inr v \<and>
         (flags nd = PROLLY_NODE_INTKEY \<longrightarrow>
            (\<exists>u. prollyNodeIntKey nd i = Inr u \<and> k = prollyEncodeIntKey u)) \<and>
         (level nd > 0 \<longrightarrow> prollyNodeChildHash nd i = Inr v \<and> length v = 20)"
    using node_wf_readable(1,2) [OF wf i] prollyNodeIntKey_key [OF wf i]
      prollyNodeChildHash_value [OF wf i]
    by (auto simp: hash_ok_def PROLLY_HASH_SIZE_def)
qed

definition node_ex :: "byte list" where
  "node_ex = [0x44, 0x4F, 0x4E, 0x50, 0, 1, 0, 2, 0, 0, 0, 0, 1, 0, 0, 0, 0, 0, 0, 0, 1, 0, 0, 0, 0x61, 0x62]"

lemma prollyNodeParse_safe_witness:
  "\<exists>nd. prollyNodeParse node_ex = Inr nd \<and> prollyNodeKey nd 0 = Inr [0x61] \<and> prollyNodeValue nd 0 = Inr [0x62]"
proof -
  have p: "prollyNodeParse node_ex = Inr \<lparr>pData = node_ex, level = 0, nItems = 1, flags = 2,
      aKeyOff = 8, aValOff = 16, pKeyData = 24, pValData = 25\<rparr>" (is "_ = Inr ?nd")
    by code_simp
  have "\<exists>k v. prollyNodeKey ?nd 0 = Inr k \<and> prollyNodeValue ?nd 0 = Inr v"
    using prollyNodeParse_safe [of node_ex] p by auto
  moreover have "prollyNodeKey ?nd 0 = Inr [0x61]" "prollyNodeValue ?nd 0 = Inr [0x62]" by code_simp+
  ultimately show ?thesis using p by blast
qed

text \<open>Adding a list of rows to a builder.\<close>

fun builder_add_rows :: "builder \<Rightarrow> (byte list \<times> byte list) list \<Rightarrow> builder res" where
  "builder_add_rows b [] = Inr b"
| "builder_add_rows b (r # rs) =
     bindR (prollyNodeBuilderAdd b (fst r) (snd r)) (\<lambda>b. builder_add_rows b rs)"

lemma builder_add_rows_builds:
  "builds b rows \<Longrightarrow> length rows + length rs \<le> PROLLY_NODE_MAX_ITEMS \<Longrightarrow>
     \<exists>b'. builder_add_rows b rs = Inr b' \<and> builds b' (rows @ rs) \<and> bLevel b' = bLevel b \<and> bFlags b' = bFlags b"
proof (induction rs arbitrary: b rows)
  case (Cons r rs)
  obtain b1 where b1: "prollyNodeBuilderAdd b (fst r) (snd r) = Inr b1" "builds b1 (rows @ [r])"
    "bLevel b1 = bLevel b" "bFlags b1 = bFlags b"
    using prollyNodeBuilderAdd_builds [OF Cons.prems(1), of "fst r" "snd r"] Cons.prems(2) by auto
  then show ?case using Cons.IH [OF b1(2)] Cons.prems(2) by auto
qed simp

text \<open>
  C22. Build and parse round trip.  Rows added to a builder that was used for another
  node and reset are serialised by \<open>prollyNodeBuilderFinish\<close> to bytes that
  \<open>prollyNodeParse\<close> accepts, and the parsed node holds exactly these keys and values, with
  the level and the flags of the builder.
\<close>

theorem node_build_parse:
  assumes "length before \<le> PROLLY_NODE_MAX_ITEMS" "storable lev fl rows"
  shows "\<exists>d nd. bindR (builder_add_rows (prollyNodeBuilderInit lev fl) before) (\<lambda>b.
        bindR (builder_add_rows (prollyNodeBuilderReset b) rows) prollyNodeBuilderFinish) = Inr d
      \<and> prollyNodeParse d = Inr nd \<and> node_holds nd rows \<and> level nd = lev \<and> flags nd = fl"
proof -
  obtain b where b: "builder_add_rows (prollyNodeBuilderInit lev fl) before = Inr b" "builds b before"
    "bLevel b = lev" "bFlags b = fl"
    using builder_add_rows_builds [OF builds_init, of before lev fl] assms(1)
    by (auto simp: prollyNodeBuilderInit_def)
  have ne: "rows \<noteq> []" "length rows \<le> PROLLY_NODE_MAX_ITEMS" using assms(2) by (simp_all add: storable_def)
  obtain b' where b': "builder_add_rows (prollyNodeBuilderReset b) rows = Inr b'" "builds b' rows"
    "bLevel b' = lev" "bFlags b' = fl"
    using builder_add_rows_builds [OF builds_reset [OF b(2)], of rows] ne(2) b(3,4)
    by (auto simp: prollyNodeBuilderReset_def)
  show ?thesis
    using b(1) b' prollyNodeBuilderFinish_bytes [OF b'(2) ne(1)] node_bytes_parse [OF assms(2)] by auto
qed

lemma node_build_parse_witness:
  "\<exists>d nd. bindR (builder_add_rows (prollyNodeBuilderInit 0 2) [([7], [8])]) (\<lambda>b.
        bindR (builder_add_rows (prollyNodeBuilderReset b) [([1], [2, 3]), ([4, 5], [])])
          prollyNodeBuilderFinish) = Inr d
      \<and> prollyNodeParse d = Inr nd \<and> node_holds nd [([1], [2, 3]), ([4, 5], [])] \<and> level nd = 0 \<and> flags nd = 2"
  by (rule node_build_parse)
     (simp_all add: storable_def PROLLY_NODE_MAX_ITEMS_def PROLLY_NODE_INTKEY_def PROLLY_NODE_BLOBKEY_def)

text \<open>
  C24. Searching a node by blob key.  On a node whose keys ascend, the binary
  search ends without reading out of bounds and its answer is the position of the key
  (0), the first greater key (-1), or the last item when every key is smaller (1).
\<close>

theorem prollyNodeSearchBlob_correct:
  assumes "node_holds nd rows" "sorted_wrt (<) (map fst rows)"
  shows "\<exists>ir. prollyNodeSearchBlob nd k = Inr ir \<and> search_post (map fst rows) k ir"
  by (rule prollyNodeSearchBlob_post [OF assms])

text \<open>
  Searching by integer key.  On a parsed integer-key node \<open>prollyNodeSearchInt\<close> is
  \<open>prollyNodeSearchBlob\<close> of the encoded key, so the byte order of the stored keys is the
  signed order of the integers, whatever the keys are.
\<close>

theorem prollyNodeSearchInt_correct:
  assumes "prollyNodeParse d = Inr nd" "flags nd = PROLLY_NODE_INTKEY"
  shows "prollyNodeSearchInt nd u = prollyNodeSearchBlob nd (prollyEncodeIntKey u)"
  by (rule prollyNodeSearchInt_blob [OF prollyNodeParse_wf(1) [OF assms(1)] assms(2)])

lemma prollyNodeSearchBlob_correct_witness:
  "\<exists>nd ir. prollyNodeParse node_ex = Inr nd \<and> prollyNodeSearchBlob nd [0x60] = Inr ir \<and> search_post [[0x61 :: byte]] [0x60] ir"
proof -
  have p: "prollyNodeParse node_ex = Inr \<lparr>pData = node_ex, level = 0, nItems = 1, flags = 2,
      aKeyOff = 8, aValOff = 16, pKeyData = 24, pValData = 25\<rparr>" (is "_ = Inr ?nd")
    by code_simp
  have "prollyNodeKey ?nd 0 = Inr [0x61]" "prollyNodeValue ?nd 0 = Inr [0x62]" by code_simp+
  then have "node_holds ?nd [([0x61], [0x62])]" by (simp add: node_holds_def)
  from prollyNodeSearchBlob_correct [OF this, of "[0x60]"] p show ?thesis by auto
qed

definition int_node_ex :: "byte list" where
  "int_node_ex = [0x44, 0x4F, 0x4E, 0x50, 0, 1, 0, 1, 0, 0, 0, 0, 8, 0, 0, 0, 0, 0, 0, 0, 0, 0, 0, 0,
     0x80, 0, 0, 0, 0, 0, 0, 5]"

lemma prollyNodeSearchInt_correct_witness:
  "\<exists>nd. prollyNodeParse int_node_ex = Inr nd \<and> prollyNodeSearchInt nd 5 = Inr (0, 0) \<and>
     prollyNodeSearchInt nd 5 = prollyNodeSearchBlob nd (prollyEncodeIntKey 5)"
proof -
  have p: "prollyNodeParse int_node_ex = Inr \<lparr>pData = int_node_ex, level = 0, nItems = 1, flags = 1,
      aKeyOff = 8, aValOff = 16, pKeyData = 24, pValData = 32\<rparr>" (is "_ = Inr ?nd")
    by code_simp
  have "prollyNodeSearchInt ?nd 5 = Inr (0, 0)" by code_simp
  then show ?thesis
    using p prollyNodeSearchInt_correct [OF p, of 5] by (simp add: PROLLY_NODE_INTKEY_def)
qed

end
