(* ===== verification/OrderSort.thy ===== *)
theory OrderSort
  imports Prelude "HOL-Library.Multiset"
begin

text \<open>
  The typed sort of \<open>prolly_mutmap.c\<close>: quicksort with a median-of-three pivot, sentinel
  scans, recursion on the smaller side and iteration on the larger, and insertion sort
  on short ranges.  The comparison is the argument.  The lemmas show that no scan leaves
  the range, that the recursion ends, and that the range becomes a sorted permutation.
\<close>

section \<open>Definitions\<close>

function ins_shift :: "('a \<Rightarrow> 'a \<Rightarrow> int) \<Rightarrow> 'a list \<Rightarrow> 'a \<Rightarrow> nat \<Rightarrow> nat \<Rightarrow> 'a list \<times> nat" where
  "ins_shift cmp a x lo j =
     (if j > lo \<and> cmp (a ! (j - 1)) x > 0 then ins_shift cmp (a[j := a ! (j - 1)]) x lo (j - 1)
      else (a, j))"
  by pat_completeness auto
termination by (relation "measure (\<lambda>(cmp, a, x, lo, j). j)") auto

declare ins_shift.simps [simp del]

function isort_from :: "('a \<Rightarrow> 'a \<Rightarrow> int) \<Rightarrow> 'a list \<Rightarrow> nat \<Rightarrow> nat \<Rightarrow> nat \<Rightarrow> 'a list" where
  "isort_from cmp a lo i hi =
     (if i \<le> hi then
        let x = a ! i; r = ins_shift cmp a x lo i
        in isort_from cmp ((fst r)[snd r := x]) lo (i + 1) hi
      else a)"
  by pat_completeness auto
termination by (relation "measure (\<lambda>(cmp, a, lo, i, hi). hi + 1 - i)") auto

declare isort_from.simps [simp del]

definition mutmapInsertionSort :: "('a \<Rightarrow> 'a \<Rightarrow> int) \<Rightarrow> 'a list \<Rightarrow> nat \<Rightarrow> nat \<Rightarrow> 'a list" where
  "mutmapInsertionSort cmp a lo hi = isort_from cmp a lo (lo + 1) hi"

definition swap :: "'a list \<Rightarrow> nat \<Rightarrow> nat \<Rightarrow> 'a list" where
  "swap a i j = a[i := a ! j, j := a ! i]"

definition order_if_gt :: "('a \<Rightarrow> 'a \<Rightarrow> int) \<Rightarrow> 'a list \<Rightarrow> nat \<Rightarrow> nat \<Rightarrow> 'a list" where
  "order_if_gt cmp a i j = (if cmp (a ! i) (a ! j) > 0 then swap a i j else a)"

text \<open>\<open>while( cmp(&a[++i], &pivot) < 0 )\<close> and its mirror image.\<close>

function scan_up :: "('a \<Rightarrow> 'a \<Rightarrow> int) \<Rightarrow> 'a list \<Rightarrow> 'a \<Rightarrow> nat \<Rightarrow> nat res" where
  "scan_up cmp a pivot i =
     (if i + 1 < length a
      then if cmp (a ! (i + 1)) pivot < 0 then scan_up cmp a pivot (i + 1) else Inr (i + 1)
      else Inl OUT_OF_BOUNDS)"
  by pat_completeness auto
termination by (relation "measure (\<lambda>(cmp, a, pivot, i). length a - i)") auto

declare scan_up.simps [simp del]

fun scan_down :: "('a \<Rightarrow> 'a \<Rightarrow> int) \<Rightarrow> 'a list \<Rightarrow> 'a \<Rightarrow> nat \<Rightarrow> nat res" where
  "scan_down cmp a pivot 0 = Inl OUT_OF_BOUNDS"
| "scan_down cmp a pivot (Suc j) =
     (if cmp (a ! j) pivot > 0 then scan_down cmp a pivot j else Inr j)"

lemma scan_up_gt: "scan_up cmp a pivot i = Inr k \<Longrightarrow> i < k \<and> k < length a"
proof (induction cmp a pivot i rule: scan_up.induct)
  case (1 cmp a pivot i)
  then show ?case by (subst (asm) (2) scan_up.simps) (auto split: if_splits)
qed

lemma length_swap [simp]: "length (swap a i j) = length a"
  by (simp add: swap_def)

function partition_loop ::
  "('a \<Rightarrow> 'a \<Rightarrow> int) \<Rightarrow> 'a list \<Rightarrow> 'a \<Rightarrow> nat \<Rightarrow> nat \<Rightarrow> ('a list \<times> nat) res" where
  "partition_loop cmp a pivot i j =
     bindR (scan_up cmp a pivot i) (\<lambda>i'.
     bindR (scan_down cmp a pivot j) (\<lambda>j'.
     if i' \<ge> j' then Inr (a, i') else partition_loop cmp (swap a i' j') pivot i' j'))"
  by pat_completeness auto
termination
  by (relation "measure (\<lambda>(cmp, a, pivot, i, j). length a - i)") (auto dest: scan_up_gt)

declare partition_loop.simps [simp del]

definition median_pivot :: "('a \<Rightarrow> 'a \<Rightarrow> int) \<Rightarrow> 'a list \<Rightarrow> nat \<Rightarrow> nat \<Rightarrow> 'a list" where
  "median_pivot cmp a lo hi =
     (let mid = lo + drop_bit 1 (hi - lo);
          a = order_if_gt cmp a lo mid;
          a = order_if_gt cmp a lo hi;
          a = order_if_gt cmp a mid hi
      in swap a mid (hi - 1))"

fun mutmapQuickSort :: "nat \<Rightarrow> ('a \<Rightarrow> 'a \<Rightarrow> int) \<Rightarrow> 'a list \<Rightarrow> nat \<Rightarrow> nat \<Rightarrow> 'a list res" where
  "mutmapQuickSort 0 cmp a lo hi = Inl NO_RETURN"
| "mutmapQuickSort (Suc f) cmp a lo hi =
     (if hi - lo > 16 then
        let a = median_pivot cmp a lo hi; pivot = a ! (hi - 1) in
        bindR (partition_loop cmp a pivot lo (hi - 1)) (\<lambda>r.
        let i = snd r; a = swap (fst r) i (hi - 1) in
        if i - lo < hi - i then
          bindR (mutmapQuickSort f cmp a lo (i - 1)) (\<lambda>a. mutmapQuickSort f cmp a (i + 1) hi)
        else
          bindR (mutmapQuickSort f cmp a (i + 1) hi) (\<lambda>a. mutmapQuickSort f cmp a lo (i - 1)))
      else Inr (mutmapInsertionSort cmp a lo hi))"

section \<open>Ranges of an array\<close>

text \<open>\<open>b\<close> is \<open>a\<close> with the cells \<open>lo..hi\<close> permuted.\<close>

definition perm_range :: "'a list \<Rightarrow> 'a list \<Rightarrow> nat \<Rightarrow> nat \<Rightarrow> bool" where
  "perm_range a b lo hi \<longleftrightarrow> length b = length a \<and> mset b = mset a \<and>
     take lo b = take lo a \<and> drop (Suc hi) b = drop (Suc hi) a"

lemma perm_range_refl [simp]: "perm_range a a lo hi"
  by (simp add: perm_range_def)

lemma perm_range_trans: "perm_range a b lo hi \<Longrightarrow> perm_range b c lo hi \<Longrightarrow> perm_range a c lo hi"
  by (simp add: perm_range_def)

lemma perm_range_length: "perm_range a b lo hi \<Longrightarrow> length b = length a"
  by (simp add: perm_range_def)

lemma perm_range_widen:
  assumes "perm_range a b lo hi" "lo' \<le> lo" "hi \<le> hi'"
  shows "perm_range a b lo' hi'"
proof -
  have "take lo' b = take lo' (take lo b)" using assms(2) by (simp add: min_def)
  also have "\<dots> = take lo' (take lo a)" using assms(1) by (simp add: perm_range_def)
  also have "\<dots> = take lo' a" using assms(2) by (simp add: min_def)
  finally have t: "take lo' b = take lo' a" .
  have d: "drop (Suc hi') x = drop (hi' - hi) (drop (Suc hi) x)" for x :: "'a list"
    using assms(3) by simp
  have "drop (Suc hi') b = drop (Suc hi') a"
    unfolding d using assms(1) by (simp add: perm_range_def)
  with t assms(1) show ?thesis by (simp add: perm_range_def)
qed

lemma perm_range_outside:
  assumes "perm_range a b lo hi" "k < lo \<or> hi < k" "k < length a"
  shows "b ! k = a ! k"
proof (cases "k < lo")
  case True
  then have "b ! k = take lo b ! k" "a ! k = take lo a ! k" by simp_all
  then show ?thesis using assms(1) by (simp add: perm_range_def)
next
  case False
  then have k: "k = Suc hi + (k - Suc hi)" using assms(2) by simp
  have "b ! k = drop (Suc hi) b ! (k - Suc hi)" "a ! k = drop (Suc hi) a ! (k - Suc hi)"
    using assms k perm_range_length [OF assms(1)] by simp_all
  then show ?thesis using assms(1) by (simp add: perm_range_def)
qed

lemma range_split:
  assumes "lo \<le> hi" "hi < length a"
  shows "a = take lo a @ take (Suc hi - lo) (drop lo a) @ drop (Suc hi) a"
proof -
  have "drop (Suc hi) a = drop (Suc hi - lo) (drop lo a)" using assms by simp
  then have "take (Suc hi - lo) (drop lo a) @ drop (Suc hi) a = drop lo a" by (simp only: append_take_drop_id)
  then show ?thesis by simp
qed

lemma perm_range_inside:
  assumes "perm_range a b lo hi" "lo \<le> k" "k \<le> hi" "hi < length a"
  obtains l where "lo \<le> l" "l \<le> hi" "b ! k = a ! l"
proof -
  let ?s = "\<lambda>x. take (Suc hi - lo) (drop lo x)"
  have lb: "length b = length a" using assms(1) by (rule perm_range_length)
  have le: "lo \<le> hi" using assms by simp
  have "mset (take lo a) + mset (?s b) + mset (drop (Suc hi) a)
      = mset (take lo a) + mset (?s a) + mset (drop (Suc hi) a)"
  proof -
    have "mset b = mset (take lo b) + mset (?s b) + mset (drop (Suc hi) b)"
      using range_split [OF le, of b] lb assms(4) by (metis add.assoc mset_append)
    moreover have "mset a = mset (take lo a) + mset (?s a) + mset (drop (Suc hi) a)"
      using range_split [OF le, of a] assms(4) by (metis add.assoc mset_append)
    ultimately show ?thesis using assms(1) unfolding perm_range_def by metis
  qed
  then have m: "mset (?s b) = mset (?s a)" by simp
  have "b ! k = ?s b ! (k - lo)" using assms lb by simp
  also have "\<dots> \<in> set (?s b)" by (rule nth_mem) (use assms lb in simp)
  also have "\<dots> = set (?s a)" using m by (rule mset_eq_setD)
  finally obtain m where "m < length (?s a)" "?s a ! m = b ! k" by (auto simp: in_set_conv_nth)
  then have "b ! k = a ! (lo + m)" "lo + m \<le> hi" by auto
  then show thesis using that [of "lo + m"] by simp
qed

lemma swap_nth: "i < length a \<Longrightarrow> j < length a \<Longrightarrow> k < length a \<Longrightarrow>
    swap a i j ! k = (if k = i then a ! j else if k = j then a ! i else a ! k)"
  by (auto simp: swap_def nth_list_update)

lemma perm_range_swap:
  "lo \<le> i \<Longrightarrow> i \<le> hi \<Longrightarrow> lo \<le> j \<Longrightarrow> j \<le> hi \<Longrightarrow> hi < length a \<Longrightarrow> perm_range a (swap a i j) lo hi"
  by (simp add: perm_range_def swap_def mset_swap)

section \<open>Insertion sort\<close>

definition cmp_ok :: "('a \<Rightarrow> 'a \<Rightarrow> int) \<Rightarrow> ('a \<Rightarrow> 'k::linorder) \<Rightarrow> 'a list \<Rightarrow> bool" where
  "cmp_ok cmp key a \<longleftrightarrow> (\<forall>x \<in> set a. \<forall>y \<in> set a.
     (cmp x y < 0 \<longleftrightarrow> key x < key y) \<and> (cmp x y > 0 \<longleftrightarrow> key y < key x))"

lemma cmp_okD:
  "cmp_ok cmp key a \<Longrightarrow> x \<in> set a \<Longrightarrow> y \<in> set a \<Longrightarrow> cmp x y < 0 \<longleftrightarrow> key x < key y"
  "cmp_ok cmp key a \<Longrightarrow> x \<in> set a \<Longrightarrow> y \<in> set a \<Longrightarrow> cmp x y > 0 \<longleftrightarrow> key y < key x"
  by (simp_all add: cmp_ok_def)

lemma cmp_ok_perm: "cmp_ok cmp key a \<Longrightarrow> perm_range a b lo hi \<Longrightarrow> cmp_ok cmp key b"
  unfolding cmp_ok_def perm_range_def by (metis mset_eq_setD)

definition sorted_range :: "('a \<Rightarrow> 'k::linorder) \<Rightarrow> 'a list \<Rightarrow> nat \<Rightarrow> nat \<Rightarrow> bool" where
  "sorted_range key a lo hi \<longleftrightarrow> (\<forall>k l. lo \<le> k \<longrightarrow> k < l \<longrightarrow> l \<le> hi \<longrightarrow> key (a ! k) \<le> key (a ! l))"

lemma sorted_rangeD: "sorted_range key a lo hi \<Longrightarrow> lo \<le> k \<Longrightarrow> k \<le> l \<Longrightarrow> l \<le> hi \<Longrightarrow> key (a ! k) \<le> key (a ! l)"
  by (cases "k = l") (auto simp: sorted_range_def)

text \<open>
  While the hole moves down from \<open>i\<close> to \<open>j\<close>, the array with the saved item put into the
  hole is a permutation of the original, and the items above the hole are greater.
\<close>

lemma ins_shift_spec:
  assumes "lo \<le> j" "j \<le> i" "i < length a0" "length a = length a0" "cmp_ok cmp key a0"
    "perm_range a0 (a[j := x]) lo i" "x \<in> set a0"
    "\<forall>k. lo \<le> k \<longrightarrow> k < j \<longrightarrow> a ! k = a0 ! k" "\<forall>k. j < k \<longrightarrow> k \<le> i \<longrightarrow> a ! k = a0 ! (k - 1)"
    "\<forall>k. j \<le> k \<longrightarrow> k < i \<longrightarrow> key x < key (a0 ! k)"
    "ins_shift cmp a x lo j = (b, m)"
  shows "lo \<le> m \<and> m \<le> i \<and> length b = length a0 \<and> perm_range a0 (b[m := x]) lo i \<and>
     (\<forall>k. lo \<le> k \<longrightarrow> k < m \<longrightarrow> b ! k = a0 ! k) \<and> (\<forall>k. m < k \<longrightarrow> k \<le> i \<longrightarrow> b ! k = a0 ! (k - 1)) \<and>
     (\<forall>k. m \<le> k \<longrightarrow> k < i \<longrightarrow> key x < key (a0 ! k)) \<and> (m > lo \<longrightarrow> key (a0 ! (m - 1)) \<le> key x)"
  using assms
proof (induction j arbitrary: a)
  case 0
  then have "b = a \<and> m = 0" by (simp add: ins_shift.simps)
  with 0 show ?case by simp
next
  case (Suc j)
  note p = Suc.prems
  show ?case
  proof (cases "Suc j > lo \<and> cmp (a ! j) x > 0")
    case False
    then have bm: "b = a" "m = Suc j"
      using p(11) by (auto simp add: ins_shift.simps [of cmp a x lo "Suc j"] split: if_splits)
    have "key (a0 ! j) \<le> key x" if "lo < Suc j"
    proof -
      have "a ! j = a0 ! j" using p(8) that by simp
      moreover have "a0 ! j \<in> set a0" using p(2,3) by simp
      ultimately show ?thesis using False that cmp_okD(2) [OF p(5) _ p(7)] by (simp add: not_less)
    qed
    with p bm show ?thesis by simp
  next
    case True
    then have step: "ins_shift cmp (a[Suc j := a ! j]) x lo j = (b, m)"
      using p(11) by (simp add: ins_shift.simps [of cmp a x lo "Suc j"])
    have aj: "a ! j = a0 ! j" "a0 ! j \<in> set a0" using p(2,3,8) True by simp_all
    have kx: "key x < key (a0 ! j)" using True aj cmp_okD(2) [OF p(5) aj(2) p(7)] by simp
    have len: "Suc j < length a" using p(2,3,4) by simp
    have sw: "(a[Suc j := a ! j])[j := x] = swap (a[Suc j := x]) j (Suc j)"
      using len by (simp add: swap_def list_eq_iff_nth_eq nth_list_update)
    have pr: "perm_range a0 ((a[Suc j := a ! j])[j := x]) lo i"
      unfolding sw
      by (rule perm_range_trans [OF p(6)], rule perm_range_swap) (use True p in simp_all)
    have low: "\<forall>k. lo \<le> k \<longrightarrow> k < j \<longrightarrow> a[Suc j := a ! j] ! k = a0 ! k" using p(8) by simp
    have high: "\<forall>k. j < k \<longrightarrow> k \<le> i \<longrightarrow> a[Suc j := a ! j] ! k = a0 ! (k - 1)"
    proof (intro allI impI)
      fix k assume "j < k" "k \<le> i"
      then show "a[Suc j := a ! j] ! k = a0 ! (k - 1)"
        using p(9) aj(1) len by (cases "k = Suc j") simp_all
    qed
    have gt: "\<forall>k. j \<le> k \<longrightarrow> k < i \<longrightarrow> key x < key (a0 ! k)"
      using p(10) kx by (metis Suc_leI le_neq_implies_less)
    show ?thesis
      by (rule Suc.IH [OF _ _ p(3) _ p(5) pr p(7) low high gt step]) (use True p in simp_all)
  qed
qed

lemma isort_from_spec:
  assumes "lo < i" "hi < length a" "cmp_ok cmp key a" "sorted_range key a lo (i - 1)" "i \<le> hi + 1"
  shows "perm_range a (isort_from cmp a lo i hi) lo hi \<and> sorted_range key (isort_from cmp a lo i hi) lo hi"
  using assms
proof (induction cmp a lo i hi rule: isort_from.induct)
  case (1 cmp a lo i hi)
  note p = "1.prems"
  show ?case
  proof (cases "i \<le> hi")
    case False
    then have "i = hi + 1" using p(5) by simp
    then show ?thesis using p(4) False by (simp add: isort_from.simps)
  next
    case True
    define x where "x = a ! i"
    obtain b m where bm: "ins_shift cmp a x lo i = (b, m)" by (metis surj_pair)
    have ia: "i < length a" "a[i := x] = a" "x \<in> set a" using True p(2) by (simp_all add: x_def)
    have sp: "lo \<le> m \<and> m \<le> i \<and> length b = length a \<and> perm_range a (b[m := x]) lo i \<and>
     (\<forall>k. lo \<le> k \<longrightarrow> k < m \<longrightarrow> b ! k = a ! k) \<and> (\<forall>k. m < k \<longrightarrow> k \<le> i \<longrightarrow> b ! k = a ! (k - 1)) \<and>
     (\<forall>k. m \<le> k \<longrightarrow> k < i \<longrightarrow> key x < key (a ! k)) \<and> (m > lo \<longrightarrow> key (a ! (m - 1)) \<le> key x)"
      by (rule ins_shift_spec [where a = a]) (use p(1,3) ia bm in auto)
    let ?c = "b[m := x]"
    have ml: "m < length b" using sp ia(1) by auto
    have s0: "key (a ! k) \<le> key (a ! l)" if "lo \<le> k" "k \<le> l" "l < i" for k l
      by (rule sorted_rangeD [OF p(4)]) (use that in auto)
    have c1: "?c ! k = a ! k" if "lo \<le> k" "k < m" for k using sp that by simp
    have c2: "?c ! m = x" using ml by simp
    have c3: "?c ! k = a ! (k - 1)" if "m < k" "k \<le> i" for k using sp that by simp
    have below: "key (a ! k) \<le> key x" if "lo \<le> k" "k < m" for k
    proof -
      have "key (a ! k) \<le> key (a ! (m - 1))" by (rule s0) (use that sp in auto)
      also have "\<dots> \<le> key x" using sp that by auto
      finally show ?thesis .
    qed
    have above: "key x \<le> key (a ! k)" if "m \<le> k" "k < i" for k using sp that by (simp add: less_imp_le)
    have srt: "sorted_range key ?c lo i"
      unfolding sorted_range_def
    proof (intro allI impI)
      fix k l assume kl: "lo \<le> k" "k < l" "l \<le> i"
      consider "l < m" | "l = m" | "k < m" "m < l" | "k = m" | "m < k" using kl by linarith
      then show "key (?c ! k) \<le> key (?c ! l)"
      proof cases
        case 1
        then show ?thesis using c1 [of k] c1 [of l] s0 [of k l] kl sp by simp
      next
        case 2
        then show ?thesis using c1 [of k] c2 below [of k] kl by simp
      next
        case 3
        then show ?thesis
          using c1 [of k] c3 [of l] s0 [of k "l - 1"] kl by simp
      next
        case 4
        then show ?thesis using c2 c3 [of l] above [of "l - 1"] kl by simp
      next
        case 5
        have lm: "lo \<le> m" using sp by simp
        have "key (a ! (k - 1)) \<le> key (a ! (l - 1))" by (rule s0) (use 5 kl lm in linarith)+
        then show ?thesis using 5 c3 [of k] c3 [of l] kl by simp
      qed
    qed
    have pr: "perm_range a ?c lo hi" by (rule perm_range_widen [of _ _ lo i]) (use sp True in auto)
    have ih: "perm_range ?c (isort_from cmp ?c lo (i + 1) hi) lo hi \<and>
        sorted_range key (isort_from cmp ?c lo (i + 1) hi) lo hi"
      using "1.IH" [OF True refl refl, of] p(1,2) True srt cmp_ok_perm [OF p(3) pr] perm_range_length [OF pr]
      unfolding x_def [symmetric] bm fst_conv snd_conv by simp
    have "isort_from cmp a lo i hi = isort_from cmp ?c lo (i + 1) hi"
      by (subst isort_from.simps) (use True in \<open>simp only: if_True Let_def x_def [symmetric] bm fst_conv snd_conv\<close>)
    then show ?thesis using ih perm_range_trans [OF pr] by simp
  qed
qed

lemma mutmapInsertionSort_spec:
  assumes "lo \<le> hi" "hi < length a" "cmp_ok cmp key a"
  shows "perm_range a (mutmapInsertionSort cmp a lo hi) lo hi"
    "sorted_range key (mutmapInsertionSort cmp a lo hi) lo hi"
proof -
  have "sorted_range key a lo (lo + 1 - 1)" by (simp add: sorted_range_def)
  then show "perm_range a (mutmapInsertionSort cmp a lo hi) lo hi"
    "sorted_range key (mutmapInsertionSort cmp a lo hi) lo hi"
    using isort_from_spec [of lo "lo + 1" hi a cmp key] assms
    by (simp_all add: mutmapInsertionSort_def)
qed

section \<open>Quicksort\<close>

lemma scan_up_spec:
  "i < t \<Longrightarrow> t < length a \<Longrightarrow> \<not> cmp (a ! t) p < 0 \<Longrightarrow>
    \<exists>k. scan_up cmp a p i = Inr k \<and> i < k \<and> k \<le> t \<and> \<not> cmp (a ! k) p < 0 \<and>
      (\<forall>l. i < l \<longrightarrow> l < k \<longrightarrow> cmp (a ! l) p < 0)"
proof (induction "t - i" arbitrary: i)
  case (Suc d)
  have b: "i + 1 < length a" using Suc.prems by simp
  show ?case
  proof (cases "cmp (a ! (i + 1)) p < 0")
    case False
    have "scan_up cmp a p i = Inr (i + 1)" using b False by (subst scan_up.simps) simp
    then show ?thesis using False Suc.prems by (intro exI [of _ "i + 1"]) auto
  next
    case True
    then have "i + 1 < t" using Suc.prems by (metis Suc_eq_plus1 Suc_lessI)
    moreover have d: "d = t - (i + 1)" using Suc.hyps(2) by simp
    ultimately obtain k where k: "scan_up cmp a p (i + 1) = Inr k" "i + 1 < k" "k \<le> t" "\<not> cmp (a ! k) p < 0"
      "\<forall>l. i + 1 < l \<longrightarrow> l < k \<longrightarrow> cmp (a ! l) p < 0"
      using Suc.hyps(1) [OF d _ Suc.prems(2,3)] by auto
    have "scan_up cmp a p i = Inr k" using b True k(1) by (subst scan_up.simps) simp
    moreover have "cmp (a ! l) p < 0" if "i < l" "l < k" for l
      using k(5) True that by (cases "l = i + 1") auto
    ultimately show ?thesis using k(2,3,4) by (intro exI [of _ k]) auto
  qed
qed simp

lemma scan_down_spec:
  "t < j \<Longrightarrow> \<not> cmp (a ! t) p > 0 \<Longrightarrow>
    \<exists>k. scan_down cmp a p j = Inr k \<and> t \<le> k \<and> k < j \<and> \<not> cmp (a ! k) p > 0 \<and>
      (\<forall>l. k < l \<longrightarrow> l < j \<longrightarrow> cmp (a ! l) p > 0)"
proof (induction j)
  case (Suc j)
  show ?case
  proof (cases "cmp (a ! j) p > 0")
    case False
    then show ?thesis using Suc.prems by (intro exI [of _ j]) auto
  next
    case True
    then have "t < j" using Suc.prems by (metis less_SucE)
    then obtain k where k: "scan_down cmp a p j = Inr k" "t \<le> k" "k < j" "\<not> cmp (a ! k) p > 0"
      "\<forall>l. k < l \<longrightarrow> l < j \<longrightarrow> cmp (a ! l) p > 0"
      using Suc.IH Suc.prems(2) by auto
    moreover have "cmp (a ! l) p > 0" if "k < l" "l < Suc j" for l
      using k(5) True that by (cases "l = j") auto
    ultimately show ?thesis using True by (intro exI [of _ k]) auto
  qed
qed simp

lemma partition_loop_spec:
  assumes "cmp_ok cmp key a" "hi < length a" "lo \<le> i" "i < j" "j < hi" "a ! (hi - 1) = p"
    "\<forall>k. lo \<le> k \<longrightarrow> k \<le> i \<longrightarrow> key (a ! k) \<le> key p" "\<forall>k. j \<le> k \<longrightarrow> k \<le> hi \<longrightarrow> key p \<le> key (a ! k)"
  shows "\<exists>b m. partition_loop cmp a p i j = Inr (b, m) \<and> perm_range a b lo hi \<and> i < m \<and> m < hi \<and>
     b ! (hi - 1) = p \<and> (\<forall>k. lo \<le> k \<longrightarrow> k < m \<longrightarrow> key (b ! k) \<le> key p) \<and>
     (\<forall>k. m \<le> k \<longrightarrow> k \<le> hi \<longrightarrow> key p \<le> key (b ! k))"
  using assms
proof (induction "length a - i" arbitrary: a i j rule: less_induct)
  case less
  note q = less.prems
  have mem: "a ! k \<in> set a" if "k \<le> hi" for k using that q(2) by simp
  have pm: "p \<in> set a" using mem [of "hi - 1"] q(6) by simp
  note lt = cmp_okD(1) [OF q(1) mem pm] and gt = cmp_okD(2) [OF q(1) mem pm]
  have "\<not> cmp (a ! j) p < 0" using lt [of j] q(5,8) by (simp add: not_less)
  then obtain i' where i': "scan_up cmp a p i = Inr i'" "i < i'" "i' \<le> j" "\<not> cmp (a ! i') p < 0"
    "\<forall>l. i < l \<longrightarrow> l < i' \<longrightarrow> cmp (a ! l) p < 0"
    using scan_up_spec [of i j a cmp p] q(2,4,5) by auto
  have "\<not> cmp (a ! i) p > 0" using gt [of i] q(3,4,5,7) by (simp add: not_less)
  then obtain j' where j': "scan_down cmp a p j = Inr j'" "i \<le> j'" "j' < j" "\<not> cmp (a ! j') p > 0"
    "\<forall>l. j' < l \<longrightarrow> l < j \<longrightarrow> cmp (a ! l) p > 0"
    using scan_down_spec [of i j cmp a p] q(4) by auto
  have h: "i' < hi" "j' < hi" using i'(3) j'(3) q(5) by simp_all
  have ki: "key p \<le> key (a ! i')" using i'(4) lt [of i'] h by (simp add: not_less)
  have kj: "key (a ! j') \<le> key p" using j'(4) gt [of j'] h by (simp add: not_less)
  have low: "key (a ! k) \<le> key p" if "lo \<le> k" "k < i'" for k
    using q(7) i'(5) lt [of k] that h by (cases "k \<le> i") auto
  have high: "key p \<le> key (a ! k)" if "j' < k" "k \<le> hi" for k
    using q(8) j'(5) gt [of k] that by (cases "j \<le> k") auto
  show ?case
  proof (cases "i' \<ge> j'")
    case True
    have "partition_loop cmp a p i j = Inr (a, i')"
      using True i'(1) j'(1) by (subst partition_loop.simps) simp
    moreover have "key p \<le> key (a ! k)" if "i' \<le> k" "k \<le> hi" for k
      using ki high [of k] True that by (cases "k = i'") auto
    ultimately show ?thesis using low i'(2) h q(6) by (intro exI [of _ a] exI [of _ i']) simp
  next
    case False
    let ?c = "swap a i' j'"
    have step: "partition_loop cmp a p i j = partition_loop cmp ?c p i' j'"
      using False i'(1) j'(1) by (subst partition_loop.simps) simp
    have lo': "lo \<le> i'" "lo \<le> j'" using q(3) i'(2) False by simp_all
    have pr: "perm_range a ?c lo hi" by (rule perm_range_swap) (use lo' h q(2) in simp_all)
    have nth: "?c ! k = (if k = i' then a ! j' else if k = j' then a ! i' else a ! k)" if "k \<le> hi" for k
      by (rule swap_nth) (use that h q(2) in simp_all)
    have "hi - 1 \<noteq> i'" "hi - 1 \<noteq> j'" "hi - 1 \<le> hi" using q(5) False j'(3) by linarith+
    then have piv: "?c ! (hi - 1) = p" using nth [of "hi - 1"] q(6) by simp
    have l1: "\<forall>k. lo \<le> k \<longrightarrow> k \<le> i' \<longrightarrow> key (?c ! k) \<le> key p"
      using nth low kj h False by (simp add: le_less)
    have h1: "\<forall>k. j' \<le> k \<longrightarrow> k \<le> hi \<longrightarrow> key p \<le> key (?c ! k)"
      using nth high ki False by (auto simp add: le_less)
    have dec: "length ?c - i' < length a - i" using i'(2) h q(2) by simp
    obtain b m where bm: "partition_loop cmp ?c p i' j' = Inr (b, m)" "perm_range ?c b lo hi" "i' < m" "m < hi"
      "b ! (hi - 1) = p" "\<forall>k. lo \<le> k \<longrightarrow> k < m \<longrightarrow> key (b ! k) \<le> key p"
      "\<forall>k. m \<le> k \<longrightarrow> k \<le> hi \<longrightarrow> key p \<le> key (b ! k)"
      using less.hyps [OF dec cmp_ok_perm [OF q(1) pr] _ lo'(1) _ h(2) piv l1 h1] False q(2) by auto
    then show ?thesis
      using step perm_range_trans [OF pr bm(2)] i'(2) by (intro exI [of _ b] exI [of _ m]) simp
  qed
qed

lemma order_if_gt_spec:
  assumes "cmp_ok cmp key a" "lo \<le> i" "i < j" "j \<le> hi" "hi < length a"
  shows "perm_range a (order_if_gt cmp a i j) lo hi"
    "key (order_if_gt cmp a i j ! i) = min (key (a ! i)) (key (a ! j))"
    "key (order_if_gt cmp a i j ! j) = max (key (a ! i)) (key (a ! j))"
    "k < length a \<Longrightarrow> k \<noteq> i \<Longrightarrow> k \<noteq> j \<Longrightarrow> order_if_gt cmp a i j ! k = a ! k"
proof -
  have "a ! i \<in> set a" "a ! j \<in> set a" using assms by simp_all
  note gt = cmp_okD(2) [OF assms(1) this]
  show "perm_range a (order_if_gt cmp a i j) lo hi"
    using assms perm_range_swap [of lo i hi j a] by (simp add: order_if_gt_def)
  show "key (order_if_gt cmp a i j ! i) = min (key (a ! i)) (key (a ! j))"
    "key (order_if_gt cmp a i j ! j) = max (key (a ! i)) (key (a ! j))"
    using assms gt by (auto simp add: order_if_gt_def swap_nth min_def max_def)
  show "order_if_gt cmp a i j ! k = a ! k" if "k < length a" "k \<noteq> i" "k \<noteq> j"
    using that assms by (simp add: order_if_gt_def swap_nth)
qed

lemma median_pivot_spec:
  assumes ok: "cmp_ok cmp key a" and r: "lo + 16 < hi" "hi < length a"
  shows "perm_range a (median_pivot cmp a lo hi) lo hi"
    "key (median_pivot cmp a lo hi ! lo) \<le> key (median_pivot cmp a lo hi ! (hi - 1))"
    "key (median_pivot cmp a lo hi ! (hi - 1)) \<le> key (median_pivot cmp a lo hi ! hi)"
proof -
  define mid where "mid = lo + drop_bit 1 (hi - lo)"
  have m: "lo < mid" "mid < hi - 1" using r by (auto simp: mid_def drop_bit_eq_div)
  define a1 where "a1 = order_if_gt cmp a lo mid"
  define a2 where "a2 = order_if_gt cmp a1 lo hi"
  define a3 where "a3 = order_if_gt cmp a2 mid hi"
  define c where "c = swap a3 mid (hi - 1)"
  have p1: "perm_range a a1 lo hi" unfolding a1_def by (rule order_if_gt_spec [OF ok]) (use m r in auto)
  have ok1: "cmp_ok cmp key a1" by (rule cmp_ok_perm [OF ok p1])
  have n1: "length a1 = length a" by (rule perm_range_length [OF p1])
  have p2: "perm_range a1 a2 lo hi" unfolding a2_def by (rule order_if_gt_spec [OF ok1]) (use m r n1 in auto)
  have ok2: "cmp_ok cmp key a2" by (rule cmp_ok_perm [OF ok1 p2])
  have n2: "length a2 = length a" using n1 perm_range_length [OF p2] by simp
  have p3: "perm_range a2 a3 lo hi" unfolding a3_def by (rule order_if_gt_spec [OF ok2]) (use m r n2 in auto)
  have n3: "length a3 = length a" using n2 perm_range_length [OF p3] by simp
  have p4: "perm_range a3 c lo hi" unfolding c_def by (rule perm_range_swap) (use m r n3 in auto)
  have k1: "key (a1 ! lo) = min (key (a ! lo)) (key (a ! mid))" "key (a1 ! mid) = max (key (a ! lo)) (key (a ! mid))"
    "a1 ! hi = a ! hi"
    unfolding a1_def by (rule order_if_gt_spec [OF ok, where lo = lo and hi = hi]; use m r in simp)+
  have k2: "key (a2 ! lo) = min (key (a1 ! lo)) (key (a1 ! hi))" "key (a2 ! hi) = max (key (a1 ! lo)) (key (a1 ! hi))"
    "a2 ! mid = a1 ! mid"
    unfolding a2_def by (rule order_if_gt_spec [OF ok1, where lo = lo and hi = hi]; use m r n1 in simp)+
  have k3: "key (a3 ! mid) = min (key (a2 ! mid)) (key (a2 ! hi))" "key (a3 ! hi) = max (key (a2 ! mid)) (key (a2 ! hi))"
    "a3 ! lo = a2 ! lo"
    unfolding a3_def by (rule order_if_gt_spec [OF ok2, where lo = lo and hi = hi]; use m r n2 in simp)+
  have c: "c ! lo = a3 ! lo" "c ! (hi - 1) = a3 ! mid" "c ! hi = a3 ! hi"
    unfolding c_def using m r n3 by (auto simp add: swap_nth)
  have cm: "median_pivot cmp a lo hi = c"
    by (simp add: median_pivot_def Let_def mid_def a1_def a2_def a3_def c_def)
  show "perm_range a (median_pivot cmp a lo hi) lo hi"
    unfolding cm by (rule perm_range_trans [OF p1 perm_range_trans [OF p2 perm_range_trans [OF p3 p4]]])
  show "key (median_pivot cmp a lo hi ! lo) \<le> key (median_pivot cmp a lo hi ! (hi - 1))"
    unfolding cm c k3 k2 k1 by (auto simp add: min_def max_def)
  show "key (median_pivot cmp a lo hi ! (hi - 1)) \<le> key (median_pivot cmp a lo hi ! hi)"
    unfolding cm c k3 by (auto simp add: min_def max_def)
qed

text \<open>Two sorted ranges around a pivot make a sorted range.\<close>

lemma sorted_range_join:
  assumes "sorted_range key a lo (m - 1)" "sorted_range key a (m + 1) hi" "lo < m" "m < hi"
    "\<forall>k. lo \<le> k \<longrightarrow> k < m \<longrightarrow> key (a ! k) \<le> key (a ! m)" "\<forall>k. m < k \<longrightarrow> k \<le> hi \<longrightarrow> key (a ! m) \<le> key (a ! k)"
  shows "sorted_range key a lo hi"
  unfolding sorted_range_def
proof (intro allI impI)
  fix k l assume kl: "lo \<le> k" "k < l" "l \<le> hi"
  consider "l < m" | "k \<le> m" "m \<le> l" | "m < k" using kl by linarith
  then show "key (a ! k) \<le> key (a ! l)"
  proof cases
    case 1
    then show ?thesis using sorted_rangeD [OF assms(1), of k l] kl by simp
  next
    case 2
    have "key (a ! k) \<le> key (a ! m)" using 2 assms(5) kl by (cases "k = m") auto
    also have "\<dots> \<le> key (a ! l)" using 2 assms(6) kl by (cases "l = m") auto
    finally show ?thesis .
  next
    case 3
    then show ?thesis using sorted_rangeD [OF assms(2), of k l] kl by simp
  qed
qed

lemma sorted_range_keep:
  "sorted_range key a lo hi \<Longrightarrow> perm_range a b lo' hi' \<Longrightarrow> hi < length a \<Longrightarrow> hi < lo' \<or> hi' < lo \<Longrightarrow>
     sorted_range key b lo hi"
  unfolding sorted_range_def
  by (smt (verit) le_less_trans less_imp_le less_le_trans perm_range_outside)

lemma mutmapQuickSort_spec:
  "cmp_ok cmp key a \<Longrightarrow> lo \<le> hi \<Longrightarrow> hi < length a \<Longrightarrow> hi - lo < f \<Longrightarrow>
     \<exists>b. mutmapQuickSort f cmp a lo hi = Inr b \<and> perm_range a b lo hi \<and> sorted_range key b lo hi"
proof (induction f arbitrary: a lo hi)
  case (Suc f)
  note q = Suc.prems
  show ?case
  proof (cases "hi - lo > 16")
    case False
    then show ?thesis using mutmapInsertionSort_spec [OF q(2,3,1)] by simp
  next
    case True
    then have r: "lo + 16 < hi" by simp
    define a1 where "a1 = median_pivot cmp a lo hi"
    define p where "p = a1 ! (hi - 1)"
    note mp = median_pivot_spec [OF q(1) r q(3), folded a1_def]
    have ok1: "cmp_ok cmp key a1" by (rule cmp_ok_perm [OF q(1) mp(1)])
    have n1: "length a1 = length a" by (rule perm_range_length [OF mp(1)])
    have i1: "\<forall>k. lo \<le> k \<longrightarrow> k \<le> lo \<longrightarrow> key (a1 ! k) \<le> key p" using mp(2) by (auto simp: p_def)
    have j1: "\<forall>k. hi - 1 \<le> k \<longrightarrow> k \<le> hi \<longrightarrow> key p \<le> key (a1 ! k)"
    proof (intro allI impI)
      fix k assume "hi - 1 \<le> k" "k \<le> hi"
      then have "k = hi - 1 \<or> k = hi" by auto
      then show "key p \<le> key (a1 ! k)" using mp(3) by (auto simp: p_def)
    qed
    have hi1: "hi < length a1" and lh1: "lo < hi - 1" and lh2: "hi - 1 < hi" using n1 q(3) r by simp_all
    obtain a2 m where a2: "partition_loop cmp a1 p lo (hi - 1) = Inr (a2, m)" "perm_range a1 a2 lo hi"
      "lo < m" "m < hi" "a2 ! (hi - 1) = p" "\<forall>k. lo \<le> k \<longrightarrow> k < m \<longrightarrow> key (a2 ! k) \<le> key p"
      "\<forall>k. m \<le> k \<longrightarrow> k \<le> hi \<longrightarrow> key p \<le> key (a2 ! k)"
      using partition_loop_spec [OF ok1 hi1 le_refl lh1 lh2 p_def [symmetric] i1 j1] by blast
    define a3 where "a3 = swap a2 m (hi - 1)"
    have n2: "length a2 = length a" using perm_range_length [OF a2(2)] n1 by simp
    have p3: "perm_range a2 a3 lo hi"
      unfolding a3_def by (rule perm_range_swap) (use a2(3,4) n2 q(3) in auto)
    have n3: "length a3 = length a" using perm_range_length [OF p3] n2 by simp
    have nth3: "a3 ! k = (if k = m then p else if k = hi - 1 then a2 ! m else a2 ! k)" if "k \<le> hi" for k
      unfolding a3_def using that a2(4,5) n2 q(3) by (subst swap_nth) auto
    have pm: "a3 ! m = p" using nth3 [of m] a2(4) by simp
    have lo3: "key (a3 ! k) \<le> key p" if "lo \<le> k" "k < m" for k
      using nth3 [of k] a2(4,6) that by auto
    have hi3: "key p \<le> key (a3 ! k)" if "m < k" "k \<le> hi" for k
      using nth3 [of k] a2(4,7) that by auto
    have pa3: "perm_range a a3 lo hi" by (rule perm_range_trans [OF mp(1) perm_range_trans [OF a2(2) p3]])
    have ok3: "cmp_ok cmp key a3" by (rule cmp_ok_perm [OF q(1) pa3])
    have sizes: "m - 1 - lo < f" "hi - (m + 1) < f" "lo \<le> m - 1" "m + 1 \<le> hi"
      "m - 1 < length a" "m - 1 < length a3" "hi < length a3"
      using q(3,4) a2(3,4) n3 by linarith+
    have fin: "perm_range a c lo hi \<and> sorted_range key c lo hi"
      if L: "perm_range a3 b l1 h1" "sorted_range key b l1 h1" and R: "perm_range b c l2 h2" "sorted_range key c l2 h2"
        and lr: "l1 = lo \<and> h1 = m - 1 \<and> l2 = m + 1 \<and> h2 = hi \<or> l2 = lo \<and> h2 = m - 1 \<and> l1 = m + 1 \<and> h1 = hi"
      for b c l1 h1 l2 h2
    proof -
      have nb: "length b = length a" using perm_range_length [OF L(1)] n3 by simp
      have wl: "perm_range a3 b lo hi" by (rule perm_range_widen [OF L(1)]) (use lr a2(3,4) in auto)
      have wr: "perm_range b c lo hi" by (rule perm_range_widen [OF R(1)]) (use lr a2(3,4) in auto)
      have c1: "sorted_range key c l1 h1"
        by (rule sorted_range_keep [OF L(2) R(1)]) (use lr a2(3,4) q(3) nb in auto)
      have sides: "sorted_range key c lo (m - 1)" "sorted_range key c (m + 1) hi" using c1 R(2) lr by auto
      have bm: "b ! m = a3 ! m" by (rule perm_range_outside [OF L(1)]) (use lr a2(3,4) n3 q(3) in auto)
      have cm: "c ! m = b ! m" by (rule perm_range_outside [OF R(1)]) (use lr a2(3,4) nb q(3) in auto)
      have cmp: "c ! m = p" using bm cm pm by simp
      have clo: "\<exists>l. lo \<le> l \<and> l < m \<and> c ! k = a3 ! l" if k: "lo \<le> k" "k < m" for k
      proof (cases "l1 = lo")
        case True
        then have e: "l1 = lo" "h1 = m - 1" "l2 = m + 1" using lr a2(3) by auto
        have "c ! k = b ! k" by (rule perm_range_outside [OF R(1)]) (use e k a2(4) nb q(3) in auto)
        moreover obtain l where "l1 \<le> l" "l \<le> h1" "b ! k = a3 ! l"
          by (rule perm_range_inside [OF L(1), of k]) (use e k a2(4) n3 q(3) in auto)
        ultimately show ?thesis using e k by (intro exI [of _ l]) auto
      next
        case False
        then have e: "l2 = lo" "h2 = m - 1" "l1 = m + 1" using lr by auto
        obtain l where l: "l2 \<le> l" "l \<le> h2" "c ! k = b ! l"
          by (rule perm_range_inside [OF R(1), of k]) (use e k a2(4) nb q(3) in auto)
        moreover have "b ! l = a3 ! l"
          by (rule perm_range_outside [OF L(1)]) (use e l a2(4) k n3 q(3) in auto)
        ultimately show ?thesis using e k by (intro exI [of _ l]) auto
      qed
      have chi: "\<exists>l. m < l \<and> l \<le> hi \<and> c ! k = a3 ! l" if k: "m < k" "k \<le> hi" for k
      proof (cases "l1 = lo")
        case False
        then have e: "l1 = m + 1" "h1 = hi" "h2 = m - 1" using lr by auto
        have "c ! k = b ! k" by (rule perm_range_outside [OF R(1)]) (use e k a2(3) nb q(3) in auto)
        moreover obtain l where "l1 \<le> l" "l \<le> h1" "b ! k = a3 ! l"
          by (rule perm_range_inside [OF L(1), of k]) (use e k n3 q(3) in auto)
        ultimately show ?thesis using e k by (intro exI [of _ l]) auto
      next
        case True
        then have e: "l2 = m + 1" "h2 = hi" "h1 = m - 1" using lr a2(3) by auto
        obtain l where l: "l2 \<le> l" "l \<le> h2" "c ! k = b ! l"
          by (rule perm_range_inside [OF R(1), of k]) (use e k nb q(3) in auto)
        moreover have "b ! l = a3 ! l"
          by (rule perm_range_outside [OF L(1)]) (use e l a2(3) k n3 q(3) in auto)
        ultimately show ?thesis using e k by (intro exI [of _ l]) auto
      qed
      have "sorted_range key c lo hi"
        by (rule sorted_range_join [OF sides a2(3,4)]) (use clo chi lo3 hi3 cmp in fastforce)+
      then show ?thesis using perm_range_trans [OF pa3 perm_range_trans [OF wl wr]] by simp
    qed
    have unf: "mutmapQuickSort (Suc f) cmp a lo hi =
        (if m - lo < hi - m then
           bindR (mutmapQuickSort f cmp a3 lo (m - 1)) (\<lambda>a. mutmapQuickSort f cmp a (m + 1) hi)
         else bindR (mutmapQuickSort f cmp a3 (m + 1) hi) (\<lambda>a. mutmapQuickSort f cmp a lo (m - 1)))"
      using True by (simp only: mutmapQuickSort.simps if_True Let_def a1_def [symmetric]
          p_def [symmetric] a2(1) bindR_Inr fst_conv snd_conv a3_def [symmetric])
    show ?thesis
    proof (cases "m - lo < hi - m")
      case True
      obtain b where b: "mutmapQuickSort f cmp a3 lo (m - 1) = Inr b" "perm_range a3 b lo (m - 1)"
        "sorted_range key b lo (m - 1)"
        using Suc.IH [OF ok3 sizes(3,6,1)] by blast
      obtain c where c: "mutmapQuickSort f cmp b (m + 1) hi = Inr c" "perm_range b c (m + 1) hi"
        "sorted_range key c (m + 1) hi"
        using Suc.IH [OF cmp_ok_perm [OF ok3 b(2)] sizes(4) _ sizes(2)] perm_range_length [OF b(2)] sizes(7)
        by auto
      show ?thesis using fin [OF b(2,3) c(2,3)] unf True b(1) c(1) by simp
    next
      case False
      obtain b where b: "mutmapQuickSort f cmp a3 (m + 1) hi = Inr b" "perm_range a3 b (m + 1) hi"
        "sorted_range key b (m + 1) hi"
        using Suc.IH [OF ok3 sizes(4,7,2)] by blast
      obtain c where c: "mutmapQuickSort f cmp b lo (m - 1) = Inr c" "perm_range b c lo (m - 1)"
        "sorted_range key c lo (m - 1)"
        using Suc.IH [OF cmp_ok_perm [OF ok3 b(2)] sizes(3) _ sizes(1)] perm_range_length [OF b(2)] sizes(6)
        by auto
      show ?thesis using fin [OF b(2,3) c(2,3)] unf False b(1) c(1) by simp
    qed
  qed
qed simp

text \<open>
  C39. The quicksort with median of three and insertion sort below 17 elements sorts an
  array: with any comparison that agrees with the order of the keys it returns, within a
  recursion depth of the array's length, a sorted permutation of it.
\<close>

theorem mutmapQuickSort_sorts:
  assumes "cmp_ok cmp key a" "a \<noteq> []"
  shows "\<exists>b. mutmapQuickSort (length a) cmp a 0 (length a - 1) = Inr b \<and> mset b = mset a \<and> sorted (map key b)"
proof -
  have "0 < length a" using assms(2) by simp
  then obtain b where b: "mutmapQuickSort (length a) cmp a 0 (length a - 1) = Inr b"
    "perm_range a b 0 (length a - 1)" "sorted_range key b 0 (length a - 1)"
    using mutmapQuickSort_spec [OF assms(1), of 0 "length a - 1" "length a"] by auto
  have "length b = length a" "mset b = mset a" using b(2) by (simp_all add: perm_range_def)
  moreover from this have "sorted (map key b)"
    using b(3) by (auto simp: sorted_iff_nth_mono_less sorted_range_def)
  ultimately show ?thesis using b(1) by blast
qed

lemma mutmapQuickSort_sorts_witness:
  "\<exists>b. mutmapQuickSort 18 (\<lambda>x y. x - y) (rev [1..18] :: int list) 0 17 = Inr b \<and> sorted b"
  using mutmapQuickSort_sorts [of "\<lambda>x y. x - y" "\<lambda>x. x" "rev [1..18] :: int list"]
  by (simp add: cmp_ok_def) fastforce

end
