(* ===== verification/MutMap.thy ===== *)
theory MutMap
  imports Bytes Node OrderSort
begin

text \<open>
  The in-memory map of pending edits (\<open>prolly_mutmap.c\<close>): entries in the order they were
  first written, an order array with its inverse that is either kept sorted on every
  insertion or sorted on demand, a hash index from keys to entries for the lazy mode,
  and an undo log that lets a savepoint be rolled back or released.

  \<open>aEntries\<close> is the list of the live entries, its length is \<open>nEntries\<close>; \<open>aOrder\<close> and
  \<open>aPos\<close> are the allocated arrays, which keep stale cells beyond the live ones, so that a
  read through a stale cell is an out-of-bounds read of the model.  Capacities and the
  sort scratch buffer are not modelled (the lists grow).  This theory holds the
  definitions; \<open>MutMapInv\<close> and \<open>MutMapUndo\<close> hold the proofs.
\<close>

section \<open>State\<close>

definition MUTMAP_MIN_HASH :: nat where "MUTMAP_MIN_HASH = 32"

datatype edit_op = PROLLY_EDIT_INSERT | PROLLY_EDIT_DELETE

record mm_entry =
  op :: edit_op
  eKey :: "byte list"
  keyPrefix :: u64
  keyHash :: u32
  eVal :: "byte list"
  bornAt :: int

record undo_rec =
  uLevel :: int
  entryIdx :: int
  prevBornAt :: int
  prevOp :: edit_op
  prevVal :: "byte list"

record mutmap =
  isIntKey :: bool
  keepSorted :: bool
  orderDirty :: bool
  levelBase :: int
  aEntries :: "mm_entry list"
  aOrder :: "nat list"
  aPos :: "nat list"
  aHash :: "nat list"
  currentSavepointLevel :: int
  aUndo :: "undo_rec list"
  generation :: u32

definition nEntries :: "mutmap \<Rightarrow> nat" where
  "nEntries mm = length (aEntries mm)"

definition prollyMutMapInitMode :: "bool \<Rightarrow> bool \<Rightarrow> mutmap" where
  "prollyMutMapInitMode isInt keep =
     \<lparr>isIntKey = isInt, keepSorted = keep, orderDirty = False, levelBase = 0, aEntries = [],
      aOrder = [], aPos = [], aHash = [], currentSavepointLevel = 0, aUndo = [], generation = 0\<rparr>"

definition prollyMutMapInit :: "bool \<Rightarrow> mutmap" where
  "prollyMutMapInit isInt = prollyMutMapInitMode isInt True"

section \<open>Keys\<close>

definition prollyMutMapEntryIntKey :: "mm_entry \<Rightarrow> u64 res" where
  "prollyMutMapEntryIntKey e = (if length (eKey e) \<noteq> 8 then Inr 0 else prollyDecodeIntKey (eKey e) 0)"

text \<open>\<open>(NULL, 0)\<close> is the empty string.  The guard is \<open>assert( intKey==0 )\<close>.\<close>

definition prepKey :: "mutmap \<Rightarrow> byte list \<Rightarrow> u64 \<Rightarrow> byte list res" where
  "prepKey mm key intKey =
     (if \<not> isIntKey mm then Inr key
      else if length key > 0 then bindR (guardR (intKey = 0) OUT_OF_BOUNDS) (\<lambda>_. Inr key)
      else Inr (prollyEncodeIntKey intKey))"

definition keyPrefix64 :: "byte list \<Rightarrow> u64" where
  "keyPrefix64 k =
     (let b = (\<lambda>i. if i < length k then ucast (k ! i) else 0 :: u64) in
      b 7 OR push_bit 8 (b 6) OR push_bit 16 (b 5) OR push_bit 24 (b 4)
        OR push_bit 32 (b 3) OR push_bit 40 (b 2) OR push_bit 48 (b 1) OR push_bit 56 (b 0))"

fun hash_bytes :: "u32 \<Rightarrow> byte list \<Rightarrow> u32" where
  "hash_bytes h [] = h"
| "hash_bytes h (b # bs) = hash_bytes ((h XOR ucast b) * 16777619) bs"

definition hashKey :: "byte list \<Rightarrow> u32" where
  "hashKey k = (hash_bytes 2166136261 k XOR of_nat (length k)) * 16777619"

definition compareEntryToKey :: "mm_entry \<Rightarrow> byte list \<Rightarrow> u64 \<Rightarrow> int" where
  "compareEntryToKey e key prefix =
     (if keyPrefix e \<noteq> prefix then (if keyPrefix e < prefix then -1 else 1)
      else key_cmp (eKey e) key)"

section \<open>Order\<close>

text \<open>An array write: the cell may be the first one beyond the list.\<close>

definition arr_set :: "'a list \<Rightarrow> nat \<Rightarrow> 'a \<Rightarrow> 'a list" where
  "arr_set xs i v = take i xs @ [v] @ drop (i + 1) xs"

definition entryAtOrder :: "mutmap \<Rightarrow> nat \<Rightarrow> mm_entry res" where
  "entryAtOrder mm idx =
     (if idx < length (aOrder mm) \<and> aOrder mm ! idx < nEntries mm
      then Inr (aEntries mm ! (aOrder mm ! idx))
      else Inl OUT_OF_BOUNDS)"

type_synonym order_pair = "u64 \<times> nat"

definition orderPairCmp :: "mutmap \<Rightarrow> order_pair \<Rightarrow> order_pair \<Rightarrow> int" where
  "orderPairCmp mm a b =
     (if fst a \<noteq> fst b then (if fst a < fst b then -1 else 1)
      else key_cmp (eKey (aEntries mm ! snd a)) (eKey (aEntries mm ! snd b)))"

definition mutmapSortOrder :: "mutmap \<Rightarrow> mutmap res" where
  "mutmapSortOrder mm =
     (let n = nEntries mm in
      if n \<le> 1 then Inr mm
      else
        let scratch = map (\<lambda>i. (keyPrefix (aEntries mm ! i), i)) [0..<n] in
        bindR (mutmapQuickSort n (orderPairCmp mm) scratch 0 (n - 1)) (\<lambda>scratch.
        Inr (mm\<lparr>aOrder := map snd scratch @ drop n (aOrder mm)\<rparr>)))"

fun set_positions :: "nat list \<Rightarrow> nat list \<Rightarrow> nat list \<Rightarrow> nat list" where
  "set_positions pos ord [] = pos"
| "set_positions pos ord (i # is) = set_positions (pos[ord ! i := i]) ord is"

definition ensureOrder :: "mutmap \<Rightarrow> mutmap res" where
  "ensureOrder mm =
     (if keepSorted mm \<or> \<not> orderDirty mm then Inr mm
      else bindR (mutmapSortOrder mm) (\<lambda>mm.
        Inr (mm\<lparr>aPos := set_positions (aPos mm) (aOrder mm) [0..<nEntries mm], orderDirty := False\<rparr>)))"

definition rankEntryWithoutOrder :: "mutmap \<Rightarrow> nat \<Rightarrow> nat" where
  "rankEntryWithoutOrder mm phys =
     length [i \<leftarrow> [0..<nEntries mm]. i \<noteq> phys \<and>
       key_cmp (eKey (aEntries mm ! i)) (eKey (aEntries mm ! phys)) < 0]"

function bsearch_key_loop :: "mutmap \<Rightarrow> byte list \<Rightarrow> u64 \<Rightarrow> nat \<Rightarrow> nat \<Rightarrow> (nat \<times> bool) res" where
  "bsearch_key_loop mm key prefix lo hi =
     (if lo < hi then
        let mid = lo + (hi - lo) div 2 in
        bindR (entryAtOrder mm mid) (\<lambda>e.
        let c = compareEntryToKey e key prefix in
        if c < 0 then bsearch_key_loop mm key prefix (mid + 1) hi
        else if c > 0 then bsearch_key_loop mm key prefix lo mid
        else Inr (mid, True))
      else Inr (lo, False))"
  by pat_completeness auto
termination by (relation "measure (\<lambda>(mm, key, prefix, lo, hi). hi - lo)") auto

declare bsearch_key_loop.simps [simp del]

definition bsearch_key :: "mutmap \<Rightarrow> byte list \<Rightarrow> (nat \<times> bool) res" where
  "bsearch_key mm key = bsearch_key_loop mm key (keyPrefix64 key) 0 (nEntries mm)"

section \<open>Hash index\<close>

definition hashEntryMatches :: "mutmap \<Rightarrow> nat \<Rightarrow> byte list \<Rightarrow> u32 \<Rightarrow> bool" where
  "hashEntryMatches mm phys key h =
     (let e = aEntries mm ! phys in
      keyHash e = h \<and> length (eKey e) = length key \<and> memcmp (eKey e) key (length key) = 0)"

text \<open>The probing loops run until they meet an empty slot; the fuel is one round of the table.\<close>

fun hash_free_slot :: "nat list \<Rightarrow> nat \<Rightarrow> nat \<Rightarrow> nat res" where
  "hash_free_slot tab slot 0 = Inl NO_RETURN"
| "hash_free_slot tab slot (Suc f) =
     (if tab ! slot \<noteq> 0 then hash_free_slot tab ((slot + 1) AND (length tab - 1)) f else Inr slot)"

definition hash_slot :: "nat list \<Rightarrow> u32 \<Rightarrow> nat" where
  "hash_slot tab h = nat (uint h AND int (length tab - 1))"

definition hash_put :: "nat list \<Rightarrow> u32 \<Rightarrow> nat \<Rightarrow> nat list res" where
  "hash_put tab h phys =
     bindR (hash_free_slot tab (hash_slot tab h) (length tab)) (\<lambda>slot. Inr (tab[slot := phys + 1]))"

fun hash_put_all :: "mm_entry list \<Rightarrow> nat list \<Rightarrow> nat list \<Rightarrow> nat list res" where
  "hash_put_all es tab [] = Inr tab"
| "hash_put_all es tab (i # is) =
     bindR (hash_put tab (keyHash (es ! i)) i) (\<lambda>tab. hash_put_all es tab is)"

definition rebuildHash :: "mutmap \<Rightarrow> mutmap res" where
  "rebuildHash mm =
     (let nHash = double_until MUTMAP_MIN_HASH (if nEntries mm > 0 then nEntries mm * 2 else 1) in
      bindR (hash_put_all (aEntries mm) (replicate nHash 0) [0..<nEntries mm]) (\<lambda>tab.
      Inr (mm\<lparr>aHash := tab\<rparr>)))"

definition ensureHashForInsert :: "mutmap \<Rightarrow> mutmap res" where
  "ensureHashForInsert mm =
     (if keepSorted mm then Inr mm
      else if length (aHash mm) = 0 \<or> (nEntries mm + 1) * 2 > length (aHash mm) then rebuildHash mm
      else Inr mm)"

definition hashInsertPhys :: "mutmap \<Rightarrow> nat \<Rightarrow> mutmap res" where
  "hashInsertPhys mm phys =
     (if keepSorted mm \<or> length (aHash mm) = 0 then Inr mm
      else bindR (hash_put (aHash mm) (keyHash (aEntries mm ! phys)) phys) (\<lambda>tab.
        Inr (mm\<lparr>aHash := tab\<rparr>)))"

fun find_loop :: "mutmap \<Rightarrow> byte list \<Rightarrow> u32 \<Rightarrow> nat \<Rightarrow> nat \<Rightarrow> nat option res" where
  "find_loop mm key h slot 0 = Inl NO_RETURN"
| "find_loop mm key h slot (Suc f) =
     (if aHash mm ! slot \<noteq> 0 then
        let phys = aHash mm ! slot - 1 in
        if hashEntryMatches mm phys key h then Inr (Some phys)
        else find_loop mm key h ((slot + 1) AND (length (aHash mm) - 1)) f
      else Inr None)"

definition findPhysLazy :: "mutmap \<Rightarrow> byte list \<Rightarrow> (mutmap \<times> nat option) res" where
  "findPhysLazy mm key =
     (if nEntries mm = 0 then Inr (mm, None)
      else bindR (if length (aHash mm) = 0 then rebuildHash mm else Inr mm) (\<lambda>mm.
        let h = hashKey key in
        bindR (find_loop mm key h (hash_slot (aHash mm) h) (length (aHash mm))) (\<lambda>r. Inr (mm, r))))"

section \<open>Levels and entries\<close>

definition encodeLevel :: "mutmap \<Rightarrow> int \<Rightarrow> int" where
  "encodeLevel mm lev = (if lev \<le> 0 then 0 else int32 (lev + levelBase mm))"

definition decodeLevel :: "mutmap \<Rightarrow> int \<Rightarrow> int" where
  "decodeLevel mm stored =
     (if stored \<le> 0 then 0
      else if stored \<le> levelBase mm then 0
      else stored - levelBase mm)"

text \<open>A zeroed entry with \<open>op\<close> and \<open>bornAt\<close>, filled by \<open>copyEntryData\<close>.\<close>

definition copyEntryData :: "edit_op \<Rightarrow> int \<Rightarrow> byte list \<Rightarrow> byte list \<Rightarrow> mm_entry" where
  "copyEntryData o' born key val =
     \<lparr>op = o', eKey = key,
      keyPrefix = (if length key > 0 then keyPrefix64 key else 0),
      keyHash = (if length key > 0 then hashKey key else 0),
      eVal = val, bornAt = born\<rparr>"

definition appendUndoRec :: "mutmap \<Rightarrow> nat \<Rightarrow> mutmap" where
  "appendUndoRec mm idx =
     (let e = aEntries mm ! idx in
      mm\<lparr>aUndo := aUndo mm @ [\<lparr>uLevel = currentSavepointLevel mm, entryIdx = int idx,
            prevBornAt = decodeLevel mm (bornAt e), prevOp = op e, prevVal = eVal e\<rparr>]\<rparr>)"

definition undo_if_older :: "mutmap \<Rightarrow> nat \<Rightarrow> mutmap" where
  "undo_if_older mm phys =
     (if currentSavepointLevel mm > 0
       \<and> decodeLevel mm (bornAt (aEntries mm ! phys)) < currentSavepointLevel mm
      then appendUndoRec mm phys else mm)"

text \<open>The lookup both writers begin with: position in the order and entry, if any.\<close>

definition mm_locate :: "mutmap \<Rightarrow> byte list \<Rightarrow> (mutmap \<times> nat \<times> nat option) res" where
  "mm_locate mm key =
     (if keepSorted mm then
        bindR (bsearch_key mm key) (\<lambda>r. case r of (idx, found) \<Rightarrow>
        if found then
          (if idx < length (aOrder mm) then Inr (mm, idx, Some (aOrder mm ! idx)) else Inl OUT_OF_BOUNDS)
        else Inr (mm, idx, None))
      else bindR (findPhysLazy mm key) (\<lambda>r. Inr (fst r, 0, snd r)))"

text \<open>The tail both writers share: a new entry with the operation, key and value.\<close>

definition mm_add_entry :: "mutmap \<Rightarrow> nat \<Rightarrow> edit_op \<Rightarrow> byte list \<Rightarrow> byte list \<Rightarrow> mutmap res" where
  "mm_add_entry mm idx o' key val =
     bindR (ensureHashForInsert mm) (\<lambda>mm.
     let phys = nEntries mm;
         e = copyEntryData o' (encodeLevel mm (currentSavepointLevel mm)) key val;
         mm = (if keepSorted mm then
                 let ord = take idx (aOrder mm) @ [phys] @ drop idx (take phys (aOrder mm))
                           @ drop (phys + 1) (aOrder mm);
                     pos = arr_set (aPos mm) phys idx
                 in mm\<lparr>aOrder := ord, aPos := set_positions pos ord [idx + 1..<phys + 1]\<rparr>
               else mm\<lparr>aOrder := arr_set (aOrder mm) phys phys, aPos := arr_set (aPos mm) phys phys,
                       orderDirty := True\<rparr>);
         mm = mm\<lparr>aEntries := aEntries mm @ [e]\<rparr>
     in bindR (if \<not> keepSorted mm then hashInsertPhys mm phys else Inr mm) (\<lambda>mm.
        Inr (mm\<lparr>generation := generation mm + 1\<rparr>)))"

section \<open>Operations\<close>

definition prollyMutMapInsert :: "mutmap \<Rightarrow> byte list \<Rightarrow> u64 \<Rightarrow> byte list \<Rightarrow> mutmap res" where
  "prollyMutMapInsert mm pKey intKey val =
     bindR (prepKey mm pKey intKey) (\<lambda>key.
      bindR (mm_locate mm key) (\<lambda>r. case r of (mm, idx, found) \<Rightarrow>
      (case found of
         Some phys \<Rightarrow>
           let mm = undo_if_older mm phys;
               e = (aEntries mm ! phys)\<lparr>op := PROLLY_EDIT_INSERT, eVal := val,
                     bornAt := encodeLevel mm (currentSavepointLevel mm)\<rparr>
           in Inr (mm\<lparr>aEntries := (aEntries mm)[phys := e]\<rparr>)
       | None \<Rightarrow> mm_add_entry mm idx PROLLY_EDIT_INSERT key val)))"

definition prollyMutMapDelete :: "mutmap \<Rightarrow> byte list \<Rightarrow> u64 \<Rightarrow> mutmap res" where
  "prollyMutMapDelete mm pKey intKey =
     bindR (prepKey mm pKey intKey) (\<lambda>key.
      bindR (mm_locate mm key) (\<lambda>r. case r of (mm, idx, found) \<Rightarrow>
      (case found of
         Some phys \<Rightarrow>
           if op (aEntries mm ! phys) = PROLLY_EDIT_INSERT then
             let mm = undo_if_older mm phys;
                 e = (aEntries mm ! phys)\<lparr>op := PROLLY_EDIT_DELETE, eVal := [],
                       bornAt := encodeLevel mm (currentSavepointLevel mm)\<rparr>
             in Inr (mm\<lparr>aEntries := (aEntries mm)[phys := e]\<rparr>)
           else Inr mm
       | None \<Rightarrow> mm_add_entry mm idx PROLLY_EDIT_DELETE key [])))"

definition prollyMutMapFindRc :: "mutmap \<Rightarrow> byte list \<Rightarrow> u64 \<Rightarrow> (mutmap \<times> mm_entry option) res" where
  "prollyMutMapFindRc mm pKey intKey =
     (if nEntries mm = 0 then Inr (mm, None)
      else
        bindR (prepKey mm pKey intKey) (\<lambda>key.
        if keepSorted mm then
          bindR (bsearch_key mm key) (\<lambda>r.
          if snd r then bindR (entryAtOrder mm (fst r)) (\<lambda>e. Inr (mm, Some e))
          else Inr (mm, None))
        else
          bindR (findPhysLazy mm key) (\<lambda>r.
          Inr (fst r, map_option (\<lambda>phys. aEntries (fst r) ! phys) (snd r)))))"

definition prollyMutMapEntryAt :: "mutmap \<Rightarrow> nat \<Rightarrow> (mutmap \<times> mm_entry) res" where
  "prollyMutMapEntryAt mm idx =
     bindR (ensureOrder mm) (\<lambda>mm. bindR (entryAtOrder mm idx) (\<lambda>e. Inr (mm, e)))"

definition prollyMutMapResolveSortedPos ::
  "mutmap \<Rightarrow> byte list \<Rightarrow> u64 \<Rightarrow> (mutmap \<times> nat \<times> bool) res" where
  "prollyMutMapResolveSortedPos mm pKey intKey =
     (if nEntries mm = 0 then Inr (mm, 0, False)
      else
        bindR (prepKey mm pKey intKey) (\<lambda>key.
        bindR (ensureOrder mm) (\<lambda>mm. bindR (bsearch_key mm key) (\<lambda>r. Inr (mm, r)))))"

definition prollyMutMapOrderIndexFromEntry :: "mutmap \<Rightarrow> nat \<Rightarrow> (mutmap \<times> nat) res" where
  "prollyMutMapOrderIndexFromEntry mm phys =
     (if \<not> keepSorted mm \<and> orderDirty mm then Inr (mm, rankEntryWithoutOrder mm phys)
      else bindR (ensureOrder mm) (\<lambda>mm.
        if phys < length (aPos mm) then Inr (mm, aPos mm ! phys) else Inl OUT_OF_BOUNDS))"

definition prollyMutMapCount :: "mutmap \<Rightarrow> nat" where
  "prollyMutMapCount mm = nEntries mm"

definition prollyMutMapIsEmpty :: "mutmap \<Rightarrow> bool" where
  "prollyMutMapIsEmpty mm \<longleftrightarrow> nEntries mm = 0"

section \<open>Iteration\<close>

text \<open>\<open>ProllyMutMapIter\<close> is the map and an index.\<close>

type_synonym mm_iter = "mutmap \<times> nat"

definition prollyMutMapIterFirst :: "mutmap \<Rightarrow> mm_iter res" where
  "prollyMutMapIterFirst mm = bindR (ensureOrder mm) (\<lambda>mm. Inr (mm, 0))"

definition prollyMutMapIterNext :: "mm_iter \<Rightarrow> mm_iter" where
  "prollyMutMapIterNext it = (if snd it < nEntries (fst it) then (fst it, snd it + 1) else it)"

definition prollyMutMapIterValid :: "mm_iter \<Rightarrow> bool" where
  "prollyMutMapIterValid it \<longleftrightarrow> snd it < nEntries (fst it)"

definition prollyMutMapIterEntry :: "mm_iter \<Rightarrow> (mm_iter \<times> mm_entry) res" where
  "prollyMutMapIterEntry it =
     bindR (ensureOrder (fst it)) (\<lambda>mm.
     bindR (entryAtOrder mm (snd it)) (\<lambda>e. Inr ((mm, snd it), e)))"

definition prollyMutMapIterSeek :: "mutmap \<Rightarrow> byte list \<Rightarrow> u64 \<Rightarrow> mm_iter res" where
  "prollyMutMapIterSeek mm pKey intKey =
     bindR (ensureOrder mm) (\<lambda>mm.
     bindR (prepKey mm pKey intKey) (\<lambda>key.
     bindR (bsearch_key mm key) (\<lambda>r. Inr (mm, fst r))))"

definition prollyMutMapIterLast :: "mutmap \<Rightarrow> mm_iter res" where
  "prollyMutMapIterLast mm =
     bindR (ensureOrder mm) (\<lambda>mm. Inr (mm, if nEntries mm > 0 then nEntries mm - 1 else nEntries mm))"

section \<open>Savepoints\<close>

definition prollyMutMapPushSavepoint :: "mutmap \<Rightarrow> int \<Rightarrow> mutmap" where
  "prollyMutMapPushSavepoint mm lev = mm\<lparr>currentSavepointLevel := lev\<rparr>"

function undo_loop :: "mutmap \<Rightarrow> int \<Rightarrow> mutmap" where
  "undo_loop mm lev =
     (if aUndo mm \<noteq> [] \<and> uLevel (last (aUndo mm)) \<ge> lev then
        let rec = last (aUndo mm); idx = entryIdx rec;
            es = (if 0 \<le> idx \<and> idx < int (nEntries mm)
                  then (aEntries mm)[nat idx := (aEntries mm ! nat idx)
                         \<lparr>op := prevOp rec, bornAt := encodeLevel mm (prevBornAt rec), eVal := prevVal rec\<rparr>]
                  else aEntries mm)
        in undo_loop (mm\<lparr>aEntries := es, aUndo := butlast (aUndo mm)\<rparr>) lev
      else mm)"
  by pat_completeness auto
termination by (relation "measure (\<lambda>(mm, lev). length (aUndo mm))") auto

declare undo_loop.simps [simp del]

text \<open>The compaction: the new index of each old entry (-1 when it is dropped) and the survivors.\<close>

fun compact :: "mutmap \<Rightarrow> int \<Rightarrow> nat \<Rightarrow> mm_entry list \<Rightarrow> int list \<times> mm_entry list" where
  "compact mm lev newN [] = ([], [])"
| "compact mm lev newN (e # es) =
     (if decodeLevel mm (bornAt e) \<ge> lev then
        let r = compact mm lev newN es in (-1 # fst r, snd r)
      else
        let r = compact mm lev (newN + 1) es in (int newN # fst r, e # snd r))"

fun remap_undo :: "int list \<Rightarrow> undo_rec list \<Rightarrow> undo_rec list res" where
  "remap_undo aMap [] = Inr []"
| "remap_undo aMap (r # rs) =
     (if 0 \<le> entryIdx r \<and> entryIdx r < int (length aMap)
      then bindR (remap_undo aMap rs) (\<lambda>rs. Inr (r\<lparr>entryIdx := aMap ! nat (entryIdx r)\<rparr> # rs))
      else Inl OUT_OF_BOUNDS)"

definition prollyMutMapRollbackToSavepoint :: "mutmap \<Rightarrow> int \<Rightarrow> mutmap res" where
  "prollyMutMapRollbackToSavepoint mm lev =
     (let mm = undo_loop mm lev;
          oldN = nEntries mm;
          c = compact mm lev 0 (aEntries mm);
          aMap = fst c;
          ord = map nat (filter (\<lambda>m. m \<ge> 0) (map (\<lambda>p. aMap ! p) (take oldN (aOrder mm))));
          mm' = (if keepSorted mm then
                   mm\<lparr>aEntries := take (length ord) (snd c),
                      aOrder := ord @ drop (length ord) (aOrder mm),
                      aPos := set_positions (aPos mm) (ord @ drop (length ord) (aOrder mm)) [0..<length ord]\<rparr>
                 else mm\<lparr>aEntries := snd c, orderDirty := True\<rparr>)
      in bindR (remap_undo aMap (aUndo mm)) (\<lambda>undo.
         let mm' = mm'\<lparr>aUndo := undo\<rparr> in
         bindR (if \<not> keepSorted mm' then rebuildHash mm' else Inr mm') (\<lambda>mm'.
         Inr (mm'\<lparr>generation := generation mm' + 1, currentSavepointLevel := lev - 1\<rparr>))))"

definition prollyMutMapReleaseSavepoint :: "mutmap \<Rightarrow> int \<Rightarrow> mutmap" where
  "prollyMutMapReleaseSavepoint mm lev =
     (let target = lev - 1 in
      if lev = 1 \<and> target = 0 then
        mm\<lparr>aUndo := [], levelBase := int32 (levelBase mm + 1), currentSavepointLevel := 0\<rparr>
      else
        let undo = (if target = 0 then []
                    else map (\<lambda>r. if uLevel r \<ge> lev then r\<lparr>uLevel := target\<rparr> else r) (aUndo mm));
            es = map (\<lambda>e. if decodeLevel mm (bornAt e) \<ge> lev then e\<lparr>bornAt := encodeLevel mm target\<rparr> else e)
                   (aEntries mm)
        in mm\<lparr>aUndo := undo, aEntries := es, currentSavepointLevel := target\<rparr>)"

section \<open>Clearing, copying, merging\<close>

definition prollyMutMapClear :: "mutmap \<Rightarrow> mutmap" where
  "prollyMutMapClear mm =
     mm\<lparr>aEntries := [], orderDirty := False, generation := generation mm + 1,
        aHash := replicate (length (aHash mm)) 0, aUndo := [], levelBase := 0\<rparr>"

definition prollyMutMapFree :: "mutmap \<Rightarrow> mutmap" where
  "prollyMutMapFree mm =
     (prollyMutMapClear mm)\<lparr>aOrder := [], aPos := [], aHash := [], currentSavepointLevel := 0\<rparr>"

definition prollyMutMapClone :: "mutmap \<Rightarrow> mutmap res" where
  "prollyMutMapClone src =
     (let n = nEntries src;
          dst = \<lparr>isIntKey = isIntKey src, keepSorted = keepSorted src, orderDirty = orderDirty src,
                 levelBase = levelBase src,
                 aEntries = map (\<lambda>e. if length (eKey e) > 0 then e else e\<lparr>keyPrefix := 0, keyHash := 0\<rparr>) (aEntries src),
                 aOrder = (if keepSorted src \<or> \<not> orderDirty src then take n (aOrder src) else replicate n 0),
                 aPos = (if keepSorted src \<or> \<not> orderDirty src then take n (aPos src) else replicate n 0),
                 aHash = [], currentSavepointLevel = currentSavepointLevel src, aUndo = aUndo src,
                 generation = generation src\<rparr>
      in if \<not> keepSorted dst \<and> nEntries dst > 0 then rebuildHash dst else Inr dst)"

fun merge_entries :: "mutmap \<Rightarrow> mm_entry list \<Rightarrow> mutmap res" where
  "merge_entries dst [] = Inr dst"
| "merge_entries dst (e # es) =
     bindR (if op e = PROLLY_EDIT_INSERT then prollyMutMapInsert dst (eKey e) 0 (eVal e)
            else prollyMutMapDelete dst (eKey e) 0)
       (\<lambda>dst. merge_entries dst es)"

definition prollyMutMapMerge :: "mutmap \<Rightarrow> mutmap \<Rightarrow> (mutmap \<times> mutmap) res" where
  "prollyMutMapMerge dst src =
     bindR (merge_entries dst (aEntries src)) (\<lambda>dst. Inr (dst, prollyMutMapClear src))"

end
