(* ===== verification/MutMapInv.thy ===== *)
theory MutMapInv
  imports MutMap Probe
begin

text \<open>
  The invariant of the edit map and its functional correctness: key prefixes agree with
  the key order, the binary search of the order array and the probing of the hash index
  both decide membership, and insertion, deletion and lookup are the operations of a map
  from keys to edits, in the sorted and in the lazy mode alike.  Sorting on demand and
  iteration deliver the entries in ascending key order.
\<close>

section \<open>Key prefixes\<close>

text \<open>The first eight bytes of a key, padded with zeroes.\<close>

fun padded :: "nat \<Rightarrow> byte list \<Rightarrow> byte list" where
  "padded 0 k = []"
| "padded (Suc n) [] = 0 # padded n []"
| "padded (Suc n) (x # xs) = x # padded n xs"

definition pad8 :: "byte list \<Rightarrow> byte list" where
  "pad8 k = padded 8 k"

lemma length_padded [simp]: "length (padded n k) = n"
  by (induction n k rule: padded.induct) simp_all

lemma padded_nth: "i < n \<Longrightarrow> padded n k ! i = (if i < length k then k ! i else 0)"
  by (induction n k arbitrary: i rule: padded.induct) (auto simp: nth_Cons split: nat.split)

lemma length_pad8 [simp]: "length (pad8 k) = 8"
  by (simp add: pad8_def)

lemma keyPrefix64_be: "keyPrefix64 k = of_nat (be_val (pad8 k))"
proof -
  define f where "f = (\<lambda>i. if i < length k then ucast (k ! i) else 0 :: u64)"
  have b: "ucast (pad8 k ! i) = f i" if "i < 8" for i
    using that by (simp add: pad8_def padded_nth f_def)
  have bs: "ucast (pad8 k ! 0) = f 0" "ucast (pad8 k ! 1) = f 1" "ucast (pad8 k ! 2) = f 2"
    "ucast (pad8 k ! 3) = f 3" "ucast (pad8 k ! 4) = f 4" "ucast (pad8 k ! 5) = f 5"
    "ucast (pad8 k ! 6) = f 6" "ucast (pad8 k ! 7) = f 7"
    by (rule b, simp)+
  have "get_be64 (pad8 k) 0 = Inr (keyPrefix64 k)"
    unfolding keyPrefix64_def f_def [symmetric] Let_def get_be64_def add_0 bs
    by (simp add: or.assoc or.commute or.left_commute del: One_nat_def)
  moreover have "get_be64 (pad8 k) 0 = Inr (of_nat (be_val (pad8 k)))"
    using get_be64_bytes [of 0 "[]" "of_nat (be_val (pad8 k))" "[]"] be_val_surj [of "pad8 k"] by simp
  ultimately show ?thesis by simp
qed

lemma keyPrefix64_less: "keyPrefix64 a < keyPrefix64 b \<longleftrightarrow> pad8 a < pad8 b"
  using be_bytes_order [of "of_nat (be_val (pad8 a))" "of_nat (be_val (pad8 b))"]
  by (simp add: keyPrefix64_be be_val_surj)

lemma padded_less: "padded n a < padded n b \<Longrightarrow> a < b"
proof (induction n a arbitrary: b rule: padded.induct)
  case (2 n)
  then show ?case by (cases b) auto
next
  case (3 n x xs)
  then show ?case using "3.IH" [of "[]"] by (cases b) auto
qed simp

lemma keyPrefix64_less_imp: "keyPrefix64 a < keyPrefix64 b \<Longrightarrow> a < b"
  unfolding keyPrefix64_less pad8_def by (rule padded_less)

lemma prefix_compare:
  "(if keyPrefix64 a \<noteq> keyPrefix64 b then (if keyPrefix64 a < keyPrefix64 b then -1 else 1) else key_cmp a b)
     = key_cmp a b"
  using keyPrefix64_less_imp [of a b] keyPrefix64_less_imp [of b a]
  by (auto simp: key_cmp_eq not_less dest: order.asym)

section \<open>Invariant\<close>

definition entry_wf :: "mm_entry \<Rightarrow> bool" where
  "entry_wf e \<longleftrightarrow> keyPrefix e = keyPrefix64 (eKey e) \<and> (eKey e \<noteq> [] \<longrightarrow> keyHash e = hashKey (eKey e))"

definition order_keys :: "mutmap \<Rightarrow> byte list list" where
  "order_keys mm = map (\<lambda>p. eKey (aEntries mm ! p)) (take (nEntries mm) (aOrder mm))"

definition order_inv :: "mutmap \<Rightarrow> bool" where
  "order_inv mm \<longleftrightarrow>
     nEntries mm \<le> length (aOrder mm) \<and> nEntries mm \<le> length (aPos mm) \<and>
     distinct (take (nEntries mm) (aOrder mm)) \<and> set (take (nEntries mm) (aOrder mm)) = {..<nEntries mm} \<and>
     sorted_wrt (<) (order_keys mm) \<and>
     (\<forall>i < nEntries mm. aPos mm ! (aOrder mm ! i) = i)"

lemma compareEntryToKey_wf: "entry_wf e \<Longrightarrow> compareEntryToKey e key (keyPrefix64 key) = key_cmp (eKey e) key"
  by (simp only: compareEntryToKey_def entry_wf_def prefix_compare)

lemma keyPrefix64_Nil [simp]: "keyPrefix64 [] = 0"
  by (simp add: keyPrefix64_def)

lemma copyEntryData_wf [simp]: "entry_wf (copyEntryData o' born key val)"
  by (simp add: entry_wf_def copyEntryData_def)

lemma order_inv_entryAt:
  assumes "order_inv mm" "i < nEntries mm"
  shows "aOrder mm ! i < nEntries mm" "i < length (aOrder mm)"
    "entryAtOrder mm i = Inr (aEntries mm ! (aOrder mm ! i))" "order_keys mm ! i = eKey (aEntries mm ! (aOrder mm ! i))"
proof -
  show l: "i < length (aOrder mm)" using assms by (simp add: order_inv_def)
  have "take (nEntries mm) (aOrder mm) ! i \<in> set (take (nEntries mm) (aOrder mm))"
    by (rule nth_mem) (use assms l in simp)
  then show b: "aOrder mm ! i < nEntries mm" using assms by (simp add: order_inv_def)
  show "entryAtOrder mm i = Inr (aEntries mm ! (aOrder mm ! i))" using b l by (simp add: entryAtOrder_def)
  show "order_keys mm ! i = eKey (aEntries mm ! (aOrder mm ! i))" using assms l by (simp add: order_keys_def)
qed

lemma length_order_keys [simp]: "order_inv mm \<Longrightarrow> length (order_keys mm) = nEntries mm"
  by (simp add: order_inv_def order_keys_def)

lemma set_order_keys:
  assumes "order_inv mm"
  shows "set (order_keys mm) = eKey ` set (aEntries mm)"
proof -
  have "set (order_keys mm) = (\<lambda>p. eKey (aEntries mm ! p)) ` {..<nEntries mm}"
    using assms by (simp add: order_keys_def order_inv_def)
  also have "\<dots> = eKey ` set (aEntries mm)" by (auto simp: nEntries_def set_conv_nth)
  finally show ?thesis .
qed

text \<open>What the binary search on the order array promises.\<close>

definition locate_post :: "byte list list \<Rightarrow> byte list \<Rightarrow> nat \<times> bool \<Rightarrow> bool" where
  "locate_post ks key r \<longleftrightarrow> (case r of (i, found) \<Rightarrow>
     if found then i < length ks \<and> ks ! i = key
     else i \<le> length ks \<and> (\<forall>j < i. ks ! j < key) \<and> (\<forall>j < length ks. i \<le> j \<longrightarrow> key < ks ! j))"

lemma bsearch_key_loop_post:
  assumes wf: "\<forall>e \<in> set (aEntries mm). entry_wf e" and ord: "order_inv mm"
  shows "lo \<le> hi \<Longrightarrow> hi \<le> nEntries mm \<Longrightarrow> (\<forall>j < lo. order_keys mm ! j < key) \<Longrightarrow>
     (\<forall>j < nEntries mm. hi \<le> j \<longrightarrow> key < order_keys mm ! j) \<Longrightarrow>
     \<exists>r. bsearch_key_loop mm key (keyPrefix64 key) lo hi = Inr r \<and> locate_post (order_keys mm) key r"
proof (induction "hi - lo" arbitrary: lo hi rule: less_induct)
  case less
  show ?case
  proof (cases "lo < hi")
    case False
    then show ?thesis
      using less.prems ord by (subst bsearch_key_loop.simps) (simp add: locate_post_def)
  next
    case True
    define mid where "mid = lo + (hi - lo) div 2"
    have m: "lo \<le> mid" "mid < hi" "mid < nEntries mm" using True less.prems by (auto simp: mid_def)
    note e = order_inv_entryAt [OF ord m(3)]
    have "aEntries mm ! (aOrder mm ! mid) \<in> set (aEntries mm)" using e(1) by (simp add: nEntries_def)
    then have c: "compareEntryToKey (aEntries mm ! (aOrder mm ! mid)) key (keyPrefix64 key)
        = key_cmp (order_keys mm ! mid) key"
      using wf e(4) compareEntryToKey_wf by simp
    have srt: "order_keys mm ! i < order_keys mm ! j" if "i < j" "j < nEntries mm" for i j
      using sorted_wrt_nth_less [of "(<)" "order_keys mm" i j] ord that by (simp add: order_inv_def order_keys_def)
    have step: "bsearch_key_loop mm key (keyPrefix64 key) lo hi =
        (if order_keys mm ! mid < key then bsearch_key_loop mm key (keyPrefix64 key) (mid + 1) hi
         else if key < order_keys mm ! mid then bsearch_key_loop mm key (keyPrefix64 key) lo mid
         else Inr (mid, True))"
      using True by (subst bsearch_key_loop.simps) (simp add: Let_def mid_def [symmetric] e(3) c)
    consider "order_keys mm ! mid < key" | "key < order_keys mm ! mid" | "order_keys mm ! mid = key"
      by (rule linorder_cases)
    then show ?thesis
    proof cases
      case 1
      have "\<forall>j < mid + 1. order_keys mm ! j < key"
        using srt 1 m by (metis less_trans less_antisym Suc_eq_plus1)
      moreover have "hi - (mid + 1) < hi - lo" "mid + 1 \<le> hi" using m by simp_all
      ultimately have "\<exists>r. bsearch_key_loop mm key (keyPrefix64 key) (mid + 1) hi = Inr r
          \<and> locate_post (order_keys mm) key r"
        using less.hyps less.prems by blast
      then show ?thesis using step 1 by simp
    next
      case 2
      have "\<forall>j < nEntries mm. mid \<le> j \<longrightarrow> key < order_keys mm ! j"
        using srt 2 by (metis less_trans le_neq_implies_less)
      moreover have "mid - lo < hi - lo" "lo \<le> mid" "mid \<le> nEntries mm" using m by simp_all
      ultimately have "\<exists>r. bsearch_key_loop mm key (keyPrefix64 key) lo mid = Inr r
          \<and> locate_post (order_keys mm) key r"
        using less.hyps less.prems by blast
      moreover have "\<not> order_keys mm ! mid < key" using 2 by simp
      ultimately show ?thesis using step 2 by simp
    next
      case 3
      then show ?thesis using step m ord by (simp add: locate_post_def)
    qed
  qed
qed

lemma bsearch_key_post:
  assumes "\<forall>e \<in> set (aEntries mm). entry_wf e" "order_inv mm"
  shows "\<exists>r. bsearch_key mm key = Inr r \<and> locate_post (order_keys mm) key r"
  unfolding bsearch_key_def by (rule bsearch_key_loop_post [OF assms]) simp_all

section \<open>The hash index\<close>

text \<open>The index as a probing table of keys.\<close>

definition key_table :: "mm_entry list \<Rightarrow> nat list \<Rightarrow> byte list option list" where
  "key_table es tab = map (\<lambda>c. if c = 0 then None else Some (eKey (es ! (c - 1)))) tab"

definition key_start :: "nat \<Rightarrow> byte list \<Rightarrow> nat" where
  "key_start n k = unat (hashKey k) AND (n - 1)"

lemma length_key_table [simp]: "length (key_table es tab) = length tab"
  by (simp add: key_table_def)

lemma key_table_nth: "i < length tab \<Longrightarrow>
  key_table es tab ! i = (if tab ! i = 0 then None else Some (eKey (es ! (tab ! i - 1))))"
  by (simp add: key_table_def)

lemma key_start_less: "pow2 n \<Longrightarrow> key_start n k < n"
  by (simp add: key_start_def and_mask_pow2_Suc)

lemma hash_slot_key: "hash_slot tab (hashKey k) = key_start (length tab) k"
  by (simp add: hash_slot_def key_start_def nat_uint_and)

lemma next_slot: "pow2 (length tab) \<Longrightarrow> (s mod length tab + 1) AND (length tab - 1) = Suc s mod length tab"
  by (simp add: and_mask_pow2_Suc mod_Suc_eq)

lemma hash_free_slot_first_free:
  "pow2 (length tab) \<Longrightarrow> first_free (key_table es tab) s f = Some j \<Longrightarrow>
     hash_free_slot tab (s mod length tab) f = Inr j"
proof (induction f arbitrary: s)
  case (Suc f)
  have "s mod length tab < length tab" by (rule mod_less_divisor [OF pow2_pos [OF Suc.prems(1)]])
  then show ?case
    using Suc.prems Suc.IH [of "Suc s"] next_slot [OF Suc.prems(1), of s]
    by (auto simp: key_table_nth split: if_splits)
qed simp

lemma hashEntryMatches_iff:
  assumes "entry_wf (aEntries mm ! p)" "eKey (aEntries mm ! p) \<noteq> []"
  shows "hashEntryMatches mm p key (hashKey key) \<longleftrightarrow> eKey (aEntries mm ! p) = key"
proof
  assume "hashEntryMatches mm p key (hashKey key)"
  then have "length (eKey (aEntries mm ! p)) = length key" "memcmp (eKey (aEntries mm ! p)) key (length key) = 0"
    by (simp_all add: hashEntryMatches_def Let_def)
  then show "eKey (aEntries mm ! p) = key" by (metis memcmp_same_length key_cmp_sign(1))
next
  assume "eKey (aEntries mm ! p) = key"
  moreover have "memcmp key key (length key) = 0" by (simp add: memcmp_same_length)
  ultimately show "hashEntryMatches mm p key (hashKey key)"
    using assms by (simp add: hashEntryMatches_def Let_def entry_wf_def)
qed

definition entries_ok :: "mutmap \<Rightarrow> bool" where
  "entries_ok mm \<longleftrightarrow> (\<forall>e \<in> set (aEntries mm). entry_wf e) \<and> distinct (map eKey (aEntries mm))"

lemma entries_ok_nth: "entries_ok mm \<Longrightarrow> p < nEntries mm \<Longrightarrow> entry_wf (aEntries mm ! p)"
  by (simp add: entries_ok_def nEntries_def)

lemma entries_ok_unique:
  "entries_ok mm \<Longrightarrow> p < nEntries mm \<Longrightarrow> q < nEntries mm \<Longrightarrow>
     eKey (aEntries mm ! p) = eKey (aEntries mm ! q) \<longleftrightarrow> p = q"
  unfolding entries_ok_def nEntries_def by (metis length_map nth_eq_iff_index_eq nth_map)

definition hash_cells_ok :: "mutmap \<Rightarrow> bool" where
  "hash_cells_ok mm \<longleftrightarrow> (\<forall>c \<in> set (aHash mm). c \<le> nEntries mm) \<and> (\<forall>e \<in> set (aEntries mm). eKey e \<noteq> [])"

definition hash_inv :: "mutmap \<Rightarrow> bool" where
  "hash_inv mm \<longleftrightarrow> hash_cells_ok mm \<and>
     (if aHash mm = [] then aEntries mm = []
      else pow2 (length (aHash mm)) \<and> 2 * nEntries mm \<le> length (aHash mm) + 2 \<and> 32 \<le> length (aHash mm) \<and>
        probe_inv (key_start (length (aHash mm))) (key_table (aEntries mm) (aHash mm)) \<and>
        table_keys (key_table (aEntries mm) (aHash mm)) = eKey ` set (aEntries mm))"

lemma hash_inv_cong:
  "hash_inv mm \<Longrightarrow> aEntries mm' = aEntries mm \<Longrightarrow> aHash mm' = aHash mm \<Longrightarrow> hash_inv mm'"
  by (simp only: hash_inv_def hash_cells_ok_def nEntries_def)

lemma find_loop_probe:
  assumes ok: "entries_ok mm" "hash_cells_ok mm" and p2: "pow2 (length (aHash mm))"
  shows "(\<exists>j. first_free (key_table (aEntries mm) (aHash mm)) s f = Some j) \<Longrightarrow>
     find_loop mm key (hashKey key) (s mod length (aHash mm)) f =
       Inr (map_option (\<lambda>j. aHash mm ! j - 1) (probe (key_table (aEntries mm) (aHash mm)) key s f))"
proof (induction f arbitrary: s)
  case (Suc f)
  let ?sl = "s mod length (aHash mm)"
  have sl: "?sl < length (aHash mm)" by (rule mod_less_divisor [OF pow2_pos [OF p2]])
  show ?case
  proof (cases "aHash mm ! ?sl = 0")
    case True
    then show ?thesis using sl by (simp add: key_table_nth)
  next
    case False
    have c: "aHash mm ! ?sl \<in> set (aHash mm)" using sl by simp
    then have p: "aHash mm ! ?sl - 1 < nEntries mm" using ok(2) False by (auto simp: hash_cells_ok_def)
    then have "entry_wf (aEntries mm ! (aHash mm ! ?sl - 1))" "eKey (aEntries mm ! (aHash mm ! ?sl - 1)) \<noteq> []"
      using ok by (simp_all add: entries_ok_nth hash_cells_ok_def nEntries_def)
    note match = hashEntryMatches_iff [OF this, of key]
    show ?thesis
      using Suc.prems Suc.IH [of "Suc s"] False sl next_slot [OF p2, of s] match
      by (simp add: key_table_nth Let_def)
  qed
qed simp

lemma hash_inv_free:
  assumes "hash_inv mm" "aHash mm \<noteq> []" "entries_ok mm"
  shows "\<exists>j. first_free (key_table (aEntries mm) (aHash mm)) s (length (aHash mm)) = Some j"
proof -
  let ?kt = "key_table (aEntries mm) (aHash mm)"
  have h: "probe_inv (key_start (length (aHash mm))) ?kt" "table_keys ?kt = eKey ` set (aEntries mm)"
    "2 * nEntries mm \<le> length (aHash mm) + 2" "32 \<le> length (aHash mm)"
    using assms(1,2) by (simp_all add: hash_inv_def)
  have "card (table_keys ?kt) \<le> nEntries mm"
    unfolding h(2) nEntries_def by (metis card_image_le card_length finite_set le_trans)
  then have "card (table_keys ?kt) < length ?kt" using h(3,4) by simp
  then obtain j where "j < length ?kt" "?kt ! j = None" using card_table_keys_less [OF h(1)] by blast
  then show ?thesis using first_free_exists [of j ?kt s] by simp
qed

text \<open>The lookup of the lazy mode finds the entry of the key.\<close>

lemma findPhysLazy_correct:
  assumes ok: "entries_ok mm" and hi: "hash_inv mm"
  shows "findPhysLazy mm key = Inr (mm, if key \<in> eKey ` set (aEntries mm)
           then Some (THE p. p < nEntries mm \<and> eKey (aEntries mm ! p) = key) else None)"
proof (cases "aHash mm = []")
  case True
  then have "aEntries mm = []" using hi by (simp add: hash_inv_def)
  then show ?thesis by (simp add: findPhysLazy_def nEntries_def)
next
  case False
  let ?t = "aHash mm" and ?kt = "key_table (aEntries mm) (aHash mm)"
  have h: "pow2 (length ?t)" "probe_inv (key_start (length ?t)) ?kt" "table_keys ?kt = eKey ` set (aEntries mm)"
    "hash_cells_ok mm"
    using hi False by (simp_all add: hash_inv_def)
  have st: "hash_slot ?t (hashKey key) = key_start (length ?t) key mod length ?t"
    using key_start_less [OF h(1), of key] by (simp add: hash_slot_key)
  have f: "find_loop mm key (hashKey key) (hash_slot ?t (hashKey key)) (length ?t) =
      Inr (map_option (\<lambda>j. ?t ! j - 1) (probe ?kt key (key_start (length ?t) key) (length ?kt)))"
    unfolding st using find_loop_probe [OF ok h(4,1)] hash_inv_free [OF hi False ok] by simp
  show ?thesis
  proof (cases "nEntries mm = 0")
    case True
    then show ?thesis by (simp add: findPhysLazy_def nEntries_def)
  next
    case n: False
    then have e: "findPhysLazy mm key = Inr (mm, map_option (\<lambda>j. ?t ! j - 1)
        (probe ?kt key (key_start (length ?t) key) (length ?kt)))"
      using False f by (simp add: findPhysLazy_def Let_def)
    have n0: "length ?kt > 0" using False by simp
    show ?thesis
    proof (cases "key \<in> eKey ` set (aEntries mm)")
      case True
      then obtain j where j: "probe ?kt key (key_start (length ?t) key) (length ?kt) = Some j"
        using probe_None [OF h(2) n0, of key] h(3) by (metis not_None_eq)
      then have kj: "j < length ?kt" "?kt ! j = Some key" using probe_sound [OF n0 j] by simp_all
      then have cell: "?t ! j \<noteq> 0" "eKey (aEntries mm ! (?t ! j - 1)) = key"
        by (simp_all add: key_table_nth split: if_splits)
      have "?t ! j \<in> set ?t" using kj(1) by simp
      then have b: "?t ! j - 1 < nEntries mm" using h(4) cell(1) by (auto simp: hash_cells_ok_def)
      have "(THE p. p < nEntries mm \<and> eKey (aEntries mm ! p) = key) = ?t ! j - 1"
        by (rule the_equality) (use b cell(2) entries_ok_unique [OF ok] in blast)+
      then show ?thesis using e j True by simp
    next
      case False
      then have "probe ?kt key (key_start (length ?t) key) (length ?kt) = None"
        using probe_None [OF h(2) n0, of key] h(3) by simp
      then show ?thesis using e False by simp
    qed
  qed
qed

text \<open>Putting an entry of a new key into the table.\<close>

lemma hash_put_correct:
  assumes p2: "pow2 (length tab)" and inv: "probe_inv (key_start (length tab)) (key_table es tab)"
    and new: "eKey (es ! i) \<notin> table_keys (key_table es tab)"
    and room: "card (table_keys (key_table es tab)) < length tab" and h: "keyHash (es ! i) = hashKey (eKey (es ! i))"
  shows "\<exists>tab'. hash_put tab (keyHash (es ! i)) i = Inr tab' \<and> length tab' = length tab \<and>
     probe_inv (key_start (length tab)) (key_table es tab') \<and>
     table_keys (key_table es tab') = insert (eKey (es ! i)) (table_keys (key_table es tab)) \<and>
     set tab' \<subseteq> insert (i + 1) (set tab)"
proof -
  let ?kt = "key_table es tab" and ?st = "key_start (length tab)" and ?k = "eKey (es ! i)"
  have n: "length ?kt > 0" using pow2_pos [OF p2] by (simp only: length_key_table)
  obtain e where "e < length ?kt" "?kt ! e = None"
    using card_table_keys_less [OF inv] room by auto
  then obtain j where j: "first_free ?kt (?st ?k) (length ?kt) = Some j" using first_free_exists by blast
  note ins = probe_inv_insert [OF inv new j n]
  have st: "hash_slot tab (keyHash (es ! i)) = ?st ?k mod length tab"
    using key_start_less [OF p2, of ?k] by (simp add: h hash_slot_key)
  have put: "hash_put tab (keyHash (es ! i)) i = Inr (tab[j := i + 1])"
    unfolding hash_put_def st using hash_free_slot_first_free [OF p2] j by simp
  have kt: "key_table es (tab[j := i + 1]) = ?kt[j := Some ?k]"
    by (simp add: key_table_def map_update)
  show ?thesis
    using put ins(1,2) kt set_update_subset_insert [of tab j "i + 1"] by simp
qed

lemma key_table_append:
  "\<forall>c \<in> set tab. c \<le> length es \<Longrightarrow> key_table (es @ fs) tab = key_table es tab"
  by (auto simp: key_table_def nth_append)

lemma hash_put_all_append:
  "hash_put_all es t (is @ js) = bindR (hash_put_all es t is) (\<lambda>t. hash_put_all es t js)"
  by (induction "is" arbitrary: t) (simp_all add: bindR_assoc)

lemma hash_put_all_correct:
  assumes wf: "\<forall>e \<in> set es. entry_wf e \<and> eKey e \<noteq> []" and dist: "distinct (map eKey es)"
    and p2: "pow2 n" and room: "length es < n"
  shows "m \<le> length es \<Longrightarrow> \<exists>tab. hash_put_all es (replicate n 0) [0..<m] = Inr tab \<and> length tab = n \<and>
     probe_inv (key_start n) (key_table es tab) \<and> table_keys (key_table es tab) = eKey ` set (take m es) \<and>
     (\<forall>c \<in> set tab. c \<le> m)"
proof (induction m)
  case 0
  have "key_table es (replicate n 0) = replicate n None" by (simp add: key_table_def)
  then show ?case by simp
next
  case (Suc m)
  obtain tab where tab: "hash_put_all es (replicate n 0) [0..<m] = Inr tab" "length tab = n"
     "probe_inv (key_start n) (key_table es tab)" "table_keys (key_table es tab) = eKey ` set (take m es)"
     "\<forall>c \<in> set tab. c \<le> m"
    using Suc by auto
  have m: "m < length es" using Suc.prems by simp
  have hm: "keyHash (es ! m) = hashKey (eKey (es ! m))" using wf m by (simp add: entry_wf_def)
  have new: "eKey (es ! m) \<notin> eKey ` set (take m es)"
  proof
    assume "eKey (es ! m) \<in> eKey ` set (take m es)"
    then obtain i where "i < m" "eKey (es ! m) = eKey (es ! i)" using m by (auto simp: in_set_conv_nth)
    then show False using dist m by (simp add: distinct_conv_nth)
  qed
  have "card (eKey ` set (take m es)) \<le> m"
    by (metis card_image_le card_length finite_set le_trans length_take min.bounded_iff)
  then have c: "card (table_keys (key_table es tab)) < length tab" using tab(2,4) room m by simp
  obtain tab' where "hash_put tab (keyHash (es ! m)) m = Inr tab'" "length tab' = n"
     "probe_inv (key_start n) (key_table es tab')"
     "table_keys (key_table es tab') = insert (eKey (es ! m)) (table_keys (key_table es tab))"
     "set tab' \<subseteq> insert (m + 1) (set tab)"
    using hash_put_correct [of tab es m] p2 tab(2,3,4) new c hm by auto
  moreover from this(5) have "\<forall>c \<in> set tab'. c \<le> Suc m" using tab(5) by fastforce
  ultimately show ?case
    using tab(1,4) m by (simp add: hash_put_all_append take_Suc_conv_app_nth)
qed

lemma rebuildHash_correct:
  assumes ok: "entries_ok mm" and ne: "\<forall>e \<in> set (aEntries mm). eKey e \<noteq> []"
  shows "\<exists>tab. rebuildHash mm = Inr (mm\<lparr>aHash := tab\<rparr>) \<and> hash_inv (mm\<lparr>aHash := tab\<rparr>) \<and> tab \<noteq> [] \<and>
     2 * nEntries mm \<le> length tab"
proof -
  let ?need = "if nEntries mm > 0 then nEntries mm * 2 else 1"
  define n where "n = double_until MUTMAP_MIN_HASH ?need"
  have p2: "pow2 n" unfolding n_def
    by (rule double_until_pow2) (simp add: MUTMAP_MIN_HASH_def pow2_def exI [of _ 5])
  have n32: "32 \<le> n" using double_until_ge [of 32 ?need] by (simp add: n_def MUTMAP_MIN_HASH_def)
  have "?need \<le> n" unfolding n_def by (rule double_until_need) (simp add: MUTMAP_MIN_HASH_def)
  then have n2: "2 * nEntries mm \<le> n" by (simp split: if_splits)
  have room: "length (aEntries mm) < n" using n2 n32 by (simp add: nEntries_def)
  have wf: "\<forall>e \<in> set (aEntries mm). entry_wf e \<and> eKey e \<noteq> []" "distinct (map eKey (aEntries mm))"
    using ok ne by (simp_all add: entries_ok_def)
  obtain tab where t: "hash_put_all (aEntries mm) (replicate n 0) [0..<nEntries mm] = Inr tab" "length tab = n"
     "probe_inv (key_start n) (key_table (aEntries mm) tab)"
     "table_keys (key_table (aEntries mm) tab) = eKey ` set (aEntries mm)" "\<forall>c \<in> set tab. c \<le> nEntries mm"
    using hash_put_all_correct [OF wf p2 room, of "nEntries mm"] by (auto simp: nEntries_def)
  have tn: "tab \<noteq> []" using t(2) n32 by auto
  have "hash_inv (mm\<lparr>aHash := tab\<rparr>)"
    using t p2 n2 n32 ne tn by (simp add: hash_inv_def hash_cells_ok_def nEntries_def)
  moreover have "rebuildHash mm = Inr (mm\<lparr>aHash := tab\<rparr>)"
    using t(1) by (simp add: rebuildHash_def Let_def n_def)
  ultimately show ?thesis using tn t(2) n2 by blast
qed

section \<open>The map invariant\<close>

definition mm_inv :: "mutmap \<Rightarrow> bool" where
  "mm_inv mm \<longleftrightarrow> entries_ok mm \<and>
     (if keepSorted mm then order_inv mm
      else hash_inv mm \<and> nEntries mm \<le> length (aOrder mm) \<and> nEntries mm \<le> length (aPos mm) \<and>
        (\<not> orderDirty mm \<longrightarrow> (nEntries mm = 1 \<longrightarrow> aOrder mm ! 0 = 0) \<longrightarrow> order_inv mm))"

text \<open>The abstract map: the edit recorded for each key.\<close>

definition mm_abs :: "mutmap \<Rightarrow> byte list \<rightharpoonup> edit_op \<times> byte list" where
  "mm_abs mm = map_of (map (\<lambda>e. (eKey e, op e, eVal e)) (aEntries mm))"

lemma mm_inv_init [simp]: "mm_inv (prollyMutMapInitMode isInt keep)"
  by (simp add: mm_inv_def entries_ok_def prollyMutMapInitMode_def order_inv_def hash_inv_def hash_cells_ok_def
      nEntries_def order_keys_def)

lemma mm_abs_init [simp]: "mm_abs (prollyMutMapInitMode isInt keep) = Map.empty"
  by (simp add: mm_abs_def prollyMutMapInitMode_def)

lemma mm_abs_None: "mm_abs mm k = None \<longleftrightarrow> k \<notin> eKey ` set (aEntries mm)"
  unfolding mm_abs_def map_of_eq_None_iff by (auto simp: image_iff)

lemma mm_abs_nth:
  assumes "entries_ok mm" "p < nEntries mm"
  shows "mm_abs mm (eKey (aEntries mm ! p)) = Some (op (aEntries mm ! p), eVal (aEntries mm ! p))"
proof -
  have "distinct (map fst (map (\<lambda>e. (eKey e, op e, eVal e)) (aEntries mm)))"
    using assms(1) by (simp add: entries_ok_def comp_def)
  moreover have "(eKey (aEntries mm ! p), op (aEntries mm ! p), eVal (aEntries mm ! p))
      \<in> set (map (\<lambda>e. (eKey e, op e, eVal e)) (aEntries mm))"
    using assms(2) by (auto simp: nEntries_def image_iff intro!: bexI [of _ "aEntries mm ! p"])
  ultimately show ?thesis unfolding mm_abs_def by (rule map_of_is_SomeI)
qed

definition located :: "mutmap \<Rightarrow> byte list \<Rightarrow> nat \<Rightarrow> nat option \<Rightarrow> bool" where
  "located mm key idx found \<longleftrightarrow> (case found of
     Some p \<Rightarrow> p < nEntries mm \<and> eKey (aEntries mm ! p) = key
   | None \<Rightarrow> key \<notin> eKey ` set (aEntries mm) \<and>
       (keepSorted mm \<longrightarrow> locate_post (order_keys mm) key (idx, False)))"

lemma locate_post_absent:
  assumes "locate_post ks key (i, False)"
  shows "key \<notin> set ks"
proof
  assume "key \<in> set ks"
  then obtain j where "j < length ks" "ks ! j = key" by (auto simp: in_set_conv_nth)
  then show False using assms by (cases "j < i") (auto simp: locate_post_def not_less)
qed

lemma mm_locate_correct:
  assumes inv: "mm_inv mm"
  shows "\<exists>idx found. mm_locate mm key = Inr (mm, idx, found) \<and> located mm key idx found"
proof (cases "keepSorted mm")
  case True
  then have ord: "order_inv mm" and wf: "\<forall>e \<in> set (aEntries mm). entry_wf e"
    using inv by (simp_all add: mm_inv_def entries_ok_def)
  obtain i f where b: "bsearch_key mm key = Inr (i, f)" "locate_post (order_keys mm) key (i, f)"
    using bsearch_key_post [OF wf ord, of key] by auto
  show ?thesis
  proof (cases f)
    case f: True
    then have i: "i < nEntries mm" "order_keys mm ! i = key" using b(2) ord by (simp_all add: locate_post_def)
    note e = order_inv_entryAt [OF ord i(1)]
    show ?thesis
      using True b(1) f e i(2) by (simp add: mm_locate_def located_def)
  next
    case f: False
    then have "key \<notin> set (order_keys mm)" using b(2) locate_post_absent by simp
    then show ?thesis
      using True b f set_order_keys [OF ord] by (simp add: mm_locate_def located_def)
  qed
next
  case False
  then have h: "entries_ok mm" "hash_inv mm" using inv by (simp_all add: mm_inv_def)
  show ?thesis
  proof (cases "key \<in> eKey ` set (aEntries mm)")
    case True
    then obtain p where p: "p < nEntries mm" "eKey (aEntries mm ! p) = key"
      by (auto simp: nEntries_def in_set_conv_nth)
    have "(THE p. p < nEntries mm \<and> eKey (aEntries mm ! p) = key) = p"
      by (rule the_equality) (use p entries_ok_unique [OF h(1)] in blast)+
    then show ?thesis
      using False findPhysLazy_correct [OF h, of key] True p by (simp add: mm_locate_def located_def)
  next
    case nk: False
    then show ?thesis
      using False findPhysLazy_correct [OF h, of key] by (simp add: mm_locate_def located_def)
  qed
qed

text \<open>The invariant depends on the entries through their keys only.\<close>

definition key_part :: "mm_entry \<Rightarrow> byte list \<times> u64 \<times> u32" where
  "key_part e = (eKey e, keyPrefix e, keyHash e)"

lemma mm_inv_same_keys:
  assumes inv: "mm_inv mm" and k: "map key_part (aEntries mm') = map key_part (aEntries mm)"
    and f: "keepSorted mm' = keepSorted mm" "orderDirty mm' = orderDirty mm" "aOrder mm' = aOrder mm"
      "aPos mm' = aPos mm" "aHash mm' = aHash mm"
  shows "mm_inv mm'"
proof -
  have n: "length (aEntries mm') = length (aEntries mm)" using k by (metis length_map)
  have ek: "map eKey (aEntries mm') = map eKey (aEntries mm)"
    using arg_cong [OF k, of "map fst"] by (simp add: comp_def key_part_def)
  have nth: "eKey (aEntries mm' ! p) = eKey (aEntries mm ! p)" if "p < length (aEntries mm)" for p
    using arg_cong [OF ek, of "\<lambda>xs. xs ! p"] that n by simp
  have wf: "(\<forall>e \<in> set (aEntries m). entry_wf e) \<longleftrightarrow>
      (\<forall>t \<in> set (map key_part (aEntries m)). fst (snd t) = keyPrefix64 (fst t) \<and> (fst t \<noteq> [] \<longrightarrow> snd (snd t) = hashKey (fst t)))"
    for m by (simp add: entry_wf_def key_part_def)
  have ok: "entries_ok mm' = entries_ok mm" unfolding entries_ok_def wf k ek ..
  have ks: "eKey ` set (aEntries mm') = eKey ` set (aEntries mm)" using arg_cong [OF ek, of set] by simp
  have okeys: "order_inv mm \<Longrightarrow> order_keys mm' = order_keys mm"
    unfolding order_keys_def order_inv_def nEntries_def n f by (rule map_cong [OF refl]) (auto intro!: nth)
  have o': "order_inv mm \<Longrightarrow> order_inv mm'"
    using okeys unfolding order_inv_def nEntries_def n f by simp
  have h: "hash_inv mm \<Longrightarrow> hash_inv mm'"
  proof -
    assume hi: "hash_inv mm"
    have ne: "(\<forall>e \<in> set X. eKey e \<noteq> []) = ([] \<notin> eKey ` set X)" for X :: "mm_entry list" by (auto simp: image_iff)
    have c: "hash_cells_ok mm'" using hi unfolding hash_inv_def hash_cells_ok_def nEntries_def n f ne ks by blast
    have kt: "key_table (aEntries mm') (aHash mm) = key_table (aEntries mm) (aHash mm)" if "aEntries mm \<noteq> []"
      unfolding key_table_def
    proof (rule map_cong [OF refl])
      fix c assume "c \<in> set (aHash mm)"
      then have "c \<le> length (aEntries mm)" using hi by (simp add: hash_inv_def hash_cells_ok_def nEntries_def)
      then show "(if c = 0 then None else Some (eKey (aEntries mm' ! (c - 1)))) =
          (if c = 0 then None else Some (eKey (aEntries mm ! (c - 1))))"
        using nth [of "c - 1"] that by (cases c) auto
    qed
    have e0: "aEntries mm' = [] \<longleftrightarrow> aEntries mm = []" using n by (metis length_0_conv)
    show "hash_inv mm'"
    proof (cases "aEntries mm = []")
      case True
      then have "aEntries mm' = aEntries mm" using e0 by simp
      then show ?thesis by (rule hash_inv_cong [OF hi]) (rule f(5))
    next
      case False
      then show ?thesis
        using hi c kt [OF False] unfolding hash_inv_def nEntries_def n f ks e0
        by (cases "aHash mm = []") simp_all
    qed
  qed
  show ?thesis
    using inv o' h unfolding mm_inv_def ok nEntries_def n f by (auto split: if_splits)
qed

text \<open>An in-place change of an entry that keeps its key.\<close>

lemma map_key_part_update:
  "p < length es \<Longrightarrow> key_part e' = key_part (es ! p) \<Longrightarrow> map key_part (es[p := e']) = map key_part es"
  by (simp add: map_update list_update_same_conv)

lemma mm_inv_update:
  assumes "mm_inv mm" "p < nEntries mm" "eKey e' = eKey (aEntries mm ! p)"
    "keyPrefix e' = keyPrefix (aEntries mm ! p)" "keyHash e' = keyHash (aEntries mm ! p)"
  shows "mm_inv (mm\<lparr>aEntries := (aEntries mm)[p := e'], aUndo := u\<rparr>)"
  by (rule mm_inv_same_keys [OF assms(1)])
     (use assms(2-) in \<open>simp_all add: map_key_part_update key_part_def nEntries_def\<close>)

lemma map_of_list_update:
  "p < length xs \<Longrightarrow> distinct (map fst xs) \<Longrightarrow> fst y = fst (xs ! p) \<Longrightarrow>
     map_of (xs[p := y]) = (map_of xs)(fst y \<mapsto> snd y)"
proof (induction xs arbitrary: p)
  case (Cons a xs)
  show ?case
  proof (cases p)
    case 0
    then show ?thesis using Cons.prems by (cases y; cases a) (simp add: fun_eq_iff)
  next
    case (Suc q)
    then have q: "q < length xs" "fst y = fst (xs ! q)" using Cons.prems by simp_all
    have "fst y \<in> fst ` set xs" unfolding q(2) by (intro imageI nth_mem q(1))
    then have ne: "fst a \<noteq> fst y" using Cons.prems(2) by (metis distinct.simps(2) list.set_map list.simps(9))
    have "map_of (xs[q := y]) = (map_of xs)(fst y \<mapsto> snd y)" using Cons.IH [OF q(1) _ q(2)] Cons.prems(2) by (simp add: fun_upd_def)
    then show ?thesis using Suc ne by (cases a) (simp add: fun_eq_iff)
  qed
qed simp

lemma mm_abs_update:
  assumes ok: "entries_ok mm" and p: "p < nEntries mm" and e': "eKey e' = eKey (aEntries mm ! p)"
  shows "mm_abs (mm\<lparr>aEntries := (aEntries mm)[p := e'], aUndo := u\<rparr>) = (mm_abs mm)(eKey e' \<mapsto> (op e', eVal e'))"
  using map_of_list_update [of p "map (\<lambda>e. (eKey e, op e, eVal e)) (aEntries mm)" "(eKey e', op e', eVal e')"]
    assms by (simp add: mm_abs_def nEntries_def entries_ok_def comp_def map_update)

section \<open>Adding an entry\<close>

lemma set_positions_other:
  "p \<notin> (\<lambda>i. ord ! i) ` set is \<Longrightarrow> set_positions pos ord is ! p = pos ! p"
  by (induction pos ord "is" rule: set_positions.induct) auto

lemma length_set_positions [simp]: "length (set_positions pos ord is) = length pos"
  by (induction pos ord "is" rule: set_positions.induct) auto

lemma set_positions_nth:
  "distinct (map ((!) ord) is) \<Longrightarrow> i \<in> set is \<Longrightarrow> ord ! i < length pos \<Longrightarrow>
     set_positions pos ord is ! (ord ! i) = i"
proof (induction pos ord "is" rule: set_positions.induct)
  case (2 pos ord j js)
  show ?case
  proof (cases "i \<in> set js")
    case True
    then show ?thesis using 2 by simp
  next
    case False
    then have "i = j" using 2 by simp
    moreover have "ord ! j \<notin> (\<lambda>i. ord ! i) ` set js" using "2.prems"(1) by simp
    ultimately show ?thesis using "2.prems"(3) by (simp add: set_positions_other)
  qed
qed simp

lemma sorted_wrt_insert_at:
  assumes "sorted_wrt (<) ks" "locate_post ks key (i, False)"
  shows "sorted_wrt (<) (take i ks @ [key] @ drop i ks)"
proof -
  have i: "i \<le> length ks" "\<forall>j < i. ks ! j < key" "\<forall>j < length ks. i \<le> j \<longrightarrow> key < ks ! j"
    using assms(2) by (simp_all add: locate_post_def)
  have lo: "\<forall>x \<in> set (take i ks). x < key" using i(1,2) by (auto simp: in_set_conv_nth)
  have hi: "\<forall>x \<in> set (drop i ks). key < x" using i(3) by (auto simp: in_set_conv_nth)
  have "sorted_wrt (<) (take i ks @ drop i ks)" using assms(1) by simp
  then show ?thesis
    using lo hi unfolding sorted_wrt_append by (auto dest: less_trans)
qed

lemma map_insert_at: "map f (take i xs @ [x] @ drop i xs) = take i (map f xs) @ [f x] @ drop i (map f xs)"
  by (simp add: take_map drop_map)

definition order_insert :: "nat list \<Rightarrow> nat \<Rightarrow> nat \<Rightarrow> nat list" where
  "order_insert ord n idx = take idx ord @ [n] @ drop idx (take n ord) @ drop (n + 1) ord"

lemma order_inv_insert:
  assumes ord: "order_inv mm" and loc: "locate_post (order_keys mm) (eKey e) (idx, False)"
    and mm': "aEntries mm' = aEntries mm @ [e]" "aOrder mm' = order_insert (aOrder mm) (nEntries mm) idx"
      "aPos mm' = set_positions (arr_set (aPos mm) (nEntries mm) idx) (aOrder mm') [idx + 1..<nEntries mm + 1]"
  shows "order_inv mm'"
proof -
  let ?n = "nEntries mm" and ?O = "aOrder mm"
  let ?T = "take ?n ?O"
  have o: "?n \<le> length ?O" "?n \<le> length (aPos mm)" "distinct ?T" "set ?T = {..<?n}"
    "sorted_wrt (<) (order_keys mm)" "\<forall>i < ?n. aPos mm ! (?O ! i) = i"
    using ord by (simp_all add: order_inv_def)
  have i: "idx \<le> ?n" using loc ord by (simp add: locate_post_def)
  have n': "nEntries mm' = ?n + 1" using mm'(1) by (simp add: nEntries_def)
  have tk: "take idx ?O = take idx ?T" using i by (simp add: min_def)
  have T': "take (?n + 1) (aOrder mm') = take idx ?T @ [?n] @ drop idx ?T"
    using o(1) i by (simp add: mm'(2) order_insert_def tk [symmetric] Suc_diff_le)
  have set': "set (take idx ?T @ [?n] @ drop idx ?T) = insert ?n (set ?T)"
    by (metis (no_types, lifting) Un_insert_right append_take_drop_id list.simps(15) set_append sup_commute
        append_Cons append_Nil)
  have sT: "set (take (?n + 1) (aOrder mm')) = {..<?n + 1}"
    unfolding T' set' o(4) by auto
  have dT: "distinct (take (?n + 1) (aOrder mm'))"
  proof -
    have "distinct (take idx ?T @ drop idx ?T)" "?n \<notin> set (take idx ?T @ drop idx ?T)"
      unfolding append_take_drop_id using o(3,4) by simp_all
    then show ?thesis unfolding T' by auto
  qed
  have keys: "order_keys mm' = take idx (order_keys mm) @ [eKey e] @ drop idx (order_keys mm)"
  proof -
    have M: "map (\<lambda>p. eKey (aEntries mm' ! p)) ?T = order_keys mm"
      unfolding order_keys_def
      by (rule map_cong [OF refl]) (use o(4) in \<open>auto simp: mm'(1) nEntries_def nth_append\<close>)
    have fe: "eKey (aEntries mm' ! ?n) = eKey e" by (simp add: mm'(1) nEntries_def nth_append)
    show ?thesis
      unfolding order_keys_def [of mm'] n' T'
      unfolding map_insert_at M fe ..
  qed
  have lo: "length (aOrder mm') \<ge> ?n + 1" using o(1) i by (simp add: mm'(2) order_insert_def)
  have lp: "length (arr_set (aPos mm) ?n idx) \<ge> ?n + 1" using o(2) by (simp add: arr_set_def)
  have oi: "aOrder mm' ! j = (if j < idx then ?O ! j else if j = idx then ?n else ?O ! (j - 1))" if "j < ?n + 1" for j
  proof -
    have "aOrder mm' ! j = take (?n + 1) (aOrder mm') ! j" using that by simp
    also have "\<dots> = (take idx ?T @ [?n] @ drop idx ?T) ! j" by (simp only: T')
    finally show ?thesis using that i o(1) by (auto simp: nth_append nth_Cons' min_def)
  qed
  have inj: "aOrder mm' ! a = aOrder mm' ! b \<longleftrightarrow> a = b" if "a < ?n + 1" "b < ?n + 1" for a b
    using nth_eq_iff_index_eq [OF dT, of a b] that lo by simp
  have bound: "aOrder mm' ! a < ?n + 1" if "a < ?n + 1" for a
  proof -
    have "take (?n + 1) (aOrder mm') ! a \<in> set (take (?n + 1) (aOrder mm'))"
      by (rule nth_mem) (use that lo in simp)
    then show ?thesis using sT that by simp
  qed
  have pos: "aPos mm' ! (aOrder mm' ! j) = j" if j: "j < ?n + 1" for j
  proof (cases "idx + 1 \<le> j")
    case True
    have "distinct (map ((!) (aOrder mm')) [idx + 1..<?n + 1])"
      unfolding distinct_map by (rule conjI) (auto intro!: inj_onI simp: inj)
    then show ?thesis
      unfolding mm'(3) by (rule set_positions_nth) (use True j bound [OF j] lp in auto)
  next
    case False
    have "aOrder mm' ! j \<notin> (\<lambda>i. aOrder mm' ! i) ` set [idx + 1..<?n + 1]"
      using False j inj by (auto simp: image_iff)
    then have e: "aPos mm' ! (aOrder mm' ! j) = arr_set (aPos mm) ?n idx ! (aOrder mm' ! j)"
      unfolding mm'(3) by (rule set_positions_other)
    show ?thesis
    proof (cases "j = idx")
      case True
      then show ?thesis unfolding e using oi [OF j] o(2) by (simp add: arr_set_def nth_append)
    next
      case ne: False
      then have "aOrder mm' ! j = ?O ! j" "j < ?n" using oi [OF j] False i by simp_all
      moreover have "?O ! j < ?n" using order_inv_entryAt(1) [OF ord \<open>j < ?n\<close>] .
      ultimately show ?thesis unfolding e using o(2,6) by (simp add: arr_set_def nth_append)
    qed
  qed
  show ?thesis
    unfolding order_inv_def n' keys
    using sT dT lo lp pos sorted_wrt_insert_at [OF o(5) loc] by (simp add: mm'(3))
qed

lemma ensureHashForInsert_correct:
  assumes "mm_inv mm" "\<not> keepSorted mm"
  shows "\<exists>tab. ensureHashForInsert mm = Inr (mm\<lparr>aHash := tab\<rparr>) \<and> hash_inv (mm\<lparr>aHash := tab\<rparr>) \<and> tab \<noteq> [] \<and>
     2 * nEntries mm \<le> length tab"
proof -
  have h: "entries_ok mm" "hash_inv mm" using assms by (simp_all add: mm_inv_def)
  then have ne: "\<forall>e \<in> set (aEntries mm). eKey e \<noteq> []" by (simp add: hash_inv_def hash_cells_ok_def)
  show ?thesis
  proof (cases "length (aHash mm) = 0 \<or> (nEntries mm + 1) * 2 > length (aHash mm)")
    case True
    then show ?thesis using rebuildHash_correct [OF h(1) ne] assms(2) by (simp add: ensureHashForInsert_def)
  next
    case False
    then show ?thesis using h(2) assms(2) by (intro exI [of _ "aHash mm"]) (simp add: ensureHashForInsert_def)
  qed
qed

lemma entries_ok_append:
  "entries_ok mm \<Longrightarrow> entry_wf e \<Longrightarrow> eKey e \<notin> eKey ` set (aEntries mm) \<Longrightarrow>
     aEntries mm' = aEntries mm @ [e] \<Longrightarrow> entries_ok mm'"
  by (auto simp: entries_ok_def image_iff)

lemma hashInsertPhys_correct:
  assumes hi: "hash_inv mm" and ne: "aHash mm \<noteq> []" and room: "2 * nEntries mm \<le> length (aHash mm)"
    and wf: "entry_wf e" "eKey e \<noteq> []" and new: "eKey e \<notin> eKey ` set (aEntries mm)"
    and mm': "aEntries mm' = aEntries mm @ [e]" "aHash mm' = aHash mm" "\<not> keepSorted mm'"
  shows "\<exists>tab. hashInsertPhys mm' (nEntries mm) = Inr (mm'\<lparr>aHash := tab\<rparr>) \<and> hash_inv (mm'\<lparr>aHash := tab\<rparr>)"
proof -
  let ?es = "aEntries mm @ [e]" and ?t = "aHash mm" and ?n = "nEntries mm"
  have h: "pow2 (length ?t)" "32 \<le> length ?t" "probe_inv (key_start (length ?t)) (key_table (aEntries mm) ?t)"
    "table_keys (key_table (aEntries mm) ?t) = eKey ` set (aEntries mm)"
    "\<forall>c \<in> set ?t. c \<le> ?n" "\<forall>e \<in> set (aEntries mm). eKey e \<noteq> []"
    using hi ne by (simp_all add: hash_inv_def hash_cells_ok_def)
  have kt: "key_table ?es ?t = key_table (aEntries mm) ?t"
    by (rule key_table_append) (use h(5) in \<open>simp add: nEntries_def\<close>)
  have en: "?es ! ?n = e" by (simp add: nEntries_def)
  have "card (eKey ` set (aEntries mm)) \<le> ?n"
    unfolding nEntries_def by (metis card_image_le card_length finite_set le_trans)
  then have c: "card (table_keys (key_table ?es ?t)) < length ?t" using kt h(2,4) room by simp
  obtain tab where t: "hash_put ?t (keyHash e) ?n = Inr tab" "length tab = length ?t"
     "probe_inv (key_start (length ?t)) (key_table ?es tab)"
     "table_keys (key_table ?es tab) = insert (eKey e) (eKey ` set (aEntries mm))" "set tab \<subseteq> insert (?n + 1) (set ?t)"
    using hash_put_correct [of ?t ?es ?n] h c wf new unfolding en kt by (auto simp: entry_wf_def)
  have cells: "\<forall>c \<in> set tab. c \<le> Suc ?n" using t(5) h(5) by fastforce
  have "hashInsertPhys mm' ?n = Inr (mm'\<lparr>aHash := tab\<rparr>)"
    using t(1) ne mm' by (simp add: hashInsertPhys_def nEntries_def)
  moreover have "hash_inv (mm'\<lparr>aHash := tab\<rparr>)"
    using t(2,3,4) cells h room mm'(1) wf(2) ne
    by (auto simp add: hash_inv_def hash_cells_ok_def nEntries_def)
  ultimately show ?thesis by blast
qed

text \<open>What adding an entry leaves alone.\<close>

definition same_context :: "mutmap \<Rightarrow> mutmap \<Rightarrow> bool" where
  "same_context mm mm' \<longleftrightarrow> isIntKey mm' = isIntKey mm \<and> keepSorted mm' = keepSorted mm \<and>
     levelBase mm' = levelBase mm \<and> currentSavepointLevel mm' = currentSavepointLevel mm"

lemma same_context_refl [simp]: "same_context mm mm"
  by (simp add: same_context_def)

lemma mm_add_entry_correct:
  assumes inv: "mm_inv mm" and loc: "located mm key idx None" and key: "keepSorted mm \<or> key \<noteq> []"
  shows "\<exists>mm'. mm_add_entry mm idx o' key val = Inr mm' \<and> mm_inv mm' \<and> same_context mm mm' \<and>
     aEntries mm' = aEntries mm @ [copyEntryData o' (encodeLevel mm (currentSavepointLevel mm)) key val] \<and>
     aUndo mm' = aUndo mm \<and> generation mm' = generation mm + 1"
proof -
  define e where "e = copyEntryData o' (encodeLevel mm (currentSavepointLevel mm)) key val"
  have ek: "eKey e = key" "entry_wf e" by (simp_all add: e_def) (simp add: copyEntryData_def)
  have ok: "entries_ok mm" and new: "key \<notin> eKey ` set (aEntries mm)"
    using inv loc by (simp_all add: mm_inv_def located_def)
  show ?thesis
  proof (cases "keepSorted mm")
    case True
    define mm' where "mm' = mm\<lparr>aOrder := order_insert (aOrder mm) (nEntries mm) idx,
        aPos := set_positions (arr_set (aPos mm) (nEntries mm) idx) (order_insert (aOrder mm) (nEntries mm) idx)
          [idx + 1..<nEntries mm + 1], aEntries := aEntries mm @ [e], generation := generation mm + 1\<rparr>"
    have ord: "order_inv mm" and lp: "locate_post (order_keys mm) (eKey e) (idx, False)"
      using inv loc True ek by (simp_all add: mm_inv_def located_def)
    have "order_inv mm'" by (rule order_inv_insert [OF ord lp]) (simp_all add: mm'_def)
    moreover have "entries_ok mm'" by (rule entries_ok_append [OF ok ek(2)]) (use new ek in \<open>simp_all add: mm'_def\<close>)
    moreover have "mm_add_entry mm idx o' key val = Inr mm'"
      using True by (simp add: mm_add_entry_def ensureHashForInsert_def Let_def mm'_def order_insert_def e_def)
    ultimately show ?thesis
      using True by (intro exI [of _ mm']) (simp add: mm_inv_def mm'_def same_context_def e_def)
  next
    case False
    obtain tab where tab: "ensureHashForInsert mm = Inr (mm\<lparr>aHash := tab\<rparr>)" "hash_inv (mm\<lparr>aHash := tab\<rparr>)"
      "tab \<noteq> []" "2 * nEntries mm \<le> length tab"
      using ensureHashForInsert_correct [OF inv False] by blast
    define mm2 where "mm2 = mm\<lparr>aHash := tab, aOrder := arr_set (aOrder mm) (nEntries mm) (nEntries mm),
        aPos := arr_set (aPos mm) (nEntries mm) (nEntries mm), orderDirty := True, aEntries := aEntries mm @ [e]\<rparr>"
    have ne: "eKey e \<noteq> []" using key False ek by simp
    obtain tab' where tab': "hashInsertPhys mm2 (nEntries mm) = Inr (mm2\<lparr>aHash := tab'\<rparr>)" "hash_inv (mm2\<lparr>aHash := tab'\<rparr>)"
      using hashInsertPhys_correct [of "mm\<lparr>aHash := tab\<rparr>" e mm2] tab ek(2) ne new False ek(1)
      by (auto simp: mm2_def nEntries_def)
    define mm' where "mm' = mm2\<lparr>aHash := tab', generation := generation mm + 1\<rparr>"
    have "mm_add_entry mm idx o' key val =
        bindR (hashInsertPhys mm2 (nEntries mm)) (\<lambda>mm. Inr (mm\<lparr>generation := generation mm + 1\<rparr>))"
      using False tab(1)
      by (simp add: mm_add_entry_def Let_def mm2_def e_def nEntries_def encodeLevel_def)
    then have add: "mm_add_entry mm idx o' key val = Inr mm'"
      by (simp add: tab' mm'_def) (simp add: mm2_def)
    have "entries_ok mm'" by (rule entries_ok_append [OF ok ek(2)]) (use new ek in \<open>simp_all add: mm'_def mm2_def\<close>)
    moreover have "hash_inv mm'" 
      by (rule hash_inv_cong [OF tab'(2)]) (simp_all add: mm'_def)
    moreover have "nEntries mm \<le> length (aOrder mm)" "nEntries mm \<le> length (aPos mm)"
      using inv False by (simp_all add: mm_inv_def)
    ultimately have "mm_inv mm'"
      using False by (simp add: mm_inv_def mm'_def mm2_def nEntries_def arr_set_def)
    with add show ?thesis
      by (intro exI [of _ mm']) (simp add: mm'_def mm2_def same_context_def e_def)
  qed
qed

lemma mm_abs_append:
  assumes "key \<notin> eKey ` set (aEntries mm)" "aEntries mm' = aEntries mm @ [copyEntryData o' b key val]"
  shows "mm_abs mm' = (mm_abs mm)(key \<mapsto> (o', val))"
proof -
  have "mm_abs mm key = None" using assms(1) by (simp add: mm_abs_None)
  then show ?thesis
    by (simp add: mm_abs_def assms(2) copyEntryData_def map_add_def fun_eq_iff split: option.split)
qed

section \<open>The operations on the abstract map\<close>

text \<open>An insertion writes the key; a deletion records itself, dropping a pending insertion's value.\<close>

definition abs_delete :: "(byte list \<rightharpoonup> edit_op \<times> byte list) \<Rightarrow> byte list \<Rightarrow> (byte list \<rightharpoonup> edit_op \<times> byte list)" where
  "abs_delete m k = (case m k of
      Some (PROLLY_EDIT_DELETE, v) \<Rightarrow> m
    | _ \<Rightarrow> m(k \<mapsto> (PROLLY_EDIT_DELETE, [])))"

lemma undo_if_older_fields [simp]:
  "aEntries (undo_if_older mm p) = aEntries mm" "currentSavepointLevel (undo_if_older mm p) = currentSavepointLevel mm"
  "levelBase (undo_if_older mm p) = levelBase mm"
  by (simp_all add: undo_if_older_def appendUndoRec_def Let_def)

lemma undo_if_older_update:
  "(undo_if_older mm p)\<lparr>aEntries := es\<rparr> = mm\<lparr>aEntries := es, aUndo := aUndo (undo_if_older mm p)\<rparr>"
  by (rule mutmap.equality)
     (simp_all add: undo_if_older_def appendUndoRec_def Let_def)

lemma encodeLevel_undo [simp]: "encodeLevel (undo_if_older mm p) l = encodeLevel mm l"
  by (simp add: encodeLevel_def)

text \<open>
  The key that an operation works on, and the arguments that it is given: in a map with integer keys either the
  bytes of a key or an integer, not both.
\<close>

definition full_key :: "bool \<Rightarrow> byte list \<Rightarrow> u64 \<Rightarrow> byte list" where
  "full_key isInt k ik = (if isInt \<and> k = [] then prollyEncodeIntKey ik else k)"

definition key_args :: "bool \<Rightarrow> byte list \<Rightarrow> u64 \<Rightarrow> bool" where
  "key_args isInt k ik \<longleftrightarrow> (isInt \<longrightarrow> k = [] \<or> ik = 0)"

lemma key_args_0 [simp]: "key_args isInt k 0" "key_args isInt [] ik" "key_args False k ik"
  by (simp_all add: key_args_def)

lemma prepKey_full: "key_args (isIntKey mm) k ik \<Longrightarrow> prepKey mm k ik = Inr (full_key (isIntKey mm) k ik)"
  by (auto simp: prepKey_def full_key_def key_args_def)

lemma prepKey_assert: "\<not> key_args (isIntKey mm) k ik \<Longrightarrow> prepKey mm k ik = Inl OUT_OF_BOUNDS"
  by (auto simp: prepKey_def key_args_def)

lemma full_key_given [simp]: "k \<noteq> [] \<Longrightarrow> full_key isInt k ik = k"
  by (simp add: full_key_def)

text \<open>The two ways a writer changes the entries.\<close>

definition wrote :: "mutmap \<Rightarrow> mutmap \<Rightarrow> byte list \<Rightarrow> edit_op \<Rightarrow> byte list \<Rightarrow> bool" where
  "wrote mm mm' k o' v \<longleftrightarrow>
     (\<exists>p < nEntries mm. eKey (aEntries mm ! p) = k \<and>
        aEntries mm' = (aEntries mm)[p := (aEntries mm ! p)\<lparr>op := o', eVal := v,
          bornAt := encodeLevel mm (currentSavepointLevel mm)\<rparr>] \<and>
        aUndo mm' = aUndo (undo_if_older mm p)) \<or>
     (k \<notin> eKey ` set (aEntries mm) \<and> aUndo mm' = aUndo mm \<and>
        aEntries mm' = aEntries mm @ [copyEntryData o' (encodeLevel mm (currentSavepointLevel mm)) k v])"

lemma prollyMutMapInsert_correct:
  assumes inv: "mm_inv mm" and args: "key_args (isIntKey mm) k ik" and key: "keepSorted mm \<or> full_key (isIntKey mm) k ik \<noteq> []"
  shows "\<exists>mm'. prollyMutMapInsert mm k ik val = Inr mm' \<and> mm_inv mm' \<and> same_context mm mm' \<and>
     wrote mm mm' (full_key (isIntKey mm) k ik) PROLLY_EDIT_INSERT val \<and>
     mm_abs mm' = (mm_abs mm)(full_key (isIntKey mm) k ik \<mapsto> (PROLLY_EDIT_INSERT, val))"
proof -
  let ?k = "full_key (isIntKey mm) k ik"
  note pk = prepKey_full [OF args]
  obtain idx found where loc: "mm_locate mm ?k = Inr (mm, idx, found)" "located mm ?k idx found"
    using mm_locate_correct [OF inv] by blast
  show ?thesis
  proof (cases found)
    case None
    obtain mm' where mm': "mm_add_entry mm idx PROLLY_EDIT_INSERT ?k val = Inr mm'" "mm_inv mm'" "same_context mm mm'"
      "aEntries mm' = aEntries mm @ [copyEntryData PROLLY_EDIT_INSERT (encodeLevel mm (currentSavepointLevel mm)) ?k val]"
      "aUndo mm' = aUndo mm"
      using mm_add_entry_correct [OF inv _ key] loc(2) None by blast
    have "mm_abs mm' = (mm_abs mm)(?k \<mapsto> (PROLLY_EDIT_INSERT, val))"
      by (rule mm_abs_append [OF _ mm'(4)]) (use loc(2) None in \<open>simp add: located_def\<close>)
    moreover have "wrote mm mm' ?k PROLLY_EDIT_INSERT val"
      using mm'(4,5) loc(2) None by (simp add: wrote_def located_def)
    ultimately show ?thesis using loc(1) None mm' by (simp add: prollyMutMapInsert_def pk Let_def)
  next
    case (Some p)
    then have p: "p < nEntries mm" "eKey (aEntries mm ! p) = ?k" using loc(2) by (simp_all add: located_def)
    define e where "e = (aEntries mm ! p)\<lparr>op := PROLLY_EDIT_INSERT, eVal := val,
        bornAt := encodeLevel mm (currentSavepointLevel mm)\<rparr>"
    define u where "u = aUndo (undo_if_older mm p)"
    have u: "(undo_if_older mm p)\<lparr>aEntries := (aEntries mm)[p := e]\<rparr>
        = mm\<lparr>aEntries := (aEntries mm)[p := e], aUndo := u\<rparr>"
      unfolding u_def by (rule undo_if_older_update)
    have w: "wrote mm (mm\<lparr>aEntries := (aEntries mm)[p := e], aUndo := u\<rparr>) ?k PROLLY_EDIT_INSERT val"
      unfolding wrote_def using p by (intro disjI1 exI [of _ p]) (simp add: e_def u_def)
    have "prollyMutMapInsert mm k ik val = Inr (mm\<lparr>aEntries := (aEntries mm)[p := e], aUndo := u\<rparr>)"
      using loc(1) Some u by (simp add: prollyMutMapInsert_def pk Let_def e_def)
    moreover have "mm_inv (mm\<lparr>aEntries := (aEntries mm)[p := e], aUndo := u\<rparr>)"
      by (rule mm_inv_update [OF inv p(1)]) (simp_all add: e_def)
    moreover have "mm_abs (mm\<lparr>aEntries := (aEntries mm)[p := e], aUndo := u\<rparr>)
        = (mm_abs mm)(?k \<mapsto> (PROLLY_EDIT_INSERT, val))"
      using mm_abs_update [of mm p e u] inv p by (simp add: mm_inv_def e_def)
    ultimately show ?thesis using w by (simp add: same_context_def)
  qed
qed

lemma prollyMutMapDelete_correct:
  assumes inv: "mm_inv mm" and args: "key_args (isIntKey mm) k ik" and key: "keepSorted mm \<or> full_key (isIntKey mm) k ik \<noteq> []"
  shows "\<exists>mm'. prollyMutMapDelete mm k ik = Inr mm' \<and> mm_inv mm' \<and> same_context mm mm' \<and>
     (mm' = mm \<or> wrote mm mm' (full_key (isIntKey mm) k ik) PROLLY_EDIT_DELETE []) \<and>
     mm_abs mm' = abs_delete (mm_abs mm) (full_key (isIntKey mm) k ik)"
proof -
  let ?k = "full_key (isIntKey mm) k ik"
  note pk = prepKey_full [OF args]
  have ok: "entries_ok mm" using inv by (simp add: mm_inv_def)
  obtain idx found where loc: "mm_locate mm ?k = Inr (mm, idx, found)" "located mm ?k idx found"
    using mm_locate_correct [OF inv] by blast
  show ?thesis
  proof (cases found)
    case None
    then have n: "?k \<notin> eKey ` set (aEntries mm)" using loc(2) by (simp add: located_def)
    obtain mm' where mm': "mm_add_entry mm idx PROLLY_EDIT_DELETE ?k [] = Inr mm'" "mm_inv mm'" "same_context mm mm'"
      "aEntries mm' = aEntries mm @ [copyEntryData PROLLY_EDIT_DELETE (encodeLevel mm (currentSavepointLevel mm)) ?k []]"
      "aUndo mm' = aUndo mm"
      using mm_add_entry_correct [OF inv _ key] loc(2) None by blast
    have "mm_abs mm ?k = None" using n by (simp add: mm_abs_None)
    then have "mm_abs mm' = abs_delete (mm_abs mm) ?k"
      using mm_abs_append [OF n mm'(4)] by (simp add: abs_delete_def)
    moreover have "wrote mm mm' ?k PROLLY_EDIT_DELETE []"
      using mm'(4,5) n by (simp add: wrote_def)
    ultimately show ?thesis using loc(1) None mm' by (simp add: prollyMutMapDelete_def pk Let_def)
  next
    case (Some p)
    then have p: "p < nEntries mm" "eKey (aEntries mm ! p) = ?k" using loc(2) by (simp_all add: located_def)
    have a: "mm_abs mm ?k = Some (op (aEntries mm ! p), eVal (aEntries mm ! p))"
      using mm_abs_nth [OF ok p(1)] p(2) by simp
    show ?thesis
    proof (cases "op (aEntries mm ! p)")
      case PROLLY_EDIT_DELETE
      then show ?thesis
        using loc(1) Some inv a by (simp add: prollyMutMapDelete_def pk Let_def abs_delete_def)
    next
      case ins: PROLLY_EDIT_INSERT
      define e where "e = (aEntries mm ! p)\<lparr>op := PROLLY_EDIT_DELETE, eVal := [],
        bornAt := encodeLevel mm (currentSavepointLevel mm)\<rparr>"
      define u where "u = aUndo (undo_if_older mm p)"
      have u: "(undo_if_older mm p)\<lparr>aEntries := (aEntries mm)[p := e]\<rparr>
        = mm\<lparr>aEntries := (aEntries mm)[p := e], aUndo := u\<rparr>"
        unfolding u_def by (rule undo_if_older_update)
      have w: "wrote mm (mm\<lparr>aEntries := (aEntries mm)[p := e], aUndo := u\<rparr>) ?k PROLLY_EDIT_DELETE []"
        unfolding wrote_def using p by (intro disjI1 exI [of _ p]) (simp add: e_def u_def)
      have "prollyMutMapDelete mm k ik = Inr (mm\<lparr>aEntries := (aEntries mm)[p := e], aUndo := u\<rparr>)"
        using loc(1) Some u ins by (simp add: prollyMutMapDelete_def pk Let_def e_def)
      moreover have "mm_inv (mm\<lparr>aEntries := (aEntries mm)[p := e], aUndo := u\<rparr>)"
        by (rule mm_inv_update [OF inv p(1)]) (simp_all add: e_def)
      moreover have "mm_abs (mm\<lparr>aEntries := (aEntries mm)[p := e], aUndo := u\<rparr>) = abs_delete (mm_abs mm) ?k"
        using mm_abs_update [OF ok p(1), of e u] p a ins by (simp add: e_def abs_delete_def)
      ultimately show ?thesis using w by (simp add: same_context_def)
    qed
  qed
qed

lemma prollyMutMapFindRc_correct:
  assumes inv: "mm_inv mm" and args: "key_args (isIntKey mm) k ik"
  shows "\<exists>r. prollyMutMapFindRc mm k ik = Inr (mm, r) \<and>
     map_option (\<lambda>e. (op e, eVal e)) r = mm_abs mm (full_key (isIntKey mm) k ik) \<and>
     (\<forall>e. r = Some e \<longrightarrow> eKey e = full_key (isIntKey mm) k ik)"
proof (cases "nEntries mm = 0")
  case True
  then show ?thesis by (simp add: prollyMutMapFindRc_def mm_abs_def nEntries_def)
next
  case False
  let ?k = "full_key (isIntKey mm) k ik"
  note pk = prepKey_full [OF args]
  have ok: "entries_ok mm" using inv by (simp add: mm_inv_def)
  obtain idx found where loc: "mm_locate mm ?k = Inr (mm, idx, found)" "located mm ?k idx found"
    using mm_locate_correct [OF inv] by blast
  have r: "prollyMutMapFindRc mm k ik = Inr (mm, map_option (\<lambda>p. aEntries mm ! p) found)"
  proof (cases "keepSorted mm")
    case True
    have ord: "order_inv mm" and wf: "\<forall>e \<in> set (aEntries mm). entry_wf e"
      using inv True by (simp_all add: mm_inv_def entries_ok_def)
    obtain i f where b: "bsearch_key mm ?k = Inr (i, f)" "locate_post (order_keys mm) ?k (i, f)"
      using bsearch_key_post [OF wf ord, of ?k] by auto
    show ?thesis
    proof (cases f)
      case True
      then have "i < nEntries mm" using b(2) ord by (simp add: locate_post_def)
      note e = order_inv_entryAt [OF ord this]
      show ?thesis
        using \<open>keepSorted mm\<close> False True b(1) loc(1) e(2,3) by (auto simp add: prollyMutMapFindRc_def pk mm_locate_def Let_def)
    next
      case f: False
      then show ?thesis
        using True False b(1) loc(1) by (auto simp add: prollyMutMapFindRc_def pk mm_locate_def Let_def)
    qed
  next
    case ns: False
    then show ?thesis
      using False loc(1) by (auto simp add: prollyMutMapFindRc_def pk mm_locate_def res_simps Let_def)
  qed
  show ?thesis
  proof (cases found)
    case None
    then have "mm_abs mm ?k = None" using loc(2) by (simp add: located_def mm_abs_None)
    then show ?thesis using r None by simp
  next
    case (Some p)
    then have p: "p < nEntries mm" "eKey (aEntries mm ! p) = ?k" using loc(2) by (simp_all add: located_def)
    then show ?thesis using r Some mm_abs_nth [OF ok p(1)] by simp
  qed
qed

section \<open>Sorting on demand\<close>

definition pair_key :: "mutmap \<Rightarrow> order_pair \<Rightarrow> byte list" where
  "pair_key mm a = eKey (aEntries mm ! snd a)"

lemma orderPairCmp_ok:
  assumes "entries_ok mm"
  shows "cmp_ok (orderPairCmp mm) (pair_key mm) (map (\<lambda>i. (keyPrefix (aEntries mm ! i), i)) [0..<nEntries mm])"
proof -
  have "orderPairCmp mm (keyPrefix (aEntries mm ! i), i) (keyPrefix (aEntries mm ! j), j)
      = key_cmp (eKey (aEntries mm ! i)) (eKey (aEntries mm ! j))" if "i < nEntries mm" "j < nEntries mm" for i j
    using entries_ok_nth [OF assms that(1)] entries_ok_nth [OF assms that(2)]
      prefix_compare [of "eKey (aEntries mm ! i)" "eKey (aEntries mm ! j)"]
    by (simp only: orderPairCmp_def entry_wf_def fst_conv snd_conv)
  then show ?thesis by (auto simp: cmp_ok_def pair_key_def)
qed

lemma mutmapSortOrder_correct:
  assumes ok: "entries_ok mm" and n: "1 < nEntries mm" and len: "nEntries mm \<le> length (aOrder mm)"
  shows "\<exists>T. mutmapSortOrder mm = Inr (mm\<lparr>aOrder := T @ drop (nEntries mm) (aOrder mm)\<rparr>) \<and>
     length T = nEntries mm \<and> distinct T \<and> set T = {..<nEntries mm} \<and>
     sorted_wrt (<) (map (\<lambda>p. eKey (aEntries mm ! p)) T)"
proof -
  let ?n = "nEntries mm"
  let ?s = "map (\<lambda>i. (keyPrefix (aEntries mm ! i), i)) [0..<?n]"
  obtain b where b: "mutmapQuickSort ?n (orderPairCmp mm) ?s 0 (?n - 1) = Inr b"
    "perm_range ?s b 0 (?n - 1)" "sorted_range (pair_key mm) b 0 (?n - 1)"
    using mutmapQuickSort_spec [OF orderPairCmp_ok [OF ok], of 0 "?n - 1" ?n] n by auto
  have m: "mset b = mset ?s" using b(2) by (simp add: perm_range_def)
  have lb: "length b = ?n" using perm_range_length [OF b(2)] by simp
  have ms: "mset (map snd b) = mset [0..<?n]"
  proof -
    have "mset (map snd b) = image_mset snd (mset b)" by simp
    also have "\<dots> = image_mset snd (mset ?s)" by (simp only: m)
    also have "\<dots> = mset (map snd ?s)" by (rule mset_map [symmetric])
    also have "map snd ?s = [0..<?n]" by (simp add: comp_def)
    finally show ?thesis .
  qed
  have d: "distinct (map snd b)" using ms by (metis distinct_upt mset_eq_imp_distinct_iff)
  have st: "set (map snd b) = {..<?n}" using mset_eq_setD [OF ms] by (simp add: atLeast0LessThan)
  have "sorted_wrt (<) (map (\<lambda>p. eKey (aEntries mm ! p)) (map snd b))"
    unfolding sorted_wrt_iff_nth_less
  proof (intro allI impI)
    fix i j assume ij: "i < j" "j < length (map (\<lambda>p. eKey (aEntries mm ! p)) (map snd b))"
    then have j: "j < ?n" "i < ?n" using lb by simp_all
    have le: "pair_key mm (b ! i) \<le> pair_key mm (b ! j)" by (rule sorted_rangeD [OF b(3)]) (use ij j in auto)
    have "map snd b ! i \<in> set (map snd b)" "map snd b ! j \<in> set (map snd b)"
      by (rule nth_mem, use j lb in simp)+
    then have r: "snd (b ! i) < ?n" "snd (b ! j) < ?n" using st j lb by auto
    have "snd (b ! i) \<noteq> snd (b ! j)"
      using nth_eq_iff_index_eq [OF d, of i j] ij j lb by simp
    then have "pair_key mm (b ! i) \<noteq> pair_key mm (b ! j)"
      using entries_ok_unique [OF ok r] by (simp add: pair_key_def)
    with le show "map (\<lambda>p. eKey (aEntries mm ! p)) (map snd b) ! i < map (\<lambda>p. eKey (aEntries mm ! p)) (map snd b) ! j"
      using j lb by (simp add: pair_key_def)
  qed
  moreover have "mutmapSortOrder mm = Inr (mm\<lparr>aOrder := map snd b @ drop ?n (aOrder mm)\<rparr>)"
    using n b(1) by (simp add: mutmapSortOrder_def Let_def)
  ultimately show ?thesis using d st lb by (intro exI [of _ "map snd b"]) simp
qed

text \<open>
  A lazy map that holds one entry is not sorted: its order cell must already be right.
\<close>

definition order_head_ok :: "mutmap \<Rightarrow> bool" where
  "order_head_ok mm \<longleftrightarrow> (nEntries mm = 1 \<longrightarrow> aOrder mm ! 0 = 0)"

lemma order_inv_positions:
  assumes T: "length T = nEntries mm" "distinct T" "set T = {..<nEntries mm}"
    "sorted_wrt (<) (map (\<lambda>p. eKey (aEntries mm ! p)) T)" and len: "nEntries mm \<le> length (aPos mm)"
    and mm': "aEntries mm' = aEntries mm" "aOrder mm' = T @ rest"
      "aPos mm' = set_positions (aPos mm) (aOrder mm') [0..<nEntries mm]"
  shows "order_inv mm'"
proof -
  have n: "nEntries mm' = nEntries mm" by (simp add: nEntries_def mm'(1))
  have tk: "take (nEntries mm) (aOrder mm') = T" using T(1) by (simp add: mm'(2))
  have oT: "aOrder mm' ! i = T ! i" if "i < nEntries mm" for i using that T(1) by (simp add: mm'(2) nth_append)
  have pos: "aPos mm' ! (aOrder mm' ! i) = i" if i: "i < nEntries mm" for i
    unfolding mm'(3)
  proof (rule set_positions_nth)
    have "map ((!) (aOrder mm')) [0..<nEntries mm] = T"
      using T(1) oT by (simp add: list_eq_iff_nth_eq)
    then show "distinct (map ((!) (aOrder mm')) [0..<nEntries mm])" using T(2) by simp
    have "T ! i \<in> set T" using i T(1) by simp
    then show "aOrder mm' ! i < length (aPos mm)" using T(3) oT [OF i] len by simp
  qed (use i in simp)
  show ?thesis
    unfolding order_inv_def order_keys_def n tk
    using T len pos by (simp add: mm'(1,2)) (simp add: mm'(2,3))
qed

lemma ensureOrder_correct:
  assumes inv: "mm_inv mm" and hd: "order_head_ok mm"
  shows "\<exists>mm'. ensureOrder mm = Inr mm' \<and> order_inv mm' \<and> mm_inv mm' \<and> same_context mm mm' \<and>
     aEntries mm' = aEntries mm \<and> aUndo mm' = aUndo mm \<and> ensureOrder mm' = Inr mm' \<and>
     (\<not> keepSorted mm' \<longrightarrow> \<not> orderDirty mm')"
proof (cases "keepSorted mm \<or> \<not> orderDirty mm")
  case True
  then have "order_inv mm" using inv hd by (auto simp: mm_inv_def order_head_ok_def split: if_splits)
  then show ?thesis using True inv by (intro exI [of _ mm]) (auto simp: ensureOrder_def)
next
  case False
  have ok: "entries_ok mm" and len: "nEntries mm \<le> length (aOrder mm)" "nEntries mm \<le> length (aPos mm)"
    using inv False by (simp_all add: mm_inv_def)
  obtain T where T: "mutmapSortOrder mm = Inr (mm\<lparr>aOrder := T @ drop (nEntries mm) (aOrder mm)\<rparr>)"
      "length T = nEntries mm" "distinct T" "set T = {..<nEntries mm}"
      "sorted_wrt (<) (map (\<lambda>p. eKey (aEntries mm ! p)) T)"
  proof (cases "1 < nEntries mm")
    case True
    then show ?thesis using mutmapSortOrder_correct [OF ok _ len(1)] that by blast
  next
    case n: False
    have s: "mutmapSortOrder mm = Inr (mm\<lparr>aOrder := take (nEntries mm) (aOrder mm) @ drop (nEntries mm) (aOrder mm)\<rparr>)"
      using n by (simp add: mutmapSortOrder_def Let_def)
    have "nEntries mm = 0 \<or> nEntries mm = 1" using n by auto
    then show ?thesis
    proof
      assume "nEntries mm = 0"
      then show ?thesis by (intro that [OF s]) simp_all
    next
      assume one: "nEntries mm = 1"
      then have "take (nEntries mm) (aOrder mm) = [0]"
        using hd len(1) by (cases "aOrder mm") (auto simp: order_head_ok_def)
      then show ?thesis using one by (intro that [OF s]) (simp_all add: lessThan_Suc)
    qed
  qed
  define mm' where "mm' = mm\<lparr>aOrder := T @ drop (nEntries mm) (aOrder mm),
     aPos := set_positions (aPos mm) (T @ drop (nEntries mm) (aOrder mm)) [0..<nEntries mm], orderDirty := False\<rparr>"
  have e: "ensureOrder mm = Inr mm'"
    using False T(1) by (simp add: ensureOrder_def mm'_def nEntries_def)
  have ord: "order_inv mm'"
    by (rule order_inv_positions [OF T(2-5) len(2)]) (simp_all add: mm'_def)
  have "hash_inv mm'" by (rule hash_inv_cong [of mm]) (use inv False in \<open>simp_all add: mm_inv_def mm'_def\<close>)
  moreover have "nEntries mm' = nEntries mm" "entries_ok mm'"
    using ok by (simp_all add: mm'_def nEntries_def entries_ok_def)
  ultimately have "mm_inv mm'"
    using False ord len T(2) by (simp add: mm_inv_def) (simp add: mm'_def)
  then show ?thesis
    using e ord by (intro exI [of _ mm']) (simp add: mm'_def same_context_def ensureOrder_def)
qed

section \<open>Iteration\<close>

text \<open>\<open>for( IterFirst; IterValid; IterNext ) IterEntry\<close>, as the flush does; the fuel bounds the rounds.\<close>

fun iter_collect :: "nat \<Rightarrow> mm_iter \<Rightarrow> mm_entry list res" where
  "iter_collect 0 it = Inl NO_RETURN"
| "iter_collect (Suc f) it =
     (if prollyMutMapIterValid it then
        bindR (prollyMutMapIterEntry it) (\<lambda>r. case r of (it, e) \<Rightarrow>
        bindR (iter_collect f (prollyMutMapIterNext it)) (\<lambda>es. Inr (e # es)))
      else Inr [])"

definition ordered_entries :: "mutmap \<Rightarrow> mm_entry list" where
  "ordered_entries mm = map (\<lambda>p. aEntries mm ! p) (take (nEntries mm) (aOrder mm))"

lemma order_keys_entries: "order_keys mm = map eKey (ordered_entries mm)"
  by (simp add: order_keys_def ordered_entries_def)

lemma length_ordered_entries: "order_inv mm \<Longrightarrow> length (ordered_entries mm) = nEntries mm"
  by (simp add: ordered_entries_def order_inv_def)

lemma entryAtOrder_ordered:
  assumes "order_inv mm" "i < nEntries mm"
  shows "entryAtOrder mm i = Inr (ordered_entries mm ! i)"
  using order_inv_entryAt [OF assms] assms by (simp add: ordered_entries_def)

lemma iter_collect_from:
  assumes ord: "order_inv mm" and e: "ensureOrder mm = Inr mm"
  shows "i \<le> nEntries mm \<Longrightarrow> nEntries mm - i < f \<Longrightarrow>
     iter_collect f (mm, i) = Inr (drop i (ordered_entries mm))"
proof (induction f arbitrary: i)
  case (Suc f)
  show ?case
  proof (cases "i < nEntries mm")
    case True
    then have d: "drop i (ordered_entries mm) = ordered_entries mm ! i # drop (Suc i) (ordered_entries mm)"
      by (simp add: length_ordered_entries [OF ord] Cons_nth_drop_Suc)
    show ?thesis
      using True Suc e entryAtOrder_ordered [OF ord True] d
      by (simp add: prollyMutMapIterValid_def prollyMutMapIterEntry_def prollyMutMapIterNext_def)
  next
    case False
    then show ?thesis
      using Suc.prems length_ordered_entries [OF ord] by (simp add: prollyMutMapIterValid_def)
  qed
qed simp

lemma set_ordered_entries:
  assumes "order_inv mm"
  shows "set (ordered_entries mm) = set (aEntries mm)"
proof -
  have "set (ordered_entries mm) = (\<lambda>p. aEntries mm ! p) ` {..<nEntries mm}"
    using assms by (simp add: ordered_entries_def order_inv_def)
  also have "\<dots> = set (aEntries mm)" by (auto simp: nEntries_def set_conv_nth)
  finally show ?thesis .
qed

lemma mm_abs_ordered:
  assumes ord: "order_inv mm" and ok: "entries_ok mm"
  shows "map_of (map (\<lambda>e. (eKey e, op e, eVal e)) (ordered_entries mm)) = mm_abs mm"
proof -
  let ?f = "\<lambda>e. (eKey e, op e, eVal e)"
  have "distinct (order_keys mm)"
    using ord unfolding order_inv_def by (metis strict_sorted_iff)
  then have d1: "distinct (map fst (map ?f (ordered_entries mm)))"
    by (simp add: order_keys_entries comp_def)
  have d2: "distinct (map fst (map ?f (aEntries mm)))" using ok by (simp add: entries_ok_def comp_def)
  have "set (map ?f (ordered_entries mm)) = set (map ?f (aEntries mm))"
    using set_ordered_entries [OF ord] by simp
  then show ?thesis unfolding mm_abs_def by (simp only: map_of_inject_set [OF d1 d2])
qed

end
