(* ===== verification/MutMapUndo.thy ===== *)
theory MutMapUndo
  imports MutMapInv
begin

text \<open>
  The savepoints of the edit map (\<open>prollyMutMapPushSavepoint\<close>, \<open>RollbackToSavepoint\<close>,
  \<open>ReleaseSavepoint\<close> and the undo records of the writers).  The first sections work on the
  decoded entries and the undo log alone; then the code's operations are shown to preserve
  the invariant \<open>mm_ok\<close> and to restore, or keep, the maps that a rollback would restore;
  the last section states the machine of maps and snapshots and the simulation.
\<close>

section \<open>The undo log on decoded entries\<close>

text \<open>
  An entry as the savepoint operations see it: key, operation, value and the decoded level
  that wrote it.
\<close>

type_synonym dentry = "byte list \<times> edit_op \<times> byte list \<times> int"

definition d_born :: "dentry \<Rightarrow> int" where "d_born d = snd (snd (snd d))"

lemma d_born_tuple [simp]: "d_born (a, b, v, n) = n"
  by (simp add: d_born_def)

definition d_restore :: "undo_rec \<Rightarrow> dentry list \<Rightarrow> dentry list" where
  "d_restore r ds = ds[nat (entryIdx r) := (fst (ds ! nat (entryIdx r)), prevOp r, prevVal r, prevBornAt r)]"

definition d_undo :: "int \<Rightarrow> undo_rec list \<Rightarrow> dentry list \<Rightarrow> dentry list" where
  "d_undo l us ds = foldr (\<lambda>r ds. if uLevel r \<ge> l then d_restore r ds else ds) us ds"

definition d_map :: "dentry list \<Rightarrow> byte list \<rightharpoonup> edit_op \<times> byte list" where
  "d_map ds = map_of (map (\<lambda>d. (fst d, fst (snd d), fst (snd (snd d)))) ds)"

text \<open>What a rollback to level \<open>l\<close> would leave: the state when the savepoint was pushed.\<close>

definition d_view :: "dentry list \<Rightarrow> undo_rec list \<Rightarrow> int \<Rightarrow> byte list \<rightharpoonup> edit_op \<times> byte list" where
  "d_view ds us l = d_map (filter (\<lambda>d. d_born d < l) (d_undo l us ds))"

definition undo_ok :: "dentry list \<Rightarrow> undo_rec list \<Rightarrow> int \<Rightarrow> bool" where
  "undo_ok ds us c \<longleftrightarrow> 0 \<le> c \<and> sorted_wrt (\<le>) (map uLevel us) \<and>
     (\<forall>r \<in> set us. 1 \<le> uLevel r \<and> uLevel r \<le> c \<and> 0 \<le> prevBornAt r \<and> 0 \<le> entryIdx r \<and> nat (entryIdx r) < length ds) \<and>
     (\<forall>d \<in> set ds. 0 \<le> d_born d \<and> d_born d \<le> c) \<and>
     (\<forall>l r. r \<in> set us \<longrightarrow> uLevel r < l \<longrightarrow> d_born (d_undo l us ds ! nat (entryIdx r)) < l)"

lemma length_d_restore [simp]: "length (d_restore r ds) = length ds"
  by (simp add: d_restore_def)

lemma d_undo_Nil [simp]: "d_undo l [] ds = ds"
  by (simp add: d_undo_def)

lemma d_undo_Cons: "d_undo l (r # us) ds = (if uLevel r \<ge> l then d_restore r (d_undo l us ds) else d_undo l us ds)"
  by (simp add: d_undo_def)

lemma d_undo_append: "d_undo l (us @ vs) ds = d_undo l us (d_undo l vs ds)"
  by (simp add: d_undo_def)

lemma length_d_undo [simp]: "length (d_undo l us ds) = length ds"
  by (induction us) (simp_all add: d_undo_Cons)

lemma d_undo_none: "\<forall>r \<in> set us. uLevel r < l \<Longrightarrow> d_undo l us ds = ds"
  by (induction us) (simp_all add: d_undo_Cons)

lemma d_undo_filter: "d_undo l (filter (\<lambda>r. uLevel r \<ge> l) us) ds = d_undo l us ds"
  by (induction us) (simp_all add: d_undo_Cons)

lemma d_undo_append_entry:
  "\<forall>r \<in> set us. nat (entryIdx r) < length ds \<Longrightarrow> d_undo l us (ds @ [x]) = d_undo l us ds @ [x]"
  by (induction us) (auto simp: d_undo_Cons d_restore_def nth_append list_update_append)

lemma d_undo_key: "i < length ds \<Longrightarrow> fst (d_undo l us ds ! i) = fst (ds ! i)"
proof (induction us)
  case (Cons r us)
  then show ?case
    by (cases "nat (entryIdx r) = i") (simp_all add: d_undo_Cons d_restore_def)
qed simp

lemma d_undo_other:
  "\<forall>r \<in> set us. uLevel r \<ge> l \<longrightarrow> nat (entryIdx r) \<noteq> i \<Longrightarrow> d_undo l us ds ! i = ds ! i"
  by (induction us) (auto simp: d_undo_Cons d_restore_def)

lemma d_undo_write:
  assumes "i < length ds" "fst x = fst (ds ! i)"
  shows "d_undo l us (ds[i := x]) =
     (if \<exists>r \<in> set us. uLevel r \<ge> l \<and> nat (entryIdx r) = i then d_undo l us ds
      else (d_undo l us ds)[i := x])"
proof (induction us)
  case (Cons r us)
  show ?case
  proof (cases "uLevel r \<ge> l \<and> nat (entryIdx r) = i")
    case True
    have k: "fst (d_undo l us ds ! i) = fst x" using d_undo_key [OF assms(1)] assms(2) by simp
    then show ?thesis
      using Cons True assms by (auto simp: d_undo_Cons d_restore_def)
  next
    case False
    then show ?thesis
      using Cons by (auto simp: d_undo_Cons d_restore_def list_update_swap)
  qed
qed simp

lemma filter_update_out:
  assumes "i < length xs" "\<not> P x" "\<not> P (xs ! i)"
  shows "filter P (xs[i := x]) = filter P xs"
proof -
  have "xs = take i xs @ xs ! i # drop (Suc i) xs" using assms(1) by (rule id_take_nth_drop)
  then have "filter P xs = filter P (take i xs) @ filter P (drop (Suc i) xs)"
    using assms(3) by (metis filter.simps(2) filter_append)
  moreover have "filter P (xs[i := x]) = filter P (take i xs) @ filter P (drop (Suc i) xs)"
    using assms by (simp add: upd_conv_take_nth_drop)
  ultimately show ?thesis by simp
qed

text \<open>Writing to an entry, with the undo record that the writers append.\<close>

definition write_undo :: "dentry list \<Rightarrow> undo_rec list \<Rightarrow> int \<Rightarrow> nat \<Rightarrow> undo_rec list" where
  "write_undo ds us c p =
     (if c > 0 \<and> d_born (ds ! p) < c
      then us @ [\<lparr>uLevel = c, entryIdx = int p, prevBornAt = d_born (ds ! p),
                  prevOp = fst (snd (ds ! p)), prevVal = fst (snd (snd (ds ! p)))\<rparr>]
      else us)"

lemma undo_write:
  assumes ok: "undo_ok ds us c" and p: "p < length ds"
  shows "undo_ok (ds[p := (fst (ds ! p), o', v, c)]) (write_undo ds us c p) c"
    "l \<le> c \<Longrightarrow> d_view (ds[p := (fst (ds ! p), o', v, c)]) (write_undo ds us c p) l = d_view ds us l"
proof -
  let ?x = "(fst (ds ! p), o', v, c)" and ?us = "write_undo ds us c p"
  let ?ds = "ds[p := ?x]"
  have c: "0 \<le> c" "sorted_wrt (\<le>) (map uLevel us)"
    "\<And>r. r \<in> set us \<Longrightarrow> 1 \<le> uLevel r \<and> uLevel r \<le> c \<and> 0 \<le> prevBornAt r \<and> 0 \<le> entryIdx r \<and> nat (entryIdx r) < length ds"
    "\<And>d. d \<in> set ds \<Longrightarrow> 0 \<le> d_born d \<and> d_born d \<le> c"
    "\<And>l r. r \<in> set us \<Longrightarrow> uLevel r < l \<Longrightarrow> d_born (d_undo l us ds ! nat (entryIdx r)) < l"
    using ok unfolding undo_ok_def by blast+
  have bp: "0 \<le> d_born (ds ! p)" "d_born (ds ! p) \<le> c" using c(4) p by simp_all
  have xb: "d_born ?x = c" by (simp add: d_born_def)
  have with_rec: "d_undo l ?us ?ds = d_undo l us ds" if "c > 0" "d_born (ds ! p) < c" "l \<le> c" for l
  proof -
    have "d_restore \<lparr>uLevel = c, entryIdx = int p, prevBornAt = d_born (ds ! p),
              prevOp = fst (snd (ds ! p)), prevVal = fst (snd (snd (ds ! p)))\<rparr> ?ds = ds"
      using p by (simp add: d_restore_def d_born_def)
    then show ?thesis using that by (simp add: write_undo_def d_undo_append d_undo_Cons)
  qed
  have no_rec: "?us = us" "d_born (ds ! p) = c" if "\<not> (c > 0 \<and> d_born (ds ! p) < c)"
    using that bp c(1) by (auto simp: write_undo_def)
  have no_rec_undo: "d_undo l us ?ds =
      (if \<exists>r \<in> set us. uLevel r \<ge> l \<and> nat (entryIdx r) = p then d_undo l us ds else (d_undo l us ds)[p := ?x])" for l
    by (rule d_undo_write [OF p]) simp
  show "d_view ?ds ?us l = d_view ds us l" if l: "l \<le> c"
  proof (cases "c > 0 \<and> d_born (ds ! p) < c")
    case True
    then show ?thesis using with_rec [of l] l by (simp add: d_view_def)
  next
    case False
    note nr = no_rec [OF False]
    show ?thesis
    proof (cases "\<exists>r \<in> set us. uLevel r \<ge> l \<and> nat (entryIdx r) = p")
      case True
      then show ?thesis using no_rec_undo nr by (simp add: d_view_def)
    next
      case none: False
      then have "d_undo l us ds ! p = ds ! p" by (intro d_undo_other) auto
      then have "filter (\<lambda>d. d_born d < l) ((d_undo l us ds)[p := ?x]) = filter (\<lambda>d. d_born d < l) (d_undo l us ds)"
        using p l nr(2) xb by (intro filter_update_out) simp_all
      then show ?thesis using none no_rec_undo [of l] nr(1) unfolding d_view_def by simp
    qed
  qed
  show "undo_ok ?ds ?us c"
    unfolding undo_ok_def
  proof (intro conjI allI impI)
    show "0 \<le> c" by (rule c(1))
    show "sorted_wrt (\<le>) (map uLevel ?us)"
      using c(2,3) by (auto simp: write_undo_def sorted_wrt_append)
    show "\<forall>r \<in> set ?us. 1 \<le> uLevel r \<and> uLevel r \<le> c \<and> 0 \<le> prevBornAt r \<and> 0 \<le> entryIdx r \<and> nat (entryIdx r) < length ?ds"
      using c(3) bp p by (auto simp: write_undo_def)
    show "\<forall>d \<in> set ?ds. 0 \<le> d_born d \<and> d_born d \<le> c"
      using c(1,4) xb set_update_subset_insert [of ds p ?x] by fastforce
    fix l r assume r: "r \<in> set ?us" "uLevel r < l"
    show "d_born (d_undo l ?us ?ds ! nat (entryIdx r)) < l"
    proof (cases "l \<le> c")
      case False
      have "\<forall>r \<in> set ?us. uLevel r < l"
      proof
        fix r assume "r \<in> set ?us"
        then have "r \<in> set us \<or> uLevel r = c" by (auto simp: write_undo_def split: if_splits)
        then have "uLevel r \<le> c" using c(3) by blast
        then show "uLevel r < l" using False by linarith
      qed
      then have u: "d_undo l ?us ?ds = ?ds" by (rule d_undo_none)
      have "nat (entryIdx r) < length ?ds" using r(1) c(3) p by (auto simp: write_undo_def split: if_splits)
      then have "?ds ! nat (entryIdx r) \<in> set ?ds" by (rule nth_mem)
      then have "d_born (?ds ! nat (entryIdx r)) \<le> c"
        using c(4) xb set_update_subset_insert [of ds p ?x] by fastforce
      then show ?thesis using u False by simp
    next
      case l: True
      have ru: "r \<in> set us" using r l by (auto simp: write_undo_def split: if_splits)
      show ?thesis
      proof (cases "c > 0 \<and> d_born (ds ! p) < c")
        case True
        then show ?thesis using with_rec [of l] l c(5) [OF ru r(2)] by simp
      next
        case False
        note nr = no_rec [OF False]
        show ?thesis
        proof (cases "\<exists>r \<in> set us. uLevel r \<ge> l \<and> nat (entryIdx r) = p")
          case True
          then show ?thesis using no_rec_undo nr c(5) [OF ru r(2)] by simp
        next
          case none: False
          then have "d_undo l us ds ! p = ds ! p" by (intro d_undo_other) auto
          then have "nat (entryIdx r) \<noteq> p" using c(5) [OF ru r(2)] nr(2) l by auto
          then show ?thesis using none no_rec_undo [of l] nr(1) c(5) [OF ru r(2)] by simp
        qed
      qed
    qed
  qed
qed

lemma undo_append:
  assumes ok: "undo_ok ds us c" and x: "d_born x = c"
  shows "undo_ok (ds @ [x]) us c" "l \<le> c \<Longrightarrow> d_view (ds @ [x]) us l = d_view ds us l"
proof -
  have c: "\<And>r. r \<in> set us \<Longrightarrow> 1 \<le> uLevel r \<and> uLevel r \<le> c \<and> 0 \<le> prevBornAt r \<and> 0 \<le> entryIdx r \<and> nat (entryIdx r) < length ds"
    using ok unfolding undo_ok_def by blast
  have u: "d_undo l us (ds @ [x]) = d_undo l us ds @ [x]" for l
    by (rule d_undo_append_entry) (use c in blast)
  show "d_view (ds @ [x]) us l = d_view ds us l" if "l \<le> c"
    using that x u by (simp add: d_view_def)
  show "undo_ok (ds @ [x]) us c"
    using ok x unfolding undo_ok_def u by (auto simp: nth_append)
qed

lemma undo_push:
  assumes ok: "undo_ok ds us c" and "c \<le> c'"
  shows "undo_ok ds us c'" "c < l \<Longrightarrow> d_view ds us l = d_map ds"
proof -
  show "undo_ok ds us c'" using assms unfolding undo_ok_def by force
  assume l: "c < l"
  have "\<forall>r \<in> set us. uLevel r < l" using ok l unfolding undo_ok_def by force
  then have u: "d_undo l us ds = ds" by (rule d_undo_none)
  have "\<forall>d \<in> set ds. d_born d < l" using ok l unfolding undo_ok_def by force
  then show "d_view ds us l = d_map ds" unfolding d_view_def u by (simp add: filter_id_conv [THEN iffD2])
qed

subsection \<open>Rollback\<close>

definition rank :: "(nat \<Rightarrow> bool) \<Rightarrow> nat \<Rightarrow> nat" where
  "rank P i = length (filter P [0..<i])"

definition sel :: "(nat \<Rightarrow> bool) \<Rightarrow> 'a list \<Rightarrow> 'a list" where
  "sel P xs = map (\<lambda>i. xs ! i) (filter P [0..<length xs])"

lemma filter_rank:
  assumes "i < n" "P i"
  shows "rank P i < length (filter P [0..<n])" "filter P [0..<n] ! rank P i = i"
proof -
  have "[0..<n] = [0..<i] @ i # [Suc i..<n]" using assms(1) by (metis less_imp_le upt_add_eq_append upt_conv_Cons le_add_diff_inverse zero_le)
  then have "filter P [0..<n] = filter P [0..<i] @ i # filter P [Suc i..<n]" using assms(2) by simp
  then show "rank P i < length (filter P [0..<n])" "filter P [0..<n] ! rank P i = i"
    by (simp_all add: rank_def nth_append)
qed

lemma rank_onto:
  assumes "j < length (filter P [0..<n])"
  shows "filter P [0..<n] ! j < n" "P (filter P [0..<n] ! j)" "rank P (filter P [0..<n] ! j) = j"
proof -
  let ?K = "filter P [0..<n]"
  have "?K ! j \<in> set ?K" using assms by (rule nth_mem)
  then show k: "?K ! j < n" "P (?K ! j)" by auto
  have "?K ! rank P (?K ! j) = ?K ! j" "rank P (?K ! j) < length ?K" using filter_rank [where P = P, OF k] by simp_all
  moreover have "distinct ?K" by simp
  ultimately show "rank P (?K ! j) = j" using assms by (simp add: nth_eq_iff_index_eq)
qed

lemma sel_nth: "i < length xs \<Longrightarrow> P i \<Longrightarrow> sel P xs ! rank P i = xs ! i"
  using filter_rank [of i "length xs" P] by (simp add: sel_def)

lemma length_sel: "length (sel P xs) = length (filter P [0..<length xs])"
  by (simp add: sel_def)

lemma sel_update:
  assumes "i < length xs" "P i"
  shows "(sel P xs)[rank P i := x] = sel P (xs[i := x])"
proof (rule nth_equalityI)
  fix j assume "j < length ((sel P xs)[rank P i := x])"
  then have j: "j < length (filter P [0..<length xs])" by (simp add: length_sel)
  note r = rank_onto [OF j]
  let ?k = "filter P [0..<length xs] ! j"
  have "j = rank P i \<longleftrightarrow> ?k = i"
    using r filter_rank [where P = P, OF assms] by metis
  then show "(sel P xs)[rank P i := x] ! j = sel P (xs[i := x]) ! j"
    using j r(1) by (auto simp: sel_def nth_list_update)
qed (simp add: length_sel)

lemma filter_as_sel: "filter Q xs = sel (\<lambda>i. Q (xs ! i)) xs"
proof -
  have "filter Q xs = filter Q (map (\<lambda>i. xs ! i) [0..<length xs])" by (simp add: map_nth)
  then show ?thesis by (simp add: sel_def filter_map comp_def)
qed

lemma d_undo_sel:
  "\<forall>r \<in> set us. nat (entryIdx r) < length ds \<and> P (nat (entryIdx r)) \<Longrightarrow>
     d_undo l (map (\<lambda>r. r\<lparr>entryIdx := int (rank P (nat (entryIdx r)))\<rparr>) us) (sel P ds) = sel P (d_undo l us ds)"
proof (induction us)
  case (Cons r us)
  let ?i = "nat (entryIdx r)" and ?X = "d_undo l us ds"
  have i: "?i < length ?X" "P ?i" using Cons.prems by simp_all
  have "d_restore (r\<lparr>entryIdx := int (rank P ?i)\<rparr>) (sel P ?X) = sel P (d_restore r ?X)"
    using sel_update [where P = P, OF i] sel_nth [where P = P, OF i] by (simp add: d_restore_def)
  then show ?case using Cons by (simp add: d_undo_Cons)
qed simp

lemma sel_filter:
  assumes "\<forall>i < length xs. Q (xs ! i) \<longrightarrow> P i"
  shows "filter Q (sel P xs) = filter Q xs"
proof -
  have "filter Q (sel P xs) = map (\<lambda>i. xs ! i) (filter (\<lambda>i. Q (xs ! i)) (filter P [0..<length xs]))"
    by (simp add: sel_def filter_map comp_def)
  also have "filter (\<lambda>i. Q (xs ! i)) (filter P [0..<length xs]) = filter (\<lambda>i. Q (xs ! i)) [0..<length xs]"
    unfolding filter_filter by (rule filter_cong [OF refl]) (use assms in auto)
  also have "map (\<lambda>i. xs ! i) \<dots> = filter Q xs" by (simp only: filter_as_sel [of Q xs] sel_def)
  finally show ?thesis .
qed

lemma sorted_level_split:
  "sorted_wrt (\<le>) (map f us) \<Longrightarrow> us = filter (\<lambda>r. f r < L) us @ filter (\<lambda>r. L \<le> (f r :: int)) us"
proof (induction us)
  case (Cons r us)
  show ?case
  proof (cases "f r < L")
    case True
    then show ?thesis using Cons by simp
  next
    case False
    then have "\<forall>x \<in> set us. \<not> f x < L" using Cons.prems by auto
    then have "filter (\<lambda>r. f r < L) us = []" "filter (\<lambda>r. L \<le> f r) us = us"
      by (auto simp: filter_empty_conv filter_id_conv not_less)
    then show ?thesis using False by simp
  qed
qed simp

lemma d_undo_split:
  assumes "sorted_wrt (\<le>) (map uLevel us)" "l \<le> L"
  shows "d_undo l us ds = d_undo l (filter (\<lambda>r. uLevel r < L) us) (d_undo L us ds)"
proof -
  let ?hi = "filter (\<lambda>r. L \<le> uLevel r) us"
  have "d_undo l ?hi ds = d_undo L ?hi ds"
  proof -
    have "\<forall>r \<in> set vs. L \<le> uLevel r \<Longrightarrow> d_undo l vs ds = d_undo L vs ds" for vs
      by (induction vs) (use assms(2) in \<open>auto simp: d_undo_Cons\<close>)
    then show ?thesis by simp
  qed
  also have "\<dots> = d_undo L us ds" by (rule d_undo_filter)
  finally have hi: "d_undo l ?hi ds = d_undo L us ds" .
  have "d_undo l us ds = d_undo l (filter (\<lambda>r. uLevel r < L) us @ ?hi) ds"
    using sorted_level_split [OF assms(1)] by metis
  then show ?thesis by (simp add: d_undo_append hi)
qed

lemma d_undo_born_nonneg:
  "\<forall>r \<in> set us. 0 \<le> prevBornAt r \<Longrightarrow> \<forall>d \<in> set ds. 0 \<le> d_born d \<Longrightarrow> d \<in> set (d_undo l us ds) \<Longrightarrow> 0 \<le> d_born d"
proof (induction us arbitrary: d)
  case (Cons r us)
  show ?case
  proof (cases "uLevel r \<ge> l")
    case True
    then have "d \<in> set (d_restore r (d_undo l us ds))" using Cons.prems(3) by (simp add: d_undo_Cons)
    then have "d \<in> insert (fst (d_undo l us ds ! nat (entryIdx r)), prevOp r, prevVal r, prevBornAt r)
        (set (d_undo l us ds))"
      unfolding d_restore_def using set_update_subset_insert by fastforce
    then show ?thesis using Cons.prems(1,2) Cons.IH [of d] by (cases "d \<in> set (d_undo l us ds)") simp_all
  next
    case False
    then show ?thesis using Cons by (simp add: d_undo_Cons)
  qed
qed simp

definition kept :: "dentry list \<Rightarrow> undo_rec list \<Rightarrow> int \<Rightarrow> nat \<Rightarrow> bool" where
  "kept ds us L i \<longleftrightarrow> d_born (d_undo L us ds ! i) < L"

definition rollback_ds :: "dentry list \<Rightarrow> undo_rec list \<Rightarrow> int \<Rightarrow> dentry list" where
  "rollback_ds ds us L = filter (\<lambda>d. d_born d < L) (d_undo L us ds)"

definition rollback_us :: "dentry list \<Rightarrow> undo_rec list \<Rightarrow> int \<Rightarrow> undo_rec list" where
  "rollback_us ds us L = map (\<lambda>r. r\<lparr>entryIdx := int (rank (kept ds us L) (nat (entryIdx r)))\<rparr>)
     (filter (\<lambda>r. uLevel r < L) us)"

lemma undo_rollback:
  assumes ok: "undo_ok ds us c" and L: "1 \<le> L"
  shows "undo_ok (rollback_ds ds us L) (rollback_us ds us L) (L - 1)"
    "l \<le> L - 1 \<Longrightarrow> d_view (rollback_ds ds us L) (rollback_us ds us L) l = d_view ds us l"
    "r \<in> set us \<Longrightarrow> uLevel r < L \<Longrightarrow> kept ds us L (nat (entryIdx r))"
proof -
  have c: "sorted_wrt (\<le>) (map uLevel us)"
    "\<And>r. r \<in> set us \<Longrightarrow> 1 \<le> uLevel r \<and> uLevel r \<le> c \<and> 0 \<le> prevBornAt r \<and> 0 \<le> entryIdx r \<and> nat (entryIdx r) < length ds"
    "\<And>d. d \<in> set ds \<Longrightarrow> 0 \<le> d_born d \<and> d_born d \<le> c"
    "\<And>l r. r \<in> set us \<Longrightarrow> uLevel r < l \<Longrightarrow> d_born (d_undo l us ds ! nat (entryIdx r)) < l"
    using ok unfolding undo_ok_def by blast+
  let ?P = "kept ds us L" and ?ds1 = "d_undo L us ds" and ?U = "filter (\<lambda>r. uLevel r < L) us"
  show k: "kept ds us L (nat (entryIdx r))" if "r \<in> set us" "uLevel r < L" for r
    unfolding kept_def by (rule c(4) [OF that])
  have ds': "rollback_ds ds us L = sel ?P ?ds1"
    by (simp add: rollback_ds_def filter_as_sel kept_def [abs_def])
  have und: "d_undo l (rollback_us ds us L) (rollback_ds ds us L) = sel ?P (d_undo l ?U ?ds1)" for l
    unfolding ds' rollback_us_def by (rule d_undo_sel) (use c(2) k in auto)
  have low: "d_undo l ?U ?ds1 = d_undo l us ds" if "l \<le> L" for l
    by (rule d_undo_split [symmetric, OF c(1) that])
  show "d_view (rollback_ds ds us L) (rollback_us ds us L) l = d_view ds us l" if l: "l \<le> L - 1" for l
  proof -
    let ?X = "d_undo l us ds"
    have "?P i" if "i < length ?X" "d_born (?X ! i) < l" for i
    proof (rule ccontr)
      assume n: "\<not> ?P i"
      then have "\<forall>r \<in> set ?U. uLevel r \<ge> l \<longrightarrow> nat (entryIdx r) \<noteq> i" using k by auto
      then have "d_undo l ?U ?ds1 ! i = ?ds1 ! i" by (rule d_undo_other)
      then have "?X ! i = ?ds1 ! i" using low [of l] l by simp
      then show False using n that(2) l by (simp add: kept_def)
    qed
    then have "filter (\<lambda>d. d_born d < l) (sel ?P ?X) = filter (\<lambda>d. d_born d < l) ?X"
      by (intro sel_filter) blast
    then show ?thesis unfolding d_view_def und using low [of l] l by simp
  qed
  have nn: "0 \<le> d_born d" if "d \<in> set ?ds1" for d
    using d_undo_born_nonneg [OF _ _ that] c(2,3) by blast
  show "undo_ok (rollback_ds ds us L) (rollback_us ds us L) (L - 1)"
    unfolding undo_ok_def
  proof (intro conjI allI impI)
    show "0 \<le> L - 1" using L by simp
    have "map uLevel (rollback_us ds us L) = map uLevel ?U" by (simp add: rollback_us_def)
    then show "sorted_wrt (\<le>) (map uLevel (rollback_us ds us L))"
      using c(1) by (simp add: sorted_wrt_map sorted_wrt_filter)
    show "\<forall>r \<in> set (rollback_us ds us L). 1 \<le> uLevel r \<and> uLevel r \<le> L - 1 \<and> 0 \<le> prevBornAt r \<and> 0 \<le> entryIdx r
        \<and> nat (entryIdx r) < length (rollback_ds ds us L)"
      unfolding rollback_us_def ds' length_sel using c(2) k filter_rank(1) [where P = ?P] by fastforce
    show "\<forall>d \<in> set (rollback_ds ds us L). 0 \<le> d_born d \<and> d_born d \<le> L - 1"
      unfolding rollback_ds_def using nn by auto
    fix l r' assume r': "r' \<in> set (rollback_us ds us L)" "uLevel r' < l"
    then obtain r where r: "r \<in> set us" "uLevel r < L" "uLevel r' = uLevel r"
      "nat (entryIdx r') = rank ?P (nat (entryIdx r))"
      by (auto simp: rollback_us_def)
    have i: "nat (entryIdx r) < length (d_undo l ?U ?ds1)" "?P (nat (entryIdx r))" using c(2) k r(1,2) by simp_all
    have e: "d_undo l (rollback_us ds us L) (rollback_ds ds us L) ! nat (entryIdx r') = d_undo l ?U ?ds1 ! nat (entryIdx r)"
      unfolding und r(4) by (rule sel_nth [where P = ?P, OF i])
    show "d_born (d_undo l (rollback_us ds us L) (rollback_ds ds us L) ! nat (entryIdx r')) < l"
    proof (cases "l \<le> L")
      case True
      then show ?thesis unfolding e low [OF True] using c(4) r r'(2) by simp
    next
      case False
      then have "d_undo l ?U ?ds1 = ?ds1" by (intro d_undo_none) auto
      then show ?thesis unfolding e using i(2) False by (simp add: kept_def)
    qed
  qed
qed

subsection \<open>Release\<close>

definition release_us :: "undo_rec list \<Rightarrow> int \<Rightarrow> undo_rec list" where
  "release_us us L = map (\<lambda>r. if uLevel r \<ge> L then r\<lparr>uLevel := L - 1\<rparr> else r) us"

definition release_ds :: "dentry list \<Rightarrow> int \<Rightarrow> dentry list" where
  "release_ds ds L = map (\<lambda>d. if d_born d \<ge> L then (fst d, fst (snd d), fst (snd (snd d)), L - 1) else d) ds"

definition rel_dent :: "int \<Rightarrow> dentry \<Rightarrow> dentry \<Rightarrow> bool" where
  "rel_dent L d d' \<longleftrightarrow> d' = d \<or> (d_born d \<ge> L \<and> d_born d' = L - 1 \<and> fst d' = fst d)"

lemma release_rel: "list_all2 (rel_dent L) ds (release_ds ds L)"
  by (simp add: list_all2_conv_all_nth release_ds_def rel_dent_def d_born_def)

lemma d_undo_release_rel:
  assumes "l \<le> L - 1" "\<forall>r \<in> set us. nat (entryIdx r) < length ds"
  shows "list_all2 (rel_dent L) (d_undo l us ds) (d_undo l (release_us us L) (release_ds ds L))"
  using assms(2)
proof (induction us)
  case Nil
  then show ?case by (simp add: release_us_def release_rel)
next
  case (Cons r us)
  let ?X = "d_undo l us ds" and ?Y = "d_undo l (release_us us L) (release_ds ds L)"
  let ?r = "if uLevel r \<ge> L then r\<lparr>uLevel := L - 1\<rparr> else r"
  have ih: "list_all2 (rel_dent L) ?X ?Y" using Cons by simp
  have lv: "uLevel ?r \<ge> l \<longleftrightarrow> uLevel r \<ge> l" using assms(1) by auto
  have i: "nat (entryIdx r) < length ?X" using Cons.prems by simp
  have "fst (?Y ! nat (entryIdx r)) = fst (?X ! nat (entryIdx r))"
    using list_all2_nthD [OF ih i] by (auto simp: rel_dent_def)
  then have "rel_dent L (fst (?X ! nat (entryIdx r)), prevOp r, prevVal r, prevBornAt r)
      (fst (?Y ! nat (entryIdx r)), prevOp r, prevVal r, prevBornAt r)"
    by (simp add: rel_dent_def)
  moreover have "entryIdx ?r = entryIdx r" "prevOp ?r = prevOp r" "prevVal ?r = prevVal r" "prevBornAt ?r = prevBornAt r"
    by simp_all
  ultimately have "list_all2 (rel_dent L) (d_restore r ?X) (d_restore ?r ?Y)"
    unfolding d_restore_def by (simp only: list_all2_update_cong [OF ih])
  then show ?case using ih lv by (simp add: d_undo_Cons release_us_def)
qed

lemma filter_rel_dent:
  "list_all2 (rel_dent L) xs ys \<Longrightarrow> l \<le> L - 1 \<Longrightarrow>
     filter (\<lambda>d. d_born d < l) ys = filter (\<lambda>d. d_born d < l) xs"
  by (induction xs ys rule: list_all2_induct) (auto simp: rel_dent_def)

lemma d_map_release: "d_map (release_ds ds L) = d_map ds"
proof -
  have "map (\<lambda>d. (fst d, fst (snd d), fst (snd (snd d)))) (release_ds ds L) =
      map (\<lambda>d. (fst d, fst (snd d), fst (snd (snd d)))) ds"
    by (simp add: release_ds_def)
  then show ?thesis by (simp only: d_map_def)
qed

lemma undo_release:
  assumes ok: "undo_ok ds us c" and L: "2 \<le> L"
  shows "undo_ok (release_ds ds L) (release_us us L) (L - 1)"
    "l \<le> L - 1 \<Longrightarrow> d_view (release_ds ds L) (release_us us L) l = d_view ds us l"
proof -
  have c: "sorted_wrt (\<le>) (map uLevel us)"
    "\<And>r. r \<in> set us \<Longrightarrow> 1 \<le> uLevel r \<and> uLevel r \<le> c \<and> 0 \<le> prevBornAt r \<and> 0 \<le> entryIdx r \<and> nat (entryIdx r) < length ds"
    "\<And>d. d \<in> set ds \<Longrightarrow> 0 \<le> d_born d \<and> d_born d \<le> c"
    "\<And>l r. r \<in> set us \<Longrightarrow> uLevel r < l \<Longrightarrow> d_born (d_undo l us ds ! nat (entryIdx r)) < l"
    using ok unfolding undo_ok_def by blast+
  have idx: "\<forall>r \<in> set us. nat (entryIdx r) < length ds" using c(2) by blast
  note rel = d_undo_release_rel [OF _ idx, of _ L]
  show "d_view (release_ds ds L) (release_us us L) l = d_view ds us l" if "l \<le> L - 1"
    unfolding d_view_def using filter_rel_dent [OF rel [OF that] that] by simp
  have lev: "uLevel r \<le> L - 1" if "r \<in> set (release_us us L)" for r
    using that by (auto simp: release_us_def split: if_splits)
  have born: "0 \<le> d_born d \<and> d_born d \<le> L - 1" if d: "d \<in> set (release_ds ds L)" for d
  proof -
    obtain d0 where d0: "d0 \<in> set ds" "d = (if d_born d0 \<ge> L then (fst d0, fst (snd d0), fst (snd (snd d0)), L - 1) else d0)"
      using d unfolding release_ds_def set_map by blast
    then show ?thesis using c(3) [OF d0(1)] L by (cases "d_born d0 \<ge> L") simp_all
  qed
  show "undo_ok (release_ds ds L) (release_us us L) (L - 1)"
    unfolding undo_ok_def
  proof (intro conjI allI impI)
    show "0 \<le> L - 1" using L by simp
    have "map uLevel (release_us us L) = map (\<lambda>v. if v \<ge> L then L - 1 else v) (map uLevel us)"
      by (simp add: release_us_def)
    then show "sorted_wrt (\<le>) (map uLevel (release_us us L))"
      using c(1) by (simp only: sorted_wrt_map) (erule sorted_wrt_mono_rel [rotated], auto)
    show "\<forall>r \<in> set (release_us us L). 1 \<le> uLevel r \<and> uLevel r \<le> L - 1 \<and> 0 \<le> prevBornAt r \<and> 0 \<le> entryIdx r
        \<and> nat (entryIdx r) < length (release_ds ds L)"
      using c(2) L by (auto simp: release_us_def release_ds_def)
    show "\<forall>d \<in> set (release_ds ds L). 0 \<le> d_born d \<and> d_born d \<le> L - 1" using born by blast
    fix l r' assume r': "r' \<in> set (release_us us L)" "uLevel r' < l"
    then obtain r where r: "r \<in> set us" "r' = (if uLevel r \<ge> L then r\<lparr>uLevel := L - 1\<rparr> else r)"
      by (auto simp: release_us_def)
    have ie: "entryIdx r' = entryIdx r" using r(2) by simp
    have i: "nat (entryIdx r) < length ds" using idx r(1) by blast
    show "d_born (d_undo l (release_us us L) (release_ds ds L) ! nat (entryIdx r')) < l"
    proof (cases "l \<le> L - 1")
      case True
      then have "uLevel r < l" using r r'(2) by (auto split: if_splits)
      then have b: "d_born (d_undo l us ds ! nat (entryIdx r)) < l" using c(4) r(1) by blast
      have "rel_dent L (d_undo l us ds ! nat (entryIdx r))
          (d_undo l (release_us us L) (release_ds ds L) ! nat (entryIdx r))"
        by (rule list_all2_nthD [OF rel [OF True]]) (use i in simp)
      then show ?thesis using b True ie by (auto simp: rel_dent_def)
    next
      case False
      then have "\<forall>r \<in> set (release_us us L). uLevel r < l" using lev by fastforce
      then have "d_undo l (release_us us L) (release_ds ds L) = release_ds ds L" by (rule d_undo_none)
      moreover have "release_ds ds L ! nat (entryIdx r') \<in> set (release_ds ds L)"
        by (rule nth_mem) (use i ie in \<open>simp add: release_ds_def\<close>)
      ultimately show ?thesis using born False by fastforce
    qed
  qed
qed

section \<open>The map's entries, decoded\<close>

definition dent :: "mutmap \<Rightarrow> mm_entry \<Rightarrow> dentry" where
  "dent mm e = (eKey e, op e, eVal e, decodeLevel mm (bornAt e))"

definition dents :: "mutmap \<Rightarrow> dentry list" where
  "dents mm = map (dent mm) (aEntries mm)"

definition mm_ok :: "mutmap \<Rightarrow> bool" where
  "mm_ok mm \<longleftrightarrow> mm_inv mm \<and> 0 \<le> levelBase mm \<and> undo_ok (dents mm) (aUndo mm) (currentSavepointLevel mm)"

text \<open>The map a rollback to \<open>l\<close> restores.\<close>

definition mm_view :: "mutmap \<Rightarrow> int \<Rightarrow> byte list \<rightharpoonup> edit_op \<times> byte list" where
  "mm_view mm l = d_view (dents mm) (aUndo mm) l"

lemma d_map_dents: "d_map (dents mm) = mm_abs mm"
  by (simp add: d_map_def dents_def mm_abs_def dent_def comp_def)

lemma length_dents [simp]: "length (dents mm) = nEntries mm"
  by (simp add: dents_def nEntries_def)

lemma dents_nth: "p < nEntries mm \<Longrightarrow> dents mm ! p = dent mm (aEntries mm ! p)"
  by (simp add: dents_def nEntries_def)

text \<open>
  The levels stay in the range of an \<open>int\<close>: \<open>M\<close> bounds the levels, and \<open>n\<close> the releases that are still to come, each of
  which can move the base by one.
\<close>

definition lev_ok :: "int \<Rightarrow> nat \<Rightarrow> mutmap \<Rightarrow> bool" where
  "lev_ok M n mm \<longleftrightarrow> levelBase mm + M + int n < 2147483648 \<and> currentSavepointLevel mm \<le> M \<and>
     (\<forall>r \<in> set (aUndo mm). prevBornAt r \<le> M)"

lemma lev_ok_less: "lev_ok M n mm \<Longrightarrow> m \<le> n \<Longrightarrow> lev_ok M m mm"
  by (auto simp: lev_ok_def)

lemma decode_encode [simp]:
  "0 \<le> levelBase mm \<Longrightarrow> 0 \<le> l \<Longrightarrow> l + levelBase mm < 2147483648 \<Longrightarrow> decodeLevel mm (encodeLevel mm l) = l"
  by (auto simp: encodeLevel_def decodeLevel_def)

lemma decodeLevel_nonneg [simp]: "0 \<le> levelBase mm \<Longrightarrow> 0 \<le> decodeLevel mm s"
  by (auto simp: decodeLevel_def)

lemma mm_ok_init: "mm_ok (prollyMutMapInitMode isInt keep)"
  using mm_inv_init by (simp add: mm_ok_def undo_ok_def) (simp add: prollyMutMapInitMode_def dents_def)

lemma decodeLevel_cong: "levelBase mm' = levelBase mm \<Longrightarrow> decodeLevel mm' = decodeLevel mm"
  by (simp add: decodeLevel_def fun_eq_iff)

lemma dent_cong: "levelBase mm' = levelBase mm \<Longrightarrow> dent mm' = dent mm"
  by (simp add: dent_def fun_eq_iff decodeLevel_def)

section \<open>Writes\<close>

lemma undo_if_older_bound:
  "r \<in> set (aUndo (undo_if_older mm p)) \<Longrightarrow> r \<in> set (aUndo mm) \<or> prevBornAt r < currentSavepointLevel mm"
  by (auto simp: undo_if_older_def appendUndoRec_def Let_def split: if_splits)

lemma wrote_ok:
  assumes ok: "mm_ok mm" and inv': "mm_inv mm'" and ctx: "same_context mm mm'" and w: "wrote mm mm' k o' v"
    and lev: "lev_ok M n mm"
  shows "mm_ok mm'" "l \<le> currentSavepointLevel mm \<Longrightarrow> mm_view mm' l = mm_view mm l" "lev_ok M n mm'"
proof -
  let ?c = "currentSavepointLevel mm"
  have u: "undo_ok (dents mm) (aUndo mm) ?c" and b: "0 \<le> levelBase mm" and c: "0 \<le> ?c"
    using ok by (simp_all add: mm_ok_def undo_ok_def)
  have ctx': "levelBase mm' = levelBase mm" "currentSavepointLevel mm' = ?c" using ctx by (simp_all add: same_context_def)
  have de: "dent mm' = dent mm" by (rule dent_cong [OF ctx'(1)])
  have enc: "decodeLevel mm (encodeLevel mm ?c) = ?c" using b c lev by (simp add: lev_ok_def)
  have "r \<in> set (aUndo mm) \<or> prevBornAt r < ?c" if "r \<in> set (aUndo mm')" for r
    using w that undo_if_older_bound [of r mm] unfolding wrote_def by auto
  then show "lev_ok M n mm'" using lev ctx' unfolding lev_ok_def by force
  have goal: "mm_ok mm' \<and> (l \<le> ?c \<longrightarrow> mm_view mm' l = mm_view mm l)"
    using w unfolding wrote_def
  proof (elim disjE exE conjE)
    fix p assume p: "p < nEntries mm" "eKey (aEntries mm ! p) = k"
      and es: "aEntries mm' = (aEntries mm)[p := (aEntries mm ! p)\<lparr>op := o', eVal := v, bornAt := encodeLevel mm ?c\<rparr>]"
      and us: "aUndo mm' = aUndo (undo_if_older mm p)"
    have ds: "dents mm' = (dents mm)[p := (fst (dents mm ! p), o', v, ?c)]"
      using p enc by (simp add: dents_def de es map_update dent_def nEntries_def)
    have "aUndo mm' = write_undo (dents mm) (aUndo mm) ?c p"
      using p(1) by (simp add: us undo_if_older_def appendUndoRec_def write_undo_def Let_def dents_nth dent_def)
    then show ?thesis
      using undo_write [OF u, where p = p and o' = o' and v = v] p(1) ds inv' b ctx' by (simp add: mm_ok_def mm_view_def)
  next
    assume us: "aUndo mm' = aUndo mm"
      and es: "aEntries mm' = aEntries mm @ [copyEntryData o' (encodeLevel mm ?c) k v]"
    have ds: "dents mm' = dents mm @ [(k, o', v, ?c)]"
      using enc by (simp add: dents_def de es copyEntryData_def dent_def)
    then show ?thesis
      using undo_append [OF u, where x = "(k, o', v, ?c)"] us inv' b ctx' by (simp add: mm_ok_def mm_view_def)
  qed
  then show "mm_ok mm'" "l \<le> ?c \<Longrightarrow> mm_view mm' l = mm_view mm l" by simp_all
qed

section \<open>Pushing\<close>

lemma push_ok:
  assumes ok: "mm_ok mm" and c: "currentSavepointLevel mm \<le> c'"
  shows "mm_ok (prollyMutMapPushSavepoint mm c')" "mm_abs (prollyMutMapPushSavepoint mm c') = mm_abs mm"
    "mm_view (prollyMutMapPushSavepoint mm c') l = mm_view mm l"
    "currentSavepointLevel mm < l \<Longrightarrow> mm_view mm l = mm_abs mm"
proof -
  let ?mm = "prollyMutMapPushSavepoint mm c'"
  have u: "undo_ok (dents mm) (aUndo mm) (currentSavepointLevel mm)" using ok by (simp add: mm_ok_def)
  have d: "dents ?mm = dents mm"
    using dent_cong [of ?mm mm] by (simp add: dents_def prollyMutMapPushSavepoint_def)
  have inv: "mm_inv ?mm" by (rule mm_inv_same_keys [of mm]) (use ok in \<open>simp_all add: mm_ok_def prollyMutMapPushSavepoint_def\<close>)
  show "mm_ok ?mm"
    using inv ok undo_push(1) [OF u c] d by (simp add: mm_ok_def) (simp add: prollyMutMapPushSavepoint_def)
  show "mm_abs ?mm = mm_abs mm" by (simp add: mm_abs_def prollyMutMapPushSavepoint_def)
  show "mm_view ?mm l = mm_view mm l" using d by (simp add: mm_view_def) (simp add: prollyMutMapPushSavepoint_def)
  show "mm_view mm l = mm_abs mm" if "currentSavepointLevel mm < l"
    using undo_push(2) [OF u order_refl that] by (simp add: mm_view_def d_map_dents)
qed

section \<open>Releasing\<close>

lemma release_ok:
  assumes ok: "mm_ok mm" and L: "1 \<le> L" "L \<le> currentSavepointLevel mm" "L = 1 \<longrightarrow> currentSavepointLevel mm = 1"
    and lev: "lev_ok M (Suc n) mm"
  shows "mm_ok (prollyMutMapReleaseSavepoint mm L)" "mm_abs (prollyMutMapReleaseSavepoint mm L) = mm_abs mm"
    "1 \<le> l \<Longrightarrow> l < L \<Longrightarrow> mm_view (prollyMutMapReleaseSavepoint mm L) l = mm_view mm l"
    "currentSavepointLevel (prollyMutMapReleaseSavepoint mm L) = L - 1" "lev_ok M n (prollyMutMapReleaseSavepoint mm L)"
proof -
  let ?mm = "prollyMutMapReleaseSavepoint mm L"
  have u: "undo_ok (dents mm) (aUndo mm) (currentSavepointLevel mm)" and b: "0 \<le> levelBase mm"
    using ok by (simp_all add: mm_ok_def)
  have kp: "map key_part (aEntries ?mm) = map key_part (aEntries mm)"
    by (simp add: prollyMutMapReleaseSavepoint_def Let_def key_part_def)
  have inv: "mm_inv ?mm"
    by (rule mm_inv_same_keys [OF _ kp]) (use ok in \<open>simp_all add: mm_ok_def prollyMutMapReleaseSavepoint_def Let_def\<close>)
  show cur: "currentSavepointLevel ?mm = L - 1" by (simp add: prollyMutMapReleaseSavepoint_def Let_def)
  have enc: "L - 1 + levelBase mm < 2147483648" using b L lev unfolding lev_ok_def by linarith
  have lb1: "int32 (levelBase mm + 1) = levelBase mm + 1"
    using b L lev unfolding lev_ok_def by (intro int32_id) linarith+
  have "levelBase ?mm \<le> levelBase mm + 1" using lb1 by (simp add: prollyMutMapReleaseSavepoint_def Let_def)
  moreover have "\<forall>r \<in> set (aUndo ?mm). \<exists>r' \<in> set (aUndo mm). prevBornAt r = prevBornAt r'"
    by (auto simp: prollyMutMapReleaseSavepoint_def Let_def)
  ultimately show "lev_ok M n ?mm" using lev cur L unfolding lev_ok_def by auto
  show "mm_abs ?mm = mm_abs mm"
  proof -
    have "map (\<lambda>e. (eKey e, op e, eVal e)) (aEntries ?mm) = map (\<lambda>e. (eKey e, op e, eVal e)) (aEntries mm)"
      by (simp add: prollyMutMapReleaseSavepoint_def Let_def)
    then show ?thesis by (simp only: mm_abs_def)
  qed
  show "mm_ok ?mm"
  proof (cases "L = 1")
    case True
    have le1: "d_born d \<le> 1" if "d \<in> set (dents mm)" for d
      using u L(3) True that unfolding undo_ok_def by auto
    have "d_born d = 0" if d: "d \<in> set (dents ?mm)" for d
    proof -
      obtain e where e: "e \<in> set (aEntries mm)" "d = dent ?mm e"
        using d True by (auto simp: dents_def prollyMutMapReleaseSavepoint_def)
      have "decodeLevel mm (bornAt e) \<le> 1" using le1 [of "dent mm e"] e(1) by (simp add: dents_def dent_def)
      then show ?thesis
        using e(2) True b lb1 by (auto simp: dent_def decodeLevel_def prollyMutMapReleaseSavepoint_def split: if_splits)
    qed
    then show ?thesis
      using inv b True cur lb1 by (simp add: mm_ok_def undo_ok_def) (simp add: prollyMutMapReleaseSavepoint_def)
  next
    case False
    then have L2: "2 \<le> L" using L(1) by simp
    have us: "aUndo ?mm = release_us (aUndo mm) L"
      using False L2 by (simp add: prollyMutMapReleaseSavepoint_def release_us_def Let_def)
    have lb: "levelBase ?mm = levelBase mm"
      using False by (simp add: prollyMutMapReleaseSavepoint_def Let_def)
    have ds: "dents ?mm = release_ds (dents mm) L"
      using False L2 b enc dent_cong [OF lb]
      by (auto simp add: dents_def release_ds_def dent_def prollyMutMapReleaseSavepoint_def Let_def)
    show ?thesis using undo_release(1) [OF u L2] inv lb b us ds cur by (simp add: mm_ok_def)
  qed
  show "mm_view ?mm l = mm_view mm l" if "1 \<le> l" "l < L"
  proof -
    have L2: "2 \<le> L" and False: "L \<noteq> 1" using that by simp_all
    have us: "aUndo ?mm = release_us (aUndo mm) L"
      using False L2 by (simp add: prollyMutMapReleaseSavepoint_def release_us_def Let_def)
    have lb: "levelBase ?mm = levelBase mm"
      using False by (simp add: prollyMutMapReleaseSavepoint_def Let_def)
    have ds: "dents ?mm = release_ds (dents mm) L"
      using False L2 b enc dent_cong [OF lb]
      by (auto simp add: dents_def release_ds_def dent_def prollyMutMapReleaseSavepoint_def Let_def)
    show ?thesis using undo_release(2) [OF u L2, of l] that us ds by (simp add: mm_view_def)
  qed
qed

section \<open>Rolling back\<close>

lemma compact_eq:
  "compact mm lev newN es =
     (map (\<lambda>i. if decodeLevel mm (bornAt (es ! i)) < lev
               then int (newN + rank (\<lambda>i. decodeLevel mm (bornAt (es ! i)) < lev) i) else -1) [0..<length es],
      filter (\<lambda>e. decodeLevel mm (bornAt e) < lev) es)"
proof (induction es arbitrary: newN)
  case (Cons e es)
  have up: "[0..<Suc n] = 0 # map Suc [0..<n]" for n by (simp add: map_Suc_upt upt_conv_Cons)
  have r: "rank P (Suc i) = (if P 0 then 1 else 0) + rank (\<lambda>i. P (Suc i)) i" for P i
    unfolding rank_def up by (simp add: filter_map comp_def)
  have r0: "rank P 0 = 0" for P by (simp add: rank_def)
  show ?case
    unfolding compact.simps Cons.IH length_Cons up
    by (auto simp: Let_def r r0 comp_def not_less)
qed simp

lemma undo_loop_correct:
  assumes "mm_inv mm" "0 \<le> levelBase mm" "sorted_wrt (\<le>) (map uLevel (aUndo mm))"
    "\<forall>r \<in> set (aUndo mm). prevBornAt r + levelBase mm < 2147483648 \<and> 0 \<le> prevBornAt r \<and> 0 \<le> entryIdx r \<and> nat (entryIdx r) < nEntries mm"
  shows "\<exists>es. undo_loop mm L = mm\<lparr>aEntries := es, aUndo := filter (\<lambda>r. uLevel r < L) (aUndo mm)\<rparr> \<and>
     mm_inv (mm\<lparr>aEntries := es, aUndo := filter (\<lambda>r. uLevel r < L) (aUndo mm)\<rparr>) \<and>
     map (dent mm) es = d_undo L (aUndo mm) (dents mm)"
  using assms
proof (induction mm L rule: undo_loop.induct)
  case (1 mm L)
  note p = "1.prems"
  show ?case
  proof (cases "aUndo mm \<noteq> [] \<and> uLevel (last (aUndo mm)) \<ge> L")
    case False
    have all: "\<forall>r \<in> set (aUndo mm). uLevel r < L"
    proof
      fix r assume r: "r \<in> set (aUndo mm)"
      then have ne: "aUndo mm \<noteq> []" by auto
      have "uLevel r \<le> uLevel (last (aUndo mm))"
      proof (cases "r = last (aUndo mm)")
        case n: False
        have s: "aUndo mm = butlast (aUndo mm) @ [last (aUndo mm)]" using ne by simp
        then have "r \<in> set (butlast (aUndo mm))" using r n by (metis Un_iff empty_iff insert_iff list.set(1) list.simps(15) set_append)
        moreover have "sorted_wrt (\<le>) (map uLevel (butlast (aUndo mm)) @ [uLevel (last (aUndo mm))])"
          using p(3) s by (metis list.map(1) list.map(2) map_append)
        ultimately show ?thesis by (auto simp: sorted_wrt_append)
      qed simp
      then show "uLevel r < L" using False ne by simp
    qed
    then have f: "filter (\<lambda>r. uLevel r < L) (aUndo mm) = aUndo mm" by (simp add: filter_id_conv)
    have "undo_loop mm L = mm" by (subst undo_loop.simps) (use False in auto)
    then show ?thesis using d_undo_none [OF all] p(1) f by (intro exI [of _ "aEntries mm"]) (simp add: dents_def)
  next
    case True
    define r where "r = last (aUndo mm)"
    define vs where "vs = butlast (aUndo mm)"
    have us: "aUndo mm = vs @ [r]" using True by (simp add: r_def vs_def)
    have ri: "0 \<le> prevBornAt r" "0 \<le> entryIdx r" "nat (entryIdx r) < nEntries mm" "prevBornAt r + levelBase mm < 2147483648"
      using p(4) us by simp_all
    have rl: "L \<le> uLevel r" using True by (simp add: r_def)
    let ?i = "nat (entryIdx r)"
    define e where "e = (aEntries mm ! ?i)\<lparr>op := prevOp r, bornAt := encodeLevel mm (prevBornAt r), eVal := prevVal r\<rparr>"
    define mm1 where "mm1 = mm\<lparr>aEntries := (aEntries mm)[?i := e], aUndo := vs\<rparr>"
    have inv1: "mm_inv mm1" unfolding mm1_def by (rule mm_inv_update [OF p(1) ri(3)]) (simp_all add: e_def)
    have n1: "nEntries mm1 = nEntries mm" by (simp add: mm1_def nEntries_def)
    have de: "dent mm1 = dent mm" by (rule dent_cong) (simp add: mm1_def)
    have step: "undo_loop mm L = undo_loop mm1 L"
    proof -
      have "entryIdx r < int (nEntries mm)" using ri(2,3) by linarith
      then show ?thesis
        using True ri by (subst undo_loop.simps) (simp add: Let_def r_def [symmetric] vs_def [symmetric] mm1_def e_def)
    qed
    have eq1: "mm\<lparr>aEntries := (if 0 \<le> entryIdx (last (aUndo mm)) \<and> entryIdx (last (aUndo mm)) < int (nEntries mm)
        then (aEntries mm)[nat (entryIdx (last (aUndo mm))) := (aEntries mm ! nat (entryIdx (last (aUndo mm))))
           \<lparr>op := prevOp (last (aUndo mm)), bornAt := encodeLevel mm (prevBornAt (last (aUndo mm))),
             eVal := prevVal (last (aUndo mm))\<rparr>] else aEntries mm), aUndo := butlast (aUndo mm)\<rparr> = mm1"
      using ri unfolding r_def [symmetric] vs_def [symmetric] by (auto simp: mm1_def e_def)
    obtain es where es: "undo_loop mm1 L = mm1\<lparr>aEntries := es, aUndo := filter (\<lambda>r. uLevel r < L) (aUndo mm1)\<rparr>"
      "mm_inv (mm1\<lparr>aEntries := es, aUndo := filter (\<lambda>r. uLevel r < L) (aUndo mm1)\<rparr>)"
      "map (dent mm1) es = d_undo L (aUndo mm1) (dents mm1)"
      using "1.IH" [OF True refl refl refl, unfolded eq1] inv1 p us n1
      by (auto simp: mm1_def sorted_wrt_append)
    have f: "filter (\<lambda>r. uLevel r < L) (aUndo mm) = filter (\<lambda>r. uLevel r < L) vs" using rl by (simp add: us)
    have "dents mm1 = d_restore r (dents mm)"
      using ri p(2) by (simp add: dents_def de) 
        (simp add: mm1_def d_restore_def map_update dent_def e_def dents_nth nEntries_def)
    then have "map (dent mm) es = d_undo L (aUndo mm) (dents mm)"
      using es(3) de rl by (simp add: us d_undo_append d_undo_Cons mm1_def)
    moreover have "mm1\<lparr>aEntries := es, aUndo := filter (\<lambda>r. uLevel r < L) (aUndo mm1)\<rparr>
        = mm\<lparr>aEntries := es, aUndo := filter (\<lambda>r. uLevel r < L) (aUndo mm)\<rparr>"
      by (simp add: mm1_def f)
    ultimately show ?thesis using step es(1,2) by (intro exI [of _ es]) simp
  qed
qed

lemma remap_undo_eq:
  "\<forall>r \<in> set us. 0 \<le> entryIdx r \<and> nat (entryIdx r) < length m \<Longrightarrow>
     remap_undo m us = Inr (map (\<lambda>r. r\<lparr>entryIdx := m ! nat (entryIdx r)\<rparr>) us)"
  by (induction us) auto

lemma entries_ok_filter: "entries_ok mm \<Longrightarrow> aEntries mm' = filter Q (aEntries mm) \<Longrightarrow> entries_ok mm'"
  by (simp add: entries_ok_def distinct_map_filter)

lemma mset_perm_upt: "distinct T \<Longrightarrow> set T = {..<n} \<Longrightarrow> mset T = mset [0..<n]"
  by (subst set_eq_iff_mset_eq_distinct [symmetric]) (simp_all add: atLeast0LessThan)

text \<open>The order array after a compaction.\<close>

lemma order_compact:
  assumes ord: "order_inv mm" and P: "P = (\<lambda>i. Q (aEntries mm ! i))"
  defines "T \<equiv> take (nEntries mm) (aOrder mm)"
  shows "length (filter P T) = length (filter Q (aEntries mm))"
    "distinct (map (rank P) (filter P T))"
    "set (map (rank P) (filter P T)) = {..<length (filter Q (aEntries mm))}"
    "sorted_wrt (<) (map (\<lambda>p. eKey (filter Q (aEntries mm) ! p)) (map (rank P) (filter P T)))"
proof -
  let ?n = "nEntries mm" and ?es = "aEntries mm"
  have T: "distinct T" "set T = {..<?n}" "sorted_wrt (<) (map (\<lambda>p. eKey (?es ! p)) T)"
    using ord by (simp_all add: order_inv_def order_keys_def T_def)
  have n: "length ?es = ?n" by (simp add: nEntries_def)
  have fs: "filter Q ?es = sel P ?es" unfolding P by (rule filter_as_sel)
  have ls: "length (filter Q ?es) = length (filter P [0..<?n])" unfolding fs length_sel n ..
  have "mset (filter P T) = mset (filter P [0..<?n])" using mset_perm_upt [OF T(1,2)] by (simp add: mset_filter)
  then show "length (filter P T) = length (filter Q ?es)" unfolding ls by (rule mset_eq_length)
  have inj: "p = q" if "p < ?n" "P p" "q < ?n" "P q" "rank P p = rank P q" for p q
    using filter_rank(2) [where P = P, OF that(1,2)] filter_rank(2) [where P = P, OF that(3,4)]
    unfolding that(5) by (rule trans [OF sym])
  show "distinct (map (rank P) (filter P T))"
    unfolding distinct_map
  proof
    show "distinct (filter P T)" using T(1) by simp
    show "inj_on (rank P) (set (filter P T))"
    proof (rule inj_onI)
      fix p q assume "p \<in> set (filter P T)" "q \<in> set (filter P T)" "rank P p = rank P q"
      then show "p = q" using T(2) by (auto intro: inj [of p q])
    qed
  qed
  show "set (map (rank P) (filter P T)) = {..<length (filter Q ?es)}"
  proof (rule set_eqI)
    fix j
    show "j \<in> set (map (rank P) (filter P T)) \<longleftrightarrow> j \<in> {..<length (filter Q ?es)}"
    proof
      assume "j \<in> set (map (rank P) (filter P T))"
      then obtain p where "p < ?n" "P p" "j = rank P p" using T(2) by auto
      then show "j \<in> {..<length (filter Q ?es)}" unfolding ls using filter_rank(1) [of p ?n P] by simp
    next
      assume "j \<in> {..<length (filter Q ?es)}"
      then have "j < length (filter P [0..<?n])" unfolding ls by simp
      note r = rank_onto [OF this]
      have "filter P [0..<?n] ! j \<in> set (filter P T)" using r(1,2) T(2) by simp
      then show "j \<in> set (map (rank P) (filter P T))" using r(3) by (metis imageI set_map)
    qed
  qed
  have "map (\<lambda>p. eKey (filter Q ?es ! p)) (map (rank P) (filter P T)) = map (\<lambda>p. eKey (?es ! p)) (filter P T)"
    unfolding map_map comp_def
    by (rule map_cong [OF refl]) (use T(2) sel_nth [where P = P and xs = ?es] n in \<open>simp add: fs\<close>)
  also have "sorted_wrt (<) \<dots>" using T(3) by (simp add: sorted_wrt_map sorted_wrt_filter)
  finally show "sorted_wrt (<) (map (\<lambda>p. eKey (filter Q ?es ! p)) (map (rank P) (filter P T)))" .
qed

lemma rollback_ok:
  assumes ok: "mm_ok mm" and L: "1 \<le> L" and lev: "lev_ok M n mm" and LM: "L \<le> M"
  shows "\<exists>mm'. prollyMutMapRollbackToSavepoint mm L = Inr mm' \<and> mm_ok mm' \<and> mm_abs mm' = mm_view mm L \<and>
     lev_ok M n mm' \<and> currentSavepointLevel mm' = L - 1 \<and> keepSorted mm' = keepSorted mm \<and> isIntKey mm' = isIntKey mm \<and>
     (\<forall>l \<le> L - 1. mm_view mm' l = mm_view mm l)"
proof -
  let ?us = "aUndo mm" and ?ds = "dents mm"
  have inv: "mm_inv mm" and b: "0 \<le> levelBase mm" and u: "undo_ok ?ds ?us (currentSavepointLevel mm)"
    using ok by (simp_all add: mm_ok_def)
  have us: "sorted_wrt (\<le>) (map uLevel ?us)"
    "\<forall>r \<in> set ?us. 0 \<le> prevBornAt r \<and> 0 \<le> entryIdx r \<and> nat (entryIdx r) < nEntries mm"
    using u by (simp_all add: undo_ok_def)
  have us': "\<forall>r \<in> set ?us. prevBornAt r + levelBase mm < 2147483648 \<and> 0 \<le> prevBornAt r \<and> 0 \<le> entryIdx r \<and> nat (entryIdx r) < nEntries mm"
    using us(2) lev by (fastforce simp: lev_ok_def)
  let ?U = "filter (\<lambda>r. uLevel r < L) ?us"
  obtain es where es: "undo_loop mm L = mm\<lparr>aEntries := es, aUndo := ?U\<rparr>"
    "mm_inv (mm\<lparr>aEntries := es, aUndo := ?U\<rparr>)" "map (dent mm) es = d_undo L ?us ?ds"
    using undo_loop_correct [OF inv b us(1) us'] by blast
  define mm1 where "mm1 = mm\<lparr>aEntries := es, aUndo := ?U\<rparr>"
  have inv1: "mm_inv mm1" using es(2) by (simp add: mm1_def)
  have n: "length es = nEntries mm" using arg_cong [OF es(3), of length] by simp
  have n1: "nEntries mm1 = nEntries mm" using n by (simp add: mm1_def nEntries_def)
  define Q :: "mm_entry \<Rightarrow> bool" where "Q = (\<lambda>e. decodeLevel mm (bornAt e) < L)"
  define P where "P = (\<lambda>i. Q (es ! i))"
  have P': "P = (\<lambda>i. Q (aEntries mm1 ! i))" by (simp add: P_def mm1_def)
  have kept: "kept ?ds ?us L i \<longleftrightarrow> P i" if "i < nEntries mm" for i
  proof -
    have "d_undo L ?us ?ds ! i = dent mm (es ! i)" using es(3) n that by (metis nth_map)
    then show ?thesis by (simp add: kept_def P_def Q_def dent_def)
  qed
  have rankeq: "rank (kept ?ds ?us L) i = rank P i" if "i \<le> nEntries mm" for i
    unfolding rank_def by (rule arg_cong [where f = length], rule filter_cong) (use kept that in auto)
  define aMap where "aMap = map (\<lambda>i. if P i then int (rank P i) else -1) [0..<nEntries mm]"
  have dl: "decodeLevel mm1 = decodeLevel mm" by (rule decodeLevel_cong) (simp add: mm1_def)
  have comp: "compact mm1 L 0 es = (aMap, filter Q es)"
    unfolding compact_eq dl n by (simp add: aMap_def P_def Q_def)
  have comp': "compact mm1 L 0 (aEntries mm1) = (aMap, filter Q es)" using comp by (simp add: mm1_def)
  define us' where "us' = rollback_us ?ds ?us L"
  have keptU: "P (nat (entryIdx r))" if "r \<in> set ?U" for r
    using undo_rollback(3) [OF u L, of r] kept that us(2) by auto
  have remap: "remap_undo aMap ?U = Inr us'"
  proof -
    have "remap_undo aMap ?U = Inr (map (\<lambda>r. r\<lparr>entryIdx := aMap ! nat (entryIdx r)\<rparr>) ?U)"
      by (rule remap_undo_eq) (use us(2) in \<open>auto simp: aMap_def\<close>)
    also have "map (\<lambda>r. r\<lparr>entryIdx := aMap ! nat (entryIdx r)\<rparr>) ?U = us'"
      unfolding us'_def rollback_us_def
      by (rule map_cong [OF refl]) (use us(2) keptU rankeq in \<open>simp add: aMap_def less_imp_le\<close>)
    finally show ?thesis .
  qed
  have remap': "remap_undo aMap (aUndo mm1) = Inr us'" using remap by (simp add: mm1_def)
  have fin: "mm_ok mm' \<and> mm_abs mm' = mm_view mm L \<and> lev_ok M n mm' \<and> (\<forall>l \<le> L - 1. mm_view mm' l = mm_view mm l)"
    if "mm_inv mm'" and mm': "aEntries mm' = filter Q es" "aUndo mm' = us'" "levelBase mm' = levelBase mm"
      "currentSavepointLevel mm' = L - 1" for mm'
  proof -
    have ds: "dents mm' = rollback_ds ?ds ?us L"
    proof -
      have "rollback_ds ?ds ?us L = filter (\<lambda>d. d_born d < L) (map (dent mm) es)"
        by (simp only: rollback_ds_def es(3))
      moreover have "dents mm' = map (dent mm) (filter Q es)"
        by (simp only: dents_def dent_cong [OF mm'(3)] mm'(1))
      ultimately show ?thesis by (simp add: filter_map comp_def Q_def dent_def)
    qed
    have "mm_abs mm' = mm_view mm L"
      unfolding d_map_dents [symmetric] ds by (simp add: mm_view_def d_view_def rollback_ds_def)
    moreover have "lev_ok M n mm'"
      using lev LM mm' by (auto simp: lev_ok_def us'_def rollback_us_def)
    ultimately show ?thesis
      using undo_rollback(1) [OF u L] undo_rollback(2) [OF u L] that(1) mm' b ds
      by (simp add: mm_ok_def mm_view_def us'_def)
  qed
  show ?thesis
  proof (cases "keepSorted mm")
    case True
    have ord: "order_inv mm1" using inv1 True by (simp add: mm_inv_def) (simp add: mm1_def)
    let ?T = "take (nEntries mm1) (aOrder mm1)"
    note oc = order_compact [OF ord P']
    define ord' where "ord' = map (rank P) (filter P ?T)"
    have Tn: "p < nEntries mm" if "p \<in> set ?T" for p using ord that n1 by (simp add: order_inv_def)
    have ordm: "map nat (filter (\<lambda>m. m \<ge> 0) (map (\<lambda>p. aMap ! p) ?T)) = ord'"
    proof -
      have "map (\<lambda>p. aMap ! p) ?T = map (\<lambda>i. if P i then int (rank P i) else -1) ?T"
        by (rule map_cong [OF refl]) (use Tn in \<open>simp add: aMap_def\<close>)
      moreover have "map nat (filter (\<lambda>m. m \<ge> 0) (map (\<lambda>i. if P i then int (rank P i) else -1) xs))
          = map (rank P) (filter P xs)" for xs by (induction xs) simp_all
      ultimately show ?thesis by (simp only: ord'_def)
    qed
    have lo: "length ord' = length (filter Q es)" using oc(1) by (simp add: ord'_def mm1_def)
    define mm' where "mm' = mm\<lparr>aEntries := filter Q es, aOrder := ord' @ drop (length ord') (aOrder mm),
        aPos := set_positions (aPos mm) (ord' @ drop (length ord') (aOrder mm)) [0..<length ord'], aUndo := us',
        generation := generation mm + 1, currentSavepointLevel := L - 1\<rparr>"
    have e: "prollyMutMapRollbackToSavepoint mm L = Inr mm'"
      unfolding prollyMutMapRollbackToSavepoint_def es(1) mm1_def [symmetric] Let_def comp'
        fst_conv snd_conv ordm remap' bindR_Inr
      using True lo by (simp add: mm1_def mm'_def)
    have "order_inv mm'"
    proof (rule order_inv_positions [where mm = "mm1\<lparr>aEntries := filter Q es\<rparr>" and T = ord'])
      show "length ord' = nEntries (mm1\<lparr>aEntries := filter Q es\<rparr>)" using lo by (simp add: nEntries_def)
      show "distinct ord'" "set ord' = {..<nEntries (mm1\<lparr>aEntries := filter Q es\<rparr>)}"
        "sorted_wrt (<) (map (\<lambda>p. eKey (aEntries (mm1\<lparr>aEntries := filter Q es\<rparr>) ! p)) ord')"
        using oc(2,3,4) by (simp_all add: ord'_def nEntries_def mm1_def)
      have "nEntries mm1 \<le> length (aPos mm1)" using ord by (simp add: order_inv_def)
      note le_trans [OF length_filter_le [of Q es] this [unfolded n1 n [symmetric]]]
      then show "nEntries (mm1\<lparr>aEntries := filter Q es\<rparr>) \<le> length (aPos (mm1\<lparr>aEntries := filter Q es\<rparr>))"
        by (simp add: nEntries_def)
      show "aOrder mm' = ord' @ drop (length ord') (aOrder mm)" by (simp add: mm'_def)
    qed (simp_all add: mm'_def mm1_def nEntries_def lo)
    moreover have "entries_ok mm'"
      by (rule entries_ok_filter [of mm1 mm' Q]) (use inv1 in \<open>simp_all add: mm_inv_def mm'_def mm1_def\<close>)
    ultimately have inv': "mm_inv mm'" using True by (simp add: mm_inv_def) (simp add: mm'_def)
    show ?thesis using e fin [OF inv'] by (intro exI [of _ mm']) (simp add: mm'_def)
  next
    case False
    define mm2 where "mm2 = mm1\<lparr>aEntries := filter Q es, orderDirty := True, aUndo := us'\<rparr>"
    have i1: "entries_ok mm1" "hash_inv mm1" "nEntries mm1 \<le> length (aOrder mm1)" "nEntries mm1 \<le> length (aPos mm1)"
      using inv1 False by (simp_all add: mm_inv_def) (simp_all add: mm1_def)
    have ok2: "entries_ok mm2" by (rule entries_ok_filter [OF i1(1), of _ Q]) (simp add: mm2_def mm1_def)
    have ne: "\<forall>e \<in> set (aEntries mm2). eKey e \<noteq> []"
      using i1(2) by (auto simp: hash_inv_def hash_cells_ok_def mm2_def mm1_def)
    obtain tab where tab: "rebuildHash mm2 = Inr (mm2\<lparr>aHash := tab\<rparr>)" "hash_inv (mm2\<lparr>aHash := tab\<rparr>)"
      using rebuildHash_correct [OF ok2 ne] by blast
    define mm' where "mm' = mm2\<lparr>aHash := tab, generation := generation mm + 1, currentSavepointLevel := L - 1\<rparr>"
    have e: "prollyMutMapRollbackToSavepoint mm L = Inr mm'"
      unfolding prollyMutMapRollbackToSavepoint_def es(1) mm1_def [symmetric] Let_def comp'
        fst_conv snd_conv remap' bindR_Inr
      using False tab(1) by (simp add: mm1_def mm2_def mm'_def)
    have "hash_inv mm'" by (rule hash_inv_cong [OF tab(2)]) (simp_all add: mm'_def)
    moreover have "entries_ok mm'" using ok2 by (simp add: entries_ok_def mm'_def)
    moreover have "nEntries mm' \<le> length (aOrder mm')" "nEntries mm' \<le> length (aPos mm')"
    proof -
      have "nEntries mm' \<le> nEntries mm1" by (simp add: mm'_def mm2_def mm1_def nEntries_def)
      then show "nEntries mm' \<le> length (aOrder mm')" "nEntries mm' \<le> length (aPos mm')"
        using i1(3,4) by (simp_all add: mm'_def mm2_def)
    qed
    moreover have "orderDirty mm'" "\<not> keepSorted mm'" using False by (simp_all add: mm'_def mm2_def mm1_def)
    ultimately have inv': "mm_inv mm'" by (simp add: mm_inv_def)
    show ?thesis using e fin [OF inv'] False by (intro exI [of _ mm']) (simp add: mm'_def mm2_def mm1_def)
  qed
qed

section \<open>The map with savepoints as an abstract machine\<close>

text \<open>
  The contract: a current map and a stack of snapshots, one per open level.  Pushing to
  level \<open>L\<close> opens the levels up to \<open>L\<close> with the current map, a rollback to \<open>L\<close> restores the
  snapshot of \<open>L\<close> and closes it, a release closes it and keeps the current map.
\<close>

type_synonym amap = "byte list \<rightharpoonup> edit_op \<times> byte list"

datatype cmd =
    CInsert "byte list" u64 "byte list"
  | CDelete "byte list" u64
  | CPush nat
  | CRollback nat
  | CRelease nat

fun mm_step :: "mutmap \<Rightarrow> cmd \<Rightarrow> mutmap res" where
  "mm_step mm (CInsert k ik v) = prollyMutMapInsert mm k ik v"
| "mm_step mm (CDelete k ik) = prollyMutMapDelete mm k ik"
| "mm_step mm (CPush L) = Inr (prollyMutMapPushSavepoint mm (int L))"
| "mm_step mm (CRollback L) = prollyMutMapRollbackToSavepoint mm (int L)"
| "mm_step mm (CRelease L) = Inr (prollyMutMapReleaseSavepoint mm (int L))"

fun mm_run :: "mutmap \<Rightarrow> cmd list \<Rightarrow> mutmap res" where
  "mm_run mm [] = Inr mm"
| "mm_run mm (c # cs) = bindR (mm_step mm c) (\<lambda>mm. mm_run mm cs)"

fun spec_step :: "bool \<Rightarrow> amap \<times> amap list \<Rightarrow> cmd \<Rightarrow> amap \<times> amap list" where
  "spec_step isInt (m, st) (CInsert k ik v) = (m(full_key isInt k ik \<mapsto> (PROLLY_EDIT_INSERT, v)), st)"
| "spec_step isInt (m, st) (CDelete k ik) = (abs_delete m (full_key isInt k ik), st)"
| "spec_step isInt (m, st) (CPush L) = (m, st @ replicate (L - length st) m)"
| "spec_step isInt (m, st) (CRollback L) = (st ! (L - 1), take (L - 1) st)"
| "spec_step isInt (m, st) (CRelease L) = (m, take (L - 1) st)"

text \<open>
  When a command is used as the callers use it: pushes do not go down, rollbacks and
  releases name an open level, the lazy mode is not given the empty key, and a map with integer keys is
  given the bytes of a key or an integer but not both, as \<open>prepKey\<close> asserts.  A release of
  level 1 closes no deeper level: see \<open>release_level1_loses_writes\<close> for the other case.
\<close>

fun cmd_ok :: "bool \<Rightarrow> bool \<Rightarrow> nat \<Rightarrow> cmd \<Rightarrow> bool" where
  "cmd_ok isInt keep c (CInsert k ik v) = (key_args isInt k ik \<and> (keep \<or> isInt \<or> k \<noteq> []))"
| "cmd_ok isInt keep c (CDelete k ik) = (key_args isInt k ik \<and> (keep \<or> isInt \<or> k \<noteq> []))"
| "cmd_ok isInt keep c (CPush L) = (c \<le> L)"
| "cmd_ok isInt keep c (CRollback L) = (1 \<le> L \<and> L \<le> c)"
| "cmd_ok isInt keep c (CRelease L) = (1 \<le> L \<and> L \<le> c \<and> (L = 1 \<longrightarrow> c = 1))"

fun level_after :: "nat \<Rightarrow> cmd \<Rightarrow> nat" where
  "level_after c (CPush L) = L"
| "level_after c (CRollback L) = L - 1"
| "level_after c (CRelease L) = L - 1"
| "level_after c _ = c"

fun cmds_ok :: "bool \<Rightarrow> bool \<Rightarrow> nat \<Rightarrow> cmd list \<Rightarrow> bool" where
  "cmds_ok isInt keep c [] = True"
| "cmds_ok isInt keep c (x # xs) = (cmd_ok isInt keep c x \<and> cmds_ok isInt keep (level_after c x) xs)"

text \<open>Runs of fewer than 2 to the 30th commands on levels below that, so that no level leaves the range of an \<open>int\<close>.\<close>

definition cmds_bounded :: "cmd list \<Rightarrow> bool" where
  "cmds_bounded cs \<longleftrightarrow> length cs < 2 ^ 30 \<and> (\<forall>c \<in> set cs. case c of CPush L \<Rightarrow> L < 2 ^ 30 | _ \<Rightarrow> True)"

definition spec_run :: "bool \<Rightarrow> amap \<times> amap list \<Rightarrow> cmd list \<Rightarrow> amap \<times> amap list" where
  "spec_run isInt s cs = fold (\<lambda>c s. spec_step isInt s c) cs s"

definition simulates :: "mutmap \<Rightarrow> amap \<times> amap list \<Rightarrow> bool" where
  "simulates mm s \<longleftrightarrow> mm_ok mm \<and> mm_abs mm = fst s \<and> currentSavepointLevel mm = int (length (snd s)) \<and>
     (\<forall>i < length (snd s). mm_view mm (int i + 1) = snd s ! i)"

lemma full_key_nonempty: "isInt \<or> k \<noteq> [] \<Longrightarrow> full_key isInt k ik \<noteq> []"
  using length_prollyEncodeIntKey [of ik] by (cases "isInt \<and> k = []") (auto simp: full_key_def simp del: length_prollyEncodeIntKey)

lemma same_context_fields:
  assumes "same_context mm mm'"
  shows "isIntKey mm' = isIntKey mm" "keepSorted mm' = keepSorted mm" "currentSavepointLevel mm' = currentSavepointLevel mm"
  using assms by (simp_all add: same_context_def)

lemma write_simulates:
  assumes sim: "simulates mm (m, st)" and mm': "mm_inv mm'" "same_context mm mm'"
    and w: "mm' = mm \<or> wrote mm mm' k o' v" and a: "mm_abs mm' = m'" and lev: "lev_ok M n mm"
  shows "simulates mm' (m', st)" "lev_ok M n mm'"
proof -
  have ok: "mm_ok mm" and c: "currentSavepointLevel mm = int (length st)" using sim by (simp_all add: simulates_def)
  have ok': "mm_ok mm'" using w wrote_ok(1) [OF ok mm' _ lev] ok by blast
  have v: "mm_view mm' l = mm_view mm l" if "l \<le> int (length st)" for l
    using w wrote_ok(2) [OF ok mm' _ lev] that c by fastforce
  show "lev_ok M n mm'" using w wrote_ok(3) [OF ok mm' _ lev] lev by blast
  show "simulates mm' (m', st)" using sim ok' a v same_context_fields [OF mm'(2)] by (simp add: simulates_def)
qed

lemma step_simulates:
  assumes sim: "simulates mm s" and okc: "cmd_ok (isIntKey mm) (keepSorted mm) (length (snd s)) c"
    and lev: "lev_ok M (Suc n) mm" and M: "\<And>L. c = CPush L \<Longrightarrow> int L \<le> M"
  shows "\<exists>mm'. mm_step mm c = Inr mm' \<and> lev_ok M n mm' \<and> simulates mm' (spec_step (isIntKey mm) s c) \<and>
     isIntKey mm' = isIntKey mm \<and> keepSorted mm' = keepSorted mm \<and>
     length (snd (spec_step (isIntKey mm) s c)) = level_after (length (snd s)) c"
proof -
  obtain m st where s: "s = (m, st)" by (cases s)
  have ok: "mm_ok mm" and a: "mm_abs mm = m" and cl: "currentSavepointLevel mm = int (length st)"
    and vw: "\<forall>i < length st. mm_view mm (int i + 1) = st ! i"
    using sim s by (simp_all add: simulates_def)
  have inv: "mm_inv mm" using ok by (simp add: mm_ok_def)
  show ?thesis
  proof (cases c)
    case (CInsert k ik v)
    have ar: "key_args (isIntKey mm) k ik" and ne: "keepSorted mm \<or> full_key (isIntKey mm) k ik \<noteq> []"
      using okc full_key_nonempty [of "isIntKey mm" k ik] by (auto simp: CInsert)
    obtain mm' where mm': "prollyMutMapInsert mm k ik v = Inr mm'" "mm_inv mm'" "same_context mm mm'"
      "wrote mm mm' (full_key (isIntKey mm) k ik) PROLLY_EDIT_INSERT v"
      "mm_abs mm' = (mm_abs mm)(full_key (isIntKey mm) k ik \<mapsto> (PROLLY_EDIT_INSERT, v))"
      using prollyMutMapInsert_correct [OF inv ar ne] by blast
    have "simulates mm' (m(full_key (isIntKey mm) k ik \<mapsto> (PROLLY_EDIT_INSERT, v)), st)"
      by (rule write_simulates(1) [OF sim [unfolded s] mm'(2,3) disjI2 [OF mm'(4)] _ lev]) (simp add: mm'(5) a)
    moreover have "lev_ok M n mm'"
      by (rule lev_ok_less [OF write_simulates(2) [OF sim [unfolded s] mm'(2,3) disjI2 [OF mm'(4)] refl lev]]) simp
    ultimately show ?thesis using mm'(1) same_context_fields [OF mm'(3)] by (simp add: CInsert s)
  next
    case (CDelete k ik)
    have ar: "key_args (isIntKey mm) k ik" and ne: "keepSorted mm \<or> full_key (isIntKey mm) k ik \<noteq> []"
      using okc full_key_nonempty [of "isIntKey mm" k ik] by (auto simp: CDelete)
    obtain mm' where mm': "prollyMutMapDelete mm k ik = Inr mm'" "mm_inv mm'" "same_context mm mm'"
      "mm' = mm \<or> wrote mm mm' (full_key (isIntKey mm) k ik) PROLLY_EDIT_DELETE []"
      "mm_abs mm' = abs_delete (mm_abs mm) (full_key (isIntKey mm) k ik)"
      using prollyMutMapDelete_correct [OF inv ar ne] by blast
    have "simulates mm' (abs_delete m (full_key (isIntKey mm) k ik), st)"
      by (rule write_simulates(1) [OF sim [unfolded s] mm'(2,3,4) _ lev]) (simp add: mm'(5) a)
    moreover have "lev_ok M n mm'"
      by (rule lev_ok_less [OF write_simulates(2) [OF sim [unfolded s] mm'(2,3,4) refl lev]]) simp
    ultimately show ?thesis using mm'(1) same_context_fields [OF mm'(3)] by (simp add: CDelete s)
  next
    case (CPush L)
    then have L: "length st \<le> L" "currentSavepointLevel mm \<le> int L" using okc s cl by simp_all
    note p = push_ok [OF ok L(2)]
    have "mm_view (prollyMutMapPushSavepoint mm (int L)) (int i + 1) = (st @ replicate (L - length st) m) ! i"
      if "i < L" for i
      using that vw L p(4) [of "int i + 1"] by (simp add: p(3) nth_append cl a)
    then have "simulates (prollyMutMapPushSavepoint mm (int L)) (m, st @ replicate (L - length st) m)"
      using L p(1,2) a by (simp add: simulates_def) (simp add: prollyMutMapPushSavepoint_def)
    moreover have "lev_ok M n (prollyMutMapPushSavepoint mm (int L))"
      using lev M [OF CPush] by (simp add: lev_ok_def prollyMutMapPushSavepoint_def)
    ultimately show ?thesis using L by (simp add: CPush s) (simp add: prollyMutMapPushSavepoint_def)
  next
    case (CRollback L)
    then have L: "1 \<le> L" "L \<le> length st" "1 \<le> int L" "int L \<le> currentSavepointLevel mm" using okc s cl by simp_all
    obtain mm' where mm': "prollyMutMapRollbackToSavepoint mm (int L) = Inr mm'" "mm_ok mm'" "mm_abs mm' = mm_view mm (int L)"
      "currentSavepointLevel mm' = int L - 1" "keepSorted mm' = keepSorted mm" "isIntKey mm' = isIntKey mm"
      "\<forall>l \<le> int L - 1. mm_view mm' l = mm_view mm l" "lev_ok M (Suc n) mm'"
      using rollback_ok [OF ok L(3) lev] L(4) lev by (auto simp: lev_ok_def)
    have "lev_ok M n mm'" by (rule lev_ok_less [OF mm'(8)]) simp
    have "mm_view mm (int L) = st ! (L - 1)" using vw [rule_format, of "L - 1"] L by simp
    then have "simulates mm' (st ! (L - 1), take (L - 1) st)"
      using mm'(2-4,7) L vw by (simp add: simulates_def)
    then show ?thesis using \<open>lev_ok M n mm'\<close> mm'(1,5,6) L by (simp add: CRollback s)
  next
    case (CRelease L)
    then have L: "1 \<le> L" "L \<le> length st" "1 \<le> int L" "int L \<le> currentSavepointLevel mm"
      "int L = 1 \<longrightarrow> currentSavepointLevel mm = 1" using okc s cl by simp_all
    note r = release_ok [OF ok L(3-5) lev]
    have "simulates (prollyMutMapReleaseSavepoint mm (int L)) (m, take (L - 1) st)"
      using r(1,2,4) a L vw r(3) by (simp add: simulates_def)
    then show ?thesis using L r(5)
      by (simp add: CRelease s) (simp add: prollyMutMapReleaseSavepoint_def Let_def)
  qed
qed

lemma run_simulates:
  assumes "simulates mm s" "cmds_ok (isIntKey mm) (keepSorted mm) (length (snd s)) cs"
    "lev_ok M (length cs) mm" "\<forall>L. CPush L \<in> set cs \<longrightarrow> int L \<le> M"
  shows "\<exists>mm'. mm_run mm cs = Inr mm' \<and> simulates mm' (spec_run (isIntKey mm) s cs) \<and>
     isIntKey mm' = isIntKey mm \<and> keepSorted mm' = keepSorted mm"
  using assms
proof (induction cs arbitrary: mm s)
  case Nil
  then show ?case by (simp add: spec_run_def)
next
  case (Cons c cs)
  have cok: "cmd_ok (isIntKey mm) (keepSorted mm) (length (snd s)) c" using Cons.prems(2) by simp
  obtain mm1 where m1: "mm_step mm c = Inr mm1" "simulates mm1 (spec_step (isIntKey mm) s c)"
    "isIntKey mm1 = isIntKey mm" "keepSorted mm1 = keepSorted mm"
    "length (snd (spec_step (isIntKey mm) s c)) = level_after (length (snd s)) c" "lev_ok M (length cs) mm1"
    using step_simulates [OF Cons.prems(1) cok, of M "length cs"] Cons.prems(3,4) by auto
  have "cmds_ok (isIntKey mm1) (keepSorted mm1) (length (snd (spec_step (isIntKey mm) s c))) cs"
    using Cons.prems(2) by (simp add: m1(3-5))
  from Cons.IH [OF m1(2) this m1(6)] Cons.prems(4) show ?case by (simp add: m1(1,3,4) spec_run_def)
qed

lemma init_simulates: "simulates (prollyMutMapInitMode isInt keep) (Map.empty, [])"
  using mm_ok_init by (simp add: simulates_def) (simp add: prollyMutMapInitMode_def)

lemma cmds_bounded_push: "cmds_bounded cs \<Longrightarrow> \<forall>L. CPush L \<in> set cs \<longrightarrow> int L \<le> 2 ^ 30"
  by (fastforce simp: cmds_bounded_def)

lemma init_lev_ok: "M + int n < 2147483648 \<Longrightarrow> 0 \<le> M \<Longrightarrow> lev_ok M n (prollyMutMapInitMode isInt keep)"
  by (simp add: lev_ok_def prollyMutMapInitMode_def)

end
