(* ===== verification/MutMapSpec.thy ===== *)
theory MutMapSpec
  imports MutMapUndo Interfaces
begin

text \<open>
  What the edit map promises its users: the contract \<open>edit_map\<close>, merging and cloning, the
  refinement of the savepoint machine, iteration and seeking in key order, ranks, and the
  two inputs on which the code departs from the machine.
\<close>

section \<open>The contract of edit maps\<close>

definition edit_of :: "edit_op \<times> byte list \<Rightarrow> byte list option" where
  "edit_of x = (case fst x of PROLLY_EDIT_INSERT \<Rightarrow> Some (snd x) | PROLLY_EDIT_DELETE \<Rightarrow> None)"

definition mm_edits :: "mutmap \<Rightarrow> byte list \<rightharpoonup> byte list option" where
  "mm_edits mm = (\<lambda>k. map_option edit_of (mm_abs mm k))"

definition mm_insert :: "mutmap \<Rightarrow> byte list \<Rightarrow> byte list \<Rightarrow> mutmap res" where
  "mm_insert mm k v = prollyMutMapInsert mm k 0 v"

definition mm_delete :: "mutmap \<Rightarrow> byte list \<Rightarrow> mutmap res" where
  "mm_delete mm k = prollyMutMapDelete mm k 0"

definition mm_find :: "mutmap \<Rightarrow> byte list \<Rightarrow> (mutmap \<times> byte list option option) res" where
  "mm_find mm k = bindR (prollyMutMapFindRc mm k 0) (\<lambda>r.
     Inr (fst r, map_option (\<lambda>e. edit_of (op e, eVal e)) (snd r)))"

lemma edit_of_delete: "map_option edit_of (abs_delete m k x) = (if x = k then Some None else map_option edit_of (m x))"
  by (auto simp: abs_delete_def edit_of_def split: option.splits edit_op.splits)

interpretation em: edit_map mm_inv mm_edits "\<lambda>k. k \<noteq> []" mm_insert mm_delete mm_find
proof
  fix s k v
  assume s: "mm_inv s" and k: "k \<noteq> ([] :: byte list)"
  note p = full_key_given [OF k]
  have key: "keepSorted s \<or> full_key (isIntKey s) k 0 \<noteq> []" using k by (simp add: p)
  show "\<exists>s'. mm_insert s k v = Inr s' \<and> mm_inv s' \<and> mm_edits s' = (mm_edits s)(k \<mapsto> Some v)"
  proof -
    obtain s' where s': "prollyMutMapInsert s k 0 v = Inr s'" "mm_inv s'"
      "mm_abs s' = (mm_abs s)(k \<mapsto> (PROLLY_EDIT_INSERT, v))"
      using prollyMutMapInsert_correct [OF s key_args_0(1) key, of v] unfolding p by blast
    have "mm_edits s' = (mm_edits s)(k \<mapsto> Some v)" by (rule ext) (simp add: mm_edits_def s'(3) edit_of_def)
    then show ?thesis using s'(1,2) by (simp add: mm_insert_def)
  qed
  show "\<exists>s'. mm_delete s k = Inr s' \<and> mm_inv s' \<and> mm_edits s' = (mm_edits s)(k \<mapsto> None)"
  proof -
    obtain s' where s': "prollyMutMapDelete s k 0 = Inr s'" "mm_inv s'" "mm_abs s' = abs_delete (mm_abs s) k"
      using prollyMutMapDelete_correct [OF s key_args_0(1) key] unfolding p by blast
    have "mm_edits s' = (mm_edits s)(k \<mapsto> None)" by (rule ext) (simp add: mm_edits_def s'(3) edit_of_delete)
    then show ?thesis using s'(1,2) by (simp add: mm_delete_def)
  qed
  show "mm_find s k = Inr (s, mm_edits s k)"
  proof -
    obtain r where r: "prollyMutMapFindRc s k 0 = Inr (s, r)" "map_option (\<lambda>e. (op e, eVal e)) r = mm_abs s k"
      using prollyMutMapFindRc_correct [OF s key_args_0(1), of k] by (auto simp: p)
    have "mm_edits s k = map_option (\<lambda>e. edit_of (op e, eVal e)) r"
      unfolding mm_edits_def r(2) [symmetric] by (cases r) simp_all
    then show ?thesis using r(1) by (simp add: mm_find_def)
  qed
qed

section \<open>Merging and copying\<close>

definition entry_edit :: "mm_entry \<Rightarrow> byte list \<times> byte list option" where
  "entry_edit e = (eKey e, edit_of (op e, eVal e))"

lemma merge_entries_edits: "merge_entries dst es = em.apply_edits dst (map entry_edit es)"
proof (induction es arbitrary: dst)
  case (Cons e es)
  have "em.apply_edit dst (entry_edit e) = (if op e = PROLLY_EDIT_INSERT then prollyMutMapInsert dst (eKey e) 0 (eVal e)
      else prollyMutMapDelete dst (eKey e) 0)"
    by (cases "op e") (simp_all add: em.apply_edit_def entry_edit_def edit_of_def mm_insert_def mm_delete_def)
  then show ?case using Cons by simp
qed simp

lemma map_of_rev_distinct: "distinct (map fst xs) \<Longrightarrow> map_of (rev xs) = map_of xs"
  by (rule map_of_inject_set [THEN iffD2]) (simp_all add: rev_map [symmetric])

lemma map_of_map_option: "map_of (map (\<lambda>x. (fst x, f (snd x))) xs) k = map_option f (map_of xs k)"
  by (induction xs) auto

lemma mm_edits_entries: "mm_edits mm = map_of (map entry_edit (aEntries mm))"
proof
  fix k
  have "map entry_edit (aEntries mm) = map (\<lambda>x. (fst x, edit_of (snd x))) (map (\<lambda>e. (eKey e, op e, eVal e)) (aEntries mm))"
    by (simp add: entry_edit_def comp_def)
  then show "mm_edits mm k = map_of (map entry_edit (aEntries mm)) k"
    by (simp only: mm_edits_def mm_abs_def map_of_map_option)
qed

lemma clear_inv:
  assumes "mm_inv mm"
  shows "mm_inv (prollyMutMapClear mm)" "mm_abs (prollyMutMapClear mm) = Map.empty"
proof -
  have "key_table [] (replicate n 0) = replicate n None" for n by (simp add: key_table_def)
  moreover have "aHash mm \<noteq> [] \<Longrightarrow> \<not> keepSorted mm \<Longrightarrow> pow2 (length (aHash mm)) \<and> 32 \<le> length (aHash mm)"
    using assms by (simp add: mm_inv_def hash_inv_def)
  ultimately show "mm_inv (prollyMutMapClear mm)"
    by (auto simp: mm_inv_def prollyMutMapClear_def entries_ok_def order_inv_def nEntries_def order_keys_def
        hash_inv_def hash_cells_ok_def)
  show "mm_abs (prollyMutMapClear mm) = Map.empty" by (simp add: mm_abs_def prollyMutMapClear_def)
qed

text \<open>
  Merging an edit map into another succeeds, the edits of the source override those of
  the destination, and the source is left empty.
\<close>

theorem prollyMutMapMerge_correct:
  assumes "mm_inv dst" "mm_inv src" "\<forall>e \<in> set (aEntries src). eKey e \<noteq> []"
  shows "\<exists>dst' src'. prollyMutMapMerge dst src = Inr (dst', src') \<and> mm_inv dst' \<and> mm_inv src' \<and>
     mm_edits dst' = mm_edits dst ++ mm_edits src \<and> prollyMutMapIsEmpty src'"
proof -
  let ?es = "map entry_edit (aEntries src)"
  have "\<forall>e \<in> set ?es. fst e \<noteq> []" using assms(3) by (simp add: entry_edit_def)
  from em.apply_edits_ok [OF assms(1) this] obtain d where
    d: "em.apply_edits dst ?es = Inr d" "mm_inv d" "mm_edits d = mm_edits dst ++ map_of (rev ?es)" by blast
  have "distinct (map fst ?es)" using assms(2) by (simp add: mm_inv_def entries_ok_def comp_def entry_edit_def)
  note r = map_of_rev_distinct [OF this]
  show ?thesis
    using d clear_inv(1) [OF assms(2)]
    by (simp add: prollyMutMapMerge_def merge_entries_edits r mm_edits_entries)
       (simp add: prollyMutMapIsEmpty_def nEntries_def prollyMutMapClear_def)
qed

text \<open>
  A clone behaves as the original: it holds the same edits, and the same snapshots for
  every open savepoint.
\<close>

theorem prollyMutMapClone_correct:
  assumes "simulates src s"
  shows "\<exists>dst. prollyMutMapClone src = Inr dst \<and> simulates dst s"
proof -
  have ok: "mm_ok src" using assms by (simp add: simulates_def)
  then have inv: "mm_inv src" and ent: "entries_ok src" by (simp_all add: mm_ok_def mm_inv_def)
  let ?es = "map (\<lambda>e. if length (eKey e) > 0 then e else e\<lparr>keyPrefix := 0, keyHash := 0\<rparr>) (aEntries src)"
  let ?n = "nEntries src"
  define d where "d = \<lparr>isIntKey = isIntKey src, keepSorted = keepSorted src, orderDirty = orderDirty src,
     levelBase = levelBase src, aEntries = ?es,
     aOrder = (if keepSorted src \<or> \<not> orderDirty src then take ?n (aOrder src) else replicate ?n 0),
     aPos = (if keepSorted src \<or> \<not> orderDirty src then take ?n (aPos src) else replicate ?n 0),
     aHash = [], currentSavepointLevel = currentSavepointLevel src, aUndo = aUndo src, generation = generation src\<rparr>"
  have k: "map eKey ?es = map eKey (aEntries src)" by simp
  have kn: "eKey (?es ! i) = eKey (aEntries src ! i)" if "i < ?n" for i using that by (simp add: nEntries_def)
  have n: "nEntries d = ?n" by (simp add: d_def nEntries_def)
  have kd: "keepSorted d = keepSorted src" by (simp add: d_def)
  have cl: "prollyMutMapClone src = (if \<not> keepSorted d \<and> nEntries d > 0 then rebuildHash d else Inr d)"
    by (simp only: prollyMutMapClone_def Let_def d_def)
  have pre0: "keyPrefix64 [] = 0" by (simp add: keyPrefix64_def Let_def)
  have ent': "entries_ok d"
    using ent k pre0 by (auto simp: entries_ok_def d_def entry_wf_def simp del: map_map)
  have ord: "order_inv d" if "order_inv src" "keepSorted src \<or> \<not> orderDirty src"
  proof -
    have ok: "order_keys d = order_keys src"
      using that kn by (simp add: order_keys_def n) (auto simp: d_def order_inv_def)
    have o: "aOrder d = take ?n (aOrder src)" "aPos d = take ?n (aPos src)" using that(2) by (simp_all add: d_def)
    have "aOrder src ! i < ?n" if "i < ?n" for i
      using \<open>order_inv src\<close> that nth_mem [of i "take ?n (aOrder src)"] by (auto simp: order_inv_def)
    then show ?thesis using that(1) by (simp add: order_inv_def n ok o)
  qed
  have dents: "dents d = dents src"
    unfolding dents_def using dent_cong [of d src] by (simp add: d_def dent_def)
  have sim: "simulates d' s" if "mm_inv d'" "aEntries d' = aEntries d" "levelBase d' = levelBase d" "aUndo d' = aUndo d"
    "currentSavepointLevel d' = currentSavepointLevel d" for d'
  proof -
    have de: "dents d' = dents src" using dents dent_cong [OF that(3)] that(2) by (simp add: dents_def)
    then have "mm_abs d' = mm_abs src" by (simp only: d_map_dents [symmetric])
    moreover have "undo_ok (dents src) (aUndo src) (int (length (snd s)))"
      using assms unfolding simulates_def mm_ok_def by metis
    ultimately show ?thesis using assms that de by (simp add: simulates_def mm_ok_def mm_view_def) (simp add: d_def)
  qed
  show ?thesis
  proof (cases "\<not> keepSorted src \<and> 0 < ?n")
    case False
    have "mm_inv d"
    proof (cases "keepSorted src")
      case True
      then show ?thesis using ent' ord inv by (simp add: mm_inv_def) (simp add: d_def)
    next
      case F: False
      then have "aEntries src = []" using False by (simp add: nEntries_def)
      then show ?thesis using F ent'
        by (simp add: mm_inv_def hash_inv_def hash_cells_ok_def order_inv_def n order_keys_def) (simp add: d_def nEntries_def)
    qed
    then have "simulates d s" by (rule sim) simp_all
    then show ?thesis using False by (auto simp: cl n kd)
  next
    case True
    have ne: "\<forall>e \<in> set (aEntries d). eKey e \<noteq> []"
      using inv True by (auto simp: mm_inv_def hash_inv_def hash_cells_ok_def d_def)
    obtain tab where tab: "rebuildHash d = Inr (d\<lparr>aHash := tab\<rparr>)" "hash_inv (d\<lparr>aHash := tab\<rparr>)"
      using rebuildHash_correct [OF ent' ne] by blast
    have f: "nEntries (d\<lparr>aHash := tab\<rparr>) = ?n" by (simp add: nEntries_def d_def)
    have len: "?n \<le> length (aOrder d)" "?n \<le> length (aPos d)"
      using inv True by (auto simp: mm_inv_def d_def)
    have "entries_ok (d\<lparr>aHash := tab\<rparr>)" using ent' by (simp add: entries_ok_def)
    moreover have "order_inv (d\<lparr>aHash := tab\<rparr>)" if "\<not> orderDirty src" "?n = 1 \<longrightarrow> aOrder d ! 0 = 0"
    proof -
      have "?n = 1 \<longrightarrow> aOrder src ! 0 = 0" using that by (simp add: d_def)
      then have "order_inv src" using inv True that(1) by (simp add: mm_inv_def)
      then have "order_inv d" using ord that(1) by blast
      then show ?thesis by (simp add: order_inv_def order_keys_def nEntries_def)
    qed
    ultimately have "mm_inv (d\<lparr>aHash := tab\<rparr>)"
      unfolding mm_inv_def f using tab(2) len True by (simp, simp add: d_def)
    then have "simulates (d\<lparr>aHash := tab\<rparr>) s" by (rule sim) simp_all
    then show ?thesis using True tab(1) by (auto simp: cl n kd)
  qed
qed

section \<open>The properties\<close>

lemma run_ok:
  assumes "cmds_ok isInt keep 0 cs" "cmds_bounded cs"
  shows "\<exists>mm. mm_run (prollyMutMapInitMode isInt keep) cs = Inr mm \<and> simulates mm (spec_run isInt (Map.empty, []) cs) \<and>
     isIntKey mm = isInt"
proof -
  have f: "isIntKey (prollyMutMapInitMode isInt keep) = isInt" "keepSorted (prollyMutMapInitMode isInt keep) = keep"
    by (simp_all add: prollyMutMapInitMode_def)
  have "lev_ok (2 ^ 30) (length cs) (prollyMutMapInitMode isInt keep)"
    using assms(2) by (intro init_lev_ok) (simp_all add: cmds_bounded_def)
  then show ?thesis
    using run_simulates [OF init_simulates [of isInt keep], of cs "2 ^ 30"] assms(1) cmds_bounded_push [OF assms(2)] by (auto simp: f)
qed

text \<open>
  C1. The map refines the abstract machine: a fresh map, sorted or lazy, that is given any
  well-formed sequence of insertions, deletions, savepoint pushes, rollbacks and releases
  never fails, and holds what the machine of maps and snapshots holds; every lookup
  returns the edit the machine records.  Well-formed is \<open>cmds_ok\<close>: in particular a map with integer keys is given
  the bytes of a key or an integer, as \<open>prepKey\<close> asserts, here and in the lookups.  Fewer than 2 to the
  30th commands, on levels below that, keep the levels in the range of an \<open>int\<close>.
\<close>

theorem prollyMutMap_savepoints:
  assumes "cmds_ok isInt keep 0 cs" "cmds_bounded cs"
  shows "\<exists>mm. mm_run (prollyMutMapInitMode isInt keep) cs = Inr mm \<and>
     mm_abs mm = fst (spec_run isInt (Map.empty, []) cs) \<and>
     currentSavepointLevel mm = int (length (snd (spec_run isInt (Map.empty, []) cs))) \<and>
     (\<forall>k ik. key_args isInt k ik \<longrightarrow> (\<exists>r. prollyMutMapFindRc mm k ik = Inr (mm, r) \<and>
        map_option (\<lambda>e. (op e, eVal e)) r = fst (spec_run isInt (Map.empty, []) cs) (full_key isInt k ik)))"
proof -
  obtain mm where mm: "mm_run (prollyMutMapInitMode isInt keep) cs = Inr mm"
    "simulates mm (spec_run isInt (Map.empty, []) cs)" "isIntKey mm = isInt" using run_ok [OF assms] by blast
  then have inv: "mm_inv mm" and ab: "mm_abs mm = fst (spec_run isInt (Map.empty, []) cs)"
    by (simp_all add: simulates_def mm_ok_def)
  have "\<exists>r. prollyMutMapFindRc mm k ik = Inr (mm, r) \<and> map_option (\<lambda>e. (op e, eVal e)) r = mm_abs mm (full_key isInt k ik)"
    if "key_args isInt k ik" for k ik using prollyMutMapFindRc_correct [OF inv, of k ik] that by (auto simp: mm(3))
  then show ?thesis using mm(1,2) ab by (intro exI [of _ mm]) (simp add: simulates_def)
qed

definition sample :: "cmd list" where
  "sample = [CInsert [1] 0 [9], CPush 1, CInsert [1] 0 [8], CInsert [2] 0 [7], CPush 2, CDelete [1] 0, CRelease 2, CRollback 1]"

lemma prollyMutMap_savepoints_witness:
  "\<exists>mm. mm_run (prollyMutMapInitMode False False) sample = Inr mm \<and> mm_abs mm [1] = Some (PROLLY_EDIT_INSERT, [9]) \<and>
     mm_abs mm [2] = None"
proof -
  have "cmds_ok False False 0 sample" "cmds_bounded sample" by (simp_all add: sample_def cmds_bounded_def)
  from prollyMutMap_savepoints [OF this] obtain mm where
    mm: "mm_run (prollyMutMapInitMode False False) sample = Inr mm"
      "mm_abs mm = fst (spec_run False (Map.empty, []) sample)" by blast
  then show ?thesis by (simp add: sample_def spec_run_def full_key_def)
qed

definition iterate :: "mutmap \<Rightarrow> mm_entry list res" where
  "iterate mm = bindR (prollyMutMapIterFirst mm) (iter_collect (nEntries mm + 1))"

text \<open>
  C37. Iterating from the first position yields the edits of the map, each key once, in
  strictly increasing key order; a lazy map with one live entry must not have a stale
  order cell (see \<open>stale_order_after_rollback\<close>).
\<close>

theorem prollyMutMapIter_sorted:
  assumes "mm_inv mm" "order_head_ok mm"
  shows "\<exists>es. iterate mm = Inr es \<and> sorted_wrt (<) (map eKey es) \<and> set es = set (aEntries mm) \<and>
     map_of (map (\<lambda>e. (eKey e, op e, eVal e)) es) = mm_abs mm"
proof -
  obtain mm' where m: "ensureOrder mm = Inr mm'" "order_inv mm'" "mm_inv mm'" "aEntries mm' = aEntries mm"
    "ensureOrder mm' = Inr mm'" using ensureOrder_correct [OF assms] by blast
  have n: "nEntries mm' = nEntries mm" by (simp add: nEntries_def m(4))
  have "iterate mm = Inr (ordered_entries mm')"
    using iter_collect_from [OF m(2,5), of 0 "nEntries mm + 1"] m(1) n by (simp add: iterate_def prollyMutMapIterFirst_def)
  moreover have "sorted_wrt (<) (map eKey (ordered_entries mm'))"
    using m(2) by (simp add: order_inv_def order_keys_entries)
  moreover have "mm_abs mm' = mm_abs mm" by (simp add: mm_abs_def m(4))
  ultimately show ?thesis
    using set_ordered_entries [OF m(2)] mm_abs_ordered [OF m(2)] m(3,4) by (simp add: mm_inv_def)
qed

lemma run_inv:
  assumes "cmds_ok isInt keep 0 cs \<and> cmds_bounded cs" "mm_run (prollyMutMapInitMode isInt keep) cs = Inr mm"
  shows "mm_inv mm" "simulates mm (spec_run isInt (Map.empty, []) cs)"
proof -
  show "simulates mm (spec_run isInt (Map.empty, []) cs)" using run_ok [of isInt keep cs] assms by auto
  then show "mm_inv mm" by (simp add: simulates_def mm_ok_def)
qed

definition two_writes :: "cmd list" where
  "two_writes = [CInsert [2] 0 [9], CInsert [1] 0 [8]]"

lemma two_writes_run: "\<exists>mm. mm_run (prollyMutMapInitMode False True) two_writes = Inr mm \<and> nEntries mm = 2 \<and>
   map eKey (aEntries mm) = [[2], [1]] \<and> map op (aEntries mm) = [PROLLY_EDIT_INSERT, PROLLY_EDIT_INSERT]"
proof -
  have "bindR (mm_run (prollyMutMapInitMode False True) two_writes)
    (\<lambda>mm. Inr (nEntries mm, map eKey (aEntries mm), map op (aEntries mm)))
      = Inr (2, [[2], [1]], [PROLLY_EDIT_INSERT, PROLLY_EDIT_INSERT])" by code_simp
  then show ?thesis by (cases "mm_run (prollyMutMapInitMode False True) two_writes") simp_all
qed

lemma two_writes_ok: "cmds_ok False True 0 two_writes \<and> cmds_bounded two_writes"
  by (simp add: two_writes_def cmds_bounded_def)

lemma prollyMutMapIter_sorted_witness:
  "\<exists>mm es. mm_run (prollyMutMapInitMode False True) two_writes = Inr mm \<and> iterate mm = Inr es \<and>
     sorted_wrt (<) (map eKey es)"
proof -
  obtain mm where mm: "mm_run (prollyMutMapInitMode False True) two_writes = Inr mm" "nEntries mm = 2"
    using two_writes_run by (elim exE conjE) (rule that, assumption+)
  have "order_head_ok mm" by (simp add: order_head_ok_def mm(2))
  from prollyMutMapIter_sorted [OF run_inv(1) [OF two_writes_ok mm(1)] this] show ?thesis using mm(1) by blast
qed

definition iterate_from :: "mutmap \<Rightarrow> byte list \<Rightarrow> u64 \<Rightarrow> mm_entry list res" where
  "iterate_from mm k ik = bindR (prollyMutMapIterSeek mm k ik) (iter_collect (nEntries mm + 1))"

lemma locate_post_drop:
  assumes "locate_post ks key (i, f)" "sorted_wrt (<) ks" "ks = map g es"
  shows "i \<le> length es" "drop i es = filter (\<lambda>e. key \<le> g e) es"
proof -
  have n: "length ks = length es" using assms(3) by simp
  show i: "i \<le> length es" using assms(1) n by (auto simp: locate_post_def split: if_splits)
  have lo: "ks ! j < key" if "j < i" for j
    using assms(1,2) that by (cases f) (auto simp: locate_post_def sorted_wrt_iff_nth_less)
  have hi: "key \<le> ks ! j" if "i \<le> j" "j < length ks" for j
  proof (cases f)
    case True
    then have "i < length ks" "ks ! i = key" using assms(1) by (simp_all add: locate_post_def)
    then show ?thesis using assms(2) that by (cases "j = i") (auto simp: sorted_wrt_iff_nth_less intro: less_imp_le)
  next
    case False
    then show ?thesis using assms(1) that by (auto simp: locate_post_def intro: less_imp_le)
  qed
  have "filter (\<lambda>e. key \<le> g e) (take i es) = []"
    using lo i n assms(3) by (auto simp: filter_empty_conv in_set_conv_nth not_le)
  moreover have "filter (\<lambda>e. key \<le> g e) (drop i es) = drop i es"
    using hi n assms(3) by (auto simp: filter_id_conv in_set_conv_nth)
  ultimately show "drop i es = filter (\<lambda>e. key \<le> g e) es"
    by (metis append_self_conv2 append_take_drop_id filter_append)
qed

text \<open>
  C38. Seeking places the iterator at the first key that is not below the target: it yields
  exactly the edits with a key at or above it, in order.  In a map with integer keys the target is the bytes of a key
  or an integer, as \<open>prepKey\<close> asserts; a lazy map with one live entry must not have a stale order cell (see
  \<open>stale_order_after_rollback\<close>).
\<close>

theorem prollyMutMapIterSeek_correct:
  assumes "mm_inv mm" "order_head_ok mm" "key_args (isIntKey mm) k ik"
  shows "\<exists>es all. iterate_from mm k ik = Inr es \<and> iterate mm = Inr all \<and>
     es = filter (\<lambda>e. full_key (isIntKey mm) k ik \<le> eKey e) all"
proof -
  obtain mm' where m: "ensureOrder mm = Inr mm'" "order_inv mm'" "mm_inv mm'" "same_context mm mm'" "aEntries mm' = aEntries mm"
    "ensureOrder mm' = Inr mm'" using ensureOrder_correct [OF assms(1,2)] by blast
  have n: "nEntries mm' = nEntries mm" by (simp add: nEntries_def m(5))
  let ?k = "full_key (isIntKey mm) k ik"
  have pk: "prepKey mm' k ik = Inr ?k" using m(4) prepKey_full [of mm' k ik] assms(3) by (simp add: same_context_def)
  have all: "iterate mm = Inr (ordered_entries mm')"
    using iter_collect_from [OF m(2,6), of 0 "nEntries mm + 1"] m(1) n by (simp add: iterate_def prollyMutMapIterFirst_def)
  obtain i f where b: "bsearch_key mm' ?k = Inr (i, f)" "locate_post (order_keys mm') ?k (i, f)"
    using bsearch_key_post [OF _ m(2), of ?k] m(3) by (auto simp: mm_inv_def entries_ok_def)
  have so: "sorted_wrt (<) (order_keys mm')" using m(2) by (simp add: order_inv_def)
  note d = locate_post_drop [OF b(2) so order_keys_entries]
  have "i \<le> nEntries mm'" using d(1) length_ordered_entries [OF m(2)] by simp
  then have "iterate_from mm k ik = Inr (drop i (ordered_entries mm'))"
    using iter_collect_from [OF m(2,6), of i "nEntries mm + 1"] m(1) b(1) n
    by (simp add: iterate_from_def prollyMutMapIterSeek_def pk)
  then show ?thesis using all d(2) by simp
qed

lemma prollyMutMapIterSeek_correct_witness:
  "\<exists>mm es. mm_run (prollyMutMapInitMode False True) two_writes = Inr mm \<and> iterate_from mm [2] 0 = Inr es"
proof -
  obtain mm where mm: "mm_run (prollyMutMapInitMode False True) two_writes = Inr mm" "nEntries mm = 2"
    using two_writes_run by (elim exE conjE) (rule that, assumption+)
  have "order_head_ok mm" by (simp add: order_head_ok_def mm(2))
  from prollyMutMapIterSeek_correct [OF run_inv(1) [OF two_writes_ok mm(1)] this key_args_0(1), of "[2]"] show ?thesis
    using mm(1) by blast
qed

definition key_rank :: "mutmap \<Rightarrow> byte list \<Rightarrow> nat" where
  "key_rank mm k = card {k' \<in> eKey ` set (aEntries mm). k' < k}"

lemma rankEntryWithoutOrder_rank:
  assumes ok: "entries_ok mm" and p: "p < nEntries mm"
  shows "rankEntryWithoutOrder mm p = key_rank mm (eKey (aEntries mm ! p))"
proof -
  let ?k = "\<lambda>i. eKey (aEntries mm ! i)"
  let ?I = "{i. i < nEntries mm \<and> ?k i < ?k p}"
  have "[i \<leftarrow> [0..<nEntries mm]. i \<noteq> p \<and> key_cmp (?k i) (?k p) < 0] = [i \<leftarrow> [0..<nEntries mm]. ?k i < ?k p]"
    by (rule filter_cong [OF refl]) auto
  then have "rankEntryWithoutOrder mm p = card (set [i \<leftarrow> [0..<nEntries mm]. ?k i < ?k p])"
    unfolding rankEntryWithoutOrder_def by (subst distinct_card) simp_all
  also have "set [i \<leftarrow> [0..<nEntries mm]. ?k i < ?k p] = ?I" by auto
  also have "card ?I = card (?k ` ?I)"
    by (rule card_image [symmetric]) (auto simp: inj_on_def entries_ok_unique [OF ok])
  also have "?k ` ?I = {k' \<in> eKey ` set (aEntries mm). k' < ?k p}"
    by (auto simp: nEntries_def set_conv_nth)
  finally show ?thesis by (simp add: key_rank_def)
qed

lemma order_position_rank:
  assumes ord: "order_inv mm" and ok: "entries_ok mm" and p: "p < nEntries mm"
  shows "aPos mm ! p = key_rank mm (eKey (aEntries mm ! p))" "p < length (aPos mm)"
proof -
  let ?k = "\<lambda>i. eKey (aEntries mm ! i)" and ?ks = "order_keys mm" and ?n = "nEntries mm"
  have o: "set (take ?n (aOrder mm)) = {..<?n}" "sorted_wrt (<) ?ks" "length ?ks = ?n"
    "\<forall>i < ?n. aPos mm ! (aOrder mm ! i) = i" "?n \<le> length (aOrder mm)"
    using ord by (simp_all add: order_inv_def order_keys_def)
  show "p < length (aPos mm)" using ord p by (simp add: order_inv_def)
  have "p \<in> set (take ?n (aOrder mm))" using o(1) p by simp
  then obtain i where i: "i < ?n" "aOrder mm ! i = p" using o(5) by (auto simp: in_set_conv_nth)
  have ki: "?ks ! i = ?k p" using i o(5) by (simp add: order_keys_def)
  have "{k' \<in> eKey ` set (aEntries mm). k' < ?k p} = {k' \<in> set ?ks. k' < ?k p}"
    using set_ordered_entries [OF ord] by (simp add: order_keys_entries)
  also have "\<dots> = (\<lambda>j. ?ks ! j) ` {..<i}"
  proof -
    have "?ks ! j < ?k p \<longleftrightarrow> j < i" if "j < ?n" for j
      using o(2,3) that i(1) ki by (metis linorder_neqE_nat order_less_asym order_less_irrefl sorted_wrt_iff_nth_less)
    then show ?thesis using i(1) o(3) by (auto simp: in_set_conv_nth) (metis order_less_trans)
  qed
  also have "card \<dots> = i"
  proof -
    have "inj_on (\<lambda>j. ?ks ! j) {..<i}"
    proof (rule linorder_inj_onI')
      fix a b assume "a \<in> {..<i}" "b \<in> {..<i}" "a < b"
      then have "?ks ! a < ?ks ! b" using o(2,3) i(1) by (simp add: sorted_wrt_iff_nth_less)
      then show "?ks ! a \<noteq> ?ks ! b" by simp
    qed
    then show ?thesis by (simp add: card_image)
  qed
  finally show "aPos mm ! p = key_rank mm (?k p)" using o(4) i by (auto simp: key_rank_def)
qed

text \<open>
  The position of an entry is its rank: the number of entries with a smaller key,
  whether it is read off the inverse of the order array or counted without sorting.
\<close>

theorem prollyMutMapOrderIndex_rank:
  assumes "mm_inv mm" "order_head_ok mm" "p < nEntries mm"
  shows "\<exists>mm'. prollyMutMapOrderIndexFromEntry mm p = Inr (mm', key_rank mm (eKey (aEntries mm ! p))) \<and>
     aEntries mm' = aEntries mm"
proof (cases "\<not> keepSorted mm \<and> orderDirty mm")
  case True
  then show ?thesis using rankEntryWithoutOrder_rank [OF _ assms(3)] assms(1)
    by (simp add: prollyMutMapOrderIndexFromEntry_def mm_inv_def)
next
  case False
  obtain mm' where m: "ensureOrder mm = Inr mm'" "order_inv mm'" "mm_inv mm'" "aEntries mm' = aEntries mm"
    using ensureOrder_correct [OF assms(1,2)] by blast
  have "p < nEntries mm'" using assms(3) by (simp add: nEntries_def m(4))
  note r = order_position_rank [OF m(2) _ this]
  then have "aPos mm' ! p = key_rank mm (eKey (aEntries mm ! p))" "p < length (aPos mm')"
    using m(3,4) by (simp_all add: mm_inv_def key_rank_def)
  then show ?thesis using m(1,4) by (simp only: prollyMutMapOrderIndexFromEntry_def False) simp
qed

lemma prollyMutMapOrderIndex_rank_witness:
  "\<exists>mm mm'. mm_run (prollyMutMapInitMode False True) two_writes = Inr mm \<and>
     prollyMutMapOrderIndexFromEntry mm 0 = Inr (mm', 1)"
proof -
  obtain mm where mm: "mm_run (prollyMutMapInitMode False True) two_writes = Inr mm" "nEntries mm = 2"
    "map eKey (aEntries mm) = [[2], [1]]" using two_writes_run by (elim exE conjE) (rule that, assumption+)
  have "order_head_ok mm" "0 < nEntries mm" by (simp_all add: order_head_ok_def mm(2))
  note p = prollyMutMapOrderIndex_rank [OF run_inv(1) [OF two_writes_ok mm(1)] this]
  have "eKey ` set (aEntries mm) = {[2], [1]}" using arg_cong [OF mm(3), of set] by simp
  moreover have "eKey (aEntries mm ! 0) = [2]" using arg_cong [OF mm(3), of hd] mm(2)
    by (cases "aEntries mm") (simp_all add: nEntries_def)
  moreover have "{k'. (k' = [2] \<or> k' = [1]) \<and> k' < [2]} = {[1 :: byte]}" by auto
  ultimately have "key_rank mm (eKey (aEntries mm ! 0)) = 1" by (simp add: key_rank_def)
  from p [unfolded this] show ?thesis using mm(1) by blast
qed

lemma prollyMutMapMerge_correct_witness:
  "\<exists>mm d s. mm_run (prollyMutMapInitMode False True) two_writes = Inr mm \<and>
     prollyMutMapMerge (prollyMutMapInit False) mm = Inr (d, s) \<and> mm_edits d [2] = mm_edits mm [2]"
proof -
  obtain mm where mm: "mm_run (prollyMutMapInitMode False True) two_writes = Inr mm"
    "map eKey (aEntries mm) = [[2], [1]]" using two_writes_run by (elim exE conjE) (rule that, assumption+)
  have "eKey ` set (aEntries mm) = {[2], [1]}" using arg_cong [OF mm(2), of set] by simp
  then have "[] \<notin> eKey ` set (aEntries mm)" by simp
  then have ne: "\<forall>e \<in> set (aEntries mm). eKey e \<noteq> []" by force
  have i: "mm_inv (prollyMutMapInit False)" by (simp add: prollyMutMapInit_def)
  have "mm_edits (prollyMutMapInit False) = Map.empty" by (simp add: mm_edits_def prollyMutMapInit_def)
  then show ?thesis using prollyMutMapMerge_correct [OF i run_inv(1) [OF two_writes_ok mm(1)] ne] mm(1)
    by (metis empty_map_add)
qed

lemma prollyMutMapClone_correct_witness:
  "\<exists>mm d. mm_run (prollyMutMapInitMode False True) two_writes = Inr mm \<and> prollyMutMapClone mm = Inr d \<and>
     simulates d (spec_run False (Map.empty, []) two_writes)"
proof -
  obtain mm where mm: "mm_run (prollyMutMapInitMode False True) two_writes = Inr mm" using two_writes_run by (elim exE conjE) (rule that, assumption+)
  from prollyMutMapClone_correct [OF run_inv(2) [OF two_writes_ok this]] show ?thesis using mm by blast
qed

section \<open>Where the map departs from the machine\<close>

text \<open>
  A lazy map whose order was built for two entries and which a rollback cuts to one is
  iterated through the stale order cell: sorting returns early for a single entry, so the
  cursor reads a dead cell of the entry array.
\<close>

theorem stale_order_after_rollback:
  "bindR (mm_run (prollyMutMapInitMode False False) [CInsert [2] 0 [9], CPush 1, CInsert [1] 0 [8]]) (\<lambda>mm.
   bindR (prollyMutMapIterFirst mm) (\<lambda>it.
   bindR (prollyMutMapRollbackToSavepoint (fst it) 1) (\<lambda>mm.
     Inr (nEntries mm, iterate mm)))) = Inr (1, Inl OUT_OF_BOUNDS)"
  by code_simp

text \<open>
  Releasing level 1 while level 2 is open moves the base of the levels by one only, so an
  entry written at level 2 keeps counting as level 1: a later rollback of a new savepoint
  drops a write that was made before it.
\<close>

theorem release_level1_loses_writes:
  "bindR (mm_run (prollyMutMapInitMode False True) [CPush 1, CPush 2, CInsert [2] 0 [9], CRelease 1, CPush 1]) (\<lambda>mm.
   bindR (mm_run mm [CRollback 1]) (\<lambda>mm'. Inr (nEntries mm, nEntries mm'))) = Inr (1, 0)"
  by code_simp

end
