(* ===== verification/Blob.thy ===== *)
theory Blob
  imports HashSet
begin

text \<open>
  What the wire formats of commits and references share.  A C string is the list of its bytes or
  \<open>None\<close> for the null pointer, and \<open>strlen\<close> stops at the first zero byte; \<open>at_off\<close> states
  what a parser has in front of it, and its lemmas step over one written item at a time.
\<close>

section \<open>C strings\<close>

type_synonym cstr = "byte list option"

definition strlen :: "byte list \<Rightarrow> nat" where
  "strlen s = length (takeWhile (\<lambda>b. b \<noteq> 0) s)"

definition cstr_len :: "cstr \<Rightarrow> nat" where
  "cstr_len z = (case z of Some s \<Rightarrow> strlen s | None \<Rightarrow> 0)"

definition cstr_bytes :: "cstr \<Rightarrow> byte list" where
  "cstr_bytes z = (case z of Some s \<Rightarrow> take (strlen s) s | None \<Rightarrow> [])"

definition c_str :: "byte list \<Rightarrow> byte list" where
  "c_str s = take (strlen s) s"

text \<open>\<open>strcmp( a, b )==0\<close>.\<close>

definition str_eq :: "byte list \<Rightarrow> byte list \<Rightarrow> bool" where
  "str_eq a b = (c_str a = c_str b)"

lemma c_str_takeWhile: "c_str s = takeWhile (\<lambda>b. b \<noteq> 0) s"
  by (simp add: c_str_def strlen_def takeWhile_eq_take [symmetric])

lemma length_c_str [simp]: "length (c_str s) = strlen s"
  by (simp add: c_str_takeWhile strlen_def)

lemma c_str_c_str [simp]: "c_str (c_str s) = c_str s"
proof -
  have "takeWhile P (takeWhile P xs) = takeWhile P xs" for P and xs :: "byte list"
    by (induction xs) (auto dest: set_takeWhileD)
  then show ?thesis unfolding c_str_takeWhile .
qed

lemma str_eq_c_str [simp]: "str_eq (c_str a) b = str_eq a b" "str_eq a (c_str b) = str_eq a b"
  by (simp_all add: str_eq_def)

lemma str_eq_refl [simp]: "str_eq a a"
  by (simp add: str_eq_def)

lemma length_cstr_bytes: "length (cstr_bytes z) = cstr_len z"
  by (auto simp: cstr_bytes_def cstr_len_def strlen_def length_takeWhile_le split: option.split)

lemma strlen_append: "0 \<notin> set a \<Longrightarrow> strlen (a @ s) = length a + strlen s"
  unfolding strlen_def by (induction a) auto

section \<open>Reading what was written\<close>

text \<open>\<open>at_off d p s\<close>: the bytes \<open>s\<close> are what remains of \<open>d\<close> at offset \<open>p\<close>.\<close>

definition at_off :: "byte list \<Rightarrow> nat \<Rightarrow> byte list \<Rightarrow> bool" where
  "at_off d p s \<longleftrightarrow> p \<le> length d \<and> drop p d = s"

lemma at_off_split:
  "at_off d p s \<Longrightarrow> d = take p d @ s \<and> length (take p d) = p"
  by (auto simp: at_off_def)

lemma at_off_bytes:
  assumes "at_off d p (xs @ s)" "n = length xs"
  shows "read_bytes d p n = Inr xs" "at_off d (p + n) s"
proof -
  have l: "length d = p + length xs + length s" using at_off_split [OF assms(1)] by (metis add.assoc length_append)
  then show "read_bytes d p n = Inr xs" using assms by (simp add: at_off_def)
  show "at_off d (p + n) s"
    using assms l by (simp add: at_off_def) (metis add.commute append_eq_conv_conj drop_drop)
qed

lemma at_off_byte:
  assumes "at_off d p (b # s)"
  shows "read_byte d p = Inr b" "at_off d (Suc p) s"
proof -
  have l: "length d = p + length (b # s)" using at_off_split [OF assms] by (metis length_append)
  have "d ! p = b" using assms at_off_split [OF assms] by (metis nth_append_length)
  then show "read_byte d p = Inr b" using l by simp
  show "at_off d (Suc p) s" using at_off_bytes(2) [of d p "[b]" s] assms by simp
qed

lemma at_off_u16:
  assumes "at_off d p (put_u16 v @ s)"
  shows "get_u16 d p = Inr v" "at_off d (p + 2) s"
  using at_off_split [OF assms] get_u16_put [of p "take p d" v s] at_off_bytes(2) [OF assms] by simp_all

lemma at_off_i64:
  assumes "at_off d p (put_i64 v @ s)"
  shows "get_i64 d p = Inr v" "at_off d (p + 8) s"
  using at_off_split [OF assms] get_i64_put [of p "take p d" v s] at_off_bytes(2) [OF assms] by simp_all

lemma at_off_u32:
  assumes "at_off d p (put_u32 v @ s)"
  shows "get_u32 d p = Inr v" "at_off d (p + 4) s"
  using at_off_split [OF assms] get_u32_put [of p "take p d" v s] at_off_bytes(2) [OF assms] by simp_all

lemma at_off_le: "at_off d p s \<Longrightarrow> p + length s = length d"
  by (auto simp: at_off_def)

lemma at_off_self: "at_off d 0 d"
  by (simp add: at_off_def)

end
