(* ===== verification/Commit.thy ===== *)
theory Commit
  imports Blob
begin

text \<open>
  Commits (\<open>doltlite_commit.c\<close>, \<open>doltlite_commit.h\<close>): the record, its wire format v2, and
  the hexadecimal form of hashes.  A C string is the list of its bytes or \<open>None\<close> for the
  null pointer; \<open>strlen\<close> stops at the first zero byte.  A read beyond the input is the
  error \<open>OUT_OF_BOUNDS\<close>, so that \<open>commit_deserialize_overread\<close> exhibits the one the parser
  makes.
\<close>

section \<open>State\<close>

definition DOLTLITE_COMMIT_V2 :: byte where "DOLTLITE_COMMIT_V2 = 2"
definition DOLTLITE_MAX_PARENTS :: nat where "DOLTLITE_MAX_PARENTS = 8"

record commit =
  parentHash :: hash
  catalogHash :: hash
  timestamp :: u64
  zName :: cstr
  zEmail :: cstr
  zMessage :: cstr
  aParents :: "hash list"
  nParents :: nat

text \<open>\<open>memset(c, 0, sizeof(*c))\<close>.\<close>

definition commit0 :: commit where
  "commit0 = \<lparr>parentHash = hash0, catalogHash = hash0, timestamp = 0, zName = None, zEmail = None,
     zMessage = None, aParents = replicate DOLTLITE_MAX_PARENTS hash0, nParents = 0\<rparr>"

definition doltliteCommitParentCount :: "commit \<Rightarrow> nat" where
  "doltliteCommitParentCount c =
     (if nParents c > 0 then nParents c else if prollyHashIsEmpty (parentHash c) then 0 else 1)"

definition doltliteCommitParentHash :: "commit \<Rightarrow> nat \<Rightarrow> hash option" where
  "doltliteCommitParentHash c i =
     (if nParents c > 0 then (if i < nParents c then Some (aParents c ! i) else None)
      else if i = 0 \<and> \<not> prollyHashIsEmpty (parentHash c) then Some (parentHash c)
      else None)"

section \<open>Wire format\<close>

definition put_cstr :: "cstr \<Rightarrow> byte list" where
  "put_cstr z = put_u16 (of_nat (cstr_len z)) @ (if cstr_len z > 0 then cstr_bytes z else [])"

definition doltliteCommitSerialize :: "commit \<Rightarrow> byte list res" where
  "doltliteCommitSerialize c =
     bindR (guardR (\<not> (cstr_len (zName c) > 65535 \<or> cstr_len (zEmail c) > 65535
              \<or> cstr_len (zMessage c) > 65535)) SQLITE_TOOBIG) (\<lambda>_.
     let nPar = (if nParents c > 0 then nParents c else if prollyHashIsEmpty (parentHash c) then 0 else 1) in
     bindR (guardR (\<not> (nPar > DOLTLITE_MAX_PARENTS \<or> nPar > 255)) SQLITE_TOOBIG) (\<lambda>_.
     Inr ([DOLTLITE_COMMIT_V2] @ [of_nat nPar]
          @ (if nPar > 0 \<and> nParents c > 0 then concat (map (\<lambda>i. aParents c ! i) [0..<nPar])
             else if nPar = 1 then parentHash c else [])
          @ catalogHash c @ put_i64 (timestamp c)
          @ put_cstr (zName c) @ put_cstr (zEmail c) @ put_cstr (zMessage c))))"

fun read_hashes :: "byte list \<Rightarrow> nat \<Rightarrow> nat \<Rightarrow> hash list res" where
  "read_hashes d p 0 = Inr []"
| "read_hashes d p (Suc n) =
     bindR (read_bytes d p PROLLY_HASH_SIZE) (\<lambda>h.
     bindR (read_hashes d (p + PROLLY_HASH_SIZE) n) (\<lambda>hs. Inr (h # hs)))"

text \<open>One length-prefixed string: two length bytes, a bounds check, the bytes.\<close>

definition get_cstr :: "byte list \<Rightarrow> nat \<Rightarrow> (byte list \<times> nat) res" where
  "get_cstr d p =
     bindR (get_u16 d p) (\<lambda>n.
     let p = p + 2; n = unat n in
     bindR (guardR (p + n \<le> length d) SQLITE_CORRUPT) (\<lambda>_.
     bindR (read_bytes d p n) (\<lambda>s. Inr (s, p + n))))"

definition doltliteCommitDeserialize :: "byte list \<Rightarrow> commit res" where
  "doltliteCommitDeserialize d =
     bindR (guardR (\<not> length d < 1) SQLITE_CORRUPT) (\<lambda>_.
     bindR (read_byte d 0) (\<lambda>version.
     bindR (guardR (version = DOLTLITE_COMMIT_V2) SQLITE_CORRUPT) (\<lambda>_.
     bindR (guardR (\<not> length d < 3) SQLITE_CORRUPT) (\<lambda>_.
     bindR (read_byte d 1) (\<lambda>np.
     let nPar = unat np; p = 2 in
     bindR (guardR (\<not> nPar > DOLTLITE_MAX_PARENTS) SQLITE_CORRUPT) (\<lambda>_.
     bindR (guardR (\<not> p + nPar * PROLLY_HASH_SIZE + PROLLY_HASH_SIZE + 8 + 6 > length d) SQLITE_CORRUPT) (\<lambda>_.
     bindR (read_hashes d p nPar) (\<lambda>ps.
     let p = p + nPar * PROLLY_HASH_SIZE;
         par = ps @ replicate (DOLTLITE_MAX_PARENTS - nPar) hash0 in
     bindR (read_bytes d p PROLLY_HASH_SIZE) (\<lambda>cat.
     let p = p + PROLLY_HASH_SIZE in
     bindR (get_i64 d p) (\<lambda>ts.
     bindR (get_cstr d (p + 8)) (\<lambda>(name, p).
     bindR (get_cstr d p) (\<lambda>(email, p).
     bindR (get_cstr d p) (\<lambda>(msg, p).
     Inr \<lparr>parentHash = (if nPar > 0 then par ! 0 else hash0), catalogHash = cat, timestamp = ts,
          zName = Some name, zEmail = Some email, zMessage = Some msg,
          aParents = par, nParents = nPar\<rparr>)))))))))))))"

definition doltliteCommitClear :: "commit \<Rightarrow> commit" where
  "doltliteCommitClear c = c\<lparr>zName := None, zEmail := None, zMessage := None\<rparr>"

section \<open>Reading what was written\<close>

lemma at_off_hashes:
  "at_off d p (concat hs @ s) \<Longrightarrow> \<forall>h \<in> set hs. hash_ok h \<Longrightarrow> n = length hs \<Longrightarrow>
     read_hashes d p n = Inr hs \<and> at_off d (p + n * PROLLY_HASH_SIZE) s"
proof (induction hs arbitrary: p n)
  case (Cons h hs)
  have "at_off d p (h @ concat hs @ s)" "PROLLY_HASH_SIZE = length h" using Cons.prems by (simp_all add: hash_ok_def)
  note r = at_off_bytes [OF this]
  then show ?case using Cons.IH [OF r(2)] Cons.prems by (simp add: add.assoc)
qed simp

lemma at_off_cstr:
  assumes "at_off d p (put_cstr z @ s)" "cstr_len z \<le> 65535"
  shows "get_cstr d p = Inr (cstr_bytes z, p + 2 + cstr_len z)" "at_off d (p + 2 + cstr_len z) s"
proof -
  have pc: "put_cstr z = put_u16 (of_nat (cstr_len z)) @ cstr_bytes z"
    using length_cstr_bytes [of z] by (auto simp: put_cstr_def)
  have u: "unat (of_nat (cstr_len z) :: u16) = cstr_len z"
    using assms(2) by (simp add: unat_of_nat take_bit_eq_mod)
  note a = at_off_u16 [OF assms(1) [unfolded pc append_assoc]]
  note b = at_off_bytes [OF a(2) length_cstr_bytes [symmetric]]
  show "at_off d (p + 2 + cstr_len z) s" by (rule b(2))
  then have "p + 2 + cstr_len z \<le> length d" by (simp add: at_off_def)
  then show "get_cstr d p = Inr (cstr_bytes z, p + 2 + cstr_len z)"
    using a(1) b(1) u by (simp add: get_cstr_def)
qed

section \<open>Round trip\<close>

text \<open>The hashes of a commit in memory are twenty bytes each and the parent array has its declared length.\<close>

definition commit_ok :: "commit \<Rightarrow> bool" where
  "commit_ok c \<longleftrightarrow> hash_ok (parentHash c) \<and> hash_ok (catalogHash c) \<and> length (aParents c) = DOLTLITE_MAX_PARENTS \<and>
     (\<forall>h \<in> set (aParents c). hash_ok h)"

text \<open>What deserializing yields: all parents in the array, strings cut at their zero byte.\<close>

definition parents_of :: "commit \<Rightarrow> hash list" where
  "parents_of c = map (\<lambda>i. the (doltliteCommitParentHash c i)) [0..<doltliteCommitParentCount c]"

definition stored_form :: "commit \<Rightarrow> commit" where
  "stored_form c = \<lparr>parentHash = (case parents_of c of [] \<Rightarrow> hash0 | h # _ \<Rightarrow> h), catalogHash = catalogHash c,
     timestamp = timestamp c, zName = Some (cstr_bytes (zName c)), zEmail = Some (cstr_bytes (zEmail c)),
     zMessage = Some (cstr_bytes (zMessage c)),
     aParents = parents_of c @ replicate (DOLTLITE_MAX_PARENTS - length (parents_of c)) hash0,
     nParents = length (parents_of c)\<rparr>"

lemma parents_of_eq:
  "parents_of c = (if nParents c > 0 then map (\<lambda>i. aParents c ! i) [0..<nParents c]
     else if prollyHashIsEmpty (parentHash c) then [] else [parentHash c])"
  by (auto simp: parents_of_def doltliteCommitParentCount_def doltliteCommitParentHash_def intro: map_cong)

lemma serialize_shape:
  assumes "doltliteCommitSerialize c = Inr d"
  shows "d = DOLTLITE_COMMIT_V2 # of_nat (length (parents_of c)) # concat (parents_of c) @ catalogHash c @
      put_i64 (timestamp c) @ put_cstr (zName c) @ put_cstr (zEmail c) @ put_cstr (zMessage c)"
    "length (parents_of c) \<le> DOLTLITE_MAX_PARENTS"
    "cstr_len (zName c) \<le> 65535" "cstr_len (zEmail c) \<le> 65535" "cstr_len (zMessage c) \<le> 65535"
  using assms by (auto simp: doltliteCommitSerialize_def Let_def res_simps parents_of_eq split: if_splits)

lemma parents_of_ok:
  assumes "commit_ok c" "length (parents_of c) \<le> DOLTLITE_MAX_PARENTS"
  shows "\<forall>h \<in> set (parents_of c). hash_ok h"
  using assms
  by (auto simp: commit_ok_def parents_of_eq split: if_splits)

text \<open>
  C29. A commit that the serializer accepts is read back: deserializing the bytes succeeds and
  yields its parents in order, catalog, time and strings.
\<close>

theorem commit_roundtrip:
  assumes ok: "commit_ok c" and s: "doltliteCommitSerialize c = Inr d"
  shows "doltliteCommitDeserialize d = Inr (stored_form c)"
proof -
  note sh = serialize_shape [OF s]
  let ?ps = "parents_of c"
  have hs: "\<forall>h \<in> set ?ps. hash_ok h" by (rule parents_of_ok [OF ok sh(2)])
  have cat: "PROLLY_HASH_SIZE = length (catalogHash c)" using ok by (simp add: commit_ok_def hash_ok_def)
  have np: "unat (of_nat (length ?ps) :: byte) = length ?ps"
    using sh(2) by (simp add: unat_of_nat take_bit_eq_mod DOLTLITE_MAX_PARENTS_def)
  have "at_off d 0 d" by (simp add: at_off_def)
  note a0 = at_off_byte [OF this [unfolded sh(1)], folded sh(1)]
  note a1 = at_off_byte [OF a0(2)]
  note a2 = at_off_hashes [OF a1(2) hs refl, THEN conjunct1] at_off_hashes [OF a1(2) hs refl, THEN conjunct2]
  note a3 = at_off_bytes [OF a2(2) cat]
  note a4 = at_off_i64 [OF a3(2)]
  note a5 = at_off_cstr [OF a4(2) sh(3)]
  note a6 = at_off_cstr [OF a5(2) sh(4)]
  have "at_off d (Suc (Suc 0) + length ?ps * PROLLY_HASH_SIZE + PROLLY_HASH_SIZE + 8 + 2 + cstr_len (zName c)
      + 2 + cstr_len (zEmail c)) (put_cstr (zMessage c) @ [])" using a6(2) by simp
  note a7 = at_off_cstr [OF this sh(5)]
  have len: "Suc (Suc 0) + length ?ps * PROLLY_HASH_SIZE + PROLLY_HASH_SIZE + 8 + 6 \<le> length d"
    using a7(2) by (simp add: at_off_def)
  have l3: "\<not> length d < 1" "\<not> length d < 3" using len by auto
  have hd: "?ps \<noteq> [] \<longrightarrow> (?ps @ replicate (DOLTLITE_MAX_PARENTS - length ?ps) hash0) ! 0
      = (case ?ps of [] \<Rightarrow> hash0 | h # _ \<Rightarrow> h)" by (cases ?ps) simp_all
  show ?thesis
    unfolding doltliteCommitDeserialize_def
    using l3 a0(1) a1(1) a2(1) a3(1) a4(1) a5(1) a6(1) a7(1) np len sh(2) hd
    by (simp add: numeral_2_eq_2 [symmetric] not_less stored_form_def Let_def)
qed

definition sample_commit :: commit where
  "sample_commit = commit0\<lparr>parentHash := replicate 20 7, timestamp := 1700000000, zName := Some [65, 66]\<rparr>"

lemma commit_roundtrip_witness:
  "\<exists>d. doltliteCommitSerialize sample_commit = Inr d \<and>
     doltliteCommitDeserialize d = Inr (stored_form sample_commit) \<and> nParents (stored_form sample_commit) = 1"
proof -
  have ok: "commit_ok sample_commit"
    by (simp add: commit_ok_def sample_commit_def commit0_def hash_ok_def hash0_def PROLLY_HASH_SIZE_def DOLTLITE_MAX_PARENTS_def)
  have "\<exists>d. doltliteCommitSerialize sample_commit = Inr d"
    by (simp add: doltliteCommitSerialize_def sample_commit_def commit0_def cstr_len_def strlen_def DOLTLITE_MAX_PARENTS_def Let_def)
  then obtain d where d: "doltliteCommitSerialize sample_commit = Inr d" by blast
  have "nParents (stored_form sample_commit) = 1" by code_simp
  then show ?thesis using commit_roundtrip [OF ok d] d by blast
qed

text \<open>
  The bounds check of the parser reserves six bytes for the three string lengths in
  total, not for each of them after the preceding string: a name that takes the rest of
  the input makes it read the length of the email beyond the end of the buffer.
\<close>

theorem commit_deserialize_overread:
  "doltliteCommitDeserialize ([2, 0] @ replicate 28 0 @ [4, 0] @ replicate 4 65) = Inl OUT_OF_BOUNDS"
  by code_simp

section \<open>Hexadecimal hashes\<close>

definition hexchars :: "byte list" where
  "hexchars = [48, 49, 50, 51, 52, 53, 54, 55, 56, 57, 97, 98, 99, 100, 101, 102]"

text \<open>Characters are their codes; the terminating zero is not part of the list.\<close>

definition doltliteHashToHex :: "hash \<Rightarrow> byte list" where
  "doltliteHashToHex h =
     concat (map (\<lambda>i. [hexchars ! unat (drop_bit 4 (h ! i) AND 15), hexchars ! unat ((h ! i) AND 15)])
       [0..<PROLLY_HASH_SIZE])"

definition hex_digit :: "byte \<Rightarrow> byte option" where
  "hex_digit ch =
     (if ch \<ge> 48 \<and> ch \<le> 57 then Some (ch - 48)
      else if ch \<ge> 97 \<and> ch \<le> 102 then Some (ch - 97 + 10)
      else if ch \<ge> 65 \<and> ch \<le> 70 then Some (ch - 65 + 10)
      else None)"

fun hex_loop :: "byte list \<Rightarrow> nat \<Rightarrow> hash res" where
  "hex_loop hex 0 = Inr []"
| "hex_loop (ch # cl # hex) (Suc n) =
     (case hex_digit ch of
        None \<Rightarrow> Inl SQLITE_ERROR
      | Some hi \<Rightarrow>
          (case hex_digit cl of
             None \<Rightarrow> Inl SQLITE_ERROR
           | Some lo \<Rightarrow> bindR (hex_loop hex n) (\<lambda>h. Inr ((push_bit 4 hi OR lo) # h))))"
| "hex_loop hex (Suc n) = Inl OUT_OF_BOUNDS"

definition doltliteHexToHash :: "cstr \<Rightarrow> hash res" where
  "doltliteHexToHash hex =
     (case hex of
        None \<Rightarrow> Inl SQLITE_ERROR
      | Some s \<Rightarrow>
          if strlen s < PROLLY_HASH_SIZE * 2 then Inl SQLITE_ERROR
          else hex_loop s PROLLY_HASH_SIZE)"

definition hex_pair :: "byte \<Rightarrow> byte list" where
  "hex_pair b = [hexchars ! unat (drop_bit 4 b AND 15), hexchars ! unat (b AND 15)]"

lemma hex_digit_char:
  assumes "n < 16"
  shows "hex_digit (hexchars ! n) = Some (of_nat n)" "hexchars ! n \<noteq> 0"
proof -
  have "\<forall>n \<in> set [0..<16]. hex_digit (hexchars ! n) = Some (of_nat n) \<and> hexchars ! n \<noteq> 0" by code_simp
  then show "hex_digit (hexchars ! n) = Some (of_nat n)" "hexchars ! n \<noteq> 0" using assms by simp_all
qed

lemma nibble_less: "unat (b AND 15 :: byte) < 16"
proof -
  have "b AND 15 \<le> 15" by (rule word_and_le1)
  then show ?thesis by (simp add: word_le_nat_alt)
qed

lemma nibbles_join: "push_bit 4 (drop_bit 4 b AND 15) OR (b AND 15) = (b :: byte)"
proof (rule bit_word_eqI)
  fix n assume n: "n < LENGTH(8)"
  have 15: "(15 :: byte) = mask 4" by (simp add: mask_eq_exp_minus_1)
  show "bit (push_bit 4 (drop_bit 4 b AND 15) OR (b AND 15)) n = bit b n"
    unfolding 15 using n by (auto simp: bit_simps)
qed

lemma hex_loop_pairs: "hex_loop (concat (map hex_pair h) @ s) (length h) = Inr h"
proof (induction h)
  case (Cons b h)
  have "hex_loop (hex_pair b @ concat (map hex_pair h) @ s) (length (b # h)) = Inr (b # h)"
    unfolding hex_pair_def append_Cons append_Nil list.size hex_loop.simps add_0_right add_Suc_right
      hex_digit_char(1) [OF nibble_less] option.case Cons bindR_Inr
    using nibbles_join [of b] by simp
  then show ?case by simp
qed simp

text \<open>
  Hexadecimal round trip: the forty characters written for a hash, whatever follows them,
  are read back as that hash.
\<close>

theorem hash_hex_roundtrip:
  assumes "hash_ok h"
  shows "doltliteHexToHash (Some (doltliteHashToHex h @ s)) = Inr h"
proof -
  have l: "length h = PROLLY_HASH_SIZE" using assms by (simp add: hash_ok_def)
  have "map (\<lambda>i. hex_pair (h ! i)) [0..<PROLLY_HASH_SIZE] = map hex_pair h"
    unfolding l [symmetric] by (rule nth_equalityI) simp_all
  then have c: "doltliteHashToHex h = concat (map hex_pair h)"
    unfolding doltliteHashToHex_def hex_pair_def [symmetric] by simp
  have "0 \<notin> set (hex_pair b)" for b
    using hex_digit_char(2) [OF nibble_less [of b]] hex_digit_char(2) [OF nibble_less [of "drop_bit 4 b"]]
    by (simp add: hex_pair_def)
  then have "0 \<notin> set (concat (map hex_pair h))" by simp
  moreover have "length (concat (map hex_pair h)) = length h * 2"
    by (induction h) (simp_all add: hex_pair_def)
  ultimately have "\<not> strlen (concat (map hex_pair h) @ s) < PROLLY_HASH_SIZE * 2" by (simp add: strlen_append l)
  then show ?thesis using hex_loop_pairs [of h s] by (simp add: doltliteHexToHash_def c l)
qed

lemma hash_hex_roundtrip_witness:
  "doltliteHexToHash (Some (doltliteHashToHex (replicate 20 171) @ [33])) = Inr (replicate 20 171)"
  by (rule hash_hex_roundtrip) (simp add: hash_ok_def PROLLY_HASH_SIZE_def)

end
