(* ===== verification/Ancestor.thy ===== *)
theory Ancestor
  imports Commit
begin

text \<open>
  The search for a merge base (\<open>doltlite_ancestor.c\<close>).  The file has an open-addressing set
  of its own, with unbounded probing loops and a growth that copies the cells; it is another
  provider of \<open>visited_set\<close>.  The search walks the ancestors of the first commit breadth
  first into such a set, then those of the second until it meets one of them.  The commits
  are read with \<open>doltliteLoadCommit\<close> (\<open>doltlite_ref.c\<close>), whose chunk read is a parameter.
  The breadth-first loops take a fuel; \<open>8 * n + 2\<close> rounds are enough for a history of \<open>n\<close>
  commits, since a commit has at most eight parents.
\<close>

section \<open>The hash set of the search\<close>

text \<open>Its struct has the fields of \<open>hashset\<close>.\<close>

definition hashSetInit :: "nat \<Rightarrow> hashset" where
  "hashSetInit nInitial = hs_new (double_until 16 (nInitial * 2))"

definition hashSetIndex :: "hashset \<Rightarrow> hash \<Rightarrow> nat" where
  "hashSetIndex hs h =
     (let v = ucast (h ! 0) OR push_bit 8 (ucast (h ! 1)) OR push_bit 16 (ucast (h ! 2))
            OR push_bit 24 (ucast (h ! 3)) :: u32
      in nat (uint v AND int (nSlots hs - 1)))"

fun hset_free :: "hashset \<Rightarrow> nat \<Rightarrow> nat \<Rightarrow> nat res" where
  "hset_free hs idx 0 = Inl NO_RETURN"
| "hset_free hs idx (Suc f) =
     (if aUsed hs ! idx then hset_free hs ((idx + 1) AND (nSlots hs - 1)) f else Inr idx)"

fun hset_find :: "hashset \<Rightarrow> hash \<Rightarrow> nat \<Rightarrow> nat \<Rightarrow> (nat \<times> bool) res" where
  "hset_find hs h idx 0 = Inl NO_RETURN"
| "hset_find hs h idx (Suc f) =
     (if aUsed hs ! idx then
        if aSlots hs ! idx = h then Inr (idx, True)
        else hset_find hs h ((idx + 1) AND (nSlots hs - 1)) f
      else Inr (idx, False))"

definition hset_put :: "hashset \<Rightarrow> nat \<Rightarrow> hash \<Rightarrow> hashset" where
  "hset_put hs idx h =
     hs\<lparr>aSlots := (aSlots hs)[idx := h], aUsed := (aUsed hs)[idx := True], nUsed := nUsed hs + 1\<rparr>"

fun hset_copy :: "hashset \<Rightarrow> nat list \<Rightarrow> hashset \<Rightarrow> hashset res" where
  "hset_copy hs [] new = Inr new"
| "hset_copy hs (i # is) new =
     (if aUsed hs ! i
      then bindR (hset_free new (hashSetIndex new (aSlots hs ! i)) (nSlots new)) (\<lambda>idx.
           hset_copy hs is (hset_put new idx (aSlots hs ! i)))
      else hset_copy hs is new)"

definition hashSetGrow :: "hashset \<Rightarrow> hashset res" where
  "hashSetGrow hs = hset_copy hs [0..<nSlots hs] (hs_new (nSlots hs * 2))"

definition hashSetInsert :: "hashset \<Rightarrow> hash \<Rightarrow> hashset res" where
  "hashSetInsert hs h =
     bindR (if nUsed hs * 2 \<ge> nSlots hs then hashSetGrow hs else Inr hs) (\<lambda>hs.
     bindR (hset_find hs h (hashSetIndex hs h) (nSlots hs)) (\<lambda>r.
     if snd r then Inr hs else Inr (hset_put hs (fst r) h)))"

definition hashSetContains :: "hashset \<Rightarrow> hash \<Rightarrow> bool res" where
  "hashSetContains hs h =
     bindR (hset_find hs h (hashSetIndex hs h) (nSlots hs)) (\<lambda>r. Inr (snd r))"

section \<open>Loading commits and searching\<close>

definition doltliteLoadCommit :: "(hash \<Rightarrow> byte list res) \<Rightarrow> hash \<Rightarrow> commit res" where
  "doltliteLoadCommit get h = bindR (get h) doltliteCommitDeserialize"

definition loadCommitByHash :: "(hash \<Rightarrow> byte list res) \<Rightarrow> hash \<Rightarrow> commit res" where
  "loadCommitByHash get h = (if prollyHashIsEmpty h then Inl SQLITE_NOTFOUND else doltliteLoadCommit get h)"

definition enqueue_parents :: "hash list \<Rightarrow> commit \<Rightarrow> hash list" where
  "enqueue_parents queue c =
     queue @ concat (map (\<lambda>i. case doltliteCommitParentHash c i of None \<Rightarrow> [] | Some p \<Rightarrow> [p])
                       [0..<doltliteCommitParentCount c])"

text \<open>The queue is its part between \<open>qHead\<close> and \<open>qTail\<close>.\<close>

fun ancestorBfsCollect ::
  "(hash \<Rightarrow> byte list res) \<Rightarrow> nat \<Rightarrow> hash list \<Rightarrow> hashset \<Rightarrow> hashset res" where
  "ancestorBfsCollect get 0 queue vis = Inl NO_RETURN"
| "ancestorBfsCollect get (Suc f) [] vis = Inr vis"
| "ancestorBfsCollect get (Suc f) (cur # queue) vis =
     (if prollyHashIsEmpty cur then ancestorBfsCollect get f queue vis
      else bindR (hashSetContains vis cur) (\<lambda>seen.
      if seen then ancestorBfsCollect get f queue vis
      else bindR (hashSetInsert vis cur) (\<lambda>vis.
      bindR (loadCommitByHash get cur) (\<lambda>c.
      ancestorBfsCollect get f (enqueue_parents queue c) vis))))"

fun ancestor_search ::
  "(hash \<Rightarrow> byte list res) \<Rightarrow> hashset \<Rightarrow> nat \<Rightarrow> hash list \<Rightarrow> hashset \<Rightarrow> hash res" where
  "ancestor_search get anc 0 queue vis = Inl NO_RETURN"
| "ancestor_search get anc (Suc f) [] vis = Inl SQLITE_NOTFOUND"
| "ancestor_search get anc (Suc f) (cur # queue) vis =
     (if prollyHashIsEmpty cur then ancestor_search get anc f queue vis
      else bindR (hashSetContains vis cur) (\<lambda>seen.
      if seen then ancestor_search get anc f queue vis
      else bindR (hashSetInsert vis cur) (\<lambda>vis.
      bindR (hashSetContains anc cur) (\<lambda>common.
      if common then Inr cur
      else bindR (loadCommitByHash get cur) (\<lambda>c.
      ancestor_search get anc f (enqueue_parents queue c) vis)))))"

definition doltliteFindAncestor ::
  "(hash \<Rightarrow> byte list res) \<Rightarrow> nat \<Rightarrow> hash \<Rightarrow> hash \<Rightarrow> hash res" where
  "doltliteFindAncestor get f h1 h2 =
     (if prollyHashIsEmpty h1 \<or> prollyHashIsEmpty h2 then Inl SQLITE_NOTFOUND
      else if prollyHashCompare h1 h2 = 0 then Inr h1
      else bindR (ancestorBfsCollect get f [h1] (hashSetInit 64)) (\<lambda>anc.
           ancestor_search get anc f [h2] (hashSetInit 64)))"

section \<open>The set is a visited set\<close>

lemma hashSetIndex_slot: "hashSetIndex hs h = prollyHashSetSlotIndex h (nSlots hs)"
  by (simp add: hashSetIndex_def prollyHashSetSlotIndex_def)

lemma hset_put_eq: "hset_put hs i h = hs_put hs i h"
  by (simp add: hset_put_def hs_put_def)

lemma slot_less: "pow2 n \<Longrightarrow> prollyHashSetSlotIndex h n < n"
  by (simp add: prollyHashSetSlotIndex_def Let_def nat_uint_and and_mask_pow2_Suc)

lemma hset_next: "pow2 n \<Longrightarrow> (s mod n + 1) AND (n - 1) = Suc s mod n"
  by (simp add: and_mask_pow2_Suc mod_Suc_eq)

lemma hset_free_first:
  "pow2 (nSlots hs) \<Longrightarrow> first_free (hs_table hs) s f = Some j \<Longrightarrow> hset_free hs (s mod nSlots hs) f = Inr j"
proof (induction f arbitrary: s)
  case (Suc f)
  have "s mod nSlots hs < nSlots hs" by (rule mod_less_divisor [OF pow2_pos [OF Suc.prems(1)]])
  then show ?case
    using Suc.prems Suc.IH [of "Suc s"] hset_next [OF Suc.prems(1), of s]
    by (auto simp: hs_table_nth split: if_splits)
qed simp

lemma hset_find_probe:
  assumes p2: "pow2 (nSlots hs)"
  shows "first_free (hs_table hs) s f = Some j \<Longrightarrow> hset_find hs h (s mod nSlots hs) f =
       Inr (case probe (hs_table hs) h s f of Some i \<Rightarrow> (i, True) | None \<Rightarrow> (j, False))"
proof (induction f arbitrary: s)
  case (Suc f)
  let ?i = "s mod nSlots hs"
  have sl: "?i < nSlots hs" by (rule mod_less_divisor [OF pow2_pos [OF p2]])
  note t = hs_table_nth [OF sl]
  show ?case
  proof (cases "aUsed hs ! ?i")
    case True
    then have "first_free (hs_table hs) (Suc s) f = Some j" using Suc.prems t by simp
    note ih = Suc.IH [OF this]
    have f: "hset_find hs h ?i (Suc f) =
        (if aSlots hs ! ?i = h then Inr (?i, True) else hset_find hs h (Suc s mod nSlots hs) f)"
      using True by (simp only: hset_find.simps hset_next [OF p2] if_True)
    have "probe (hs_table hs) h s (Suc f) =
        (if aSlots hs ! ?i = h then Some ?i else probe (hs_table hs) h (Suc s) f)"
      using True by (simp only: probe.simps length_hs_table t if_True option.case)
    then show ?thesis unfolding f using ih by simp
  next
    case False
    then show ?thesis using Suc.prems t by simp
  qed
qed simp

definition anc_inv :: "hashset \<Rightarrow> bool" where
  "anc_inv hs \<longleftrightarrow> hs_shape hs \<and> nUsed hs < nSlots hs"

lemma anc_inv_free:
  assumes "anc_inv hs"
  shows "\<exists>j. first_free (hs_table hs) s (nSlots hs) = Some j"
proof -
  have "probe_inv (\<lambda>h. prollyHashSetSlotIndex h (nSlots hs)) (hs_table hs)"
    "card (table_keys (hs_table hs)) < length (hs_table hs)"
    using assms by (simp_all add: anc_inv_def hs_shape_def hs_abs_def)
  then obtain e where "e < length (hs_table hs)" "hs_table hs ! e = None" using card_table_keys_less by blast
  then show ?thesis using first_free_exists [of e "hs_table hs" s] by simp
qed

lemma hset_find_correct:
  assumes inv: "anc_inv hs"
  shows "\<exists>j. first_free (hs_table hs) (hashSetIndex hs h) (nSlots hs) = Some j \<and>
     hset_find hs h (hashSetIndex hs h) (nSlots hs) =
       Inr (case probe (hs_table hs) h (hashSetIndex hs h) (nSlots hs) of Some i \<Rightarrow> (i, True) | None \<Rightarrow> (j, False)) \<and>
     (probe (hs_table hs) h (hashSetIndex hs h) (nSlots hs) = None \<longleftrightarrow> h \<notin> hs_abs hs)"
proof -
  have sh: "pow2 (nSlots hs)" "probe_inv (\<lambda>h. prollyHashSetSlotIndex h (nSlots hs)) (hs_table hs)"
    using inv by (simp_all add: anc_inv_def hs_shape_def)
  obtain j where j: "first_free (hs_table hs) (hashSetIndex hs h) (nSlots hs) = Some j"
    using anc_inv_free [OF inv] by blast
  have "hashSetIndex hs h mod nSlots hs = hashSetIndex hs h"
    using slot_less [OF sh(1)] by (simp add: hashSetIndex_slot)
  then show ?thesis
    using j hset_find_probe [OF sh(1) j, of h] probe_None [OF sh(2), of h] pow2_pos [OF sh(1)]
    by (simp add: hashSetIndex_slot hs_abs_def)
qed

lemma hashSetContains_eq: "anc_inv hs \<Longrightarrow> hashSetContains hs h = Inr (h \<in> hs_abs hs)"
  using hset_find_correct [of hs h]
  by (auto simp: hashSetContains_def split: option.splits)

lemma hs_put_ok:
  assumes sh: "hs_shape hs" and new: "h \<notin> hs_abs hs"
    and j: "first_free (hs_table hs) (hashSetIndex hs h) (nSlots hs) = Some j"
  shows "hs_shape (hs_put hs j h)" "hs_abs (hs_put hs j h) = insert h (hs_abs hs)"
    "nSlots (hs_put hs j h) = nSlots hs" "nUsed (hs_put hs j h) = nUsed hs + 1"
proof -
  let ?st = "\<lambda>h. prollyHashSetSlotIndex h (nSlots hs)" and ?t = "hs_table hs"
  have p: "probe_inv ?st ?t" "h \<notin> table_keys ?t" "length ?t > 0"
    "first_free ?t (?st h) (length ?t) = Some j"
    using sh new j by (simp_all add: hs_shape_def hs_abs_def hashSetIndex_slot)
  note ins = probe_inv_insert [OF p(1,2,4,3)]
  have tp: "hs_table (hs_put hs j h) = ?t[j := Some h]"
    using ins(3) sh by (intro hs_table_put) (simp_all add: hs_shape_def)
  show ab: "hs_abs (hs_put hs j h) = insert h (hs_abs hs)" using ins(2) tp by (simp add: hs_abs_def)
  show n: "nSlots (hs_put hs j h) = nSlots hs" "nUsed (hs_put hs j h) = nUsed hs + 1" by (simp_all add: hs_put_def)
  show "hs_shape (hs_put hs j h)"
    unfolding hs_shape_def tp ab using ins(1) sh new by (simp add: hs_shape_def hs_put_def)
qed

lemma hset_copy_correct:
  assumes "hs_shape new" "nUsed new + length is < nSlots new" "hs_abs new \<inter> {aSlots hs ! i | i. i \<in> set is \<and> aUsed hs ! i} = {}"
    "distinct (map (\<lambda>i. aSlots hs ! i) (filter (\<lambda>i. aUsed hs ! i) is))"
  shows "\<exists>hs'. hset_copy hs is new = Inr hs' \<and> hs_shape hs' \<and> nSlots hs' = nSlots new \<and>
     hs_abs hs' = hs_abs new \<union> {aSlots hs ! i | i. i \<in> set is \<and> aUsed hs ! i}"
  using assms
proof (induction "is" arbitrary: new)
  case (Cons i "is")
  show ?case
  proof (cases "aUsed hs ! i")
    case True
    let ?h = "aSlots hs ! i"
    have p2: "pow2 (nSlots new)" using Cons.prems(1) by (simp add: hs_shape_def)
    have nw: "?h \<notin> hs_abs new" using Cons.prems(3) True by auto
    have "anc_inv new" using Cons.prems(1,2) by (simp add: anc_inv_def)
    then obtain j where j: "first_free (hs_table new) (hashSetIndex new ?h) (nSlots new) = Some j"
      using anc_inv_free by blast
    note put = hs_put_ok [OF Cons.prems(1) nw j]
    have "hashSetIndex new ?h mod nSlots new = hashSetIndex new ?h" using slot_less [OF p2] by (simp add: hashSetIndex_slot)
    then have f: "hset_free new (hashSetIndex new ?h) (nSlots new) = Inr j" using hset_free_first [OF p2 j] by simp
    have "?h \<notin> {aSlots hs ! i | i. i \<in> set is \<and> aUsed hs ! i}" using Cons.prems(4) True by auto
    then have "hs_abs (hs_put new j ?h) \<inter> {aSlots hs ! i | i. i \<in> set is \<and> aUsed hs ! i} = {}"
      using Cons.prems(3) put(2) by auto
    moreover have "distinct (map (\<lambda>i. aSlots hs ! i) (filter (\<lambda>i. aUsed hs ! i) is))"
      using Cons.prems(4) True by simp
    ultimately obtain hs' where "hset_copy hs is (hs_put new j ?h) = Inr hs'" "hs_shape hs'"
      "nSlots hs' = nSlots new" "hs_abs hs' = hs_abs (hs_put new j ?h) \<union> {aSlots hs ! i | i. i \<in> set is \<and> aUsed hs ! i}"
      using Cons.IH [OF put(1)] Cons.prems(2) put(3,4) by auto
    then show ?thesis using True f put(2) by (auto simp: hset_put_eq)
  next
    case False
    have "\<exists>hs'. hset_copy hs is new = Inr hs' \<and> hs_shape hs' \<and> nSlots hs' = nSlots new \<and>
      hs_abs hs' = hs_abs new \<union> {aSlots hs ! i | i. i \<in> set is \<and> aUsed hs ! i}"
      by (rule Cons.IH) (use Cons.prems False in auto)
    then show ?thesis using False by auto
  qed
qed simp

lemma hashSetGrow_correct:
  assumes sh: "hs_shape hs"
  shows "\<exists>g. hashSetGrow hs = Inr g \<and> hs_shape g \<and> nSlots g = nSlots hs * 2 \<and> hs_abs g = hs_abs hs"
proof -
  let ?new = "hs_new (nSlots hs * 2)"
  have n: "hs_shape ?new \<and> hs_abs ?new = {}" "nSlots ?new = nSlots hs * 2" "nUsed ?new = 0"
    using sh by (intro hs_new_shape) (auto simp: hs_shape_def hs_new_def)
  have inv: "probe_inv (\<lambda>h. prollyHashSetSlotIndex h (nSlots hs)) (hs_table hs)" "2 \<le> nSlots hs"
    using sh by (simp_all add: hs_shape_def)
  have "distinct (map (\<lambda>i. aSlots hs ! i) (filter (\<lambda>i. aUsed hs ! i) [0..<nSlots hs]))"
    unfolding distinct_map
  proof
    show "inj_on ((!) (aSlots hs)) (set (filter ((!) (aUsed hs)) [0..<nSlots hs]))"
      by (rule inj_onI) (use probe_inv_unique [OF inv(1)] in \<open>auto simp: hs_table_nth\<close>)
  qed simp
  then obtain g where "hset_copy hs [0..<nSlots hs] ?new = Inr g" "hs_shape g" "nSlots g = nSlots hs * 2"
    "hs_abs g = {aSlots hs ! i | i. i \<in> set [0..<nSlots hs] \<and> aUsed hs ! i}"
    using hset_copy_correct [of ?new "[0..<nSlots hs]" hs] n inv(2) by auto
  then show ?thesis using hs_abs_used [OF sh] by (simp add: hashSetGrow_def)
qed

lemma hashSetInsert_ok:
  assumes inv: "anc_inv hs"
  shows "\<exists>hs'. hashSetInsert hs h = Inr hs' \<and> anc_inv hs' \<and> hs_abs hs' = insert h (hs_abs hs)"
proof -
  obtain g where g: "(if nUsed hs * 2 \<ge> nSlots hs then hashSetGrow hs else Inr hs) = Inr g" "hs_shape g"
    "hs_abs g = hs_abs hs" "nUsed g + 1 < nSlots g"
  proof (cases "nUsed hs * 2 \<ge> nSlots hs")
    case True
    have sh: "hs_shape hs" and n: "nUsed hs < nSlots hs" using inv by (simp_all add: anc_inv_def)
    obtain g where g: "hashSetGrow hs = Inr g" "hs_shape g" "nSlots g = nSlots hs * 2" "hs_abs g = hs_abs hs"
      using hashSetGrow_correct [OF sh] by blast
    have "nUsed g = nUsed hs" using g(2,4) sh by (simp add: hs_shape_def)
    then show ?thesis using that [of g] True g n by simp
  next
    case False
    have "2 \<le> nSlots hs" using inv by (simp add: anc_inv_def hs_shape_def)
    then show ?thesis using that [of hs] False inv by (simp add: anc_inv_def)
  qed
  have ig: "anc_inv g" using g(2,4) by (simp add: anc_inv_def)
  obtain j where j: "first_free (hs_table g) (hashSetIndex g h) (nSlots g) = Some j"
    "hset_find g h (hashSetIndex g h) (nSlots g) =
       Inr (case probe (hs_table g) h (hashSetIndex g h) (nSlots g) of Some i \<Rightarrow> (i, True) | None \<Rightarrow> (j, False))"
    "probe (hs_table g) h (hashSetIndex g h) (nSlots g) = None \<longleftrightarrow> h \<notin> hs_abs g"
    using hset_find_correct [OF ig] by blast
  show ?thesis
  proof (cases "h \<in> hs_abs g")
    case True
    then obtain i where "probe (hs_table g) h (hashSetIndex g h) (nSlots g) = Some i" using j(3) by blast
    then have "hset_find g h (hashSetIndex g h) (nSlots g) = Inr (i, True)" using j(2) by simp
    then have "hashSetInsert hs h = Inr g" by (simp add: hashSetInsert_def g(1))
    then show ?thesis using ig True g(3) by (simp add: insert_absorb)
  next
    case False
    note put = hs_put_ok [OF g(2) False j(1)]
    have "anc_inv (hs_put g j h)" using put g(4) by (simp add: anc_inv_def)
    moreover have "hset_find g h (hashSetIndex g h) (nSlots g) = Inr (j, False)" using j(2,3) False by simp
    then have "hashSetInsert hs h = Inr (hs_put g j h)" by (simp add: hashSetInsert_def g(1) hset_put_eq)
    ultimately show ?thesis using put(2) g(3) by simp
  qed
qed

interpretation anc: visited_set anc_inv hs_abs "\<lambda>hs h. hashSetContains hs h = Inr True" hashSetInsert "\<lambda>_. True"
proof unfold_locales
  fix s h s' assume "anc_inv s" "hashSetInsert s h = Inr s'"
  then show "anc_inv s' \<and> hs_abs s' = insert h (hs_abs s)" using hashSetInsert_ok [of s h] by auto
next
  fix s h e assume "anc_inv s" "hashSetInsert s h = Inl e"
  then show "e = SQLITE_NOMEM \<and> \<not> True" using hashSetInsert_ok [of s h] by auto
qed (simp_all add: hashSetContains_eq)

lemma hashSetInit_ok: "anc_inv (hashSetInit n)" "hs_abs (hashSetInit n) = {}"
proof -
  have p: "pow2 (double_until 16 (n * 2))" by (rule double_until_pow2) (simp add: pow2_def exI [of _ 4])
  have g: "2 \<le> double_until 16 (n * 2)" using double_until_ge [of 16 "n * 2"] by simp
  show "anc_inv (hashSetInit n)" "hs_abs (hashSetInit n) = {}"
    using hs_new_shape [OF p g] g by (simp_all add: hashSetInit_def anc_inv_def) (simp add: hs_new_def)
qed

section \<open>Breadth-first search\<close>

definition commit_edge :: "(hash \<Rightarrow> byte list res) \<Rightarrow> hash \<Rightarrow> hash \<Rightarrow> bool" where
  "commit_edge get a b \<longleftrightarrow>
     (\<exists>c. doltliteLoadCommit get a = Inr c \<and> b \<in> set (parents_of c) \<and> \<not> prollyHashIsEmpty b)"

inductive ancestor_of :: "(hash \<Rightarrow> byte list res) \<Rightarrow> hash \<Rightarrow> hash \<Rightarrow> bool" for get h where
  self: "\<not> prollyHashIsEmpty h \<Longrightarrow> ancestor_of get h h"
| parent: "ancestor_of get h x \<Longrightarrow> commit_edge get x y \<Longrightarrow> ancestor_of get h y"

text \<open>The history of a commit is finite and every commit in it can be loaded.\<close>

definition history_ok :: "(hash \<Rightarrow> byte list res) \<Rightarrow> hash \<Rightarrow> bool" where
  "history_ok get h \<longleftrightarrow> finite {x. ancestor_of get h x} \<and>
     (\<forall>x. ancestor_of get h x \<longrightarrow> (\<exists>c. doltliteLoadCommit get x = Inr c))"

lemma ancestor_nonempty: "ancestor_of get h x \<Longrightarrow> \<not> prollyHashIsEmpty x"
  by (induction rule: ancestor_of.induct) (auto simp: commit_edge_def)

lemma ancestor_closed:
  assumes "ancestor_of get h x" "h \<in> V" "\<And>a b. a \<in> V \<Longrightarrow> commit_edge get a b \<Longrightarrow> b \<in> V"
  shows "x \<in> V"
  using assms(1) by (induction rule: ancestor_of.induct) (use assms(2,3) in auto)

lemma enqueue_parents_eq: "enqueue_parents queue c = queue @ parents_of c"
proof -
  have "map (\<lambda>i. case doltliteCommitParentHash c i of None \<Rightarrow> [] | Some p \<Rightarrow> [p]) [0..<doltliteCommitParentCount c]
      = map (\<lambda>x. [x]) (parents_of c)"
    by (auto simp: parents_of_def doltliteCommitParentHash_def doltliteCommitParentCount_def)
  moreover have "concat (map (\<lambda>x. [x]) xs) = xs" for xs :: "hash list" by (induction xs) simp_all
  ultimately show ?thesis by (simp add: enqueue_parents_def)
qed

lemma deserialize_parents:
  assumes "doltliteCommitDeserialize d = Inr c"
  shows "length (parents_of c) \<le> DOLTLITE_MAX_PARENTS"
  using assms
  by (auto simp: doltliteCommitDeserialize_def Let_def res_simps parents_of_eq DOLTLITE_MAX_PARENTS_def split: if_splits prod.splits)

lemma load_parents: "doltliteLoadCommit get h = Inr c \<Longrightarrow> length (parents_of c) \<le> 8"
  using deserialize_parents by (auto simp: doltliteLoadCommit_def res_simps DOLTLITE_MAX_PARENTS_def)

text \<open>One step of the walk: what is pending, what is left.\<close>

definition bfs_ok :: "(hash \<Rightarrow> byte list res) \<Rightarrow> hash set \<Rightarrow> hash list \<Rightarrow> hashset \<Rightarrow> bool" where
  "bfs_ok get R queue vis \<longleftrightarrow> anc_inv vis \<and> hs_abs vis \<subseteq> R \<and> {q \<in> set queue. \<not> prollyHashIsEmpty q} \<subseteq> R \<and>
     (\<forall>a \<in> hs_abs vis. \<forall>b. commit_edge get a b \<longrightarrow> b \<in> hs_abs vis \<union> set queue)"

definition closed_region :: "(hash \<Rightarrow> byte list res) \<Rightarrow> hash set \<Rightarrow> bool" where
  "closed_region get R \<longleftrightarrow> finite R \<and> (\<forall>x \<in> R. \<not> prollyHashIsEmpty x \<and> (\<exists>c. doltliteLoadCommit get x = Inr c) \<and>
     (\<forall>y. commit_edge get x y \<longrightarrow> y \<in> R))"

lemma history_region: "history_ok get h \<Longrightarrow> closed_region get {x. ancestor_of get h x}"
  by (auto simp: history_ok_def closed_region_def intro: ancestor_of.parent dest: ancestor_nonempty)

lemma bfs_skip:
  assumes ok: "bfs_ok get R (cur # queue) vis" and skip: "prollyHashIsEmpty cur \<or> cur \<in> hs_abs vis"
  shows "bfs_ok get R queue vis"
proof -
  have "b \<in> hs_abs vis \<union> set queue" if e: "a \<in> hs_abs vis" "commit_edge get a b" for a b
  proof -
    have "b \<in> hs_abs vis \<union> set (cur # queue)" using ok e unfolding bfs_ok_def by blast
    moreover have "\<not> prollyHashIsEmpty b" using e(2) by (auto simp: commit_edge_def)
    ultimately show ?thesis using skip by auto
  qed
  then show ?thesis using ok by (auto simp: bfs_ok_def)
qed

lemma bfs_visit:
  assumes ok: "bfs_ok get R (cur # queue) vis" and R: "closed_region get R"
    and new: "\<not> prollyHashIsEmpty cur" "cur \<notin> hs_abs vis"
  shows "\<exists>vis' c. hashSetInsert vis cur = Inr vis' \<and> hs_abs vis' = insert cur (hs_abs vis) \<and>
     loadCommitByHash get cur = Inr c \<and> bfs_ok get R (enqueue_parents queue c) vis' \<and>
     length (enqueue_parents queue c) + 8 * card (R - hs_abs vis') \<le> length queue + 8 * card (R - hs_abs vis)"
proof -
  have inv: "anc_inv vis" and cur: "cur \<in> R" using ok new(1) by (auto simp: bfs_ok_def)
  obtain vis' where v: "hashSetInsert vis cur = Inr vis'" "anc_inv vis'" "hs_abs vis' = insert cur (hs_abs vis)"
    using anc.add_ok [OF inv TrueI, of cur] by blast
  obtain c where c: "doltliteLoadCommit get cur = Inr c" using R cur by (auto simp: closed_region_def)
  have e: "commit_edge get cur b \<longleftrightarrow> b \<in> set (parents_of c) \<and> \<not> prollyHashIsEmpty b" for b
    by (simp add: commit_edge_def c)
  have "{q \<in> set (parents_of c). \<not> prollyHashIsEmpty q} \<subseteq> R" using R cur e unfolding closed_region_def by blast
  then have "bfs_ok get R (enqueue_parents queue c) vis'"
    using ok v cur e unfolding bfs_ok_def enqueue_parents_eq by auto
  moreover have "R - hs_abs vis = insert cur (R - hs_abs vis')" "cur \<notin> R - hs_abs vis'" "finite (R - hs_abs vis')"
    using cur new(2) v(3) R by (auto simp: closed_region_def)
  then have "card (R - hs_abs vis) = Suc (card (R - hs_abs vis'))" by simp
  ultimately show ?thesis
    using v c new(1) load_parents [OF c] by (simp add: loadCommitByHash_def enqueue_parents_eq)
qed

lemma ancestorBfsCollect_correct:
  assumes "closed_region get R" "bfs_ok get R queue vis" "length queue + 8 * card (R - hs_abs vis) < f"
  shows "\<exists>v. ancestorBfsCollect get f queue vis = Inr v \<and> bfs_ok get R [] v \<and> hs_abs vis \<subseteq> hs_abs v \<and>
     {q \<in> set queue. \<not> prollyHashIsEmpty q} \<subseteq> hs_abs v"
  using assms(2,3)
proof (induction f arbitrary: queue vis)
  case (Suc f)
  show ?case
  proof (cases queue)
    case Nil
    then show ?thesis using Suc.prems(1) by simp
  next
    case q: (Cons cur queue')
    have inv: "anc_inv vis" using Suc.prems(1) by (simp add: bfs_ok_def)
    show ?thesis
    proof (cases "prollyHashIsEmpty cur \<or> cur \<in> hs_abs vis")
      case True
      obtain v where v: "ancestorBfsCollect get f queue' vis = Inr v" "bfs_ok get R [] v" "hs_abs vis \<subseteq> hs_abs v"
        "{q \<in> set queue'. \<not> prollyHashIsEmpty q} \<subseteq> hs_abs v"
        using Suc.IH [OF bfs_skip [OF Suc.prems(1) [unfolded q] True]] Suc.prems(2) q by auto
      have "ancestorBfsCollect get (Suc f) queue vis = Inr v"
        using True v(1) hashSetContains_eq [OF inv] by (auto simp: q)
      then show ?thesis using v True by (auto simp: q)
    next
      case False
      obtain vis' c where n: "hashSetInsert vis cur = Inr vis'" "hs_abs vis' = insert cur (hs_abs vis)"
        "loadCommitByHash get cur = Inr c" "bfs_ok get R (enqueue_parents queue' c) vis'"
        "length (enqueue_parents queue' c) + 8 * card (R - hs_abs vis') \<le> length queue' + 8 * card (R - hs_abs vis)"
        using bfs_visit [OF Suc.prems(1) [unfolded q] assms(1)] False by blast
      have fuel: "length (enqueue_parents queue' c) + 8 * card (R - hs_abs vis') < f"
        using n(5) Suc.prems(2) q by simp
      obtain v where v: "ancestorBfsCollect get f (enqueue_parents queue' c) vis' = Inr v" "bfs_ok get R [] v"
        "hs_abs vis' \<subseteq> hs_abs v" "{q \<in> set (enqueue_parents queue' c). \<not> prollyHashIsEmpty q} \<subseteq> hs_abs v"
        using Suc.IH [OF n(4) fuel] by blast
      have "ancestorBfsCollect get (Suc f) queue vis = Inr v"
        using False v(1) n(1,3) hashSetContains_eq [OF inv] by (simp add: q)
      then show ?thesis using v n(2) by (auto simp: q enqueue_parents_eq)
    qed
  qed
qed simp

lemma bfs_done: "bfs_ok get R [] v \<Longrightarrow> h \<in> hs_abs v \<Longrightarrow> ancestor_of get h x \<Longrightarrow> x \<in> hs_abs v"
  by (erule ancestor_closed) (auto simp: bfs_ok_def)

lemma ancestor_search_correct:
  assumes "closed_region get R" "anc_inv anc" "bfs_ok get R queue vis" "hs_abs vis \<inter> hs_abs anc = {}"
    "length queue + 8 * card (R - hs_abs vis) < f"
  shows "(\<exists>a. ancestor_search get anc f queue vis = Inr a \<and> a \<in> R \<inter> hs_abs anc) \<or>
     (ancestor_search get anc f queue vis = Inl SQLITE_NOTFOUND \<and>
      (\<exists>v. bfs_ok get R [] v \<and> hs_abs v \<inter> hs_abs anc = {} \<and>
         hs_abs vis \<union> {q \<in> set queue. \<not> prollyHashIsEmpty q} \<subseteq> hs_abs v))"
  using assms(3-5)
proof (induction f arbitrary: queue vis)
  case (Suc f)
  show ?case
  proof (cases queue)
    case Nil
    then show ?thesis using Suc.prems(1,2) by auto
  next
    case q: (Cons cur queue')
    have inv: "anc_inv vis" using Suc.prems(1) by (simp add: bfs_ok_def)
    show ?thesis
    proof (cases "prollyHashIsEmpty cur \<or> cur \<in> hs_abs vis")
      case True
      have e: "ancestor_search get anc (Suc f) queue vis = ancestor_search get anc f queue' vis"
        using True hashSetContains_eq [OF inv] by (auto simp: q)
      have "hs_abs vis \<union> {q \<in> set queue. \<not> prollyHashIsEmpty q} = hs_abs vis \<union> {q \<in> set queue'. \<not> prollyHashIsEmpty q}"
        using True by (auto simp: q)
      then show ?thesis
        unfolding e using Suc.IH [OF bfs_skip [OF Suc.prems(1) [unfolded q] True] Suc.prems(2)] Suc.prems(3) q by simp
    next
      case False
      obtain vis' c where n: "hashSetInsert vis cur = Inr vis'" "hs_abs vis' = insert cur (hs_abs vis)"
        "loadCommitByHash get cur = Inr c" "bfs_ok get R (enqueue_parents queue' c) vis'"
        "length (enqueue_parents queue' c) + 8 * card (R - hs_abs vis') \<le> length queue' + 8 * card (R - hs_abs vis)"
        using bfs_visit [OF Suc.prems(1) [unfolded q] assms(1)] False by blast
      have e: "ancestor_search get anc (Suc f) queue vis =
          (if cur \<in> hs_abs anc then Inr cur else ancestor_search get anc f (enqueue_parents queue' c) vis')"
        using False n(1,3) hashSetContains_eq [OF inv] hashSetContains_eq [OF assms(2)] by (simp add: q)
      show ?thesis
      proof (cases "cur \<in> hs_abs anc")
        case True
        then show ?thesis unfolding e using Suc.prems(1) False by (auto simp: bfs_ok_def q)
      next
        case F: False
        have d: "hs_abs vis' \<inter> hs_abs anc = {}" using Suc.prems(2) F n(2) by simp
        have fuel: "length (enqueue_parents queue' c) + 8 * card (R - hs_abs vis') < f"
          using n(5) Suc.prems(3) q by simp
        have "hs_abs vis \<union> {q \<in> set queue. \<not> prollyHashIsEmpty q} \<subseteq>
            hs_abs vis' \<union> {q \<in> set (enqueue_parents queue' c). \<not> prollyHashIsEmpty q}"
          using n(2) by (auto simp: q enqueue_parents_eq)
        then show ?thesis unfolding e using Suc.IH [OF n(4) d fuel] F by (simp only: if_False) blast
      qed
    qed
  qed
qed simp

lemma bfs_start:
  assumes "closed_region get R" "h \<in> R"
  shows "bfs_ok get R [h] (hashSetInit n)" "length [h] + 8 * card (R - hs_abs (hashSetInit n)) < 8 * card R + 2"
  using assms hashSetInit_ok [of n] by (auto simp: bfs_ok_def closed_region_def)

text \<open>
  C28. The merge base of two commits with complete histories: the search ends and returns a
  common ancestor, or reports that there is none, and then the histories are disjoint.
\<close>

theorem doltliteFindAncestor_correct:
  assumes hash: "hash_ok h1" "hash_ok h2" and ne: "\<not> prollyHashIsEmpty h1" "\<not> prollyHashIsEmpty h2"
    and hist: "history_ok get h1" "history_ok get h2"
    and fuel: "8 * card {x. ancestor_of get h1 x} + 2 \<le> f" "8 * card {x. ancestor_of get h2 x} + 2 \<le> f"
  shows "(\<exists>a. doltliteFindAncestor get f h1 h2 = Inr a \<and> ancestor_of get h1 a \<and> ancestor_of get h2 a) \<or>
     (doltliteFindAncestor get f h1 h2 = Inl SQLITE_NOTFOUND \<and> (\<nexists>a. ancestor_of get h1 a \<and> ancestor_of get h2 a))"
proof (cases "h1 = h2")
  case True
  then show ?thesis
    using ne ancestor_of.self [OF ne(1)] prollyHashCompare_0 [OF hash] by (auto simp: doltliteFindAncestor_def)
next
  case False
  note R1 = history_region [OF hist(1)] and R2 = history_region [OF hist(2)]
  have s: "h1 \<in> {x. ancestor_of get h1 x}" "h2 \<in> {x. ancestor_of get h2 x}" using ne by (auto intro: ancestor_of.self)
  note b1 = bfs_start [OF R1 s(1), of 64] and b2 = bfs_start [OF R2 s(2), of 64]
  have f1: "length [h1] + 8 * card ({x. ancestor_of get h1 x} - hs_abs (hashSetInit 64)) < f"
    using b1(2) fuel(1) by linarith
  obtain v where v: "ancestorBfsCollect get f [h1] (hashSetInit 64) = Inr v"
    "bfs_ok get {x. ancestor_of get h1 x} [] v" "{q \<in> set [h1]. \<not> prollyHashIsEmpty q} \<subseteq> hs_abs v"
    using ancestorBfsCollect_correct [OF R1 b1(1) f1] by blast
  have vin: "anc_inv v" and "hs_abs v \<subseteq> {x. ancestor_of get h1 x}" using v(2) by (simp_all add: bfs_ok_def)
  moreover have "x \<in> hs_abs v" if "ancestor_of get h1 x" for x using bfs_done [OF v(2) _ that] v(3) ne(1) by auto
  ultimately have vs: "hs_abs v = {x. ancestor_of get h1 x}" by blast
  have e: "doltliteFindAncestor get f h1 h2 = ancestor_search get v f [h2] (hashSetInit 64)"
    using ne False v(1) prollyHashCompare_0 [OF hash] by (simp add: doltliteFindAncestor_def)
  have f2: "length [h2] + 8 * card ({x. ancestor_of get h2 x} - hs_abs (hashSetInit 64)) < f"
    using b2(2) fuel(2) by linarith
  have d: "hs_abs (hashSetInit 64) \<inter> hs_abs v = {}" by (simp add: hashSetInit_ok)
  from ancestor_search_correct [OF R2 vin b2(1) d f2] show ?thesis
  proof (elim disjE exE conjE)
    fix a assume "ancestor_search get v f [h2] (hashSetInit 64) = Inr a" "a \<in> {x. ancestor_of get h2 x} \<inter> hs_abs v"
    then show ?thesis unfolding e vs by blast
  next
    fix w assume w: "ancestor_search get v f [h2] (hashSetInit 64) = Inl SQLITE_NOTFOUND"
      "bfs_ok get {x. ancestor_of get h2 x} [] w" "hs_abs w \<inter> hs_abs v = {}"
      "hs_abs (hashSetInit 64) \<union> {q \<in> set [h2]. \<not> prollyHashIsEmpty q} \<subseteq> hs_abs w"
    have "x \<in> hs_abs w" if "ancestor_of get h2 x" for x using bfs_done [OF w(2) _ that] w(4) ne(2) by auto
    then show ?thesis unfolding e using w(1,3) vs by blast
  qed
qed

definition child :: hash where "child = replicate 20 1"
definition root :: hash where "root = replicate 20 2"

definition two_commits :: "hash \<Rightarrow> byte list res" where
  "two_commits h =
     (if h = child then Inr ([2, 1] @ root @ replicate 34 0)
      else if h = root then Inr ([2, 0] @ replicate 34 0)
      else Inl SQLITE_NOTFOUND)"

lemma two_commits_load:
  "\<exists>c. doltliteLoadCommit two_commits child = Inr c \<and> parents_of c = [root]"
  "\<exists>c. doltliteLoadCommit two_commits root = Inr c \<and> parents_of c = []"
proof -
  have "bindR (doltliteLoadCommit two_commits child) (\<lambda>c. Inr (parents_of c)) = Inr [root]"
    "bindR (doltliteLoadCommit two_commits root) (\<lambda>c. Inr (parents_of c)) = Inr []" by code_simp+
  then show "\<exists>c. doltliteLoadCommit two_commits child = Inr c \<and> parents_of c = [root]"
    "\<exists>c. doltliteLoadCommit two_commits root = Inr c \<and> parents_of c = []" by (simp_all only: bindR_eq_Inr) auto
qed

lemma two_commits_history:
  assumes "h \<in> {child, root}"
  shows "history_ok two_commits h" "8 * card {x. ancestor_of two_commits h x} + 2 \<le> 18"
proof -
  have edge: "b \<in> {child, root}" if "a \<in> {child, root}" "commit_edge two_commits a b" for a b
    using that two_commits_load by (auto simp: commit_edge_def)
  have sub: "{x. ancestor_of two_commits h x} \<subseteq> {child, root}"
    using ancestor_closed [where V = "{child, root}" and get = two_commits, OF _ assms] edge by blast
  then have fin: "finite {x. ancestor_of two_commits h x}" by (rule finite_subset) simp
  show "history_ok two_commits h"
    using fin sub two_commits_load unfolding history_ok_def by blast
  have "card {child, root} \<le> 2" by (simp add: card_insert_if)
  then show "8 * card {x. ancestor_of two_commits h x} + 2 \<le> 18"
    using card_mono [OF _ sub] by simp
qed

lemma doltliteFindAncestor_correct_witness:
  "(\<exists>a. doltliteFindAncestor two_commits 18 child root = Inr a \<and> ancestor_of two_commits child a \<and> ancestor_of two_commits root a) \<or>
   (doltliteFindAncestor two_commits 18 child root = Inl SQLITE_NOTFOUND \<and>
      (\<nexists>a. ancestor_of two_commits child a \<and> ancestor_of two_commits root a))"
proof (rule doltliteFindAncestor_correct)
  show "hash_ok child" "hash_ok root" by (simp_all add: hash_ok_def child_def root_def PROLLY_HASH_SIZE_def)
  show "\<not> prollyHashIsEmpty child" "\<not> prollyHashIsEmpty root" by code_simp+
qed (rule two_commits_history; simp)+

lemma two_commits_base: "doltliteFindAncestor two_commits 18 child root = Inr root"
  by code_simp

end
