(* ===== verification/RecordFormat.thy ===== *)
theory RecordFormat
  imports Commit "HOL-Library.Signed_Division"
begin

text \<open>
  SQLite records as the version-control layer reads them (\<open>prolly_record.h\<close>,
  \<open>doltlite_record.c\<close>): varints, serial types, the strict parser, the text rendering, the
  projection of a field as an SQL value and the map from declared columns to fields.
  Offsets into the header are naturals; the body offset and the serial types are C ints and
  are kept as \<open>int\<close>, with the casts from 64 bits written out, so a negative offset is a
  value of the model and reading there is \<open>OUT_OF_BOUNDS\<close>.
\<close>

section \<open>Varints and serial types\<close>

fun varint_loop :: "byte list \<Rightarrow> nat \<Rightarrow> nat \<Rightarrow> u64 \<Rightarrow> nat \<Rightarrow> nat \<Rightarrow> (nat \<times> u64) res" where
  "varint_loop d p pEnd v i 0 = Inr (i, v)"
| "varint_loop d p pEnd v i (Suc k) =
     (if p + i < pEnd then
        bindR (read_byte d (p + i)) (\<lambda>b.
        let v = push_bit 7 v OR ucast (b AND 127) in
        if b AND 128 = 0 then Inr (i + 1, v) else varint_loop d p pEnd v (i + 1) k)
      else Inr (i, v))"

text \<open>The number of bytes read and the value; at most nine bytes, none at the end of the range.\<close>

definition dlReadVarint :: "byte list \<Rightarrow> nat \<Rightarrow> nat \<Rightarrow> (nat \<times> u64) res" where
  "dlReadVarint d p pEnd =
     (if p \<ge> pEnd then Inr (0, 0)
      else bindR (read_byte d p) (\<lambda>b.
        if b AND 128 = 0 then Inr (1, ucast b)
        else varint_loop d p pEnd (ucast b AND 127) 1 8))"

text \<open>The cast \<open>(int)v\<close> of a 64-bit value, and C's division by two.\<close>

definition int_cast :: "u64 \<Rightarrow> int" where
  "int_cast v = sint (ucast v :: u32)"

definition int_sizes :: "nat list" where
  "int_sizes = [0, 1, 2, 3, 4, 6, 8]"

definition dlSerialTypeLen :: "u64 \<Rightarrow> int" where
  "dlSerialTypeLen st =
     (if st \<le> 6 then int (int_sizes ! unat st)
      else if st = 7 then 8
      else if st \<ge> 12 then int_cast (st - 12) sdiv 2
      else 0)"

section \<open>The strict parser\<close>

definition DOLTLITE_MAX_RECORD_FIELDS :: nat where "DOLTLITE_MAX_RECORD_FIELDS = 256"

text \<open>The arrays are the lists of their first \<open>nField\<close> cells.\<close>

record rec_info =
  aType :: "int list"
  aOffset :: "int list"

definition nField :: "rec_info \<Rightarrow> nat" where
  "nField r = length (aType r)"

definition rec_info0 :: rec_info where
  "rec_info0 = \<lparr>aType = [], aOffset = []\<rparr>"

text \<open>The parser returns what it has filled in, also on failure: \<open>doltliteParseRecord\<close> ignores the code.\<close>

function parse_fields :: "byte list \<Rightarrow> nat \<Rightarrow> nat \<Rightarrow> int \<Rightarrow> rec_info \<Rightarrow> rec_info \<times> unit res" where
  "parse_fields d pHdrEnd p off info =
     (if p < pHdrEnd then
        (case dlReadVarint d p pHdrEnd of
           Inl e \<Rightarrow> (info, Inl e)
         | Inr (stBytes, st) \<Rightarrow>
             if stBytes = 0 then (info, Inl SQLITE_CORRUPT)
             else if nField info \<ge> DOLTLITE_MAX_RECORD_FIELDS then (info, Inl SQLITE_CORRUPT)
             else
               let p = p + stBytes; nSerial = dlSerialTypeLen st in
               if off > int (length d) - nSerial then (info, Inl SQLITE_CORRUPT)
               else parse_fields d pHdrEnd p (off + nSerial)
                      (info\<lparr>aType := aType info @ [int_cast st], aOffset := aOffset info @ [off]\<rparr>))
      else if p \<noteq> pHdrEnd then (info, Inl SQLITE_CORRUPT)
      else if off \<noteq> int (length d) then (info, Inl SQLITE_CORRUPT)
      else (info, Inr ()))"
  by pat_completeness auto
termination by (relation "measure (\<lambda>(d, pHdrEnd, p, off, info). pHdrEnd - p)") auto

declare parse_fields.simps [simp del]

definition doltliteParseRecordStrict :: "byte list \<Rightarrow> rec_info \<times> unit res" where
  "doltliteParseRecordStrict d =
     (if length d < 1 then (rec_info0, Inl SQLITE_CORRUPT)
      else
        case dlReadVarint d 0 (length d) of
          Inl e \<Rightarrow> (rec_info0, Inl e)
        | Inr (hdrBytes, hdrSize) \<Rightarrow>
            if hdrBytes = 0 then (rec_info0, Inl SQLITE_CORRUPT)
            else if int_cast hdrSize < int hdrBytes \<or> int_cast hdrSize > int (length d)
            then (rec_info0, Inl SQLITE_CORRUPT)
            else parse_fields d (nat (int_cast hdrSize)) hdrBytes (int_cast hdrSize) rec_info0)"

definition doltliteParseRecord :: "byte list \<Rightarrow> rec_info" where
  "doltliteParseRecord d = fst (doltliteParseRecordStrict d)"

section \<open>Fields as SQL values\<close>

text \<open>A real is the bit pattern of the double.\<close>

datatype sqlval =
    VNull
  | VInt u64
  | VReal u64
  | VText "byte list"
  | VBlob "byte list"

fun read_int_loop :: "u64 \<Rightarrow> byte list \<Rightarrow> u64" where
  "read_int_loop v [] = v"
| "read_int_loop v (b # bs) = read_int_loop (push_bit 8 v OR ucast b) bs"

definition recReadInt :: "byte list \<Rightarrow> u64" where
  "recReadInt bs = read_int_loop (if hd bs AND 128 \<noteq> 0 then -1 else 0) bs"

definition read_at :: "byte list \<Rightarrow> int \<Rightarrow> int \<Rightarrow> byte list res" where
  "read_at d off n =
     (if 0 \<le> off \<and> 0 \<le> n \<and> off + n \<le> int (length d)
      then Inr (take (nat n) (drop (nat off) d)) else Inl OUT_OF_BOUNDS)"

definition doltliteResultField :: "byte list \<Rightarrow> int \<Rightarrow> int \<Rightarrow> sqlval res" where
  "doltliteResultField d st off =
     (let nData = int (length d) in
      if st = 0 then Inr VNull
      else if st = 8 then Inr (VInt 0)
      else if st = 9 then Inr (VInt 1)
      else if st \<ge> 1 \<and> st \<le> 6 then
        let nB = int (int_sizes ! nat st) in
        if off + nB \<le> nData then bindR (read_at d off nB) (\<lambda>q. Inr (VInt (recReadInt q)))
        else Inr VNull
      else if st = 7 then
        if off + 8 \<le> nData then bindR (read_at d off 8) (\<lambda>q. Inr (VReal (read_int_loop 0 q)))
        else Inr VNull
      else if st \<ge> 13 \<and> st mod 2 = 1 then
        let len = (st - 13) div 2 in
        if off + len \<le> nData then bindR (read_at d off len) (\<lambda>q. Inr (VText q)) else Inr VNull
      else if st \<ge> 12 \<and> st mod 2 = 0 then
        let len = (st - 12) div 2 in
        if off + len \<le> nData then bindR (read_at d off len) (\<lambda>q. Inr (VBlob q)) else Inr VNull
      else Inr VNull)"

text \<open>The statement is the list of its parameters.\<close>

definition doltliteBindField :: "sqlval list \<Rightarrow> nat \<Rightarrow> byte list \<Rightarrow> int \<Rightarrow> int \<Rightarrow> sqlval list res" where
  "doltliteBindField stmt i d st off =
     (let nData = int (length d) in
      if st = 0 then Inr (stmt[i := VNull])
      else if st = 8 then Inr (stmt[i := VInt 0])
      else if st = 9 then Inr (stmt[i := VInt 1])
      else if st \<ge> 1 \<and> st \<le> 6 then
        let nB = int (int_sizes ! nat st) in
        if off + nB \<le> nData then bindR (read_at d off nB) (\<lambda>q. Inr (stmt[i := VInt (recReadInt q)]))
        else Inr (stmt[i := VNull])
      else if st = 7 then
        if off + 8 \<le> nData then bindR (read_at d off 8) (\<lambda>q. Inr (stmt[i := VReal (read_int_loop 0 q)]))
        else Inr (stmt[i := VNull])
      else if st \<ge> 13 \<and> st mod 2 = 1 then
        let len = (st - 13) div 2 in
        if off + len \<le> nData then bindR (read_at d off len) (\<lambda>q. Inr (stmt[i := VText q]))
        else Inr (stmt[i := VNull])
      else if st \<ge> 12 \<and> st mod 2 = 0 then
        let len = (st - 12) div 2 in
        if off + len \<le> nData then bindR (read_at d off len) (\<lambda>q. Inr (stmt[i := VBlob q]))
        else Inr (stmt[i := VNull])
      else Inr (stmt[i := VNull]))"

section \<open>Columns\<close>

record col_info =
  azName :: "byte list list"
  iPkCol :: int
  aColToRec :: "int list"

definition nCol :: "col_info \<Rightarrow> nat" where
  "nCol ci = length (azName ci)"

text \<open>A row of \<open>PRAGMA table_info\<close>: name, declared type, position in the primary key (0: none).\<close>

record table_info_row =
  rName :: cstr
  rType :: cstr
  rPk :: int

definition to_lower :: "byte \<Rightarrow> byte" where
  "to_lower c = (if 65 \<le> c \<and> c \<le> 90 then c + 32 else c)"

definition stricmp_eq :: "byte list \<Rightarrow> byte list \<Rightarrow> bool" where
  "stricmp_eq a b \<longleftrightarrow> map to_lower a = map to_lower b"

definition INTEGER :: "byte list" where
  "INTEGER = [73, 78, 84, 69, 71, 69, 82]"

text \<open>The loop over the rows: number of key columns, the candidate alias, key positions, names.\<close>

fun scan_columns :: "table_info_row list \<Rightarrow> nat \<Rightarrow> nat \<Rightarrow> int \<Rightarrow> nat \<times> int" where
  "scan_columns [] i nPk cand = (nPk, cand)"
| "scan_columns (r # rs) i nPk cand =
     scan_columns rs (i + 1) (if rPk r > 0 then nPk + 1 else nPk)
       (if rPk r = 1 \<and> (case rType r of Some t \<Rightarrow> stricmp_eq t INTEGER | None \<Rightarrow> False) then int i else cand)"

fun fill_nonpk :: "int list \<Rightarrow> int list \<Rightarrow> int \<Rightarrow> int list" where
  "fill_nonpk (pk # pks) (a # arr) n =
     (if pk = 0 then n # fill_nonpk pks arr (n + 1) else a # fill_nonpk pks arr n)"
| "fill_nonpk _ _ n = []"

definition col_to_rec :: "int list \<Rightarrow> int \<Rightarrow> nat \<Rightarrow> int list" where
  "col_to_rec aPk iPk nPk =
     (if iPk \<ge> 0 \<or> nPk = 0 then map int [0..<length aPk]
      else fill_nonpk aPk (map (\<lambda>pk. if pk > 0 then pk - 1 else 0) aPk) (int nPk))"

text \<open>The result of running the pragma is a parameter.\<close>

definition doltliteGetColumnNames :: "table_info_row list res \<Rightarrow> col_info res" where
  "doltliteGetColumnNames rows =
     bindR rows (\<lambda>rows.
     let (nPkCols, iCandidateAlias) = scan_columns rows 0 0 (-1);
         aPk = map rPk rows;
         iPk = (if nPkCols = 1 \<and> iCandidateAlias \<ge> 0 then iCandidateAlias else -1)
     in Inr \<lparr>azName = map (\<lambda>r. case rName r of Some z \<Rightarrow> z | None \<Rightarrow> []) rows, iPkCol = iPk,
             aColToRec = col_to_rec aPk iPk nPkCols\<rparr>)"

definition doltliteFreeColInfo :: "col_info \<Rightarrow> col_info" where
  "doltliteFreeColInfo ci = ci\<lparr>azName := [], aColToRec := []\<rparr>"

definition doltliteResultUserCol :: "col_info option \<Rightarrow> byte list option \<Rightarrow> u64 \<Rightarrow> int \<Rightarrow> sqlval res" where
  "doltliteResultUserCol ci rec intKey iDeclaredCol =
     (case (ci, rec) of
        (Some ci, Some d) \<Rightarrow>
          if length d = 0 \<or> iDeclaredCol < 0 \<or> iDeclaredCol \<ge> int (nCol ci) then Inr VNull
          else if iDeclaredCol = iPkCol ci \<and> iPkCol ci \<ge> 0 then Inr (VInt intKey)
          else
            let iRecField = (if aColToRec ci \<noteq> [] then aColToRec ci ! nat iDeclaredCol else iDeclaredCol) in
            if iRecField < 0 then Inr VNull
            else
              let ri = doltliteParseRecord d in
              if iRecField \<ge> int (nField ri) then Inr VNull
              else doltliteResultField d (aType ri ! nat iRecField) (aOffset ri ! nat iRecField)
      | _ \<Rightarrow> Inr VNull)"

section \<open>Rendering as text\<close>

text \<open>A buffer is the null pointer until the first append.\<close>

type_synonym recbuf = "byte list option"

definition recBufAppend :: "recbuf \<Rightarrow> byte list \<Rightarrow> recbuf" where
  "recBufAppend b z = Some ((case b of None \<Rightarrow> [] | Some s \<Rightarrow> s) @ z)"

text \<open>\<open>%lld\<close> and \<open>%02x\<close>; the rendering of doubles (\<open>%!.15g\<close>) is a parameter.\<close>

fun dec_nat :: "nat \<Rightarrow> byte list" where
  "dec_nat n = (if n < 10 then [of_nat (48 + n)] else dec_nat (n div 10) @ [of_nat (48 + n mod 10)])"

declare dec_nat.simps [simp del]

definition dec_int :: "int \<Rightarrow> byte list" where
  "dec_int i = (if i < 0 then 45 # dec_nat (nat (- i)) else dec_nat (nat i))"

text \<open>The rendering of one field, with the number of body bytes it takes; \<open>None\<close> is \<open>SQLITE_CORRUPT\<close>.\<close>

definition render_field ::
  "(u64 \<Rightarrow> byte list) \<Rightarrow> byte list \<Rightarrow> u64 \<Rightarrow> nat \<Rightarrow> recbuf \<Rightarrow> (recbuf \<times> nat) res" where
  "render_field fmtReal d st pBody buf =
     (if st = 0 then Inr (recBufAppend buf [78, 85, 76, 76], pBody)
      else if st = 8 then Inr (recBufAppend buf [48], pBody)
      else if st = 9 then Inr (recBufAppend buf [49], pBody)
      else if st \<ge> 1 \<and> st \<le> 6 then
        let nBytes = int_sizes ! unat st in
        bindR (guardR (\<not> pBody + nBytes > length d) SQLITE_CORRUPT) (\<lambda>_.
        bindR (read_bytes d pBody nBytes) (\<lambda>q.
        Inr (recBufAppend buf (dec_int (sint (recReadInt q))), pBody + nBytes)))
      else if st = 7 then
        bindR (guardR (\<not> pBody + 8 > length d) SQLITE_CORRUPT) (\<lambda>_.
        bindR (read_bytes d pBody 8) (\<lambda>q.
        Inr (recBufAppend buf (fmtReal (read_int_loop 0 q)), pBody + 8)))
      else if st \<ge> 12 \<and> st AND 1 = 0 then
        let len = (int_cast st - 12) sdiv 2 in
        bindR (guardR (\<not> (len < 0 \<or> int pBody + len > int (length d))) SQLITE_CORRUPT) (\<lambda>_.
        bindR (read_bytes d pBody (nat len)) (\<lambda>q.
        Inr (recBufAppend (foldl (\<lambda>b c. recBufAppend b (hex_pair c)) (recBufAppend buf [120, 39]) q) [39],
             pBody + nat len)))
      else if st \<ge> 13 \<and> st AND 1 = 1 then
        let len = (int_cast st - 13) sdiv 2 in
        bindR (guardR (\<not> (len < 0 \<or> int pBody + len > int (length d))) SQLITE_CORRUPT) (\<lambda>_.
        bindR (read_bytes d pBody (nat len)) (\<lambda>q. Inr (recBufAppend buf q, pBody + nat len)))
      else Inl SQLITE_CORRUPT)"

function decode_fields ::
  "(u64 \<Rightarrow> byte list) \<Rightarrow> byte list \<Rightarrow> nat \<Rightarrow> nat \<Rightarrow> nat \<Rightarrow> nat \<Rightarrow> recbuf \<Rightarrow> (nat \<times> recbuf) res" where
  "decode_fields fmtReal d pHdrEnd p pBody fieldIdx buf =
     (if p < pHdrEnd \<and> p < length d then
        bindR (dlReadVarint d p pHdrEnd) (\<lambda>(stBytes, st).
        if stBytes = 0 then Inl SQLITE_CORRUPT
        else
          bindR (render_field fmtReal d st pBody (if fieldIdx > 0 then recBufAppend buf [124] else buf)) (\<lambda>(buf, pBody).
          decode_fields fmtReal d pHdrEnd (p + stBytes) pBody (fieldIdx + 1) buf))
      else Inr (p, buf))"
  by pat_completeness auto
termination by (relation "measure (\<lambda>(f, d, pHdrEnd, p, pBody, fieldIdx, buf). pHdrEnd - p)") auto

declare decode_fields.simps [simp del]

text \<open>The null pointer is returned for every corruption.\<close>

definition doltliteDecodeRecord :: "(u64 \<Rightarrow> byte list) \<Rightarrow> byte list \<Rightarrow> byte list option res" where
  "doltliteDecodeRecord fmtReal d =
     (if length d < 1 then Inr None
      else
        bindR (dlReadVarint d 0 (length d)) (\<lambda>(hdrBytes, hdrSize).
        if hdrBytes = 0 then Inr None
        else if unat hdrSize < hdrBytes \<or> unat hdrSize > length d then Inr None
        else
          case decode_fields fmtReal d (unat hdrSize) hdrBytes (unat hdrSize) 0 None of
            Inl SQLITE_CORRUPT \<Rightarrow> Inr None
          | Inl e \<Rightarrow> Inl e
          | Inr (p, buf) \<Rightarrow> if p \<noteq> unat hdrSize then Inr None else Inr buf))"

end
