(* ===== verification/RecordProps.thy ===== *)
theory RecordProps
  imports RecordFormat "HOL-Library.Multiset"
begin

text \<open>
  What the record code shows: the storage format as a specification (\<open>put_varint\<close>,
  \<open>encode_record\<close>) and the round trip through the strict parser and the projection of
  fields; two's complement integers; the bounds of arbitrary input, with the serial type that
  escapes them; the text rendering; and the column map as a permutation.
\<close>

section \<open>Reading varints\<close>

lemma varint_loop_total:
  "p + i \<le> pEnd \<Longrightarrow> pEnd \<le> length d \<Longrightarrow>
     \<exists>n v'. varint_loop d p pEnd v i k = Inr (n, v') \<and> i \<le> n \<and> p + n \<le> pEnd \<and> n \<le> i + k"
proof (induction d p pEnd v i k rule: varint_loop.induct)
  case (2 d p pEnd v i k)
  show ?case
  proof (cases "p + i < pEnd \<and> (d ! (p + i)) AND 128 \<noteq> 0")
    case True
    then have "p + i < length d" using "2.prems" by simp
    then show ?thesis using "2.IH" [of "d ! (p + i)"] "2.prems" True by (fastforce simp: Let_def)
  next
    case False
    then show ?thesis using "2.prems" by (auto simp: Let_def)
  qed
qed simp

lemma dlReadVarint_total:
  assumes "pEnd \<le> length d"
  shows "\<exists>n v. dlReadVarint d p pEnd = Inr (n, v) \<and> (p < pEnd \<longrightarrow> 1 \<le> n \<and> p + n \<le> pEnd) \<and> n \<le> 9"
proof (cases "p < pEnd \<and> (d ! p) AND 128 \<noteq> 0")
  case True
  then show ?thesis using varint_loop_total [of p 1 pEnd d "ucast (d ! p) AND 127" 8] assms
    by (auto simp: dlReadVarint_def)
next
  case False
  then show ?thesis using assms by (auto simp: dlReadVarint_def)
qed

text \<open>
  The encoding of SQLite, as a specification: seven bits a byte, most significant first, the
  high bit set on all bytes but the last.
\<close>

fun vdigits :: "nat \<Rightarrow> nat list" where
  "vdigits n = (if n = 0 then [] else vdigits (n div 128) @ [n mod 128])"

declare vdigits.simps [simp del]

definition put_varint :: "nat \<Rightarrow> byte list" where
  "put_varint n = map (\<lambda>g. of_nat (128 + g)) (vdigits (n div 128)) @ [of_nat (n mod 128)]"

lemma or_digit: "g < 128 \<Longrightarrow> push_bit 7 (of_nat a) OR of_nat g = (of_nat (a * 128 + g) :: 'a::len word)"
proof -
  assume "g < 128"
  then have g: "of_nat g = take_bit 7 (of_nat g :: 'a word)" by (simp add: take_bit_of_nat take_bit_nat_eq_self)
  have "push_bit 7 (of_nat a :: 'a word) OR take_bit 7 (of_nat g) = push_bit 7 (of_nat a) + take_bit 7 (of_nat g)"
    by (rule disjunctive_add [symmetric]) (auto simp: bit_simps)
  then show ?thesis unfolding g [symmetric] by (simp add: push_bit_eq_mult mult.commute)
qed

lemma byte_digit:
  assumes "g < 128"
  shows "(of_nat (128 + g) :: byte) AND 128 \<noteq> 0" "ucast ((of_nat (128 + g) :: byte) AND 127) = (of_nat g :: u64)"
    "(of_nat g :: byte) AND 128 = 0" "ucast (of_nat g :: byte) = (of_nat g :: u64)"
    "ucast ((of_nat g :: byte) AND 127) = (of_nat g :: u64)" "ucast (of_nat (128 + g) :: byte) AND 127 = (of_nat g :: u64)"
proof -
  have "\<forall>g \<in> set [0..<128]. (of_nat (128 + g) :: byte) AND 128 \<noteq> 0 \<and> ucast ((of_nat (128 + g) :: byte) AND 127) = (of_nat g :: u64)
     \<and> (of_nat g :: byte) AND 128 = 0 \<and> ucast (of_nat g :: byte) = (of_nat g :: u64)
     \<and> ucast ((of_nat g :: byte) AND 127) = (of_nat g :: u64) \<and> ucast (of_nat (128 + g) :: byte) AND 127 = (of_nat g :: u64)"
    by code_simp
  then show "(of_nat (128 + g) :: byte) AND 128 \<noteq> 0" "ucast ((of_nat (128 + g) :: byte) AND 127) = (of_nat g :: u64)"
    "(of_nat g :: byte) AND 128 = 0" "ucast (of_nat g :: byte) = (of_nat g :: u64)"
    "ucast ((of_nat g :: byte) AND 127) = (of_nat g :: u64)" "ucast (of_nat (128 + g) :: byte) AND 127 = (of_nat g :: u64)"
    using assms by auto
qed


definition vvalue :: "nat \<Rightarrow> nat list \<Rightarrow> nat" where
  "vvalue a gs = foldl (\<lambda>a g. a * 128 + g) a gs"

lemma vvalue_simps [simp]: "vvalue a [] = a" "vvalue a (g # gs) = vvalue (a * 128 + g) gs"
  by (simp_all add: vvalue_def)

lemma vvalue_ge: "a \<le> vvalue a gs"
proof (induction gs arbitrary: a)
  case (Cons g gs)
  have "a \<le> a * 128 + g" by simp
  then show ?case using Cons [of "a * 128 + g"] by simp
qed simp

lemma vvalue_vdigits: "vvalue 0 (vdigits n) = n"
proof (induction n rule: vdigits.induct)
  case (1 n)
  have ap: "vvalue a (gs @ [g]) = vvalue a gs * 128 + g" for a gs g by (simp add: vvalue_def)
  show ?case
  proof (cases "n = 0")
    case False
    then show ?thesis using 1 by (subst vdigits.simps) (simp add: ap)
  qed (simp add: vdigits.simps)
qed

lemma vdigits_less: "\<forall>g \<in> set (vdigits n). g < 128"
proof (induction n rule: vdigits.induct)
  case (1 n)
  then show ?case by (subst vdigits.simps) auto
qed

lemma length_vdigits: "n < 128 ^ k \<Longrightarrow> length (vdigits n) \<le> k"
proof (induction k arbitrary: n)
  case (Suc k)
  have "n div 128 < 128 ^ k" using Suc.prems by (simp add: less_mult_imp_div_less mult.commute)
  then show ?case using Suc.IH [of "n div 128"] by (subst vdigits.simps) simp
qed (simp add: vdigits.simps)

lemma varint_loop_put:
  "drop (p + i) d = map (\<lambda>g. of_nat (128 + g)) gs @ of_nat g # rest \<Longrightarrow> \<forall>g \<in> set gs. g < 128 \<Longrightarrow> g < 128 \<Longrightarrow>
     p + i + length gs < pEnd \<Longrightarrow> pEnd \<le> length d \<Longrightarrow> length gs < k \<Longrightarrow> vvalue a gs * 128 + g < 2 ^ 64 \<Longrightarrow>
     varint_loop d p pEnd (of_nat a) i k = Inr (i + length gs + 1, of_nat (vvalue a gs * 128 + g))"
proof (induction gs arbitrary: i a k)
  case Nil
  then obtain k' where k: "k = Suc k'" by (cases k) auto
  have b: "d ! (p + i) = of_nat g" using Nil.prems by (metis Cons_nth_drop_Suc append_Nil drop_eq_Nil leI list.inject list.map(1) list.simps(3))
  have "p + i < length d" using Nil.prems(4,5) by simp
  then show ?case
    using Nil.prems byte_digit(3,5) [OF Nil.prems(3)] or_digit [OF Nil.prems(3), of a]
    by (simp add: k b Let_def)
next
  case (Cons h gs)
  then obtain k' where k: "k = Suc k'" by (cases k) auto
  have h: "h < 128" using Cons.prems(2) by simp
  have l: "p + i < length d" using Cons.prems(4,5) by simp
  have dr: "d ! (p + i) = of_nat (128 + h)" "drop (p + (i + 1)) d = map (\<lambda>g. of_nat (128 + g)) gs @ of_nat g # rest"
    using Cons.prems(1) Cons_nth_drop_Suc [OF l] by simp_all
  have v: "a * 128 + h < 2 ^ 64"
  proof -
    have "a * 128 + h \<le> vvalue (a * 128 + h) gs" by (rule vvalue_ge)
    also have "\<dots> \<le> vvalue a (h # gs) * 128 + g" by simp
    finally show ?thesis using Cons.prems(7) by simp
  qed
  have "varint_loop d p pEnd (of_nat (a * 128 + h)) (i + 1) k' =
      Inr (i + 1 + length gs + 1, of_nat (vvalue (a * 128 + h) gs * 128 + g))"
    by (rule Cons.IH [OF dr(2)]) (use Cons.prems k in simp_all)
  moreover have "varint_loop d p pEnd (of_nat a) i k = varint_loop d p pEnd (of_nat (a * 128 + h)) (i + 1) k'"
    unfolding k varint_loop.simps read_byte_ok [OF l] dr(1) bindR_Inr Let_def byte_digit(2) [OF h] or_digit [OF h]
    using Cons.prems(4) byte_digit(1) [OF h] by simp
  ultimately show ?case by simp
qed

lemma dlReadVarint_put:
  assumes d: "drop p d = put_varint n @ rest" and n: "n < 2 ^ 56"
    and e: "p + length (put_varint n) \<le> pEnd" "pEnd \<le> length d"
  shows "dlReadVarint d p pEnd = Inr (length (put_varint n), of_nat n)"
proof (cases "vdigits (n div 128)")
  case Nil
  have b: "d ! p = of_nat (n mod 128)" "p < pEnd" "p < length d"
    using d e Nil by (simp_all add: put_varint_def) (metis Cons_nth_drop_Suc Suc_le_lessD le_trans list.inject)
  have "n = n mod 128" using vvalue_vdigits [of "n div 128"] Nil by simp
  then show ?thesis
    using b byte_digit(3,4) [of "n mod 128"] Nil by (simp add: dlReadVarint_def put_varint_def)
next
  case (Cons h gs)
  let ?g = "n mod 128"
  have dig: "h < 128" "\<forall>g \<in> set gs. g < 128" using vdigits_less [of "n div 128"] Cons by simp_all
  have nv: "vvalue h gs * 128 + ?g = n" using vvalue_vdigits [of "n div 128"] Cons by simp
  have "n div 128 < 128 ^ 7" using n by (simp add: less_mult_imp_div_less)
  then have len: "length gs < 8" using length_vdigits [of "n div 128" 7] Cons by simp
  have p: "p < pEnd" "p < length d" using e Cons by (simp_all add: put_varint_def)
  have b: "d ! p = of_nat (128 + h)" "drop (p + 1) d = map (\<lambda>g. of_nat (128 + g)) gs @ of_nat ?g # rest"
    using d Cons Cons_nth_drop_Suc [OF p(2)] by (simp_all add: put_varint_def)
  have "varint_loop d p pEnd (of_nat h) 1 8 = Inr (1 + length gs + 1, of_nat (vvalue h gs * 128 + ?g))"
    by (rule varint_loop_put [OF b(2) dig(2)]) (use e Cons len nv n in \<open>simp_all add: put_varint_def\<close>)
  then show ?thesis
    using p b(1) byte_digit(1,6) [OF dig(1)] nv Cons by (simp add: dlReadVarint_def put_varint_def)
qed

section \<open>Serial types that fit a C int\<close>

definition serial_len :: "nat \<Rightarrow> nat" where
  serial_len_spec: "serial_len st =
     (if st \<le> 6 then [0, 1, 2, 3, 4, 6, 8] ! st else if st = 7 then 8 else if st \<ge> 12 then (st - 12) div 2 else 0)"

lemma serial_len_def:
  "serial_len st = (if st \<le> 6 then int_sizes ! st else if st = 7 then 8 else if st \<ge> 12 then (st - 12) div 2 else 0)"
  by (simp add: serial_len_spec int_sizes_def)

lemma int_cast_of_nat: "n < 2 ^ 31 \<Longrightarrow> int_cast (of_nat n) = int n"
  by (simp add: int_cast_def signed_of_nat unsigned_of_nat take_bit_nat_eq_self signed_take_bit_int_eq_self)

lemma unat_serial: "n < 2 ^ 31 \<Longrightarrow> unat (of_nat n :: u64) = n"
  by (simp add: unat_of_nat take_bit_nat_eq_self)

lemma serial_compare:
  assumes "n < 2 ^ 31" "m < 2 ^ 31"
  shows "(of_nat n :: u64) \<le> of_nat m \<longleftrightarrow> n \<le> m" "(of_nat n :: u64) = of_nat m \<longleftrightarrow> n = m"
  using unat_serial [OF assms(1)] unat_serial [OF assms(2)] by (simp_all add: word_le_nat_alt word_unat_eq_iff)

lemma dlSerialTypeLen_of_nat:
  assumes "n < 2 ^ 31"
  shows "dlSerialTypeLen (of_nat n) = int (serial_len n)"
proof -
  have c: "(of_nat n :: u64) \<le> 6 \<longleftrightarrow> n \<le> 6" "(of_nat n :: u64) = 7 \<longleftrightarrow> n = 7" "12 \<le> (of_nat n :: u64) \<longleftrightarrow> 12 \<le> n"
    using serial_compare [OF assms, of 6] serial_compare [OF assms, of 7] serial_compare(1) [OF _ assms, of 12] by simp_all
  have d: "int_cast (of_nat n - 12) sdiv 2 = int ((n - 12) div 2)" if "12 \<le> n"
  proof -
    have "(of_nat n :: u64) - 12 = of_nat (n - 12)" using that by (simp add: of_nat_diff)
    then have "int_cast (of_nat n - 12) = int (n - 12)" using int_cast_of_nat [of "n - 12"] assms by simp
    then show ?thesis using that by (simp add: signed_divide_int_def sgn_if zdiv_int)
  qed
  show ?thesis using c d unat_serial [OF assms] by (simp add: dlSerialTypeLen_def serial_len_def)
qed

section \<open>Encoded records are parsed back\<close>

text \<open>The format as a specification: header size, serial types, bodies.\<close>

type_synonym field = "nat \<times> byte list"

definition types_bytes :: "field list \<Rightarrow> byte list" where
  "types_bytes fs = concat (map (\<lambda>f. put_varint (fst f)) fs)"

definition encode_record :: "nat \<Rightarrow> field list \<Rightarrow> byte list" where
  "encode_record hs fs = put_varint hs @ types_bytes fs @ concat (map snd fs)"

text \<open>
  The fields make a record of the storage format; \<open>record_ok\<close> adds the limit of
  \<open>DOLTLITE_MAX_RECORD_FIELDS\<close> (256) fields of \<open>doltlite_record.c\<close>, which the format does not have.
\<close>

definition record_form :: "nat \<Rightarrow> field list \<Rightarrow> bool" where
  "record_form hs fs \<longleftrightarrow> hs = length (put_varint hs) + length (types_bytes fs) \<and> hs < 2 ^ 31 \<and>
     list_all (\<lambda>f. fst f < 2 ^ 31 \<and> length (snd f) = serial_len (fst f)) fs"

definition record_ok :: "nat \<Rightarrow> field list \<Rightarrow> bool" where
  "record_ok hs fs \<longleftrightarrow> hs = length (put_varint hs) + length (types_bytes fs) \<and> hs < 2 ^ 31 \<and>
     length fs \<le> DOLTLITE_MAX_RECORD_FIELDS \<and>
     list_all (\<lambda>f. fst f < 2 ^ 31 \<and> length (snd f) = serial_len (fst f)) fs"

lemma record_ok_form: "record_ok hs fs \<longleftrightarrow> record_form hs fs \<and> length fs \<le> DOLTLITE_MAX_RECORD_FIELDS"
  by (auto simp: record_ok_def record_form_def)

text \<open>The value a field stands for.\<close>

definition field_value :: "field \<Rightarrow> sqlval" where
  "field_value f = (let st = fst f; b = snd f in
     if st = 0 then VNull
     else if st = 8 then VInt 0
     else if st = 9 then VInt 1
     else if st \<le> 6 then VInt (recReadInt b)
     else if st = 7 then VReal (read_int_loop 0 b)
     else if st \<ge> 13 \<and> odd st then VText b
     else if st \<ge> 12 then VBlob b
     else VNull)"

fun field_offsets :: "int \<Rightarrow> field list \<Rightarrow> int list" where
  "field_offsets off [] = []"
| "field_offsets off (f # fs) = off # field_offsets (off + int (length (snd f))) fs"

lemma length_field_offsets [simp]: "length (field_offsets off fs) = length fs"
  by (induction fs arbitrary: off) simp_all

lemma field_offsets_nth:
  "i < length fs \<Longrightarrow> field_offsets off fs ! i = off + int (length (concat (map snd (take i fs))))"
  by (induction fs arbitrary: off i) (auto simp: nth_Cons split: nat.splits)

lemma length_put_varint_pos: "0 < length (put_varint n)"
  by (simp add: put_varint_def)

text \<open>One field of the header.\<close>

lemma parse_fields_step:
  assumes "drop p d = types_bytes (f # fs) @ rest" "p + length (types_bytes (f # fs)) = pe" "pe \<le> length d"
    "off + int (length (concat (map snd (f # fs)))) = int (length d)"
    "fst f < 2 ^ 31" "length (snd f) = serial_len (fst f)"
  shows "parse_fields d pe p off info =
      (if nField info \<ge> DOLTLITE_MAX_RECORD_FIELDS then (info, Inl SQLITE_CORRUPT)
       else parse_fields d pe (p + length (put_varint (fst f))) (off + int (serial_len (fst f)))
              (info\<lparr>aType := aType info @ [int (fst f)], aOffset := aOffset info @ [off]\<rparr>))"
    "drop (p + length (put_varint (fst f))) d = types_bytes fs @ rest"
    "p + length (put_varint (fst f)) + length (types_bytes fs) = pe"
    "off + int (serial_len (fst f)) + int (length (concat (map snd fs))) = int (length d)"
proof -
  let ?b = "put_varint (fst f)"
  have dr: "drop p d = ?b @ types_bytes fs @ rest" using assms(1) by (simp add: types_bytes_def)
  have le: "p + length ?b \<le> pe" using assms(2) by (simp add: types_bytes_def)
  have lt: "p < pe" using le length_put_varint_pos [of "fst f"] by linarith
  have small: "fst f < 2 ^ 56" using assms(5) by simp
  note v = dlReadVarint_put [OF dr small le assms(3)]
  have nz: "length ?b \<noteq> 0" using length_put_varint_pos [of "fst f"] by simp
  have fit: "\<not> off > int (length d) - int (serial_len (fst f))" using assms(4,6) by simp
  show "parse_fields d pe p off info =
      (if nField info \<ge> DOLTLITE_MAX_RECORD_FIELDS then (info, Inl SQLITE_CORRUPT)
       else parse_fields d pe (p + length ?b) (off + int (serial_len (fst f)))
              (info\<lparr>aType := aType info @ [int (fst f)], aOffset := aOffset info @ [off]\<rparr>))"
    using lt nz fit
    by (subst parse_fields.simps) (simp add: v dlSerialTypeLen_of_nat [OF assms(5)] int_cast_of_nat [OF assms(5)])
  show "drop (p + length ?b) d = types_bytes fs @ rest"
    using dr by (metis add.commute append_eq_conv_conj drop_drop)
  show "p + length ?b + length (types_bytes fs) = pe" using assms(2) by (simp add: types_bytes_def)
  show "off + int (serial_len (fst f)) + int (length (concat (map snd fs))) = int (length d)"
    using assms(4,6) by simp
qed

lemma parse_fields_encoded:
  "drop p d = types_bytes fs @ rest \<Longrightarrow> p + length (types_bytes fs) = pe \<Longrightarrow> pe \<le> length d \<Longrightarrow>
     off + int (length (concat (map snd fs))) = int (length d) \<Longrightarrow>
     nField info + length fs \<le> DOLTLITE_MAX_RECORD_FIELDS \<Longrightarrow>
     list_all (\<lambda>f. fst f < 2 ^ 31 \<and> length (snd f) = serial_len (fst f)) fs \<Longrightarrow>
     parse_fields d pe p off info =
       (info\<lparr>aType := aType info @ map (\<lambda>f. int (fst f)) fs, aOffset := aOffset info @ field_offsets off fs\<rparr>, Inr ())"
proof (induction fs arbitrary: p off info)
  case Nil
  then show ?case by (subst parse_fields.simps) (simp add: types_bytes_def)
next
  case (Cons f fs)
  have f: "fst f < 2 ^ 31" "length (snd f) = serial_len (fst f)" using Cons.prems(6) by simp_all
  note st = parse_fields_step [OF Cons.prems(1-4) f]
  let ?info = "info\<lparr>aType := aType info @ [int (fst f)], aOffset := aOffset info @ [off]\<rparr>"
  have "nField ?info + length fs \<le> DOLTLITE_MAX_RECORD_FIELDS" using Cons.prems(5) by (simp add: nField_def)
  from Cons.IH [OF st(2,3) Cons.prems(3) st(4) this] st(1) Cons.prems(5,6) f(2) show ?case by simp
qed

lemma parse_fields_many:
  "drop p d = types_bytes fs @ rest \<Longrightarrow> p + length (types_bytes fs) = pe \<Longrightarrow> pe \<le> length d \<Longrightarrow>
     off + int (length (concat (map snd fs))) = int (length d) \<Longrightarrow>
     nField info \<le> DOLTLITE_MAX_RECORD_FIELDS \<Longrightarrow> DOLTLITE_MAX_RECORD_FIELDS < nField info + length fs \<Longrightarrow>
     list_all (\<lambda>f. fst f < 2 ^ 31 \<and> length (snd f) = serial_len (fst f)) fs \<Longrightarrow>
     snd (parse_fields d pe p off info) = Inl SQLITE_CORRUPT"
proof (induction fs arbitrary: p off info)
  case (Cons f fs)
  have f: "fst f < 2 ^ 31" "length (snd f) = serial_len (fst f)" using Cons.prems(7) by simp_all
  note st = parse_fields_step [OF Cons.prems(1-4) f]
  show ?case
  proof (cases "nField info \<ge> DOLTLITE_MAX_RECORD_FIELDS")
    case False
    let ?info = "info\<lparr>aType := aType info @ [int (fst f)], aOffset := aOffset info @ [off]\<rparr>"
    have "nField ?info \<le> DOLTLITE_MAX_RECORD_FIELDS" "DOLTLITE_MAX_RECORD_FIELDS < nField ?info + length fs"
      using Cons.prems(6) False by (simp_all add: nField_def)
    from Cons.IH [OF st(2,3) Cons.prems(3) st(4) this] st(1) False Cons.prems(7) show ?thesis by simp
  qed (simp add: st(1))
qed simp

lemma result_field_value:
  assumes f: "fst f < 2 ^ 31" "length (snd f) = serial_len (fst f)" and d: "d = pre @ snd f @ post"
  shows "doltliteResultField d (int (fst f)) (int (length pre)) = Inr (field_value f)"
proof -
  have r: "read_at d (int (length pre)) (int n) = Inr (snd f)" if "length (snd f) = n" for n
    using that by (auto simp: read_at_def d)
  have le: "int (length pre) + int (length (snd f)) \<le> int (length d)" by (simp add: d)
  consider "fst f = 0" | "1 \<le> fst f" "fst f \<le> 6" | "fst f = 7" | "fst f = 8 \<or> fst f = 9" | "fst f = 10 \<or> fst f = 11"
    | "13 \<le> fst f" "odd (fst f)" | "12 \<le> fst f" "even (fst f)"
  proof -
    have "fst f = 0 \<or> 1 \<le> fst f \<and> fst f \<le> 6 \<or> fst f = 7 \<or> fst f = 8 \<or> fst f = 9 \<or> fst f = 10 \<or> fst f = 11 \<or>
      12 \<le> fst f" by arith
    moreover have "fst f = 12 \<or> 13 \<le> fst f" if "12 \<le> fst f" using that by arith
    ultimately show ?thesis using that by (metis even_numeral)
  qed
  then show ?thesis
  proof cases
    case 2
    then show ?thesis
      using r [OF f(2)] le f(2) by (simp add: doltliteResultField_def Let_def field_value_def serial_len_def)
  next
    case 3
    then show ?thesis
      using r [of 8] le f(2) by (simp add: doltliteResultField_def Let_def field_value_def serial_len_def)
  next
    case 6
    have len: "(int (fst f) - 13) div 2 = int (length (snd f))"
      using 6 f(2) by (auto simp: serial_len_def elim!: oddE)
    have "int (fst f) mod 2 = 1" using 6(2) by presburger
    then show ?thesis
      using 6 r [OF refl] le unfolding doltliteResultField_def Let_def len
      by (simp add: field_value_def Let_def)
  next
    case 7
    have len: "(int (fst f) - 12) div 2 = int (length (snd f))"
      using 7 f(2) by (auto simp: serial_len_def elim!: evenE)
    have "int (fst f) mod 2 = 0" using 7(2) by presburger
    then show ?thesis
      using 7 r [OF refl] le unfolding doltliteResultField_def Let_def len
      by (simp add: field_value_def Let_def)
  next
    case 4
    then show ?thesis by (elim disjE) (simp_all add: doltliteResultField_def field_value_def Let_def)
  next
    case 5
    then show ?thesis by (elim disjE) (simp_all add: doltliteResultField_def field_value_def Let_def)
  qed (simp add: doltliteResultField_def field_value_def)
qed

lemma concat_map_split:
  "i < length fs \<Longrightarrow> concat (map g fs) = concat (map g (take i fs)) @ g (fs ! i) @ concat (map g (drop (Suc i) fs))"
  by (metis concat.simps(2) concat_append id_take_nth_drop list.simps(9) map_append)

text \<open>The parser reads the size of the header and then the fields.\<close>

lemma parse_strict_fields:
  assumes "record_form hs fs"
  shows "doltliteParseRecordStrict (encode_record hs fs) =
      parse_fields (encode_record hs fs) hs (length (put_varint hs)) (int hs) rec_info0"
    "length (put_varint hs) + length (types_bytes fs) = hs" "hs \<le> length (encode_record hs fs)"
    "drop (length (put_varint hs)) (encode_record hs fs) = types_bytes fs @ concat (map snd fs)"
    "int hs + int (length (concat (map snd fs))) = int (length (encode_record hs fs))"
proof -
  let ?d = "encode_record hs fs" and ?v = "put_varint hs"
  have hs: "hs = length ?v + length (types_bytes fs)" "hs < 2 ^ 31" using assms by (simp_all add: record_form_def)
  have vp: "0 < length ?v" by (rule length_put_varint_pos)
  have len: "length ?d = hs + length (concat (map snd fs))" using hs(1) by (simp add: encode_record_def)
  have d0: "drop 0 ?d = ?v @ types_bytes fs @ concat (map snd fs)" by (simp add: encode_record_def)
  have small: "hs < 2 ^ 56" using hs(2) by simp
  have e: "0 + length ?v \<le> length ?d" using hs(1) len by linarith
  note v = dlReadVarint_put [OF d0 small e order_refl]
  show "length ?v + length (types_bytes fs) = hs" "hs \<le> length ?d" using hs(1) len by simp_all
  show "drop (length ?v) ?d = types_bytes fs @ concat (map snd fs)" by (simp add: encode_record_def)
  show "int hs + int (length (concat (map snd fs))) = int (length ?d)" unfolding len by simp
  have "\<not> int hs < int (length ?v)" "\<not> int hs > int (length ?d)" "\<not> length ?d < 1"
    using hs(1) len vp by linarith+
  then show "doltliteParseRecordStrict ?d = parse_fields ?d hs (length ?v) (int hs) rec_info0"
    using v vp by (simp add: doltliteParseRecordStrict_def int_cast_of_nat [OF hs(2)])
qed

lemma parse_strict_encoded:
  assumes "record_ok hs fs"
  shows "doltliteParseRecordStrict (encode_record hs fs) =
     (\<lparr>aType = map (\<lambda>f. int (fst f)) fs, aOffset = field_offsets (int hs) fs\<rparr>, Inr ())"
proof -
  have f: "record_form hs fs" "length fs \<le> DOLTLITE_MAX_RECORD_FIELDS" using assms by (simp_all add: record_ok_form)
  note p = parse_strict_fields [OF f(1)]
  show ?thesis
    unfolding p(1) using parse_fields_encoded [OF p(4,2,3,5), of rec_info0] f(2) assms
    by (simp add: rec_info0_def nField_def record_ok_def)
qed

lemma parse_strict_many:
  assumes "record_form hs fs" "DOLTLITE_MAX_RECORD_FIELDS < length fs"
  shows "snd (doltliteParseRecordStrict (encode_record hs fs)) = Inl SQLITE_CORRUPT"
proof -
  note p = parse_strict_fields [OF assms(1)]
  show ?thesis
    unfolding p(1) using parse_fields_many [OF p(4,2,3,5), of rec_info0] assms
    by (simp add: rec_info0_def nField_def record_form_def)
qed

lemma record_roundtrip_fields:
  assumes "record_ok hs fs"
  shows "\<exists>info. doltliteParseRecordStrict (encode_record hs fs) = (info, Inr ()) \<and> nField info = length fs \<and>
     (\<forall>i < length fs. doltliteResultField (encode_record hs fs) (aType info ! i) (aOffset info ! i) = Inr (field_value (fs ! i)))"
proof -
  let ?d = "encode_record hs fs" and ?v = "put_varint hs"
  have hs: "hs = length ?v + length (types_bytes fs)" "list_all (\<lambda>f. fst f < 2 ^ 31 \<and> length (snd f) = serial_len (fst f)) fs"
    using assms by (simp_all add: record_ok_def)
  have fld: "doltliteResultField ?d (int (fst (fs ! i))) (field_offsets (int hs) fs ! i) = Inr (field_value (fs ! i))"
    if "i < length fs" for i
  proof -
    let ?pre = "?v @ types_bytes fs @ concat (map snd (take i fs))"
    have "?d = ?pre @ snd (fs ! i) @ concat (map snd (drop (Suc i) fs))"
      using concat_map_split [OF that, of snd] by (simp add: encode_record_def)
    then have d: "?d = ?pre @ snd (fs ! i) @ concat (map snd (drop (Suc i) fs))" by simp
    have o: "field_offsets (int hs) fs ! i = int (length ?pre)"
      using hs(1) by (simp add: field_offsets_nth [OF that])
    have "fst (fs ! i) < 2 ^ 31" "length (snd (fs ! i)) = serial_len (fst (fs ! i))"
      using hs(2) that by (simp_all add: list_all_length)
    from result_field_value [OF this d] show ?thesis unfolding o .
  qed
  show ?thesis by (rule exI, rule conjI [OF parse_strict_encoded [OF assms]]) (simp add: fld nField_def)
qed

text \<open>
  C30. A record in the storage format, of up to 256 fields, is accepted by the strict parser, which reports as
  many fields as were encoded, and each field read back through its type and offset is the
  value that was encoded.  A record of more fields, which the format and SQLite allow, is reported as corrupt.
  The size of the header and the serial types are below \<open>2 ^ 31\<close>, as for every record whose size is an \<open>int\<close>.
\<close>

theorem record_roundtrip:
  assumes "record_form hs fs"
  shows "if length fs \<le> 256
     then \<exists>info. doltliteParseRecordStrict (encode_record hs fs) = (info, Inr ()) \<and> nField info = length fs \<and>
       (\<forall>i < length fs. doltliteResultField (encode_record hs fs) (aType info ! i) (aOffset info ! i) = Inr (field_value (fs ! i)))
     else snd (doltliteParseRecordStrict (encode_record hs fs)) = Inl SQLITE_CORRUPT"
  using record_roundtrip_fields [of hs fs] parse_strict_many [OF assms] assms
  by (simp add: record_ok_form DOLTLITE_MAX_RECORD_FIELDS_def)

definition sample_fields :: "field list" where
  "sample_fields = [(1, [255]), (17, [104, 105]), (8, []), (14, [222])]"

lemma record_roundtrip_witness:
  "\<exists>info. doltliteParseRecordStrict (encode_record 5 sample_fields) = (info, Inr ()) \<and> nField info = 4 \<and>
     doltliteResultField (encode_record 5 sample_fields) (aType info ! 1) (aOffset info ! 1) = Inr (VText [104, 105])"
proof -
  have "record_form 5 sample_fields"
    by (simp add: record_form_def sample_fields_def types_bytes_def put_varint_def vdigits.simps serial_len_spec)
  moreover have "length sample_fields \<le> 256" by (simp add: sample_fields_def)
  ultimately obtain info where
    i: "doltliteParseRecordStrict (encode_record 5 sample_fields) = (info, Inr ())" "nField info = length sample_fields"
    "\<forall>i < length sample_fields. doltliteResultField (encode_record 5 sample_fields) (aType info ! i) (aOffset info ! i)
        = Inr (field_value (sample_fields ! i))" using record_roundtrip [of 5 sample_fields] by auto
  have "length sample_fields = 4" "field_value (sample_fields ! 1) = VText [104, 105]"
    by (simp_all add: sample_fields_def field_value_def)
  then show ?thesis using i by auto
qed

section \<open>Integers\<close>

lemma or_byte: "push_bit 8 v OR ucast (b :: byte) = v * 256 + (ucast b :: u64)"
proof -
  have "push_bit 8 v OR ucast b = push_bit 8 v + (ucast b :: u64)"
    by (rule disjunctive_add [symmetric]) (auto simp: bit_simps dest: bit_imp_le_length)
  then show ?thesis by (simp add: push_bit_eq_mult mult.commute)
qed

lemma read_int_loop_value: "read_int_loop (of_int x) bs = of_int (x * 256 ^ length bs + int (be_val bs))"
proof (induction bs arbitrary: x)
  case (Cons b bs)
  have "push_bit 8 (of_int x) OR ucast b = (of_int (x * 256 + int (unat b)) :: u64)"
    unfolding or_byte by (simp add: of_nat_unat)
  then have "read_int_loop (of_int x) (b # bs) = read_int_loop (of_int (x * 256 + int (unat b))) bs" by simp
  also have "\<dots> = of_int ((x * 256 + int (unat b)) * 256 ^ length bs + int (be_val bs))" by (rule Cons)
  finally show ?case by (simp add: algebra_simps)
qed simp

lemma top_bit: "(b :: byte) AND 128 \<noteq> 0 \<longleftrightarrow> 128 \<le> unat b"
proof -
  have 1: "(b AND 128 \<noteq> 0) = (128 \<le> b)" for b :: byte
  proof -
    have "\<forall>n \<in> set [0..<256]. ((of_nat n :: byte) AND 128 \<noteq> 0) = (128 \<le> (of_nat n :: byte))" by code_simp
    then have "((of_nat (unat b) :: byte) AND 128 \<noteq> 0) = (128 \<le> (of_nat (unat b) :: byte))"
      by (rule bspec) (use unat_byte_less [of b] in simp)
    then show ?thesis by simp
  qed
  show ?thesis unfolding 1 by (simp add: word_le_nat_alt)
qed

text \<open>
  Integers of every width are read as two's complement: the big-endian value of the one to
  eight bytes, less the modulus when the first bit is set.
\<close>

theorem recReadInt_signed:
  assumes "bs \<noteq> []" "length bs \<le> 8"
  shows "sint (recReadInt bs) =
     (if 128 * 256 ^ (length bs - 1) \<le> be_val bs then int (be_val bs) - 256 ^ length bs else int (be_val bs))"
proof -
  obtain b cs where bs: "bs = b # cs" using assms(1) by (cases bs) auto
  let ?m = "256 ^ length cs :: int"
  have c: "be_val cs < 256 ^ length cs" by (rule be_val_less)
  then have c': "int (be_val cs) < ?m" by (simp only: of_nat_less_iff [symmetric, where 'a = int]) simp
  have m: "0 < ?m" "?m \<le> 256 ^ 7" using assms(2) power_increasing [of "length cs" 7 "256 :: int"] by (simp_all add: bs)
  have ub: "int (unat b) < 256" by (rule order_less_le_trans [OF of_nat_less_iff [THEN iffD2, OF unat_byte_less]]) simp
  have top: "128 * 256 ^ length cs \<le> be_val bs \<longleftrightarrow> 128 \<le> unat b"
  proof
    assume a: "128 * 256 ^ length cs \<le> be_val bs"
    show "128 \<le> unat b"
    proof (rule ccontr)
      assume "\<not> 128 \<le> unat b"
      then have "(unat b + 1) * 256 ^ length cs \<le> 128 * 256 ^ length cs" by (intro mult_right_mono) simp_all
      then show False using a c unfolding bs be_val.simps add_mult_distrib mult_1 by linarith
    qed
  next
    assume "128 \<le> unat b"
    then have "128 * 256 ^ length cs \<le> unat b * 256 ^ length cs" by (intro mult_right_mono) simp_all
    then show "128 * 256 ^ length cs \<le> be_val bs" unfolding bs be_val.simps by linarith
  qed
  define x :: int where "x = (if 128 \<le> unat b then -1 else 0)"
  have r: "recReadInt bs = of_int (x * 256 ^ length bs + int (be_val bs))"
    using read_int_loop_value [of x bs] top_bit [of b] by (auto simp: recReadInt_def x_def bs)
  have range: "- (2 ^ 63) \<le> x * 256 ^ length bs + int (be_val bs)" "x * 256 ^ length bs + int (be_val bs) < 2 ^ 63"
  proof -
    have v: "x * 256 ^ length bs + int (be_val bs) = (x * 256 + int (unat b)) * ?m + int (be_val cs)"
      by (simp add: bs algebra_simps)
    have k: "-128 \<le> x * 256 + int (unat b) \<and> x * 256 + int (unat b) \<le> 127"
      using ub unfolding x_def by (cases "128 \<le> unat b", simp_all only: if_True if_False) linarith+
    have "(-128) * ?m \<le> (x * 256 + int (unat b)) * ?m" using k m(1) by (intro mult_right_mono) simp_all
    moreover have "(x * 256 + int (unat b)) * ?m \<le> 127 * ?m" using k m(1) by (intro mult_right_mono) simp_all
    moreover have n63: "128 * (256 :: int) ^ 7 = 2 ^ 63" by simp
    moreover have "0 \<le> int (be_val cs)" by simp
    ultimately show "- (2 ^ 63) \<le> x * 256 ^ length bs + int (be_val bs)" "x * 256 ^ length bs + int (be_val bs) < 2 ^ 63"
      unfolding v using m c' n63 by linarith+
  qed
  have "sint (recReadInt bs) = x * 256 ^ length bs + int (be_val bs)"
    unfolding r by (simp only: signed_of_int) (use range in \<open>simp add: signed_take_bit_int_eq_self\<close>)
  then show ?thesis using top by (simp add: bs x_def)
qed

lemma recReadInt_signed_witness: "sint (recReadInt [255, 56]) = - 200"
  using recReadInt_signed [of "[255, 56]"] by simp

section \<open>Arbitrary input\<close>

text \<open>The serial types of a header.\<close>

function header_serials :: "byte list \<Rightarrow> nat \<Rightarrow> nat \<Rightarrow> u64 list" where
  "header_serials d pHdrEnd p =
     (if p < pHdrEnd then
        (case dlReadVarint d p pHdrEnd of
           Inl e \<Rightarrow> []
         | Inr (n, st) \<Rightarrow> if n = 0 then [] else st # header_serials d pHdrEnd (p + n))
      else [])"
  by pat_completeness auto
termination by (relation "measure (\<lambda>(d, pHdrEnd, p). pHdrEnd - p)") auto

declare header_serials.simps [simp del]

definition record_serials :: "byte list \<Rightarrow> u64 list" where
  "record_serials d =
     (case dlReadVarint d 0 (length d) of
        Inl e \<Rightarrow> []
      | Inr (n, h) \<Rightarrow> header_serials d (nat (int_cast h)) n)"

definition fields_ok :: "byte list \<Rightarrow> rec_info \<Rightarrow> int \<Rightarrow> bool" where
  "fields_ok d info off \<longleftrightarrow> length (aOffset info) = length (aType info) \<and> 0 \<le> off \<and>
     nField info \<le> DOLTLITE_MAX_RECORD_FIELDS \<and>
     (\<forall>i < nField info. 0 \<le> aOffset info ! i \<and> (\<exists>st < 2 ^ 31. aType info ! i = int st \<and>
        aOffset info ! i + int (serial_len st) \<le> int (length d)))"

lemma parse_fields_ok:
  "parse_fields d pe p off info = (info', r) \<Longrightarrow> pe \<le> length d \<Longrightarrow> \<forall>st \<in> set (header_serials d pe p). unat st < 2 ^ 31 \<Longrightarrow>
     fields_ok d info off \<Longrightarrow> (\<exists>off'. fields_ok d info' off') \<and> (r = Inr () \<or> r = Inl SQLITE_CORRUPT)"
proof (induction d pe p off info rule: parse_fields.induct)
  case (1 d pe p off info)
  show ?case
  proof (cases "p < pe")
    case False
    then show ?thesis using "1.prems" by (subst (asm) parse_fields.simps) (auto split: if_splits)
  next
    case True
    obtain n st where v: "dlReadVarint d p pe = Inr (n, st)" "1 \<le> n"
      using dlReadVarint_total [OF "1.prems"(2), of p] True by blast
    let ?len = "serial_len (unat st)"
    let ?info = "info\<lparr>aType := aType info @ [int_cast st], aOffset := aOffset info @ [off]\<rparr>"
    have hs: "header_serials d pe p = st # header_serials d pe (p + n)"
      using True v by (subst header_serials.simps) simp
    then have st: "unat st < 2 ^ 31" using "1.prems"(3) by simp
    have sl: "dlSerialTypeLen st = int ?len" using dlSerialTypeLen_of_nat [OF st] by simp
    have sc: "int_cast st = int (unat st)" using int_cast_of_nat [OF st] by simp
    show ?thesis
    proof (cases "nField info \<ge> DOLTLITE_MAX_RECORD_FIELDS \<or> off > int (length d) - int ?len")
      case stop: True
      then have "info' = info \<and> r = Inl SQLITE_CORRUPT"
        using "1.prems"(1) True v by (subst (asm) parse_fields.simps) (auto simp: sl split: if_splits)
      then show ?thesis using "1.prems"(4) by auto
    next
      case False
      then have go: "parse_fields d pe (p + n) (off + int ?len) ?info = (info', r)"
        using "1.prems"(1) True v by (subst (asm) parse_fields.simps) (simp add: sl)
      have "fields_ok d ?info (off + int ?len)"
        using "1.prems"(4) False st by (auto simp: fields_ok_def nField_def nth_append sc less_Suc_eq not_le)
      moreover have "\<forall>st \<in> set (header_serials d pe (p + n)). unat st < 2 ^ 31" using "1.prems"(3) hs by simp
      ultimately show ?thesis
        using "1.IH" [of "(n, st)" n st "p + n" "int ?len"] go True v False "1.prems"(2) sl by simp
    qed
  qed
qed

lemma result_field_readable:
  assumes "0 \<le> off" "st < 2 ^ 31" "off + int (serial_len st) \<le> int (length d)"
  shows "\<exists>v. doltliteResultField d (int st) off = Inr v"
proof -
  let ?pre = "take (nat off) d" and ?b = "take (serial_len st) (drop (nat off) d)"
  have "d = ?pre @ snd (st, ?b) @ drop (serial_len st) (drop (nat off) d)"
    by (simp add: drop_drop [symmetric] del: drop_drop)
  moreover have "length ?b = serial_len st" using assms(1,3) by simp
  moreover have "int (length ?pre) = off" using assms by simp
  ultimately show ?thesis using result_field_value [of "(st, ?b)" d ?pre] assms(2) by auto
qed

text \<open>
  C31. On any input whose serial types fit a C int, the strict parser ends with success or
  \<open>SQLITE_CORRUPT\<close>, and every field it has reported, even when it failed, can be projected
  without reading outside the record.
\<close>

theorem record_fields_readable:
  assumes p: "doltliteParseRecordStrict d = (info, r)" and st: "\<forall>st \<in> set (record_serials d). unat st < 2 ^ 31"
  shows "(r = Inr () \<or> r = Inl SQLITE_CORRUPT) \<and> nField info \<le> DOLTLITE_MAX_RECORD_FIELDS \<and>
     (\<forall>i < nField info. \<exists>v. doltliteResultField d (aType info ! i) (aOffset info ! i) = Inr v)"
proof -
  have base: "fields_ok d rec_info0 off" if "0 \<le> off" for off
    using that by (simp add: fields_ok_def nField_def rec_info0_def DOLTLITE_MAX_RECORD_FIELDS_def)
  obtain n h where v: "dlReadVarint d 0 (length d) = Inr (n, h)" using dlReadVarint_total [of "length d" d 0] by auto
  have "(\<exists>off. fields_ok d info off) \<and> (r = Inr () \<or> r = Inl SQLITE_CORRUPT)"
  proof (cases "length d < 1 \<or> n = 0 \<or> int_cast h < int n \<or> int_cast h > int (length d)")
    case True
    then have "info = rec_info0 \<and> r = Inl SQLITE_CORRUPT"
      using p v by (auto simp: doltliteParseRecordStrict_def split: if_splits)
    then show ?thesis using base [of 0] by auto
  next
    case False
    then have "parse_fields d (nat (int_cast h)) n (int_cast h) rec_info0 = (info, r)"
      using p v by (simp add: doltliteParseRecordStrict_def split: if_splits)
    moreover have "nat (int_cast h) \<le> length d" "0 \<le> int_cast h" using False by linarith+
    ultimately show ?thesis
      using parse_fields_ok [of d "nat (int_cast h)" n "int_cast h" rec_info0 info r] st v base
      by (simp add: record_serials_def)
  qed
  then obtain off where f: "fields_ok d info off" "r = Inr () \<or> r = Inl SQLITE_CORRUPT" by blast
  have "\<exists>v. doltliteResultField d (aType info ! i) (aOffset info ! i) = Inr v" if i: "i < nField info" for i
  proof -
    obtain st where "0 \<le> aOffset info ! i" "st < 2 ^ 31" "aType info ! i = int st"
      "aOffset info ! i + int (serial_len st) \<le> int (length d)" using f(1) i by (auto simp: fields_ok_def)
    then show ?thesis using result_field_readable by simp
  qed
  then show ?thesis using f by (simp add: fields_ok_def)
qed

lemma record_fields_readable_witness:
  "\<exists>info r. doltliteParseRecordStrict [3, 1, 1, 7] = (info, r) \<and> (r = Inr () \<or> r = Inl SQLITE_CORRUPT) \<and>
     nField info \<le> DOLTLITE_MAX_RECORD_FIELDS \<and>
     (\<forall>i < nField info. \<exists>v. doltliteResultField [3, 1, 1, 7] (aType info ! i) (aOffset info ! i) = Inr v)"
proof -
  have "\<forall>st \<in> set (record_serials [3, 1, 1, 7]). unat st < 2 ^ 31"
  proof -
    have "record_serials [3, 1, 1, 7] = [1, 1]" by code_simp
    then show ?thesis by simp
  qed
  from record_fields_readable [OF _ this] show ?thesis by (metis surj_pair)
qed

text \<open>
  The length of a serial type is computed in 32-bit arithmetic: a type above \<open>2 ^ 32\<close> has a
  negative length, the offset moves before the record, and the parser accepts a blob whose
  bytes lie outside the record.
\<close>

theorem record_negative_offset:
  "let d = [8, 143, 255, 255, 254, 68, 129, 84]; (info, r) = doltliteParseRecordStrict d in
     r = Inr () \<and> aOffset info = [8, -92] \<and>
     doltliteResultField d (aType info ! 1) (aOffset info ! 1) = Inl OUT_OF_BOUNDS"
  by code_simp

section \<open>Binding is projecting\<close>

text \<open>
  Binding a field to a parameter and returning it as a result convert it to the same value:
  two routines with the conversion written twice, in the same states of failure.
\<close>

theorem doltliteBindField_result:
  "doltliteBindField stmt i d st off = bindR (doltliteResultField d st off) (\<lambda>v. Inr (stmt[i := v]))"
  by (simp add: doltliteBindField_def doltliteResultField_def Let_def bindR_assoc)

section \<open>Text rendering\<close>

lemma render_field_fails: "fails_only {SQLITE_CORRUPT} (render_field fmt d st pBody buf)"
  unfolding render_field_def Let_def
  by (intro fails_only_intros) (auto simp: fails_only_def res_simps read_bytes_def not_less)

lemma decode_fields_fails:
  "pe \<le> length d \<Longrightarrow> fails_only {SQLITE_CORRUPT} (decode_fields fmt d pe p pBody i buf)"
proof (induction fmt d pe p pBody i buf rule: decode_fields.induct)
  case (1 fmt d pe p pBody i buf)
  show ?case
  proof (cases "p < pe \<and> p < length d")
    case True
    obtain n st where v: "dlReadVarint d p pe = Inr (n, st)" "1 \<le> n"
      using dlReadVarint_total [OF "1.prems", of p] True by blast
    let ?r = "render_field fmt d st pBody (if i > 0 then recBufAppend buf [124] else buf)"
    have "fails_only {SQLITE_CORRUPT} (bindR ?r (\<lambda>(buf, pBody). decode_fields fmt d pe (p + n) pBody (i + 1) buf))"
      by (rule fails_only_bind [OF render_field_fails]) (use "1.IH" True v "1.prems" in auto)
    then show ?thesis using True v by (subst decode_fields.simps) simp
  qed (subst decode_fields.simps, auto)
qed

text \<open>
  Rendering a record as text is total: on any bytes it returns a text or the null pointer,
  and never reads outside the record.
\<close>

theorem doltliteDecodeRecord_total: "\<exists>r. doltliteDecodeRecord fmt d = Inr r"
proof -
  obtain n h where v: "dlReadVarint d 0 (length d) = Inr (n, h)" using dlReadVarint_total [of "length d" d 0] by auto
  show ?thesis
  proof (cases "length d < 1 \<or> n = 0 \<or> unat h < n \<or> unat h > length d")
    case True
    then show ?thesis using v by (auto simp: doltliteDecodeRecord_def)
  next
    case False
    then have "fails_only {SQLITE_CORRUPT} (decode_fields fmt d (unat h) n (unat h) 0 None)"
      by (intro decode_fields_fails) simp
    from fails_only_cases [OF this] show ?thesis
    proof (elim disjE exE)
      fix x assume "decode_fields fmt d (unat h) n (unat h) 0 None = Inr x"
      then show ?thesis using False v by (cases x) (simp add: doltliteDecodeRecord_def)
    qed (use False v in \<open>simp add: doltliteDecodeRecord_def\<close>)
  qed
qed

text \<open>The text of a value, and the fields separated by bars.\<close>

definition text_of :: "(u64 \<Rightarrow> byte list) \<Rightarrow> sqlval \<Rightarrow> byte list" where
  "text_of fmt v = (case v of
       VNull \<Rightarrow> [78, 85, 76, 76]
     | VInt i \<Rightarrow> dec_int (sint i)
     | VReal r \<Rightarrow> fmt r
     | VText b \<Rightarrow> b
     | VBlob b \<Rightarrow> [120, 39] @ concat (map hex_pair b) @ [39])"

fun join_bars :: "byte list list \<Rightarrow> byte list" where
  "join_bars [] = []"
| "join_bars [t] = t"
| "join_bars (t # ts) = t @ [124] @ join_bars ts"

lemma recBufAppend_append: "recBufAppend (recBufAppend b s) t = recBufAppend b (s @ t)"
  by (simp add: recBufAppend_def)

lemma append_hex:
  "foldl (\<lambda>b c. recBufAppend b (hex_pair c)) (recBufAppend b s) q = recBufAppend b (s @ concat (map hex_pair q))"
  by (induction q arbitrary: s) (simp_all add: recBufAppend_append)

lemma parity_word: "(of_nat n :: 'a::len word) AND 1 = (if even n then 0 else 1)"
proof -
  have "even (of_nat n :: 'a word) \<longleftrightarrow> even n"
    using bit_of_nat_iff [of n 0, where ?'a = "'a word"] by (simp add: bit_0)
  then show ?thesis by (simp add: and_one_eq mod2_eq_if)
qed

lemma render_field_text:
  assumes f: "fst f < 2 ^ 31" "length (snd f) = serial_len (fst f)" "fst f \<noteq> 10" "fst f \<noteq> 11"
    and d: "d = pre @ snd f @ post"
  shows "render_field fmt d (of_nat (fst f)) (length pre) buf =
     Inr (recBufAppend buf (text_of fmt (field_value f)), length pre + length (snd f))"
proof -
  have r: "read_bytes d (length pre) n = Inr (snd f)" "length pre + n \<le> length d" if "length (snd f) = n" for n
    using that by (auto simp: d)
  note u = unat_serial [OF f(1)]
  note le = serial_compare(1) [OF _ f(1)] serial_compare(1) [OF f(1)] and eq = serial_compare(2) [OF f(1)]
  have c: "(of_nat (fst f) :: u64) = 0 \<longleftrightarrow> fst f = 0" "(of_nat (fst f) :: u64) = 8 \<longleftrightarrow> fst f = 8"
    "(of_nat (fst f) :: u64) = 9 \<longleftrightarrow> fst f = 9" "1 \<le> (of_nat (fst f) :: u64) \<longleftrightarrow> 1 \<le> fst f"
    "(of_nat (fst f) :: u64) \<le> 6 \<longleftrightarrow> fst f \<le> 6" "(of_nat (fst f) :: u64) = 7 \<longleftrightarrow> fst f = 7"
    "12 \<le> (of_nat (fst f) :: u64) \<longleftrightarrow> 12 \<le> fst f" "13 \<le> (of_nat (fst f) :: u64) \<longleftrightarrow> 13 \<le> fst f"
    using eq [of 0] eq [of 8] eq [of 9] le(1) [of 1] le(2) [of 6] eq [of 7] le(1) [of 12] le(1) [of 13] by simp_all
  note i = int_cast_of_nat [OF f(1)] parity_word [of "fst f"]
  have halves: "(int (fst f) - 12) sdiv 2 = int ((fst f - 12) div 2)" if "12 \<le> fst f"
    using that by (simp add: signed_divide_int_def sgn_if zdiv_int of_nat_diff)
  have halves': "(int (fst f) - 13) sdiv 2 = int ((fst f - 13) div 2)" if "13 \<le> fst f"
    using that by (simp add: signed_divide_int_def sgn_if zdiv_int of_nat_diff)
  consider "fst f = 0" | "1 \<le> fst f" "fst f \<le> 6" | "fst f = 7" | "fst f = 8" | "fst f = 9"
    | "13 \<le> fst f" "odd (fst f)" | "12 \<le> fst f" "even (fst f)"
  proof -
    have "fst f = 0 \<or> 1 \<le> fst f \<and> fst f \<le> 6 \<or> fst f = 7 \<or> fst f = 8 \<or> fst f = 9 \<or> fst f = 12 \<or> 13 \<le> fst f"
      using f(3,4) by arith
    then show ?thesis using that by (cases "even (fst f)") auto
  qed
  then show ?thesis
  proof cases
    case 2
    then show ?thesis using r f(2) unfolding render_field_def c Let_def u
      by (simp add: field_value_def text_of_def serial_len_def)
  next
    case 3
    then show ?thesis using r f(2) unfolding render_field_def c Let_def
      by (simp add: field_value_def text_of_def serial_len_def)
  next
    case 6
    have "length (snd f) = (fst f - 12) div 2" using 6 f(2) by (simp add: serial_len_def)
    then have "(fst f - 13) div 2 = length (snd f)" using 6 by presburger
    then show ?thesis using 6 r [OF refl] unfolding render_field_def c Let_def i halves' [OF 6(1)]
      by (simp add: field_value_def text_of_def)
  next
    case 7
    have "(fst f - 12) div 2 = length (snd f)" using 7 f(2) by (simp add: serial_len_def)
    moreover have "\<not> (13 \<le> fst f \<and> odd (fst f))" using 7 by simp
    ultimately show ?thesis using 7 r [OF refl] unfolding render_field_def c Let_def i halves [OF 7(1)]
      by (simp add: field_value_def text_of_def append_hex recBufAppend_append)
  qed (unfold render_field_def c,
      use f(2) in \<open>simp_all add: field_value_def text_of_def dec_int_def dec_nat.simps serial_len_def int_sizes_def\<close>)
qed

lemma decode_fields_text:
  "drop p d = types_bytes fs @ rest \<Longrightarrow> p + length (types_bytes fs) = pe \<Longrightarrow> pe \<le> length d \<Longrightarrow>
     d = pre @ concat (map snd fs) \<Longrightarrow>
     list_all (\<lambda>f. fst f < 2 ^ 31 \<and> length (snd f) = serial_len (fst f) \<and> fst f \<noteq> 10 \<and> fst f \<noteq> 11) fs \<Longrightarrow>
     decode_fields fmt d pe p (length pre) i buf =
       Inr (pe, if fs = [] then buf
          else recBufAppend buf ((if i > 0 then [124] else []) @ join_bars (map (\<lambda>f. text_of fmt (field_value f)) fs)))"
proof (induction fs arbitrary: p pre i buf)
  case Nil
  then show ?case by (subst decode_fields.simps) (simp add: types_bytes_def)
next
  case (Cons f fs)
  let ?b = "put_varint (fst f)"
  have f: "fst f < 2 ^ 31" "length (snd f) = serial_len (fst f)" "fst f \<noteq> 10" "fst f \<noteq> 11" using Cons.prems(5) by simp_all
  have dr: "drop p d = ?b @ types_bytes fs @ rest" using Cons.prems(1) by (simp add: types_bytes_def)
  have le: "p + length ?b \<le> pe" using Cons.prems(2) by (simp add: types_bytes_def)
  have lt: "p < pe" "p < length d" using le length_put_varint_pos [of "fst f"] Cons.prems(3) by linarith+
  have small: "fst f < 2 ^ 56" using f(1) by simp
  note v = dlReadVarint_put [OF dr small le Cons.prems(3)]
  have nz: "?b \<noteq> []" using length_put_varint_pos [of "fst f"] by simp
  have "d = pre @ snd f @ concat (map snd fs)" using Cons.prems(4) by simp
  note rf = render_field_text [OF f this, of fmt "if i > 0 then recBufAppend buf [124] else buf"]
  let ?buf = "recBufAppend (if i > 0 then recBufAppend buf [124] else buf) (text_of fmt (field_value f))"
  have step: "decode_fields fmt d pe p (length pre) i buf =
      decode_fields fmt d pe (p + length ?b) (length (pre @ snd f)) (i + 1) ?buf"
    using lt nz rf by (subst decode_fields.simps) (simp add: v)
  have "drop (p + length ?b) d = types_bytes fs @ rest" using dr by (metis add.commute append_eq_conv_conj drop_drop)
  moreover have "p + length ?b + length (types_bytes fs) = pe" using Cons.prems(2) by (simp add: types_bytes_def)
  moreover have "d = (pre @ snd f) @ concat (map snd fs)" using Cons.prems(4) by simp
  ultimately have ih: "decode_fields fmt d pe (p + length ?b) (length (pre @ snd f)) (i + 1) ?buf =
      Inr (pe, if fs = [] then ?buf
          else recBufAppend ?buf ([124] @ join_bars (map (\<lambda>f. text_of fmt (field_value f)) fs)))"
    using Cons.IH [of "p + length ?b" "pre @ snd f" "i + 1" ?buf] Cons.prems(3,5) by simp
  show ?case unfolding step ih by (cases fs) (simp_all add: recBufAppend_append)
qed

text \<open>
  The text of a well-formed record is the texts of its fields separated by bars: \<open>NULL\<close>,
  decimal integers, the text itself, blobs in hexadecimal.
\<close>

theorem doltliteDecodeRecord_text:
  assumes "record_ok hs fs" "fs \<noteq> []" "\<forall>f \<in> set fs. fst f \<noteq> 10 \<and> fst f \<noteq> 11"
  shows "doltliteDecodeRecord fmt (encode_record hs fs) =
     Inr (Some (join_bars (map (\<lambda>f. text_of fmt (field_value f)) fs)))"
proof -
  let ?d = "encode_record hs fs" and ?v = "put_varint hs"
  have hs: "hs = length ?v + length (types_bytes fs)" "hs < 2 ^ 31"
    "list_all (\<lambda>f. fst f < 2 ^ 31 \<and> length (snd f) = serial_len (fst f) \<and> fst f \<noteq> 10 \<and> fst f \<noteq> 11) fs"
    using assms(1,3) by (simp_all add: record_ok_def list_all_iff)
  have vp: "0 < length ?v" by (rule length_put_varint_pos)
  have len: "length ?d = hs + length (concat (map snd fs))" using hs(1) by (simp add: encode_record_def)
  have d0: "drop 0 ?d = ?v @ types_bytes fs @ concat (map snd fs)" by (simp add: encode_record_def)
  have small: "hs < 2 ^ 56" using hs(2) by simp
  have e: "0 + length ?v \<le> length ?d" "hs \<le> length ?d" using hs(1) len by linarith+
  note v = dlReadVarint_put [OF d0 small e(1) order_refl]
  have d1: "drop (length ?v) ?d = types_bytes fs @ concat (map snd fs)" by (simp add: encode_record_def)
  have d2: "?d = (?v @ types_bytes fs) @ concat (map snd fs)" by (simp add: encode_record_def)
  note df = decode_fields_text [OF d1 hs(1) [symmetric] e(2) d2 hs(3), of fmt 0 None]
  have lp: "length (?v @ types_bytes fs) = hs" using hs(1) by simp
  have "\<not> length ?d < 1" "\<not> hs < length ?v" "\<not> hs > length ?d" using hs(1) len vp by linarith+
  then show ?thesis
    using v vp df assms(2) unfolding lp
    by (simp add: doltliteDecodeRecord_def unat_serial [OF hs(2)] recBufAppend_def)
qed

lemma doltliteDecodeRecord_text_witness:
  "doltliteDecodeRecord (\<lambda>_. []) (encode_record 5 sample_fields) =
     Inr (Some ([45, 49] @ [124] @ [104, 105] @ [124] @ [48] @ [124] @ [120, 39, 100, 101, 39]))"
proof -
  have ok: "record_ok 5 sample_fields"
    by (simp add: record_ok_def sample_fields_def types_bytes_def put_varint_def vdigits.simps serial_len_def
        int_sizes_def DOLTLITE_MAX_RECORD_FIELDS_def)
  have "join_bars (map (\<lambda>f. text_of (\<lambda>_. []) (field_value f)) sample_fields) =
      [45, 49] @ [124] @ [104, 105] @ [124] @ [48] @ [124] @ [120, 39, 100, 101, 39]" by code_simp
  then show ?thesis
    using doltliteDecodeRecord_text [OF ok, of "\<lambda>_. []"] by (simp add: sample_fields_def)
qed

section \<open>Columns\<close>

text \<open>Key positions as \<open>table_info\<close> reports them: zero, or one to the number of key columns, once each.\<close>

definition pks_ok :: "int list \<Rightarrow> bool" where
  "pks_ok pks \<longleftrightarrow> mset (filter (\<lambda>pk. pk \<noteq> 0) pks) = mset (map (\<lambda>i. int i + 1) [0..<length (filter (\<lambda>pk. pk > 0) pks)])"

lemma scan_columns_eq:
  "scan_columns rows i n c = (n', c') \<Longrightarrow> n' = n + length (filter (\<lambda>pk. pk > 0) (map rPk rows)) \<and>
     (c' = c \<or> (\<exists>j < length rows. c' = int (i + j) \<and> rPk (rows ! j) = 1))"
proof (induction rows i n c rule: scan_columns.induct)
  case (2 r rs i n c)
  let ?n = "if rPk r > 0 then n + 1 else n"
  let ?a = "rPk r = 1 \<and> (case rType r of Some t \<Rightarrow> stricmp_eq t INTEGER | None \<Rightarrow> False)"
  let ?c = "if ?a then int i else c"
  have ih: "n' = ?n + length (filter (\<lambda>pk. pk > 0) (map rPk rs))"
    "c' = ?c \<or> (\<exists>j < length rs. c' = int (i + 1 + j) \<and> rPk (rs ! j) = 1)"
    using 2 by (simp_all del: of_nat_add)
  have "c' = c \<or> (\<exists>j < length (r # rs). c' = int (i + j) \<and> rPk ((r # rs) ! j) = 1)"
    using ih(2)
  proof
    assume "c' = ?c"
    then show ?thesis by (cases ?a) (auto intro: exI [of _ 0])
  next
    assume "\<exists>j < length rs. c' = int (i + 1 + j) \<and> rPk (rs ! j) = 1"
    then obtain j where "j < length rs" "c' = int (i + 1 + j)" "rPk (rs ! j) = 1" by blast
    then show ?thesis by (intro disjI2 exI [of _ "Suc j"]) simp
  qed
  then show ?case using ih(1) by simp
qed simp

lemma length_fill_nonpk: "length pks = length arr \<Longrightarrow> length (fill_nonpk pks arr n) = length pks"
  by (induction pks arr n rule: fill_nonpk.induct) simp_all

lemma fill_nonpk_mset:
  assumes "\<forall>pk \<in> set pks. 0 \<le> pk"
  shows "mset (fill_nonpk pks (map (\<lambda>pk. if pk > 0 then pk - 1 else 0) pks) (int m)) =
     mset (map (\<lambda>pk. pk - 1) (filter (\<lambda>pk. pk > 0) pks)) + mset (map int [m..<m + length (filter (\<lambda>pk. pk = 0) pks)])"
  using assms
proof (induction pks arbitrary: m)
  case (Cons pk pks)
  show ?case
  proof (cases "pk = 0")
    case True
    let ?f = "\<lambda>pk. if pk > 0 then pk - 1 else (0 :: int)" and ?k = "length (filter (\<lambda>pk. pk = 0) pks)"
    let ?A = "mset (map (\<lambda>pk. pk - 1) (filter (\<lambda>pk. pk > 0) pks))"
    have prems: "\<forall>pk \<in> set pks. 0 \<le> pk" using Cons.prems by simp
    have u: "[m..<m + Suc k] = m # [Suc m..<Suc m + k]" for k by (simp add: upt_conv_Cons)
    have "fill_nonpk (pk # pks) (map ?f (pk # pks)) (int m) = int m # fill_nonpk pks (map ?f pks) (int (Suc m))"
      using True by (simp add: add.commute)
    then have "mset (fill_nonpk (pk # pks) (map ?f (pk # pks)) (int m)) =
        add_mset (int m) (?A + mset (map int [Suc m..<Suc m + ?k]))"
      by (simp only: mset.simps Cons.IH [OF prems])
    also have "\<dots> = ?A + mset (map int [m..<m + Suc ?k])"
      by (simp only: u list.map mset.simps union_mset_add_mset_right)
    finally show ?thesis using True by simp
  next
    case False
    then have "pk > 0" using Cons.prems by simp
    then show ?thesis using False Cons by simp
  qed
qed simp

text \<open>
  The map from declared columns to record fields is a permutation: every field of the record
  is the place of exactly one column, also when key columns are stored first; a rowid alias
  is a column of the table, and the only key column.
\<close>

theorem doltliteGetColumnNames_permutation:
  assumes "pks_ok (map rPk rows)"
  shows "\<exists>ci. doltliteGetColumnNames (Inr rows) = Inr ci \<and> nCol ci = length rows \<and>
     mset (aColToRec ci) = mset (map int [0..<length rows]) \<and>
     (iPkCol ci = -1 \<or> (\<exists>j < length rows. iPkCol ci = int j \<and> filter (\<lambda>pk. pk \<noteq> 0) (map rPk rows) = [1]))"
proof -
  let ?pks = "map rPk rows"
  let ?n = "length (filter (\<lambda>pk. pk > 0) ?pks)"
  obtain c where sc: "scan_columns rows 0 0 (-1) = (?n, c)"
    "c = -1 \<or> (\<exists>j < length rows. c = int j \<and> rPk (rows ! j) = 1)"
    using scan_columns_eq [of rows 0 0 "-1"] by (cases "scan_columns rows 0 0 (-1)") auto
  define iPk where "iPk = (if ?n = 1 \<and> c \<ge> 0 then c else -1)"
  have ci: "doltliteGetColumnNames (Inr rows) =
      Inr \<lparr>azName = map (\<lambda>r. case rName r of Some z \<Rightarrow> z | None \<Rightarrow> []) rows, iPkCol = iPk, aColToRec = col_to_rec ?pks iPk ?n\<rparr>"
    by (simp add: doltliteGetColumnNames_def sc(1) iPk_def Let_def)
  have m: "mset (filter (\<lambda>pk. pk \<noteq> 0) ?pks) = mset (map (\<lambda>i. int i + 1) [0..<?n])"
    using assms by (simp add: pks_ok_def)
  have "set (filter (\<lambda>pk. pk \<noteq> 0) ?pks) = set (map (\<lambda>i. int i + 1) [0..<?n])" using m by (rule mset_eq_setD)
  then have "pk \<in> (\<lambda>i. int i + 1) ` set [0..<?n]" if "pk \<in> set ?pks" "pk \<noteq> 0" for pk
    using that by (simp only: set_map set_filter) blast
  then have nn: "\<forall>pk \<in> set ?pks. 0 \<le> pk" by fastforce
  have pos: "filter (\<lambda>pk. pk > 0) ?pks = filter (\<lambda>pk. pk \<noteq> 0) ?pks" by (rule filter_cong) (use nn in force)+
  have al: "iPk = -1 \<or> (\<exists>j < length rows. iPk = int j \<and> filter (\<lambda>pk. pk \<noteq> 0) ?pks = [1])"
  proof (cases "?n = 1 \<and> c \<ge> 0")
    case True
    then have "map (\<lambda>i. int i + 1) [0..<?n] = [1]" by simp
    then have "mset (filter (\<lambda>pk. pk \<noteq> 0) ?pks) = {#1#}" unfolding m by (simp only: mset.simps)
    then have "filter (\<lambda>pk. pk \<noteq> 0) ?pks = [1]" by (simp only: mset_single_iff)
    then show ?thesis using sc(2) True by (auto simp: iPk_def)
  qed (auto simp: iPk_def)
  have perm: "mset (col_to_rec ?pks iPk ?n) = mset (map int [0..<length rows])"
  proof (cases "iPk \<ge> 0 \<or> ?n = 0")
    case True
    then show ?thesis by (simp only: col_to_rec_def if_True length_map)
  next
    case False
    let ?z = "length (filter (\<lambda>pk. pk = 0) ?pks)"
    have len: "length rows = ?n + ?z"
      using sum_length_filter_compl [of "\<lambda>pk. pk = 0" ?pks] pos by simp
    have "mset (map (\<lambda>pk. pk - 1) (filter (\<lambda>pk. pk > 0) ?pks)) = mset (map int [0..<?n])"
    proof -
      have "mset (map (\<lambda>pk. pk - 1) (filter (\<lambda>pk. pk > 0) ?pks)) = image_mset (\<lambda>pk. pk - 1) (mset (map (\<lambda>i. int i + 1) [0..<?n]))"
        by (simp only: pos mset_map m)
      then show ?thesis by (simp add: multiset.map_comp comp_def)
    qed
    moreover have "mset (map int [0..<?n + ?z]) = mset (map int [0..<?n]) + mset (map int [?n..<?n + ?z])"
      by (simp only: upt_add_eq_append [OF le0] map_append mset_append)
    ultimately show ?thesis
      using False fill_nonpk_mset [OF nn, of ?n] unfolding len by (simp only: col_to_rec_def if_False)
  qed
  show ?thesis using ci perm al by (simp add: nCol_def)
qed

definition two_key_rows :: "table_info_row list" where
  "two_key_rows = [\<lparr>rName = Some [97], rType = None, rPk = 0\<rparr>, \<lparr>rName = Some [98], rType = Some INTEGER, rPk = 2\<rparr>,
     \<lparr>rName = Some [99], rType = None, rPk = 1\<rparr>]"

lemma doltliteGetColumnNames_permutation_witness:
  "\<exists>ci. doltliteGetColumnNames (Inr two_key_rows) = Inr ci \<and>
     mset (aColToRec ci) = mset (map int [0..<length two_key_rows])"
proof -
  have "mset [2, 1] = mset [1, 2 :: int]" by simp
  then have "pks_ok (map rPk two_key_rows)" by (simp add: pks_ok_def two_key_rows_def upt_rec)
  from doltliteGetColumnNames_permutation [OF this] show ?thesis by blast
qed

text \<open>
  A column of a stored row is its rowid when it is the rowid alias, else the value of the
  field that the column map names; beyond the fields of the record it is NULL.
\<close>

theorem doltliteResultUserCol_value:
  assumes "record_ok hs fs" "i < nCol ci" "length (aColToRec ci) = nCol ci" "\<forall>c \<in> set (aColToRec ci). 0 \<le> c"
  shows "doltliteResultUserCol (Some ci) (Some (encode_record hs fs)) key (int i) =
     Inr (if int i = iPkCol ci then VInt key
          else if nat (aColToRec ci ! i) < length fs then field_value (fs ! nat (aColToRec ci ! i)) else VNull)"
proof -
  let ?d = "encode_record hs fs" and ?c = "aColToRec ci ! i"
  obtain info where info: "doltliteParseRecordStrict ?d = (info, Inr ())" "nField info = length fs"
    "\<forall>i < length fs. doltliteResultField ?d (aType info ! i) (aOffset info ! i) = Inr (field_value (fs ! i))"
    using record_roundtrip_fields [OF assms(1)] by blast
  have ne: "?d \<noteq> []" using length_put_varint_pos [of hs] by (auto simp: encode_record_def)
  have c: "0 \<le> ?c" "aColToRec ci \<noteq> []" using assms(2-4) by (auto simp: nth_mem)
  show ?thesis using info ne c assms(2) by (auto simp: doltliteResultUserCol_def doltliteParseRecord_def Let_def)
qed


definition plain_columns :: col_info where
  "plain_columns = \<lparr>azName = [[97], [98]], iPkCol = 0, aColToRec = [0, 1]\<rparr>"

lemma doltliteResultUserCol_value_witness:
  "doltliteResultUserCol (Some plain_columns) (Some (encode_record 5 sample_fields)) 42 (int 1) = Inr (VText [104, 105])"
proof -
  have ok: "record_ok 5 sample_fields"
    by (simp add: record_ok_def sample_fields_def types_bytes_def put_varint_def vdigits.simps serial_len_def
        int_sizes_def DOLTLITE_MAX_RECORD_FIELDS_def)
  show ?thesis
    using doltliteResultUserCol_value [OF ok, of 1 plain_columns 42]
    by (simp add: plain_columns_def nCol_def sample_fields_def field_value_def)
qed

end
