(* ===== verification/Xxhash.thy ===== *)
theory Xxhash
  imports Bytes
begin

text \<open>
  The 32-bit xxHash of the trees' rolling boundary (\<open>prolly_xxhash.c\<close>).  The pointer into
  the input is an offset and every read is checked.  The specification \<open>xxh32_spec\<close> is
  written from the published algorithm and shares nothing with the code's definitions: the
  input as a list of little-endian numbers, the library's \<open>word_rotl\<close>, the constants as
  decimal literals, and each of the four accumulators, which the code interleaves over stripes
  of sixteen bytes, as the fold over its own words.
\<close>

section \<open>The code\<close>

definition XXH_PRIME32_1 :: u32 where "XXH_PRIME32_1 = 0x9E3779B1"
definition XXH_PRIME32_2 :: u32 where "XXH_PRIME32_2 = 0x85EBCA77"
definition XXH_PRIME32_3 :: u32 where "XXH_PRIME32_3 = 0xC2B2AE3D"
definition XXH_PRIME32_4 :: u32 where "XXH_PRIME32_4 = 0x27D4EB2F"
definition XXH_PRIME32_5 :: u32 where "XXH_PRIME32_5 = 0x165667B1"

definition xxh_read32_le :: "byte list \<Rightarrow> nat \<Rightarrow> u32 res" where
  "xxh_read32_le d p =
     bindR (read_bytes d p 4) (\<lambda>b.
     Inr (ucast (b ! 0) OR push_bit 8 (ucast (b ! 1)) OR push_bit 16 (ucast (b ! 2)) OR push_bit 24 (ucast (b ! 3))))"

definition xxh_rotl32 :: "u32 \<Rightarrow> nat \<Rightarrow> u32" where
  "xxh_rotl32 x r = push_bit r x OR drop_bit (32 - r) x"

definition xxh_round :: "u32 \<Rightarrow> u32 \<Rightarrow> u32" where
  "xxh_round acc input = xxh_rotl32 (acc + input * XXH_PRIME32_2) 13 * XXH_PRIME32_1"

type_synonym lanes = "u32 \<times> u32 \<times> u32 \<times> u32"

function xxh_stripes :: "byte list \<Rightarrow> nat \<Rightarrow> nat \<Rightarrow> lanes \<Rightarrow> (nat \<times> lanes) res" where
  "xxh_stripes d limit p (v1, v2, v3, v4) =
     bindR (xxh_read32_le d p) (\<lambda>w1.
     bindR (xxh_read32_le d (p + 4)) (\<lambda>w2.
     bindR (xxh_read32_le d (p + 8)) (\<lambda>w3.
     bindR (xxh_read32_le d (p + 12)) (\<lambda>w4.
     let p = p + 16; v = (xxh_round v1 w1, xxh_round v2 w2, xxh_round v3 w3, xxh_round v4 w4) in
     if p \<le> limit then xxh_stripes d limit p v else Inr (p, v)))))"
  by pat_completeness auto
termination by (relation "measure (\<lambda>(d, limit, p, v). limit + 1 - p)") auto

declare xxh_stripes.simps [simp del]

function xxh_words :: "byte list \<Rightarrow> nat \<Rightarrow> u32 \<Rightarrow> (nat \<times> u32) res" where
  "xxh_words d p h =
     (if p + 4 \<le> length d then
        bindR (xxh_read32_le d p) (\<lambda>w.
        xxh_words d (p + 4) (xxh_rotl32 (h + w * XXH_PRIME32_3) 17 * XXH_PRIME32_4))
      else Inr (p, h))"
  by pat_completeness auto
termination by (relation "measure (\<lambda>(d, p, h). length d - p)") auto

declare xxh_words.simps [simp del]

function xxh_bytes :: "byte list \<Rightarrow> nat \<Rightarrow> u32 \<Rightarrow> u32 res" where
  "xxh_bytes d p h =
     (if p < length d then
        bindR (read_byte d p) (\<lambda>b.
        xxh_bytes d (p + 1) (xxh_rotl32 (h + ucast b * XXH_PRIME32_5) 11 * XXH_PRIME32_1))
      else Inr h)"
  by pat_completeness auto
termination by (relation "measure (\<lambda>(d, p, h). length d - p)") auto

declare xxh_bytes.simps [simp del]

definition xxh_avalanche :: "u32 \<Rightarrow> u32" where
  "xxh_avalanche h =
     (let h = h XOR drop_bit 15 h; h = h * XXH_PRIME32_2; h = h XOR drop_bit 13 h; h = h * XXH_PRIME32_3
      in h XOR drop_bit 16 h)"

definition prollyXXH32 :: "byte list \<Rightarrow> u32 \<Rightarrow> u32 res" where
  "prollyXXH32 d seed =
     (let n = length d in
      bindR (if n \<ge> 16 then
               bindR (xxh_stripes d (n - 16) 0 (seed + XXH_PRIME32_1 + XXH_PRIME32_2, seed + XXH_PRIME32_2,
                        seed + 0, seed - XXH_PRIME32_1)) (\<lambda>(p, v1, v2, v3, v4).
               Inr (p, xxh_rotl32 v1 1 + xxh_rotl32 v2 7 + xxh_rotl32 v3 12 + xxh_rotl32 v4 18))
             else Inr (0, seed + XXH_PRIME32_5)) (\<lambda>(p, h).
      bindR (xxh_words d p (h + of_nat n)) (\<lambda>(p, h).
      bindR (xxh_bytes d p h) (\<lambda>h. Inr (xxh_avalanche h)))))"

section \<open>Specification\<close>

text \<open>
  The input as a sequence of 32-bit words, and the steps of the algorithm.  Words and rotation
  are the library's; no definition of the code occurs.
\<close>

definition hash_words :: "byte list \<Rightarrow> u32 list" where
  "hash_words d = map (\<lambda>i. of_nat (be_val (rev (take 4 (drop (4 * i) d))))) [0..<length d div 4]"

definition spec_round :: "u32 \<Rightarrow> u32 \<Rightarrow> u32" where
  "spec_round v w = word_rotl 13 (v + w * 2246822519) * 2654435761"

definition accumulator :: "u32 list \<Rightarrow> nat \<Rightarrow> nat \<Rightarrow> u32 \<Rightarrow> u32" where
  "accumulator ws stripes k v = foldl spec_round v (map (\<lambda>i. ws ! (4 * i + k)) [0..<stripes])"

definition finish :: "u32 \<Rightarrow> u32" where
  "finish h =
     (let a = (h XOR (h div 2 ^ 15)) * 2246822519; b = (a XOR (a div 2 ^ 13)) * 3266489917
      in b XOR (b div 2 ^ 16))"

definition xxh32_spec :: "byte list \<Rightarrow> u32 \<Rightarrow> u32" where
  "xxh32_spec d seed =
     (let ws = hash_words d; stripes = length d div 16;
          start = (if stripes = 0 then seed + 374761393
                   else word_rotl 1 (accumulator ws stripes 0 (seed + 2654435761 + 2246822519))
                      + word_rotl 7 (accumulator ws stripes 1 (seed + 2246822519))
                      + word_rotl 12 (accumulator ws stripes 2 seed)
                      + word_rotl 18 (accumulator ws stripes 3 (seed - 2654435761)));
          words = foldl (\<lambda>h w. word_rotl 17 (h + w * 3266489917) * 668265263)
                    (start + of_nat (length d)) (drop (4 * stripes) ws);
          bytes = foldl (\<lambda>h b. word_rotl 11 (h + of_nat (unat b) * 374761393) * 2654435761)
                    words (drop (4 * (length d div 4)) d)
      in finish bytes)"

section \<open>The loops of the code as folds\<close>

text \<open>The word the code reads at an offset, and the words of one accumulator.\<close>

definition word_at :: "byte list \<Rightarrow> nat \<Rightarrow> u32" where
  "word_at d p = ucast (d ! p) OR push_bit 8 (ucast (d ! (p + 1))) OR push_bit 16 (ucast (d ! (p + 2)))
     OR push_bit 24 (ucast (d ! (p + 3)))"

definition lane :: "byte list \<Rightarrow> nat \<Rightarrow> u32 \<Rightarrow> u32" where
  "lane d k v = foldl xxh_round v (map (\<lambda>i. word_at d (16 * i + 4 * k)) [0..<length d div 16])"

definition xxh32_folds :: "byte list \<Rightarrow> u32 \<Rightarrow> u32" where
  "xxh32_folds d seed =
     (let n = length d;
          h0 = (if n < 16 then seed + XXH_PRIME32_5
                else xxh_rotl32 (lane d 0 (seed + XXH_PRIME32_1 + XXH_PRIME32_2)) 1
                   + xxh_rotl32 (lane d 1 (seed + XXH_PRIME32_2)) 7
                   + xxh_rotl32 (lane d 2 seed) 12 + xxh_rotl32 (lane d 3 (seed - XXH_PRIME32_1)) 18);
          h1 = foldl (\<lambda>h i. xxh_rotl32 (h + word_at d (4 * i) * XXH_PRIME32_3) 17 * XXH_PRIME32_4)
                 (h0 + of_nat n) [4 * (n div 16)..<n div 4];
          h2 = foldl (\<lambda>h b. xxh_rotl32 (h + ucast b * XXH_PRIME32_5) 11 * XXH_PRIME32_1) h1 (drop (4 * (n div 4)) d)
      in xxh_avalanche h2)"

lemma xxh_read32_word: "p + 4 \<le> length d \<Longrightarrow> xxh_read32_le d p = Inr (word_at d p)"
  by (simp add: xxh_read32_le_def word_at_def)

lemma xxh_stripes_lanes:
  "16 * (i + 1) \<le> length d \<Longrightarrow>
     xxh_stripes d (length d - 16) (16 * i) (v1, v2, v3, v4) =
       Inr (16 * (length d div 16),
         foldl xxh_round v1 (map (\<lambda>i. word_at d (16 * i)) [i..<length d div 16]),
         foldl xxh_round v2 (map (\<lambda>i. word_at d (16 * i + 4)) [i..<length d div 16]),
         foldl xxh_round v3 (map (\<lambda>i. word_at d (16 * i + 8)) [i..<length d div 16]),
         foldl xxh_round v4 (map (\<lambda>i. word_at d (16 * i + 12)) [i..<length d div 16]))"
proof (induction "length d div 16 - i" arbitrary: i v1 v2 v3 v4)
  case 0
  have "i + 1 \<le> length d div 16" using 0(2) by (simp add: less_eq_div_iff_mult_less_eq mult.commute)
  then show ?case using 0(1) by simp
next
  case (Suc k)
  have r: "xxh_read32_le d (16 * i) = Inr (word_at d (16 * i))" "xxh_read32_le d (16 * i + 4) = Inr (word_at d (16 * i + 4))"
    "xxh_read32_le d (16 * i + 8) = Inr (word_at d (16 * i + 8))" "xxh_read32_le d (16 * i + 12) = Inr (word_at d (16 * i + 12))"
    using Suc.prems by (simp_all add: xxh_read32_word)
  have i: "i < length d div 16" using Suc.hyps(2) by simp
  note up = upt_conv_Cons [OF i]
  let ?v = "(xxh_round v1 (word_at d (16 * i)), xxh_round v2 (word_at d (16 * i + 4)),
      xxh_round v3 (word_at d (16 * i + 8)), xxh_round v4 (word_at d (16 * i + 12)))"
  have c: "16 * i + 16 = 16 * Suc i" by simp
  have step: "xxh_stripes d (length d - 16) (16 * i) (v1, v2, v3, v4) =
      (if 16 * Suc i \<le> length d - 16 then xxh_stripes d (length d - 16) (16 * Suc i) ?v else Inr (16 * Suc i, ?v))"
    by (subst xxh_stripes.simps) (simp only: r bindR_Inr Let_def c)
  show ?case
  proof (cases "16 * Suc i \<le> length d - 16")
    case True
    have k: "k = length d div 16 - Suc i" "16 * (Suc i + 1) \<le> length d" using Suc.hyps(2) True Suc.prems by simp_all
    note ih = Suc.hyps(1) [OF k]
    show ?thesis unfolding step using True by (simp only: if_True ih up list.map foldl_Cons)
  next
    case False
    then have e: "length d div 16 = Suc i" by (intro div_nat_eqI) (use Suc.prems in simp_all)
    have u: "[i..<length d div 16] = [i]" by (simp add: e)
    show ?thesis unfolding step using False by (simp only: if_False u list.map foldl_Cons foldl_Nil) (simp only: e)
  qed
qed

lemma xxh_words_fold:
  "i \<le> length d div 4 \<Longrightarrow>
     xxh_words d (4 * i) h = Inr (4 * (length d div 4),
       foldl (\<lambda>h i. xxh_rotl32 (h + word_at d (4 * i) * XXH_PRIME32_3) 17 * XXH_PRIME32_4) h [i..<length d div 4])"
proof (induction "length d div 4 - i" arbitrary: i h)
  case 0
  then have "i = length d div 4" by simp
  moreover have "\<not> 4 * (length d div 4) + 4 \<le> length d" by presburger
  ultimately show ?case by (subst xxh_words.simps) simp
next
  case (Suc k)
  have i: "i < length d div 4" using Suc.hyps(2) by simp
  then have r: "4 * i + 4 \<le> length d" by presburger
  have k: "k = length d div 4 - (i + 1)" "i + 1 \<le> length d div 4" using Suc.hyps(2) by simp_all
  have c: "4 * i + 4 = 4 * (i + 1)" by simp
  show ?case
    using r Suc.hyps(1) [OF k] upt_conv_Cons [OF i]
    by (subst xxh_words.simps) (simp only: if_True xxh_read32_word bindR_Inr c foldl_Cons Suc_eq_plus1)
qed

lemma xxh_bytes_fold:
  "xxh_bytes d p h = Inr (foldl (\<lambda>h b. xxh_rotl32 (h + ucast b * XXH_PRIME32_5) 11 * XXH_PRIME32_1) h (drop p d))"
proof (induction d p h rule: xxh_bytes.induct)
  case (1 d p h)
  then show ?case
    by (subst xxh_bytes.simps) (auto simp: Cons_nth_drop_Suc [symmetric])
qed

lemma prollyXXH32_folds: "prollyXXH32 d seed = Inr (xxh32_folds d seed)"
proof (cases "length d < 16")
  case True
  have "length d div 16 = 0" using True by simp
  then show ?thesis
    using True xxh_words_fold [of 0 d] by (simp add: prollyXXH32_def xxh32_folds_def Let_def xxh_bytes_fold)
next
  case False
  have "16 * (0 + 1) \<le> length d" using False by simp
  note s = xxh_stripes_lanes [OF this]
  have m: "4 * (length d div 16) \<le> length d div 4" by presburger
  have w: "xxh_words d (16 * (length d div 16)) h = Inr (4 * (length d div 4),
      foldl (\<lambda>h i. xxh_rotl32 (h + word_at d (4 * i) * XXH_PRIME32_3) 17 * XXH_PRIME32_4) h
        [4 * (length d div 16)..<length d div 4])" for h
    using xxh_words_fold [OF m, of h] by simp
  have a: "xxh_stripes d (length d - 16) 0 (v1, v2, v3, v4) =
      Inr (16 * (length d div 16), lane d 0 v1, lane d 1 v2, lane d 2 v3, lane d 3 v4)" for v1 v2 v3 v4
    using s [of v1 v2 v3 v4] by (simp add: lane_def)
  have n: "(length d < 16) = False" "(16 \<le> length d) = True" using False by simp_all
  show ?thesis
    by (simp only: prollyXXH32_def xxh32_folds_def Let_def a w xxh_bytes_fold bindR_Inr prod.case n
        if_True if_False add_0_right)
qed

section \<open>The folds are the specified hash\<close>

lemma xxh_rotl32_rotl: "0 < r \<Longrightarrow> r < 32 \<Longrightarrow> xxh_rotl32 x r = word_rotl r x"
  by (rule bit_word_eqI)
    (auto simp: xxh_rotl32_def bit_word_rotl_iff bit_or_iff bit_push_bit_iff bit_drop_bit_eq mod_if
      add.commute [of 32] dest: bit_imp_le_length)

lemma rotations:
  "xxh_rotl32 x 1 = word_rotl 1 x" "xxh_rotl32 x 7 = word_rotl 7 x" "xxh_rotl32 x 11 = word_rotl 11 x"
  "xxh_rotl32 x 12 = word_rotl 12 x" "xxh_rotl32 x 13 = word_rotl 13 x" "xxh_rotl32 x 17 = word_rotl 17 x"
  "xxh_rotl32 x 18 = word_rotl 18 x"
  by (simp_all add: xxh_rotl32_rotl)

lemmas primes = XXH_PRIME32_1_def XXH_PRIME32_2_def XXH_PRIME32_3_def XXH_PRIME32_4_def XXH_PRIME32_5_def

lemma xxh_round_spec: "xxh_round = spec_round"
  by (simp add: fun_eq_iff xxh_round_def spec_round_def rotations primes)

lemma xxh_avalanche_finish: "xxh_avalanche = finish"
  by (simp add: fun_eq_iff xxh_avalanche_def finish_def Let_def primes drop_bit_eq_div)

lemma bytes_word:
  "ucast a OR push_bit 8 (ucast b) OR push_bit 16 (ucast c) OR push_bit 24 (ucast d) =
     (of_nat (be_val [d, c, b, a]) :: u32)" for a b c d :: byte
proof -
  have add: "x OR y = x + y" if "\<And>n. \<not> (bit x n \<and> bit y n)" for x y :: u32
    by (rule disjunctive_add_eq_or [symmetric], rule bit_eqI) (use that in \<open>auto simp: bit_simps\<close>)
  have "ucast a OR push_bit 8 (ucast b) OR push_bit 16 (ucast c) OR push_bit 24 (ucast d) =
      (ucast a + (push_bit 8 (ucast b) + (push_bit 16 (ucast c) + push_bit 24 (ucast d))) :: u32)"
    by (subst add [symmetric], force simp: bit_simps dest: bit_imp_le_length)+ simp
  then show ?thesis by (simp add: push_bit_eq_mult of_nat_unat algebra_simps)
qed

lemma word_at_number:
  assumes "p + 4 \<le> length d"
  shows "word_at d p = of_nat (be_val (rev (take 4 (drop p d))))"
proof -
  have "take 4 (drop p d) = [d ! p, d ! (p + 1), d ! (p + 2), d ! (p + 3)]"
    using assms by (intro nth_equalityI) (auto simp: less_Suc_eq numeral_eq_Suc)
  then show ?thesis by (simp add: word_at_def bytes_word)
qed

lemma hash_words_nth: "i < length d div 4 \<Longrightarrow> hash_words d ! i = word_at d (4 * i)"
  by (simp add: hash_words_def word_at_number)

lemma drop_hash_words: "drop j (hash_words d) = map (\<lambda>i. word_at d (4 * i)) [j..<length d div 4]"
  by (rule nth_equalityI) (auto simp: hash_words_nth hash_words_def word_at_number)

lemma lane_accumulator:
  assumes "k < 4" shows "lane d k v = accumulator (hash_words d) (length d div 16) k v"
proof -
  have m: "4 * (length d div 16) \<le> length d div 4" by presburger
  have "word_at d (16 * i + 4 * k) = hash_words d ! (4 * i + k)" if "i < length d div 16" for i
  proof -
    have "4 * i + k < length d div 4" using that assms m by linarith
    moreover have "16 * i + 4 * k = 4 * (4 * i + k)" by simp
    ultimately show ?thesis by (simp only: hash_words_nth)
  qed
  then have "map (\<lambda>i. word_at d (16 * i + 4 * k)) [0..<length d div 16] =
      map (\<lambda>i. hash_words d ! (4 * i + k)) [0..<length d div 16]" by simp
  then show ?thesis by (simp only: lane_def accumulator_def xxh_round_spec)
qed

lemma foldl_words:
  "foldl (\<lambda>h i. xxh_rotl32 (h + word_at d (4 * i) * XXH_PRIME32_3) 17 * XXH_PRIME32_4) h [j..<length d div 4] =
   foldl (\<lambda>h w. word_rotl 17 (h + w * 3266489917) * 668265263) h (drop j (hash_words d))"
  by (simp add: drop_hash_words foldl_map rotations primes)

lemma foldl_bytes:
  "foldl (\<lambda>h b. xxh_rotl32 (h + ucast b * XXH_PRIME32_5) 11 * XXH_PRIME32_1) h bs =
   foldl (\<lambda>h b. word_rotl 11 (h + of_nat (unat b) * 374761393) * 2654435761) h bs" for bs :: "byte list"
  by (simp only: rotations primes of_nat_unat)

lemma folds_spec: "xxh32_folds d seed = xxh32_spec d seed"
proof -
  have n: "length d < 16 \<longleftrightarrow> length d div 16 = 0" by auto
  have k: "(0::nat) < 4" "(1::nat) < 4" "(2::nat) < 4" "(3::nat) < 4" by simp_all
  show ?thesis
    unfolding xxh32_folds_def xxh32_spec_def Let_def foldl_words foldl_bytes
    by (simp only: n rotations k [THEN lane_accumulator] xxh_avalanche_finish) (simp only: primes)
qed

text \<open>
  C32. The hash reads its input in bounds and is the published 32-bit xxHash, stated without
  the code's helpers: four accumulators, each the fold of its own little-endian words,
  combined, then folded over the remaining words and bytes, with the constants of the
  algorithm.
\<close>

theorem prollyXXH32_spec: "prollyXXH32 d seed = Inr (xxh32_spec d seed)"
  by (simp add: prollyXXH32_folds folds_spec)

text \<open>
  The published test vectors of the function: the empty input, a short one, and
  ''Nobody inspects the spammish repetition'', of two stripes, a word and three bytes.
\<close>

lemma xxh32_vectors:
  "xxh32_spec [] 0 = 0x02CC5D05" "xxh32_spec [97, 98, 99] 0 = 0x32D153FF"
  "xxh32_spec [78, 111, 98, 111, 100, 121, 32, 105, 110, 115, 112, 101, 99, 116, 115, 32, 116, 104,
     101, 32, 115, 112, 97, 109, 109, 105, 115, 104, 32, 114, 101, 112, 101, 116, 105, 116, 105, 111, 110] 0
   = 0xE2293B2F"
  unfolding folds_spec [symmetric] by code_simp+

end
