(* ===== verification/Refs.thy ===== *)
theory Refs
  imports Blob
begin

text \<open>
  The references of a chunk store (\<open>chunk_store.c\<close>, \<open>chunk_store.h\<close>): branches, tags,
  remotes and tracking branches, the operations on them, and the blob (format 6) they are stored
  as.  An array is a list; deletion moves the last element into the hole, as the code does.  The
  reader of the blob keeps what decides whether it is safe: a length is a signed 32-bit number,
  an allocation of no positive size fails, and the size of an array is the 32-bit product that
  \<open>n*(int)sizeof(..)\<close> is, so that a cell beyond the allocated bytes is \<open>OUT_OF_BOUNDS\<close>.
\<close>

section \<open>State\<close>

record branch_ref =
  bName :: "byte list"
  bCommit :: hash
  bWorkingSet :: hash

record tag_ref =
  tName :: "byte list"
  tCommit :: hash
  tTagger :: cstr
  tEmail :: cstr
  tTimestamp :: u64
  tMessage :: cstr

record remote_ref =
  rName :: "byte list"
  rUrl :: "byte list"

record tracking_branch =
  kRemote :: "byte list"
  kBranch :: "byte list"
  kCommit :: hash

record refs_state =
  aBranches :: "branch_ref list"
  zDefaultBranch :: cstr
  aTags :: "tag_ref list"
  aRemotes :: "remote_ref list"
  aTracking :: "tracking_branch list"

text \<open>\<open>memset(cs, 0, sizeof(*cs))\<close>.\<close>

definition refs0 :: refs_state where
  "refs0 = \<lparr>aBranches = [], zDefaultBranch = None, aTags = [], aRemotes = [], aTracking = []\<rparr>"

definition main_name :: "byte list" where "main_name = [109, 97, 105, 110]"

definition csFreeBranches :: "'a refs_state_scheme \<Rightarrow> 'a refs_state_scheme" where
  "csFreeBranches cs = cs\<lparr>aBranches := []\<rparr>"

definition csFreeTags :: "'a refs_state_scheme \<Rightarrow> 'a refs_state_scheme" where
  "csFreeTags cs = cs\<lparr>aTags := []\<rparr>"

definition csFreeRemotes :: "'a refs_state_scheme \<Rightarrow> 'a refs_state_scheme" where
  "csFreeRemotes cs = cs\<lparr>aRemotes := []\<rparr>"

definition csFreeTracking :: "'a refs_state_scheme \<Rightarrow> 'a refs_state_scheme" where
  "csFreeTracking cs = cs\<lparr>aTracking := []\<rparr>"

definition csFreeRefsState :: "'a refs_state_scheme \<Rightarrow> 'a refs_state_scheme" where
  "csFreeRefsState cs =
     (csFreeTracking (csFreeRemotes (csFreeTags (csFreeBranches cs))))\<lparr>zDefaultBranch := None\<rparr>"

definition csEnsureDefaultBranch :: "'a refs_state_scheme \<Rightarrow> 'a refs_state_scheme" where
  "csEnsureDefaultBranch cs =
     (if zDefaultBranch cs = None then cs\<lparr>zDefaultBranch := Some main_name\<rparr> else cs)"

text \<open>The destination takes the five fields of the source.\<close>

definition csAdoptRefsState :: "'a refs_state_scheme \<Rightarrow> 'b refs_state_scheme \<Rightarrow> 'a refs_state_scheme" where
  "csAdoptRefsState dst src =
     dst\<lparr>aBranches := aBranches src, zDefaultBranch := zDefaultBranch src, aTags := aTags src,
         aRemotes := aRemotes src, aTracking := aTracking src\<rparr>"

section \<open>Operations\<close>

text \<open>\<open>for(i=0; i<n; i++) if( P ) ..\<close>: the first index that satisfies the test.\<close>

fun first_index :: "('r \<Rightarrow> bool) \<Rightarrow> 'r list \<Rightarrow> nat option" where
  "first_index P [] = None"
| "first_index P (x # xs) = (if P x then Some 0 else map_option Suc (first_index P xs))"

text \<open>\<open>a[i] = a[n-1]; n--\<close>.\<close>

definition swap_remove :: "'r list \<Rightarrow> nat \<Rightarrow> 'r list" where
  "swap_remove xs i = butlast (xs[i := last xs])"

definition chunkStoreGetDefaultBranch :: "'a refs_state_scheme \<Rightarrow> byte list" where
  "chunkStoreGetDefaultBranch cs = (case zDefaultBranch cs of Some z \<Rightarrow> z | None \<Rightarrow> main_name)"

definition chunkStoreSetDefaultBranch :: "'a refs_state_scheme \<Rightarrow> byte list \<Rightarrow> 'a refs_state_scheme" where
  "chunkStoreSetDefaultBranch cs z = cs\<lparr>zDefaultBranch := Some (c_str z)\<rparr>"

definition chunkStoreFindBranch :: "'a refs_state_scheme \<Rightarrow> byte list \<Rightarrow> hash res" where
  "chunkStoreFindBranch cs z =
     (case first_index (\<lambda>b. str_eq (bName b) z) (aBranches cs) of
        Some i \<Rightarrow> Inr (bCommit (aBranches cs ! i))
      | None \<Rightarrow> Inl SQLITE_NOTFOUND)"

definition chunkStoreAddBranch :: "'a refs_state_scheme \<Rightarrow> byte list \<Rightarrow> hash \<Rightarrow> 'a refs_state_scheme res" where
  "chunkStoreAddBranch cs z commit =
     (if (case chunkStoreFindBranch cs z of Inr _ \<Rightarrow> True | Inl _ \<Rightarrow> False) then Inl SQLITE_ERROR
      else Inr (cs\<lparr>aBranches := aBranches cs @ [\<lparr>bName = c_str z, bCommit = commit, bWorkingSet = hash0\<rparr>]\<rparr>))"

definition chunkStoreUpdateBranch :: "'a refs_state_scheme \<Rightarrow> byte list \<Rightarrow> hash \<Rightarrow> 'a refs_state_scheme res" where
  "chunkStoreUpdateBranch cs z commit =
     (case first_index (\<lambda>b. str_eq (bName b) z) (aBranches cs) of
        Some i \<Rightarrow> Inr (cs\<lparr>aBranches := (aBranches cs)[i := (aBranches cs ! i)\<lparr>bCommit := commit\<rparr>]\<rparr>)
      | None \<Rightarrow> Inl SQLITE_NOTFOUND)"

definition chunkStoreDeleteBranch :: "'a refs_state_scheme \<Rightarrow> byte list \<Rightarrow> 'a refs_state_scheme res" where
  "chunkStoreDeleteBranch cs z =
     (case first_index (\<lambda>b. str_eq (bName b) z) (aBranches cs) of
        Some i \<Rightarrow> Inr (cs\<lparr>aBranches := swap_remove (aBranches cs) i\<rparr>)
      | None \<Rightarrow> Inl SQLITE_NOTFOUND)"

definition chunkStoreGetBranchWorkingSet :: "'a refs_state_scheme \<Rightarrow> byte list \<Rightarrow> hash res" where
  "chunkStoreGetBranchWorkingSet cs z =
     (case first_index (\<lambda>b. str_eq (bName b) z) (aBranches cs) of
        Some i \<Rightarrow> Inr (bWorkingSet (aBranches cs ! i))
      | None \<Rightarrow> Inl SQLITE_NOTFOUND)"

definition chunkStoreSetBranchWorkingSet :: "'a refs_state_scheme \<Rightarrow> byte list \<Rightarrow> hash \<Rightarrow> 'a refs_state_scheme res" where
  "chunkStoreSetBranchWorkingSet cs z h =
     (case first_index (\<lambda>b. str_eq (bName b) z) (aBranches cs) of
        Some i \<Rightarrow> Inr (cs\<lparr>aBranches := (aBranches cs)[i := (aBranches cs ! i)\<lparr>bWorkingSet := h\<rparr>]\<rparr>)
      | None \<Rightarrow> Inl SQLITE_NOTFOUND)"

definition chunkStoreFindTag :: "'a refs_state_scheme \<Rightarrow> byte list \<Rightarrow> hash res" where
  "chunkStoreFindTag cs z =
     (case first_index (\<lambda>t. str_eq (tName t) z) (aTags cs) of
        Some i \<Rightarrow> Inr (tCommit (aTags cs ! i))
      | None \<Rightarrow> Inl SQLITE_NOTFOUND)"

definition str_or_empty :: "cstr \<Rightarrow> cstr" where
  "str_or_empty z = Some (case z of Some s \<Rightarrow> c_str s | None \<Rightarrow> [])"

definition chunkStoreAddTagFull ::
  "'a refs_state_scheme \<Rightarrow> byte list \<Rightarrow> hash \<Rightarrow> cstr \<Rightarrow> cstr \<Rightarrow> u64 \<Rightarrow> cstr \<Rightarrow> 'a refs_state_scheme res" where
  "chunkStoreAddTagFull cs z commit tagger email ts msg =
     (if (case chunkStoreFindTag cs z of Inr _ \<Rightarrow> True | Inl _ \<Rightarrow> False) then Inl SQLITE_ERROR
      else Inr (cs\<lparr>aTags := aTags cs @ [\<lparr>tName = c_str z, tCommit = commit, tTagger = str_or_empty tagger,
             tEmail = str_or_empty email, tTimestamp = ts, tMessage = str_or_empty msg\<rparr>]\<rparr>))"

definition chunkStoreAddTag :: "'a refs_state_scheme \<Rightarrow> byte list \<Rightarrow> hash \<Rightarrow> 'a refs_state_scheme res" where
  "chunkStoreAddTag cs z commit = chunkStoreAddTagFull cs z commit None None 0 None"

definition chunkStoreDeleteTag :: "'a refs_state_scheme \<Rightarrow> byte list \<Rightarrow> 'a refs_state_scheme res" where
  "chunkStoreDeleteTag cs z =
     (case first_index (\<lambda>t. str_eq (tName t) z) (aTags cs) of
        Some i \<Rightarrow> Inr (cs\<lparr>aTags := swap_remove (aTags cs) i\<rparr>)
      | None \<Rightarrow> Inl SQLITE_NOTFOUND)"

definition chunkStoreFindRemote :: "'a refs_state_scheme \<Rightarrow> byte list \<Rightarrow> byte list res" where
  "chunkStoreFindRemote cs z =
     (case first_index (\<lambda>r. str_eq (rName r) z) (aRemotes cs) of
        Some i \<Rightarrow> Inr (rUrl (aRemotes cs ! i))
      | None \<Rightarrow> Inl SQLITE_NOTFOUND)"

definition chunkStoreAddRemote :: "'a refs_state_scheme \<Rightarrow> byte list \<Rightarrow> byte list \<Rightarrow> 'a refs_state_scheme res" where
  "chunkStoreAddRemote cs z url =
     (if (case chunkStoreFindRemote cs z of Inr _ \<Rightarrow> True | Inl _ \<Rightarrow> False) then Inl SQLITE_ERROR
      else Inr (cs\<lparr>aRemotes := aRemotes cs @ [\<lparr>rName = c_str z, rUrl = c_str url\<rparr>]\<rparr>))"

text \<open>\<open>for(j=nTracking-1; j>=0; j--)\<close>: the tracking branches of a remote go with it.\<close>

fun drop_tracking :: "byte list \<Rightarrow> nat \<Rightarrow> tracking_branch list \<Rightarrow> tracking_branch list" where
  "drop_tracking z 0 ts = ts"
| "drop_tracking z (Suc j) ts =
     drop_tracking z j (if str_eq (kRemote (ts ! j)) z then swap_remove ts j else ts)"

definition chunkStoreDeleteRemote :: "'a refs_state_scheme \<Rightarrow> byte list \<Rightarrow> 'a refs_state_scheme res" where
  "chunkStoreDeleteRemote cs z =
     (case first_index (\<lambda>r. str_eq (rName r) z) (aRemotes cs) of
        Some i \<Rightarrow> Inr (cs\<lparr>aRemotes := swap_remove (aRemotes cs) i,
                          aTracking := drop_tracking z (length (aTracking cs)) (aTracking cs)\<rparr>)
      | None \<Rightarrow> Inl SQLITE_NOTFOUND)"

definition tracking_eq :: "byte list \<Rightarrow> byte list \<Rightarrow> tracking_branch \<Rightarrow> bool" where
  "tracking_eq remote branch t \<longleftrightarrow> str_eq (kRemote t) remote \<and> str_eq (kBranch t) branch"

definition chunkStoreFindTracking :: "'a refs_state_scheme \<Rightarrow> byte list \<Rightarrow> byte list \<Rightarrow> hash res" where
  "chunkStoreFindTracking cs remote branch =
     (case first_index (tracking_eq remote branch) (aTracking cs) of
        Some i \<Rightarrow> Inr (kCommit (aTracking cs ! i))
      | None \<Rightarrow> Inl SQLITE_NOTFOUND)"

definition chunkStoreUpdateTracking ::
  "'a refs_state_scheme \<Rightarrow> byte list \<Rightarrow> byte list \<Rightarrow> hash \<Rightarrow> 'a refs_state_scheme" where
  "chunkStoreUpdateTracking cs remote branch commit =
     (case first_index (tracking_eq remote branch) (aTracking cs) of
        Some i \<Rightarrow> cs\<lparr>aTracking := (aTracking cs)[i := (aTracking cs ! i)\<lparr>kCommit := commit\<rparr>]\<rparr>
      | None \<Rightarrow> cs\<lparr>aTracking := aTracking cs @
                    [\<lparr>kRemote = c_str remote, kBranch = c_str branch, kCommit = commit\<rparr>]\<rparr>)"

definition chunkStoreDeleteTracking :: "'a refs_state_scheme \<Rightarrow> byte list \<Rightarrow> byte list \<Rightarrow> 'a refs_state_scheme res" where
  "chunkStoreDeleteTracking cs remote branch =
     (case first_index (tracking_eq remote branch) (aTracking cs) of
        Some i \<Rightarrow> Inr (cs\<lparr>aTracking := swap_remove (aTracking cs) i\<rparr>)
      | None \<Rightarrow> Inl SQLITE_NOTFOUND)"

section \<open>Arrays as maps\<close>

text \<open>An array whose keys are distinct stands for a map; the loops of the operations compute on it.\<close>

definition kmap :: "('r \<Rightarrow> 'k) \<Rightarrow> ('r \<Rightarrow> 'v) \<Rightarrow> 'r list \<Rightarrow> 'k \<rightharpoonup> 'v" where
  "kmap key val xs = map_of (map (\<lambda>x. (key x, val x)) xs)"

definition dkeys :: "('r \<Rightarrow> 'k) \<Rightarrow> 'r list \<Rightarrow> bool" where
  "dkeys key xs \<longleftrightarrow> distinct (map key xs)"

lemma kmap_iff: "dkeys key xs \<Longrightarrow> kmap key val xs k = Some v \<longleftrightarrow> (\<exists>x \<in> set xs. key x = k \<and> val x = v)"
  unfolding kmap_def dkeys_def by (subst map_of_eq_Some_iff) (auto simp: comp_def)

lemma kmap_None: "kmap key val xs k = None \<longleftrightarrow> k \<notin> key ` set xs"
  by (auto simp: kmap_def map_of_eq_None_iff image_iff)

lemma first_index_Some:
  "first_index P xs = Some i \<Longrightarrow> i < length xs \<and> P (xs ! i)"
  by (induction P xs arbitrary: i rule: first_index.induct) (auto split: if_splits)

lemma first_index_None: "first_index P xs = None \<longleftrightarrow> (\<forall>x \<in> set xs. \<not> P x)"
  by (induction P xs rule: first_index.induct) auto

lemma kmap_find:
  assumes "dkeys key xs"
  shows "(case first_index (\<lambda>x. key x = k) xs of Some i \<Rightarrow> Inr (val (xs ! i)) | None \<Rightarrow> Inl e)
      = (case kmap key val xs k of Some v \<Rightarrow> Inr v | None \<Rightarrow> Inl e)"
proof (cases "first_index (\<lambda>x. key x = k) xs")
  case None
  then have "kmap key val xs k = None" by (auto simp: kmap_None first_index_None)
  with None show ?thesis by simp
next
  case (Some i)
  have "kmap key val xs k = Some (val (xs ! i))"
    using first_index_Some [OF Some] by (subst kmap_iff [OF assms]) auto
  with Some show ?thesis by simp
qed

lemma kmap_hit:
  assumes "dkeys key xs" "first_index (\<lambda>x. key x = k) xs = Some i"
  shows "i < length xs" "key (xs ! i) = k" "kmap key val xs k = Some (val (xs ! i))"
proof -
  show i: "i < length xs" "key (xs ! i) = k" using first_index_Some [OF assms(2)] by auto
  show "kmap key val xs k = Some (val (xs ! i))" using i by (subst kmap_iff [OF assms(1)]) auto
qed

lemma kmap_miss: "first_index (\<lambda>x. key x = k) xs = None \<Longrightarrow> kmap key val xs k = None"
  by (auto simp: kmap_None first_index_None)

lemma kmap_update:
  assumes "dkeys key xs" "i < length xs" "key y = key (xs ! i)"
  shows "kmap key val (xs[i := y]) = (kmap key val xs)(key (xs ! i) \<mapsto> val y)" "dkeys key (xs[i := y])"
proof -
  have "map key (xs[i := y]) = map key xs" using assms by (simp add: map_update list_update_same_conv)
  then show d: "dkeys key (xs[i := y])" using assms(1) by (simp add: dkeys_def)
  have s: "set (xs[i := y]) = insert y (set xs - {xs ! i})"
    using assms by (intro set_update_distinct) (simp_all add: dkeys_def distinct_map)
  have o: "kmap key val (xs[i := y]) k = kmap key val xs k" if "k \<noteq> key (xs ! i)" for k
  proof (rule option.exhaust [of "kmap key val xs k"])
    assume "kmap key val xs k = None"
    then have "kmap key val (xs[i := y]) k = None" unfolding kmap_None s using assms(3) that by auto
    then show ?thesis using \<open>kmap key val xs k = None\<close> by simp
  next
    fix v assume v: "kmap key val xs k = Some v"
    then obtain x where "x \<in> set xs" "key x = k" "val x = v" by (auto simp: kmap_iff [OF assms(1)])
    then have "kmap key val (xs[i := y]) k = Some v" unfolding kmap_iff [OF d] s using that by auto
    then show ?thesis using v by simp
  qed
  have e: "kmap key val (xs[i := y]) (key (xs ! i)) = Some (val y)"
    unfolding kmap_iff [OF d] s using assms(3) by auto
  show "kmap key val (xs[i := y]) = (kmap key val xs)(key (xs ! i) \<mapsto> val y)"
    using o e by (intro ext) simp
qed

lemma kmap_snoc:
  assumes "dkeys key xs" "kmap key val xs (key y) = None"
  shows "kmap key val (xs @ [y]) = (kmap key val xs)(key y \<mapsto> val y)" "dkeys key (xs @ [y])"
proof -
  have n: "key y \<notin> key ` set xs" using assms(2) by (simp add: kmap_None)
  show "dkeys key (xs @ [y])" using assms(1) n by (simp add: dkeys_def)
  have "kmap key val (xs @ [y]) = [key y \<mapsto> val y] ++ kmap key val xs" by (simp add: kmap_def)
  also have "\<dots> = (kmap key val xs)(key y \<mapsto> val y)"
    using assms(2) by (intro ext) (simp add: map_add_def split: option.split)
  finally show "kmap key val (xs @ [y]) = (kmap key val xs)(key y \<mapsto> val y)" .
qed

lemma swap_remove_set:
  assumes "dkeys key xs" "i < length xs"
  shows "dkeys key (swap_remove xs i)" "set (swap_remove xs i) = set xs - {xs ! i}"
proof -
  obtain ys z where xs: "xs = ys @ [z]" using assms(2) by (cases xs rule: rev_cases) auto
  have d: "distinct (map key ys)" "key z \<notin> key ` set ys" using assms(1) by (simp_all add: xs dkeys_def)
  have z: "z \<notin> set ys" "distinct ys" using d by (auto simp: distinct_map)
  have "dkeys key (swap_remove xs i) \<and> set (swap_remove xs i) = set xs - {xs ! i}"
  proof (cases "i = length ys")
    case True
    then show ?thesis using d z by (simp add: xs swap_remove_def dkeys_def)
  next
    case False
    then have i: "i < length ys" using assms(2) xs by simp
    then have r: "swap_remove xs i = ys[i := z]" by (simp add: xs swap_remove_def list_update_append butlast_append)
    have "distinct ((map key ys)[i := key z])" using d by (intro distinct_list_update) auto
    then have "dkeys key (ys[i := z])" by (simp add: dkeys_def map_update)
    moreover have "set (ys[i := z]) = insert z (set ys - {ys ! i})" by (rule set_update_distinct [OF z(2) i])
    moreover have "set xs - {xs ! i} = insert z (set ys - {ys ! i})"
      using i z by (auto simp: xs nth_append)
    ultimately show ?thesis by (simp only: r)
  qed
  then show "dkeys key (swap_remove xs i)" "set (swap_remove xs i) = set xs - {xs ! i}" by simp_all
qed

lemma kmap_remove:
  assumes "dkeys key xs" "i < length xs"
  shows "kmap key val (swap_remove xs i) = (kmap key val xs)(key (xs ! i) := None)"
proof
  fix k
  note s = swap_remove_set [OF assms]
  have uniq: "x = xs ! i" if "x \<in> set xs" "key x = key (xs ! i)" for x
    using assms that by (auto simp: dkeys_def distinct_map inj_on_def)
  show "kmap key val (swap_remove xs i) k = ((kmap key val xs)(key (xs ! i) := None)) k"
  proof (cases "k = key (xs ! i)")
    case True
    then have "kmap key val (swap_remove xs i) k = None" unfolding kmap_None s(2) using uniq by auto
    then show ?thesis using True by simp
  next
    case False
    have "kmap key val (swap_remove xs i) k = Some v \<longleftrightarrow> kmap key val xs k = Some v" for v
      unfolding kmap_iff [OF s(1)] kmap_iff [OF assms(1)] s(2) using False by auto
    then show ?thesis unfolding fun_upd_other [OF False] by (rule option_eqI)
  qed
qed

text \<open>The loop walks down: what it has passed does not match, and a hole is filled from there.\<close>

lemma drop_tracking_set:
  "dkeys key ts \<Longrightarrow> j \<le> length ts \<Longrightarrow> \<forall>i < length ts. j \<le> i \<longrightarrow> \<not> str_eq (kRemote (ts ! i)) z \<Longrightarrow>
     dkeys key (drop_tracking z j ts) \<and>
     set (drop_tracking z j ts) = {t \<in> set ts. \<not> str_eq (kRemote t) z}"
proof (induction z j ts rule: drop_tracking.induct)
  case (1 z ts)
  then show ?case by (auto simp: in_set_conv_nth)
next
  case (2 z j ts)
  have j: "j < length ts" using 2 by simp
  show ?case
  proof (cases "str_eq (kRemote (ts ! j)) z")
    case True
    note s = swap_remove_set [OF 2(2) j]
    have l: "length (swap_remove ts j) = length ts - 1" by (simp add: swap_remove_def)
    have n: "\<not> str_eq (kRemote (swap_remove ts j ! i)) z" if i: "i < length ts - 1" "j \<le> i" for i
    proof -
      have "swap_remove ts j ! i = (if i = j then last ts else ts ! i)"
        using i by (simp add: swap_remove_def nth_butlast)
      moreover have "last ts = ts ! (length ts - 1)" using j by (intro last_conv_nth) auto
      ultimately show ?thesis using 2(4) i by (auto simp: le_Suc_eq)
    qed
    have "drop_tracking z (Suc j) ts = drop_tracking z j (swap_remove ts j)" using True by simp
    then show ?thesis using 2(1) s n l j True by auto
  next
    case False
    have "\<forall>i < length ts. j \<le> i \<longrightarrow> \<not> str_eq (kRemote (ts ! i)) z"
      using 2(4) False by (metis le_antisym not_less_eq_eq)
    then show ?thesis using 2 False by simp
  qed
qed

lemma drop_tracking_all:
  "dkeys key ts \<Longrightarrow> dkeys key (drop_tracking z (length ts) ts) \<and>
     set (drop_tracking z (length ts) ts) = {t \<in> set ts. \<not> str_eq (kRemote t) z}"
  by (rule drop_tracking_set) simp_all

end
