(* ===== verification/RefsSpec.thy ===== *)
theory RefsSpec
  imports Refs
begin

text \<open>
  The operations on the references refine finite maps: branches, tags, remotes and tracking
  branches are maps from names (C strings up to their zero byte), and every operation computes on
  its array what the specification does on the map, error codes included.
\<close>

section \<open>Specification\<close>

type_synonym tag_info = "hash \<times> cstr \<times> cstr \<times> u64 \<times> cstr"

record ref_maps =
  mBranches :: "byte list \<rightharpoonup> hash \<times> hash"
  mDefault :: "byte list"
  mTags :: "byte list \<rightharpoonup> tag_info"
  mRemotes :: "byte list \<rightharpoonup> byte list"
  mTracking :: "byte list \<times> byte list \<rightharpoonup> hash"

datatype ref_op =
    SetDefault "byte list"
  | AddBranch "byte list" hash
  | UpdateBranch "byte list" hash
  | DeleteBranch "byte list"
  | SetWorkingSet "byte list" hash
  | AddTag "byte list" hash cstr cstr u64 cstr
  | DeleteTag "byte list"
  | AddRemote "byte list" "byte list"
  | DeleteRemote "byte list"
  | UpdateTracking "byte list" "byte list" hash
  | DeleteTracking "byte list" "byte list"

definition spec_add :: "('k \<rightharpoonup> 'v) \<Rightarrow> 'k \<Rightarrow> 'v \<Rightarrow> (('k \<rightharpoonup> 'v) \<Rightarrow> 's) \<Rightarrow> 's res" where
  "spec_add m k v f = (if m k \<noteq> None then Inl SQLITE_ERROR else Inr (f (m(k \<mapsto> v))))"

definition spec_change :: "('k \<rightharpoonup> 'v) \<Rightarrow> 'k \<Rightarrow> ('v \<Rightarrow> 'v option) \<Rightarrow> (('k \<rightharpoonup> 'v) \<Rightarrow> 's) \<Rightarrow> 's res" where
  "spec_change m k g f = (case m k of None \<Rightarrow> Inl SQLITE_NOTFOUND | Some v \<Rightarrow> Inr (f (m(k := g v))))"

fun spec_ref :: "ref_maps \<Rightarrow> ref_op \<Rightarrow> ref_maps res" where
  "spec_ref m (SetDefault z) = Inr (m\<lparr>mDefault := c_str z\<rparr>)"
| "spec_ref m (AddBranch z h) = spec_add (mBranches m) (c_str z) (h, hash0) (\<lambda>f. m\<lparr>mBranches := f\<rparr>)"
| "spec_ref m (UpdateBranch z h) =
     spec_change (mBranches m) (c_str z) (\<lambda>(c, w). Some (h, w)) (\<lambda>f. m\<lparr>mBranches := f\<rparr>)"
| "spec_ref m (DeleteBranch z) = spec_change (mBranches m) (c_str z) (\<lambda>_. None) (\<lambda>f. m\<lparr>mBranches := f\<rparr>)"
| "spec_ref m (SetWorkingSet z h) =
     spec_change (mBranches m) (c_str z) (\<lambda>(c, w). Some (c, h)) (\<lambda>f. m\<lparr>mBranches := f\<rparr>)"
| "spec_ref m (AddTag z h tagger email ts msg) =
     spec_add (mTags m) (c_str z) (h, str_or_empty tagger, str_or_empty email, ts, str_or_empty msg)
       (\<lambda>f. m\<lparr>mTags := f\<rparr>)"
| "spec_ref m (DeleteTag z) = spec_change (mTags m) (c_str z) (\<lambda>_. None) (\<lambda>f. m\<lparr>mTags := f\<rparr>)"
| "spec_ref m (AddRemote z url) = spec_add (mRemotes m) (c_str z) (c_str url) (\<lambda>f. m\<lparr>mRemotes := f\<rparr>)"
| "spec_ref m (DeleteRemote z) =
     spec_change (mRemotes m) (c_str z) (\<lambda>_. None)
       (\<lambda>f. m\<lparr>mRemotes := f, mTracking := (\<lambda>k. if fst k = c_str z then None else mTracking m k)\<rparr>)"
| "spec_ref m (UpdateTracking r b h) = Inr (m\<lparr>mTracking := (mTracking m)((c_str r, c_str b) \<mapsto> h)\<rparr>)"
| "spec_ref m (DeleteTracking r b) =
     spec_change (mTracking m) (c_str r, c_str b) (\<lambda>_. None) (\<lambda>f. m\<lparr>mTracking := f\<rparr>)"

fun exec_ref :: "'a refs_state_scheme \<Rightarrow> ref_op \<Rightarrow> 'a refs_state_scheme res" where
  "exec_ref cs (SetDefault z) = Inr (chunkStoreSetDefaultBranch cs z)"
| "exec_ref cs (AddBranch z h) = chunkStoreAddBranch cs z h"
| "exec_ref cs (UpdateBranch z h) = chunkStoreUpdateBranch cs z h"
| "exec_ref cs (DeleteBranch z) = chunkStoreDeleteBranch cs z"
| "exec_ref cs (SetWorkingSet z h) = chunkStoreSetBranchWorkingSet cs z h"
| "exec_ref cs (AddTag z h tagger email ts msg) = chunkStoreAddTagFull cs z h tagger email ts msg"
| "exec_ref cs (DeleteTag z) = chunkStoreDeleteTag cs z"
| "exec_ref cs (AddRemote z url) = chunkStoreAddRemote cs z url"
| "exec_ref cs (DeleteRemote z) = chunkStoreDeleteRemote cs z"
| "exec_ref cs (UpdateTracking r b h) = Inr (chunkStoreUpdateTracking cs r b h)"
| "exec_ref cs (DeleteTracking r b) = chunkStoreDeleteTracking cs r b"

text \<open>A client runs the operations in turn and sees their codes; a failed one changes nothing.\<close>

fun run_ops :: "('s \<Rightarrow> 'o \<Rightarrow> 's res) \<Rightarrow> 's \<Rightarrow> 'o list \<Rightarrow> rc option list \<times> 's" where
  "run_ops step s [] = ([], s)"
| "run_ops step s (p # ps) =
     (case step s p of
        Inl e \<Rightarrow> (let (r, t) = run_ops step s ps in (Some e # r, t))
      | Inr s' \<Rightarrow> (let (r, t) = run_ops step s' ps in (None # r, t)))"

section \<open>Invariant and abstraction\<close>

abbreviation bkey :: "branch_ref \<Rightarrow> byte list" where "bkey b \<equiv> c_str (bName b)"
abbreviation tkey :: "tag_ref \<Rightarrow> byte list" where "tkey t \<equiv> c_str (tName t)"
abbreviation rkey :: "remote_ref \<Rightarrow> byte list" where "rkey r \<equiv> c_str (rName r)"
abbreviation kkey :: "tracking_branch \<Rightarrow> byte list \<times> byte list" where
  "kkey k \<equiv> (c_str (kRemote k), c_str (kBranch k))"

definition tag_info :: "tag_ref \<Rightarrow> tag_info" where
  "tag_info t = (tCommit t, tTagger t, tEmail t, tTimestamp t, tMessage t)"

definition branch_info :: "branch_ref \<Rightarrow> hash \<times> hash" where
  "branch_info b = (bCommit b, bWorkingSet b)"

definition refs_inv :: "'a refs_state_scheme \<Rightarrow> bool" where
  "refs_inv cs \<longleftrightarrow> dkeys bkey (aBranches cs) \<and> dkeys tkey (aTags cs) \<and> dkeys rkey (aRemotes cs) \<and>
     dkeys kkey (aTracking cs)"

definition refs_abs :: "'a refs_state_scheme \<Rightarrow> ref_maps" where
  "refs_abs cs = \<lparr>mBranches = kmap bkey branch_info (aBranches cs), mDefault = chunkStoreGetDefaultBranch cs,
     mTags = kmap tkey tag_info (aTags cs), mRemotes = kmap rkey rUrl (aRemotes cs),
     mTracking = kmap kkey kCommit (aTracking cs)\<rparr>"

definition simulates :: "'a refs_state_scheme res \<Rightarrow> ref_maps res \<Rightarrow> bool" where
  "simulates r s \<longleftrightarrow> (case r of
      Inl e \<Rightarrow> s = Inl e
    | Inr cs \<Rightarrow> refs_inv cs \<and> s = Inr (refs_abs cs))"

section \<open>Simulation\<close>

lemma str_eq_bkey: "(\<lambda>b. str_eq (f b) z) = (\<lambda>b. c_str (f b) = c_str z)"
  by (simp add: str_eq_def)

lemma tracking_eq_kkey: "tracking_eq r b = (\<lambda>t. kkey t = (c_str r, c_str b))"
  by (auto simp: tracking_eq_def str_eq_def fun_eq_iff)

lemmas find_defs = chunkStoreFindBranch_def chunkStoreFindTag_def chunkStoreFindRemote_def
  chunkStoreFindTracking_def chunkStoreGetBranchWorkingSet_def

text \<open>The two shapes of an operation: append when the key is new, change the element found.\<close>

lemma add_shape:
  assumes d: "dkeys key xs" and k: "key y = k"
    and r: "\<And>ys m. dkeys key ys \<Longrightarrow> kmap key val ys = m \<Longrightarrow> simulates (Inr (upd ys)) (Inr (f m))"
  shows "simulates
      (if (case (case first_index (\<lambda>x. key x = k) xs of Some i \<Rightarrow> Inr (g i) | None \<Rightarrow> Inl SQLITE_NOTFOUND)
           of Inr _ \<Rightarrow> True | Inl _ \<Rightarrow> False) then Inl SQLITE_ERROR else Inr (upd (xs @ [y])))
      (spec_add (kmap key val xs) k (val y) f)"
proof (cases "first_index (\<lambda>x. key x = k) xs")
  case None
  then have n: "kmap key val xs (key y) = None" using kmap_miss k by metis
  show ?thesis using None r [OF kmap_snoc(2) [OF d n] kmap_snoc(1) [OF d n]] n k by (simp add: spec_add_def)
next
  case (Some i)
  then show ?thesis using kmap_hit(3) [OF d Some, of val] by (simp add: simulates_def spec_add_def)
qed

lemma change_shape:
  assumes d: "dkeys key xs" and k: "\<And>x. x \<in> set xs \<Longrightarrow> key (h x) = key x \<and> g (val x) = Some (val (h x))"
    and r: "\<And>ys m. dkeys key ys \<Longrightarrow> kmap key val ys = m \<Longrightarrow> simulates (Inr (upd ys)) (Inr (f m))"
  shows "simulates
      (case first_index (\<lambda>x. key x = k) xs of Some i \<Rightarrow> Inr (upd (xs[i := h (xs ! i)])) | None \<Rightarrow> Inl SQLITE_NOTFOUND)
      (spec_change (kmap key val xs) k g f)"
proof (cases "first_index (\<lambda>x. key x = k) xs")
  case None
  then show ?thesis using kmap_miss [OF None, of val] by (simp add: simulates_def spec_change_def)
next
  case (Some i)
  note hit = kmap_hit [OF d Some]
  have kk: "key (h (xs ! i)) = key (xs ! i)" "g (val (xs ! i)) = Some (val (h (xs ! i)))" using k hit(1) by auto
  show ?thesis
    using Some r [OF kmap_update(2) [OF d hit(1) kk(1)] kmap_update(1) [OF d hit(1) kk(1)]] hit(2) hit(3) [of val] kk
    by (simp add: spec_change_def)
qed

lemma delete_shape:
  assumes d: "dkeys key xs"
    and r: "\<And>ys m. dkeys key ys \<Longrightarrow> kmap key val ys = m \<Longrightarrow> simulates (Inr (upd ys)) (Inr (f m))"
  shows "simulates
      (case first_index (\<lambda>x. key x = k) xs of Some i \<Rightarrow> Inr (upd (swap_remove xs i)) | None \<Rightarrow> Inl SQLITE_NOTFOUND)
      (spec_change (kmap key val xs) k (\<lambda>_. None) f)"
proof (cases "first_index (\<lambda>x. key x = k) xs")
  case None
  then show ?thesis using kmap_miss [OF None, of val] by (simp add: simulates_def spec_change_def)
next
  case (Some i)
  note hit = kmap_hit [OF d Some]
  show ?thesis
    using Some r [OF swap_remove_set(1) [OF d hit(1)] kmap_remove [OF d hit(1)]] hit(2) hit(3) [of val]
    by (simp add: spec_change_def)
qed

lemma kmap_drop_tracking:
  assumes "dkeys kkey ts"
  shows "kmap kkey kCommit (drop_tracking z (length ts) ts)
      = (\<lambda>k. if fst k = c_str z then None else kmap kkey kCommit ts k)"
proof
  fix k
  note s = drop_tracking_all [OF assms, of z, THEN conjunct1] drop_tracking_all [OF assms, of z, THEN conjunct2]
  show "kmap kkey kCommit (drop_tracking z (length ts) ts) k
      = (if fst k = c_str z then None else kmap kkey kCommit ts k)"
  proof (cases "fst k = c_str z")
    case True
    then have "kmap kkey kCommit (drop_tracking z (length ts) ts) k = None"
      unfolding kmap_None s(2) by (auto simp: str_eq_def)
    then show ?thesis using True by simp
  next
    case False
    have "kmap kkey kCommit (drop_tracking z (length ts) ts) k = Some v \<longleftrightarrow> kmap kkey kCommit ts k = Some v" for v
      unfolding kmap_iff [OF s(1)] kmap_iff [OF assms] s(2) using False by (auto simp: str_eq_def)
    then show ?thesis unfolding if_not_P [OF False] by (rule option_eqI)
  qed
qed

lemma upd_simulates:
  assumes "refs_inv cs"
  shows "dkeys bkey bs \<Longrightarrow> kmap bkey branch_info bs = m \<Longrightarrow>
      simulates (Inr (cs\<lparr>aBranches := bs\<rparr>)) (Inr ((refs_abs cs)\<lparr>mBranches := m\<rparr>))"
    and "dkeys tkey ts \<Longrightarrow> kmap tkey tag_info ts = m' \<Longrightarrow>
      simulates (Inr (cs\<lparr>aTags := ts\<rparr>)) (Inr ((refs_abs cs)\<lparr>mTags := m'\<rparr>))"
    and "dkeys rkey rs \<Longrightarrow> kmap rkey rUrl rs = mr \<Longrightarrow>
      simulates (Inr (cs\<lparr>aRemotes := rs\<rparr>)) (Inr ((refs_abs cs)\<lparr>mRemotes := mr\<rparr>))"
    and "dkeys kkey ks \<Longrightarrow> kmap kkey kCommit ks = mk \<Longrightarrow>
      simulates (Inr (cs\<lparr>aTracking := ks\<rparr>)) (Inr ((refs_abs cs)\<lparr>mTracking := mk\<rparr>))"
    and "dkeys rkey rs \<Longrightarrow> kmap rkey rUrl rs = mr \<Longrightarrow> dkeys kkey ks \<Longrightarrow> kmap kkey kCommit ks = mk \<Longrightarrow>
      simulates (Inr (cs\<lparr>aRemotes := rs, aTracking := ks\<rparr>))
        (Inr ((refs_abs cs)\<lparr>mRemotes := mr, mTracking := mk\<rparr>))"
  using assms by (auto simp: simulates_def refs_inv_def refs_abs_def chunkStoreGetDefaultBranch_def)

lemmas simulate_defs = simulates_def refs_inv_def refs_abs_def chunkStoreGetDefaultBranch_def

lemma refs_abs_sel:
  "mBranches (refs_abs cs) = kmap bkey branch_info (aBranches cs)"
  "mTags (refs_abs cs) = kmap tkey tag_info (aTags cs)"
  "mRemotes (refs_abs cs) = kmap rkey rUrl (aRemotes cs)"
  "mTracking (refs_abs cs) = kmap kkey kCommit (aTracking cs)"
  by (simp_all add: refs_abs_def)

lemma refs_inv_dkeys:
  assumes "refs_inv cs"
  shows "dkeys bkey (aBranches cs)" "dkeys tkey (aTags cs)" "dkeys rkey (aRemotes cs)" "dkeys kkey (aTracking cs)"
  using assms by (simp_all add: refs_inv_def)

lemma add_simulates:
  assumes inv: "refs_inv cs"
  shows "simulates (chunkStoreAddBranch cs z h) (spec_ref (refs_abs cs) (AddBranch z h))"
    and "simulates (chunkStoreAddTagFull cs z h tagger email ts msg)
      (spec_ref (refs_abs cs) (AddTag z h tagger email ts msg))"
    and "simulates (chunkStoreAddRemote cs z url) (spec_ref (refs_abs cs) (AddRemote z url))"
proof -
  note d = refs_inv_dkeys [OF inv]
  let ?b = "\<lparr>bName = c_str z, bCommit = h, bWorkingSet = hash0\<rparr>"
  have v: "(h, hash0) = branch_info ?b" by (simp add: branch_info_def)
  show "simulates (chunkStoreAddBranch cs z h) (spec_ref (refs_abs cs) (AddBranch z h))"
    unfolding chunkStoreAddBranch_def chunkStoreFindBranch_def spec_ref.simps str_eq_bkey refs_abs_sel v
    by (rule add_shape [where upd = "\<lambda>bs. cs\<lparr>aBranches := bs\<rparr>", OF d(1)])
       (simp, rule upd_simulates(1) [OF inv])
  let ?t = "\<lparr>tName = c_str z, tCommit = h, tTagger = str_or_empty tagger, tEmail = str_or_empty email,
          tTimestamp = ts, tMessage = str_or_empty msg\<rparr>"
  have v: "(h, str_or_empty tagger, str_or_empty email, ts, str_or_empty msg) = tag_info ?t"
    by (simp add: tag_info_def)
  show "simulates (chunkStoreAddTagFull cs z h tagger email ts msg)
      (spec_ref (refs_abs cs) (AddTag z h tagger email ts msg))"
    unfolding chunkStoreAddTagFull_def chunkStoreFindTag_def spec_ref.simps str_eq_bkey refs_abs_sel v
    by (rule add_shape [where upd = "\<lambda>bs. cs\<lparr>aTags := bs\<rparr>", OF d(2)])
       (simp, rule upd_simulates(2) [OF inv])
  let ?r = "\<lparr>rName = c_str z, rUrl = c_str url\<rparr>"
  have "simulates (chunkStoreAddRemote cs z url)
      (spec_add (kmap rkey rUrl (aRemotes cs)) (c_str z) (rUrl ?r) (\<lambda>f. (refs_abs cs)\<lparr>mRemotes := f\<rparr>))"
    unfolding chunkStoreAddRemote_def chunkStoreFindRemote_def str_eq_bkey
    by (rule add_shape [where upd = "\<lambda>bs. cs\<lparr>aRemotes := bs\<rparr>", OF d(3)])
       (simp, rule upd_simulates(3) [OF inv])
  then show "simulates (chunkStoreAddRemote cs z url) (spec_ref (refs_abs cs) (AddRemote z url))"
    by (simp add: refs_abs_sel)
qed

lemma change_simulates:
  assumes inv: "refs_inv cs"
  shows "simulates (chunkStoreUpdateBranch cs z h) (spec_ref (refs_abs cs) (UpdateBranch z h))"
    and "simulates (chunkStoreSetBranchWorkingSet cs z h) (spec_ref (refs_abs cs) (SetWorkingSet z h))"
proof -
  note d = refs_inv_dkeys(1) [OF inv]
  show "simulates (chunkStoreUpdateBranch cs z h) (spec_ref (refs_abs cs) (UpdateBranch z h))"
    unfolding chunkStoreUpdateBranch_def spec_ref.simps str_eq_bkey refs_abs_sel
    by (rule change_shape [where h = "\<lambda>b. b\<lparr>bCommit := h\<rparr>" and upd = "\<lambda>bs. cs\<lparr>aBranches := bs\<rparr>", OF d])
       (simp add: branch_info_def, rule upd_simulates(1) [OF inv])
  show "simulates (chunkStoreSetBranchWorkingSet cs z h) (spec_ref (refs_abs cs) (SetWorkingSet z h))"
    unfolding chunkStoreSetBranchWorkingSet_def spec_ref.simps str_eq_bkey refs_abs_sel
    by (rule change_shape [where h = "\<lambda>b. b\<lparr>bWorkingSet := h\<rparr>" and upd = "\<lambda>bs. cs\<lparr>aBranches := bs\<rparr>", OF d])
       (simp add: branch_info_def, rule upd_simulates(1) [OF inv])
qed

lemma delete_simulates:
  assumes inv: "refs_inv cs"
  shows "simulates (chunkStoreDeleteBranch cs z) (spec_ref (refs_abs cs) (DeleteBranch z))"
    and "simulates (chunkStoreDeleteTag cs z) (spec_ref (refs_abs cs) (DeleteTag z))"
    and "simulates (chunkStoreDeleteTracking cs r b) (spec_ref (refs_abs cs) (DeleteTracking r b))"
    and "simulates (chunkStoreDeleteRemote cs z) (spec_ref (refs_abs cs) (DeleteRemote z))"
proof -
  note d = refs_inv_dkeys [OF inv]
  show "simulates (chunkStoreDeleteBranch cs z) (spec_ref (refs_abs cs) (DeleteBranch z))"
    unfolding chunkStoreDeleteBranch_def spec_ref.simps str_eq_bkey refs_abs_sel
    by (rule delete_shape [where upd = "\<lambda>bs. cs\<lparr>aBranches := bs\<rparr>", OF d(1)]) (rule upd_simulates(1) [OF inv])
  show "simulates (chunkStoreDeleteTag cs z) (spec_ref (refs_abs cs) (DeleteTag z))"
    unfolding chunkStoreDeleteTag_def spec_ref.simps str_eq_bkey refs_abs_sel
    by (rule delete_shape [where upd = "\<lambda>bs. cs\<lparr>aTags := bs\<rparr>", OF d(2)]) (rule upd_simulates(2) [OF inv])
  show "simulates (chunkStoreDeleteTracking cs r b) (spec_ref (refs_abs cs) (DeleteTracking r b))"
    unfolding chunkStoreDeleteTracking_def spec_ref.simps tracking_eq_kkey refs_abs_sel
    by (rule delete_shape [where upd = "\<lambda>bs. cs\<lparr>aTracking := bs\<rparr>", OF d(4)]) (rule upd_simulates(4) [OF inv])
  let ?ks = "drop_tracking z (length (aTracking cs)) (aTracking cs)"
  have k: "dkeys kkey ?ks" using drop_tracking_all [OF d(4)] by simp
  show "simulates (chunkStoreDeleteRemote cs z) (spec_ref (refs_abs cs) (DeleteRemote z))"
    unfolding chunkStoreDeleteRemote_def spec_ref.simps str_eq_bkey refs_abs_sel kmap_drop_tracking [OF d(4), symmetric]
    by (rule delete_shape [where upd = "\<lambda>bs. cs\<lparr>aRemotes := bs, aTracking := ?ks\<rparr>", OF d(3)])
       (rule upd_simulates(5) [OF inv _ _ k refl])
qed

lemma default_simulates:
  "refs_inv cs \<Longrightarrow> simulates (Inr (chunkStoreSetDefaultBranch cs z)) (spec_ref (refs_abs cs) (SetDefault z))"
  by (simp add: simulate_defs chunkStoreSetDefaultBranch_def)

lemma tracking_simulates:
  assumes inv: "refs_inv cs"
  shows "simulates (Inr (chunkStoreUpdateTracking cs r b h)) (spec_ref (refs_abs cs) (UpdateTracking r b h))"
proof -
  let ?k = "(c_str r, c_str b)" and ?xs = "aTracking cs"
  have d: "dkeys kkey ?xs" using inv by (simp add: refs_inv_def)
  show ?thesis
  proof (cases "first_index (\<lambda>t. kkey t = ?k) ?xs")
    case None
    let ?y = "\<lparr>kRemote = c_str r, kBranch = c_str b, kCommit = h\<rparr>"
    have n: "kmap kkey kCommit ?xs (kkey ?y) = None" using kmap_miss [OF None, of kCommit] by simp
    show ?thesis
      using None upd_simulates(4) [OF inv kmap_snoc(2) [OF d n] kmap_snoc(1) [OF d n]]
      by (simp add: chunkStoreUpdateTracking_def tracking_eq_kkey refs_abs_def)
  next
    case (Some i)
    note hit = kmap_hit [OF d Some]
    have k: "kkey ((?xs ! i)\<lparr>kCommit := h\<rparr>) = kkey (?xs ! i)" by simp
    show ?thesis
      using Some hit(2) upd_simulates(4) [OF inv kmap_update(2) [OF d hit(1) k] kmap_update(1) [OF d hit(1) k]]
      by (simp add: chunkStoreUpdateTracking_def tracking_eq_kkey refs_abs_def)
  qed
qed

lemma ref_op_simulates:
  assumes "refs_inv cs"
  shows "simulates (exec_ref cs p) (spec_ref (refs_abs cs) p)"
  unfolding exec_ref.simps
  by (cases p) (simp_all only: exec_ref.simps add_simulates [OF assms] change_simulates [OF assms]
      delete_simulates [OF assms] default_simulates [OF assms] tracking_simulates [OF assms])

lemma run_ops_simulates:
  "refs_inv cs \<Longrightarrow> run_ops exec_ref cs ps = (r, cs') \<Longrightarrow>
     refs_inv cs' \<and> run_ops spec_ref (refs_abs cs) ps = (r, refs_abs cs')"
proof (induction ps arbitrary: cs r)
  case (Cons p ps)
  show ?case
  proof (cases "exec_ref cs p")
    case (Inl e)
    then have "spec_ref (refs_abs cs) p = Inl e"
      using ref_op_simulates [OF Cons.prems(1), of p] by (simp add: simulates_def)
    then show ?thesis using Cons.IH [OF Cons.prems(1)] Cons.prems(2) Inl
      by (cases "run_ops exec_ref cs ps") auto
  next
    case (Inr c)
    then have c: "refs_inv c" "spec_ref (refs_abs cs) p = Inr (refs_abs c)"
      using ref_op_simulates [OF Cons.prems(1), of p] by (auto simp: simulates_def)
    then show ?thesis using Cons.IH [OF c(1)] Cons.prems(2) Inr
      by (cases "run_ops exec_ref c ps") auto
  qed
qed simp

lemma lookups_abs:
  assumes inv: "refs_inv cs"
  shows "chunkStoreFindBranch cs z = (case mBranches (refs_abs cs) (c_str z) of Some v \<Rightarrow> Inr (fst v) | None \<Rightarrow> Inl SQLITE_NOTFOUND)"
    and "chunkStoreGetBranchWorkingSet cs z = (case mBranches (refs_abs cs) (c_str z) of Some v \<Rightarrow> Inr (snd v) | None \<Rightarrow> Inl SQLITE_NOTFOUND)"
    and "chunkStoreFindTag cs z = (case mTags (refs_abs cs) (c_str z) of Some v \<Rightarrow> Inr (fst v) | None \<Rightarrow> Inl SQLITE_NOTFOUND)"
    and "chunkStoreFindRemote cs z = (case mRemotes (refs_abs cs) (c_str z) of Some v \<Rightarrow> Inr v | None \<Rightarrow> Inl SQLITE_NOTFOUND)"
    and "chunkStoreFindTracking cs z b = (case mTracking (refs_abs cs) (c_str z, c_str b) of Some v \<Rightarrow> Inr v | None \<Rightarrow> Inl SQLITE_NOTFOUND)"
proof -
  note d = refs_inv_dkeys [OF inv]
  have m: "kmap key (\<lambda>x. f (val x)) xs k = map_option f (kmap key val xs k)" for f key val xs k
    unfolding kmap_def by (induction xs) auto
  have f: "(case first_index (\<lambda>x. key x = k) xs of None \<Rightarrow> Inl e | Some i \<Rightarrow> Inr (f (val (xs ! i))))
      = (case kmap key val xs k of None \<Rightarrow> Inl e | Some v \<Rightarrow> Inr (f v))"
    if "dkeys key xs" for f key val xs k e
    using kmap_find [OF that, where k = k and val = "\<lambda>x. f (val x)" and e = e] unfolding m by (cases "kmap key val xs k") simp_all
  have s: "bCommit b = fst (branch_info b)" "bWorkingSet b = snd (branch_info b)" "tCommit t = fst (tag_info t)" for b t
    by (simp_all add: branch_info_def tag_info_def)
  show "chunkStoreFindBranch cs z = (case mBranches (refs_abs cs) (c_str z) of Some v \<Rightarrow> Inr (fst v) | None \<Rightarrow> Inl SQLITE_NOTFOUND)"
    unfolding find_defs str_eq_bkey refs_abs_sel s by (rule f [OF d(1)])
  show "chunkStoreGetBranchWorkingSet cs z = (case mBranches (refs_abs cs) (c_str z) of Some v \<Rightarrow> Inr (snd v) | None \<Rightarrow> Inl SQLITE_NOTFOUND)"
    unfolding find_defs str_eq_bkey refs_abs_sel s by (rule f [OF d(1)])
  show "chunkStoreFindTag cs z = (case mTags (refs_abs cs) (c_str z) of Some v \<Rightarrow> Inr (fst v) | None \<Rightarrow> Inl SQLITE_NOTFOUND)"
    unfolding find_defs str_eq_bkey refs_abs_sel s by (rule f [OF d(2)])
  show "chunkStoreFindRemote cs z = (case mRemotes (refs_abs cs) (c_str z) of Some v \<Rightarrow> Inr v | None \<Rightarrow> Inl SQLITE_NOTFOUND)"
    unfolding find_defs str_eq_bkey refs_abs_sel by (rule kmap_find [OF d(3)])
  show "chunkStoreFindTracking cs z b = (case mTracking (refs_abs cs) (c_str z, c_str b) of Some v \<Rightarrow> Inr v | None \<Rightarrow> Inl SQLITE_NOTFOUND)"
    unfolding find_defs tracking_eq_kkey refs_abs_sel by (rule kmap_find [OF d(4)])
qed

text \<open>
  C34. The operations on the references refine maps: on a state whose names are distinct, any
  sequence of operations returns the codes of the specification, keeps the names distinct, and
  leaves arrays in which every lookup of a branch, its working set, a tag, a remote or a tracking
  branch returns what the resulting maps hold.
\<close>

theorem refs_ops_refine:
  assumes "refs_inv cs" "run_ops exec_ref cs ps = (r, cs')"
  shows "refs_inv cs' \<and> run_ops spec_ref (refs_abs cs) ps = (r, refs_abs cs') \<and>
    chunkStoreFindBranch cs' z = (case mBranches (refs_abs cs') (c_str z) of Some v \<Rightarrow> Inr (fst v) | None \<Rightarrow> Inl SQLITE_NOTFOUND) \<and>
    chunkStoreGetBranchWorkingSet cs' z = (case mBranches (refs_abs cs') (c_str z) of Some v \<Rightarrow> Inr (snd v) | None \<Rightarrow> Inl SQLITE_NOTFOUND) \<and>
    chunkStoreFindTag cs' z = (case mTags (refs_abs cs') (c_str z) of Some v \<Rightarrow> Inr (fst v) | None \<Rightarrow> Inl SQLITE_NOTFOUND) \<and>
    chunkStoreFindRemote cs' z = (case mRemotes (refs_abs cs') (c_str z) of Some v \<Rightarrow> Inr v | None \<Rightarrow> Inl SQLITE_NOTFOUND) \<and>
    chunkStoreFindTracking cs' z b = (case mTracking (refs_abs cs') (c_str z, c_str b) of Some v \<Rightarrow> Inr v | None \<Rightarrow> Inl SQLITE_NOTFOUND)"
  using run_ops_simulates [OF assms] lookups_abs [of cs'] by blast

definition sample_ops :: "ref_op list" where
  "sample_ops = [AddBranch [97] hash0, AddBranch [98] (replicate 20 1), AddBranch [97] hash0, AddRemote [111] [117],
     UpdateTracking [111] [97] hash0, UpdateTracking [112] [97] hash0, DeleteRemote [111], DeleteBranch [97],
     UpdateBranch [98] (replicate 20 2), DeleteTag [99]]"

lemma refs_ops_refine_witness:
  "\<exists>cs'. run_ops exec_ref refs0 sample_ops =
       ([None, None, Some SQLITE_ERROR, None, None, None, None, None, None, Some SQLITE_NOTFOUND], cs') \<and>
     refs_inv cs' \<and> chunkStoreFindBranch cs' [98] = Inr (replicate 20 2) \<and> length (aTracking cs') = 1"
proof -
  let ?r = "[None, None, Some SQLITE_ERROR, None, None, None, None, None, None, Some SQLITE_NOTFOUND]"
  obtain cs' where r: "run_ops exec_ref refs0 sample_ops = (?r, cs')"
    and f: "chunkStoreFindBranch cs' [98] = Inr (replicate 20 2)" "length (aTracking cs') = 1"
  proof -
    have "(case run_ops exec_ref refs0 sample_ops of (r, cs') \<Rightarrow>
        r = ?r \<and> chunkStoreFindBranch cs' [98] = Inr (replicate 20 2) \<and> length (aTracking cs') = 1)"
      by code_simp
    then show ?thesis using that by (cases "run_ops exec_ref refs0 sample_ops") simp
  qed
  have "refs_inv refs0" by (simp add: refs_inv_def refs0_def dkeys_def)
  from refs_ops_refine [OF this r] r f show ?thesis by blast
qed

end
