(* ===== verification/RefsBlob.thy ===== *)
theory RefsBlob
  imports Refs
begin

text \<open>
  The blob of references, format 6: \<open>csSerializeRefsBlob\<close> and \<open>csDeserializeRefs\<close> of
  \<open>chunk_store.c\<close>, and the adoption of a parsed blob.  The lemmas step through the blob item by
  item; the theorems are the round trip, the bounds of the reader, and the heap overflow that a
  forged count causes.
\<close>

section \<open>Writing\<close>

definition INT_MAX :: int where "INT_MAX = 2147483647"

definition put_str :: "byte list \<Rightarrow> byte list" where
  "put_str s = put_u32 (of_nat (strlen s)) @ take (strlen s) s"

definition put_opt :: "cstr \<Rightarrow> byte list" where
  "put_opt z = put_u32 (of_nat (cstr_len z)) @ (if cstr_len z \<noteq> 0 then cstr_bytes z else [])"

text \<open>What each element adds to the size, and the overflow check of the running sum.\<close>

definition branch_inc :: "branch_ref \<Rightarrow> int" where
  "branch_inc b = 4 + int (strlen (bName b)) + int PROLLY_HASH_SIZE * 2"

definition tag_inc :: "tag_ref \<Rightarrow> int" where
  "tag_inc t = 4 + int (strlen (tName t)) + int PROLLY_HASH_SIZE + 4 + int (cstr_len (tTagger t))
     + 4 + int (cstr_len (tEmail t)) + 8 + 4 + int (cstr_len (tMessage t))"

definition remote_inc :: "remote_ref \<Rightarrow> int" where
  "remote_inc r = 4 + int (strlen (rName r)) + 4 + int (strlen (rUrl r))"

definition tracking_inc :: "tracking_branch \<Rightarrow> int" where
  "tracking_inc k = 4 + int (strlen (kRemote k)) + 4 + int (strlen (kBranch k)) + int PROLLY_HASH_SIZE"

fun add_sizes :: "int \<Rightarrow> int list \<Rightarrow> int res" where
  "add_sizes sz [] = Inr sz"
| "add_sizes sz (inc # incs) = (if sz > INT_MAX - inc then Inl SQLITE_TOOBIG else add_sizes (sz + inc) incs)"

definition branch_bytes :: "branch_ref \<Rightarrow> byte list" where
  "branch_bytes b = put_str (bName b) @ bCommit b @ bWorkingSet b"

definition tag_bytes :: "tag_ref \<Rightarrow> byte list" where
  "tag_bytes t = put_str (tName t) @ tCommit t @ put_opt (tTagger t) @ put_opt (tEmail t)
     @ put_i64 (tTimestamp t) @ put_opt (tMessage t)"

definition remote_bytes :: "remote_ref \<Rightarrow> byte list" where
  "remote_bytes r = put_str (rName r) @ put_str (rUrl r)"

definition tracking_bytes :: "tracking_branch \<Rightarrow> byte list" where
  "tracking_bytes k = put_str (kRemote k) @ put_str (kBranch k) @ kCommit k"

text \<open>The buffer of \<open>sz\<close> bytes is filled from its start; the pair is \<open>*ppOut\<close> and \<open>*pnOut\<close>.\<close>

definition csSerializeRefsBlob :: "'a refs_state_scheme \<Rightarrow> (byte list \<times> int) res" where
  "csSerializeRefsBlob cs =
     (let def = (case zDefaultBranch cs of Some z \<Rightarrow> z | None \<Rightarrow> main_name);
          sz = 1 + 4 + int (strlen def) + 4 + 4 + 4 + 4 in
      bindR (add_sizes sz (map branch_inc (aBranches cs))) (\<lambda>sz.
      bindR (add_sizes sz (map tag_inc (aTags cs))) (\<lambda>sz.
      bindR (add_sizes sz (map remote_inc (aRemotes cs))) (\<lambda>sz.
      bindR (add_sizes sz (map tracking_inc (aTracking cs))) (\<lambda>sz.
      Inr ([6] @ put_str def
        @ put_u32 (of_nat (length (aBranches cs))) @ concat (map branch_bytes (aBranches cs))
        @ put_u32 (of_nat (length (aTags cs))) @ concat (map tag_bytes (aTags cs))
        @ put_u32 (of_nat (length (aRemotes cs))) @ concat (map remote_bytes (aRemotes cs))
        @ put_u32 (of_nat (length (aTracking cs))) @ concat (map tracking_bytes (aTracking cs)), sz))))))"

section \<open>Reading\<close>

text \<open>\<open>if( bufCur+4>data+nData ) return SQLITE_CORRUPT; n = (int)CS_READ_U32(bufCur); bufCur += 4\<close>.\<close>

definition get_int :: "byte list \<Rightarrow> nat \<Rightarrow> (int \<times> nat) res" where
  "get_int d p =
     bindR (guardR (\<not> p + 4 > length d) SQLITE_CORRUPT) (\<lambda>_.
     bindR (get_u32 d p) (\<lambda>v. Inr (sint v, p + 4)))"

text \<open>\<open>if( bufCur+n+extra>data+nData ) return SQLITE_CORRUPT\<close>, with a signed \<open>n\<close>.\<close>

definition chk_len :: "byte list \<Rightarrow> nat \<Rightarrow> int \<Rightarrow> nat \<Rightarrow> unit res" where
  "chk_len d p n extra = guardR (\<not> int p + n + int extra > int (length d)) SQLITE_CORRUPT"

text \<open>\<open>z = sqlite3_malloc(n+1); if( !z ) return SQLITE_NOMEM; memcpy(z, bufCur, n); bufCur += n\<close>:
  a request for no positive size returns the null pointer.\<close>

definition dup_str :: "byte list \<Rightarrow> nat \<Rightarrow> int \<Rightarrow> (byte list \<times> nat) res" where
  "dup_str d p n =
     bindR (guardR (n + 1 > 0) SQLITE_NOMEM) (\<lambda>_.
     bindR (read_bytes d p (nat n)) (\<lambda>s. Inr (s, p + nat n)))"

text \<open>\<open>a = sqlite3_malloc(n*(int)sizeof(T)); if( !a ) return SQLITE_NOMEM\<close>: the bytes
  allocated, where the product wraps at 32 bits; then writing cell \<open>i\<close> needs its bytes.\<close>

definition alloc_array :: "int \<Rightarrow> int \<Rightarrow> int res" where
  "alloc_array n elt =
     (let bytes = sint (of_int (n * elt) :: u32) in bindR (guardR (bytes > 0) SQLITE_NOMEM) (\<lambda>_. Inr bytes))"

definition write_cell :: "int \<Rightarrow> int \<Rightarrow> nat \<Rightarrow> unit res" where
  "write_cell bytes elt i = guardR ((int i + 1) * elt \<le> bytes) OUT_OF_BOUNDS"

text \<open>The sizes of the structs on a 64-bit machine.\<close>

definition sizeof_BranchRef :: int where "sizeof_BranchRef = 48"
definition sizeof_TagRef :: int where "sizeof_TagRef = 64"
definition sizeof_RemoteRef :: int where "sizeof_RemoteRef = 16"
definition sizeof_TrackingBranch :: int where "sizeof_TrackingBranch = 40"

text \<open>One element of each array at offset \<open>p\<close>, into cell \<open>i\<close>.\<close>

definition get_branch :: "byte list \<Rightarrow> int \<Rightarrow> nat \<Rightarrow> nat \<Rightarrow> (branch_ref \<times> nat) res" where
  "get_branch d bytes i p =
     bindR (get_int d p) (\<lambda>(nameLen, p).
     bindR (chk_len d p nameLen PROLLY_HASH_SIZE) (\<lambda>_.
     bindR (write_cell bytes sizeof_BranchRef i) (\<lambda>_.
     bindR (dup_str d p nameLen) (\<lambda>(name, p).
     bindR (read_bytes d p PROLLY_HASH_SIZE) (\<lambda>commit.
     let p = p + PROLLY_HASH_SIZE in
     if p + PROLLY_HASH_SIZE \<le> length d then
       bindR (read_bytes d p PROLLY_HASH_SIZE) (\<lambda>ws.
       Inr (\<lparr>bName = name, bCommit = commit, bWorkingSet = ws\<rparr>, p + PROLLY_HASH_SIZE))
     else Inr (\<lparr>bName = name, bCommit = commit, bWorkingSet = hash0\<rparr>, p))))))"

text \<open>A length, its check and the copy.\<close>

definition get_opt :: "byte list \<Rightarrow> nat \<Rightarrow> (byte list \<times> nat) res" where
  "get_opt d p =
     bindR (get_int d p) (\<lambda>(n, p).
     bindR (chk_len d p n 0) (\<lambda>_. dup_str d p n))"

definition get_tag :: "byte list \<Rightarrow> byte \<Rightarrow> int \<Rightarrow> nat \<Rightarrow> nat \<Rightarrow> (tag_ref \<times> nat) res" where
  "get_tag d version bytes i p =
     bindR (get_int d p) (\<lambda>(nameLen, p).
     bindR (chk_len d p nameLen PROLLY_HASH_SIZE) (\<lambda>_.
     bindR (write_cell bytes sizeof_TagRef i) (\<lambda>_.
     bindR (dup_str d p nameLen) (\<lambda>(name, p).
     bindR (read_bytes d p PROLLY_HASH_SIZE) (\<lambda>commit.
     let p = p + PROLLY_HASH_SIZE in
     if version \<ge> 6 then
       bindR (get_opt d p) (\<lambda>(tagger, p).
       bindR (get_opt d p) (\<lambda>(email, p).
       bindR (guardR (\<not> p + 8 > length d) SQLITE_CORRUPT) (\<lambda>_.
       bindR (get_i64 d p) (\<lambda>ts.
       bindR (get_opt d (p + 8)) (\<lambda>(msg, p).
       Inr (\<lparr>tName = name, tCommit = commit, tTagger = Some tagger, tEmail = Some email, tTimestamp = ts,
             tMessage = Some msg\<rparr>, p))))))
     else Inr (\<lparr>tName = name, tCommit = commit, tTagger = Some [], tEmail = Some [], tTimestamp = 0,
             tMessage = Some []\<rparr>, p))))))"

definition get_remote :: "byte list \<Rightarrow> int \<Rightarrow> nat \<Rightarrow> nat \<Rightarrow> (remote_ref \<times> nat) res" where
  "get_remote d bytes i p =
     bindR (get_int d p) (\<lambda>(nameLen, p).
     bindR (chk_len d p nameLen 4) (\<lambda>_.
     bindR (write_cell bytes sizeof_RemoteRef i) (\<lambda>_.
     bindR (dup_str d p nameLen) (\<lambda>(name, p).
     bindR (get_u32 d p) (\<lambda>v.
     let urlLen = sint v; p = p + 4 in
     bindR (chk_len d p urlLen 0) (\<lambda>_.
     bindR (dup_str d p urlLen) (\<lambda>(url, p).
     Inr (\<lparr>rName = name, rUrl = url\<rparr>, p))))))))"

definition get_tracking :: "byte list \<Rightarrow> int \<Rightarrow> nat \<Rightarrow> nat \<Rightarrow> (tracking_branch \<times> nat) res" where
  "get_tracking d bytes i p =
     bindR (get_int d p) (\<lambda>(remoteLen, p).
     bindR (chk_len d p remoteLen 4) (\<lambda>_.
     bindR (write_cell bytes sizeof_TrackingBranch i) (\<lambda>_.
     bindR (dup_str d p remoteLen) (\<lambda>(remote, p).
     bindR (get_u32 d p) (\<lambda>v.
     let branchLen = sint v; p = p + 4 in
     bindR (chk_len d p branchLen PROLLY_HASH_SIZE) (\<lambda>_.
     bindR (dup_str d p branchLen) (\<lambda>(branch, p).
     bindR (read_bytes d p PROLLY_HASH_SIZE) (\<lambda>commit.
     Inr (\<lparr>kRemote = remote, kBranch = branch, kCommit = commit\<rparr>, p + PROLLY_HASH_SIZE)))))))))"

text \<open>\<open>for(i=0; i<n; i++)\<close> over the elements of an array.\<close>

function get_many :: "(nat \<Rightarrow> nat \<Rightarrow> ('r \<times> nat) res) \<Rightarrow> int \<Rightarrow> nat \<Rightarrow> nat \<Rightarrow> ('r list \<times> nat) res" where
  "get_many get n i p =
     (if int i < n then
        bindR (get i p) (\<lambda>(x, p).
        bindR (get_many get n (i + 1) p) (\<lambda>(xs, p). Inr (x # xs, p)))
      else Inr ([], p))"
  by pat_completeness auto
termination by (relation "measure (\<lambda>(get, n, i, p). nat (n - int i))") auto

declare get_many.simps [simp del]

text \<open>\<open>if( n>0 ) .. allocate .. for ..\<close>: one array whose count has been read.\<close>

definition get_array :: "(int \<Rightarrow> nat \<Rightarrow> nat \<Rightarrow> ('r \<times> nat) res) \<Rightarrow> int \<Rightarrow> int \<Rightarrow> nat \<Rightarrow> ('r list \<times> nat) res" where
  "get_array get elt n p =
     (if n > 0 then
        bindR (alloc_array n elt) (\<lambda>bytes. get_many (get bytes) n 0 p)
      else Inr ([], p))"

definition csDeserializeRefs :: "'a refs_state_scheme \<Rightarrow> byte list \<Rightarrow> 'a refs_state_scheme res" where
  "csDeserializeRefs cs d =
     bindR (guardR (\<not> length d < 5) SQLITE_CORRUPT) (\<lambda>_.
     bindR (read_byte d 0) (\<lambda>version.
     bindR (guardR (version = 6) SQLITE_CORRUPT) (\<lambda>_.
     bindR (get_int d 1) (\<lambda>(defLen, p).
     bindR (chk_len d p defLen 0) (\<lambda>_.
     bindR (dup_str d p defLen) (\<lambda>(def, p).
     let cs = cs\<lparr>zDefaultBranch := Some def\<rparr> in
     bindR (get_int d p) (\<lambda>(nBranches, p).
     bindR (get_array (get_branch d) sizeof_BranchRef nBranches p) (\<lambda>(branches, p).
     let cs = (csFreeBranches cs)\<lparr>aBranches := branches\<rparr> in
     bindR (if p + 4 \<le> length d then
              bindR (get_int d p) (\<lambda>(nTags, p).
              bindR (get_array (get_tag d version) sizeof_TagRef nTags p) (\<lambda>(tags, p).
              Inr ((csFreeTags cs)\<lparr>aTags := tags\<rparr>, p)))
            else Inr (csFreeTags cs, p)) (\<lambda>(cs, p).
     let cs = csFreeTracking (csFreeRemotes cs) in
     if p + 4 \<le> length d then
       bindR (get_int d p) (\<lambda>(nRemotes, p).
       bindR (get_array (get_remote d) sizeof_RemoteRef nRemotes p) (\<lambda>(remotes, p).
       let cs = cs\<lparr>aRemotes := remotes\<rparr> in
       if p + 4 \<le> length d then
         bindR (get_int d p) (\<lambda>(nTracking, p).
         bindR (get_array (get_tracking d) sizeof_TrackingBranch nTracking p) (\<lambda>(tracking, p).
         Inr (cs\<lparr>aTracking := tracking\<rparr>)))
       else Inr cs))
     else Inr cs)))))))))"

text \<open>Parsing into a zeroed store, and replacing the references by the result.  The flag is
  \<open>markCommitted\<close>; the hash of the committed references belongs to the store (\<open>csMarkRefsCommitted\<close>).\<close>

definition csDeserializeRefsIntoTemp :: "byte list \<Rightarrow> refs_state res" where
  "csDeserializeRefsIntoTemp d = csDeserializeRefs refs0 d"

definition csReplaceRefsStateFromBlob ::
  "('a refs_state_scheme \<Rightarrow> 'a refs_state_scheme) \<Rightarrow> 'a refs_state_scheme \<Rightarrow> byte list \<Rightarrow> bool \<Rightarrow> 'a refs_state_scheme res" where
  "csReplaceRefsStateFromBlob mark cs d markCommitted =
     bindR (csDeserializeRefsIntoTemp d) (\<lambda>tmp.
     let cs = csAdoptRefsState (csFreeRefsState cs) tmp in
     Inr (if markCommitted then mark cs else cs))"

section \<open>Reading what was written\<close>

lemma sint_of_nat32: "n < 2147483648 \<Longrightarrow> sint (of_nat n :: u32) = int n"
  by (simp add: signed_of_nat signed_take_bit_int_eq_self)

lemma sint_of_int32: "0 \<le> n \<Longrightarrow> n < 2147483648 \<Longrightarrow> sint (of_int n :: u32) = n"
  by (simp add: signed_of_int signed_take_bit_int_eq_self)

lemma at_off_int:
  assumes "at_off d p (put_u32 (of_nat n) @ s)" "n < 2147483648"
  shows "get_int d p = Inr (int n, p + 4)" "at_off d (p + 4) s"
proof -
  note u = at_off_u32 [OF assms(1)]
  show "at_off d (p + 4) s" by (rule u(2))
  have "p + 4 \<le> length d" using at_off_le [OF u(2)] by linarith
  then show "get_int d p = Inr (int n, p + 4)" using u(1) assms(2) by (simp add: get_int_def sint_of_nat32)
qed

lemma at_off_chk:
  assumes "at_off d p (s @ r)" "n = int (length s)" "extra \<le> length r"
  shows "chk_len d p n extra = Inr ()"
  using at_off_le [OF assms(1)] assms(2,3) by (simp add: chk_len_def)

lemma at_off_dup:
  assumes "at_off d p (s @ r)" "n = int (length s)"
  shows "dup_str d p n = Inr (s, p + length s)" "at_off d (p + length s) r"
  using at_off_bytes [OF assms(1) refl] assms(2) by (simp_all add: dup_str_def)

lemma at_off_str:
  assumes "at_off d p (put_str s @ r)" "strlen s < 2147483648"
  shows "get_int d p = Inr (int (strlen s), p + 4)" "at_off d (p + 4) (c_str s @ r)"
proof -
  have "put_str s @ r = put_u32 (of_nat (strlen s)) @ c_str s @ r" by (simp add: put_str_def c_str_def)
  note a = assms(1) [unfolded this]
  show "get_int d p = Inr (int (strlen s), p + 4)" "at_off d (p + 4) (c_str s @ r)"
    using at_off_int [OF a assms(2)] by simp_all
qed

lemma length_put_str [simp]: "length (put_str s) = 4 + strlen s"
  unfolding put_str_def c_str_def [symmetric] by simp

lemma length_put_opt [simp]: "length (put_opt z) = 4 + cstr_len z"
  by (simp add: put_opt_def length_cstr_bytes)

lemma put_opt_eq: "put_opt z = put_u32 (of_nat (cstr_len z)) @ cstr_bytes z"
  using length_cstr_bytes [of z] by (auto simp: put_opt_def)

lemma at_off_opt:
  assumes "at_off d p (put_opt z @ r)" "cstr_len z < 2147483648"
  shows "get_opt d p = Inr (cstr_bytes z, p + (4 + cstr_len z))" "at_off d (p + (4 + cstr_len z)) r"
proof -
  have a: "at_off d p (put_u32 (of_nat (cstr_len z)) @ cstr_bytes z @ r)" using assms(1) by (simp add: put_opt_eq)
  note i = at_off_int [OF a assms(2)]
  have l: "int (cstr_len z) = int (length (cstr_bytes z))" by (simp add: length_cstr_bytes)
  note b = at_off_dup [OF i(2) l]
  show "at_off d (p + (4 + cstr_len z)) r" using b(2) by (simp add: length_cstr_bytes add.assoc)
  show "get_opt d p = Inr (cstr_bytes z, p + (4 + cstr_len z))"
    unfolding get_opt_def i(1) bindR_Inr prod.case at_off_chk [OF i(2) l, of 0, simplified] b(1)
    by (simp add: length_cstr_bytes add.assoc)
qed

definition branch_ok :: "branch_ref \<Rightarrow> bool" where
  "branch_ok b \<longleftrightarrow> hash_ok (bCommit b) \<and> hash_ok (bWorkingSet b) \<and> strlen (bName b) < 2147483648"

definition stored_branch :: "branch_ref \<Rightarrow> branch_ref" where
  "stored_branch b = b\<lparr>bName := c_str (bName b)\<rparr>"

lemma get_branch_bytes:
  assumes at: "at_off d p (branch_bytes b @ r)" and ok: "branch_ok b" and cell: "(int i + 1) * sizeof_BranchRef \<le> n"
  shows "get_branch d n i p = Inr (stored_branch b, p + length (branch_bytes b))"
proof -
  have h: "PROLLY_HASH_SIZE = length (bCommit b)" "PROLLY_HASH_SIZE = length (bWorkingSet b)"
    and l: "strlen (bName b) < 2147483648" using ok by (simp_all add: branch_ok_def hash_ok_def)
  have a: "at_off d p (put_str (bName b) @ bCommit b @ bWorkingSet b @ r)" using at by (simp add: branch_bytes_def)
  note i = at_off_str [OF a l]
  have n: "int (strlen (bName b)) = int (length (c_str (bName b)))" by simp
  note c = at_off_chk [OF i(2) n, of PROLLY_HASH_SIZE]
  note b = at_off_dup [OF i(2) n]
  note c1 = at_off_bytes [OF b(2) h(1)]
  note c2 = at_off_bytes [OF c1(2) h(2)]
  have le: "p + 4 + length (c_str (bName b)) + PROLLY_HASH_SIZE + PROLLY_HASH_SIZE \<le> length d"
    using at_off_le [OF c2(2)] by linarith
  show ?thesis
    unfolding get_branch_def i(1) bindR_Inr prod.case b(1) c1(1) Let_def if_P [OF le] c2(1)
    using c cell h(1) by (simp add: write_cell_def stored_branch_def branch_bytes_def h(2) [symmetric])
qed

definition tag_ok :: "tag_ref \<Rightarrow> bool" where
  "tag_ok t \<longleftrightarrow> hash_ok (tCommit t) \<and> strlen (tName t) < 2147483648 \<and> cstr_len (tTagger t) < 2147483648 \<and>
     cstr_len (tEmail t) < 2147483648 \<and> cstr_len (tMessage t) < 2147483648"

definition stored_tag :: "tag_ref \<Rightarrow> tag_ref" where
  "stored_tag t = t\<lparr>tName := c_str (tName t), tTagger := Some (cstr_bytes (tTagger t)),
     tEmail := Some (cstr_bytes (tEmail t)), tMessage := Some (cstr_bytes (tMessage t))\<rparr>"

lemma get_tag_bytes:
  assumes at: "at_off d p (tag_bytes t @ r)" and ok: "tag_ok t" and cell: "(int i + 1) * sizeof_TagRef \<le> n"
  shows "get_tag d 6 n i p = Inr (stored_tag t, p + length (tag_bytes t))"
proof -
  have h: "PROLLY_HASH_SIZE = length (tCommit t)"
    and l: "strlen (tName t) < 2147483648" "cstr_len (tTagger t) < 2147483648"
      "cstr_len (tEmail t) < 2147483648" "cstr_len (tMessage t) < 2147483648"
    using ok by (simp_all add: tag_ok_def hash_ok_def)
  have a: "at_off d p (put_str (tName t) @ tCommit t @ put_opt (tTagger t) @ put_opt (tEmail t)
     @ put_i64 (tTimestamp t) @ put_opt (tMessage t) @ r)" using at by (simp add: tag_bytes_def)
  note i = at_off_str [OF a l(1)]
  have n: "int (strlen (tName t)) = int (length (c_str (tName t)))" by simp
  note c = at_off_chk [OF i(2) n, of PROLLY_HASH_SIZE]
  note b = at_off_dup [OF i(2) n]
  note c1 = at_off_bytes [OF b(2) h]
  note c2 = at_off_opt [OF c1(2) l(2)]
  note c3 = at_off_opt [OF c2(2) l(3)]
  note c4 = at_off_i64 [OF c3(2)]
  note c5 = at_off_opt [OF c4(2) l(4)]
  have le: "\<not> p + 4 + length (c_str (tName t)) + PROLLY_HASH_SIZE + (4 + cstr_len (tTagger t)) + (4 + cstr_len (tEmail t)) + 8 > length d"
    using at_off_le [OF c4(2)] by linarith
  have v: "(6 :: byte) \<le> 6" by simp
  show ?thesis
    unfolding get_tag_def i(1) bindR_Inr prod.case b(1) c1(1) Let_def if_P [OF v] c2(1) c3(1) c4(1) c5(1)
    using le c cell h by (simp add: write_cell_def stored_tag_def tag_bytes_def)
qed

definition remote_ok :: "remote_ref \<Rightarrow> bool" where
  "remote_ok r \<longleftrightarrow> strlen (rName r) < 2147483648 \<and> strlen (rUrl r) < 2147483648"

definition stored_remote :: "remote_ref \<Rightarrow> remote_ref" where
  "stored_remote r = \<lparr>rName = c_str (rName r), rUrl = c_str (rUrl r)\<rparr>"

lemma get_int_u32:
  "get_int d p = Inr (n, q) \<Longrightarrow> \<exists>v. get_u32 d p = Inr v \<and> sint v = n \<and> q = p + 4"
  by (auto simp: get_int_def res_simps)

lemma get_remote_bytes:
  assumes at: "at_off d p (remote_bytes x @ r)" and ok: "remote_ok x" and cell: "(int i + 1) * sizeof_RemoteRef \<le> n"
  shows "get_remote d n i p = Inr (stored_remote x, p + length (remote_bytes x))"
proof -
  have l: "strlen (rName x) < 2147483648" "strlen (rUrl x) < 2147483648" using ok by (simp_all add: remote_ok_def)
  have a: "at_off d p (put_str (rName x) @ put_str (rUrl x) @ r)" using at by (simp add: remote_bytes_def)
  note i = at_off_str [OF a l(1)]
  have n: "int (strlen (rName x)) = int (length (c_str (rName x)))"
    and n': "int (strlen (rUrl x)) = int (length (c_str (rUrl x)))" by simp_all
  note c = at_off_chk [OF i(2) n, of 4]
  note b = at_off_dup [OF i(2) n]
  note i2 = at_off_str [OF b(2) l(2)]
  obtain v where v: "get_u32 d (p + 4 + length (c_str (rName x))) = Inr v" "sint v = int (strlen (rUrl x))"
    using get_int_u32 [OF i2(1)] by blast
  note c2 = at_off_chk [OF i2(2) n', of 0]
  note b2 = at_off_dup [OF i2(2) n']
  show ?thesis
    unfolding get_remote_def i(1) bindR_Inr prod.case b(1) Let_def v b2(1)
    using c c2 cell by (simp add: write_cell_def stored_remote_def remote_bytes_def)
qed

definition tracking_ok :: "tracking_branch \<Rightarrow> bool" where
  "tracking_ok k \<longleftrightarrow> hash_ok (kCommit k) \<and> strlen (kRemote k) < 2147483648 \<and> strlen (kBranch k) < 2147483648"

definition stored_tracking :: "tracking_branch \<Rightarrow> tracking_branch" where
  "stored_tracking k = k\<lparr>kRemote := c_str (kRemote k), kBranch := c_str (kBranch k)\<rparr>"

lemma get_tracking_bytes:
  assumes at: "at_off d p (tracking_bytes x @ r)" and ok: "tracking_ok x" and cell: "(int i + 1) * sizeof_TrackingBranch \<le> n"
  shows "get_tracking d n i p = Inr (stored_tracking x, p + length (tracking_bytes x))"
proof -
  have h: "PROLLY_HASH_SIZE = length (kCommit x)"
    and l: "strlen (kRemote x) < 2147483648" "strlen (kBranch x) < 2147483648"
    using ok by (simp_all add: tracking_ok_def hash_ok_def)
  have a: "at_off d p (put_str (kRemote x) @ put_str (kBranch x) @ kCommit x @ r)" using at by (simp add: tracking_bytes_def)
  note i = at_off_str [OF a l(1)]
  have n: "int (strlen (kRemote x)) = int (length (c_str (kRemote x)))"
    and n': "int (strlen (kBranch x)) = int (length (c_str (kBranch x)))" by simp_all
  note c = at_off_chk [OF i(2) n, of 4]
  note b = at_off_dup [OF i(2) n]
  note i2 = at_off_str [OF b(2) l(2)]
  obtain v where v: "get_u32 d (p + 4 + length (c_str (kRemote x))) = Inr v" "sint v = int (strlen (kBranch x))"
    using get_int_u32 [OF i2(1)] by blast
  note c2 = at_off_chk [OF i2(2) n', of PROLLY_HASH_SIZE]
  note b2 = at_off_dup [OF i2(2) n']
  note e = at_off_bytes [OF b2(2) h]
  show ?thesis
    unfolding get_tracking_def i(1) bindR_Inr prod.case b(1) Let_def v b2(1) e(1)
    using c c2 cell h by (simp add: write_cell_def stored_tracking_def tracking_bytes_def)
qed

lemma get_many_bytes:
  assumes get: "\<And>x i p r. x \<in> set xs \<Longrightarrow> at_off d p (f x @ r) \<Longrightarrow> (int i + 1) * elt \<le> n \<Longrightarrow>
      get i p = Inr (g x, p + length (f x))"
    and elt: "0 \<le> elt"
  shows "at_off d p (concat (map f xs) @ r) \<Longrightarrow> m = int i + int (length xs) \<Longrightarrow> m * elt \<le> n \<Longrightarrow>
     get_many get m i p = Inr (map g xs, p + length (concat (map f xs))) \<and>
     at_off d (p + length (concat (map f xs))) r"
  using get
proof (induction xs arbitrary: i p)
  case Nil
  then show ?case by (subst get_many.simps) simp
next
  case (Cons x xs)
  have a: "at_off d p (f x @ concat (map f xs) @ r)" using Cons.prems(1) by simp
  have "(int i + 1) * elt \<le> m * elt" using elt Cons.prems(2) by (intro mult_right_mono) simp_all
  then have g: "get i p = Inr (g x, p + length (f x))"
    using Cons.prems(4) [of x p _ i] a Cons.prems(3) by (meson list.set_intros(1) order_trans)
  have "m = int (i + 1) + int (length xs)" using Cons.prems(2) by simp
  note ih = Cons.IH [OF at_off_bytes(2) [OF a refl] this Cons.prems(3,4)]
  have "int i < m" using Cons.prems(2) by simp
  then show ?case using g ih by (subst get_many.simps) (simp add: add.assoc)
qed

lemma get_array_bytes:
  assumes at: "at_off d p (put_u32 (of_nat (length xs)) @ concat (map f xs) @ r)"
    and fit: "int (length xs) * elt < 2147483648" "0 < elt"
    and get: "\<And>x i p r n. x \<in> set xs \<Longrightarrow> at_off d p (f x @ r) \<Longrightarrow> (int i + 1) * elt \<le> n \<Longrightarrow>
      get n i p = Inr (g x, p + length (f x))"
  shows "get_int d p = Inr (int (length xs), p + 4)"
    "get_array get elt (int (length xs)) (p + 4) = Inr (map g xs, p + 4 + length (concat (map f xs)))"
    "at_off d (p + 4 + length (concat (map f xs))) r"
proof -
  have "int (length xs) * 1 \<le> int (length xs) * elt" using fit(2) by (intro mult_left_mono) simp_all
  then have "length xs < 2147483648" using fit(1) by linarith
  note i = at_off_int [OF at this]
  show "get_int d p = Inr (int (length xs), p + 4)" by (rule i(1))
  have m: "get_many (get (int (length xs) * elt)) (int (length xs)) 0 (p + 4) = Inr (map g xs, p + 4 + length (concat (map f xs))) \<and>
      at_off d (p + 4 + length (concat (map f xs))) r"
    using fit(2) by (intro get_many_bytes [where elt = elt and n = "int (length xs) * elt", OF get _ i(2)]) simp_all
  show "at_off d (p + 4 + length (concat (map f xs))) r" using m by simp
  have s: "sint (of_int (int (length xs) * elt) :: u32) = int (length xs) * elt"
    using fit by (intro sint_of_int32) simp_all
  show "get_array get elt (int (length xs)) (p + 4) = Inr (map g xs, p + 4 + length (concat (map f xs)))"
  proof (cases "xs = []")
    case True
    then show ?thesis by (simp add: get_array_def)
  next
    case False
    then have p: "0 < int (length xs) * elt" using fit(2) by simp
    show ?thesis unfolding get_array_def alloc_array_def Let_def s using m p fit(2) False by simp
  qed
qed

section \<open>Round trip\<close>

definition refs_ok :: "'a refs_state_scheme \<Rightarrow> bool" where
  "refs_ok cs \<longleftrightarrow>
     int (strlen (chunkStoreGetDefaultBranch cs)) + 21 \<le> INT_MAX \<and>
     (\<forall>b \<in> set (aBranches cs). hash_ok (bCommit b) \<and> hash_ok (bWorkingSet b)) \<and>
     (\<forall>t \<in> set (aTags cs). hash_ok (tCommit t)) \<and>
     (\<forall>k \<in> set (aTracking cs). hash_ok (kCommit k)) \<and>
     int (length (aBranches cs)) * sizeof_BranchRef < 2147483648 \<and>
     int (length (aTags cs)) * sizeof_TagRef < 2147483648 \<and>
     int (length (aRemotes cs)) * sizeof_RemoteRef < 2147483648 \<and>
     int (length (aTracking cs)) * sizeof_TrackingBranch < 2147483648"

text \<open>What is read back: the strings up to their zero byte, a null tag text as the empty one, a
  null default branch as \<open>main\<close>.\<close>

definition stored_refs :: "'a refs_state_scheme \<Rightarrow> refs_state" where
  "stored_refs cs = \<lparr>aBranches = map stored_branch (aBranches cs),
     zDefaultBranch = Some (c_str (chunkStoreGetDefaultBranch cs)), aTags = map stored_tag (aTags cs),
     aRemotes = map stored_remote (aRemotes cs), aTracking = map stored_tracking (aTracking cs)\<rparr>"

lemma add_sizes_Inr:
  "add_sizes sz incs = Inr sz' \<Longrightarrow> \<forall>i \<in> set incs. 0 \<le> i \<Longrightarrow> sz' = sz + sum_list incs \<and>
     (sz \<le> INT_MAX \<longrightarrow> sz' \<le> INT_MAX)"
  by (induction sz incs rule: add_sizes.induct) (auto split: if_splits)

lemma add_sizes_member:
  assumes "add_sizes sz incs = Inr sz'" "\<forall>i \<in> set incs. 0 \<le> i" "0 \<le> sz" "sz \<le> INT_MAX" "i \<in> set incs"
  shows "i \<le> INT_MAX"
proof -
  have "i \<le> sum_list incs" using assms(2,5) by (induction incs) (auto simp: sum_list_nonneg intro: add_increasing)
  then show ?thesis using add_sizes_Inr [OF assms(1,2)] assms(3,4) by simp
qed

lemma serialize_refs_shape:
  assumes s: "csSerializeRefsBlob cs = Inr (d, sz)" and ok: "refs_ok cs"
  shows "d = [6] @ put_str (chunkStoreGetDefaultBranch cs)
        @ put_u32 (of_nat (length (aBranches cs))) @ concat (map branch_bytes (aBranches cs))
        @ put_u32 (of_nat (length (aTags cs))) @ concat (map tag_bytes (aTags cs))
        @ put_u32 (of_nat (length (aRemotes cs))) @ concat (map remote_bytes (aRemotes cs))
        @ put_u32 (of_nat (length (aTracking cs))) @ concat (map tracking_bytes (aTracking cs)) @ []"
    "sz = int (length d)" "sz \<le> INT_MAX"
    "\<forall>b \<in> set (aBranches cs). branch_ok b" "\<forall>t \<in> set (aTags cs). tag_ok t"
    "\<forall>r \<in> set (aRemotes cs). remote_ok r" "\<forall>k \<in> set (aTracking cs). tracking_ok k"
proof -
  let ?def = "chunkStoreGetDefaultBranch cs" and ?s0 = "int (strlen (chunkStoreGetDefaultBranch cs)) + 21"
  have s': "bindR (add_sizes ?s0 (map branch_inc (aBranches cs))) (\<lambda>sz.
      bindR (add_sizes sz (map tag_inc (aTags cs))) (\<lambda>sz.
      bindR (add_sizes sz (map remote_inc (aRemotes cs))) (\<lambda>sz.
      bindR (add_sizes sz (map tracking_inc (aTracking cs))) (\<lambda>sz.
      Inr ([6] @ put_str ?def
        @ put_u32 (of_nat (length (aBranches cs))) @ concat (map branch_bytes (aBranches cs))
        @ put_u32 (of_nat (length (aTags cs))) @ concat (map tag_bytes (aTags cs))
        @ put_u32 (of_nat (length (aRemotes cs))) @ concat (map remote_bytes (aRemotes cs))
        @ put_u32 (of_nat (length (aTracking cs))) @ concat (map tracking_bytes (aTracking cs)) @ [], sz))))) = Inr (d, sz)"
    using s by (simp add: csSerializeRefsBlob_def chunkStoreGetDefaultBranch_def Let_def ac_simps)
  obtain s1 s2 s3 where a: "add_sizes ?s0 (map branch_inc (aBranches cs)) = Inr s1"
    "add_sizes s1 (map tag_inc (aTags cs)) = Inr s2" "add_sizes s2 (map remote_inc (aRemotes cs)) = Inr s3"
    "add_sizes s3 (map tracking_inc (aTracking cs)) = Inr sz"
    and d: "d = [6] @ put_str ?def
        @ put_u32 (of_nat (length (aBranches cs))) @ concat (map branch_bytes (aBranches cs))
        @ put_u32 (of_nat (length (aTags cs))) @ concat (map tag_bytes (aTags cs))
        @ put_u32 (of_nat (length (aRemotes cs))) @ concat (map remote_bytes (aRemotes cs))
        @ put_u32 (of_nat (length (aTracking cs))) @ concat (map tracking_bytes (aTracking cs)) @ []"
    using s' by (auto simp only: bindR_eq_Inr sum.inject prod.inject)
  show "d = [6] @ put_str ?def
        @ put_u32 (of_nat (length (aBranches cs))) @ concat (map branch_bytes (aBranches cs))
        @ put_u32 (of_nat (length (aTags cs))) @ concat (map tag_bytes (aTags cs))
        @ put_u32 (of_nat (length (aRemotes cs))) @ concat (map remote_bytes (aRemotes cs))
        @ put_u32 (of_nat (length (aTracking cs))) @ concat (map tracking_bytes (aTracking cs)) @ []" by (rule d)
  have nn: "\<forall>i \<in> set (map branch_inc bs). 0 \<le> i" "\<forall>i \<in> set (map tag_inc ts). 0 \<le> i"
    "\<forall>i \<in> set (map remote_inc rs). 0 \<le> i" "\<forall>i \<in> set (map tracking_inc ks). 0 \<le> i" for bs ts rs ks
    by (auto simp: branch_inc_def tag_inc_def remote_inc_def tracking_inc_def)
  note z1 = add_sizes_Inr [OF a(1) nn(1)] and z2 = add_sizes_Inr [OF a(2) nn(2)]
    and z3 = add_sizes_Inr [OF a(3) nn(3)] and z4 = add_sizes_Inr [OF a(4) nn(4)]
  have ge: "0 \<le> sum_list (map branch_inc (aBranches cs))" "0 \<le> sum_list (map tag_inc (aTags cs))"
    "0 \<le> sum_list (map remote_inc (aRemotes cs))"
    using nn(1) [of "aBranches cs"] nn(2) [of "aTags cs"] nn(3) [of "aRemotes cs"]
    by (blast intro: sum_list_nonneg)+
  have b: "?s0 \<le> INT_MAX" "0 \<le> ?s0" using ok by (simp_all add: refs_ok_def)
  have b1: "s1 \<le> INT_MAX" "0 \<le> s1" using z1 b ge by auto
  have b2: "s2 \<le> INT_MAX" "0 \<le> s2" using z2 b1 ge by auto
  have b3: "s3 \<le> INT_MAX" "0 \<le> s3" using z3 b2 ge by auto
  show "sz \<le> INT_MAX" using z4 b3 by auto
  have m: "\<And>b. b \<in> set (aBranches cs) \<Longrightarrow> branch_inc b \<le> INT_MAX" "\<And>t. t \<in> set (aTags cs) \<Longrightarrow> tag_inc t \<le> INT_MAX"
    "\<And>r. r \<in> set (aRemotes cs) \<Longrightarrow> remote_inc r \<le> INT_MAX" "\<And>k. k \<in> set (aTracking cs) \<Longrightarrow> tracking_inc k \<le> INT_MAX"
    using add_sizes_member [OF a(1) nn(1) b(2,1)] add_sizes_member [OF a(2) nn(2) b1(2,1)]
      add_sizes_member [OF a(3) nn(3) b2(2,1)] add_sizes_member [OF a(4) nn(4) b3(2,1)] by auto
  show B: "\<forall>b \<in> set (aBranches cs). branch_ok b" and T: "\<forall>t \<in> set (aTags cs). tag_ok t"
    and R: "\<forall>r \<in> set (aRemotes cs). remote_ok r" and K: "\<forall>k \<in> set (aTracking cs). tracking_ok k"
    using m ok by (force simp: branch_ok_def tag_ok_def remote_ok_def tracking_ok_def refs_ok_def branch_inc_def
        tag_inc_def remote_inc_def tracking_inc_def INT_MAX_def)+
  have len: "\<And>xs. \<forall>b \<in> set xs. branch_ok b \<Longrightarrow> int (length (concat (map branch_bytes xs))) = sum_list (map branch_inc xs)"
    "\<And>xs. \<forall>b \<in> set xs. tag_ok b \<Longrightarrow> int (length (concat (map tag_bytes xs))) = sum_list (map tag_inc xs)"
    "\<And>xs. \<forall>b \<in> set xs. remote_ok b \<Longrightarrow> int (length (concat (map remote_bytes xs))) = sum_list (map remote_inc xs)"
    "\<And>xs. \<forall>b \<in> set xs. tracking_ok b \<Longrightarrow> int (length (concat (map tracking_bytes xs))) = sum_list (map tracking_inc xs)"
    subgoal for xs by (induction xs) (auto simp: branch_bytes_def branch_inc_def branch_ok_def hash_ok_def)
    subgoal for xs by (induction xs) (auto simp: tag_bytes_def tag_inc_def tag_ok_def hash_ok_def)
    subgoal for xs by (induction xs) (auto simp: remote_bytes_def remote_inc_def)
    subgoal for xs by (induction xs) (auto simp: tracking_bytes_def tracking_inc_def tracking_ok_def hash_ok_def)
    done
  show "sz = int (length d)"
    unfolding d using z1 z2 z3 z4 len(1) [OF B] len(2) [OF T] len(3) [OF R] len(4) [OF K] by simp
qed

lemma deserialize_bytes:
  assumes ok: "refs_ok cs"
    and d: "d = [6] @ put_str (chunkStoreGetDefaultBranch cs)
        @ put_u32 (of_nat (length (aBranches cs))) @ concat (map branch_bytes (aBranches cs))
        @ put_u32 (of_nat (length (aTags cs))) @ concat (map tag_bytes (aTags cs))
        @ put_u32 (of_nat (length (aRemotes cs))) @ concat (map remote_bytes (aRemotes cs))
        @ put_u32 (of_nat (length (aTracking cs))) @ concat (map tracking_bytes (aTracking cs)) @ []"
    and el: "\<forall>b \<in> set (aBranches cs). branch_ok b" "\<forall>t \<in> set (aTags cs). tag_ok t"
    "\<forall>r \<in> set (aRemotes cs). remote_ok r" "\<forall>k \<in> set (aTracking cs). tracking_ok k"
  shows "csDeserializeRefs c d = Inr (csAdoptRefsState c (stored_refs cs))"
proof -
  let ?def = "chunkStoreGetDefaultBranch cs"
  have fit: "int (length (aBranches cs)) * sizeof_BranchRef < 2147483648"
     "int (length (aTags cs)) * sizeof_TagRef < 2147483648"
     "int (length (aRemotes cs)) * sizeof_RemoteRef < 2147483648"
     "int (length (aTracking cs)) * sizeof_TrackingBranch < 2147483648"
    and ld: "strlen ?def < 2147483648" using ok by (simp_all add: refs_ok_def INT_MAX_def)
  have pos: "0 < sizeof_BranchRef" "0 < sizeof_TagRef" "0 < sizeof_RemoteRef" "0 < sizeof_TrackingBranch"
    by (simp_all add: sizeof_BranchRef_def sizeof_TagRef_def sizeof_RemoteRef_def sizeof_TrackingBranch_def)
  note v = at_off_byte [OF at_off_self [of d, unfolded d, unfolded append_Cons append_Nil],
      folded append_Nil append_Cons, folded d]
  have a: "at_off d 1 (put_str ?def @ put_u32 (of_nat (length (aBranches cs))) @ concat (map branch_bytes (aBranches cs))
        @ put_u32 (of_nat (length (aTags cs))) @ concat (map tag_bytes (aTags cs))
        @ put_u32 (of_nat (length (aRemotes cs))) @ concat (map remote_bytes (aRemotes cs))
        @ put_u32 (of_nat (length (aTracking cs))) @ concat (map tracking_bytes (aTracking cs)) @ [])"
    by (simp add: at_off_def d)
  note i = at_off_str [OF a ld]
  have n: "int (strlen ?def) = int (length (c_str ?def))" by simp
  note b = at_off_dup [OF i(2) n]
  note B = get_array_bytes [where get = "get_branch d" and g = stored_branch, OF b(2) fit(1) pos(1) get_branch_bytes [OF _ el(1) [THEN bspec]]]
  note T = get_array_bytes [where get = "get_tag d 6" and g = stored_tag, OF B(3) fit(2) pos(2) get_tag_bytes [OF _ el(2) [THEN bspec]]]
  note R = get_array_bytes [where get = "get_remote d" and g = stored_remote, OF T(3) fit(3) pos(3) get_remote_bytes [OF _ el(3) [THEN bspec]]]
  note K = get_array_bytes [where get = "get_tracking d" and g = stored_tracking, OF R(3) fit(4) pos(4) get_tracking_bytes [OF _ el(4) [THEN bspec]]]
  have l: "\<not> length d < 5" by (simp add: d)
  have v0: "read_byte d 0 = Inr 6" by (simp add: d)
  have le: "q + 4 \<le> length d" if "get_int d q = Inr x" for q x
    using that by (auto simp: get_int_def res_simps)
  note g = eqTrueI [OF l] eqTrueI [OF refl] guardR_simps
  have "csDeserializeRefs c d = Inr ((csFreeTracking (csFreeRemotes
      ((csFreeTags ((csFreeBranches (c\<lparr>zDefaultBranch := Some (c_str ?def)\<rparr>))
        \<lparr>aBranches := map stored_branch (aBranches cs)\<rparr>))\<lparr>aTags := map stored_tag (aTags cs)\<rparr>)))
        \<lparr>aRemotes := map stored_remote (aRemotes cs)\<rparr>\<lparr>aTracking := map stored_tracking (aTracking cs)\<rparr>)"
    by (simp only: csDeserializeRefs_def g v0 i(1) bindR_Inr prod.case at_off_chk [OF i(2) n, of 0, OF le0] b(1) Let_def
      B(1) B(2) T(1) T(2) R(1) R(2) K(1) K(2) if_P [OF le [OF T(1)]] if_P [OF le [OF R(1)]] if_P [OF le [OF K(1)]])
  then show ?thesis
    by (simp add: csFreeBranches_def csFreeTags_def csFreeRemotes_def csFreeTracking_def csAdoptRefsState_def stored_refs_def)
qed

text \<open>
  C35. The references survive their blob: whatever \<open>csSerializeRefsBlob\<close> writes has the size it
  computed, and parsing it restores the default branch, branches with their working sets, tags
  with their texts and times, remotes and tracking branches, in order.
\<close>

theorem refs_blob_roundtrip:
  assumes "refs_ok cs" "csSerializeRefsBlob cs = Inr (d, sz)"
  shows "sz = int (length d) \<and> csDeserializeRefs c d = Inr (csAdoptRefsState c (stored_refs cs))"
  using deserialize_bytes [OF assms(1) serialize_refs_shape(1,4,5,6,7) [OF assms(2,1)]]
    serialize_refs_shape(2) [OF assms(2,1)] by blast

definition sample_refs :: refs_state where
  "sample_refs = refs0\<lparr>aBranches := [\<lparr>bName = [109], bCommit = replicate 20 1, bWorkingSet = replicate 20 2\<rparr>,
        \<lparr>bName = [], bCommit = replicate 20 3, bWorkingSet = hash0\<rparr>],
     aTags := [\<lparr>tName = [118, 49], tCommit = replicate 20 4, tTagger = Some [97], tEmail = None, tTimestamp = 7,
        tMessage = Some [104, 0, 105]\<rparr>],
     aTracking := [\<lparr>kRemote = [111], kBranch = [109], kCommit = replicate 20 1\<rparr>]\<rparr>"

lemma refs_blob_roundtrip_witness:
  "\<exists>d sz. csSerializeRefsBlob sample_refs = Inr (d, sz) \<and> sz = int (length d) \<and>
     csDeserializeRefs refs0 d = Inr (csAdoptRefsState refs0 (stored_refs sample_refs)) \<and>
     map tMessage (aTags (stored_refs sample_refs)) = [Some [104]]"
proof -
  have ok: "refs_ok sample_refs"
    by (simp add: refs_ok_def sample_refs_def refs0_def chunkStoreGetDefaultBranch_def main_name_def strlen_def
        INT_MAX_def hash_ok_def hash0_def PROLLY_HASH_SIZE_def sizeof_BranchRef_def sizeof_TagRef_def
        sizeof_RemoteRef_def sizeof_TrackingBranch_def)
  have m: "map tMessage (aTags (stored_refs sample_refs)) = [Some [104]]" by code_simp
  have c: "(case csSerializeRefsBlob sample_refs of Inr x \<Rightarrow> True | Inl e \<Rightarrow> False)" by code_simp
  obtain x where x: "csSerializeRefsBlob sample_refs = Inr x"
    using c by (cases "csSerializeRefsBlob sample_refs") (simp_all only: sum.case)
  have s: "csSerializeRefsBlob sample_refs = Inr (fst x, snd x)" using x by simp
  note r = refs_blob_roundtrip [OF ok s, of refs0, THEN conjunct1] refs_blob_roundtrip [OF ok s, of refs0, THEN conjunct2]
  show ?thesis by (rule exI [of _ "fst x"], rule exI [of _ "snd x"]) (intro conjI s r m)
qed

section \<open>Bounds of the reader\<close>

lemma fails_only_int [simp]: "SQLITE_CORRUPT \<in> E \<Longrightarrow> fails_only E (get_int d p)"
  by (auto simp: get_int_def res_simps intro!: fails_only_bind)

lemma get_int_pos: "get_int d p = Inr (n, q) \<Longrightarrow> q = p + 4 \<and> q \<le> length d \<and> (\<exists>v. get_u32 d p = Inr v \<and> n = sint v)"
  by (auto simp: get_int_def res_simps)

lemma fails_only_chk [simp]: "SQLITE_CORRUPT \<in> E \<Longrightarrow> fails_only E (chk_len d p n extra)"
  by (simp add: chk_len_def)

lemma chk_len_le: "chk_len d p n extra = Inr u \<Longrightarrow> int p + n + int extra \<le> int (length d)"
  by (simp add: chk_len_def res_simps)

lemma fails_only_dup:
  assumes "SQLITE_NOMEM \<in> E" "int p + n + int extra \<le> int (length d)"
  shows "fails_only E (dup_str d p n)"
  using assms by (auto simp: dup_str_def res_simps intro!: fails_only_bind)

lemma dup_str_pos:
  "dup_str d p n = Inr (s, q) \<Longrightarrow> int p + n + int extra \<le> int (length d) \<Longrightarrow> q + extra \<le> length d"
  by (auto simp: dup_str_def res_simps)

abbreviation reader_codes :: "rc set" where "reader_codes \<equiv> {SQLITE_CORRUPT, SQLITE_NOMEM}"

lemma reader_codes_mem: "SQLITE_CORRUPT \<in> reader_codes" "SQLITE_NOMEM \<in> reader_codes"
  by simp_all

lemma fails_only_cell [simp]: "(int i + 1) * elt \<le> n \<Longrightarrow> fails_only E (write_cell n elt i)"
  by (simp add: write_cell_def)

lemma get_branch_fails:
  assumes "(int i + 1) * sizeof_BranchRef \<le> n"
  shows "fails_only reader_codes (get_branch d n i p)"
  unfolding get_branch_def Let_def
  using assms by (auto intro!: fails_only_bind fails_only_if fails_only_dup fails_only_read_bytes
      dest!: chk_len_le get_int_pos dup_str_pos)

lemma get_opt_fails: "fails_only reader_codes (get_opt d p)"
  unfolding get_opt_def by (auto intro!: fails_only_bind fails_only_dup dest!: chk_len_le)

lemma get_tag_fails:
  assumes "(int i + 1) * sizeof_TagRef \<le> n"
  shows "fails_only reader_codes (get_tag d version n i p)"
  unfolding get_tag_def Let_def
  using assms by (auto intro!: fails_only_bind fails_only_if fails_only_dup fails_only_read_bytes get_opt_fails
      dest!: chk_len_le dup_str_pos simp: res_simps)

lemma get_remote_fails:
  assumes "(int i + 1) * sizeof_RemoteRef \<le> n"
  shows "fails_only reader_codes (get_remote d n i p)"
  unfolding get_remote_def Let_def
  using assms by (auto intro!: fails_only_bind fails_only_dup dest!: chk_len_le dup_str_pos)

lemma get_tracking_fails:
  assumes "(int i + 1) * sizeof_TrackingBranch \<le> n"
  shows "fails_only reader_codes (get_tracking d n i p)"
  unfolding get_tracking_def Let_def
  using assms by (auto intro!: fails_only_bind fails_only_dup fails_only_read_bytes dest!: chk_len_le dup_str_pos)

lemma get_many_fails:
  assumes "\<And>i p. (int i + 1) * elt \<le> b \<Longrightarrow> fails_only E (get i p)" "0 \<le> elt" "n * elt \<le> b"
  shows "fails_only E (get_many get n i p)"
  using assms(1,3)
proof (induction get n i p rule: get_many.induct)
  case (1 get n i p)
  show ?case
  proof (cases "int i < n")
    case True
    then have "(int i + 1) * elt \<le> n * elt" using assms(2) by (intro mult_right_mono) simp_all
    then have g: "fails_only E (get i q)" for q using 1(2) [of i q] 1(3) by linarith
    have r: "fails_only E (get_many get n (Suc i) q)" if "get i p = Inr (x, q)" for x q
      using 1(1) [OF True that refl 1(2,3)] by simp
    show ?thesis
      by (subst get_many.simps) (auto simp: True intro!: fails_only_bind g r)
  qed (subst get_many.simps, simp)
qed

text \<open>
  The counts that the reader reads, each with the size of its struct: \<open>array_stage\<close> reads a count
  and its array and gives the position after it, \<open>run_stages\<close> goes through the arrays as long as
  four bytes are left and every array is parsed.
\<close>

definition array_stage :: "(int \<Rightarrow> nat \<Rightarrow> nat \<Rightarrow> ('r \<times> nat) res) \<Rightarrow> int \<Rightarrow> byte list \<Rightarrow> nat \<Rightarrow> (int \<times> int) list \<times> nat option" where
  "array_stage get elt d p =
     (case get_int d p of
        Inl e \<Rightarrow> ([], None)
      | Inr (n, q) \<Rightarrow> ([(n, elt)], case get_array get elt n q of Inl e \<Rightarrow> None | Inr (xs, r) \<Rightarrow> Some r))"

primrec run_stages :: "(nat \<Rightarrow> (int \<times> int) list \<times> nat option) list \<Rightarrow> byte list \<Rightarrow> nat \<Rightarrow> (int \<times> int) list" where
  "run_stages [] d p = []"
| "run_stages (st # sts) d p =
     (if p + 4 \<le> length d then
        fst (st p) @ (case snd (st p) of None \<Rightarrow> [] | Some q \<Rightarrow> run_stages sts d q)
      else [])"

definition ref_counts :: "byte list \<Rightarrow> (int \<times> int) list" where
  "ref_counts d =
     (case bindR (get_int d 1) (\<lambda>(n, p). bindR (chk_len d p n 0) (\<lambda>_. dup_str d p n)) of
        Inl e \<Rightarrow> []
      | Inr (def, p) \<Rightarrow>
          run_stages [array_stage (get_branch d) sizeof_BranchRef d, array_stage (get_tag d 6) sizeof_TagRef d,
            array_stage (get_remote d) sizeof_RemoteRef d, array_stage (get_tracking d) sizeof_TrackingBranch d] d p)"

text \<open>The codes of the reader when these are its counts.\<close>

definition big_count :: "(int \<times> int) list \<Rightarrow> bool" where
  "big_count cs \<longleftrightarrow> (\<exists>(n, elt) \<in> set cs. 2 ^ 31 \<le> n * elt)"

definition codes_for :: "(int \<times> int) list \<Rightarrow> rc set" where
  "codes_for cs = reader_codes \<union> (if big_count cs then {OUT_OF_BOUNDS} else {})"

lemma codes_for_append: "codes_for xs \<subseteq> codes_for (xs @ ys)" "codes_for ys \<subseteq> codes_for (xs @ ys)"
  by (auto simp: codes_for_def big_count_def)

lemma codes_for_mem [simp]: "SQLITE_CORRUPT \<in> codes_for cs" "SQLITE_NOMEM \<in> codes_for cs"
  by (simp_all add: codes_for_def)

lemma fails_only_subset: "fails_only E m \<Longrightarrow> E \<subseteq> F \<Longrightarrow> fails_only F m"
  by (auto simp: fails_only_def)

lemma alloc_array_Inr: "alloc_array n elt = Inr b \<Longrightarrow> 0 < n \<Longrightarrow> 0 < elt \<Longrightarrow> n * elt < 2 ^ 31 \<Longrightarrow> b = n * elt"
  using sint_of_int32 [of "n * elt"] by (auto simp: alloc_array_def Let_def res_simps)

text \<open>The cells of an array of fewer than \<open>2 ^ 31\<close> bytes are inside it; otherwise its count is big.\<close>

lemma get_array_fails:
  assumes g: "\<And>i p m. (int i + 1) * elt \<le> m \<Longrightarrow> fails_only reader_codes (get m i p)"
    and other: "\<And>i p m. fails_only (insert OUT_OF_BOUNDS reader_codes) (get m i p)" and elt: "0 < elt"
  shows "fails_only (codes_for [(n, elt)]) (get_array get elt n p)"
proof (cases "0 < n")
  case True
  show ?thesis
  proof (cases "n * elt < 2 ^ 31")
    case small: True
    have "fails_only (codes_for [(n, elt)]) (get_many (get b) n 0 p)" if "alloc_array n elt = Inr b" for b
      using alloc_array_Inr [OF that True elt small] elt g
      by (intro fails_only_subset [OF get_many_fails [where elt = elt and b = b and E = reader_codes]])
        (auto simp: codes_for_def)
    then show ?thesis
      using True by (auto simp: get_array_def alloc_array_def Let_def intro!: fails_only_bind)
  next
    case False
    then have e: "codes_for [(n, elt)] = insert OUT_OF_BOUNDS reader_codes"
      by (auto simp: codes_for_def big_count_def)
    have "fails_only (insert OUT_OF_BOUNDS reader_codes) (get_many (get b) n 0 p)" for b
      using other by (intro get_many_fails [where elt = 0 and b = 0]) auto
    then show ?thesis
      unfolding e using True by (auto simp: get_array_def alloc_array_def Let_def intro!: fails_only_bind)
  qed
qed (simp add: get_array_def)

lemma cell_cases: "fails_only (insert OUT_OF_BOUNDS E) (write_cell b elt i)"
  by (simp add: write_cell_def)

lemma read_other:
  "fails_only (insert OUT_OF_BOUNDS reader_codes) (get_branch d m i p)"
  "fails_only (insert OUT_OF_BOUNDS reader_codes) (get_tag d version m i p)"
  "fails_only (insert OUT_OF_BOUNDS reader_codes) (get_remote d m i p)"
  "fails_only (insert OUT_OF_BOUNDS reader_codes) (get_tracking d m i p)"
  unfolding get_branch_def get_tag_def get_remote_def get_tracking_def Let_def
  by (auto intro!: fails_only_bind fails_only_if fails_only_dup fails_only_read_bytes cell_cases
      fails_only_subset [OF get_opt_fails] dest!: chk_len_le get_int_pos dup_str_pos simp: res_simps)

text \<open>One array of the reader, with what follows it.\<close>

lemma stage_fails:
  assumes "\<And>i p m. (int i + 1) * elt \<le> m \<Longrightarrow> fails_only reader_codes (get m i p)"
    and "\<And>i p m. fails_only (insert OUT_OF_BOUNDS reader_codes) (get m i p)" and "0 < elt"
    and k: "\<And>xs q. fails_only (codes_for (run_stages sts d q)) (k xs q)" and p: "p + 4 \<le> length d"
  shows "fails_only (codes_for (run_stages (array_stage get elt d # sts) d p))
     (bindR (get_int d p) (\<lambda>(n, p). bindR (get_array get elt n p) (\<lambda>(xs, p). k xs p)))"
proof (cases "get_int d p")
  case (Inl e)
  have "fails_only reader_codes (get_int d p)" by (intro fails_only_int) simp
  then show ?thesis using Inl by (auto simp: codes_for_def)
next
  case (Inr nq)
  obtain n q where nq: "nq = (n, q)" by fastforce
  have a: "fails_only (codes_for [(n, elt)]) (get_array get elt n q)" by (rule get_array_fails [OF assms(1,2,3)])
  show ?thesis
  proof (cases "get_array get elt n q")
    case Inl': (Inl e)
    then have "run_stages (array_stage get elt d # sts) d p = [(n, elt)]" using Inr nq p by (simp add: array_stage_def)
    then show ?thesis using a Inl' Inr nq by (simp del: run_stages.simps)
  next
    case Inr': (Inr xr)
    obtain xs r where xr: "xr = (xs, r)" by fastforce
    have "run_stages (array_stage get elt d # sts) d p = [(n, elt)] @ run_stages sts d r"
      using Inr Inr' nq xr p by (simp add: array_stage_def)
    then show ?thesis
      using fails_only_subset [OF k [of r xs] codes_for_append(2)] Inr Inr' nq xr by (simp del: run_stages.simps append_Cons)
  qed
qed

lemma sizeof_pos: "0 < sizeof_BranchRef" "0 < sizeof_TagRef" "0 < sizeof_RemoteRef" "0 < sizeof_TrackingBranch"
  by (simp_all add: sizeof_BranchRef_def sizeof_TagRef_def sizeof_RemoteRef_def sizeof_TrackingBranch_def)

text \<open>The last two arrays, and all that follows the branches.\<close>

lemma tracking_fails:
  "fails_only (codes_for (run_stages [array_stage (get_tracking d) sizeof_TrackingBranch d] d p))
     (if p + 4 \<le> length d
      then bindR (get_int d p) (\<lambda>(n, p). bindR (get_array (get_tracking d) sizeof_TrackingBranch n p) (\<lambda>(xs, p). Inr (f xs)))
      else Inr y)"
proof (cases "p + 4 \<le> length d")
  case True
  show ?thesis
    unfolding if_P [OF True]
    by (rule stage_fails [OF _ _ _ _ True]) (erule get_tracking_fails, rule read_other, rule sizeof_pos, rule fails_only_Inr)
qed simp

lemma remote_fails:
  "fails_only (codes_for (run_stages [array_stage (get_remote d) sizeof_RemoteRef d,
       array_stage (get_tracking d) sizeof_TrackingBranch d] d p))
     (if p + 4 \<le> length d
      then bindR (get_int d p) (\<lambda>(n, p). bindR (get_array (get_remote d) sizeof_RemoteRef n p) (\<lambda>(rs, p).
        if p + 4 \<le> length d
        then bindR (get_int d p) (\<lambda>(n, p). bindR (get_array (get_tracking d) sizeof_TrackingBranch n p) (\<lambda>(xs, p). Inr (f rs xs)))
        else Inr (g rs)))
      else Inr y)"
proof (cases "p + 4 \<le> length d")
  case True
  show ?thesis
    unfolding if_P [OF True]
    by (rule stage_fails [OF _ _ _ _ True])
      (erule get_remote_fails, rule read_other, rule sizeof_pos, rule tracking_fails)
qed simp

lemma bindR_assoc_pair: "bindR (bindR m (\<lambda>(a, b). f a b)) g = bindR m (\<lambda>(a, b). bindR (f a b) g)"
  by (cases m) auto

lemma deserialize_fails: "fails_only (codes_for (ref_counts d)) (csDeserializeRefs cs d)"
proof (cases "length d < 5 \<or> d ! 0 \<noteq> 6")
  case True
  have "read_byte d 0 = Inr (d ! 0)" if "\<not> length d < 5" using that by (intro read_byte_ok) linarith
  then show ?thesis using True by (cases "length d < 5") (simp_all add: csDeserializeRefs_def)
next
  case False
  then have v: "\<not> length d < 5" "d ! 0 = 6" by simp_all
  then have "read_byte d 0 = Inr (d ! 0)" by (intro read_byte_ok) linarith
  with v have v: "read_byte d 0 = Inr 6" "\<not> length d < 5" by simp_all
  show ?thesis
  proof (cases "bindR (get_int d 1) (\<lambda>(n, p). bindR (chk_len d p n 0) (\<lambda>_. dup_str d p n))")
    case (Inl e)
    have "fails_only reader_codes (bindR (get_int d 1) (\<lambda>(n, p). bindR (chk_len d p n 0) (\<lambda>_. dup_str d p n)))"
      by (auto intro!: fails_only_bind fails_only_dup dest!: chk_len_le)
    then have e: "e \<in> reader_codes" using Inl by simp
    have "csDeserializeRefs cs d = Inl e"
      using v Inl by (auto simp: csDeserializeRefs_def bindR_def split: sum.splits)
    then show ?thesis using e by (auto simp: codes_for_def)
  next
    case (Inr dp)
    obtain df p where dp: "dp = (df, p)" by fastforce
    then obtain n q where pre: "get_int d 1 = Inr (n, q)" "chk_len d q n 0 = Inr ()" "dup_str d q n = Inr (df, p)"
      using Inr by (auto simp: res_simps)
    note c = ref_counts_def [of d, unfolded Inr dp sum.case prod.case]
    show ?thesis
    proof (cases "p + 4 \<le> length d")
      case p: True
      show ?thesis
        unfolding c csDeserializeRefs_def v pre bindR_Inr prod.case Let_def
        apply (simp only: v guardR_simps if_True if_False bindR_Inr simp_thms)
        apply (rule stage_fails [OF _ _ _ _ p])
           apply (erule get_branch_fails, rule read_other, rule sizeof_pos)
        subgoal for xs q
          apply (cases "q + 4 \<le> length d")
           apply (simp only: if_True bindR_assoc_pair bindR_Inr prod.case)
           apply (rule stage_fails, erule get_tag_fails, rule read_other, rule sizeof_pos, rule remote_fails, assumption)
          apply simp
          done
        done
    next
      case False
      then show ?thesis
        unfolding csDeserializeRefs_def v pre bindR_Inr prod.case Let_def
        by (auto simp: get_int_def intro!: fails_only_bind)
    qed
  qed
qed

text \<open>
  C36. The bounds of the reader: on any bytes, \<open>csDeserializeRefs\<close> either parses them, reports
  corruption or an impossible allocation, or writes outside an array (\<open>OUT_OF_BOUNDS\<close>); the last
  only where one of the counts that it reads, of branches, tags, remotes or tracking branches, times the
  size of the struct is at least 2 to the 31st and so exceeds an \<open>int\<close>.
\<close>

theorem csDeserializeRefs_bounds:
  assumes "csDeserializeRefs cs d = Inl e"
  shows "e \<in> {SQLITE_CORRUPT, SQLITE_NOMEM} \<or> e = OUT_OF_BOUNDS \<and> (\<exists>(n, size) \<in> set (ref_counts d). 2 ^ 31 \<le> n * size)"
proof -
  have "e \<in> codes_for (ref_counts d)" using deserialize_fails [of d cs] assms by (simp add: fails_only_def)
  then show ?thesis by (auto simp: codes_for_def big_count_def split: if_splits)
qed

text \<open>A blob whose default branch is \<open>main\<close>, cut inside its first branch: it has no big count.\<close>

definition cut_blob :: "byte list" where
  "cut_blob = [6, 4, 0, 0, 0, 109, 97, 105, 110, 1, 0, 0, 0, 4, 0, 0, 0, 109]"

lemma csDeserializeRefs_bounds_witness:
  "csDeserializeRefs refs0 cut_blob = Inl SQLITE_CORRUPT \<and> ref_counts cut_blob = [(1, 48)]
     \<and> SQLITE_CORRUPT \<in> {SQLITE_CORRUPT, SQLITE_NOMEM}"
proof -
  have r: "csDeserializeRefs refs0 cut_blob = Inl SQLITE_CORRUPT" "ref_counts cut_blob = [(1, 48)]" by code_simp+
  from csDeserializeRefs_bounds [OF r(1)] r show ?thesis by simp
qed

text \<open>
  A forged count overflows the allocation: with 89478486 branches the product with the size
  of a branch is 32 bytes, and the first branch is written past them.
\<close>

theorem refs_count_overflow:
  "csDeserializeRefs cs ([6, 0, 0, 0, 0, 0x56, 0x55, 0x55, 0x05] @ replicate 24 0) = Inl OUT_OF_BOUNDS"
proof -
  let ?d = "[6, 0, 0, 0, 0, 0x56, 0x55, 0x55, 0x05] @ replicate 24 0 :: byte list"
  have s: "get_int ?d 1 = Inr (0, 5)" "chk_len ?d 5 0 0 = Inr ()" "dup_str ?d 5 0 = Inr ([], 5)"
    "get_int ?d 5 = Inr (89478486, 9)" "read_byte ?d 0 = Inr 6" "\<not> length ?d < 5"
    "alloc_array 89478486 sizeof_BranchRef = Inr 32" "get_branch ?d 32 0 9 = Inl OUT_OF_BOUNDS"
    by code_simp+
  have "get_many (get_branch ?d 32) 89478486 0 9 = Inl OUT_OF_BOUNDS"
    by (subst get_many.simps) (simp only: s(8) bindR_Inl, simp)
  then have "get_array (get_branch ?d) sizeof_BranchRef 89478486 9 = Inl OUT_OF_BOUNDS"
    by (simp add: get_array_def s(7))
  with s show ?thesis
    by (simp only: csDeserializeRefs_def bindR_Inr bindR_Inl prod.case Let_def guardR_simps simp_thms)
qed

end
