(* ===== verification/ChunkStore.thy ===== *)
theory ChunkStore
  imports RefsBlob
begin

text \<open>
  The chunk store in memory (\<open>chunk_store.c\<close>): the sorted index of committed chunks, the
  pending chunks with their chained hash table, the write buffer, and the operations that look a
  chunk up, add one, and commit or roll back a store without a file.  The committed chunks of a
  store with a file are read from the file, which is an argument.

  The pending array is the list of its \<open>nPending\<close> elements and the write buffer the list of
  its \<open>nWriteBuf\<close> bytes; their capacities are numbers, and writing past a capacity is
  \<open>OUT_OF_BOUNDS\<close>.  A null table is the empty list.  The hash function is a parameter.
\<close>

section \<open>State\<close>

record chunk_entry =
  eHash :: hash
  eOffset :: int
  eSize :: int

record chunk_store = refs_state +
  pFile :: bool
  refsHash :: hash
  committedRefsHash :: hash
  nChunks :: int
  iIndexOffset :: int
  nIndexSize :: int
  iWalOffset :: int
  iFileSize :: int
  aIndex :: "chunk_entry list"
  aPending :: "chunk_entry list"
  nPendingAlloc :: nat
  aPendingHT :: "int list"
  aPendingHTNext :: "int list"
  nPendingHTBuilt :: nat
  nPendingHTNextAlloc :: nat
  nPendingHTSize :: nat
  pWriteBuf :: "byte list"
  nWriteBufAlloc :: int
  readOnly :: bool
  isMemory :: bool
  snapshotPinned :: bool
  graphLockFd :: int
  nCommittedWriteBuf :: nat
  nWalData :: int

abbreviation nPending :: "chunk_store \<Rightarrow> nat" where "nPending cs \<equiv> length (aPending cs)"
abbreviation nIndex :: "chunk_store \<Rightarrow> nat" where "nIndex cs \<equiv> length (aIndex cs)"
abbreviation nWriteBuf :: "chunk_store \<Rightarrow> nat" where "nWriteBuf cs \<equiv> length (pWriteBuf cs)"

definition CHUNK_MANIFEST_SIZE :: nat where "CHUNK_MANIFEST_SIZE = 168"
definition CS_INIT_PENDING_ALLOC :: nat where "CS_INIT_PENDING_ALLOC = 16"
definition CS_INIT_WRITEBUF_SIZE :: int where "CS_INIT_WRITEBUF_SIZE = 4096"
definition CS_PEND_HT_INIT_BITS :: nat where "CS_PEND_HT_INIT_BITS = 12"
definition CS_PEND_HT_MAX_LOAD :: nat where "CS_PEND_HT_MAX_LOAD = 4"

text \<open>\<open>memset(cs, 0, sizeof(*cs)); cs->graphLockFd = -1\<close>.\<close>

definition chunk_store0 :: chunk_store where
  "chunk_store0 = refs_state.extend refs0
     (chunk_store.fields False hash0 hash0 0 0 0 0 0 [] [] 0 [] [] 0 0 0 [] 0 False False False (-1) 0 0)"

text \<open>The branch of \<open>chunkStoreOpen\<close> for \<open>:memory:\<close>.\<close>

definition chunkStoreOpenMemory :: chunk_store where
  "chunkStoreOpenMemory = chunk_store0\<lparr>isMemory := True, iWalOffset := int CHUNK_MANIFEST_SIZE\<rparr>"

section \<open>Searching the index\<close>

function search_index :: "chunk_entry list \<Rightarrow> hash \<Rightarrow> int \<Rightarrow> int \<Rightarrow> nat option" where
  "search_index es h lo hi =
     (if lo \<le> hi then
        let mid = lo + (hi - lo) div 2; cmp = prollyHashCompare (eHash (es ! nat mid)) h in
        if cmp = 0 then Some (nat mid)
        else if cmp < 0 then search_index es h (mid + 1) hi
        else search_index es h lo (mid - 1)
      else None)"
  by pat_completeness auto
termination by (relation "measure (\<lambda>(es, h, lo, hi). nat (hi + 1 - lo))") auto

declare search_index.simps [simp del]

definition csSearchIndex :: "chunk_entry list \<Rightarrow> hash \<Rightarrow> nat option" where
  "csSearchIndex es h = search_index es h 0 (int (length es) - 1)"

section \<open>The table of pending chunks\<close>

definition csPendBucket :: "hash \<Rightarrow> nat \<Rightarrow> nat" where
  "csPendBucket h nHTMask =
     (let v = ucast (h ! 0) OR push_bit 8 (ucast (h ! 1)) OR push_bit 16 (ucast (h ! 2))
            OR push_bit 24 (ucast (h ! 3)) :: u32
      in nat (uint v AND int nHTMask))"

definition csPendHTClear :: "chunk_store \<Rightarrow> chunk_store" where
  "csPendHTClear cs = cs\<lparr>aPendingHT := [], aPendingHTNext := [], nPendingHTBuilt := 0, nPendingHTSize := 0\<rparr>"

text \<open>\<open>aPendingHTNext[i] = aPendingHT[b]; aPendingHT[b] = i\<close>.\<close>

definition pend_link :: "chunk_store \<Rightarrow> nat \<Rightarrow> chunk_store" where
  "pend_link cs i =
     (let b = csPendBucket (eHash (aPending cs ! i)) (nPendingHTSize cs - 1) in
      cs\<lparr>aPendingHTNext := (aPendingHTNext cs)[i := aPendingHT cs ! b],
         aPendingHT := (aPendingHT cs)[b := int i]\<rparr>)"

definition csPendHTRebuild :: "chunk_store \<Rightarrow> chunk_store" where
  "csPendHTRebuild cs =
     (let cs = cs\<lparr>aPendingHT := replicate (nPendingHTSize cs) (-1)\<rparr>;
          cs = foldl pend_link cs [0..<nPending cs]
      in cs\<lparr>nPendingHTBuilt := nPending cs\<rparr>)"

definition ensure_next :: "chunk_store \<Rightarrow> chunk_store" where
  "ensure_next cs =
     (if aPendingHTNext cs = [] \<or> nPendingAlloc cs > nPendingHTNextAlloc cs then
        let nAlloc = (if nPendingAlloc cs > 0 then nPendingAlloc cs else 64) in
        cs\<lparr>aPendingHTNext := realloc 0 (aPendingHTNext cs) nAlloc, nPendingHTNextAlloc := nAlloc\<rparr>
      else cs)"

definition csPendHTEnsure :: "chunk_store \<Rightarrow> chunk_store" where
  "csPendHTEnsure cs =
     (if nPending cs = 0 then cs
      else
        let cs = (if aPendingHT cs = [] then
                    cs\<lparr>aPendingHT := replicate (2 ^ CS_PEND_HT_INIT_BITS) (-1),
                       nPendingHTSize := 2 ^ CS_PEND_HT_INIT_BITS, nPendingHTBuilt := 0\<rparr>
                  else cs) in
        if nPending cs > nPendingHTSize cs * CS_PEND_HT_MAX_LOAD then
          let newSize = nPendingHTSize cs * 4;
              cs = cs\<lparr>aPendingHT := realloc 0 (aPendingHT cs) newSize, nPendingHTSize := newSize\<rparr>
          in csPendHTRebuild (ensure_next cs)
        else
          let cs = foldl pend_link (ensure_next cs) [nPendingHTBuilt cs..<nPending cs]
          in cs\<lparr>nPendingHTBuilt := nPending cs\<rparr>)"

text \<open>The walk along a chain.  Every link leads to an earlier element, so \<open>nPending\<close> steps
  and one are enough.\<close>

fun chain_walk :: "chunk_store \<Rightarrow> hash \<Rightarrow> int \<Rightarrow> nat \<Rightarrow> nat option res" where
  "chain_walk cs h i 0 = Inl NO_RETURN"
| "chain_walk cs h i (Suc f) =
     (if i \<ge> 0 then
        if prollyHashCompare (eHash (aPending cs ! nat i)) h = 0 then Inr (Some (nat i))
        else chain_walk cs h (aPendingHTNext cs ! nat i) f
      else Inr None)"

definition csSearchPending :: "chunk_store \<Rightarrow> hash \<Rightarrow> (chunk_store \<times> nat option) res" where
  "csSearchPending cs h =
     (if nPending cs = 0 then Inr (cs, None)
      else
        let cs = csPendHTEnsure cs; b = csPendBucket h (nPendingHTSize cs - 1) in
        bindR (chain_walk cs h (aPendingHT cs ! b) (nPending cs + 1)) (\<lambda>r. Inr (cs, r)))"

section \<open>Growing\<close>

definition csGrowPending :: "chunk_store \<Rightarrow> chunk_store" where
  "csGrowPending cs =
     (if nPending cs \<ge> nPendingAlloc cs then
        cs\<lparr>nPendingAlloc := (if nPendingAlloc cs \<noteq> 0 then nPendingAlloc cs * 2 else CS_INIT_PENDING_ALLOC)\<rparr>
      else cs)"

text \<open>\<open>aPending[nPending] = e; nPending++\<close>.\<close>

definition push_pending :: "chunk_store \<Rightarrow> chunk_entry \<Rightarrow> chunk_store res" where
  "push_pending cs e =
     bindR (guardR (nPending cs < nPendingAlloc cs) OUT_OF_BOUNDS) (\<lambda>_.
     Inr (cs\<lparr>aPending := aPending cs @ [e]\<rparr>))"

function grow_writebuf :: "int \<Rightarrow> int \<Rightarrow> int" where
  "grow_writebuf nNew nRequired =
     (if 0 < nNew \<and> nNew < nRequired then
        grow_writebuf (if nNew < 64 * 1024 * 1024 then nNew * 2 else nNew + nNew div 2) nRequired
      else nNew)"
  by pat_completeness auto
termination by (relation "measure (\<lambda>(n, r). nat (r - n))") auto

declare grow_writebuf.simps [simp del]

definition csGrowWriteBuf :: "chunk_store \<Rightarrow> int \<Rightarrow> chunk_store" where
  "csGrowWriteBuf cs nNeeded =
     (let nRequired = int (nWriteBuf cs) + nNeeded in
      if nRequired > nWriteBufAlloc cs then
        cs\<lparr>nWriteBufAlloc := grow_writebuf
             (if nWriteBufAlloc cs \<noteq> 0 then nWriteBufAlloc cs else CS_INIT_WRITEBUF_SIZE) nRequired\<rparr>
      else cs)"

text \<open>Bytes written at \<open>pWriteBuf + nWriteBuf\<close>, and \<open>nWriteBuf\<close> advanced.\<close>

definition push_bytes :: "chunk_store \<Rightarrow> byte list \<Rightarrow> chunk_store res" where
  "push_bytes cs d =
     bindR (guardR (int (nWriteBuf cs) + int (length d) \<le> nWriteBufAlloc cs) OUT_OF_BOUNDS) (\<lambda>_.
     Inr (cs\<lparr>pWriteBuf := pWriteBuf cs @ d\<rparr>))"

section \<open>Merging the pending chunks into the index\<close>

text \<open>\<open>qsort\<close> by hash: a sorted permutation.  The C library does not fix the order of equal
  elements; the model keeps it.\<close>

definition csIndexEntryCmp :: "chunk_entry \<Rightarrow> chunk_entry \<Rightarrow> int" where
  "csIndexEntryCmp a b = prollyHashCompare (eHash a) (eHash b)"

fun qsort_insert :: "chunk_entry \<Rightarrow> chunk_entry list \<Rightarrow> chunk_entry list" where
  "qsort_insert e [] = [e]"
| "qsort_insert e (x # xs) = (if csIndexEntryCmp e x \<le> 0 then e # x # xs else x # qsort_insert e xs)"

definition qsort_entries :: "chunk_entry list \<Rightarrow> chunk_entry list" where
  "qsort_entries es = foldr qsort_insert es []"

fun merge_index :: "chunk_entry list \<Rightarrow> chunk_entry list \<Rightarrow> chunk_entry list" where
  "merge_index (i # is) (p # ps) =
     (let cmp = prollyHashCompare (eHash i) (eHash p) in
      if cmp < 0 then i # merge_index is (p # ps)
      else if cmp > 0 then p # merge_index (i # is) ps
      else p # merge_index is ps)"
| "merge_index is [] = is"
| "merge_index [] ps = ps"

definition csMergeIndex :: "chunk_entry list \<Rightarrow> chunk_entry list \<Rightarrow> chunk_entry list" where
  "csMergeIndex index pending = merge_index index (if length pending > 1 then qsort_entries pending else pending)"

section \<open>Chunks\<close>

definition chunkStoreHas :: "chunk_store \<Rightarrow> hash \<Rightarrow> (chunk_store \<times> bool) res" where
  "chunkStoreHas cs h =
     (if csSearchIndex (aIndex cs) h \<noteq> None then Inr (cs, True)
      else bindR (csSearchPending cs h) (\<lambda>(cs, idx). Inr (cs, idx \<noteq> None)))"

fun chunkStoreHasMany :: "chunk_store \<Rightarrow> hash list \<Rightarrow> (chunk_store \<times> byte list) res" where
  "chunkStoreHasMany cs [] = Inr (cs, [])"
| "chunkStoreHasMany cs (h # hs) =
     bindR (chunkStoreHas cs h) (\<lambda>(cs, has).
     bindR (chunkStoreHasMany cs hs) (\<lambda>(cs, rs). Inr (cs, (if has then 1 else 0) # rs)))"

text \<open>\<open>sqlite3OsRead(pFile, buf, n, off)\<close> of a file: a read that reaches beyond its end is short.\<close>

definition sqlite3OsRead :: "byte list \<Rightarrow> int \<Rightarrow> int \<Rightarrow> byte list res" where
  "sqlite3OsRead file n off =
     (if off < 0 then Inl SQLITE_IOERR
      else if nat off + nat n \<le> length file then Inr (take (nat n) (drop (nat off) file))
      else Inl SQLITE_IOERR_SHORT_READ)"

text \<open>\<open>memcpy(pCopy, pWriteBuf + off, n)\<close>.\<close>

definition read_buf :: "byte list \<Rightarrow> int \<Rightarrow> int \<Rightarrow> byte list res" where
  "read_buf buf off n = (if off < 0 then Inl OUT_OF_BOUNDS else read_bytes buf (nat off) (nat n))"

text \<open>\<open>sqlite3_malloc(n)\<close> returns the null pointer for \<open>n <= 0\<close>.\<close>

definition malloc_ok :: "int \<Rightarrow> unit res" where
  "malloc_ok n = guardR (n > 0) SQLITE_NOMEM"

definition get_pending :: "chunk_store \<Rightarrow> nat \<Rightarrow> byte list res" where
  "get_pending cs idx =
     (let e = aPending cs ! idx in
      bindR (malloc_ok (eSize e)) (\<lambda>_. read_buf (pWriteBuf cs) (eOffset e + 4) (eSize e)))"

definition get_memory :: "chunk_store \<Rightarrow> nat \<Rightarrow> byte list res" where
  "get_memory cs idx =
     (let e = aIndex cs ! idx in
      if nWriteBufAlloc cs > 0 \<and> eOffset e \<ge> 0 \<and> eOffset e + 4 + eSize e \<le> int (nWriteBuf cs) then
        bindR (malloc_ok (eSize e)) (\<lambda>_. read_buf (pWriteBuf cs) (eOffset e + 4) (eSize e))
      else Inl SQLITE_CORRUPT)"

definition get_file :: "chunk_store \<Rightarrow> byte list \<Rightarrow> nat \<Rightarrow> byte list res" where
  "get_file cs file idx =
     (let e = aIndex cs ! idx in
      bindR (sqlite3OsRead file 4 (eOffset e)) (\<lambda>lenBuf.
      bindR (get_u32 lenBuf 0) (\<lambda>storedLen.
      bindR (guardR (sint storedLen = eSize e) SQLITE_CORRUPT) (\<lambda>_.
      bindR (malloc_ok (eSize e)) (\<lambda>_.
      sqlite3OsRead file (eSize e) (eOffset e + 4))))))"

definition chunkStoreGet :: "chunk_store \<Rightarrow> byte list \<Rightarrow> hash \<Rightarrow> chunk_store \<times> byte list res" where
  "chunkStoreGet cs file h =
     (case csSearchPending cs h of
        Inl e \<Rightarrow> (cs, Inl e)
      | Inr (cs, Some idx) \<Rightarrow> (cs, get_pending cs idx)
      | Inr (cs, None) \<Rightarrow>
          (case csSearchIndex (aIndex cs) h of
             None \<Rightarrow> (cs, Inl SQLITE_NOTFOUND)
           | Some idx \<Rightarrow> (cs, if \<not> pFile cs then get_memory cs idx else get_file cs file idx)))"

definition chunkStorePut :: "(byte list \<Rightarrow> hash) \<Rightarrow> chunk_store \<Rightarrow> byte list \<Rightarrow> (chunk_store \<times> hash) res" where
  "chunkStorePut prollyHashCompute cs d =
     (let h = prollyHashCompute d in
      if csSearchIndex (aIndex cs) h \<noteq> None then Inr (cs, h)
      else
        bindR (csSearchPending cs h) (\<lambda>(cs, idx).
        if idx \<noteq> None then Inr (cs, h)
        else
          let cs = csGrowPending cs; cs = csGrowWriteBuf cs (4 + int (length d)) in
          bindR (push_pending cs \<lparr>eHash = h, eOffset = int (nWriteBuf cs), eSize = int (length d)\<rparr>) (\<lambda>cs.
          bindR (push_bytes cs (put_u32 (of_nat (length d)))) (\<lambda>cs.
          bindR (push_bytes cs d) (\<lambda>cs. Inr (cs, h))))))"

section \<open>References of the store\<close>

definition csMarkRefsCommitted :: "chunk_store \<Rightarrow> chunk_store" where
  "csMarkRefsCommitted cs = cs\<lparr>committedRefsHash := refsHash cs\<rparr>"

definition csRestoreCommittedRefsHash :: "chunk_store \<Rightarrow> chunk_store" where
  "csRestoreCommittedRefsHash cs = cs\<lparr>refsHash := committedRefsHash cs\<rparr>"

definition chunkStoreSerializeRefs :: "(byte list \<Rightarrow> hash) \<Rightarrow> chunk_store \<Rightarrow> chunk_store res" where
  "chunkStoreSerializeRefs prollyHashCompute cs =
     bindR (csSerializeRefsBlob cs) (\<lambda>(buf, sz).
     bindR (chunkStorePut prollyHashCompute cs buf) (\<lambda>(cs, h). Inr (cs\<lparr>refsHash := h\<rparr>)))"

definition chunkStoreLoadRefsFromBlob :: "chunk_store \<Rightarrow> byte list \<Rightarrow> chunk_store res" where
  "chunkStoreLoadRefsFromBlob cs d = csReplaceRefsStateFromBlob csMarkRefsCommitted cs d True"

text \<open>The state after the call and its code.\<close>

definition chunkStoreReloadRefs :: "chunk_store \<Rightarrow> byte list \<Rightarrow> chunk_store \<times> unit res" where
  "chunkStoreReloadRefs cs file =
     (if prollyHashIsEmpty (refsHash cs) then (cs, Inr ())
      else
        case chunkStoreGet cs file (refsHash cs) of
          (cs, Inl e) \<Rightarrow> (cs, Inl e)
        | (cs, Inr d) \<Rightarrow>
            (case csReplaceRefsStateFromBlob csMarkRefsCommitted cs d False of
               Inl e \<Rightarrow> (cs, Inl e)
             | Inr cs \<Rightarrow> (cs, Inr ())))"

definition csRestoreCommittedRefsState :: "chunk_store \<Rightarrow> byte list \<Rightarrow> chunk_store \<times> unit res" where
  "csRestoreCommittedRefsState cs file =
     (let cs = csRestoreCommittedRefsHash cs in
      if prollyHashIsEmpty (committedRefsHash cs) then
        (csEnsureDefaultBranch (csFreeTracking (csFreeRemotes (csFreeTags (csFreeBranches cs)))), Inr ())
      else chunkStoreReloadRefs cs file)"

definition chunkStoreIsEmpty :: "chunk_store \<Rightarrow> bool" where
  "chunkStoreIsEmpty cs \<longleftrightarrow> length (aBranches cs) = 0 \<and> prollyHashIsEmpty (refsHash cs)"

definition chunkStoreClearRefs :: "chunk_store \<Rightarrow> chunk_store" where
  "chunkStoreClearRefs cs =
     (csFreeTracking (csFreeRemotes (csFreeTags (csFreeBranches cs))))\<lparr>refsHash := hash0\<rparr>"

section \<open>Commit and rollback\<close>

definition csCommitToMemory :: "chunk_store \<Rightarrow> chunk_store" where
  "csCommitToMemory cs =
     csMarkRefsCommitted
       (if nPending cs > 0 then
          (csPendHTClear (cs\<lparr>aIndex := csMergeIndex (aIndex cs) (aPending cs), aPending := []\<rparr>))
            \<lparr>nCommittedWriteBuf := nWriteBuf cs\<rparr>
        else cs)"

definition chunkStoreRollback :: "chunk_store \<Rightarrow> byte list \<Rightarrow> chunk_store" where
  "chunkStoreRollback cs file =
     (let cs = csPendHTClear (cs\<lparr>aPending := []\<rparr>);
          cs = (if isMemory cs then cs\<lparr>pWriteBuf := take (nCommittedWriteBuf cs) (pWriteBuf cs)\<rparr>
                else cs\<lparr>pWriteBuf := []\<rparr>)
      in fst (csRestoreCommittedRefsState cs file))"

end
