(* ===== verification/ChunkStoreInv.thy ===== *)
theory ChunkStoreInv
  imports ChunkStore
begin

text \<open>
  The chunk store is a set of chunks that is read by hash.  The binary search decides the sorted
  index; the chained table of pending chunks decides the pending array, whether the table is
  absent, behind, or rebuilt; merging keeps the index sorted and loses nothing.  The invariant
  \<open>store_inv\<close> says that every entry points at data with its hash; with a hash that has no
  collision on the chunks that are written, the store interprets \<open>chunk_repo\<close>, and a store in
  memory is transactional.
\<close>

section \<open>Searching a sorted index\<close>

definition sorted_entries :: "chunk_entry list \<Rightarrow> bool" where
  "sorted_entries es \<longleftrightarrow> sorted_wrt (\<lambda>a b. eHash a \<le> eHash b) es \<and> (\<forall>e \<in> set es. hash_ok (eHash e))"

lemma sorted_entries_nth:
  assumes "sorted_entries es" "i \<le> j" "j < length es"
  shows "eHash (es ! i) \<le> eHash (es ! j)"
  using assms sorted_wrt_nth_less [of "\<lambda>a b. eHash a \<le> eHash b" es i j]
  by (cases "i = j") (simp_all add: sorted_entries_def)

lemma search_index_correct:
  assumes s: "sorted_entries es" and h: "hash_ok h"
  shows "0 \<le> lo \<Longrightarrow> hi < int (length es) \<Longrightarrow> lo \<le> hi + 1 \<Longrightarrow>
     \<forall>j < length es. (int j < lo \<longrightarrow> eHash (es ! j) < h) \<and> (hi < int j \<longrightarrow> h < eHash (es ! j)) \<Longrightarrow>
     (case search_index es h lo hi of
        Some i \<Rightarrow> i < length es \<and> eHash (es ! i) = h
      | None \<Rightarrow> \<forall>e \<in> set es. eHash e \<noteq> h)"
proof (induction "nat (hi + 1 - lo)" arbitrary: lo hi rule: less_induct)
  case less
  note prems = less.prems
  show ?case
  proof (cases "lo \<le> hi")
    case False
    have "eHash e \<noteq> h" if e: "e \<in> set es" for e
    proof -
      obtain j where j: "j < length es" "e = es ! j" using e unfolding in_set_conv_nth by blast
      have "int j < lo \<or> hi < int j" using False by linarith
      then show ?thesis using prems(4) j by auto
    qed
    then show ?thesis using False by (subst search_index.simps) simp
  next
    case True
    define mid where "mid = lo + (hi - lo) div 2"
    have m: "lo \<le> mid" "mid \<le> hi" "0 \<le> mid" "nat mid < length es"
      using True prems(1,2) by (simp_all add: mid_def)
    let ?e = "eHash (es ! nat mid)"
    have ok: "hash_ok ?e" using s m(4) by (simp add: sorted_entries_def)
    have step: "search_index es h lo hi = (if ?e = h then Some (nat mid)
        else if ?e < h then search_index es h (mid + 1) hi else search_index es h lo (mid - 1))"
      using True by (subst search_index.simps)
        (simp add: Let_def mid_def [symmetric] prollyHashCompare_0 [OF ok h] prollyHashCompare_less [OF ok h])
    consider "?e = h" | "?e < h" | "h < ?e" by (rule linorder_cases)
    then show ?thesis
    proof cases
      case 1
      then show ?thesis using step m by simp
    next
      case 2
      have "\<forall>j < length es. int j < mid + 1 \<longrightarrow> eHash (es ! j) < h"
      proof (intro allI impI)
        fix j assume "j < length es" "int j < mid + 1"
        then have "eHash (es ! j) \<le> ?e" using m by (intro sorted_entries_nth [OF s]) auto
        then show "eHash (es ! j) < h" using 2 by simp
      qed
      then have "case search_index es h (mid + 1) hi of Some i \<Rightarrow> i < length es \<and> eHash (es ! i) = h
          | None \<Rightarrow> \<forall>e \<in> set es. eHash e \<noteq> h"
        using prems m True by (intro less.hyps) auto
      then show ?thesis using step 2 by auto
    next
      case 3
      have "\<forall>j < length es. mid - 1 < int j \<longrightarrow> h < eHash (es ! j)"
      proof (intro allI impI)
        fix j assume "j < length es" "mid - 1 < int j"
        then have "?e \<le> eHash (es ! j)" by (intro sorted_entries_nth [OF s]) auto
        then show "h < eHash (es ! j)" using 3 by simp
      qed
      then have "case search_index es h lo (mid - 1) of Some i \<Rightarrow> i < length es \<and> eHash (es ! i) = h
          | None \<Rightarrow> \<forall>e \<in> set es. eHash e \<noteq> h"
        using prems m True by (intro less.hyps) auto
      then show ?thesis using step 3 by auto
    qed
  qed
qed

lemma csSearchIndex_Some:
  assumes "sorted_entries es" "hash_ok h" "csSearchIndex es h = Some i"
  shows "i < length es" "eHash (es ! i) = h"
  using search_index_correct [OF assms(1,2), of 0 "int (length es) - 1"] assms(3)
  by (auto simp: csSearchIndex_def)

lemma csSearchIndex_None:
  assumes "sorted_entries es" "hash_ok h"
  shows "csSearchIndex es h = None \<longleftrightarrow> (\<forall>e \<in> set es. eHash e \<noteq> h)"
proof
  assume "csSearchIndex es h = None"
  then show "\<forall>e \<in> set es. eHash e \<noteq> h"
    using search_index_correct [OF assms, of 0 "int (length es) - 1"] by (auto simp: csSearchIndex_def)
next
  assume "\<forall>e \<in> set es. eHash e \<noteq> h"
  then show "csSearchIndex es h = None" using csSearchIndex_Some [OF assms] by (metis nth_mem not_Some_eq)
qed

section \<open>Chains of pending chunks\<close>

fun is_chain :: "int list \<Rightarrow> int \<Rightarrow> nat list \<Rightarrow> bool" where
  "is_chain next i [] = (i = -1)"
| "is_chain next i (x # xs) = (i = int x \<and> is_chain next (next ! x) xs)"

lemma is_chain_cong: "(\<And>x. x \<in> set xs \<Longrightarrow> n ! x = n' ! x) \<Longrightarrow> is_chain n i xs = is_chain n' i xs"
  by (induction xs arbitrary: i) simp_all

definition pend_bucket :: "chunk_store \<Rightarrow> nat \<Rightarrow> nat" where
  "pend_bucket cs i = csPendBucket (eHash (aPending cs ! i)) (nPendingHTSize cs - 1)"

definition bucket_list :: "chunk_store \<Rightarrow> nat \<Rightarrow> nat \<Rightarrow> nat list" where
  "bucket_list cs m b = rev (filter (\<lambda>i. pend_bucket cs i = b) [0..<m])"

definition chains_inv :: "chunk_store \<Rightarrow> nat \<Rightarrow> bool" where
  "chains_inv cs m \<longleftrightarrow> 0 < nPendingHTSize cs \<and> length (aPendingHT cs) = nPendingHTSize cs \<and>
     m \<le> length (aPendingHTNext cs) \<and>
     (\<forall>b < nPendingHTSize cs. is_chain (aPendingHTNext cs) (aPendingHT cs ! b) (bucket_list cs m b))"

text \<open>The fields outside the table.\<close>

definition core :: "chunk_store \<Rightarrow> chunk_store" where
  "core cs = cs\<lparr>aPendingHT := [], aPendingHTNext := [], nPendingHTBuilt := 0, nPendingHTNextAlloc := 0, nPendingHTSize := 0\<rparr>"

lemma core_fields:
  assumes "core cs' = core cs"
  shows "aPending cs' = aPending cs" "aIndex cs' = aIndex cs" "pWriteBuf cs' = pWriteBuf cs"
    "nPendingAlloc cs' = nPendingAlloc cs" "nWriteBufAlloc cs' = nWriteBufAlloc cs" "pFile cs' = pFile cs"
    "isMemory cs' = isMemory cs" "nCommittedWriteBuf cs' = nCommittedWriteBuf cs" "refsHash cs' = refsHash cs"
    "committedRefsHash cs' = committedRefsHash cs" "aBranches cs' = aBranches cs" "zDefaultBranch cs' = zDefaultBranch cs"
    "aTags cs' = aTags cs" "aRemotes cs' = aRemotes cs" "aTracking cs' = aTracking cs"
    "iFileSize cs' = iFileSize cs" "iWalOffset cs' = iWalOffset cs" "nChunks cs' = nChunks cs"
    "nWalData cs' = nWalData cs" "graphLockFd cs' = graphLockFd cs" "readOnly cs' = readOnly cs"
    "iIndexOffset cs' = iIndexOffset cs" "nIndexSize cs' = nIndexSize cs" "snapshotPinned cs' = snapshotPinned cs"
  using assms unfolding core_def by (cases cs; cases cs'; simp)+

lemma csPendBucket_less: "0 < n \<Longrightarrow> csPendBucket h (n - 1) < n"
proof -
  assume n: "0 < n"
  have "x AND (n - 1) \<le> n - 1" for x :: nat
    by (metis and_nat_def and.commute nat_int of_nat_and_eq AND_upper1 of_nat_0_le_iff zle_int of_nat_le_iff)
  then show ?thesis using n unfolding csPendBucket_def Let_def nat_uint_and by (meson le_less_trans diff_less zero_less_one)
qed

lemma bucket_list_Suc:
  "bucket_list cs (Suc m) b = (if pend_bucket cs m = b then m # bucket_list cs m b else bucket_list cs m b)"
  by (simp add: bucket_list_def)

lemma pend_link_core: "core (pend_link cs i) = core cs"
  by (simp add: core_def pend_link_def Let_def)

lemma pend_link_bucket: "pend_bucket (pend_link cs i) = pend_bucket cs" "bucket_list (pend_link cs i) = bucket_list cs"
  by (auto simp: pend_bucket_def pend_link_def Let_def bucket_list_def fun_eq_iff)

lemma pend_link_step:
  assumes inv: "chains_inv cs m" and m: "m < length (aPendingHTNext cs)"
  shows "chains_inv (pend_link cs m) (Suc m)" "length (aPendingHTNext (pend_link cs m)) = length (aPendingHTNext cs)"
proof -
  let ?b = "pend_bucket cs m"
  have b: "?b < nPendingHTSize cs" using inv csPendBucket_less by (simp add: chains_inv_def pend_bucket_def)
  have f: "nPendingHTSize (pend_link cs m) = nPendingHTSize cs"
    "aPendingHT (pend_link cs m) = (aPendingHT cs)[?b := int m]"
    "aPendingHTNext (pend_link cs m) = (aPendingHTNext cs)[m := aPendingHT cs ! ?b]"
    by (simp_all add: pend_link_def Let_def pend_bucket_def)
  show "length (aPendingHTNext (pend_link cs m)) = length (aPendingHTNext cs)" by (simp add: f)
  have old: "is_chain ((aPendingHTNext cs)[m := v]) i (bucket_list cs m b) = is_chain (aPendingHTNext cs) i (bucket_list cs m b)" for v i b
    by (rule is_chain_cong) (simp add: bucket_list_def)
  have "is_chain (aPendingHTNext (pend_link cs m)) (aPendingHT (pend_link cs m) ! b) (bucket_list cs (Suc m) b)"
    if "b < nPendingHTSize cs" for b
    using inv that m b unfolding f chains_inv_def bucket_list_Suc
    by (cases "?b = b") (simp_all add: old)
  then show "chains_inv (pend_link cs m) (Suc m)"
    using inv m unfolding chains_inv_def pend_link_bucket by (simp add: f)
qed

lemma foldl_pend_link:
  "chains_inv cs m \<Longrightarrow> m \<le> n \<Longrightarrow> n \<le> length (aPendingHTNext cs) \<Longrightarrow>
     chains_inv (foldl pend_link cs [m..<n]) n \<and> core (foldl pend_link cs [m..<n]) = core cs \<and>
     length (aPendingHTNext (foldl pend_link cs [m..<n])) = length (aPendingHTNext cs) \<and>
     nPendingHTNextAlloc (foldl pend_link cs [m..<n]) = nPendingHTNextAlloc cs"
proof (induction "n - m" arbitrary: m cs)
  case (Suc k)
  have u: "[m..<n] = m # [Suc m..<n]" using Suc.hyps(2) by (simp add: upt_conv_Cons)
  note s = pend_link_step [OF Suc.prems(1)]
  have "nPendingHTNextAlloc (pend_link cs m) = nPendingHTNextAlloc cs" by (simp add: pend_link_def Let_def)
  then show ?case using Suc.hyps(1) [of "Suc m" "pend_link cs m"] Suc.hyps(2) Suc.prems s pend_link_core [of cs m]
    by (simp add: u)
qed simp

text \<open>The invariant of the table: it holds a prefix of the pending chunks, or does not exist.\<close>

definition ht_inv :: "chunk_store \<Rightarrow> bool" where
  "ht_inv cs \<longleftrightarrow> nPending cs \<le> nPendingAlloc cs \<and> nPendingHTBuilt cs \<le> nPending cs \<and>
     (aPendingHTNext cs = [] \<or> length (aPendingHTNext cs) = nPendingHTNextAlloc cs) \<and>
     (aPendingHT cs \<noteq> [] \<longrightarrow> chains_inv cs (nPendingHTBuilt cs))"

lemma ensure_next_props:
  assumes "nPending cs \<le> nPendingAlloc cs"
    "aPendingHTNext cs = [] \<or> length (aPendingHTNext cs) = nPendingHTNextAlloc cs"
  shows "core (ensure_next cs) = core cs" "nPending cs \<le> length (aPendingHTNext (ensure_next cs))"
    "length (aPendingHTNext (ensure_next cs)) = nPendingHTNextAlloc (ensure_next cs)"
    "aPendingHT (ensure_next cs) = aPendingHT cs" "nPendingHTSize (ensure_next cs) = nPendingHTSize cs"
    "nPendingHTBuilt (ensure_next cs) = nPendingHTBuilt cs"
    "\<And>i. i < length (aPendingHTNext cs) \<Longrightarrow> aPendingHTNext (ensure_next cs) ! i = aPendingHTNext cs ! i"
    "length (aPendingHTNext cs) \<le> length (aPendingHTNext (ensure_next cs))"
  using assms by (auto simp: ensure_next_def core_def Let_def realloc_nth)

lemma ensure_next_chains:
  assumes "nPending cs \<le> nPendingAlloc cs"
    "aPendingHTNext cs = [] \<or> length (aPendingHTNext cs) = nPendingHTNextAlloc cs" "chains_inv cs m"
  shows "chains_inv (ensure_next cs) m"
proof -
  note p = ensure_next_props [OF assms(1,2)]
  have bk: "pend_bucket (ensure_next cs) = pend_bucket cs"
    using core_fields(1) [OF p(1)] p(5) by (intro ext) (simp add: pend_bucket_def)
  have bl: "bucket_list (ensure_next cs) = bucket_list cs" by (intro ext) (simp add: bucket_list_def bk)
  have c: "is_chain (aPendingHTNext (ensure_next cs)) i (bucket_list cs m b) = is_chain (aPendingHTNext cs) i (bucket_list cs m b)" for i b
    using assms(3) by (intro is_chain_cong p(7)) (auto simp: bucket_list_def chains_inv_def)
  show ?thesis using assms(3) p(8) unfolding chains_inv_def p(4,5) bl c by auto
qed

lemma chains_inv_0:
  "0 < nPendingHTSize cs \<Longrightarrow> aPendingHT cs = replicate (nPendingHTSize cs) (-1) \<Longrightarrow> chains_inv cs 0"
  by (simp add: chains_inv_def bucket_list_def)

lemma csPendHTRebuild_props:
  assumes "0 < nPendingHTSize cs" "nPending cs \<le> length (aPendingHTNext cs)"
  shows "core (csPendHTRebuild cs) = core cs" "chains_inv (csPendHTRebuild cs) (nPending cs)"
    "nPendingHTBuilt (csPendHTRebuild cs) = nPending cs"
    "length (aPendingHTNext (csPendHTRebuild cs)) = length (aPendingHTNext cs)"
    "nPendingHTNextAlloc (csPendHTRebuild cs) = nPendingHTNextAlloc cs"
proof -
  let ?c = "cs\<lparr>aPendingHT := replicate (nPendingHTSize cs) (-1)\<rparr>"
  have c: "chains_inv ?c 0" using assms(1) by (intro chains_inv_0) simp_all
  note f = foldl_pend_link [OF c, of "nPending cs"]
  let ?d = "foldl pend_link ?c [0..<nPending cs]"
  have d: "chains_inv ?d (nPending cs)" "core ?d = core ?c" "length (aPendingHTNext ?d) = length (aPendingHTNext cs)"
    "nPendingHTNextAlloc ?d = nPendingHTNextAlloc cs"
    using f assms(2) by simp_all
  have r: "csPendHTRebuild cs = ?d\<lparr>nPendingHTBuilt := nPending cs\<rparr>"
    using core_fields(1) [OF d(2)] by (simp add: csPendHTRebuild_def Let_def)
  have e: "core (x\<lparr>nPendingHTBuilt := n\<rparr>) = core x" "chains_inv (x\<lparr>nPendingHTBuilt := n\<rparr>) m = chains_inv x m" for x n m
    by (simp_all add: core_def chains_inv_def bucket_list_def pend_bucket_def)
  have "core ?c = core cs" by (simp add: core_def)
  then show "core (csPendHTRebuild cs) = core cs" "chains_inv (csPendHTRebuild cs) (nPending cs)"
    "nPendingHTBuilt (csPendHTRebuild cs) = nPending cs"
    "length (aPendingHTNext (csPendHTRebuild cs)) = length (aPendingHTNext cs)"
    "nPendingHTNextAlloc (csPendHTRebuild cs) = nPendingHTNextAlloc cs"
    unfolding r using d by (simp_all add: e)
qed

lemma csPendHTEnsure_props:
  assumes inv: "ht_inv cs" and n: "nPending cs \<noteq> 0"
  shows "core (csPendHTEnsure cs) = core cs" "ht_inv (csPendHTEnsure cs)"
    "chains_inv (csPendHTEnsure cs) (nPending cs)"
proof -
  define c1 where "c1 = (if aPendingHT cs = [] then
        cs\<lparr>aPendingHT := replicate (2 ^ CS_PEND_HT_INIT_BITS) (-1),
           nPendingHTSize := 2 ^ CS_PEND_HT_INIT_BITS, nPendingHTBuilt := 0\<rparr> else cs)"
  have core1: "core c1 = core cs" by (simp add: c1_def core_def)
  note f1 = core_fields(1,4) [OF core1]
  have next1: "aPendingHTNext c1 = aPendingHTNext cs" "nPendingHTNextAlloc c1 = nPendingHTNextAlloc cs"
    by (simp_all add: c1_def)
  have h1: "chains_inv c1 (nPendingHTBuilt c1)" "nPendingHTBuilt c1 \<le> nPending cs"
    using inv by (auto simp: c1_def ht_inv_def intro!: chains_inv_0)
  have al: "nPending c1 \<le> nPendingAlloc c1"
    "aPendingHTNext c1 = [] \<or> length (aPendingHTNext c1) = nPendingHTNextAlloc c1"
    using inv by (simp_all add: f1 next1 ht_inv_def)
  show "core (csPendHTEnsure cs) = core cs" "ht_inv (csPendHTEnsure cs)" "chains_inv (csPendHTEnsure cs) (nPending cs)"
  proof (atomize (full), cases "nPending c1 > nPendingHTSize c1 * CS_PEND_HT_MAX_LOAD")
    case True
    let ?g = "c1\<lparr>aPendingHT := realloc 0 (aPendingHT c1) (nPendingHTSize c1 * 4), nPendingHTSize := nPendingHTSize c1 * 4\<rparr>"
    have g: "core ?g = core cs" using core1 by (simp add: core_def)
    have "nPending ?g \<le> nPendingAlloc ?g" "aPendingHTNext ?g = [] \<or> length (aPendingHTNext ?g) = nPendingHTNextAlloc ?g"
      using al by simp_all
    note p = ensure_next_props [OF this]
    have s: "0 < nPendingHTSize (ensure_next ?g)" using h1(1) by (simp add: p(5) chains_inv_def)
    have np: "aPending (ensure_next ?g) = aPending cs" using core_fields(1) [OF p(1)] f1(1) by simp
    have "nPending (ensure_next ?g) \<le> length (aPendingHTNext (ensure_next ?g))" using p(2) np f1(1) by simp
    note r = csPendHTRebuild_props [OF s this]
    have e: "csPendHTEnsure cs = csPendHTRebuild (ensure_next ?g)"
      using n True by (simp add: csPendHTEnsure_def c1_def [symmetric] Let_def)
    have "ht_inv (csPendHTRebuild (ensure_next ?g))"
      using r p(3) np core_fields(1,4) [OF r(1)] core_fields(4) [OF p(1)] al(1) f1 by (simp add: ht_inv_def)
    then show "core (csPendHTEnsure cs) = core cs \<and> ht_inv (csPendHTEnsure cs) \<and> chains_inv (csPendHTEnsure cs) (nPending cs)"
      unfolding e using r(1,2) p(1) g np by simp
  next
    case False
    note p = ensure_next_props [OF al]
    let ?e = "ensure_next c1"
    have np: "aPending ?e = aPending cs" using core_fields(1) [OF p(1)] f1(1) by simp
    have c: "chains_inv ?e (nPendingHTBuilt ?e)" using ensure_next_chains [OF al h1(1)] p(6) by simp
    have l: "nPendingHTBuilt ?e \<le> nPending cs" "nPending cs \<le> length (aPendingHTNext ?e)"
      using h1(2) p(2,6) f1(1) by simp_all
    let ?d = "foldl pend_link ?e [nPendingHTBuilt ?e..<nPending cs]"
    note d = foldl_pend_link [OF c l]
    have e: "csPendHTEnsure cs = ?d\<lparr>nPendingHTBuilt := nPending cs\<rparr>"
      using n False d p(6) core_fields(1) [of ?d ?e] f1(1) np
      by (simp add: csPendHTEnsure_def c1_def [symmetric] Let_def)
    have x: "core (x\<lparr>nPendingHTBuilt := n\<rparr>) = core x" "chains_inv (x\<lparr>nPendingHTBuilt := n\<rparr>) m = chains_inv x m" for x n m
      by (simp_all add: core_def chains_inv_def bucket_list_def pend_bucket_def)
    have cd: "core ?d = core cs" using d p(1) core1 by simp
    note fd = core_fields(1,4) [OF cd]
    show "core (csPendHTEnsure cs) = core cs \<and> ht_inv (csPendHTEnsure cs) \<and> chains_inv (csPendHTEnsure cs) (nPending cs)"
      unfolding e using d cd fd p(3) inv by (simp add: x ht_inv_def)
  qed
qed

lemma chain_walk_chain:
  assumes h: "hash_ok h" and ok: "\<forall>i \<in> set xs. hash_ok (eHash (aPending cs ! i))"
  shows "is_chain (aPendingHTNext cs) i xs \<Longrightarrow> length xs < f \<Longrightarrow>
     chain_walk cs h i f = Inr (find (\<lambda>i. eHash (aPending cs ! i) = h) xs)"
  using ok
proof (induction xs arbitrary: i f)
  case Nil
  then show ?case by (cases f) simp_all
next
  case (Cons x xs)
  obtain g where f: "f = Suc g" using Cons.prems(2) by (cases f) simp_all
  have "hash_ok (eHash (aPending cs ! x))" using Cons.prems(3) by simp
  then show ?case using Cons f prollyHashCompare_0 [OF _ h] by simp
qed

lemma csSearchPending_correct:
  assumes inv: "ht_inv cs" and h: "hash_ok h" and ok: "\<forall>e \<in> set (aPending cs). hash_ok (eHash e)"
  obtains cs' r where "csSearchPending cs h = Inr (cs', r)" "core cs' = core cs" "ht_inv cs'"
    "case r of Some i \<Rightarrow> i < nPending cs \<and> eHash (aPending cs ! i) = h | None \<Rightarrow> \<forall>e \<in> set (aPending cs). eHash e \<noteq> h"
proof (cases "nPending cs = 0")
  case True
  then show ?thesis using that [of cs None] inv by (simp add: csSearchPending_def)
next
  case False
  let ?c = "csPendHTEnsure cs" and ?n = "nPending cs"
  note p = csPendHTEnsure_props [OF inv False]
  note np = core_fields(1) [OF p(1)]
  let ?b = "csPendBucket h (nPendingHTSize ?c - 1)"
  let ?xs = "bucket_list ?c ?n ?b"
  have b: "?b < nPendingHTSize ?c" using p(3) csPendBucket_less by (simp add: chains_inv_def)
  have c: "is_chain (aPendingHTNext ?c) (aPendingHT ?c ! ?b) ?xs" using p(3) b by (simp add: chains_inv_def)
  have m: "set ?xs \<subseteq> {..<?n}" by (auto simp: bucket_list_def)
  have l: "length ?xs \<le> ?n" using length_filter_le [of _ "[0..<?n]"] by (simp add: bucket_list_def)
  have oks: "\<forall>i \<in> set ?xs. hash_ok (eHash (aPending ?c ! i))" using m ok np by auto
  let ?r = "find (\<lambda>i. eHash (aPending cs ! i) = h) ?xs"
  have "length ?xs < ?n + 1" using l by simp
  note w = chain_walk_chain [OF h oks c this, unfolded np]
  have s: "csSearchPending cs h = Inr (?c, ?r)"
    unfolding csSearchPending_def Let_def if_not_P [OF False] np w bindR_Inr ..
  have res: "case ?r of Some i \<Rightarrow> i < ?n \<and> eHash (aPending cs ! i) = h | None \<Rightarrow> \<forall>e \<in> set (aPending cs). eHash e \<noteq> h"
  proof (cases ?r)
    case None
    have "eHash (aPending cs ! i) \<noteq> h" if i: "i < ?n" for i
    proof
      assume "eHash (aPending cs ! i) = h"
      then have "i \<in> set ?xs" using i np by (simp add: bucket_list_def pend_bucket_def)
      then show False using None \<open>eHash (aPending cs ! i) = h\<close> by (auto simp: find_None_iff)
    qed
    then have "\<forall>e \<in> set (aPending cs). eHash e \<noteq> h" by (metis in_set_conv_nth)
    then show ?thesis unfolding None by simp
  next
    case (Some i)
    then have "i \<in> set ?xs" "eHash (aPending cs ! i) = h" by (auto simp: find_Some_iff)
    then show ?thesis unfolding Some using m np by auto
  qed
  show ?thesis by (rule that [OF s p(1,2) res])
qed

section \<open>Invariant and contents\<close>

text \<open>The data of an entry in the buffer or file it points into, and what makes the entry right:
  it lies inside, its length prefix is stored before it, and its hash is the hash of its data.\<close>

definition edata :: "byte list \<Rightarrow> chunk_entry \<Rightarrow> byte list" where
  "edata buf e = take (nat (eSize e)) (drop (nat (eOffset e) + 4) buf)"

definition good_entry :: "(byte list \<Rightarrow> hash) \<Rightarrow> byte list set \<Rightarrow> byte list \<Rightarrow> chunk_entry \<Rightarrow> bool" where
  "good_entry H U buf e \<longleftrightarrow> hash_ok (eHash e) \<and> 0 \<le> eOffset e \<and> 0 < eSize e \<and> eSize e < 2147483648 \<and>
     eOffset e + 4 + eSize e \<le> int (length buf) \<and> get_u32 buf (nat (eOffset e)) = Inr (of_int (eSize e)) \<and>
     edata buf e \<in> U \<and> H (edata buf e) = eHash e"

text \<open>The chunks that are written are drawn from a set on which the hash has no collision; none
  is empty, since an empty chunk cannot be read back (its copy is an allocation of no bytes).\<close>

definition universe :: "(byte list \<Rightarrow> hash) \<Rightarrow> byte list set \<Rightarrow> bool" where
  "universe H U \<longleftrightarrow> inj_on H U \<and> (\<forall>d \<in> U. d \<noteq> [] \<and> length d < 2147483648 \<and> hash_ok (H d))"

text \<open>Where the committed chunks are.\<close>

definition cbuf :: "chunk_store \<Rightarrow> byte list \<Rightarrow> byte list" where
  "cbuf cs file = (if pFile cs then file else if isMemory cs then take (nCommittedWriteBuf cs) (pWriteBuf cs) else [])"

definition store_inv :: "(byte list \<Rightarrow> hash) \<Rightarrow> byte list set \<Rightarrow> chunk_store \<Rightarrow> byte list \<Rightarrow> bool" where
  "store_inv H U cs file \<longleftrightarrow> universe H U \<and> ht_inv cs \<and> int (nWriteBuf cs) \<le> nWriteBufAlloc cs \<and>
     (isMemory cs \<longrightarrow> \<not> pFile cs) \<and> sorted_entries (aIndex cs) \<and>
     (\<forall>e \<in> set (aPending cs). good_entry H U (pWriteBuf cs) e) \<and>
     (\<forall>e \<in> set (aIndex cs). good_entry H U (cbuf cs file) e)"

definition committed :: "chunk_store \<Rightarrow> byte list \<Rightarrow> byte list set" where
  "committed cs file = edata (cbuf cs file) ` set (aIndex cs)"

definition pending :: "chunk_store \<Rightarrow> byte list set" where
  "pending cs = edata (pWriteBuf cs) ` set (aPending cs)"

definition chunks :: "byte list \<Rightarrow> chunk_store \<Rightarrow> byte list set" where
  "chunks file cs = committed cs file \<union> pending cs"

lemma good_entry_append:
  assumes "good_entry H U buf e"
  shows "good_entry H U (buf @ x) e" "edata (buf @ x) e = edata buf e"
proof -
  have l: "nat (eOffset e) + 4 + nat (eSize e) \<le> length buf" using assms by (auto simp: good_entry_def)
  show d: "edata (buf @ x) e = edata buf e" using l by (simp add: edata_def)
  have "get_u32 (buf @ x) (nat (eOffset e)) = get_u32 buf (nat (eOffset e))"
    using l by (simp add: get_u32_def nth_append)
  then show "good_entry H U (buf @ x) e" using assms unfolding good_entry_def d by simp
qed

lemma good_entry_take:
  assumes "good_entry H U (take n buf) e"
  shows "good_entry H U buf e" "edata buf e = edata (take n buf) e"
  using good_entry_append [OF assms, of "drop n buf"] by simp_all

lemma edata_not_Nil: "good_entry H U buf e \<Longrightarrow> length (edata buf e) = nat (eSize e)"
  by (auto simp: good_entry_def edata_def)

lemma store_inv_core:
  assumes "core cs' = core cs" "ht_inv cs'" "store_inv H U cs file"
  shows "store_inv H U cs' file" "chunks file cs' = chunks file cs" "committed cs' file = committed cs file"
    "pending cs' = pending cs"
proof -
  note f = core_fields [OF assms(1)]
  have "cbuf cs' file = cbuf cs file" by (simp add: cbuf_def f)
  then show "store_inv H U cs' file" "chunks file cs' = chunks file cs" "committed cs' file = committed cs file"
    "pending cs' = pending cs"
    using assms(2,3) by (simp_all add: store_inv_def chunks_def committed_def pending_def f)
qed

lemma edata_eq_iff:
  assumes "universe H U" "d \<in> U" "good_entry H U buf e"
  shows "edata buf e = d \<longleftrightarrow> eHash e = H d"
proof -
  have "edata buf e \<in> U" "H (edata buf e) = eHash e" using assms(3) by (simp_all add: good_entry_def)
  then show ?thesis using assms(1,2) inj_onD [of H U "edata buf e" d] by (auto simp: universe_def)
qed

lemma committed_iff:
  assumes "store_inv H U cs file" "d \<in> U"
  shows "d \<in> committed cs file \<longleftrightarrow> csSearchIndex (aIndex cs) (H d) \<noteq> None"
proof -
  have u: "universe H U" and s: "sorted_entries (aIndex cs)"
    and g: "\<And>e. e \<in> set (aIndex cs) \<Longrightarrow> good_entry H U (cbuf cs file) e" using assms(1) by (simp_all add: store_inv_def)
  have h: "hash_ok (H d)" using u assms(2) by (simp add: universe_def)
  have e: "edata (cbuf cs file) e = d \<longleftrightarrow> eHash e = H d" if "e \<in> set (aIndex cs)" for e
    by (rule edata_eq_iff [OF u assms(2) g [OF that]])
  then show ?thesis unfolding csSearchIndex_None [OF s h] committed_def by auto
qed

lemma pending_iff:
  assumes "store_inv H U cs file" "d \<in> U"
  shows "d \<in> pending cs \<longleftrightarrow> (\<exists>e \<in> set (aPending cs). eHash e = H d)"
proof -
  have u: "universe H U" and g: "\<And>e. e \<in> set (aPending cs) \<Longrightarrow> good_entry H U (pWriteBuf cs) e"
    using assms(1) by (simp_all add: store_inv_def)
  have e: "edata (pWriteBuf cs) e = d \<longleftrightarrow> eHash e = H d" if "e \<in> set (aPending cs)" for e
    by (rule edata_eq_iff [OF u assms(2) g [OF that]])
  then show ?thesis unfolding pending_def by auto
qed

lemma store_search_pending:
  assumes inv: "store_inv H U cs file" and h: "hash_ok h"
  obtains cs' r where "csSearchPending cs h = Inr (cs', r)" "core cs' = core cs" "store_inv H U cs' file"
    "chunks file cs' = chunks file cs" "committed cs' file = committed cs file"
    "case r of Some i \<Rightarrow> i < nPending cs \<and> eHash (aPending cs ! i) = h | None \<Rightarrow> \<forall>e \<in> set (aPending cs). eHash e \<noteq> h"
proof -
  have hi: "ht_inv cs" "\<forall>e \<in> set (aPending cs). hash_ok (eHash e)"
    using inv by (auto simp: store_inv_def good_entry_def)
  obtain cs' r where r: "csSearchPending cs h = Inr (cs', r)" "core cs' = core cs" "ht_inv cs'"
    "case r of Some i \<Rightarrow> i < nPending cs \<and> eHash (aPending cs ! i) = h | None \<Rightarrow> \<forall>e \<in> set (aPending cs). eHash e \<noteq> h"
    by (rule csSearchPending_correct [OF hi(1) h hi(2)])
  note c = store_inv_core [OF r(2,3) inv]
  show thesis by (rule that [OF r(1,2) c(1,2,3) r(4)])
qed

text \<open>The fields the invariant depends on; operations on the references leave them alone.\<close>

definition chunk_part where
  "chunk_part cs = (aIndex cs, aPending cs, nPendingAlloc cs, aPendingHT cs, aPendingHTNext cs, nPendingHTBuilt cs,
     nPendingHTNextAlloc cs, nPendingHTSize cs, pWriteBuf cs, nWriteBufAlloc cs, pFile cs, isMemory cs, nCommittedWriteBuf cs)"

lemma store_inv_frame:
  assumes "chunk_part cs' = chunk_part cs"
  shows "store_inv H U cs' file = store_inv H U cs file" "chunks file cs' = chunks file cs"
    "committed cs' file = committed cs file" "pending cs' = pending cs"
proof -
  have c: "cbuf cs' file = cbuf cs file" using assms by (simp add: cbuf_def chunk_part_def)
  have p: "pend_bucket cs' = pend_bucket cs" using assms by (simp add: pend_bucket_def fun_eq_iff chunk_part_def)
  have b: "bucket_list cs' = bucket_list cs" by (simp add: bucket_list_def fun_eq_iff p)
  have "ht_inv cs' = ht_inv cs" using assms unfolding ht_inv_def chains_inv_def b by (simp add: chunk_part_def)
  then show "store_inv H U cs' file = store_inv H U cs file" "chunks file cs' = chunks file cs"
    "committed cs' file = committed cs file" "pending cs' = pending cs"
    using assms unfolding store_inv_def chunks_def committed_def pending_def c by (simp_all add: chunk_part_def)
qed

section \<open>Writing\<close>

lemma grow_writebuf_ge: "0 < n \<Longrightarrow> m \<le> grow_writebuf n m \<and> n \<le> grow_writebuf n m"
proof (induction n m rule: grow_writebuf.induct)
  case (1 n m)
  show ?case
  proof (cases "n < m")
    case True
    let ?n = "if n < 64 * 1024 * 1024 then n * 2 else n + n div 2"
    have p: "n \<le> ?n" "0 < ?n" using 1(2) by auto
    have "0 < n \<and> n < m" using True 1(2) by simp
    note ih = 1(1) [OF this p(2)]
    have "grow_writebuf n m = grow_writebuf ?n m" using True 1(2) by (subst grow_writebuf.simps) simp
    then show ?thesis using ih p by linarith
  next
    case False
    then have "grow_writebuf n m = n" by (subst grow_writebuf.simps) simp
    then show ?thesis using False by simp
  qed
qed

lemma csGrowWriteBuf_props:
  assumes "int (nWriteBuf cs) \<le> nWriteBufAlloc cs" "0 \<le> n"
  shows "int (nWriteBuf cs) + n \<le> nWriteBufAlloc (csGrowWriteBuf cs n)"
    "\<exists>a. csGrowWriteBuf cs n = cs\<lparr>nWriteBufAlloc := a\<rparr>"
proof -
  show "\<exists>a. csGrowWriteBuf cs n = cs\<lparr>nWriteBufAlloc := a\<rparr>"
    by (cases "int (nWriteBuf cs) + n > nWriteBufAlloc cs")
       (auto simp: csGrowWriteBuf_def Let_def intro: exI [of _ "nWriteBufAlloc cs"])
  have "0 < (if nWriteBufAlloc cs \<noteq> 0 then nWriteBufAlloc cs else CS_INIT_WRITEBUF_SIZE)"
    using assms(1) by (auto simp: CS_INIT_WRITEBUF_SIZE_def)
  then show "int (nWriteBuf cs) + n \<le> nWriteBufAlloc (csGrowWriteBuf cs n)"
    using grow_writebuf_ge by (auto simp: csGrowWriteBuf_def Let_def)
qed

text \<open>The three writes of \<open>chunkStorePut\<close> fit what has been grown.\<close>

definition put_result :: "chunk_store \<Rightarrow> hash \<Rightarrow> byte list \<Rightarrow> int \<Rightarrow> nat \<Rightarrow> chunk_store" where
  "put_result cs h d a p = cs\<lparr>nPendingAlloc := p, nWriteBufAlloc := a,
     aPending := aPending cs @ [\<lparr>eHash = h, eOffset = int (nWriteBuf cs), eSize = int (length d)\<rparr>],
     pWriteBuf := pWriteBuf cs @ put_u32 (of_nat (length d)) @ d\<rparr>"

lemma put_writes:
  assumes "int (nWriteBuf cs) \<le> nWriteBufAlloc cs" "nPending cs \<le> nPendingAlloc cs"
  obtains a p where
    "(let cs = csGrowPending cs; cs = csGrowWriteBuf cs (4 + int (length d)) in
        bindR (push_pending cs \<lparr>eHash = h, eOffset = int (nWriteBuf cs), eSize = int (length d)\<rparr>) (\<lambda>cs.
        bindR (push_bytes cs (put_u32 (of_nat (length d)))) (\<lambda>cs.
        bindR (push_bytes cs d) (\<lambda>cs. Inr (cs, h))))) = Inr (put_result cs h d a p, h)"
    "nPending cs < p" "int (nWriteBuf cs) + 4 + int (length d) \<le> a"
proof -
  obtain p where g: "csGrowPending cs = cs\<lparr>nPendingAlloc := p\<rparr>" and p: "nPending cs < p"
  proof -
    have "csGrowPending cs = cs\<lparr>nPendingAlloc := nPendingAlloc (csGrowPending cs)\<rparr>"
      "nPending cs < nPendingAlloc (csGrowPending cs)"
      using assms(2) by (auto simp: csGrowPending_def CS_INIT_PENDING_ALLOC_def)
    then show ?thesis by (rule that)
  qed
  let ?c = "cs\<lparr>nPendingAlloc := p\<rparr>"
  have "int (nWriteBuf ?c) \<le> nWriteBufAlloc ?c" "0 \<le> 4 + int (length d)" using assms(1) by simp_all
  note w = csGrowWriteBuf_props [OF this]
  obtain a where a: "csGrowWriteBuf ?c (4 + int (length d)) = ?c\<lparr>nWriteBufAlloc := a\<rparr>" using w(2) by blast
  have al: "int (nWriteBuf cs) + 4 + int (length d) \<le> a" using w(1) unfolding a by simp
  show thesis
  proof (rule that [OF _ p al])
    show "(let cs = csGrowPending cs; cs = csGrowWriteBuf cs (4 + int (length d)) in
        bindR (push_pending cs \<lparr>eHash = h, eOffset = int (nWriteBuf cs), eSize = int (length d)\<rparr>) (\<lambda>cs.
        bindR (push_bytes cs (put_u32 (of_nat (length d)))) (\<lambda>cs.
        bindR (push_bytes cs d) (\<lambda>cs. Inr (cs, h))))) = Inr (put_result cs h d a p, h)"
      unfolding g Let_def a using p al by (simp add: push_pending_def push_bytes_def put_result_def)
  qed
qed

lemma put_result_inv:
  assumes inv: "store_inv H U cs file" and d: "d \<in> U" and p: "nPending cs < p"
    and a: "int (nWriteBuf cs) + 4 + int (length d) \<le> a"
  shows "store_inv H U (put_result cs (H d) d a p) file"
    "committed (put_result cs (H d) d a p) file = committed cs file"
    "pending (put_result cs (H d) d a p) = insert d (pending cs)"
proof -
  let ?e = "\<lparr>eHash = H d, eOffset = int (nWriteBuf cs), eSize = int (length d)\<rparr>"
    and ?x = "put_u32 (of_nat (length d)) @ d" and ?c = "put_result cs (H d) d a p"
  have u: "universe H U" using inv by (simp add: store_inv_def)
  have dd: "d \<noteq> []" "length d < 2147483648" "hash_ok (H d)" using u d by (simp_all add: universe_def)
  have ge: "\<And>e. e \<in> set (aPending cs) \<Longrightarrow> good_entry H U (pWriteBuf cs) e"
    and gi: "\<And>e. e \<in> set (aIndex cs) \<Longrightarrow> good_entry H U (cbuf cs file) e" using inv by (simp_all add: store_inv_def)
  have cb: "cbuf ?c file = cbuf cs file \<or> (\<exists>y. cbuf ?c file = cbuf cs file @ y)"
    by (auto simp: cbuf_def put_result_def)
  have ib: "good_entry H U (cbuf ?c file) e \<and> edata (cbuf ?c file) e = edata (cbuf cs file) e" if "e \<in> set (aIndex cs)" for e
    using cb good_entry_append [OF gi [OF that]] gi [OF that] by auto
  have new: "edata (pWriteBuf cs @ ?x) ?e = d" by (simp add: edata_def)
  have "get_u32 (pWriteBuf cs @ ?x) (nat (eOffset ?e)) = Inr (of_int (eSize ?e))"
    by (simp add: get_u32_put)
  then have gn: "good_entry H U (pWriteBuf cs @ ?x) ?e" using dd d new by (simp add: good_entry_def)
  have ht: "ht_inv ?c"
  proof -
    have "ht_inv cs" using inv by (simp add: store_inv_def)
    moreover have "bucket_list ?c m b = bucket_list cs m b" if "m \<le> nPending cs" for m b
      unfolding bucket_list_def using that
      by (intro arg_cong [where f = rev] filter_cong) (auto simp: pend_bucket_def put_result_def nth_append)
    ultimately show ?thesis using p by (auto simp: ht_inv_def chains_inv_def put_result_def)
  qed
  show "store_inv H U ?c file"
    using inv ht a ib gn good_entry_append(1) [OF ge]
    by (auto simp: store_inv_def put_result_def [of cs])
  show "committed ?c file = committed cs file"
    using ib by (auto simp: committed_def put_result_def [of cs] image_def)
  show "pending ?c = insert d (pending cs)"
    using good_entry_append(2) [OF ge] new by (simp add: pending_def put_result_def)
qed

text \<open>The fields that adding a chunk leaves alone.\<close>

definition rest :: "chunk_store \<Rightarrow> chunk_store" where
  "rest cs = (core cs)\<lparr>nPendingAlloc := 0, nWriteBufAlloc := 0, aPending := [], pWriteBuf := []\<rparr>"

lemma rest_fields:
  assumes "rest cs' = rest cs"
  shows "aIndex cs' = aIndex cs" "pFile cs' = pFile cs"
    "isMemory cs' = isMemory cs" "nCommittedWriteBuf cs' = nCommittedWriteBuf cs" "refsHash cs' = refsHash cs"
    "committedRefsHash cs' = committedRefsHash cs" "aBranches cs' = aBranches cs" "zDefaultBranch cs' = zDefaultBranch cs"
    "aTags cs' = aTags cs" "aRemotes cs' = aRemotes cs" "aTracking cs' = aTracking cs"
    "iFileSize cs' = iFileSize cs" "iWalOffset cs' = iWalOffset cs" "nChunks cs' = nChunks cs"
    "nWalData cs' = nWalData cs" "graphLockFd cs' = graphLockFd cs" "readOnly cs' = readOnly cs"
    "iIndexOffset cs' = iIndexOffset cs" "nIndexSize cs' = nIndexSize cs" "snapshotPinned cs' = snapshotPinned cs"
  using assms unfolding rest_def core_def by (cases cs; cases cs'; simp)+

lemma rest_simps: "core c' = core c \<Longrightarrow> rest c' = rest c" "rest (put_result c h d a p) = rest c"
  by (simp_all add: rest_def) (simp add: core_def put_result_def)

text \<open>Adding a chunk: it is there afterwards, and nothing else changes.\<close>

lemma chunkStorePut_ok:
  assumes inv: "store_inv H U cs file" and d: "d \<in> U"
  obtains cs' where "chunkStorePut H cs d = Inr (cs', H d)" "store_inv H U cs' file"
    "chunks file cs' = insert d (chunks file cs)" "committed cs' file = committed cs file"
    "rest cs' = rest cs"
proof (cases "csSearchIndex (aIndex cs) (H d)")
  case (Some i)
  then have "d \<in> committed cs file" using committed_iff [OF inv d] by simp
  then have "chunks file cs = insert d (chunks file cs)" by (auto simp: chunks_def)
  then show ?thesis using that [of cs] inv Some by (simp add: chunkStorePut_def Let_def)
next
  case None
  have u: "universe H U" using inv by (simp add: store_inv_def)
  then have h: "hash_ok (H d)" using d by (simp add: universe_def)
  obtain c r where s: "csSearchPending cs (H d) = Inr (c, r)" "core c = core cs" "store_inv H U c file"
    "chunks file c = chunks file cs" "committed c file = committed cs file"
    "case r of Some i \<Rightarrow> i < nPending cs \<and> eHash (aPending cs ! i) = H d | None \<Rightarrow> \<forall>e \<in> set (aPending cs). eHash e \<noteq> H d"
    by (rule store_search_pending [OF inv h])
  show ?thesis
  proof (cases r)
    case (Some i)
    then have "d \<in> pending cs" unfolding pending_iff [OF inv d] using s(6) by auto
    then have "chunks file cs = insert d (chunks file cs)" by (auto simp: chunks_def)
    then show ?thesis
      using that [of c] s Some None rest_simps(1) [OF s(2)] by (simp add: chunkStorePut_def Let_def)
  next
    case N: None
    have w: "int (nWriteBuf c) \<le> nWriteBufAlloc c" "nPending c \<le> nPendingAlloc c"
      using s(3) by (simp_all add: store_inv_def ht_inv_def)
    obtain a p where ap: "(let cs = csGrowPending c; cs = csGrowWriteBuf cs (4 + int (length d)) in
        bindR (push_pending cs \<lparr>eHash = H d, eOffset = int (nWriteBuf cs), eSize = int (length d)\<rparr>) (\<lambda>cs.
        bindR (push_bytes cs (put_u32 (of_nat (length d)))) (\<lambda>cs.
        bindR (push_bytes cs d) (\<lambda>cs. Inr (cs, H d))))) = Inr (put_result c (H d) d a p, H d)"
      and l: "nPending c < p" "int (nWriteBuf c) + 4 + int (length d) \<le> a"
      by (rule put_writes [OF w])
    note r = put_result_inv [OF s(3) d l]
    have "chunkStorePut H cs d = Inr (put_result c (H d) d a p, H d)"
      unfolding chunkStorePut_def using None s(1) N ap by (simp add: Let_def)
    moreover have "chunks file (put_result c (H d) d a p) = insert d (chunks file cs)"
      using r s(4) by (simp add: chunks_def)
    moreover have "rest (put_result c (H d) d a p) = rest cs" using rest_simps(1) [OF s(2)] rest_simps(2) by simp
    moreover have "committed (put_result c (H d) d a p) file = committed cs file" using r(2) s(5) by simp
    ultimately show ?thesis using that r(1) by blast
  qed
qed

lemma edata_take_bytes:
  assumes "good_entry H U buf e"
  shows "take (nat (eSize e)) (drop (nat (eOffset e + 4)) buf) = edata buf e"
    "nat (eOffset e + 4) + nat (eSize e) \<le> length buf" "0 \<le> eOffset e + 4"
  using assms by (auto simp: good_entry_def edata_def nat_add_distrib)

lemma sint_of_int_size: "good_entry H U buf e \<Longrightarrow> sint (of_int (eSize e) :: u32) = eSize e"
  by (auto simp: good_entry_def intro!: sint_of_int32)

lemma get_committed:
  assumes inv: "store_inv H U cs file" and i: "i < length (aIndex cs)"
  shows "(if \<not> pFile cs then get_memory cs i else get_file cs file i) = Inr (edata (cbuf cs file) (aIndex cs ! i))"
proof -
  let ?e = "aIndex cs ! i"
  have g: "good_entry H U (cbuf cs file) ?e" using inv i by (simp add: store_inv_def)
  have pos: "0 < eSize ?e" using g by (simp add: good_entry_def)
  show ?thesis
  proof (cases "pFile cs")
    case True
    then have c: "cbuf cs file = file" by (simp add: cbuf_def)
    note g' = g [unfolded c]
    note b = edata_take_bytes [OF g']
    have u: "get_u32 file (nat (eOffset ?e)) = Inr (of_int (eSize ?e))" "0 \<le> eOffset ?e"
      and l: "nat (eOffset ?e) + 4 \<le> length file" using g' by (auto simp: good_entry_def)
    have r: "sqlite3OsRead file 4 (eOffset ?e) = Inr (take 4 (drop (nat (eOffset ?e)) file))"
      using u(2) l by (simp add: sqlite3OsRead_def)
    have "get_u32 (take 4 (drop (nat (eOffset ?e)) file)) 0 = get_u32 file (nat (eOffset ?e))"
      using l by (simp add: get_u32_def)
    then have s: "get_u32 (take 4 (drop (nat (eOffset ?e)) file)) 0 = Inr (of_int (eSize ?e))" using u(1) by simp
    have d: "sqlite3OsRead file (eSize ?e) (eOffset ?e + 4) = Inr (edata file ?e)"
      using b by (simp add: sqlite3OsRead_def)
    show ?thesis
      unfolding get_file_def Let_def r bindR_Inr s d sint_of_int_size [OF g'] c
      using True pos by (simp add: malloc_ok_def)
  next
    case False
    have ne: "cbuf cs file \<noteq> []" using g by (auto simp: good_entry_def)
    then have m: "isMemory cs" using False by (auto simp: cbuf_def split: if_splits)
    then have c: "cbuf cs file = take (nCommittedWriteBuf cs) (pWriteBuf cs)" using False by (simp add: cbuf_def)
    note g' = good_entry_take(1) [OF g [unfolded c]] and e = good_entry_take(2) [OF g [unfolded c]]
    note b = edata_take_bytes [OF g']
    have l: "0 \<le> eOffset ?e" "eOffset ?e + 4 + eSize ?e \<le> int (nWriteBuf cs)" using g' by (auto simp: good_entry_def)
    have "0 < nWriteBufAlloc cs" using inv l pos by (simp add: store_inv_def)
    then show ?thesis
      using False l pos b e by (simp add: get_memory_def Let_def malloc_ok_def read_buf_def c)
  qed
qed

text \<open>Reading: a chunk of the store is returned, and nothing else is found.\<close>

lemma chunkStoreGet_ok:
  assumes inv: "store_inv H U cs file" and d: "d \<in> chunks file cs"
  obtains cs' where "chunkStoreGet cs file (H d) = (cs', Inr d)" "core cs' = core cs" "store_inv H U cs' file"
    "chunks file cs' = chunks file cs" "committed cs' file = committed cs file"
proof -
  have u: "universe H U" using inv by (simp add: store_inv_def)
  have dU: "d \<in> U" using inv d by (auto simp: store_inv_def chunks_def committed_def pending_def good_entry_def)
  then have h: "hash_ok (H d)" using u by (simp add: universe_def)
  obtain c r where s: "csSearchPending cs (H d) = Inr (c, r)" "core c = core cs" "store_inv H U c file"
    "chunks file c = chunks file cs" "committed c file = committed cs file"
    "case r of Some i \<Rightarrow> i < nPending cs \<and> eHash (aPending cs ! i) = H d | None \<Rightarrow> \<forall>e \<in> set (aPending cs). eHash e \<noteq> H d"
    by (rule store_search_pending [OF inv h])
  note f = core_fields [OF s(2)]
  show thesis
  proof (cases r)
    case (Some i)
    then have i: "i < nPending cs" "eHash (aPending cs ! i) = H d" using s(6) by simp_all
    let ?e = "aPending cs ! i"
    have g: "good_entry H U (pWriteBuf cs) ?e" using inv i by (simp add: store_inv_def)
    have "edata (pWriteBuf cs) ?e = d" using edata_eq_iff [OF u dU g] i(2) by simp
    then have "get_pending c i = Inr d"
      using edata_take_bytes [OF g] g by (simp add: get_pending_def f Let_def malloc_ok_def read_buf_def good_entry_def)
    then have "chunkStoreGet cs file (H d) = (c, Inr d)" using s(1) Some by (simp add: chunkStoreGet_def)
    then show thesis using that s by blast
  next
    case None
    then have "d \<notin> pending cs" using s(6) pending_iff [OF inv dU] by auto
    then have "d \<in> committed cs file" using d by (simp add: chunks_def)
    then obtain i where i: "csSearchIndex (aIndex c) (H d) = Some i" using committed_iff [OF inv dU] f(2) by auto
    have so: "sorted_entries (aIndex c)" using s(3) by (simp add: store_inv_def)
    note ix = csSearchIndex_Some [OF so h i]
    have g: "good_entry H U (cbuf c file) (aIndex c ! i)" using s(3) ix(1) by (simp add: store_inv_def)
    have "edata (cbuf c file) (aIndex c ! i) = d" using edata_eq_iff [OF u dU g] ix(2) by simp
    then have "chunkStoreGet cs file (H d) = (c, Inr d)"
      using s(1) None i get_committed [OF s(3) ix(1)] by (simp add: chunkStoreGet_def)
    then show thesis using that s by blast
  qed
qed

lemma chunkStoreGet_missing:
  assumes inv: "store_inv H U cs file" and h: "hash_ok h" "\<forall>d \<in> chunks file cs. H d \<noteq> h"
  obtains cs' where "chunkStoreGet cs file h = (cs', Inl SQLITE_NOTFOUND)" "core cs' = core cs" "store_inv H U cs' file"
    "chunks file cs' = chunks file cs"
proof -
  obtain c r where s: "csSearchPending cs h = Inr (c, r)" "core c = core cs" "store_inv H U c file"
    "chunks file c = chunks file cs" "committed c file = committed cs file"
    "case r of Some i \<Rightarrow> i < nPending cs \<and> eHash (aPending cs ! i) = h | None \<Rightarrow> \<forall>e \<in> set (aPending cs). eHash e \<noteq> h"
    by (rule store_search_pending [OF inv h(1)])
  note f = core_fields [OF s(2)]
  have np: "eHash e \<noteq> h" if "e \<in> set (aPending cs)" for e
  proof -
    have "good_entry H U (pWriteBuf cs) e" using inv that by (simp add: store_inv_def)
    then have "H (edata (pWriteBuf cs) e) = eHash e" by (simp add: good_entry_def)
    moreover have "edata (pWriteBuf cs) e \<in> chunks file cs" using that by (simp add: chunks_def pending_def)
    ultimately show ?thesis using h(2) by metis
  qed
  have ni: "eHash e \<noteq> h" if "e \<in> set (aIndex cs)" for e
  proof -
    have "good_entry H U (cbuf cs file) e" using inv that by (simp add: store_inv_def)
    then have "H (edata (cbuf cs file) e) = eHash e" by (simp add: good_entry_def)
    moreover have "edata (cbuf cs file) e \<in> chunks file cs" using that by (simp add: chunks_def committed_def)
    ultimately show ?thesis using h(2) by metis
  qed
  have r: "r = None" using s(6) np [OF nth_mem] by (cases r) auto
  have so: "sorted_entries (aIndex cs)" using inv by (simp add: store_inv_def)
  have "csSearchIndex (aIndex c) h = None" using csSearchIndex_None [OF so h(1)] ni f(2) by simp
  then have "chunkStoreGet cs file h = (c, Inl SQLITE_NOTFOUND)" using s(1) r by (simp add: chunkStoreGet_def)
  then show thesis using that s by blast
qed

lemma chunkStoreHas_ok:
  assumes inv: "store_inv H U cs file" and d: "d \<in> U"
  obtains cs' where "chunkStoreHas cs (H d) = Inr (cs', d \<in> chunks file cs)" "core cs' = core cs" "store_inv H U cs' file"
    "chunks file cs' = chunks file cs"
proof (cases "csSearchIndex (aIndex cs) (H d)")
  case (Some i)
  then have "d \<in> chunks file cs" using committed_iff [OF inv d] by (simp add: chunks_def)
  then show ?thesis using that [of cs] Some inv by (simp add: chunkStoreHas_def)
next
  case None
  have "universe H U" using inv by (simp add: store_inv_def)
  then have h: "hash_ok (H d)" using d by (simp add: universe_def)
  obtain c r where s: "csSearchPending cs (H d) = Inr (c, r)" "core c = core cs" "store_inv H U c file"
    "chunks file c = chunks file cs" "committed c file = committed cs file"
    "case r of Some i \<Rightarrow> i < nPending cs \<and> eHash (aPending cs ! i) = H d | None \<Rightarrow> \<forall>e \<in> set (aPending cs). eHash e \<noteq> H d"
    by (rule store_search_pending [OF inv h])
  have "d \<notin> committed cs file" using None committed_iff [OF inv d] by simp
  then have "d \<in> chunks file cs \<longleftrightarrow> r \<noteq> None"
    unfolding chunks_def using s(6) pending_iff [OF inv d]
    by (cases r) (auto intro: bexI [of _ "aPending cs ! _"])
  then show ?thesis using that [of c] s None by (simp add: chunkStoreHas_def)
qed

section \<open>Merging\<close>

lemma set_qsort_insert [simp]: "set (qsort_insert e xs) = insert e (set xs)"
  by (induction xs) auto

lemma set_qsort_entries [simp]: "set (qsort_entries es) = set es"
  unfolding qsort_entries_def by (induction es) auto

lemma sorted_entries_Cons:
  "sorted_entries (x # xs) \<longleftrightarrow> hash_ok (eHash x) \<and> (\<forall>y \<in> set xs. eHash x \<le> eHash y) \<and> sorted_entries xs"
  by (auto simp: sorted_entries_def)

lemma sorted_qsort_insert:
  assumes "hash_ok (eHash e)"
  shows "sorted_entries xs \<Longrightarrow> sorted_entries (qsort_insert e xs)"
proof (induction xs)
  case (Cons x xs)
  have c: "csIndexEntryCmp e x \<le> 0 \<longleftrightarrow> eHash e \<le> eHash x"
    using assms Cons.prems prollyHashCompare_0 [of "eHash e" "eHash x"] prollyHashCompare_less [of "eHash e" "eHash x"]
    by (auto simp: csIndexEntryCmp_def sorted_entries_Cons le_less)
  show ?case using assms Cons c by (auto simp: sorted_entries_Cons)
qed (simp add: sorted_entries_def assms)

lemma sorted_qsort_entries: "\<forall>e \<in> set es. hash_ok (eHash e) \<Longrightarrow> sorted_entries (qsort_entries es)"
  unfolding qsort_entries_def
proof (induction es)
  case (Cons e es)
  then show ?case by (simp add: sorted_qsort_insert)
qed (simp add: sorted_entries_def)

lemma merge_index_props:
  "sorted_entries is \<Longrightarrow> sorted_entries ps \<Longrightarrow>
     sorted_entries (merge_index is ps) \<and> set (merge_index is ps) \<subseteq> set is \<union> set ps \<and>
     set ps \<subseteq> set (merge_index is ps) \<and>
     (\<forall>e \<in> set is. e \<in> set (merge_index is ps) \<or> (\<exists>p \<in> set ps. eHash p = eHash e))"
proof (induction "is" ps rule: merge_index.induct)
  case (1 i "is" p ps)
  have ok: "hash_ok (eHash i)" "hash_ok (eHash p)" using 1 by (simp_all add: sorted_entries_Cons)
  note c = prollyHashCompare_0 [OF ok] prollyHashCompare_less [OF ok]
  let ?c = "prollyHashCompare (eHash i) (eHash p)"
  have le0: "\<And>y. y \<in> set is \<Longrightarrow> eHash i \<le> eHash y" "\<And>y. y \<in> set ps \<Longrightarrow> eHash p \<le> eHash y"
    using "1.prems" by (simp_all add: sorted_entries_Cons)
  have le: "\<And>y. y \<in> set is \<or> y = p \<or> y \<in> set ps \<Longrightarrow> eHash i \<le> eHash y" if "eHash i < eHash p"
    using le0 that by (metis less_imp_le order_trans)
  have le': "\<And>y. y = i \<or> y \<in> set is \<or> y \<in> set ps \<Longrightarrow> eHash p \<le> eHash y" if "eHash p < eHash i"
    using le0 that by (metis less_imp_le order_trans)
  consider "?c < 0" | "?c > 0" | "?c = 0" by linarith
  then show ?case
  proof cases
    case 1
    then have l: "eHash i < eHash p" using c by simp
    have ih: "sorted_entries (merge_index is (p # ps)) \<and> set (merge_index is (p # ps)) \<subseteq> set is \<union> set (p # ps) \<and>
        set (p # ps) \<subseteq> set (merge_index is (p # ps)) \<and>
        (\<forall>e \<in> set is. e \<in> set (merge_index is (p # ps)) \<or> (\<exists>p \<in> set (p # ps). eHash p = eHash e))"
      using "1.IH"(1) [OF refl 1] "1.prems" by (simp add: sorted_entries_Cons)
    have "eHash i \<le> eHash y" if "y \<in> set is \<union> set (p # ps)" for y
      using that le [OF l] by auto
    then have "\<forall>y \<in> set (merge_index is (p # ps)). eHash i \<le> eHash y" using ih by blast
    then show ?thesis using 1 ih ok by (auto simp: sorted_entries_Cons)
  next
    case 2
    then have l: "eHash p < eHash i" using c by (metis less_asym linorder_neqE not_less_iff_gr_or_eq)
    have n: "\<not> ?c < 0" using 2 by simp
    have ih: "sorted_entries (merge_index (i # is) ps) \<and> set (merge_index (i # is) ps) \<subseteq> set (i # is) \<union> set ps \<and>
        set ps \<subseteq> set (merge_index (i # is) ps) \<and>
        (\<forall>e \<in> set (i # is). e \<in> set (merge_index (i # is) ps) \<or> (\<exists>p \<in> set ps. eHash p = eHash e))"
      using "1.IH"(2) [OF refl n 2] "1.prems" by (simp add: sorted_entries_Cons)
    have "eHash p \<le> eHash y" if "y \<in> set (i # is) \<union> set ps" for y
      using that le' [OF l] by auto
    then have "\<forall>y \<in> set (merge_index (i # is) ps). eHash p \<le> eHash y" using ih by blast
    then show ?thesis using 2 ih ok by (auto simp: sorted_entries_Cons)
  next
    case 3
    then have e: "eHash i = eHash p" using c by simp
    have n: "\<not> ?c < 0" "\<not> ?c > 0" using 3 by simp_all
    have ih: "sorted_entries (merge_index is ps) \<and> set (merge_index is ps) \<subseteq> set is \<union> set ps \<and>
        set ps \<subseteq> set (merge_index is ps) \<and>
        (\<forall>e \<in> set is. e \<in> set (merge_index is ps) \<or> (\<exists>p \<in> set ps. eHash p = eHash e))"
      using "1.IH"(3) [OF refl n] "1.prems" by (simp add: sorted_entries_Cons)
    have "eHash p \<le> eHash y" if "y \<in> set is \<union> set ps" for y
      using that le0 e by auto
    then have "\<forall>y \<in> set (merge_index is ps). eHash p \<le> eHash y" using ih by blast
    then show ?thesis using 3 ih ok e by (auto simp: sorted_entries_Cons)
  qed
qed auto

lemma csMergeIndex_props:
  assumes "sorted_entries is" "\<forall>e \<in> set ps. hash_ok (eHash e)"
  shows "sorted_entries (csMergeIndex is ps)" "set (csMergeIndex is ps) \<subseteq> set is \<union> set ps"
    "set ps \<subseteq> set (csMergeIndex is ps)"
    "\<And>e. e \<in> set is \<Longrightarrow> e \<in> set (csMergeIndex is ps) \<or> (\<exists>p \<in> set ps. eHash p = eHash e)"
proof -
  let ?ps = "if length ps > 1 then qsort_entries ps else ps"
  have s: "sorted_entries ?ps"
  proof (cases "length ps > 1")
    case False
    then show ?thesis using assms(2) by (cases ps) (simp_all add: sorted_entries_def)
  qed (simp add: sorted_qsort_entries assms(2))
  have e: "set ?ps = set ps" by simp
  note m = merge_index_props [OF assms(1) s, unfolded e, folded csMergeIndex_def]
  show "sorted_entries (csMergeIndex is ps)" "set (csMergeIndex is ps) \<subseteq> set is \<union> set ps"
    "set ps \<subseteq> set (csMergeIndex is ps)"
    "\<And>e. e \<in> set is \<Longrightarrow> e \<in> set (csMergeIndex is ps) \<or> (\<exists>p \<in> set ps. eHash p = eHash e)"
    using m by blast+
qed

text \<open>Entries of one buffer: the merged index has the contents of both lists.\<close>

lemma merge_contents:
  assumes u: "universe H U" and s: "sorted_entries is"
    and i: "\<And>e. e \<in> set is \<Longrightarrow> good_entry H U buf e" and p: "\<And>e. e \<in> set ps \<Longrightarrow> good_entry H U buf e"
  shows "edata buf ` set (csMergeIndex is ps) = edata buf ` (set is \<union> set ps)"
    "\<And>e. e \<in> set (csMergeIndex is ps) \<Longrightarrow> good_entry H U buf e"
proof -
  have ok: "\<forall>e \<in> set ps. hash_ok (eHash e)" using p by (simp add: good_entry_def)
  note m = csMergeIndex_props [OF s ok]
  show "good_entry H U buf e" if "e \<in> set (csMergeIndex is ps)" for e using m(2) that i p by blast
  have "edata buf e \<in> edata buf ` set (csMergeIndex is ps)" if e: "e \<in> set is \<union> set ps" for e
  proof (cases "e \<in> set (csMergeIndex is ps)")
    case False
    then have "e \<in> set is" using e m(3) by blast
    then obtain q where q: "q \<in> set ps" "eHash q = eHash e" using m(4) False by blast
    have "edata buf e \<in> U" "eHash q = H (edata buf e)" using i [OF \<open>e \<in> set is\<close>] q(2) by (simp_all add: good_entry_def)
    then have "edata buf q = edata buf e" using edata_eq_iff [OF u _ p [OF q(1)]] by blast
    then show ?thesis using q(1) m(3) by (metis image_eqI subsetD)
  qed simp
  then show "edata buf ` set (csMergeIndex is ps) = edata buf ` (set is \<union> set ps)" using m(2) by blast
qed

section \<open>Commit and rollback in memory\<close>

lemma ht_inv_cleared:
  "ht_inv (csPendHTClear (cs\<lparr>aPending := []\<rparr>))"
  by (simp add: ht_inv_def csPendHTClear_def)

lemma csCommitToMemory_ok:
  assumes inv: "store_inv H U cs file" and m: "isMemory cs"
  shows "store_inv H U (csCommitToMemory cs) file" "committed (csCommitToMemory cs) file = chunks file cs"
    "pending (csCommitToMemory cs) = {}" "refsHash (csCommitToMemory cs) = refsHash cs"
    "committedRefsHash (csCommitToMemory cs) = refsHash cs" "isMemory (csCommitToMemory cs)"
proof -
  let ?c = "csCommitToMemory cs"
  have pf: "\<not> pFile cs" and u: "universe H U" and so: "sorted_entries (aIndex cs)"
    and ge: "\<And>e. e \<in> set (aPending cs) \<Longrightarrow> good_entry H U (pWriteBuf cs) e"
    and gi: "\<And>e. e \<in> set (aIndex cs) \<Longrightarrow> good_entry H U (take (nCommittedWriteBuf cs) (pWriteBuf cs)) e"
    using inv m by (auto simp: store_inv_def cbuf_def)
  note gw = good_entry_take [OF gi]
  have r: "refsHash ?c = refsHash cs \<and> committedRefsHash ?c = refsHash cs \<and> isMemory ?c"
    by (simp add: csCommitToMemory_def csMarkRefsCommitted_def csPendHTClear_def m)
  then show "refsHash ?c = refsHash cs" "committedRefsHash ?c = refsHash cs" "isMemory ?c" by simp_all
  have "store_inv H U ?c file \<and> committed ?c file = chunks file cs \<and> pending ?c = {}"
  proof (cases "nPending cs > 0")
    case True
    note f = merge_contents [OF u so gw(1) ge]
    have "sorted_entries (csMergeIndex (aIndex cs) (aPending cs))"
      using csMergeIndex_props(1) [OF so] ge by (simp add: good_entry_def)
    moreover have "edata (pWriteBuf cs) ` set (aIndex cs) = committed cs file"
      using gw(2) pf m by (auto simp: committed_def cbuf_def image_def)
    ultimately show ?thesis
      using True inv m pf f u ht_inv_cleared
      by (auto simp: csCommitToMemory_def csMarkRefsCommitted_def csPendHTClear_def store_inv_def cbuf_def committed_def
          pending_def chunks_def ht_inv_def image_Un)
  next
    case False
    then have "?c = csMarkRefsCommitted cs" "aPending cs = []" by (simp_all add: csCommitToMemory_def)
    then show ?thesis
      using inv store_inv_frame [of "csMarkRefsCommitted cs" cs]
      by (simp add: chunk_part_def csMarkRefsCommitted_def chunks_def pending_def)
  qed
  then show "store_inv H U ?c file" "committed ?c file = chunks file cs" "pending ?c = {}" by simp_all
qed

section \<open>The contract of the store\<close>

lemma store_chunks_U: "store_inv H U cs file \<Longrightarrow> chunks file cs \<subseteq> U"
  by (auto simp: store_inv_def chunks_def committed_def pending_def good_entry_def)

interpretation store: chunk_repo "\<lambda>cs. store_inv H U cs f" "chunks f" U H "chunkStorePut H"
    "\<lambda>cs. chunkStoreGet cs f" for H U f
proof unfold_locales
  fix cs d assume a: "store_inv H U cs f" "d \<in> chunks f cs"
  show "\<exists>s'. chunkStoreGet cs f (H d) = (s', Inr d) \<and> store_inv H U s' f \<and> chunks f s' = chunks f cs"
    by (rule chunkStoreGet_ok [OF a]) blast
next
  fix cs d assume a: "store_inv H U cs f" "d \<in> U"
  show "\<exists>s'. chunkStorePut H cs d = Inr (s', H d) \<and> store_inv H U s' f \<and> chunks f s' = insert d (chunks f cs)"
    by (rule chunkStorePut_ok [OF a]) blast
next
  fix cs d assume a: "store_inv H U cs f" "d \<in> U" "\<forall>d' \<in> chunks f cs. H d' \<noteq> H d"
  have h: "hash_ok (H d)" using a(1,2) by (simp add: store_inv_def universe_def)
  show "\<exists>s'. chunkStoreGet cs f (H d) = (s', Inl SQLITE_NOTFOUND) \<and> store_inv H U s' f \<and> chunks f s' = chunks f cs"
    by (rule chunkStoreGet_missing [OF a(1) h a(3)]) blast
qed

section \<open>Rolling back\<close>

lemma chunkStoreGet_state:
  assumes inv: "store_inv H U cs file" and h: "hash_ok h"
  obtains cs' r where "chunkStoreGet cs file h = (cs', r)" "core cs' = core cs" "store_inv H U cs' file"
    "chunks file cs' = chunks file cs" "committed cs' file = committed cs file"
proof -
  obtain c r where s: "csSearchPending cs h = Inr (c, r)" "core c = core cs" "store_inv H U c file"
    "chunks file c = chunks file cs" "committed c file = committed cs file"
    by (rule store_search_pending [OF inv h])
  have "fst (chunkStoreGet cs file h) = c" using s(1) by (auto simp: chunkStoreGet_def split: option.split)
  then have "chunkStoreGet cs file h = (c, snd (chunkStoreGet cs file h))" by (metis prod.collapse)
  then show thesis by (rule that [OF _ s(2-5)])
qed

definition refs_frame :: "chunk_store \<Rightarrow> chunk_store \<Rightarrow> bool" where
  "refs_frame c c' \<longleftrightarrow> chunk_part c' = chunk_part c \<and> refsHash c' = refsHash c \<and> committedRefsHash c' = committedRefsHash c"

lemma replace_refs_frame:
  "csReplaceRefsStateFromBlob csMarkRefsCommitted cs d False = Inr c \<Longrightarrow> refs_frame cs c"
  by (auto simp: csReplaceRefsStateFromBlob_def res_simps Let_def refs_frame_def chunk_part_def csAdoptRefsState_def
      csFreeRefsState_def csFreeBranches_def csFreeTags_def csFreeRemotes_def csFreeTracking_def)

lemma chunkStoreReloadRefs_state:
  assumes inv: "store_inv H U cs file" and h: "hash_ok (refsHash cs)"
  obtains cs' r where "chunkStoreReloadRefs cs file = (cs', r)" "store_inv H U cs' file"
    "chunks file cs' = chunks file cs" "committed cs' file = committed cs file" "refsHash cs' = refsHash cs"
    "committedRefsHash cs' = committedRefsHash cs" "isMemory cs' = isMemory cs"
proof (cases "prollyHashIsEmpty (refsHash cs)")
  case True
  then show ?thesis using that [of cs "Inr ()"] inv by (simp add: chunkStoreReloadRefs_def)
next
  case False
  obtain c r where c: "chunkStoreGet cs file (refsHash cs) = (c, r)" "core c = core cs" "store_inv H U c file"
    "chunks file c = chunks file cs" "committed c file = committed cs file"
    by (rule chunkStoreGet_state [OF inv h])
  note f = core_fields [OF c(2)]
  show ?thesis
  proof (cases r)
    case (Inl e)
    then show ?thesis using that [of c "Inl e"] False c f by (simp add: chunkStoreReloadRefs_def)
  next
    case (Inr d)
    show ?thesis
    proof (cases "csReplaceRefsStateFromBlob csMarkRefsCommitted c d False")
      case (Inl e)
      then show ?thesis using that [of c "Inl e"] False c f Inr by (simp add: chunkStoreReloadRefs_def)
    next
      case (Inr c')
      have fr: "refs_frame c c'" by (rule replace_refs_frame [OF Inr])
      then have cp: "chunk_part c' = chunk_part c" by (simp add: refs_frame_def)
      note g = store_inv_frame [OF cp]
      show ?thesis
        using that [of c' "Inr ()"] False c f Inr \<open>r = Inr d\<close> g fr
        by (simp add: chunkStoreReloadRefs_def refs_frame_def chunk_part_def)
    qed
  qed
qed

lemma csRestoreCommittedRefsState_state:
  assumes inv: "store_inv H U cs file" and h: "hash_ok (committedRefsHash cs)"
  obtains cs' r where "csRestoreCommittedRefsState cs file = (cs', r)" "store_inv H U cs' file"
    "chunks file cs' = chunks file cs" "committed cs' file = committed cs file" "refsHash cs' = committedRefsHash cs"
    "committedRefsHash cs' = committedRefsHash cs" "isMemory cs' = isMemory cs"
proof -
  let ?c = "csRestoreCommittedRefsHash cs"
  have "chunk_part ?c = chunk_part cs" by (simp add: chunk_part_def csRestoreCommittedRefsHash_def)
  note g = store_inv_frame [OF this]
  have r: "refsHash ?c = committedRefsHash cs" "committedRefsHash ?c = committedRefsHash cs" "isMemory ?c = isMemory cs"
    by (simp_all add: csRestoreCommittedRefsHash_def)
  have inv': "store_inv H U ?c file" using inv g(1) by simp
  show thesis
  proof (cases "prollyHashIsEmpty (committedRefsHash cs)")
    case True
    let ?d = "csEnsureDefaultBranch (csFreeTracking (csFreeRemotes (csFreeTags (csFreeBranches ?c))))"
    have d: "chunk_part ?d = chunk_part ?c" "refsHash ?d = refsHash ?c" "committedRefsHash ?d = committedRefsHash ?c"
      "isMemory ?d = isMemory ?c"
      by (simp_all add: chunk_part_def csEnsureDefaultBranch_def csFreeTracking_def csFreeRemotes_def csFreeTags_def csFreeBranches_def)
    note g' = store_inv_frame [OF d(1)]
    show thesis using that [of ?d "Inr ()"] True inv' g g' d r
      by (simp add: csRestoreCommittedRefsState_def Let_def)
  next
    case False
    have h': "hash_ok (refsHash ?c)" using h r by simp
    obtain c q where c: "chunkStoreReloadRefs ?c file = (c, q)" "store_inv H U c file"
      "chunks file c = chunks file ?c" "committed c file = committed ?c file" "refsHash c = refsHash ?c"
      "committedRefsHash c = committedRefsHash ?c" "isMemory c = isMemory ?c"
      by (rule chunkStoreReloadRefs_state [OF inv' h'])
    show thesis using that [of c q] False c g r by (simp add: csRestoreCommittedRefsState_def Let_def)
  qed
qed

lemma chunkStoreRollback_ok:
  assumes inv: "store_inv H U cs file" and h: "hash_ok (committedRefsHash cs)"
  shows "store_inv H U (chunkStoreRollback cs file) file"
    "chunks file (chunkStoreRollback cs file) = committed cs file"
    "committed (chunkStoreRollback cs file) file = committed cs file"
    "refsHash (chunkStoreRollback cs file) = committedRefsHash cs"
    "committedRefsHash (chunkStoreRollback cs file) = committedRefsHash cs"
    "isMemory (chunkStoreRollback cs file) = isMemory cs"
proof -
  define c where "c = (let cs = csPendHTClear (cs\<lparr>aPending := []\<rparr>) in
     if isMemory cs then cs\<lparr>pWriteBuf := take (nCommittedWriteBuf cs) (pWriteBuf cs)\<rparr> else cs\<lparr>pWriteBuf := []\<rparr>)"
  have cb: "cbuf c file = cbuf cs file" by (simp add: c_def cbuf_def csPendHTClear_def Let_def)
  have ht: "ht_inv c" by (simp add: c_def ht_inv_def csPendHTClear_def Let_def)
  have fl: "aPending c = []" "aIndex c = aIndex cs" "committedRefsHash c = committedRefsHash cs"
    "isMemory c = isMemory cs" "pFile c = pFile cs" "nWriteBufAlloc c = nWriteBufAlloc cs" "nWriteBuf c \<le> nWriteBuf cs"
    by (simp_all add: c_def csPendHTClear_def Let_def)
  have ci: "store_inv H U c file" using inv ht fl cb by (simp add: store_inv_def)
  have cc: "chunks file c = committed cs file" "committed c file = committed cs file"
    using cb fl by (simp_all add: chunks_def pending_def committed_def)
  have "hash_ok (committedRefsHash c)" using h fl by simp
  then obtain c' r where c': "csRestoreCommittedRefsState c file = (c', r)" "store_inv H U c' file"
    "chunks file c' = chunks file c" "committed c' file = committed c file" "refsHash c' = committedRefsHash c"
    "committedRefsHash c' = committedRefsHash c" "isMemory c' = isMemory c"
    by (rule csRestoreCommittedRefsState_state [OF ci])
  have "chunkStoreRollback cs file = c'" using c'(1) by (simp add: chunkStoreRollback_def c_def Let_def)
  then show "store_inv H U (chunkStoreRollback cs file) file"
    "chunks file (chunkStoreRollback cs file) = committed cs file"
    "committed (chunkStoreRollback cs file) file = committed cs file"
    "refsHash (chunkStoreRollback cs file) = committedRefsHash cs"
    "committedRefsHash (chunkStoreRollback cs file) = committedRefsHash cs"
    "isMemory (chunkStoreRollback cs file) = isMemory cs"
    using c' cc fl by simp_all
qed

section \<open>Transactions of a store in memory\<close>

datatype chunk_op = Put "byte list" | Commit | Rollback

fun exec_chunk :: "(byte list \<Rightarrow> hash) \<Rightarrow> chunk_store \<Rightarrow> chunk_op list \<Rightarrow> chunk_store res" where
  "exec_chunk H cs [] = Inr cs"
| "exec_chunk H cs (Put d # ps) = bindR (chunkStorePut H cs d) (\<lambda>(cs, h). exec_chunk H cs ps)"
| "exec_chunk H cs (Commit # ps) = exec_chunk H (csCommitToMemory cs) ps"
| "exec_chunk H cs (Rollback # ps) = exec_chunk H (chunkStoreRollback cs []) ps"

text \<open>The specification: the chunks of the last commit and the chunks now.\<close>

fun spec_chunk :: "byte list set \<times> byte list set \<Rightarrow> chunk_op \<Rightarrow> byte list set \<times> byte list set" where
  "spec_chunk (C, S) (Put d) = (C, insert d S)"
| "spec_chunk (C, S) Commit = (S, S)"
| "spec_chunk (C, S) Rollback = (C, C)"

definition mem_inv :: "(byte list \<Rightarrow> hash) \<Rightarrow> byte list set \<Rightarrow> chunk_store \<Rightarrow> bool" where
  "mem_inv H U cs \<longleftrightarrow> store_inv H U cs [] \<and> isMemory cs \<and> hash_ok (refsHash cs) \<and> hash_ok (committedRefsHash cs)"

lemma exec_chunk_ok:
  "mem_inv H U cs \<Longrightarrow> {d. Put d \<in> set ps} \<subseteq> U \<Longrightarrow>
     \<exists>cs'. exec_chunk H cs ps = Inr cs' \<and> mem_inv H U cs' \<and>
       (committed cs' [], chunks [] cs') = foldl spec_chunk (committed cs [], chunks [] cs) ps"
proof (induction ps arbitrary: cs)
  case (Cons p ps)
  have inv: "store_inv H U cs []" and m: "isMemory cs" and h: "hash_ok (refsHash cs)" "hash_ok (committedRefsHash cs)"
    using Cons.prems(1) by (simp_all add: mem_inv_def)
  have U: "{d. Put d \<in> set ps} \<subseteq> U" using Cons.prems(2) by auto
  show ?case
  proof (cases p)
    case (Put d)
    then have d: "d \<in> U" using Cons.prems(2) by auto
    obtain c where c: "chunkStorePut H cs d = Inr (c, H d)" "store_inv H U c []"
      "chunks [] c = insert d (chunks [] cs)" "committed c [] = committed cs []"
      "rest c = rest cs"
      by (rule chunkStorePut_ok [OF inv d])
    have "mem_inv H U c" using c(2) m h rest_fields [OF c(5)] by (simp add: mem_inv_def)
    from Cons.IH [OF this U] show ?thesis using c Put by simp
  next
    case Commit
    note c = csCommitToMemory_ok [OF inv m]
    have "mem_inv H U (csCommitToMemory cs)" using c h by (simp add: mem_inv_def)
    from Cons.IH [OF this U] show ?thesis using c Commit by (simp add: chunks_def)
  next
    case Rollback
    note c = chunkStoreRollback_ok [OF inv h(2)]
    have "mem_inv H U (chunkStoreRollback cs [])" using c h m by (simp add: mem_inv_def)
    from Cons.IH [OF this U] show ?thesis using c Rollback by simp
  qed
qed simp

lemma mem_inv_open: "universe H U \<Longrightarrow> mem_inv H U chunkStoreOpenMemory"
  "committed chunkStoreOpenMemory [] = {}" "chunks [] chunkStoreOpenMemory = {}"
  by (simp_all add: mem_inv_def chunkStoreOpenMemory_def chunk_store0_def refs0_def refs_state.defs chunk_store.defs
      store_inv_def ht_inv_def sorted_entries_def committed_def chunks_def pending_def)

text \<open>
  C33. A store in memory is transactional: any sequence of additions, commits and rollbacks on a
  fresh store succeeds, and afterwards every chunk is read back by its hash exactly when the
  specification holds it: it was added and not undone by a rollback to the commit before it.
\<close>

theorem memory_store_refines:
  assumes u: "universe H U" and ps: "{d. Put d \<in> set ps} \<subseteq> U"
  shows "\<exists>cs. exec_chunk H chunkStoreOpenMemory ps = Inr cs \<and>
    (\<forall>d \<in> U. snd (chunkStoreGet cs [] (H d)) =
       (if d \<in> snd (foldl spec_chunk ({}, {}) ps) then Inr d else Inl SQLITE_NOTFOUND))"
proof -
  obtain cs where cs: "exec_chunk H chunkStoreOpenMemory ps = Inr cs" "mem_inv H U cs"
    "(committed cs [], chunks [] cs) = foldl spec_chunk ({}, {}) ps"
    using exec_chunk_ok [OF mem_inv_open(1) [OF u] ps] by (auto simp: mem_inv_open)
  have inv: "store_inv H U cs []" using cs(2) by (simp add: mem_inv_def)
  have "snd (chunkStoreGet cs [] (H d)) = (if d \<in> chunks [] cs then Inr d else Inl SQLITE_NOTFOUND)" if "d \<in> U" for d
    using u by (intro store.get_iff [OF inv that _ store_chunks_U [OF inv]]) (simp add: universe_def)
  moreover have "chunks [] cs = snd (foldl spec_chunk ({}, {}) ps)" using cs(3) by (metis snd_conv)
  ultimately show ?thesis using cs(1) by auto
qed

text \<open>A hash for examples: the bytes padded to twenty.\<close>

definition pad_hash :: "byte list \<Rightarrow> hash" where
  "pad_hash d = take 20 (d @ replicate 20 0)"

lemma memory_store_refines_witness:
  "\<exists>cs. exec_chunk pad_hash chunkStoreOpenMemory [Put [1], Commit, Put [2], Rollback, Put [3]] = Inr cs \<and>
     snd (chunkStoreGet cs [] (pad_hash [1])) = Inr [1] \<and>
     snd (chunkStoreGet cs [] (pad_hash [2])) = Inl SQLITE_NOTFOUND \<and>
     snd (chunkStoreGet cs [] (pad_hash [3])) = Inr [3]"
proof -
  have u: "universe pad_hash {[1], [2], [3]}"
    by (auto simp: universe_def pad_hash_def inj_on_def hash_ok_def PROLLY_HASH_SIZE_def)
  have p: "{d. Put d \<in> set [Put [1], Commit, Put [2], Rollback, Put [3]]} \<subseteq> {[1], [2], [3]}" by auto
  let ?ps = "[Put [1], Commit, Put [2], Rollback, Put [3]]"
  obtain cs where cs: "exec_chunk pad_hash chunkStoreOpenMemory ?ps = Inr cs"
    "\<forall>d \<in> {[1], [2], [3]}. snd (chunkStoreGet cs [] (pad_hash d)) =
       (if d \<in> snd (foldl spec_chunk ({}, {}) ?ps) then Inr d else Inl SQLITE_NOTFOUND)"
    using memory_store_refines [OF u p] by blast
  have "snd (foldl spec_chunk ({}, {}) ?ps) = {[1], [3]}" by auto
  then show ?thesis using cs by (intro exI [of _ cs]) simp
qed

end
