(* ===== verification/ChunkFile.thy ===== *)
theory ChunkFile
  imports ChunkStoreInv
begin

text \<open>
  The chunk store on disk (\<open>chunk_store.c\<close>): the manifest, the index region, the log of chunk and
  root records that follows it, its replay when a store is opened, and the commit that appends to
  it.  The contents of the path are a byte string, or \<open>None\<close> when there is no file.  A write goes
  to a device with room for a number of bytes: it stores what fits and fails when that is not all.
  So a full device is a failed write, and the bytes on the device when the room runs out are those
  a crash at that point leaves.

  What the operating system answers is a parameter: whether the file can be opened for writing,
  whether it can be mapped, and whether its lock is free.  Another process neither writes nor
  replaces the file, truncation and synchronisation succeed.
\<close>

section \<open>The environment\<close>

record cs_env =
  envWritable :: bool
  envMap :: bool
  envLock :: bool

record os_file =
  fBytes :: "byte list"
  fRoom :: nat

definition sqlite3OsWrite :: "os_file \<Rightarrow> byte list \<Rightarrow> nat \<Rightarrow> os_file \<times> bool" where
  "sqlite3OsWrite fl d off =
     (let k = min (length d) (fRoom fl) in
      (fl\<lparr>fBytes := memcpy (fBytes fl) off (take k d), fRoom := fRoom fl - k\<rparr>, k = length d))"

section \<open>Manifest and index\<close>

definition CHUNK_STORE_MAGIC :: u32 where "CHUNK_STORE_MAGIC = 0x444C5443"
definition CHUNK_STORE_VERSION :: u32 where "CHUNK_STORE_VERSION = 11"
definition CHUNK_INDEX_ENTRY_SIZE :: nat where "CHUNK_INDEX_ENTRY_SIZE = 32"
definition CS_WAL_TAG_CHUNK :: byte where "CS_WAL_TAG_CHUNK = 1"
definition CS_WAL_TAG_ROOT :: byte where "CS_WAL_TAG_ROOT = 2"
definition LARGEST_INT64 :: int where "LARGEST_INT64 = 0x7FFFFFFFFFFFFFFF"

definition csSerializeManifest :: "chunk_store \<Rightarrow> byte list" where
  "csSerializeManifest cs =
     (let buf = replicate CHUNK_MANIFEST_SIZE 0;
          buf = memcpy buf 0 (put_u32 CHUNK_STORE_MAGIC);
          buf = memcpy buf 4 (put_u32 CHUNK_STORE_VERSION);
          buf = memcpy buf 28 (put_u32 (of_int (nChunks cs)));
          buf = memcpy buf 32 (put_i64 (of_int (iIndexOffset cs)));
          buf = memcpy buf 40 (put_u32 (of_int (nIndexSize cs)));
          buf = memcpy buf 84 (put_i64 (of_int (iWalOffset cs)))
      in memcpy buf 104 (refsHash cs))"

definition csReadManifest :: "chunk_store \<Rightarrow> byte list \<Rightarrow> chunk_store res" where
  "csReadManifest cs file =
     bindR (sqlite3OsRead file (int CHUNK_MANIFEST_SIZE) 0) (\<lambda>aBuf.
     bindR (get_u32 aBuf 0) (\<lambda>magic.
     bindR (get_u32 aBuf 4) (\<lambda>version.
     bindR (guardR (magic = CHUNK_STORE_MAGIC) SQLITE_NOTADB) (\<lambda>_.
     bindR (guardR (version = CHUNK_STORE_VERSION) SQLITE_NOTADB) (\<lambda>_.
     bindR (get_u32 aBuf 28) (\<lambda>nChunks'.
     bindR (get_i64 aBuf 32) (\<lambda>indexOffset.
     bindR (get_u32 aBuf 40) (\<lambda>indexSize.
     bindR (get_i64 aBuf 84) (\<lambda>walOffset.
     bindR (read_bytes aBuf 104 PROLLY_HASH_SIZE) (\<lambda>h.
     Inr (cs\<lparr>nChunks := sint nChunks', iIndexOffset := sint indexOffset, nIndexSize := uint indexSize,
              iWalOffset := sint walOffset, refsHash := h\<rparr>)))))))))))"

definition csDeserializeIndexEntry :: "byte list \<Rightarrow> nat \<Rightarrow> chunk_entry res" where
  "csDeserializeIndexEntry aBuf p =
     bindR (read_bytes aBuf p PROLLY_HASH_SIZE) (\<lambda>h.
     bindR (get_i64 aBuf (p + PROLLY_HASH_SIZE)) (\<lambda>off.
     bindR (get_u32 aBuf (p + PROLLY_HASH_SIZE + 8)) (\<lambda>sz.
     Inr \<lparr>eHash = h, eOffset = sint off, eSize = sint sz\<rparr>)))"

fun read_entries :: "byte list \<Rightarrow> nat \<Rightarrow> nat \<Rightarrow> chunk_entry list res" where
  "read_entries aBuf i 0 = Inr []"
| "read_entries aBuf i (Suc n) =
     bindR (csDeserializeIndexEntry aBuf (i * CHUNK_INDEX_ENTRY_SIZE)) (\<lambda>e.
     bindR (read_entries aBuf (i + 1) n) (\<lambda>es. Inr (e # es)))"

text \<open>The mapped index is the bytes of the file, which the packed struct reads as the index
  format; a mapping that reaches beyond the file has no defined contents.\<close>

definition csReadIndex :: "cs_env \<Rightarrow> chunk_store \<Rightarrow> byte list \<Rightarrow> chunk_store res" where
  "csReadIndex env cs file =
     (if nIndexSize cs = 0 \<or> nChunks cs = 0 then Inr (cs\<lparr>aIndex := []\<rparr>)
      else
        let nEntries = nIndexSize cs div int CHUNK_INDEX_ENTRY_SIZE in
        bindR (guardR (\<not> nEntries * int CHUNK_INDEX_ENTRY_SIZE \<noteq> nIndexSize cs) SQLITE_CORRUPT) (\<lambda>_.
        bindR (guardR (\<not> nEntries > INT_MAX) SQLITE_TOOBIG) (\<lambda>_.
        if envMap env \<and> iIndexOffset cs \<ge> 0 then
          bindR (read_buf file (iIndexOffset cs) (nIndexSize cs)) (\<lambda>aBuf.
          bindR (read_entries aBuf 0 (nat nEntries)) (\<lambda>es. Inr (cs\<lparr>aIndex := es\<rparr>)))
        else
          bindR (sqlite3OsRead file (nIndexSize cs) (iIndexOffset cs)) (\<lambda>aBuf.
          bindR (read_entries aBuf 0 (nat nEntries)) (\<lambda>es. Inr (cs\<lparr>aIndex := es\<rparr>))))))"

section \<open>Replaying the log\<close>

text \<open>The loop over the records.  It returns the store, the number of pending chunks at the last
  root record, and the number of root records.\<close>

function replay_loop :: "byte list \<Rightarrow> nat \<Rightarrow> nat \<Rightarrow> nat \<Rightarrow> chunk_store \<Rightarrow> nat \<Rightarrow> nat \<Rightarrow> (chunk_store \<times> nat \<times> nat) res" where
  "replay_loop file wal walSize pos cs rooted roots =
     (if pos < walSize then
        bindR (sqlite3OsRead file 1 (int (wal + pos))) (\<lambda>tag.
        let pos = pos + 1 in
        if tag ! 0 = CS_WAL_TAG_CHUNK then
          if pos + 20 + 4 > walSize then Inr (cs, rooted, roots)
          else
            bindR (sqlite3OsRead file 24 (int (wal + pos))) (\<lambda>aHdr.
            bindR (get_u32 aHdr 20) (\<lambda>len.
            let h = take 20 aHdr; pos = pos + 24 in
            if int pos + uint len > int walSize then Inr (cs, rooted, roots)
            else
              bindR (if csSearchIndex (aIndex cs) h = None then
                       push_pending (csGrowPending cs) \<lparr>eHash = h, eOffset = int (wal + (pos - 4)), eSize = sint len\<rparr>
                     else Inr cs) (\<lambda>cs.
              replay_loop file wal walSize (pos + nat (uint len)) cs rooted roots)))
        else if tag ! 0 = CS_WAL_TAG_ROOT then
          if pos + CHUNK_MANIFEST_SIZE > walSize then Inr (cs, rooted, roots)
          else
            bindR (sqlite3OsRead file (int CHUNK_MANIFEST_SIZE) (int (wal + pos))) (\<lambda>m.
            bindR (get_u32 m 0) (\<lambda>magic.
            if magic \<noteq> CHUNK_STORE_MAGIC then Inr (cs, rooted, roots)
            else
              bindR (get_u32 m 28) (\<lambda>n.
              bindR (read_bytes m 104 PROLLY_HASH_SIZE) (\<lambda>h.
              let cs = cs\<lparr>nChunks := sint n, refsHash := h\<rparr> in
              replay_loop file wal walSize (pos + CHUNK_MANIFEST_SIZE) cs (nPending cs) (roots + 1)))))
        else Inl SQLITE_CORRUPT)
      else Inr (cs, rooted, roots))"
  by pat_completeness auto
termination by (relation "measure (\<lambda>(file, wal, walSize, pos, cs, rooted, roots). walSize - pos)") auto

declare replay_loop.simps [simp del]

text \<open>The references of the replayed root.\<close>

definition replay_refs :: "chunk_store \<Rightarrow> byte list \<Rightarrow> chunk_store res" where
  "replay_refs cs file =
     (if \<not> prollyHashIsEmpty (refsHash cs) then
        let (cs, r) = chunkStoreGet cs file (refsHash cs) in
        bindR r (\<lambda>refsData.
        bindR (csReplaceRefsStateFromBlob (\<lambda>c. c) refs0 refsData False) (\<lambda>tmpRefs.
        Inr (csEnsureDefaultBranch (csAdoptRefsState (csFreeRefsState cs) tmpRefs))))
      else Inr (csEnsureDefaultBranch cs))"

definition csReplayWal :: "chunk_store \<Rightarrow> byte list \<Rightarrow> chunk_store res" where
  "csReplayWal cs file =
     (let nPendingBefore = nPending cs in
      if iWalOffset cs \<le> 0 \<or> \<not> pFile cs then Inr cs
      else
        let fileSize = int (length file); walSize = fileSize - iWalOffset cs; cs = cs\<lparr>iFileSize := fileSize\<rparr> in
        if walSize \<le> 0 then
          (if nIndex cs = 0 \<and> nChunks cs = 0 \<and> \<not> prollyHashIsEmpty (refsHash cs)
           then Inr (cs\<lparr>refsHash := hash0\<rparr>) else Inr cs)
        else
          let cs = cs\<lparr>nWalData := walSize\<rparr> in
          bindR (replay_loop file (nat (iWalOffset cs)) (nat walSize) 0 cs (nPending cs) 0) (\<lambda>(cs, rooted, roots).
          let cs = cs\<lparr>aPending := take rooted (aPending cs)\<rparr>;
              cs = (if roots = 0 \<and> nPendingBefore = 0 \<and> nIndex cs = 0 then cs\<lparr>refsHash := hash0, nChunks := 0\<rparr> else cs);
              cs = (if nPending cs > 0 then
                      csPendHTClear (cs\<lparr>aIndex := csMergeIndex (aIndex cs) (aPending cs), aPending := []\<rparr>)
                    else cs)
          in replay_refs cs file))"

section \<open>Opening and reloading\<close>

text \<open>The store and its references after \<open>csReplayWal\<close>.\<close>

definition open_refs :: "chunk_store \<Rightarrow> byte list \<Rightarrow> chunk_store res" where
  "open_refs cs file =
     (if \<not> prollyHashIsEmpty (refsHash cs) then
        let (cs, r) = chunkStoreGet cs file (refsHash cs) in
        bindR r (\<lambda>refsData. bindR (csDeserializeRefs cs refsData) (\<lambda>cs. Inr (csEnsureDefaultBranch cs)))
      else Inr (csEnsureDefaultBranch cs))"

definition chunkStoreOpen :: "cs_env \<Rightarrow> byte list option \<Rightarrow> bool \<Rightarrow> chunk_store res" where
  "chunkStoreOpen env disk create =
     (case disk of
        Some (b # bs) \<Rightarrow>
          let file = b # bs; cs = chunk_store0\<lparr>pFile := True, readOnly := \<not> envWritable env\<rparr> in
          bindR (csReadManifest cs file) (\<lambda>cs.
          bindR (csReadIndex env cs file) (\<lambda>cs.
          bindR (csReplayWal cs file) (\<lambda>cs.
          bindR (open_refs cs file) (\<lambda>cs. Inr (csMarkRefsCommitted cs)))))
      | _ \<Rightarrow>
          if \<not> create then Inl SQLITE_CANTOPEN
          else Inr (csMarkRefsCommitted (chunk_store0\<lparr>iWalOffset := int CHUNK_MANIFEST_SIZE\<rparr>)))"

definition csAdoptOpenedStoreState :: "chunk_store \<Rightarrow> chunk_store \<Rightarrow> chunk_store" where
  "csAdoptOpenedStoreState dst src =
     (csAdoptRefsState dst src)\<lparr>pFile := pFile src, readOnly := readOnly src, refsHash := refsHash src,
       committedRefsHash := committedRefsHash src, nChunks := nChunks src, iIndexOffset := iIndexOffset src,
       nIndexSize := nIndexSize src, iWalOffset := iWalOffset src, iFileSize := iFileSize src,
       aIndex := aIndex src, nWalData := nWalData src\<rparr>"

definition csReloadFromDisk :: "cs_env \<Rightarrow> chunk_store \<Rightarrow> byte list option \<Rightarrow> chunk_store res" where
  "csReloadFromDisk env cs disk =
     bindR (chunkStoreOpen env disk True) (\<lambda>tmp. Inr (csAdoptOpenedStoreState cs tmp))"

definition disk_size :: "byte list option \<Rightarrow> int" where
  "disk_size disk = (case disk of Some file \<Rightarrow> int (length file) | None \<Rightarrow> 0)"

definition csDetectExternalChanges :: "chunk_store \<Rightarrow> byte list option \<Rightarrow> bool" where
  "csDetectExternalChanges cs disk =
     (if isMemory cs then False
      else if \<not> pFile cs then disk_size disk > 0
      else disk_size disk > iFileSize cs)"

definition chunkStoreRefreshIfChanged :: "cs_env \<Rightarrow> chunk_store \<Rightarrow> byte list option \<Rightarrow> (chunk_store \<times> bool) res" where
  "chunkStoreRefreshIfChanged env cs disk =
     (if isMemory cs then Inr (cs, False)
      else if snapshotPinned cs then Inr (cs, False)
      else if \<not> csDetectExternalChanges cs disk then Inr (cs, False)
      else bindR (csReloadFromDisk env cs disk) (\<lambda>cs. Inr (cs, True)))"

definition chunkStoreUnlock :: "chunk_store \<Rightarrow> chunk_store" where
  "chunkStoreUnlock cs = (if graphLockFd cs \<ge> 0 then cs\<lparr>graphLockFd := -1\<rparr> else cs)"

text \<open>The number of the lock's descriptor does not matter; the model takes 0.\<close>

definition chunkStoreLockAndRefresh :: "cs_env \<Rightarrow> chunk_store \<Rightarrow> byte list option \<Rightarrow> chunk_store \<times> unit res" where
  "chunkStoreLockAndRefresh env cs disk =
     (if isMemory cs then (cs, Inr ())
      else if graphLockFd cs \<ge> 0 then (cs, Inr ())
      else if \<not> envLock env then (cs, Inl SQLITE_BUSY)
      else
        let cs = cs\<lparr>graphLockFd := 0\<rparr> in
        case chunkStoreRefreshIfChanged env cs disk of
          Inl e \<Rightarrow> (cs\<lparr>graphLockFd := -1\<rparr>, Inl e)
        | Inr (cs, changed) \<Rightarrow> (cs, Inr ()))"

section \<open>Committing\<close>

text \<open>The offsets the pending chunks will have in the file, and the check of their total size.\<close>

fun committed_offsets :: "int \<Rightarrow> chunk_entry list \<Rightarrow> chunk_entry list" where
  "committed_offsets filePos [] = []"
| "committed_offsets filePos (e # es) =
     e\<lparr>eOffset := filePos + 21\<rparr> # committed_offsets (filePos + 25 + eSize e) es"

fun append_bytes :: "int \<Rightarrow> chunk_entry list \<Rightarrow> int res" where
  "append_bytes n [] = Inr n"
| "append_bytes n (e # es) =
     (let recBytes = 25 + eSize e in
      if n > LARGEST_INT64 - recBytes then Inl SQLITE_TOOBIG else append_bytes (n + recBytes) es)"

text \<open>The data of a chunk goes out in pieces of at most 64 kilobytes; the results are the device, the
  offset of the next write and the error.\<close>

function write_pieces :: "os_file \<Rightarrow> nat \<Rightarrow> byte list \<Rightarrow> os_file \<times> nat \<times> rc option" where
  "write_pieces fl off d =
     (if d = [] then (fl, off, None)
      else
        let toWrite = (if length d > 65536 then 65536 else length d);
            (fl, ok) = sqlite3OsWrite fl (take toWrite d) off; off = off + toWrite
        in if ok then write_pieces fl off (drop toWrite d) else (fl, off, Some SQLITE_FULL))"
  by pat_completeness auto
termination by (relation "measure (\<lambda>(fl, off, d). length d)") (auto split: if_splits)

declare write_pieces.simps [simp del]

fun write_chunks :: "os_file \<Rightarrow> nat \<Rightarrow> byte list \<Rightarrow> chunk_entry list \<Rightarrow> os_file \<times> nat \<times> rc option" where
  "write_chunks fl writeOff buf [] = (fl, writeOff, None)"
| "write_chunks fl writeOff buf (e # es) =
     (let (fl, ok) = sqlite3OsWrite fl ([CS_WAL_TAG_CHUNK] @ eHash e @ put_u32 (of_int (eSize e))) writeOff in
      if \<not> ok then (fl, writeOff, Some SQLITE_FULL)
      else
        case read_buf buf (eOffset e + 4) (eSize e) of
          Inl rc \<Rightarrow> (fl, writeOff + 25, Some rc)
        | Inr d \<Rightarrow>
            (case write_pieces fl (writeOff + 25) d of
               (fl, writeOff, Some rc) \<Rightarrow> (fl, writeOff, Some rc)
             | (fl, writeOff, None) \<Rightarrow> write_chunks fl writeOff buf es))"

definition write_root :: "os_file \<Rightarrow> nat \<Rightarrow> chunk_store \<Rightarrow> os_file \<times> nat \<times> rc option" where
  "write_root fl writeOff cs =
     (let (fl, ok) = sqlite3OsWrite fl ([CS_WAL_TAG_ROOT] @ csSerializeManifest cs) writeOff in
      if \<not> ok then (fl, writeOff, Some SQLITE_FULL) else (fl, writeOff + (1 + CHUNK_MANIFEST_SIZE), None))"

text \<open>All the writes of a commit: the manifest of a new file, the chunks, the root.\<close>

definition commit_writes :: "os_file \<Rightarrow> chunk_store \<Rightarrow> os_file \<times> nat \<times> rc option" where
  "commit_writes fl cs =
     (let fileSize = length (fBytes fl);
          (fl, ok) = (if fileSize = 0 then sqlite3OsWrite fl (csSerializeManifest cs) 0 else (fl, True)) in
      if \<not> ok then (fl, 0, Some SQLITE_FULL)
      else
        let fileSize = (if fileSize = 0 then CHUNK_MANIFEST_SIZE else fileSize) in
        case write_chunks fl fileSize (pWriteBuf cs) (aPending cs) of
          (fl, writeOff, Some rc) \<Rightarrow> (fl, writeOff, Some rc)
        | (fl, writeOff, None) \<Rightarrow> write_root fl writeOff cs)"

definition csRollbackFailedAppend :: "os_file \<Rightarrow> nat \<Rightarrow> os_file" where
  "csRollbackFailedAppend fl origFileSize = fl\<lparr>fBytes := take origFileSize (fBytes fl)\<rparr>"

text \<open>The label \<open>commit_done\<close> of a failed commit.\<close>

definition commit_failed :: "rc \<Rightarrow> chunk_store \<Rightarrow> os_file \<Rightarrow> nat \<Rightarrow> nat \<Rightarrow> unit res \<times> chunk_store \<times> os_file" where
  "commit_failed rc cs fl writeOff origFileSize =
     (let fl = (if writeOff > origFileSize then csRollbackFailedAppend fl origFileSize else fl)
      in (Inl rc, fst (csRestoreCommittedRefsState cs (fBytes fl)), fl))"

definition csCommitToFile :: "cs_env \<Rightarrow> chunk_store \<Rightarrow> os_file \<Rightarrow> unit res \<times> chunk_store \<times> os_file" where
  "csCommitToFile env cs fl =
     (let hadFile = pFile cs; cs = cs\<lparr>pFile := True\<rparr> in
      if \<not> (graphLockFd cs \<ge> 0 \<or> envLock env) then (Inl SQLITE_BUSY, cs, fl)
      else
        case (if int (length (fBytes fl)) > iFileSize cs \<and> hadFile
              then csReloadFromDisk env cs (Some (fBytes fl)) else Inr cs) of
          Inl rc \<Rightarrow> commit_failed rc cs fl 0 0
        | Inr cs \<Rightarrow>
            let fileSize = length (fBytes fl);
                filePos = (if fileSize > 0 then int fileSize else int CHUNK_MANIFEST_SIZE) in
            (case append_bytes 0 (aPending cs) of
               Inl rc \<Rightarrow> commit_failed rc cs fl 0 fileSize
             | Inr appendBytes \<Rightarrow>
                 if nWalData cs > LARGEST_INT64 - appendBytes then commit_failed SQLITE_TOOBIG cs fl 0 fileSize
                 else
                   let merged = csMergeIndex (aIndex cs) (committed_offsets filePos (aPending cs));
                       newWalSize = nWalData cs + appendBytes;
                       cs = (if fileSize = 0 then cs\<lparr>iWalOffset := int CHUNK_MANIFEST_SIZE\<rparr> else cs) in
                   case commit_writes fl cs of
                     (fl, writeOff, Some rc) \<Rightarrow> commit_failed rc cs fl writeOff fileSize
                   | (fl, writeOff, None) \<Rightarrow>
                       let cs = cs\<lparr>iFileSize := int writeOff\<rparr>;
                           cs = (if nPending cs > 0 then cs\<lparr>aIndex := merged, nWalData := newWalSize\<rparr> else cs);
                           cs = csPendHTClear (cs\<lparr>pWriteBuf := [], nWriteBufAlloc := 0, aPending := []\<rparr>)
                       in (Inr (), csMarkRefsCommitted cs, fl)))"

definition chunkStoreCommit :: "cs_env \<Rightarrow> chunk_store \<Rightarrow> os_file \<Rightarrow> unit res \<times> chunk_store \<times> os_file" where
  "chunkStoreCommit env cs fl =
     (if readOnly cs then (Inl SQLITE_READONLY, cs, fl)
      else if isMemory cs then (Inr (), csCommitToMemory cs, fl)
      else if graphLockFd cs < 0 then
        (case chunkStoreLockAndRefresh env cs (Some (fBytes fl)) of
           (cs, Inl rc) \<Rightarrow> (Inl rc, cs, fl)
         | (cs, Inr _) \<Rightarrow>
             let (rc, cs, fl) = csCommitToFile env cs fl in (rc, chunkStoreUnlock cs, fl))
      else csCommitToFile env cs fl)"

end
