(* ===== verification/ChunkDisk.thy ===== *)
theory ChunkDisk
  imports ChunkFile
begin

text \<open>
  What the chunk store keeps on disk (\<open>chunk_store.c\<close>).  A file is a compacted part, its manifest
  and index, followed by a log of chunk and root records; the last record may be cut short.  The
  replay of such a file is computed record by record, and opening it yields exactly the chunks and
  the references of its complete records.
\<close>

section \<open>The log as records\<close>

datatype wal_rec = WalChunk "byte list" | WalRoot "byte list"

fun rec_bytes :: "(byte list \<Rightarrow> hash) \<Rightarrow> wal_rec \<Rightarrow> byte list" where
  "rec_bytes H (WalChunk d) = [CS_WAL_TAG_CHUNK] @ H d @ put_u32 (of_nat (length d)) @ d"
| "rec_bytes H (WalRoot m) = [CS_WAL_TAG_ROOT] @ m"

definition log_bytes :: "(byte list \<Rightarrow> hash) \<Rightarrow> wal_rec list \<Rightarrow> byte list" where
  "log_bytes H rs = concat (map (rec_bytes H) rs)"

lemma log_bytes_simps [simp]:
  "log_bytes H [] = []" "log_bytes H (r # rs) = rec_bytes H r @ log_bytes H rs"
  "log_bytes H (rs @ rs') = log_bytes H rs @ log_bytes H rs'"
  by (simp_all add: log_bytes_def)

fun rec_ok :: "byte list set \<Rightarrow> wal_rec \<Rightarrow> bool" where
  "rec_ok U (WalChunk d) \<longleftrightarrow> d \<in> U"
| "rec_ok U (WalRoot m) \<longleftrightarrow> length m = CHUNK_MANIFEST_SIZE \<and> get_u32 m 0 = Inr CHUNK_STORE_MAGIC"

text \<open>The references hash and the chunk count of a manifest.\<close>

definition root_refs :: "byte list \<Rightarrow> hash" where
  "root_refs m = take PROLLY_HASH_SIZE (drop 104 m)"

definition root_chunks :: "byte list \<Rightarrow> int" where
  "root_chunks m = (case get_u32 m 28 of Inr n \<Rightarrow> sint n | Inl _ \<Rightarrow> 0)"

text \<open>What the replay does with one record that starts at an offset.\<close>

type_synonym replay_state = "chunk_store \<times> nat \<times> nat"

fun apply_rec :: "(byte list \<Rightarrow> hash) \<Rightarrow> nat \<Rightarrow> replay_state \<Rightarrow> wal_rec \<Rightarrow> replay_state" where
  "apply_rec H off (cs, rooted, roots) (WalChunk d) =
     (if csSearchIndex (aIndex cs) (H d) = None then
        (csGrowPending cs)\<lparr>aPending := aPending cs @ [\<lparr>eHash = H d, eOffset = int off + 21, eSize = int (length d)\<rparr>]\<rparr>
      else cs, rooted, roots)"
| "apply_rec H off (cs, rooted, roots) (WalRoot m) =
     (cs\<lparr>nChunks := root_chunks m, refsHash := root_refs m\<rparr>, nPending cs, roots + 1)"

fun apply_recs :: "(byte list \<Rightarrow> hash) \<Rightarrow> nat \<Rightarrow> replay_state \<Rightarrow> wal_rec list \<Rightarrow> replay_state" where
  "apply_recs H off st [] = st"
| "apply_recs H off st (r # rs) = apply_recs H (off + length (rec_bytes H r)) (apply_rec H off st r) rs"

lemma at_off_read:
  assumes "at_off f p (xs @ s)" "n = int (length xs)" "q = int p"
  shows "sqlite3OsRead f n q = Inr xs"
  using at_off_bytes(1) [OF assms(1) refl] assms by (simp add: sqlite3OsRead_def read_bytes_def split: if_splits)

lemma manifest_reads:
  assumes "length m = CHUNK_MANIFEST_SIZE"
  shows "get_u32 m 28 = Inr n \<Longrightarrow> root_chunks m = sint n" "\<exists>n. get_u32 m 28 = Inr n"
    "read_bytes m 104 PROLLY_HASH_SIZE = Inr (root_refs m)"
  using assms by (simp_all add: root_chunks_def root_refs_def get_u32_def CHUNK_MANIFEST_SIZE_def PROLLY_HASH_SIZE_def)

lemma uint_of_nat32: "n < 2147483648 \<Longrightarrow> uint (of_nat n :: u32) = int n"
  by (simp add: uint_nat unat_of_nat take_bit_eq_mod)

lemma replay_chunk:
  assumes at: "at_off file (wal + pos) (rec_bytes H (WalChunk d) @ s)" and n: "length file = wal + n"
    and u: "universe H U" and d: "d \<in> U" and al: "nPending cs \<le> nPendingAlloc cs"
  shows "replay_loop file wal n pos cs rooted roots =
     (case apply_rec H (wal + pos) (cs, rooted, roots) (WalChunk d) of
        (cs', rooted', roots') \<Rightarrow> replay_loop file wal n (pos + length (rec_bytes H (WalChunk d))) cs' rooted' roots')"
proof -
  have hl: "length (H d) = 20" and dl: "length d < 2147483648"
    using u d by (simp_all add: universe_def hash_ok_def PROLLY_HASH_SIZE_def)
  let ?len = "put_u32 (of_nat (length d))"
  have a0: "at_off file (wal + pos) ([CS_WAL_TAG_CHUNK] @ (H d @ ?len) @ d @ s)" using at by simp
  have r0: "sqlite3OsRead file 1 (int (wal + pos)) = Inr [CS_WAL_TAG_CHUNK]" by (rule at_off_read [OF a0]) simp_all
  have a1: "at_off file (wal + (pos + 1)) ((H d @ ?len) @ d @ s)" using at_off_bytes(2) [OF a0 refl] by simp
  have r1: "sqlite3OsRead file 24 (int (wal + (pos + 1))) = Inr (H d @ ?len)" by (rule at_off_read [OF a1]) (simp_all add: hl)
  have le: "wal + pos + (25 + length d) + length s = wal + n" using at_off_le [OF a0] n by (simp add: hl)
  have g: "get_u32 (H d @ ?len) 20 = Inr (of_nat (length d))" using get_u32_put [of 20 "H d" _ "[]"] hl by simp
  have c: "pos < n" "\<not> pos + 1 + 20 + 4 > n" "\<not> int (pos + 1 + 24) + uint (of_nat (length d) :: u32) > int n"
    using le dl by (simp_all add: uint_of_nat32)
  have rl: "length (rec_bytes H (WalChunk d)) = 25 + length d" by (simp add: hl)
  let ?e = "\<lparr>eHash = H d, eOffset = int (wal + pos) + 21, eSize = int (length d)\<rparr>"
  have p: "push_pending (csGrowPending cs) ?e = Inr ((csGrowPending cs)\<lparr>aPending := aPending cs @ [?e]\<rparr>)"
    using al by (simp add: push_pending_def csGrowPending_def CS_INIT_PENDING_ALLOC_def)
  have e: "int (wal + (pos + 1 + 24 - 4)) = int (wal + pos) + 21" "sint (of_nat (length d) :: u32) = int (length d)"
    using dl by (simp_all add: sint_of_nat32)
  have h: "take 20 (H d @ ?len) = H d" using hl by simp
  have q: "pos + 1 + 24 + nat (uint (of_nat (length d) :: u32)) = pos + (25 + length d)" using dl by (simp add: uint_of_nat32)
  note steps = c if_True if_False r0 r1 g bindR_Inr Let_def nth_Cons_0 e h p q apply_rec.simps prod.case simp_thms
  show ?thesis
    unfolding rl
    by (subst replay_loop.simps, cases "csSearchIndex (aIndex cs) (H d) = None") (simp_all only: steps)
qed

lemma replay_root:
  assumes at: "at_off file (wal + pos) (rec_bytes H (WalRoot m) @ s)" and n: "length file = wal + n"
    and ok: "rec_ok U (WalRoot m)"
  shows "replay_loop file wal n pos cs rooted roots =
     (case apply_rec H (wal + pos) (cs, rooted, roots) (WalRoot m) of
        (cs', rooted', roots') \<Rightarrow> replay_loop file wal n (pos + length (rec_bytes H (WalRoot m))) cs' rooted' roots')"
proof -
  have l: "length m = CHUNK_MANIFEST_SIZE" and g: "get_u32 m 0 = Inr CHUNK_STORE_MAGIC" using ok by simp_all
  have a0: "at_off file (wal + pos) ([CS_WAL_TAG_ROOT] @ m @ s)" using at by simp
  have r0: "sqlite3OsRead file 1 (int (wal + pos)) = Inr [CS_WAL_TAG_ROOT]" by (rule at_off_read [OF a0]) simp_all
  have a1: "at_off file (wal + (pos + 1)) (m @ s)" using at_off_bytes(2) [OF a0 refl] by simp
  have r1: "sqlite3OsRead file (int CHUNK_MANIFEST_SIZE) (int (wal + (pos + 1))) = Inr m"
    by (rule at_off_read [OF a1]) (simp_all add: l)
  have le: "wal + pos + (1 + CHUNK_MANIFEST_SIZE) + length s = wal + n" using at_off_le [OF a0] n by (simp add: l)
  have c: "pos < n" "\<not> pos + 1 + CHUNK_MANIFEST_SIZE > n" using le by simp_all
  have t: "CS_WAL_TAG_ROOT \<noteq> CS_WAL_TAG_CHUNK" by (simp add: CS_WAL_TAG_ROOT_def CS_WAL_TAG_CHUNK_def)
  obtain k where k: "get_u32 m 28 = Inr k" using manifest_reads(2) [OF l] by blast
  note m = manifest_reads(1) [OF l k] manifest_reads(3) [OF l]
  have rl: "length (rec_bytes H (WalRoot m)) = 1 + CHUNK_MANIFEST_SIZE" by (simp add: l)
  have np: "nPending (cs\<lparr>nChunks := x, refsHash := y\<rparr>) = nPending cs" for x y by simp
  show ?thesis
    unfolding rl add.assoc [symmetric]
    by (subst replay_loop.simps)
       (simp only: c t if_True if_False r0 r1 g k m bindR_Inr Let_def nth_Cons_0 apply_rec.simps prod.case simp_thms np)
qed

lemma apply_rec_alloc:
  "nPending cs \<le> nPendingAlloc cs \<Longrightarrow> apply_rec H off (cs, rooted, roots) r = (cs', rooted', roots') \<Longrightarrow>
     nPending cs' \<le> nPendingAlloc cs'"
  by (cases r) (auto simp: csGrowPending_def CS_INIT_PENDING_ALLOC_def Suc_le_eq split: if_splits)

lemma replay_recs:
  "at_off file (wal + pos) (log_bytes H rs @ s) \<Longrightarrow> length file = wal + n \<Longrightarrow> universe H U \<Longrightarrow>
     \<forall>r \<in> set rs. rec_ok U r \<Longrightarrow> nPending cs \<le> nPendingAlloc cs \<Longrightarrow>
     replay_loop file wal n pos cs rooted roots =
       (case apply_recs H (wal + pos) (cs, rooted, roots) rs of
          (cs', rooted', roots') \<Rightarrow> replay_loop file wal n (pos + length (log_bytes H rs)) cs' rooted' roots')"
proof (induction rs arbitrary: pos cs rooted roots)
  case (Cons r rs)
  obtain c1 rd1 ro1 where a: "apply_rec H (wal + pos) (cs, rooted, roots) r = (c1, rd1, ro1)" by (cases "apply_rec H (wal + pos) (cs, rooted, roots) r")
  have at: "at_off file (wal + pos) (rec_bytes H r @ log_bytes H rs @ s)" using Cons.prems(1) by simp
  have step: "replay_loop file wal n pos cs rooted roots =
      replay_loop file wal n (pos + length (rec_bytes H r)) c1 rd1 ro1"
  proof (cases r)
    case (WalChunk d)
    then have d: "d \<in> U" using Cons.prems(4) by simp
    show ?thesis using replay_chunk [OF at [unfolded WalChunk] Cons.prems(2,3) d Cons.prems(5)] a WalChunk by simp
  next
    case (WalRoot m)
    have ok: "rec_ok U (WalRoot m)" using Cons.prems(4) WalRoot by simp
    show ?thesis using replay_root [OF at [unfolded WalRoot] Cons.prems(2) ok] a WalRoot by simp
  qed
  have at': "at_off file (wal + (pos + length (rec_bytes H r))) (log_bytes H rs @ s)"
    using at_off_bytes(2) [OF at refl] by (simp add: add.assoc)
  have ok': "\<forall>r \<in> set rs. rec_ok U r" using Cons.prems(4) by simp
  note ih = Cons.IH [OF at' Cons.prems(2,3) ok' apply_rec_alloc [OF Cons.prems(5) a]]
  show ?case unfolding step ih using a by (simp add: add.assoc)
qed simp

text \<open>A record cut short stops the replay.\<close>

definition torn :: "(byte list \<Rightarrow> hash) \<Rightarrow> byte list set \<Rightarrow> byte list \<Rightarrow> bool" where
  "torn H U s \<longleftrightarrow> s = [] \<or> (\<exists>r k. rec_ok U r \<and> k < length (rec_bytes H r) \<and> s = take k (rec_bytes H r))"

lemma replay_torn:
  assumes at: "at_off file (wal + pos) s" and n: "length file = wal + n" and u: "universe H U" and t: "torn H U s"
  shows "replay_loop file wal n pos cs rooted roots = Inr (cs, rooted, roots)"
proof (cases "s = []")
  case True
  then show ?thesis using at_off_le [OF at] n by (subst replay_loop.simps) simp
next
  case False
  then obtain r k where r: "rec_ok U r" "k < length (rec_bytes H r)" "s = take k (rec_bytes H r)"
    using t by (auto simp: torn_def)
  have k: "k \<noteq> 0" using False r(3) by auto
  have len: "wal + pos + k = wal + n" using at_off_le [OF at] n r(2,3) by simp
  have pn: "pos < n" using len k by simp
  show ?thesis
  proof (cases r)
    case (WalRoot m)
    have l: "length m = CHUNK_MANIFEST_SIZE" using r(1) WalRoot by simp
    obtain j where j: "k = Suc j" using k by (cases k) simp_all
    have s: "s = [CS_WAL_TAG_ROOT] @ take j m" using r(3) WalRoot j by simp
    have r0: "sqlite3OsRead file 1 (int (wal + pos)) = Inr [CS_WAL_TAG_ROOT]" by (rule at_off_read [OF at [unfolded s]]) simp_all
    have c: "pos + 1 + CHUNK_MANIFEST_SIZE > n" using r(2) WalRoot l len j by simp
    have t: "CS_WAL_TAG_ROOT \<noteq> CS_WAL_TAG_CHUNK" by (simp add: CS_WAL_TAG_ROOT_def CS_WAL_TAG_CHUNK_def)
    show ?thesis by (subst replay_loop.simps) (simp only: pn if_True r0 bindR_Inr Let_def nth_Cons_0 t c simp_thms if_False)
  next
    case (WalChunk d)
    have hl: "length (H d) = 20" and dl: "length d < 2147483648"
      using u r(1) WalChunk by (simp_all add: universe_def hash_ok_def PROLLY_HASH_SIZE_def)
    let ?len = "put_u32 (of_nat (length d))"
    have kl: "k < 25 + length d" using r(2) WalChunk by (simp add: hl)
    obtain j where j: "k = Suc j" using k by (cases k) simp_all
    have s: "s = [CS_WAL_TAG_CHUNK] @ take j ((H d @ ?len) @ d)" using r(3) WalChunk j by simp
    have r0: "sqlite3OsRead file 1 (int (wal + pos)) = Inr [CS_WAL_TAG_CHUNK]" by (rule at_off_read [OF at [unfolded s]]) simp_all
    show ?thesis
    proof (cases "pos + 1 + 20 + 4 > n")
      case True
      show ?thesis by (subst replay_loop.simps) (simp only: pn if_True r0 bindR_Inr Let_def nth_Cons_0 True simp_thms)
    next
      case False
      then have j24: "24 \<le> j" using len j by simp
      then have s': "s = [CS_WAL_TAG_CHUNK] @ (H d @ ?len) @ take (j - 24) d" unfolding s by (simp add: hl)
      have a1: "at_off file (wal + (pos + 1)) ((H d @ ?len) @ take (j - 24) d)"
        using at_off_bytes(2) [OF at [unfolded s'] refl] by simp
      have r1: "sqlite3OsRead file 24 (int (wal + (pos + 1))) = Inr (H d @ ?len)" by (rule at_off_read [OF a1]) (simp_all add: hl)
      have g: "get_u32 (H d @ ?len) 20 = Inr (of_nat (length d))" using get_u32_put [of 20 "H d" _ "[]"] hl by simp
      have c: "int (pos + 1 + 24) + uint (of_nat (length d) :: u32) > int n" using kl len dl by (simp add: uint_of_nat32)
      show ?thesis
        by (subst replay_loop.simps)
           (simp only: pn if_True r0 r1 g bindR_Inr Let_def nth_Cons_0 False c simp_thms if_False)
    qed
  qed
qed

text \<open>Any prefix of a log is a log followed by a torn record.\<close>

lemma log_prefix:
  "k \<le> length (log_bytes H rs) \<Longrightarrow> \<forall>r \<in> set rs. rec_ok U r \<Longrightarrow>
     \<exists>rs1 rs2 s. rs = rs1 @ rs2 \<and> take k (log_bytes H rs) = log_bytes H rs1 @ s \<and> torn H U s \<and> (rs2 = [] \<longrightarrow> s = []) \<and>
       (rs2 \<noteq> [] \<longrightarrow> k < length (log_bytes H rs))"
proof (induction rs arbitrary: k)
  case Nil
  then show ?case by (simp add: torn_def)
next
  case (Cons r rs)
  show ?case
  proof (cases "k < length (rec_bytes H r)")
    case True
    then have "torn H U (take k (rec_bytes H r))" using Cons.prems(2) by (auto simp: torn_def)
    then show ?thesis using True
      by (intro exI [of _ "[]"] exI [of _ "r # rs"] exI [of _ "take k (rec_bytes H r)"]) simp
  next
    case False
    let ?k = "k - length (rec_bytes H r)"
    have "?k \<le> length (log_bytes H rs)" "\<forall>r \<in> set rs. rec_ok U r" using Cons.prems False by simp_all
    from Cons.IH [OF this] obtain rs1 rs2 s where
      h: "rs = rs1 @ rs2" "take ?k (log_bytes H rs) = log_bytes H rs1 @ s" "torn H U s" "rs2 = [] \<longrightarrow> s = []"
      "rs2 \<noteq> [] \<longrightarrow> ?k < length (log_bytes H rs)" by blast
    then show ?thesis using False
      by (intro exI [of _ "r # rs1"] exI [of _ rs2] exI [of _ s]) auto
  qed
qed

section \<open>What the replay leaves\<close>

text \<open>The fields that the replay of a log does not change.\<close>

definition log_rest :: "chunk_store \<Rightarrow> chunk_store" where
  "log_rest cs = cs\<lparr>nPendingAlloc := 0, aPending := [], nChunks := 0, refsHash := []\<rparr>"

lemma log_rest_fields:
  assumes "log_rest cs' = log_rest cs"
  shows "aIndex cs' = aIndex cs" "pFile cs' = pFile cs" "isMemory cs' = isMemory cs" "readOnly cs' = readOnly cs"
    "aPendingHT cs' = aPendingHT cs" "aPendingHTNext cs' = aPendingHTNext cs" "nPendingHTBuilt cs' = nPendingHTBuilt cs"
    "nPendingHTSize cs' = nPendingHTSize cs" "nPendingHTNextAlloc cs' = nPendingHTNextAlloc cs"
    "pWriteBuf cs' = pWriteBuf cs" "nWriteBufAlloc cs' = nWriteBufAlloc cs" "iFileSize cs' = iFileSize cs"
    "iWalOffset cs' = iWalOffset cs" "nWalData cs' = nWalData cs" "graphLockFd cs' = graphLockFd cs"
    "snapshotPinned cs' = snapshotPinned cs" "nCommittedWriteBuf cs' = nCommittedWriteBuf cs"
    "zDefaultBranch cs' = zDefaultBranch cs" "aBranches cs' = aBranches cs" "aTags cs' = aTags cs"
    "aRemotes cs' = aRemotes cs" "aTracking cs' = aTracking cs" "committedRefsHash cs' = committedRefsHash cs"
  using assms unfolding log_rest_def by (cases cs; cases cs'; simp)+

lemma apply_rec_rest: "apply_rec H off (cs, rd, ro) r = (cs', rd', ro') \<Longrightarrow> log_rest cs' = log_rest cs"
  by (cases r) (auto simp: log_rest_def csGrowPending_def split: if_splits)

lemma apply_recs_rest: "apply_recs H off (cs, rd, ro) rs = (cs', rd', ro') \<Longrightarrow> log_rest cs' = log_rest cs"
proof (induction rs arbitrary: off cs rd ro)
  case (Cons r rs)
  obtain c1 rd1 ro1 where a: "apply_rec H off (cs, rd, ro) r = (c1, rd1, ro1)" by (cases "apply_rec H off (cs, rd, ro) r")
  then show ?case using Cons.IH [of "off + length (rec_bytes H r)" c1 rd1 ro1] Cons.prems apply_rec_rest [OF a] by simp
qed simp

lemma apply_recs_append:
  "apply_recs H off st (rs @ rs') = apply_recs H (off + length (log_bytes H rs)) (apply_recs H off st rs) rs'"
  by (induction rs arbitrary: off st) (simp_all add: add.assoc)

definition log_chunks :: "wal_rec list \<Rightarrow> byte list set" where
  "log_chunks rs = {d. WalChunk d \<in> set rs}"

lemma log_chunks_simps [simp]:
  "log_chunks [] = {}" "log_chunks (WalChunk d # rs) = insert d (log_chunks rs)" "log_chunks (WalRoot m # rs) = log_chunks rs"
  "log_chunks (rs @ rs') = log_chunks rs \<union> log_chunks rs'" "log_chunks (map WalChunk ds) = set ds"
  by (auto simp: log_chunks_def)

lemma log_entry_good:
  assumes at: "at_off file off (rec_bytes H (WalChunk d) @ s)" and u: "universe H U" and d: "d \<in> U"
  defines "e \<equiv> \<lparr>eHash = H d, eOffset = int off + 21, eSize = int (length d)\<rparr>"
  shows "good_entry H U file e" "edata file e = d"
proof -
  have h: "length (H d) = 20" "hash_ok (H d)" and dl: "d \<noteq> []" "length d < 2147483648"
    using u d by (simp_all add: universe_def hash_ok_def PROLLY_HASH_SIZE_def)
  have a: "at_off file off (([CS_WAL_TAG_CHUNK] @ H d) @ put_u32 (of_nat (length d)) @ d @ s)" using at by simp
  have "at_off file (off + 21) (put_u32 (of_nat (length d)) @ d @ s)" using at_off_bytes(2) [OF a refl] h by simp
  note l = at_off_u32 [OF this]
  note r = at_off_bytes(1) [OF l(2) refl]
  have le: "off + 21 + 4 + length d \<le> length file" using at_off_le [OF l(2)] by simp
  have n: "nat (eOffset e) = off + 21" "nat (eSize e) = length d" by (simp_all add: e_def nat_add_distrib)
  have "take (length d) (drop (off + 21 + 4) file) = d" using r le by (simp add: read_bytes_def)
  then show ed: "edata file e = d" unfolding edata_def n by simp
  show "good_entry H U file e"
    using l(1) n le dl h d ed by (simp add: good_entry_def) (simp add: e_def)
qed

lemma apply_rec_entries:
  assumes at: "at_off file off (rec_bytes H r @ s)" and u: "universe H U" and ok: "rec_ok U r"
    and ix: "sorted_entries (aIndex cs)" "\<forall>e \<in> set (aIndex cs). good_entry H U file e"
    and pe: "\<forall>e \<in> set (aPending cs). good_entry H U file e"
    and a: "apply_rec H off (cs, rd, ro) r = (cs', rd', ro')"
  shows "\<forall>e \<in> set (aPending cs'). good_entry H U file e"
    "edata file ` set (aPending cs') \<union> edata file ` set (aIndex cs) =
      edata file ` set (aPending cs) \<union> edata file ` set (aIndex cs) \<union> log_chunks [r]"
proof -
  have "(\<forall>e \<in> set (aPending cs'). good_entry H U file e) \<and>
    edata file ` set (aPending cs') \<union> edata file ` set (aIndex cs) =
      edata file ` set (aPending cs) \<union> edata file ` set (aIndex cs) \<union> log_chunks [r]"
  proof (cases r)
    case (WalRoot m)
    then show ?thesis using a pe by auto
  next
    case (WalChunk d)
    have d: "d \<in> U" using ok WalChunk by simp
    have h: "hash_ok (H d)" using u d by (simp add: universe_def)
    show ?thesis
    proof (cases "csSearchIndex (aIndex cs) (H d)")
      case None
      let ?e = "\<lparr>eHash = H d, eOffset = int off + 21, eSize = int (length d)\<rparr>"
      have "aPending cs' = aPending cs @ [?e]" using a WalChunk None by auto
      then show ?thesis using log_entry_good [OF at [unfolded WalChunk] u d] pe WalChunk by auto
    next
      case (Some i)
      note s = csSearchIndex_Some [OF ix(1) h Some]
      have "good_entry H U file (aIndex cs ! i)" using ix(2) s(1) by simp
      then have "edata file (aIndex cs ! i) = d" using edata_eq_iff [OF u d] s(2) by blast
      then have "d \<in> edata file ` set (aIndex cs)" using s(1) nth_mem by blast
      moreover have "cs' = cs" using a WalChunk Some by simp
      ultimately show ?thesis using pe WalChunk by auto
    qed
  qed
  then show "\<forall>e \<in> set (aPending cs'). good_entry H U file e"
    "edata file ` set (aPending cs') \<union> edata file ` set (aIndex cs) =
      edata file ` set (aPending cs) \<union> edata file ` set (aIndex cs) \<union> log_chunks [r]" by simp_all
qed

lemma apply_recs_entries:
  assumes u: "universe H U"
  shows "at_off file off (log_bytes H rs @ s) \<Longrightarrow> \<forall>r \<in> set rs. rec_ok U r \<Longrightarrow>
    sorted_entries (aIndex cs) \<Longrightarrow> \<forall>e \<in> set (aIndex cs). good_entry H U file e \<Longrightarrow>
    \<forall>e \<in> set (aPending cs). good_entry H U file e \<Longrightarrow>
    apply_recs H off (cs, rd, ro) rs = (cs', rd', ro') \<Longrightarrow>
    (\<forall>e \<in> set (aPending cs'). good_entry H U file e) \<and>
    edata file ` set (aPending cs') \<union> edata file ` set (aIndex cs) =
      edata file ` set (aPending cs) \<union> edata file ` set (aIndex cs) \<union> log_chunks rs"
proof (induction rs arbitrary: off cs rd ro)
  case (Cons r rs)
  obtain c1 rd1 ro1 where a: "apply_rec H off (cs, rd, ro) r = (c1, rd1, ro1)" by (cases "apply_rec H off (cs, rd, ro) r")
  have at: "at_off file off (rec_bytes H r @ log_bytes H rs @ s)" using Cons.prems(1) by simp
  have ok: "rec_ok U r" "\<forall>r \<in> set rs. rec_ok U r" using Cons.prems(2) by simp_all
  note e = apply_rec_entries [OF at u ok(1) Cons.prems(3,4,5) a]
  have ix: "aIndex c1 = aIndex cs" using log_rest_fields(1) [OF apply_rec_rest [OF a]] .
  have r: "apply_recs H (off + length (rec_bytes H r)) (c1, rd1, ro1) rs = (cs', rd', ro')" using Cons.prems(6) a by simp
  note ih = Cons.IH [OF at_off_bytes(2) [OF at refl] ok(2) _ _ e(1) r, unfolded ix, OF Cons.prems(3,4)]
  have "log_chunks (r # rs) = log_chunks [r] \<union> log_chunks rs" by (auto simp: log_chunks_def)
  then show ?case using ih e(2) by auto
qed simp

lemma apply_chunks:
  "apply_recs H off (cs, rd, ro) (map WalChunk ds) = (cs', rd', ro') \<Longrightarrow>
     rd' = rd \<and> ro' = ro \<and> refsHash cs' = refsHash cs \<and> nChunks cs' = nChunks cs \<and>
     take (nPending cs) (aPending cs') = aPending cs"
proof (induction ds arbitrary: off cs)
  case (Cons d ds)
  obtain c1 where a: "apply_rec H off (cs, rd, ro) (WalChunk d) = (c1, rd, ro)" by simp
  have p: "take (nPending cs) (aPending c1) = aPending cs" "refsHash c1 = refsHash cs" "nChunks c1 = nChunks cs"
    "nPending cs \<le> nPending c1"
    using a by (auto simp: csGrowPending_def split: if_splits)
  have r: "apply_recs H (off + length (rec_bytes H (WalChunk d))) (c1, rd, ro) (map WalChunk ds) = (cs', rd', ro')"
    using Cons.prems a by simp
  note ih = Cons.IH [OF r]
  have "take (nPending cs) (aPending cs') = take (nPending cs) (take (nPending c1) (aPending cs'))"
    using p(4) by (simp add: min_def)
  then show ?case using ih p by simp
qed simp

text \<open>The references of a log: those of its last root.\<close>

fun log_refs :: "hash \<Rightarrow> wal_rec list \<Rightarrow> hash" where
  "log_refs h [] = h"
| "log_refs h (WalChunk d # rs) = log_refs h rs"
| "log_refs h (WalRoot m # rs) = log_refs (root_refs m) rs"

definition has_root :: "wal_rec list \<Rightarrow> bool" where
  "has_root rs \<longleftrightarrow> (\<exists>m. WalRoot m \<in> set rs)"

lemma log_refs_append: "log_refs h (rs @ rs') = log_refs (log_refs h rs) rs'"
  by (induction h rs rule: log_refs.induct) simp_all

lemma log_refs_chunks [simp]: "log_refs h (map WalChunk ds) = h"
  by (induction ds) simp_all

lemma has_root_simps [simp]:
  "\<not> has_root []" "has_root (WalRoot m # rs)" "has_root (WalChunk d # rs) = has_root rs"
  "has_root (rs @ rs') = (has_root rs \<or> has_root rs')" "\<not> has_root (map WalChunk ds)"
  by (auto simp: has_root_def)

lemma apply_recs_refs:
  "apply_recs H off (cs, rd, ro) rs = (cs', rd', ro') \<Longrightarrow>
     refsHash cs' = log_refs (refsHash cs) rs \<and> ro \<le> ro' \<and> (ro' = ro \<longleftrightarrow> \<not> has_root rs) \<and>
     (rs \<noteq> [] \<longrightarrow> (\<exists>m. last rs = WalRoot m) \<longrightarrow> rd' = nPending cs')"
proof (induction rs arbitrary: off cs rd ro)
  case (Cons r rs)
  obtain c1 rd1 ro1 where a: "apply_rec H off (cs, rd, ro) r = (c1, rd1, ro1)" by (cases "apply_rec H off (cs, rd, ro) r")
  have r: "apply_recs H (off + length (rec_bytes H r)) (c1, rd1, ro1) rs = (cs', rd', ro')" using Cons.prems a by simp
  note ih = Cons.IH [OF r]
  show ?case
  proof (cases r)
    case (WalChunk d)
    then have "refsHash c1 = refsHash cs" "ro1 = ro" using a by (auto simp: csGrowPending_def split: if_splits)
    then show ?thesis using ih WalChunk by auto
  next
    case (WalRoot m)
    then have "refsHash c1 = root_refs m" "ro1 = ro + 1" "rd1 = nPending c1" using a by auto
    then show ?thesis using ih WalRoot r by auto
  qed
qed simp

section \<open>Files\<close>

definition open_store0 :: "cs_env \<Rightarrow> chunk_store" where
  "open_store0 env = chunk_store0\<lparr>pFile := True, readOnly := \<not> envWritable env\<rparr>"

text \<open>The compacted part of a file: its manifest and index are read as the store \<open>cs0\<close>, whatever
  follows; the index is sorted and points at chunks inside.\<close>

definition base_ok :: "cs_env \<Rightarrow> (byte list \<Rightarrow> hash) \<Rightarrow> byte list set \<Rightarrow> byte list \<Rightarrow> chunk_store \<Rightarrow> bool" where
  "base_ok env H U base cs0 \<longleftrightarrow>
     (\<forall>x. bindR (csReadManifest (open_store0 env) (base @ x)) (\<lambda>cs. csReadIndex env cs (base @ x)) = Inr cs0) \<and>
     base \<noteq> [] \<and> iWalOffset cs0 = int (length base) \<and> universe H U \<and> sorted_entries (aIndex cs0) \<and>
     (\<forall>e \<in> set (aIndex cs0). good_entry H U base e) \<and> hash_ok (refsHash cs0) \<and>
     (aIndex cs0 = [] \<longrightarrow> nChunks cs0 = 0)"

definition log_ok :: "byte list set \<Rightarrow> wal_rec list \<Rightarrow> bool" where
  "log_ok U rs \<longleftrightarrow> (\<forall>r \<in> set rs. rec_ok U r) \<and> (rs \<noteq> [] \<longrightarrow> (\<exists>m. last rs = WalRoot m))"

definition disk_refs :: "chunk_store \<Rightarrow> wal_rec list \<Rightarrow> hash" where
  "disk_refs cs0 rs = (if has_root rs \<or> aIndex cs0 \<noteq> [] then log_refs (refsHash cs0) rs else hash0)"

definition disk_chunks :: "byte list \<Rightarrow> chunk_store \<Rightarrow> wal_rec list \<Rightarrow> byte list set" where
  "disk_chunks base cs0 rs = edata base ` set (aIndex cs0) \<union> log_chunks rs"

definition refs_readable :: "(byte list \<Rightarrow> hash) \<Rightarrow> byte list set \<Rightarrow> hash \<Rightarrow> bool" where
  "refs_readable H C h \<longleftrightarrow> h = hash0 \<or> (\<exists>d \<in> C. H d = h \<and> (\<exists>r. csDeserializeRefs refs0 d = Inr r))"

text \<open>Parsing into a store is parsing into a fresh one and adopting the result.\<close>

lemma bindR_if: "bindR (if b then m else n) f = (if b then bindR m f else bindR n f)"
  by simp

lemma deserialize_adopt:
  "csDeserializeRefs cs d = bindR (csDeserializeRefs refs0 d) (\<lambda>r. Inr (csAdoptRefsState cs r))"
  unfolding csDeserializeRefs_def Let_def case_prod_unfold bindR_assoc bindR_if bindR_Inr
  by (intro bindR_cong if_cong refl)
     (simp_all add: csFreeBranches_def csFreeTags_def csFreeRemotes_def csFreeTracking_def csAdoptRefsState_def)

section \<open>Loading the references\<close>

text \<open>Everything but the references themselves and the table of pending chunks.\<close>

definition strip :: "chunk_store \<Rightarrow> chunk_store" where
  "strip cs = (core cs)\<lparr>aBranches := [], zDefaultBranch := None, aTags := [], aRemotes := [], aTracking := []\<rparr>"

lemma strip_fields:
  assumes "strip cs' = strip cs"
  shows "aPending cs' = aPending cs" "aIndex cs' = aIndex cs" "pWriteBuf cs' = pWriteBuf cs"
    "nPendingAlloc cs' = nPendingAlloc cs" "nWriteBufAlloc cs' = nWriteBufAlloc cs" "pFile cs' = pFile cs"
    "isMemory cs' = isMemory cs" "nCommittedWriteBuf cs' = nCommittedWriteBuf cs" "refsHash cs' = refsHash cs"
    "committedRefsHash cs' = committedRefsHash cs" "iFileSize cs' = iFileSize cs" "iWalOffset cs' = iWalOffset cs"
    "nChunks cs' = nChunks cs" "nWalData cs' = nWalData cs" "graphLockFd cs' = graphLockFd cs" "readOnly cs' = readOnly cs"
    "iIndexOffset cs' = iIndexOffset cs" "nIndexSize cs' = nIndexSize cs" "snapshotPinned cs' = snapshotPinned cs"
  using assms unfolding strip_def core_def by (cases cs; cases cs'; simp)+

lemma strip_core: "core c' = core c \<Longrightarrow> strip c' = strip c"
  by (simp add: strip_def)

lemma strip_simps [simp]:
  "strip (csEnsureDefaultBranch c) = strip c" "strip (csAdoptRefsState c r) = strip c" "strip (csFreeRefsState c) = strip c"
  by (simp_all add: strip_def core_def csEnsureDefaultBranch_def csAdoptRefsState_def csFreeRefsState_def csFreeBranches_def
      csFreeTags_def csFreeRemotes_def csFreeTracking_def)

lemma chunk_part_simps [simp]:
  "chunk_part (csEnsureDefaultBranch c) = chunk_part c" "chunk_part (csAdoptRefsState c r) = chunk_part c"
  "chunk_part (csFreeRefsState c) = chunk_part c" "chunk_part (csMarkRefsCommitted c) = chunk_part c"
  by (simp_all add: chunk_part_def csEnsureDefaultBranch_def csAdoptRefsState_def csFreeRefsState_def csFreeBranches_def
      csFreeTags_def csFreeRemotes_def csFreeTracking_def csMarkRefsCommitted_def)

lemma read_refs:
  assumes inv: "store_inv H U c f" and r: "refs_readable H (chunks f c) (refsHash c)" and ne: "\<not> prollyHashIsEmpty (refsHash c)"
  obtains c' d q where "chunkStoreGet c f (refsHash c) = (c', Inr d)" "core c' = core c" "store_inv H U c' f"
    "chunks f c' = chunks f c" "committed c' f = committed c f" "csDeserializeRefs refs0 d = Inr q"
proof -
  have "refsHash c \<noteq> hash0" using ne by (auto simp: prollyHashIsEmpty_iff [OF hash_ok_hash0])
  then obtain d q where d: "d \<in> chunks f c" "H d = refsHash c" "csDeserializeRefs refs0 d = Inr q"
    using r by (auto simp: refs_readable_def)
  show thesis
    by (rule chunkStoreGet_ok [OF inv d(1)]) (use d that in \<open>simp only: d(2)\<close>)
qed

lemma load_frame:
  assumes "core c' = core c" "store_inv H U c' f" "chunks f c' = chunks f c" "committed c' f = committed c f"
    "chunk_part x = chunk_part c'" "strip x = strip c'"
  shows "store_inv H U x f" "chunks f x = chunks f c" "committed x f = committed c f" "strip x = strip c"
  using assms store_inv_frame [OF assms(5)] strip_core [OF assms(1)] by simp_all

lemma replay_refs_ok:
  assumes inv: "store_inv H U c f" and r: "refs_readable H (chunks f c) (refsHash c)"
  obtains c' where "replay_refs c f = Inr c'" "store_inv H U c' f" "chunks f c' = chunks f c"
    "committed c' f = committed c f" "strip c' = strip c"
proof (cases "prollyHashIsEmpty (refsHash c)")
  case True
  have "chunk_part (csEnsureDefaultBranch c) = chunk_part c" by simp
  note s = store_inv_frame [OF this]
  show ?thesis using that [of "csEnsureDefaultBranch c"] True inv s by (simp add: replay_refs_def)
next
  case False
  obtain c' d q where g: "chunkStoreGet c f (refsHash c) = (c', Inr d)" "core c' = core c" "store_inv H U c' f"
    "chunks f c' = chunks f c" "committed c' f = committed c f" "csDeserializeRefs refs0 d = Inr q"
    by (rule read_refs [OF inv r False])
  let ?t = "csAdoptRefsState (csFreeRefsState refs0) q"
  let ?x = "csEnsureDefaultBranch (csAdoptRefsState (csFreeRefsState c') ?t)"
  have "replay_refs c f = Inr ?x"
    using False g by (simp add: replay_refs_def csReplaceRefsStateFromBlob_def csDeserializeRefsIntoTemp_def Let_def)
  then show ?thesis using that load_frame [OF g(2,3,4,5), of ?x] by simp
qed

lemma open_refs_ok:
  assumes inv: "store_inv H U c f" and r: "refs_readable H (chunks f c) (refsHash c)"
  obtains c' where "open_refs c f = Inr c'" "store_inv H U c' f" "chunks f c' = chunks f c"
    "committed c' f = committed c f" "strip c' = strip c"
proof (cases "prollyHashIsEmpty (refsHash c)")
  case True
  have "chunk_part (csEnsureDefaultBranch c) = chunk_part c" by simp
  note s = store_inv_frame [OF this]
  show ?thesis using that [of "csEnsureDefaultBranch c"] True inv s by (simp add: open_refs_def)
next
  case False
  obtain c' d q where g: "chunkStoreGet c f (refsHash c) = (c', Inr d)" "core c' = core c" "store_inv H U c' f"
    "chunks f c' = chunks f c" "committed c' f = committed c f" "csDeserializeRefs refs0 d = Inr q"
    by (rule read_refs [OF inv r False])
  let ?x = "csEnsureDefaultBranch (csAdoptRefsState c' q)"
  have "open_refs c f = Inr ?x"
    using False g deserialize_adopt [of c' d] by (simp add: open_refs_def Let_def)
  then show ?thesis using that load_frame [OF g(2,3,4,5), of ?x] by simp
qed

section \<open>Opening a file\<close>

definition manifest_frame :: "chunk_store \<Rightarrow> chunk_store" where
  "manifest_frame cs = cs\<lparr>nChunks := 0, iIndexOffset := 0, nIndexSize := 0, iWalOffset := 0, refsHash := [], aIndex := []\<rparr>"

lemma csReadManifest_frame: "csReadManifest cs f = Inr cs' \<Longrightarrow> manifest_frame cs' = manifest_frame cs"
  by (auto simp: csReadManifest_def res_simps manifest_frame_def)

lemma csReadIndex_frame: "csReadIndex env cs f = Inr cs' \<Longrightarrow> manifest_frame cs' = manifest_frame cs"
  by (auto simp: csReadIndex_def res_simps manifest_frame_def Let_def split: if_splits)

lemma base_frame:
  assumes "base_ok env H U base cs0"
  shows "manifest_frame cs0 = manifest_frame (open_store0 env)"
proof -
  have "bindR (csReadManifest (open_store0 env) (base @ [])) (\<lambda>cs. csReadIndex env cs (base @ [])) = Inr cs0"
    using assms unfolding base_ok_def by blast
  then obtain c where "csReadManifest (open_store0 env) base = Inr c" "csReadIndex env c base = Inr cs0"
    by (auto simp: res_simps)
  then show ?thesis using csReadManifest_frame csReadIndex_frame by metis
qed

lemma open_store0_fields [simp]:
  "pFile (open_store0 env)" "readOnly (open_store0 env) = (\<not> envWritable env)" "\<not> isMemory (open_store0 env)"
  "aPending (open_store0 env) = []" "nPendingAlloc (open_store0 env) = 0" "aPendingHT (open_store0 env) = []"
  "aPendingHTNext (open_store0 env) = []" "nPendingHTBuilt (open_store0 env) = 0" "pWriteBuf (open_store0 env) = []"
  "nWriteBufAlloc (open_store0 env) = 0" "graphLockFd (open_store0 env) = -1" "\<not> snapshotPinned (open_store0 env)"
  "nWalData (open_store0 env) = 0"
  by (simp_all add: open_store0_def chunk_store0_def refs0_def refs_state.defs chunk_store.defs)

lemma base_fields:
  assumes "base_ok env H U base cs0"
  shows "pFile cs0" "readOnly cs0 = (\<not> envWritable env)" "\<not> isMemory cs0"
    "aPending cs0 = []" "nPendingAlloc cs0 = 0" "aPendingHT cs0 = []"
    "aPendingHTNext cs0 = []" "nPendingHTBuilt cs0 = 0" "pWriteBuf cs0 = []"
    "nWriteBufAlloc cs0 = 0" "graphLockFd cs0 = -1" "\<not> snapshotPinned cs0" "nWalData cs0 = 0"
proof -
  have m: "manifest_frame cs0 = manifest_frame (open_store0 env)" by (rule base_frame [OF assms])
  have f: "pFile (manifest_frame c) = pFile c" "readOnly (manifest_frame c) = readOnly c" "isMemory (manifest_frame c) = isMemory c"
    "aPending (manifest_frame c) = aPending c" "nPendingAlloc (manifest_frame c) = nPendingAlloc c"
    "aPendingHT (manifest_frame c) = aPendingHT c" "aPendingHTNext (manifest_frame c) = aPendingHTNext c"
    "nPendingHTBuilt (manifest_frame c) = nPendingHTBuilt c" "pWriteBuf (manifest_frame c) = pWriteBuf c"
    "nWriteBufAlloc (manifest_frame c) = nWriteBufAlloc c" "graphLockFd (manifest_frame c) = graphLockFd c"
    "snapshotPinned (manifest_frame c) = snapshotPinned c" "nWalData (manifest_frame c) = nWalData c" for c
    by (simp_all add: manifest_frame_def)
  show "pFile cs0" "readOnly cs0 = (\<not> envWritable env)" "\<not> isMemory cs0"
    "aPending cs0 = []" "nPendingAlloc cs0 = 0" "aPendingHT cs0 = []"
    "aPendingHTNext cs0 = []" "nPendingHTBuilt cs0 = 0" "pWriteBuf cs0 = []"
    "nWriteBufAlloc cs0 = 0" "graphLockFd cs0 = -1" "\<not> snapshotPinned cs0" "nWalData cs0 = 0"
    using arg_cong [OF m, of pFile] arg_cong [OF m, of readOnly] arg_cong [OF m, of isMemory] arg_cong [OF m, of aPending]
      arg_cong [OF m, of nPendingAlloc] arg_cong [OF m, of aPendingHT] arg_cong [OF m, of aPendingHTNext]
      arg_cong [OF m, of nPendingHTBuilt] arg_cong [OF m, of pWriteBuf] arg_cong [OF m, of nWriteBufAlloc]
      arg_cong [OF m, of graphLockFd] arg_cong [OF m, of snapshotPinned] arg_cong [OF m, of nWalData]
    by (simp_all add: f)
qed

section \<open>Replaying a file\<close>

text \<open>The fields of a store that was opened, as far as they are known from the file.\<close>

definition opened :: "cs_env \<Rightarrow> byte list \<Rightarrow> byte list \<Rightarrow> chunk_store \<Rightarrow> bool" where
  "opened env base f cs \<longleftrightarrow> pFile cs \<and> \<not> isMemory cs \<and> readOnly cs = (\<not> envWritable env) \<and> graphLockFd cs = -1 \<and>
     \<not> snapshotPinned cs \<and> pWriteBuf cs = [] \<and> aPending cs = [] \<and> iFileSize cs = int (length f) \<and>
     iWalOffset cs = int (length base) \<and> nWalData cs = int (length f) - int (length base)"

lemma opened_strip: "strip cs' = strip cs \<Longrightarrow> opened env base f cs' = opened env base f cs"
  using strip_fields [of cs' cs] by (simp add: opened_def)

lemma base_entries:
  assumes b: "base_ok env H U base cs0"
  shows "\<forall>e \<in> set (aIndex cs0). good_entry H U (base @ x) e"
    "edata (base @ x) ` set (aIndex cs0) = edata base ` set (aIndex cs0)"
proof -
  have "good_entry H U base e" if "e \<in> set (aIndex cs0)" for e using b that by (simp add: base_ok_def)
  note g = good_entry_append [OF this]
  show "\<forall>e \<in> set (aIndex cs0). good_entry H U (base @ x) e" using g(1) by blast
  show "edata (base @ x) ` set (aIndex cs0) = edata base ` set (aIndex cs0)" using g(2) by (auto simp: image_def)
qed

lemma replay_records:
  assumes b: "base_ok env H U base cs0" and l: "log_ok U rs" and ds: "set ds \<subseteq> U" and t: "torn H U s"
  defines "f \<equiv> base @ log_bytes H rs @ log_bytes H (map WalChunk ds) @ s"
  defines "c1 \<equiv> cs0\<lparr>iFileSize := int (length f), nWalData := int (length f) - int (length base)\<rparr>"
  obtains c3 rd ro where
    "replay_loop f (length base) (length f - length base) 0 c1 0 0 = Inr (c3, rd, ro)"
    "log_rest c3 = log_rest c1" "ro = 0 \<longleftrightarrow> \<not> has_root rs" "refsHash c3 = log_refs (refsHash cs0) rs"
    "rs = [] \<longrightarrow> nChunks c3 = nChunks cs0"
    "\<forall>e \<in> set (take rd (aPending c3)). good_entry H U f e"
    "edata f ` set (take rd (aPending c3)) \<union> edata f ` set (aIndex cs0) = disk_chunks base cs0 rs"
proof -
  have u: "universe H U" and so: "sorted_entries (aIndex cs0)" using b by (simp_all add: base_ok_def)
  note bf = base_fields [OF b] and be = base_entries [OF b]
  have ok: "\<forall>r \<in> set rs. rec_ok U r" using l by (simp add: log_ok_def)
  have okd: "\<forall>r \<in> set (map WalChunk ds). rec_ok U r" using ds by auto
  have n: "length f = length base + (length f - length base)" by (simp add: f_def)
  have f1: "aPending c1 = []" "aIndex c1 = aIndex cs0" "refsHash c1 = refsHash cs0" "nPendingAlloc c1 = 0"
    "nChunks c1 = nChunks cs0"
    using bf by (simp_all add: c1_def)
  obtain c2 rd ro where a2: "apply_recs H (length base) (c1, 0, 0) rs = (c2, rd, ro)"
    by (cases "apply_recs H (length base) (c1, 0, 0) rs")
  obtain c3 where a3: "apply_recs H (length base + length (log_bytes H rs)) (c2, rd, ro) (map WalChunk ds) = (c3, rd, ro)"
    using apply_chunks by (metis prod_cases3)
  note ac = apply_chunks [OF a3] and rf = apply_recs_refs [OF a2]
  have at0: "at_off f (length base + 0) (log_bytes H (rs @ map WalChunk ds) @ s)" by (simp add: f_def at_off_def)
  have oka: "\<forall>r \<in> set (rs @ map WalChunk ds). rec_ok U r" using ok okd by auto
  have "apply_recs H (length base + 0) (c1, 0, 0) (rs @ map WalChunk ds) = (c3, rd, ro)"
    using a2 a3 by (simp add: apply_recs_append)
  note lp = replay_recs [OF at0 n u oka, of c1 0 0, unfolded this prod.case, unfolded f1]
  let ?p = "length (log_bytes H (rs @ map WalChunk ds))"
  have att: "at_off f (length base + ?p) s" by (simp add: f_def at_off_def)
  have loop: "replay_loop f (length base) (length f - length base) 0 c1 0 0 = Inr (c3, rd, ro)"
    using lp replay_torn [OF att n u t, of c3 rd ro] by simp
  have at1: "at_off f (length base) (log_bytes H rs @ log_bytes H (map WalChunk ds) @ s)" by (simp add: f_def at_off_def)
  have gi: "\<forall>e \<in> set (aIndex c1). good_entry H U f e" "edata f ` set (aIndex cs0) = edata base ` set (aIndex cs0)"
    using be f1 by (simp_all add: f_def)
  have e2: "(\<forall>e \<in> set (aPending c2). good_entry H U f e) \<and>
    edata f ` set (aPending c2) \<union> edata f ` set (aIndex c1) = edata f ` set (aPending c1) \<union> edata f ` set (aIndex c1) \<union> log_chunks rs"
    by (rule apply_recs_entries [OF u at1 ok _ gi(1) _ a2]) (use f1 so in simp_all)
  have tk: "take rd (aPending c3) = aPending c2"
  proof (cases "rs = []")
    case True
    then have "rd = 0" "aPending c2 = []" using a2 f1 by simp_all
    then show ?thesis by simp
  next
    case False
    then have "rd = nPending c2" using l rf by (simp add: log_ok_def)
    then show ?thesis using ac by simp
  qed
  show thesis
  proof (rule that [OF loop])
    show "log_rest c3 = log_rest c1" using apply_recs_rest [OF a2] apply_recs_rest [OF a3] by simp
    show "ro = 0 \<longleftrightarrow> \<not> has_root rs" using rf by simp
    show "refsHash c3 = log_refs (refsHash cs0) rs" using ac rf f1 by simp
    show "rs = [] \<longrightarrow> nChunks c3 = nChunks cs0" using ac a2 f1 by auto
    show "\<forall>e \<in> set (take rd (aPending c3)). good_entry H U f e" using tk e2 by simp
    show "edata f ` set (take rd (aPending c3)) \<union> edata f ` set (aIndex cs0) = disk_chunks base cs0 rs"
      using tk e2 f1 gi(2) by (simp add: disk_chunks_def)
  qed
qed

text \<open>The store before the references are loaded.\<close>

lemma replay_merge:
  fixes h :: hash and k :: int
  assumes b: "base_ok env H U base cs0" and r: "log_rest c3 = log_rest (cs0\<lparr>iFileSize := int (length f), nWalData := int (length f) - int (length base)\<rparr>)"
    and g: "\<forall>e \<in> set ps. good_entry H U f e" and gi: "\<forall>e \<in> set (aIndex cs0). good_entry H U f e"
  defines "c4 \<equiv> c3\<lparr>aPending := ps, refsHash := h, nChunks := k\<rparr>"
  defines "c5 \<equiv> (if nPending c4 > 0 then
      csPendHTClear (c4\<lparr>aIndex := csMergeIndex (aIndex c4) (aPending c4), aPending := []\<rparr>) else c4)"
  shows "store_inv H U c5 f" "committed c5 f = edata f ` set ps \<union> edata f ` set (aIndex cs0)" "opened env base f c5"
    "refsHash c5 = h"
proof -
  have u: "universe H U" and so: "sorted_entries (aIndex cs0)" and w: "iWalOffset cs0 = int (length base)"
    using b by (simp_all add: base_ok_def)
  note bf = base_fields [OF b] and lf = log_rest_fields [OF r]
  note m = merge_contents [OF u so gi [rule_format] g [rule_format]]
  have "\<forall>e \<in> set ps. hash_ok (eHash e)" using g by (simp add: good_entry_def)
  note s = csMergeIndex_props(1) [OF so this]
  have "store_inv H U c5 f \<and> committed c5 f = edata f ` set ps \<union> edata f ` set (aIndex cs0) \<and> opened env base f c5 \<and> refsHash c5 = h"
  proof (cases "ps = []")
    case True
    then have "c5 = c4" by (simp add: c5_def c4_def)
    then show ?thesis using True lf bf u so gi w
      by (simp add: c4_def store_inv_def ht_inv_def cbuf_def committed_def opened_def)
  next
    case False
    then have c5: "c5 = csPendHTClear (c4\<lparr>aIndex := csMergeIndex (aIndex cs0) ps, aPending := []\<rparr>)"
      using lf by (simp add: c5_def c4_def)
    show ?thesis using lf bf u s w m
      by (simp add: c5 c4_def csPendHTClear_def store_inv_def ht_inv_def cbuf_def committed_def opened_def image_Un Un_commute)
  qed
  then show "store_inv H U c5 f" "committed c5 f = edata f ` set ps \<union> edata f ` set (aIndex cs0)" "opened env base f c5"
    "refsHash c5 = h" by simp_all
qed

lemma opened_pending:
  assumes "opened env base f c"
  shows "chunks g c = committed c g" "pending c = {}"
  using assms by (simp_all add: opened_def chunks_def pending_def)

lemma csReplayWal_ok:
  assumes b: "base_ok env H U base cs0" and l: "log_ok U rs" and ds: "set ds \<subseteq> U" and t: "torn H U s"
    and f: "f = base @ log_bytes H rs @ log_bytes H (map WalChunk ds) @ s"
    and r: "refs_readable H (disk_chunks base cs0 rs) (disk_refs cs0 rs)"
  obtains c where "csReplayWal cs0 f = Inr c" "store_inv H U c f" "committed c f = disk_chunks base cs0 rs"
    "opened env base f c" "refsHash c = disk_refs cs0 rs"
proof -
  have u: "universe H U" and w: "iWalOffset cs0 = int (length base)" and ne: "base \<noteq> []"
    and z: "aIndex cs0 = [] \<longrightarrow> nChunks cs0 = 0" and h: "hash_ok (refsHash cs0)"
    and so: "sorted_entries (aIndex cs0)"
    using b by (simp_all add: base_ok_def)
  note bf = base_fields [OF b] and be = base_entries [OF b]
  have gi: "\<forall>e \<in> set (aIndex cs0). good_entry H U f e" "edata f ` set (aIndex cs0) = edata base ` set (aIndex cs0)"
    using be f by simp_all
  have w0: "\<not> iWalOffset cs0 \<le> 0" using w ne by simp
  let ?ws = "int (length f) - int (length base)"
  show thesis
  proof (cases "?ws \<le> 0")
    case True
    then have "length f \<le> length base" by simp
    then have em: "log_bytes H rs = []" "f = base"
      using f by (simp_all flip: of_nat_add)
    have "length (rec_bytes H r) \<noteq> 0" for r by (cases r) simp_all
    then have "rs = []" using em(1) by (cases rs) auto
    let ?c = "(if nIndex cs0 = 0 \<and> nChunks cs0 = 0 \<and> \<not> prollyHashIsEmpty (refsHash cs0)
      then cs0\<lparr>iFileSize := int (length f), refsHash := hash0\<rparr> else cs0\<lparr>iFileSize := int (length f)\<rparr>)"
    show thesis
    proof (rule that [of ?c])
      show "csReplayWal cs0 f = Inr ?c" using True w w0 bf by (simp add: csReplayWal_def Let_def)
      show "store_inv H U ?c f" using u so gi bf by (auto simp: store_inv_def ht_inv_def cbuf_def)
      show "committed ?c f = disk_chunks base cs0 rs"
        using gi bf \<open>rs = []\<close> by (simp add: committed_def cbuf_def disk_chunks_def)
      show "opened env base f ?c" using bf w em by (simp add: opened_def)
      show "refsHash ?c = disk_refs cs0 rs"
        using z h \<open>rs = []\<close> prollyHashIsEmpty_iff [OF h] by (simp add: disk_refs_def)
    qed
  next
    case False
    let ?c1 = "cs0\<lparr>iFileSize := int (length f), nWalData := ?ws\<rparr>"
    obtain c3 rd ro where
      lp: "replay_loop f (length base) (length f - length base) 0 ?c1 0 0 = Inr (c3, rd, ro)" and
      lr: "log_rest c3 = log_rest ?c1" and ro: "ro = 0 \<longleftrightarrow> \<not> has_root rs" and rh: "refsHash c3 = log_refs (refsHash cs0) rs" and
      "rs = [] \<longrightarrow> nChunks c3 = nChunks cs0" and
      ge: "\<forall>e \<in> set (take rd (aPending c3)). good_entry H U f e" and
      cn: "edata f ` set (take rd (aPending c3)) \<union> edata f ` set (aIndex cs0) = disk_chunks base cs0 rs"
      by (rule replay_records [OF b l ds t]) (simp add: f)
    define c4 where "c4 = c3\<lparr>aPending := take rd (aPending c3)\<rparr>"
    define c5 where "c5 = (if ro = 0 \<and> nIndex c4 = 0 then c4\<lparr>refsHash := hash0, nChunks := 0\<rparr> else c4)"
    define c6 where "c6 = (if nPending c5 > 0 then
        csPendHTClear (c5\<lparr>aIndex := csMergeIndex (aIndex c5) (aPending c5), aPending := []\<rparr>) else c5)"
    have n: "nat (iWalOffset cs0) = length base" "nat ?ws = length f - length base" using w by simp_all
    have eq: "csReplayWal cs0 f = replay_refs c6 f"
      using False w0 bf lp unfolding csReplayWal_def Let_def c6_def c5_def c4_def
      by (simp only: w n) (simp add: n)
    have "c5 = c3\<lparr>aPending := take rd (aPending c3), refsHash := refsHash c5, nChunks := nChunks c5\<rparr>"
      by (simp add: c5_def c4_def)
    then obtain k where k: "c5 = c3\<lparr>aPending := take rd (aPending c3), refsHash := refsHash c5, nChunks := k\<rparr>" by blast
    note m = replay_merge [OF b lr ge gi(1), where h = "refsHash c5" and k = k, folded k, folded c6_def, unfolded cn]
    have rf: "refsHash c5 = disk_refs cs0 rs"
      using rh ro log_rest_fields(1) [OF lr] by (simp add: c5_def c4_def disk_refs_def)
    have rr: "refs_readable H (chunks f c6) (refsHash c6)"
      unfolding opened_pending(1) [OF m(3)] m(2,4) rf by (rule r)
    obtain c' where c': "replay_refs c6 f = Inr c'" "store_inv H U c' f" "chunks f c' = chunks f c6"
      "committed c' f = committed c6 f" "strip c' = strip c6"
      by (rule replay_refs_ok [OF m(1) rr])
    show thesis
      by (rule that [of c'])
         (use eq c' m rf opened_strip [OF c'(5)] strip_fields(9) [OF c'(5)] in simp_all)
  qed
qed

text \<open>Opening a file: it holds the chunks of the compacted part and of the complete, rooted records, and the
  references of the last root; records without a root after them, and a torn record, are ignored.\<close>

lemma chunkStoreOpen_ok:
  assumes b: "base_ok env H U base cs0" and l: "log_ok U rs" and ds: "set ds \<subseteq> U" and t: "torn H U s"
    and f: "f = base @ log_bytes H rs @ log_bytes H (map WalChunk ds) @ s"
    and r: "refs_readable H (disk_chunks base cs0 rs) (disk_refs cs0 rs)"
  obtains c where "chunkStoreOpen env (Some f) create = Inr c" "store_inv H U c f" "committed c f = disk_chunks base cs0 rs"
    "opened env base f c" "refsHash c = disk_refs cs0 rs" "committedRefsHash c = disk_refs cs0 rs"
proof -
  obtain c1 where c1: "csReplayWal cs0 f = Inr c1" "store_inv H U c1 f" "committed c1 f = disk_chunks base cs0 rs"
    "opened env base f c1" "refsHash c1 = disk_refs cs0 rs"
    by (rule csReplayWal_ok [OF b l ds t f r])
  have rr: "refs_readable H (chunks f c1) (refsHash c1)"
    unfolding opened_pending(1) [OF c1(4)] c1(3,5) by (rule r)
  obtain c2 where c2: "open_refs c1 f = Inr c2" "store_inv H U c2 f" "chunks f c2 = chunks f c1"
    "committed c2 f = committed c1 f" "strip c2 = strip c1"
    by (rule open_refs_ok [OF c1(2) rr])
  have mi: "bindR (csReadManifest (open_store0 env) f) (\<lambda>cs. csReadIndex env cs f) = Inr cs0"
    using b f unfolding base_ok_def by blast
  then obtain m where m: "csReadManifest (open_store0 env) f = Inr m" "csReadIndex env m f = Inr cs0"
    by (auto simp: res_simps)
  have ne: "base \<noteq> []" using b by (simp add: base_ok_def)
  have "chunkStoreOpen env (Some f) create = Inr (csMarkRefsCommitted c2)"
  proof (cases f)
    case (Cons x xs)
    show ?thesis using m c1(1) c2(1) unfolding Cons by (simp add: chunkStoreOpen_def open_store0_def)
  qed (use ne f in simp)
  moreover have "chunk_part (csMarkRefsCommitted c2) = chunk_part c2" by simp
  ultimately show thesis
    using that [of "csMarkRefsCommitted c2"] store_inv_frame [of "csMarkRefsCommitted c2" c2] c2 c1
      opened_strip [OF c2(5)] strip_fields(9) [OF c2(5)]
    by (simp add: csMarkRefsCommitted_def opened_def)
qed

end
