(* ===== verification/ChunkCommit.thy ===== *)
theory ChunkCommit
  imports ChunkDisk
begin

text \<open>
  Committing a chunk store to its file (\<open>chunk_store.c\<close>): the manifest that is written, the bytes
  that the writes of a commit append as far as the device has room, the invariant that ties a store to
  its file, and the outcome of a commit, done or undone.
\<close>

section \<open>The manifest\<close>

text \<open>A field written into the zeroes that remain.\<close>

lemma memcpy_zeros:
  assumes "length a + k = off" "k + length xs \<le> n"
  shows "memcpy (a @ replicate n 0) off xs = (a @ replicate k 0 @ xs) @ replicate (n - k - length xs) 0"
  using assms by (auto simp: memcpy_def add.commute)

lemma csSerializeManifest_shape:
  assumes "length (refsHash cs) = 20"
  shows "csSerializeManifest cs =
    put_u32 CHUNK_STORE_MAGIC @ put_u32 CHUNK_STORE_VERSION @ replicate 20 0 @ put_u32 (of_int (nChunks cs)) @
    put_i64 (of_int (iIndexOffset cs)) @ put_u32 (of_int (nIndexSize cs)) @ replicate 40 0 @
    put_i64 (of_int (iWalOffset cs)) @ replicate 12 0 @ refsHash cs @ replicate 44 0"
proof -
  note z = memcpy_zeros [of _ 0] memcpy_zeros [of _ 20] memcpy_zeros [of _ 40] memcpy_zeros [of _ 12]
  have "csSerializeManifest cs = memcpy (memcpy (memcpy (memcpy (memcpy (memcpy (memcpy ([] @ replicate 168 0) 0 (put_u32 CHUNK_STORE_MAGIC))
     4 (put_u32 CHUNK_STORE_VERSION)) 28 (put_u32 (of_int (nChunks cs)))) 32 (put_i64 (of_int (iIndexOffset cs))))
     40 (put_u32 (of_int (nIndexSize cs)))) 84 (put_i64 (of_int (iWalOffset cs)))) 104 (refsHash cs)"
    by (simp add: csSerializeManifest_def CHUNK_MANIFEST_SIZE_def)
  also have "\<dots> = put_u32 CHUNK_STORE_MAGIC @ put_u32 CHUNK_STORE_VERSION @ replicate 20 0 @ put_u32 (of_int (nChunks cs)) @
    put_i64 (of_int (iIndexOffset cs)) @ put_u32 (of_int (nIndexSize cs)) @ replicate 40 0 @
    put_i64 (of_int (iWalOffset cs)) @ replicate 12 0 @ refsHash cs @ replicate 44 0"
    apply (subst memcpy_zeros [where k = 0 and a = "[]"], simp, simp)
    apply (subst memcpy_zeros [where k = 0], simp, simp)
    apply (subst memcpy_zeros [where k = 20], simp, simp)
    apply (subst memcpy_zeros [where k = 0], simp, simp)
    apply (subst memcpy_zeros [where k = 0], simp, simp)
    apply (subst memcpy_zeros [where k = 40], simp, simp)
    apply (subst memcpy_zeros [where k = 12], simp, simp add: assms)
    apply (simp only: length_put assms append.assoc append_Nil list.size replicate_0)
    apply simp
    done
  finally show ?thesis .
qed

lemma csSerializeManifest_reads:
  assumes h: "hash_ok (refsHash cs)"
  shows "length (csSerializeManifest cs) = CHUNK_MANIFEST_SIZE"
    "get_u32 (csSerializeManifest cs) 0 = Inr CHUNK_STORE_MAGIC"
    "get_u32 (csSerializeManifest cs) 4 = Inr CHUNK_STORE_VERSION"
    "get_u32 (csSerializeManifest cs) 28 = Inr (of_int (nChunks cs))"
    "get_i64 (csSerializeManifest cs) 32 = Inr (of_int (iIndexOffset cs))"
    "get_u32 (csSerializeManifest cs) 40 = Inr (of_int (nIndexSize cs))"
    "get_i64 (csSerializeManifest cs) 84 = Inr (of_int (iWalOffset cs))"
    "read_bytes (csSerializeManifest cs) 104 PROLLY_HASH_SIZE = Inr (refsHash cs)"
    "root_refs (csSerializeManifest cs) = refsHash cs"
proof -
  let ?m = "csSerializeManifest cs"
  have l: "length (refsHash cs) = 20" using h by (simp add: hash_ok_def PROLLY_HASH_SIZE_def)
  note s = csSerializeManifest_shape [OF l]
  show len: "length ?m = CHUNK_MANIFEST_SIZE" unfolding s by (simp add: l CHUNK_MANIFEST_SIZE_def)
  have a0: "at_off ?m 0 (put_u32 CHUNK_STORE_MAGIC @ put_u32 CHUNK_STORE_VERSION @ replicate 20 0 @ put_u32 (of_int (nChunks cs)) @
    put_i64 (of_int (iIndexOffset cs)) @ put_u32 (of_int (nIndexSize cs)) @ replicate 40 0 @
    put_i64 (of_int (iWalOffset cs)) @ replicate 12 0 @ refsHash cs @ replicate 44 0)"
    using at_off_self [of ?m] unfolding s .
  note a4 = at_off_u32 [OF a0]
  note a8 = at_off_u32 [OF a4(2)]
  note a28 = at_off_bytes(2) [OF a8(2) refl, simplified]
  note a32 = at_off_u32 [OF a28]
  note a40 = at_off_i64 [OF a32(2), simplified]
  note a44 = at_off_u32 [OF a40(2)]
  note a84 = at_off_bytes(2) [OF a44(2) refl, simplified]
  note a92 = at_off_i64 [OF a84]
  note a104 = at_off_bytes(2) [OF a92(2) refl, simplified]
  note a = at_off_bytes(1) [OF a104 refl]
  show "get_u32 ?m 0 = Inr CHUNK_STORE_MAGIC" "get_u32 ?m 4 = Inr CHUNK_STORE_VERSION"
    "get_u32 ?m 28 = Inr (of_int (nChunks cs))" "get_i64 ?m 32 = Inr (of_int (iIndexOffset cs))"
    "get_u32 ?m 40 = Inr (of_int (nIndexSize cs))" "get_i64 ?m 84 = Inr (of_int (iWalOffset cs))"
    using a4(1) a8(1) a32(1) a40(1) a44(1) a92(1) by simp_all
  show r: "read_bytes ?m 104 PROLLY_HASH_SIZE = Inr (refsHash cs)" using a by (simp add: l PROLLY_HASH_SIZE_def)
  show "root_refs ?m = refsHash cs" using r manifest_reads(3) [OF len] by simp
qed

lemma manifest_rec_ok: "hash_ok (refsHash cs) \<Longrightarrow> rec_ok U (WalRoot (csSerializeManifest cs))"
  by (simp add: csSerializeManifest_reads)

lemma get_prefix:
  assumes "p + 8 \<le> length a"
  shows "get_u32 (a @ x) p = get_u32 a p" "get_i64 (a @ x) p = get_i64 a p"
  using assms by (simp_all add: get_u32_def get_i64_def nth_append)

text \<open>A manifest of a store without an index is the compacted part of a file.\<close>

definition fresh_base :: "cs_env \<Rightarrow> hash \<Rightarrow> chunk_store" where
  "fresh_base env h = (open_store0 env)\<lparr>nChunks := 0, iIndexOffset := 0, nIndexSize := 0,
     iWalOffset := int CHUNK_MANIFEST_SIZE, refsHash := h, aIndex := []\<rparr>"

lemma fresh_base_ok:
  assumes u: "universe H U" and h: "hash_ok (refsHash cs)"
    and z: "nChunks cs = 0" "nIndexSize cs = 0" "iIndexOffset cs = 0" "iWalOffset cs = int CHUNK_MANIFEST_SIZE"
  shows "base_ok env H U (csSerializeManifest cs) (fresh_base env (refsHash cs))"
proof -
  let ?m = "csSerializeManifest cs"
  note r = csSerializeManifest_reads [OF h]
  have rd: "sqlite3OsRead (?m @ x) (int CHUNK_MANIFEST_SIZE) 0 = Inr ?m" for x
    using r(1) by (simp add: sqlite3OsRead_def)
  have "csReadManifest (open_store0 env) (?m @ x) = Inr ((open_store0 env)\<lparr>nChunks := 0, iIndexOffset := 0, nIndexSize := 0,
     iWalOffset := int CHUNK_MANIFEST_SIZE, refsHash := refsHash cs\<rparr>)" for x
    unfolding csReadManifest_def rd by (simp add: r z) (simp add: CHUNK_MANIFEST_SIZE_def)
  then show ?thesis
    using u h r(1) by (auto simp: base_ok_def csReadIndex_def fresh_base_def sorted_entries_def CHUNK_MANIFEST_SIZE_def)
qed

section \<open>Appending\<close>

text \<open>What a sequence of writes at the end of the file leaves: as much as there is room for.\<close>

definition appended :: "os_file \<Rightarrow> byte list \<Rightarrow> os_file \<Rightarrow> bool \<Rightarrow> bool" where
  "appended fl d fl' ok \<longleftrightarrow> fBytes fl' = fBytes fl @ take (fRoom fl) d \<and> fRoom fl' = fRoom fl - length d \<and>
     (ok \<longleftrightarrow> length d \<le> fRoom fl)"

lemma appended_Nil: "appended fl [] fl True"
  by (simp add: appended_def)

lemma appended_True: "appended fl d fl' True \<Longrightarrow> length (fBytes fl') = length (fBytes fl) + length d"
  by (simp add: appended_def)

lemma appended_trans: "appended fl d fl1 True \<Longrightarrow> appended fl1 d' fl2 ok \<Longrightarrow> appended fl (d @ d') fl2 ok"
  by (auto simp: appended_def)

lemma appended_fail: "appended fl d fl1 False \<Longrightarrow> appended fl (d @ d') fl1 False"
  by (simp add: appended_def)

lemma sqlite3OsWrite_append:
  "sqlite3OsWrite fl d (length (fBytes fl)) = (fl', ok) \<Longrightarrow> appended fl d fl' ok"
  by (auto simp: sqlite3OsWrite_def Let_def appended_def memcpy_def min_def split: if_splits)

lemma write_pieces_append:
  "off = length (fBytes fl) \<Longrightarrow> write_pieces fl off d = (fl', off', e) \<Longrightarrow>
     appended fl d fl' (e = None) \<and> off \<le> off' \<and> (e = None \<longrightarrow> off' = off + length d)"
proof (induction fl off d rule: write_pieces.induct)
  case (1 fl off d)
  show ?case
  proof (cases "d = []")
    case True
    then show ?thesis using "1.prems"(2) appended_Nil by (subst (asm) write_pieces.simps) auto
  next
    case False
    define w where "w = (if length d > 65536 then 65536 else length d)"
    obtain fl1 ok where s: "sqlite3OsWrite fl (take w d) off = (fl1, ok)" by force
    note a = sqlite3OsWrite_append [OF s [unfolded "1.prems"(1)]]
    have wl: "length (take w d) = w" by (simp add: w_def)
    show ?thesis
    proof (cases ok)
      case True
      have b: "off + w = length (fBytes fl1)" using appended_True a True wl "1.prems"(1) by simp
      have e: "write_pieces fl1 (off + w) (drop w d) = (fl', off', e)"
        using "1.prems"(2) s False True by (subst (asm) write_pieces.simps) (simp add: w_def [symmetric])
      have ih: "appended fl1 (drop w d) fl' (e = None) \<and> off + w \<le> off' \<and> (e = None \<longrightarrow> off' = off + w + length (drop w d))"
        using "1.IH" [OF False w_def refl s [symmetric] refl True b e] by simp
      have "appended fl (take w d @ drop w d) fl' (e = None)"
        by (rule appended_trans [OF _ conjunct1 [OF ih]]) (use a True in simp)
      then show ?thesis using ih wl by (auto simp: min_def split: if_splits)
    next
      case False
      have "(fl', off', e) = (fl1, off + w, Some SQLITE_FULL)"
        using "1.prems"(2) s False \<open>d \<noteq> []\<close> by (subst (asm) write_pieces.simps) (simp add: w_def [symmetric])
      then show ?thesis using appended_fail [of fl "take w d" fl1 "drop w d"] a False by simp
    qed
  qed
qed

lemma good_entry_rec:
  assumes "good_entry H U buf e"
  shows "[CS_WAL_TAG_CHUNK] @ eHash e @ put_u32 (of_int (eSize e)) @ edata buf e = rec_bytes H (WalChunk (edata buf e))"
    "read_buf buf (eOffset e + 4) (eSize e) = Inr (edata buf e)" "length (eHash e) = 20"
proof -
  have g: "H (edata buf e) = eHash e" "0 \<le> eOffset e" "0 < eSize e" "eOffset e + 4 + eSize e \<le> int (length buf)" "hash_ok (eHash e)"
    using assms by (simp_all add: good_entry_def)
  have "length (edata buf e) = nat (eSize e)" by (rule edata_not_Nil [OF assms])
  then show "[CS_WAL_TAG_CHUNK] @ eHash e @ put_u32 (of_int (eSize e)) @ edata buf e = rec_bytes H (WalChunk (edata buf e))"
    using g by simp
  have "nat (eOffset e + 4) = nat (eOffset e) + 4" using g by simp
  then show "read_buf buf (eOffset e + 4) (eSize e) = Inr (edata buf e)"
    using g by (simp add: read_buf_def edata_def nat_add_distrib)
  show "length (eHash e) = 20" using g by (simp add: hash_ok_def PROLLY_HASH_SIZE_def)
qed

lemma write_chunks_append:
  "off = length (fBytes fl) \<Longrightarrow> \<forall>e \<in> set es. good_entry H U buf e \<Longrightarrow> write_chunks fl off buf es = (fl', off', er) \<Longrightarrow>
     appended fl (log_bytes H (map (WalChunk \<circ> edata buf) es)) fl' (er = None) \<and> off \<le> off' \<and>
     (er = None \<longrightarrow> off' = length (fBytes fl'))"
proof (induction es arbitrary: fl off)
  case Nil
  then show ?case using appended_Nil by auto
next
  case (Cons e es)
  have ge: "good_entry H U buf e" using Cons.prems(2) by simp
  note g = good_entry_rec [OF ge]
  let ?d = "edata buf e" and ?h = "[CS_WAL_TAG_CHUNK] @ eHash e @ put_u32 (of_int (eSize e))"
  have lb: "log_bytes H (map (WalChunk \<circ> edata buf) (e # es)) = ?h @ ?d @ log_bytes H (map (WalChunk \<circ> edata buf) es)"
    using g(1) by simp
  obtain fl1 ok where s: "sqlite3OsWrite fl ?h off = (fl1, ok)" by force
  note a = sqlite3OsWrite_append [OF s [unfolded Cons.prems(1)]]
  show ?case
  proof (cases ok)
    case False
    then have "(fl', off', er) = (fl1, off, Some SQLITE_FULL)" using Cons.prems(3) s by simp
    moreover have "appended fl (?h @ ?d @ log_bytes H (map (WalChunk \<circ> edata buf) es)) fl1 False"
      by (rule appended_fail) (use a False in simp)
    ultimately show ?thesis unfolding lb by simp
  next
    case True
    note a' = a [unfolded True [THEN eqTrueI]]
    have o1: "off + 25 = length (fBytes fl1)" using appended_True [OF a'] Cons.prems(1) g(3) by simp
    obtain fl2 off2 er2 where p: "write_pieces fl1 (off + 25) ?d = (fl2, off2, er2)" by (metis prod_cases3)
    note pp = write_pieces_append [OF o1 p]
    have st: "write_chunks fl off buf (e # es) =
      (case er2 of Some rc \<Rightarrow> (fl2, off2, Some rc) | None \<Rightarrow> write_chunks fl2 off2 buf es)"
      using s True g(2) p by (auto split: option.split)
    show ?thesis
    proof (cases er2)
      case (Some rc)
      then have r: "(fl', off', er) = (fl2, off2, er2)" using Cons.prems(3) st by simp
      have "appended fl ((?h @ ?d) @ log_bytes H (map (WalChunk \<circ> edata buf) es)) fl2 False"
        by (rule appended_fail) (use appended_trans [OF a'] pp Some in simp)
      then show ?thesis using r pp Some by (simp only: lb append.assoc) simp
    next
      case None
      have a2: "appended fl1 ?d fl2 True" using pp None by simp
      have o2: "off2 = length (fBytes fl2)" using appended_True [OF a2] pp None o1 by simp
      have w: "write_chunks fl2 off2 buf es = (fl', off', er)" using Cons.prems(3) st None by simp
      have gs: "\<forall>e \<in> set es. good_entry H U buf e" using Cons.prems(2) by simp
      note ih = Cons.IH [OF o2 gs w]
      have "appended fl (?h @ ?d @ log_bytes H (map (WalChunk \<circ> edata buf) es)) fl' (er = None)"
        by (rule appended_trans [OF a']) (rule appended_trans [OF a2 conjunct1 [OF ih]])
      then show ?thesis using ih pp o1 None by (simp only: lb) simp
    qed
  qed
qed

text \<open>The bytes a commit adds.\<close>

definition commit_stream :: "(byte list \<Rightarrow> hash) \<Rightarrow> byte list \<Rightarrow> chunk_store \<Rightarrow> byte list" where
  "commit_stream H f cs =
     (if f = [] then csSerializeManifest cs else []) @
     log_bytes H (map WalChunk (map (edata (pWriteBuf cs)) (aPending cs)) @ [WalRoot (csSerializeManifest cs)])"

lemma write_root_append:
  assumes "hash_ok (refsHash cs)" "write_root fl (length (fBytes fl)) cs = (fl', off', e)"
  shows "appended fl (log_bytes H [WalRoot (csSerializeManifest cs)]) fl' (e = None)"
    "e = None \<longrightarrow> off' = length (fBytes fl')" "length (fBytes fl) \<le> off'"
proof -
  obtain fl1 ok where s: "sqlite3OsWrite fl ([CS_WAL_TAG_ROOT] @ csSerializeManifest cs) (length (fBytes fl)) = (fl1, ok)" by force
  note a = sqlite3OsWrite_append [OF s]
  show "appended fl (log_bytes H [WalRoot (csSerializeManifest cs)]) fl' (e = None)"
    "e = None \<longrightarrow> off' = length (fBytes fl')" "length (fBytes fl) \<le> off'"
    using a assms(2) s appended_True [of fl _ fl1] csSerializeManifest_reads(1) [OF assms(1)]
    by (auto simp: write_root_def split: if_splits)
qed

lemma commit_writes_append:
  assumes h: "hash_ok (refsHash cs)" and g: "\<forall>e \<in> set (aPending cs). good_entry H U (pWriteBuf cs) e"
    and c: "commit_writes fl cs = (fl', off', e)"
  shows "appended fl (commit_stream H (fBytes fl) cs) fl' (e = None)" "e = None \<longrightarrow> off' = length (fBytes fl')"
    "off' \<le> length (fBytes fl) \<longrightarrow> e \<noteq> None" 
proof -
  let ?m = "csSerializeManifest cs" and ?cs = "map (WalChunk \<circ> edata (pWriteBuf cs)) (aPending cs)"
  note ml = csSerializeManifest_reads(1) [OF h]
  define pre where "pre = (if fBytes fl = [] then ?m else [])"
  obtain fl1 ok where f1: "(if length (fBytes fl) = 0 then sqlite3OsWrite fl ?m 0 else (fl, True)) = (fl1, ok)" by force
  have a1: "appended fl pre fl1 ok"
    using f1 sqlite3OsWrite_append [of fl ?m fl1 ok] appended_Nil by (auto simp: pre_def split: if_splits)
  have st: "commit_stream H (fBytes fl) cs = pre @ log_bytes H ?cs @ log_bytes H [WalRoot ?m]"
    by (simp add: commit_stream_def pre_def)
  have "appended fl (commit_stream H (fBytes fl) cs) fl' (e = None) \<and> (e = None \<longrightarrow> off' = length (fBytes fl')) \<and>
     (off' \<le> length (fBytes fl) \<longrightarrow> e \<noteq> None)"
  proof (cases ok)
    case False
    then have "(fl', off', e) = (fl1, 0, Some SQLITE_FULL)" using c f1 by (simp add: commit_writes_def)
    then show ?thesis using a1 False appended_fail unfolding st by simp
  next
    case True
    note a1' = a1 [unfolded True [THEN eqTrueI]]
    have n: "(if length (fBytes fl) = 0 then CHUNK_MANIFEST_SIZE else length (fBytes fl)) = length (fBytes fl1)"
      using appended_True [OF a1'] ml by (simp add: pre_def)
    obtain fl2 off2 e2 where w: "write_chunks fl1 (length (fBytes fl1)) (pWriteBuf cs) (aPending cs) = (fl2, off2, e2)"
      by (metis prod_cases3)
    note wa = write_chunks_append [OF refl g w]
    have cw: "commit_writes fl cs = (case e2 of Some rc \<Rightarrow> (fl2, off2, Some rc) | None \<Rightarrow> write_root fl2 off2 cs)"
      using f1 True n w by (auto simp: commit_writes_def Let_def split: option.split)
    have le: "length (fBytes fl) \<le> length (fBytes fl1)" using appended_True [OF a1'] by simp
    show ?thesis
    proof (cases e2)
      case (Some rc)
      then have r: "(fl', off', e) = (fl2, off2, e2)" using c cw by simp
      have "appended fl ((pre @ log_bytes H ?cs) @ log_bytes H [WalRoot ?m]) fl2 False"
        by (rule appended_fail) (use appended_trans [OF a1'] wa Some in simp)
      then show ?thesis using r Some unfolding st by simp
    next
      case None
      then have o2: "off2 = length (fBytes fl2)" and a2: "appended fl1 (log_bytes H ?cs) fl2 True" using wa by simp_all
      have w3: "write_root fl2 (length (fBytes fl2)) cs = (fl', off', e)" using c cw None o2 by simp
      note r = write_root_append [OF h w3]
      have ap: "appended fl (pre @ log_bytes H ?cs @ log_bytes H [WalRoot ?m]) fl' (e = None)"
        by (rule appended_trans [OF a1']) (rule appended_trans [OF a2 r(1)])
      have "e = None \<Longrightarrow> length (fBytes fl) < length (fBytes fl')"
        using ap appended_True [of fl _ fl'] by simp
      then have "off' \<le> length (fBytes fl) \<longrightarrow> e \<noteq> None" using r(2) by fastforce
      then show ?thesis using ap r unfolding st by blast
    qed
  qed
  then show "appended fl (commit_stream H (fBytes fl) cs) fl' (e = None)" "e = None \<longrightarrow> off' = length (fBytes fl')"
    "off' \<le> length (fBytes fl) \<longrightarrow> e \<noteq> None" by simp_all
qed

section \<open>The invariant of a store with a file\<close>

definition file_ok :: "cs_env \<Rightarrow> (byte list \<Rightarrow> hash) \<Rightarrow> byte list set \<Rightarrow> byte list \<Rightarrow> hash \<Rightarrow> byte list set \<Rightarrow> int \<Rightarrow> bool" where
  "file_ok env H U f h C w \<longleftrightarrow> refs_readable H C h \<and>
     (\<exists>base cs0 rs. base_ok env H U base cs0 \<and> log_ok U rs \<and> f = base @ log_bytes H rs \<and>
        disk_refs cs0 rs = h \<and> disk_chunks base cs0 rs = C \<and> w = int (length base))"

definition disk_inv :: "cs_env \<Rightarrow> (byte list \<Rightarrow> hash) \<Rightarrow> byte list set \<Rightarrow> chunk_store \<Rightarrow> byte list \<Rightarrow> bool" where
  "disk_inv env H U cs f \<longleftrightarrow> store_inv H U cs f \<and> \<not> isMemory cs \<and> hash_ok (refsHash cs) \<and> hash_ok (committedRefsHash cs) \<and>
     refs_readable H (chunks f cs) (refsHash cs) \<and> nWalData cs \<le> int (length f) \<and> iFileSize cs = int (length f) \<and>
     (if f \<noteq> [] then pFile cs \<and> file_ok env H U f (committedRefsHash cs) (committed cs f) (iWalOffset cs)
      else aIndex cs = [] \<and> committedRefsHash cs = hash0 \<and> nChunks cs = 0 \<and> nIndexSize cs = 0 \<and> iIndexOffset cs = 0 \<and>
        iWalOffset cs = int CHUNK_MANIFEST_SIZE)"

text \<open>What opening a file gives.\<close>

definition opens_to :: "cs_env \<Rightarrow> (byte list \<Rightarrow> hash) \<Rightarrow> byte list set \<Rightarrow> byte list \<Rightarrow> hash \<Rightarrow> byte list set \<Rightarrow> bool" where
  "opens_to env H U f h C \<longleftrightarrow> (\<exists>cs. chunkStoreOpen env (Some f) True = Inr cs \<and> store_inv H U cs f \<and> committed cs f = C \<and>
     chunks f cs = C \<and> refsHash cs = h \<and> committedRefsHash cs = h)"

lemma refs_readable_hash: "universe H U \<Longrightarrow> C \<subseteq> U \<Longrightarrow> refs_readable H C h \<Longrightarrow> hash_ok h"
  using hash_ok_hash0 by (auto simp: refs_readable_def universe_def)

lemma disk_invD:
  assumes "disk_inv env H U cs f"
  shows "universe H U" "\<forall>e \<in> set (aPending cs). good_entry H U (pWriteBuf cs) e" "committed cs f \<subseteq> U" "chunks f cs \<subseteq> U"
  using assms store_chunks_U [of H U cs f] by (auto simp: disk_inv_def store_inv_def chunks_def)

lemma open_file_ok:
  assumes f: "base_ok env H U base cs0" "log_ok U rs" "set ds \<subseteq> U" "torn H U s"
    and r: "refs_readable H (disk_chunks base cs0 rs) (disk_refs cs0 rs)"
  shows "opens_to env H U (base @ log_bytes H rs @ log_bytes H (map WalChunk ds) @ s) (disk_refs cs0 rs) (disk_chunks base cs0 rs)"
proof -
  let ?f = "base @ log_bytes H rs @ log_bytes H (map WalChunk ds) @ s"
  obtain c where "chunkStoreOpen env (Some ?f) True = Inr c" "store_inv H U c ?f" "committed c ?f = disk_chunks base cs0 rs"
    "opened env base ?f c" "refsHash c = disk_refs cs0 rs" "committedRefsHash c = disk_refs cs0 rs"
    by (rule chunkStoreOpen_ok [OF f refl r])
  then show ?thesis using opened_pending by (auto simp: opens_to_def)
qed

lemma torn_Nil [simp]: "torn H U []"
  by (simp add: torn_def)

lemma file_ok_opens: "file_ok env H U f h C w \<Longrightarrow> opens_to env H U f h C"
  using open_file_ok [of env H U _ _ _ "[]" "[]"] by (fastforce simp: file_ok_def)

lemma opens_empty:
  assumes "universe H U"
  shows "opens_to env H U [] hash0 {}"
  using assms
  by (simp add: opens_to_def chunkStoreOpen_def csMarkRefsCommitted_def chunk_store0_def refs0_def refs_state.defs chunk_store.defs
      store_inv_def ht_inv_def sorted_entries_def committed_def chunks_def pending_def)

lemma disk_inv_opens: "disk_inv env H U cs f \<Longrightarrow> opens_to env H U f (committedRefsHash cs) (committed cs f)"
  using file_ok_opens opens_empty disk_invD(1)
  by (fastforce simp: disk_inv_def committed_def split: if_splits)

section \<open>A commit cut short\<close>

text \<open>The records a commit appends.\<close>

definition commit_recs :: "chunk_store \<Rightarrow> wal_rec list" where
  "commit_recs cs = map WalChunk (map (edata (pWriteBuf cs)) (aPending cs)) @ [WalRoot (csSerializeManifest cs)]"

lemma commit_stream_recs:
  "commit_stream H f cs = (if f = [] then csSerializeManifest cs else []) @ log_bytes H (commit_recs cs)"
  by (simp add: commit_stream_def commit_recs_def)

lemma commit_recs_ok:
  assumes "disk_inv env H U cs f"
  shows "log_ok U (commit_recs cs)" "has_root (commit_recs cs)" "log_refs h (commit_recs cs) = refsHash cs"
    "log_chunks (commit_recs cs) = pending cs"
proof -
  have h: "hash_ok (refsHash cs)" using assms by (simp add: disk_inv_def)
  have "edata (pWriteBuf cs) ` set (aPending cs) \<subseteq> U" using disk_invD(4) [OF assms] by (simp add: chunks_def pending_def)
  then show "log_ok U (commit_recs cs)" using manifest_rec_ok [OF h] by (auto simp: commit_recs_def log_ok_def)
  show "has_root (commit_recs cs)" by (simp add: commit_recs_def)
  show "log_refs h (commit_recs cs) = refsHash cs"
    by (simp add: commit_recs_def log_refs_append csSerializeManifest_reads(9) [OF h] del: map_map)
  show "log_chunks (commit_recs cs) = pending cs" by (simp add: commit_recs_def pending_def del: map_map)
qed

text \<open>A cut through the appended records, on a file whose own log is complete.\<close>

lemma cut_records:
  assumes b: "base_ok env H U base cs0" and l: "log_ok U rs" and r: "refs_readable H (disk_chunks base cs0 rs) (disk_refs cs0 rs)"
    and inv: "disk_inv env H U cs f" and k: "k \<le> length (log_bytes H (commit_recs cs))"
    and r': "refs_readable H (disk_chunks base cs0 rs \<union> pending cs) (refsHash cs)"
  shows "opens_to env H U (base @ log_bytes H rs @ take k (log_bytes H (commit_recs cs))) (disk_refs cs0 rs) (disk_chunks base cs0 rs) \<and>
       k < length (log_bytes H (commit_recs cs)) \<or>
    opens_to env H U (base @ log_bytes H rs @ take k (log_bytes H (commit_recs cs))) (refsHash cs) (disk_chunks base cs0 rs \<union> pending cs) \<and>
       k = length (log_bytes H (commit_recs cs))"
proof -
  let ?ds = "map (edata (pWriteBuf cs)) (aPending cs)" and ?rs = "commit_recs cs"
  note c = commit_recs_ok [OF inv]
  have ok: "\<forall>r \<in> set ?rs. rec_ok U r" using c(1) by (simp add: log_ok_def)
  have du: "set ?ds \<subseteq> U" using disk_invD(4) [OF inv] by (auto simp: chunks_def pending_def)
  obtain rs1 rs2 s where p: "?rs = rs1 @ rs2" "take k (log_bytes H ?rs) = log_bytes H rs1 @ s" "torn H U s" "rs2 = [] \<longrightarrow> s = []"
    "rs2 \<noteq> [] \<longrightarrow> k < length (log_bytes H ?rs)"
    using log_prefix [OF k ok] by blast
  show ?thesis
  proof (cases "rs2 = []")
    case True
    then have t: "take k (log_bytes H ?rs) = log_bytes H ?rs" using p by simp
    then have kl: "k = length (log_bytes H ?rs)" using k by (metis length_take min.absorb2)
    have l': "log_ok U (rs @ ?rs)" using l c(1) by (auto simp: log_ok_def commit_recs_def)
    have d: "disk_refs cs0 (rs @ ?rs) = refsHash cs" "disk_chunks base cs0 (rs @ ?rs) = disk_chunks base cs0 rs \<union> pending cs"
      using c by (auto simp: disk_refs_def disk_chunks_def log_refs_append)
    have "opens_to env H U (base @ log_bytes H (rs @ ?rs) @ log_bytes H (map WalChunk []) @ []) (disk_refs cs0 (rs @ ?rs))
       (disk_chunks base cs0 (rs @ ?rs))"
      by (rule open_file_ok [OF b l']) (use r' d in simp_all)
    then show ?thesis using t kl d by simp
  next
    case False
    then obtain xs where x: "rs2 = xs @ [WalRoot (csSerializeManifest cs)]" "map WalChunk ?ds = rs1 @ xs"
      using p(1) unfolding commit_recs_def by (metis append_butlast_last_id append_is_Nil_conv butlast_append butlast_snoc last_appendR last_snoc)
    then obtain ds1 where d1: "rs1 = map WalChunk ds1" "set ds1 \<subseteq> set ?ds"
      by (metis map_eq_append_conv set_append Un_upper1)
    have "opens_to env H U (base @ log_bytes H rs @ log_bytes H (map WalChunk ds1) @ s) (disk_refs cs0 rs) (disk_chunks base cs0 rs)"
      by (rule open_file_ok [OF b l _ p(3) r]) (use d1 du in blast)
    then show ?thesis using p d1 False by simp
  qed
qed

text \<open>The writes of a commit leave the old state or the new one, and the new one exactly when all of
  them are done.\<close>

lemma commit_cut:
  assumes inv: "disk_inv env H U cs f" and room: "f = [] \<longrightarrow> CHUNK_MANIFEST_SIZE \<le> k"
  shows "opens_to env H U (f @ take k (commit_stream H f cs)) (committedRefsHash cs) (committed cs f) \<and> k < length (commit_stream H f cs) \<or>
    opens_to env H U (f @ take k (commit_stream H f cs)) (refsHash cs) (chunks f cs) \<and> length (commit_stream H f cs) \<le> k"
proof -
  let ?rs = "commit_recs cs" and ?k = "min k (length (commit_stream H f cs))"
  have u: "universe H U" by (rule disk_invD(1) [OF inv])
  have tk: "take k (commit_stream H f cs) = take ?k (commit_stream H f cs)" by (simp add: min_def)
  have rr: "refs_readable H (chunks f cs) (refsHash cs)" using inv by (simp add: disk_inv_def)
  show ?thesis
  proof (cases "f = []")
    case False
    then obtain base cs0 rs where b: "base_ok env H U base cs0" "log_ok U rs" "f = base @ log_bytes H rs"
      "disk_refs cs0 rs = committedRefsHash cs" "disk_chunks base cs0 rs = committed cs f"
      "refs_readable H (committed cs f) (committedRefsHash cs)"
      using inv by (auto simp: disk_inv_def file_ok_def)
    have st: "commit_stream H f cs = log_bytes H ?rs" using False by (simp add: commit_stream_recs)
    have "?k \<le> length (log_bytes H ?rs)" by (simp add: st)
    note c = cut_records [OF b(1,2) _ inv this, unfolded b(4,5), OF b(6)]
    then show ?thesis using b(3) rr unfolding tk st by (auto simp: chunks_def)
  next
    case True
    have e: "aIndex cs = [] \<and> committedRefsHash cs = hash0 \<and> nChunks cs = 0 \<and> nIndexSize cs = 0 \<and> iIndexOffset cs = 0 \<and>
        iWalOffset cs = int CHUNK_MANIFEST_SIZE" and h: "hash_ok (refsHash cs)"
      using inv True by (auto simp: disk_inv_def file_ok_def base_ok_def split: if_splits)
    let ?m = "csSerializeManifest cs" and ?b = "fresh_base env (refsHash cs)"
    note ml = csSerializeManifest_reads(1) [OF h]
    have b: "base_ok env H U ?m ?b" by (rule fresh_base_ok [OF u h]) (use e in simp_all)
    have l: "log_ok U []" by (simp add: log_ok_def)
    have d: "disk_refs ?b [] = hash0" "disk_chunks ?m ?b [] = {}" by (simp_all add: disk_refs_def disk_chunks_def fresh_base_def)
    have cm: "committed cs f = {}" "chunks f cs = pending cs" using e by (simp_all add: committed_def chunks_def)
    have st: "commit_stream H f cs = ?m @ log_bytes H ?rs" using True by (simp add: commit_stream_recs)
    have k: "?k - length ?m \<le> length (log_bytes H ?rs)" "length ?m \<le> ?k" using room True ml unfolding st by simp_all
    have r0: "refs_readable H {} hash0" by (simp add: refs_readable_def)
    have r1: "refs_readable H ({} \<union> pending cs) (refsHash cs)" using rr cm by simp
    note c = cut_records [OF b l _ inv k(1), unfolded d, OF r0 r1]
    have t: "f @ take ?k (commit_stream H f cs) = ?m @ log_bytes H [] @ take (?k - length ?m) (log_bytes H ?rs)"
      using True k(2) unfolding st by simp
    show ?thesis unfolding tk t using c e cm k ml by (auto simp: st)
  qed
qed

section \<open>Committing to the file\<close>

lemma committed_offsets_ok:
  assumes u: "universe H U"
  shows "at_off f off (log_bytes H (map WalChunk (map (edata buf) es)) @ s) \<Longrightarrow> \<forall>e \<in> set es. good_entry H U buf e \<Longrightarrow>
    (\<forall>e \<in> set (committed_offsets (int off) es). good_entry H U f e) \<and>
    edata f ` set (committed_offsets (int off) es) = edata buf ` set es"
proof (induction es arbitrary: off)
  case (Cons e es)
  let ?d = "edata buf e"
  have g: "good_entry H U buf e" "\<forall>e \<in> set es. good_entry H U buf e" using Cons.prems(2) by simp_all
  then have d: "?d \<in> U" "eHash e = H ?d" "0 < eSize e" by (simp_all add: good_entry_def)
  have sz: "eSize e = int (length ?d)" using edata_not_Nil [OF g(1)] d(3) by simp
  have hl: "length (H ?d) = 20" using u d(1) by (simp add: universe_def hash_ok_def PROLLY_HASH_SIZE_def)
  have at: "at_off f off (rec_bytes H (WalChunk ?d) @ log_bytes H (map WalChunk (map (edata buf) es)) @ s)"
    using Cons.prems(1) by simp
  note l = log_entry_good [OF at u d(1)]
  have e: "e\<lparr>eOffset := int off + 21\<rparr> = \<lparr>eHash = H ?d, eOffset = int off + 21, eSize = int (length ?d)\<rparr>"
    using d(2) sz by (cases e) simp
  have n: "int off + 25 + eSize e = int (off + length (rec_bytes H (WalChunk ?d)))" using sz hl by simp
  note ih = Cons.IH [OF at_off_bytes(2) [OF at refl] g(2)]
  show ?case unfolding committed_offsets.simps n e using l ih by simp
qed simp

lemma append_bytes_ok:
  assumes u: "universe H U"
  shows "\<forall>e \<in> set es. good_entry H U buf e \<Longrightarrow> m = int (length (log_bytes H (map WalChunk (map (edata buf) es)))) \<Longrightarrow>
    append_bytes n es = Inr (n + m) \<or> n + m > LARGEST_INT64 \<and> append_bytes n es = Inl SQLITE_TOOBIG"
proof (induction es arbitrary: n m)
  case (Cons e es)
  have g: "good_entry H U buf e" "\<forall>e \<in> set es. good_entry H U buf e" using Cons.prems(1) by simp_all
  then have "edata buf e \<in> U" "0 < eSize e" by (simp_all add: good_entry_def)
  then have l: "int (length (rec_bytes H (WalChunk (edata buf e)))) = 25 + eSize e" 
    using edata_not_Nil [OF g(1)] u by (simp add: universe_def hash_ok_def PROLLY_HASH_SIZE_def)
  let ?m = "int (length (log_bytes H (map WalChunk (map (edata buf) es))))"
  have m: "m = 25 + eSize e + ?m" using Cons.prems(2) l by simp
  show ?case using Cons.IH [OF g(2) refl, of "n + (25 + eSize e)"] m by (auto simp: Let_def)
qed simp

text \<open>The store at the end of a successful commit.\<close>

definition commit_result :: "chunk_store \<Rightarrow> nat \<Rightarrow> nat \<Rightarrow> int \<Rightarrow> chunk_store" where
  "commit_result cs fileSize writeOff newWalSize =
     (let filePos = (if fileSize > 0 then int fileSize else int CHUNK_MANIFEST_SIZE);
          merged = csMergeIndex (aIndex cs) (committed_offsets filePos (aPending cs));
          cs = cs\<lparr>pFile := True, iFileSize := int writeOff\<rparr>;
          cs = (if fileSize = 0 then cs\<lparr>iWalOffset := int CHUNK_MANIFEST_SIZE\<rparr> else cs);
          cs = (if nPending cs > 0 then cs\<lparr>aIndex := merged, nWalData := newWalSize\<rparr> else cs)
      in csMarkRefsCommitted (csPendHTClear (cs\<lparr>pWriteBuf := [], nWriteBufAlloc := 0, aPending := []\<rparr>)))"

lemma commit_result_fields:
  "pFile (commit_result cs n off w)" "isMemory (commit_result cs n off w) = isMemory cs"
  "refsHash (commit_result cs n off w) = refsHash cs" "committedRefsHash (commit_result cs n off w) = refsHash cs"
  "iFileSize (commit_result cs n off w) = int off" "aPending (commit_result cs n off w) = []"
  "pWriteBuf (commit_result cs n off w) = []" "nWriteBufAlloc (commit_result cs n off w) = 0"
  "ht_inv (commit_result cs n off w)" "graphLockFd (commit_result cs n off w) = graphLockFd cs"
  "iWalOffset (commit_result cs n off w) = (if n = 0 then int CHUNK_MANIFEST_SIZE else iWalOffset cs)"
  "aIndex (commit_result cs n off w) = (if aPending cs = [] then aIndex cs else csMergeIndex (aIndex cs)
     (committed_offsets (if n > 0 then int n else int CHUNK_MANIFEST_SIZE) (aPending cs)))"
  "nWalData (commit_result cs n off w) = (if aPending cs = [] then nWalData cs else w)"
  by (simp_all add: commit_result_def csMarkRefsCommitted_def csPendHTClear_def Let_def ht_inv_def)

lemma log_ok_append: "log_ok U rs \<Longrightarrow> log_ok U rs' \<Longrightarrow> rs' \<noteq> [] \<Longrightarrow> log_ok U (rs @ rs')"
  by (auto simp: log_ok_def)

lemma commit_file_ok:
  assumes inv: "disk_inv env H U cs f"
  shows "file_ok env H U (f @ commit_stream H f cs) (refsHash cs) (chunks f cs)
    (if f = [] then int CHUNK_MANIFEST_SIZE else iWalOffset cs)"
proof (cases "f = []")
  case False
  then obtain base cs0 rs where b: "base_ok env H U base cs0" "log_ok U rs" "f = base @ log_bytes H rs"
    "disk_refs cs0 rs = committedRefsHash cs" "disk_chunks base cs0 rs = committed cs f" "iWalOffset cs = int (length base)"
    using inv by (auto simp: disk_inv_def file_ok_def)
  note c = commit_recs_ok [OF inv]
  have "disk_refs cs0 (rs @ commit_recs cs) = refsHash cs" using c by (simp add: disk_refs_def log_refs_append)
  moreover have "disk_chunks base cs0 (rs @ commit_recs cs) = chunks f cs"
    using c b(5) by (auto simp: disk_chunks_def chunks_def)
  moreover have "log_ok U (rs @ commit_recs cs)" by (rule log_ok_append [OF b(2) c(1)]) (simp add: commit_recs_def)
  moreover have "f @ commit_stream H f cs = base @ log_bytes H (rs @ commit_recs cs)"
  proof -
    have "commit_stream H f cs = log_bytes H (commit_recs cs)" using False by (simp add: commit_stream_recs)
    then show ?thesis using b(3) by simp
  qed
  moreover have "refs_readable H (chunks f cs) (refsHash cs)" using inv by (simp add: disk_inv_def)
  ultimately show ?thesis using False b(1,6) unfolding file_ok_def by (metis if_False)
next
  case True
  have e: "aIndex cs = [] \<and> nChunks cs = 0 \<and> nIndexSize cs = 0 \<and> iIndexOffset cs = 0 \<and>
      iWalOffset cs = int CHUNK_MANIFEST_SIZE" and h: "hash_ok (refsHash cs)"
    using inv True by (simp_all add: disk_inv_def)
  note b = fresh_base_ok [OF disk_invD(1) [OF inv] h, of env] and ml = csSerializeManifest_reads(1) [OF h]
  note c = commit_recs_ok [OF inv]
  let ?b = "fresh_base env (refsHash cs)"
  have "disk_refs ?b (commit_recs cs) = refsHash cs" using c by (simp add: disk_refs_def)
  moreover have "disk_chunks (csSerializeManifest cs) ?b (commit_recs cs) = chunks f cs"
    using c e by (simp add: disk_chunks_def chunks_def committed_def fresh_base_def)
  moreover have "f @ commit_stream H f cs = csSerializeManifest cs @ log_bytes H (commit_recs cs)"
    using True unfolding commit_stream_recs by simp
  moreover have "refs_readable H (chunks f cs) (refsHash cs)" using inv by (simp add: disk_inv_def)
  moreover have "base_ok env H U (csSerializeManifest cs) ?b" by (rule b) (use e in simp_all)
  ultimately show ?thesis using True c(1) ml unfolding file_ok_def by (metis if_True)
qed

lemma commit_result_ok:
  assumes inv: "disk_inv env H U cs f" and f': "f' = f @ commit_stream H f cs" and w: "w \<le> int (length f')"
  defines "c \<equiv> commit_result cs (length f) (length f') w"
  shows "disk_inv env H U c f'" "committed c f' = chunks f cs" "chunks f' c = chunks f cs"
proof -
  note r = commit_result_fields [of cs "length f" "length f'" w, folded c_def]
  have u: "universe H U" and gp: "\<forall>e \<in> set (aPending cs). good_entry H U (pWriteBuf cs) e" using disk_invD [OF inv] by simp_all
  have so: "sorted_entries (aIndex cs)" and wd: "nWalData cs \<le> int (length f)" and h: "hash_ok (refsHash cs)"
    using inv by (simp_all add: disk_inv_def store_inv_def)
  let ?ds = "map WalChunk (map (edata (pWriteBuf cs)) (aPending cs))"
  define off where "off = (if f = [] then CHUNK_MANIFEST_SIZE else length f)"
  define pre where "pre = (if f = [] then csSerializeManifest cs else f)"
  have "f' = pre @ log_bytes H ?ds @ log_bytes H [WalRoot (csSerializeManifest cs)]" "length pre = off"
    using csSerializeManifest_reads(1) [OF h] by (auto simp: f' pre_def off_def commit_stream_def)
  then have at: "at_off f' off (log_bytes H ?ds @ log_bytes H [WalRoot (csSerializeManifest cs)])" by (simp add: at_off_def)
  note co = committed_offsets_ok [OF u at gp]
  have gi: "\<forall>e \<in> set (aIndex cs). good_entry H U f' e" "edata f' ` set (aIndex cs) = committed cs f"
  proof -
    have "(\<forall>e \<in> set (aIndex cs). good_entry H U f' e) \<and> edata f' ` set (aIndex cs) = committed cs f"
    proof (cases "f = []")
      case True
      then show ?thesis using inv by (simp add: disk_inv_def committed_def)
    next
      case False
      then have pf: "pFile cs" using inv by (simp add: disk_inv_def)
      then have "good_entry H U f e" if "e \<in> set (aIndex cs)" for e using inv that by (simp add: disk_inv_def store_inv_def cbuf_def)
      note g = good_entry_append [OF this, of _ "commit_stream H f cs", folded f']
      then show ?thesis using pf by (auto simp: committed_def cbuf_def image_def)
    qed
    then show "\<forall>e \<in> set (aIndex cs). good_entry H U f' e" "edata f' ` set (aIndex cs) = committed cs f" by simp_all
  qed
  have ix: "(if length f > 0 then int (length f) else int CHUNK_MANIFEST_SIZE) = int off" by (simp add: off_def)
  have ok: "\<forall>e \<in> set (committed_offsets (int off) (aPending cs)). hash_ok (eHash e)" using co by (simp add: good_entry_def)
  note m = merge_contents [OF u so gi(1) [rule_format] conjunct1 [OF co, rule_format]]
  have ai: "sorted_entries (aIndex c) \<and> (\<forall>e \<in> set (aIndex c). good_entry H U f' e) \<and> edata f' ` set (aIndex c) = chunks f cs"
  proof (cases "aPending cs = []")
    case True
    then show ?thesis using r(12) so gi by (simp add: chunks_def pending_def)
  next
    case False
    then have "aIndex c = csMergeIndex (aIndex cs) (committed_offsets (int off) (aPending cs))" using r(12) unfolding ix by simp
    then show ?thesis using csMergeIndex_props(1) [OF so ok] m gi(2) co by (simp add: image_Un) (simp add: chunks_def pending_def)
  qed
  have si: "store_inv H U c f'" using ai r u inv by (simp add: store_inv_def cbuf_def disk_inv_def)
  show cm: "committed c f' = chunks f cs" using ai r by (simp add: committed_def cbuf_def)
  show ch: "chunks f' c = chunks f cs" using cm r by (simp add: chunks_def pending_def)
  have nw: "nWalData c \<le> int (length f')" using r(13) w wd by (simp add: f')
  have "f' \<noteq> []" by (simp add: f' commit_stream_def)
  then show "disk_inv env H U c f'"
    using si r inv commit_file_ok [OF inv, folded f'] cm ch nw h by (simp add: disk_inv_def)
qed

section \<open>Restoring the references\<close>

lemma replace_refs_strip:
  "csReplaceRefsStateFromBlob csMarkRefsCommitted cs d False = Inr c \<Longrightarrow> strip c = strip cs"
  by (auto simp: csReplaceRefsStateFromBlob_def res_simps Let_def)

lemma chunkStoreGet_core:
  assumes "store_inv H U cs f" "hash_ok h"
  shows "core (fst (chunkStoreGet cs f h)) = core cs"
  using chunkStoreGet_state [OF assms] by (metis fst_conv)

lemma chunkStoreReloadRefs_strip:
  assumes "store_inv H U cs f" "hash_ok (refsHash cs)"
  shows "strip (fst (chunkStoreReloadRefs cs f)) = strip cs"
proof -
  obtain c r where g: "chunkStoreGet cs f (refsHash cs) = (c, r)" by force
  have s: "strip c = strip cs" by (rule strip_core) (use chunkStoreGet_core [OF assms] g in simp)
  show ?thesis
  proof (cases r)
    case (Inl e)
    then show ?thesis using s by (simp add: chunkStoreReloadRefs_def g)
  next
    case (Inr d)
    then show ?thesis using s replace_refs_strip [of c d]
      by (cases "csReplaceRefsStateFromBlob csMarkRefsCommitted c d False") (simp_all add: chunkStoreReloadRefs_def g)
  qed
qed

lemma restore_strip:
  assumes inv: "store_inv H U cs f" and h: "hash_ok (committedRefsHash cs)"
  shows "strip (fst (csRestoreCommittedRefsState cs f)) = strip (cs\<lparr>refsHash := committedRefsHash cs\<rparr>)"
proof -
  let ?c = "csRestoreCommittedRefsHash cs"
  have c: "?c = cs\<lparr>refsHash := committedRefsHash cs\<rparr>" by (simp add: csRestoreCommittedRefsHash_def)
  have "chunk_part ?c = chunk_part cs" by (simp add: chunk_part_def csRestoreCommittedRefsHash_def)
  then have i: "store_inv H U ?c f" using inv store_inv_frame(1) by metis
  have "strip (csFreeTracking (csFreeRemotes (csFreeTags (csFreeBranches ?c)))) = strip ?c"
    by (simp add: strip_def core_def csFreeTracking_def csFreeRemotes_def csFreeTags_def csFreeBranches_def)
  then show ?thesis using chunkStoreReloadRefs_strip [OF i] h c
    by (simp add: csRestoreCommittedRefsState_def Let_def)
qed

lemma restore_disk_inv:
  assumes inv: "disk_inv env H U cs f"
  defines "c \<equiv> fst (csRestoreCommittedRefsState cs f)"
  shows "disk_inv env H U c f" "committed c f = committed cs f" "chunks f c = chunks f cs"
    "refsHash c = committedRefsHash cs" "committedRefsHash c = committedRefsHash cs" "graphLockFd c = graphLockFd cs"
    "readOnly c = readOnly cs" "snapshotPinned c = snapshotPinned cs"
proof -
  have si: "store_inv H U cs f" and h: "hash_ok (committedRefsHash cs)" using inv by (simp_all add: disk_inv_def)
  obtain c' r where r: "csRestoreCommittedRefsState cs f = (c', r)" "store_inv H U c' f"
    "chunks f c' = chunks f cs" "committed c' f = committed cs f" "refsHash c' = committedRefsHash cs"
    "committedRefsHash c' = committedRefsHash cs" "isMemory c' = isMemory cs"
    by (rule csRestoreCommittedRefsState_state [OF si h])
  have c: "c = c'" using r(1) by (simp add: c_def)
  note s = strip_fields [OF restore_strip [OF si h, folded c_def]]
  have "refs_readable H (chunks f cs) (committedRefsHash cs)"
    using inv by (cases "f = []") (auto simp: disk_inv_def refs_readable_def file_ok_def chunks_def)
  then show "disk_inv env H U c f"
    using inv r s unfolding c by (simp add: disk_inv_def)
  show "committed c f = committed cs f" "chunks f c = chunks f cs"
    "refsHash c = committedRefsHash cs" "committedRefsHash c = committedRefsHash cs" "graphLockFd c = graphLockFd cs"
    "readOnly c = readOnly cs" "snapshotPinned c = snapshotPinned cs"
    using r s unfolding c by simp_all
qed

section \<open>The whole commit\<close>

lemma open_handle_inv:
  assumes "disk_inv env H U cs f"
  shows "disk_inv env H U (cs\<lparr>pFile := True\<rparr>) f" "chunks f (cs\<lparr>pFile := True\<rparr>) = chunks f cs"
    "committed (cs\<lparr>pFile := True\<rparr>) f = committed cs f"
proof -
  let ?c = "cs\<lparr>pFile := True\<rparr>"
  have b: "cbuf ?c f = cbuf cs f" using assms by (cases "f = []") (simp_all add: disk_inv_def cbuf_def)
  have p: "pend_bucket ?c = pend_bucket cs" by (simp add: pend_bucket_def fun_eq_iff)
  have "bucket_list ?c = bucket_list cs" by (simp add: bucket_list_def fun_eq_iff p)
  then have "ht_inv ?c = ht_inv cs" unfolding ht_inv_def chains_inv_def by simp
  then show d: "chunks f ?c = chunks f cs" "committed ?c f = committed cs f" using b by (simp_all add: chunks_def committed_def pending_def)
  show "disk_inv env H U ?c f"
    using assms d b \<open>ht_inv ?c = ht_inv cs\<close> by (simp add: disk_inv_def store_inv_def)
qed

lemma write_chunks_first:
  "write_chunks fl off buf es = (fl', off', er) \<Longrightarrow> \<forall>e \<in> set es. good_entry H U buf e \<Longrightarrow> off = length (fBytes fl) \<Longrightarrow>
     es \<noteq> [] \<Longrightarrow> off' \<le> off \<Longrightarrow> fRoom fl < 25"
proof (induction es)
  case (Cons e es)
  have g: "good_entry H U buf e" "\<forall>e \<in> set es. good_entry H U buf e" using Cons.prems(2) by simp_all
  note r = good_entry_rec [OF g(1)]
  let ?h = "[CS_WAL_TAG_CHUNK] @ eHash e @ put_u32 (of_int (eSize e))"
  obtain fl1 ok where s: "sqlite3OsWrite fl ?h off = (fl1, ok)" by force
  note a = sqlite3OsWrite_append [OF s [unfolded Cons.prems(3)]]
  show ?case
  proof (cases ok)
    case False
    then show ?thesis using a r(3) by (simp add: appended_def)
  next
    case True
    then have o1: "off + 25 = length (fBytes fl1)" using a r(3) Cons.prems(3) by (simp add: appended_def)
    obtain fl2 off2 er2 where p: "write_pieces fl1 (off + 25) (edata buf e) = (fl2, off2, er2)" by (metis prod_cases3)
    note pp = write_pieces_append [OF o1 p]
    have "off + 25 \<le> off'"
    proof (cases er2)
      case (Some rc)
      then show ?thesis using Cons.prems(1) s True r(2) p pp by simp
    next
      case None
      have o2: "off2 = length (fBytes fl2)" using pp None o1 by (simp add: appended_def)
      have "write_chunks fl2 off2 buf es = (fl', off', er)" using Cons.prems(1) s True r(2) p None by simp
      then show ?thesis using write_chunks_append [OF o2 g(2)] pp by fastforce
    qed
    then show ?thesis using Cons.prems(5) by simp
  qed
qed simp

lemma commit_writes_first:
  assumes h: "hash_ok (refsHash cs)" and g: "\<forall>e \<in> set (aPending cs). good_entry H U (pWriteBuf cs) e"
    and c: "commit_writes fl cs = (fl', off', e)" and o: "off' \<le> length (fBytes fl)"
  shows "fRoom fl < 169"
proof (rule ccontr)
  assume r: "\<not> fRoom fl < 169"
  have ml: "length (csSerializeManifest cs) = 168" using csSerializeManifest_reads(1) [OF h] by (simp add: CHUNK_MANIFEST_SIZE_def)
  obtain fl2 off2 e2 where w: "\<And>n. n = length (fBytes fl) \<Longrightarrow> write_chunks fl n (pWriteBuf cs) (aPending cs) = (fl2, off2, e2)"
    by (metis prod_cases3)
  show False
  proof (cases "fBytes fl = []")
    case True
    obtain fl1 ok where s: "sqlite3OsWrite fl (csSerializeManifest cs) 0 = (fl1, ok)" by force
    have a: "appended fl (csSerializeManifest cs) fl1 ok" using sqlite3OsWrite_append [of fl _ fl1 ok] s True by simp
    then have ok: "ok" "length (fBytes fl1) = 168" using r ml True by (simp_all add: appended_def)
    obtain fl3 off3 e3 where w3: "write_chunks fl1 168 (pWriteBuf cs) (aPending cs) = (fl3, off3, e3)" by (metis prod_cases3)
    note wa = write_chunks_append [OF ok(2) [symmetric] g w3]
    have "168 \<le> off'"
    proof (cases e3)
      case None
      then have "write_root fl3 (length (fBytes fl3)) cs = (fl', off', e)"
        using c s ok(1) True w3 wa by (simp add: commit_writes_def CHUNK_MANIFEST_SIZE_def)
      then show ?thesis using write_root_append(3) [OF h] wa None by fastforce
    next
      case (Some rc)
      then show ?thesis using c s ok(1) True w3 wa by (simp add: commit_writes_def CHUNK_MANIFEST_SIZE_def)
    qed
    then show False using o True by simp
  next
    case False
    note w' = w [OF refl]
    note wa = write_chunks_append [OF refl g w']
    have cw: "commit_writes fl cs = (case e2 of Some rc \<Rightarrow> (fl2, off2, Some rc) | None \<Rightarrow> write_root fl2 off2 cs)"
      using False w' by (auto simp: commit_writes_def split: option.split)
    show False
    proof (cases e2)
      case (Some rc)
      then have "off2 \<le> length (fBytes fl)" "aPending cs \<noteq> []" using o cw c w' by auto
      then show False using write_chunks_first [OF w' g refl] r by simp
    next
      case None
      note a = conjunct1 [OF wa]
      have o2: "off2 = length (fBytes fl2)" using wa None by simp
      have w3: "write_root fl2 (length (fBytes fl2)) cs = (fl', off', e)" using c cw None o2 by simp
      note ra = write_root_append [OF h w3]
      have "length (fBytes fl2) \<le> length (fBytes fl)" using ra(3) o by simp
      then have "log_bytes H (map (WalChunk \<circ> edata (pWriteBuf cs)) (aPending cs)) = []" using a None by (simp add: appended_def)
      then have "fRoom fl2 = fRoom fl" "fBytes fl2 = fBytes fl" using a None by (simp_all add: appended_def)
      then have "appended fl2 (log_bytes H [WalRoot (csSerializeManifest cs)]) fl' True"
        using ra(1) r ml by (simp add: appended_def)
      then have "e = None" using ra(1) by (cases e) (auto simp: appended_def)
      then show False using commit_writes_append(3) [OF h g c] o by simp
    qed
  qed
qed

lemma store_inv_appended:
  assumes "store_inv H U cs f" "pFile cs"
  shows "store_inv H U cs (f @ x)" "committed cs (f @ x) = committed cs f" "chunks (f @ x) cs = chunks f cs"
proof -
  have "good_entry H U f e" if "e \<in> set (aIndex cs)" for e using assms that by (simp add: store_inv_def cbuf_def)
  note g = good_entry_append [OF this]
  show "store_inv H U cs (f @ x)" using assms g(1) by (simp add: store_inv_def cbuf_def)
  show "committed cs (f @ x) = committed cs f" using assms(2) g(2) by (auto simp: committed_def cbuf_def image_def)
  then show "chunks (f @ x) cs = chunks f cs" by (simp add: chunks_def)
qed

text \<open>What a commit that fails leaves: the references of the last commit, and in the file nothing or
  a part of what was to be appended, the latter only when not even the first write was complete.\<close>

definition commit_undone :: "cs_env \<Rightarrow> (byte list \<Rightarrow> hash) \<Rightarrow> byte list set \<Rightarrow> chunk_store \<Rightarrow> os_file \<Rightarrow> chunk_store \<Rightarrow> os_file \<Rightarrow> bool" where
  "commit_undone env H U cs fl cs' fl' \<longleftrightarrow>
     committedRefsHash cs' = committedRefsHash cs \<and> committed cs' (fBytes fl') = committed cs (fBytes fl) \<and>
     chunks (fBytes fl') cs' = chunks (fBytes fl) cs \<and>
     (fBytes fl' = fBytes fl \<and> disk_inv env H U cs' (fBytes fl) \<or>
      fRoom fl < 169 \<and> (\<exists>k. fBytes fl' = fBytes fl @ take k (commit_stream H (fBytes fl) cs) \<and>
         k < length (commit_stream H (fBytes fl) cs) \<and> (fRoom fl \<ge> CHUNK_MANIFEST_SIZE \<longrightarrow> k \<ge> CHUNK_MANIFEST_SIZE)))"

lemma undone_same:
  assumes inv: "disk_inv env H U cs f" and f: "f = fBytes fl" "fBytes fl' = f"
  shows "commit_undone env H U cs fl (fst (csRestoreCommittedRefsState (cs\<lparr>pFile := True\<rparr>) f)) fl'"
proof -
  note o = open_handle_inv [OF inv]
  note r = restore_disk_inv [OF o(1)]
  show ?thesis using r o f by (simp add: commit_undone_def)
qed

lemma commit_writes_cong:
  assumes "csSerializeManifest cs' = csSerializeManifest cs" "aPending cs' = aPending cs" "pWriteBuf cs' = pWriteBuf cs"
  shows "commit_writes fl cs' = commit_writes fl cs"
  unfolding commit_writes_def write_root_def assms ..

lemma csCommitToFile_eq:
  assumes l: "graphLockFd cs \<ge> 0 \<or> envLock env" and fs: "\<not> int (length (fBytes fl)) > iFileSize cs"
    and wo: "fBytes fl = [] \<longrightarrow> iWalOffset cs = int CHUNK_MANIFEST_SIZE"
  shows "csCommitToFile env cs fl =
    (case append_bytes 0 (aPending cs) of
       Inl rc \<Rightarrow> commit_failed rc (cs\<lparr>pFile := True\<rparr>) fl 0 (length (fBytes fl))
     | Inr appendBytes \<Rightarrow>
         if nWalData cs > LARGEST_INT64 - appendBytes then commit_failed SQLITE_TOOBIG (cs\<lparr>pFile := True\<rparr>) fl 0 (length (fBytes fl))
         else
           case commit_writes fl cs of
             (fl1, writeOff, Some rc) \<Rightarrow> commit_failed rc (cs\<lparr>pFile := True\<rparr>) fl1 writeOff (length (fBytes fl))
           | (fl1, writeOff, None) \<Rightarrow> (Inr (), commit_result cs (length (fBytes fl)) writeOff (nWalData cs + appendBytes), fl1))"
proof -
  let ?f = "fBytes fl" and ?c = "cs\<lparr>pFile := True\<rparr>"
  have wc: "(if length ?f = 0 then ?c\<lparr>iWalOffset := int CHUNK_MANIFEST_SIZE\<rparr> else ?c) = ?c" using wo by simp
  have cw: "commit_writes fl ?c = commit_writes fl cs" by (rule commit_writes_cong) (simp_all add: csSerializeManifest_def)
  have cond: "\<not> (int (length ?f) > iFileSize ?c \<and> pFile cs)" using fs by simp
  have nl: "\<not> \<not> (graphLockFd ?c \<ge> 0 \<or> envLock env)" using l by simp
  have fin: "(let cs = (if length ?f = 0 then ?c\<lparr>iWalOffset := int CHUNK_MANIFEST_SIZE\<rparr> else ?c)\<lparr>iFileSize := int off\<rparr>;
         cs = (if nPending cs > 0 then cs\<lparr>aIndex := csMergeIndex (aIndex ?c) (committed_offsets
            (if length ?f > 0 then int (length ?f) else int CHUNK_MANIFEST_SIZE) (aPending ?c)), nWalData := w\<rparr> else cs);
         cs = csPendHTClear (cs\<lparr>pWriteBuf := [], nWriteBufAlloc := 0, aPending := []\<rparr>) in csMarkRefsCommitted cs) =
     commit_result cs (length ?f) off w" for off w
    using wo by (simp add: commit_result_def Let_def csMarkRefsCommitted_def csPendHTClear_def)
  show ?thesis
    unfolding csCommitToFile_def Let_def if_not_P [OF nl] if_not_P [OF cond] sum.case wc cw
    using fin [unfolded Let_def wc]
    by (auto split: sum.split prod.split option.split)
qed

lemma csCommitToFile_outcome:
  assumes inv: "disk_inv env H U cs (fBytes fl)" and l: "graphLockFd cs \<ge> 0 \<or> envLock env"
    and c: "csCommitToFile env cs fl = (r, cs', fl')"
  shows "r = Inr () \<and> fBytes fl' = fBytes fl @ commit_stream H (fBytes fl) cs \<and>
      (\<exists>w \<le> int (length (fBytes fl')). cs' = commit_result cs (length (fBytes fl)) (length (fBytes fl')) w) \<or>
    (\<exists>e. r = Inl e) \<and> commit_undone env H U cs fl cs' fl' \<and>
      (fRoom fl < length (commit_stream H (fBytes fl) cs) \<or>
       int (length (fBytes fl)) + int (length (commit_stream H (fBytes fl) cs)) > LARGEST_INT64)"
proof -
  let ?f = "fBytes fl" and ?c = "cs\<lparr>pFile := True\<rparr>" and ?st = "commit_stream H (fBytes fl) cs"
  note o = open_handle_inv [OF inv]
  have u: "universe H U" and gp: "\<forall>e \<in> set (aPending cs). good_entry H U (pWriteBuf cs) e" using disk_invD [OF inv] by simp_all
  have fs: "\<not> int (length ?f) > iFileSize cs" and h: "hash_ok (refsHash cs)" and wd: "nWalData cs \<le> int (length ?f)"
    and wo: "?f = [] \<longrightarrow> iWalOffset cs = int CHUNK_MANIFEST_SIZE"
    using inv by (simp_all add: disk_inv_def)
  let ?m = "int (length (log_bytes H (map WalChunk (map (edata (pWriteBuf cs)) (aPending cs)))))"
  have ml: "?m < int (length ?st)" by (simp add: commit_stream_def)
  note eq = csCommitToFile_eq [OF l fs wo]
  have same: "commit_failed rc ?c fl 0 (length ?f) = (r, cs', fl') \<Longrightarrow> r = Inl rc \<and> commit_undone env H U cs fl cs' fl'" for rc
    using undone_same [OF inv refl refl] by (auto simp: commit_failed_def)
  show ?thesis
  proof (cases "append_bytes 0 (aPending cs)")
    case (Inl rc)
    then have big: "int (length ?f) + int (length ?st) > LARGEST_INT64" using append_bytes_ok [OF u gp refl, of 0] ml by auto
    have "r = Inl rc \<and> commit_undone env H U cs fl cs' fl'" using c Inl same by (simp add: eq)
    then show ?thesis using big by blast
  next
    case (Inr n)
    have n: "n = ?m" using append_bytes_ok [OF u gp refl, of 0] Inr by simp
    show ?thesis
    proof (cases "nWalData cs > LARGEST_INT64 - n")
      case True
      then have big: "int (length ?f) + int (length ?st) > LARGEST_INT64" using ml n wd by simp
      have "r = Inl SQLITE_TOOBIG \<and> commit_undone env H U cs fl cs' fl'" using c Inr True same by (simp add: eq)
      then show ?thesis using big by blast
    next
      case False
      obtain fl1 off e where w: "commit_writes fl cs = (fl1, off, e)" by (metis prod_cases3)
      note wa = commit_writes_append [OF h gp w]
      show ?thesis
      proof (cases e)
        case None
        then have a: "appended fl ?st fl1 True" "off = length (fBytes fl1)" using wa by simp_all
        have r: "r = Inr ()" "cs' = commit_result cs (length ?f) off (nWalData cs + n)" "fl' = fl1"
          using c Inr False w None by (simp_all add: eq)
        have "fBytes fl1 = ?f @ ?st" using a(1) by (simp add: appended_def)
        then show ?thesis using r a(2) n wd ml by (intro disjI1) (auto intro!: exI [of _ "nWalData cs + n"])
      next
        case (Some rc)
        have st: "commit_failed rc ?c fl1 off (length ?f) = (r, cs', fl')" using c Inr False w Some by (simp add: eq)
        have ap: "fBytes fl1 = ?f @ take (fRoom fl) ?st" "fRoom fl < length ?st" using wa(1) Some by (auto simp: appended_def)
        have "commit_undone env H U cs fl cs' fl'"
        proof (cases "off > length ?f")
          case True
          then have "cs' = fst (csRestoreCommittedRefsState ?c ?f)" "fBytes fl' = ?f"
            using st ap(1) by (auto simp: commit_failed_def csRollbackFailedAppend_def Let_def)
          then show ?thesis using undone_same [OF inv refl] by simp
        next
          case False
          then have d: "cs' = fst (csRestoreCommittedRefsState ?c (fBytes fl1))" "fl' = fl1"
            using st by (auto simp: commit_failed_def Let_def)
          have r169: "fRoom fl < 169" using commit_writes_first [OF h gp w] False by simp
          have si: "store_inv H U ?c ?f" "hash_ok (committedRefsHash ?c)" "pFile ?c" using o(1) by (simp_all add: disk_inv_def)
          note sa = store_inv_appended [OF si(1,3), of "take (fRoom fl) ?st", folded ap(1)]
          obtain c1 q where c1: "csRestoreCommittedRefsState ?c (fBytes fl1) = (c1, q)"
            "chunks (fBytes fl1) c1 = chunks (fBytes fl1) ?c" "committed c1 (fBytes fl1) = committed ?c (fBytes fl1)"
            "committedRefsHash c1 = committedRefsHash ?c"
            by (rule csRestoreCommittedRefsState_state [OF sa(1) si(2)])
          then have "cs' = c1" using d by simp
          then show ?thesis unfolding commit_undone_def
            using c1 sa o d ap r169 by (intro conjI disjI2 exI [of _ "fRoom fl"]) simp_all
        qed
        moreover have "r = Inl rc" using st by (auto simp: commit_failed_def Let_def)
        ultimately show ?thesis using ap(2) by blast
      qed
    qed
  qed
qed

lemma lock_frame:
  "disk_inv env H U (cs\<lparr>graphLockFd := x\<rparr>) f = disk_inv env H U cs f"
  "commit_stream H f (cs\<lparr>graphLockFd := x\<rparr>) = commit_stream H f cs"
  "committed (cs\<lparr>graphLockFd := x\<rparr>) f = committed cs f" "chunks f (cs\<lparr>graphLockFd := x\<rparr>) = chunks f cs"
proof -
  have c: "chunk_part (cs\<lparr>graphLockFd := x\<rparr>) = chunk_part cs" by (simp add: chunk_part_def)
  note s = store_inv_frame [OF c]
  show "committed (cs\<lparr>graphLockFd := x\<rparr>) f = committed cs f" "chunks f (cs\<lparr>graphLockFd := x\<rparr>) = chunks f cs"
    by (rule s)+
  show "disk_inv env H U (cs\<lparr>graphLockFd := x\<rparr>) f = disk_inv env H U cs f" by (simp add: disk_inv_def s)
  show "commit_stream H f (cs\<lparr>graphLockFd := x\<rparr>) = commit_stream H f cs"
    by (simp add: commit_stream_def csSerializeManifest_def)
qed

lemma unlock_eq: "chunkStoreUnlock cs = cs\<lparr>graphLockFd := if graphLockFd cs \<ge> 0 then -1 else graphLockFd cs\<rparr>"
  by (simp add: chunkStoreUnlock_def)

lemma undone_lock:
  assumes "commit_undone env H U (cs\<lparr>graphLockFd := x\<rparr>) fl cs' fl'"
  shows "commit_undone env H U cs fl (chunkStoreUnlock cs') fl'"
  using assms unfolding commit_undone_def unlock_eq by (simp add: lock_frame)

definition commit_done :: "cs_env \<Rightarrow> (byte list \<Rightarrow> hash) \<Rightarrow> byte list set \<Rightarrow> chunk_store \<Rightarrow> os_file \<Rightarrow> chunk_store \<Rightarrow> os_file \<Rightarrow> bool" where
  "commit_done env H U cs fl cs' fl' \<longleftrightarrow>
     fBytes fl' = fBytes fl @ commit_stream H (fBytes fl) cs \<and> disk_inv env H U cs' (fBytes fl') \<and>
     committed cs' (fBytes fl') = chunks (fBytes fl) cs \<and> chunks (fBytes fl') cs' = chunks (fBytes fl) cs \<and>
     refsHash cs' = refsHash cs \<and> committedRefsHash cs' = refsHash cs"

lemma done_lock:
  assumes "commit_done env H U (cs\<lparr>graphLockFd := x\<rparr>) fl cs' fl'"
  shows "commit_done env H U cs fl (chunkStoreUnlock cs') fl'"
  using assms unfolding commit_done_def unlock_eq lock_frame by (elim conjE) simp

lemma csCommitToFile_cases:
  assumes inv: "disk_inv env H U cs (fBytes fl)" and l: "graphLockFd cs \<ge> 0 \<or> envLock env"
    and c: "csCommitToFile env cs fl = (r, cs', fl')"
  shows "r = Inr () \<and> commit_done env H U cs fl cs' fl' \<or>
    (\<exists>e. r = Inl e) \<and> commit_undone env H U cs fl cs' fl' \<and>
      (fRoom fl < length (commit_stream H (fBytes fl) cs) \<or>
       int (length (fBytes fl)) + int (length (commit_stream H (fBytes fl) cs)) > LARGEST_INT64)"
proof -
  have "r = Inr () \<and> fBytes fl' = fBytes fl @ commit_stream H (fBytes fl) cs \<and>
      (\<exists>w \<le> int (length (fBytes fl')). cs' = commit_result cs (length (fBytes fl)) (length (fBytes fl')) w) \<Longrightarrow>
      commit_done env H U cs fl cs' fl'"
    using commit_result_ok [OF inv] commit_result_fields(3,4) by (auto simp: commit_done_def)
  then show ?thesis using csCommitToFile_outcome [OF inv l c] by blast
qed

lemma chunkStoreCommit_cases:
  assumes inv: "disk_inv env H U cs (fBytes fl)" and c: "chunkStoreCommit env cs fl = (r, cs', fl')"
  shows "r = Inr () \<and> commit_done env H U cs fl cs' fl' \<or>
    (\<exists>e. r = Inl e) \<and> commit_undone env H U cs fl cs' fl' \<and>
      (readOnly cs \<or> graphLockFd cs < 0 \<and> \<not> envLock env \<or> fRoom fl < length (commit_stream H (fBytes fl) cs) \<or>
       int (length (fBytes fl)) + int (length (commit_stream H (fBytes fl) cs)) > LARGEST_INT64)"
proof (cases "readOnly cs")
  case True
  then show ?thesis using c inv by (auto simp: chunkStoreCommit_def commit_undone_def)
next
  case ro: False
  have m: "\<not> isMemory cs" using inv by (simp add: disk_inv_def)
  show ?thesis
  proof (cases "graphLockFd cs < 0")
    case False
    then have "csCommitToFile env cs fl = (r, cs', fl')" using c ro m by (simp add: chunkStoreCommit_def)
    then show ?thesis using csCommitToFile_cases [OF inv] False by fastforce
  next
    case True
    have nc: "\<not> csDetectExternalChanges (cs\<lparr>graphLockFd := 0\<rparr>) (Some (fBytes fl))"
      using inv by (cases "fBytes fl = []") (simp_all add: csDetectExternalChanges_def disk_size_def disk_inv_def)
    show ?thesis
    proof (cases "envLock env")
      case False
      then have "(r, cs', fl') = (Inl SQLITE_BUSY, cs, fl)"
        using c ro m True by (simp add: chunkStoreCommit_def chunkStoreLockAndRefresh_def)
      then show ?thesis using True False inv by (simp add: commit_undone_def)
    next
      case lk: True
      have lr: "chunkStoreLockAndRefresh env cs (Some (fBytes fl)) = (cs\<lparr>graphLockFd := 0\<rparr>, Inr ())"
        using m True lk nc by (simp add: chunkStoreLockAndRefresh_def chunkStoreRefreshIfChanged_def Let_def)
      obtain r0 c0 f0 where cc: "csCommitToFile env (cs\<lparr>graphLockFd := 0\<rparr>) fl = (r0, c0, f0)" by (metis prod_cases3)
      have e: "r = r0" "cs' = chunkStoreUnlock c0" "fl' = f0"
        using c ro m True lr cc by (simp_all add: chunkStoreCommit_def)
      have "disk_inv env H U (cs\<lparr>graphLockFd := 0\<rparr>) (fBytes fl)" using inv by (simp add: lock_frame)
      note o = csCommitToFile_cases [OF this _ cc, unfolded lock_frame]
      show ?thesis using o lk done_lock [where x = 0] undone_lock [where x = 0] unfolding e by auto
    qed
  qed
qed

section \<open>The other operations\<close>

lemma refs_readable_mono: "refs_readable H C h \<Longrightarrow> C \<subseteq> D \<Longrightarrow> refs_readable H D h"
  by (auto simp: refs_readable_def)

lemma put_disk_inv:
  assumes inv: "disk_inv env H U cs f" and d: "d \<in> U"
  obtains c where "chunkStorePut H cs d = Inr (c, H d)" "disk_inv env H U c f" "chunks f c = insert d (chunks f cs)"
    "committed c f = committed cs f" "refsHash c = refsHash cs" "committedRefsHash c = committedRefsHash cs"
proof -
  have si: "store_inv H U cs f" using inv by (simp add: disk_inv_def)
  obtain c where c: "chunkStorePut H cs d = Inr (c, H d)" "store_inv H U c f" "chunks f c = insert d (chunks f cs)"
    "committed c f = committed cs f" "rest c = rest cs"
    by (rule chunkStorePut_ok [OF si d])
  note r = rest_fields [OF c(5)]
  have "refs_readable H (chunks f c) (refsHash cs)"
    using inv refs_readable_mono [of H "chunks f cs"] c(3) by (auto simp: disk_inv_def)
  then have "disk_inv env H U c f" using inv c r by (simp add: disk_inv_def)
  then show thesis using that c r by simp
qed

lemma rollback_disk_inv:
  assumes inv: "disk_inv env H U cs f"
  defines "c \<equiv> chunkStoreRollback cs f"
  shows "disk_inv env H U c f" "chunks f c = committed cs f" "committed c f = committed cs f"
    "refsHash c = committedRefsHash cs" "committedRefsHash c = committedRefsHash cs"
proof -
  have m: "\<not> isMemory cs" using inv by (simp add: disk_inv_def)
  let ?c = "(csPendHTClear (cs\<lparr>aPending := []\<rparr>))\<lparr>pWriteBuf := [], refsHash := committedRefsHash cs\<rparr>"
  have e: "c = fst (csRestoreCommittedRefsState ?c f)"
    using m by (simp add: c_def chunkStoreRollback_def csRestoreCommittedRefsState_def csRestoreCommittedRefsHash_def
        csPendHTClear_def Let_def)
  have cb: "cbuf ?c f = cbuf cs f" using m by (simp add: cbuf_def csPendHTClear_def)
  have fl: "aPending ?c = []" "pWriteBuf ?c = []" "aIndex ?c = aIndex cs" "nWriteBufAlloc ?c = nWriteBufAlloc cs" "pFile ?c = pFile cs"
    "isMemory ?c = isMemory cs" "refsHash ?c = committedRefsHash cs" "committedRefsHash ?c = committedRefsHash cs" "ht_inv ?c"
    "nWalData ?c = nWalData cs" "iFileSize ?c = iFileSize cs" "nChunks ?c = nChunks cs" "nIndexSize ?c = nIndexSize cs"
    "iIndexOffset ?c = iIndexOffset cs" "iWalOffset ?c = iWalOffset cs"
    by (simp_all add: csPendHTClear_def ht_inv_def)
  have cm: "committed ?c f = committed cs f" "chunks f ?c = committed cs f"
    using cb fl by (simp_all add: committed_def chunks_def pending_def)
  have "int (nWriteBuf cs) \<le> nWriteBufAlloc cs" using inv by (simp add: disk_inv_def store_inv_def)
  then have z: "0 \<le> nWriteBufAlloc cs" by linarith
  have r: "refs_readable H (committed cs f) (committedRefsHash cs)"
    using inv by (cases "f = []") (auto simp: disk_inv_def refs_readable_def file_ok_def)
  have "store_inv H U ?c f" using inv fl cb z by (simp add: disk_inv_def store_inv_def)
  then have i: "disk_inv env H U ?c f" using inv fl cm r by (simp add: disk_inv_def)
  show "disk_inv env H U c f" "chunks f c = committed cs f" "committed c f = committed cs f"
    "refsHash c = committedRefsHash cs" "committedRefsHash c = committedRefsHash cs"
    unfolding e using restore_disk_inv [OF i] cm fl by simp_all
qed

text \<open>Setting the references and storing their blob.\<close>

definition refs_blob :: "refs_state \<Rightarrow> byte list" where
  "refs_blob r = (case csSerializeRefsBlob r of Inr (d, sz) \<Rightarrow> d | Inl _ \<Rightarrow> [])"

definition blob_ok :: "byte list set \<Rightarrow> refs_state \<Rightarrow> bool" where
  "blob_ok U r \<longleftrightarrow> refs_ok r \<and> (\<exists>d sz. csSerializeRefsBlob r = Inr (d, sz)) \<and> refs_blob r \<in> U"

lemma blob_parses:
  assumes "blob_ok U r"
  shows "\<exists>q. csDeserializeRefs refs0 (refs_blob r) = Inr q"
proof -
  obtain d sz where d: "csSerializeRefsBlob r = Inr (d, sz)" "refs_ok r" using assms by (auto simp: blob_ok_def)
  have "csDeserializeRefs refs0 d = Inr (csAdoptRefsState refs0 (stored_refs r))"
    using deserialize_bytes [OF d(2) serialize_refs_shape(1,4,5,6,7) [OF d]] by blast
  then show ?thesis using d by (simp add: refs_blob_def)
qed

lemma save_disk_inv:
  assumes inv: "disk_inv env H U cs f" and b: "blob_ok U r"
  obtains c where "chunkStoreSerializeRefs H (csAdoptRefsState cs r) = Inr c" "disk_inv env H U c f"
    "chunks f c = insert (refs_blob r) (chunks f cs)" "committed c f = committed cs f" "refsHash c = H (refs_blob r)"
    "committedRefsHash c = committedRefsHash cs"
proof -
  let ?a = "csAdoptRefsState cs r"
  obtain d sz where d: "csSerializeRefsBlob r = Inr (d, sz)" using b by (auto simp: blob_ok_def)
  have bl: "refs_blob r = d" by (simp add: refs_blob_def d)
  then have dU: "d \<in> U" using b by (simp add: blob_ok_def)
  have "csSerializeRefsBlob ?a = csSerializeRefsBlob r" by (simp add: csSerializeRefsBlob_def csAdoptRefsState_def)
  then have s: "csSerializeRefsBlob ?a = Inr (d, sz)" using d by simp
  have "chunk_part ?a = chunk_part cs" by simp
  note fr = store_inv_frame [OF this]
  have a: "isMemory ?a = isMemory cs" "refsHash ?a = refsHash cs" "committedRefsHash ?a = committedRefsHash cs"
    "nWalData ?a = nWalData cs" "iFileSize ?a = iFileSize cs" "nChunks ?a = nChunks cs" "nIndexSize ?a = nIndexSize cs"
    "iIndexOffset ?a = iIndexOffset cs" "iWalOffset ?a = iWalOffset cs" "pFile ?a = pFile cs" "aIndex ?a = aIndex cs"
    by (simp_all add: csAdoptRefsState_def)
  have "disk_inv env H U ?a f" using inv unfolding disk_inv_def fr a .
  then obtain c where c: "chunkStorePut H ?a d = Inr (c, H d)" "disk_inv env H U c f" "chunks f c = insert d (chunks f ?a)"
    "committed c f = committed ?a f" "refsHash c = refsHash ?a" "committedRefsHash c = committedRefsHash ?a"
    by (rule put_disk_inv [OF _ dU])
  let ?c = "c\<lparr>refsHash := H d\<rparr>"
  have "chunk_part ?c = chunk_part c" by (simp add: chunk_part_def)
  note fc = store_inv_frame [OF this]
  have "refs_readable H (chunks f c) (H d)" using c(3) blob_parses [OF b] bl by (auto simp: refs_readable_def)
  moreover have "hash_ok (H d)" using disk_invD(1) [OF inv] dU by (simp add: universe_def)
  ultimately have "disk_inv env H U ?c f" using c(2) by (simp add: disk_inv_def fc)
  moreover have "chunkStoreSerializeRefs H ?a = Inr ?c" using s c(1) by (simp add: chunkStoreSerializeRefs_def)
  ultimately show thesis using that [of ?c] c fr fc bl by (simp add: csAdoptRefsState_def)
qed

end
