(* ===== verification/ChunkDurable.thy ===== *)
theory ChunkDurable
  imports ChunkCommit
begin

text \<open>
  Durability of the chunk store: runs of a store and its file against a specification of the last
  commit, what a reader of the file finds after a run, after a commit cut short at any byte, and after
  a commit that succeeds or fails; and the runs after which a commit is not safe.
\<close>

section \<open>Runs\<close>

text \<open>The store that is opened where there is no file.\<close>

definition fresh_store :: chunk_store where
  "fresh_store = csMarkRefsCommitted (chunk_store0\<lparr>iWalOffset := int CHUNK_MANIFEST_SIZE\<rparr>)"

text \<open>A store and its file, with the specification: the references and the chunks of the last commit, and
  those now.  A step adds a chunk, changes the references, commits (to a device with room for the first write,
  at least), rolls back, or closes the store and opens it again.\<close>

type_synonym disk_spec = "hash \<times> byte list set \<times> hash \<times> byte list set"

inductive disk_run :: "cs_env \<Rightarrow> (byte list \<Rightarrow> hash) \<Rightarrow> byte list set \<Rightarrow> chunk_store \<times> byte list \<Rightarrow> disk_spec \<Rightarrow> bool"
  for env H U where
    run_create: "chunkStoreOpen env None True = Inr cs \<Longrightarrow> disk_run env H U (cs, []) (hash0, {}, hash0, {})"
  | run_put: "disk_run env H U (cs, f) (hc, Cc, h, C) \<Longrightarrow> d \<in> U \<Longrightarrow> chunkStorePut H cs d = Inr (cs', x) \<Longrightarrow>
      disk_run env H U (cs', f) (hc, Cc, h, insert d C)"
  | run_save: "disk_run env H U (cs, f) (hc, Cc, h, C) \<Longrightarrow> blob_ok U r \<Longrightarrow>
      chunkStoreSerializeRefs H (csAdoptRefsState cs r) = Inr cs' \<Longrightarrow>
      disk_run env H U (cs', f) (hc, Cc, H (refs_blob r), insert (refs_blob r) C)"
  | run_commit: "disk_run env H U (cs, f) (hc, Cc, h, C) \<Longrightarrow>
      chunkStoreCommit env cs \<lparr>fBytes = f, fRoom = room\<rparr> = (Inr (), cs', fl) \<Longrightarrow>
      disk_run env H U (cs', fBytes fl) (h, C, h, C)"
  | run_fail: "disk_run env H U (cs, f) (hc, Cc, h, C) \<Longrightarrow> 169 \<le> room \<Longrightarrow>
      chunkStoreCommit env cs \<lparr>fBytes = f, fRoom = room\<rparr> = (Inl e, cs', fl) \<Longrightarrow>
      disk_run env H U (cs', fBytes fl) (hc, Cc, refsHash cs', C)"
  | run_rollback: "disk_run env H U (cs, f) (hc, Cc, h, C) \<Longrightarrow>
      disk_run env H U (chunkStoreRollback cs f, f) (hc, Cc, hc, Cc)"
  | run_reopen: "disk_run env H U (cs, f) (hc, Cc, h, C) \<Longrightarrow> f \<noteq> [] \<Longrightarrow> chunkStoreOpen env (Some f) True = Inr cs' \<Longrightarrow>
      disk_run env H U (cs', f) (hc, Cc, hc, Cc)"

definition run_inv :: "cs_env \<Rightarrow> (byte list \<Rightarrow> hash) \<Rightarrow> byte list set \<Rightarrow> chunk_store \<times> byte list \<Rightarrow> disk_spec \<Rightarrow> bool" where
  "run_inv env H U s sp = (case (s, sp) of ((cs, f), (hc, Cc, h, C)) \<Rightarrow>
     disk_inv env H U cs f \<and> committedRefsHash cs = hc \<and> committed cs f = Cc \<and> refsHash cs = h \<and> chunks f cs = C)"

lemma run_inv_simp:
  "run_inv env H U (cs, f) (hc, Cc, h, C) \<longleftrightarrow>
     disk_inv env H U cs f \<and> committedRefsHash cs = hc \<and> committed cs f = Cc \<and> refsHash cs = h \<and> chunks f cs = C"
  by (simp add: run_inv_def)

lemma fresh_open: "chunkStoreOpen env None True = Inr fresh_store"
  by (simp add: chunkStoreOpen_def fresh_store_def)

lemma fresh_inv: "universe H U \<Longrightarrow> run_inv env H U (fresh_store, []) (hash0, {}, hash0, {})"
  using hash_ok_hash0
  by (simp add: run_inv_simp fresh_store_def csMarkRefsCommitted_def disk_inv_def chunk_store0_def refs0_def refs_state.defs
      chunk_store.defs store_inv_def ht_inv_def sorted_entries_def committed_def chunks_def pending_def refs_readable_def)

text \<open>A store opened on the file of another satisfies the invariant.\<close>

lemma reopen_inv:
  assumes inv: "disk_inv env H U cs f" and ne: "f \<noteq> []"
  obtains c where "chunkStoreOpen env (Some f) True = Inr c"
    "run_inv env H U (c, f) (committedRefsHash cs, committed cs f, committedRefsHash cs, committed cs f)"
proof -
  obtain base cs0 rs where b: "base_ok env H U base cs0" "log_ok U rs" "f = base @ log_bytes H rs"
    "disk_refs cs0 rs = committedRefsHash cs" "disk_chunks base cs0 rs = committed cs f"
    "refs_readable H (committed cs f) (committedRefsHash cs)"
    using inv ne by (auto simp: disk_inv_def file_ok_def)
  have f: "f = base @ log_bytes H rs @ log_bytes H (map WalChunk []) @ []" using b(3) by simp
  have rr: "refs_readable H (disk_chunks base cs0 rs) (disk_refs cs0 rs)" using b by simp
  obtain c where c: "chunkStoreOpen env (Some f) True = Inr c" "store_inv H U c f" "committed c f = disk_chunks base cs0 rs"
    "opened env base f c" "refsHash c = disk_refs cs0 rs" "committedRefsHash c = disk_refs cs0 rs"
    by (rule chunkStoreOpen_ok [OF b(1,2) _ _ f rr]) simp_all
  note ch = opened_pending(1) [OF c(4)]
  have fo: "file_ok env H U f (committedRefsHash c) (committed c f) (iWalOffset c)"
    unfolding file_ok_def
    by (intro conjI exI [of _ base] exI [of _ cs0] exI [of _ rs]) (use b c rr in \<open>simp_all add: opened_def\<close>)
  have h: "hash_ok (committedRefsHash cs)" using inv by (simp add: disk_inv_def)
  have "disk_inv env H U c f" unfolding disk_inv_def ch using c b h fo ne by (simp add: opened_def)
  then show thesis using that c b ch by (simp add: run_inv_simp)
qed

lemma commit_doneD:
  assumes "commit_done env H U cs fl cs' fl'"
  shows "disk_inv env H U cs' (fBytes fl')" "committed cs' (fBytes fl') = chunks (fBytes fl) cs"
    "chunks (fBytes fl') cs' = chunks (fBytes fl) cs" "refsHash cs' = refsHash cs" "committedRefsHash cs' = refsHash cs"
  using assms unfolding commit_done_def by blast+

lemma run_keeps_inv:
  assumes u: "universe H U"
  shows "disk_run env H U s sp \<Longrightarrow> run_inv env H U s sp"
proof (induction rule: disk_run.induct)
  case (run_create cs)
  then show ?case using fresh_inv [OF u] fresh_open by simp
next
  case (run_put cs f hc Cc h C d cs' x)
  then have i: "disk_inv env H U cs f" by (simp add: run_inv_simp)
  obtain c where "chunkStorePut H cs d = Inr (c, H d)" "disk_inv env H U c f" "chunks f c = insert d (chunks f cs)"
    "committed c f = committed cs f" "refsHash c = refsHash cs" "committedRefsHash c = committedRefsHash cs"
    by (rule put_disk_inv [OF i run_put.hyps(2)])
  then show ?case using run_put by (simp add: run_inv_simp)
next
  case (run_save cs f hc Cc h C r cs')
  then have i: "disk_inv env H U cs f" by (simp add: run_inv_simp)
  obtain c where "chunkStoreSerializeRefs H (csAdoptRefsState cs r) = Inr c" "disk_inv env H U c f"
    "chunks f c = insert (refs_blob r) (chunks f cs)" "committed c f = committed cs f" "refsHash c = H (refs_blob r)"
    "committedRefsHash c = committedRefsHash cs"
    by (rule save_disk_inv [OF i run_save.hyps(2)])
  then show ?case using run_save by (simp add: run_inv_simp)
next
  case (run_commit cs f hc Cc h C room cs' fl)
  then have i: "disk_inv env H U cs (fBytes \<lparr>fBytes = f, fRoom = room\<rparr>)" by (simp add: run_inv_simp)
  show ?case using chunkStoreCommit_cases [OF i run_commit.hyps(2)] run_commit.IH
    commit_doneD [of env H U cs "\<lparr>fBytes = f, fRoom = room\<rparr>" cs' fl]
    by (simp add: run_inv_simp)
next
  case (run_fail cs f hc Cc h C room e cs' fl)
  then have i: "disk_inv env H U cs (fBytes \<lparr>fBytes = f, fRoom = room\<rparr>)" by (simp add: run_inv_simp)
  show ?case using chunkStoreCommit_cases [OF i run_fail.hyps(3)] run_fail.IH run_fail.hyps(2)
    by (auto simp: run_inv_simp commit_undone_def)
next
  case (run_rollback cs f hc Cc h C)
  then show ?case using rollback_disk_inv [of env H U cs f] by (simp add: run_inv_simp)
next
  case (run_reopen cs f hc Cc h C cs')
  then have "disk_inv env H U cs f" by (simp add: run_inv_simp)
  then obtain c where "chunkStoreOpen env (Some f) True = Inr c"
    "run_inv env H U (c, f) (committedRefsHash cs, committed cs f, committedRefsHash cs, committed cs f)"
    by (rule reopen_inv [OF _ run_reopen.hyps(2)])
  then show ?case using run_reopen by (simp add: run_inv_simp)
qed

section \<open>Durability\<close>

text \<open>What a reader of the file finds: the references, and each chunk exactly when it is one of a set.\<close>

definition reads_back :: "cs_env \<Rightarrow> (byte list \<Rightarrow> hash) \<Rightarrow> byte list set \<Rightarrow> byte list \<Rightarrow> hash \<Rightarrow> byte list set \<Rightarrow> bool" where
  "reads_back env H U f h C \<longleftrightarrow> (\<exists>cs. chunkStoreOpen env (Some f) True = Inr cs \<and> refsHash cs = h \<and>
     (\<forall>d \<in> U. snd (chunkStoreGet cs f (H d)) = (if d \<in> C then Inr d else Inl SQLITE_NOTFOUND)))"

lemma opens_reads_back:
  assumes "opens_to env H U f h C"
  shows "reads_back env H U f h C"
proof -
  obtain cs where cs: "chunkStoreOpen env (Some f) True = Inr cs" "store_inv H U cs f" "chunks f cs = C" "refsHash cs = h"
    using assms by (auto simp: opens_to_def)
  have u: "universe H U" using cs(2) by (simp add: store_inv_def)
  have "snd (chunkStoreGet cs f (H d)) = (if d \<in> chunks f cs then Inr d else Inl SQLITE_NOTFOUND)" if "d \<in> U" for d
    using u by (intro store.get_iff [OF cs(2) that _ store_chunks_U [OF cs(2)]]) (simp add: universe_def)
  then show ?thesis using cs unfolding reads_back_def by blast
qed

lemma commit_crash:
  assumes inv: "disk_inv env H U cs f" and room: "f = [] \<longrightarrow> CHUNK_MANIFEST_SIZE \<le> k"
    and w: "commit_writes \<lparr>fBytes = f, fRoom = k\<rparr> cs = (fl, off, e)"
  shows "e \<noteq> None \<and> opens_to env H U (fBytes fl) (committedRefsHash cs) (committed cs f) \<or>
    e = None \<and> opens_to env H U (fBytes fl) (refsHash cs) (chunks f cs)"
proof -
  have h: "hash_ok (refsHash cs)" using inv by (simp add: disk_inv_def)
  have a: "appended \<lparr>fBytes = f, fRoom = k\<rparr> (commit_stream H f cs) fl (e = None)"
    using commit_writes_append(1) [OF h disk_invD(2) [OF inv] w] by simp
  show ?thesis using commit_cut [OF inv room] a by (auto simp: appended_def)
qed

text \<open>
  C2. A store keeps its file in step with the specification: after any run of additions, changes of
  the references, commits (done, or failed on a full device), rollbacks and reopenings of a fresh
  database, opening the file finds the references of the last successful commit, every chunk that was
  there at that commit, and no other.
\<close>

theorem chunk_store_durable:
  assumes "universe H U" "disk_run env H U (cs, f) (hc, Cc, h, C)"
  shows "reads_back env H U f hc Cc"
proof -
  have "run_inv env H U (cs, f) (hc, Cc, h, C)" by (rule run_keeps_inv [OF assms])
  then show ?thesis using disk_inv_opens by (auto simp: run_inv_simp intro!: opens_reads_back)
qed

text \<open>
  C3. A commit is atomic: when the power fails after any number of bytes of its writes (on a new file,
  not before the manifest at its start is there), the file opens with the references and chunks of the
  last commit or with those of this one, and with those of this one exactly when all the writes were done.
\<close>

theorem commit_is_atomic:
  assumes "universe H U" "disk_run env H U (cs, f) (hc, Cc, h, C)"
    "commit_writes \<lparr>fBytes = f, fRoom = k\<rparr> cs = (fl, off, e)" "f = [] \<longrightarrow> CHUNK_MANIFEST_SIZE \<le> k"
  shows "if e = None then reads_back env H U (fBytes fl) h C else reads_back env H U (fBytes fl) hc Cc"
proof -
  have "run_inv env H U (cs, f) (hc, Cc, h, C)" by (rule run_keeps_inv [OF assms(1,2)])
  then show ?thesis
    using commit_crash [OF _ assms(4,3), of env H U] opens_reads_back by (auto simp: run_inv_simp)
qed

text \<open>The bytes of a commit.\<close>

definition commit_size :: "(byte list \<Rightarrow> hash) \<Rightarrow> byte list \<Rightarrow> chunk_store \<Rightarrow> nat" where
  "commit_size H f cs = length (commit_stream H f cs)"

lemma commit_succeeds:
  assumes inv: "disk_inv env H U cs f" and w: "\<not> readOnly cs" "envLock env"
    and room: "commit_size H f cs \<le> room" "int (length f) + int (commit_size H f cs) \<le> LARGEST_INT64"
  obtains cs' fl where "chunkStoreCommit env cs \<lparr>fBytes = f, fRoom = room\<rparr> = (Inr (), cs', fl)"
proof -
  obtain r cs' fl where c: "chunkStoreCommit env cs \<lparr>fBytes = f, fRoom = room\<rparr> = (r, cs', fl)" by (metis prod_cases3)
  have i: "disk_inv env H U cs (fBytes \<lparr>fBytes = f, fRoom = room\<rparr>)" using inv by simp
  have "r = Inr ()" using chunkStoreCommit_cases [OF i c] w room by (auto simp: commit_size_def)
  then show thesis using that c by blast
qed

text \<open>
  C20. A commit that has the lock, a writable store and room on the device succeeds, and the file then
  holds the current references and chunks.
\<close>

theorem commit_makes_progress:
  assumes "universe H U" "disk_run env H U (cs, f) (hc, Cc, h, C)" "\<not> readOnly cs" "envLock env"
    "commit_size H f cs \<le> room" "int (length f) + int (commit_size H f cs) \<le> LARGEST_INT64"
  shows "\<exists>cs' fl. chunkStoreCommit env cs \<lparr>fBytes = f, fRoom = room\<rparr> = (Inr (), cs', fl) \<and>
    refsHash cs' = h \<and> reads_back env H U (fBytes fl) h C"
proof -
  have "run_inv env H U (cs, f) (hc, Cc, h, C)" by (rule run_keeps_inv [OF assms(1,2)])
  then have inv: "disk_inv env H U cs f" and e: "refsHash cs = h" "chunks f cs = C" by (simp_all add: run_inv_simp)
  obtain cs' fl where c: "chunkStoreCommit env cs \<lparr>fBytes = f, fRoom = room\<rparr> = (Inr (), cs', fl)"
    by (rule commit_succeeds [OF inv assms(3-6)])
  have i: "disk_inv env H U cs (fBytes \<lparr>fBytes = f, fRoom = room\<rparr>)" using inv by simp
  have d: "commit_done env H U cs \<lparr>fBytes = f, fRoom = room\<rparr> cs' fl" using chunkStoreCommit_cases [OF i c] by simp
  note dd = commit_doneD [OF d]
  have "opens_to env H U (fBytes fl) h C" using disk_inv_opens [OF dd(1)] dd e by simp
  then show ?thesis using c dd e opens_reads_back by auto
qed

text \<open>
  C21. A commit that fails, once the device takes the first write, leaves no trace: the file has the bytes
  it had, the chunks are still pending, and the store has the references and chunks of the last commit.
\<close>

theorem failed_commit_restores:
  assumes "universe H U" "disk_run env H U (cs, f) (hc, Cc, h, C)" "169 \<le> room"
    "chunkStoreCommit env cs \<lparr>fBytes = f, fRoom = room\<rparr> = (Inl e, cs', fl)"
  shows "fBytes fl = f \<and> committedRefsHash cs' = hc \<and> committed cs' f = Cc \<and> chunks f cs' = C \<and> reads_back env H U f hc Cc"
proof -
  have "run_inv env H U (cs, f) (hc, Cc, h, C)" by (rule run_keeps_inv [OF assms(1,2)])
  then have i: "disk_inv env H U cs (fBytes \<lparr>fBytes = f, fRoom = room\<rparr>)" and e: "committedRefsHash cs = hc" "committed cs f = Cc"
    "chunks f cs = C" by (simp_all add: run_inv_simp)
  have un: "commit_undone env H U cs \<lparr>fBytes = f, fRoom = room\<rparr> cs' fl" using chunkStoreCommit_cases [OF i assms(4)] by auto
  then have "fBytes fl = f" using assms(3) by (simp add: commit_undone_def)
  then show ?thesis using un e disk_inv_opens [of env H U cs f] i by (auto simp: commit_undone_def intro!: opens_reads_back)
qed

section \<open>Samples\<close>

definition free_env :: cs_env where
  "free_env = \<lparr>envWritable = True, envMap = True, envLock = True\<rparr>"

abbreviation sample_set :: "byte list set" where "sample_set \<equiv> {[1], [2], [3]}"

definition put1_store :: chunk_store where
  "put1_store = (case chunkStorePut pad_hash fresh_store [1] of Inr (cs, h) \<Rightarrow> cs | Inl e \<Rightarrow> fresh_store)"

lemma sample_universe: "universe pad_hash sample_set"
  by (auto simp: universe_def pad_hash_def inj_on_def hash_ok_def PROLLY_HASH_SIZE_def)

lemma fresh_run: "disk_run env H U (fresh_store, []) (hash0, {}, hash0, {})"
  by (rule run_create) (rule fresh_open)

lemma put1_run: "disk_run free_env pad_hash sample_set (put1_store, []) (hash0, {}, hash0, {[1]})"
proof -
  have i: "disk_inv free_env pad_hash sample_set fresh_store []"
    using fresh_inv [OF sample_universe, of free_env] by (simp add: run_inv_simp)
  obtain c where c: "chunkStorePut pad_hash fresh_store [1] = Inr (c, pad_hash [1])"
    by (rule put_disk_inv [OF i, of "[1]"]) simp_all
  then have "put1_store = c" by (simp add: put1_store_def)
  then show ?thesis using run_put [OF fresh_run, of "[1]" sample_set pad_hash c] c by simp
qed

text \<open>A commit that goes through, on any run of a writable store.\<close>

lemma commit_run:
  assumes "universe H U" "disk_run env H U (cs, f) (hc, Cc, h, C)" "\<not> readOnly cs" "envLock env"
    "int (length f) + int (commit_size H f cs) \<le> LARGEST_INT64"
  obtains cs' fl where "chunkStoreCommit env cs \<lparr>fBytes = f, fRoom = commit_size H f cs\<rparr> = (Inr (), cs', fl)"
    "disk_run env H U (cs', fBytes fl) (h, C, h, C)" "fBytes fl = f @ commit_stream H f cs"
proof -
  have "run_inv env H U (cs, f) (hc, Cc, h, C)" by (rule run_keeps_inv [OF assms(1,2)])
  then have inv: "disk_inv env H U cs f" by (simp add: run_inv_simp)
  obtain cs' fl where c: "chunkStoreCommit env cs \<lparr>fBytes = f, fRoom = commit_size H f cs\<rparr> = (Inr (), cs', fl)"
    by (rule commit_succeeds [OF inv assms(3,4) le_refl assms(5)])
  have i: "disk_inv env H U cs (fBytes \<lparr>fBytes = f, fRoom = commit_size H f cs\<rparr>)" using inv by simp
  have "fBytes fl = f @ commit_stream H f cs" using chunkStoreCommit_cases [OF i c] by (simp add: commit_done_def)
  then show thesis using that [OF c run_commit [OF assms(2) c]] by simp
qed

lemma put1_size: "commit_size pad_hash [] put1_store = 363" "\<not> readOnly put1_store"
  by code_simp+

lemma sample_run:
  obtains cs f where "disk_run free_env pad_hash sample_set (cs, f) (hash0, {[1]}, hash0, {[1], [2]})" "f \<noteq> []"
proof -
  have l: "int (length []) + int (commit_size pad_hash [] put1_store) \<le> LARGEST_INT64"
    by (simp add: put1_size LARGEST_INT64_def)
  have el: "envLock free_env" by (simp add: free_env_def)
  obtain cs fl where "chunkStoreCommit free_env put1_store \<lparr>fBytes = [], fRoom = commit_size pad_hash [] put1_store\<rparr> = (Inr (), cs, fl)"
    and c: "disk_run free_env pad_hash sample_set (cs, fBytes fl) (hash0, {[1]}, hash0, {[1]})"
    "fBytes fl = [] @ commit_stream pad_hash [] put1_store"
    by (rule commit_run [OF sample_universe put1_run put1_size(2) el l])
  have ne: "fBytes fl \<noteq> []" using c(2) by (simp add: commit_stream_def)
  have "disk_inv free_env pad_hash sample_set cs (fBytes fl)"
    using run_keeps_inv [OF sample_universe c(1)] by (simp add: run_inv_simp)
  then obtain c2 where "chunkStorePut pad_hash cs [2] = Inr (c2, pad_hash [2])"
    by (rule put_disk_inv [where d = "[2]"]) simp_all
  from run_put [OF c(1) _ this] that ne show thesis by (simp add: insert_commute)
qed

lemma chunk_store_durable_witness:
  "\<exists>cs f. disk_run free_env pad_hash sample_set (cs, f) (hash0, {[1]}, hash0, {[1], [2]}) \<and>
     reads_back free_env pad_hash sample_set f hash0 {[1]}"
  by (rule sample_run) (blast intro: chunk_store_durable [OF sample_universe])

lemma commit_is_atomic_witness:
  "\<exists>cs f fl off e. f \<noteq> [] \<and> commit_writes \<lparr>fBytes = f, fRoom = 10\<rparr> cs = (fl, off, e) \<and>
     (if e = None then reads_back free_env pad_hash sample_set (fBytes fl) hash0 {[1], [2]}
      else reads_back free_env pad_hash sample_set (fBytes fl) hash0 {[1]})"
proof -
  obtain cs f where r: "disk_run free_env pad_hash sample_set (cs, f) (hash0, {[1]}, hash0, {[1], [2]})" "f \<noteq> []"
    by (rule sample_run)
  obtain fl off e where w: "commit_writes \<lparr>fBytes = f, fRoom = 10\<rparr> cs = (fl, off, e)" by (metis prod_cases3)
  have "f = [] \<longrightarrow> CHUNK_MANIFEST_SIZE \<le> 10" using r(2) by simp
  from commit_is_atomic [OF sample_universe r(1) w this] show ?thesis using w r(2) by blast
qed

lemma commit_makes_progress_witness:
  "\<exists>cs' fl. chunkStoreCommit free_env put1_store \<lparr>fBytes = [], fRoom = 363\<rparr> = (Inr (), cs', fl) \<and>
     refsHash cs' = hash0 \<and> reads_back free_env pad_hash sample_set (fBytes fl) hash0 {[1]}"
  by (rule commit_makes_progress [OF sample_universe put1_run put1_size(2)])
     (simp_all add: put1_size free_env_def LARGEST_INT64_def)

lemma failed_commit_restores_witness:
  "\<exists>cs' fl. chunkStoreCommit free_env put1_store \<lparr>fBytes = [], fRoom = 169\<rparr> = (Inl SQLITE_FULL, cs', fl) \<and>
     fBytes fl = [] \<and> chunks [] cs' = {[1]}"
proof -
  have "fst (chunkStoreCommit free_env put1_store \<lparr>fBytes = [], fRoom = 169\<rparr>) = Inl SQLITE_FULL" by code_simp
  then obtain cs' fl where c: "chunkStoreCommit free_env put1_store \<lparr>fBytes = [], fRoom = 169\<rparr> = (Inl SQLITE_FULL, cs', fl)"
    by (metis fst_conv prod_cases3)
  show ?thesis using failed_commit_restores [OF sample_universe put1_run _ c] c by auto
qed

section \<open>Where the commits are not safe\<close>

text \<open>Where a file stops being a log: a tag that is neither a chunk nor a root, behind a chunk record.\<close>

lemma replay_corrupt:
  assumes at: "at_off file wal ([CS_WAL_TAG_CHUNK] @ h @ put_u32 0 @ [b] @ s)" and n: "length file = wal + n"
    and h: "length h = 20" and b: "b \<noteq> CS_WAL_TAG_CHUNK" "b \<noteq> CS_WAL_TAG_ROOT"
    and cs: "aIndex cs = []" "nPending cs \<le> nPendingAlloc cs"
  shows "replay_loop file wal n 0 cs rooted roots = Inl SQLITE_CORRUPT"
proof -
  have a0: "at_off file wal ([CS_WAL_TAG_CHUNK] @ (h @ put_u32 0) @ [b] @ s)" using at by simp
  have r0: "sqlite3OsRead file 1 (int (wal + 0)) = Inr [CS_WAL_TAG_CHUNK]" by (rule at_off_read [OF a0]) simp_all
  have a1: "at_off file (wal + 1) ((h @ put_u32 0) @ [b] @ s)" using at_off_bytes(2) [OF a0 refl] by simp
  have r1: "sqlite3OsRead file 24 (int (wal + (0 + 1))) = Inr (h @ put_u32 0)" by (rule at_off_read [OF a1]) (simp_all add: h)
  have a2: "at_off file (wal + 25) ([b] @ s)" using at_off_bytes(2) [OF a1 refl] h by (simp add: add.commute)
  have r2: "sqlite3OsRead file 1 (int (wal + 25)) = Inr [b]" by (rule at_off_read [OF a2]) simp_all
  have g: "get_u32 (h @ put_u32 0) 20 = Inr 0" using get_u32_put [of 20 h 0 "[]"] h by simp
  have le: "wal + 26 + length s = wal + n" using at_off_le [OF a0] n h by simp
  then have c: "0 < n" "\<not> 0 + 1 + 20 + 4 > n" "\<not> int (0 + 1 + 24) + uint (0 :: u32) > int n" "25 < n" by simp_all
  let ?e = "\<lparr>eHash = take 20 (h @ put_u32 0), eOffset = int (wal + (0 + 1 + 24 - 4)), eSize = sint (0 :: u32)\<rparr>"
  obtain c1 where p: "push_pending (csGrowPending cs) ?e = Inr c1"
  proof -
    have "nPending (csGrowPending cs) < nPendingAlloc (csGrowPending cs)"
      using cs(2) by (auto simp: csGrowPending_def CS_INIT_PENDING_ALLOC_def)
    then show thesis using that by (simp add: push_pending_def)
  qed
  have s: "csSearchIndex (aIndex cs) x = None" for x using cs(1) by (simp add: csSearchIndex_def search_index.simps)
  have "replay_loop file wal n 0 cs rooted roots = replay_loop file wal n (0 + 1 + 24 + nat (uint (0 :: u32))) c1 rooted roots"
    by (subst replay_loop.simps) (simp only: c if_True if_False r0 r1 g bindR_Inr Let_def nth_Cons_0 s p simp_thms)
  also have "0 + 1 + 24 + nat (uint (0 :: u32)) = 25" by simp
  also have "replay_loop file wal n 25 c1 rooted roots = Inl SQLITE_CORRUPT"
    by (subst replay_loop.simps) (simp only: c(4) r2 b if_True if_False bindR_Inr Let_def nth_Cons_0 simp_thms)
  finally show ?thesis .
qed

lemma open_corrupt:
  assumes b: "base_ok env H U base cs0" "aIndex cs0 = []"
    and f: "f = base @ [CS_WAL_TAG_CHUNK] @ h @ put_u32 0 @ [x] @ s" "length h = 20" "x \<noteq> CS_WAL_TAG_CHUNK" "x \<noteq> CS_WAL_TAG_ROOT"
  shows "chunkStoreOpen env (Some f) True = Inl SQLITE_CORRUPT"
proof -
  note bf = base_fields [OF b(1)]
  have w: "iWalOffset cs0 = int (length base)" and ne: "base \<noteq> []" using b(1) by (simp_all add: base_ok_def)
  have ws: "int (length f) - int (length base) = 26 + int (length s)" using f(1,2) by simp
  have n: "nat (iWalOffset cs0) = length base" "nat (26 + int (length s)) = 26 + length s" using w by simp_all
  have at: "at_off f (length base) ([CS_WAL_TAG_CHUNK] @ h @ put_u32 0 @ [x] @ s)" using f(1) by (simp add: at_off_def)
  have ln: "length f = length base + (26 + length s)" using f(1,2) by simp
  have lp: "replay_loop f (length base) (26 + length s) 0 c 0 0 = Inl SQLITE_CORRUPT" if "aIndex c = []" "aPending c = []" for c
    by (rule replay_corrupt [OF at ln f(2-4)]) (use that in simp_all)
  have w0: "\<not> (iWalOffset cs0 \<le> 0 \<or> \<not> pFile cs0)" using w ne bf by simp
  have r: "csReplayWal cs0 f = Inl SQLITE_CORRUPT"
    using w0 bf b(2) lp unfolding csReplayWal_def Let_def by (simp add: w ws n)
  have "bindR (csReadManifest (open_store0 env) f) (\<lambda>cs. csReadIndex env cs f) = Inr cs0"
    using b(1) f(1) unfolding base_ok_def by blast
  then obtain m where m: "csReadManifest (open_store0 env) f = Inr m" "csReadIndex env m f = Inr cs0"
    by (auto simp: res_simps)
  show ?thesis
  proof (cases f)
    case (Cons y ys)
    show ?thesis using m r unfolding Cons by (simp add: chunkStoreOpen_def open_store0_def)
  qed (use ne f(1) in simp)
qed

lemma put_empty_store:
  assumes "aIndex cs = []" "aPending cs = []" "int (nWriteBuf cs) \<le> nWriteBufAlloc cs"
  obtains a p where "chunkStorePut H cs d = Inr (put_result cs (H d) d a p, H d)"
    "nPending cs < p" "int (nWriteBuf cs) + 4 + int (length d) \<le> a"
proof -
  obtain a p where w: "(let cs = csGrowPending cs; cs = csGrowWriteBuf cs (4 + int (length d)) in
        bindR (push_pending cs \<lparr>eHash = H d, eOffset = int (nWriteBuf cs), eSize = int (length d)\<rparr>) (\<lambda>cs.
        bindR (push_bytes cs (put_u32 (of_nat (length d)))) (\<lambda>cs.
        bindR (push_bytes cs d) (\<lambda>cs. Inr (cs, H d))))) = Inr (put_result cs (H d) d a p, H d)"
    "nPending cs < p" "int (nWriteBuf cs) + 4 + int (length d) \<le> a"
    by (rule put_writes [of cs]) (use assms in simp_all)
  have "csSearchIndex (aIndex cs) h = None" "csSearchPending cs h = Inr (cs, None)" for h
    using assms by (simp_all add: csSearchIndex_def search_index.simps csSearchPending_def)
  then show thesis using that [of a p] w by (simp add: chunkStorePut_def Let_def)
qed

text \<open>A commit of a store that was just opened on a file, whatever the file ends with.\<close>

lemma commit_opened:
  assumes si: "store_inv H U cs f" and o: "opened env base f cs'" "rest cs = rest cs'" and h: "hash_ok (refsHash cs)" and ne: "f \<noteq> []"
    and env: "envWritable env" "envLock env" and one: "aPending cs = [e]"
    and room: "length (commit_stream H f cs) \<le> room" "int (length f) + int (length (commit_stream H f cs)) \<le> LARGEST_INT64"
  obtains c fl where "chunkStoreCommit env cs \<lparr>fBytes = f, fRoom = room\<rparr> = (Inr (), c, fl)" "fBytes fl = f @ commit_stream H f cs"
proof -
  note r = rest_fields [OF o(2)]
  have fl: "pFile cs" "\<not> isMemory cs" "\<not> readOnly cs" "graphLockFd cs = -1" "iFileSize cs = int (length f)" "\<not> snapshotPinned cs"
    "nWalData cs \<le> int (length f)"
    using o(1) r env by (simp_all add: opened_def)
  let ?c = "cs\<lparr>graphLockFd := 0\<rparr>" and ?fl = "\<lparr>fBytes = f, fRoom = room\<rparr>"
  have u: "universe H U" and g: "\<forall>e \<in> set (aPending cs). good_entry H U (pWriteBuf cs) e" using si by (simp_all add: store_inv_def)
  have lr: "chunkStoreLockAndRefresh env cs (Some f) = (?c, Inr ())"
    using fl env by (simp add: chunkStoreLockAndRefresh_def chunkStoreRefreshIfChanged_def csDetectExternalChanges_def disk_size_def Let_def)
  obtain fl1 off er where w: "commit_writes ?fl cs = (fl1, off, er)" by (metis prod_cases3)
  have wc: "commit_writes ?fl ?c = (fl1, off, er)" using w commit_writes_cong [of ?c cs ?fl] by (simp add: csSerializeManifest_def)
  note wa = commit_writes_append(1) [OF h g w]
  have er: "er = None" "fBytes fl1 = f @ commit_stream H f cs" using wa room(1) by (auto simp: appended_def)
  let ?m = "int (length (log_bytes H (map WalChunk (map (edata (pWriteBuf cs)) (aPending cs)))))"
  have ml: "?m < int (length (commit_stream H f cs))" by (simp add: commit_stream_def)
  have m: "append_bytes 0 (aPending ?c) = Inr ?m" using append_bytes_ok [OF u g refl, of 0] ml room(2) by auto
  have "csCommitToFile env ?c ?fl = (Inr (), commit_result ?c (length f) off (nWalData cs + ?m), fl1)"
    using csCommitToFile_eq [of ?c env ?fl] fl ne m wc er ml room(2) by simp
  then show thesis using that fl lr er by (simp add: chunkStoreCommit_def)
qed

lemma put1_fields:
  "refsHash put1_store = hash0" "nChunks put1_store = 0" "nIndexSize put1_store = 0" "iIndexOffset put1_store = 0"
  "iWalOffset put1_store = int CHUNK_MANIFEST_SIZE" "map (edata (pWriteBuf put1_store)) (aPending put1_store) = [[1]]"
  by code_simp+

text \<open>
  C40. A crash inside a commit makes a later commit destroy the file. A new database whose first commit is cut
  after 178 bytes opens, the next commit succeeds, and then the file does not open: the record cut short is
  still there, the commit appended behind it, and the replay takes the new bytes for the rest of that record.
\<close>

theorem torn_tail_breaks_next_commit:
  "\<exists>cs fl off e cs1 cs2 x cs3 fl2.
     disk_run free_env pad_hash sample_set (cs, []) (hash0, {}, hash0, {[1]}) \<and>
     commit_writes \<lparr>fBytes = [], fRoom = 178\<rparr> cs = (fl, off, Some e) \<and>
     chunkStoreOpen free_env (Some (fBytes fl)) True = Inr cs1 \<and>
     chunkStorePut pad_hash cs1 [3] = Inr (cs2, x) \<and>
     chunkStoreCommit free_env cs2 \<lparr>fBytes = fBytes fl, fRoom = 1000\<rparr> = (Inr (), cs3, fl2) \<and>
     chunkStoreOpen free_env (Some (fBytes fl2)) True = Inl SQLITE_CORRUPT"
proof -
  let ?m = "csSerializeManifest put1_store" and ?b = "fresh_base free_env (refsHash put1_store)"
  let ?t = "[1, 1, 0, 0, 0, 0, 0, 0, 0, 0] :: byte list"
  have inv: "disk_inv free_env pad_hash sample_set put1_store []"
    using run_keeps_inv [OF sample_universe put1_run] by (simp add: run_inv_simp)
  have h: "hash_ok (refsHash put1_store)" using inv by (simp add: disk_inv_def)
  note ml = csSerializeManifest_reads(1) [OF h]
  obtain fl off e where w: "commit_writes \<lparr>fBytes = [], fRoom = 178\<rparr> put1_store = (fl, off, e)" by (metis prod_cases3)
  have st: "commit_stream pad_hash [] put1_store = ?m @ rec_bytes pad_hash (WalChunk [1]) @ rec_bytes pad_hash (WalRoot ?m)"
    unfolding commit_stream_def put1_fields by simp
  have t: "take 10 (rec_bytes pad_hash (WalChunk [1])) = ?t" by (simp add: pad_hash_def CS_WAL_TAG_CHUNK_def eval_nat_numeral)
  have "appended \<lparr>fBytes = [], fRoom = 178\<rparr> (commit_stream pad_hash [] put1_store) fl (e = None)"
    using commit_writes_append(1) [OF h disk_invD(2) [OF inv] w] by simp
  moreover have "take 178 (commit_stream pad_hash [] put1_store) = ?m @ ?t"
    using ml t by (simp add: st CHUNK_MANIFEST_SIZE_def pad_hash_def)
  moreover have "\<not> length (commit_stream pad_hash [] put1_store) \<le> 178"
    using ml by (simp add: st CHUNK_MANIFEST_SIZE_def)
  ultimately have fb: "fBytes fl = ?m @ ?t" and "e \<noteq> None" by (auto simp: appended_def)
  then obtain rc where e: "e = Some rc" by blast
  have b: "base_ok free_env pad_hash sample_set ?m ?b"
    by (rule fresh_base_ok [OF sample_universe h]) (simp_all add: put1_fields)
  have to: "torn pad_hash sample_set ?t"
    unfolding torn_def t [symmetric] by (intro disjI2 exI [of _ "WalChunk [1]"] exI [of _ 10]) (simp add: pad_hash_def)
  have f: "fBytes fl = ?m @ log_bytes pad_hash [] @ log_bytes pad_hash (map WalChunk []) @ ?t" using fb by simp
  have d: "disk_refs ?b [] = hash0" "disk_chunks ?m ?b [] = {}" by (simp_all add: disk_refs_def disk_chunks_def fresh_base_def)
  have rr: "refs_readable pad_hash (disk_chunks ?m ?b []) (disk_refs ?b [])" by (simp add: d refs_readable_def)
  obtain cs1 where o: "chunkStoreOpen free_env (Some (fBytes fl)) True = Inr cs1" "store_inv pad_hash sample_set cs1 (fBytes fl)"
    "committed cs1 (fBytes fl) = disk_chunks ?m ?b []" "opened free_env ?m (fBytes fl) cs1" "refsHash cs1 = disk_refs ?b []"
    "committedRefsHash cs1 = disk_refs ?b []"
    by (rule chunkStoreOpen_ok [OF b _ _ to f rr]) (simp_all add: log_ok_def)
  have e1: "aIndex cs1 = []" "aPending cs1 = []" "int (nWriteBuf cs1) \<le> nWriteBufAlloc cs1" "pWriteBuf cs1 = []"
    using o(2,3,4) by (simp_all add: d committed_def opened_def store_inv_def)
  obtain a p where p: "chunkStorePut pad_hash cs1 [3] = Inr (put_result cs1 (pad_hash [3]) [3] a p, pad_hash [3])"
    "nPending cs1 < p" "int (nWriteBuf cs1) + 4 + int (length [3 :: byte]) \<le> a"
    by (rule put_empty_store [OF e1(1-3), of pad_hash "[3]"])
  let ?c2 = "put_result cs1 (pad_hash [3]) [3] a p"
  have si2: "store_inv pad_hash sample_set ?c2 (fBytes fl)" by (rule put_result_inv(1) [OF o(2) _ p(2,3)]) simp
  have h2: "hash_ok (refsHash ?c2)" using o(5) d hash_ok_hash0 by (simp add: put_result_def)
  note m2 = csSerializeManifest_reads(1) [OF h2]
  have ne: "fBytes fl \<noteq> []" using fb by simp
  have st2: "commit_stream pad_hash (fBytes fl) ?c2 = rec_bytes pad_hash (WalChunk [3]) @ rec_bytes pad_hash (WalRoot (csSerializeManifest ?c2))"
    using ne e1 by (simp add: commit_stream_def put_result_def edata_def put_u32_def)
  have l2: "length (commit_stream pad_hash (fBytes fl) ?c2) = 195"
    unfolding st2 using m2 by (simp add: pad_hash_def CHUNK_MANIFEST_SIZE_def)
  have en: "envWritable free_env" "envLock free_env" by (simp_all add: free_env_def)
  have one: "aPending ?c2 = [\<lparr>eHash = pad_hash [3], eOffset = 0, eSize = 1\<rparr>]" using e1 by (simp add: put_result_def)
  have rm: "length (commit_stream pad_hash (fBytes fl) ?c2) \<le> 1000"
    "int (length (fBytes fl)) + int (length (commit_stream pad_hash (fBytes fl) ?c2)) \<le> LARGEST_INT64"
    unfolding l2 using fb ml by (simp_all add: CHUNK_MANIFEST_SIZE_def LARGEST_INT64_def)
  obtain cs3 fl2 where c: "chunkStoreCommit free_env ?c2 \<lparr>fBytes = fBytes fl, fRoom = 1000\<rparr> = (Inr (), cs3, fl2)"
    "fBytes fl2 = fBytes fl @ commit_stream pad_hash (fBytes fl) ?c2"
    by (rule commit_opened [OF si2 o(4) rest_simps(2) h2 ne en one rm])
  have bi: "aIndex ?b = []" by (simp add: fresh_base_def)
  have "fBytes fl2 = ?m @ [CS_WAL_TAG_CHUNK] @ [1, 0, 0, 0, 0, 0, 0, 0, 0, 1, 3, 0, 0, 0, 0, 0, 0, 0, 0, 0] @ put_u32 0 @ [0] @
      ([0, 0, 0, 0, 0, 1, 0, 0, 0, 3] @ rec_bytes pad_hash (WalRoot (csSerializeManifest ?c2)))"
    unfolding c(2) st2 unfolding fb by (simp add: pad_hash_def CS_WAL_TAG_CHUNK_def put_u32_def eval_nat_numeral)
  then have "chunkStoreOpen free_env (Some (fBytes fl2)) True = Inl SQLITE_CORRUPT"
    by (rule open_corrupt [OF b bi]) (simp_all add: CS_WAL_TAG_CHUNK_def CS_WAL_TAG_ROOT_def)
  then show ?thesis using put1_run w e o(1) p(1) c(1) by blast
qed

text \<open>
  A first commit that the device cuts short inside the manifest is not undone: the commit fails, the file
  keeps the part that was written, and from then on the database does not open.
\<close>

theorem partial_manifest_stays:
  "case chunkStoreCommit free_env put1_store \<lparr>fBytes = [], fRoom = 100\<rparr> of
     (r, cs, fl) \<Rightarrow> r = Inl SQLITE_FULL \<and> length (fBytes fl) = 100 \<and>
       chunkStoreOpen free_env (Some (fBytes fl)) True = Inl SQLITE_IOERR_SHORT_READ"
  by code_simp

lemma empty_chunk_is_lost:
  "case chunkStorePut pad_hash chunkStoreOpenMemory [] of
     Inr (cs, h) \<Rightarrow> snd (chunkStoreGet cs [] h) = Inl SQLITE_NOMEM
   | Inl e \<Rightarrow> False"
  by code_simp

end
