(* ===== verification/Chunker.thy ===== *)
theory Chunker
  imports Node Xxhash Interfaces
begin

text \<open>
  The tree builder (\<open>prolly_chunker.c\<close>): rows are added in key order to the node under construction
  at level 0; where the content decides that the node ends it is stored, and its last key and its
  hash are added to the level above.  The store is a state with an operation that adds a chunk, and
  the boundary test \<open>prollyWeibullCheck\<close>, which computes with floating-point numbers, is a
  parameter.
\<close>

section \<open>State\<close>

definition PROLLY_CHUNK_MIN :: nat where "PROLLY_CHUNK_MIN = 512"
definition PROLLY_CHUNK_MAX :: nat where "PROLLY_CHUNK_MAX = 16384"
definition PROLLY_CURSOR_MAX_DEPTH :: nat where "PROLLY_CURSOR_MAX_DEPTH = 20"

record chunker_level =
  lvBuilder :: builder
  lvItems :: nat
  lvBytes :: nat

record chunker =
  chFlags :: byte
  nLevels :: nat
  aLevel :: "chunker_level list"
  chRoot :: hash

type_synonym boundary_check = "u32 \<Rightarrow> u32 \<Rightarrow> u32 \<Rightarrow> bool"
type_synonym 's chunk_put = "'s \<Rightarrow> byte list \<Rightarrow> ('s \<times> hash) res"

definition prollyChunkerInit :: "byte \<Rightarrow> chunker" where
  "prollyChunkerInit fl =
     \<lparr>chFlags = fl, nLevels = 0,
      aLevel = replicate PROLLY_CURSOR_MAX_DEPTH \<lparr>lvBuilder = prollyNodeBuilderInit 0 0, lvItems = 0, lvBytes = 0\<rparr>,
      chRoot = hash0\<rparr>"

definition initLevel :: "chunker \<Rightarrow> nat \<Rightarrow> chunker" where
  "initLevel ch lev =
     ch\<lparr>aLevel := (aLevel ch)[lev :=
       \<lparr>lvBuilder = prollyNodeBuilderInit (of_nat lev) (chFlags ch), lvItems = 0, lvBytes = 0\<rparr>]\<rparr>"

text \<open>\<open>while( ch->nLevels <= lev )\<close>.\<close>

function init_levels :: "chunker \<Rightarrow> nat \<Rightarrow> chunker" where
  "init_levels ch lev =
     (if nLevels ch \<le> lev then
        let ch = initLevel ch (nLevels ch) in init_levels (ch\<lparr>nLevels := nLevels ch + 1\<rparr>) lev
      else ch)"
  by pat_completeness auto
termination by (relation "measure (\<lambda>(ch, lev). lev + 1 - nLevels ch)") (auto simp: initLevel_def)

declare init_levels.simps [simp del]

definition builderLastKey :: "builder \<Rightarrow> byte list res" where
  "builderLastKey b =
     (let n = bItems b in
      bindR (guardR (0 < n \<and> n < length (bKeyOff b)) OUT_OF_BOUNDS) (\<lambda>_.
      let off0 = bKeyOff b ! (n - 1); off1 = bKeyOff b ! n in
      read_bytes (pKeyBuf b) (unat off0) (unat (off1 - off0))))"

text \<open>\<open>prollyNodeBuilderReset(&pLevel->builder); pLevel->nItems = 0; pLevel->nBytes = 0\<close>.\<close>

definition reset_level :: "chunker \<Rightarrow> nat \<Rightarrow> chunker" where
  "reset_level ch lev =
     ch\<lparr>aLevel := (aLevel ch)[lev :=
       \<lparr>lvBuilder = prollyNodeBuilderReset (lvBuilder (aLevel ch ! lev)), lvItems = 0, lvBytes = 0\<rparr>]\<rparr>"

section \<open>Adding\<close>

function addToLevel ::
    "'s chunk_put \<Rightarrow> boundary_check \<Rightarrow> 's \<Rightarrow> chunker \<Rightarrow> nat \<Rightarrow> byte list \<Rightarrow> byte list \<Rightarrow> ('s \<times> chunker) res"
  and flushLevel :: "'s chunk_put \<Rightarrow> boundary_check \<Rightarrow> 's \<Rightarrow> chunker \<Rightarrow> nat \<Rightarrow> ('s \<times> chunker) res"
where
  "addToLevel put weibull st ch lev key val =
     bindR (guardR (lev < PROLLY_CURSOR_MAX_DEPTH) OUT_OF_BOUNDS) (\<lambda>_.
     let ch = (if lev \<ge> nLevels ch then init_levels ch lev else ch); lv = aLevel ch ! lev in
     bindR (prollyNodeBuilderAdd (lvBuilder lv) key val) (\<lambda>b.
     let thisSize = length key + length val;
         lv = \<lparr>lvBuilder = b, lvItems = lvItems lv + 1, lvBytes = lvBytes lv + thisSize\<rparr>;
         ch = ch\<lparr>aLevel := (aLevel ch)[lev := lv]\<rparr> in
     if lvBytes lv \<ge> PROLLY_CHUNK_MIN then
       bindR (if lvBytes lv \<ge> PROLLY_CHUNK_MAX then Inr True
              else bindR (prollyXXH32 key (of_nat lev)) (\<lambda>h.
                   Inr (weibull (of_nat (lvBytes lv)) (of_nat thisSize) h))) (\<lambda>atBoundary.
       if atBoundary then flushLevel put weibull st ch lev else Inr (st, ch))
     else Inr (st, ch)))"
| "flushLevel put weibull st ch lev =
     (let b = lvBuilder (aLevel ch ! lev) in
      bindR (builderLastKey b) (\<lambda>lastKey.
      bindR (prollyNodeBuilderFinish b) (\<lambda>d.
      bindR (put st d) (\<lambda>(st, h).
      if lev + 1 \<ge> PROLLY_CURSOR_MAX_DEPTH then Inl SQLITE_FULL
      else
        bindR (addToLevel put weibull st ch (lev + 1) lastKey h) (\<lambda>(st, ch).
        Inr (st, reset_level ch lev))))))"
  by pat_completeness auto
termination
  by (relation "measure (\<lambda>x. case x of
        Inl (put, w, st, ch, lev, k, v) \<Rightarrow> 2 * (PROLLY_CURSOR_MAX_DEPTH - lev) + 1
      | Inr (put, w, st, ch, lev) \<Rightarrow> 2 * (PROLLY_CURSOR_MAX_DEPTH - lev))")
     (auto simp: res_simps)

declare addToLevel.simps [simp del] flushLevel.simps [simp del]

definition prollyChunkerAdd ::
    "'s chunk_put \<Rightarrow> boundary_check \<Rightarrow> 's \<Rightarrow> chunker \<Rightarrow> byte list \<Rightarrow> byte list \<Rightarrow> ('s \<times> chunker) res" where
  "prollyChunkerAdd put weibull st ch key val = addToLevel put weibull st ch 0 key val"

definition prollyChunkerAddAtLevel ::
    "'s chunk_put \<Rightarrow> boundary_check \<Rightarrow> 's \<Rightarrow> chunker \<Rightarrow> nat \<Rightarrow> byte list \<Rightarrow> byte list \<Rightarrow> ('s \<times> chunker) res" where
  "prollyChunkerAddAtLevel put weibull st ch lev key val = addToLevel put weibull st ch lev key val"

section \<open>Finishing\<close>

definition finishFlushLevel :: "'s chunk_put \<Rightarrow> 's \<Rightarrow> chunker \<Rightarrow> nat \<Rightarrow> ('s \<times> hash) res" where
  "finishFlushLevel put st ch lev =
     bindR (prollyNodeBuilderFinish (lvBuilder (aLevel ch ! lev))) (\<lambda>d. put st d)"

definition hasPendingAncestorLevels :: "chunker \<Rightarrow> nat \<Rightarrow> bool" where
  "hasPendingAncestorLevels ch lev \<longleftrightarrow> (\<exists>k \<in> set [lev + 1..<nLevels ch]. bItems (lvBuilder (aLevel ch ! k)) > 0)"

definition finishPropagateLevel :: "'s chunk_put \<Rightarrow> boundary_check \<Rightarrow> 's \<Rightarrow> chunker \<Rightarrow> nat \<Rightarrow> ('s \<times> chunker) res" where
  "finishPropagateLevel put weibull st ch lev =
     bindR (builderLastKey (lvBuilder (aLevel ch ! lev))) (\<lambda>lastKey.
     bindR (finishFlushLevel put st ch lev) (\<lambda>(st, h).
     bindR (addToLevel put weibull st ch (lev + 1) lastKey h) (\<lambda>(st, ch).
     Inr (st, reset_level ch lev))))"

text \<open>The loop over the levels.  An access above the last level would be out of bounds.\<close>

function finish_levels :: "'s chunk_put \<Rightarrow> boundary_check \<Rightarrow> 's \<Rightarrow> chunker \<Rightarrow> nat \<Rightarrow> ('s \<times> chunker) res" where
  "finish_levels put weibull st ch lev =
     (if lev < nLevels ch then
        bindR (guardR (lev < PROLLY_CURSOR_MAX_DEPTH) OUT_OF_BOUNDS) (\<lambda>_.
        if bItems (lvBuilder (aLevel ch ! lev)) = 0 then finish_levels put weibull st ch (lev + 1)
        else if hasPendingAncestorLevels ch lev then
          bindR (finishPropagateLevel put weibull st ch lev) (\<lambda>(st, ch).
          finish_levels put weibull st ch (lev + 1))
        else
          bindR (finishFlushLevel put st ch lev) (\<lambda>(st, h).
          Inr (st, reset_level (ch\<lparr>chRoot := h\<rparr>) lev)))
      else Inr (st, ch\<lparr>chRoot := hash0\<rparr>))"
  by pat_completeness auto
termination
  by (relation "measure (\<lambda>(put, w, st, ch, lev). PROLLY_CURSOR_MAX_DEPTH - lev)") (auto simp: res_simps)

declare finish_levels.simps [simp del]

definition prollyChunkerFinish :: "'s chunk_put \<Rightarrow> boundary_check \<Rightarrow> 's \<Rightarrow> chunker \<Rightarrow> ('s \<times> chunker) res" where
  "prollyChunkerFinish put weibull st ch =
     (if nLevels ch = 0 then Inr (st, ch\<lparr>chRoot := hash0\<rparr>) else finish_levels put weibull st ch 0)"

definition prollyChunkerGetRoot :: "chunker \<Rightarrow> hash" where
  "prollyChunkerGetRoot ch = chRoot ch"

definition prollyChunkerFree :: "chunker \<Rightarrow> chunker" where
  "prollyChunkerFree ch =
     foldl (\<lambda>ch i. ch\<lparr>aLevel := (aLevel ch)[i := (aLevel ch ! i)\<lparr>lvBuilder := prollyNodeBuilderFree (lvBuilder (aLevel ch ! i))\<rparr>]\<rparr>)
       ch [0..<nLevels ch] \<lparr>nLevels := 0\<rparr>"

end
