(* ===== verification/TreeSpec.thy ===== *)
theory TreeSpec
  imports Chunker
begin

text \<open>
  What a stored tree is, independently of the code that builds and reads it: which rows a root hash
  denotes in a set of chunks, that more chunks do not change this, and that the root hash
  determines the rows.
\<close>

section \<open>Trees in a set of chunks\<close>

type_synonym row = "byte list \<times> byte list"

text \<open>An item \<open>(k, h)\<close> of an inner node points at a stored node: its bytes are in the set, the hash is
  theirs, and the key is the last key of the node.\<close>

definition node_at :: "(byte list \<Rightarrow> hash) \<Rightarrow> byte \<Rightarrow> byte list set \<Rightarrow> nat \<Rightarrow> row \<Rightarrow> row list \<Rightarrow> bool" where
  "node_at H fl S l it its \<longleftrightarrow> storable (of_nat l) fl its \<and> node_bytes (of_nat l) fl its \<in> S \<and>
     snd it = H (node_bytes (of_nat l) fl its) \<and> fst it = fst (last its)"

text \<open>The rows that the items of a node at a level denote.\<close>

primrec denote :: "(byte list \<Rightarrow> hash) \<Rightarrow> byte \<Rightarrow> byte list set \<Rightarrow> nat \<Rightarrow> row list \<Rightarrow> row list \<Rightarrow> bool" where
  "denote H fl S 0 its rows \<longleftrightarrow> rows = its"
| "denote H fl S (Suc l) its rows \<longleftrightarrow> (\<exists>parts. rows = concat parts \<and>
     list_all2 (\<lambda>it part. \<exists>its'. node_at H fl S l it its' \<and> denote H fl S l its' part) its parts)"

definition subtree :: "(byte list \<Rightarrow> hash) \<Rightarrow> byte \<Rightarrow> byte list set \<Rightarrow> nat \<Rightarrow> row \<Rightarrow> row list \<Rightarrow> bool" where
  "subtree H fl S l it rows \<longleftrightarrow> (\<exists>its. node_at H fl S l it its \<and> denote H fl S l its rows)"

lemma denote_Suc:
  "denote H fl S (Suc l) its rows \<longleftrightarrow> (\<exists>parts. rows = concat parts \<and> list_all2 (subtree H fl S l) its parts)"
  unfolding denote.simps(2) subtree_def [abs_def] ..

declare denote.simps(2) [simp del]

definition tree :: "(byte list \<Rightarrow> hash) \<Rightarrow> byte \<Rightarrow> byte list set \<Rightarrow> hash \<Rightarrow> row list \<Rightarrow> bool" where
  "tree H fl S root rows \<longleftrightarrow>
     root = hash0 \<and> rows = [] \<or>
     root \<noteq> hash0 \<and> (\<exists>l < PROLLY_CURSOR_MAX_DEPTH. \<exists>k. subtree H fl S l (k, root) rows)"

lemma denote_mono: "denote H fl S l its rows \<Longrightarrow> S \<subseteq> S' \<Longrightarrow> denote H fl S' l its rows"
proof (induction l arbitrary: its rows)
  case (Suc l)
  obtain parts where p: "rows = concat parts" "list_all2 (subtree H fl S l) its parts"
    using Suc.prems(1) by (auto simp: denote_Suc)
  have "subtree H fl S' l it part" if "subtree H fl S l it part" for it part
    using that Suc.IH Suc.prems(2) by (auto simp: subtree_def node_at_def)
  then show ?case using p list_all2_mono [of "subtree H fl S l"] by (auto simp: denote_Suc)
qed simp

lemma subtree_mono: "subtree H fl S l it rows \<Longrightarrow> S \<subseteq> S' \<Longrightarrow> subtree H fl S' l it rows"
  unfolding subtree_def node_at_def using denote_mono by (metis subsetD)

lemma tree_mono: "tree H fl S root rows \<Longrightarrow> S \<subseteq> S' \<Longrightarrow> tree H fl S' root rows"
  unfolding tree_def using subtree_mono by metis

lemma denote_Nil [simp]: "denote H fl S l [] rows \<longleftrightarrow> rows = []"
  by (cases l) (auto simp: denote_Suc)

lemma denote_append:
  assumes "denote H fl S l its rows" "denote H fl S l its' rows'"
  shows "denote H fl S l (its @ its') (rows @ rows')"
proof (cases l)
  case (Suc m)
  obtain ps ps' where "rows = concat ps" "list_all2 (subtree H fl S m) its ps" "rows' = concat ps'" "list_all2 (subtree H fl S m) its' ps'"
    using assms Suc by (auto simp: denote_Suc)
  then show ?thesis using Suc by (auto simp: denote_Suc intro!: exI [of _ "ps @ ps'"] list_all2_appendI)
qed (use assms in simp)

lemma denote_single: "denote H fl S (Suc l) [it] rows \<longleftrightarrow> subtree H fl S l it rows"
  unfolding denote_Suc list_all2_Cons1 list_all2_Nil by (metis concat.simps append_Nil2)

lemma subtree_rows:
  "subtree H fl S l it rows \<Longrightarrow> rows \<noteq> [] \<and> fst (last rows) = fst it"
proof (induction l arbitrary: it rows)
  case 0
  then show ?case by (auto simp: subtree_def node_at_def storable_def)
next
  case (Suc l)
  obtain its parts where t: "node_at H fl S (Suc l) it its" "rows = concat parts" "list_all2 (subtree H fl S l) its parts"
    using Suc.prems by (auto simp: subtree_def denote_Suc)
  have ne: "its \<noteq> []" using t(1) by (simp add: node_at_def storable_def)
  then obtain xs i where i: "its = xs @ [i]" by (metis rev_exhaust)
  then obtain ps p where p: "parts = ps @ [p]" "subtree H fl S l i p" using t(3) by (auto simp: list_all2_append1 list_all2_Cons1)
  show ?case using Suc.IH [OF p(2)] t(1,2) p(1) i by (simp add: node_at_def)
qed

lemma denote_rows:
  assumes "denote H fl S l its rows" "its \<noteq> []"
  shows "rows \<noteq> []" "fst (last rows) = fst (last its)"
proof -
  have "rows \<noteq> [] \<and> fst (last rows) = fst (last its)"
  proof (cases l)
    case (Suc m)
    obtain xs i where i: "its = xs @ [i]" using assms(2) by (metis rev_exhaust)
    then obtain ps p where p: "rows = concat (ps @ [p])" "subtree H fl S m i p"
      using assms(1) Suc by (auto simp: denote_Suc list_all2_append1 list_all2_Cons1)
    show ?thesis using subtree_rows [OF p(2)] p(1) i by simp
  qed (use assms in simp)
  then show "rows \<noteq> []" "fst (last rows) = fst (last its)" by simp_all
qed

text \<open>The size of the items of a node, and what an item must satisfy to go into one.\<close>

definition item_size :: "row \<Rightarrow> nat" where
  "item_size r = length (fst r) + length (snd r)"

definition items_size :: "row list \<Rightarrow> nat" where
  "items_size its = sum_list (map item_size its)"

definition item_ok :: "byte \<Rightarrow> nat \<Rightarrow> row \<Rightarrow> bool" where
  "item_ok fl l it \<longleftrightarrow> (fl = PROLLY_NODE_INTKEY \<or> fl = PROLLY_NODE_BLOBKEY) \<and> length (fst it) \<le> 2 ^ 29 \<and> length (snd it) \<le> 2 ^ 29 \<and>
     (fl = PROLLY_NODE_INTKEY \<longrightarrow> length (fst it) = 8) \<and> (0 < l \<longrightarrow> length (snd it) = PROLLY_HASH_SIZE)"

lemma items_size_simps [simp]:
  "items_size [] = 0" "items_size (it # its) = item_size it + items_size its"
  "items_size (its @ its') = items_size its + items_size its'"
  by (simp_all add: items_size_def)

lemma items_size_concat: "length (concat (map fst its)) + length (concat (map snd its)) = items_size its"
  by (induction its) (simp_all add: item_size_def)

lemma storable_items:
  assumes "its \<noteq> []" "length its \<le> PROLLY_NODE_MAX_ITEMS" "\<forall>it \<in> set its. item_ok fl l it" "items_size its < 2 ^ 31"
    and "l < 256"
  shows "storable (of_nat l) fl its"
proof -
  have "of_nat l > (0 :: byte) \<Longrightarrow> 0 < l" by (cases l) simp_all
  then show ?thesis using assms items_size_concat [of its] by (cases its) (auto simp: storable_def item_ok_def)
qed

section \<open>Equal roots, equal rows\<close>

lemma node_holds_unique: "node_holds nd rows \<Longrightarrow> node_holds nd rows' \<Longrightarrow> rows = rows'"
  by (auto simp: node_holds_def intro!: nth_equalityI prod_eqI)

lemma node_bytes_inj:
  assumes "storable lev fl rows" "storable lev' fl' rows'" "node_bytes lev fl rows = node_bytes lev' fl' rows'"
  shows "lev = lev'" "fl = fl'" "rows = rows'"
  using node_bytes_parse [OF assms(1)] node_bytes_parse [OF assms(2)] assms(3) node_holds_unique by auto

lemma node_at_unique:
  assumes "inj_on H U" "S \<subseteq> U" "S' \<subseteq> U" "node_at H fl S l (k, h) its" "node_at H fl S' l' (k', h) its'" "l < 256" "l' < 256"
  shows "l = l' \<and> its = its'"
proof -
  let ?d = "node_bytes (of_nat l) fl its" and ?d' = "node_bytes (of_nat l') fl its'"
  have n: "storable (of_nat l) fl its" "storable (of_nat l') fl its'" "?d \<in> U" "?d' \<in> U" "H ?d = H ?d'"
    using assms(2-5) by (auto simp: node_at_def)
  have e: "?d = ?d'" using inj_onD [OF assms(1) n(5,3,4)] .
  note i = node_bytes_inj [OF n(1,2) e]
  have "unat (of_nat l :: byte) = l" "unat (of_nat l' :: byte) = l'"
    using assms(6,7) by (simp_all add: unsigned_of_nat take_bit_eq_mod)
  then show ?thesis using i(1,3) by metis
qed

lemma subtree_unique:
  assumes "inj_on H U" "S \<subseteq> U" "S' \<subseteq> U"
  shows "subtree H fl S l (k, h) rows \<Longrightarrow> subtree H fl S' l' (k', h) rows' \<Longrightarrow> l < 256 \<Longrightarrow> l' < 256 \<Longrightarrow> rows = rows'"
proof (induction l arbitrary: k h rows l' k' rows')
  case 0
  then obtain its its' where n: "node_at H fl S 0 (k, h) its" "rows = its" "node_at H fl S' l' (k', h) its'" "denote H fl S' l' its' rows'"
    by (auto simp: subtree_def)
  from node_at_unique [OF assms n(1,3)] 0 n show ?case by auto
next
  case (Suc l)
  obtain its parts its' where n: "node_at H fl S (Suc l) (k, h) its" "rows = concat parts" "list_all2 (subtree H fl S l) its parts"
      "node_at H fl S' l' (k', h) its'" "denote H fl S' l' its' rows'"
    using Suc.prems(1,2) by (auto simp: subtree_def denote_Suc)
  have l: "Suc l = l'" "its = its'" using node_at_unique [OF assms n(1,4)] Suc.prems by auto
  then obtain parts' where p': "rows' = concat parts'" "list_all2 (subtree H fl S' l) its parts'"
    using n(5) by (auto simp: denote_Suc)
  have "parts = parts'"
  proof (rule nth_equalityI)
    show "length parts = length parts'" using list_all2_lengthD [OF n(3)] list_all2_lengthD [OF p'(2)] by simp
    fix i assume i: "i < length parts"
    then have "subtree H fl S l (its ! i) (parts ! i)" "subtree H fl S' l (its ! i) (parts' ! i)"
      using n(3) p'(2) by (auto simp: list_all2_conv_all_nth)
    then show "parts ! i = parts' ! i"
      using Suc.IH [of "fst (its ! i)" "snd (its ! i)" "parts ! i" l "fst (its ! i)" "parts' ! i"] Suc.prems(3) by simp
  qed
  then show ?case using n(2) p'(1) by simp
qed

text \<open>
  The root hash of a tree determines its rows: two trees with the same root hash, in any
  two stores, have the same rows, as long as no two of the chunks concerned have the same hash.
\<close>

lemma tree_rows_unique:
  assumes "inj_on H U" "S \<subseteq> U" "S' \<subseteq> U" "tree H fl S root rows" "tree H fl S' root rows'"
  shows "rows = rows'"
proof (cases "root = hash0")
  case False
  then obtain l k l' k' where "l < PROLLY_CURSOR_MAX_DEPTH" "subtree H fl S l (k, root) rows"
    "l' < PROLLY_CURSOR_MAX_DEPTH" "subtree H fl S' l' (k', root) rows'"
    using assms(4,5) by (auto simp: tree_def)
  then show ?thesis using subtree_unique [OF assms(1-3)] by (simp add: PROLLY_CURSOR_MAX_DEPTH_def)
qed (use assms in \<open>auto simp: tree_def\<close>)

text \<open>A hash for examples, and a tree of one node.\<close>

definition ex_hash :: "byte list \<Rightarrow> hash" where
  "ex_hash d = 1 # take 19 (d @ replicate 19 0)"

definition ex_node :: "byte list" where
  "ex_node = node_bytes 0 PROLLY_NODE_BLOBKEY [([1], [2])]"

lemma ex_hash_ok: "\<forall>d. hash_ok (ex_hash d) \<and> ex_hash d \<noteq> hash0"
proof -
  have "hd hash0 = 0" by (simp add: hash0_def hd_replicate PROLLY_HASH_SIZE_def)
  then have "ex_hash d \<noteq> hash0" for d by (metis ex_hash_def list.sel(1) zero_neq_one)
  moreover have "hash_ok (ex_hash d)" for d by (auto simp: ex_hash_def hash_ok_def PROLLY_HASH_SIZE_def)
  ultimately show ?thesis by blast
qed

lemma ex_tree: "tree ex_hash PROLLY_NODE_BLOBKEY {ex_node} (ex_hash ex_node) [([1], [2])]"
proof -
  have "node_at ex_hash PROLLY_NODE_BLOBKEY {ex_node} 0 ([1], ex_hash ex_node) [([1], [2])]"
    by (simp add: node_at_def ex_node_def storable_def PROLLY_NODE_MAX_ITEMS_def PROLLY_NODE_BLOBKEY_def PROLLY_NODE_INTKEY_def)
  then have "subtree ex_hash PROLLY_NODE_BLOBKEY {ex_node} 0 ([1], ex_hash ex_node) [([1], [2])]"
    unfolding subtree_def by fastforce
  moreover have "(0 :: nat) < PROLLY_CURSOR_MAX_DEPTH" by (simp add: PROLLY_CURSOR_MAX_DEPTH_def)
  ultimately show ?thesis unfolding tree_def using ex_hash_ok by blast
qed

end
