(* ===== verification/TreeBuild.thy ===== *)
theory TreeBuild
  imports TreeSpec
begin

text \<open>
  The tree builder keeps its rows: the items under construction at the levels, with the chunks
  stored so far, denote the rows added so far, and finishing makes them a tree.  The proofs run the builder
  on a store that records what it is given.
\<close>

section \<open>The builder's levels\<close>

text \<open>A store that records what is put.\<close>

definition rec_put :: "(byte list \<Rightarrow> hash) \<Rightarrow> byte list list chunk_put" where
  "rec_put H ds d = Inr (ds @ [d], H d)"

definition lv_ok :: "byte \<Rightarrow> nat \<Rightarrow> chunker_level \<Rightarrow> row list \<Rightarrow> bool" where
  "lv_ok fl l lv its \<longleftrightarrow> builds (lvBuilder lv) its \<and> bLevel (lvBuilder lv) = of_nat l \<and> bFlags (lvBuilder lv) = fl \<and>
     lvBytes lv = items_size its \<and> (\<forall>it \<in> set its. item_ok fl l it) \<and> length its \<le> items_size its + 1 \<and>
     length its \<le> PROLLY_NODE_MAX_ITEMS"

text \<open>The rows that a list of levels, lowest first, still holds or has sent up.\<close>

fun levels_denote :: "(byte list \<Rightarrow> hash) \<Rightarrow> byte \<Rightarrow> byte list set \<Rightarrow> nat \<Rightarrow> chunker_level list \<Rightarrow> row list \<Rightarrow> bool" where
  "levels_denote H fl S l [] rows \<longleftrightarrow> rows = []"
| "levels_denote H fl S l (lv # lvs) rows \<longleftrightarrow>
     (\<exists>its part up. lv_ok fl l lv its \<and> items_size its < PROLLY_CHUNK_MAX \<and> denote H fl S l its part \<and>
        levels_denote H fl S (Suc l) lvs up \<and> rows = up @ part)"

definition ch_ok :: "byte \<Rightarrow> chunker \<Rightarrow> bool" where
  "ch_ok fl ch \<longleftrightarrow> length (aLevel ch) = PROLLY_CURSOR_MAX_DEPTH \<and> nLevels ch \<le> PROLLY_CURSOR_MAX_DEPTH \<and> chFlags ch = fl"

definition upper :: "(byte list \<Rightarrow> hash) \<Rightarrow> byte \<Rightarrow> byte list set \<Rightarrow> chunker \<Rightarrow> nat \<Rightarrow> row list \<Rightarrow> bool" where
  "upper H fl S ch l rows \<longleftrightarrow> levels_denote H fl S l (drop l (take (nLevels ch) (aLevel ch))) rows"

lemma levels_denote_mono: "levels_denote H fl S l lvs rows \<Longrightarrow> S \<subseteq> S' \<Longrightarrow> levels_denote H fl S' l lvs rows"
proof (induction lvs arbitrary: l rows)
  case (Cons lv lvs)
  then obtain its part up where "lv_ok fl l lv its" "items_size its < PROLLY_CHUNK_MAX" "denote H fl S l its part"
    "levels_denote H fl S (Suc l) lvs up" "rows = up @ part" by auto
  then show ?case using Cons.IH [of "Suc l" up] Cons.prems(2) denote_mono by (metis levels_denote.simps(2))
qed simp

lemma upper_mono: "upper H fl S ch l rows \<Longrightarrow> S \<subseteq> S' \<Longrightarrow> upper H fl S' ch l rows"
  unfolding upper_def by (rule levels_denote_mono)

lemma upper_top: "nLevels ch \<le> l \<Longrightarrow> upper H fl S ch l rows \<longleftrightarrow> rows = []"
  by (simp add: upper_def)

lemma upper_step:
  assumes "ch_ok fl ch" "l < nLevels ch"
  shows "upper H fl S ch l rows \<longleftrightarrow>
     (\<exists>its part up. lv_ok fl l (aLevel ch ! l) its \<and> items_size its < PROLLY_CHUNK_MAX \<and> denote H fl S l its part \<and>
        upper H fl S ch (Suc l) up \<and> rows = up @ part)"
proof -
  have "drop l (take (nLevels ch) (aLevel ch)) = aLevel ch ! l # drop (Suc l) (take (nLevels ch) (aLevel ch))"
    using assms by (subst Cons_nth_drop_Suc [symmetric]) (simp_all add: ch_ok_def)
  then show ?thesis by (simp add: upper_def)
qed

lemma upper_cong:
  assumes "nLevels ch' = nLevels ch" "length (aLevel ch') = length (aLevel ch)"
    "\<And>j. l \<le> j \<Longrightarrow> j < nLevels ch \<Longrightarrow> aLevel ch' ! j = aLevel ch ! j"
  shows "upper H fl S ch' l rows = upper H fl S ch l rows"
proof -
  have "drop l (take (nLevels ch') (aLevel ch')) = drop l (take (nLevels ch) (aLevel ch))"
  proof (rule nth_equalityI)
    fix i assume "i < length (drop l (take (nLevels ch') (aLevel ch')))"
    then have "l + i < nLevels ch" "l + i < length (aLevel ch)" using assms(1,2) by simp_all
    then show "drop l (take (nLevels ch') (aLevel ch')) ! i = drop l (take (nLevels ch) (aLevel ch)) ! i"
      using assms by simp
  qed (use assms in simp)
  then show ?thesis by (simp add: upper_def)
qed

lemma lv_ok_init: "lv_ok fl l \<lparr>lvBuilder = prollyNodeBuilderInit (of_nat l) fl, lvItems = n, lvBytes = 0\<rparr> []"
  by (simp add: lv_ok_def) (simp add: prollyNodeBuilderInit_def)

lemma levels_denote_snoc_empty:
  "levels_denote H fl S l lvs rows \<Longrightarrow> lv_ok fl (l + length lvs) lv [] \<Longrightarrow> levels_denote H fl S l (lvs @ [lv]) rows"
proof (induction lvs arbitrary: l rows)
  case Nil
  then show ?case by (auto simp: PROLLY_CHUNK_MAX_def)
next
  case (Cons a lvs)
  then obtain its part up where "lv_ok fl l a its" "items_size its < PROLLY_CHUNK_MAX" "denote H fl S l its part"
    "levels_denote H fl S (Suc l) lvs up" "rows = up @ part" by auto
  then show ?case using Cons.IH [of "Suc l" up] Cons.prems(2) by auto
qed

lemma init_levels_ok:
  "ch_ok fl ch \<Longrightarrow> l < PROLLY_CURSOR_MAX_DEPTH \<Longrightarrow>
     ch_ok fl (init_levels ch l) \<and> nLevels (init_levels ch l) = max (nLevels ch) (l + 1) \<and>
     (\<forall>j < nLevels ch. aLevel (init_levels ch l) ! j = aLevel ch ! j) \<and>
     (\<forall>j rows. upper H fl S ch j rows \<longrightarrow> upper H fl S (init_levels ch l) j rows) \<and> chRoot (init_levels ch l) = chRoot ch"
proof (induction ch l rule: init_levels.induct)
  case (1 ch l)
  show ?case
  proof (cases "nLevels ch \<le> l")
    case False
    then show ?thesis using "1.prems" by (subst (1 2 3 4 5) init_levels.simps) (simp add: max_def)
  next
    case True
    let ?c = "initLevel ch (nLevels ch)"
    let ?ch = "?c\<lparr>nLevels := nLevels ?c + 1\<rparr>"
    let ?n = "nLevels ch" and ?lv = "\<lparr>lvBuilder = prollyNodeBuilderInit (of_nat (nLevels ch)) fl, lvItems = 0, lvBytes = 0\<rparr>"
    have e: "init_levels ch l = init_levels ?ch l" using True by (subst init_levels.simps) (simp add: Let_def)
    have c: "ch_ok fl ?ch" using "1.prems" True by (simp add: ch_ok_def initLevel_def)
    have u: "upper H fl S ?ch j rows" if "upper H fl S ch j rows" for j rows
    proof -
      have n: "?n < length (aLevel ch)" using "1.prems" True by (simp add: ch_ok_def)
      have t: "take (Suc ?n) ((aLevel ch)[?n := ?lv]) = take ?n (aLevel ch) @ [?lv]"
        using n by (simp add: take_Suc_conv_app_nth)
      have f: "chFlags ch = fl" using "1.prems"(1) by (simp add: ch_ok_def)
      show ?thesis
      proof (cases "j \<le> ?n")
        case True
        then have "lv_ok fl (j + length (drop j (take ?n (aLevel ch)))) ?lv []" using n lv_ok_init by simp
        from levels_denote_snoc_empty [OF that [unfolded upper_def] this] show ?thesis
          using t f n True by (simp add: upper_def initLevel_def)
      next
        case False
        then have "rows = []" using that by (simp add: upper_def)
        then show ?thesis using False by (simp add: upper_def initLevel_def)
      qed
    qed
    have k: "\<forall>j < ?n. aLevel ?ch ! j = aLevel ch ! j" "nLevels ?ch = Suc ?n" "chRoot ?ch = chRoot ch"
      by (simp_all add: initLevel_def)
    note ih = "1.IH" [OF True refl c "1.prems"(2)]
    show ?thesis unfolding e using ih u k True by auto
  qed
qed

section \<open>Adding keeps the rows\<close>

definition level_result ::
  "(byte list \<Rightarrow> hash) \<Rightarrow> byte \<Rightarrow> byte list list \<Rightarrow> chunker \<Rightarrow> nat \<Rightarrow> row list \<Rightarrow> byte list \<Rightarrow>
     (byte list list \<times> chunker) res \<Rightarrow> bool" where
  "level_result H fl ds ch l rows k r \<longleftrightarrow> r = Inl SQLITE_FULL \<or>
     (\<exists>ds' ch'. r = Inr (ds', ch') \<and> length k < PROLLY_CHUNK_MAX \<and> (\<exists>x. ds' = ds @ x) \<and> ch_ok fl ch' \<and> upper H fl (set ds') ch' l rows \<and>
        nLevels ch \<le> nLevels ch' \<and> l < nLevels ch' \<and> (\<forall>j < l. j < nLevels ch \<longrightarrow> aLevel ch' ! j = aLevel ch ! j))"

definition add_ok :: "(byte list \<Rightarrow> hash) \<Rightarrow> boundary_check \<Rightarrow> byte \<Rightarrow> nat \<Rightarrow> bool" where
  "add_ok H w fl l \<longleftrightarrow> (\<forall>ds ch it part rows. ch_ok fl ch \<longrightarrow> item_ok fl l it \<longrightarrow> denote H fl (set ds) l [it] part \<longrightarrow>
     upper H fl (set ds) ch l rows \<longrightarrow> (0 < item_size it \<or> rows = []) \<longrightarrow>
     level_result H fl ds ch l (rows @ part) (fst it) (addToLevel (rec_put H) w ds ch l (fst it) (snd it)))"

definition flush_ok :: "(byte list \<Rightarrow> hash) \<Rightarrow> boundary_check \<Rightarrow> byte \<Rightarrow> nat \<Rightarrow> bool" where
  "flush_ok H w fl l \<longleftrightarrow> (\<forall>ds ch its part up. ch_ok fl ch \<longrightarrow> l < nLevels ch \<longrightarrow> lv_ok fl l (aLevel ch ! l) its \<longrightarrow>
     its \<noteq> [] \<longrightarrow> items_size its < 2 ^ 31 \<longrightarrow> denote H fl (set ds) l its part \<longrightarrow>
     upper H fl (set ds) ch (Suc l) up \<longrightarrow>
     level_result H fl ds ch l (up @ part) (fst (last its)) (flushLevel (rec_put H) w ds ch l))"

lemma builderLastKey_ok:
  assumes b: "builds b its" "its \<noteq> []" and sz: "items_size its < 2 ^ 31"
  shows "builderLastKey b = Inr (fst (last its))"
proof -
  let ?ks = "map fst its"
  have h: "arr_holds (bKeyOff b) (pKeyBuf b) (nKeyBytes b) (nAlloc b) (nKeyBufAlloc b) ?ks" "bItems b = length its"
    using b(1) by (simp_all add: builds_def)
  note a = arr_holdsD [OF h(1)]
  have ne: "?ks \<noteq> []" and n0: "0 < length its" using b(2) by simp_all
  have lc: "length (concat ?ks) < 2 ^ 32" using sz items_size_concat [of its] by simp
  have t: "take (length its + 1) (bKeyOff b) = offsets ?ks" using a(7) [OF ne] by simp
  have off: "bKeyOff b ! i = offsets ?ks ! i" if "i \<le> length its" for i
    using that t nth_take [of i "length its + 1" "bKeyOff b"] by simp
  have n1: "length its - 1 < length ?ks" "length its - 1 + 1 = length its" using n0 by simp_all
  note st = offsets_step(2) [OF lc n1(1), unfolded n1(2)]
  have "length (?ks ! (length its - 1)) \<le> length (concat ?ks)"
    using length_concat_take_Suc [OF n1(1)] length_concat_take_le [of "Suc (length its - 1)" ?ks] by linarith
  then have u: "unat (offsets ?ks ! length its - offsets ?ks ! (length its - 1)) = length (?ks ! (length its - 1))"
    unfolding st using lc by (intro unat_of_nat_u32) simp
  have o: "unat (offsets ?ks ! (length its - 1)) = length (concat (take (length its - 1) ?ks))"
    by (rule offsets_unat [OF lc]) simp
  have "take (nKeyBytes b) (pKeyBuf b) = concat ?ks" using a(5) .
  then have pk: "pKeyBuf b = [] @ concat ?ks @ drop (nKeyBytes b) (pKeyBuf b)" by (metis append_Nil append_take_drop_id)
  have "read_bytes (pKeyBuf b) (unat (offsets ?ks ! (length its - 1)))
      (unat (offsets ?ks ! length its - offsets ?ks ! (length its - 1))) = Inr (?ks ! (length its - 1))"
    by (subst pk, rule read_concat [OF n1(1)]) (simp_all only: o u list.size add_0)
  moreover have "?ks ! (length its - 1) = fst (last its)" using b(2) n0 by (simp add: last_conv_nth)
  moreover have "length its < length (bKeyOff b)" using a(4) a(6) [OF ne] by simp
  ultimately show ?thesis using h(2) n0 off by (simp add: builderLastKey_def Let_def)
qed

lemma reset_level_ok:
  assumes c: "ch_ok fl ch" "l < nLevels ch" and lv: "lv_ok fl l (aLevel ch ! l) its" and u: "upper H fl S ch (Suc l) rows"
  shows "ch_ok fl (reset_level ch l)" "upper H fl S (reset_level ch l) l rows" "nLevels (reset_level ch l) = nLevels ch"
    "j \<noteq> l \<Longrightarrow> aLevel (reset_level ch l) ! j = aLevel ch ! j" "chRoot (reset_level ch l) = chRoot ch"
proof -
  show o: "ch_ok fl (reset_level ch l)" "nLevels (reset_level ch l) = nLevels ch" "chRoot (reset_level ch l) = chRoot ch"
    "j \<noteq> l \<Longrightarrow> aLevel (reset_level ch l) ! j = aLevel ch ! j"
    using c by (simp_all add: ch_ok_def reset_level_def)
  have len: "l < length (aLevel ch)" using c by (simp add: ch_ok_def)
  have "upper H fl S (reset_level ch l) (Suc l) rows = upper H fl S ch (Suc l) rows"
    by (rule upper_cong) (simp_all add: reset_level_def)
  moreover have "lv_ok fl l (aLevel (reset_level ch l) ! l) []"
    using lv len builds_reset [of "lvBuilder (aLevel ch ! l)" its]
    by (simp add: lv_ok_def reset_level_def) (simp add: prollyNodeBuilderReset_def)
  ultimately show "upper H fl S (reset_level ch l) l rows"
    using u upper_step [OF o(1), of l H S rows] c(2) o(2) by (auto simp: PROLLY_CHUNK_MAX_def)
qed

text \<open>The node of a level is stored and sent up as one item.\<close>

definition up_item :: "(byte list \<Rightarrow> hash) \<Rightarrow> byte \<Rightarrow> nat \<Rightarrow> row list \<Rightarrow> row" where
  "up_item H fl l its = (fst (last its), H (node_bytes (of_nat l) fl its))"

lemma up_item_ok:
  assumes H: "\<forall>d. hash_ok (H d)" and lv: "lv_ok fl l (aLevel ch ! l) its" and ne: "its \<noteq> []" and sz: "items_size its < 2 ^ 31"
    and dn: "denote H fl S l its part" and l: "l < PROLLY_CURSOR_MAX_DEPTH" and S: "S \<subseteq> S'" "node_bytes (of_nat l) fl its \<in> S'"
  shows "item_ok fl (Suc l) (up_item H fl l its)" "subtree H fl S' l (up_item H fl l its) part"
    "0 < item_size (up_item H fl l its)"
    "builderLastKey (lvBuilder (aLevel ch ! l)) = Inr (fst (last its))"
    "prollyNodeBuilderFinish (lvBuilder (aLevel ch ! l)) = Inr (node_bytes (of_nat l) fl its)"
proof -
  let ?b = "lvBuilder (aLevel ch ! l)" and ?d = "node_bytes (of_nat l) fl its"
  have b: "builds ?b its" "bLevel ?b = of_nat l" "bFlags ?b = fl" "\<forall>it \<in> set its. item_ok fl l it"
    "length its \<le> PROLLY_NODE_MAX_ITEMS" using lv by (simp_all add: lv_ok_def)
  have "last its \<in> set its" using ne by simp
  then show "item_ok fl (Suc l) (up_item H fl l its)"
    using b(4) spec [OF H, of ?d] by (auto simp: up_item_def item_ok_def hash_ok_def PROLLY_HASH_SIZE_def)
  have sto: "storable (of_nat l) fl its"
    by (rule storable_items [OF ne b(5,4) sz]) (use l in \<open>simp add: PROLLY_CURSOR_MAX_DEPTH_def\<close>)
  show "subtree H fl S' l (up_item H fl l its) part"
    unfolding subtree_def node_at_def up_item_def using sto denote_mono [OF dn S(1)] S(2) by (intro exI [of _ its]) auto
  show "0 < item_size (up_item H fl l its)"
    using spec [OF H, of ?d] by (simp add: up_item_def item_size_def hash_ok_def PROLLY_HASH_SIZE_def)
  show "builderLastKey ?b = Inr (fst (last its))" by (rule builderLastKey_ok [OF b(1) ne sz])
  show "prollyNodeBuilderFinish ?b = Inr ?d" using prollyNodeBuilderFinish_bytes [OF b(1) ne] b(2,3) by simp
qed

lemma flushLevel_step:
  assumes "\<forall>d. hash_ok (H d)" "lv_ok fl l (aLevel ch ! l) its" "its \<noteq> []" "items_size its < 2 ^ 31"
    "denote H fl S l its part" "l < PROLLY_CURSOR_MAX_DEPTH"
  shows "flushLevel (rec_put H) w ds ch l =
      (if Suc l < PROLLY_CURSOR_MAX_DEPTH then
         bindR (addToLevel (rec_put H) w (ds @ [node_bytes (of_nat l) fl its]) ch (Suc l)
                  (fst (up_item H fl l its)) (snd (up_item H fl l its)))
               (\<lambda>(st, ch). Inr (st, reset_level ch l))
       else Inl SQLITE_FULL)"
  using up_item_ok(4,5) [OF assms subset_insertI insertI1]
  by (subst flushLevel.simps) (simp add: Let_def rec_put_def up_item_def)

lemma flush_from_add:
  assumes up: "Suc l < PROLLY_CURSOR_MAX_DEPTH \<Longrightarrow> add_ok H w fl (Suc l)" and H: "\<forall>d. hash_ok (H d)"
    and l: "l < PROLLY_CURSOR_MAX_DEPTH"
  shows "flush_ok H w fl l"
  unfolding flush_ok_def
proof (intro allI impI)
  fix ds ch its part up
  assume c: "ch_ok fl ch" "l < nLevels ch" and lv: "lv_ok fl l (aLevel ch ! l) its" and ne: "its \<noteq> []"
    and sz: "items_size its < 2 ^ 31"
    and dn: "denote H fl (set ds) l its part" and u: "upper H fl (set ds) ch (Suc l) up"
  let ?ds = "ds @ [node_bytes (of_nat l) fl its]" and ?it = "up_item H fl l its"
  note st = flushLevel_step [OF H lv ne sz dn l, of w ds]
  show "level_result H fl ds ch l (up @ part) (fst (last its)) (flushLevel (rec_put H) w ds ch l)"
  proof (cases "Suc l < PROLLY_CURSOR_MAX_DEPTH")
    case False
    then show ?thesis unfolding level_result_def st by simp
  next
    case True
    note i = up_item_ok [OF H lv ne sz dn l, of "set ?ds"]
    have u': "upper H fl (set ?ds) ch (Suc l) up" by (rule upper_mono [OF u]) auto
    let ?a = "addToLevel (rec_put H) w ?ds ch (Suc l) (fst ?it) (snd ?it)"
    have r: "level_result H fl ?ds ch (Suc l) (up @ part) (fst ?it) ?a"
      using up [OF True, unfolded add_ok_def, rule_format, OF c(1), of ?it ?ds part up] i(1-3) u'
      by (auto simp: denote_single)
    show ?thesis
    proof (cases ?a)
      case (Inl e)
      then show ?thesis using r st True by (simp add: level_result_def)
    next
      case (Inr x)
      obtain ds' ch' where x: "x = (ds', ch')" by (cases x)
      have r': "length (fst ?it) < PROLLY_CHUNK_MAX" "\<exists>y. ds' = ?ds @ y" "ch_ok fl ch'" "upper H fl (set ds') ch' (Suc l) (up @ part)"
        "nLevels ch \<le> nLevels ch'" "Suc l < nLevels ch'" "\<forall>j < Suc l. j < nLevels ch \<longrightarrow> aLevel ch' ! j = aLevel ch ! j"
        using r Inr x by (auto simp: level_result_def)
      have lv': "lv_ok fl l (aLevel ch' ! l) its" using lv r'(7) c(2) by simp
      note rs = reset_level_ok [OF r'(3) _ lv' r'(4)]
      have e: "flushLevel (rec_put H) w ds ch l = Inr (ds', reset_level ch' l)"
        using st Inr x True by simp
      show ?thesis unfolding level_result_def e using rs r' by (auto simp: up_item_def)
    qed
  qed
qed

text \<open>How many items the node under construction at a level has.\<close>

definition cnt :: "chunker \<Rightarrow> nat \<Rightarrow> nat" where
  "cnt ch l = (if l < nLevels ch then bItems (lvBuilder (aLevel ch ! l)) else 0)"

lemma lv_ok_cnt: "lv_ok fl l (aLevel ch ! l) its \<Longrightarrow> l < nLevels ch \<Longrightarrow> cnt ch l = length its"
  by (simp add: lv_ok_def builds_def cnt_def)

lemma cnt_init: "ch_ok fl ch \<Longrightarrow> l < PROLLY_CURSOR_MAX_DEPTH \<Longrightarrow> cnt (init_levels ch l) j = cnt ch j"
proof (induction ch l rule: init_levels.induct)
  case (1 ch l)
  show ?case
  proof (cases "nLevels ch \<le> l")
    case False
    then show ?thesis by (subst init_levels.simps) simp
  next
    case True
    let ?c = "initLevel ch (nLevels ch)"
    let ?ch = "?c\<lparr>nLevels := nLevels ?c + 1\<rparr>"
    have e: "init_levels ch l = init_levels ?ch l" using True by (subst init_levels.simps) (simp add: Let_def)
    have c: "ch_ok fl ?ch" using "1.prems" True by (simp add: ch_ok_def initLevel_def)
    have "cnt ?ch j = cnt ch j"
      using "1.prems" True by (auto simp: cnt_def initLevel_def ch_ok_def prollyNodeBuilderInit_def nth_list_update)
    then show ?thesis unfolding e using "1.IH" [OF True refl c "1.prems"(2)] by simp
  qed
qed

text \<open>The state after the item is in the node, before the test of the boundary.\<close>

definition add_mid ::
  "(byte list \<Rightarrow> hash) \<Rightarrow> byte \<Rightarrow> byte list list \<Rightarrow> chunker \<Rightarrow> nat \<Rightarrow> row \<Rightarrow> row list \<Rightarrow> row list \<Rightarrow>
     row list \<Rightarrow> row list \<Rightarrow> chunker \<Rightarrow> bool" where
  "add_mid H fl ds ch l it rows its part0 up ch2 \<longleftrightarrow>
     ch_ok fl ch2 \<and> l < nLevels ch2 \<and> nLevels ch \<le> nLevels ch2 \<and> lv_ok fl l (aLevel ch2 ! l) (its @ [it]) \<and>
     items_size (its @ [it]) < 2 ^ 31 \<and> denote H fl (set ds) l its part0 \<and> upper H fl (set ds) ch2 (Suc l) up \<and>
     rows = up @ part0 \<and> (\<forall>j < l. j < nLevels ch \<longrightarrow> aLevel ch2 ! j = aLevel ch ! j) \<and>
     cnt ch l = length its \<and> (\<forall>j. j \<noteq> l \<longrightarrow> cnt ch2 j = cnt ch j)"

lemma addToLevel_step:
  assumes l: "l < PROLLY_CURSOR_MAX_DEPTH" and c0: "ch_ok fl ch" and io: "item_ok fl l it"
    and u0: "upper H fl (set ds) ch l rows" and pos: "0 < item_size it \<or> rows = []"
  obtains (full) its part0 up where "PROLLY_NODE_MAX_ITEMS \<le> length its" "items_size its < PROLLY_CHUNK_MAX"
      "\<forall>it \<in> set its. item_ok fl l it" "denote H fl (set ds) l its part0" "rows = up @ part0"
      "addToLevel (rec_put H) w ds ch l (fst it) (snd it) = Inl SQLITE_FULL"
    | (flush) its part0 up ch2 where "add_mid H fl ds ch l it rows its part0 up ch2"
      "PROLLY_CHUNK_MIN \<le> items_size (its @ [it])"
      "addToLevel (rec_put H) w ds ch l (fst it) (snd it) = flushLevel (rec_put H) w ds ch2 l"
    | (stay) its part0 up ch2 where "add_mid H fl ds ch l it rows its part0 up ch2"
      "items_size (its @ [it]) < PROLLY_CHUNK_MAX"
      "addToLevel (rec_put H) w ds ch l (fst it) (snd it) = Inr (ds, ch2)"
proof -
  define ch1 where "ch1 = (if l \<ge> nLevels ch then init_levels ch l else ch)"
  have c1: "ch_ok fl ch1" "l < nLevels ch1" "nLevels ch \<le> nLevels ch1" "upper H fl (set ds) ch1 l rows"
    "\<forall>j < nLevels ch. aLevel ch1 ! j = aLevel ch ! j"
    using init_levels_ok [OF c0 l] c0 u0 unfolding ch1_def by (auto simp: max_def)
  have cn: "cnt ch1 j = cnt ch j" for j using cnt_init [OF c0 l] by (simp add: ch1_def)
  obtain its part0 up where s: "lv_ok fl l (aLevel ch1 ! l) its" "items_size its < PROLLY_CHUNK_MAX"
    "denote H fl (set ds) l its part0" "upper H fl (set ds) ch1 (Suc l) up" "rows = up @ part0"
    using c1(4) unfolding upper_step [OF c1(1,2)] by blast
  let ?lv = "aLevel ch1 ! l" and ?its = "its @ [it]"
  have b: "builds (lvBuilder ?lv) its" "bLevel (lvBuilder ?lv) = of_nat l" "bFlags (lvBuilder ?lv) = fl"
    "lvBytes ?lv = items_size its" "\<forall>it \<in> set its. item_ok fl l it" "length its \<le> items_size its + 1"
    using s(1) by (simp_all add: lv_ok_def)
  note st = addToLevel.simps [of "rec_put H" w ds ch l "fst it" "snd it", folded ch1_def, unfolded Let_def]
  show thesis
  proof (cases "length its < PROLLY_NODE_MAX_ITEMS")
    case False
    then have "addToLevel (rec_put H) w ds ch l (fst it) (snd it) = Inl SQLITE_FULL"
      using st l b(1) prollyNodeBuilderAdd_full [of "lvBuilder ?lv"] by (simp add: builds_def ch1_def)
    then show thesis using False s(2,3,5) b(5) by (intro full [of its part0 up]) simp_all
  next
    case True
    obtain nb where nb: "prollyNodeBuilderAdd (lvBuilder ?lv) (fst it) (snd it) = Inr nb" "builds nb ?its"
      "bLevel nb = of_nat l" "bFlags nb = fl"
      using prollyNodeBuilderAdd_builds [OF b(1) True, of "fst it" "snd it"] b(2,3) by auto
    define lv where "lv = \<lparr>lvBuilder = nb, lvItems = lvItems ?lv + 1, lvBytes = lvBytes ?lv + (length (fst it) + length (snd it))\<rparr>"
    define ch2 where "ch2 = ch1\<lparr>aLevel := (aLevel ch1)[l := lv]\<rparr>"
    have "0 < item_size it \<or> its = []" using pos s(5) denote_rows(1) [OF s(3)] by auto
    then have "length ?its \<le> items_size ?its + 1" using b(6) by (elim disjE) simp_all
    then have lvo: "lv_ok fl l lv ?its" using b nb io True by (simp add: lv_ok_def lv_def item_size_def)
    have sz: "lvBytes lv = items_size ?its" using lvo by (simp add: lv_ok_def)
    have szb: "items_size ?its < 2 ^ 31"
      using s(2) io by (simp add: item_ok_def item_size_def PROLLY_CHUNK_MAX_def)
    have cn2: "cnt ch2 j = cnt ch j" if "j \<noteq> l" for j
      using cn [of j] that by (auto simp: ch2_def cnt_def split: if_splits)
    have c2: "ch_ok fl ch2" "l < nLevels ch2" "nLevels ch \<le> nLevels ch2" "aLevel ch2 ! l = lv"
      "\<forall>j < l. j < nLevels ch \<longrightarrow> aLevel ch2 ! j = aLevel ch ! j"
      using c1 by (auto simp: ch2_def ch_ok_def)
    have u2: "upper H fl (set ds) ch2 (Suc l) up = upper H fl (set ds) ch1 (Suc l) up"
      by (rule upper_cong) (simp_all add: ch2_def)
    have mid: "add_mid H fl ds ch l it rows its part0 up ch2"
      unfolding add_mid_def using c2 cn2 lvo szb s(3,4,5) u2 cn [of l] lv_ok_cnt [OF s(1) c1(2)] by simp
    have e: "addToLevel (rec_put H) w ds ch l (fst it) (snd it) =
        (if PROLLY_CHUNK_MIN \<le> lvBytes lv then
           if PROLLY_CHUNK_MAX \<le> lvBytes lv \<or> w (of_nat (lvBytes lv)) (of_nat (length (fst it) + length (snd it))) (xxh32_spec (fst it) (of_nat l))
           then flushLevel (rec_put H) w ds ch2 l else Inr (ds, ch2)
         else Inr (ds, ch2))"
      unfolding st by (simp only: l guardR_simps bindR_Inr nb(1) lv_def [symmetric] ch2_def [symmetric])
        (simp add: prollyXXH32_folds folds_spec)
    have small: "items_size ?its < PROLLY_CHUNK_MAX" if "\<not> PROLLY_CHUNK_MIN \<le> lvBytes lv \<or> \<not> PROLLY_CHUNK_MAX \<le> lvBytes lv"
      using that sz by (auto simp: PROLLY_CHUNK_MIN_def PROLLY_CHUNK_MAX_def)
    show thesis using e sz flush [OF mid] stay [OF mid] small by (auto split: if_splits)
  qed
qed

lemma add_from_flush:
  assumes fl: "flush_ok H w fl l" and l: "l < PROLLY_CURSOR_MAX_DEPTH"
  shows "add_ok H w fl l"
  unfolding add_ok_def
proof (intro allI impI)
  fix ds ch it part rows
  assume c0: "ch_ok fl ch" and io: "item_ok fl l it" and dn: "denote H fl (set ds) l [it] part"
    and u0: "upper H fl (set ds) ch l rows" and pos: "0 < item_size it \<or> rows = []"
  let ?r = "addToLevel (rec_put H) w ds ch l (fst it) (snd it)"
  show "level_result H fl ds ch l (rows @ part) (fst it) ?r"
  proof (rule addToLevel_step [OF l c0 io u0 pos, where w = w], goal_cases)
    case (1 its part0 up)
    then show ?thesis by (simp add: level_result_def)
  next
    case flush: (2 its part0 up ch2)
    note m = flush(1) [unfolded add_mid_def]
    have "level_result H fl ds ch2 l (up @ part0 @ part) (fst it) ?r"
      unfolding flush(3)
      using fl [unfolded flush_ok_def, rule_format, of ch2 "its @ [it]" ds "part0 @ part" up] m denote_append [OF _ dn] by auto
    then show ?thesis using m by (fastforce simp: level_result_def)
  next
    case stay: (3 its part0 up ch2)
    note m = stay(1) [unfolded add_mid_def]
    have "upper H fl (set ds) ch2 l (up @ part0 @ part)"
      unfolding upper_step [OF m [THEN conjunct1] m [THEN conjunct2, THEN conjunct1]]
      using m denote_append [OF _ dn] stay(2) by blast
    then show ?thesis unfolding level_result_def stay(3) using m stay(2) by (auto simp: item_size_def)
  qed
qed

lemma add_flush_ok:
  assumes H: "\<forall>d. hash_ok (H d)" and l: "l < PROLLY_CURSOR_MAX_DEPTH"
  shows "add_ok H w fl l \<and> flush_ok H w fl l"
  using l
proof (induction "PROLLY_CURSOR_MAX_DEPTH - l" arbitrary: l rule: less_induct)
  case less
  have "add_ok H w fl (Suc l)" if "Suc l < PROLLY_CURSOR_MAX_DEPTH"
    using less.hyps [of "Suc l"] that by simp
  then have "flush_ok H w fl l" by (rule flush_from_add [OF _ H less.prems])
  then show ?case using add_from_flush less.prems by blast
qed

section \<open>Finishing keeps the rows\<close>

lemma upper_empty:
  "ch_ok fl ch \<Longrightarrow> upper H fl S ch l rows \<Longrightarrow> \<forall>k. l \<le> k \<longrightarrow> k < nLevels ch \<longrightarrow> bItems (lvBuilder (aLevel ch ! k)) = 0 \<Longrightarrow> rows = []"
proof (induction "nLevels ch - l" arbitrary: l rows)
  case 0
  then show ?case by (simp add: upper_top)
next
  case (Suc n)
  then have l: "l < nLevels ch" by simp
  obtain its part up where s: "lv_ok fl l (aLevel ch ! l) its" "denote H fl S l its part" "upper H fl S ch (Suc l) up" "rows = up @ part"
    using Suc.prems(2) upper_step [OF Suc.prems(1) l] by blast
  have "its = []" using s(1) Suc.prems(3) l by (auto simp: lv_ok_def builds_def)
  moreover have "up = []" using Suc.hyps(1) [of "Suc l" up] Suc.hyps(2) Suc.prems s(3) by simp
  ultimately show ?case using s(2,4) by simp
qed

text \<open>The steps of the loop over the levels.\<close>

lemma finish_levels_step:
  assumes H: "\<forall>d. hash_ok (H d)" and c: "ch_ok fl ch" and u: "upper H fl (set ds) ch l rows"
  obtains (none) "nLevels ch \<le> l" "rows = []" "finish_levels (rec_put H) w ds ch l = Inr (ds, ch\<lparr>chRoot := hash0\<rparr>)"
    | (skip) "l < nLevels ch" "upper H fl (set ds) ch (Suc l) rows" "cnt ch l = 0"
      "finish_levels (rec_put H) w ds ch l = finish_levels (rec_put H) w ds ch (Suc l)"
    | (up) its part up where "l < nLevels ch" "Suc l < PROLLY_CURSOR_MAX_DEPTH" "cnt ch l = length its" "its \<noteq> []"
      "item_ok fl (Suc l) (up_item H fl l its)"
      "denote H fl (set (ds @ [node_bytes (of_nat l) fl its])) (Suc l) [up_item H fl l its] part"
      "upper H fl (set (ds @ [node_bytes (of_nat l) fl its])) ch (Suc l) up" "0 < item_size (up_item H fl l its)" "rows = up @ part"
      "finish_levels (rec_put H) w ds ch l =
        bindR (addToLevel (rec_put H) w (ds @ [node_bytes (of_nat l) fl its]) ch (Suc l)
                 (fst (up_item H fl l its)) (snd (up_item H fl l its)))
              (\<lambda>(st, ch). finish_levels (rec_put H) w st (reset_level ch l) (Suc l))"
    | (root) its where "l < PROLLY_CURSOR_MAX_DEPTH"
      "subtree H fl (set (ds @ [node_bytes (of_nat l) fl its])) l (up_item H fl l its) rows"
      "finish_levels (rec_put H) w ds ch l =
        Inr (ds @ [node_bytes (of_nat l) fl its], reset_level (ch\<lparr>chRoot := snd (up_item H fl l its)\<rparr>) l)"
proof (cases "l < nLevels ch")
  case False
  then have "finish_levels (rec_put H) w ds ch l = Inr (ds, ch\<lparr>chRoot := hash0\<rparr>)" by (subst finish_levels.simps) simp
  then show thesis using none u False by (simp add: upper_top)
next
  case True
  have d: "l < PROLLY_CURSOR_MAX_DEPTH" using True c by (simp add: ch_ok_def)
  obtain its part up where s: "lv_ok fl l (aLevel ch ! l) its" "items_size its < PROLLY_CHUNK_MAX"
    "denote H fl (set ds) l its part" "upper H fl (set ds) ch (Suc l) up" "rows = up @ part"
    using u upper_step [OF c True] by blast
  have n: "bItems (lvBuilder (aLevel ch ! l)) = length its" "cnt ch l = length its"
    using s(1) lv_ok_cnt [OF s(1) True] by (simp_all add: lv_ok_def builds_def)
  have sz: "items_size its < 2 ^ 31" using s(2) by (simp add: PROLLY_CHUNK_MAX_def)
  let ?ds = "ds @ [node_bytes (of_nat l) fl its]"
  note fs = finish_levels.simps [of "rec_put H" w ds ch l]
  note i = up_item_ok [OF H s(1) _ sz s(3) d, of "set ?ds"]
  have ff: "finishFlushLevel (rec_put H) ds ch l = Inr (?ds, snd (up_item H fl l its))" if "its \<noteq> []"
    using i(5) [OF that] by (simp add: finishFlushLevel_def rec_put_def up_item_def subset_insertI)
  consider "its = []" | "its \<noteq> []" "hasPendingAncestorLevels ch l" | "its \<noteq> []" "\<not> hasPendingAncestorLevels ch l"
    by blast
  then show thesis
  proof cases
    case 1
    then have "finish_levels (rec_put H) w ds ch l = finish_levels (rec_put H) w ds ch (Suc l)"
      using True d n(1) by (subst fs) simp
    then show thesis using skip True s 1 n by simp
  next
    case 2
    have l1: "Suc l < PROLLY_CURSOR_MAX_DEPTH"
      using 2(2) c by (auto simp: hasPendingAncestorLevels_def ch_ok_def)
    have u': "upper H fl (set ?ds) ch (Suc l) up" by (rule upper_mono [OF s(4)]) auto
    have lk: "builderLastKey (lvBuilder (aLevel ch ! l)) = Inr (fst (up_item H fl l its))"
      using i(4) [OF 2(1)] by (simp add: up_item_def subset_insertI)
    have e: "finish_levels (rec_put H) w ds ch l =
        bindR (addToLevel (rec_put H) w ?ds ch (Suc l) (fst (up_item H fl l its)) (snd (up_item H fl l its)))
              (\<lambda>(st, ch). finish_levels (rec_put H) w st (reset_level ch l) (Suc l))"
      using True d n(1) 2 ff [OF 2(1)] lk
      by (subst fs) (simp add: finishPropagateLevel_def bindR_assoc case_prod_beta')
    have dn: "denote H fl (set ?ds) (Suc l) [up_item H fl l its] part"
      unfolding denote_single by (rule i(2)) (use 2(1) in auto)
    show thesis by (rule up [OF True l1 n(2) 2(1) i(1) [OF 2(1)] dn u' i(3) [OF 2(1)] s(5) e]) auto
  next
    case 3
    have "up = []" using upper_empty [OF c s(4)] 3(2) by (auto simp: hasPendingAncestorLevels_def)
    then have "subtree H fl (set ?ds) l (up_item H fl l its) rows" using i(2) [OF 3(1)] s(5) by auto
    moreover have "finish_levels (rec_put H) w ds ch l =
        Inr (?ds, reset_level (ch\<lparr>chRoot := snd (up_item H fl l its)\<rparr>) l)"
      using True d n(1) 3 ff [OF 3(1)] by (subst fs) simp
    ultimately show thesis using root d by blast
  qed
qed

definition finish_result ::
  "(byte list \<Rightarrow> hash) \<Rightarrow> byte \<Rightarrow> byte list list \<Rightarrow> row list \<Rightarrow> (byte list list \<times> chunker) res \<Rightarrow> bool" where
  "finish_result H fl ds rows r \<longleftrightarrow> r = Inl SQLITE_FULL \<or>
     (\<exists>ds' ch'. r = Inr (ds', ch') \<and> (\<exists>x. ds' = ds @ x) \<and> tree H fl (set ds') (chRoot ch') rows)"

lemma finish_levels_ok:
  assumes H: "\<forall>d. hash_ok (H d)" "\<forall>d. H d \<noteq> hash0"
  shows "ch_ok fl ch \<Longrightarrow> upper H fl (set ds) ch l rows \<Longrightarrow> finish_result H fl ds rows (finish_levels (rec_put H) w ds ch l)"
proof (induction "PROLLY_CURSOR_MAX_DEPTH - l" arbitrary: l ds ch rows rule: less_induct)
  case less
  note c = less.prems(1)
  show ?case
  proof (rule finish_levels_step [OF H(1) less.prems, where w = w], goal_cases)
    case 1
    then show ?thesis by (simp add: finish_result_def tree_def)
  next
    case 2
    moreover have "l < PROLLY_CURSOR_MAX_DEPTH" using 2(1) c by (simp add: ch_ok_def)
    ultimately show ?thesis using less.hyps [of "Suc l" ch ds rows] c by simp
  next
    case up: (3 its part up)
    let ?ds = "ds @ [node_bytes (of_nat l) fl its]" and ?it = "up_item H fl l its"
    let ?a = "addToLevel (rec_put H) w ?ds ch (Suc l) (fst ?it) (snd ?it)"
    have a: "level_result H fl ?ds ch (Suc l) (up @ part) (fst ?it) ?a"
      using add_flush_ok [OF H(1) up(2), where w = w and fl = fl, THEN conjunct1, unfolded add_ok_def, rule_format,
          OF c up(5,6,7)] up(8) by blast
    show ?thesis
    proof (cases ?a)
      case (Inl err)
      then show ?thesis using a up(10) by (simp add: finish_result_def level_result_def)
    next
      case (Inr x)
      obtain ds' ch' where x: "x = (ds', ch')" by (cases x)
      have r': "\<exists>y. ds' = ?ds @ y" "ch_ok fl ch'" "upper H fl (set ds') ch' (Suc l) (up @ part)"
        using a Inr x by (auto simp: level_result_def)
      have "ch_ok fl (reset_level ch' l)" using r'(2) by (simp add: ch_ok_def reset_level_def)
      moreover have "upper H fl (set ds') (reset_level ch' l) (Suc l) rows"
        using r'(3) up(9) upper_cong [where ch = ch' and ch' = "reset_level ch' l" and l = "Suc l"] by (simp add: reset_level_def)
      ultimately have "finish_result H fl ds' rows (finish_levels (rec_put H) w ds' (reset_level ch' l) (Suc l))"
        using less.hyps [of "Suc l" "reset_level ch' l" ds' rows] up(2) by simp
      then show ?thesis using up(10) Inr x r'(1) by (fastforce simp: finish_result_def)
    qed
  next
    case (4 its)
    then have "tree H fl (set (ds @ [node_bytes (of_nat l) fl its])) (snd (up_item H fl l its)) rows"
      using H(2) unfolding tree_def by (metis prod.collapse snd_conv up_item_def)
    then show ?thesis using 4(3) by (simp add: finish_result_def reset_level_def)
  qed
qed

section \<open>Building a tree\<close>

text \<open>Init, one call of \<open>prollyChunkerAdd\<close> for each row, Finish.\<close>

primrec chunker_add_rows ::
    "'s chunk_put \<Rightarrow> boundary_check \<Rightarrow> 's \<Rightarrow> chunker \<Rightarrow> row list \<Rightarrow> ('s \<times> chunker) res" where
  "chunker_add_rows put weibull st ch [] = Inr (st, ch)"
| "chunker_add_rows put weibull st ch (r # rs) =
     bindR (prollyChunkerAdd put weibull st ch (fst r) (snd r)) (\<lambda>(st, ch). chunker_add_rows put weibull st ch rs)"

definition build_tree :: "'s chunk_put \<Rightarrow> boundary_check \<Rightarrow> byte \<Rightarrow> 's \<Rightarrow> row list \<Rightarrow> ('s \<times> chunker) res" where
  "build_tree put weibull fl st rows =
     bindR (chunker_add_rows put weibull st (prollyChunkerInit fl) rows) (\<lambda>(st, ch). prollyChunkerFinish put weibull st ch)"

lemma ch_ok_init: "ch_ok fl (prollyChunkerInit fl)" "upper H fl S (prollyChunkerInit fl) l rows \<longleftrightarrow> rows = []"
  by (simp_all add: ch_ok_def prollyChunkerInit_def upper_def)

lemma add_rows_ok:
  assumes H: "\<forall>d. hash_ok (H d)"
  shows "ch_ok fl ch \<Longrightarrow> upper H fl (set ds) ch 0 rows0 \<Longrightarrow> \<forall>r \<in> set rows. item_ok fl 0 r \<Longrightarrow>
     \<forall>r \<in> set (if rows0 = [] then tl rows else rows). 0 < item_size r \<Longrightarrow>
     chunker_add_rows (rec_put H) w ds ch rows = Inl SQLITE_FULL \<or>
     (\<exists>ds' ch'. chunker_add_rows (rec_put H) w ds ch rows = Inr (ds', ch') \<and> (\<exists>x. ds' = ds @ x) \<and> ch_ok fl ch' \<and>
        upper H fl (set ds') ch' 0 (rows0 @ rows) \<and> (\<forall>r \<in> set rows. length (fst r) < PROLLY_CHUNK_MAX))"
proof (induction rows arbitrary: ds ch rows0)
  case (Cons r rs)
  let ?a = "addToLevel (rec_put H) w ds ch 0 (fst r) (snd r)"
  have d: "0 < PROLLY_CURSOR_MAX_DEPTH" by (simp add: PROLLY_CURSOR_MAX_DEPTH_def)
  have a: "level_result H fl ds ch 0 (rows0 @ [r]) (fst r) ?a"
    using add_flush_ok [OF H d, where w = w and fl = fl, THEN conjunct1, unfolded add_ok_def, rule_format,
        OF Cons.prems(1), of r ds "[r]" rows0] Cons.prems by (auto split: if_splits)
  show ?case
  proof (cases ?a)
    case (Inl e)
    then show ?thesis using a by (simp add: level_result_def prollyChunkerAdd_def)
  next
    case (Inr x)
    obtain ds1 ch1 where x: "x = (ds1, ch1)" by (cases x)
    have r1: "\<exists>y. ds1 = ds @ y" "ch_ok fl ch1" "upper H fl (set ds1) ch1 0 (rows0 @ [r])" "length (fst r) < PROLLY_CHUNK_MAX"
      using a Inr x by (auto simp: level_result_def)
    have p: "\<forall>r \<in> set rs. 0 < item_size r" using Cons.prems(4) by (auto split: if_splits)
    show ?thesis
      using Cons.IH [OF r1(2,3)] Cons.prems(3) p r1(1,4) Inr x by (fastforce simp: prollyChunkerAdd_def)
  qed
qed simp

lemma build_tree_ok:
  assumes "\<forall>d. hash_ok (H d) \<and> H d \<noteq> hash0" "\<forall>r \<in> set rows. item_ok fl 0 r" "\<forall>r \<in> set (tl rows). 0 < item_size r"
  shows "finish_result H fl [] rows (build_tree (rec_put H) w fl [] rows)"
    "build_tree (rec_put H) w fl [] rows = Inr x \<Longrightarrow> \<forall>r \<in> set rows. length (fst r) < PROLLY_CHUNK_MAX"
proof -
  have H: "\<forall>d. hash_ok (H d)" "\<forall>d. H d \<noteq> hash0" using assms(1) by blast+
  let ?a = "chunker_add_rows (rec_put H) w [] (prollyChunkerInit fl) rows"
  have a: "?a = Inl SQLITE_FULL \<or>
     (\<exists>ds' ch'. ?a = Inr (ds', ch') \<and> (\<exists>x. ds' = [] @ x) \<and> ch_ok fl ch' \<and> upper H fl (set ds') ch' 0 ([] @ rows) \<and>
       (\<forall>r \<in> set rows. length (fst r) < PROLLY_CHUNK_MAX))"
    by (rule add_rows_ok [OF H(1) ch_ok_init(1)]) (use ch_ok_init(2) assms in simp_all)
  then consider "?a = Inl SQLITE_FULL"
    | ds ch where "?a = Inr (ds, ch)" "ch_ok fl ch" "upper H fl (set ds) ch 0 rows" by auto
  then show "finish_result H fl [] rows (build_tree (rec_put H) w fl [] rows)"
  proof cases
    case 1
    then show ?thesis by (simp add: build_tree_def finish_result_def)
  next
    case 2
    have f: "finish_result H fl ds rows (finish_levels (rec_put H) w ds ch 0)"
      by (rule finish_levels_ok [OF H 2(2,3)])
    have "nLevels ch = 0 \<Longrightarrow> finish_levels (rec_put H) w ds ch 0 = Inr (ds, ch\<lparr>chRoot := hash0\<rparr>)"
      by (subst finish_levels.simps) simp
    then have "prollyChunkerFinish (rec_put H) w ds ch = finish_levels (rec_put H) w ds ch 0"
      by (simp add: prollyChunkerFinish_def)
    then show ?thesis using 2(1) f by (auto simp: build_tree_def finish_result_def)
  qed
  show "\<forall>r \<in> set rows. length (fst r) < PROLLY_CHUNK_MAX" if "build_tree (rec_put H) w fl [] rows = Inr x"
    using a that by (auto simp: build_tree_def)
qed

end
