(* ===== verification/TreeProgress.thy ===== *)
theory TreeProgress
  imports TreeBuild
begin

text \<open>
  The tree builder fails only with \<open>SQLITE_FULL\<close>; when it does not fail, and when it must.
\<close>

section \<open>Building does not fail on tables with short keys\<close>

text \<open>
  With keys of at most \<open>K\<close> bytes a node above the rows is only ended when it has \<open>b\<close> items, where
  \<open>(b - 1) * (K + 20) < 512\<close>.  So an item of level \<open>l\<close> weighs \<open>b\<close> items of the level below, and the
  last level is never full while the rows are fewer than its capacity.
\<close>

definition mul :: "nat \<Rightarrow> nat \<Rightarrow> nat" where
  "mul b l = (if l = 0 then 1 else b)"

function wt :: "nat \<Rightarrow> chunker \<Rightarrow> nat \<Rightarrow> nat" where
  "wt b ch l = (if l < PROLLY_CURSOR_MAX_DEPTH then cnt ch l + mul b l * wt b ch (Suc l) else 0)"
  by pat_completeness auto
termination by (relation "measure (\<lambda>(b, ch, l). PROLLY_CURSOR_MAX_DEPTH - l)") auto

declare wt.simps [simp del]

lemma wt_step: "l < PROLLY_CURSOR_MAX_DEPTH \<Longrightarrow> wt b ch l = cnt ch l + mul b l * wt b ch (Suc l)"
  by (subst wt.simps) simp

lemma wt_cong: "(\<And>j. l \<le> j \<Longrightarrow> cnt ch j = cnt ch' j) \<Longrightarrow> wt b ch l = wt b ch' l"
proof (induction "PROLLY_CURSOR_MAX_DEPTH - l" arbitrary: l rule: less_induct)
  case less
  show ?case
  proof (cases "l < PROLLY_CURSOR_MAX_DEPTH")
    case True
    then have "wt b ch (Suc l) = wt b ch' (Suc l)" using less by simp
    then show ?thesis using wt_step [OF True, of b ch] wt_step [OF True, of b ch'] less.prems by simp
  qed (simp add: wt.simps)
qed

definition cap :: "nat \<Rightarrow> nat \<Rightarrow> nat" where
  "cap b l = b ^ (PROLLY_CURSOR_MAX_DEPTH - max 1 l)"

lemma cap_step: "l < PROLLY_CURSOR_MAX_DEPTH \<Longrightarrow> cap b l = mul b l * cap b (Suc l)"
proof -
  assume "l < PROLLY_CURSOR_MAX_DEPTH"
  then have "PROLLY_CURSOR_MAX_DEPTH - max 1 l =
      (if l = 0 then 0 else 1) + (PROLLY_CURSOR_MAX_DEPTH - max 1 (Suc l))" by (auto simp: max_def)
  then show ?thesis unfolding cap_def mul_def by (simp add: power_add)
qed

lemma cap_top: "cap b PROLLY_CURSOR_MAX_DEPTH = 1"
  by (simp add: cap_def PROLLY_CURSOR_MAX_DEPTH_def)

text \<open>The keys of the items of a node are keys of rows.\<close>

lemma denote_keys: "denote H fl S l its rows \<Longrightarrow> fst ` set its \<subseteq> fst ` set rows"
proof (cases l)
  case (Suc m)
  assume "denote H fl S l its rows"
  then obtain parts where p: "rows = concat parts" "list_all2 (subtree H fl S m) its parts"
    using Suc by (auto simp: denote_Suc)
  show ?thesis
  proof
    fix k assume "k \<in> fst ` set its"
    then obtain i where i: "i < length its" "k = fst (its ! i)" by (auto simp: in_set_conv_nth)
    have "subtree H fl S m (its ! i) (parts ! i)" using p(2) i(1) by (simp add: list_all2_nthD)
    from subtree_rows [OF this] have "parts ! i \<noteq> []" "fst (last (parts ! i)) = k" using i(2) by simp_all
    moreover have "parts ! i \<in> set parts" using p(2) i(1) by (simp add: list_all2_lengthD)
    moreover have "last (parts ! i) \<in> set (parts ! i)" using calculation(1) by simp
    ultimately have "last (parts ! i) \<in> (\<Union>p \<in> set parts. set p)" by (intro UN_I [of "parts ! i"])
    then have "last (parts ! i) \<in> set rows" by (simp add: p(1))
    then show "k \<in> fst ` set rows" using \<open>fst (last (parts ! i)) = k\<close> by blast
  qed
qed simp

definition small_rows :: "nat \<Rightarrow> row list \<Rightarrow> bool" where
  "small_rows K rows \<longleftrightarrow> (\<forall>r \<in> set rows. length (fst r) \<le> K \<and> 4 \<le> item_size r)"

text \<open>What an item weighs in bytes at a level.\<close>

definition item_bounds :: "nat \<Rightarrow> nat \<Rightarrow> row \<Rightarrow> bool" where
  "item_bounds K l it \<longleftrightarrow> 4 \<le> item_size it \<and> (0 < l \<longrightarrow> item_size it \<le> K + 20)"

lemma items_bounds:
  assumes "denote H fl S l its rows" "small_rows K rows" "\<forall>it \<in> set its. item_ok fl l it"
  shows "\<forall>it \<in> set its. item_bounds K l it"
proof
  fix it assume i: "it \<in> set its"
  then obtain r where r: "r \<in> set rows" "fst it = fst r" using denote_keys [OF assms(1)] by force
  have k: "length (fst it) \<le> K" using r assms(2) by (simp add: small_rows_def)
  show "item_bounds K l it"
  proof (cases l)
    case 0
    then have "it \<in> set rows" using assms(1) i by simp
    then show ?thesis using assms(2) 0 by (simp add: item_bounds_def small_rows_def)
  next
    case (Suc m)
    then have "length (snd it) = 20" using assms(3) i by (auto simp: item_ok_def PROLLY_HASH_SIZE_def)
    then show ?thesis using k by (simp add: item_bounds_def item_size_def)
  qed
qed

lemma items_size_bounds:
  assumes "\<forall>it \<in> set its. item_bounds K l it"
  shows "4 * length its \<le> items_size its" "0 < l \<Longrightarrow> items_size its \<le> length its * (K + 20)"
  using assms by (induction its) (auto simp: item_bounds_def)

definition prog :: "nat \<Rightarrow> nat \<Rightarrow> nat \<Rightarrow> (byte list list \<times> chunker) res \<Rightarrow> bool" where
  "prog b l n r \<longleftrightarrow> (\<exists>ds' ch'. r = Inr (ds', ch') \<and> wt b ch' l \<le> n)"

definition add_prog :: "(byte list \<Rightarrow> hash) \<Rightarrow> boundary_check \<Rightarrow> nat \<Rightarrow> nat \<Rightarrow> byte \<Rightarrow> nat \<Rightarrow> bool" where
  "add_prog H w K b fl l \<longleftrightarrow> (\<forall>ds ch it part rows. ch_ok fl ch \<longrightarrow> item_ok fl l it \<longrightarrow> denote H fl (set ds) l [it] part \<longrightarrow>
     upper H fl (set ds) ch l rows \<longrightarrow> small_rows K (rows @ part) \<longrightarrow> wt b ch l + 1 < cap b l \<longrightarrow>
     prog b l (wt b ch l + 1) (addToLevel (rec_put H) w ds ch l (fst it) (snd it)))"

definition flush_prog :: "(byte list \<Rightarrow> hash) \<Rightarrow> boundary_check \<Rightarrow> nat \<Rightarrow> nat \<Rightarrow> byte \<Rightarrow> nat \<Rightarrow> bool" where
  "flush_prog H w K b fl l \<longleftrightarrow> (\<forall>ds ch its part up. ch_ok fl ch \<longrightarrow> l < nLevels ch \<longrightarrow> lv_ok fl l (aLevel ch ! l) its \<longrightarrow>
     its \<noteq> [] \<longrightarrow> items_size its < 2 ^ 31 \<longrightarrow> denote H fl (set ds) l its part \<longrightarrow>
     upper H fl (set ds) ch (Suc l) up \<longrightarrow> small_rows K (up @ part) \<longrightarrow> mul b l \<le> length its \<longrightarrow> wt b ch l < cap b l \<longrightarrow>
     prog b l (wt b ch l) (flushLevel (rec_put H) w ds ch l))"

lemma flush_prog_from_add:
  assumes up: "Suc l < PROLLY_CURSOR_MAX_DEPTH \<Longrightarrow> add_prog H w K b fl (Suc l)" and H: "\<forall>d. hash_ok (H d)"
    and l: "l < PROLLY_CURSOR_MAX_DEPTH" and b: "0 < b"
  shows "flush_prog H w K b fl l"
  unfolding flush_prog_def
proof (intro allI impI)
  fix ds ch its part up
  assume c: "ch_ok fl ch" "l < nLevels ch" and lv: "lv_ok fl l (aLevel ch ! l) its" and ne: "its \<noteq> []"
    and sz: "items_size its < 2 ^ 31" and dn: "denote H fl (set ds) l its part" and u: "upper H fl (set ds) ch (Suc l) up"
    and sm: "small_rows K (up @ part)" and m: "mul b l \<le> length its" and wc: "wt b ch l < cap b l"
  let ?ds = "ds @ [node_bytes (of_nat l) fl its]" and ?it = "up_item H fl l its"
  note st = flushLevel_step [OF H lv ne sz dn l, of w ds]
  have w: "wt b ch l = length its + mul b l * wt b ch (Suc l)" using wt_step [OF l] lv_ok_cnt [OF lv c(2)] by simp
  have pos: "0 < mul b l" using b by (simp add: mul_def)
  have "mul b l * (wt b ch (Suc l) + 1) < mul b l * cap b (Suc l)" using w m wc cap_step [OF l, of b] by simp
  then have wl: "wt b ch (Suc l) + 1 < cap b (Suc l)" using pos by (simp only: mult_less_cancel1)
  then have True: "Suc l < PROLLY_CURSOR_MAX_DEPTH" using l cap_top [of b] by (cases "Suc l = PROLLY_CURSOR_MAX_DEPTH") auto
  note i = up_item_ok [OF H lv ne sz dn l, of "set ?ds"]
  have u': "upper H fl (set ?ds) ch (Suc l) up" by (rule upper_mono [OF u]) auto
  have dn': "denote H fl (set ?ds) (Suc l) [?it] part" unfolding denote_single by (rule i(2)) auto
  have io: "item_ok fl (Suc l) ?it" by (rule i(1)) auto
  let ?a = "addToLevel (rec_put H) w ?ds ch (Suc l) (fst ?it) (snd ?it)"
  have "prog b (Suc l) (wt b ch (Suc l) + 1) ?a"
    by (rule up [OF True, unfolded add_prog_def, rule_format, OF c(1) io dn' u' sm wl])
  then obtain ds' ch' where a: "?a = Inr (ds', ch')" "wt b ch' (Suc l) \<le> wt b ch (Suc l) + 1" by (auto simp: prog_def)
  have "level_result H fl ?ds ch (Suc l) (up @ part) (fst ?it) ?a"
    using add_flush_ok [OF H True, where w = w and fl = fl, THEN conjunct1, unfolded add_ok_def, rule_format, OF c(1) io dn' u'] i(3)
    by (auto simp: subset_insertI)
  then have r: "ch_ok fl ch'" "l < nLevels ch'" using a(1) by (auto simp: level_result_def)
  have "cnt (reset_level ch' l) j = (if j = l then 0 else cnt ch' j)" for j
    using r by (auto simp: cnt_def reset_level_def ch_ok_def prollyNodeBuilderReset_def)
  then have "wt b (reset_level ch' l) l = mul b l * wt b ch' (Suc l)"
    using wt_step [OF l, of b "reset_level ch' l"] wt_cong [of "Suc l" "reset_level ch' l" ch' b] by simp
  also have "\<dots> \<le> mul b l * (wt b ch (Suc l) + 1)" using a(2) by (rule mult_le_mono2)
  also have "\<dots> \<le> wt b ch l" using w m by simp
  finally show "prog b l (wt b ch l) (flushLevel (rec_put H) w ds ch l)"
    using st a(1) True by (simp add: prog_def)
qed

lemma add_prog_from_flush:
  assumes fp: "flush_prog H w K b fl l" and l: "l < PROLLY_CURSOR_MAX_DEPTH" and b: "0 < b" "(b - 1) * (K + 20) < PROLLY_CHUNK_MIN"
  shows "add_prog H w K b fl l"
  unfolding add_prog_def
proof (intro allI impI)
  fix ds ch it part rows
  assume c0: "ch_ok fl ch" and io: "item_ok fl l it" and dn: "denote H fl (set ds) l [it] part"
    and u0: "upper H fl (set ds) ch l rows" and sm: "small_rows K (rows @ part)" and wc: "wt b ch l + 1 < cap b l"
  have smp: "small_rows K part" using sm by (simp add: small_rows_def)
  have ib: "item_bounds K l it" using items_bounds [OF dn smp] io by simp
  then have pos: "0 < item_size it \<or> rows = []" by (simp add: item_bounds_def)
  let ?r = "addToLevel (rec_put H) w ds ch l (fst it) (snd it)"
  have w2: "wt b ch2 l = wt b ch l + 1" if m: "add_mid H fl ds ch l it rows its part0 up ch2" for its part0 up ch2
  proof -
    have "cnt ch2 l = length its + 1" "cnt ch l = length its" "\<And>j. Suc l \<le> j \<Longrightarrow> cnt ch2 j = cnt ch j"
      using m lv_ok_cnt [of fl l ch2 "its @ [it]"] by (auto simp: add_mid_def)
    then show ?thesis using wt_step [OF l, of b ch] wt_step [OF l, of b ch2] wt_cong [of "Suc l" ch2 ch b] by simp
  qed
  show "prog b l (wt b ch l + 1) ?r"
  proof (rule addToLevel_step [OF l c0 io u0 pos, where w = w], goal_cases)
    case (1 its part0 up)
    have "small_rows K part0" using sm 1(5) by (simp add: small_rows_def)
    from items_size_bounds(1) [OF items_bounds [OF 1(4) this 1(3)]] 1(1,2) show ?thesis
      by (simp add: PROLLY_NODE_MAX_ITEMS_def PROLLY_CHUNK_MAX_def)
  next
    case (2 its part0 up ch2)
    note m = 2(1) [unfolded add_mid_def]
    let ?its = "its @ [it]"
    have dn2: "denote H fl (set ds) l ?its (part0 @ part)" using denote_append [OF _ dn] m by blast
    have sm2: "small_rows K (up @ part0 @ part)" "small_rows K (part0 @ part)"
      using sm m by (auto simp: small_rows_def)
    have ok: "\<forall>it \<in> set ?its. item_ok fl l it" using m by (simp add: lv_ok_def)
    note bd = items_size_bounds [OF items_bounds [OF dn2 sm2(2) ok]]
    have "mul b l \<le> length ?its"
    proof (cases l)
      case (Suc k)
      have "(b - 1) * (K + 20) < length ?its * (K + 20)" using b(2) 2(2) bd(2) Suc by simp
      then have "b - 1 < length ?its" by (simp only: mult_less_cancel2)
      then show ?thesis using Suc by (simp add: mul_def)
    qed (simp add: mul_def)
    then have "prog b l (wt b ch2 l) (flushLevel (rec_put H) w ds ch2 l)"
      using fp [unfolded flush_prog_def, rule_format, of ch2 ?its ds "part0 @ part" up] m dn2 sm2(1) w2 [OF 2(1)] wc by auto
    then show ?thesis unfolding 2(3) w2 [OF 2(1)] .
  next
    case (3 its part0 up ch2)
    then show ?thesis using w2 [OF 3(1)] by (simp add: prog_def)
  qed
qed

lemma add_flush_prog:
  assumes H: "\<forall>d. hash_ok (H d)" and l: "l < PROLLY_CURSOR_MAX_DEPTH" and b: "0 < b" "(b - 1) * (K + 20) < PROLLY_CHUNK_MIN"
  shows "add_prog H w K b fl l"
  using l
proof (induction "PROLLY_CURSOR_MAX_DEPTH - l" arbitrary: l rule: less_induct)
  case less
  have "add_prog H w K b fl (Suc l)" if "Suc l < PROLLY_CURSOR_MAX_DEPTH"
    using less.hyps [of "Suc l"] that by simp
  then have "flush_prog H w K b fl l" by (rule flush_prog_from_add [OF _ H less.prems b(1)])
  then show ?case using add_prog_from_flush less.prems b by blast
qed

definition fin_room :: "nat \<Rightarrow> nat \<Rightarrow> nat" where
  "fin_room b l = b ^ (PROLLY_CURSOR_MAX_DEPTH - 1 - max 1 l)"

lemma fin_room_step: "Suc l < PROLLY_CURSOR_MAX_DEPTH \<Longrightarrow> fin_room b l = mul b l * fin_room b (Suc l)"
proof -
  assume "Suc l < PROLLY_CURSOR_MAX_DEPTH"
  then have "PROLLY_CURSOR_MAX_DEPTH - 1 - max 1 l =
      (if l = 0 then 0 else 1) + (PROLLY_CURSOR_MAX_DEPTH - 1 - max 1 (Suc l))" by (auto simp: max_def)
  then show ?thesis unfolding fin_room_def mul_def by (simp add: power_add)
qed

lemma finish_prog:
  assumes H: "\<forall>d. hash_ok (H d)" and b: "0 < b" "(b - 1) * (K + 20) < PROLLY_CHUNK_MIN"
  shows "ch_ok fl ch \<Longrightarrow> upper H fl (set ds) ch l rows \<Longrightarrow> small_rows K rows \<Longrightarrow>
     (l < PROLLY_CURSOR_MAX_DEPTH \<longrightarrow> wt b ch l + fin_room b l \<le> cap b l) \<Longrightarrow>
     \<exists>x. finish_levels (rec_put H) w ds ch l = Inr x"
proof (induction "PROLLY_CURSOR_MAX_DEPTH - l" arbitrary: l ds ch rows rule: less_induct)
  case less
  note c = less.prems(1)
  show ?case
  proof (rule finish_levels_step [OF H(1) less.prems(1,2), where w = w], goal_cases)
    case 1
    then show ?thesis by simp
  next
    case 2
    have l: "l < PROLLY_CURSOR_MAX_DEPTH" using 2(1) c by (simp add: ch_ok_def)
    have "wt b ch (Suc l) + fin_room b (Suc l) \<le> cap b (Suc l)" if "Suc l < PROLLY_CURSOR_MAX_DEPTH"
    proof -
      have "mul b l * (wt b ch (Suc l) + fin_room b (Suc l)) \<le> mul b l * cap b (Suc l)"
        using less.prems(4) l wt_step [OF l, of b ch] 2(3) fin_room_step [OF that, of b] cap_step [OF l, of b]
        by (simp add: distrib_left)
      then show ?thesis using b(1) by (simp add: mul_def split: if_splits)
    qed
    then show ?thesis using less.hyps [of "Suc l" ch ds rows] c l 2 less.prems(3) by simp
  next
    case up: (3 its part up)
    let ?ds = "ds @ [node_bytes (of_nat l) fl its]" and ?it = "up_item H fl l its"
    let ?a = "addToLevel (rec_put H) w ?ds ch (Suc l) (fst ?it) (snd ?it)"
    have l: "l < PROLLY_CURSOR_MAX_DEPTH" using up(2) by simp
    have pos: "0 < mul b l" using b by (simp add: mul_def)
    have "length its + mul b l * (wt b ch (Suc l) + fin_room b (Suc l)) \<le> mul b l * cap b (Suc l)"
      using less.prems(4) l wt_step [OF l, of b ch] up(3) fin_room_step [OF up(2), of b] cap_step [OF l, of b]
      by (simp add: distrib_left)
    then have "mul b l * (wt b ch (Suc l) + fin_room b (Suc l)) < mul b l * cap b (Suc l)"
      using up(4) length_greater_0_conv [of its] by linarith
    then have room: "wt b ch (Suc l) + fin_room b (Suc l) < cap b (Suc l)" by simp
    have "0 < fin_room b (Suc l)" using b by (simp add: fin_room_def)
    then have wl: "wt b ch (Suc l) + 1 < cap b (Suc l)" using room by linarith
    have sm: "small_rows K (up @ part)" using less.prems(3) up(9) by simp
    have "prog b (Suc l) (wt b ch (Suc l) + 1) ?a"
      by (rule add_flush_prog [OF H up(2) b, unfolded add_prog_def, rule_format, OF c up(5,6,7) sm wl])
    then obtain ds' ch' where a: "?a = Inr (ds', ch')" "wt b ch' (Suc l) \<le> wt b ch (Suc l) + 1" by (auto simp: prog_def)
    have "level_result H fl ?ds ch (Suc l) (up @ part) (fst ?it) ?a"
      using add_flush_ok [OF H(1) up(2), where w = w and fl = fl, THEN conjunct1, unfolded add_ok_def, rule_format,
          OF c up(5,6,7)] up(8) by blast
    then have r': "ch_ok fl ch'" "upper H fl (set ds') ch' (Suc l) (up @ part)"
      using a(1) by (auto simp: level_result_def)
    have c2: "ch_ok fl (reset_level ch' l)" using r'(1) by (simp add: ch_ok_def reset_level_def)
    have u2: "upper H fl (set ds') (reset_level ch' l) (Suc l) rows"
      using r'(2) up(9) upper_cong [where ch = ch' and ch' = "reset_level ch' l" and l = "Suc l"] by (simp add: reset_level_def)
    have "wt b (reset_level ch' l) (Suc l) = wt b ch' (Suc l)"
      by (rule wt_cong) (auto simp: cnt_def reset_level_def)
    then have "wt b (reset_level ch' l) (Suc l) + fin_room b (Suc l) \<le> cap b (Suc l)" using a(2) room by linarith
    then show ?thesis
      using less.hyps [of "Suc l" "reset_level ch' l" ds' rows] c2 u2 less.prems(3) l up(10) a(1) by simp
  next
    case (4 its)
    then show ?thesis by simp
  qed
qed

lemma add_rows_prog:
  assumes H: "\<forall>d. hash_ok (H d)" and b: "0 < b" "(b - 1) * (K + 20) < PROLLY_CHUNK_MIN"
  shows "ch_ok fl ch \<Longrightarrow> upper H fl (set ds) ch 0 rows0 \<Longrightarrow> \<forall>r \<in> set rows. item_ok fl 0 r \<Longrightarrow>
     small_rows K (rows0 @ rows) \<Longrightarrow> wt b ch 0 + length rows < cap b 0 \<Longrightarrow>
     \<exists>ds' ch'. chunker_add_rows (rec_put H) w ds ch rows = Inr (ds', ch') \<and> ch_ok fl ch' \<and>
        upper H fl (set ds') ch' 0 (rows0 @ rows) \<and> wt b ch' 0 \<le> wt b ch 0 + length rows"
proof (induction rows arbitrary: ds ch rows0)
  case (Cons r rs)
  let ?a = "addToLevel (rec_put H) w ds ch 0 (fst r) (snd r)"
  have d: "0 < PROLLY_CURSOR_MAX_DEPTH" by (simp add: PROLLY_CURSOR_MAX_DEPTH_def)
  have io: "item_ok fl 0 r" and sm: "small_rows K (rows0 @ [r])" and wc: "wt b ch 0 + 1 < cap b 0"
    and pos: "0 < item_size r"
    using Cons.prems by (auto simp: small_rows_def)
  have dn: "denote H fl (set ds) 0 [r] [r]" by simp
  have "prog b 0 (wt b ch 0 + 1) ?a"
    by (rule add_flush_prog [OF H d b, unfolded add_prog_def, rule_format, OF Cons.prems(1) io dn Cons.prems(2) sm wc])
  then obtain ds1 ch1 where a: "?a = Inr (ds1, ch1)" "wt b ch1 0 \<le> wt b ch 0 + 1" by (auto simp: prog_def)
  have "level_result H fl ds ch 0 (rows0 @ [r]) (fst r) ?a"
    using add_flush_ok [OF H d, where w = w and fl = fl, THEN conjunct1, unfolded add_ok_def, rule_format,
        OF Cons.prems(1) io dn Cons.prems(2)] pos by simp
  then have r1: "ch_ok fl ch1" "upper H fl (set ds1) ch1 0 (rows0 @ [r])"
    using a(1) by (auto simp: level_result_def)
  then show ?case
    using Cons.IH [OF r1] Cons.prems(3,4,5) a by (fastforce simp: prollyChunkerAdd_def)
qed simp

lemma build_tree_succeeds:
  assumes H: "\<forall>d. hash_ok (H d)" and b: "0 < b" "(b - 1) * (K + 20) < PROLLY_CHUNK_MIN"
    and rows: "\<forall>r \<in> set rows. item_ok fl 0 r" "small_rows K rows" and n: "length rows + b ^ 18 \<le> b ^ 19"
  shows "\<exists>x. build_tree (rec_put H) w fl [] rows = Inr x"
proof -
  have cap0: "cap b 0 = b ^ 19" "fin_room b 0 = b ^ 18" by (simp_all add: cap_def fin_room_def PROLLY_CURSOR_MAX_DEPTH_def)
  have "wt b (prollyChunkerInit fl) l = 0" for l
  proof -
    have "cnt (prollyChunkerInit fl) j = 0" for j by (simp add: cnt_def prollyChunkerInit_def)
    then show ?thesis
      by (induction "PROLLY_CURSOR_MAX_DEPTH - l" arbitrary: l rule: less_induct) (subst wt.simps, simp)
  qed
  moreover have "0 < b ^ 18" using b by simp
  then have "length rows < b ^ 19" using n by linarith
  ultimately have w0: "wt b (prollyChunkerInit fl) 0 + length rows < cap b 0" "wt b (prollyChunkerInit fl) 0 = 0"
    using cap0 by simp_all
  have u0: "upper H fl (set []) (prollyChunkerInit fl) 0 []" by (simp add: ch_ok_init(2))
  have sm: "small_rows K ([] @ rows)" using rows(2) by simp
  obtain ds ch where a: "chunker_add_rows (rec_put H) w [] (prollyChunkerInit fl) rows = Inr (ds, ch)" "ch_ok fl ch"
    "upper H fl (set ds) ch 0 ([] @ rows)" "wt b ch 0 \<le> 0 + length rows"
    using add_rows_prog [OF H b ch_ok_init(1) u0 rows(1) sm w0(1), of w] unfolding w0(2) by blast
  have room: "0 < PROLLY_CURSOR_MAX_DEPTH \<longrightarrow> wt b ch 0 + fin_room b 0 \<le> cap b 0" using a(4) n cap0 by simp
  from finish_prog [OF H b a(2,3) sm room, of w] a(1) show ?thesis
    by (auto simp: build_tree_def prollyChunkerFinish_def)
qed

text \<open>
  C4. Building a tree.  The builder, given rows one after the other and finished, stores
  chunks and returns a root hash such that the tree below this root holds exactly the rows in their
  order, with every item of an inner node carrying the last key and the hash of the node below
  it, whatever the boundary test decides.  The only failure is \<open>SQLITE_FULL\<close>, and it is certain when a key has
  \<open>PROLLY_CHUNK_MAX\<close> bytes or more.
\<close>

theorem build_tree_correct:
  assumes "\<forall>d. hash_ok (H d) \<and> H d \<noteq> hash0" "\<forall>r \<in> set rows. item_ok fl 0 r" "\<forall>r \<in> set (tl rows). 0 < item_size r"
  shows "build_tree (rec_put H) w fl [] rows = Inl SQLITE_FULL \<or>
    (\<exists>ds ch. build_tree (rec_put H) w fl [] rows = Inr (ds, ch) \<and> tree H fl (set ds) (prollyChunkerGetRoot ch) rows \<and>
       (\<forall>r \<in> set rows. length (fst r) < PROLLY_CHUNK_MAX))"
  using build_tree_ok [OF assms, of w] by (auto simp: finish_result_def prollyChunkerGetRoot_def)

text \<open>
  C26. A key of \<open>PROLLY_CHUNK_MAX\<close> (16384) bytes or more cannot be stored: every build with such a row
  fails with \<open>SQLITE_FULL\<close>.  The row ends its node, the last key of the node ends the node above,
  and so on up to the last level.
\<close>

theorem big_key_is_full:
  assumes "\<forall>d. hash_ok (H d) \<and> H d \<noteq> hash0" "\<forall>r \<in> set rows. item_ok fl 0 r" "\<forall>r \<in> set (tl rows). 0 < item_size r"
    and "r \<in> set rows" "PROLLY_CHUNK_MAX \<le> length (fst r)"
  shows "build_tree (rec_put H) w fl [] rows = Inl SQLITE_FULL"
proof (cases "build_tree (rec_put H) w fl [] rows")
  case (Inl e)
  then show ?thesis using build_tree_ok(1) [OF assms(1-3), of w] by (simp add: finish_result_def)
next
  case (Inr x)
  then show ?thesis using build_tree_ok(2) [OF assms(1-3)] assms(4,5) by (meson not_less)
qed

lemma build_tree_correct_witness:
  "\<exists>ds ch. build_tree (rec_put ex_hash) (\<lambda>_ _ _. True) PROLLY_NODE_BLOBKEY [] [([1], [2, 2, 2]), ([3], [4, 4, 4])] = Inr (ds, ch) \<and>
     tree ex_hash PROLLY_NODE_BLOBKEY (set ds) (prollyChunkerGetRoot ch) [([1], [2, 2, 2]), ([3], [4, 4, 4])]"
proof -
  let ?r = "build_tree (rec_put ex_hash) (\<lambda>_ _ _. True) PROLLY_NODE_BLOBKEY [] [([1], [2, 2, 2]), ([3], [4, 4, 4])]"
  have "?r = Inl SQLITE_FULL \<or> (\<exists>ds ch. ?r = Inr (ds, ch) \<and>
      tree ex_hash PROLLY_NODE_BLOBKEY (set ds) (prollyChunkerGetRoot ch) [([1], [2, 2, 2]), ([3], [4, 4, 4])] \<and>
      (\<forall>r \<in> set [([1 :: byte], [2 :: byte, 2, 2]), ([3], [4, 4, 4])]. length (fst r) < PROLLY_CHUNK_MAX))"
    by (rule build_tree_correct [OF ex_hash_ok])
       (simp_all add: item_ok_def item_size_def PROLLY_NODE_BLOBKEY_def PROLLY_NODE_INTKEY_def)
  moreover have "?r \<noteq> Inl SQLITE_FULL"
    using build_tree_succeeds [of ex_hash 2 44 "[([1], [2, 2, 2]), ([3], [4, 4, 4])]" PROLLY_NODE_BLOBKEY "\<lambda>_ _ _. True"] ex_hash_ok
    by (auto simp: item_ok_def item_size_def small_rows_def PROLLY_NODE_BLOBKEY_def PROLLY_NODE_INTKEY_def PROLLY_CHUNK_MIN_def)
  ultimately show ?thesis by blast
qed

lemma big_key_is_full_witness:
  "build_tree (rec_put ex_hash) (\<lambda>_ _ _. False) PROLLY_NODE_BLOBKEY [] [(replicate 16384 7, [])] = Inl SQLITE_FULL"
  by (rule big_key_is_full [OF ex_hash_ok, where r = "(replicate 16384 7, [])"])
     (simp_all add: item_ok_def item_size_def PROLLY_NODE_BLOBKEY_def PROLLY_NODE_INTKEY_def PROLLY_CHUNK_MAX_def)

text \<open>
  C25. Building does not run out of levels.  When the keys have at most \<open>K\<close> bytes, where
  \<open>(b - 1) * (K + 20) < 512\<close>, rows of at least four bytes, at most \<open>b ^ 19 - b ^ 18\<close> of them, always
  make a tree, whatever the boundary test decides: for 8-byte integer keys, \<open>b = 19\<close> and the bound is
  \<open>18 * 19 ^ 18\<close> rows.
\<close>

theorem build_tree_no_full:
  assumes "\<forall>d. hash_ok (H d)" "0 < b" "(b - 1) * (K + 20) < PROLLY_CHUNK_MIN"
    and "\<forall>r \<in> set rows. item_ok fl 0 r" "small_rows K rows" "length rows + b ^ 18 \<le> b ^ 19"
  shows "\<exists>ds ch. build_tree (rec_put H) w fl [] rows = Inr (ds, ch)"
  using build_tree_succeeds [OF assms, of w] by (metis surj_pair)

lemma build_tree_no_full_witness:
  "\<exists>ds ch. build_tree (rec_put ex_hash) (\<lambda>_ _ _. True) PROLLY_NODE_BLOBKEY [] [([1, 2], [3, 4]), ([5, 6], [7, 8])] = Inr (ds, ch)"
  by (rule build_tree_no_full [where b = 2 and K = 236])
     (simp_all add: ex_hash_ok item_ok_def item_size_def small_rows_def PROLLY_NODE_BLOBKEY_def PROLLY_NODE_INTKEY_def PROLLY_CHUNK_MIN_def)

text \<open>
  C6. The root hash that the builder returns identifies the table: when two builds, of any rows,
  with any boundary tests and in any two stores, return the same root hash and no two of the chunks they
  stored have the same hash, the rows were the same and in the same order.  This is what allows
  databases to be compared, merged and synchronised by the hashes of their tables.
\<close>

theorem build_root_determines_rows:
  assumes "\<forall>d. hash_ok (H d) \<and> H d \<noteq> hash0" "inj_on H (set ds \<union> set ds')"
    and "\<forall>r \<in> set rows. item_ok fl 0 r" "\<forall>r \<in> set (tl rows). 0 < item_size r"
    and "\<forall>r \<in> set rows'. item_ok fl 0 r" "\<forall>r \<in> set (tl rows'). 0 < item_size r"
    and "build_tree (rec_put H) w fl [] rows = Inr (ds, ch)" "build_tree (rec_put H) w' fl [] rows' = Inr (ds', ch')"
    and "prollyChunkerGetRoot ch = prollyChunkerGetRoot ch'"
  shows "rows = rows'"
proof -
  have "tree H fl (set ds) (prollyChunkerGetRoot ch) rows"
    using build_tree_ok(1) [OF assms(1,3,4), of w] assms(7) by (auto simp: finish_result_def prollyChunkerGetRoot_def)
  moreover have "tree H fl (set ds') (prollyChunkerGetRoot ch) rows'"
    using build_tree_ok(1) [OF assms(1,5,6), of w'] assms(8,9) by (auto simp: finish_result_def prollyChunkerGetRoot_def)
  ultimately show ?thesis by (rule tree_rows_unique [OF assms(2) Un_upper1 Un_upper2])
qed

lemma build_root_determines_rows_witness:
  "\<exists>ds ch. build_tree (rec_put ex_hash) (\<lambda>_ _ _. False) PROLLY_NODE_BLOBKEY [] [([1], [2])] = Inr (ds, ch) \<and>
     (\<forall>rows. (\<forall>r \<in> set rows. item_ok PROLLY_NODE_BLOBKEY 0 r \<and> 0 < item_size r) \<longrightarrow>
        (\<exists>ch'. build_tree (rec_put ex_hash) (\<lambda>_ _ _. True) PROLLY_NODE_BLOBKEY [] rows = Inr (ds, ch') \<and>
           prollyChunkerGetRoot ch' = prollyChunkerGetRoot ch) \<longrightarrow> rows = [([1], [2])])"
proof -
  have "map_sum id fst (build_tree (rec_put ex_hash) (\<lambda>_ _ _. False) PROLLY_NODE_BLOBKEY [] [([1], [2])]) = Inr [ex_node]"
    by code_simp
  then obtain ch where ch: "build_tree (rec_put ex_hash) (\<lambda>_ _ _. False) PROLLY_NODE_BLOBKEY [] [([1], [2])] = Inr ([ex_node], ch)"
    by (auto simp: map_sum_def split: sum.splits)
  have "rows = [([1], [2])]"
    if r: "\<forall>r \<in> set rows. item_ok PROLLY_NODE_BLOBKEY 0 r \<and> 0 < item_size r"
      and b: "build_tree (rec_put ex_hash) (\<lambda>_ _ _. True) PROLLY_NODE_BLOBKEY [] rows = Inr ([ex_node], ch')"
      and g: "prollyChunkerGetRoot ch' = prollyChunkerGetRoot ch" for rows ch'
  proof (rule build_root_determines_rows [OF ex_hash_ok _ _ _ _ _ b ch g])
    show "\<forall>r \<in> set (tl rows). 0 < item_size r" using r by (metis list.set_sel(2) tl_Nil)
  qed (use r in \<open>simp_all add: item_ok_def PROLLY_NODE_BLOBKEY_def PROLLY_NODE_INTKEY_def\<close>)
  then show ?thesis using ch by blast
qed

end
