(* ===== verification/TreeStore.thy ===== *)
theory TreeStore
  imports ChunkStoreInv TreeBuild
begin

text \<open>
  The tree builder on any store that keeps the contract of chunk stores, and on the chunk store.
\<close>

section \<open>Building into a store\<close>

text \<open>A store of chunks that holds what the builder writes.\<close>

locale tree_store = chunk_repo inv chunks U hash put get
  for inv :: "'s \<Rightarrow> bool" and chunks :: "'s \<Rightarrow> byte list set" and U :: "byte list set"
    and hash :: "byte list \<Rightarrow> hash" and put :: "'s \<Rightarrow> byte list \<Rightarrow> ('s \<times> hash) res"
    and get :: "'s \<Rightarrow> hash \<Rightarrow> 's \<times> byte list res"
begin

text \<open>A run on the recorder is the run on the store, when what it puts is in \<open>U\<close>.\<close>

definition follows :: "byte list list \<Rightarrow> (byte list list \<times> 'a) res \<Rightarrow> 's \<Rightarrow> ('s \<times> 'a) res \<Rightarrow> bool" where
  "follows ds r st r' \<longleftrightarrow> (\<forall>ds' a. r = Inr (ds', a) \<longrightarrow> (\<exists>x. ds' = ds @ x \<and>
     (set x \<subseteq> U \<longrightarrow> inv st \<longrightarrow> (\<exists>st'. r' = Inr (st', a) \<and> inv st' \<and> chunks st' = chunks st \<union> set x))))"

lemma follows_Inr [simp]: "follows ds (Inr (ds, a)) st (Inr (st, a))"
  by (simp add: follows_def)

lemma follows_Inl [simp]: "follows ds (Inl e) st r'"
  by (simp add: follows_def)

lemma follows_put: "follows ds (rec_put hash ds d) st (put st d)"
  using put_ok [of st d] by (auto simp: follows_def rec_put_def)

lemma follows_bind:
  assumes "follows ds r st r'" and "\<And>ds' a st'. r = Inr (ds', a) \<Longrightarrow> follows ds' (f (ds', a)) st' (f' (st', a))"
  shows "follows ds (bindR r f) st (bindR r' f')"
  unfolding follows_def
proof (intro allI impI)
  fix ds2 b assume "bindR r f = Inr (ds2, b)"
  then obtain ds1 a where r: "r = Inr (ds1, a)" "f (ds1, a) = Inr (ds2, b)" by (auto simp: res_simps)
  obtain x where x: "ds1 = ds @ x"
    "set x \<subseteq> U \<Longrightarrow> inv st \<Longrightarrow> \<exists>st'. r' = Inr (st', a) \<and> inv st' \<and> chunks st' = chunks st \<union> set x"
    using assms(1) r(1) by (auto simp: follows_def)
  obtain y where y: "ds2 = ds1 @ y"
    using assms(2) [OF r(1), of undefined] r(2) by (auto simp: follows_def)
  have "\<exists>st2. bindR r' f' = Inr (st2, b) \<and> inv st2 \<and> chunks st2 = chunks st \<union> set (x @ y)"
    if s: "set x \<subseteq> U" "set y \<subseteq> U" and i: "inv st"
  proof -
    obtain st1 where st1: "r' = Inr (st1, a)" "inv st1" "chunks st1 = chunks st \<union> set x"
      using x(2) [OF s(1) i] by blast
    obtain st2 where "f' (st1, a) = Inr (st2, b)" "inv st2" "chunks st2 = chunks st1 \<union> set y"
      using assms(2) [OF r(1), of st1, unfolded follows_def, rule_format, OF r(2)] y s st1(2) by auto
    then show ?thesis using st1 by auto
  qed
  then show "\<exists>x. ds2 = ds @ x \<and> (set x \<subseteq> U \<longrightarrow> inv st \<longrightarrow>
      (\<exists>st'. bindR r' f' = Inr (st', b) \<and> inv st' \<and> chunks st' = chunks st \<union> set x))"
    using x(1) y by (intro exI [of _ "x @ y"]) auto
qed

lemma follows_pure: "(\<And>a. r = Inr a \<Longrightarrow> follows ds (f a) st (f' a)) \<Longrightarrow> follows ds (bindR r f) st (bindR r f')"
  by (cases r) simp_all

lemma add_flush_follows:
  shows "follows ds (addToLevel (rec_put hash) w ds ch l k v) st (addToLevel put w st ch l k v)"
    "follows ds (flushLevel (rec_put hash) w ds ch l) st (flushLevel put w st ch l)"
proof -
  have "(\<forall>ds st ch k v. follows ds (addToLevel (rec_put hash) w ds ch l k v) st (addToLevel put w st ch l k v)) \<and>
      (\<forall>ds st ch. follows ds (flushLevel (rec_put hash) w ds ch l) st (flushLevel put w st ch l))" for l
  proof (induction "PROLLY_CURSOR_MAX_DEPTH - l" arbitrary: l rule: less_induct)
    case less
    have f: "follows ds (flushLevel (rec_put hash) w ds ch l) st (flushLevel put w st ch l)" for ds st ch
    proof -
      have "follows ds (addToLevel (rec_put hash) w ds ch (l + 1) k v) st (addToLevel put w st ch (l + 1) k v)"
        if "\<not> l + 1 \<ge> PROLLY_CURSOR_MAX_DEPTH" for ds st ch k v using less.hyps [of "Suc l"] that by simp
      then show ?thesis
        unfolding flushLevel.simps [where lev = l] Let_def
        by (intro follows_pure follows_bind follows_put) (auto intro!: follows_bind)
    qed
    have "follows ds (addToLevel (rec_put hash) w ds ch l k v) st (addToLevel put w st ch l k v)" for ds st ch k v
      unfolding addToLevel.simps [where lev = l] Let_def using f by (auto intro!: follows_pure)
    then show ?case using f by blast
  qed
  then show "follows ds (addToLevel (rec_put hash) w ds ch l k v) st (addToLevel put w st ch l k v)"
    "follows ds (flushLevel (rec_put hash) w ds ch l) st (flushLevel put w st ch l)" by blast+
qed

lemma finish_levels_follows:
  "follows ds (finish_levels (rec_put hash) w ds ch l) st (finish_levels put w st ch l)"
proof (induction "PROLLY_CURSOR_MAX_DEPTH - l" arbitrary: l ds ch st rule: less_induct)
  case less
  have n: "follows ds (finish_levels (rec_put hash) w ds ch (Suc l)) st (finish_levels put w st ch (Suc l))"
    if "l < PROLLY_CURSOR_MAX_DEPTH" for ds ch st using less.hyps [of "Suc l"] that by simp
  have p: "follows ds (finishPropagateLevel (rec_put hash) w ds ch l) st (finishPropagateLevel put w st ch l)" for ds ch st
    unfolding finishPropagateLevel_def finishFlushLevel_def bindR_assoc
    by (intro follows_pure follows_bind follows_put) (auto intro!: follows_bind add_flush_follows)
  have q: "follows ds (finishFlushLevel (rec_put hash) ds ch l) st (finishFlushLevel put st ch l)" for ds ch st
    unfolding finishFlushLevel_def by (intro follows_pure follows_put)
  show ?case
    unfolding finish_levels.simps [where lev = l]
    by (auto intro!: follows_pure follows_bind n p q simp: res_simps)
qed

lemma build_follows:
  "follows ds (build_tree (rec_put hash) w fl ds rows) st (build_tree put w fl st rows)"
proof -
  have "follows ds (chunker_add_rows (rec_put hash) w ds ch rows) st (chunker_add_rows put w st ch rows)" for ch
    by (induction rows arbitrary: ds ch st) (auto intro!: follows_bind add_flush_follows simp: prollyChunkerAdd_def)
  moreover have "follows ds (prollyChunkerFinish (rec_put hash) w ds ch) st (prollyChunkerFinish put w st ch)" for ds ch st
    unfolding prollyChunkerFinish_def by (simp add: finish_levels_follows)
  ultimately show ?thesis unfolding build_tree_def by (auto intro!: follows_bind)
qed

end

section \<open>The chunk store\<close>

interpretation treestore: tree_store "\<lambda>cs. store_inv H U cs f" "chunks f" U H "chunkStorePut H" "\<lambda>cs. chunkStoreGet cs f" for H U f
  by unfold_locales

text \<open>
  C5. Building into the chunk store.  When a run of the builder stores the chunks \<open>ds\<close>, the same
  run on a chunk store succeeds with the same root, the store then holds exactly these chunks more,
  and in the store the root denotes the rows; the chunks of all other trees are still there.
\<close>

theorem build_tree_on_store:
  assumes "store_inv H U cs f" "\<forall>d. hash_ok (H d) \<and> H d \<noteq> hash0" "\<forall>r \<in> set rows. item_ok fl 0 r"
    "\<forall>r \<in> set (tl rows). 0 < item_size r" "build_tree (rec_put H) w fl [] rows = Inr (ds, ch)" "set ds \<subseteq> U"
  shows "\<exists>cs'. build_tree (chunkStorePut H) w fl cs rows = Inr (cs', ch) \<and> store_inv H U cs' f \<and>
     chunks f cs' = chunks f cs \<union> set ds \<and> tree H fl (chunks f cs') (prollyChunkerGetRoot ch) rows"
proof -
  have t: "tree H fl (set ds) (prollyChunkerGetRoot ch) rows"
    using build_tree_ok(1) [OF assms(2-4), of w] assms(5) by (simp add: finish_result_def prollyChunkerGetRoot_def)
  obtain cs' where "build_tree (chunkStorePut H) w fl cs rows = Inr (cs', ch)" "store_inv H U cs' f"
    "chunks f cs' = chunks f cs \<union> set ds"
    using treestore.build_follows [where ds = "[]" and w = w and fl = fl and rows = rows and st = cs and H = H and U = U and f = f,
        unfolded treestore.follows_def] assms(1,5,6) by auto
  then show ?thesis using tree_mono [OF t] by auto
qed

lemma ex_run:
  "map_sum id fst (build_tree (rec_put ex_hash) (\<lambda>_ _ _. False) PROLLY_NODE_BLOBKEY [] [([1], [2])]) = Inr [ex_node]"
  by code_simp

lemma build_tree_on_store_witness:
  "\<exists>cs' ch. build_tree (chunkStorePut ex_hash) (\<lambda>_ _ _. False) PROLLY_NODE_BLOBKEY chunkStoreOpenMemory [([1], [2])] = Inr (cs', ch) \<and>
     tree ex_hash PROLLY_NODE_BLOBKEY (chunks [] cs') (prollyChunkerGetRoot ch) [([1], [2])]"
proof -
  have "ex_node \<noteq> [] \<and> length ex_node < 2147483648"
    by (simp add: ex_node_def node_bytes_def offsets_def)
  then have inv: "store_inv ex_hash {ex_node} chunkStoreOpenMemory []"
    using mem_inv_open(1) [of ex_hash "{ex_node}"] ex_hash_ok by (simp add: universe_def mem_inv_def)
  obtain ch where r: "build_tree (rec_put ex_hash) (\<lambda>_ _ _. False) PROLLY_NODE_BLOBKEY [] [([1], [2])] = Inr ([ex_node], ch)"
    using ex_run by (auto simp: map_sum_def split: sum.splits)
  show ?thesis
    using build_tree_on_store [OF inv ex_hash_ok _ _ r]
    by (auto simp: item_ok_def item_size_def PROLLY_NODE_BLOBKEY_def PROLLY_NODE_INTKEY_def)
qed

end
