(* ===== verification/Cache.thy ===== *)
theory Cache
  imports Node
begin

text \<open>
  The cache of parsed nodes (\<open>prolly_cache.c\<close>, \<open>prolly_cache.h\<close>), with its pointers: entries are
  objects of a heap, linked into the list of least recent use, between the two list ends that are
  part of the cache, and into the chain of their bucket.  Reading or writing through a pointer that is null or
  freed is \<open>OUT_OF_BOUNDS\<close>, and so is an assertion that does not hold.
\<close>

section \<open>State\<close>

datatype ref = Null | LruHead | LruTail | Ent nat

record cache_entry =
  ceHash :: hash
  ceData :: "byte list"
  ceNode :: node
  ceRef :: int
  pLruNext :: ref
  pLruPrev :: ref
  pHashNext :: ref

text \<open>\<open>nextEnt\<close> is the allocator's: the entries allocated so far are \<open>Ent 0\<close>, \<open>Ent 1\<close>, up to it.\<close>

record cache =
  nCapacity :: int
  cUsed :: int
  nBucket :: nat
  aBucket :: "ref list"
  cHeap :: "ref \<rightharpoonup> cache_entry"
  nextEnt :: nat

definition node0 :: node where
  "node0 = \<lparr>pData = [], level = 0, nItems = 0, flags = 0, aKeyOff = 0, aValOff = 0, pKeyData = 0, pValData = 0\<rparr>"

definition entry0 :: cache_entry where
  "entry0 = \<lparr>ceHash = hash0, ceData = [], ceNode = node0, ceRef = 0, pLruNext = Null, pLruPrev = Null, pHashNext = Null\<rparr>"

definition deref :: "cache \<Rightarrow> ref \<Rightarrow> cache_entry res" where
  "deref ca p = (case cHeap ca p of None \<Rightarrow> Inl OUT_OF_BOUNDS | Some e \<Rightarrow> Inr e)"

definition modify :: "cache \<Rightarrow> ref \<Rightarrow> (cache_entry \<Rightarrow> cache_entry) \<Rightarrow> cache res" where
  "modify ca p f = bindR (deref ca p) (\<lambda>e. Inr (ca\<lparr>cHeap := (cHeap ca)(p \<mapsto> f e)\<rparr>))"

text \<open>The walks follow at most as many pointers as there are objects.\<close>

definition walk_fuel :: "cache \<Rightarrow> nat" where
  "walk_fuel ca = Suc (nextEnt ca)"

section \<open>Lists and chains\<close>

definition cacheHashBucket :: "cache \<Rightarrow> hash \<Rightarrow> nat res" where
  "cacheHashBucket ca h = bindR (get_u32 h 0) (\<lambda>v. Inr (unat v mod nBucket ca))"

definition lruRemove :: "cache \<Rightarrow> ref \<Rightarrow> cache res" where
  "lruRemove ca p =
     bindR (deref ca p) (\<lambda>e. bindR (modify ca (pLruPrev e) (pLruNext_update (\<lambda>_. pLruNext e))) (\<lambda>ca.
     bindR (deref ca p) (\<lambda>e. bindR (modify ca (pLruNext e) (pLruPrev_update (\<lambda>_. pLruPrev e))) (\<lambda>ca.
     bindR (modify ca p (pLruNext_update (\<lambda>_. Null))) (\<lambda>ca.
     modify ca p (pLruPrev_update (\<lambda>_. Null)))))))"

definition lruInsertHead :: "cache \<Rightarrow> ref \<Rightarrow> cache res" where
  "lruInsertHead ca p =
     bindR (deref ca LruHead) (\<lambda>hd.
     bindR (modify ca p (pLruNext_update (\<lambda>_. pLruNext hd))) (\<lambda>ca.
     bindR (modify ca p (pLruPrev_update (\<lambda>_. LruHead))) (\<lambda>ca.
     bindR (deref ca LruHead) (\<lambda>hd.
     bindR (modify ca (pLruNext hd) (pLruPrev_update (\<lambda>_. p))) (\<lambda>ca.
     modify ca LruHead (pLruNext_update (\<lambda>_. p)))))))"

text \<open>A pointer to a pointer of a chain: a cell of \<open>aBucket\<close> or the field \<open>pHashNext\<close> of an entry.\<close>

datatype chain_ptr = Bucket nat | HashNext ref

definition load_ptr :: "cache \<Rightarrow> chain_ptr \<Rightarrow> ref res" where
  "load_ptr ca pp =
     (case pp of
        Bucket i \<Rightarrow> if i < length (aBucket ca) then Inr (aBucket ca ! i) else Inl OUT_OF_BOUNDS
      | HashNext p \<Rightarrow> bindR (deref ca p) (\<lambda>e. Inr (pHashNext e)))"

definition store_ptr :: "cache \<Rightarrow> chain_ptr \<Rightarrow> ref \<Rightarrow> cache res" where
  "store_ptr ca pp q =
     (case pp of
        Bucket i \<Rightarrow> if i < length (aBucket ca) then Inr (ca\<lparr>aBucket := (aBucket ca)[i := q]\<rparr>) else Inl OUT_OF_BOUNDS
      | HashNext p \<Rightarrow> modify ca p (pHashNext_update (\<lambda>_. q)))"

fun hash_unlink :: "nat \<Rightarrow> cache \<Rightarrow> ref \<Rightarrow> chain_ptr \<Rightarrow> cache res" where
  "hash_unlink 0 ca pEntry pp = Inl NO_RETURN"
| "hash_unlink (Suc n) ca pEntry pp =
     bindR (load_ptr ca pp) (\<lambda>q.
     if q = Null then Inr ca
     else if q = pEntry then
       bindR (deref ca pEntry) (\<lambda>e. bindR (store_ptr ca pp (pHashNext e)) (\<lambda>ca.
       modify ca pEntry (pHashNext_update (\<lambda>_. Null))))
     else hash_unlink n ca pEntry (HashNext q))"

definition hashRemove :: "cache \<Rightarrow> ref \<Rightarrow> cache res" where
  "hashRemove ca p =
     bindR (deref ca p) (\<lambda>e. bindR (cacheHashBucket ca (ceHash e)) (\<lambda>iBucket.
     hash_unlink (walk_fuel ca) ca p (Bucket iBucket)))"

definition cacheEntryFree :: "cache \<Rightarrow> ref \<Rightarrow> cache res" where
  "cacheEntryFree ca p =
     (if p \<noteq> Null then bindR (deref ca p) (\<lambda>_. Inr (ca\<lparr>cHeap := (cHeap ca)(p := None)\<rparr>)) else Inr ca)"

section \<open>Operations\<close>

definition prollyCacheInit :: "int \<Rightarrow> cache" where
  "prollyCacheInit capacity =
     (let n = capacity * 2; n = (if n < 16 then 16 else n) in
      \<lparr>nCapacity = capacity, cUsed = 0, nBucket = nat n, aBucket = replicate (nat n) Null,
       cHeap = [LruHead \<mapsto> entry0\<lparr>pLruNext := LruTail\<rparr>, LruTail \<mapsto> entry0\<lparr>pLruPrev := LruHead\<rparr>], nextEnt = 0\<rparr>)"

fun cache_find :: "nat \<Rightarrow> cache \<Rightarrow> hash \<Rightarrow> ref \<Rightarrow> ref res" where
  "cache_find 0 ca h p = Inl NO_RETURN"
| "cache_find (Suc n) ca h p =
     (if p = Null then Inr Null
      else bindR (deref ca p) (\<lambda>e.
        if memcmp (ceHash e) h PROLLY_HASH_SIZE = 0 then Inr p else cache_find n ca h (pHashNext e)))"

definition prollyCacheGet :: "cache \<Rightarrow> hash \<Rightarrow> (cache \<times> ref) res" where
  "prollyCacheGet ca h =
     (if aBucket ca = [] then Inr (ca, Null)
      else
        bindR (cacheHashBucket ca h) (\<lambda>iBucket.
        bindR (load_ptr ca (Bucket iBucket)) (\<lambda>p.
        bindR (cache_find (walk_fuel ca) ca h p) (\<lambda>p.
        if p = Null then Inr (ca, Null)
        else
          bindR (modify ca p (ceRef_update (\<lambda>n. n + 1))) (\<lambda>ca.
          bindR (lruRemove ca p) (\<lambda>ca.
          bindR (lruInsertHead ca p) (\<lambda>ca. Inr (ca, p))))))))"

fun evict_scan :: "nat \<Rightarrow> cache \<Rightarrow> ref \<Rightarrow> ref res" where
  "evict_scan 0 ca p = Inl NO_RETURN"
| "evict_scan (Suc n) ca p =
     (if p \<noteq> LruHead then
        bindR (deref ca p) (\<lambda>e. if ceRef e = 0 then Inr p else evict_scan n ca (pLruPrev e))
      else Inr Null)"

definition cacheEvictOne :: "cache \<Rightarrow> (cache \<times> bool) res" where
  "cacheEvictOne ca =
     bindR (deref ca LruTail) (\<lambda>tl.
     bindR (evict_scan (walk_fuel ca) ca (pLruPrev tl)) (\<lambda>p.
     if p \<noteq> Null then
       bindR (lruRemove ca p) (\<lambda>ca.
       bindR (hashRemove ca p) (\<lambda>ca.
       bindR (cacheEntryFree ca p) (\<lambda>ca. Inr (ca\<lparr>cUsed := cUsed ca - 1\<rparr>, True))))
     else Inr (ca, False)))"

fun evict_loop :: "nat \<Rightarrow> cache \<Rightarrow> cache res" where
  "evict_loop 0 ca = Inl NO_RETURN"
| "evict_loop (Suc n) ca =
     (if cUsed ca \<ge> nCapacity ca then
        bindR (cacheEvictOne ca) (\<lambda>(ca, evicted). if \<not> evicted then Inr ca else evict_loop n ca)
      else Inr ca)"

text \<open>The result is the entry, or \<open>*pRc\<close> when it is null.\<close>

definition prollyCachePut :: "cache \<Rightarrow> hash \<Rightarrow> byte list \<Rightarrow> (cache \<times> ref res) res" where
  "prollyCachePut ca h d =
     bindR (prollyCacheGet ca h) (\<lambda>(ca, p).
     if p \<noteq> Null then Inr (ca, Inr p)
     else
       bindR (evict_loop (walk_fuel ca) ca) (\<lambda>ca.
       let p = Ent (nextEnt ca); ca' = ca\<lparr>nextEnt := nextEnt ca + 1\<rparr> in
       if length d = 0 then Inr (ca', Inl SQLITE_NOMEM)
       else
         case prollyNodeParse d of
           Inl rc \<Rightarrow> Inr (ca', Inl rc)
         | Inr nd \<Rightarrow>
             let ca = ca'\<lparr>cHeap := (cHeap ca')(p \<mapsto> entry0\<lparr>ceHash := h, ceData := d, ceNode := nd, ceRef := 1\<rparr>)\<rparr> in
             bindR (cacheHashBucket ca h) (\<lambda>iBucket.
             bindR (load_ptr ca (Bucket iBucket)) (\<lambda>q.
             bindR (modify ca p (pHashNext_update (\<lambda>_. q))) (\<lambda>ca.
             bindR (store_ptr ca (Bucket iBucket) p) (\<lambda>ca.
             bindR (lruInsertHead ca p) (\<lambda>ca.
             Inr (ca\<lparr>cUsed := cUsed ca + 1\<rparr>, Inr p))))))))"

definition prollyCacheRelease :: "cache \<Rightarrow> ref \<Rightarrow> cache res" where
  "prollyCacheRelease ca p =
     bindR (deref ca p) (\<lambda>e.
     bindR (guardR (ceRef e > 0) OUT_OF_BOUNDS) (\<lambda>_.
     modify ca p (ceRef_update (\<lambda>n. n - 1))))"

fun free_entries :: "nat \<Rightarrow> cache \<Rightarrow> ref \<Rightarrow> cache res" where
  "free_entries 0 ca p = Inl NO_RETURN"
| "free_entries (Suc n) ca p =
     (if p \<noteq> LruTail then
        bindR (deref ca p) (\<lambda>e.
        bindR (guardR (ceRef e = 0) OUT_OF_BOUNDS) (\<lambda>_.
        bindR (cacheEntryFree ca p) (\<lambda>ca. free_entries n ca (pLruNext e))))
      else Inr ca)"

definition prollyCacheFree :: "cache \<Rightarrow> cache res" where
  "prollyCacheFree ca =
     (if aBucket ca = [] then Inr ca
      else
        bindR (deref ca LruHead) (\<lambda>hd.
        bindR (free_entries (walk_fuel ca) ca (pLruNext hd)) (\<lambda>ca.
        Inr \<lparr>nCapacity = 0, cUsed = 0, nBucket = 0, aBucket = [],
             cHeap = (cHeap ca)(LruHead \<mapsto> entry0, LruTail \<mapsto> entry0), nextEnt = nextEnt ca\<rparr>)))"

end
