(* ===== verification/CacheLinks.thy ===== *)
theory CacheLinks
  imports Cache
begin

text \<open>
  The pointer structure of the node cache: the doubly linked list of entries and the bucket chains, what they
  hold, and that linking and unlinking entries changes exactly that.
\<close>

section \<open>Doubly linked lists\<close>

definition ent :: "cache \<Rightarrow> ref \<Rightarrow> cache_entry" where
  "ent ca p = the (cHeap ca p)"

lemma deref_ok [simp]: "p \<in> dom (cHeap ca) \<Longrightarrow> deref ca p = Inr (ent ca p)"
  by (auto simp: deref_def ent_def)

lemma modify_ok [simp]: "p \<in> dom (cHeap ca) \<Longrightarrow> modify ca p f = Inr (ca\<lparr>cHeap := (cHeap ca)(p \<mapsto> f (ent ca p))\<rparr>)"
  by (auto simp: modify_def)

lemma ent_upd [simp]: "ent (ca\<lparr>cHeap := (cHeap ca)(p \<mapsto> e)\<rparr>) q = (if q = p then e else ent ca q)"
  by (simp add: ent_def)

fun linked :: "(ref \<Rightarrow> ref) \<Rightarrow> (ref \<Rightarrow> ref) \<Rightarrow> ref list \<Rightarrow> bool" where
  "linked nx pv (x # y # zs) \<longleftrightarrow> nx x = y \<and> pv y = x \<and> linked nx pv (y # zs)"
| "linked nx pv _ \<longleftrightarrow> True"

lemma linked_append: "linked nx pv (xs @ x # ys) \<longleftrightarrow> linked nx pv (xs @ [x]) \<and> linked nx pv (x # ys)"
proof (induction xs)
  case (Cons a xs)
  then show ?case by (cases xs) auto
qed simp

lemma linked_cong:
  "(\<And>x. x \<in> set (butlast zs) \<Longrightarrow> nx x = nx' x) \<Longrightarrow> (\<And>x. x \<in> set (tl zs) \<Longrightarrow> pv x = pv' x) \<Longrightarrow>
     linked nx pv zs = linked nx' pv' zs"
proof (induction nx pv zs rule: linked.induct)
  case (1 nx pv x y zs)
  have "linked nx pv (y # zs) = linked nx' pv' (y # zs)"
    by (rule "1.IH") (use "1.prems" in auto)
  then show ?case using "1.prems" by simp
qed simp_all

text \<open>What the list operations leave alone.\<close>

definition core_of :: "cache_entry \<Rightarrow> hash \<times> byte list \<times> node \<times> int \<times> ref" where
  "core_of e = (ceHash e, ceData e, ceNode e, ceRef e, pHashNext e)"

definition lru_frame :: "cache \<Rightarrow> cache \<Rightarrow> bool" where
  "lru_frame ca ca' \<longleftrightarrow> dom (cHeap ca') = dom (cHeap ca) \<and> (\<forall>q. core_of (ent ca' q) = core_of (ent ca q)) \<and>
     nCapacity ca' = nCapacity ca \<and> cUsed ca' = cUsed ca \<and> nBucket ca' = nBucket ca \<and> aBucket ca' = aBucket ca \<and>
     nextEnt ca' = nextEnt ca"

lemma lru_frame_trans: "lru_frame a b \<Longrightarrow> lru_frame b c \<Longrightarrow> lru_frame a c"
  by (simp add: lru_frame_def)

definition lru_list :: "cache \<Rightarrow> ref list \<Rightarrow> bool" where
  "lru_list ca xs \<longleftrightarrow> distinct (LruHead # xs @ [LruTail]) \<and> set (LruHead # xs @ [LruTail]) \<subseteq> dom (cHeap ca) \<and>
     linked (\<lambda>p. pLruNext (ent ca p)) (\<lambda>p. pLruPrev (ent ca p)) (LruHead # xs @ [LruTail])"

lemma lruRemove_ok:
  assumes l: "lru_list ca (xs @ p # ys)"
  shows "\<exists>ca'. lruRemove ca p = Inr ca' \<and> lru_list ca' (xs @ ys) \<and> lru_frame ca ca'"
proof -
  obtain as x where as: "LruHead # xs = as @ [x]" by (metis append_butlast_last_id list.discI)
  obtain y bs where bs: "ys @ [LruTail] = y # bs" by (cases ys) auto
  have z: "LruHead # (xs @ p # ys) @ [LruTail] = as @ [x] @ p # y # bs"
    using as bs by (metis append_Cons append_assoc)
  have z': "LruHead # (xs @ ys) @ [LruTail] = as @ [x] @ y # bs"
    using as bs by (metis append_Cons append_assoc)
  have d: "distinct (as @ [x] @ p # y # bs)" and s: "set (as @ [x] @ p # y # bs) \<subseteq> dom (cHeap ca)"
    and lk: "linked (\<lambda>p. pLruNext (ent ca p)) (\<lambda>p. pLruPrev (ent ca p)) (as @ [x] @ p # y # bs)"
    using l unfolding lru_list_def z by blast+
  have ne: "x \<noteq> p" "y \<noteq> p" "x \<noteq> y" using d by auto
  have dm: "x \<in> dom (cHeap ca)" "p \<in> dom (cHeap ca)" "y \<in> dom (cHeap ca)" using s by auto
  have lx: "linked (\<lambda>p. pLruNext (ent ca p)) (\<lambda>p. pLruPrev (ent ca p)) (as @ [x])"
    "pLruNext (ent ca p) = y" "pLruPrev (ent ca p) = x"
    "linked (\<lambda>p. pLruNext (ent ca p)) (\<lambda>p. pLruPrev (ent ca p)) (y # bs)"
    using lk linked_append [of _ _ as x "p # y # bs"] by auto
  define h where "h = (cHeap ca)(x \<mapsto> (ent ca x)\<lparr>pLruNext := y\<rparr>, y \<mapsto> (ent ca y)\<lparr>pLruPrev := x\<rparr>,
     p \<mapsto> (ent ca p)\<lparr>pLruNext := Null, pLruPrev := Null\<rparr>)"
  have r: "lruRemove ca p = Inr (ca\<lparr>cHeap := h\<rparr>)"
    using dm ne lx(2,3) by (simp add: lruRemove_def h_def ent_def domIff fun_upd_twist)
  have e: "ent (ca\<lparr>cHeap := h\<rparr>) q = (if q = p then (ent ca p)\<lparr>pLruNext := Null, pLruPrev := Null\<rparr>
      else if q = y then (ent ca y)\<lparr>pLruPrev := x\<rparr> else if q = x then (ent ca x)\<lparr>pLruNext := y\<rparr> else ent ca q)" for q
    by (simp add: ent_def h_def)
  have dh: "dom h = dom (cHeap ca)" using dm by (auto simp: h_def)
  let ?nx = "\<lambda>q. pLruNext (ent (ca\<lparr>cHeap := h\<rparr>) q)" and ?pv = "\<lambda>q. pLruPrev (ent (ca\<lparr>cHeap := h\<rparr>) q)"
  have a: "linked ?nx ?pv (as @ [x])"
    using lx(1) d ne by (subst linked_cong [where nx' = "\<lambda>p. pLruNext (ent ca p)" and pv' = "\<lambda>p. pLruPrev (ent ca p)"])
      (cases as; auto simp: e)+
  have b: "linked ?nx ?pv (y # bs)"
    using lx(4) d ne by (subst linked_cong [where nx' = "\<lambda>p. pLruNext (ent ca p)" and pv' = "\<lambda>p. pLruPrev (ent ca p)"])
      (auto simp: e dest: in_set_butlastD split: if_splits)
  have "linked ?nx ?pv (as @ [x] @ y # bs)"
    using a b ne linked_append [of ?nx ?pv as x "y # bs"] by (simp add: e)
  then have "lru_list (ca\<lparr>cHeap := h\<rparr>) (xs @ ys)"
    unfolding lru_list_def z' using d s dh by auto
  moreover have "lru_frame ca (ca\<lparr>cHeap := h\<rparr>)" using dh by (simp add: lru_frame_def e core_of_def)
  ultimately show ?thesis using r by blast
qed

lemma lruInsertHead_ok:
  assumes l: "lru_list ca xs" and p: "p \<in> dom (cHeap ca)" "p \<notin> set xs" "p \<noteq> LruHead" "p \<noteq> LruTail"
  shows "\<exists>ca'. lruInsertHead ca p = Inr ca' \<and> lru_list ca' (p # xs) \<and> lru_frame ca ca'"
proof -
  obtain y bs where bs: "xs @ [LruTail] = y # bs" by (cases xs) auto
  have z: "LruHead # xs @ [LruTail] = LruHead # y # bs" "LruHead # (p # xs) @ [LruTail] = LruHead # p # y # bs"
    using bs by simp_all
  have d: "distinct (LruHead # y # bs)" and s: "set (LruHead # y # bs) \<subseteq> dom (cHeap ca)"
    and lk: "linked (\<lambda>p. pLruNext (ent ca p)) (\<lambda>p. pLruPrev (ent ca p)) (LruHead # y # bs)"
    using l unfolding lru_list_def z by blast+
  have pn: "p \<notin> set (LruHead # y # bs)" using p bs by (metis set_ConsD set_append Un_iff list.set(1) empty_iff list.set_intros(1) rotate1.simps(2) set_rotate1)
  have dm: "LruHead \<in> dom (cHeap ca)" "y \<in> dom (cHeap ca)" using s by auto
  define h where "h = (cHeap ca)(p \<mapsto> (ent ca p)\<lparr>pLruNext := y, pLruPrev := LruHead\<rparr>, y \<mapsto> (ent ca y)\<lparr>pLruPrev := p\<rparr>,
     LruHead \<mapsto> (ent ca LruHead)\<lparr>pLruNext := p\<rparr>)"
  have ne: "p \<noteq> y" "LruHead \<noteq> y" "p \<noteq> LruHead" using pn d by auto
  have r: "lruInsertHead ca p = Inr (ca\<lparr>cHeap := h\<rparr>)"
    using dm p(1) ne lk by (auto simp: lruInsertHead_def h_def ent_def domIff)
  have e: "ent (ca\<lparr>cHeap := h\<rparr>) q = (if q = LruHead then (ent ca LruHead)\<lparr>pLruNext := p\<rparr>
      else if q = y then (ent ca y)\<lparr>pLruPrev := p\<rparr> else if q = p then (ent ca p)\<lparr>pLruNext := y, pLruPrev := LruHead\<rparr> else ent ca q)" for q
    by (simp add: ent_def h_def)
  have dh: "dom h = dom (cHeap ca)" using dm p(1) by (auto simp: h_def)
  let ?nx = "\<lambda>q. pLruNext (ent (ca\<lparr>cHeap := h\<rparr>) q)" and ?pv = "\<lambda>q. pLruPrev (ent (ca\<lparr>cHeap := h\<rparr>) q)"
  have b: "linked ?nx ?pv (y # bs)"
    using lk d pn by (subst linked_cong [where nx' = "\<lambda>p. pLruNext (ent ca p)" and pv' = "\<lambda>p. pLruPrev (ent ca p)"])
      (auto simp: e dest: in_set_butlastD split: if_splits)
  have "linked ?nx ?pv (LruHead # p # y # bs)" using b ne by (simp add: e)
  then have "lru_list (ca\<lparr>cHeap := h\<rparr>) (p # xs)"
    unfolding lru_list_def z using d s dh pn p(1) by auto
  moreover have "lru_frame ca (ca\<lparr>cHeap := h\<rparr>)" using dh by (simp add: lru_frame_def e core_of_def)
  ultimately show ?thesis using r by blast
qed

section \<open>Hash chains\<close>

primrec path :: "(ref \<Rightarrow> ref) \<Rightarrow> ref \<Rightarrow> ref list \<Rightarrow> ref \<Rightarrow> bool" where
  "path hn p [] q \<longleftrightarrow> p = q"
| "path hn p (r # rs) q \<longleftrightarrow> p = r \<and> r \<noteq> Null \<and> path hn (hn r) rs q"

lemma path_append: "path hn p (rs @ rs') q \<longleftrightarrow> (\<exists>m. path hn p rs m \<and> path hn m rs' q)"
  by (induction rs arbitrary: p) auto

lemma path_cong: "(\<And>r. r \<in> set rs \<Longrightarrow> hn r = hn' r) \<Longrightarrow> path hn p rs q = path hn' p rs q"
  by (induction rs arbitrary: p) auto

definition bucket_of :: "cache \<Rightarrow> hash \<Rightarrow> nat" where
  "bucket_of ca h = unat (projr (get_u32 h 0)) mod nBucket ca"

lemma cacheHashBucket_ok: "hash_ok h \<Longrightarrow> cacheHashBucket ca h = Inr (bucket_of ca h)"
  by (simp add: cacheHashBucket_def bucket_of_def get_u32_def hash_ok_def PROLLY_HASH_SIZE_def)

definition hash_chains :: "cache \<Rightarrow> ref list list \<Rightarrow> bool" where
  "hash_chains ca css \<longleftrightarrow> length css = nBucket ca \<and> length (aBucket ca) = nBucket ca \<and> 0 < nBucket ca \<and>
     (\<forall>i < nBucket ca. path (\<lambda>q. pHashNext (ent ca q)) (aBucket ca ! i) (css ! i) Null \<and> distinct (css ! i) \<and>
        (\<forall>p \<in> set (css ! i). p \<in> dom (cHeap ca) \<and> hash_ok (ceHash (ent ca p)) \<and> bucket_of ca (ceHash (ent ca p)) = i))"

lemma hash_chainsD:
  assumes "hash_chains ca css" "i < nBucket ca"
  shows "path (\<lambda>q. pHashNext (ent ca q)) (aBucket ca ! i) (css ! i) Null" "distinct (css ! i)"
    "\<forall>p \<in> set (css ! i). p \<in> dom (cHeap ca) \<and> hash_ok (ceHash (ent ca p)) \<and> bucket_of ca (ceHash (ent ca p)) = i"
    "i < length (aBucket ca)" "i < length css"
  using assms unfolding hash_chains_def by auto

definition hash_frame :: "cache \<Rightarrow> cache \<Rightarrow> bool" where
  "hash_frame ca ca' \<longleftrightarrow> dom (cHeap ca') = dom (cHeap ca) \<and>
     (\<forall>q. (ent ca' q)\<lparr>pHashNext := Null\<rparr> = (ent ca q)\<lparr>pHashNext := Null\<rparr>) \<and>
     nCapacity ca' = nCapacity ca \<and> cUsed ca' = cUsed ca \<and> nBucket ca' = nBucket ca \<and> nextEnt ca' = nextEnt ca"

definition ptr_after :: "nat \<Rightarrow> ref list \<Rightarrow> chain_ptr" where
  "ptr_after i ts = (if ts = [] then Bucket i else HashNext (last ts))"

lemma load_ptr_after:
  assumes c: "hash_chains ca css" "i < nBucket ca" "css ! i = ts @ us"
  shows "load_ptr ca (ptr_after i ts) = Inr (if us = [] then Null else hd us)"
proof -
  have h: "path (\<lambda>q. pHashNext (ent ca q)) (aBucket ca ! i) (ts @ us) Null" "i < length (aBucket ca)"
    "\<forall>p \<in> set (ts @ us). p \<in> dom (cHeap ca)"
    using hash_chainsD [OF c(1,2)] c(3) by simp_all
  show ?thesis
  proof (cases ts rule: rev_cases)
    case Nil
    then show ?thesis using h by (cases us) (auto simp: ptr_after_def load_ptr_def)
  next
    case (snoc vs u)
    then show ?thesis using h by (cases us) (auto simp: ptr_after_def load_ptr_def path_append)
  qed
qed

text \<open>One chain is replaced, the others are as before.\<close>

lemma hash_chains_replace:
  assumes c: "hash_chains ca css" "i < nBucket ca"
    and f: "nBucket ca' = nBucket ca" "length (aBucket ca') = nBucket ca"
    and new: "path (\<lambda>q. pHashNext (ent ca' q)) (aBucket ca' ! i) cs' Null" "distinct cs'"
      "\<And>q. q \<in> set cs' \<Longrightarrow> q \<in> dom (cHeap ca') \<and> hash_ok (ceHash (ent ca' q)) \<and> bucket_of ca (ceHash (ent ca' q)) = i"
    and others: "\<And>j. j < nBucket ca \<Longrightarrow> j \<noteq> i \<Longrightarrow> aBucket ca' ! j = aBucket ca ! j"
      "\<And>j q. j < nBucket ca \<Longrightarrow> j \<noteq> i \<Longrightarrow> q \<in> set (css ! j) \<Longrightarrow>
         q \<in> dom (cHeap ca') \<and> ceHash (ent ca' q) = ceHash (ent ca q) \<and> pHashNext (ent ca' q) = pHashNext (ent ca q)"
  shows "hash_chains ca' (css[i := cs'])"
proof -
  have l: "length css = nBucket ca" "0 < nBucket ca" using c(1) by (simp_all add: hash_chains_def)
  have b: "bucket_of ca' h = bucket_of ca h" for h using f by (simp add: bucket_of_def)
  have "path (\<lambda>q. pHashNext (ent ca' q)) (aBucket ca' ! j) (css[i := cs'] ! j) Null \<and> distinct (css[i := cs'] ! j) \<and>
        (\<forall>p \<in> set (css[i := cs'] ! j). p \<in> dom (cHeap ca') \<and> hash_ok (ceHash (ent ca' p)) \<and> bucket_of ca' (ceHash (ent ca' p)) = j)"
    if j: "j < nBucket ca" for j
  proof (cases "j = i")
    case True
    then show ?thesis using new l j b by simp
  next
    case False
    have "path (\<lambda>q. pHashNext (ent ca' q)) (aBucket ca ! j) (css ! j) Null"
      by (subst path_cong [where hn' = "\<lambda>q. pHashNext (ent ca q)"]) (use others(2) [OF j False] hash_chainsD(1) [OF c(1) j] in auto)
    then show ?thesis using hash_chainsD [OF c(1) j] others [OF j False] False b by simp
  qed
  then show ?thesis using f l unfolding hash_chains_def by simp
qed

text \<open>Taking an entry out of its chain.\<close>

lemma unlink_ok:
  assumes c: "hash_chains ca css" "i < nBucket ca" "css ! i = us @ p # bs"
  shows "\<exists>ca'. bindR (deref ca p) (\<lambda>e. bindR (store_ptr ca (ptr_after i us) (pHashNext e)) (\<lambda>ca.
       modify ca p (pHashNext_update (\<lambda>_. Null)))) = Inr ca' \<and> hash_chains ca' (css[i := us @ bs]) \<and> hash_frame ca ca'"
proof -
  let ?hn = "\<lambda>q. pHashNext (ent ca q)"
  have h0: "length css = nBucket ca" "length (aBucket ca) = nBucket ca" "0 < nBucket ca"
    using c(1) by (simp_all add: hash_chains_def)
  have h: "path ?hn (aBucket ca ! i) (us @ p # bs) Null" "i < length (aBucket ca)" "length css = nBucket ca"
    "length (aBucket ca) = nBucket ca" "0 < nBucket ca"
    "\<forall>q \<in> set (us @ p # bs). q \<in> dom (cHeap ca)" "distinct (us @ p # bs)"
    using h0 hash_chainsD [OF c(1,2)] c(3) by simp_all
  have other: "set (css ! j) \<inter> set (us @ p # bs) = {}" if "j < nBucket ca" "j \<noteq> i" for j
    using hash_chainsD(3) [OF c(1) that(1)] hash_chainsD(3) [OF c(1,2)] c(3) that(2) by fastforce
  have dp: "p \<in> dom (cHeap ca)" using h(6) by simp
  show ?thesis
  proof (cases us rule: rev_cases)
    case Nil
    let ?c = "ca\<lparr>aBucket := (aBucket ca)[i := ?hn p], cHeap := (cHeap ca)(p \<mapsto> (ent ca p)\<lparr>pHashNext := Null\<rparr>)\<rparr>"
    have e: "ent ?c q = (if q = p then (ent ca p)\<lparr>pHashNext := Null\<rparr> else ent ca q)" for q by (simp add: ent_def)
    have r: "bindR (deref ca p) (\<lambda>e. bindR (store_ptr ca (ptr_after i us) (pHashNext e)) (\<lambda>ca.
       modify ca p (pHashNext_update (\<lambda>_. Null)))) = Inr ?c"
      using Nil dp h(2) by (auto simp: ptr_after_def store_ptr_def modify_def deref_def ent_def)
    have f: "hash_frame ca ?c" using dp by (auto simp: hash_frame_def e)
    have "path (\<lambda>q. pHashNext (ent ?c q)) (?hn p) bs Null"
      using h(1,7) Nil by (subst path_cong [where hn' = ?hn]) (auto simp: e)
    then have "hash_chains ?c (css[i := bs])"
      by (intro hash_chains_replace [OF c(1,2)])
        (use h hash_chainsD(3) [OF c(1,2)] hash_chainsD(3) [OF c(1)] other Nil c(3) in \<open>auto simp: e\<close>)
    then show ?thesis using r f Nil by auto
  next
    case (snoc vs u)
    let ?c = "ca\<lparr>cHeap := (cHeap ca)(u \<mapsto> (ent ca u)\<lparr>pHashNext := ?hn p\<rparr>, p \<mapsto> (ent ca p)\<lparr>pHashNext := Null\<rparr>)\<rparr>"
    have ne: "u \<noteq> p" "u \<in> dom (cHeap ca)" using h(6,7) snoc by auto
    have e: "ent ?c q = (if q = p then (ent ca p)\<lparr>pHashNext := Null\<rparr> else if q = u then (ent ca u)\<lparr>pHashNext := ?hn p\<rparr> else ent ca q)" for q
      by (simp add: ent_def)
    have r: "bindR (deref ca p) (\<lambda>e. bindR (store_ptr ca (ptr_after i us) (pHashNext e)) (\<lambda>ca.
       modify ca p (pHashNext_update (\<lambda>_. Null)))) = Inr ?c"
      using snoc dp ne by (simp add: ptr_after_def store_ptr_def ent_def domIff)
    have f: "hash_frame ca ?c" using dp ne by (auto simp: hash_frame_def e)
    have pu: "path ?hn (aBucket ca ! i) vs u" "path ?hn (?hn p) bs Null" "u \<noteq> Null"
      using h(1) snoc by (auto simp: path_append)
    have "path (\<lambda>q. pHashNext (ent ?c q)) (aBucket ca ! i) vs u"
      using pu(1) h(7) snoc by (subst path_cong [where hn' = ?hn]) (auto simp: e)
    moreover have "path (\<lambda>q. pHashNext (ent ?c q)) (?hn p) bs Null"
      using pu(2) h(7) snoc by (subst path_cong [where hn' = ?hn]) (auto simp: e)
    ultimately have "path (\<lambda>q. pHashNext (ent ?c q)) (aBucket ca ! i) (us @ bs) Null"
      using pu(3) ne snoc by (auto simp: path_append e)
    then have "hash_chains ?c (css[i := us @ bs])"
      by (intro hash_chains_replace [OF c(1,2)])
        (use h hash_chainsD(3) [OF c(1,2)] hash_chainsD(3) [OF c(1)] other snoc c(3) in \<open>auto simp: e\<close>)
    then show ?thesis using r f by auto
  qed
qed

lemma hash_unlink_ok:
  assumes "hash_chains ca css" "i < nBucket ca"
  shows "css ! i = ts @ us @ p # bs \<Longrightarrow> length us < n \<Longrightarrow>
    \<exists>ca'. hash_unlink n ca p (ptr_after i ts) = Inr ca' \<and> hash_chains ca' (css[i := ts @ us @ bs]) \<and> hash_frame ca ca'"
proof (induction us arbitrary: ts n)
  case Nil
  obtain m where n: "n = Suc m" using Nil by (cases n) auto
  have "path (\<lambda>q. pHashNext (ent ca q)) (aBucket ca ! i) (ts @ p # bs) Null"
    using hash_chainsD(1) [OF assms] Nil by simp
  then have "p \<noteq> Null" by (auto simp: path_append)
  then show ?case
    using unlink_ok [OF assms, of ts p bs] Nil load_ptr_after [OF assms, of ts "p # bs"] n by simp
next
  case (Cons u us)
  obtain m where n: "n = Suc m" using Cons by (cases n) auto
  have d: "path (\<lambda>q. pHashNext (ent ca q)) (aBucket ca ! i) (ts @ u # us @ p # bs) Null" "distinct (ts @ u # us @ p # bs)"
    using hash_chainsD(1,2) [OF assms] Cons.prems by simp_all
  then have "u \<noteq> Null" "u \<noteq> p" by (auto simp: path_append)
  then have "hash_unlink n ca p (ptr_after i ts) = hash_unlink m ca p (ptr_after i (ts @ [u]))"
    using load_ptr_after [OF assms, of ts "u # us @ p # bs"] Cons.prems n by (simp add: ptr_after_def)
  then show ?case using Cons.IH [of "ts @ [u]" m] Cons.prems n by simp
qed

text \<open>Looking an entry up.\<close>

lemma cache_find_ok:
  assumes h: "hash_ok h"
  shows "path (\<lambda>q. pHashNext (ent ca q)) p ps Null \<Longrightarrow> \<forall>q \<in> set ps. q \<in> dom (cHeap ca) \<and> hash_ok (ceHash (ent ca q)) \<Longrightarrow>
     length ps < n \<Longrightarrow> cache_find n ca h p = Inr (case find (\<lambda>q. ceHash (ent ca q) = h) ps of None \<Rightarrow> Null | Some q \<Rightarrow> q)"
proof (induction ps arbitrary: p n)
  case Nil
  then obtain m where "n = Suc m" by (cases n) auto
  then show ?case using Nil by simp
next
  case (Cons q ps)
  obtain m where n: "n = Suc m" using Cons by (cases n) auto
  have "memcmp (ceHash (ent ca q)) h PROLLY_HASH_SIZE = 0 \<longleftrightarrow> ceHash (ent ca q) = h"
    using prollyHashCompare_0 [of "ceHash (ent ca q)" h] Cons.prems(2) h by (simp add: prollyHashCompare_def)
  then show ?case using Cons.IH [of "pHashNext (ent ca q)" m] Cons.prems n by (auto simp del: deref_ok simp: deref_ok)
qed

end
