(* ===== verification/CacheInv.thy ===== *)
theory CacheInv
  imports CacheLinks "HOL-Library.Multiset"
begin

text \<open>
  The invariant of the node cache: list and chains hold the same entries, an entry is the parsed node of
  a chunk with its hash, and its reference count is the number of references held.  Lookups, releases
  and evictions keep it, and what a holder of a reference sees.
\<close>

section \<open>The invariant of the cache\<close>

text \<open>
  \<open>R\<close> is the multiset of the references that callers hold.  \<open>U\<close> is a set of chunks on which the hash
  has no collision.
\<close>

definition hashing :: "(byte list \<Rightarrow> hash) \<Rightarrow> byte list set \<Rightarrow> bool" where
  "hashing H U \<longleftrightarrow> inj_on H U \<and> (\<forall>d \<in> U. d \<noteq> [] \<and> hash_ok (H d))"

definition cache_shape :: "cache \<Rightarrow> ref list \<Rightarrow> ref list list \<Rightarrow> bool" where
  "cache_shape ca xs css \<longleftrightarrow> lru_list ca xs \<and> dom (cHeap ca) = {LruHead, LruTail} \<union> set xs \<and>
     set xs \<subseteq> Ent ` {..<nextEnt ca} \<and> hash_chains ca css \<and> (\<Union>ps \<in> set css. set ps) = set xs \<and> cUsed ca = int (length xs)"

definition entry_ok :: "(byte list \<Rightarrow> hash) \<Rightarrow> byte list set \<Rightarrow> cache_entry \<Rightarrow> bool" where
  "entry_ok H U e \<longleftrightarrow> ceData e \<in> U \<and> ceHash e = H (ceData e) \<and> prollyNodeParse (ceData e) = Inr (ceNode e)"

definition cache_entries :: "(byte list \<Rightarrow> hash) \<Rightarrow> byte list set \<Rightarrow> cache \<Rightarrow> ref set \<Rightarrow> ref multiset \<Rightarrow> bool" where
  "cache_entries H U ca X R \<longleftrightarrow> inj_on (\<lambda>p. ceHash (ent ca p)) X \<and> set_mset R \<subseteq> X \<and>
     (\<forall>p \<in> X. entry_ok H U (ent ca p) \<and> ceRef (ent ca p) = int (count R p))"

definition cache_inv :: "(byte list \<Rightarrow> hash) \<Rightarrow> byte list set \<Rightarrow> cache \<Rightarrow> ref multiset \<Rightarrow> bool" where
  "cache_inv H U ca R \<longleftrightarrow> hashing H U \<and> (\<exists>xs css. cache_shape ca xs css \<and> cache_entries H U ca (set xs) R)"

text \<open>What a holder of a reference sees.\<close>

definition view :: "cache \<Rightarrow> ref \<Rightarrow> hash \<times> byte list \<times> node" where
  "view ca p = (ceHash (ent ca p), ceData (ent ca p), ceNode (ent ca p))"

lemma lru_frame_view:
  assumes "lru_frame ca ca'"
  shows "view ca' p = view ca p" "ceRef (ent ca' p) = ceRef (ent ca p)" "pHashNext (ent ca' p) = pHashNext (ent ca p)"
    "ceHash (ent ca' p) = ceHash (ent ca p)" "dom (cHeap ca') = dom (cHeap ca)"
  using assms by (auto simp: lru_frame_def core_of_def view_def)

lemma hash_frame_view:
  assumes "hash_frame ca ca'"
  shows "view ca' p = view ca p" "ceRef (ent ca' p) = ceRef (ent ca p)" "pLruNext (ent ca' p) = pLruNext (ent ca p)"
    "pLruPrev (ent ca' p) = pLruPrev (ent ca p)" "dom (cHeap ca') = dom (cHeap ca)"
proof -
  have e: "(ent ca' p)\<lparr>pHashNext := Null\<rparr> = (ent ca p)\<lparr>pHashNext := Null\<rparr>" using assms by (simp add: hash_frame_def)
  show "view ca' p = view ca p" "ceRef (ent ca' p) = ceRef (ent ca p)" "pLruNext (ent ca' p) = pLruNext (ent ca p)"
    "pLruPrev (ent ca' p) = pLruPrev (ent ca p)"
    using arg_cong [OF e, of ceHash] arg_cong [OF e, of ceData] arg_cong [OF e, of ceNode] arg_cong [OF e, of ceRef]
      arg_cong [OF e, of pLruNext] arg_cong [OF e, of pLruPrev] by (simp_all add: view_def)
  show "dom (cHeap ca') = dom (cHeap ca)" using assms by (simp add: hash_frame_def)
qed

lemma lru_list_cong:
  assumes "\<And>q. pLruNext (ent ca' q) = pLruNext (ent ca q)" "\<And>q. pLruPrev (ent ca' q) = pLruPrev (ent ca q)"
    "set (LruHead # xs @ [LruTail]) \<subseteq> dom (cHeap ca')" "lru_list ca xs"
  shows "lru_list ca' xs"
  using assms(3,4) unfolding lru_list_def assms(1,2) by blast

lemma hash_chains_cong:
  assumes "\<And>q. ceHash (ent ca' q) = ceHash (ent ca q)" "\<And>q. pHashNext (ent ca' q) = pHashNext (ent ca q)"
    "\<And>q. q \<in> dom (cHeap ca) \<Longrightarrow> q \<in> dom (cHeap ca')" "aBucket ca' = aBucket ca" "nBucket ca' = nBucket ca"
    "hash_chains ca css"
  shows "hash_chains ca' css"
  using assms(3,6) unfolding hash_chains_def bucket_of_def assms(1,2,4,5) by blast

lemma shape_bounds:
  assumes "cache_shape ca xs css"
  shows "length xs < walk_fuel ca" "i < nBucket ca \<Longrightarrow> length (css ! i) < walk_fuel ca"
    "p \<in> set xs \<Longrightarrow> p \<noteq> Null \<and> p \<noteq> LruHead \<and> p \<noteq> LruTail"
    "p \<in> set xs \<Longrightarrow> hash_ok (ceHash (ent ca p)) \<and> bucket_of ca (ceHash (ent ca p)) < nBucket ca \<and>
       p \<in> set (css ! bucket_of ca (ceHash (ent ca p)))"
proof -
  have fin: "card (Ent ` {..<nextEnt ca}) = nextEnt ca" by (subst card_image) (auto simp: inj_on_def)
  have bound: "length ps \<le> nextEnt ca" if "distinct ps" "set ps \<subseteq> set xs" for ps
  proof -
    have "set ps \<subseteq> Ent ` {..<nextEnt ca}" using that assms by (auto simp: cache_shape_def)
    then have "card (set ps) \<le> nextEnt ca" using card_mono [of "Ent ` {..<nextEnt ca}" "set ps"] fin by simp
    then show ?thesis using that(1) by (simp add: distinct_card)
  qed
  have "distinct xs" using assms by (simp add: cache_shape_def lru_list_def)
  then show "length xs < walk_fuel ca" using bound [of xs] by (simp add: walk_fuel_def)
  have c: "hash_chains ca css" "(\<Union>ps \<in> set css. set ps) = set xs" using assms by (simp_all add: cache_shape_def)
  show "length (css ! i) < walk_fuel ca" if i: "i < nBucket ca"
  proof -
    have "set (css ! i) \<subseteq> set xs" using hash_chainsD(5) [OF c(1) i] c(2) by auto
    then show ?thesis using bound [OF hash_chainsD(2) [OF c(1) i]] by (simp add: walk_fuel_def)
  qed
  show "p \<in> set xs \<Longrightarrow> p \<noteq> Null \<and> p \<noteq> LruHead \<and> p \<noteq> LruTail" using assms by (auto simp: cache_shape_def)
  show "hash_ok (ceHash (ent ca p)) \<and> bucket_of ca (ceHash (ent ca p)) < nBucket ca \<and>
       p \<in> set (css ! bucket_of ca (ceHash (ent ca p)))" if p: "p \<in> set xs"
  proof -
    have l: "length css = nBucket ca" using c(1) by (simp add: hash_chains_def)
    obtain ps where "ps \<in> set css" "p \<in> set ps" using p c(2) by blast
    then obtain i where "i < nBucket ca" "p \<in> set (css ! i)" using l by (metis in_set_conv_nth)
    then show ?thesis using hash_chainsD(3) [OF c(1)] by metis
  qed
qed

lemma cache_find_shape:
  assumes s: "cache_shape ca xs css" and h: "hash_ok h"
  shows "cache_find (walk_fuel ca) ca h (aBucket ca ! bucket_of ca h) = Inr r \<Longrightarrow>
      r \<noteq> Null \<Longrightarrow> r \<in> set xs \<and> ceHash (ent ca r) = h"
    "cache_find (walk_fuel ca) ca h (aBucket ca ! bucket_of ca h) = Inr Null \<Longrightarrow> \<forall>p \<in> set xs. ceHash (ent ca p) \<noteq> h"
    "\<exists>r. cache_find (walk_fuel ca) ca h (aBucket ca ! bucket_of ca h) = Inr r"
    "load_ptr ca (Bucket (bucket_of ca h)) = Inr (aBucket ca ! bucket_of ca h)" "aBucket ca \<noteq> []"
proof -
  let ?i = "bucket_of ca h"
  have c: "hash_chains ca css" "(\<Union>ps \<in> set css. set ps) = set xs" "0 < nBucket ca" "length (aBucket ca) = nBucket ca"
    using s unfolding cache_shape_def hash_chains_def by blast+
  have i: "?i < nBucket ca" using c(3) by (simp add: bucket_of_def)
  show "load_ptr ca (Bucket ?i) = Inr (aBucket ca ! ?i)" "aBucket ca \<noteq> []" using i c(3,4) by (auto simp: load_ptr_def)
  note d = hash_chainsD [OF c(1) i]
  have f: "cache_find (walk_fuel ca) ca h (aBucket ca ! ?i) =
      Inr (case find (\<lambda>q. ceHash (ent ca q) = h) (css ! ?i) of None \<Rightarrow> Null | Some q \<Rightarrow> q)"
    by (rule cache_find_ok [OF h d(1) _ shape_bounds(2) [OF s i]]) (use d(3) in auto)
  have sub: "set (css ! ?i) \<subseteq> set xs" using d(5) c(2) by auto
  show "\<exists>r. cache_find (walk_fuel ca) ca h (aBucket ca ! ?i) = Inr r" using f by blast
  show "r \<in> set xs \<and> ceHash (ent ca r) = h" if "cache_find (walk_fuel ca) ca h (aBucket ca ! ?i) = Inr r" "r \<noteq> Null"
    using that f sub by (auto simp: find_Some_iff split: option.splits)
  show "\<forall>p \<in> set xs. ceHash (ent ca p) \<noteq> h" if "cache_find (walk_fuel ca) ca h (aBucket ca ! ?i) = Inr Null"
  proof
    fix p assume p: "p \<in> set xs"
    have "Null \<notin> set xs" using shape_bounds(3) [OF s] by blast
    moreover have "q \<in> set (css ! ?i)" if "find (\<lambda>q. ceHash (ent ca q) = h) (css ! ?i) = Some q" for q
      using that by (auto simp: find_Some_iff)
    ultimately have "find (\<lambda>q. ceHash (ent ca q) = h) (css ! ?i) = None"
      using that f sub by (cases "find (\<lambda>q. ceHash (ent ca q) = h) (css ! ?i)") auto
    then show "ceHash (ent ca p) \<noteq> h" using shape_bounds(4) [OF s p] by (auto simp: find_None_iff)
  qed
qed

section \<open>The operations keep the invariant\<close>

definition keeps :: "cache \<Rightarrow> cache \<Rightarrow> ref multiset \<Rightarrow> bool" where
  "keeps ca ca' R \<longleftrightarrow> (\<forall>p \<in># R. view ca' p = view ca p)"

lemma keeps_refl [simp]: "keeps ca ca R"
  by (simp add: keeps_def)

lemma keeps_trans: "keeps a b R \<Longrightarrow> keeps b c R \<Longrightarrow> keeps a c R"
  by (simp add: keeps_def)

lemma view_eq: "view ca' p = view ca p \<longleftrightarrow>
    ceHash (ent ca' p) = ceHash (ent ca p) \<and> ceData (ent ca' p) = ceData (ent ca p) \<and> ceNode (ent ca' p) = ceNode (ent ca p)"
  by (auto simp: view_def)

lemma cache_entries_cong:
  assumes "cache_entries H U ca X R" "\<And>p. p \<in> X \<Longrightarrow> view ca' p = view ca p"
    "\<And>p. p \<in> X \<Longrightarrow> ceRef (ent ca' p) = int (count R' p)" "set_mset R' \<subseteq> X"
  shows "cache_entries H U ca' X R'"
  using assms unfolding cache_entries_def entry_ok_def view_eq inj_on_def by metis

lemma cache_entries_subset:
  assumes "cache_entries H U ca X R" "Y \<subseteq> X" "set_mset R \<subseteq> Y"
  shows "cache_entries H U ca Y R"
  using assms unfolding cache_entries_def by (meson inj_on_subset subsetD)

text \<open>An entry moves to the front of the list.\<close>

lemma touch_ok:
  assumes s: "cache_shape ca xs css" and p: "p \<in> set xs"
  shows "\<exists>ca1 ca'. lruRemove ca p = Inr ca1 \<and> lruInsertHead ca1 p = Inr ca' \<and>
     cache_shape ca' (p # remove1 p xs) css \<and> lru_frame ca ca' \<and> set (p # remove1 p xs) = set xs"
proof -
  have d: "distinct xs" "lru_list ca xs" "hash_chains ca css" using s by (simp_all add: cache_shape_def lru_list_def)
  obtain ys zs where xs: "xs = ys @ p # zs" using p by (meson split_list)
  obtain ca1 where c1: "lruRemove ca p = Inr ca1" "lru_list ca1 (ys @ zs)" "lru_frame ca ca1"
    using lruRemove_ok d(2) xs by blast
  have np: "p \<noteq> LruHead" "p \<noteq> LruTail" "p \<in> dom (cHeap ca1)" "p \<notin> set (ys @ zs)"
    using shape_bounds(3) [OF s p] p s d(1) xs lru_frame_view(5) [OF c1(3)] by (auto simp: cache_shape_def)
  obtain ca2 where c2: "lruInsertHead ca1 p = Inr ca2" "lru_list ca2 (p # ys @ zs)" "lru_frame ca1 ca2"
    using lruInsertHead_ok [OF c1(2) np(3,4,1,2)] by blast
  have f: "lru_frame ca ca2" by (rule lru_frame_trans [OF c1(3) c2(3)])
  have r: "remove1 p xs = ys @ zs" using d(1) xs by (simp add: remove1_append)
  have st: "set (p # ys @ zs) = set xs" "length (p # ys @ zs) = length xs" using xs by auto
  have ch: "hash_chains ca2 css"
    by (rule hash_chains_cong [OF _ _ _ _ _ d(3)]) (use lru_frame_view [OF f] f in \<open>simp_all add: lru_frame_def\<close>)
  have "cache_shape ca2 (p # ys @ zs) css"
    using s c2(2) f ch unfolding cache_shape_def st lru_frame_def by simp
  then show ?thesis using c1(1) c2(1) f r st(1) by auto
qed

lemma shape_refs:
  assumes s: "cache_shape ca xs css" and p: "p \<in> set xs"
  shows "cache_shape (ca\<lparr>cHeap := (cHeap ca)(p \<mapsto> ceRef_update f (ent ca p))\<rparr>) xs css"
proof -
  let ?c = "ca\<lparr>cHeap := (cHeap ca)(p \<mapsto> ceRef_update f (ent ca p))\<rparr>"
  have d: "dom (cHeap ?c) = dom (cHeap ca)" using s p by (auto simp: cache_shape_def)
  have l: "lru_list ca xs" "hash_chains ca css" using s by (simp_all add: cache_shape_def)
  have "lru_list ?c xs" by (rule lru_list_cong [OF _ _ _ l(1)]) (use l(1) d in \<open>auto simp: lru_list_def\<close>)
  moreover have "hash_chains ?c css" by (rule hash_chains_cong [OF _ _ _ _ _ l(2)]) (use d in auto)
  ultimately show ?thesis using s d by (simp add: cache_shape_def)
qed

lemma prollyCacheGet_ok:
  assumes inv: "cache_inv H U ca R" and h: "hash_ok h"
  obtains (hit) ca' p where "prollyCacheGet ca h = Inr (ca', p)" "p \<noteq> Null" "cache_inv H U ca' (add_mset p R)"
      "ceHash (ent ca' p) = h" "\<And>q. view ca' q = view ca q" "cUsed ca' = cUsed ca" "nCapacity ca' = nCapacity ca"
      "nextEnt ca' = nextEnt ca"
    | (miss) "prollyCacheGet ca h = Inr (ca, Null)"
      "\<And>xs css. cache_shape ca xs css \<Longrightarrow> \<forall>p \<in> set xs. ceHash (ent ca p) \<noteq> h"
proof -
  obtain xs css where s: "cache_shape ca xs css" and e: "cache_entries H U ca (set xs) R" and hs: "hashing H U"
    using inv by (auto simp: cache_inv_def)
  obtain r where r: "cache_find (walk_fuel ca) ca h (aBucket ca ! bucket_of ca h) = Inr r"
    using cache_find_shape(3) [OF s h] by blast
  note l = cache_find_shape(4,5) [OF s h]
  show thesis
  proof (cases "r = Null")
    case True
    have "prollyCacheGet ca h = Inr (ca, Null)"
      using r l True cacheHashBucket_ok [OF h] by (simp add: prollyCacheGet_def)
    then show thesis using cache_find_shape(2) [OF _ h] r True by (intro miss) blast+
  next
    case False
    have p: "r \<in> set xs" "ceHash (ent ca r) = h" using cache_find_shape(1) [OF s h r False] by blast+
    let ?c = "ca\<lparr>cHeap := (cHeap ca)(r \<mapsto> ceRef_update (\<lambda>n. n + 1) (ent ca r))\<rparr>"
    have dr: "r \<in> dom (cHeap ca)" using s p(1) by (auto simp: cache_shape_def)
    obtain c1 c2 where t: "lruRemove ?c r = Inr c1" "lruInsertHead c1 r = Inr c2" "cache_shape c2 (r # remove1 r xs) css"
      "lru_frame ?c c2" "set (r # remove1 r xs) = set xs"
      using touch_ok [OF shape_refs [OF s p(1)] p(1)] by blast
    have g: "prollyCacheGet ca h = Inr (c2, r)"
      using r l False cacheHashBucket_ok [OF h] dr t(1,2) by (simp add: prollyCacheGet_def)
    have v: "view c2 q = view ca q" for q using lru_frame_view(1) [OF t(4), of q] by (simp add: view_def)
    have rf: "ceRef (ent c2 q) = int (count (add_mset r R) q)" if "q \<in> set xs" for q
      using lru_frame_view(2) [OF t(4), of q] e that by (auto simp: cache_entries_def)
    have "cache_entries H U c2 (set xs) (add_mset r R)"
      by (rule cache_entries_cong [OF e v rf]) (use e p(1) in \<open>auto simp: cache_entries_def\<close>)
    then have "cache_inv H U c2 (add_mset r R)" unfolding cache_inv_def using t(3,5) hs by metis
    moreover have "ceHash (ent c2 r) = h" using v [of r] p(2) by (simp add: view_eq)
    ultimately show thesis using hit [OF g False _ _ v] t(4) by (simp add: lru_frame_def)
  qed
qed

lemma prollyCacheRelease_ok:
  assumes inv: "cache_inv H U ca R" and p: "p \<in># R"
  shows "\<exists>ca'. prollyCacheRelease ca p = Inr ca' \<and> cache_inv H U ca' (R - {#p#}) \<and> (\<forall>q. view ca' q = view ca q) \<and>
     cUsed ca' = cUsed ca \<and> nCapacity ca' = nCapacity ca"
proof -
  obtain xs css where s: "cache_shape ca xs css" and e: "cache_entries H U ca (set xs) R" and hs: "hashing H U"
    using inv by (auto simp: cache_inv_def)
  have px: "p \<in> set xs" and pos: "0 < ceRef (ent ca p)" using e p by (auto simp: cache_entries_def)
  have dp: "p \<in> dom (cHeap ca)" using s px by (auto simp: cache_shape_def)
  let ?c = "ca\<lparr>cHeap := (cHeap ca)(p \<mapsto> ceRef_update (\<lambda>n. n - 1) (ent ca p))\<rparr>"
  have v: "view ?c q = view ca q" for q by (simp add: view_def)
  have rf: "ceRef (ent ?c q) = int (count (R - {#p#}) q)" if "q \<in> set xs" for q
  proof (cases "q = p")
    case True
    have "0 < count R p" using p by simp
    then show ?thesis using True e px by (auto simp: cache_entries_def)
  next
    case False
    then show ?thesis using e that by (auto simp: cache_entries_def)
  qed
  have "cache_entries H U ?c (set xs) (R - {#p#})"
    by (rule cache_entries_cong [OF e v rf]) (use e in \<open>auto simp: cache_entries_def dest: in_diffD\<close>)
  then have "cache_inv H U ?c (R - {#p#})" unfolding cache_inv_def using shape_refs [OF s px] hs by metis
  moreover have "prollyCacheRelease ca p = Inr ?c" using dp pos by (simp add: prollyCacheRelease_def)
  ultimately show ?thesis using v by auto
qed

section \<open>Eviction\<close>

lemma ent_fields [simp]: "ent (ca\<lparr>cUsed := n\<rparr>) p = ent ca p" "ent (ca\<lparr>nextEnt := m\<rparr>) p = ent ca p"
    "ent (ca\<lparr>aBucket := bs\<rparr>) p = ent ca p"
  by (simp_all add: ent_def)

lemma evict_scan_ok:
  assumes s: "cache_shape ca xs css"
  shows "xs = ys @ zs \<Longrightarrow> length ys < n \<Longrightarrow>
    evict_scan n ca (last (LruHead # ys)) = Inr r \<Longrightarrow>
      (r = Null \<and> (\<forall>p \<in> set ys. ceRef (ent ca p) \<noteq> 0)) \<or> (r \<in> set ys \<and> ceRef (ent ca r) = 0)"
    "xs = ys @ zs \<Longrightarrow> length ys < n \<Longrightarrow> \<exists>r. evict_scan n ca (last (LruHead # ys)) = Inr r"
proof -
  have "xs = ys @ zs \<Longrightarrow> length ys < n \<Longrightarrow> \<exists>r. evict_scan n ca (last (LruHead # ys)) = Inr r \<and>
      ((r = Null \<and> (\<forall>p \<in> set ys. ceRef (ent ca p) \<noteq> 0)) \<or> (r \<in> set ys \<and> ceRef (ent ca r) = 0))"
  proof (induction ys arbitrary: zs n rule: rev_induct)
    case Nil
    then show ?case by (cases n) auto
  next
    case (snoc p ys)
    obtain m where n: "n = Suc m" using snoc.prems by (cases n) auto
    have p: "p \<in> set xs" using snoc.prems by simp
    have d: "p \<in> dom (cHeap ca)" "p \<noteq> LruHead" using s p shape_bounds(3) [OF s p] by (auto simp: cache_shape_def)
    have "linked (\<lambda>p. pLruNext (ent ca p)) (\<lambda>p. pLruPrev (ent ca p)) (LruHead # xs @ [LruTail])"
      using s by (simp add: cache_shape_def lru_list_def)
    moreover obtain as x where x: "LruHead # ys = as @ [x]" by (metis append_butlast_last_id list.discI)
    moreover have "LruHead # xs @ [LruTail] = as @ x # p # zs @ [LruTail]"
      using snoc.prems(1) x by (metis append.assoc append_Cons append_Nil)
    ultimately have "pLruPrev (ent ca p) = x" using linked_append [of _ _ as x "p # zs @ [LruTail]"] by simp
    then have prev: "pLruPrev (ent ca p) = last (LruHead # ys)" using x by simp
    show ?case
    proof (cases "ceRef (ent ca p) = 0")
      case True
      then show ?thesis using n d by simp
    next
      case False
      have "length ys < m" using snoc.prems(2) n by simp
      moreover have "xs = ys @ p # zs" using snoc.prems(1) by simp
      ultimately obtain r where "evict_scan m ca (last (LruHead # ys)) = Inr r"
        "(r = Null \<and> (\<forall>p \<in> set ys. ceRef (ent ca p) \<noteq> 0)) \<or> (r \<in> set ys \<and> ceRef (ent ca r) = 0)"
        using snoc.IH by blast
      moreover have "evict_scan n ca (last (LruHead # ys @ [p])) = evict_scan m ca (last (LruHead # ys))"
        unfolding n prev [symmetric] using d False by simp
      ultimately show ?thesis using False by auto
    qed
  qed
  then show "xs = ys @ zs \<Longrightarrow> length ys < n \<Longrightarrow>
    evict_scan n ca (last (LruHead # ys)) = Inr r \<Longrightarrow>
      (r = Null \<and> (\<forall>p \<in> set ys. ceRef (ent ca p) \<noteq> 0)) \<or> (r \<in> set ys \<and> ceRef (ent ca r) = 0)"
    "xs = ys @ zs \<Longrightarrow> length ys < n \<Longrightarrow> \<exists>r. evict_scan n ca (last (LruHead # ys)) = Inr r" by auto
qed

lemma UN_set_nth: "(\<Union>ps \<in> set xss. set ps) = (\<Union>j < length xss. set (xss ! j))"
  unfolding set_conv_nth [of xss] by blast

lemma drop_entry_ok:
  assumes s: "cache_shape ca xs css" and p: "p \<in> set xs"
  shows "\<exists>c1 c2 c3 css'. lruRemove ca p = Inr c1 \<and> hashRemove c1 p = Inr c2 \<and> cacheEntryFree c2 p = Inr c3 \<and>
     cache_shape (c3\<lparr>cUsed := cUsed c3 - 1\<rparr>) (remove1 p xs) css' \<and> (\<forall>q. q \<noteq> p \<longrightarrow> view c3 q = view ca q \<and> ceRef (ent c3 q) = ceRef (ent ca q)) \<and>
     nCapacity c3 = nCapacity ca \<and> nextEnt c3 = nextEnt ca \<and> cUsed c3 = cUsed ca"
proof -
  have d: "distinct xs" "lru_list ca xs" "hash_chains ca css" "(\<Union>ps \<in> set css. set ps) = set xs"
    "dom (cHeap ca) = {LruHead, LruTail} \<union> set xs"
    using s by (simp_all add: cache_shape_def lru_list_def)
  obtain ys zs where xs: "xs = ys @ p # zs" using p by (meson split_list)
  obtain c1 where c1: "lruRemove ca p = Inr c1" "lru_list c1 (ys @ zs)" "lru_frame ca c1"
    using lruRemove_ok d(2) xs by blast
  note f1 = lru_frame_view [OF c1(3)]
  have b1: "nBucket c1 = nBucket ca" "aBucket c1 = aBucket ca" "nextEnt c1 = nextEnt ca" "nCapacity c1 = nCapacity ca" "cUsed c1 = cUsed ca"
    using c1(3) by (simp_all add: lru_frame_def)
  have ch1: "hash_chains c1 css" by (rule hash_chains_cong [OF f1(4,3) _ b1(2,1) d(3)]) (use f1(5) in simp)
  let ?h = "ceHash (ent c1 p)" let ?i = "bucket_of c1 ?h"
  have pb: "hash_ok ?h" "?i < nBucket c1" "p \<in> set (css ! ?i)"
    using shape_bounds(4) [OF s p] f1(4) [of p] b1(1) by (simp_all add: bucket_of_def)
  obtain us bs where ub: "css ! ?i = us @ p # bs" using pb(3) by (meson split_list)
  have fuel: "length us < walk_fuel c1" using shape_bounds(2) [OF s, of ?i] pb(2) ub b1 by (simp add: walk_fuel_def)
  obtain c2 where c2: "hash_unlink (walk_fuel c1) c1 p (Bucket ?i) = Inr c2" "hash_chains c2 (css[?i := us @ bs])" "hash_frame c1 c2"
    using hash_unlink_ok [OF ch1 pb(2), of "[]" us p bs] ub fuel by (auto simp: ptr_after_def)
  note f2 = hash_frame_view [OF c2(3)]
  have dp: "p \<in> dom (cHeap c1)" "p \<in> dom (cHeap c2)" using d(5) p f1(5) f2(5) by auto
  have r2: "hashRemove c1 p = Inr c2" using dp(1) cacheHashBucket_ok [OF pb(1)] c2(1) by (simp add: hashRemove_def)
  let ?c3 = "c2\<lparr>cHeap := (cHeap c2)(p := None)\<rparr>"
  have np: "p \<noteq> Null" "p \<noteq> LruHead" "p \<noteq> LruTail" using shape_bounds(3) [OF s p] by blast+
  have r3: "cacheEntryFree c2 p = Inr ?c3" using dp np by (simp add: cacheEntryFree_def)
  have e3: "ent ?c3 q = ent c2 q" if "q \<noteq> p" for q using that by (simp add: ent_def)
  have rm: "remove1 p xs = ys @ zs" "set (ys @ zs) = set xs - {p}" using d(1) xs by (auto simp: remove1_append)
  have b2: "nBucket c2 = nBucket ca" "nextEnt c2 = nextEnt ca" "nCapacity c2 = nCapacity ca" "cUsed c2 = cUsed ca"
    using c2(3) b1 by (simp_all add: hash_frame_def)
  have l2: "lru_list c2 (ys @ zs)"
    by (rule lru_list_cong [OF f2(3,4) _ c1(2)]) (use c1(2) f2(5) in \<open>auto simp: lru_list_def\<close>)
  have l3: "lru_list ?c3 (ys @ zs)"
  proof -
    have "linked (\<lambda>q. pLruNext (ent ?c3 q)) (\<lambda>q. pLruPrev (ent ?c3 q)) (LruHead # (ys @ zs) @ [LruTail]) =
        linked (\<lambda>q. pLruNext (ent c2 q)) (\<lambda>q. pLruPrev (ent c2 q)) (LruHead # (ys @ zs) @ [LruTail])"
    proof (rule linked_cong)
      have ne: "x \<noteq> p" if "x \<in> set (LruHead # (ys @ zs) @ [LruTail])" for x using that rm(2) np by auto
      show "pLruNext (ent ?c3 x) = pLruNext (ent c2 x)" if "x \<in> set (butlast (LruHead # (ys @ zs) @ [LruTail]))" for x
        using e3 [OF ne [OF in_set_butlastD [OF that]]] by simp
      show "pLruPrev (ent ?c3 x) = pLruPrev (ent c2 x)" if "x \<in> set (tl (LruHead # (ys @ zs) @ [LruTail]))" for x
        using e3 [OF ne [OF list.set_sel(2) [OF _ that]]] by simp
    qed
    moreover have "p \<notin> set (LruHead # (ys @ zs) @ [LruTail])" using rm(2) np by auto
    moreover have "dom (cHeap ?c3) = dom (cHeap c2) - {p}" by simp
    ultimately show ?thesis using l2 unfolding lru_list_def by blast
  qed
  have nin: "p \<notin> set (css[?i := us @ bs] ! j)" if "j < nBucket c2" for j
  proof (cases "j = ?i")
    case True
    have "distinct (us @ p # bs)" using hash_chainsD(2) [OF ch1 pb(2)] ub by simp
    then show ?thesis using True that hash_chainsD(5) [OF ch1 pb(2)] by simp
  next
    case False
    then show ?thesis using hash_chainsD(3) [OF ch1, of j] that b1 b2 pb by (metis nth_list_update_neq)
  qed
  have ch3: "hash_chains ?c3 (css[?i := us @ bs])"
  proof -
    have "path (\<lambda>q. pHashNext (ent ?c3 q)) (aBucket c2 ! j) (css[?i := us @ bs] ! j) Null" if "j < nBucket c2" for j
    proof -
      have "pHashNext (ent ?c3 r) = pHashNext (ent c2 r)" if "r \<in> set (css[?i := us @ bs] ! j)" for r
        using nin [OF \<open>j < nBucket c2\<close>] e3 that by metis
      then have "path (\<lambda>q. pHashNext (ent ?c3 q)) (aBucket c2 ! j) (css[?i := us @ bs] ! j) Null =
          path (\<lambda>q. pHashNext (ent c2 q)) (aBucket c2 ! j) (css[?i := us @ bs] ! j) Null" by (rule path_cong)
      then show ?thesis using hash_chainsD(1) [OF c2(2) that] by blast
    qed
    moreover have "q \<in> dom (cHeap ?c3) \<and> hash_ok (ceHash (ent ?c3 q)) \<and> bucket_of ?c3 (ceHash (ent ?c3 q)) = j"
      if "j < nBucket c2" "q \<in> set (css[?i := us @ bs] ! j)" for j q
    proof -
      have "q \<noteq> p" using nin [OF that(1)] that(2) by blast
      then show ?thesis using hash_chainsD(3) [OF c2(2) that(1)] that(2) e3 by (simp add: bucket_of_def)
    qed
    ultimately show ?thesis using c2(2) unfolding hash_chains_def by (simp add: bucket_of_def)
  qed
  have un: "(\<Union>ps \<in> set (css[?i := us @ bs]). set ps) = set xs - {p}"
  proof -
    have l: "length css = nBucket c1" using ch1 by (simp add: hash_chains_def)
    have each: "set (css[?i := us @ bs] ! j) = set (css ! j) - {p}" if j: "j < nBucket c1" for j
    proof (cases "j = ?i")
      case True
      have "distinct (us @ p # bs)" using hash_chainsD(2) [OF ch1 pb(2)] ub by simp
      then show ?thesis using True j l ub by auto
    next
      case False
      then have "p \<notin> set (css ! j)" using hash_chainsD(3) [OF ch1 j] by metis
      then show ?thesis using False by simp
    qed
    have "(\<Union>ps \<in> set (css[?i := us @ bs]). set ps) = (\<Union>j < nBucket c1. set (css[?i := us @ bs] ! j))"
      using l UN_set_nth [of "css[?i := us @ bs]"] by simp
    also have "\<dots> = (\<Union>j < nBucket c1. set (css ! j) - {p})" using each by (intro SUP_cong) auto
    also have "\<dots> = (\<Union>j < nBucket c1. set (css ! j)) - {p}" by blast
    also have "\<dots> = set xs - {p}" using UN_set_nth [of css] d(4) l by simp
    finally show ?thesis .
  qed
  have "cache_shape (?c3\<lparr>cUsed := cUsed ?c3 - 1\<rparr>) (remove1 p xs) (css[?i := us @ bs])"
  proof -
    have "lru_list (?c3\<lparr>cUsed := cUsed ?c3 - 1\<rparr>) (ys @ zs)"
      by (rule lru_list_cong [OF _ _ _ l3]) (use l3 in \<open>simp_all add: lru_list_def\<close>)
    moreover have "hash_chains (?c3\<lparr>cUsed := cUsed ?c3 - 1\<rparr>) (css[?i := us @ bs])"
      by (rule hash_chains_cong [OF _ _ _ _ _ ch3]) simp_all
    moreover have "dom (cHeap ?c3) = {LruHead, LruTail} \<union> (set xs - {p})"
    proof -
      have "dom (cHeap ?c3) = dom (cHeap c2) - {p}" by simp
      also have "\<dots> = {LruHead, LruTail} \<union> (set xs - {p})" unfolding f2(5) f1(5) d(5) using np by blast
      finally show ?thesis .
    qed
    ultimately show ?thesis
      using s rm un b2 xs by (auto simp: cache_shape_def)
  qed
  moreover have "view ?c3 q = view ca q \<and> ceRef (ent ?c3 q) = ceRef (ent ca q)" if "q \<noteq> p" for q
    using e3 [OF that] f1(1,2) [of q] f2(1,2) [of q] by (simp add: view_def)
  ultimately show ?thesis using c1(1) r2 r3 b2 by auto
qed

definition lacks :: "cache \<Rightarrow> hash \<Rightarrow> bool" where
  "lacks ca h \<longleftrightarrow> (\<forall>p \<in> dom (cHeap ca) - {LruHead, LruTail}. ceHash (ent ca p) \<noteq> h)"

lemma shape_dom: "cache_shape ca xs css \<Longrightarrow> dom (cHeap ca) - {LruHead, LruTail} = set xs"
  using shape_bounds(3) [of ca xs css] by (auto simp: cache_shape_def)

lemma cacheEvictOne_ok:
  assumes inv: "cache_inv H U ca R"
  obtains (evicted) ca' where "cacheEvictOne ca = Inr (ca', True)" "cache_inv H U ca' R" "keeps ca ca' R" "cUsed ca' = cUsed ca - 1"
      "nCapacity ca' = nCapacity ca" "nextEnt ca' = nextEnt ca" "\<And>h. lacks ca h \<Longrightarrow> lacks ca' h"
    | (pinned) "cacheEvictOne ca = Inr (ca, False)" "cUsed ca \<le> int (card (set_mset R))"
proof -
  obtain xs css where s: "cache_shape ca xs css" and e: "cache_entries H U ca (set xs) R" and hs: "hashing H U"
    using inv by (auto simp: cache_inv_def)
  have "linked (\<lambda>p. pLruNext (ent ca p)) (\<lambda>p. pLruPrev (ent ca p)) (LruHead # xs @ [LruTail])"
    using s by (simp add: cache_shape_def lru_list_def)
  moreover obtain as x where x: "LruHead # xs = as @ [x]" by (metis append_butlast_last_id list.discI)
  moreover have "LruHead # xs @ [LruTail] = as @ x # [LruTail]" using x by (metis append.assoc append_Cons append_Nil)
  ultimately have "pLruPrev (ent ca LruTail) = x" using linked_append [of _ _ as x "[LruTail]"] by simp
  then have tl: "pLruPrev (ent ca LruTail) = last (LruHead # xs)" "LruTail \<in> dom (cHeap ca)"
    using x s by (simp_all add: cache_shape_def)
  have d: "distinct xs" using s by (simp add: cache_shape_def lru_list_def)
  have f: "xs = xs @ []" "length xs < walk_fuel ca" using shape_bounds(1) [OF s] by simp_all
  obtain r where r: "evict_scan (walk_fuel ca) ca (last (LruHead # xs)) = Inr r"
    using evict_scan_ok(2) [OF s f] by blast
  from evict_scan_ok(1) [OF s f r] consider
      (1) "r = Null" "\<forall>p \<in> set xs. ceRef (ent ca p) \<noteq> 0" | (2) "r \<in> set xs" "ceRef (ent ca r) = 0" by blast
  then show thesis
  proof cases
    case 1
    have "set xs \<subseteq> set_mset R" using 1(2) e by (fastforce simp: cache_entries_def)
    then have "card (set xs) \<le> card (set_mset R)" by (rule card_mono [rotated]) simp
    then have "cUsed ca \<le> int (card (set_mset R))" using s d by (simp add: cache_shape_def distinct_card)
    then show thesis using pinned tl r 1(1) by (simp add: cacheEvictOne_def)
  next
    case 2
    obtain c1 c2 c3 css' where c: "lruRemove ca r = Inr c1" "hashRemove c1 r = Inr c2" "cacheEntryFree c2 r = Inr c3"
      "cache_shape (c3\<lparr>cUsed := cUsed c3 - 1\<rparr>) (remove1 r xs) css'"
      "\<And>q. q \<noteq> r \<Longrightarrow> view c3 q = view ca q \<and> ceRef (ent c3 q) = ceRef (ent ca q)"
      "nCapacity c3 = nCapacity ca" "nextEnt c3 = nextEnt ca" "cUsed c3 = cUsed ca"
      using drop_entry_ok [OF s 2(1)] by blast
    let ?c = "c3\<lparr>cUsed := cUsed c3 - 1\<rparr>"
    have nr: "r \<noteq> Null" "r \<notin># R" using shape_bounds(3) [OF s 2(1)] e 2 by (auto simp: cache_entries_def count_eq_zero_iff)
    have st: "set (remove1 r xs) = set xs - {r}" using d by simp
    have v: "view ?c q = view ca q" "ceRef (ent ?c q) = ceRef (ent ca q)" if "q \<noteq> r" for q
      using c(5) [OF that] by (simp_all add: view_def)
    have "cache_entries H U ca (set xs - {r}) R"
      by (rule cache_entries_subset [OF e]) (use e nr in \<open>auto simp: cache_entries_def\<close>)
    then have "cache_entries H U ?c (set (remove1 r xs)) R"
      unfolding st by (rule cache_entries_cong) (use v e nr in \<open>auto simp: cache_entries_def\<close>)
    then have i: "cache_inv H U ?c R" using c(4) hs unfolding cache_inv_def by blast
    have k: "keeps ca ?c R" using v(1) nr(2) unfolding keeps_def by metis
    have lk: "lacks ?c h" if "lacks ca h" for h
    proof -
      have "ceHash (ent ?c q) = ceHash (ent ca q)" if "q \<in> set xs - {r}" for q using v(1) [of q] that by (simp add: view_eq)
      then show ?thesis using that shape_dom [OF s] shape_dom [OF c(4)] st by (simp add: lacks_def)
    qed
    have "cacheEvictOne ca = Inr (?c, True)" using tl r c(1-3) nr(1) by (simp add: cacheEvictOne_def)
    then show thesis using evicted [OF _ i k _ _ _ lk] c(6-8) by simp
  qed
qed

lemma evict_loop_ok:
  "cache_inv H U ca R \<Longrightarrow> nat (cUsed ca) < n \<Longrightarrow> 
    \<exists>ca'. evict_loop n ca = Inr ca' \<and> cache_inv H U ca' R \<and> keeps ca ca' R \<and> nCapacity ca' = nCapacity ca \<and>
      nextEnt ca' = nextEnt ca \<and> (\<forall>h. lacks ca h \<longrightarrow> lacks ca' h) \<and>
      (cUsed ca' < nCapacity ca' \<or> cUsed ca' \<le> int (card (set_mset R)))"
proof (induction n arbitrary: ca)
  case (Suc n)
  show ?case
  proof (cases "cUsed ca \<ge> nCapacity ca")
    case False
    then show ?thesis using Suc.prems by simp
  next
    case True
    from Suc.prems(1) show ?thesis
    proof (cases rule: cacheEvictOne_ok)
      case (evicted ca')
      have "0 \<le> cUsed ca'" using evicted(2) by (auto simp: cache_inv_def cache_shape_def)
      then have "nat (cUsed ca') < n" using evicted(4) Suc.prems(2) by linarith
      from Suc.IH [OF evicted(2) this] evicted True show ?thesis by (auto intro: keeps_trans)
    next
      case pinned
      then show ?thesis using Suc.prems True by simp
    qed
  qed
qed simp

lemma used_fuel: "cache_inv H U ca R \<Longrightarrow> nat (cUsed ca) < walk_fuel ca"
proof -
  assume "cache_inv H U ca R"
  then obtain xs css where s: "cache_shape ca xs css" by (auto simp: cache_inv_def)
  then have "cUsed ca = int (length xs)" by (simp add: cache_shape_def)
  then show ?thesis using shape_bounds(1) [OF s] by simp
qed

text \<open>A new entry at the head of its chain and of the list.\<close>

lemma add_entry_ok:
  assumes s: "cache_shape ca xs css" and h: "hash_ok (ceHash e)" and e: "pHashNext e = Null" "p = Ent (nextEnt ca)"
  defines "c1 \<equiv> ca\<lparr>nextEnt := nextEnt ca + 1, cHeap := (cHeap ca)(p \<mapsto> e)\<rparr>" and "i \<equiv> bucket_of ca (ceHash e)"
  shows "\<exists>c2 c3 c4 css'. load_ptr c1 (Bucket i) = Inr (aBucket ca ! i) \<and>
     modify c1 p (pHashNext_update (\<lambda>_. aBucket ca ! i)) = Inr c2 \<and> store_ptr c2 (Bucket i) p = Inr c3 \<and>
     lruInsertHead c3 p = Inr c4 \<and> cache_shape (c4\<lparr>cUsed := cUsed c4 + 1\<rparr>) (p # xs) css' \<and>
     (\<forall>q. q \<noteq> p \<longrightarrow> view c4 q = view ca q \<and> ceRef (ent c4 q) = ceRef (ent ca q)) \<and>
     view c4 p = (ceHash e, ceData e, ceNode e) \<and> ceRef (ent c4 p) = ceRef e \<and>
     nCapacity c4 = nCapacity ca \<and> cUsed c4 = cUsed ca \<and> p \<notin> set xs"
proof -
  have d: "lru_list ca xs" "hash_chains ca css" "(\<Union>ps \<in> set css. set ps) = set xs" "set xs \<subseteq> Ent ` {..<nextEnt ca}"
    "dom (cHeap ca) = {LruHead, LruTail} \<union> set xs"
    using s by (simp_all add: cache_shape_def)
  have n: "nBucket ca = length (aBucket ca)" "0 < nBucket ca" "length css = nBucket ca" using d(2) by (simp_all add: hash_chains_def)
  have i: "i < nBucket ca" using n(2) by (simp add: i_def bucket_of_def)
  have np: "p \<notin> set xs" "p \<noteq> LruHead" "p \<noteq> LruTail" "p \<noteq> Null" "p \<notin> dom (cHeap ca)" using d(4,5) e(2) by auto
  let ?e = "e\<lparr>pHashNext := aBucket ca ! i\<rparr>"
  let ?c2 = "c1\<lparr>cHeap := (cHeap c1)(p \<mapsto> ?e)\<rparr>"
  let ?c3 = "?c2\<lparr>aBucket := (aBucket ?c2)[i := p]\<rparr>"
  have e3: "ent ?c3 q = (if q = p then ?e else ent ca q)" for q by (simp add: c1_def ent_def)
  have dm: "dom (cHeap ?c3) = insert p (dom (cHeap ca))" by (simp add: c1_def insert_absorb)
  have steps: "load_ptr c1 (Bucket i) = Inr (aBucket ca ! i)"
    "modify c1 p (pHashNext_update (\<lambda>_. aBucket ca ! i)) = Inr ?c2" "store_ptr ?c2 (Bucket i) p = Inr ?c3"
    using i n by (simp_all add: load_ptr_def store_ptr_def c1_def ent_def)
  have ci: "css ! i \<in> set css" using i n by simp
  have ch: "hash_chains ?c3 (css[i := p # css ! i])"
  proof (rule hash_chains_replace [OF d(2) i])
    have ip: "p \<notin> set (css ! i)" using ci d(3) np(1) by blast
    have "path (\<lambda>q. pHashNext (ent ?c3 q)) (aBucket ca ! i) (css ! i) Null = path (\<lambda>q. pHashNext (ent ca q)) (aBucket ca ! i) (css ! i) Null"
      by (rule path_cong) (use ip e3 in metis)
    then have "path (\<lambda>q. pHashNext (ent ?c3 q)) (aBucket ca ! i) (css ! i) Null"
      using hash_chainsD(1) [OF d(2) i] by blast
    then show "path (\<lambda>q. pHashNext (ent ?c3 q)) (aBucket ?c3 ! i) (p # css ! i) Null"
      using i n np(4) e3 by (simp add: c1_def)
    show "distinct (p # css ! i)" using hash_chainsD(2) [OF d(2) i] ip by simp
    show "q \<in> dom (cHeap ?c3) \<and> hash_ok (ceHash (ent ?c3 q)) \<and> bucket_of ca (ceHash (ent ?c3 q)) = i"
      if "q \<in> set (p # css ! i)" for q
      using that hash_chainsD(3) [OF d(2) i] h e3 [of q] unfolding dm by (auto simp: i_def)
    show "nBucket ?c3 = nBucket ca" "length (aBucket ?c3) = nBucket ca" using n by (simp_all add: c1_def)
    fix j assume j: "j < nBucket ca" "j \<noteq> i"
    show "aBucket ?c3 ! j = aBucket ca ! j" using j by (simp add: c1_def)
    fix q assume q: "q \<in> set (css ! j)"
    then have "q \<noteq> p" "q \<in> dom (cHeap ca)" using hash_chainsD(3) [OF d(2) j(1)] np(5) by auto
    then show "q \<in> dom (cHeap ?c3) \<and> ceHash (ent ?c3 q) = ceHash (ent ca q) \<and> pHashNext (ent ?c3 q) = pHashNext (ent ca q)"
      using e3 [of q] unfolding dm by simp
  qed
  have l3: "lru_list ?c3 xs"
  proof -
    have "linked (\<lambda>q. pLruNext (ent ?c3 q)) (\<lambda>q. pLruPrev (ent ?c3 q)) (LruHead # xs @ [LruTail]) =
        linked (\<lambda>q. pLruNext (ent ca q)) (\<lambda>q. pLruPrev (ent ca q)) (LruHead # xs @ [LruTail])"
    proof (rule linked_cong)
      have ne: "x \<noteq> p" if "x \<in> set (LruHead # xs @ [LruTail])" for x using that np by auto
      show "pLruNext (ent ?c3 x) = pLruNext (ent ca x)" if "x \<in> set (butlast (LruHead # xs @ [LruTail]))" for x
        using e3 [of x] ne [OF in_set_butlastD [OF that]] by simp
      show "pLruPrev (ent ?c3 x) = pLruPrev (ent ca x)" if "x \<in> set (tl (LruHead # xs @ [LruTail]))" for x
        using e3 [of x] ne [OF list.set_sel(2) [OF _ that]] by simp
    qed
    then show ?thesis using d(1) dm unfolding lru_list_def by blast
  qed
  obtain c4 where c4: "lruInsertHead ?c3 p = Inr c4" "lru_list c4 (p # xs)" "lru_frame ?c3 c4"
    using lruInsertHead_ok [OF l3 _ np(1,2,3)] dm by blast
  note f = lru_frame_view [OF c4(3)]
  have ch4: "hash_chains c4 (css[i := p # css ! i])"
    by (rule hash_chains_cong [OF f(4,3) _ _ _ ch]) (use f(5) c4(3) in \<open>simp_all add: lru_frame_def\<close>)
  have un: "(\<Union>ps \<in> set (css[i := p # css ! i]). set ps) = insert p (set xs)"
  proof -
    have "set (css[i := p # css ! i] ! j) = (if j = i then insert p (set (css ! i)) else set (css ! j))" if "j < nBucket ca" for j
      using that i n by simp
    then have "(\<Union>j < nBucket ca. set (css[i := p # css ! i] ! j)) = insert p (\<Union>j < nBucket ca. set (css ! j))"
      using i by (auto split: if_splits)
    then show ?thesis using UN_set_nth [of css] UN_set_nth [of "css[i := p # css ! i]"] d(3) n by simp
  qed
  have dm4: "dom (cHeap c4) = insert p (dom (cHeap ca))" using f(5) dm by simp
  have nx: "nextEnt c4 = nextEnt ca + 1" "cUsed c4 = cUsed ca" "nCapacity c4 = nCapacity ca"
    using c4(3) by (simp_all add: lru_frame_def c1_def)
  have "cache_shape (c4\<lparr>cUsed := cUsed c4 + 1\<rparr>) (p # xs) (css[i := p # css ! i])"
  proof -
    have "lru_list (c4\<lparr>cUsed := cUsed c4 + 1\<rparr>) (p # xs)"
      by (rule lru_list_cong [OF _ _ _ c4(2)]) (use c4(2) in \<open>simp_all add: lru_list_def\<close>)
    moreover have "hash_chains (c4\<lparr>cUsed := cUsed c4 + 1\<rparr>) (css[i := p # css ! i])"
      by (rule hash_chains_cong [OF _ _ _ _ _ ch4]) simp_all
    moreover have "set (p # xs) \<subseteq> Ent ` {..<nextEnt ca + 1}" using d(4) e(2) by auto
    ultimately show ?thesis using un dm4 d(5) nx s by (auto simp: cache_shape_def)
  qed
  moreover have "view c4 q = view ca q \<and> ceRef (ent c4 q) = ceRef (ent ca q)" if "q \<noteq> p" for q
    using f(1,2) [of q] e3 [of q] that by (simp add: view_def)
  moreover have "view c4 p = (ceHash e, ceData e, ceNode e)" "ceRef (ent c4 p) = ceRef e"
    using f(1,2) [of p] e3 [of p] by (simp_all add: view_def)
  ultimately show ?thesis using steps c4(1) nx np(1) by blast
qed

end
