(* ===== verification/CacheRun.thy ===== *)
theory CacheRun
  imports CacheInv
begin

text \<open>
  Insertion, initialisation and freeing of the node cache, and its safety under any sequence of
  operations.
\<close>

lemma view_ent: "view ca p = (h, d, nd) \<longleftrightarrow> ceHash (ent ca p) = h \<and> ceData (ent ca p) = d \<and> ceNode (ent ca p) = nd"
  by (auto simp: view_def)

lemma cache_inv_nextEnt:
  assumes "cache_inv H U ca R"
  shows "cache_inv H U (ca\<lparr>nextEnt := nextEnt ca + 1\<rparr>) R" "view (ca\<lparr>nextEnt := nextEnt ca + 1\<rparr>) q = view ca q"
proof -
  let ?c = "ca\<lparr>nextEnt := nextEnt ca + 1\<rparr>"
  show v: "view ?c q = view ca q" for q by (simp add: view_def)
  obtain xs css where s: "cache_shape ca xs css" and e: "cache_entries H U ca (set xs) R" and hs: "hashing H U"
    using assms by (auto simp: cache_inv_def)
  have l: "lru_list ca xs" "hash_chains ca css" using s by (simp_all add: cache_shape_def)
  have "lru_list ?c xs" by (rule lru_list_cong [OF _ _ _ l(1)]) (use l(1) in \<open>simp_all add: lru_list_def\<close>)
  moreover have "hash_chains ?c css" by (rule hash_chains_cong [OF _ _ _ _ _ l(2)]) simp_all
  ultimately have "cache_shape ?c xs css" using s by (auto simp: cache_shape_def)
  moreover have "cache_entries H U ?c (set xs) R"
    by (rule cache_entries_cong [OF e v]) (use e in \<open>auto simp: cache_entries_def\<close>)
  ultimately show "cache_inv H U ?c R" using hs unfolding cache_inv_def by blast
qed

text \<open>What a Put promises: a reference to an entry with the chunk, or the error of the parser.\<close>

definition put_post ::
  "(byte list \<Rightarrow> hash) \<Rightarrow> byte list set \<Rightarrow> cache \<Rightarrow> ref multiset \<Rightarrow> byte list \<Rightarrow> cache \<Rightarrow> ref res \<Rightarrow> bool" where
  "put_post H U ca R d ca' r \<longleftrightarrow> nCapacity ca' = nCapacity ca \<and> keeps ca ca' R \<and>
     cUsed ca' \<le> max (cUsed ca) (max (nCapacity ca) (int (card (set_mset R)) + 1)) \<and>
     (case r of
        Inl e \<Rightarrow> prollyNodeParse d = Inl e \<and> cache_inv H U ca' R
      | Inr p \<Rightarrow> cache_inv H U ca' (add_mset p R) \<and> (\<exists>nd. prollyNodeParse d = Inr nd \<and> view ca' p = (H d, d, nd)))"

lemma entry_view:
  assumes "cache_inv H U ca R" "p \<in># R" "ceHash (ent ca p) = H d" "d \<in> U"
  shows "\<exists>nd. prollyNodeParse d = Inr nd \<and> view ca p = (H d, d, nd)"
proof -
  have e: "entry_ok H U (ent ca p)" and hs: "hashing H U"
    using assms(1,2) by (auto simp: cache_inv_def cache_entries_def)
  then have "ceData (ent ca p) = d" using assms(3,4) by (metis entry_ok_def hashing_def inj_onD)
  then show ?thesis using e assms(3) by (simp add: entry_ok_def view_ent)
qed

lemma prollyCachePut_ok:
  assumes inv: "cache_inv H U ca R" and d: "d \<in> U"
  shows "\<exists>ca' r. prollyCachePut ca (H d) d = Inr (ca', r) \<and> put_post H U ca R d ca' r"
proof -
  have hs: "hashing H U" using inv by (simp add: cache_inv_def)
  then have h: "hash_ok (H d)" "d \<noteq> []" using d by (simp_all add: hashing_def)
  from inv h(1) show ?thesis
  proof (cases rule: prollyCacheGet_ok)
    case (hit ca' p)
    have "p \<in># add_mset p R" by simp
    from entry_view [OF hit(3) this hit(4) d] have "put_post H U ca R d ca' (Inr p)"
      using hit by (simp add: put_post_def keeps_def)
    then show ?thesis using hit(1,2) by (auto simp: prollyCachePut_def)
  next
    case miss
    have lk: "lacks ca (H d)"
    proof -
      obtain xs css where s: "cache_shape ca xs css" using inv by (auto simp: cache_inv_def)
      show ?thesis using miss(2) [OF s] shape_dom [OF s] by (simp add: lacks_def)
    qed
    obtain c1 where c1: "evict_loop (walk_fuel ca) ca = Inr c1" "cache_inv H U c1 R" "keeps ca c1 R" "nCapacity c1 = nCapacity ca"
      "nextEnt c1 = nextEnt ca" "lacks c1 (H d)" "cUsed c1 < nCapacity c1 \<or> cUsed c1 \<le> int (card (set_mset R))"
      using evict_loop_ok [OF inv used_fuel [OF inv]] lk by blast
    let ?p = "Ent (nextEnt c1)"
    show ?thesis
    proof (cases "prollyNodeParse d")
      case (Inl e)
      have "prollyCachePut ca (H d) d = Inr (c1\<lparr>nextEnt := nextEnt c1 + 1\<rparr>, Inl e)"
        using miss(1) c1(1) h(2) Inl by (simp add: prollyCachePut_def Let_def)
      moreover have "put_post H U ca R d (c1\<lparr>nextEnt := nextEnt c1 + 1\<rparr>) (Inl e)"
        using c1 cache_inv_nextEnt [OF c1(2)] Inl by (auto simp: put_post_def keeps_def)
      ultimately show ?thesis by blast
    next
      case (Inr nd)
      let ?e = "entry0\<lparr>ceHash := H d, ceData := d, ceNode := nd, ceRef := 1\<rparr>"
      obtain xs css where s: "cache_shape c1 xs css" and en: "cache_entries H U c1 (set xs) R"
        using c1(2) by (auto simp: cache_inv_def)
      have e: "hash_ok (ceHash ?e)" "pHashNext ?e = Null" using h by (simp_all add: entry0_def)
      obtain c2 c3 c4 css' where c: 
        "load_ptr (c1\<lparr>nextEnt := nextEnt c1 + 1, cHeap := (cHeap c1)(?p \<mapsto> ?e)\<rparr>) (Bucket (bucket_of c1 (H d))) = Inr (aBucket c1 ! bucket_of c1 (H d))"
        "modify (c1\<lparr>nextEnt := nextEnt c1 + 1, cHeap := (cHeap c1)(?p \<mapsto> ?e)\<rparr>) ?p (pHashNext_update (\<lambda>_. aBucket c1 ! bucket_of c1 (H d))) = Inr c2"
        "store_ptr c2 (Bucket (bucket_of c1 (H d))) ?p = Inr c3" "lruInsertHead c3 ?p = Inr c4"
        "cache_shape (c4\<lparr>cUsed := cUsed c4 + 1\<rparr>) (?p # xs) css'"
        "\<And>q. q \<noteq> ?p \<Longrightarrow> view c4 q = view c1 q \<and> ceRef (ent c4 q) = ceRef (ent c1 q)"
        "view c4 ?p = (H d, d, nd)" "ceRef (ent c4 ?p) = 1" "nCapacity c4 = nCapacity c1" "cUsed c4 = cUsed c1" "?p \<notin> set xs"
        using add_entry_ok [OF s e refl] by auto
      let ?c = "c4\<lparr>cUsed := cUsed c4 + 1\<rparr>"
      have put: "prollyCachePut ca (H d) d = Inr (?c, Inr ?p)"
        using miss(1) c1(1,5) h(2) Inr c(1-4) cacheHashBucket_ok [OF h(1)]
        by (simp add: prollyCachePut_def Let_def bucket_of_def del: modify_ok)
      have v: "view ?c q = view c4 q" "ceRef (ent ?c q) = ceRef (ent c4 q)" for q by (simp_all add: view_def)
      have pR: "?p \<notin># R" using c(11) en by (auto simp: cache_entries_def)
      have "cache_entries H U ?c (set (?p # xs)) (add_mset ?p R)"
        unfolding cache_entries_def
      proof (intro conjI ballI)
        have "ceHash (ent c1 q) \<noteq> H d" if "q \<in> set xs" for q
          using c1(6) that shape_dom [OF s] by (auto simp: lacks_def)
        then show "inj_on (\<lambda>p. ceHash (ent ?c p)) (set (?p # xs))"
          using en c(6,7) c(11) unfolding cache_entries_def view_eq view_ent inj_on_def
          by (metis ent_fields(1) set_ConsD)
        show "set_mset (add_mset ?p R) \<subseteq> set (?p # xs)" using en by (auto simp: cache_entries_def)
        fix q assume "q \<in> set (?p # xs)"
        then consider "q = ?p" | "q \<in> set xs" "q \<noteq> ?p" by auto
        then show "entry_ok H U (ent ?c q)" "ceRef (ent ?c q) = int (count (add_mset ?p R) q)"
        proof (atomize (full), cases)
          case 1
          then show "entry_ok H U (ent ?c q) \<and> ceRef (ent ?c q) = int (count (add_mset ?p R) q)"
            using c(7,8) pR d Inr by (simp add: entry_ok_def view_ent count_eq_zero_iff)
        next
          case 2
          then show "entry_ok H U (ent ?c q) \<and> ceRef (ent ?c q) = int (count (add_mset ?p R) q)"
            using c(6) [OF 2(2)] en by (simp add: cache_entries_def entry_ok_def view_eq)
        qed
      qed
      then have inv': "cache_inv H U ?c (add_mset ?p R)" using c(5) hs unfolding cache_inv_def by blast
      have "view ?c q = view ca q" if "q \<in># R" for q
        using c(6) [of q] c1(3) that pR v(1) [of q] by (metis keeps_def)
      then have "keeps ca ?c R" by (simp add: keeps_def)
      then have "put_post H U ca R d ?c (Inr ?p)"
        using inv' c c1 Inr v(1) [of ?p] by (auto simp: put_post_def)
      then show ?thesis using put by blast
    qed
  qed
qed

section \<open>A fresh cache, and freeing\<close>

lemma prollyCacheInit_ok: "hashing H U \<Longrightarrow> cache_inv H U (prollyCacheInit n) {#}"
proof -
  assume hs: "hashing H U"
  let ?c = "prollyCacheInit n"
  have b: "0 < nBucket ?c" "length (aBucket ?c) = nBucket ?c" "aBucket ?c = replicate (nBucket ?c) Null"
    by (auto simp: prollyCacheInit_def Let_def)
  have "lru_list ?c []" by (auto simp: lru_list_def prollyCacheInit_def Let_def ent_def)
  moreover have "hash_chains ?c (replicate (nBucket ?c) [])" using b by (simp add: hash_chains_def)
  ultimately have "cache_shape ?c [] (replicate (nBucket ?c) [])"
    by (auto simp: cache_shape_def prollyCacheInit_def Let_def split: if_splits)
  moreover have "cache_entries H U ?c (set []) {#}" by (simp add: cache_entries_def)
  ultimately show ?thesis using hs unfolding cache_inv_def by blast
qed

lemma free_entries_ok:
  "distinct (xs @ [LruTail]) \<Longrightarrow> linked (\<lambda>p. pLruNext (ent ca p)) (\<lambda>p. pLruPrev (ent ca p)) (xs @ [LruTail]) \<Longrightarrow>
     set (xs @ [LruTail]) \<subseteq> dom (cHeap ca) \<Longrightarrow> Null \<notin> set xs \<Longrightarrow> \<forall>p \<in> set xs. ceRef (ent ca p) = 0 \<Longrightarrow> length xs < n \<Longrightarrow>
     \<exists>ca'. free_entries n ca (hd (xs @ [LruTail])) = Inr ca' \<and> dom (cHeap ca') = dom (cHeap ca) - set xs"
proof (induction xs arbitrary: ca n)
  case Nil
  then show ?case by (cases n) auto
next
  case (Cons p xs)
  obtain m where n: "n = Suc m" using Cons.prems by (cases n) auto
  let ?c = "ca\<lparr>cHeap := (cHeap ca)(p := None)\<rparr>"
  have e: "ent ?c q = ent ca q" if "q \<noteq> p" for q using that by (simp add: ent_def)
  have p: "p \<in> dom (cHeap ca)" "p \<noteq> Null" "p \<noteq> LruTail" "ceRef (ent ca p) = 0" "p \<notin> set (xs @ [LruTail])"
    using Cons.prems by auto
  have nx: "pLruNext (ent ca p) = hd (xs @ [LruTail])"
    "linked (\<lambda>p. pLruNext (ent ca p)) (\<lambda>p. pLruPrev (ent ca p)) (xs @ [LruTail])"
    using Cons.prems(2) by (cases xs; simp)+
  have f: "cacheEntryFree ca p = Inr ?c" using p by (simp add: cacheEntryFree_def)
  have lk: "linked (\<lambda>p. pLruNext (ent ?c p)) (\<lambda>p. pLruPrev (ent ?c p)) (xs @ [LruTail])"
    using nx(2) by (subst linked_cong [where nx' = "\<lambda>p. pLruNext (ent ca p)" and pv' = "\<lambda>p. pLruPrev (ent ca p)"])
      (use p(5) e in \<open>metis in_set_butlastD list.set_sel(2) append_is_Nil_conv list.discI\<close>)+
  have "dom (cHeap ?c) = dom (cHeap ca) - {p}" by simp
  then have dm: "set (xs @ [LruTail]) \<subseteq> dom (cHeap ?c)" using Cons.prems(3) p(5) by auto
  have rf: "\<forall>q \<in> set xs. ceRef (ent ?c q) = 0" using Cons.prems(5) p(5) e by (metis Un_iff list.set_intros(2) set_append)
  have "distinct (xs @ [LruTail])" "Null \<notin> set xs" "length xs < m" using Cons.prems n by auto
  from Cons.IH [OF this(1) lk dm this(2) rf this(3)]
  obtain ca' where "free_entries m ?c (hd (xs @ [LruTail])) = Inr ca'" "dom (cHeap ca') = dom (cHeap ?c) - set xs"
    by blast
  then show ?case using n p f nx(1) by (auto simp: Let_def)
qed

lemma prollyCacheFree_ok:
  assumes "cache_inv H U ca {#}"
  shows "\<exists>ca'. prollyCacheFree ca = Inr ca' \<and> dom (cHeap ca') = {LruHead, LruTail}"
proof -
  obtain xs css where s: "cache_shape ca xs css" and e: "cache_entries H U ca (set xs) {#}"
    using assms by (auto simp: cache_inv_def)
  have l: "distinct (xs @ [LruTail])" "set (LruHead # xs @ [LruTail]) \<subseteq> dom (cHeap ca)"
    "linked (\<lambda>p. pLruNext (ent ca p)) (\<lambda>p. pLruPrev (ent ca p)) (LruHead # xs @ [LruTail])"
    using s by (auto simp: cache_shape_def lru_list_def)
  have nx: "pLruNext (ent ca LruHead) = hd (xs @ [LruTail])"
    "linked (\<lambda>p. pLruNext (ent ca p)) (\<lambda>p. pLruPrev (ent ca p)) (xs @ [LruTail])"
    using l(3) by (cases xs; simp)+
  have "Null \<notin> set xs" "\<forall>p \<in> set xs. ceRef (ent ca p) = 0" "aBucket ca \<noteq> []" "LruHead \<in> dom (cHeap ca)"
    using shape_bounds(3) [OF s] e l(2) s by (auto simp: cache_entries_def cache_shape_def hash_chains_def)
  moreover obtain c where "free_entries (walk_fuel ca) ca (hd (xs @ [LruTail])) = Inr c" "dom (cHeap c) = dom (cHeap ca) - set xs"
    using free_entries_ok [OF l(1) nx(2) _ calculation(1,2) shape_bounds(1) [OF s]] l(2) by auto
  moreover have "dom (cHeap ca) - set xs = {LruHead, LruTail}" using s shape_bounds(3) [OF s] by (auto simp: cache_shape_def)
  ultimately show ?thesis using nx(1) by (auto simp: prollyCacheFree_def)
qed

section \<open>Runs\<close>

text \<open>
  A client of the cache asks for the node of a chunk, offers a chunk it has read, or gives the \<open>i\<close>-th of
  its references back.  It holds a list of references, each with the chunk it was obtained for.
\<close>

datatype cache_op = CGet "byte list" | CPut "byte list" | CRelease nat

fun cache_step :: "(byte list \<Rightarrow> hash) \<Rightarrow> cache \<times> (ref \<times> byte list) list \<Rightarrow> cache_op \<Rightarrow> (cache \<times> (ref \<times> byte list) list) res" where
  "cache_step H (ca, held) (CGet d) =
     bindR (prollyCacheGet ca (H d)) (\<lambda>(ca, p). Inr (ca, if p = Null then held else (p, d) # held))"
| "cache_step H (ca, held) (CPut d) =
     bindR (prollyCachePut ca (H d) d) (\<lambda>(ca, r). Inr (ca, case r of Inl _ \<Rightarrow> held | Inr p \<Rightarrow> (p, d) # held))"
| "cache_step H (ca, held) (CRelease i) =
     (if i < length held then
        bindR (prollyCacheRelease ca (fst (held ! i))) (\<lambda>ca. Inr (ca, take i held @ drop (Suc i) held))
      else Inr (ca, held))"

fun cache_run :: "(byte list \<Rightarrow> hash) \<Rightarrow> cache \<times> (ref \<times> byte list) list \<Rightarrow> cache_op list \<Rightarrow> (cache \<times> (ref \<times> byte list) list) res" where
  "cache_run H s [] = Inr s"
| "cache_run H s (op # ops) = bindR (cache_step H s op) (\<lambda>s. cache_run H s ops)"

definition op_chunks :: "cache_op list \<Rightarrow> byte list set" where
  "op_chunks ops = {d. CGet d \<in> set ops \<or> CPut d \<in> set ops}"

definition holds_nodes :: "(byte list \<Rightarrow> hash) \<Rightarrow> cache \<Rightarrow> (ref \<times> byte list) list \<Rightarrow> bool" where
  "holds_nodes H ca held \<longleftrightarrow> (\<forall>(p, d) \<in> set held. \<exists>nd. prollyNodeParse d = Inr nd \<and> view ca p = (H d, d, nd))"

definition held_inv :: "(byte list \<Rightarrow> hash) \<Rightarrow> byte list set \<Rightarrow> cache \<times> (ref \<times> byte list) list \<Rightarrow> bool" where
  "held_inv H U s \<longleftrightarrow> cache_inv H U (fst s) (mset (map fst (snd s))) \<and> holds_nodes H (fst s) (snd s)"

lemma holds_nodes_keeps:
  "holds_nodes H ca held \<Longrightarrow> keeps ca ca' (mset (map fst held)) \<Longrightarrow> holds_nodes H ca' held"
  unfolding holds_nodes_def keeps_def by (auto simp: image_iff) force

lemma cache_step_ok:
  assumes "held_inv H U (ca, held)" "op_chunks [op] \<subseteq> U"
  shows "\<exists>s'. cache_step H (ca, held) op = Inr s' \<and> held_inv H U s'"
proof -
  have inv: "cache_inv H U ca (mset (map fst held))" and hn: "holds_nodes H ca held"
    using assms(1) by (simp_all add: held_inv_def)
  show ?thesis
  proof (cases op)
    case (CGet d)
    have d: "d \<in> U" using assms(2) CGet by (auto simp: op_chunks_def)
    then have h: "hash_ok (H d)" using inv by (simp add: cache_inv_def hashing_def)
    from inv h show ?thesis
    proof (cases rule: prollyCacheGet_ok)
      case (hit ca' p)
      have "p \<in># add_mset p (mset (map fst held))" by simp
      note v = entry_view [OF hit(3) this hit(4) d]
      have "holds_nodes H ca' held" by (rule holds_nodes_keeps [OF hn]) (simp add: keeps_def hit(5))
      then have "held_inv H U (ca', (p, d) # held)" using hit(3) v by (simp add: held_inv_def holds_nodes_def)
      then show ?thesis using hit(1,2) CGet by auto
    next
      case miss
      then show ?thesis using CGet assms(1) by simp
    qed
  next
    case (CPut d)
    have d: "d \<in> U" using assms(2) CPut by (auto simp: op_chunks_def)
    obtain ca' r where p: "prollyCachePut ca (H d) d = Inr (ca', r)" "put_post H U ca (mset (map fst held)) d ca' r"
      using prollyCachePut_ok [OF inv d] by blast
    have hn': "holds_nodes H ca' held" using holds_nodes_keeps [OF hn] p(2) by (simp add: put_post_def)
    show ?thesis
    proof (cases r)
      case (Inl e)
      then show ?thesis using p hn' CPut by (simp add: put_post_def held_inv_def)
    next
      case (Inr q)
      then have "held_inv H U (ca', (q, d) # held)" using p(2) hn' by (simp add: put_post_def held_inv_def holds_nodes_def)
      then show ?thesis using p(1) CPut Inr by auto
    qed
  next
    case (CRelease i)
    show ?thesis
    proof (cases "i < length held")
      case False
      then show ?thesis using CRelease assms(1) by simp
    next
      case True
      let ?held = "take i held @ drop (Suc i) held"
      have sp: "held = take i held @ held ! i # drop (Suc i) held" using True by (simp add: id_take_nth_drop)
      have "mset (map fst held) = mset (map fst (take i held @ held ! i # drop (Suc i) held))"
        using sp by (rule arg_cong)
      also have "\<dots> = add_mset (fst (held ! i)) (mset (map fst ?held))"
        by (simp only: map_append list.map mset_append mset.simps union_mset_add_mset_right)
      finally have m: "mset (map fst held) = add_mset (fst (held ! i)) (mset (map fst ?held))" .
      then have "fst (held ! i) \<in># mset (map fst held)" by simp
      from prollyCacheRelease_ok [OF inv this] obtain ca' where
        c: "prollyCacheRelease ca (fst (held ! i)) = Inr ca'" "cache_inv H U ca' (mset (map fst ?held))" "\<And>q. view ca' q = view ca q"
        using m by auto
      have "set ?held \<subseteq> set held" by (simp add: set_take_subset set_drop_subset)
      moreover have "holds_nodes H ca' held" using hn c(3) by (simp add: holds_nodes_def)
      ultimately have "holds_nodes H ca' ?held" unfolding holds_nodes_def by blast
      then show ?thesis using True CRelease c(1,2) by (simp add: held_inv_def)
    qed
  qed
qed

lemma cache_run_ok:
  "held_inv H U s \<Longrightarrow> op_chunks ops \<subseteq> U \<Longrightarrow> \<exists>s'. cache_run H s ops = Inr s' \<and> held_inv H U s'"
proof (induction ops arbitrary: s)
  case (Cons op ops)
  have "op_chunks [op] \<subseteq> U" "op_chunks ops \<subseteq> U" using Cons.prems(2) by (auto simp: op_chunks_def)
  then obtain s1 where "cache_step H s op = Inr s1" "held_inv H U s1"
    using cache_step_ok [of H U "fst s" "snd s" op] Cons.prems(1) by auto
  then show ?case using Cons.IH [of s1] \<open>op_chunks ops \<subseteq> U\<close> by simp
qed simp

text \<open>
  C19. The node cache is well formed and safe.  Any sequence of lookups, insertions and releases on a
  fresh cache of any capacity runs without following a null, freed or looping pointer; every
  reference that is still held points at an entry with the hash, the bytes and the parsed node
  of the chunk it was obtained for, whatever was evicted meanwhile; and when nothing is held any
  more the cache can be freed, entry by entry.
\<close>

theorem prollyCache_safe:
  assumes "inj_on H (op_chunks ops)" "\<forall>d \<in> op_chunks ops. d \<noteq> [] \<and> hash_ok (H d)"
  shows "\<exists>ca held. cache_run H (prollyCacheInit capacity, []) ops = Inr (ca, held) \<and>
    (\<forall>(p, d) \<in> set held. \<exists>e. deref ca p = Inr e \<and> ceHash e = H d \<and> ceData e = d \<and> prollyNodeParse d = Inr (ceNode e) \<and> ceRef e > 0) \<and>
    (held = [] \<longrightarrow> (\<exists>ca'. prollyCacheFree ca = Inr ca' \<and> dom (cHeap ca') = {LruHead, LruTail}))"
proof -
  have "held_inv H (op_chunks ops) (prollyCacheInit capacity, [])"
    using prollyCacheInit_ok [of H "op_chunks ops" capacity] assms by (simp add: hashing_def held_inv_def holds_nodes_def)
  then obtain ca held where r: "cache_run H (prollyCacheInit capacity, []) ops = Inr (ca, held)" "held_inv H (op_chunks ops) (ca, held)"
    using cache_run_ok [of H "op_chunks ops" _ ops] by (metis subset_refl surj_pair)
  have "\<exists>e. deref ca p = Inr e \<and> ceHash e = H d \<and> ceData e = d \<and> prollyNodeParse d = Inr (ceNode e) \<and> ceRef e > 0"
    if pd: "(p, d) \<in> set held" for p d
  proof -
    obtain xs css where s: "cache_shape ca xs css" "cache_entries H (op_chunks ops) ca (set xs) (mset (map fst held))"
      using r(2) by (auto simp: held_inv_def cache_inv_def)
    have pm: "p \<in># mset (map fst held)" using pd by force
    then have p: "p \<in> set xs" "p \<in> dom (cHeap ca)" using s by (auto simp: cache_entries_def cache_shape_def)
    obtain nd where "prollyNodeParse d = Inr nd" "view ca p = (H d, d, nd)"
      using r(2) pd by (fastforce simp: held_inv_def holds_nodes_def)
    moreover have "0 < ceRef (ent ca p)" using s(2) p(1) pm by (simp add: cache_entries_def)
    ultimately show ?thesis using p(2) by (auto simp: view_ent)
  qed
  moreover have "\<exists>ca'. prollyCacheFree ca = Inr ca' \<and> dom (cHeap ca') = {LruHead, LruTail}" if "held = []"
    using prollyCacheFree_ok r(2) that by (auto simp: held_inv_def)
  ultimately show ?thesis using r(1) by blast
qed

lemma prollyCache_safe_witness:
  "\<exists>ca held. cache_run (\<lambda>d. take 20 d) (prollyCacheInit 1, [])
       [CPut node_ex, CPut int_node_ex, CRelease 1, CPut node_ex, CGet int_node_ex, CRelease 0] = Inr (ca, held) \<and>
     (\<forall>(p, d) \<in> set held. \<exists>e. deref ca p = Inr e \<and> ceHash e = take 20 d \<and> ceData e = d \<and> prollyNodeParse d = Inr (ceNode e) \<and> ceRef e > 0)"
proof -
  let ?ops = "[CPut node_ex, CPut int_node_ex, CRelease 1, CPut node_ex, CGet int_node_ex, CRelease 0]"
  have c: "op_chunks ?ops = {node_ex, int_node_ex}" by (auto simp: op_chunks_def)
  have i: "inj_on (\<lambda>d. take 20 d) (op_chunks ?ops)" "\<forall>d \<in> op_chunks ?ops. d \<noteq> [] \<and> hash_ok (take 20 d)"
    unfolding c by (simp_all add: node_ex_def int_node_ex_def hash_ok_def PROLLY_HASH_SIZE_def)
  show ?thesis using prollyCache_safe [OF i, of 1] by blast
qed

end
