(* ===== verification/Cursor.thy ===== *)
theory Cursor
  imports Cache Chunker
begin

text \<open>
  The cursor over a stored tree (\<open>prolly_cursor.c\<close>, \<open>prolly_cursor.h\<close>).  A cursor holds, for each level
  of the tree from the root down, a reference to an entry of the node cache and a position in its
  node.  Its operations load nodes through the cache from a store that is read by hash; they are
  state transformers that return a result or an error code, with the state as the error left it.
\<close>

section \<open>Operations on a state\<close>

type_synonym ('w, 'a) op = "'w \<Rightarrow> 'w \<times> 'a res"

definition bindO :: "('w, 'a) op \<Rightarrow> ('a \<Rightarrow> ('w, 'b) op) \<Rightarrow> ('w, 'b) op" where
  "bindO m f = (\<lambda>w. case m w of (w', Inl e) \<Rightarrow> (w', Inl e) | (w', Inr a) \<Rightarrow> f a w')"

definition retO :: "'a \<Rightarrow> ('w, 'a) op" where
  "retO a = (\<lambda>w. (w, Inr a))"

definition failO :: "rc \<Rightarrow> ('w, 'a) op" where
  "failO e = (\<lambda>w. (w, Inl e))"

definition readO :: "('w \<Rightarrow> 'a res) \<Rightarrow> ('w, 'a) op" where
  "readO f = (\<lambda>w. (w, f w))"

definition updO :: "('w \<Rightarrow> 'w) \<Rightarrow> ('w, unit) op" where
  "updO f = (\<lambda>w. (f w, Inr ()))"

lemma bindO_Inr [simp]: "m w = (w', Inr a) \<Longrightarrow> bindO m f w = f a w'"
  by (simp add: bindO_def)

lemma bindO_Inl [simp]: "m w = (w', Inl e) \<Longrightarrow> bindO m f w = (w', Inl e)"
  by (simp add: bindO_def)

lemma simple_ops [simp]: "retO a w = (w, Inr a)" "failO e w = (w, Inl e)" "readO f w = (w, f w)" "updO g w = (g w, Inr ())"
  by (simp_all add: retO_def failO_def readO_def updO_def)

section \<open>State\<close>

datatype cursor_state = CURSOR_VALID | CURSOR_INVALID | CURSOR_EOF

record cursor_level =
  lvEntry :: ref
  lvIdx :: int

record cursor =
  curRoot :: hash
  curFlags :: byte
  iLevel :: nat
  curLevels :: "cursor_level list"
  eState :: cursor_state

text \<open>The store, the cache, and for the operations of a cursor the cursor.\<close>

record 's env =
  eStore :: 's
  eCache :: cache

record 's cenv = "'s env" +
  eCur :: cursor

type_synonym 's chunk_get = "'s \<Rightarrow> hash \<Rightarrow> 's \<times> byte list res"

definition prollyCursorInit :: "hash \<Rightarrow> byte \<Rightarrow> cursor" where
  "prollyCursorInit root fl =
     \<lparr>curRoot = root, curFlags = fl, iLevel = 0,
      curLevels = replicate PROLLY_CURSOR_MAX_DEPTH \<lparr>lvEntry = Null, lvIdx = 0\<rparr>, eState = CURSOR_INVALID\<rparr>"

text \<open>Reading and writing \<open>cur->aLevel[j]\<close>, and the node of a cache entry.\<close>

definition level_at :: "nat \<Rightarrow> ('s cenv, cursor_level) op" where
  "level_at j = readO (\<lambda>w. if j < length (curLevels (eCur w)) then Inr (curLevels (eCur w) ! j) else Inl OUT_OF_BOUNDS)"

definition set_level :: "nat \<Rightarrow> (cursor_level \<Rightarrow> cursor_level) \<Rightarrow> 's cenv \<Rightarrow> 's cenv" where
  "set_level j f w = w\<lparr>eCur := (eCur w)\<lparr>curLevels := (curLevels (eCur w))[j := f (curLevels (eCur w) ! j)]\<rparr>\<rparr>"

definition set_ilevel :: "nat \<Rightarrow> 's cenv \<Rightarrow> 's cenv" where
  "set_ilevel j w = w\<lparr>eCur := (eCur w)\<lparr>iLevel := j\<rparr>\<rparr>"

definition set_state :: "cursor_state \<Rightarrow> 's cenv \<Rightarrow> 's cenv" where
  "set_state s w = w\<lparr>eCur := (eCur w)\<lparr>eState := s\<rparr>\<rparr>"

definition get_ilevel :: "('s cenv, nat) op" where
  "get_ilevel = readO (\<lambda>w. Inr (iLevel (eCur w)))"

definition get_state :: "('s cenv, cursor_state) op" where
  "get_state = readO (\<lambda>w. Inr (eState (eCur w)))"

definition node_of :: "ref \<Rightarrow> (('s, 'z) env_scheme, node) op" where
  "node_of p = readO (\<lambda>w. bindR (deref (eCache w) p) (\<lambda>e. Inr (ceNode e)))"

definition release :: "ref \<Rightarrow> (('s, 'z) env_scheme, unit) op" where
  "release p = (\<lambda>w. case prollyCacheRelease (eCache w) p of Inl e \<Rightarrow> (w, Inl e) | Inr ca \<Rightarrow> (w\<lparr>eCache := ca\<rparr>, Inr ()))"

section \<open>Loading and descending\<close>

definition loadNode :: "'s chunk_get \<Rightarrow> hash \<Rightarrow> (('s, 'z) env_scheme, ref) op" where
  "loadNode get h = (\<lambda>w.
     case prollyCacheGet (eCache w) h of
       Inl e \<Rightarrow> (w, Inl e)
     | Inr (ca, p) \<Rightarrow>
         let w = w\<lparr>eCache := ca\<rparr> in
         if p \<noteq> Null then (w, Inr p)
         else
           case get (eStore w) h of
             (st, Inl rc) \<Rightarrow> (w\<lparr>eStore := st\<rparr>, Inl rc)
           | (st, Inr d) \<Rightarrow>
               let w = w\<lparr>eStore := st\<rparr> in
               case prollyCachePut (eCache w) h d of
                 Inl e \<Rightarrow> (w, Inl e)
               | Inr (ca, r) \<Rightarrow> (w\<lparr>eCache := ca\<rparr>, r))"

fun release_levels :: "nat list \<Rightarrow> ('s cenv, unit) op" where
  "release_levels [] = retO ()"
| "release_levels (i # is) =
     bindO (level_at i) (\<lambda>lv.
     bindO (if lvEntry lv \<noteq> Null then
              bindO (release (lvEntry lv)) (\<lambda>_. updO (set_level i (\<lambda>_. \<lparr>lvEntry = Null, lvIdx = 0\<rparr>)))
            else retO ()) (\<lambda>_.
     release_levels is))"

definition prollyCursorReleaseAll :: "('s cenv, unit) op" where
  "prollyCursorReleaseAll =
     bindO (release_levels [0..<PROLLY_CURSOR_MAX_DEPTH]) (\<lambda>_.
     bindO (updO (set_ilevel 0)) (\<lambda>_. updO (set_state CURSOR_INVALID)))"

definition prollyCursorClose :: "('s cenv, unit) op" where
  "prollyCursorClose = prollyCursorReleaseAll"

definition initCursorAtRoot :: "'s chunk_get \<Rightarrow> ('s cenv, ref) op" where
  "initCursorAtRoot get =
     bindO prollyCursorReleaseAll (\<lambda>_.
     bindO (readO (\<lambda>w. Inr (curRoot (eCur w)))) (\<lambda>root.
     if prollyHashIsEmpty root then bindO (updO (set_state CURSOR_EOF)) (\<lambda>_. retO Null)
     else
       bindO (loadNode get root) (\<lambda>pRoot.
       bindO (updO (set_ilevel 0)) (\<lambda>_.
       bindO (updO (set_level 0 (\<lambda>_. \<lparr>lvEntry = pRoot, lvIdx = 0\<rparr>))) (\<lambda>_. retO pRoot)))))"

definition descendToChild :: "'s chunk_get \<Rightarrow> int \<Rightarrow> int \<Rightarrow> ('s cenv, ref) op" where
  "descendToChild get childSlot childIdx =
     bindO get_ilevel (\<lambda>l. bindO (level_at l) (\<lambda>parent.
     bindO (node_of (lvEntry parent)) (\<lambda>nd.
     bindO (readO (\<lambda>_. bindR (guardR (0 \<le> childSlot) OUT_OF_BOUNDS) (\<lambda>_. prollyNodeChildHash nd (nat childSlot)))) (\<lambda>childHash.
     bindO (updO (set_ilevel (l + 1))) (\<lambda>_.
     if l + 1 \<ge> PROLLY_CURSOR_MAX_DEPTH then failO SQLITE_CORRUPT
     else
       bindO (loadNode get childHash) (\<lambda>child.
       bindO (updO (set_level (l + 1) (\<lambda>_. \<lparr>lvEntry = child, lvIdx = childIdx\<rparr>))) (\<lambda>_. retO child)))))))"

text \<open>The loop of \<open>descendToExtremeLeaf\<close> ends because every round goes one level down.\<close>

fun descend_extreme :: "nat \<Rightarrow> 's chunk_get \<Rightarrow> bool \<Rightarrow> ('s cenv, unit) op" where
  "descend_extreme 0 get bRight = failO NO_RETURN"
| "descend_extreme (Suc n) get bRight =
     bindO get_ilevel (\<lambda>l. bindO (level_at l) (\<lambda>lv. bindO (node_of (lvEntry lv)) (\<lambda>nd.
     if level nd > 0 then
       bindO (descendToChild get (lvIdx lv) 0) (\<lambda>child.
       bindO (node_of child) (\<lambda>cnd.
       bindO get_ilevel (\<lambda>l.
       bindO (updO (set_level l (\<lambda>lv. lv\<lparr>lvIdx := (if bRight then int (nItems cnd) - 1 else 0)\<rparr>))) (\<lambda>_.
       descend_extreme n get bRight))))
     else retO ())))"

definition descendToExtremeLeaf :: "'s chunk_get \<Rightarrow> bool \<Rightarrow> ('s cenv, unit) op" where
  "descendToExtremeLeaf get bRight = descend_extreme (PROLLY_CURSOR_MAX_DEPTH + 1) get bRight"

definition finalizeExtremeCursor :: "('s cenv, int) op" where
  "finalizeExtremeCursor =
     bindO get_ilevel (\<lambda>l. bindO (level_at l) (\<lambda>lv. bindO (node_of (lvEntry lv)) (\<lambda>nd.
     if nItems nd = 0 then bindO (updO (set_state CURSOR_EOF)) (\<lambda>_. retO 1)
     else bindO (updO (set_state CURSOR_VALID)) (\<lambda>_. retO 0))))"

section \<open>Moving\<close>

text \<open>The results are \<open>*pRes\<close>.\<close>

definition prollyCursorFirst :: "'s chunk_get \<Rightarrow> ('s cenv, int) op" where
  "prollyCursorFirst get =
     bindO (initCursorAtRoot get) (\<lambda>_.
     bindO get_state (\<lambda>s.
     if s = CURSOR_EOF then retO 1
     else bindO (descendToExtremeLeaf get False) (\<lambda>_. finalizeExtremeCursor)))"

definition prollyCursorLast :: "'s chunk_get \<Rightarrow> ('s cenv, int) op" where
  "prollyCursorLast get =
     bindO (initCursorAtRoot get) (\<lambda>pRoot.
     bindO get_state (\<lambda>s.
     if s = CURSOR_EOF then retO 1
     else
       bindO (node_of pRoot) (\<lambda>nd.
       if nItems nd = 0 then bindO (updO (set_state CURSOR_EOF)) (\<lambda>_. retO 1)
       else
         bindO (updO (set_ilevel 0)) (\<lambda>_.
         bindO (updO (set_level 0 (\<lambda>lv. lv\<lparr>lvIdx := int (nItems nd) - 1\<rparr>))) (\<lambda>_.
         bindO (descendToExtremeLeaf get True) (\<lambda>_. finalizeExtremeCursor))))))"

text \<open>The loop that walks up from an exhausted leaf.\<close>

primrec next_up :: "'s chunk_get \<Rightarrow> nat \<Rightarrow> ('s cenv, unit) op" where
  "next_up get 0 = updO (set_state CURSOR_EOF)"
| "next_up get (Suc l) =
     bindO (level_at (Suc l)) (\<lambda>lv.
     bindO (release (lvEntry lv)) (\<lambda>_.
     bindO (updO (set_level (Suc l) (\<lambda>lv. lv\<lparr>lvEntry := Null\<rparr>))) (\<lambda>_.
     bindO (level_at l) (\<lambda>lv. bindO (node_of (lvEntry lv)) (\<lambda>nd.
     if lvIdx lv < int (nItems nd) - 1 then
       bindO (updO (set_level l (\<lambda>lv. lv\<lparr>lvIdx := lvIdx lv + 1\<rparr>))) (\<lambda>_.
       bindO (updO (set_ilevel l)) (\<lambda>_.
       bindO (descendToExtremeLeaf get False) (\<lambda>_. updO (set_state CURSOR_VALID))))
     else next_up get l)))))"

definition prollyCursorNext :: "'s chunk_get \<Rightarrow> ('s cenv, unit) op" where
  "prollyCursorNext get =
     bindO get_state (\<lambda>s. bindO (readO (\<lambda>_. guardR (s = CURSOR_VALID) OUT_OF_BOUNDS)) (\<lambda>_.
     bindO get_ilevel (\<lambda>l. bindO (level_at l) (\<lambda>lv. bindO (node_of (lvEntry lv)) (\<lambda>nd.
     if lvIdx lv < int (nItems nd) - 1 then updO (set_level l (\<lambda>lv. lv\<lparr>lvIdx := lvIdx lv + 1\<rparr>))
     else next_up get l)))))"

primrec prev_up :: "'s chunk_get \<Rightarrow> nat \<Rightarrow> ('s cenv, unit) op" where
  "prev_up get 0 = updO (set_state CURSOR_EOF)"
| "prev_up get (Suc l) =
     bindO (level_at (Suc l)) (\<lambda>lv.
     bindO (release (lvEntry lv)) (\<lambda>_.
     bindO (updO (set_level (Suc l) (\<lambda>lv. lv\<lparr>lvEntry := Null\<rparr>))) (\<lambda>_.
     bindO (level_at l) (\<lambda>lv.
     if lvIdx lv > 0 then
       bindO (updO (set_level l (\<lambda>lv. lv\<lparr>lvIdx := lvIdx lv - 1\<rparr>))) (\<lambda>_.
       bindO (updO (set_ilevel l)) (\<lambda>_.
       bindO (descendToExtremeLeaf get True) (\<lambda>_. updO (set_state CURSOR_VALID))))
     else prev_up get l))))"

definition prollyCursorPrev :: "'s chunk_get \<Rightarrow> ('s cenv, unit) op" where
  "prollyCursorPrev get =
     bindO get_state (\<lambda>s. bindO (readO (\<lambda>_. guardR (s = CURSOR_VALID) OUT_OF_BOUNDS)) (\<lambda>_.
     bindO get_ilevel (\<lambda>l. bindO (level_at l) (\<lambda>lv.
     if lvIdx lv > 0 then updO (set_level l (\<lambda>lv. lv\<lparr>lvIdx := lvIdx lv - 1\<rparr>))
     else prev_up get l))))"

section \<open>Seeking\<close>

definition childIndexForSearchResult :: "int \<Rightarrow> int \<Rightarrow> nat \<Rightarrow> int" where
  "childIndexForSearchResult idx searchRes n = (if searchRes > 0 \<and> idx < int n - 1 then idx + 1 else idx)"

definition finalizeSeekOnLeaf :: "'s chunk_get \<Rightarrow> ref \<Rightarrow> int \<Rightarrow> int \<Rightarrow> ('s cenv, int) op" where
  "finalizeSeekOnLeaf get pLeaf leafIdx leafRes =
     bindO get_ilevel (\<lambda>l.
     bindO (updO (set_level l (\<lambda>lv. lv\<lparr>lvIdx := leafIdx\<rparr>))) (\<lambda>_.
     if leafRes = 0 then bindO (updO (set_state CURSOR_VALID)) (\<lambda>_. retO 0)
     else
       bindO (node_of pLeaf) (\<lambda>nd.
       if leafIdx \<ge> int (nItems nd) then
         bindO (updO (set_level l (\<lambda>lv. lv\<lparr>lvIdx := int (nItems nd) - 1\<rparr>))) (\<lambda>_.
         bindO (updO (set_state CURSOR_VALID)) (\<lambda>_.
         bindO (prollyCursorNext get) (\<lambda>_.
         bindO get_state (\<lambda>s.
         if s = CURSOR_EOF then bindO (prollyCursorLast get) (\<lambda>_. retO (-1)) else retO 1))))
       else bindO (updO (set_state CURSOR_VALID)) (\<lambda>_. retO (if leafRes < 0 then 1 else -1)))))"

fun seek_descend :: "nat \<Rightarrow> 's chunk_get \<Rightarrow> byte list \<Rightarrow> ref \<Rightarrow> ('s cenv, ref) op" where
  "seek_descend 0 get key p = failO NO_RETURN"
| "seek_descend (Suc n) get key p =
     bindO (node_of p) (\<lambda>nd.
     if level nd > 0 then
       bindO (readO (\<lambda>_. prollyNodeSearchBlob nd key)) (\<lambda>(i, searchRes).
       let idx = childIndexForSearchResult (int i) searchRes (nItems nd) in
       bindO get_ilevel (\<lambda>l.
       bindO (updO (set_level l (\<lambda>lv. lv\<lparr>lvIdx := idx\<rparr>))) (\<lambda>_.
       bindO (descendToChild get idx 0) (\<lambda>child. seek_descend n get key child))))
     else retO p)"

definition prollyCursorSeekBlob :: "'s chunk_get \<Rightarrow> byte list \<Rightarrow> ('s cenv, int) op" where
  "prollyCursorSeekBlob get key =
     bindO (initCursorAtRoot get) (\<lambda>p.
     bindO get_state (\<lambda>s.
     if s = CURSOR_EOF then bindO (updO (set_state CURSOR_INVALID)) (\<lambda>_. retO (-1))
     else
       bindO (seek_descend (PROLLY_CURSOR_MAX_DEPTH + 1) get key p) (\<lambda>p.
       bindO (node_of p) (\<lambda>nd.
       if nItems nd = 0 then bindO (updO (set_state CURSOR_EOF)) (\<lambda>_. retO (-1))
       else
         bindO (readO (\<lambda>_. prollyNodeSearchBlob nd key)) (\<lambda>(leafIdx, leafRes).
         finalizeSeekOnLeaf get p (int leafIdx) leafRes)))))"

definition prollyCursorSeekInt :: "'s chunk_get \<Rightarrow> u64 \<Rightarrow> ('s cenv, int) op" where
  "prollyCursorSeekInt get intKey = prollyCursorSeekBlob get (prollyEncodeIntKey intKey)"

section \<open>Reading at the position\<close>

definition prollyCursorIsValid :: "cursor \<Rightarrow> bool" where
  "prollyCursorIsValid cur \<longleftrightarrow> eState cur = CURSOR_VALID"

definition at_leaf :: "(node \<Rightarrow> nat \<Rightarrow> 'a res) \<Rightarrow> ('s cenv, 'a) op" where
  "at_leaf f =
     bindO get_state (\<lambda>s. bindO (readO (\<lambda>_. guardR (s = CURSOR_VALID) OUT_OF_BOUNDS)) (\<lambda>_.
     bindO get_ilevel (\<lambda>l. bindO (level_at l) (\<lambda>lv. bindO (node_of (lvEntry lv)) (\<lambda>nd.
     readO (\<lambda>_. bindR (guardR (0 \<le> lvIdx lv) OUT_OF_BOUNDS) (\<lambda>_. f nd (nat (lvIdx lv)))))))))"

definition prollyCursorKey :: "('s cenv, byte list) op" where
  "prollyCursorKey = at_leaf prollyNodeKey"

definition prollyCursorIntKey :: "('s cenv, u64) op" where
  "prollyCursorIntKey = at_leaf prollyNodeIntKey"

definition prollyCursorValue :: "('s cenv, byte list) op" where
  "prollyCursorValue = at_leaf prollyNodeValue"

end
