(* ===== verification/CursorInv.thy ===== *)
theory CursorInv
  imports Cursor TreeSpec Interfaces CacheRun
begin

text \<open>
  Cursors on a store that keeps the contract of chunk stores: the references that a cursor holds into the
  node cache, the position of a cursor as the number of a row of the tree, and the way down to a leaf.
\<close>

section \<open>A node in the cache\<close>

definition cached :: "(byte list \<Rightarrow> hash) \<Rightarrow> byte \<Rightarrow> cache \<Rightarrow> ref \<Rightarrow> nat \<Rightarrow> row list \<Rightarrow> bool" where
  "cached H fl ca p l its \<longleftrightarrow> p \<noteq> Null \<and> p \<in> dom (cHeap ca) \<and> storable (of_nat l) fl its \<and> l < PROLLY_CURSOR_MAX_DEPTH \<and>
     (\<exists>nd. view ca p = (H (node_bytes (of_nat l) fl its), node_bytes (of_nat l) fl its, nd) \<and>
        prollyNodeParse (node_bytes (of_nat l) fl its) = Inr nd)"

lemma of_nat_level: "l < PROLLY_CURSOR_MAX_DEPTH \<Longrightarrow> (of_nat l :: byte) > 0 \<longleftrightarrow> 0 < l"
proof -
  assume "l < PROLLY_CURSOR_MAX_DEPTH"
  then have "unat (of_nat l :: byte) = l" by (simp add: unsigned_of_nat take_bit_eq_mod PROLLY_CURSOR_MAX_DEPTH_def)
  then show ?thesis by (simp add: word_less_nat_alt)
qed

lemma cached_node:
  assumes "cached H fl ca p l its"
  shows "deref ca p = Inr (ent ca p)" "node_holds (ceNode (ent ca p)) its" "nItems (ceNode (ent ca p)) = length its"
    "level (ceNode (ent ca p)) > 0 \<longleftrightarrow> 0 < l" "its \<noteq> []"
    "i < length its \<Longrightarrow> 0 < l \<Longrightarrow> prollyNodeChildHash (ceNode (ent ca p)) i = Inr (snd (its ! i))"
proof -
  let ?d = "node_bytes (of_nat l) fl its" and ?nd = "ceNode (ent ca p)"
  have st: "storable (of_nat l) fl its" and l: "l < PROLLY_CURSOR_MAX_DEPTH" and p: "prollyNodeParse ?d = Inr ?nd" "p \<in> dom (cHeap ca)"
    using assms by (auto simp: cached_def view_ent)
  have n: "node_holds ?nd its" "level ?nd = of_nat l" using node_bytes_parse [OF st] p by auto
  show "deref ca p = Inr (ent ca p)" "node_holds ?nd its" using p n by simp_all
  show nn: "nItems ?nd = length its" using n by (simp add: node_holds_def)
  show lv: "level ?nd > 0 \<longleftrightarrow> 0 < l" using n of_nat_level [OF l] by simp
  show "its \<noteq> []" using st by (simp add: storable_def)
  show "prollyNodeChildHash ?nd i = Inr (snd (its ! i))" if "i < length its" "0 < l"
    using prollyNodeChildHash_value [OF prollyNodeParse_wf(1) [OF p(1)], of i] that nn lv n(1) by (auto simp: node_holds_def)
qed

lemma cached_keeps: "cached H fl ca p l its \<Longrightarrow> view ca' p = view ca p \<Longrightarrow> p \<in> dom (cHeap ca') \<Longrightarrow> cached H fl ca' p l its"
  by (auto simp: cached_def)

lemma cache_inv_dom: "cache_inv H U ca R \<Longrightarrow> p \<in># R \<Longrightarrow> p \<in> dom (cHeap ca) \<and> p \<noteq> Null"
proof -
  assume i: "cache_inv H U ca R" and p: "p \<in># R"
  obtain xs css where s: "cache_shape ca xs css" "cache_entries H U ca (set xs) R" using i by (auto simp: cache_inv_def)
  then have "p \<in> set xs" using p by (auto simp: cache_entries_def)
  then show ?thesis using shape_bounds(3) [OF s(1)] shape_dom [OF s(1)] by blast
qed

section \<open>The references of a cursor\<close>

definition cur_refs :: "cursor \<Rightarrow> ref multiset" where
  "cur_refs cur = filter_mset (\<lambda>p. p \<noteq> Null) (mset (map lvEntry (curLevels cur)))"

lemma cur_refs_same: "j < length (curLevels cur) \<Longrightarrow> lvEntry lv = lvEntry (curLevels cur ! j) \<Longrightarrow>
    cur_refs (cur\<lparr>curLevels := (curLevels cur)[j := lv]\<rparr>) = cur_refs cur"
proof -
  assume j: "j < length (curLevels cur)" "lvEntry lv = lvEntry (curLevels cur ! j)"
  have "map lvEntry ((curLevels cur)[j := lv]) = map lvEntry (curLevels cur)"
    unfolding map_update j(2) using nth_map [OF j(1), of lvEntry] list_update_id [of "map lvEntry (curLevels cur)" j] by simp
  then show ?thesis by (simp add: cur_refs_def)
qed

lemma cur_refs_set: "j < length (curLevels cur) \<Longrightarrow> lvEntry (curLevels cur ! j) = Null \<Longrightarrow> lvEntry lv \<noteq> Null \<Longrightarrow>
    cur_refs (cur\<lparr>curLevels := (curLevels cur)[j := lv]\<rparr>) = add_mset (lvEntry lv) (cur_refs cur)"
  by (simp add: cur_refs_def map_update mset_update)

lemma cur_refs_clear: "j < length (curLevels cur) \<Longrightarrow> lvEntry (curLevels cur ! j) \<noteq> Null \<Longrightarrow> lvEntry lv = Null \<Longrightarrow>
    cur_refs (cur\<lparr>curLevels := (curLevels cur)[j := lv]\<rparr>) = cur_refs cur - {#lvEntry (curLevels cur ! j)#} \<and>
    lvEntry (curLevels cur ! j) \<in># cur_refs cur"
  by (auto simp: cur_refs_def map_update mset_update)

lemma cur_refs_fields [simp]: "cur_refs (cur\<lparr>iLevel := l\<rparr>) = cur_refs cur" "cur_refs (cur\<lparr>eState := s\<rparr>) = cur_refs cur"
  by (simp_all add: cur_refs_def)

section \<open>Cursors on a store\<close>

text \<open>A store of chunks that can be read by hash.\<close>

locale tree_reader = chunk_reader inv chunks U hash get
  for inv :: "'s \<Rightarrow> bool" and chunks :: "'s \<Rightarrow> byte list set" and U :: "byte list set"
    and hash :: "byte list \<Rightarrow> hash" and get :: "'s \<Rightarrow> hash \<Rightarrow> 's \<times> byte list res"
begin

definition env_ok :: "('s, 'z) env_scheme \<Rightarrow> ref multiset \<Rightarrow> bool" where
  "env_ok w R \<longleftrightarrow> inv (eStore w) \<and> chunks (eStore w) \<subseteq> U \<and> cache_inv hash U (eCache w) R"

lemma loadNode_ok:
  assumes ok: "env_ok w R" and d: "d \<in> chunks (eStore w)" "prollyNodeParse d = Inr nd"
  shows "\<exists>st ca p. loadNode get (hash d) w = (w\<lparr>eStore := st, eCache := ca\<rparr>, Inr p) \<and>
     env_ok (w\<lparr>eStore := st, eCache := ca\<rparr>) (add_mset p R) \<and> chunks st = chunks (eStore w) \<and>
     view ca p = (hash d, d, nd) \<and> keeps (eCache w) ca R"
proof -
  have i: "inv (eStore w)" "chunks (eStore w) \<subseteq> U" "cache_inv hash U (eCache w) R" using ok by (simp_all add: env_ok_def)
  have dU: "d \<in> U" using d(1) i(2) by blast
  have h: "hash_ok (hash d)" using i(3) dU by (simp add: cache_inv_def hashing_def)
  from i(3) h show ?thesis
  proof (cases rule: prollyCacheGet_ok)
    case (hit ca' p)
    have "p \<in># add_mset p R" by simp
    from entry_view [OF hit(3) this hit(4) dU] d(2) have v: "view ca' p = (hash d, d, nd)" by simp
    have "loadNode get (hash d) w = (w\<lparr>eStore := eStore w, eCache := ca'\<rparr>, Inr p)"
      using hit(1,2) by (simp add: loadNode_def)
    moreover have "env_ok (w\<lparr>eStore := eStore w, eCache := ca'\<rparr>) (add_mset p R)" using i hit(3) by (simp add: env_ok_def)
    ultimately show ?thesis using v hit(5) by (intro exI [of _ "eStore w"] exI [of _ ca'] exI [of _ p]) (simp add: keeps_def)
  next
    case miss
    obtain st where st: "get (eStore w) (hash d) = (st, Inr d)" "inv st" "chunks st = chunks (eStore w)"
      using get_ok [OF i(1) d(1)] by blast
    obtain ca' r where p: "prollyCachePut (eCache w) (hash d) d = Inr (ca', r)" "put_post hash U (eCache w) R d ca' r"
      using prollyCachePut_ok [OF i(3) dU] by blast
    obtain q where r: "r = Inr q" using p(2) d(2) by (cases r) (auto simp: put_post_def)
    have q: "cache_inv hash U ca' (add_mset q R)" "view ca' q = (hash d, d, nd)" "keeps (eCache w) ca' R"
      using p(2) r d(2) by (auto simp: put_post_def)
    have "loadNode get (hash d) w = (w\<lparr>eStore := st, eCache := ca'\<rparr>, Inr q)"
      using miss(1) st(1) p(1) r by (simp add: loadNode_def Let_def)
    moreover have "env_ok (w\<lparr>eStore := st, eCache := ca'\<rparr>) (add_mset q R)" using i st q by (simp add: env_ok_def)
    ultimately show ?thesis using q st(3) by blast
  qed
qed

lemma release_ref_ok:
  assumes ok: "env_ok w R" and p: "p \<in># R"
  shows "\<exists>ca. release p w = (w\<lparr>eCache := ca\<rparr>, Inr ()) \<and> env_ok (w\<lparr>eCache := ca\<rparr>) (R - {#p#}) \<and>
     (\<forall>q. view ca q = view (eCache w) q)"
proof -
  have "cache_inv hash U (eCache w) R" using ok by (simp add: env_ok_def)
  from prollyCacheRelease_ok [OF this p] ok show ?thesis by (auto simp: release_def env_ok_def)
qed

text \<open>
  \<open>R\<close> are the references that others hold.  What an operation of the cursor leaves alone: the
  chunks, the root, and what the others see.
\<close>

definition cur_ok :: "'s cenv \<Rightarrow> ref multiset \<Rightarrow> bool" where
  "cur_ok w R \<longleftrightarrow> env_ok w (cur_refs (eCur w) + R) \<and> length (curLevels (eCur w)) = PROLLY_CURSOR_MAX_DEPTH"

definition stays :: "ref multiset \<Rightarrow> 's cenv \<Rightarrow> 's cenv \<Rightarrow> bool" where
  "stays R w w' \<longleftrightarrow> chunks (eStore w') = chunks (eStore w) \<and> curRoot (eCur w') = curRoot (eCur w) \<and>
     keeps (eCache w) (eCache w') R"

lemma stays_refl [simp]: "stays R w w" by (simp add: stays_def)

lemma stays_trans: "stays R a b \<Longrightarrow> stays R b c \<Longrightarrow> stays R a c"
  unfolding stays_def by (metis keeps_trans)

definition lev :: "'s cenv \<Rightarrow> nat \<Rightarrow> cursor_level" where
  "lev w j = curLevels (eCur w) ! j"

lemma level_at_ok [simp]: "cur_ok w R \<Longrightarrow> j < PROLLY_CURSOR_MAX_DEPTH \<Longrightarrow> level_at j w = (w, Inr (lev w j))"
  by (simp add: level_at_def cur_ok_def lev_def)

text \<open>Moving the position at a level.\<close>

lemma set_idx_ok:
  fixes f :: "cursor_level \<Rightarrow> cursor_level"
  assumes "cur_ok w R" "j < PROLLY_CURSOR_MAX_DEPTH" "lvEntry (f (lev w j)) = lvEntry (lev w j)"
  defines "w' \<equiv> set_level j f w"
  shows "cur_ok w' R" "stays R w w'" "lev w' k = (if k = j then f (lev w j) else lev w k)"
    "iLevel (eCur w') = iLevel (eCur w)" "eState (eCur w') = eState (eCur w)" "eCache w' = eCache w" "eStore w' = eStore w"
    "cur_refs (eCur w') = cur_refs (eCur w)"
  using assms(1-3) cur_refs_same [of j "eCur w" "f (curLevels (eCur w) ! j)"]
  by (auto simp: w'_def set_level_def cur_ok_def env_ok_def stays_def lev_def keeps_def nth_list_update)

lemma set_ilevel_ok:
  fixes j :: nat
  assumes "cur_ok w R"
  defines "w' \<equiv> set_ilevel j w"
  shows "cur_ok w' R" "stays R w w'" "lev w' k = lev w k" "iLevel (eCur w') = j" "eState (eCur w') = eState (eCur w)"
    "eCache w' = eCache w" "eStore w' = eStore w" "cur_refs (eCur w') = cur_refs (eCur w)"
  using assms(1) by (simp_all add: w'_def set_ilevel_def cur_ok_def env_ok_def stays_def lev_def keeps_def)

lemma set_state_ok:
  fixes s :: cursor_state
  assumes "cur_ok w R"
  defines "w' \<equiv> set_state s w"
  shows "cur_ok w' R" "stays R w w'" "lev w' k = lev w k" "iLevel (eCur w') = iLevel (eCur w)" "eState (eCur w') = s"
    "eCache w' = eCache w" "eStore w' = eStore w" "cur_refs (eCur w') = cur_refs (eCur w)"
  using assms(1) by (simp_all add: w'_def set_state_def cur_ok_def env_ok_def stays_def lev_def keeps_def)

text \<open>Loading a node into an empty level.\<close>

lemma load_level_ok:
  assumes ok: "cur_ok w R" and j: "j < PROLLY_CURSOR_MAX_DEPTH" "lvEntry (lev w j) = Null"
    and d: "d \<in> chunks (eStore w)" "prollyNodeParse d = Inr nd"
  shows "\<exists>w1 p. loadNode get (hash d) w = (w1, Inr p) \<and> iLevel (eCur w1) = iLevel (eCur w) \<and> eState (eCur w1) = eState (eCur w) \<and>
     (let w' = set_level j (\<lambda>_. \<lparr>lvEntry = p, lvIdx = i\<rparr>) w1 in
       cur_ok w' R \<and> stays R w w' \<and> (\<forall>k. lev w' k = (if k = j then \<lparr>lvEntry = p, lvIdx = i\<rparr> else lev w k)) \<and>
       iLevel (eCur w') = iLevel (eCur w) \<and> eState (eCur w') = eState (eCur w) \<and>
       view (eCache w') p = (hash d, d, nd) \<and> p \<in> dom (cHeap (eCache w')) \<and> p \<noteq> Null \<and>
       keeps (eCache w) (eCache w') (cur_refs (eCur w)) \<and> (\<forall>q \<in># cur_refs (eCur w). q \<in> dom (cHeap (eCache w'))))"
proof -
  have e: "env_ok w (cur_refs (eCur w) + R)" and len: "length (curLevels (eCur w)) = PROLLY_CURSOR_MAX_DEPTH"
    using ok by (simp_all add: cur_ok_def)
  obtain st ca p where l: "loadNode get (hash d) w = (w\<lparr>eStore := st, eCache := ca\<rparr>, Inr p)"
    "env_ok (w\<lparr>eStore := st, eCache := ca\<rparr>) (add_mset p (cur_refs (eCur w) + R))" "chunks st = chunks (eStore w)"
    "view ca p = (hash d, d, nd)" "keeps (eCache w) ca (cur_refs (eCur w) + R)"
    using loadNode_ok [OF e d] by blast
  have ci: "cache_inv hash U ca (add_mset p (cur_refs (eCur w) + R))" using l(2) by (simp add: env_ok_def)
  have p: "p \<in> dom (cHeap ca)" "p \<noteq> Null" using cache_inv_dom [OF ci, of p] by simp_all
  have dm: "\<forall>q \<in># cur_refs (eCur w). q \<in> dom (cHeap ca)" using cache_inv_dom [OF ci] by auto
  let ?w1 = "w\<lparr>eStore := st, eCache := ca\<rparr>"
  let ?w' = "set_level j (\<lambda>_. \<lparr>lvEntry = p, lvIdx = i\<rparr>) ?w1"
  have rf: "cur_refs (eCur ?w') = add_mset p (cur_refs (eCur w))"
    using cur_refs_set [of j "eCur w" "\<lparr>lvEntry = p, lvIdx = i\<rparr>"] j len p(2) by (simp add: set_level_def lev_def)
  have "cur_ok ?w' R" using l(2) len rf by (simp add: cur_ok_def env_ok_def set_level_def)
  moreover have "stays R w ?w'" using l(3,5) by (simp add: stays_def set_level_def keeps_def)
  moreover have "lev ?w' k = (if k = j then \<lparr>lvEntry = p, lvIdx = i\<rparr> else lev w k)" for k
    using j(1) len by (simp add: lev_def set_level_def nth_list_update)
  ultimately show ?thesis
    using l(1,4,5) p dm by (intro exI [of _ ?w1] exI [of _ p]) (simp add: Let_def set_level_def keeps_def)
qed

text \<open>Giving the reference of a level back.\<close>

lemma release_level_ok:
  assumes ok: "cur_ok w R" and j: "j < PROLLY_CURSOR_MAX_DEPTH" "lvEntry (lev w j) \<noteq> Null"
  shows "\<exists>w1. release (lvEntry (lev w j)) w = (w1, Inr ()) \<and> cur_refs (eCur w1) = cur_refs (eCur w) \<and> 
     (\<forall>f. lvEntry (f (lev w j)) = Null \<longrightarrow> (let w' = set_level j f w1 in
       cur_ok w' R \<and> stays R w w' \<and> (\<forall>k. lev w' k = (if k = j then f (lev w j) else lev w k)) \<and>
       iLevel (eCur w') = iLevel (eCur w) \<and> eState (eCur w') = eState (eCur w) \<and>
       (\<forall>q. view (eCache w') q = view (eCache w) q) \<and> (\<forall>q \<in># cur_refs (eCur w'). q \<in> dom (cHeap (eCache w')))))"
proof -
  have e: "env_ok w (cur_refs (eCur w) + R)" and len: "length (curLevels (eCur w)) = PROLLY_CURSOR_MAX_DEPTH"
    using ok by (simp_all add: cur_ok_def)
  let ?p = "lvEntry (lev w j)"
  have pin: "?p \<in># cur_refs (eCur w)"
    using cur_refs_clear [of j "eCur w" "\<lparr>lvEntry = Null, lvIdx = 0\<rparr>"] j len by (simp add: lev_def)
  then have "?p \<in># cur_refs (eCur w) + R" by simp
  from release_ref_ok [OF e this] obtain ca where r: "release ?p w = (w\<lparr>eCache := ca\<rparr>, Inr ())"
    "env_ok (w\<lparr>eCache := ca\<rparr>) (cur_refs (eCur w) + R - {#?p#})" "\<forall>q. view ca q = view (eCache w) q" by blast
  have sub: "cur_refs (eCur w) + R - {#?p#} = (cur_refs (eCur w) - {#?p#}) + R" using pin by simp
  let ?w1 = "w\<lparr>eCache := ca\<rparr>"
  have ci: "cache_inv hash U ca (cur_refs (eCur w) - {#?p#} + R)" using r(2) sub by (simp add: env_ok_def)
  have "let w' = set_level j f ?w1 in
       cur_ok w' R \<and> stays R w w' \<and> (\<forall>k. lev w' k = (if k = j then f (lev w j) else lev w k)) \<and>
       iLevel (eCur w') = iLevel (eCur w) \<and> eState (eCur w') = eState (eCur w) \<and>
       (\<forall>q. view (eCache w') q = view (eCache w) q) \<and> (\<forall>q \<in># cur_refs (eCur w'). q \<in> dom (cHeap (eCache w')))"
    if f: "lvEntry (f (lev w j)) = Null" for f
  proof -
    let ?w' = "set_level j f ?w1"
    have rf: "cur_refs (eCur ?w') = cur_refs (eCur w) - {#?p#}"
      using cur_refs_clear [of j "eCur w" "f (lev w j)"] j len f by (simp add: set_level_def lev_def)
    have "cur_ok ?w' R" using r(2) sub len rf by (simp add: cur_ok_def env_ok_def set_level_def)
    moreover have "stays R w ?w'" using r(3) by (simp add: stays_def set_level_def keeps_def)
    moreover have "lev ?w' k = (if k = j then f (lev w j) else lev w k)" for k
      using j(1) len by (simp add: lev_def set_level_def nth_list_update)
    moreover have "\<forall>q \<in># cur_refs (eCur ?w'). q \<in> dom (cHeap ca)" using cache_inv_dom [OF ci] rf by auto
    ultimately show ?thesis using r(3) by (simp add: Let_def set_level_def)
  qed
  then show ?thesis using r(1) by (intro exI [of _ ?w1]) simp
qed

end

section \<open>Positions\<close>

context tree_reader
begin

definition at_node :: "byte \<Rightarrow> 's cenv \<Rightarrow> nat \<Rightarrow> nat \<Rightarrow> row list \<Rightarrow> bool" where
  "at_node fl w j l its \<longleftrightarrow> j < PROLLY_CURSOR_MAX_DEPTH \<and> cached hash fl (eCache w) (lvEntry (lev w j)) l its"

text \<open>
  From level \<open>j\<close> down the cursor is at the row with number \<open>pos\<close> of the rows that a node denotes, \<open>l\<close> levels
  above the leaves.
\<close>

primrec at_pos :: "byte \<Rightarrow> 's cenv \<Rightarrow> nat \<Rightarrow> nat \<Rightarrow> row list \<Rightarrow> row list \<Rightarrow> nat \<Rightarrow> bool" where
  "at_pos fl w 0 j its rows pos \<longleftrightarrow> iLevel (eCur w) = j \<and> at_node fl w j 0 its \<and> rows = its \<and>
     lvIdx (lev w j) = int pos \<and> pos < length its"
| "at_pos fl w (Suc l) j its rows pos \<longleftrightarrow> at_node fl w j (Suc l) its \<and>
     (\<exists>i its' parts pos'. lvIdx (lev w j) = int i \<and> i < length its \<and> rows = concat parts \<and>
        list_all2 (subtree hash fl (chunks (eStore w)) l) its parts \<and>
        node_at hash fl (chunks (eStore w)) l (its ! i) its' \<and> denote hash fl (chunks (eStore w)) l its' (parts ! i) \<and>
        at_pos fl w l (Suc j) its' (parts ! i) pos' \<and> pos = length (concat (take i parts)) + pos')"

lemma at_pos_node: "at_pos fl w l j its rows pos \<Longrightarrow> at_node fl w j l its"
  by (cases l) auto

lemma at_pos_SucI:
  assumes "at_node fl w j (Suc l) its" "lvIdx (lev w j) = int i" "i < length its" "rows = concat parts"
    "list_all2 (subtree hash fl (chunks (eStore w)) l) its parts"
    "node_at hash fl (chunks (eStore w)) l (its ! i) its'" "denote hash fl (chunks (eStore w)) l its' (parts ! i)"
    "at_pos fl w l (Suc j) its' (parts ! i) pos'" "pos = length (concat (take i parts)) + pos'"
  shows "at_pos fl w (Suc l) j its rows pos"
  using assms unfolding at_pos.simps by blast

definition empty_above :: "'s cenv \<Rightarrow> nat \<Rightarrow> bool" where
  "empty_above w j \<longleftrightarrow> (\<forall>k. j < k \<longrightarrow> k < PROLLY_CURSOR_MAX_DEPTH \<longrightarrow> lvEntry (lev w k) = Null)"

text \<open>The levels below \<open>j\<close>, the node at \<open>j\<close> and what the cursor refers to are as before.\<close>

definition keeps_below :: "'s cenv \<Rightarrow> 's cenv \<Rightarrow> nat \<Rightarrow> bool" where
  "keeps_below w w' j \<longleftrightarrow> (\<forall>k < j. lev w' k = lev w k) \<and> lvEntry (lev w' j) = lvEntry (lev w j) \<and>
     (\<forall>k \<le> j. k < PROLLY_CURSOR_MAX_DEPTH \<longrightarrow> lvEntry (lev w k) \<noteq> Null \<longrightarrow>
        view (eCache w') (lvEntry (lev w k)) = view (eCache w) (lvEntry (lev w k)))"

lemma keeps_below_refl [simp]: "keeps_below w w j" by (simp add: keeps_below_def)

lemma keeps_below_trans: "keeps_below a b j \<Longrightarrow> keeps_below b c j \<Longrightarrow> keeps_below a c j"
  unfolding keeps_below_def by (metis le_neq_implies_less)

lemma keeps_below_mono: "keeps_below a b j \<Longrightarrow> i < j \<Longrightarrow> keeps_below a b i"
  unfolding keeps_below_def by (simp add: less_imp_le)

lemma lev_ref: "cur_ok w R \<Longrightarrow> j < PROLLY_CURSOR_MAX_DEPTH \<Longrightarrow> lvEntry (lev w j) \<noteq> Null \<Longrightarrow> lvEntry (lev w j) \<in># cur_refs (eCur w)"
  by (auto simp: cur_refs_def lev_def cur_ok_def)

lemma lev_dom: "cur_ok w R \<Longrightarrow> j < PROLLY_CURSOR_MAX_DEPTH \<Longrightarrow> lvEntry (lev w j) \<noteq> Null \<Longrightarrow> lvEntry (lev w j) \<in> dom (cHeap (eCache w))"
proof -
  assume a: "cur_ok w R" "j < PROLLY_CURSOR_MAX_DEPTH" "lvEntry (lev w j) \<noteq> Null"
  then have "lvEntry (lev w j) \<in># cur_refs (eCur w) + R" using lev_ref [OF a] by simp
  then show ?thesis using a(1) cache_inv_dom unfolding cur_ok_def env_ok_def by blast
qed

lemma at_node_keeps:
  assumes "at_node fl w j l its" "cur_ok w' R" "keeps_below w w' j'" "j \<le> j'"
  shows "at_node fl w' j l its"
proof -
  have c: "j < PROLLY_CURSOR_MAX_DEPTH" "lvEntry (lev w j) \<noteq> Null" using assms(1) by (simp_all add: at_node_def cached_def)
  have e: "lvEntry (lev w' j) = lvEntry (lev w j)" "view (eCache w') (lvEntry (lev w j)) = view (eCache w) (lvEntry (lev w j))"
    using assms(3,4) c by (auto simp: keeps_below_def le_less)
  have "lvEntry (lev w' j) \<in> dom (cHeap (eCache w'))" using lev_dom [OF assms(2) c(1)] e(1) c(2) by simp
  then show ?thesis using assms(1) e cached_keeps [of hash fl "eCache w" _ l its "eCache w'"] by (simp add: at_node_def)
qed

lemma node_of_ok: "at_node fl w j l its \<Longrightarrow> node_of (lvEntry (lev w j)) w = (w, Inr (ceNode (ent (eCache w) (lvEntry (lev w j)))))"
  using cached_node(1) by (auto simp: node_of_def at_node_def)

lemma at_node_facts:
  assumes "at_node fl w j l its"
  shows "nItems (ceNode (ent (eCache w) (lvEntry (lev w j)))) = length its" "its \<noteq> []"
    "level (ceNode (ent (eCache w) (lvEntry (lev w j)))) > 0 \<longleftrightarrow> 0 < l"
    "node_holds (ceNode (ent (eCache w) (lvEntry (lev w j)))) its" "j < PROLLY_CURSOR_MAX_DEPTH" "lvEntry (lev w j) \<noteq> Null"
    "i < length its \<Longrightarrow> 0 < l \<Longrightarrow> prollyNodeChildHash (ceNode (ent (eCache w) (lvEntry (lev w j)))) i = Inr (snd (its ! i))"
  using assms cached_node [of hash fl "eCache w" "lvEntry (lev w j)" l its] by (auto simp: at_node_def cached_def)

section \<open>Going down\<close>

lemma descendToChild_ok:
  assumes ok: "cur_ok w R" "iLevel (eCur w) = j" and nd: "at_node fl w j (Suc l) its" and i: "i < length its"
    and ch: "node_at hash fl (chunks (eStore w)) l (its ! i) its'" and e: "empty_above w j" and j: "Suc j < PROLLY_CURSOR_MAX_DEPTH"
  shows "\<exists>w' p. descendToChild get (int i) c w = (w', Inr p) \<and> p = lvEntry (lev w' (Suc j)) \<and> lvIdx (lev w' (Suc j)) = c \<and>
     cur_ok w' R \<and> stays R w w' \<and> iLevel (eCur w') = Suc j \<and> eState (eCur w') = eState (eCur w) \<and> lev w' j = lev w j \<and>
     keeps_below w w' j \<and> empty_above w' (Suc j) \<and> at_node fl w' (Suc j) l its'"
proof -
  let ?w0 = "set_ilevel (Suc j) w" and ?d = "node_bytes (of_nat l) fl its'"
  note s = set_ilevel_ok [OF ok(1), of "Suc j"]
  have st: "storable (of_nat l) fl its'" "?d \<in> chunks (eStore w)" "snd (its ! i) = hash ?d" using ch by (simp_all add: node_at_def)
  obtain nd' where p: "prollyNodeParse ?d = Inr nd'" using node_bytes_parse [OF st(1)] by blast
  have ne: "lvEntry (lev ?w0 (Suc j)) = Null" using e j s(3) by (simp add: empty_above_def)
  have dc: "?d \<in> chunks (eStore ?w0)" using st(2) s(7) by simp
  obtain w1 p where l: "loadNode get (hash ?d) ?w0 = (w1, Inr p)"
    "let w' = set_level (Suc j) (\<lambda>_. \<lparr>lvEntry = p, lvIdx = c\<rparr>) w1 in
       cur_ok w' R \<and> stays R ?w0 w' \<and> (\<forall>k. lev w' k = (if k = Suc j then \<lparr>lvEntry = p, lvIdx = c\<rparr> else lev ?w0 k)) \<and>
       iLevel (eCur w') = iLevel (eCur ?w0) \<and> eState (eCur w') = eState (eCur ?w0) \<and>
       view (eCache w') p = (hash ?d, ?d, nd') \<and> p \<in> dom (cHeap (eCache w')) \<and> p \<noteq> Null \<and>
       keeps (eCache ?w0) (eCache w') (cur_refs (eCur ?w0)) \<and> (\<forall>q \<in># cur_refs (eCur ?w0). q \<in> dom (cHeap (eCache w')))"
    using load_level_ok [OF s(1) j ne dc p, of c] by blast
  let ?w' = "set_level (Suc j) (\<lambda>_. \<lparr>lvEntry = p, lvIdx = c\<rparr>) w1"
  have f: "cur_ok ?w' R" "stays R ?w0 ?w'" "\<And>k. lev ?w' k = (if k = Suc j then \<lparr>lvEntry = p, lvIdx = c\<rparr> else lev w k)"
    "iLevel (eCur ?w') = Suc j" "eState (eCur ?w') = eState (eCur w)" "view (eCache ?w') p = (hash ?d, ?d, nd')"
    "p \<in> dom (cHeap (eCache ?w'))" "p \<noteq> Null" "keeps (eCache w) (eCache ?w') (cur_refs (eCur w))"
    using l(2) s by (simp_all add: Let_def)
  have sl: "storable (of_nat (Suc l)) fl its" "Suc l < PROLLY_CURSOR_MAX_DEPTH" using nd by (auto simp: at_node_def cached_def)
  have run: "descendToChild get (int i) c w = (?w', Inr p)"
    using ok at_node_facts [OF nd] node_of_ok [OF nd] i st(3) j l(1)
    by (simp add: descendToChild_def get_ilevel_def)
  have kb: "keeps_below w ?w' j"
    using f(3,9) lev_ref [OF ok(1)] by (simp add: keeps_below_def keeps_def)
  have "empty_above ?w' (Suc j)" using e f(3) by (simp add: empty_above_def)
  moreover have "at_node fl ?w' (Suc j) l its'"
    using f(3) [of "Suc j"] f(6,7,8) j st(1) p sl(2) by (simp add: at_node_def cached_def)
  moreover have "stays R w ?w'" using stays_trans [OF s(2) f(2)] .
  ultimately show ?thesis using run f kb by (intro exI [of _ ?w'] exI [of _ p]) simp
qed

definition part_pos :: "nat \<Rightarrow> nat \<Rightarrow> row list list \<Rightarrow> bool \<Rightarrow> nat" where
  "part_pos l i parts b = (if l = 0 then i else if b then length (concat (take (Suc i) parts)) - 1 else length (concat (take i parts)))"

definition parts_of :: "byte \<Rightarrow> 's cenv \<Rightarrow> nat \<Rightarrow> row list \<Rightarrow> row list \<Rightarrow> row list list \<Rightarrow> bool" where
  "parts_of fl w l its rows parts \<longleftrightarrow>
     (if l = 0 then rows = its else rows = concat parts \<and> list_all2 (subtree hash fl (chunks (eStore w)) (l - 1)) its parts)"

lemma parts_of_denote: "denote hash fl (chunks (eStore w)) l its rows \<Longrightarrow> \<exists>parts. parts_of fl w l its rows parts"
  by (cases l) (auto simp: parts_of_def denote_Suc)

lemma part_pos_end:
  assumes "parts_of fl w l its rows parts" "its \<noteq> []"
  shows "part_pos l (if b then length its - 1 else 0) parts b = (if b then length rows - 1 else 0)"
proof (cases l)
  case (Suc m)
  have "length parts = length its" using assms(1) Suc by (auto simp: parts_of_def dest: list_all2_lengthD)
  then show ?thesis using assms Suc by (auto simp: parts_of_def part_pos_def)
qed (use assms in \<open>auto simp: parts_of_def part_pos_def\<close>)

lemma descend_ok:
  assumes "cur_ok w R" "iLevel (eCur w) = j" "at_node fl w j l its" "parts_of fl w l its rows parts"
    "lvIdx (lev w j) = int i" "i < length its" "empty_above w j" "j + l < PROLLY_CURSOR_MAX_DEPTH" "l < n"
  shows "\<exists>w'. descend_extreme n get b w = (w', Inr ()) \<and> cur_ok w' R \<and> stays R w w' \<and> eState (eCur w') = eState (eCur w) \<and>
     lev w' j = lev w j \<and> keeps_below w w' j \<and> empty_above w' (j + l) \<and> at_pos fl w' l j its rows (part_pos l i parts b)"
  using assms
proof (induction l arbitrary: w j its rows parts i n)
  case 0
  obtain m where n: "n = Suc m" using "0.prems"(9) by (cases n) auto
  have "descend_extreme n get b w = (w, Inr ())"
    using "0.prems"(1,2) at_node_facts(3,5) [OF "0.prems"(3)] node_of_ok [OF "0.prems"(3)] n by (simp add: get_ilevel_def)
  then show ?case using "0.prems" by (simp add: part_pos_def parts_of_def)
next
  case (Suc l)
  note pr = Suc.prems
  obtain m where n: "n = Suc m" using pr(9) by (cases n) auto
  have parts: "rows = concat parts" "list_all2 (subtree hash fl (chunks (eStore w)) l) its parts" using pr(4) by (simp_all add: parts_of_def)
  have len: "length parts = length its" using parts(2) by (auto dest: list_all2_lengthD)
  obtain its' where ch: "node_at hash fl (chunks (eStore w)) l (its ! i) its'" "denote hash fl (chunks (eStore w)) l its' (parts ! i)"
    using list_all2_nthD [OF parts(2) pr(6)] by (auto simp: subtree_def)
  have j: "Suc j < PROLLY_CURSOR_MAX_DEPTH" using pr(8) by simp
  obtain w1 p where w1: "descendToChild get (int i) 0 w = (w1, Inr p)" "p = lvEntry (lev w1 (Suc j))" "cur_ok w1 R" "stays R w w1"
    "iLevel (eCur w1) = Suc j" "eState (eCur w1) = eState (eCur w)" "lev w1 j = lev w j" "keeps_below w w1 j"
    "empty_above w1 (Suc j)" "at_node fl w1 (Suc j) l its'"
    using descendToChild_ok [OF pr(1-3,6) ch(1) pr(7) j, of 0] by blast
  note nf = at_node_facts [OF w1(10)]
  let ?i' = "if b then length its' - 1 else 0"
  let ?f = "\<lambda>lv. lv\<lparr>lvIdx := (if b then int (nItems (ceNode (ent (eCache w1) p))) - 1 else 0)\<rparr>"
  have fe: "lvEntry (?f (lev w1 (Suc j))) = lvEntry (lev w1 (Suc j))" by simp
  note s = set_idx_ok [where f = ?f, OF w1(3) j fe]
  let ?w2 = "set_level (Suc j) ?f w1"
  have n2: "at_node fl ?w2 (Suc j) l its'" using w1(10) s(3) [of "Suc j"] s(6) by (simp add: at_node_def)
  have ch2: "chunks (eStore ?w2) = chunks (eStore w)" using w1(4) s(7) by (simp add: stays_def)
  have dn2: "denote hash fl (chunks (eStore ?w2)) l its' (parts ! i)" using ch(2) ch2 by simp
  obtain parts' where p': "parts_of fl ?w2 l its' (parts ! i) parts'" using parts_of_denote [OF dn2] by blast
  have idx: "lvIdx (lev ?w2 (Suc j)) = int ?i'" "?i' < length its'"
    using s(3) [of "Suc j"] nf(1,2) w1(2) by (auto simp: Suc_le_eq)
  have il: "iLevel (eCur ?w2) = Suc j" using s(4) w1(5) by simp
  have ea: "empty_above ?w2 (Suc j)" using w1(9) s(3) by (simp add: empty_above_def)
  have d: "Suc j + l < PROLLY_CURSOR_MAX_DEPTH" "l < m" using pr(8,9) n by simp_all
  obtain w' where w': "descend_extreme m get b ?w2 = (w', Inr ())" "cur_ok w' R" "stays R ?w2 w'" "eState (eCur w') = eState (eCur ?w2)"
    "lev w' (Suc j) = lev ?w2 (Suc j)" "keeps_below ?w2 w' (Suc j)" "empty_above w' (Suc j + l)"
    "at_pos fl w' l (Suc j) its' (parts ! i) (part_pos l ?i' parts' b)"
    using Suc.IH [OF s(1) il n2 p' idx ea d] by blast
  have pp: "part_pos l ?i' parts' b = (if b then length (parts ! i) - 1 else 0)"
    by (rule part_pos_end [OF p' nf(2)])
  have run: "descend_extreme n get b w = (w', Inr ())"
    using pr(1,2,5) at_node_facts(3,5) [OF pr(3)] node_of_ok [OF pr(3)] w1(1,2,5) node_of_ok [OF w1(10)] n w'(1)
    by (cases b) (simp_all add: get_ilevel_def)
  have kb2: "keeps_below w1 ?w2 j" using s(3,6) by (simp add: keeps_below_def)
  have kb: "keeps_below w w' j"
    using keeps_below_trans [OF keeps_below_trans [OF w1(8) kb2] keeps_below_mono [OF w'(6)]] by simp
  have lj: "lev w' j = lev w j" using w'(6) s(3) [of j] w1(7) by (simp add: keeps_below_def)
  have st: "stays R w w'" using stays_trans [OF stays_trans [OF w1(4) s(2)] w'(3)] .
  have ch3: "chunks (eStore w') = chunks (eStore w)" using st by (simp add: stays_def)
  have il2: "i < length parts" using pr(6) len by simp
  have ne: "parts ! i \<noteq> []" using subtree_rows list_all2_nthD [OF parts(2) pr(6)] by blast
  have tk: "length (concat (take (Suc i) parts)) = length (concat (take i parts)) + length (parts ! i)"
    using length_concat_take_Suc [OF il2] by simp
  have "part_pos (Suc l) i parts b = length (concat (take i parts)) + (if b then length (parts ! i) - 1 else 0)"
    using tk ne by (cases "parts ! i") (simp_all add: part_pos_def del: length_concat)
  then have "at_pos fl w' (Suc l) j its rows (part_pos (Suc l) i parts b)"
    using at_node_keeps [OF pr(3) w'(2) kb] lj pr(5,6) parts ch w'(8) pp
    by (intro at_pos_SucI [where i = i and parts = parts and its' = its']) (simp_all add: ch3)
  moreover have "eState (eCur w') = eState (eCur w)" using w'(4) s(5) w1(6) by simp
  moreover have "empty_above w' (j + Suc l)" using w'(7) by simp
  ultimately show ?case using run w'(2) st lj kb by blast
qed

end

end
