(* ===== verification/CursorMove.thy ===== *)
theory CursorMove
  imports CursorInv
begin

text \<open>
  The steps of a cursor forwards and backwards, by induction on the height of the tree, and the start at the root.
\<close>

section \<open>Moving\<close>

lemma bindO_assoc: "bindO (bindO m f) g = bindO m (\<lambda>x. bindO (f x) g)"
  by (rule ext) (simp add: bindO_def split: prod.split sum.split)

lemma bindO_retO: "bindO (retO a) f = f a"
  by (rule ext) simp

text \<open>One step at a level, forwards (\<open>b\<close>) or backwards: to the next item and down from it, or else further up.\<close>

definition limit :: "bool \<Rightarrow> ref \<Rightarrow> ('s cenv, int) op" where
  "limit b p = (if b then bindO (node_of p) (\<lambda>nd. retO (int (nItems nd))) else retO 0)"

definition step_at :: "'s chunk_get \<Rightarrow> bool \<Rightarrow> nat \<Rightarrow> ('s cenv, unit) op \<Rightarrow> ('s cenv, unit) op" where
  "step_at get b l up =
     bindO (level_at l) (\<lambda>lv. bindO (limit b (lvEntry lv)) (\<lambda>n.
     if (if b then lvIdx lv < n - 1 else lvIdx lv > 0) then
       bindO (updO (set_level l (\<lambda>lv. lv\<lparr>lvIdx := (if b then lvIdx lv + 1 else lvIdx lv - 1)\<rparr>))) (\<lambda>_.
       bindO (updO (set_ilevel l)) (\<lambda>_.
       bindO (descendToExtremeLeaf get (\<not> b)) (\<lambda>_. updO (set_state CURSOR_VALID))))
     else up))"

primrec gen_up :: "'s chunk_get \<Rightarrow> bool \<Rightarrow> nat \<Rightarrow> ('s cenv, unit) op" where
  "gen_up get b 0 = updO (set_state CURSOR_EOF)"
| "gen_up get b (Suc l) =
     bindO (level_at (Suc l)) (\<lambda>lv.
     bindO (release (lvEntry lv)) (\<lambda>_.
     bindO (updO (set_level (Suc l) (\<lambda>lv. lv\<lparr>lvEntry := Null\<rparr>))) (\<lambda>_.
     step_at get b l (gen_up get b l))))"

lemma next_up_gen: "next_up get l = gen_up get True l"
  by (induction l) (simp_all only: next_up.simps gen_up.simps step_at_def limit_def bindO_assoc bindO_retO if_True simp_thms)

lemma prev_up_gen: "prev_up get l = gen_up get False l"
  by (induction l) (simp_all only: prev_up.simps gen_up.simps step_at_def limit_def bindO_assoc bindO_retO if_False simp_thms)

context tree_reader
begin

lemma at_pos_less: "at_pos fl w l j its rows pos \<Longrightarrow> pos < length rows"
proof (induction l arbitrary: j its rows pos)
  case (Suc l)
  then obtain i its' parts pos' where p: "i < length its" "rows = concat parts"
      "list_all2 (subtree hash fl (chunks (eStore w)) l) its parts"
      "at_pos fl w l (Suc j) its' (parts ! i) pos'" "pos = length (concat (take i parts)) + pos'" by auto
  have i: "i < length parts" using p(1,3) by (auto dest: list_all2_lengthD)
  have "length (concat (take (Suc i) parts)) \<le> length (concat parts)" by (rule length_concat_take_le)
  then show ?case using Suc.IH [OF p(4)] length_concat_take_Suc [OF i] p(2,5) by simp
qed simp

lemma limit_ok:
  assumes "at_node fl w j l its"
  shows "limit b (lvEntry (lev w j)) w = (w, Inr (if b then int (length its) else 0))"
  using node_of_ok [OF assms] at_node_facts(1) [OF assms] by (simp add: limit_def)

lemma step_down_ok:
  assumes ok: "cur_ok w R" and nd: "at_node fl w j l its" and p: "parts_of fl w l its rows parts"
    and i: "lvIdx (lev w j) = int i" "i < length its" "if b then Suc i < length its else 0 < i"
    and e: "empty_above w j" and d: "j + l < PROLLY_CURSOR_MAX_DEPTH"
  shows "\<exists>w'. step_at get b j up w = (w', Inr ()) \<and> cur_ok w' R \<and> stays R w w' \<and> eState (eCur w') = CURSOR_VALID \<and>
     keeps_below w w' j \<and> empty_above w' (j + l) \<and>
     at_pos fl w' l j its rows (part_pos l (if b then i + 1 else i - 1) parts (\<not> b))"
proof -
  let ?i = "if b then i + 1 else i - 1" and ?f = "\<lambda>lv. lv\<lparr>lvIdx := (if b then lvIdx lv + 1 else lvIdx lv - 1)\<rparr>"
  have j: "j < PROLLY_CURSOR_MAX_DEPTH" using d by simp
  have fe: "lvEntry (?f (lev w j)) = lvEntry (lev w j)" by simp
  note s = set_idx_ok [where f = ?f, OF ok j fe]
  let ?w1 = "set_level j ?f w"
  note s2 = set_ilevel_ok [OF s(1), of j]
  let ?w2 = "set_ilevel j ?w1"
  have n2: "at_node fl ?w2 j l its" using nd s(3) [of j] s(6) s2(3,6) by (simp add: at_node_def)
  have p2: "parts_of fl ?w2 l its rows parts" using p unfolding parts_of_def s2(7) s(7) .
  have i2: "lvIdx (lev ?w2 j) = int ?i" "?i < length its" using s(3) [of j] s2(3) i by (auto simp: of_nat_diff)
  have e2: "empty_above ?w2 j" using e s(3) s2(3) by (simp add: empty_above_def)
  have l: "l < PROLLY_CURSOR_MAX_DEPTH + 1" using d by simp
  obtain w3 where w3: "descend_extreme (PROLLY_CURSOR_MAX_DEPTH + 1) get (\<not> b) ?w2 = (w3, Inr ())" "cur_ok w3 R" "stays R ?w2 w3"
    "lev w3 j = lev ?w2 j" "keeps_below ?w2 w3 j" "empty_above w3 (j + l)" "at_pos fl w3 l j its rows (part_pos l ?i parts (\<not> b))"
    using descend_ok [OF s2(1) s2(4) n2 p2 i2 e2 d l] by blast
  note s4 = set_state_ok [OF w3(2), of CURSOR_VALID]
  let ?w4 = "set_state CURSOR_VALID w3"
  have run: "step_at get b j up w = (?w4, Inr ())"
    using ok j limit_ok [OF nd, of b] i w3(1) by (cases b) (simp_all add: step_at_def descendToExtremeLeaf_def)
  have kb1: "keeps_below w ?w1 j" using s(3,6) by (simp add: keeps_below_def)
  have kb2: "keeps_below ?w1 ?w2 j" using s2(3,6) by (simp add: keeps_below_def)
  have kb3: "keeps_below w3 ?w4 j" using s4(3,6) by (simp add: keeps_below_def)
  have kb: "keeps_below w ?w4 j"
    using keeps_below_trans [OF keeps_below_trans [OF kb1 kb2] keeps_below_trans [OF w3(5) kb3]] .
  have st: "stays R w ?w4" using stays_trans [OF stays_trans [OF s(2) s2(2)] stays_trans [OF w3(3) s4(2)]] .
  have ea: "empty_above ?w4 (j + l)" using w3(6) s4(3) by (simp add: empty_above_def)
  have ap: "at_pos fl ?w4 l' j' its' rows' pos' = at_pos fl w3 l' j' its' rows' pos'" for l' j' its' rows' pos'
    using s4(3,4,6,7) by (induction l' arbitrary: j' its' rows' pos') (simp_all add: at_node_def)
  show ?thesis using run s4(1,5) st kb ea ap w3(7) by (intro exI [of _ ?w4]) simp
qed

lemma gen_up_Suc:
  assumes ok: "cur_ok w R" and nd: "at_node fl w (Suc j) l its" and e: "empty_above w (Suc j)"
  shows "\<exists>w'. gen_up get b (Suc j) w = step_at get b j (gen_up get b j) w' \<and> cur_ok w' R \<and> stays R w w' \<and>
     eState (eCur w') = eState (eCur w) \<and> (\<forall>k \<le> j. lev w' k = lev w k) \<and> keeps_below w w' j \<and> empty_above w' j"
proof -
  have j: "Suc j < PROLLY_CURSOR_MAX_DEPTH" "lvEntry (lev w (Suc j)) \<noteq> Null" using at_node_facts(5,6) [OF nd] by simp_all
  let ?f = "\<lambda>lv. lv\<lparr>lvEntry := Null\<rparr>"
  obtain w1 where w1: "release (lvEntry (lev w (Suc j))) w = (w1, Inr ())"
    "\<forall>f. lvEntry (f (lev w (Suc j))) = Null \<longrightarrow> (let w' = set_level (Suc j) f w1 in
       cur_ok w' R \<and> stays R w w' \<and> (\<forall>k. lev w' k = (if k = Suc j then f (lev w (Suc j)) else lev w k)) \<and>
       iLevel (eCur w') = iLevel (eCur w) \<and> eState (eCur w') = eState (eCur w) \<and>
       (\<forall>q. view (eCache w') q = view (eCache w) q) \<and> (\<forall>q \<in># cur_refs (eCur w'). q \<in> dom (cHeap (eCache w'))))"
    using release_level_ok [OF ok j] by blast
  let ?w' = "set_level (Suc j) ?f w1"
  have f: "cur_ok ?w' R" "stays R w ?w'" "\<And>k. lev ?w' k = (if k = Suc j then ?f (lev w (Suc j)) else lev w k)"
    "eState (eCur ?w') = eState (eCur w)" "\<And>q. view (eCache ?w') q = view (eCache w) q"
    using w1(2) [rule_format, of ?f] by (simp_all add: Let_def)
  have "gen_up get b (Suc j) w = step_at get b j (gen_up get b j) ?w'"
    using ok j(1) w1(1) by simp
  moreover have "keeps_below w ?w' j" using f(3,5) by (simp add: keeps_below_def)
  moreover have "empty_above ?w' j" using e f(3) unfolding empty_above_def by (metis cursor_level.select_convs(1) cursor_level.surjective cursor_level.update_convs(1) Suc_lessI)
  ultimately show ?thesis using f(1-4) by (intro exI [of _ ?w']) simp
qed

end

text \<open>Whether a step stays within \<open>n\<close> rows, and where it leads.\<close>

definition may_move :: "bool \<Rightarrow> nat \<Rightarrow> nat \<Rightarrow> bool" where
  "may_move b n pos \<longleftrightarrow> (if b then Suc pos < n else 0 < pos)"

definition moved :: "bool \<Rightarrow> nat \<Rightarrow> nat" where
  "moved b pos = (if b then Suc pos else pos - 1)"

lemma set_ilevel_id: "iLevel (eCur w) = l \<Longrightarrow> set_ilevel l w = w"
  by (cases w; cases "eCur w") (simp add: set_ilevel_def)

lemma set_state_id: "eState (eCur w) = s \<Longrightarrow> set_state s w = w"
  by (cases w; cases "eCur w") (simp add: set_state_def)

context tree_reader
begin

lemma step_stuck:
  assumes ok: "cur_ok w R" and nd: "at_node fl w j l its" and i: "lvIdx (lev w j) = int i" "i < length its" "\<not> may_move b (length its) i"
  shows "step_at get b j up w = up w"
  using ok at_node_facts(5) [OF nd] limit_ok [OF nd, of b] i by (cases b) (simp_all add: step_at_def may_move_def)

lemma at_pos_child:
  assumes "at_pos fl w (Suc l) j its rows pos"
  obtains i its' parts pos' where "at_node fl w j (Suc l) its" "lvIdx (lev w j) = int i" "i < length its" "rows = concat parts"
    "list_all2 (subtree hash fl (chunks (eStore w)) l) its parts" "length parts = length its"
    "node_at hash fl (chunks (eStore w)) l (its ! i) its'" "denote hash fl (chunks (eStore w)) l its' (parts ! i)"
    "at_pos fl w l (Suc j) its' (parts ! i) pos'" "pos = length (concat (take i parts)) + pos'" "pos' < length (parts ! i)"
    "length (concat (take (Suc i) parts)) = length (concat (take i parts)) + length (parts ! i)"
proof -
  obtain i its' parts pos' where p: "at_node fl w j (Suc l) its" "lvIdx (lev w j) = int i" "i < length its" "rows = concat parts"
    "list_all2 (subtree hash fl (chunks (eStore w)) l) its parts"
    "node_at hash fl (chunks (eStore w)) l (its ! i) its'" "denote hash fl (chunks (eStore w)) l its' (parts ! i)"
    "at_pos fl w l (Suc j) its' (parts ! i) pos'" "pos = length (concat (take i parts)) + pos'"
    using assms by (simp only: at_pos.simps) blast
  have len: "length parts = length its" using p(5) by (auto dest: list_all2_lengthD)
  then have i: "i < length parts" using p(3) by simp
  show ?thesis by (rule that [OF p(1-5) len p(6-9) at_pos_less [OF p(8)] length_concat_take_Suc [OF i]])
qed

lemma take_last_part:
  assumes "i < length parts" "\<not> Suc i < length parts"
  shows "length (concat parts) = length (concat (take (Suc i) parts))"
  using assms by (simp add: not_less)

lemma move_sub:
  assumes "cur_ok w R" "at_pos fl w l j its rows pos" "empty_above w (j + l)" "j + l < PROLLY_CURSOR_MAX_DEPTH"
  shows "if may_move b (length rows) pos
     then \<exists>w'. step_at get b (j + l) (gen_up get b (j + l)) w = (w', Inr ()) \<and> cur_ok w' R \<and> stays R w w' \<and>
       eState (eCur w') = CURSOR_VALID \<and> keeps_below w w' j \<and> empty_above w' (j + l) \<and> at_pos fl w' l j its rows (moved b pos)
     else \<exists>w'. step_at get b (j + l) (gen_up get b (j + l)) w = gen_up get b j w' \<and> cur_ok w' R \<and> stays R w w' \<and>
       keeps_below w w' j \<and> lev w' j = lev w j \<and> empty_above w' j"
  using assms
proof (induction l arbitrary: j its rows pos)
  case 0
  have nd: "at_node fl w j 0 its" and i: "lvIdx (lev w j) = int pos" "pos < length its" and r: "rows = its"
    using "0.prems"(2) by simp_all
  have p: "parts_of fl w 0 its rows []" using r by (simp add: parts_of_def)
  show ?case
  proof (cases "may_move b (length rows) pos")
    case True
    then have m: "if b then Suc pos < length its else 0 < pos" using r by (simp add: may_move_def)
    show ?thesis using step_down_ok [OF "0.prems"(1) nd p i m, of "gen_up get b j"] "0.prems"(3,4) True
      by (cases b) (auto simp: part_pos_def moved_def)
  next
    case False
    show ?thesis using step_stuck [OF "0.prems"(1) nd i, of b "gen_up get b j"] False r "0.prems" by auto
  qed
next
  case (Suc l)
  note pr = Suc.prems
  obtain i its' parts pos' where p: "at_node fl w j (Suc l) its" "lvIdx (lev w j) = int i" "i < length its" "rows = concat parts"
    "list_all2 (subtree hash fl (chunks (eStore w)) l) its parts" "length parts = length its"
    "node_at hash fl (chunks (eStore w)) l (its ! i) its'" "denote hash fl (chunks (eStore w)) l its' (parts ! i)"
    "at_pos fl w l (Suc j) its' (parts ! i) pos'" "pos = length (concat (take i parts)) + pos'" "pos' < length (parts ! i)"
    "length (concat (take (Suc i) parts)) = length (concat (take i parts)) + length (parts ! i)"
    using at_pos_child [OF pr(2)] by metis
  have e1: "empty_above w (Suc j + l)" "Suc j + l < PROLLY_CURSOR_MAX_DEPTH" using pr(3,4) by simp_all
  note ih = Suc.IH [OF pr(1) p(9) e1]
  have le: "length (concat (take (Suc i) parts)) \<le> length rows" unfolding p(4) by (rule length_concat_take_le)
  show ?case
  proof (cases "may_move b (length (parts ! i)) pos'")
    case True
    then obtain w' where w': "step_at get b (j + Suc l) (gen_up get b (j + Suc l)) w = (w', Inr ())" "cur_ok w' R" "stays R w w'"
        "eState (eCur w') = CURSOR_VALID" "keeps_below w w' (Suc j)" "empty_above w' (j + Suc l)"
        "at_pos fl w' l (Suc j) its' (parts ! i) (moved b pos')"
      using ih by auto
    have kb: "keeps_below w w' j" using keeps_below_mono [OF w'(5)] by simp
    have lj: "lev w' j = lev w j" using w'(5) by (simp add: keeps_below_def)
    have ch: "chunks (eStore w') = chunks (eStore w)" using w'(3) by (simp add: stays_def)
    have "at_pos fl w' (Suc l) j its rows (moved b pos)"
      using at_node_keeps [OF p(1) w'(2) kb] lj ch p w'(7) True
      by (intro at_pos_SucI [where i = i and parts = parts and its' = its' and pos' = "moved b pos'"])
        (auto simp: moved_def may_move_def)
    moreover have "may_move b (length rows) pos" using True le p(10,12) by (auto simp: may_move_def split: if_splits)
    ultimately show ?thesis using w' kb by auto
  next
    case False
    have at_end: "pos' = (if b then length (parts ! i) - 1 else 0)" using False p(11) by (auto simp: may_move_def split: if_splits)
    from False ih obtain w1 where w1: "step_at get b (j + Suc l) (gen_up get b (j + Suc l)) w = gen_up get b (Suc j) w1" "cur_ok w1 R"
        "stays R w w1" "keeps_below w w1 (Suc j)" "empty_above w1 (Suc j)" by auto
    have n1: "at_node fl w1 (Suc j) l its'" by (rule at_node_keeps [OF at_pos_node [OF p(9)] w1(2,4)]) simp
    obtain w2 where w2: "gen_up get b (Suc j) w1 = step_at get b j (gen_up get b j) w2" "cur_ok w2 R" "stays R w1 w2"
        "\<forall>k \<le> j. lev w2 k = lev w1 k" "keeps_below w1 w2 j" "empty_above w2 j"
      using gen_up_Suc [OF w1(2) n1 w1(5), of b] by blast
    have kb: "keeps_below w w2 j" using keeps_below_trans [OF keeps_below_mono [OF w1(4)] w2(5)] by simp
    have lj: "lev w2 j = lev w j" using w2(4) w1(4) by (simp add: keeps_below_def)
    have st: "stays R w w2" using stays_trans [OF w1(3) w2(3)] .
    have ch: "chunks (eStore w2) = chunks (eStore w)" using st by (simp add: stays_def)
    have n2: "at_node fl w2 j (Suc l) its" by (rule at_node_keeps [OF p(1) w2(2) kb]) simp
    have p2: "parts_of fl w2 (Suc l) its rows parts" using p(4,5) ch by (simp add: parts_of_def)
    have i2: "lvIdx (lev w2 j) = int i" using p(2) lj by simp
    show ?thesis
    proof (cases "may_move b (length its) i")
      case True
      then have m: "if b then Suc i < length its else 0 < i" by (simp add: may_move_def)
      obtain w3 where w3: "step_at get b j (gen_up get b j) w2 = (w3, Inr ())" "cur_ok w3 R" "stays R w2 w3"
          "eState (eCur w3) = CURSOR_VALID" "keeps_below w2 w3 j" "empty_above w3 (j + Suc l)"
          "at_pos fl w3 (Suc l) j its rows (part_pos (Suc l) (if b then i + 1 else i - 1) parts (\<not> b))"
        using step_down_ok [OF w2(2) n2 p2 i2 p(3) m w2(6) pr(4)] by blast
      have pp: "part_pos (Suc l) (if b then i + 1 else i - 1) parts (\<not> b) = moved b pos"
        using at_end m p(10,11,12) by (cases b) (simp_all add: part_pos_def moved_def del: length_concat)
      have len: "moved b pos < length rows" using at_pos_less [OF w3(7)] pp by simp
      have "take i parts \<noteq> []" "\<forall>x \<in> set (take i parts). x \<noteq> []" if g: "0 < i"
      proof -
        show "take i parts \<noteq> []" using g p(3,6) by auto
        show "\<forall>x \<in> set (take i parts). x \<noteq> []"
          using p(5) subtree_rows by (metis in_set_takeD in_set_conv_nth list_all2_conv_all_nth)
      qed
      then have "0 < i \<Longrightarrow> 0 < length (concat (take i parts))" by (cases "take i parts") auto
      then have "may_move b (length rows) pos"
        using len m p(10) by (auto simp: may_move_def moved_def split: if_splits)
      then show ?thesis
        using w1(1) w2(1) w3 stays_trans [OF st w3(3)] keeps_below_trans [OF kb w3(5)] pp by auto
    next
      case False
      have "step_at get b j (gen_up get b j) w2 = gen_up get b j w2"
        by (rule step_stuck [OF w2(2) n2 i2 p(3) False])
      moreover have "\<not> may_move b (length rows) pos"
      proof (cases b)
        case True
        then have "\<not> Suc i < length parts" "i < length parts" using False p(3,6) by (simp_all add: may_move_def)
        then have "length rows = length (concat (take (Suc i) parts))" using take_last_part p(4) by metis
        then show ?thesis using True at_end p(10-12) by (simp add: may_move_def)
      next
        case f: False
        then show ?thesis using False at_end p(10) by (simp add: may_move_def)
      qed
      ultimately show ?thesis using w1(1) w2(1,2,6) st kb lj by auto
    qed
  qed
qed

end

context tree_reader
begin

text \<open>The cursor is at a row of a tree: at its number from the root, in a valid state, with nothing below the leaf.\<close>

definition at_row :: "byte \<Rightarrow> 's cenv \<Rightarrow> row list \<Rightarrow> nat \<Rightarrow> ref multiset \<Rightarrow> bool" where
  "at_row fl w rows pos R \<longleftrightarrow> cur_ok w R \<and> eState (eCur w) = CURSOR_VALID \<and>
     (\<exists>l its. at_pos fl w l 0 its rows pos \<and> empty_above w l \<and> l < PROLLY_CURSOR_MAX_DEPTH)"

lemma at_pos_leaf:
  "at_pos fl w l j its rows pos \<Longrightarrow> iLevel (eCur w) = j + l \<and>
     (\<exists>leaf i. at_node fl w (j + l) 0 leaf \<and> lvIdx (lev w (j + l)) = int i \<and> i < length leaf \<and> leaf ! i = rows ! pos)"
proof (induction l arbitrary: j its rows pos)
  case (Suc l)
  obtain i its' parts pos' where p: "i < length its" "rows = concat parts" "length parts = length its"
    "at_pos fl w l (Suc j) its' (parts ! i) pos'" "pos = length (concat (take i parts)) + pos'" "pos' < length (parts ! i)"
    using at_pos_child [OF Suc.prems] by metis
  have "parts = take i parts @ parts ! i # drop (Suc i) parts" using p(1,3) by (simp add: id_take_nth_drop)
  then have "rows = concat (take i parts) @ parts ! i @ concat (drop (Suc i) parts)"
    using p(2) concat.simps(2) concat_append by metis
  then have "rows ! pos = (parts ! i) ! pos'" using p(5,6) by (simp add: nth_append)
  then show ?case using Suc.IH [OF p(4)] by simp
qed auto

lemma at_node_leaf_search: "at_node fl w j 0 leaf \<Longrightarrow> descendToExtremeLeaf get c w = (w, Inr ())" if "cur_ok w R" "iLevel (eCur w) = j"
  using that at_node_facts(3,5) [of fl w j 0 leaf] node_of_ok [of fl w j 0 leaf]
  by (simp add: descendToExtremeLeaf_def get_ilevel_def)

lemma leaf_step:
  assumes ok: "cur_ok w R" "iLevel (eCur w) = j" "eState (eCur w) = CURSOR_VALID" and nd: "at_node fl w j 0 leaf"
    and i: "lvIdx (lev w j) = int i"
  shows "prollyCursorNext get w = step_at get True j (gen_up get True j) w"
    "prollyCursorPrev get w = step_at get False j (gen_up get False j) w"
proof -
  have j: "j < PROLLY_CURSOR_MAX_DEPTH" using at_node_facts(5) [OF nd] .
  note n = node_of_ok [OF nd]
  have eq: "bindO (updO (set_level j f)) (\<lambda>_. bindO (updO (set_ilevel j)) (\<lambda>_.
      bindO (descendToExtremeLeaf get c) (\<lambda>_. updO (set_state CURSOR_VALID)))) w = updO (set_level j f) w"
    if f: "lvEntry (f (lev w j)) = lvEntry (lev w j)" for f :: "cursor_level \<Rightarrow> cursor_level" and c
  proof -
    note s = set_idx_ok [where f = f, OF ok(1) j f]
    have nd2: "at_node fl (set_level j f w) j 0 leaf" using nd f s(3) [of j] s(6) by (simp add: at_node_def)
    have il: "iLevel (eCur (set_level j f w)) = j" using s(4) ok(2) by simp
    show ?thesis
      using at_node_leaf_search [OF s(1) il nd2] set_ilevel_id [OF il] set_state_id [of "set_level j f w" CURSOR_VALID] s(5) ok(3)
      by simp
  qed
  show "prollyCursorNext get w = step_at get True j (gen_up get True j) w"
    using ok j n eq [of "\<lambda>lv. lv\<lparr>lvIdx := lvIdx lv + 1\<rparr>" False]
    by (simp add: prollyCursorNext_def step_at_def limit_def get_state_def get_ilevel_def guardR_def next_up_gen)
  show "prollyCursorPrev get w = step_at get False j (gen_up get False j) w"
    using ok j n eq [of "\<lambda>lv. lv\<lparr>lvIdx := lvIdx lv - 1\<rparr>" True]
    by (simp add: prollyCursorPrev_def step_at_def limit_def get_state_def get_ilevel_def guardR_def prev_up_gen)
qed

lemma move_ok:
  assumes "at_row fl w rows pos R"
  defines "op \<equiv> \<lambda>b. if b then prollyCursorNext get else prollyCursorPrev get"
  shows "\<exists>w'. op b w = (w', Inr ()) \<and> stays R w w' \<and> cur_ok w' R \<and>
     (if may_move b (length rows) pos then at_row fl w' rows (moved b pos) R else eState (eCur w') = CURSOR_EOF)"
proof -
  obtain l its where a: "cur_ok w R" "eState (eCur w) = CURSOR_VALID" "at_pos fl w l 0 its rows pos" "empty_above w l"
    "l < PROLLY_CURSOR_MAX_DEPTH" using assms(1) by (auto simp: at_row_def)
  obtain leaf i where lf: "iLevel (eCur w) = l" "at_node fl w l 0 leaf" "lvIdx (lev w l) = int i"
    using at_pos_leaf [OF a(3)] by auto
  have op: "op b w = step_at get b l (gen_up get b l) w"
    using leaf_step [OF a(1) lf(1) a(2) lf(2,3)] by (cases b) (simp_all add: op_def)
  have e: "empty_above w (0 + l)" "0 + l < PROLLY_CURSOR_MAX_DEPTH" using a(4,5) by simp_all
  note m = move_sub [OF a(1,3) e, of b]
  show ?thesis
  proof (cases "may_move b (length rows) pos")
    case True
    then obtain w' where "op b w = (w', Inr ())" "cur_ok w' R" "stays R w w'" "eState (eCur w') = CURSOR_VALID"
        "empty_above w' l" "at_pos fl w' l 0 its rows (moved b pos)"
      using m op by auto
    then show ?thesis using True a(5) by (intro exI [of _ w']) (auto simp: at_row_def)
  next
    case False
    then obtain w1 where w1: "op b w = gen_up get b 0 w1" "cur_ok w1 R" "stays R w w1" using m op by auto
    show ?thesis using False w1 set_state_ok [OF w1(2), of CURSOR_EOF] stays_trans [OF w1(3)]
      by (intro exI [of _ "set_state CURSOR_EOF w1"]) simp
  qed
qed

lemma prollyCursorNext_ok:
  assumes "at_row fl w rows pos R"
  shows "\<exists>w'. prollyCursorNext get w = (w', Inr ()) \<and> stays R w w' \<and> cur_ok w' R \<and>
     (if Suc pos < length rows then at_row fl w' rows (Suc pos) R else eState (eCur w') = CURSOR_EOF)"
  using move_ok [OF assms, of True] unfolding may_move_def moved_def if_True .

lemma prollyCursorPrev_ok:
  assumes "at_row fl w rows pos R"
  shows "\<exists>w'. prollyCursorPrev get w = (w', Inr ()) \<and> stays R w w' \<and> cur_ok w' R \<and>
     (if 0 < pos then at_row fl w' rows (pos - 1) R else eState (eCur w') = CURSOR_EOF)"
  using move_ok [OF assms, of False] unfolding may_move_def moved_def if_False .

section \<open>Starting at the root\<close>

lemma release_levels_ok:
  assumes "cur_ok w R" "\<forall>i \<in> set is. i < PROLLY_CURSOR_MAX_DEPTH"
  shows "\<exists>w'. release_levels is w = (w', Inr ()) \<and> cur_ok w' R \<and> stays R w w' \<and>
     (\<forall>i \<in> set is. lvEntry (lev w' i) = Null) \<and> (\<forall>i. lvEntry (lev w i) = Null \<longrightarrow> lvEntry (lev w' i) = Null)"
  using assms
proof (induction "is" arbitrary: w)
  case (Cons i "is")
  have i: "i < PROLLY_CURSOR_MAX_DEPTH" using Cons.prems(2) by simp
  show ?case
  proof (cases "lvEntry (lev w i) = Null")
    case True
    then show ?thesis using Cons.IH [OF Cons.prems(1)] Cons.prems i by auto
  next
    case False
    obtain w1 where w1: "release (lvEntry (lev w i)) w = (w1, Inr ())"
      "\<forall>f. lvEntry (f (lev w i)) = Null \<longrightarrow> (let w' = set_level i f w1 in
         cur_ok w' R \<and> stays R w w' \<and> (\<forall>k. lev w' k = (if k = i then f (lev w i) else lev w k)) \<and>
         iLevel (eCur w') = iLevel (eCur w) \<and> eState (eCur w') = eState (eCur w) \<and>
         (\<forall>q. view (eCache w') q = view (eCache w) q) \<and> (\<forall>q \<in># cur_refs (eCur w'). q \<in> dom (cHeap (eCache w'))))"
      using release_level_ok [OF Cons.prems(1) i False] by blast
    let ?w2 = "set_level i (\<lambda>_. \<lparr>lvEntry = Null, lvIdx = 0\<rparr>) w1"
    have w2: "cur_ok ?w2 R" "stays R w ?w2" "\<And>k. lev ?w2 k = (if k = i then \<lparr>lvEntry = Null, lvIdx = 0\<rparr> else lev w k)"
      using w1(2) [rule_format, of "\<lambda>_. \<lparr>lvEntry = Null, lvIdx = 0\<rparr>"] by (simp_all add: Let_def)
    obtain w' where w': "release_levels is ?w2 = (w', Inr ())" "cur_ok w' R" "stays R ?w2 w'"
       "\<forall>i \<in> set is. lvEntry (lev w' i) = Null" "\<forall>i. lvEntry (lev ?w2 i) = Null \<longrightarrow> lvEntry (lev w' i) = Null"
      using Cons.IH [OF w2(1)] Cons.prems(2) by auto
    have "release_levels (i # is) w = (w', Inr ())"
      using Cons.prems(1) i False w1(1) w'(1) by simp
    then show ?thesis using w' w2 stays_trans [OF w2(2) w'(3)] by (intro exI [of _ w']) auto
  qed
qed simp

lemma cur_refs_empty: "cur_ok w R \<Longrightarrow> \<forall>i < PROLLY_CURSOR_MAX_DEPTH. lvEntry (lev w i) = Null \<Longrightarrow> cur_refs (eCur w) = {#}"
  by (auto simp: cur_refs_def cur_ok_def lev_def in_set_conv_nth)

text \<open>Giving all references back leaves the cache with those of the others: a cursor leaks none.\<close>

lemma prollyCursorReleaseAll_ok:
  assumes "cur_ok w R"
  shows "\<exists>w'. prollyCursorReleaseAll w = (w', Inr ()) \<and> cur_ok w' R \<and> stays R w w' \<and> iLevel (eCur w') = 0 \<and>
     eState (eCur w') = CURSOR_INVALID \<and> cur_refs (eCur w') = {#} \<and> env_ok w' R \<and>
     (\<forall>i < PROLLY_CURSOR_MAX_DEPTH. lvEntry (lev w' i) = Null)"
proof -
  obtain w1 where w1: "release_levels [0..<PROLLY_CURSOR_MAX_DEPTH] w = (w1, Inr ())" "cur_ok w1 R" "stays R w w1"
      "\<forall>i < PROLLY_CURSOR_MAX_DEPTH. lvEntry (lev w1 i) = Null"
    using release_levels_ok [OF assms, of "[0..<PROLLY_CURSOR_MAX_DEPTH]"] by auto
  note s = set_ilevel_ok [OF w1(2), of 0]
  note t = set_state_ok [OF s(1), of CURSOR_INVALID]
  let ?w = "set_state CURSOR_INVALID (set_ilevel 0 w1)"
  have n: "\<forall>i < PROLLY_CURSOR_MAX_DEPTH. lvEntry (lev ?w i) = Null" using w1(4) s(3) t(3) by simp
  have e: "cur_refs (eCur ?w) = {#}" by (rule cur_refs_empty [OF t(1) n])
  have "env_ok ?w R" using t(1) e by (simp add: cur_ok_def)
  moreover have "stays R w ?w" using stays_trans [OF stays_trans [OF w1(3) s(2)] t(2)] .
  moreover have "prollyCursorReleaseAll w = (?w, Inr ())" using w1(1) by (simp add: prollyCursorReleaseAll_def)
  ultimately show ?thesis using s t n e by (intro exI [of _ ?w]) simp
qed

text \<open>The root of the cursor is the root of a tree of height \<open>l\<close> that denotes \<open>rows\<close>.\<close>

definition root_at :: "byte \<Rightarrow> 's cenv \<Rightarrow> nat \<Rightarrow> row list \<Rightarrow> row list \<Rightarrow> bool" where
  "root_at fl w l its rows \<longleftrightarrow> curRoot (eCur w) \<noteq> hash0 \<and> l < PROLLY_CURSOR_MAX_DEPTH \<and>
     (\<exists>k. node_at hash fl (chunks (eStore w)) l (k, curRoot (eCur w)) its) \<and> denote hash fl (chunks (eStore w)) l its rows"

lemma tree_root_at:
  assumes "tree hash fl (chunks (eStore w)) (curRoot (eCur w)) rows" "rows \<noteq> []"
  shows "\<exists>l its. root_at fl w l its rows"
  using assms by (auto simp: tree_def root_at_def subtree_def)

lemma initCursorAtRoot_empty:
  assumes "cur_ok w R" "curRoot (eCur w) = hash0"
  shows "\<exists>w' p. initCursorAtRoot get w = (w', Inr p) \<and> cur_ok w' R \<and> stays R w w' \<and> eState (eCur w') = CURSOR_EOF \<and>
     cur_refs (eCur w') = {#}"
proof -
  obtain w1 where w1: "prollyCursorReleaseAll w = (w1, Inr ())" "cur_ok w1 R" "stays R w w1" "cur_refs (eCur w1) = {#}"
    using prollyCursorReleaseAll_ok [OF assms(1)] by blast
  note s = set_state_ok [OF w1(2), of CURSOR_EOF]
  have "initCursorAtRoot get w = (set_state CURSOR_EOF w1, Inr Null)"
    using w1(1,3) assms(2) by (simp add: initCursorAtRoot_def stays_def prollyHashIsEmpty_iff)
  then show ?thesis using s stays_trans [OF w1(3) s(2)] w1(4) by (intro exI [of _ "set_state CURSOR_EOF w1"]) simp
qed

lemma initCursorAtRoot_ok:
  assumes "cur_ok w R" "root_at fl w l its rows"
  shows "\<exists>w' p. initCursorAtRoot get w = (w', Inr p) \<and> cur_ok w' R \<and> stays R w w' \<and> eState (eCur w') = CURSOR_INVALID \<and>
     iLevel (eCur w') = 0 \<and> lev w' 0 = \<lparr>lvEntry = p, lvIdx = 0\<rparr> \<and> empty_above w' 0 \<and> at_node fl w' 0 l its"
proof -
  obtain k where r: "curRoot (eCur w) \<noteq> hash0" "l < PROLLY_CURSOR_MAX_DEPTH" "node_at hash fl (chunks (eStore w)) l (k, curRoot (eCur w)) its"
    using assms(2) by (auto simp: root_at_def)
  obtain w1 where w1: "prollyCursorReleaseAll w = (w1, Inr ())" "cur_ok w1 R" "stays R w w1" "iLevel (eCur w1) = 0"
      "eState (eCur w1) = CURSOR_INVALID" "\<forall>i < PROLLY_CURSOR_MAX_DEPTH. lvEntry (lev w1 i) = Null"
    using prollyCursorReleaseAll_ok [OF assms(1)] by blast
  let ?d = "node_bytes (of_nat l) fl its"
  have d: "storable (of_nat l) fl its" "?d \<in> chunks (eStore w1)" "curRoot (eCur w1) = hash ?d"
    using r(3) w1(3) by (simp_all add: node_at_def stays_def)
  obtain nd where p: "prollyNodeParse ?d = Inr nd" using node_bytes_parse [OF d(1)] by blast
  have z: "0 < PROLLY_CURSOR_MAX_DEPTH" using r(2) by simp
  have n: "lvEntry (lev w1 0) = Null" using w1(6) z by simp
  obtain w2 q where l: "loadNode get (hash ?d) w1 = (w2, Inr q)" "iLevel (eCur w2) = iLevel (eCur w1)"
     "let w' = set_level 0 (\<lambda>_. \<lparr>lvEntry = q, lvIdx = 0\<rparr>) w2 in
       cur_ok w' R \<and> stays R w1 w' \<and> (\<forall>k. lev w' k = (if k = 0 then \<lparr>lvEntry = q, lvIdx = 0\<rparr> else lev w1 k)) \<and>
       iLevel (eCur w') = iLevel (eCur w1) \<and> eState (eCur w') = eState (eCur w1) \<and>
       view (eCache w') q = (hash ?d, ?d, nd) \<and> q \<in> dom (cHeap (eCache w')) \<and> q \<noteq> Null \<and>
       keeps (eCache w1) (eCache w') (cur_refs (eCur w1)) \<and> (\<forall>p \<in># cur_refs (eCur w1). p \<in> dom (cHeap (eCache w')))"
    using load_level_ok [OF w1(2) z n d(2) p, of 0] by blast
  let ?w' = "set_level 0 (\<lambda>_. \<lparr>lvEntry = q, lvIdx = 0\<rparr>) w2"
  have f: "cur_ok ?w' R" "stays R w1 ?w'" "\<And>k. lev ?w' k = (if k = 0 then \<lparr>lvEntry = q, lvIdx = 0\<rparr> else lev w1 k)"
     "iLevel (eCur ?w') = 0" "eState (eCur ?w') = CURSOR_INVALID" "view (eCache ?w') q = (hash ?d, ?d, nd)"
     "q \<in> dom (cHeap (eCache ?w'))" "q \<noteq> Null"
    using l(3) w1(4,5) by (simp_all add: Let_def)
  have "hashing hash U" "?d \<in> U" using w1(2) d(2) by (auto simp: cur_ok_def env_ok_def cache_inv_def)
  then have "hash_ok (hash ?d)" by (simp add: hashing_def)
  from prollyHashIsEmpty_iff [OF this] have "\<not> prollyHashIsEmpty (hash ?d)"
    using r(1) d(3) w1(3) by (simp add: stays_def)
  then have "initCursorAtRoot get w = (?w', Inr q)"
    using w1(1,4) d(3) l(1,2) set_ilevel_id [of w2 0] by (simp add: initCursorAtRoot_def)
  moreover have "empty_above ?w' 0" using f(3) w1(6) by (simp add: empty_above_def)
  moreover have "at_node fl ?w' 0 l its" using f(3) [of 0] f(6-8) d(1) p r(2) z by (simp add: at_node_def cached_def)
  ultimately show ?thesis using f(1,4,5) f(3) [of 0] stays_trans [OF w1(3) f(2)] by (intro exI [of _ ?w'] exI [of _ q]) simp
qed

end

end
