(* ===== verification/CursorScan.thy ===== *)
theory CursorScan
  imports CursorMove ChunkStoreInv
begin

text \<open>
  The ends of a tree, seeking, and what scans and range scans with a cursor read, on any store that keeps
  the contract and on the chunk store.
\<close>

section \<open>First and last\<close>

context tree_reader
begin

lemma at_pos_set_state: "cur_ok w R \<Longrightarrow> at_pos fl (set_state s w) l j its rows pos = at_pos fl w l j its rows pos"
proof (induction l arbitrary: j its rows pos)
  case 0
  then show ?case using set_state_ok [OF 0, of s] by (simp add: at_node_def)
next
  case (Suc l)
  show ?case using Suc set_state_ok [OF Suc.prems, of s] by (simp add: at_node_def)
qed

lemma at_row_set_valid:
  assumes "cur_ok w R" "at_pos fl w l 0 its rows pos" "empty_above w l" "l < PROLLY_CURSOR_MAX_DEPTH"
  shows "at_row fl (set_state CURSOR_VALID w) rows pos R"
  using assms set_state_ok [OF assms(1), of CURSOR_VALID] at_pos_set_state [OF assms(1)] unfolding at_row_def empty_above_def by metis

lemma extreme_ok:
  assumes "cur_ok w R" "iLevel (eCur w) = 0" "at_node fl w 0 l its" "denote hash fl (chunks (eStore w)) l its rows"
    "lvIdx (lev w 0) = (if b then int (length its) - 1 else 0)" "empty_above w 0" "l < PROLLY_CURSOR_MAX_DEPTH"
  shows "\<exists>w'. bindO (descendToExtremeLeaf get b) (\<lambda>_. finalizeExtremeCursor) w = (w', Inr 0) \<and> stays R w w' \<and>
     at_row fl w' rows (if b then length rows - 1 else 0) R"
proof -
  note nf = at_node_facts [OF assms(3)]
  obtain parts where p: "parts_of fl w l its rows parts" using parts_of_denote [OF assms(4)] by blast
  let ?i = "if b then length its - 1 else 0"
  have i: "lvIdx (lev w 0) = int ?i" "?i < length its" using assms(5) nf(2) by (auto simp: Suc_le_eq)
  have d: "0 + l < PROLLY_CURSOR_MAX_DEPTH" "l < PROLLY_CURSOR_MAX_DEPTH + 1" using assms(7) by simp_all
  obtain w1 where w1: "descend_extreme (PROLLY_CURSOR_MAX_DEPTH + 1) get b w = (w1, Inr ())" "cur_ok w1 R" "stays R w w1"
      "empty_above w1 (0 + l)" "at_pos fl w1 l 0 its rows (part_pos l ?i parts b)"
    using descend_ok [OF assms(1-3) p i assms(6) d] by blast
  have pos: "part_pos l ?i parts b = (if b then length rows - 1 else 0)" by (rule part_pos_end [OF p nf(2)])
  obtain leaf where lf: "iLevel (eCur w1) = l" "at_node fl w1 l 0 leaf" using at_pos_leaf [OF w1(5)] by auto
  have "bindO (descendToExtremeLeaf get b) (\<lambda>_. finalizeExtremeCursor) w = (set_state CURSOR_VALID w1, Inr 0)"
    using w1(1,2) lf node_of_ok [OF lf(2)] at_node_facts(1,2,5) [OF lf(2)]
    by (simp add: descendToExtremeLeaf_def finalizeExtremeCursor_def get_ilevel_def)
  moreover have "at_row fl (set_state CURSOR_VALID w1) rows (part_pos l ?i parts b) R"
    using at_row_set_valid [OF w1(2,5)] w1(4) assms(7) by simp
  moreover have "stays R w (set_state CURSOR_VALID w1)" using stays_trans [OF w1(3) set_state_ok(2) [OF w1(2)]] .
  ultimately show ?thesis using pos by (intro exI [of _ "set_state CURSOR_VALID w1"]) simp
qed

lemma prollyCursorFirst_ok:
  assumes "cur_ok w R" "root_at fl w l its rows"
  shows "\<exists>w'. prollyCursorFirst get w = (w', Inr 0) \<and> stays R w w' \<and> at_row fl w' rows 0 R"
proof -
  obtain w1 p where w1: "initCursorAtRoot get w = (w1, Inr p)" "cur_ok w1 R" "stays R w w1" "eState (eCur w1) = CURSOR_INVALID"
      "iLevel (eCur w1) = 0" "lev w1 0 = \<lparr>lvEntry = p, lvIdx = 0\<rparr>" "empty_above w1 0" "at_node fl w1 0 l its"
    using initCursorAtRoot_ok [OF assms] by blast
  have d: "denote hash fl (chunks (eStore w1)) l its rows" "l < PROLLY_CURSOR_MAX_DEPTH"
    using assms(2) w1(3) by (simp_all add: root_at_def stays_def)
  have i: "lvIdx (lev w1 0) = (if False then int (length its) - 1 else 0)" using w1(6) by simp
  obtain w' where w': "bindO (descendToExtremeLeaf get False) (\<lambda>_. finalizeExtremeCursor) w1 = (w', Inr 0)" "stays R w1 w'"
      "at_row fl w' rows 0 R"
    using extreme_ok [OF w1(2,5,8) d(1) i w1(7) d(2)] by auto
  show ?thesis using w1(1,4) w' stays_trans [OF w1(3) w'(2)]
    by (intro exI [of _ w']) (simp add: prollyCursorFirst_def get_state_def)
qed

lemma prollyCursorLast_ok:
  assumes "cur_ok w R" "root_at fl w l its rows"
  shows "\<exists>w'. prollyCursorLast get w = (w', Inr 0) \<and> stays R w w' \<and> at_row fl w' rows (length rows - 1) R"
proof -
  obtain w1 p where w1: "initCursorAtRoot get w = (w1, Inr p)" "cur_ok w1 R" "stays R w w1" "eState (eCur w1) = CURSOR_INVALID"
      "iLevel (eCur w1) = 0" "lev w1 0 = \<lparr>lvEntry = p, lvIdx = 0\<rparr>" "empty_above w1 0" "at_node fl w1 0 l its"
    using initCursorAtRoot_ok [OF assms] by blast
  note nf = at_node_facts [OF w1(8)]
  let ?f = "\<lambda>lv. lv\<lparr>lvIdx := int (length its) - 1\<rparr>"
  have z: "0 < PROLLY_CURSOR_MAX_DEPTH" using nf(5) .
  have fe: "lvEntry (?f (lev w1 0)) = lvEntry (lev w1 0)" by simp
  note s = set_idx_ok [where f = ?f, OF w1(2) z fe]
  let ?w2 = "set_level 0 ?f w1"
  have d: "denote hash fl (chunks (eStore ?w2)) l its rows" "l < PROLLY_CURSOR_MAX_DEPTH"
    using assms(2) w1(3) s(7) by (simp_all add: root_at_def stays_def)
  have n2: "at_node fl ?w2 0 l its" using w1(8) s(3) [of 0] s(6) by (simp add: at_node_def)
  have i: "lvIdx (lev ?w2 0) = (if True then int (length its) - 1 else 0)" using s(3) [of 0] by simp
  have il: "iLevel (eCur ?w2) = 0" using s(4) w1(5) by simp
  have ea: "empty_above ?w2 0" using w1(7) s(3) by (simp add: empty_above_def)
  obtain w' where w': "bindO (descendToExtremeLeaf get True) (\<lambda>_. finalizeExtremeCursor) ?w2 = (w', Inr 0)" "stays R ?w2 w'"
      "at_row fl w' rows (length rows - 1) R"
    using extreme_ok [OF s(1) il n2 d(1) i ea d(2)] by auto
  have "node_of p w1 = (w1, Inr (ceNode (ent (eCache w1) p)))" "nItems (ceNode (ent (eCache w1) p)) = length its"
    using node_of_ok [OF w1(8)] nf(1) w1(6) by simp_all
  then have "prollyCursorLast get w = (w', Inr 0)"
    using w1(1,4) w'(1) set_ilevel_id [OF w1(5)] nf(2) by (simp add: prollyCursorLast_def get_state_def)
  then show ?thesis using w' stays_trans [OF w1(3) stays_trans [OF s(2) w'(2)]] by blast
qed

end

section \<open>Searching the parts of a node\<close>

lemma sorted_wrt_concat_nth:
  "sorted_wrt P (concat xss) \<Longrightarrow> i < length xss \<Longrightarrow> sorted_wrt P (xss ! i)"
proof -
  assume s: "sorted_wrt P (concat xss)" and i: "i < length xss"
  have "xss = take i xss @ xss ! i # drop (Suc i) xss" using i by (simp add: id_take_nth_drop)
  then have "concat xss = concat (take i xss) @ xss ! i @ concat (drop (Suc i) xss)" by (metis concat.simps(2) concat_append)
  then show ?thesis using s by (simp add: sorted_wrt_append)
qed

lemma nth_split: "i < length xs \<Longrightarrow> xs = take i xs @ xs ! i # drop (Suc i) xs"
  by (simp add: id_take_nth_drop)

lemma sorted_wrt_concat_last:
  fixes xss :: "'k::linorder list list"
  assumes "sorted_wrt (<) (concat xss)" "\<forall>xs \<in> set xss. xs \<noteq> []"
  shows "sorted_wrt (<) (map last xss)"
  using assms
proof (induction xss)
  case (Cons xs xss)
  have "last xs < last ys" if "ys \<in> set xss" for ys
  proof -
    have "last ys \<in> set (concat xss)" "last xs \<in> set xs" using that Cons.prems(2) by (auto intro!: bexI [of _ ys])
    then show ?thesis using Cons.prems(1) by (auto simp: sorted_wrt_append)
  qed
  then show ?case using Cons by (simp add: sorted_wrt_append)
qed simp

lemma search_part:
  fixes kss :: "'k::linorder list list"
  assumes s: "sorted_wrt (<) (concat kss)" and ne: "\<forall>ks \<in> set kss. ks \<noteq> []" "kss \<noteq> []"
    and top: "search_post (map last kss) k (i, r)" and sub: "search_post (kss ! i) k (p, r')"
  shows "search_post (concat kss) k (length (concat (take i kss)) + p, r')"
proof -
  have i: "i < length kss" using top ne(2) by (simp add: search_post_def)
  let ?a = "concat (take i kss)" and ?b = "kss ! i" and ?c = "concat (drop (Suc i) kss)"
  have k: "concat kss = ?a @ ?b @ ?c"
    using arg_cong [OF nth_split [OF i], of concat] by simp
  have b: "?b \<noteq> []" using ne(1) i by simp
  have p: "p < length ?b" "r' = 0 \<and> ?b ! p = k \<or> r' = -1 \<and> k < ?b ! p \<and> (\<forall>j < p. ?b ! j < k) \<or>
      r' = 1 \<and> p = length ?b - 1 \<and> (\<forall>x \<in> set ?b. x < k)"
    using sub b by (simp_all add: search_post_def)
  have lst: "map last kss ! i = last ?b" using i by simp
  have at: "concat kss ! (length ?a + j) = ?b ! j" if "j < length ?b" for j
    unfolding k using that by (simp add: nth_append)
  have ab: "x < y" if "x \<in> set ?a" "y \<in> set ?b" for x y
    using s that unfolding k by (auto simp: sorted_wrt_append)
  have lt: "x < k" if x: "x \<in> set ?a" and r: "r' \<noteq> 0" for x
  proof -
    obtain ks where ks: "ks \<in> set (take i kss)" "x \<in> set ks" using x by auto
    obtain j where "j < length (take i kss)" "take i kss ! j = ks" using ks(1) unfolding in_set_conv_nth by blast
    then have j: "j < i" "x \<in> set (kss ! j)" using ks(2) by auto
    have jl: "j < length kss" using j(1) i by simp
    have sj: "sorted_wrt (<) (kss ! j)" by (rule sorted_wrt_concat_nth [OF s jl])
    have "x \<le> last (kss ! j)"
    proof -
      obtain m where m: "m < length (kss ! j)" "x = kss ! j ! m" using j(2) by (auto simp: in_set_conv_nth)
      have "kss ! j \<noteq> []" "m \<le> length (kss ! j) - 1" using m(1) by auto
      then show ?thesis using m sj sorted_wrt_nth_less [OF sj, of m "length (kss ! j) - 1"] 
        by (cases "m < length (kss ! j) - 1") (simp_all add: last_conv_nth less_imp_le not_less Suc_le_eq le_antisym)
    qed
    moreover have "last (kss ! j) < k"
    proof -
      consider "k = last ?b" | "\<forall>j<i. map last kss ! j < k" | "\<forall>x \<in> set (map last kss). x < k"
        using top ne(2) lst by (auto simp: search_post_def)
      then show ?thesis
      proof cases
        case 1
        have "kss ! j \<in> set (take i kss)" "kss ! j \<noteq> []" using j jl i by (auto simp: in_set_conv_nth)
        then have "last (kss ! j) \<in> set ?a" by (auto intro: bexI [of _ "kss ! j"])
        then show ?thesis using 1 ab b by simp
      next
        case 2
        then show ?thesis using j(1) i by simp
      next
        case 3
        then show ?thesis using jl by simp
      qed
    qed
    ultimately show ?thesis by simp
  qed
  have c: "?c = [] \<and> (\<forall>x \<in> set (concat kss). x < k)" if r: "r' = 1"
  proof -
    have all: "\<forall>x \<in> set ?b. x < k" using p(2) r by simp
    then have "last ?b < k" using b by simp
    then have "i = length kss - 1"
      using top ne(2) lst by (auto simp: search_post_def)
    then have "?c = []" using i by simp
    then show ?thesis using all lt r by (auto simp: k)
  qed
  have j: "concat kss ! j < k" if r: "r' = -1" and j: "j < length ?a + p" for j
  proof (cases "j < length ?a")
    case True
    have "concat kss ! j < k" unfolding k nth_append if_P [OF True] by (rule lt [OF nth_mem [OF True]]) (simp add: r)
    then show ?thesis .
  next
    case False
    then obtain m where m: "j = length ?a + m" "m < p" using j by (metis add_less_cancel_left le_iff_add not_less)
    have lm: "m < length ?b" using m(2) p(1) by simp
    have pm: "?b ! m < k" using p(2) r m(2) by simp
    show ?thesis unfolding m(1) at [OF lm] by (rule pm)
  qed
  have tot: "length ?a + p < length (concat kss)" using p(1) by (simp add: k)
  then have nn: "concat kss \<noteq> []" by (metis length_greater_0_conv less_nat_zero_code not_gr_zero)
  have "r' = 0 \<and> ?b ! p = k \<or> r' = -1 \<and> k < ?b ! p \<and> (\<forall>j < length ?a + p. concat kss ! j < k) \<or>
      r' = 1 \<and> length ?a + p = length (concat kss) - 1 \<and> (\<forall>x \<in> set (concat kss). x < k)"
    using p(2)
  proof (elim disjE conjE)
    assume e: "r' = 1" "p = length ?b - 1"
    have "length (concat kss) = length ?a + length ?b" using c e(1) arg_cong [OF k, of length] by (simp del: length_concat)
    then have "length ?a + p = length (concat kss) - 1" using e(2) p(1) by linarith
    then show ?thesis using c e(1) by blast
  qed (use j in blast)+
  then show ?thesis unfolding search_post_def prod.case if_not_P [OF nn] at [OF p(1)] using tot by blast
qed

section \<open>Seeking\<close>

lemma childIndexForSearchResult_post:
  "search_post ks k (i, r) \<Longrightarrow> ks \<noteq> [] \<Longrightarrow> childIndexForSearchResult (int i) r (length ks) = int i"
  by (auto simp: search_post_def childIndexForSearchResult_def)

lemma parts_keys:
  assumes "list_all2 (subtree H fl S l) its parts"
  shows "map last (map (map fst) parts) = map fst its" "\<forall>ks \<in> set (map (map fst) parts). ks \<noteq> []"
proof -
  have len: "length parts = length its" using assms by (auto dest: list_all2_lengthD)
  have r: "parts ! i \<noteq> [] \<and> fst (last (parts ! i)) = fst (its ! i)" if "i < length its" for i
    using list_all2_nthD [OF assms that] subtree_rows by blast
  show "map last (map (map fst) parts) = map fst its"
    using len r by (intro nth_equalityI) (auto simp: last_map)
  show "\<forall>ks \<in> set (map (map fst) parts). ks \<noteq> []"
    using len r by (auto simp: in_set_conv_nth)
qed

context tree_reader
begin

text \<open>The descent ends at a leaf, and what a search in the leaf finds is what a search in all rows finds.\<close>

lemma seek_descend_ok:
  assumes "cur_ok w R" "iLevel (eCur w) = j" "at_node fl w j l its" "denote hash fl (chunks (eStore w)) l its rows"
    "sorted_wrt (<) (map fst rows)" "empty_above w j" "j + l < PROLLY_CURSOR_MAX_DEPTH" "l < n"
  shows "\<exists>w' leaf. seek_descend n get k (lvEntry (lev w j)) w = (w', Inr (lvEntry (lev w' (j + l)))) \<and> cur_ok w' R \<and> stays R w w' \<and>
     iLevel (eCur w') = j + l \<and> at_node fl w' (j + l) 0 leaf \<and> sorted_wrt (<) (map fst leaf) \<and> empty_above w' (j + l) \<and> keeps_below w w' j \<and>
     (\<forall>i r. search_post (map fst leaf) k (i, r) \<longrightarrow> (\<exists>pos. search_post (map fst rows) k (pos, r) \<and>
        at_pos fl (set_level (j + l) (\<lambda>lv. lv\<lparr>lvIdx := int i\<rparr>) w') l j its rows pos))"
  using assms
proof (induction l arbitrary: w j its rows n)
  case 0
  obtain m where n: "n = Suc m" using "0.prems"(8) by (cases n) auto
  note nf = at_node_facts [OF "0.prems"(3)]
  have r: "rows = its" using "0.prems"(4) by simp
  have "seek_descend n get k (lvEntry (lev w j)) w = (w, Inr (lvEntry (lev w j)))"
    using node_of_ok [OF "0.prems"(3)] nf(3) n by simp
  moreover have "at_pos fl (set_level j (\<lambda>lv. lv\<lparr>lvIdx := int i\<rparr>) w) 0 j its rows i" if s: "search_post (map fst its) k (i, r)" for i r
  proof -
    have fe: "lvEntry ((\<lambda>lv. lv\<lparr>lvIdx := int i\<rparr>) (lev w j)) = lvEntry (lev w j)" by simp
    note s' = set_idx_ok [where f = "\<lambda>lv. lv\<lparr>lvIdx := int i\<rparr>", OF "0.prems"(1) nf(5) fe]
    have "i < length its" using s nf(2) by (simp add: search_post_def)
    then show ?thesis using "0.prems"(2,3) s' r by (simp add: at_node_def)
  qed
  ultimately show ?case using "0.prems" r by (intro exI [of _ w] exI [of _ its]) auto
next
  case (Suc l)
  note pr = Suc.prems
  obtain m where n: "n = Suc m" using pr(8) by (cases n) auto
  note nf = at_node_facts [OF pr(3)]
  obtain parts where parts: "rows = concat parts" "list_all2 (subtree hash fl (chunks (eStore w)) l) its parts"
    using pr(4) by (auto simp: denote_Suc)
  have len: "length parts = length its" using parts(2) by (auto dest: list_all2_lengthD)
  note pk = parts_keys [OF parts(2)]
  have ck: "concat (map (map fst) parts) = map fst rows" unfolding parts(1) map_concat ..
  have sp: "sorted_wrt (<) (concat (map (map fst) parts))" unfolding ck by (rule pr(5))
  have si: "sorted_wrt (<) (map fst its)" using sorted_wrt_concat_last [OF sp pk(2)] unfolding pk(1) .
  obtain i r where sr: "prollyNodeSearchBlob (ceNode (ent (eCache w) (lvEntry (lev w j)))) k = Inr (i, r)" "search_post (map fst its) k (i, r)"
    using prollyNodeSearchBlob_post [OF nf(4) si, of k] by auto
  have ci: "childIndexForSearchResult (int i) r (length its) = int i"
    using childIndexForSearchResult_post [OF sr(2)] nf(2) by simp
  have i: "i < length its" using sr(2) nf(2) by (simp add: search_post_def)
  have ip: "i < length (map (map fst) parts)" using i len by simp
  have j: "Suc j < PROLLY_CURSOR_MAX_DEPTH" using pr(7) by simp
  let ?f = "\<lambda>lv. lv\<lparr>lvIdx := int i\<rparr>"
  have fe: "lvEntry (?f (lev w j)) = lvEntry (lev w j)" by simp
  note s = set_idx_ok [where f = ?f, OF pr(1) nf(5) fe]
  let ?w1 = "set_level j ?f w"
  have n1: "at_node fl ?w1 j (Suc l) its" using pr(3) s(3) [of j] s(6) by (simp add: at_node_def)
  have e1: "empty_above ?w1 j" using pr(6) s(3) by (simp add: empty_above_def)
  have il: "iLevel (eCur ?w1) = j" using s(4) pr(2) by simp
  obtain its' where ch0: "node_at hash fl (chunks (eStore w)) l (its ! i) its'" "denote hash fl (chunks (eStore w)) l its' (parts ! i)"
    using list_all2_nthD [OF parts(2) i] by (auto simp: subtree_def)
  have ch: "node_at hash fl (chunks (eStore ?w1)) l (its ! i) its'" using ch0(1) s(7) by simp
  obtain w2 p where w2: "descendToChild get (int i) 0 ?w1 = (w2, Inr p)" "p = lvEntry (lev w2 (Suc j))"
    "cur_ok w2 R" "stays R ?w1 w2" "iLevel (eCur w2) = Suc j" "lev w2 j = lev ?w1 j" "keeps_below ?w1 w2 j" "empty_above w2 (Suc j)"
    "at_node fl w2 (Suc j) l its'"
    using descendToChild_ok [OF s(1) il n1 i ch e1 j, of 0] by blast
  have st2: "stays R w w2" by (rule stays_trans [OF s(2) w2(4)])
  have c2: "chunks (eStore w2) = chunks (eStore w)" using st2 by (simp add: stays_def)
  have dn: "denote hash fl (chunks (eStore w2)) l its' (parts ! i)" using ch0(2) c2 by simp
  have sc: "sorted_wrt (<) (map fst (parts ! i))" using sorted_wrt_concat_nth [OF sp ip] ip by simp
  have d: "Suc j + l < PROLLY_CURSOR_MAX_DEPTH" "l < m" using pr(7,8) n by simp_all
  obtain w' leaf where w': "seek_descend m get k (lvEntry (lev w2 (Suc j))) w2 = (w', Inr (lvEntry (lev w' (Suc j + l))))" "cur_ok w' R"
     "stays R w2 w'" "iLevel (eCur w') = Suc j + l" "at_node fl w' (Suc j + l) 0 leaf" "sorted_wrt (<) (map fst leaf)"
     "empty_above w' (Suc j + l)" "keeps_below w2 w' (Suc j)"
     "\<forall>q r. search_post (map fst leaf) k (q, r) \<longrightarrow> (\<exists>pos. search_post (map fst (parts ! i)) k (pos, r) \<and>
        at_pos fl (set_level (Suc j + l) (\<lambda>lv. lv\<lparr>lvIdx := int q\<rparr>) w') l (Suc j) its' (parts ! i) pos)"
    using Suc.IH [OF w2(3,5,9) dn sc w2(8) d] by blast
  have kb1: "keeps_below w ?w1 j" using s(3,6) by (simp add: keeps_below_def)
  have kb: "keeps_below w w' j"
    using keeps_below_trans [OF keeps_below_trans [OF kb1 w2(7)] keeps_below_mono [OF w'(8)]] by simp
  have st: "stays R w w'" by (rule stays_trans [OF st2 w'(3)])
  have lj: "lvIdx (lev w' j) = int i" using w'(8) w2(6) s(3) [of j] by (simp add: keeps_below_def)
  have run: "seek_descend n get k (lvEntry (lev w j)) w = (w', Inr (lvEntry (lev w' (j + Suc l))))"
    using node_of_ok [OF pr(3)] nf(1,3) sr(1) ci pr(2) w2(1,2) w'(1) n by (simp add: get_ilevel_def Let_def)
  have c': "chunks (eStore w') = chunks (eStore w)" using st by (simp add: stays_def)
  have post: "\<exists>pos. search_post (map fst rows) k (pos, r') \<and>
      at_pos fl (set_level (j + Suc l) (\<lambda>lv. lv\<lparr>lvIdx := int q\<rparr>) w') (Suc l) j its rows pos"
    if q: "search_post (map fst leaf) k (q, r')" for q r'
  proof -
    let ?g = "\<lambda>lv. lv\<lparr>lvIdx := int q\<rparr>" and ?j = "Suc j + l"
    obtain pos where pos: "search_post (map fst (parts ! i)) k (pos, r')" "at_pos fl (set_level ?j ?g w') l (Suc j) its' (parts ! i) pos"
      using w'(9) q by blast
    have fg: "lvEntry (?g (lev w' ?j)) = lvEntry (lev w' ?j)" by simp
    note g = set_idx_ok [where f = ?g, OF w'(2) d(1) fg]
    have "search_post (concat (map (map fst) parts)) k (length (concat (take i (map (map fst) parts))) + pos, r')"
      using search_part [OF sp pk(2) _ _ _, of k i r pos r'] sr(2) pk(1) pos(1) ip by fastforce
    moreover have "length (concat (take i (map (map fst) parts))) = length (concat (take i parts))"
      by (simp add: take_map map_concat [symmetric])
    moreover have "at_pos fl (set_level ?j ?g w') (Suc l) j its rows (length (concat (take i parts)) + pos)"
      using at_node_keeps [OF pr(3) w'(2) kb] g(3) [of j] g(6,7) c' lj i parts ch0 pos(2)
      by (intro at_pos_SucI [where i = i and parts = parts and its' = its' and pos' = pos]) (simp_all add: at_node_def)
    ultimately show ?thesis unfolding ck add_Suc_shift [symmetric] by metis
  qed
  show ?case using run w'(2,4-7) st kb post by (intro exI [of _ w'] exI [of _ leaf]) simp
qed

lemma prollyCursorSeekBlob_ok:
  assumes "cur_ok w R" "root_at fl w l its rows" "sorted_wrt (<) (map fst rows)"
  shows "\<exists>w' res pos. prollyCursorSeekBlob get k w = (w', Inr res) \<and> stays R w w' \<and> at_row fl w' rows pos R \<and>
     search_post (map fst rows) k (pos, - res)"
proof -
  obtain w1 p where w1: "initCursorAtRoot get w = (w1, Inr p)" "cur_ok w1 R" "stays R w w1" "eState (eCur w1) = CURSOR_INVALID"
      "iLevel (eCur w1) = 0" "lev w1 0 = \<lparr>lvEntry = p, lvIdx = 0\<rparr>" "empty_above w1 0" "at_node fl w1 0 l its"
    using initCursorAtRoot_ok [OF assms(1,2)] by blast
  have d: "denote hash fl (chunks (eStore w1)) l its rows" "0 + l < PROLLY_CURSOR_MAX_DEPTH" "l < PROLLY_CURSOR_MAX_DEPTH + 1"
    using assms(2) w1(3) by (simp_all add: root_at_def stays_def)
  obtain w2 leaf where w2: "seek_descend (PROLLY_CURSOR_MAX_DEPTH + 1) get k (lvEntry (lev w1 0)) w1 = (w2, Inr (lvEntry (lev w2 (0 + l))))"
     "cur_ok w2 R" "stays R w1 w2" "iLevel (eCur w2) = 0 + l" "at_node fl w2 (0 + l) 0 leaf" "sorted_wrt (<) (map fst leaf)"
     "empty_above w2 (0 + l)"
     "\<forall>i r. search_post (map fst leaf) k (i, r) \<longrightarrow> (\<exists>pos. search_post (map fst rows) k (pos, r) \<and>
        at_pos fl (set_level (0 + l) (\<lambda>lv. lv\<lparr>lvIdx := int i\<rparr>) w2) l 0 its rows pos)"
    using seek_descend_ok [OF w1(2,5,8) d(1) assms(3) w1(7) d(2,3)] by blast
  have n2: "at_node fl w2 l 0 leaf" using w2(5) by simp
  note nf = at_node_facts [OF n2]
  obtain i r where sr: "prollyNodeSearchBlob (ceNode (ent (eCache w2) (lvEntry (lev w2 l)))) k = Inr (i, r)" "search_post (map fst leaf) k (i, r)"
    using prollyNodeSearchBlob_post [OF nf(4) w2(6), of k] by auto
  have i: "i < length leaf" "r = 0 \<or> r = -1 \<or> r = 1" using sr(2) nf(2) by (auto simp: search_post_def)
  obtain pos where pos: "search_post (map fst rows) k (pos, r)" "at_pos fl (set_level l (\<lambda>lv. lv\<lparr>lvIdx := int i\<rparr>) w2) l 0 its rows pos"
    using w2(8) sr(2) by auto
  let ?f = "\<lambda>lv. lv\<lparr>lvIdx := int i\<rparr>"
  have fe: "lvEntry (?f (lev w2 l)) = lvEntry (lev w2 l)" by simp
  note s = set_idx_ok [where f = ?f, OF w2(2) nf(5) fe]
  let ?w3 = "set_level l ?f w2"
  have ea: "empty_above ?w3 l" using w2(7) s(3) by (simp add: empty_above_def)
  have n3: "node_of (lvEntry (lev w2 l)) ?w3 = (?w3, Inr (ceNode (ent (eCache w2) (lvEntry (lev w2 l)))))"
    using node_of_ok [of fl ?w3 l 0 leaf] n2 s(3) [of l] s(6) by (simp add: at_node_def)
  have fin: "finalizeSeekOnLeaf get (lvEntry (lev w2 l)) (int i) r w2 = (set_state CURSOR_VALID ?w3, Inr (- r))"
    using w2(4) n3 nf(1) i by (auto simp: finalizeSeekOnLeaf_def get_ilevel_def)
  have "prollyCursorSeekBlob get k w = (set_state CURSOR_VALID ?w3, Inr (- r))"
    using w1(1,4,6) w2(1) node_of_ok [OF n2] nf(1,2) sr(1) fin by (simp add: prollyCursorSeekBlob_def get_state_def)
  moreover have "at_row fl (set_state CURSOR_VALID ?w3) rows pos R"
    using at_row_set_valid [OF s(1) pos(2) ea] d(2) by simp
  moreover have "stays R w (set_state CURSOR_VALID ?w3)"
    using stays_trans [OF stays_trans [OF w1(3) w2(3)] stays_trans [OF s(2) set_state_ok(2) [OF s(1)]]] .
  ultimately show ?thesis using pos(1) by (intro exI [of _ "set_state CURSOR_VALID ?w3"] exI [of _ "- r"] exI [of _ pos]) simp
qed

section \<open>Reading\<close>

lemma at_leaf_ok:
  assumes "at_row fl w rows pos R" and f: "\<And>nd its i. node_holds nd its \<Longrightarrow> level nd = 0 \<Longrightarrow> i < length its \<Longrightarrow> g nd i = Inr (h (its ! i))"
  shows "at_leaf g w = (w, Inr (h (rows ! pos)))" "pos < length rows"
proof -
  obtain l its where a: "cur_ok w R" "eState (eCur w) = CURSOR_VALID" "at_pos fl w l 0 its rows pos"
    using assms(1) by (auto simp: at_row_def)
  obtain leaf i where lf: "iLevel (eCur w) = l" "at_node fl w l 0 leaf" "lvIdx (lev w l) = int i" "i < length leaf" "leaf ! i = rows ! pos"
    using at_pos_leaf [OF a(3)] by auto
  note nf = at_node_facts [OF lf(2)]
  have "level (ceNode (ent (eCache w) (lvEntry (lev w l)))) = 0" using nf(3) by (simp add: word_gt_0)
  from f [OF nf(4) this lf(4)] show "at_leaf g w = (w, Inr (h (rows ! pos)))"
    using a lf nf(5) node_of_ok [OF lf(2)] by (simp add: at_leaf_def get_state_def get_ilevel_def guardR_def)
  show "pos < length rows" by (rule at_pos_less [OF a(3)])
qed

lemma read_ok:
  assumes "at_row fl w rows pos R"
  shows "prollyCursorKey w = (w, Inr (fst (rows ! pos)))" "prollyCursorValue w = (w, Inr (snd (rows ! pos)))" "pos < length rows"
  using at_leaf_ok [OF assms, of prollyNodeKey fst] at_leaf_ok [OF assms, of prollyNodeValue snd]
  by (simp_all add: prollyCursorKey_def prollyCursorValue_def node_holds_def)

end

section \<open>Scans\<close>

text \<open>A client of the cursor: reading rows as long as the cursor is valid.\<close>

primrec collect :: "nat \<Rightarrow> ('s cenv, unit) op \<Rightarrow> ('s cenv, row list) op" where
  "collect 0 mv = failO NO_RETURN"
| "collect (Suc n) mv =
     bindO get_state (\<lambda>s.
     if s = CURSOR_VALID then
       bindO prollyCursorKey (\<lambda>k. bindO prollyCursorValue (\<lambda>v.
       bindO mv (\<lambda>_. bindO (collect n mv) (\<lambda>rs. retO ((k, v) # rs)))))
     else retO [])"

definition scan :: "bool \<Rightarrow> 's chunk_get \<Rightarrow> nat \<Rightarrow> ('s cenv, row list) op" where
  "scan fwd get n =
     (if fwd then bindO (prollyCursorFirst get) (\<lambda>_. collect n (prollyCursorNext get))
      else bindO (prollyCursorLast get) (\<lambda>_. collect n (prollyCursorPrev get)))"

definition range_scan :: "'s chunk_get \<Rightarrow> byte list \<Rightarrow> nat \<Rightarrow> ('s cenv, int \<times> row list) op" where
  "range_scan get k n =
     bindO (prollyCursorSeekBlob get k) (\<lambda>res. bindO (collect n (prollyCursorNext get)) (\<lambda>rs. retO (res, rs)))"

definition with_cursor :: "hash \<Rightarrow> byte \<Rightarrow> 's \<Rightarrow> cache \<Rightarrow> ('s cenv, 'a) op \<Rightarrow> 's cenv \<times> 'a res" where
  "with_cursor root fl st ca m =
     bindO m (\<lambda>a. bindO prollyCursorClose (\<lambda>_. retO a)) \<lparr>eStore = st, eCache = ca, eCur = prollyCursorInit root fl\<rparr>"

context tree_reader
begin

lemma collect_stop: "cur_ok w R \<Longrightarrow> eState (eCur w) \<noteq> CURSOR_VALID \<Longrightarrow> 0 < n \<Longrightarrow> collect n mv w = (w, Inr [])"
  by (cases n) (simp_all add: get_state_def)

lemma collect_ok:
  assumes "at_row fl w rows pos R" "(if b then length rows - pos else Suc pos) < n"
  shows "\<exists>w'. collect n (if b then prollyCursorNext get else prollyCursorPrev get) w =
       (w', Inr (if b then drop pos rows else rev (take (Suc pos) rows))) \<and> stays R w w' \<and> cur_ok w' R"
  using assms
proof (induction n arbitrary: w pos)
  case (Suc n)
  let ?mv = "if b then prollyCursorNext get else prollyCursorPrev get"
  have v: "eState (eCur w) = CURSOR_VALID" using Suc.prems(1) by (simp add: at_row_def)
  note rd = read_ok [OF Suc.prems(1)]
  obtain w1 where w1: "?mv w = (w1, Inr ())" "stays R w w1" "cur_ok w1 R"
     "if may_move b (length rows) pos then at_row fl w1 rows (moved b pos) R else eState (eCur w1) = CURSOR_EOF"
    using move_ok [OF Suc.prems(1), of b] by blast
  have "\<exists>w' rs. collect n ?mv w1 = (w', Inr rs) \<and> stays R w1 w' \<and> cur_ok w' R \<and>
     (if b then drop pos rows = rows ! pos # rs else rev (take (Suc pos) rows) = rows ! pos # rs)"
  proof (cases "may_move b (length rows) pos")
    case True
    have l: "(if b then length rows - moved b pos else Suc (moved b pos)) < n"
      using Suc.prems(2) True by (auto simp: moved_def may_move_def split: if_splits)
    have "if b then drop pos rows = rows ! pos # drop (moved b pos) rows
        else rev (take (Suc pos) rows) = rows ! pos # rev (take (Suc (moved b pos)) rows)"
      using True rd(3) by (auto simp: moved_def may_move_def Cons_nth_drop_Suc take_Suc_conv_app_nth)
    then show ?thesis using Suc.IH [OF _ l] w1(4) True by (cases b) auto
  next
    case False
    have "if b then drop pos rows = [rows ! pos] else rev (take (Suc pos) rows) = [rows ! pos]"
      using False rd(3) by (auto simp: may_move_def Cons_nth_drop_Suc [symmetric] take_Suc_conv_app_nth)
    moreover have "0 < n" using Suc.prems(2) rd(3) by (auto split: if_splits)
    ultimately show ?thesis using collect_stop [OF w1(3)] w1(3,4) False by (cases b) auto
  qed
  then obtain w' rs where w': "collect n ?mv w1 = (w', Inr rs)" "stays R w1 w'" "cur_ok w' R"
     "if b then drop pos rows = rows ! pos # rs else rev (take (Suc pos) rows) = rows ! pos # rs" by blast
  have "collect (Suc n) ?mv w = (w', Inr (rows ! pos # rs))" using v rd w1(1) w'(1) by (simp add: get_state_def)
  then show ?case using w' stays_trans [OF w1(2) w'(2)] by (cases b) auto
qed simp

lemma first_empty:
  assumes "cur_ok w R" "curRoot (eCur w) = hash0"
  shows "\<exists>w'. prollyCursorFirst get w = (w', Inr 1) \<and> stays R w w' \<and> cur_ok w' R \<and> eState (eCur w') = CURSOR_EOF"
    "\<exists>w'. prollyCursorLast get w = (w', Inr 1) \<and> stays R w w' \<and> cur_ok w' R \<and> eState (eCur w') = CURSOR_EOF"
    "\<exists>w'. prollyCursorSeekBlob get k w = (w', Inr (-1)) \<and> stays R w w' \<and> cur_ok w' R \<and> eState (eCur w') = CURSOR_INVALID"
proof -
  obtain w1 p where w1: "initCursorAtRoot get w = (w1, Inr p)" "cur_ok w1 R" "stays R w w1" "eState (eCur w1) = CURSOR_EOF"
    using initCursorAtRoot_empty [OF assms] by blast
  show "\<exists>w'. prollyCursorFirst get w = (w', Inr 1) \<and> stays R w w' \<and> cur_ok w' R \<and> eState (eCur w') = CURSOR_EOF"
    "\<exists>w'. prollyCursorLast get w = (w', Inr 1) \<and> stays R w w' \<and> cur_ok w' R \<and> eState (eCur w') = CURSOR_EOF"
    using w1 by (auto simp: prollyCursorFirst_def prollyCursorLast_def get_state_def)
  show "\<exists>w'. prollyCursorSeekBlob get k w = (w', Inr (-1)) \<and> stays R w w' \<and> cur_ok w' R \<and> eState (eCur w') = CURSOR_INVALID"
    using w1 set_state_ok [OF w1(2), of CURSOR_INVALID] stays_trans [OF w1(3) set_state_ok(2) [OF w1(2)]]
    by (simp add: prollyCursorSeekBlob_def get_state_def)
qed

lemma scan_ok:
  assumes ok: "cur_ok w R" and t: "tree hash fl (chunks (eStore w)) (curRoot (eCur w)) rows" and n: "length rows < n"
  shows "\<exists>w'. scan b get n w = (w', Inr (if b then rows else rev rows)) \<and> stays R w w' \<and> cur_ok w' R"
proof (cases "rows = []")
  case True
  then have r: "curRoot (eCur w) = hash0" using t subtree_rows by (fastforce simp: tree_def)
  have n: "0 < n" using n by simp
  show ?thesis
  proof (cases b)
    case b: True
    obtain w' where "prollyCursorFirst get w = (w', Inr 1)" "stays R w w'" "cur_ok w' R" "eState (eCur w') = CURSOR_EOF"
      using first_empty(1) [OF ok r] by blast
    then show ?thesis using collect_stop [OF _ _ n] True b by (auto simp: scan_def)
  next
    case b: False
    obtain w' where "prollyCursorLast get w = (w', Inr 1)" "stays R w w'" "cur_ok w' R" "eState (eCur w') = CURSOR_EOF"
      using first_empty(2) [OF ok r] by blast
    then show ?thesis using collect_stop [OF _ _ n] True b by (auto simp: scan_def)
  qed
next
  case False
  obtain l its where r: "root_at fl w l its rows" using tree_root_at [OF t False] by blast
  let ?pos = "if b then 0 else length rows - 1"
  obtain w1 where w1: "(if b then prollyCursorFirst get else prollyCursorLast get) w = (w1, Inr 0)" "stays R w w1" "at_row fl w1 rows ?pos R"
    using prollyCursorFirst_ok [OF ok r] prollyCursorLast_ok [OF ok r] by (cases b) auto
  have l: "(if b then length rows - ?pos else Suc ?pos) < n" using n False by (cases rows) auto
  obtain w' where w': "collect n (if b then prollyCursorNext get else prollyCursorPrev get) w1 =
       (w', Inr (if b then drop ?pos rows else rev (take (Suc ?pos) rows)))" "stays R w1 w'" "cur_ok w' R"
    using collect_ok [OF w1(3) l] by blast
  show ?thesis using w1(1) w' stays_trans [OF w1(2) w'(2)] False by (cases b) (auto simp: scan_def)
qed

lemma range_scan_ok:
  assumes ok: "cur_ok w R" and t: "tree hash fl (chunks (eStore w)) (curRoot (eCur w)) rows"
    and s: "sorted_wrt (<) (map fst rows)" and n: "length rows < n"
  shows "\<exists>w' res rs. range_scan get k n w = (w', Inr (res, rs)) \<and> stays R w w' \<and> cur_ok w' R \<and>
     (if rows = [] then res = -1 \<and> rs = [] else \<exists>pos. search_post (map fst rows) k (pos, - res) \<and> rs = drop pos rows)"
proof (cases "rows = []")
  case True
  then have r: "curRoot (eCur w) = hash0" using t subtree_rows by (fastforce simp: tree_def)
  obtain w' where "prollyCursorSeekBlob get k w = (w', Inr (-1))" "stays R w w'" "cur_ok w' R" "eState (eCur w') = CURSOR_INVALID"
    using first_empty(3) [OF ok r] by blast
  then show ?thesis using collect_stop [of w' R n] n True by (auto simp: range_scan_def)
next
  case False
  obtain l its where r: "root_at fl w l its rows" using tree_root_at [OF t False] by blast
  obtain w1 res pos where w1: "prollyCursorSeekBlob get k w = (w1, Inr res)" "stays R w w1" "at_row fl w1 rows pos R"
     "search_post (map fst rows) k (pos, - res)" using prollyCursorSeekBlob_ok [OF ok r s] by blast
  have l: "(if True then length rows - pos else Suc pos) < n" using n by simp
  obtain w' where w': "collect n (prollyCursorNext get) w1 = (w', Inr (drop pos rows))" "stays R w1 w'" "cur_ok w' R"
    using collect_ok [OF w1(3) l] by auto
  show ?thesis using w1(1,4) w' stays_trans [OF w1(2) w'(2)] False by (auto simp: range_scan_def)
qed

lemma cur_refs_init: "cur_refs (prollyCursorInit root fl) = {#}"
proof -
  have "filter_mset (\<lambda>p. p \<noteq> Null) (replicate_mset n Null) = {#}" for n by (induction n) simp_all
  then show ?thesis by (simp add: cur_refs_def prollyCursorInit_def)
qed

lemma with_cursor_ok:
  assumes "inv st" "chunks st \<subseteq> U" "cache_inv hash U ca R"
    and m: "\<And>w. cur_ok w R \<Longrightarrow> curRoot (eCur w) = root \<Longrightarrow> eStore w = st \<Longrightarrow>
      \<exists>w' a. m w = (w', Inr a) \<and> stays R w w' \<and> cur_ok w' R \<and> P a"
  shows "\<exists>w' a. with_cursor root fl st ca m = (w', Inr a) \<and> P a \<and> inv (eStore w') \<and> chunks (eStore w') = chunks st \<and>
     cache_inv hash U (eCache w') R"
proof -
  let ?w = "\<lparr>eStore = st, eCache = ca, eCur = prollyCursorInit root fl\<rparr>"
  have "cur_ok ?w R" using assms(1-3)
    by (simp add: cur_ok_def env_ok_def cur_refs_init) (simp add: prollyCursorInit_def)
  then obtain w1 a where w1: "m ?w = (w1, Inr a)" "stays R ?w w1" "cur_ok w1 R" "P a"
    using m [of ?w] by (auto simp: prollyCursorInit_def)
  obtain w2 where w2: "prollyCursorReleaseAll w1 = (w2, Inr ())" "stays R w1 w2" "env_ok w2 R"
    using prollyCursorReleaseAll_ok [OF w1(3)] by blast
  show ?thesis using w1 w2 stays_trans [OF w1(2) w2(2)]
    by (intro exI [of _ w2] exI [of _ a]) (auto simp: with_cursor_def prollyCursorClose_def env_ok_def stays_def)
qed

end

section \<open>Cursors on the chunk store\<close>

interpretation reader: tree_reader "\<lambda>cs. store_inv H U cs f" "chunks f" U H "\<lambda>cs. chunkStoreGet cs f" for H U f
  by unfold_locales

text \<open>
  C7. A scan with a cursor over a tree in the chunk store reads exactly the rows that the tree denotes, in
  order from \<open>prollyCursorFirst\<close> with \<open>prollyCursorNext\<close> and in reverse order from \<open>prollyCursorLast\<close> with
  \<open>prollyCursorPrev\<close>, whatever else the cache holds.  It changes no chunk, and after \<open>prollyCursorClose\<close> the cache
  is well formed with exactly the references that others held before: the cursor leaks none.
\<close>

theorem cursor_scan:
  assumes "store_inv H U cs f" "cache_inv H U ca R" "tree H fl (chunks f cs) root rows" "length rows < n"
  shows "\<exists>w'. with_cursor root fl' cs ca (scan fwd (\<lambda>cs. chunkStoreGet cs f) n) = (w', Inr (if fwd then rows else rev rows)) \<and>
     store_inv H U (eStore w') f \<and> chunks f (eStore w') = chunks f cs \<and> cache_inv H U (eCache w') R"
proof -
  let ?P = "\<lambda>rs. rs = (if fwd then rows else rev rows)"
  have "\<exists>w' a. with_cursor root fl' cs ca (scan fwd (\<lambda>cs. chunkStoreGet cs f) n) = (w', Inr a) \<and> ?P a \<and> store_inv H U (eStore w') f \<and>
     chunks f (eStore w') = chunks f cs \<and> cache_inv H U (eCache w') R"
    by (rule reader.with_cursor_ok [OF assms(1) store_chunks_U [OF assms(1)] assms(2)])
      (use reader.scan_ok [where R = R and rows = rows and n = n and b = fwd] assms(3,4) in blast)
  then show ?thesis by blast
qed

text \<open>
  C8. A seek with a cursor over a tree with sorted keys stops where a search in the sorted list of all its rows
  stops: at the row with the key with result 0, otherwise at the first row with a greater key with result 1,
  or at the last row with result -1 when all keys are less; the rows read from there on are
  those of the tree from that row on.  An empty tree gives result -1 and no row.
\<close>

theorem cursor_range_scan:
  assumes "store_inv H U cs f" "cache_inv H U ca R" "tree H fl (chunks f cs) root rows" "sorted_wrt (<) (map fst rows)" "length rows < n"
  shows "\<exists>w' res rs. with_cursor root fl' cs ca (range_scan (\<lambda>cs. chunkStoreGet cs f) k n) = (w', Inr (res, rs)) \<and>
     (if rows = [] then res = -1 \<and> rs = [] else \<exists>pos. search_post (map fst rows) k (pos, - res) \<and> rs = drop pos rows) \<and>
     cache_inv H U (eCache w') R"
proof -
  let ?P = "\<lambda>(res, rs). if rows = [] then res = -1 \<and> rs = [] else \<exists>pos. search_post (map fst rows) k (pos, - res) \<and> rs = drop pos rows"
  have "\<exists>w' a. with_cursor root fl' cs ca (range_scan (\<lambda>cs. chunkStoreGet cs f) k n) = (w', Inr a) \<and> ?P a \<and> store_inv H U (eStore w') f \<and>
     chunks f (eStore w') = chunks f cs \<and> cache_inv H U (eCache w') R"
    by (rule reader.with_cursor_ok [OF assms(1) store_chunks_U [OF assms(1)] assms(2)])
      (use reader.range_scan_ok [where R = R and rows = rows and n = n and k = k] assms(3-5) in fastforce)
  then obtain w' a where "with_cursor root fl' cs ca (range_scan (\<lambda>cs. chunkStoreGet cs f) k n) = (w', Inr a)" "?P a"
    "cache_inv H U (eCache w') R" by blast
  then show ?thesis by (intro exI [of _ w'] exI [of _ "fst a"] exI [of _ "snd a"]) (simp add: case_prod_beta)
qed

lemma ex_store:
  obtains cs where "chunkStorePut ex_hash chunkStoreOpenMemory ex_node = Inr (cs, ex_hash ex_node)" "store_inv ex_hash {ex_node} cs []"
    "chunks [] cs = {ex_node}" "cache_inv ex_hash {ex_node} (prollyCacheInit 4) {#}"
proof -
  have d: "ex_node \<noteq> [] \<and> length ex_node < 2147483648" by (simp add: ex_node_def node_bytes_def offsets_def)
  then have u: "universe ex_hash {ex_node}" using ex_hash_ok by (simp add: universe_def)
  have inv: "store_inv ex_hash {ex_node} chunkStoreOpenMemory []" using mem_inv_open(1) [OF u] by (simp add: mem_inv_def)
  have ca: "cache_inv ex_hash {ex_node} (prollyCacheInit 4) {#}"
    using d ex_hash_ok by (intro prollyCacheInit_ok) (simp add: hashing_def)
  obtain cs where "chunkStorePut ex_hash chunkStoreOpenMemory ex_node = Inr (cs, ex_hash ex_node)" "store_inv ex_hash {ex_node} cs []"
    "chunks [] cs = insert ex_node (chunks [] chunkStoreOpenMemory)"
    using store.put_ok [OF inv, of ex_node] by auto
  then show ?thesis using that ca by (simp add: mem_inv_open(3))
qed

lemma cursor_scan_witness:
  "\<exists>cs w'. chunkStorePut ex_hash chunkStoreOpenMemory ex_node = Inr (cs, ex_hash ex_node) \<and>
     with_cursor (ex_hash ex_node) PROLLY_NODE_BLOBKEY cs (prollyCacheInit 4) (scan True (\<lambda>cs. chunkStoreGet cs []) 2) = (w', Inr [([1], [2])])"
proof -
  obtain cs where cs: "chunkStorePut ex_hash chunkStoreOpenMemory ex_node = Inr (cs, ex_hash ex_node)" "store_inv ex_hash {ex_node} cs []"
    "chunks [] cs = {ex_node}" "cache_inv ex_hash {ex_node} (prollyCacheInit 4) {#}" by (rule ex_store)
  have t: "tree ex_hash PROLLY_NODE_BLOBKEY (chunks [] cs) (ex_hash ex_node) [([1], [2])]" using ex_tree cs(3) by simp
  show ?thesis using cursor_scan [OF cs(2,4) t, of 2 PROLLY_NODE_BLOBKEY True] cs(1) by auto
qed

lemma cursor_range_scan_witness:
  "\<exists>cs w' res rs. chunkStorePut ex_hash chunkStoreOpenMemory ex_node = Inr (cs, ex_hash ex_node) \<and>
     with_cursor (ex_hash ex_node) PROLLY_NODE_BLOBKEY cs (prollyCacheInit 4) (range_scan (\<lambda>cs. chunkStoreGet cs []) [0] 2) = (w', Inr (res, rs)) \<and>
     (\<exists>pos. search_post [[1 :: byte]] [0] (pos, - res) \<and> rs = drop pos [([1], [2])])"
proof -
  obtain cs where cs: "chunkStorePut ex_hash chunkStoreOpenMemory ex_node = Inr (cs, ex_hash ex_node)" "store_inv ex_hash {ex_node} cs []"
    "chunks [] cs = {ex_node}" "cache_inv ex_hash {ex_node} (prollyCacheInit 4) {#}" by (rule ex_store)
  have t: "tree ex_hash PROLLY_NODE_BLOBKEY (chunks [] cs) (ex_hash ex_node) [([1], [2])]" using ex_tree cs(3) by simp
  show ?thesis using cursor_range_scan [OF cs(2,4) t, of 2 PROLLY_NODE_BLOBKEY "[0]"] cs(1) by auto
qed

end
