(* ===== verification/Mutate.thy ===== *)
theory Mutate
  imports Cursor MutMap
begin

text \<open>
  Applying the edits of a table to its stored tree (\<open>prolly_mutate.c\<close>): one walk of the old tree and the
  sorted edits side by side feeds the tree builder, and a subtree without edits is spliced in by its
  hash where the levels of the builder below it are empty.  The operations return the new state
  or an error code; which chunks and cache entries an error leaves behind is not part of the result.
\<close>

section \<open>State\<close>

text \<open>\<open>pStore\<close> and \<open>pCache\<close> are the environment, as for cursors.\<close>

record mutator =
  oldRoot :: hash
  pEdits :: mutmap
  mFlags :: byte
  newRoot :: hash

type_synonym 's merge_state = "'s env \<times> chunker \<times> mm_iter"

definition on_store :: "('s \<Rightarrow> ('s \<times> 'a) res) \<Rightarrow> 's env \<Rightarrow> ('s env \<times> 'a) res" where
  "on_store f w = bindR (f (eStore w)) (\<lambda>(st, a). Inr (w\<lparr>eStore := st\<rparr>, a))"

definition compareKeys :: "byte list \<Rightarrow> byte list \<Rightarrow> int" where
  "compareKeys k1 k2 =
     (let n = (if length k1 < length k2 then length k1 else length k2); c = memcmp k1 k2 n in
      if c \<noteq> 0 then c else if length k1 < length k2 then -1 else if length k1 > length k2 then 1 else 0)"

section \<open>The edits alone\<close>

text \<open>An insertion goes to the builder, a deletion does not.\<close>

definition add_edit :: "'s chunk_put \<Rightarrow> boundary_check \<Rightarrow> 's \<Rightarrow> chunker \<Rightarrow> mm_entry \<Rightarrow> ('s \<times> chunker) res" where
  "add_edit put weibull st ch ed =
     (if op ed = PROLLY_EDIT_INSERT then prollyChunkerAdd put weibull st ch (eKey ed) (eVal ed) else Inr (st, ch))"

text \<open>The rest of the edits; \<open>buildFromEdits\<close> and the end of the last leaf.  The fuel is the number of edits and one.\<close>

fun drain_edits :: "nat \<Rightarrow> 's chunk_put \<Rightarrow> boundary_check \<Rightarrow> 's \<Rightarrow> chunker \<Rightarrow> mm_iter \<Rightarrow> ('s \<times> chunker \<times> mm_iter) res" where
  "drain_edits 0 put weibull st ch it = Inl NO_RETURN"
| "drain_edits (Suc n) put weibull st ch it =
     (if prollyMutMapIterValid it then
        bindR (prollyMutMapIterEntry it) (\<lambda>(it, ed).
        bindR (add_edit put weibull st ch ed) (\<lambda>(st, ch).
        drain_edits n put weibull st ch (prollyMutMapIterNext it)))
      else Inr (st, ch, it))"

definition buildFromEdits ::
    "'s chunk_put \<Rightarrow> boundary_check \<Rightarrow> 's env \<Rightarrow> mutator \<Rightarrow> ('s env \<times> mutator) res" where
  "buildFromEdits put weibull w mut =
     bindR (prollyMutMapIterFirst (pEdits mut)) (\<lambda>it.
     bindR (on_store (\<lambda>st. drain_edits (nEntries (pEdits mut) + 1) put weibull st (prollyChunkerInit (mFlags mut)) it) w) (\<lambda>(w, ch, it).
     bindR (on_store (\<lambda>st. prollyChunkerFinish put weibull st ch) w) (\<lambda>(w, ch).
     Inr (w, mut\<lparr>pEdits := fst it, newRoot := prollyChunkerGetRoot ch\<rparr>))))"

section \<open>Merging into a leaf\<close>

definition subtreeHasEdits :: "mm_iter \<Rightarrow> byte list \<Rightarrow> (mm_iter \<times> bool) res" where
  "subtreeHasEdits it boundKey =
     (if \<not> prollyMutMapIterValid it then Inr (it, False)
      else bindR (prollyMutMapIterEntry it) (\<lambda>(it, ed). Inr (it, compareKeys (eKey ed) boundKey \<le> 0)))"

definition chunkerLevelsBelowEmpty :: "chunker \<Rightarrow> nat \<Rightarrow> bool" where
  "chunkerLevelsBelowEmpty ch lev \<longleftrightarrow>
     \<not> (\<exists>i \<in> set [0..<min lev (nLevels ch)]. bItems (lvBuilder (aLevel ch ! i)) > 0)"

text \<open>Every round of the loop takes an item or an edit; the fuel is the number of both and one.\<close>

fun merge_items ::
    "nat \<Rightarrow> 's chunk_put \<Rightarrow> boundary_check \<Rightarrow> node \<Rightarrow> nat \<Rightarrow> 's \<Rightarrow> chunker \<Rightarrow> mm_iter \<Rightarrow> ('s \<times> chunker \<times> mm_iter) res" where
  "merge_items 0 put weibull leaf j st ch it = Inl NO_RETURN"
| "merge_items (Suc n) put weibull leaf j st ch it =
     (if j < nItems leaf then
        let haveEdit = prollyMutMapIterValid it in
        bindR (if haveEdit then bindR (prollyMutMapIterEntry it) (\<lambda>(it, ed). Inr (it, Some ed)) else Inr (it, None)) (\<lambda>(it, pEd).
        bindR (prollyNodeKey leaf j) (\<lambda>curKey.
        let take_item =
          bindR (prollyNodeValue leaf j) (\<lambda>val.
          bindR (prollyChunkerAdd put weibull st ch curKey val) (\<lambda>(st, ch).
          merge_items n put weibull leaf (j + 1) st ch it)) in
        case pEd of
          None \<Rightarrow> take_item
        | Some ed \<Rightarrow>
            bindR (prollyNodeKey leaf (nItems leaf - 1)) (\<lambda>lastKey.
            if compareKeys (eKey ed) lastKey > 0 then take_item
            else
              let cmp = compareKeys curKey (eKey ed) in
              if cmp < 0 then take_item
              else
                bindR (add_edit put weibull st ch ed) (\<lambda>(st, ch).
                merge_items n put weibull leaf (if cmp = 0 then j + 1 else j) st ch (prollyMutMapIterNext it)))))
      else Inr (st, ch, it))"

definition mergeLeaf ::
    "'s chunk_put \<Rightarrow> boundary_check \<Rightarrow> node \<Rightarrow> bool \<Rightarrow> 's \<Rightarrow> chunker \<Rightarrow> mm_iter \<Rightarrow> ('s \<times> chunker \<times> mm_iter) res" where
  "mergeLeaf put weibull leaf isLast st ch it =
     bindR (merge_items (nItems leaf + nEntries (fst it) + 1) put weibull leaf 0 st ch it) (\<lambda>(st, ch, it).
     if isLast then drain_edits (nEntries (fst it) + 1) put weibull st ch it
     else Inr (st, ch, it))"

section \<open>Walking the old tree\<close>

text \<open>The child of an item, from the cache or the store.\<close>

definition load_child :: "'s chunk_get \<Rightarrow> hash \<Rightarrow> 's env \<Rightarrow> ('s env \<times> ref) res" where
  "load_child get childHash w =
     bindR (prollyCacheGet (eCache w) childHash) (\<lambda>(ca, p).
     let w = w\<lparr>eCache := ca\<rparr> in
     if p \<noteq> Null then Inr (w, p)
     else
       case get (eStore w) childHash of
         (st, Inl rc) \<Rightarrow> Inl rc
       | (st, Inr d) \<Rightarrow>
           bindR (prollyCachePut (eCache w) childHash d) (\<lambda>(ca, r).
           bindR r (\<lambda>p. Inr (w\<lparr>eStore := st, eCache := ca\<rparr>, p))))"

text \<open>The body of the loop over the items of a node.  \<open>descend\<close> is the call for a child that is not a leaf.\<close>

definition merge_child ::
    "'s chunk_put \<Rightarrow> 's chunk_get \<Rightarrow> boundary_check \<Rightarrow> (node \<Rightarrow> bool \<Rightarrow> 's merge_state \<Rightarrow> 's merge_state res) \<Rightarrow>
     node \<Rightarrow> bool \<Rightarrow> nat \<Rightarrow> 's merge_state \<Rightarrow> 's merge_state res" where
  "merge_child put get weibull descend nd isLast i = (\<lambda>(w, ch, it).
     bindR (prollyNodeKey nd i) (\<lambda>boundKey.
     bindR (prollyNodeValue nd i) (\<lambda>childVal.
     let childIsLast = (isLast \<and> i = nItems nd - 1);
         forceDescend = (childIsLast \<and> prollyMutMapIterValid it) in
     bindR (if forceDescend then Inr (it, True) else subtreeHasEdits it boundKey) (\<lambda>(it, hasEdits).
     if \<not> hasEdits \<and> chunkerLevelsBelowEmpty ch (unat (level nd)) then
       bindR (on_store (\<lambda>st. prollyChunkerAddAtLevel put weibull st ch (unat (level nd)) boundKey childVal) w) (\<lambda>(w, ch).
       Inr (w, ch, it))
     else
       bindR (guardR (length childVal = PROLLY_HASH_SIZE) OUT_OF_BOUNDS) (\<lambda>_.
       bindR (load_child get childVal w) (\<lambda>(w, p).
       bindR (deref (eCache w) p) (\<lambda>e.
       bindR (if level (ceNode e) = 0
              then on_store (\<lambda>st. mergeLeaf put weibull (ceNode e) childIsLast st ch it) w
              else descend (ceNode e) childIsLast (w, ch, it)) (\<lambda>(w, ch, it).
       bindR (prollyCacheRelease (eCache w) p) (\<lambda>ca. Inr (w\<lparr>eCache := ca\<rparr>, ch, it))))))))))"

primrec merge_children :: "(nat \<Rightarrow> 'm \<Rightarrow> 'm res) \<Rightarrow> nat list \<Rightarrow> 'm \<Rightarrow> 'm res" where
  "merge_children f [] m = Inr m"
| "merge_children f (i # is) m = bindR (f i m) (merge_children f is)"

text \<open>The first argument bounds the depth of the recursion.\<close>

primrec streamingMergeNode ::
    "nat \<Rightarrow> 's chunk_put \<Rightarrow> 's chunk_get \<Rightarrow> boundary_check \<Rightarrow> node \<Rightarrow> bool \<Rightarrow> 's merge_state \<Rightarrow> 's merge_state res" where
  "streamingMergeNode 0 put get weibull nd isLast m = Inl NO_RETURN"
| "streamingMergeNode (Suc n) put get weibull nd isLast m =
     merge_children (merge_child put get weibull (streamingMergeNode n put get weibull) nd isLast) [0..<nItems nd] m"

definition streamingMerge ::
    "'s chunk_put \<Rightarrow> 's chunk_get \<Rightarrow> boundary_check \<Rightarrow> 's env \<Rightarrow> mutator \<Rightarrow> ('s env \<times> mutator) res" where
  "streamingMerge put get weibull w mut =
     (case get (eStore w) (oldRoot mut) of
        (st, Inl rc) \<Rightarrow> Inl rc
      | (st, Inr d) \<Rightarrow>
          let w = w\<lparr>eStore := st\<rparr> in
          bindR (prollyNodeParse d) (\<lambda>rootNode.
          bindR (prollyMutMapIterFirst (pEdits mut)) (\<lambda>it.
          let ch = prollyChunkerInit (mFlags mut) in
          bindR (if level rootNode = 0
                 then on_store (\<lambda>st. mergeLeaf put weibull rootNode True st ch it) w
                 else streamingMergeNode PROLLY_CURSOR_MAX_DEPTH put get weibull rootNode True (w, ch, it)) (\<lambda>(w, ch, it).
          bindR (on_store (\<lambda>st. prollyChunkerFinish put weibull st ch) w) (\<lambda>(w, ch).
          Inr (w, mut\<lparr>pEdits := fst it, newRoot := prollyChunkerGetRoot ch\<rparr>))))))"

definition prollyMutateFlush ::
    "'s chunk_put \<Rightarrow> 's chunk_get \<Rightarrow> boundary_check \<Rightarrow> 's env \<Rightarrow> mutator \<Rightarrow> ('s env \<times> mutator) res" where
  "prollyMutateFlush put get weibull w mut =
     (if prollyMutMapIsEmpty (pEdits mut) then Inr (w, mut\<lparr>newRoot := oldRoot mut\<rparr>)
      else if prollyHashIsEmpty (oldRoot mut) then buildFromEdits put weibull w mut
      else streamingMerge put get weibull w mut)"

section \<open>One edit\<close>

definition one_edit ::
    "'s chunk_put \<Rightarrow> 's chunk_get \<Rightarrow> boundary_check \<Rightarrow> 's env \<Rightarrow> hash \<Rightarrow> byte \<Rightarrow> mutmap \<Rightarrow> ('s env \<times> hash) res" where
  "one_edit put get weibull w root fl mm =
     bindR (prollyMutateFlush put get weibull w \<lparr>oldRoot = root, pEdits = mm, mFlags = fl, newRoot = hash0\<rparr>) (\<lambda>(w, mut).
     Inr (w, newRoot mut))"

definition prollyMutateInsert ::
    "'s chunk_put \<Rightarrow> 's chunk_get \<Rightarrow> boundary_check \<Rightarrow> 's env \<Rightarrow> hash \<Rightarrow> byte \<Rightarrow> byte list \<Rightarrow> u64 \<Rightarrow> byte list \<Rightarrow> ('s env \<times> hash) res" where
  "prollyMutateInsert put get weibull w root fl key intKey val =
     bindR (prollyMutMapInsert (prollyMutMapInit (fl AND PROLLY_NODE_INTKEY \<noteq> 0)) key intKey val) (\<lambda>mm.
     one_edit put get weibull w root fl mm)"

definition prollyMutateDelete ::
    "'s chunk_put \<Rightarrow> 's chunk_get \<Rightarrow> boundary_check \<Rightarrow> 's env \<Rightarrow> hash \<Rightarrow> byte \<Rightarrow> byte list \<Rightarrow> u64 \<Rightarrow> ('s env \<times> hash) res" where
  "prollyMutateDelete put get weibull w root fl key intKey =
     bindR (prollyMutMapDelete (prollyMutMapInit (fl AND PROLLY_NODE_INTKEY \<noteq> 0)) key intKey) (\<lambda>mm.
     one_edit put get weibull w root fl mm)"

end
