(* ===== verification/MutateLeaf.thy ===== *)
theory MutateLeaf
  imports Mutate MutMapSpec TreeBuild CursorInv
begin

text \<open>
  What an iterator of the edit map still has to deliver, and the merge of a leaf with it: the leaf's items
  and the edits up to its last key are consumed, and their merge goes to the chunker.
\<close>

section \<open>The iterator\<close>

text \<open>The edits that an iterator over a sorted map has still to give.\<close>

definition iter_ok :: "mm_iter \<Rightarrow> bool" where
  "iter_ok it \<longleftrightarrow> order_inv (fst it) \<and> ensureOrder (fst it) = Inr (fst it) \<and> snd it \<le> nEntries (fst it)"

definition edits :: "mm_iter \<Rightarrow> mm_entry list" where
  "edits it = drop (snd it) (ordered_entries (fst it))"

lemma iter_ok_simps:
  assumes "iter_ok it"
  shows "prollyMutMapIterValid it \<longleftrightarrow> edits it \<noteq> []" "length (edits it) = nEntries (fst it) - snd it"
    "sorted_wrt (<) (map eKey (edits it))"
proof -
  note l = length_ordered_entries [of "fst it"]
  show "prollyMutMapIterValid it \<longleftrightarrow> edits it \<noteq> []" "length (edits it) = nEntries (fst it) - snd it"
    using assms l by (auto simp: iter_ok_def prollyMutMapIterValid_def edits_def)
  have "sorted_wrt (<) (map eKey (ordered_entries (fst it)))"
    using assms by (simp add: iter_ok_def order_inv_def order_keys_entries)
  then show "sorted_wrt (<) (map eKey (edits it))"
    unfolding edits_def drop_map [symmetric] by (metis append_take_drop_id sorted_wrt_append)
qed

lemma iter_ok_next:
  assumes "iter_ok it" "edits it = ed # es"
  shows "prollyMutMapIterEntry it = Inr (it, ed)" "iter_ok (prollyMutMapIterNext it)" "edits (prollyMutMapIterNext it) = es"
    "fst (prollyMutMapIterNext it) = fst it"
proof -
  have o: "order_inv (fst it)" "ensureOrder (fst it) = Inr (fst it)" using assms(1) by (simp_all add: iter_ok_def)
  have i: "snd it < nEntries (fst it)" using assms iter_ok_simps(2) [OF assms(1)] by simp
  have l: "snd it < length (ordered_entries (fst it))" using i length_ordered_entries [OF o(1)] by simp
  have d: "ordered_entries (fst it) ! snd it = ed" "drop (Suc (snd it)) (ordered_entries (fst it)) = es"
    using assms(2) Cons_nth_drop_Suc [OF l] unfolding edits_def by simp_all
  show "prollyMutMapIterEntry it = Inr (it, ed)"
    using o(2) entryAtOrder_ordered [OF o(1) i] d(1) by (simp add: prollyMutMapIterEntry_def)
  show "iter_ok (prollyMutMapIterNext it)" "edits (prollyMutMapIterNext it) = es" "fst (prollyMutMapIterNext it) = fst it"
    using o i d(2) by (simp_all add: iter_ok_def edits_def prollyMutMapIterNext_def)
qed

lemma compareKeys_eq: "compareKeys a b = key_cmp a b"
  by (auto simp: compareKeys_def key_cmp_def Let_def)

section \<open>What the merge gives to the builder\<close>

definition edit_rows :: "mm_entry \<Rightarrow> row list" where
  "edit_rows e = (if op e = PROLLY_EDIT_INSERT then [(eKey e, eVal e)] else [])"

text \<open>Rows and edits, both in key order: an edit takes the place of the row with its key.\<close>

fun merge_rows :: "row list \<Rightarrow> mm_entry list \<Rightarrow> row list" where
  "merge_rows [] es = concat (map edit_rows es)"
| "merge_rows (r # rs) [] = r # rs"
| "merge_rows (r # rs) (e # es) =
     (if fst r < eKey e then r # merge_rows rs (e # es)
      else if fst r = eKey e then edit_rows e @ merge_rows rs es
      else edit_rows e @ merge_rows (r # rs) es)"

lemma merge_rows_Nil [simp]: "merge_rows rs [] = rs"
  by (cases rs) simp_all

text \<open>Merging piece by piece.\<close>

lemma merge_rows_append:
  assumes "\<forall>e \<in> set es1. \<forall>r \<in> set rs2. eKey e < fst r" "\<forall>r \<in> set rs1. \<forall>e \<in> set es2. fst r < eKey e"
  shows "merge_rows (rs1 @ rs2) (es1 @ es2) = merge_rows rs1 es1 @ merge_rows rs2 es2"
  using assms
proof (induction rs1 es1 rule: merge_rows.induct)
  case (1 es)
  have "eKey e < fst r \<Longrightarrow> merge_rows (r # rs) (e # fs) = edit_rows e @ merge_rows (r # rs) fs" for e r rs fs
    by (auto dest: less_imp_not_less)
  then have "\<forall>e \<in> set es. \<forall>r \<in> set rs2. eKey e < fst r \<Longrightarrow> merge_rows rs2 (es @ es2) = concat (map edit_rows es) @ merge_rows rs2 es2"
    by (induction es) (cases rs2; simp)+
  then show ?case using 1 by simp
next
  case (2 r rs)
  have "\<forall>r \<in> set rs1. \<forall>e \<in> set es2. fst r < eKey e \<Longrightarrow> merge_rows (rs1 @ rs2) es2 = rs1 @ merge_rows rs2 es2" for rs1
    by (induction rs1) (cases es2; simp)+
  from this [of "r # rs"] show ?case using 2 by simp
next
  case (3 r rs e es)
  then show ?case by auto
qed

abbreviation upto_key :: "byte list \<Rightarrow> mm_entry list \<Rightarrow> mm_entry list" where
  "upto_key k \<equiv> takeWhile (\<lambda>e. eKey e \<le> k)"

abbreviation after_key :: "byte list \<Rightarrow> mm_entry list \<Rightarrow> mm_entry list" where
  "after_key k \<equiv> dropWhile (\<lambda>e. eKey e \<le> k)"

section \<open>Runs on the builder\<close>

lemma add_rows_append:
  "chunker_add_rows put w st ch (xs @ ys) =
     bindR (chunker_add_rows put w st ch xs) (\<lambda>(st, ch). chunker_add_rows put w st ch ys)"
  by (induction xs arbitrary: st ch) (simp_all add: bindR_assoc case_prod_beta')

lemma add_rows_single: "chunker_add_rows put w st ch [r] = prollyChunkerAdd put w st ch (fst r) (snd r)"
  by (cases "prollyChunkerAdd put w st ch (fst r) (snd r)") auto

lemma add_edit_eq: "add_edit put w st ch ed = chunker_add_rows put w st ch (edit_rows ed)"
  by (auto simp: add_edit_def edit_rows_def add_rows_single simp del: chunker_add_rows.simps(2))

text \<open>The iterator after \<open>k\<close> edits.\<close>

definition adv :: "mm_iter \<Rightarrow> nat \<Rightarrow> mm_iter" where
  "adv it k = (fst it, snd it + k)"

lemma adv_0 [simp]: "adv it 0 = it" by (simp add: adv_def)

lemma fst_adv [simp]: "fst (adv it k) = fst it" by (simp add: adv_def)

lemma adv_adv [simp]: "adv (adv it k) l = adv it (k + l)" by (simp add: adv_def add.assoc)

lemma adv_ok: "iter_ok it \<Longrightarrow> k \<le> length (edits it) \<Longrightarrow> iter_ok (adv it k) \<and> edits (adv it k) = drop k (edits it)"
  using iter_ok_simps(2) [of it] by (auto simp: iter_ok_def adv_def edits_def add.commute)

lemma iter_next_adv: "iter_ok it \<Longrightarrow> edits it = ed # es \<Longrightarrow> prollyMutMapIterNext it = adv it 1"
  using iter_ok_simps(2) [of it] by (auto simp: prollyMutMapIterNext_def adv_def)

lemma drain_edits_eq:
  "iter_ok it \<Longrightarrow> length (edits it) < n \<Longrightarrow>
     drain_edits n put w st ch it =
       bindR (chunker_add_rows put w st ch (concat (map edit_rows (edits it)))) (\<lambda>(st, ch). Inr (st, ch, adv it (length (edits it))))"
proof (induction n arbitrary: st ch it)
  case (Suc n)
  show ?case
  proof (cases "edits it")
    case Nil
    then show ?thesis using iter_ok_simps(1) [OF Suc.prems(1)] by simp
  next
    case (Cons ed es)
    note nx = iter_ok_next [OF Suc.prems(1) Cons]
    have l: "length (edits (adv it 1)) < n" using Suc.prems(2) Cons nx(3) iter_next_adv [OF Suc.prems(1) Cons] by simp
    show ?thesis
      using Suc.IH [OF _ l] nx iter_next_adv [OF Suc.prems(1) Cons] Cons iter_ok_simps(1) [OF Suc.prems(1)]
      by (simp add: add_edit_eq add_rows_append bindR_assoc case_prod_beta')
  qed
qed simp

declare drain_edits.simps [simp del] merge_items.simps [simp del]

lemma merge_items_eq:
  assumes nd: "node_holds leaf its"
  defines "k \<equiv> fst (last its)"
  shows "iter_ok it \<Longrightarrow> (length its - j) + length (edits it) < n \<Longrightarrow> j < length its \<or> j = length its \<and> upto_key k (edits it) = [] \<Longrightarrow>
     merge_items n put w leaf j st ch it =
       bindR (chunker_add_rows put w st ch (merge_rows (drop j its) (upto_key k (edits it))))
         (\<lambda>(st, ch). Inr (st, ch, adv it (length (upto_key k (edits it)))))"
proof (induction n arbitrary: j st ch it)
  case (Suc n)
  note pr = Suc.prems
  have n: "nItems leaf = length its" using nd by (simp add: node_holds_def)
  have rd: "prollyNodeKey leaf i = Inr (fst (its ! i))" "prollyNodeValue leaf i = Inr (snd (its ! i))" if "i < length its" for i
    using nd that by (simp_all add: node_holds_def)
  show ?case
  proof (cases "j < length its")
    case False
    then show ?thesis using pr(3) n by (subst merge_items.simps) simp
  next
    case True
    have lk: "prollyNodeKey leaf (length its - 1) = Inr k"
    proof -
      have "its \<noteq> []" "length its - 1 < length its" using True by auto
      then show ?thesis using rd(1) [of "length its - 1"] by (simp add: k_def last_conv_nth)
    qed
    have d: "drop j its = its ! j # drop (Suc j) its" using True by (simp add: Cons_nth_drop_Suc)
    have m: "(length its - Suc j) + length (edits it) < n" using pr(2) True by simp
    have jj: "Suc j < length its \<or> Suc j = length its" using True by linarith
    have last: "fst (its ! j) = k" if "Suc j = length its"
    proof -
      have "its \<noteq> []" "length its - 1 = j" using that by auto
      then show ?thesis by (simp add: k_def last_conv_nth)
    qed
    have item: "bindR (prollyNodeValue leaf j) (\<lambda>val. bindR (prollyChunkerAdd put w st ch (fst (its ! j)) val) (\<lambda>(st, ch).
          merge_items n put w leaf (j + 1) st ch it)) =
        bindR (chunker_add_rows put w st ch (its ! j # merge_rows (drop (Suc j) its) (upto_key k (edits it))))
         (\<lambda>(st, ch). Inr (st, ch, adv it (length (upto_key k (edits it)))))"
      if "upto_key k (edits it) = [] \<or> Suc j < length its"
    proof -
      have "Suc j < length its \<or> Suc j = length its \<and> upto_key k (edits it) = []" using that jj by blast
      note ih = Suc.IH [OF pr(1) m this]
      show ?thesis unfolding Suc_eq_plus1 [symmetric] ih rd(2) [OF True] by (simp add: bindR_assoc case_prod_beta')
    qed
    show ?thesis
    proof (cases "edits it")
      case Nil
      have "\<not> prollyMutMapIterValid it" using iter_ok_simps(1) [OF pr(1)] Nil by simp
      then show ?thesis using n True rd(1) [OF True] item Nil d by (subst merge_items.simps) (simp add: Let_def)
    next
      case (Cons ed es)
      have v: "prollyMutMapIterValid it" using iter_ok_simps(1) [OF pr(1)] Cons by simp
      note nx = iter_ok_next [OF pr(1) Cons] and na = iter_next_adv [OF pr(1) Cons]
      have st: "merge_items (Suc n) put w leaf j st ch it =
          (if k < eKey ed \<or> fst (its ! j) < eKey ed
           then bindR (prollyNodeValue leaf j) (\<lambda>val. bindR (prollyChunkerAdd put w st ch (fst (its ! j)) val) (\<lambda>(st, ch).
                  merge_items n put w leaf (j + 1) st ch it))
           else bindR (add_edit put w st ch ed) (\<lambda>(st, ch).
                merge_items n put w leaf (if fst (its ! j) = eKey ed then j + 1 else j) st ch (prollyMutMapIterNext it)))"
        using n True v nx(1) rd(1) [OF True] lk by (subst merge_items.simps) (simp add: Let_def compareKeys_eq)
      consider "k < eKey ed" | "\<not> k < eKey ed" "fst (its ! j) < eKey ed" | "\<not> k < eKey ed" "\<not> fst (its ! j) < eKey ed" by blast
      then show ?thesis
      proof cases
        case 1
        then have u: "upto_key k (edits it) = []" using Cons by simp
        then show ?thesis using st item 1 d by simp
      next
        case 2
        then have "Suc j < length its" using jj last by auto
        moreover have "merge_rows (drop j its) (upto_key k (edits it)) = its ! j # merge_rows (drop (Suc j) its) (upto_key k (edits it))"
          using 2 Cons d by simp
        ultimately show ?thesis using st item 2 by simp
      next
        case 3
        let ?j = "if fst (its ! j) = eKey ed then j + 1 else j"
        have u: "upto_key k (edits it) = ed # upto_key k es" using 3(1) Cons by simp
        have s: "\<forall>e \<in> set es. eKey ed < eKey e" using iter_ok_simps(3) [OF pr(1)] Cons by simp
        have m2: "(length its - ?j) + length (edits (adv it 1)) < n" using pr(2) nx(3) na Cons True by auto
        have "upto_key k es = []" if "fst (its ! j) = eKey ed" "Suc j = length its"
          using s last [OF that(2)] that(1) by (cases es) (auto simp: not_le)
        then have j2: "?j < length its \<or> ?j = length its \<and> upto_key k (edits (adv it 1)) = []" using True jj nx(3) na by auto
        have ih: "merge_items n put w leaf ?j st ch (prollyMutMapIterNext it) =
            bindR (chunker_add_rows put w st ch (merge_rows (drop ?j its) (upto_key k es)))
              (\<lambda>(st, ch). Inr (st, ch, adv it (length (upto_key k (edits it)))))" for st ch
          using Suc.IH [OF _ m2 j2, of st ch] nx(2,3) na u by simp
        have "merge_rows (drop j its) (upto_key k (edits it)) = edit_rows ed @ merge_rows (drop ?j its) (upto_key k es)"
          using 3 u d by auto
        then show ?thesis unfolding st using 3 ih by (simp add: add_edit_eq add_rows_append bindR_assoc case_prod_beta')
      qed
    qed
  qed
qed (simp add: merge_items.simps)

text \<open>What a leaf or a subtree gives to the builder, and the edits it takes.\<close>

definition part_rows :: "bool \<Rightarrow> row list \<Rightarrow> mm_entry list \<Rightarrow> row list" where
  "part_rows isLast rows es = merge_rows rows (if isLast then es else upto_key (fst (last rows)) es)"

definition part_edits :: "bool \<Rightarrow> row list \<Rightarrow> mm_entry list \<Rightarrow> nat" where
  "part_edits isLast rows es = length (if isLast then es else upto_key (fst (last rows)) es)"

lemma take_part_edits: "take (part_edits isLast rows es) es = (if isLast then es else upto_key (fst (last rows)) es)"
  by (simp add: part_edits_def takeWhile_eq_take [symmetric])

lemma sorted_le_last:
  fixes its :: "row list"
  shows "sorted_wrt (<) (map fst its) \<Longrightarrow> r \<in> set its \<Longrightarrow> fst r \<le> fst (last its)"
  by (induction its) (auto simp: less_imp_le)

lemma mergeLeaf_eq:
  assumes nd: "node_holds leaf its" "its \<noteq> []" "sorted_wrt (<) (map fst its)" and it: "iter_ok it"
  shows "mergeLeaf put w leaf isLast st ch it =
    bindR (chunker_add_rows put w st ch (part_rows isLast its (edits it)))
      (\<lambda>(st, ch). Inr (st, ch, adv it (part_edits isLast its (edits it))))"
proof -
  let ?k = "fst (last its)" and ?es = "edits it"
  have l: "(length its - 0) + length ?es < nItems leaf + nEntries (fst it) + 1"
    using iter_ok_simps(2) [OF it] nd(1) by (simp add: node_holds_def)
  have 1: "merge_items (nItems leaf + nEntries (fst it) + 1) put w leaf 0 st ch it =
      bindR (chunker_add_rows put w st ch (merge_rows its (upto_key ?k ?es))) (\<lambda>(st, ch). Inr (st, ch, adv it (length (upto_key ?k ?es))))"
    using merge_items_eq [OF nd(1) it l] nd(2) by simp
  have u: "length (upto_key ?k ?es) \<le> length ?es" by (rule length_takeWhile_le)
  note a = adv_ok [OF it u]
  have dw: "drop (length (upto_key ?k ?es)) ?es = after_key ?k ?es" by (rule dropWhile_eq_drop [symmetric])
  show ?thesis
  proof (cases isLast)
    case False
    then show ?thesis using 1 by (simp add: mergeLeaf_def part_rows_def part_edits_def bindR_assoc case_prod_beta')
  next
    case True
    have sp: "\<forall>r \<in> set its. fst r \<le> ?k" using sorted_le_last [OF nd(3)] by blast
    have "\<forall>r \<in> set its. \<forall>e \<in> set (after_key ?k ?es). fst r < eKey e"
    proof -
      have "\<forall>e \<in> set (after_key ?k ?es). ?k < eKey e"
      proof (cases "after_key ?k ?es")
        case (Cons e fs)
        have "?es = upto_key ?k ?es @ e # fs" using takeWhile_dropWhile_id [of "\<lambda>e. eKey e \<le> ?k" ?es] Cons by simp
        then have "sorted_wrt (<) (map eKey (upto_key ?k ?es @ e # fs))" using iter_ok_simps(3) [OF it] by simp
        then have "\<forall>f \<in> set fs. eKey e < eKey f" by (simp add: sorted_wrt_append)
        moreover have "?k < eKey e" using hd_dropWhile [of "\<lambda>e. eKey e \<le> ?k" ?es] Cons by (simp add: not_le)
        ultimately show ?thesis unfolding Cons by auto
      next
        case Nil
        show ?thesis unfolding Nil by simp
      qed
      then show ?thesis using sp by (meson le_less_trans)
    qed
    then have m: "merge_rows its ?es = merge_rows its (upto_key ?k ?es) @ concat (map edit_rows (after_key ?k ?es))"
      using merge_rows_append [of "upto_key ?k ?es" "[]" its "after_key ?k ?es"] by simp
    have n: "length (edits (adv it (length (upto_key ?k ?es)))) < nEntries (fst it) + 1"
      using a iter_ok_simps(2) [OF it] by simp
    have "length (upto_key ?k ?es) + length (after_key ?k ?es) = length ?es" by (metis length_append takeWhile_dropWhile_id)
    then show ?thesis using 1 True m drain_edits_eq [where put = put and w = w, OF _ n] a dw
      by (simp add: mergeLeaf_def part_rows_def part_edits_def add_rows_append bindR_assoc case_prod_beta')
  qed
qed

end
