(* ===== verification/MutateRun.thy ===== *)
theory MutateRun
  imports MutateLeaf
begin

text \<open>
  The recursion over a tree: chunks that no edit touches are spliced in at their level once the levels
  below are empty, the others are taken apart, and what the chunker receives is the merge of the rows with
  the edits, part by part.
\<close>

section \<open>Adding above empty levels\<close>

lemma upper_below_empty:
  "ch_ok fl ch \<Longrightarrow> upper H fl S ch 0 rows \<Longrightarrow> \<forall>j < L. cnt ch j = 0 \<Longrightarrow> L \<le> nLevels ch \<Longrightarrow>
     upper H fl S ch L rows \<and> (\<forall>j < L. lv_ok fl j (aLevel ch ! j) [])"
proof (induction L)
  case (Suc L)
  have ih: "upper H fl S ch L rows" "\<forall>j < L. lv_ok fl j (aLevel ch ! j) []" using Suc by simp_all
  have l: "L < nLevels ch" using Suc.prems(4) by simp
  obtain its part up where s: "lv_ok fl L (aLevel ch ! L) its" "denote H fl S L its part" "upper H fl S ch (Suc L) up" "rows = up @ part"
    using ih(1) upper_step [OF Suc.prems(1) l] by blast
  have "its = []" using lv_ok_cnt [OF s(1) l] Suc.prems(3) by simp
  then show ?case using s ih(2) by (auto simp: less_Suc_eq)
qed simp

lemma upper_above_empty:
  "ch_ok fl ch \<Longrightarrow> upper H fl S ch L rows \<Longrightarrow> \<forall>j < L. lv_ok fl j (aLevel ch ! j) [] \<Longrightarrow> L \<le> nLevels ch \<Longrightarrow> upper H fl S ch 0 rows"
proof (induction L)
  case (Suc L)
  have l: "L < nLevels ch" using Suc.prems(4) by simp
  have "lv_ok fl L (aLevel ch ! L) []" using Suc.prems(3) by simp
  then have "upper H fl S ch L rows"
    unfolding upper_step [OF Suc.prems(1) l] using Suc.prems(2)
    by (intro exI [of _ "[]"] exI [of _ "[]"] exI [of _ rows]) (simp add: PROLLY_CHUNK_MAX_def)
  then show ?case using Suc by simp
qed simp

lemma levels_below_cnt: "chunkerLevelsBelowEmpty ch L \<longleftrightarrow> (\<forall>j < L. cnt ch j = 0)"
  by (auto simp: chunkerLevelsBelowEmpty_def cnt_def)

lemma add_above_empty:
  assumes H: "\<forall>d. hash_ok (H d)" and L: "L < PROLLY_CURSOR_MAX_DEPTH" and c: "ch_ok fl ch" and u: "upper H fl (set ds) ch 0 acc"
    and e: "chunkerLevelsBelowEmpty ch L" and it: "item_ok fl L it" "0 < item_size it" "denote H fl (set ds) L [it] part"
  shows "prollyChunkerAddAtLevel (rec_put H) w ds ch L (fst it) (snd it) = Inl SQLITE_FULL \<or>
    (\<exists>x ch'. prollyChunkerAddAtLevel (rec_put H) w ds ch L (fst it) (snd it) = Inr (ds @ x, ch') \<and>
       ch_ok fl ch' \<and> upper H fl (set (ds @ x)) ch' 0 (acc @ part))"
proof -
  define ch1 where "ch1 = (if L \<ge> nLevels ch then init_levels ch L else ch)"
  have i: "ch_ok fl ch1" "L < nLevels ch1" "upper H fl (set ds) ch1 0 acc"
    using init_levels_ok [OF c L] c u by (auto simp: ch1_def max_def)
  have cn: "\<forall>j < L. cnt ch1 j = 0" using cnt_init [OF c L] e by (auto simp: ch1_def levels_below_cnt)
  have eq: "addToLevel (rec_put H) w ds ch L (fst it) (snd it) = addToLevel (rec_put H) w ds ch1 L (fst it) (snd it)"
    using i(2) unfolding addToLevel.simps [of "rec_put H" w ds ch] addToLevel.simps [of "rec_put H" w ds ch1] ch1_def [symmetric] by simp
  have "L \<le> nLevels ch1" using i(2) by simp
  note b = upper_below_empty [OF i(1,3) cn this]
  have "level_result H fl ds ch1 L (acc @ part) (fst it) (addToLevel (rec_put H) w ds ch1 L (fst it) (snd it))"
    using add_flush_ok [OF H L, where w = w and fl = fl, THEN conjunct1, unfolded add_ok_def, rule_format, OF i(1) it(1,3)] b it(2) by blast
  then consider "addToLevel (rec_put H) w ds ch1 L (fst it) (snd it) = Inl SQLITE_FULL"
    | x ch' where "addToLevel (rec_put H) w ds ch1 L (fst it) (snd it) = Inr (ds @ x, ch')" "ch_ok fl ch'"
      "upper H fl (set (ds @ x)) ch' L (acc @ part)" "L < nLevels ch'" "\<forall>j < L. j < nLevels ch1 \<longrightarrow> aLevel ch' ! j = aLevel ch1 ! j"
    unfolding level_result_def by blast
  then show ?thesis
  proof cases
    case 1
    then show ?thesis using eq by (simp add: prollyChunkerAddAtLevel_def)
  next
    case 2
    have "\<forall>j < L. lv_ok fl j (aLevel ch' ! j) []" using b 2(5) i(2) by simp
    then have "upper H fl (set (ds @ x)) ch' 0 (acc @ part)" using upper_above_empty [OF 2(2,3)] 2(4) by simp
    then show ?thesis using 2(1,2) eq by (auto simp: prollyChunkerAddAtLevel_def)
  qed
qed

section \<open>A list of chunks as a store\<close>

definition rec_get :: "(byte list \<Rightarrow> hash) \<Rightarrow> byte list list chunk_get" where
  "rec_get H ds h = (ds, case find (\<lambda>d. H d = h) ds of Some d \<Rightarrow> Inr d | None \<Rightarrow> Inl SQLITE_NOTFOUND)"

lemma find_append_Some: "find P xs = Some x \<Longrightarrow> find P (xs @ ys) = Some x"
  by (induction xs) (auto split: if_splits)

lemma rec_get_found:
  assumes "inj_on H (set ds0)" "d \<in> set ds0"
  shows "rec_get H (ds0 @ x) (H d) = (ds0 @ x, Inr d)"
proof -
  obtain e where e: "find (\<lambda>c. H c = H d) ds0 = Some e"
    using assms(2) by (cases "find (\<lambda>c. H c = H d) ds0") (auto simp: find_None_iff)
  then have "H e = H d" "e \<in> set ds0" by (auto simp: find_Some_iff)
  then have "e = d" using assms by (auto dest: inj_onD)
  then show ?thesis using find_append_Some [OF e] by (simp add: rec_get_def)
qed

lemma rec_get_Inr: "rec_get H ds h = (ds', Inr d) \<Longrightarrow> ds' = ds \<and> d \<in> set ds \<and> H d = h"
  by (auto simp: rec_get_def find_Some_iff split: option.splits)

interpretation recorder: tree_reader "\<lambda>ds. inj_on H (set ds0) \<and> (\<exists>x. ds = ds0 @ x)" "\<lambda>_. set ds0" U H "rec_get H" for H U ds0
  by unfold_locales (auto simp: rec_get_found)

text \<open>The environment of a run: the list starts with the chunks of the old tree, and the cache holds chunks of \<open>U\<close>.\<close>

definition renv :: "(byte list \<Rightarrow> hash) \<Rightarrow> byte list set \<Rightarrow> byte list list \<Rightarrow> byte list list env \<Rightarrow> ref multiset \<Rightarrow> bool" where
  "renv H U ds0 w R \<longleftrightarrow> inj_on H (set ds0) \<and> (\<exists>x. eStore w = ds0 @ x) \<and> set ds0 \<subseteq> U \<and> cache_inv H U (eCache w) R"

lemma renv_env_ok: "renv H U ds0 w R \<longleftrightarrow> recorder.env_ok H ds0 U w R"
  by (auto simp: renv_def recorder.env_ok_def)

lemma load_child_eq:
  "load_child get h w = (case loadNode get h w of (w', Inl e) \<Rightarrow> Inl e | (w', Inr p) \<Rightarrow> Inr (w', p))"
  by (auto simp: load_child_def loadNode_def bindR_def Let_def split: sum.splits prod.splits)

lemma load_child_ok:
  assumes "renv H U ds0 w R" "d \<in> set ds0" "prollyNodeParse d = Inr nd"
  shows "\<exists>ca p. load_child (rec_get H) (H d) w = Inr (w\<lparr>eCache := ca\<rparr>, p) \<and> renv H U ds0 (w\<lparr>eCache := ca\<rparr>) (add_mset p R) \<and>
     deref ca p = Inr (ent ca p) \<and> ceNode (ent ca p) = nd \<and> keeps (eCache w) ca R"
proof -
  obtain st ca p where l: "loadNode (rec_get H) (H d) w = (w\<lparr>eStore := st, eCache := ca\<rparr>, Inr p)"
     "recorder.env_ok H ds0 U (w\<lparr>eStore := st, eCache := ca\<rparr>) (add_mset p R)" "view ca p = (H d, d, nd)" "keeps (eCache w) ca R"
    using recorder.loadNode_ok [OF assms(1) [unfolded renv_env_ok] assms(2,3)] by blast
  obtain x where x: "eStore w = ds0 @ x" "inj_on H (set ds0)" using assms(1) by (auto simp: renv_def)
  have "st = eStore w"
    using l(1) rec_get_found [OF x(2) assms(2), of x] x(1)
    by (auto simp: loadNode_def Let_def split: sum.splits prod.splits if_splits) (cases w; simp)+
  then have e: "w\<lparr>eStore := st, eCache := ca\<rparr> = w\<lparr>eCache := ca\<rparr>" by (cases w) simp
  have "cache_inv H U ca (add_mset p R)" using l(2) by (simp add: recorder.env_ok_def)
  then have "p \<in> dom (cHeap ca)" using cache_inv_dom by fastforce
  then show ?thesis using l e by (intro exI [of _ ca] exI [of _ p]) (simp add: load_child_eq renv_env_ok view_ent)
qed

lemma release_child_ok:
  assumes "renv H U ds0 w (add_mset p R)"
  shows "\<exists>ca. prollyCacheRelease (eCache w) p = Inr ca \<and> renv H U ds0 (w\<lparr>eCache := ca\<rparr>) R \<and> (\<forall>q. view ca q = view (eCache w) q)"
proof -
  have "cache_inv H U (eCache w) (add_mset p R)" using assms by (simp add: renv_def)
  from prollyCacheRelease_ok [OF this, of p] assms show ?thesis by (auto simp: renv_def)
qed

section \<open>Merging part by part\<close>

lemma upto_after_split:
  fixes k1 k2 :: "byte list"
  assumes "k1 \<le> k2"
  shows "upto_key k2 es = upto_key k1 es @ upto_key k2 (after_key k1 es)"
proof (induction es)
  case (Cons e es)
  show ?case
  proof (cases "eKey e \<le> k1")
    case True
    then have "eKey e \<le> k2" using assms by (rule order_trans)
    then show ?thesis using True Cons by simp
  qed simp
qed simp

lemma after_key_greater: "sorted_wrt (<) (map eKey es) \<Longrightarrow> e \<in> set (after_key k es) \<Longrightarrow> k < eKey e"
proof (induction es)
  case (Cons f es)
  then show ?case by (cases "eKey f \<le> k") (auto simp: not_le intro: less_trans)
qed simp

lemma drop_part_edits: "drop (part_edits isLast rows es) es = (if isLast then [] else after_key (fst (last rows)) es)"
  by (simp add: part_edits_def dropWhile_eq_drop)

lemma part_append:
  assumes es: "sorted_wrt (<) (map eKey es)" and rows: "sorted_wrt (<) (map fst (p @ q))" "p \<noteq> []" "q \<noteq> []"
  defines "es' \<equiv> drop (part_edits False p es) es"
  shows "part_rows isLast (p @ q) es = part_rows False p es @ part_rows isLast q es'"
    "part_edits isLast (p @ q) es = part_edits False p es + part_edits isLast q es'"
proof -
  let ?k = "fst (last p)" and ?l = "fst (last q)"
  have e': "es' = after_key ?k es" by (simp add: es'_def drop_part_edits)
  have pq: "fst r < fst s" if "r \<in> set p" "s \<in> set q" for r s using rows(1) that by (auto simp: sorted_wrt_append)
  have kl: "?k \<le> ?l" using pq [of "last p" "last q"] rows(2,3) by (simp add: less_imp_le)
  have sp: "sorted_wrt (<) (map fst p)" using rows(1) by (simp add: sorted_wrt_append)
  have a: "\<forall>e \<in> set (upto_key ?k es). \<forall>r \<in> set q. eKey e < fst r"
    using pq [of "last p"] rows(2) by (auto dest!: set_takeWhileD intro: le_less_trans)
  have b: "\<forall>r \<in> set p. \<forall>e \<in> set es2. fst r < eKey e" if "set es2 \<subseteq> set (after_key ?k es)" for es2
    using that after_key_greater [OF es, of _ ?k] sorted_le_last [OF sp] by (meson le_less_trans subsetD)
  have u: "upto_key ?l es = upto_key ?k es @ upto_key ?l (after_key ?k es)" by (rule upto_after_split [OF kl])
  have w: "es = upto_key ?k es @ after_key ?k es" by simp
  show "part_rows isLast (p @ q) es = part_rows False p es @ part_rows isLast q es'"
  proof (cases isLast)
    case True
    have "merge_rows (p @ q) (upto_key ?k es @ after_key ?k es) = merge_rows p (upto_key ?k es) @ merge_rows q (after_key ?k es)"
      by (rule merge_rows_append [OF a b]) simp
    then show ?thesis using True by (simp add: part_rows_def e')
  next
    case False
    have "merge_rows (p @ q) (upto_key ?k es @ upto_key ?l (after_key ?k es)) =
        merge_rows p (upto_key ?k es) @ merge_rows q (upto_key ?l (after_key ?k es))"
      by (rule merge_rows_append [OF a b]) (auto dest: set_takeWhileD)
    then show ?thesis using False rows(3) u by (simp add: part_rows_def e')
  qed
  show "part_edits isLast (p @ q) es = part_edits False p es + part_edits isLast q es'"
  proof (cases isLast)
    case True
    have "length (upto_key ?k es) + length (after_key ?k es) = length es" by (metis length_append w)
    then show ?thesis using True by (simp add: part_edits_def e')
  next
    case False
    then show ?thesis using rows(3) arg_cong [OF u, of length] by (simp add: part_edits_def e')
  qed
qed

lemma part_no_edits:
  assumes "upto_key (fst (last rows)) es = []" "isLast \<Longrightarrow> es = []"
  shows "part_rows isLast rows es = rows" "part_edits isLast rows es = 0"
  using assms by (auto simp: part_rows_def part_edits_def)

lemma part_edits_le: "part_edits isLast rows es \<le> length es"
  by (simp add: part_edits_def length_takeWhile_le)

section \<open>Runs on a list of chunks\<close>

text \<open>Rows that the builder takes after the rows \<open>acc\<close>.\<close>

definition good :: "byte \<Rightarrow> row list \<Rightarrow> row list \<Rightarrow> bool" where
  "good fl acc rows \<longleftrightarrow> (\<forall>r \<in> set rows. item_ok fl 0 r) \<and> (\<forall>r \<in> set (if acc = [] then tl rows else rows). 0 < item_size r)"

lemma good_append: "good fl acc (x @ y) \<longleftrightarrow> good fl acc x \<and> good fl (acc @ x) y"
  by (cases x) (auto simp: good_def)

definition bstate :: "(byte list \<Rightarrow> hash) \<Rightarrow> byte list set \<Rightarrow> byte list list \<Rightarrow> byte \<Rightarrow> ref multiset \<Rightarrow>
    byte list list env \<Rightarrow> chunker \<Rightarrow> row list \<Rightarrow> bool" where
  "bstate H U ds0 fl R w ch acc \<longleftrightarrow> renv H U ds0 w R \<and> ch_ok fl ch \<and> upper H fl (set (eStore w)) ch 0 acc"

text \<open>A step adds rows, moves the iterator and keeps what others hold; it can only fail because the tree is full.\<close>

definition merges :: "(byte list \<Rightarrow> hash) \<Rightarrow> byte list set \<Rightarrow> byte list list \<Rightarrow> byte \<Rightarrow> ref multiset \<Rightarrow>
    byte list list env \<Rightarrow> row list \<Rightarrow> mm_iter \<Rightarrow> byte list list merge_state res \<Rightarrow> bool" where
  "merges H U ds0 fl R w acc it r \<longleftrightarrow> r = Inl SQLITE_FULL \<or>
     (\<exists>w' ch' x. r = Inr (w', ch', it) \<and> bstate H U ds0 fl R w' ch' acc \<and> eStore w' = eStore w @ x \<and> keeps (eCache w) (eCache w') R)"

lemma merges_bind:
  assumes "merges H U ds0 fl R w acc1 it1 r"
    and "\<And>w1 ch1 x. bstate H U ds0 fl R w1 ch1 acc1 \<Longrightarrow> eStore w1 = eStore w @ x \<Longrightarrow> merges H U ds0 fl R w1 acc2 it2 (f (w1, ch1, it1))"
  shows "merges H U ds0 fl R w acc2 it2 (bindR r f)"
  using assms(1) unfolding merges_def [of H U ds0 fl R w acc1]
proof (elim disjE exE conjE)
  fix w1 ch1 x
  assume a: "r = Inr (w1, ch1, it1)" "bstate H U ds0 fl R w1 ch1 acc1" "eStore w1 = eStore w @ x" "keeps (eCache w) (eCache w1) R"
  show ?thesis using assms(2) [OF a(2,3)] a(1,3,4) keeps_trans [OF a(4)] by (fastforce simp: merges_def)
qed (simp add: merges_def)

lemma bstate_store:
  assumes "bstate H U ds0 fl R w ch acc" "ch_ok fl ch'" "upper H fl (set (eStore w @ x)) ch' 0 acc'"
  shows "bstate H U ds0 fl R (w\<lparr>eStore := eStore w @ x\<rparr>) ch' acc'"
  using assms by (auto simp: bstate_def renv_def)

lemma merges_rows:
  assumes H: "\<forall>d. hash_ok (H d)" and b: "bstate H U ds0 fl R w ch acc" and g: "good fl acc rows"
    and f: "\<And>st. f st = bindR (chunker_add_rows (rec_put H) wb st ch rows) (\<lambda>(st, ch). Inr (st, ch, it))"
  shows "merges H U ds0 fl R w (acc @ rows) it (on_store f w)"
proof -
  have c: "ch_ok fl ch" "upper H fl (set (eStore w)) ch 0 acc" using b by (simp_all add: bstate_def)
  have g': "\<forall>r \<in> set rows. item_ok fl 0 r" "\<forall>r \<in> set (if acc = [] then tl rows else rows). 0 < item_size r"
    using g by (simp_all add: good_def)
  from add_rows_ok [OF H c g', of wb] consider "chunker_add_rows (rec_put H) wb (eStore w) ch rows = Inl SQLITE_FULL"
    | x ch' where "chunker_add_rows (rec_put H) wb (eStore w) ch rows = Inr (eStore w @ x, ch')" "ch_ok fl ch'"
      "upper H fl (set (eStore w @ x)) ch' 0 (acc @ rows)" by blast
  then show ?thesis
  proof cases
    case 1
    then show ?thesis by (simp add: merges_def on_store_def f)
  next
    case 2
    show ?thesis using bstate_store [OF b 2(2,3)] 2(1) by (auto simp: merges_def on_store_def f keeps_def)
  qed
qed

text \<open>The child of an item in an old tree.\<close>

lemma subtreeHasEdits_eq:
  "iter_ok it \<Longrightarrow> subtreeHasEdits it k = Inr (it, upto_key k (edits it) \<noteq> [])"
  using iter_ok_simps(1) [of it] iter_ok_next(1) [of it]
  by (cases "edits it") (auto simp: subtreeHasEdits_def compareKeys_eq)

lemma splice_item_ok:
  assumes H: "\<forall>d. hash_ok (H d)" and s: "subtree H fl S m it part" and g: "\<forall>r \<in> set part. item_ok fl 0 r"
  shows "item_ok fl (Suc m) it" "0 < item_size it"
proof -
  have r: "part \<noteq> []" "fst (last part) = fst it" using subtree_rows [OF s] by simp_all
  have "item_ok fl 0 (last part)" using g r(1) by simp
  moreover have "hash_ok (snd it)" using s H by (auto simp: subtree_def node_at_def)
  ultimately show "item_ok fl (Suc m) it" "0 < item_size it"
    using r(2) by (auto simp: item_ok_def item_size_def hash_ok_def PROLLY_HASH_SIZE_def)
qed

text \<open>The recursive call, as an assumption of the step.\<close>

definition descends :: "(byte list \<Rightarrow> hash) \<Rightarrow> byte list set \<Rightarrow> byte list list \<Rightarrow> byte \<Rightarrow> nat \<Rightarrow>
    (node \<Rightarrow> bool \<Rightarrow> byte list list merge_state \<Rightarrow> byte list list merge_state res) \<Rightarrow> bool" where
  "descends H U ds0 fl l f \<longleftrightarrow> (\<forall>nd its rows isLast R w ch it acc.
     node_holds nd its \<longrightarrow> its \<noteq> [] \<longrightarrow> unat (level nd) = l \<longrightarrow> denote H fl (set ds0) l its rows \<longrightarrow> sorted_wrt (<) (map fst rows) \<longrightarrow>
     bstate H U ds0 fl R w ch acc \<longrightarrow> iter_ok it \<longrightarrow> good fl acc (part_rows isLast rows (edits it)) \<longrightarrow>
     merges H U ds0 fl R w (acc @ part_rows isLast rows (edits it)) (adv it (part_edits isLast rows (edits it))) (f nd isLast (w, ch, it)))"

lemma merge_child_ok:
  assumes H: "\<forall>d. hash_ok (H d)" and m: "Suc m < PROLLY_CURSOR_MAX_DEPTH"
    and nd: "node_holds nd its" "unat (level nd) = Suc m" "i < length its"
    and s: "subtree H fl (set ds0) m (its ! i) part" "sorted_wrt (<) (map fst part)"
    and b: "bstate H U ds0 fl R w ch acc" and it: "iter_ok it"
    and il: "il = (isLast \<and> i = length its - 1)" and g: "good fl acc (part_rows il part (edits it))"
    and f: "0 < m \<Longrightarrow> descends H U ds0 fl m f"
  shows "merges H U ds0 fl R w (acc @ part_rows il part (edits it)) (adv it (part_edits il part (edits it)))
     (merge_child (rec_put H) (rec_get H) wb f nd isLast i (w, ch, it))"
proof -
  obtain its' where n: "node_at H fl (set ds0) m (its ! i) its'" "denote H fl (set ds0) m its' part"
    using s(1) by (auto simp: subtree_def)
  let ?d = "node_bytes (of_nat m) fl its'" and ?k = "fst (its ! i)"
  have st: "storable (of_nat m) fl its'" "?d \<in> set ds0" "snd (its ! i) = H ?d" using n(1) by (simp_all add: node_at_def)
  have key: "prollyNodeKey nd i = Inr ?k" "prollyNodeValue nd i = Inr (H ?d)" "nItems nd = length its"
    using nd(1,3) st(3) by (simp_all add: node_holds_def)
  have lastk: "fst (last part) = ?k" "part \<noteq> []" using subtree_rows [OF s(1)] by simp_all
  let ?he = "if il \<and> edits it \<noteq> [] then True else upto_key ?k (edits it) \<noteq> []"
  have ilq: "(isLast \<and> i = nItems nd - 1) = il" using il key(3) by simp
  have he: "(if il \<and> prollyMutMapIterValid it then Inr (it, True) else subtreeHasEdits it ?k) = Inr (it, ?he)"
    using subtreeHasEdits_eq [OF it] iter_ok_simps(1) [OF it] by auto
  have lenh: "length (H ?d) = PROLLY_HASH_SIZE" using H by (simp add: hash_ok_def)
  let ?down = "bindR (load_child (rec_get H) (H ?d) w) (\<lambda>(w, p).
       bindR (deref (eCache w) p) (\<lambda>e.
       bindR (if level (ceNode e) = 0
              then on_store (\<lambda>st. mergeLeaf (rec_put H) wb (ceNode e) il st ch it) w
              else f (ceNode e) il (w, ch, it)) (\<lambda>(w, ch, it).
       bindR (prollyCacheRelease (eCache w) p) (\<lambda>ca. Inr (w\<lparr>eCache := ca\<rparr>, ch, it)))))"
  have run: "merge_child (rec_put H) (rec_get H) wb f nd isLast i (w, ch, it) =
     (if \<not> ?he \<and> chunkerLevelsBelowEmpty ch (Suc m)
      then bindR (on_store (\<lambda>st. prollyChunkerAddAtLevel (rec_put H) wb st ch (Suc m) ?k (H ?d)) w) (\<lambda>(w, ch). Inr (w, ch, it))
      else ?down)"
    unfolding merge_child_def prod.case key(1,2) bindR_Inr Let_def ilq he nd(2) lenh guardR_simps
    by simp
  show ?thesis
  proof (cases "\<not> ?he \<and> chunkerLevelsBelowEmpty ch (Suc m)")
    case True
    then have "upto_key (fst (last part)) (edits it) = []" "il \<Longrightarrow> edits it = []" using lastk by (auto split: if_splits)
    note none = part_no_edits [OF this]
    have io: "item_ok fl (Suc m) (its ! i)" "0 < item_size (its ! i)"
      by (rule splice_item_ok [OF H s(1)], use g none in \<open>simp add: good_def\<close>)+
    have up: "ch_ok fl ch" "upper H fl (set (eStore w)) ch 0 acc" using b by (simp_all add: bstate_def)
    have sub: "set ds0 \<subseteq> set (eStore w)" using b by (auto simp: bstate_def renv_def)
    have dn: "denote H fl (set (eStore w)) (Suc m) [its ! i] part"
      unfolding denote_single by (rule subtree_mono [OF s(1) sub])
    have emp: "chunkerLevelsBelowEmpty ch (Suc m)" using True by blast
    have pair: "prollyChunkerAddAtLevel (rec_put H) wb st ch (Suc m) ?k (H ?d) =
        prollyChunkerAddAtLevel (rec_put H) wb st ch (Suc m) (fst (its ! i)) (snd (its ! i))" for st using st(3) by simp
    from add_above_empty [OF H m up emp io dn, of wb] show ?thesis
    proof (elim disjE exE conjE)
      assume "prollyChunkerAddAtLevel (rec_put H) wb (eStore w) ch (Suc m) (fst (its ! i)) (snd (its ! i)) = Inl SQLITE_FULL"
      then show ?thesis using run True pair by (simp add: merges_def on_store_def)
    next
      fix x ch'
      assume a: "prollyChunkerAddAtLevel (rec_put H) wb (eStore w) ch (Suc m) (fst (its ! i)) (snd (its ! i)) = Inr (eStore w @ x, ch')"
        "ch_ok fl ch'" "upper H fl (set (eStore w @ x)) ch' 0 (acc @ part)"
      have "merge_child (rec_put H) (rec_get H) wb f nd isLast i (w, ch, it) = Inr (w\<lparr>eStore := eStore w @ x\<rparr>, ch', it)"
        using run True pair a(1) by (simp add: on_store_def)
      then show ?thesis using bstate_store [OF b a(2,3)] none by (auto simp: merges_def keeps_def)
    qed
  next
    case False
    have run: "merge_child (rec_put H) (rec_get H) wb f nd isLast i (w, ch, it) = ?down" using run unfolding if_not_P [OF False] .
    obtain nd' where p: "prollyNodeParse ?d = Inr nd'" "node_holds nd' its'" "level nd' = of_nat m"
      using node_bytes_parse [OF st(1)] by blast
    have lv: "level nd' = 0 \<longleftrightarrow> m = 0" "unat (level nd') = m"
      using m p(3) by (simp_all add: PROLLY_CURSOR_MAX_DEPTH_def unsigned_of_nat take_bit_eq_mod unat_eq_0 [symmetric])
    have ne: "its' \<noteq> []" using st(1) by (simp add: storable_def)
    have re: "renv H U ds0 w R" using b by (simp add: bstate_def)
    obtain ca q where l: "load_child (rec_get H) (H ?d) w = Inr (w\<lparr>eCache := ca\<rparr>, q)" "renv H U ds0 (w\<lparr>eCache := ca\<rparr>) (add_mset q R)"
       "deref ca q = Inr (ent ca q)" "ceNode (ent ca q) = nd'" "keeps (eCache w) ca R"
      using load_child_ok [OF re st(2) p(1)] by blast
    let ?w1 = "w\<lparr>eCache := ca\<rparr>" and ?acc = "acc @ part_rows il part (edits it)" and ?it = "adv it (part_edits il part (edits it))"
    have b1: "bstate H U ds0 fl (add_mset q R) ?w1 ch acc" using b l(2) by (simp add: bstate_def)
    define call where "call = (if level nd' = 0 then on_store (\<lambda>st. mergeLeaf (rec_put H) wb nd' il st ch it) ?w1 else f nd' il (?w1, ch, it))"
    have run2: "merge_child (rec_put H) (rec_get H) wb f nd isLast i (w, ch, it) =
        bindR call (\<lambda>(w, ch, it). bindR (prollyCacheRelease (eCache w) q) (\<lambda>ca. Inr (w\<lparr>eCache := ca\<rparr>, ch, it)))"
      unfolding run call_def using l(1,3,4) by simp
    have step: "merges H U ds0 fl (add_mset q R) ?w1 ?acc ?it call"
    proof (cases "m = 0")
      case True
      then have r: "its' = part" using n(2) by simp
      have "merges H U ds0 fl (add_mset q R) ?w1 ?acc ?it (on_store (\<lambda>st. mergeLeaf (rec_put H) wb nd' il st ch it) ?w1)"
        using mergeLeaf_eq [OF p(2) ne _ it] s(2) r by (intro merges_rows [OF H b1 g]) simp
      then show ?thesis using lv True by (simp add: call_def)
    next
      case False
      have "merges H U ds0 fl (add_mset q R) ?w1 ?acc ?it (f nd' il (?w1, ch, it))"
        using f False p(2) ne lv(2) n(2) s(2) b1 it g unfolding descends_def by blast
      then show ?thesis using lv False by (simp add: call_def)
    qed
    from step [unfolded merges_def] show ?thesis
    proof (elim disjE exE conjE)
      assume "call = Inl SQLITE_FULL"
      then show ?thesis unfolding run2 merges_def by simp
    next
      fix w2 ch2 x
      assume a: "call = Inr (w2, ch2, ?it)"
        "bstate H U ds0 fl (add_mset q R) w2 ch2 ?acc" "eStore w2 = eStore ?w1 @ x" "keeps (eCache ?w1) (eCache w2) (add_mset q R)"
      have "renv H U ds0 w2 (add_mset q R)" using a(2) by (simp add: bstate_def)
      from release_child_ok [OF this] obtain ca' where r: "prollyCacheRelease (eCache w2) q = Inr ca'" "renv H U ds0 (w2\<lparr>eCache := ca'\<rparr>) R"
        "\<forall>p. view ca' p = view (eCache w2) p" by blast
      have "keeps (eCache w) ca' R" using l(5) a(4) r(3) by (simp add: keeps_def)
      moreover have "bstate H U ds0 fl R (w2\<lparr>eCache := ca'\<rparr>) ch2 ?acc" using a(2) r(2) by (simp add: bstate_def)
      moreover have "merge_child (rec_put H) (rec_get H) wb f nd isLast i (w, ch, it) = Inr (w2\<lparr>eCache := ca'\<rparr>, ch2, ?it)"
        unfolding run2 using a(1) r(1) by simp
      ultimately show ?thesis unfolding merges_def using a(3) by auto
    qed
  qed
qed

section \<open>Walking the tree\<close>

lemma merge_children_ok:
  assumes H: "\<forall>d. hash_ok (H d)" and m: "Suc m < PROLLY_CURSOR_MAX_DEPTH"
    and nd: "node_holds nd its" "unat (level nd) = Suc m"
    and p: "list_all2 (subtree H fl (set ds0) m) its parts" "sorted_wrt (<) (map fst (concat parts))"
    and f: "0 < m \<Longrightarrow> descends H U ds0 fl m f"
  shows "i < length its \<Longrightarrow> bstate H U ds0 fl R w ch acc \<Longrightarrow> iter_ok it \<Longrightarrow>
     good fl acc (part_rows isLast (concat (drop i parts)) (edits it)) \<Longrightarrow>
     merges H U ds0 fl R w (acc @ part_rows isLast (concat (drop i parts)) (edits it))
       (adv it (part_edits isLast (concat (drop i parts)) (edits it)))
       (merge_children (merge_child (rec_put H) (rec_get H) wb f nd isLast) [i..<length its] (w, ch, it))"
proof (induction "length its - i" arbitrary: i w ch acc it)
  case (Suc n)
  note i = Suc.prems(1)
  have len: "length parts = length its" using p(1) by (auto dest: list_all2_lengthD)
  have s: "subtree H fl (set ds0) m (its ! i) (parts ! i)" by (rule list_all2_nthD [OF p(1) i])
  have dr: "drop i parts = parts ! i # drop (Suc i) parts" using i len by (simp add: Cons_nth_drop_Suc)
  have sd: "sorted_wrt (<) (map fst (concat (drop i parts)))"
  proof -
    have "sorted_wrt (<) (map fst (concat (take i parts) @ concat (drop i parts)))"
      using p(2) by (simp only: concat_append [symmetric] append_take_drop_id)
    then show ?thesis by (simp only: map_append sorted_wrt_append)
  qed
  then have sp: "sorted_wrt (<) (map fst (parts ! i))" unfolding dr by (simp add: sorted_wrt_append)
  have up: "[i..<length its] = i # [Suc i..<length its]" using i by (rule upt_conv_Cons)
  show ?case
  proof (cases "Suc i < length its")
    case False
    then have "i = length its - 1" using i by linarith
    then have e: "concat (drop i parts) = parts ! i" "[Suc i..<length its] = []" "isLast = (isLast \<and> i = length its - 1)"
      using dr i len by simp_all
    have nil: "bindR r (merge_children g []) = r" for r and g :: "nat \<Rightarrow> 'm \<Rightarrow> 'm res" by (cases r) simp_all
    show ?thesis unfolding up e(2) merge_children.simps(2) nil
      using merge_child_ok [OF H m nd i s sp Suc.prems(2,3) e(3) _ f, of wb] Suc.prems(4) e(1) by simp
  next
    case True
    let ?q = "concat (drop (Suc i) parts)" and ?es = "edits it"
    have "parts ! i \<noteq> []" using subtree_rows [OF s] by simp
    moreover have "?q \<noteq> []"
    proof -
      have "subtree H fl (set ds0) m (its ! Suc i) (parts ! Suc i)" by (rule list_all2_nthD [OF p(1) True])
      then have "parts ! Suc i \<noteq> []" using subtree_rows by blast
      then show ?thesis using True len Cons_nth_drop_Suc [of "Suc i" parts] by (metis append_is_Nil_conv concat.simps(2))
    qed
    moreover have "sorted_wrt (<) (map fst (parts ! i @ ?q))" using sd unfolding dr by simp
    ultimately have pa: "part_rows isLast (parts ! i @ ?q) ?es =
        part_rows False (parts ! i) ?es @ part_rows isLast ?q (drop (part_edits False (parts ! i) ?es) ?es)"
      "part_edits isLast (parts ! i @ ?q) ?es =
        part_edits False (parts ! i) ?es + part_edits isLast ?q (drop (part_edits False (parts ! i) ?es) ?es)"
      using part_append [OF iter_ok_simps(3) [OF Suc.prems(3)]] by blast+
    let ?it1 = "adv it (part_edits False (parts ! i) ?es)" and ?acc1 = "acc @ part_rows False (parts ! i) ?es"
    have a: "iter_ok ?it1" "edits ?it1 = drop (part_edits False (parts ! i) ?es) ?es"
      using adv_ok [OF Suc.prems(3) part_edits_le] by simp_all
    have cc: "concat (drop i parts) = parts ! i @ ?q" unfolding dr by simp
    have g: "good fl acc (part_rows False (parts ! i) ?es)" "good fl ?acc1 (part_rows isLast ?q (edits ?it1))"
      using Suc.prems(4) unfolding cc pa(1) good_append a(2) by simp_all
    have "i \<noteq> length its - 1" using True by linarith
    then have il: "False = (isLast \<and> i = length its - 1)" by simp
    note c = merge_child_ok [OF H m nd i s sp Suc.prems(2,3) il g(1) f, of wb]
    show ?thesis unfolding up merge_children.simps cc pa
    proof (rule merges_bind [OF c])
      fix w1 ch1 x
      assume b1: "bstate H U ds0 fl R w1 ch1 ?acc1"
      show "merges H U ds0 fl R w1
          (acc @ part_rows False (parts ! i) ?es @ part_rows isLast ?q (drop (part_edits False (parts ! i) ?es) ?es))
          (adv it (part_edits False (parts ! i) ?es + part_edits isLast ?q (drop (part_edits False (parts ! i) ?es) ?es)))
          (merge_children (merge_child (rec_put H) (rec_get H) wb f nd isLast) [Suc i..<length its] (w1, ch1, ?it1))"
        using Suc.hyps(1) [of "Suc i" w1 ch1 ?acc1 ?it1] Suc.hyps(2) True b1 a g(2) by simp
    qed
  qed
qed simp

lemma streamingMergeNode_ok:
  assumes H: "\<forall>d. hash_ok (H d)"
  shows "0 < l \<Longrightarrow> l \<le> n \<Longrightarrow> l < PROLLY_CURSOR_MAX_DEPTH \<Longrightarrow>
     descends H U ds0 fl l (streamingMergeNode n (rec_put H) (rec_get H) wb)"
proof (induction n arbitrary: l)
  case (Suc n)
  obtain m where l: "l = Suc m" using Suc.prems(1) by (cases l) auto
  have m: "Suc m < PROLLY_CURSOR_MAX_DEPTH" using Suc.prems(3) l by simp
  have f: "0 < m \<Longrightarrow> descends H U ds0 fl m (streamingMergeNode n (rec_put H) (rec_get H) wb)" using Suc l by simp
  show ?case unfolding descends_def
  proof (intro allI impI)
    fix nd its rows isLast R w ch it acc
    assume a: "node_holds nd its" "its \<noteq> []" "unat (level nd) = l" "denote H fl (set ds0) l its rows" "sorted_wrt (<) (map fst rows)"
      "bstate H U ds0 fl R w ch acc" "iter_ok it" "good fl acc (part_rows isLast rows (edits it))"
    obtain parts where p: "rows = concat parts" "list_all2 (subtree H fl (set ds0) m) its parts"
      using a(4) l by (auto simp: denote_Suc)
    have lv: "unat (level nd) = Suc m" using a(3) l by simp
    have n: "nItems nd = length its" using a(1) by (simp add: node_holds_def)
    have i: "0 < length its" using a(2) by simp
    have s: "sorted_wrt (<) (map fst (concat parts))" using a(5) p(1) by simp
    have g: "good fl acc (part_rows isLast (concat (drop 0 parts)) (edits it))" using a(8) p(1) by simp
    show "merges H U ds0 fl R w (acc @ part_rows isLast rows (edits it)) (adv it (part_edits isLast rows (edits it)))
        (streamingMergeNode (Suc n) (rec_put H) (rec_get H) wb nd isLast (w, ch, it))"
      using merge_children_ok [OF H m a(1) lv p(2) s f i a(6,7) g, of wb] p(1) n by simp
  qed
qed simp

section \<open>The result of the merge\<close>

lemma merge_rows_key: "x \<in> set (merge_rows rows es) \<Longrightarrow> fst x \<in> fst ` set rows \<union> eKey ` set es"
  by (induction rows es rule: merge_rows.induct) (auto simp: edit_rows_def split: if_splits)

lemma sorted_edit_rows: "sorted_wrt (<) (map eKey es) \<Longrightarrow> sorted_wrt (<) (map fst (concat (map edit_rows es)))"
  by (induction es) (auto simp: edit_rows_def sorted_wrt_append split: if_splits)

lemma merge_rows_sorted:
  "sorted_wrt (<) (map fst rows) \<Longrightarrow> sorted_wrt (<) (map eKey es) \<Longrightarrow> sorted_wrt (<) (map fst (merge_rows rows es))"
proof (induction rows es rule: merge_rows.induct)
  case (1 es)
  then show ?case using sorted_edit_rows by simp
next
  case (3 r rs e es)
  consider "fst r < eKey e" | "fst r = eKey e" | "eKey e < fst r" by fastforce
  then show ?case
  proof cases
    case 1
    have "\<forall>k \<in> fst ` set (merge_rows rs (e # es)). fst r < k"
      using merge_rows_key [of _ rs "e # es"] 3(4,5) 1 by (fastforce intro: less_trans)
    then show ?thesis using 1 3 by auto
  next
    case 2
    have "\<forall>k \<in> fst ` set (merge_rows rs es). eKey e < k"
      using merge_rows_key [of _ rs es] 3(4,5) 2 by fastforce
    then show ?thesis using 2 3 by (auto simp: edit_rows_def sorted_wrt_append)
  next
    case c: 3
    have "\<forall>k \<in> fst ` set (merge_rows (r # rs) es). eKey e < k"
      using merge_rows_key [of _ "r # rs" es] 3(4,5) c by (fastforce intro: less_trans)
    moreover have "\<not> fst r < eKey e" "fst r \<noteq> eKey e" using c by auto
    ultimately show ?thesis using 3 by (auto simp: edit_rows_def sorted_wrt_append)
  qed
qed simp

definition edit_map_of :: "mm_entry list \<Rightarrow> byte list \<rightharpoonup> byte list option" where
  "edit_map_of es = map_of (map entry_edit es)"

lemma map_of_edit_rows:
  "distinct (map eKey es) \<Longrightarrow> map_of (concat (map edit_rows es)) k = (case edit_map_of es k of None \<Rightarrow> None | Some v \<Rightarrow> v)"
proof (induction es)
  case (Cons e es)
  have "k = eKey e \<Longrightarrow> edit_map_of es k = None"
    using Cons.prems by (auto simp: edit_map_of_def map_of_eq_None_iff entry_edit_def)
  then show ?case using Cons by (cases "op e") (auto simp: edit_rows_def edit_map_of_def entry_edit_def edit_of_def split: option.splits)
qed (simp add: edit_map_of_def)

lemma merge_rows_map_of:
  "sorted_wrt (<) (map fst rows) \<Longrightarrow> sorted_wrt (<) (map eKey es) \<Longrightarrow>
     map_of (merge_rows rows es) k = (case edit_map_of es k of None \<Rightarrow> map_of rows k | Some v \<Rightarrow> v)"
proof (induction rows es rule: merge_rows.induct)
  case (1 es)
  then show ?case using map_of_edit_rows [of es k] strict_sorted_iff [of "map eKey es"] by (simp split: option.splits)
next
  case (2 r rs)
  then show ?case by (simp add: edit_map_of_def)
next
  case (3 r rs e es)
  have none: "map_of rs (fst r) = None" "edit_map_of es (eKey e) = None"
    using 3(4,5) by (force simp: map_of_eq_None_iff edit_map_of_def entry_edit_def)+
  consider "fst r < eKey e" | "fst r = eKey e" | "eKey e < fst r" by fastforce
  then show ?case
  proof cases
    case 1
    have "edit_map_of (e # es) (fst r) = None"
      using 3(5) 1 by (force simp: map_of_eq_None_iff edit_map_of_def entry_edit_def)
    then show ?thesis using 3 1 by (cases "k = fst r") (auto split: option.splits)
  next
    case 2
    then have ih: "map_of (merge_rows rs es) k = (case edit_map_of es k of None \<Rightarrow> map_of rs k | Some v \<Rightarrow> v)" using 3 by simp
    show ?thesis using 2 ih none
      by (cases "op e"; cases "k = eKey e") (auto simp: edit_rows_def edit_map_of_def entry_edit_def edit_of_def split: option.splits)
  next
    case c: 3
    then have nl: "\<not> fst r < eKey e" "fst r \<noteq> eKey e" by auto
    then have ih: "map_of (merge_rows (r # rs) es) k = (case edit_map_of es k of None \<Rightarrow> map_of (r # rs) k | Some v \<Rightarrow> v)" using 3 by simp
    have "map_of (r # rs) (eKey e) = None" using 3(4) c by (force simp: map_of_eq_None_iff)
    then show ?thesis using nl ih none
      by (cases "op e"; cases "k = eKey e") (auto simp: edit_rows_def edit_map_of_def entry_edit_def edit_of_def)
  qed
qed

end
