(* ===== verification/MutateFlush.thy ===== *)
theory MutateFlush
  imports MutateRun TreeStore
begin

text \<open>
  A flush as a whole: the tree that the chunker finishes denotes the old rows with the edits applied.
\<close>

section \<open>Flushing the edits\<close>

text \<open>The edits of a map in the order of the iterator.\<close>

lemma iter_first_ok:
  assumes "mm_inv mm" "order_head_ok mm"
  shows "\<exists>it. prollyMutMapIterFirst mm = Inr it \<and> iter_ok it \<and> edit_map_of (edits it) = mm_edits mm \<and> nEntries (fst it) = nEntries mm"
proof -
  obtain mm' where m: "ensureOrder mm = Inr mm'" "order_inv mm'" "mm_inv mm'" "aEntries mm' = aEntries mm" "ensureOrder mm' = Inr mm'"
    using ensureOrder_correct [OF assms] by blast
  have ab: "map_of (map (\<lambda>e. (eKey e, op e, eVal e)) (ordered_entries mm')) = mm_abs mm"
    using mm_abs_ordered [OF m(2)] m(3,4) by (simp add: mm_inv_def mm_abs_def)
  have "edit_map_of es k = map_option edit_of (map_of (map (\<lambda>e. (eKey e, op e, eVal e)) es) k)" for es k
    by (induction es) (auto simp: edit_map_of_def entry_edit_def)
  then have "edit_map_of (ordered_entries mm') = mm_edits mm" using ab by (simp add: fun_eq_iff mm_edits_def)
  then show ?thesis using m by (intro exI [of _ "(mm', 0)"]) (simp add: prollyMutMapIterFirst_def iter_ok_def edits_def nEntries_def)
qed

text \<open>The rows after the edits.\<close>

definition edited :: "row list \<Rightarrow> mutmap \<Rightarrow> row list \<Rightarrow> bool" where
  "edited rows mm rows' \<longleftrightarrow> sorted_wrt (<) (map fst rows') \<and>
     map_of rows' = (\<lambda>k. case mm_edits mm k of None \<Rightarrow> map_of rows k | Some v \<Rightarrow> v)"

definition rows_storable :: "byte \<Rightarrow> row list \<Rightarrow> mutmap \<Rightarrow> bool" where
  "rows_storable fl rows mm \<longleftrightarrow> (\<forall>r \<in> set rows. item_ok fl 0 r) \<and> (\<forall>k v. mm_edits mm k = Some (Some v) \<longrightarrow> item_ok fl 0 (k, v))"

lemma merge_edited:
  assumes "sorted_wrt (<) (map fst rows)" "sorted_wrt (<) (map eKey es)" "edit_map_of es = mm_edits mm" "rows_storable fl rows mm"
  shows "edited rows mm (merge_rows rows es)" "good fl [] (merge_rows rows es)"
proof -
  let ?m = "merge_rows rows es"
  have s: "sorted_wrt (<) (map fst ?m)" by (rule merge_rows_sorted [OF assms(1,2)])
  then show e: "edited rows mm ?m" using merge_rows_map_of [OF assms(1,2)] assms(3) by (auto simp: edited_def fun_eq_iff)
  have d: "distinct (map fst ?m)" "distinct (map fst rows)" using s assms(1) strict_sorted_iff by blast+
  have "item_ok fl 0 r" if r: "r \<in> set ?m" for r
  proof -
    have "map_of ?m (fst r) = Some (snd r)" using d(1) r by simp
    then have "(case mm_edits mm (fst r) of None \<Rightarrow> map_of rows (fst r) | Some v \<Rightarrow> v) = Some (snd r)" using e by (simp add: edited_def)
    then show ?thesis using assms(4) map_of_SomeD by (fastforce simp: rows_storable_def split: option.splits)
  qed
  moreover have "0 < item_size r" if r: "r \<in> set (tl ?m)" for r
  proof -
    have "?m \<noteq> []" using r by auto
    then have "fst (hd ?m) < fst r" using s r by (cases ?m) auto
    then have "fst r \<noteq> []" by (metis not_less_Nil)
    then show ?thesis by (simp add: item_size_def)
  qed
  ultimately show "good fl [] ?m" by (simp add: good_def)
qed

text \<open>A flush of the edits on a list of chunks.\<close>

definition flushed :: "(byte list \<Rightarrow> hash) \<Rightarrow> byte list set \<Rightarrow> byte list list \<Rightarrow> ref multiset \<Rightarrow> row list \<Rightarrow> mutator \<Rightarrow>
    (byte list list env \<times> mutator) res \<Rightarrow> bool" where
  "flushed H U ds0 R rows mut r \<longleftrightarrow> r = Inl SQLITE_FULL \<or>
     (\<exists>w mut' x rows'. r = Inr (w, mut') \<and> eStore w = ds0 @ x \<and> cache_inv H U (eCache w) R \<and>
        tree H (mFlags mut) (set (ds0 @ x)) (newRoot mut') rows' \<and> edited rows (pEdits mut) rows')"

lemma finish_merge:
  assumes H: "\<forall>d. hash_ok (H d)" "\<forall>d. H d \<noteq> hash0"
    and b: "bstate H U ds0 (mFlags mut) R w ch rows'" and e: "edited rows (pEdits mut) rows'"
  shows "flushed H U ds0 R rows mut (bindR (on_store (\<lambda>st. prollyChunkerFinish (rec_put H) wb st ch) w)
     (\<lambda>(w, ch). Inr (w, mut\<lparr>pEdits := mm, newRoot := prollyChunkerGetRoot ch\<rparr>)))"
proof -
  let ?fl = "mFlags mut"
  have c: "ch_ok ?fl ch" "upper H ?fl (set (eStore w)) ch 0 rows'" and re: "renv H U ds0 w R" using b by (simp_all add: bstate_def)
  have "nLevels ch = 0 \<Longrightarrow> finish_levels (rec_put H) wb (eStore w) ch 0 = Inr (eStore w, ch\<lparr>chRoot := hash0\<rparr>)"
    by (subst finish_levels.simps) simp
  then have "prollyChunkerFinish (rec_put H) wb (eStore w) ch = finish_levels (rec_put H) wb (eStore w) ch 0"
    by (simp add: prollyChunkerFinish_def)
  then have "finish_result H ?fl (eStore w) rows' (prollyChunkerFinish (rec_put H) wb (eStore w) ch)"
    using finish_levels_ok [OF H c, of wb] by simp
  then consider "prollyChunkerFinish (rec_put H) wb (eStore w) ch = Inl SQLITE_FULL"
    | x ch' where "prollyChunkerFinish (rec_put H) wb (eStore w) ch = Inr (eStore w @ x, ch')" "tree H ?fl (set (eStore w @ x)) (chRoot ch') rows'"
    unfolding finish_result_def by blast
  then show ?thesis
  proof cases
    case 1
    then show ?thesis by (simp add: flushed_def on_store_def)
  next
    case 2
    obtain y where "eStore w = ds0 @ y" "cache_inv H U (eCache w) R" using re by (auto simp: renv_def)
    then show ?thesis using 2 e by (auto simp: flushed_def on_store_def prollyChunkerGetRoot_def)
  qed
qed

lemma prollyMutateFlush_ok:
  assumes H: "\<forall>d. hash_ok (H d)" "\<forall>d. H d \<noteq> hash0"
    and re: "renv H U ds0 w R" and eq: "eStore w = ds0" and t: "tree H (mFlags mut) (set ds0) (oldRoot mut) rows"
    and s: "sorted_wrt (<) (map fst rows)" and mm: "mm_inv (pEdits mut)" "order_head_ok (pEdits mut)"
    and st: "rows_storable (mFlags mut) rows (pEdits mut)"
  shows "flushed H U ds0 R rows mut (prollyMutateFlush (rec_put H) (rec_get H) wb w mut)"
proof -
  let ?fl = "mFlags mut"
  obtain it where it: "prollyMutMapIterFirst (pEdits mut) = Inr it" "iter_ok it" "edit_map_of (edits it) = mm_edits (pEdits mut)"
    "nEntries (fst it) = nEntries (pEdits mut)" using iter_first_ok [OF mm] by blast
  note me = merge_edited [OF s iter_ok_simps(3) [OF it(2)] it(3) st]
  have b0: "bstate H U ds0 ?fl R w (prollyChunkerInit ?fl) []" using re by (simp add: bstate_def ch_ok_init)
  consider "prollyMutMapIsEmpty (pEdits mut)" | "\<not> prollyMutMapIsEmpty (pEdits mut)" "oldRoot mut = hash0"
    | "\<not> prollyMutMapIsEmpty (pEdits mut)" "oldRoot mut \<noteq> hash0" by blast
  then show ?thesis
  proof cases
    case 1
    then have "edits it = []" using iter_ok_simps(2) [OF it(2)] it(4) by (simp add: prollyMutMapIsEmpty_def)
    then have "edited rows (pEdits mut) rows" using me(1) by simp
    then show ?thesis using 1 re eq t by (auto simp: prollyMutateFlush_def flushed_def renv_def)
  next
    case 2
    have r: "rows = []" using t 2(2) by (simp add: tree_def)
    let ?m = "concat (map edit_rows (edits it))"
    have l: "length (edits it) < nEntries (pEdits mut) + 1" using iter_ok_simps(2) [OF it(2)] it(4) by simp
    have m: "merges H U ds0 ?fl R w ([] @ ?m) (adv it (length (edits it)))
        (on_store (\<lambda>st. drain_edits (nEntries (pEdits mut) + 1) (rec_put H) wb st (prollyChunkerInit ?fl) it) w)"
      by (rule merges_rows [OF H(1) b0]) (use me(2) r drain_edits_eq [OF it(2) l] in simp_all)
    have run: "prollyMutateFlush (rec_put H) (rec_get H) wb w mut =
        bindR (on_store (\<lambda>st. drain_edits (nEntries (pEdits mut) + 1) (rec_put H) wb st (prollyChunkerInit ?fl) it) w) (\<lambda>(w, ch, it).
        bindR (on_store (\<lambda>st. prollyChunkerFinish (rec_put H) wb st ch) w) (\<lambda>(w, ch).
        Inr (w, mut\<lparr>pEdits := fst it, newRoot := prollyChunkerGetRoot ch\<rparr>)))"
      using 2 it(1) by (simp add: prollyMutateFlush_def buildFromEdits_def prollyHashIsEmpty_iff)
    from m [unfolded merges_def] show ?thesis
    proof (elim disjE exE conjE, goal_cases)
      case 1
      then show ?thesis unfolding run by (simp add: flushed_def)
    next
      case (2 w' ch' x)
      show ?thesis unfolding run 2(1) using finish_merge [OF H 2(2)] me(1) r by simp
    qed
  next
    case 3
    then obtain l k where l: "l < PROLLY_CURSOR_MAX_DEPTH" "subtree H ?fl (set ds0) l (k, oldRoot mut) rows" using t by (auto simp: tree_def)
    then obtain its where n: "node_at H ?fl (set ds0) l (k, oldRoot mut) its" "denote H ?fl (set ds0) l its rows" by (auto simp: subtree_def)
    let ?d = "node_bytes (of_nat l) ?fl its"
    have sto: "storable (of_nat l) ?fl its" "?d \<in> set ds0" "oldRoot mut = H ?d" using n(1) by (simp_all add: node_at_def)
    obtain nd where p: "prollyNodeParse ?d = Inr nd" "node_holds nd its" "level nd = of_nat l" using node_bytes_parse [OF sto(1)] by blast
    have inj: "inj_on H (set ds0)" using re by (simp add: renv_def)
    have get: "rec_get H (eStore w) (oldRoot mut) = (eStore w, Inr ?d)" using rec_get_found [OF inj sto(2), of "[]"] sto(3) eq by simp
    have ne: "its \<noteq> []" using sto(1) by (simp add: storable_def)
    have lv: "level nd = 0 \<longleftrightarrow> l = 0" "unat (level nd) = l"
      using l(1) p(3) by (simp_all add: PROLLY_CURSOR_MAX_DEPTH_def unsigned_of_nat take_bit_eq_mod unat_eq_0 [symmetric])
    have wid: "w\<lparr>eStore := eStore w\<rparr> = w" by (cases w) simp
    define call where "call = (if level nd = 0
         then on_store (\<lambda>st. mergeLeaf (rec_put H) wb nd True st (prollyChunkerInit ?fl) it) w
         else streamingMergeNode PROLLY_CURSOR_MAX_DEPTH (rec_put H) (rec_get H) wb nd True (w, prollyChunkerInit ?fl, it))"
    have nz: "\<not> prollyHashIsEmpty (oldRoot mut)" using 3(2) sto(3) H(1) prollyHashIsEmpty_iff by metis
    have run: "prollyMutateFlush (rec_put H) (rec_get H) wb w mut = bindR call (\<lambda>(w, ch, it).
        bindR (on_store (\<lambda>st. prollyChunkerFinish (rec_put H) wb st ch) w) (\<lambda>(w, ch).
        Inr (w, mut\<lparr>pEdits := fst it, newRoot := prollyChunkerGetRoot ch\<rparr>)))"
      using 3(1) nz get p(1) it(1) wid by (simp add: prollyMutateFlush_def streamingMerge_def call_def Let_def)
    have pr: "part_rows True rows (edits it) = merge_rows rows (edits it)" by (simp add: part_rows_def)
    have g: "good ?fl [] (part_rows True rows (edits it))" using me(2) pr by simp
    have m: "merges H U ds0 ?fl R w ([] @ part_rows True rows (edits it)) (adv it (part_edits True rows (edits it))) call"
    proof (cases "l = 0")
      case True
      then have r: "its = rows" using n(2) by simp
      have "merges H U ds0 ?fl R w ([] @ part_rows True rows (edits it)) (adv it (part_edits True rows (edits it)))
          (on_store (\<lambda>st. mergeLeaf (rec_put H) wb nd True st (prollyChunkerInit ?fl) it) w)"
        using mergeLeaf_eq [OF p(2) ne _ it(2)] s r by (intro merges_rows [OF H(1) b0 g]) simp
      then show ?thesis using lv True by (simp add: call_def)
    next
      case False
      then have "descends H U ds0 ?fl l (streamingMergeNode PROLLY_CURSOR_MAX_DEPTH (rec_put H) (rec_get H) wb)"
        using streamingMergeNode_ok [OF H(1), of l PROLLY_CURSOR_MAX_DEPTH] l(1) by simp
      then have "merges H U ds0 ?fl R w ([] @ part_rows True rows (edits it)) (adv it (part_edits True rows (edits it)))
          (streamingMergeNode PROLLY_CURSOR_MAX_DEPTH (rec_put H) (rec_get H) wb nd True (w, prollyChunkerInit ?fl, it))"
        using p(2) ne lv(2) n(2) s b0 it(2) g unfolding descends_def by blast
      then show ?thesis using lv False by (simp add: call_def)
    qed
    from m [unfolded merges_def] show ?thesis
    proof (elim disjE exE conjE, goal_cases)
      case 1
      then show ?thesis unfolding run by (simp add: flushed_def)
    next
      case (2 w' ch' x)
      show ?thesis unfolding run 2(1) using finish_merge [OF H 2(2)] me(1) pr by simp
    qed
  qed
qed

end
