(* ===== verification/MutateStore.thy ===== *)
theory MutateStore
  imports MutateFlush
begin

text \<open>
  A flush on the chunk store follows its run on the list of chunks; the properties of flushes and of single
  insertions and deletions.
\<close>

section \<open>The same run on a store\<close>

text \<open>The walk after the root has been read.\<close>

definition merge_root :: "'s chunk_put \<Rightarrow> 's chunk_get \<Rightarrow> boundary_check \<Rightarrow> mutator \<Rightarrow> byte list \<Rightarrow> 's env \<Rightarrow> ('s env \<times> mutator) res" where
  "merge_root put get wb mut d w =
     bindR (prollyNodeParse d) (\<lambda>rootNode.
     bindR (prollyMutMapIterFirst (pEdits mut)) (\<lambda>it.
     bindR (if level rootNode = 0
            then on_store (\<lambda>st. mergeLeaf put wb rootNode True st (prollyChunkerInit (mFlags mut)) it) w
            else streamingMergeNode PROLLY_CURSOR_MAX_DEPTH put get wb rootNode True (w, prollyChunkerInit (mFlags mut), it)) (\<lambda>(w, ch, it).
     bindR (on_store (\<lambda>st. prollyChunkerFinish put wb st ch) w) (\<lambda>(w, ch).
     Inr (w, mut\<lparr>pEdits := fst it, newRoot := prollyChunkerGetRoot ch\<rparr>)))))"

lemma streamingMerge_eq:
  "streamingMerge put get wb w mut = (case get (eStore w) (oldRoot mut) of
     (st, Inl rc) \<Rightarrow> Inl rc | (st, Inr d) \<Rightarrow> merge_root put get wb mut d (w\<lparr>eStore := st\<rparr>))"
  unfolding streamingMerge_def merge_root_def Let_def ..

context tree_store
begin

lemma add_follows: "follows ds (prollyChunkerAdd (rec_put hash) wb ds ch k v) st (prollyChunkerAdd put wb st ch k v)"
  "follows ds (prollyChunkerAddAtLevel (rec_put hash) wb ds ch l k v) st (prollyChunkerAddAtLevel put wb st ch l k v)"
  "follows ds (prollyChunkerFinish (rec_put hash) wb ds ch) st (prollyChunkerFinish put wb st ch)"
  by (simp_all add: prollyChunkerAdd_def prollyChunkerAddAtLevel_def prollyChunkerFinish_def add_flush_follows finish_levels_follows)

lemma add_edit_follows: "follows ds (add_edit (rec_put hash) wb ds ch ed) st (add_edit put wb st ch ed)"
  by (simp add: add_edit_def add_follows)

lemma drain_follows: "follows ds (drain_edits n (rec_put hash) wb ds ch it) st (drain_edits n put wb st ch it)"
proof (induction n arbitrary: ds st ch it)
  case (Suc n)
  show ?case unfolding drain_edits.simps
    by (auto intro!: follows_pure follows_bind add_edit_follows Suc.IH)
qed (simp add: drain_edits.simps)

lemma merge_items_follows:
  "follows ds (merge_items n (rec_put hash) wb leaf j ds ch it) st (merge_items n put wb leaf j st ch it)"
proof (induction n arbitrary: ds st ch it j)
  case (Suc n)
  have t: "follows ds (bindR (prollyNodeValue leaf j) (\<lambda>val. bindR (prollyChunkerAdd (rec_put hash) wb ds ch k val) (\<lambda>(st, ch).
        merge_items n (rec_put hash) wb leaf (j + 1) st ch it))) st
      (bindR (prollyNodeValue leaf j) (\<lambda>val. bindR (prollyChunkerAdd put wb st ch k val) (\<lambda>(st, ch).
        merge_items n put wb leaf (j + 1) st ch it)))" for ds st ch it j k
    by (auto intro!: follows_pure follows_bind add_follows Suc.IH)
  show ?case unfolding merge_items.simps Let_def
    by (auto intro!: follows_pure t follows_bind add_edit_follows add_follows Suc.IH split: option.split)
qed (simp add: merge_items.simps)

lemma mergeLeaf_follows: "follows ds (mergeLeaf (rec_put hash) wb leaf b ds ch it) st (mergeLeaf put wb leaf b st ch it)"
  unfolding mergeLeaf_def by (auto intro!: follows_bind merge_items_follows drain_follows)

text \<open>Environments with the same cache, where the store has the chunks of the list.\<close>

definition env_rel :: "byte list list env \<Rightarrow> 's env \<Rightarrow> bool" where
  "env_rel w w' \<longleftrightarrow> eCache w' = eCache w \<and> inv (eStore w') \<and> set (eStore w) \<subseteq> chunks (eStore w')"

definition efollows :: "byte list list env \<Rightarrow> (byte list list env \<times> 'a) res \<Rightarrow> 's env \<Rightarrow> ('s env \<times> 'a) res \<Rightarrow> bool" where
  "efollows w r w' r' \<longleftrightarrow> (\<forall>w1 a. r = Inr (w1, a) \<longrightarrow> (\<exists>x. eStore w1 = eStore w @ x \<and>
     (set x \<subseteq> U \<longrightarrow> env_rel w w' \<longrightarrow> (\<exists>w1'. r' = Inr (w1', a) \<and> env_rel w1 w1' \<and> chunks (eStore w1') = chunks (eStore w') \<union> set x))))"

lemma efollows_Inr [simp]: "efollows w (Inr (w, a)) w' (Inr (w', a))"
  by (simp add: efollows_def)

lemma efollows_Inl [simp]: "efollows w (Inl e) w' r'"
  by (simp add: efollows_def)

lemma efollows_bind:
  assumes "efollows w r w' r'" and "\<And>w1 a w1'. r = Inr (w1, a) \<Longrightarrow> efollows w1 (f (w1, a)) w1' (f' (w1', a))"
  shows "efollows w (bindR r f) w' (bindR r' f')"
  unfolding efollows_def
proof (intro allI impI)
  fix w2 b assume "bindR r f = Inr (w2, b)"
  then obtain w1 a where r: "r = Inr (w1, a)" "f (w1, a) = Inr (w2, b)" by (auto simp: res_simps)
  obtain x where x: "eStore w1 = eStore w @ x"
    "set x \<subseteq> U \<Longrightarrow> env_rel w w' \<Longrightarrow> \<exists>w1'. r' = Inr (w1', a) \<and> env_rel w1 w1' \<and> chunks (eStore w1') = chunks (eStore w') \<union> set x"
    using assms(1) r(1) by (auto simp: efollows_def)
  obtain y where y: "eStore w2 = eStore w1 @ y" using assms(2) [OF r(1), of undefined] r(2) by (auto simp: efollows_def)
  have "\<exists>w2'. bindR r' f' = Inr (w2', b) \<and> env_rel w2 w2' \<and> chunks (eStore w2') = chunks (eStore w') \<union> set (x @ y)"
    if s: "set x \<subseteq> U" "set y \<subseteq> U" and e: "env_rel w w'"
  proof -
    obtain w1' where w1': "r' = Inr (w1', a)" "env_rel w1 w1'" "chunks (eStore w1') = chunks (eStore w') \<union> set x"
      using x(2) [OF s(1) e] by blast
    obtain w2' where "f' (w1', a) = Inr (w2', b)" "env_rel w2 w2'" "chunks (eStore w2') = chunks (eStore w1') \<union> set y"
      using assms(2) [OF r(1), of w1', unfolded efollows_def, rule_format, OF r(2)] y s w1'(2) by auto
    then show ?thesis using w1' by auto
  qed
  then show "\<exists>x. eStore w2 = eStore w @ x \<and> (set x \<subseteq> U \<longrightarrow> env_rel w w' \<longrightarrow>
      (\<exists>w2'. bindR r' f' = Inr (w2', b) \<and> env_rel w2 w2' \<and> chunks (eStore w2') = chunks (eStore w') \<union> set x))"
    using x(1) y by (intro exI [of _ "x @ y"]) auto
qed

lemma efollows_pure: "(\<And>a. r = Inr a \<Longrightarrow> efollows w (f a) w' (f' a)) \<Longrightarrow> efollows w (bindR r f) w' (bindR r f')"
  by (cases r) simp_all

lemma efollows_cache:
  assumes "\<And>a. g (eCache w) = Inr a \<Longrightarrow> efollows w (f a) w' (f' a)"
  shows "efollows w (bindR (g (eCache w)) f) w' (bindR (g (eCache w')) f')"
proof (cases "g (eCache w)")
  case (Inr a)
  then show ?thesis using assms [OF Inr] by (auto simp: efollows_def env_rel_def)
qed simp

lemma efollows_set_cache:
  "efollows w (Inr (w\<lparr>eCache := ca\<rparr>, a)) w' (Inr (w'\<lparr>eCache := ca\<rparr>, a))"
  by (auto simp: efollows_def env_rel_def)

lemma efollows_on_store:
  assumes "follows (eStore w) (g (eStore w)) (eStore w') (g' (eStore w'))"
  shows "efollows w (on_store g w) w' (on_store g' w')"
  unfolding efollows_def
proof (intro allI impI)
  fix w1 a assume "on_store g w = Inr (w1, a)"
  then obtain ds1 where g: "g (eStore w) = Inr (ds1, a)" "w1 = w\<lparr>eStore := ds1\<rparr>" by (auto simp: on_store_def res_simps)
  obtain x where x: "ds1 = eStore w @ x" "set x \<subseteq> U \<Longrightarrow> inv (eStore w') \<Longrightarrow>
      \<exists>st'. g' (eStore w') = Inr (st', a) \<and> inv st' \<and> chunks st' = chunks (eStore w') \<union> set x"
    using assms g(1) unfolding follows_def by blast
  show "\<exists>x. eStore w1 = eStore w @ x \<and> (set x \<subseteq> U \<longrightarrow> env_rel w w' \<longrightarrow>
      (\<exists>w1'. on_store g' w' = Inr (w1', a) \<and> env_rel w1 w1' \<and> chunks (eStore w1') = chunks (eStore w') \<union> set x))"
  proof (intro exI [of _ x] conjI impI)
    show "eStore w1 = eStore w @ x" using x(1) g(2) by simp
  next
    assume u: "set x \<subseteq> U" and e: "env_rel w w'"
    obtain st' where st': "g' (eStore w') = Inr (st', a)" "inv st'" "chunks st' = chunks (eStore w') \<union> set x"
      using x(2) [OF u] e by (auto simp: env_rel_def)
    have "set ds1 \<subseteq> chunks st'" using st'(3) x(1) e unfolding env_rel_def by auto
    then show "\<exists>w1'. on_store g' w' = Inr (w1', a) \<and> env_rel w1 w1' \<and> chunks (eStore w1') = chunks (eStore w') \<union> set x"
      using st' e g(2) by (simp add: on_store_def env_rel_def)
  qed
qed

lemma store_steps_follow:
  "efollows w (on_store (\<lambda>st. mergeLeaf (rec_put hash) wb leaf b st ch it) w) w' (on_store (\<lambda>st. mergeLeaf put wb leaf b st ch it) w')"
  "efollows w (on_store (\<lambda>st. drain_edits n (rec_put hash) wb st ch it) w) w' (on_store (\<lambda>st. drain_edits n put wb st ch it) w')"
  "efollows w (on_store (\<lambda>st. prollyChunkerFinish (rec_put hash) wb st ch) w) w' (on_store (\<lambda>st. prollyChunkerFinish put wb st ch) w')"
  "efollows w (on_store (\<lambda>st. prollyChunkerAddAtLevel (rec_put hash) wb st ch l k v) w) w'
     (on_store (\<lambda>st. prollyChunkerAddAtLevel put wb st ch l k v) w')"
  by (rule efollows_on_store, rule mergeLeaf_follows drain_follows add_follows)+

lemma rel_get:
  assumes "env_rel w w'" "rec_get hash (eStore w) h = (ds, Inr d)"
  shows "ds = eStore w" "\<exists>st. get (eStore w') h = (st, Inr d) \<and> inv st \<and> chunks st = chunks (eStore w')"
proof -
  note g = rec_get_Inr [OF assms(2)]
  show "ds = eStore w" using g by simp
  have "d \<in> chunks (eStore w')" using g assms(1) by (auto simp: env_rel_def)
  then show "\<exists>st. get (eStore w') h = (st, Inr d) \<and> inv st \<and> chunks st = chunks (eStore w')"
    using get_ok [of "eStore w'" d] g assms(1) by (auto simp: env_rel_def)
qed

lemma load_child_follows: "efollows w (load_child (rec_get hash) h w) w' (load_child get h w')"
  unfolding efollows_def
proof (intro allI impI)
  fix w1 p assume r: "load_child (rec_get hash) h w = Inr (w1, p)"
  have "eStore w1 = eStore w"
    using r by (auto simp: load_child_def res_simps Let_def rec_get_def split: if_splits sum.splits option.splits prod.splits)
  moreover have "\<exists>w1'. load_child get h w' = Inr (w1', p) \<and> env_rel w1 w1' \<and> chunks (eStore w1') = chunks (eStore w')"
    if e: "env_rel w w'"
  proof -
    have ca: "eCache w' = eCache w" "inv (eStore w')" "set (eStore w) \<subseteq> chunks (eStore w')" using e by (simp_all add: env_rel_def)
    obtain c q where g: "prollyCacheGet (eCache w) h = Inr (c, q)" using r by (auto simp: load_child_def res_simps)
    show ?thesis
    proof (cases "q = Null")
      case False
      then have "w1 = w\<lparr>eCache := c\<rparr>" "p = q" using r g by (simp_all add: load_child_def Let_def)
      then show ?thesis using g False ca by (simp add: load_child_def Let_def env_rel_def)
    next
      case True
      obtain d where d: "rec_get hash (eStore w) h = (eStore w, Inr d)"
        using r g True by (auto simp: load_child_def Let_def rec_get_def split: option.splits)
      obtain st where st: "get (eStore w') h = (st, Inr d)" "inv st" "chunks st = chunks (eStore w')" using rel_get [OF e d] by blast
      obtain c2 where "prollyCachePut c h d = Inr (c2, Inr p)" "w1 = w\<lparr>eStore := eStore w, eCache := c2\<rparr>"
        using r g True d by (auto simp: load_child_def Let_def res_simps)
      then show ?thesis using g True st ca by (auto simp: load_child_def Let_def env_rel_def)
    qed
  qed
  ultimately show "\<exists>x. eStore w1 = eStore w @ x \<and> (set x \<subseteq> U \<longrightarrow> env_rel w w' \<longrightarrow>
      (\<exists>w1'. load_child get h w' = Inr (w1', p) \<and> env_rel w1 w1' \<and> chunks (eStore w1') = chunks (eStore w') \<union> set x))" by auto
qed

lemma merge_child_follows:
  assumes f: "\<And>nd b w ch it w'. efollows w (f nd b (w, ch, it)) w' (f' nd b (w', ch, it))"
  shows "efollows w (merge_child (rec_put hash) (rec_get hash) wb f nd b i (w, ch, it)) w'
     (merge_child put get wb f' nd b i (w', ch, it))"
proof -
  have down: "efollows w (bindR (load_child (rec_get hash) h w) (\<lambda>(w, p).
       bindR (deref (eCache w) p) (\<lambda>e.
       bindR (if level (ceNode e) = 0
              then on_store (\<lambda>st. mergeLeaf (rec_put hash) wb (ceNode e) il st ch it) w
              else f (ceNode e) il (w, ch, it)) (\<lambda>(w, ch, it).
       bindR (prollyCacheRelease (eCache w) p) (\<lambda>ca. Inr (w\<lparr>eCache := ca\<rparr>, ch, it)))))) w'
     (bindR (load_child get h w') (\<lambda>(w, p).
       bindR (deref (eCache w) p) (\<lambda>e.
       bindR (if level (ceNode e) = 0
              then on_store (\<lambda>st. mergeLeaf put wb (ceNode e) il st ch it) w
              else f' (ceNode e) il (w, ch, it)) (\<lambda>(w, ch, it).
       bindR (prollyCacheRelease (eCache w) p) (\<lambda>ca. Inr (w\<lparr>eCache := ca\<rparr>, ch, it))))))" for h il it
  proof (rule efollows_bind [OF load_child_follows], unfold prod.case)
    fix w1 p w1'
    have c: "efollows w1 (if level (ceNode e) = 0 then on_store (\<lambda>st. mergeLeaf (rec_put hash) wb (ceNode e) il st ch it) w1
              else f (ceNode e) il (w1, ch, it)) w1'
        (if level (ceNode e) = 0 then on_store (\<lambda>st. mergeLeaf put wb (ceNode e) il st ch it) w1'
              else f' (ceNode e) il (w1', ch, it))" for e
      using f store_steps_follow(1) by simp
    show "efollows w1 (bindR (deref (eCache w1) p) (\<lambda>e.
       bindR (if level (ceNode e) = 0 then on_store (\<lambda>st. mergeLeaf (rec_put hash) wb (ceNode e) il st ch it) w1
              else f (ceNode e) il (w1, ch, it)) (\<lambda>(w, ch, it).
       bindR (prollyCacheRelease (eCache w) p) (\<lambda>ca. Inr (w\<lparr>eCache := ca\<rparr>, ch, it))))) w1'
      (bindR (deref (eCache w1') p) (\<lambda>e.
       bindR (if level (ceNode e) = 0 then on_store (\<lambda>st. mergeLeaf put wb (ceNode e) il st ch it) w1'
              else f' (ceNode e) il (w1', ch, it)) (\<lambda>(w, ch, it).
       bindR (prollyCacheRelease (eCache w) p) (\<lambda>ca. Inr (w\<lparr>eCache := ca\<rparr>, ch, it)))))"
    proof (rule efollows_cache [where g = "\<lambda>ca. deref ca p"], rule efollows_bind [OF c])
      fix w2 a w2'
      show "efollows w2 (case (w2, a) of (w, ch, it) \<Rightarrow> bindR (prollyCacheRelease (eCache w) p) (\<lambda>ca. Inr (w\<lparr>eCache := ca\<rparr>, ch, it))) w2'
          (case (w2', a) of (w, ch, it) \<Rightarrow> bindR (prollyCacheRelease (eCache w) p) (\<lambda>ca. Inr (w\<lparr>eCache := ca\<rparr>, ch, it)))"
        unfolding prod.case case_prod_beta' fst_conv snd_conv by (rule efollows_cache [where g = "\<lambda>ca. prollyCacheRelease ca p"], rule efollows_set_cache)
    qed
  qed
  show ?thesis
    unfolding merge_child_def prod.case Let_def
    by (intro efollows_pure) (auto intro!: efollows_pure down efollows_bind store_steps_follow)
qed

lemma merge_children_follows:
  assumes f: "\<And>i w ch it w'. efollows w (f i (w, ch, it)) w' (f' i (w', ch, it))"
  shows "efollows w (merge_children f is (w, ch, it)) w' (merge_children f' is (w', ch, it))"
proof (induction "is" arbitrary: w w' ch it)
  case (Cons i "is")
  show ?case unfolding merge_children.simps by (rule efollows_bind [OF f]) (use Cons in \<open>auto split: prod.splits\<close>)
qed simp

lemma streamingMergeNode_follows:
  "efollows w (streamingMergeNode n (rec_put hash) (rec_get hash) wb nd b (w, ch, it)) w' (streamingMergeNode n put get wb nd b (w', ch, it))"
proof (induction n arbitrary: nd b w w' ch it)
  case (Suc n)
  show ?case unfolding streamingMergeNode.simps
    by (rule merge_children_follows, rule merge_child_follows, rule Suc.IH)
qed simp

lemma flush_follows:
  "efollows w (prollyMutateFlush (rec_put hash) (rec_get hash) wb w mut) w' (prollyMutateFlush put get wb w' mut)"
proof -
  have fin: "efollows w (bindR (on_store (\<lambda>st. prollyChunkerFinish (rec_put hash) wb st ch) w) (\<lambda>(w, ch). Inr (w, g ch))) w'
      (bindR (on_store (\<lambda>st. prollyChunkerFinish put wb st ch) w') (\<lambda>(w, ch). Inr (w, g ch)))" for w w' ch g
    by (rule efollows_bind [OF store_steps_follow(3)]) simp
  have build: "efollows w (buildFromEdits (rec_put hash) wb w mut) w' (buildFromEdits put wb w' mut)"
    unfolding buildFromEdits_def
    by (rule efollows_pure, rule efollows_bind [OF store_steps_follow(2)]) (auto intro: fin split: prod.split)
  have walk: "efollows w (merge_root (rec_put hash) (rec_get hash) wb mut d w) w' (merge_root put get wb mut d w')" for d w w'
    unfolding merge_root_def
  proof (rule efollows_pure, rule efollows_pure, rule efollows_bind)
    fix nd it
    show "efollows w (if level nd = 0 then on_store (\<lambda>st. mergeLeaf (rec_put hash) wb nd True st (prollyChunkerInit (mFlags mut)) it) w
            else streamingMergeNode PROLLY_CURSOR_MAX_DEPTH (rec_put hash) (rec_get hash) wb nd True (w, prollyChunkerInit (mFlags mut), it)) w'
         (if level nd = 0 then on_store (\<lambda>st. mergeLeaf put wb nd True st (prollyChunkerInit (mFlags mut)) it) w'
            else streamingMergeNode PROLLY_CURSOR_MAX_DEPTH put get wb nd True (w', prollyChunkerInit (mFlags mut), it))"
      using store_steps_follow(1) streamingMergeNode_follows by simp
  qed (auto intro: fin split: prod.split)
  have stream: "efollows w (streamingMerge (rec_put hash) (rec_get hash) wb w mut) w' (streamingMerge put get wb w' mut)"
  proof (cases "snd (rec_get hash (eStore w) (oldRoot mut))")
    case (Inl e)
    then have "streamingMerge (rec_put hash) (rec_get hash) wb w mut = Inl e"
      by (cases "rec_get hash (eStore w) (oldRoot mut)") (simp add: streamingMerge_eq)
    then show ?thesis by simp
  next
    case (Inr d)
    then have d: "rec_get hash (eStore w) (oldRoot mut) = (eStore w, Inr d)" by (simp add: rec_get_def split: option.splits)
    have "w\<lparr>eStore := eStore w\<rparr> = w" by (cases w) simp
    then have eq: "streamingMerge (rec_put hash) (rec_get hash) wb w mut = merge_root (rec_put hash) (rec_get hash) wb mut d w"
      using d by (simp add: streamingMerge_eq)
    show ?thesis
    proof (cases "env_rel w w'")
      case True
      obtain st where st: "get (eStore w') (oldRoot mut) = (st, Inr d)" "inv st" "chunks st = chunks (eStore w')" using rel_get [OF True d] by blast
      have rel: "env_rel w (w'\<lparr>eStore := st\<rparr>)" using True st by (simp add: env_rel_def)
      have "streamingMerge put get wb w' mut = merge_root put get wb mut d (w'\<lparr>eStore := st\<rparr>)" using st(1) by (simp add: streamingMerge_eq)
      then show ?thesis using walk [of w d "w'\<lparr>eStore := st\<rparr>"] rel True st(3) unfolding eq efollows_def by simp
    next
      case False
      then show ?thesis using walk [of w d w'] unfolding eq efollows_def by blast
    qed
  qed
  show ?thesis unfolding prollyMutateFlush_def using build stream by simp
qed

end

section \<open>Correctness\<close>

text \<open>
  C9. Flushing edits is correct.  On a store given as the list of its chunks, for every boundary test, a flush
  writes some chunks, and the new root then denotes the old rows with the edits applied: sorted by
  key, with the value of the last edit of a key where it was inserted, nothing where it was deleted,
  and the old value where it was not edited; subtrees that were spliced in are part of the result.
  The references that others hold into the node cache are kept, and none is leaked.
  The only failure is \<open>SQLITE_FULL\<close>.  The edit map satisfies its invariant, and if it has exactly one entry then its
  order array points to that entry (\<open>order_head_ok\<close>).  A sorted map always does (\<open>order_inv_head\<close>); a lazy map that a
  rollback has cut to one entry need not (\<open>stale_order_after_rollback\<close>), and a flush of such a map reads a dead
  entry.  The rows and the edits are storable: their keys and values have the sizes that a node can hold.
\<close>

theorem prollyMutateFlush_correct:
  assumes "\<forall>d. hash_ok (H d) \<and> H d \<noteq> hash0" "cache_inv H U ca R" "set ds \<subseteq> U"
    "tree H (mFlags mut) (set ds) (oldRoot mut) rows" "sorted_wrt (<) (map fst rows)"
    "mm_inv (pEdits mut)" "order_head_ok (pEdits mut)" "rows_storable (mFlags mut) rows (pEdits mut)"
  shows "let r = prollyMutateFlush (rec_put H) (rec_get H) wb \<lparr>eStore = ds, eCache = ca\<rparr> mut in
     r = Inl SQLITE_FULL \<or>
     (\<exists>w mut' x rows'. r = Inr (w, mut') \<and> eStore w = ds @ x \<and> cache_inv H U (eCache w) R \<and>
        tree H (mFlags mut) (set (ds @ x)) (newRoot mut') rows' \<and> sorted_wrt (<) (map fst rows') \<and>
        map_of rows' = (\<lambda>k. case mm_edits (pEdits mut) k of None \<Rightarrow> map_of rows k | Some v \<Rightarrow> v))"
proof -
  let ?w = "\<lparr>eStore = ds, eCache = ca\<rparr> :: byte list list env"
  have H: "\<forall>d. hash_ok (H d)" "\<forall>d. H d \<noteq> hash0" using assms(1) by simp_all
  have "inj_on H U" using assms(2) by (simp add: cache_inv_def hashing_def)
  then have re: "renv H U ds ?w R" using assms(2,3) by (auto simp: renv_def intro: inj_on_subset)
  show ?thesis
    using prollyMutateFlush_ok [OF H re _ assms(4-8), of wb] unfolding flushed_def edited_def Let_def by simp
qed

text \<open>
  C10. Flushing into the chunk store.  When a run on the list of its chunks writes the chunks \<open>x\<close>, the same run
  on the chunk store gives the same root, leaves the store with exactly these chunks more, and the new
  root denotes the edited rows in it.
\<close>

theorem flush_on_store:
  assumes "store_inv H U cs f" "\<forall>d. hash_ok (H d) \<and> H d \<noteq> hash0" "cache_inv H U ca R" "set ds = chunks f cs"
    "tree H (mFlags mut) (set ds) (oldRoot mut) rows" "sorted_wrt (<) (map fst rows)"
    "mm_inv (pEdits mut)" "order_head_ok (pEdits mut)" "rows_storable (mFlags mut) rows (pEdits mut)"
    "prollyMutateFlush (rec_put H) (rec_get H) wb \<lparr>eStore = ds, eCache = ca\<rparr> mut = Inr (w, mut')"
    "eStore w = ds @ x" "set x \<subseteq> U"
  shows "\<exists>w'. prollyMutateFlush (chunkStorePut H) (\<lambda>cs. chunkStoreGet cs f) wb \<lparr>eStore = cs, eCache = ca\<rparr> mut = Inr (w', mut') \<and>
     store_inv H U (eStore w') f \<and> chunks f (eStore w') = chunks f cs \<union> set x \<and> cache_inv H U (eCache w') R \<and>
     (\<exists>rows'. tree H (mFlags mut) (chunks f (eStore w')) (newRoot mut') rows' \<and> edited rows (pEdits mut) rows')"
proof -
  let ?w = "\<lparr>eStore = ds, eCache = ca\<rparr> :: byte list list env" and ?w' = "\<lparr>eStore = cs, eCache = ca\<rparr> :: chunk_store env"
  have H: "\<forall>d. hash_ok (H d)" "\<forall>d. H d \<noteq> hash0" using assms(2) by simp_all
  have dsU: "set ds \<subseteq> U" using store_chunks_U [OF assms(1)] assms(4) by simp
  have "inj_on H U" using assms(3) by (simp add: cache_inv_def hashing_def)
  then have re: "renv H U ds ?w R" using assms(3) dsU by (auto simp: renv_def intro: inj_on_subset)
  obtain rows' where fl: "cache_inv H U (eCache w) R" "tree H (mFlags mut) (set (ds @ x)) (newRoot mut') rows'" "edited rows (pEdits mut) rows'"
    using prollyMutateFlush_ok [OF H re _ assms(5-9), of wb] assms(10,11) by (auto simp: flushed_def)
  have rel: "treestore.env_rel H U f ?w ?w'" using assms(1,4) by (simp add: treestore.env_rel_def)
  obtain w' where w': "prollyMutateFlush (chunkStorePut H) (\<lambda>cs. chunkStoreGet cs f) wb ?w' mut = Inr (w', mut')"
    "treestore.env_rel H U f w w'" "chunks f (eStore w') = chunks f cs \<union> set x"
    using treestore.flush_follows [where H = H and U = U and f = f and wb = wb and mut = mut and w = ?w and w' = ?w',
        unfolded treestore.efollows_def, rule_format, OF assms(10)] rel assms(11,12) by auto
  have e: "eCache w' = eCache w" "store_inv H U (eStore w') f" using w'(2) by (simp_all add: treestore.env_rel_def)
  have c: "chunks f (eStore w') = set (ds @ x)" using w'(3) assms(4) by simp
  have "tree H (mFlags mut) (chunks f (eStore w')) (newRoot mut') rows'" using fl(2) unfolding c .
  then show ?thesis using w'(1,3) e fl(1,3) by (intro exI [of _ w'] conjI exI [of _ rows']) simp_all
qed

section \<open>One edit\<close>

lemma order_inv_head: "order_inv mm \<Longrightarrow> order_head_ok mm"
proof -
  assume o: "order_inv mm"
  show ?thesis unfolding order_head_ok_def
  proof
    assume n: "nEntries mm = 1"
    have h: "nEntries mm \<le> length (aOrder mm)" "set (take (nEntries mm) (aOrder mm)) = {..<nEntries mm}"
      using o by (simp_all add: order_inv_def)
    have s: "set (take 1 (aOrder mm)) = {..<1}" using h(2) unfolding n .
    obtain a as where "aOrder mm = a # as" using h(1) n by (cases "aOrder mm") simp_all
    moreover have "{..<1 :: nat} = {0}" by auto
    ultimately show "aOrder mm ! 0 = 0" using s by simp
  qed
qed

text \<open>The key of an edit: for tables with integer keys without a given key it is the encoded integer.\<close>

definition edit_key :: "byte \<Rightarrow> byte list \<Rightarrow> u64 \<Rightarrow> byte list" where
  "edit_key fl key ik = full_key (fl AND PROLLY_NODE_INTKEY \<noteq> 0) key ik"

lemma one_edit_maps:
  fixes fl :: byte
  defines "mm \<equiv> prollyMutMapInit (fl AND PROLLY_NODE_INTKEY \<noteq> 0)"
  assumes ar: "key_args (fl AND PROLLY_NODE_INTKEY \<noteq> 0) key ik"
  shows "\<exists>mm'. prollyMutMapInsert mm key ik val = Inr mm' \<and> mm_inv mm' \<and> order_head_ok mm' \<and> mm_edits mm' = [edit_key fl key ik \<mapsto> Some val]"
    "\<exists>mm'. prollyMutMapDelete mm key ik = Inr mm' \<and> mm_inv mm' \<and> order_head_ok mm' \<and> mm_edits mm' = [edit_key fl key ik \<mapsto> None]"
proof -
  have ik: "isIntKey mm \<longleftrightarrow> fl AND PROLLY_NODE_INTKEY \<noteq> 0" by (simp add: mm_def prollyMutMapInit_def prollyMutMapInitMode_def)
  then have ar': "key_args (isIntKey mm) key ik" using ar by simp
  have i: "mm_inv mm" "keepSorted mm" by (simp_all add: mm_def prollyMutMapInit_def) (simp add: prollyMutMapInitMode_def)
  have e: "mm_abs mm = Map.empty" by (simp add: mm_def prollyMutMapInit_def)
  have hd: "mm_inv mm' \<Longrightarrow> same_context mm mm' \<Longrightarrow> order_head_ok mm'" for mm'
    using i(2) by (intro order_inv_head) (simp add: mm_inv_def same_context_def)
  obtain a where a: "prollyMutMapInsert mm key ik val = Inr a" "mm_inv a" "same_context mm a"
      "mm_abs a = (mm_abs mm)(full_key (isIntKey mm) key ik \<mapsto> (PROLLY_EDIT_INSERT, val))"
    using prollyMutMapInsert_correct [OF i(1) ar', of val] i(2) by blast
  have "mm_edits a = [edit_key fl key ik \<mapsto> Some val]"
    unfolding edit_key_def ik [symmetric] by (rule ext) (simp add: mm_edits_def a(4) e edit_of_def)
  then show "\<exists>mm'. prollyMutMapInsert mm key ik val = Inr mm' \<and> mm_inv mm' \<and> order_head_ok mm' \<and> mm_edits mm' = [edit_key fl key ik \<mapsto> Some val]"
    using a hd by blast
  obtain b where b: "prollyMutMapDelete mm key ik = Inr b" "mm_inv b" "same_context mm b"
      "mm_abs b = abs_delete (mm_abs mm) (full_key (isIntKey mm) key ik)"
    using prollyMutMapDelete_correct [OF i(1) ar'] i(2) by blast
  have "mm_edits b = [edit_key fl key ik \<mapsto> None]"
    unfolding edit_key_def ik [symmetric] by (rule ext) (simp add: mm_edits_def b(4) e edit_of_delete)
  then show "\<exists>mm'. prollyMutMapDelete mm key ik = Inr mm' \<and> mm_inv mm' \<and> order_head_ok mm' \<and> mm_edits mm' = [edit_key fl key ik \<mapsto> None]"
    using b hd by blast
qed

definition pointed :: "(byte list \<Rightarrow> hash) \<Rightarrow> byte list set \<Rightarrow> byte list list \<Rightarrow> ref multiset \<Rightarrow> byte \<Rightarrow> (byte list \<rightharpoonup> byte list) \<Rightarrow>
    (byte list list env \<times> hash) res \<Rightarrow> bool" where
  "pointed H U ds R fl m r \<longleftrightarrow> r = Inl SQLITE_FULL \<or>
     (\<exists>w root' x rows'. r = Inr (w, root') \<and> eStore w = ds @ x \<and> cache_inv H U (eCache w) R \<and>
        tree H fl (set (ds @ x)) root' rows' \<and> sorted_wrt (<) (map fst rows') \<and> map_of rows' = m)"

lemma one_edit_ok:
  assumes H: "\<forall>d. hash_ok (H d)" "\<forall>d. H d \<noteq> hash0" and re: "renv H U ds \<lparr>eStore = ds, eCache = ca\<rparr> R"
    and t: "tree H fl (set ds) root rows" and s: "sorted_wrt (<) (map fst rows)" and io: "\<forall>r \<in> set rows. item_ok fl 0 r"
    and mm: "mm_inv mm" "order_head_ok mm" "mm_edits mm = [k \<mapsto> v]" and v: "\<And>x. v = Some x \<Longrightarrow> item_ok fl 0 (k, x)"
  shows "pointed H U ds R fl ((map_of rows)(k := v)) (one_edit (rec_put H) (rec_get H) wb \<lparr>eStore = ds, eCache = ca\<rparr> root fl mm)"
proof -
  let ?mut = "\<lparr>oldRoot = root, pEdits = mm, mFlags = fl, newRoot = hash0\<rparr>"
  have st: "rows_storable fl rows mm" using io mm(3) v by (auto simp: rows_storable_def split: if_splits)
  have f: "flushed H U ds R rows ?mut (prollyMutateFlush (rec_put H) (rec_get H) wb \<lparr>eStore = ds, eCache = ca\<rparr> ?mut)"
    by (rule prollyMutateFlush_ok [OF H re]) (use t s mm st in simp_all)
  have e: "map_of rows' = (map_of rows)(k := v)" if "edited rows mm rows'" for rows'
    using that mm(3) by (auto simp: edited_def fun_eq_iff)
  from f [unfolded flushed_def] show ?thesis
  proof (elim disjE exE conjE)
    fix w mut' x rows'
    assume "prollyMutateFlush (rec_put H) (rec_get H) wb \<lparr>eStore = ds, eCache = ca\<rparr> ?mut = Inr (w, mut')" "eStore w = ds @ x"
      "cache_inv H U (eCache w) R" "tree H (mFlags ?mut) (set (ds @ x)) (newRoot mut') rows'" "edited rows (pEdits ?mut) rows'"
    then show ?thesis using e [of rows'] by (auto simp: one_edit_def pointed_def edited_def)
  qed (simp add: one_edit_def pointed_def)
qed

text \<open>
  C11. A single insertion or deletion on a tree is the update of one key: the new root denotes rows that are
  sorted and map the key to the value, or to nothing, and every other key to what it was.  Tables with integer keys are
  given the bytes of a key or an integer, as \<open>prepKey\<close> asserts; the rows are storable; the only failure is \<open>SQLITE_FULL\<close>
  (see \<open>big_key_is_full\<close>).
\<close>

theorem prollyMutate_point:
  assumes "\<forall>d. hash_ok (H d) \<and> H d \<noteq> hash0" "cache_inv H U ca R" "set ds \<subseteq> U"
    "tree H fl (set ds) root rows" "sorted_wrt (<) (map fst rows)" "\<forall>r \<in> set rows. item_ok fl 0 r" "item_ok fl 0 (edit_key fl key ik, val)"
    "key_args (fl AND PROLLY_NODE_INTKEY \<noteq> 0) key ik"
  shows "pointed H U ds R fl ((map_of rows)(edit_key fl key ik \<mapsto> val))
      (prollyMutateInsert (rec_put H) (rec_get H) wb \<lparr>eStore = ds, eCache = ca\<rparr> root fl key ik val) \<and>
     pointed H U ds R fl ((map_of rows)(edit_key fl key ik := None))
      (prollyMutateDelete (rec_put H) (rec_get H) wb \<lparr>eStore = ds, eCache = ca\<rparr> root fl key ik)"
proof -
  let ?w = "\<lparr>eStore = ds, eCache = ca\<rparr> :: byte list list env"
  have H: "\<forall>d. hash_ok (H d)" "\<forall>d. H d \<noteq> hash0" using assms(1) by simp_all
  have "inj_on H U" using assms(2) by (simp add: cache_inv_def hashing_def)
  then have re: "renv H U ds ?w R" using assms(2,3) by (auto simp: renv_def intro: inj_on_subset)
  obtain a where a: "prollyMutMapInsert (prollyMutMapInit (fl AND PROLLY_NODE_INTKEY \<noteq> 0)) key ik val = Inr a" "mm_inv a" "order_head_ok a"
      "mm_edits a = [edit_key fl key ik \<mapsto> Some val]" using one_edit_maps(1) [OF assms(8)] by blast
  have "pointed H U ds R fl ((map_of rows)(edit_key fl key ik \<mapsto> val))
      (prollyMutateInsert (rec_put H) (rec_get H) wb ?w root fl key ik val)"
    unfolding prollyMutateInsert_def a(1) bindR_Inr by (rule one_edit_ok [OF H re assms(4-6) a(2-4)]) (use assms(7) in simp)
  moreover obtain b where b: "prollyMutMapDelete (prollyMutMapInit (fl AND PROLLY_NODE_INTKEY \<noteq> 0)) key ik = Inr b" "mm_inv b" "order_head_ok b"
      "mm_edits b = [edit_key fl key ik \<mapsto> None]" using one_edit_maps(2) [OF assms(8)] by blast
  have "pointed H U ds R fl ((map_of rows)(edit_key fl key ik := None))
      (prollyMutateDelete (rec_put H) (rec_get H) wb ?w root fl key ik)"
    unfolding prollyMutateDelete_def b(1) bindR_Inr by (rule one_edit_ok [OF H re assms(4-6) b(2-4)]) simp
  ultimately show ?thesis by (rule conjI)
qed

section \<open>Examples\<close>

lemma sorted_map_single:
  fixes xs :: "row list"
  assumes "sorted_wrt (<) (map fst xs)" "map_of xs = [k \<mapsto> v]"
  shows "xs = [(k, v)]"
proof -
  have d: "distinct (map fst xs)" using assms(1) strict_sorted_iff by blast
  have "map_of xs (fst p) = Some (snd p)" if "p \<in> set xs" for p using d that by simp
  then have "p = (k, v)" if "p \<in> set xs" for p using assms(2) that by (metis fun_upd_apply option.distinct(1) option.inject prod.collapse)
  moreover have "(k, v) \<in> set xs" using assms(2) by (metis fun_upd_same map_of_SomeD)
  ultimately have "set xs = {(k, v)}" by blast
  moreover have "distinct xs" using d by (simp add: distinct_map)
  ultimately show ?thesis by (cases xs; cases "tl xs") auto
qed

lemma ex_edit:
  obtains mm where "prollyMutMapInsert (prollyMutMapInit False) k 0 v = Inr mm" "mm_inv mm" "order_head_ok mm" "mm_edits mm = [k \<mapsto> Some v]"
proof -
  have f: "\<not> PROLLY_NODE_BLOBKEY AND PROLLY_NODE_INTKEY \<noteq> 0" by (simp add: PROLLY_NODE_BLOBKEY_def PROLLY_NODE_INTKEY_def)
  have k: "edit_key PROLLY_NODE_BLOBKEY k 0 = k" using f by (simp add: edit_key_def full_key_def)
  show ?thesis using one_edit_maps(1) [of PROLLY_NODE_BLOBKEY k 0 v] f k that by auto
qed

lemma ex_cache: "cache_inv ex_hash {ex_node} (prollyCacheInit 4) {#}"
proof -
  have "ex_node \<noteq> []" by (simp add: ex_node_def node_bytes_def)
  then show ?thesis using ex_hash_ok by (intro prollyCacheInit_ok) (simp add: hashing_def)
qed

lemma prollyMutateFlush_correct_witness:
  "\<exists>mm. prollyMutMapInsert (prollyMutMapInit False) [2] 0 [3] = Inr mm \<and>
     (let r = prollyMutateFlush (rec_put ex_hash) (rec_get ex_hash) (\<lambda>_ _ _. False) \<lparr>eStore = [ex_node], eCache = prollyCacheInit 4\<rparr>
          \<lparr>oldRoot = ex_hash ex_node, pEdits = mm, mFlags = PROLLY_NODE_BLOBKEY, newRoot = hash0\<rparr> in
      r = Inl SQLITE_FULL \<or> (\<exists>w mut' x. r = Inr (w, mut') \<and>
        tree ex_hash PROLLY_NODE_BLOBKEY (set (ex_node # x)) (newRoot mut') [([1], [2]), ([2], [3])]))"
proof -
  obtain mm where mm: "prollyMutMapInsert (prollyMutMapInit False) [2] 0 [3] = Inr mm" "mm_inv mm" "order_head_ok mm"
    "mm_edits mm = [[2] \<mapsto> Some [3]]" by (rule ex_edit)
  let ?mut = "\<lparr>oldRoot = ex_hash ex_node, pEdits = mm, mFlags = PROLLY_NODE_BLOBKEY, newRoot = hash0\<rparr>"
  have st: "rows_storable PROLLY_NODE_BLOBKEY [([1], [2])] mm"
    using mm(4) by (auto simp: rows_storable_def item_ok_def PROLLY_NODE_BLOBKEY_def PROLLY_NODE_INTKEY_def split: if_splits)
  have u: "rows' = [([1], [2]), ([2], [3])]"
    if "sorted_wrt (<) (map fst rows')" "map_of rows' = (\<lambda>k. case mm_edits mm k of None \<Rightarrow> map_of [([1], [2])] k | Some v \<Rightarrow> v)" for rows' :: "row list"
  proof -
    have "map_of rows' = map_of [([1], [2]), ([2 :: byte], [3 :: byte])]" using that(2) mm(4) by (auto simp: fun_eq_iff)
    moreover have "distinct (map fst rows')" "distinct (map fst [([1], [2]), ([2 :: byte], [3 :: byte])])"
      using that(1) strict_sorted_iff by (blast, simp)
    ultimately have "set rows' = set [([1], [2]), ([2], [3])]" by (metis map_of_inject_set)
    moreover have "sorted_wrt (<) (map fst [([1], [2]), ([2 :: byte], [3 :: byte])])" by simp
    ultimately show ?thesis using that(1)
      by (intro map_sorted_distinct_set_unique [where f = fst]) (auto simp: strict_sorted_iff)
  qed
  have t: "tree ex_hash (mFlags ?mut) (set [ex_node]) (oldRoot ?mut) [([1], [2])]" using ex_tree by simp
  show ?thesis
    using prollyMutateFlush_correct [OF ex_hash_ok ex_cache _ t, of "\<lambda>_ _ _. False"] mm(1-3) st u
    by (intro exI [of _ mm]) (fastforce simp: Let_def)
qed

lemma flush_on_store_witness:
  "\<exists>mm w'. prollyMutMapInsert (prollyMutMapInit False) [1] 0 [2] = Inr mm \<and>
     (\<exists>mut'. prollyMutateFlush (chunkStorePut ex_hash) (\<lambda>cs. chunkStoreGet cs []) (\<lambda>_ _ _. False)
          \<lparr>eStore = chunkStoreOpenMemory, eCache = prollyCacheInit 4\<rparr>
          \<lparr>oldRoot = hash0, pEdits = mm, mFlags = PROLLY_NODE_BLOBKEY, newRoot = hash0\<rparr> = Inr (w', mut') \<and>
        chunks [] (eStore w') = {ex_node} \<and> cache_inv ex_hash {ex_node} (eCache w') {#})"
proof -
  obtain mm where mm: "prollyMutMapInsert (prollyMutMapInit False) [1] 0 [2] = Inr mm" "mm_inv mm" "order_head_ok mm"
    "mm_edits mm = [[1] \<mapsto> Some [2]]" by (rule ex_edit)
  let ?fl = PROLLY_NODE_BLOBKEY and ?wb = "\<lambda>_ _ _. False :: bool"
  let ?mut = "\<lparr>oldRoot = hash0, pEdits = mm, mFlags = ?fl, newRoot = hash0\<rparr>" and ?ca = "prollyCacheInit 4"
  have st: "rows_storable ?fl [] mm"
    using mm(4) by (auto simp: rows_storable_def item_ok_def PROLLY_NODE_BLOBKEY_def PROLLY_NODE_INTKEY_def split: if_splits)
  obtain it where it: "prollyMutMapIterFirst mm = Inr it" "iter_ok it" "edit_map_of (edits it) = mm_edits mm" "nEntries (fst it) = nEntries mm"
    using iter_first_ok [OF mm(2,3)] by blast
  have "edited [] mm (merge_rows [] (edits it))"
    using merge_edited(1) [OF _ iter_ok_simps(3) [OF it(2)] it(3) st] by simp
  then have "sorted_wrt (<) (map fst (concat (map edit_rows (edits it))))" "map_of (concat (map edit_rows (edits it))) = [[1] \<mapsto> [2]]"
    using mm(4) by (auto simp: edited_def fun_eq_iff)
  then have rows: "concat (map edit_rows (edits it)) = [([1], [2])]" by (rule sorted_map_single)
  have l: "length (edits it) < nEntries mm + 1" using iter_ok_simps(2) [OF it(2)] it(4) by simp
  obtain ch where bt: "build_tree (rec_put ex_hash) ?wb ?fl [] [([1], [2])] = Inr ([ex_node], ch)"
    using ex_run by (auto simp: map_sum_def split: sum.splits)
  have "edits it \<noteq> []" using rows by auto
  then have "length (edits it) \<noteq> 0" by simp
  then have ne: "\<not> prollyMutMapIsEmpty mm" using it(4) iter_ok_simps(2) [OF it(2)] by (simp add: prollyMutMapIsEmpty_def)
  obtain ia ib where ad: "adv it (length (edits it)) = (ia, ib)" by (cases "adv it (length (edits it))") simp
  obtain mut' where run: "prollyMutateFlush (rec_put ex_hash) (rec_get ex_hash) ?wb \<lparr>eStore = [], eCache = ?ca\<rparr> ?mut =
      Inr (\<lparr>eStore = [ex_node], eCache = ?ca\<rparr>, mut')"
    using ne it(1) bt ad drain_edits_eq [OF it(2) l, of "rec_put ex_hash" ?wb "[]"] rows
    by (auto simp: prollyMutateFlush_def buildFromEdits_def on_store_def prollyHashIsEmpty_iff build_tree_def res_simps)
  have "ex_node \<noteq> [] \<and> length ex_node < 2147483648" by (simp add: ex_node_def node_bytes_def offsets_def)
  then have inv: "store_inv ex_hash {ex_node} chunkStoreOpenMemory []"
    using mem_inv_open(1) [of ex_hash "{ex_node}"] ex_hash_ok by (simp add: universe_def mem_inv_def)
  show ?thesis
    using flush_on_store [OF inv ex_hash_ok ex_cache _ _ _ _ _ _ run, of "[]" "[ex_node]"] mm(1-3) st
    by (simp add: mem_inv_open(3) tree_def) blast
qed

lemma prollyMutate_point_witness:
  "pointed ex_hash {ex_node} [ex_node] {#} PROLLY_NODE_BLOBKEY [[1] \<mapsto> [2], [2] \<mapsto> [3]]
      (prollyMutateInsert (rec_put ex_hash) (rec_get ex_hash) (\<lambda>_ _ _. False)
        \<lparr>eStore = [ex_node], eCache = prollyCacheInit 4\<rparr> (ex_hash ex_node) PROLLY_NODE_BLOBKEY [2] 0 [3])"
proof -
  have "\<not> PROLLY_NODE_BLOBKEY AND PROLLY_NODE_INTKEY \<noteq> 0" by (simp add: PROLLY_NODE_BLOBKEY_def PROLLY_NODE_INTKEY_def)
  then have k: "edit_key PROLLY_NODE_BLOBKEY [2] 0 = [2]" by (simp add: edit_key_def full_key_def)
  have t: "tree ex_hash PROLLY_NODE_BLOBKEY (set [ex_node]) (ex_hash ex_node) [([1], [2])]" using ex_tree by simp
  have i: "\<forall>r \<in> set [([1], [2])]. item_ok PROLLY_NODE_BLOBKEY 0 r" "item_ok PROLLY_NODE_BLOBKEY 0 ([2], [3])"
    by (simp_all add: item_ok_def PROLLY_NODE_BLOBKEY_def PROLLY_NODE_INTKEY_def)
  show ?thesis
    using prollyMutate_point [OF ex_hash_ok ex_cache _ t, of "[2]" 0 "[3]" "\<lambda>_ _ _. False"] i
    unfolding k by simp
qed

end
