(* ===== verification/Sortkey.thy ===== *)
theory Sortkey
  imports RecordFormat "HOL-Library.Log_Nat"
begin

text \<open>
  Sort keys (\<open>sortkey.c\<close>, \<open>sortkey.h\<close>): the bytes under which a record is stored in an index, made so that
  comparing two keys byte by byte orders the records, and the way back from a key to a record.

  Sizes and offsets into a record are naturals: they are bounded by the length of the record, which is an
  \<open>int\<close>, so no sum of the sources wraps there; the one that can, the estimate of the buffer size, is kept
  at its width.  An \<open>i64\<close> is an integer, a double is the word of its bits.  The two conversions between them are
  those of C on IEEE 754 doubles with rounding to nearest even; what C leaves undefined, the conversion of a
  double that does not fit, is the parameter \<open>ub\<close>.
\<close>

section \<open>Doubles\<close>

text \<open>The bits of the double nearest to a natural below \<open>2 ^ 64\<close>, ties to even.\<close>

definition double_of_nat :: "nat \<Rightarrow> nat" where
  "double_of_nat n =
     (if n = 0 then 0
      else let k = floorlog 2 n in
        if k \<le> 53 then (k + 1021) * 2 ^ 52 + n * 2 ^ (53 - k)
        else let s = k - 53; q = n div 2 ^ s; r = n mod 2 ^ s in
          (k + 1021) * 2 ^ 52 + (if 2 * r > 2 ^ s \<or> 2 * r = 2 ^ s \<and> odd q then q + 1 else q))"

definition double_of_i64 :: "int \<Rightarrow> u64" where
  "double_of_i64 v =
     (if v < 0 then of_nat (2 ^ 63 + double_of_nat (nat (- v))) else of_nat (double_of_nat (nat v)))"

definition double_neg :: "u64 \<Rightarrow> bool" where
  "double_neg x \<longleftrightarrow> unat x \<ge> 2 ^ 63"

definition double_mag :: "u64 \<Rightarrow> nat" where
  "double_mag x = unat x mod 2 ^ 63"

text \<open>
  The value of a double, as a multiple of \<open>2 ^ -1074\<close>, by its exponent and fraction.  Infinity is above
  all finite values.
\<close>

definition scaled_mag :: "nat \<Rightarrow> nat" where
  "scaled_mag m =
     (let e = m div 2 ^ 52; f = m mod 2 ^ 52 in if e = 0 then f else (2 ^ 52 + f) * 2 ^ (e - 1))"

definition double_unit :: int where
  "double_unit = 2 ^ 1074"

definition scaled :: "u64 \<Rightarrow> int" where
  "scaled x = (if double_neg x then - int (scaled_mag (double_mag x)) else int (scaled_mag (double_mag x)))"

definition double_nan :: "u64 \<Rightarrow> bool" where
  "double_nan x \<longleftrightarrow> double_mag x > 2047 * 2 ^ 52"

definition double_eq :: "u64 \<Rightarrow> u64 \<Rightarrow> bool" where
  "double_eq x y \<longleftrightarrow> \<not> double_nan x \<and> \<not> double_nan y \<and> scaled x = scaled y"

text \<open>The cast \<open>(i64)d\<close>: towards zero, where the result fits.\<close>

definition double_trunc :: "u64 \<Rightarrow> int" where
  "double_trunc x =
     (if double_neg x then - (int (scaled_mag (double_mag x)) div double_unit)
      else int (scaled_mag (double_mag x)) div double_unit)"

definition i64_of_double :: "(u64 \<Rightarrow> int) \<Rightarrow> u64 \<Rightarrow> int" where
  "i64_of_double ub x =
     (if double_nan x \<or> double_trunc x < - (2 ^ 63) \<or> double_trunc x \<ge> 2 ^ 63 then ub x else double_trunc x)"

section \<open>Reading a record\<close>

fun sk_varint_loop :: "byte list \<Rightarrow> nat \<Rightarrow> u32 \<Rightarrow> nat \<Rightarrow> nat \<Rightarrow> (nat \<times> u32) res" where
  "sk_varint_loop d p v i 0 = Inr (i, v)"
| "sk_varint_loop d p v i (Suc k) =
     bindR (read_byte d (p + i)) (\<lambda>a.
     let v = push_bit 7 v OR (ucast a AND 127) in
     if a AND 128 \<noteq> 0 then sk_varint_loop d p v (i + 1) k else Inr (i + 1, v))"

definition skGetVarint32 :: "byte list \<Rightarrow> nat \<Rightarrow> (nat \<times> u32) res" where
  "skGetVarint32 d p =
     bindR (read_byte d p) (\<lambda>a.
     if a AND 128 = 0 then Inr (1, ucast a) else sk_varint_loop d p (ucast a AND 127) 1 8)"

lemma sk_varint_loop_pos: "sk_varint_loop d p v i k = Inr (n, x) \<Longrightarrow> i \<le> n"
  by (induction k arbitrary: v i) (fastforce simp: res_simps Let_def split: if_splits)+

lemma skGetVarint32_pos: "skGetVarint32 d p = Inr (n, x) \<Longrightarrow> 0 < n"
  by (auto simp: skGetVarint32_def res_simps split: if_splits dest!: sk_varint_loop_pos)

definition serialTypeLen :: "u32 \<Rightarrow> nat" where
  "serialTypeLen st =
     (if st \<le> 6 then int_sizes ! unat st
      else if st = 7 then 8
      else if st \<ge> 12 then unat ((st - 12) div 2)
      else 0)"

definition SORTKEY_NULL :: byte where "SORTKEY_NULL = 0x05"
definition SORTKEY_NUM :: byte where "SORTKEY_NUM = 0x15"
definition SORTKEY_TEXT :: byte where "SORTKEY_TEXT = 0x35"
definition SORTKEY_BLOB :: byte where "SORTKEY_BLOB = 0x45"

definition serialTypeTag :: "u32 \<Rightarrow> byte" where
  "serialTypeTag st =
     (if st = 0 then SORTKEY_NULL
      else if st \<le> 6 \<or> st = 8 \<or> st = 9 then SORTKEY_NUM
      else if st = 7 then SORTKEY_NUM
      else if st \<ge> 13 \<and> st AND 1 \<noteq> 0 then SORTKEY_TEXT
      else if st \<ge> 12 \<and> st AND 1 = 0 then SORTKEY_BLOB
      else SORTKEY_NULL)"

section \<open>Collations\<close>

datatype coll = SORTKEY_COLL_BINARY | SORTKEY_COLL_NOCASE | SORTKEY_COLL_RTRIM

text \<open>
  The collations of a key: one name for each of its \<open>nAllField\<close> fields, \<open>None\<close> where the pointer to the
  collation or to its name is null.  SQLite's table of lower-case letters is that of ASCII.
\<close>

type_synonym key_info = "byte list option list"

definition UpperToLower :: "byte \<Rightarrow> byte" where
  "UpperToLower c = (if 65 \<le> c \<and> c \<le> 90 then c + 32 else c)"

fun sqlite3StrICmp :: "byte list \<Rightarrow> byte list \<Rightarrow> int" where
  "sqlite3StrICmp (c # cs) (x # xs) =
     (if c = x then sqlite3StrICmp cs xs
      else let r = int (unat (UpperToLower c)) - int (unat (UpperToLower x)) in
        if r \<noteq> 0 then r else sqlite3StrICmp cs xs)"
| "sqlite3StrICmp (c # cs) [] = int (unat (UpperToLower c))"
| "sqlite3StrICmp [] (x # xs) = - int (unat (UpperToLower x))"
| "sqlite3StrICmp [] [] = 0"

definition collFromKeyInfo :: "key_info option \<Rightarrow> nat \<Rightarrow> coll" where
  "collFromKeyInfo ki iCol =
     (case ki of
        None \<Rightarrow> SORTKEY_COLL_BINARY
      | Some cs \<Rightarrow>
          if iCol \<ge> length cs then SORTKEY_COLL_BINARY
          else case cs ! iCol of
            None \<Rightarrow> SORTKEY_COLL_BINARY
          | Some name \<Rightarrow>
              if sqlite3StrICmp name (map (of_nat \<circ> of_char) ''NOCASE'') = 0 then SORTKEY_COLL_NOCASE
              else if sqlite3StrICmp name (map (of_nat \<circ> of_char) ''RTRIM'') = 0 then SORTKEY_COLL_RTRIM
              else SORTKEY_COLL_BINARY)"

fun strip_blanks :: "byte list \<Rightarrow> nat \<Rightarrow> nat" where
  "strip_blanks d 0 = 0"
| "strip_blanks d (Suc n) = (if d ! n = 0x20 then strip_blanks d n else Suc n)"

definition collTextLen :: "coll \<Rightarrow> byte list \<Rightarrow> nat" where
  "collTextLen c d = (if c = SORTKEY_COLL_RTRIM then strip_blanks d (length d) else length d)"

definition fold_case :: "coll \<Rightarrow> byte \<Rightarrow> byte" where
  "fold_case c b = (if c = SORTKEY_COLL_NOCASE \<and> 65 \<le> b \<and> b \<le> 90 then b + 32 else b)"

section \<open>Encoding a field\<close>

definition encodedFieldSize :: "u32 \<Rightarrow> byte list \<Rightarrow> coll \<Rightarrow> nat" where
  "encodedFieldSize st d c =
     (let tag = serialTypeTag st in
      if tag = SORTKEY_NUM then 9
      else if tag = SORTKEY_TEXT then
        (let n = collTextLen c d; extra = length (filter (\<lambda>b. fold_case c b = 0) (take n d)) in 1 + n + extra + 2)
      else if tag = SORTKEY_BLOB then
        (let extra = length (filter (\<lambda>b. b = 0) d) in 1 + length d + extra + 2)
      else 1)"

definition sk_int :: "u32 \<Rightarrow> byte list \<Rightarrow> int" where
  "sk_int st d = (if st = 8 then 0 else if st = 9 then 1 else sint (recReadInt d))"

definition flip_number :: "byte list \<Rightarrow> byte list" where
  "flip_number buf = (if hd buf AND 0x80 \<noteq> 0 then map NOT buf else (hd buf XOR 0x80) # tl buf)"

definition encodeNumeric :: "u32 \<Rightarrow> byte list \<Rightarrow> byte list" where
  "encodeNumeric st d =
     (let buf = (if st = 7 then d else be_bytes (double_of_i64 (sk_int st d))) in
      SORTKEY_NUM # flip_number buf)"

definition escape_byte :: "byte \<Rightarrow> byte list" where
  "escape_byte b = (if b = 0 then [0, 1] else [b])"

definition encodeVarLen :: "byte \<Rightarrow> byte list \<Rightarrow> byte list" where
  "encodeVarLen tag d = tag # concat (map escape_byte d) @ [0, 0]"

definition encodeText :: "byte list \<Rightarrow> coll \<Rightarrow> byte list" where
  "encodeText d c = SORTKEY_TEXT # concat (map (\<lambda>b. escape_byte (fold_case c b)) (take (collTextLen c d) d)) @ [0, 0]"

definition encode_field :: "u32 \<Rightarrow> byte list \<Rightarrow> coll \<Rightarrow> byte list" where
  "encode_field st d c =
     (let tag = serialTypeTag st in
      if tag = SORTKEY_NUM then encodeNumeric st d
      else if tag = SORTKEY_TEXT then encodeText d c
      else if tag = SORTKEY_BLOB then encodeVarLen tag d
      else [SORTKEY_NULL])"

section \<open>Encoding a record\<close>

text \<open>
  The loop over the fields.  The buffer is given by its capacity, or \<open>None\<close> when only the size is wanted;
  a write beyond the capacity is \<open>OUT_OF_BOUNDS\<close>.  The result is the \<open>int\<close> that the function returns, with
  what it has written.
\<close>

function sk_fields ::
    "byte list \<Rightarrow> nat option \<Rightarrow> int \<Rightarrow> key_info option \<Rightarrow> nat \<Rightarrow> nat \<Rightarrow> nat \<Rightarrow> nat \<Rightarrow> nat \<Rightarrow> byte list \<Rightarrow> (int \<times> byte list) res" where
  "sk_fields d cap nMaxFields ki hdrSize hdrOff dataOff nFld outPos out =
     (if hdrOff < hdrSize then
        if nMaxFields > 0 \<and> int nFld \<ge> nMaxFields then Inr (int outPos, out)
        else
          case skGetVarint32 d hdrOff of
            Inl e \<Rightarrow> Inl e
          | Inr (n, st) \<Rightarrow>
              let fieldLen = serialTypeLen st in
              if dataOff + fieldLen > length d then Inr (-1, out)
              else
                let fld = take fieldLen (drop dataOff d); c = collFromKeyInfo ki nFld in
                case cap of
                  None \<Rightarrow> sk_fields d cap nMaxFields ki hdrSize (hdrOff + n) (dataOff + fieldLen) (nFld + 1)
                            (outPos + encodedFieldSize st fld c) out
                | Some m \<Rightarrow>
                    let enc = encode_field st fld c in
                    if outPos + length enc > m then Inl OUT_OF_BOUNDS
                    else sk_fields d cap nMaxFields ki hdrSize (hdrOff + n) (dataOff + fieldLen) (nFld + 1)
                           (outPos + length enc) (out @ enc)
      else Inr (int outPos, out))"
  by pat_completeness auto
termination by (relation "measure (\<lambda>(d, cap, k, ki, hs, ho, r). hs - ho)") (auto dest: skGetVarint32_pos)

declare sk_fields.simps [simp del]

definition sortKeyEncode :: "byte list \<Rightarrow> nat option \<Rightarrow> int \<Rightarrow> key_info option \<Rightarrow> (int \<times> byte list) res" where
  "sortKeyEncode d cap nMaxFields ki =
     (if d = [] then Inr (-1, [])
      else
        bindR (skGetVarint32 d 0) (\<lambda>(hdrOff, hdrSize).
        if unat hdrSize > length d then Inr (-1, [])
        else sk_fields d cap nMaxFields ki (unat hdrSize) hdrOff (unat hdrSize) 0 0 []))"

definition sortKeySize :: "byte list \<Rightarrow> int res" where
  "sortKeySize d = bindR (sortKeyEncode d None 0 None) (\<lambda>(n, out). Inr n)"

text \<open>The estimate is a product of \<open>int\<close>s, which wraps; the buffer is reused when it is large enough.\<close>

definition key_estimate :: "nat \<Rightarrow> int" where
  "key_estimate n = (let e = sint (of_nat (9 * n + 16) :: u32) in if e < 64 then 64 else e)"

definition sortKeyFromRecordPrefixCollBuffer ::
    "byte list \<Rightarrow> int \<Rightarrow> key_info option \<Rightarrow> nat \<Rightarrow> (nat \<times> byte list) res" where
  "sortKeyFromRecordPrefixCollBuffer d nKeyField ki nAlloc =
     (let nAlloc = (if int nAlloc < key_estimate (length d) then nat (key_estimate (length d)) else nAlloc) in
      bindR (sortKeyEncode d (Some nAlloc) nKeyField ki) (\<lambda>(n, out).
      if n < 0 then Inl SQLITE_CORRUPT else Inr (nAlloc, out)))"

definition sortKeyFromRecordPrefixColl :: "byte list \<Rightarrow> int \<Rightarrow> key_info option \<Rightarrow> byte list res" where
  "sortKeyFromRecordPrefixColl d nKeyField ki =
     bindR (sortKeyFromRecordPrefixCollBuffer d nKeyField ki 0) (\<lambda>(nAlloc, out). Inr out)"

definition sortKeyFromRecordPrefix :: "byte list \<Rightarrow> int \<Rightarrow> byte list res" where
  "sortKeyFromRecordPrefix d nKeyField = sortKeyFromRecordPrefixColl d nKeyField None"

definition sortKeyFromRecord :: "byte list \<Rightarrow> byte list res" where
  "sortKeyFromRecord d = sortKeyFromRecordPrefix d 0"

definition compareSortKeys :: "byte list \<Rightarrow> byte list \<Rightarrow> int" where
  "compareSortKeys k1 k2 =
     (let n = (if length k1 < length k2 then length k1 else length k2); c = memcmp k1 k2 n in
      if c \<noteq> 0 then c else if length k1 < length k2 then -1 else if length k1 > length k2 then 1 else 0)"

section \<open>Writing varints\<close>

text \<open>\<open>sqlite3VarintLen\<close> and \<open>sqlite3PutVarint\<close> of \<open>util.c\<close>; a 64-bit value is a natural, shifts are divisions.\<close>

fun sqlite3VarintLen :: "nat \<Rightarrow> nat" where
  "sqlite3VarintLen v = (if v div 128 = 0 then 1 else Suc (sqlite3VarintLen (v div 128)))"

fun varint_buf :: "nat \<Rightarrow> byte list" where
  "varint_buf v = (of_nat (v mod 128) OR 0x80) # (if v div 128 = 0 then [] else varint_buf (v div 128))"

declare sqlite3VarintLen.simps [simp del] varint_buf.simps [simp del]

definition putVarint64 :: "nat \<Rightarrow> byte list" where
  "putVarint64 v =
     (if v div 2 ^ 56 \<noteq> 0 then map (\<lambda>i. of_nat (v div 2 ^ 8 div 128 ^ i mod 128) OR 0x80) (rev [0..<8]) @ [of_nat v]
      else let buf = varint_buf v in rev ((hd buf AND 0x7f) # tl buf))"

definition sqlite3PutVarint :: "nat \<Rightarrow> byte list" where
  "sqlite3PutVarint v =
     (if v \<le> 0x7f then [of_nat v AND 0x7f]
      else if v \<le> 0x3fff then [(of_nat (v div 128) AND 0x7f) OR 0x80, of_nat v AND 0x7f]
      else putVarint64 v)"

definition putVarint32 :: "nat \<Rightarrow> byte list" where
  "putVarint32 v = (if v < 0x80 then [of_nat v] else sqlite3PutVarint v)"

section \<open>Decoding a number\<close>

definition intSerialType :: "int \<Rightarrow> u32 \<times> nat" where
  "intSerialType v =
     (if v = 0 then (8, 0)
      else if v = 1 then (9, 0)
      else if v \<ge> -128 \<and> v \<le> 127 then (1, 1)
      else if v \<ge> -32768 \<and> v \<le> 32767 then (2, 2)
      else if v \<ge> -8388608 \<and> v \<le> 8388607 then (3, 3)
      else if v \<ge> -2147483648 \<and> v \<le> 2147483647 then (4, 4)
      else if v \<ge> -140737488355328 \<and> v \<le> 140737488355327 then (5, 6)
      else (6, 8))"

text \<open>The bytes from the last to the first.\<close>

primrec writeIntBE :: "int \<Rightarrow> nat \<Rightarrow> byte list \<Rightarrow> byte list" where
  "writeIntBE v 0 p = p"
| "writeIntBE v (Suc n) p = writeIntBE (v div 256) n (of_int (v mod 256) # p)"

text \<open>A decoded field: serial type, length, the bytes of a number, and where the bytes of a string start in the key.\<close>

record sk_field =
  skType :: u32
  skLen :: nat
  skBuf :: "byte list"
  skPtr :: nat

definition unflip_number :: "byte list \<Rightarrow> byte list" where
  "unflip_number buf = (if hd buf AND 0x80 \<noteq> 0 then (hd buf XOR 0x80) # tl buf else map NOT buf)"

definition decodeNumericSortKeyToRecord :: "(u64 \<Rightarrow> int) \<Rightarrow> byte list \<Rightarrow> sk_field" where
  "decodeNumericSortKeyToRecord ub bs =
     (let buf = unflip_number bs; d = read_int_loop 0 buf; iv = i64_of_double ub d in
      if double_eq (double_of_i64 iv) d \<and>
         scaled d \<ge> - 9220000000000000000 * double_unit \<and> scaled d \<le> 9220000000000000000 * double_unit
      then case intSerialType iv of (st, len) \<Rightarrow> \<lparr>skType = st, skLen = len, skBuf = writeIntBE iv len [], skPtr = 0\<rparr>
      else \<lparr>skType = 7, skLen = 8, skBuf = buf, skPtr = 0\<rparr>)"

section \<open>Decoding a key\<close>

text \<open>Two numbers, the usual case: \<open>Inl SQLITE_NOTFOUND\<close> otherwise.  Results are the capacity of the buffer and the record.\<close>

definition recordFromTwoNumericSortKeyBuffer :: "(u64 \<Rightarrow> int) \<Rightarrow> byte list \<Rightarrow> nat \<Rightarrow> (nat \<times> byte list) res" where
  "recordFromTwoNumericSortKeyBuffer ub k nAlloc =
     (if length k \<noteq> 18 \<or> k ! 0 \<noteq> SORTKEY_NUM \<or> k ! 9 \<noteq> SORTKEY_NUM then Inl SQLITE_NOTFOUND
      else
        let f0 = decodeNumericSortKeyToRecord ub (take 8 (drop 1 k)); f1 = decodeNumericSortKeyToRecord ub (take 8 (drop 10 k));
            nTotal = 3 + skLen f0 + skLen f1;
            out = [3, ucast (skType f0), ucast (skType f1)] @ take (skLen f0) (skBuf f0) @ take (skLen f1) (skBuf f1) in
        Inr (if nAlloc < nTotal then nTotal else nAlloc, out))"

text \<open>The end of a string and the number of its bytes.\<close>

function sk_scan :: "byte list \<Rightarrow> nat \<Rightarrow> nat \<Rightarrow> (nat \<times> nat) res" where
  "sk_scan k pos dataLen =
     (if pos < length k then
        if k ! pos = 0 then
          if pos + 1 \<ge> length k then Inl SQLITE_CORRUPT
          else if k ! (pos + 1) = 0 then Inr (pos + 2, dataLen)
          else if k ! (pos + 1) = 1 then sk_scan k (pos + 2) (dataLen + 1)
          else Inl SQLITE_CORRUPT
        else sk_scan k (pos + 1) (dataLen + 1)
      else Inr (pos, dataLen))"
  by pat_completeness auto
termination by (relation "measure (\<lambda>(k, pos, n). length k - pos)") auto

declare sk_scan.simps [simp del]

function sk_decode :: "(u64 \<Rightarrow> int) \<Rightarrow> byte list \<Rightarrow> nat \<Rightarrow> sk_field list \<Rightarrow> sk_field list res" where
  "sk_decode ub k pos fs =
     (if pos < length k \<and> length fs < 64 then
        let tag = k ! pos in
        if tag = SORTKEY_NULL then sk_decode ub k (pos + 1) (fs @ [\<lparr>skType = 0, skLen = 0, skBuf = [], skPtr = 0\<rparr>])
        else if tag = SORTKEY_NUM then
          if pos + 1 + 8 > length k then Inl SQLITE_CORRUPT
          else sk_decode ub k (pos + 9) (fs @ [decodeNumericSortKeyToRecord ub (take 8 (drop (pos + 1) k))])
        else if tag = SORTKEY_TEXT \<or> tag = SORTKEY_BLOB then
          (case sk_scan k (pos + 1) 0 of
             Inl e \<Rightarrow> Inl e
           | Inr (pos', dataLen) \<Rightarrow>
               sk_decode ub k pos' (fs @ [\<lparr>skType = of_nat dataLen * 2 + (if tag = SORTKEY_TEXT then 13 else 12),
                 skLen = dataLen, skBuf = [], skPtr = pos + 1\<rparr>]))
        else Inl SQLITE_CORRUPT
      else Inr fs)"
  by pat_completeness auto
termination by (relation "measure (\<lambda>(ub, k, pos, fs). 64 - length fs)") auto

declare sk_decode.simps [simp del]

text \<open>Copying a string without its escapes.\<close>

fun sk_unescape :: "byte list \<Rightarrow> nat \<Rightarrow> nat \<Rightarrow> byte list" where
  "sk_unescape k p 0 = []"
| "sk_unescape k p (Suc n) =
     (if p + 1 < length k \<and> k ! p = 0 \<and> k ! (p + 1) = 1 then 0 # sk_unescape k (p + 2) n
      else if p < length k then k ! p # sk_unescape k (p + 1) n
      else 0 # sk_unescape k p n)"

definition sk_body :: "byte list \<Rightarrow> sk_field \<Rightarrow> byte list" where
  "sk_body k f =
     (if skLen f = 0 then []
      else if skType f \<le> 6 \<or> skType f = 7 then take (skLen f) (skBuf f)
      else sk_unescape k (skPtr f) (skLen f))"

definition recordFromSortKeyBuffer :: "(u64 \<Rightarrow> int) \<Rightarrow> byte list \<Rightarrow> nat \<Rightarrow> (nat \<times> byte list) res" where
  "recordFromSortKeyBuffer ub k nAlloc =
     (if k = [] then Inr (if nAlloc < 1 then 1 else nAlloc, [1])
      else
        case recordFromTwoNumericSortKeyBuffer ub k nAlloc of
          Inr r \<Rightarrow> Inr r
        | Inl e \<Rightarrow>
            if e \<noteq> SQLITE_NOTFOUND then Inl e
            else
              bindR (sk_decode ub k 0 []) (\<lambda>fs.
              let nHdr = 1 + sum_list (map (\<lambda>f. sqlite3VarintLen (unat (skType f))) fs);
                  nHdr = (if nHdr > 126 then nHdr + 1 else nHdr);
                  nData = sum_list (map skLen fs);
                  nTotal = nHdr + nData;
                  out = putVarint32 nHdr @ concat (map (\<lambda>f. putVarint32 (unat (skType f))) fs) @ concat (map (sk_body k) fs) in
              bindR (guardR (length out = nTotal) OUT_OF_BOUNDS) (\<lambda>_.
              Inr (if nAlloc < nTotal then nTotal else nAlloc, out))))"

definition recordFromSortKey :: "(u64 \<Rightarrow> int) \<Rightarrow> byte list \<Rightarrow> byte list res" where
  "recordFromSortKey ub k = bindR (recordFromSortKeyBuffer ub k 0) (\<lambda>(nAlloc, out). Inr out)"

end
