(* ===== verification/SortkeyNum.thy ===== *)
theory SortkeyNum
  imports Sortkey RecordProps
begin

text \<open>
  Doubles in sort keys: their values as multiples of the smallest double, the exact conversion of integers up to
  \<open>2 ^ 53\<close>, and that flipping the bits of a double as the encoder does gives them the order of the values.
\<close>

section \<open>The value of a double\<close>

lemma quot_rem: "g < c \<Longrightarrow> (e * c + g) div c = e \<and> (e * c + g) mod c = g" for g c e :: nat
  by simp

lemma scaled_mag_Suc: "scaled_mag m < scaled_mag (Suc m)"
proof -
  let ?e = "m div 2 ^ 52" and ?f = "m mod 2 ^ 52"
  have m: "m = ?e * 2 ^ 52 + ?f" "?f < 2 ^ 52" by simp_all
  show ?thesis
  proof (cases "?f = 2 ^ 52 - 1")
    case True
    then have s: "Suc m = (?e + 1) * 2 ^ 52" using m(1) by simp
    have d: "Suc m div 2 ^ 52 = ?e + 1" "Suc m mod 2 ^ 52 = 0" unfolding s by simp_all
    show ?thesis
    proof (cases "?e")
      case 0
      then show ?thesis using d m(2) by (simp add: scaled_mag_def Let_def)
    next
      case (Suc e)
      have "(2 ^ 52 + ?f) * 2 ^ e < 2 ^ 53 * (2 ^ e :: nat)" using m(2) by simp
      then show ?thesis using d Suc by (simp add: scaled_mag_def Let_def)
    qed
  next
    case False
    then have lt: "?f + 1 < 2 ^ 52" using m(2) by linarith
    have s: "Suc m = ?e * 2 ^ 52 + (?f + 1)" using m(1) by simp
    have d: "Suc m div 2 ^ 52 = ?e" "Suc m mod 2 ^ 52 = ?f + 1"
      unfolding s using quot_rem [OF lt, of ?e] by blast+
    show ?thesis unfolding scaled_mag_def d Let_def by simp
  qed
qed

lemma scaled_mag_mono: "m < n \<Longrightarrow> scaled_mag m < scaled_mag n"
  using lift_Suc_mono_less [of scaled_mag, OF scaled_mag_Suc] by blast

lemma scaled_mag_0 [simp]: "scaled_mag 0 = 0"
  by (simp add: scaled_mag_def)

lemma scaled_mag_less: "scaled_mag m < scaled_mag n \<longleftrightarrow> m < n"
  using scaled_mag_mono by (metis linorder_neqE_nat not_less_iff_gr_or_eq)

lemma scaled_mag_eq: "scaled_mag m = scaled_mag n \<longleftrightarrow> m = n"
  using scaled_mag_mono by (metis linorder_neqE_nat not_less_iff_gr_or_eq)

lemma scaled_mag_parts: "g < 2 ^ 52 \<Longrightarrow> scaled_mag ((e + 1) * 2 ^ 52 + g) = (2 ^ 52 + g) * 2 ^ e"
proof -
  assume g: "g < 2 ^ 52"
  have d: "((e + 1) * 2 ^ 52 + g) div 2 ^ 52 = e + 1" "((e + 1) * 2 ^ 52 + g) mod 2 ^ 52 = g"
    using quot_rem [OF g, of "e + 1"] by blast+
  show ?thesis unfolding scaled_mag_def d Let_def by simp
qed

lemma scaled_mag_parts': "2 ^ 52 \<le> g \<Longrightarrow> g < 2 ^ 53 \<Longrightarrow> scaled_mag (e * 2 ^ 52 + g) = g * 2 ^ e"
  using scaled_mag_parts [of "g - 2 ^ 52" e] by (simp add: algebra_simps)

lemma floorlog2_bounds: "0 < n \<Longrightarrow> 2 ^ (floorlog 2 n - 1) \<le> n \<and> n < 2 ^ floorlog 2 n \<and> 0 < floorlog 2 n"
  using floorlog_bounds [of n 2] by (auto simp: floorlog_def)

lemma floorlog2_le: "n < 2 ^ k \<Longrightarrow> floorlog 2 n \<le> k"
  using floorlog_leI [of n 2 k] by simp

text \<open>Naturals up to \<open>2 ^ 53\<close> are converted exactly.\<close>

lemma double_of_nat_53: "double_of_nat (2 ^ 53) = 1075 * 2 ^ 52 + 2 ^ 52"
proof -
  have k: "floorlog 2 (2 ^ 53 :: nat) = 54"
  proof (rule le_antisym)
    show "floorlog 2 (2 ^ 53 :: nat) \<le> 54" by (rule floorlog2_le) simp
    have "(2 :: nat) ^ 53 < 2 ^ floorlog 2 (2 ^ 53 :: nat)" using floorlog2_bounds [of "2 ^ 53"] by simp
    then have "53 < floorlog 2 (2 ^ 53 :: nat)" by (rule power_less_imp_less_exp [rotated]) simp
    then show "54 \<le> floorlog 2 (2 ^ 53 :: nat)" by simp
  qed
  show ?thesis unfolding double_of_nat_def Let_def k by simp
qed

lemma double_of_nat_exact:
  assumes "n \<le> 2 ^ 53"
  shows "scaled_mag (double_of_nat n) = n * 2 ^ 1074"
proof -
  consider "n = 0" | "n = 2 ^ 53" | "0 < n" "n < 2 ^ 53" using assms by linarith
  then show ?thesis
  proof cases
    case 2
    have "scaled_mag (1075 * 2 ^ 52 + 2 ^ 52) = 2 ^ 52 * 2 ^ 1075" by (rule scaled_mag_parts') simp_all
    then show ?thesis using double_of_nat_53 unfolding 2 by (simp only: power_add [symmetric]) simp
  next
    case 3
    let ?k = "floorlog 2 n"
    have b: "2 ^ (?k - 1) \<le> n" "n < 2 ^ ?k" "0 < ?k" "?k \<le> 53" using floorlog2_bounds [OF 3(1)] floorlog2_le [OF 3(2)] by simp_all
    have lo: "(2 :: nat) ^ 52 = 2 ^ (?k - 1) * 2 ^ (53 - ?k)" using b(3,4) by (simp add: power_add [symmetric] del: power_Suc)
    have hi: "(2 :: nat) ^ 53 = 2 ^ ?k * 2 ^ (53 - ?k)" using b(4) by (simp add: power_add [symmetric] del: power_Suc)
    have "scaled_mag ((?k + 1021) * 2 ^ 52 + n * 2 ^ (53 - ?k)) = n * 2 ^ (53 - ?k) * 2 ^ (?k + 1021)"
    proof (rule scaled_mag_parts')
      show "2 ^ 52 \<le> n * 2 ^ (53 - ?k)" unfolding lo using b(1) by (rule mult_le_mono1)
      show "n * 2 ^ (53 - ?k) < 2 ^ 53" unfolding hi using b(2) by (rule mult_less_mono1) simp
    qed
    also have "\<dots> = n * 2 ^ 1074" using b(4) by (simp only: mult.assoc power_add [symmetric]) simp
    finally show ?thesis using 3 b(4) by (simp add: double_of_nat_def Let_def)
  qed (simp add: double_of_nat_def)
qed

lemma double_of_nat_small: "n \<le> 2 ^ 53 \<Longrightarrow> double_of_nat n \<le> 1076 * 2 ^ 52"
proof -
  assume n: "n \<le> 2 ^ 53"
  have "scaled_mag (1075 * 2 ^ 52 + 2 ^ 52) = 2 ^ 52 * 2 ^ 1075" by (rule scaled_mag_parts') simp_all
  then have e: "scaled_mag (1076 * 2 ^ 52) = 2 ^ 53 * 2 ^ 1074" by (simp only: power_add [symmetric]) simp
  have "scaled_mag (double_of_nat n) \<le> scaled_mag (1076 * 2 ^ 52)"
    unfolding e double_of_nat_exact [OF n] using n by (rule mult_le_mono1)
  then show ?thesis using scaled_mag_less [of "1076 * 2 ^ 52" "double_of_nat n"] by linarith
qed

section \<open>Sign and magnitude\<close>

lemma double_of_mag:
  assumes "m < 2 ^ 63"
  shows "double_neg (of_nat m) = False" "double_mag (of_nat m) = m" "double_neg (of_nat (2 ^ 63 + m))" "double_mag (of_nat (2 ^ 63 + m)) = m"
proof -
  have u: "unat (of_nat m :: u64) = m" "unat (of_nat (2 ^ 63 + m) :: u64) = 2 ^ 63 + m"
    using assms by (simp_all add: unat_of_nat take_bit_nat_eq_self del: of_nat_add)
  show "double_neg (of_nat m) = False" "double_mag (of_nat m) = m" "double_neg (of_nat (2 ^ 63 + m))" "double_mag (of_nat (2 ^ 63 + m)) = m"
    unfolding double_neg_def double_mag_def u using assms by simp_all
qed

lemma double_unat: "unat x = (if double_neg x then 2 ^ 63 + double_mag x else double_mag x)" "double_mag x < 2 ^ 63"
proof -
  have "unat x < 2 ^ 64" by (rule unat_u64_less)
  then show "unat x = (if double_neg x then 2 ^ 63 + double_mag x else double_mag x)"
    by (auto simp: double_neg_def double_mag_def mod_if [of _ "2 ^ 63"] le_mod_geq not_less)
  show "double_mag x < 2 ^ 63" by (simp add: double_mag_def)
qed

text \<open>Small integers keep their value.\<close>

lemma scaled_double_of_i64:
  assumes "\<bar>v\<bar> \<le> 2 ^ 53"
  shows "scaled (double_of_i64 v) = v * double_unit" "\<not> double_nan (double_of_i64 v)" "double_of_i64 v \<noteq> of_nat (2 ^ 63)"
proof -
  let ?n = "nat \<bar>v\<bar>" let ?m = "double_of_nat ?n"
  have n: "?n \<le> 2 ^ 53" using assms by (simp add: nat_le_iff)
  have m: "?m < 2 ^ 63" "?m \<le> 1076 * 2 ^ 52" using double_of_nat_small [OF n] by simp_all
  note e = double_of_nat_exact [OF n]
  have d: "double_of_i64 v = (if v < 0 then of_nat (2 ^ 63 + ?m) else of_nat ?m)"
    by (simp add: double_of_i64_def del: of_nat_add)
  have "int (scaled_mag ?m) = \<bar>v\<bar> * double_unit" unfolding e by (simp add: double_unit_def)
  then show "scaled (double_of_i64 v) = v * double_unit"
    unfolding d scaled_def using double_of_mag [OF m(1)] by auto
  have mag: "double_mag (double_of_i64 v) = ?m" unfolding d using double_of_mag [OF m(1)] by auto
  show "\<not> double_nan (double_of_i64 v)" unfolding double_nan_def mag using m(2) by simp
  show "double_of_i64 v \<noteq> of_nat (2 ^ 63)"
  proof
    assume z: "double_of_i64 v = of_nat (2 ^ 63)"
    have "double_neg (of_nat (2 ^ 63))" "double_mag (of_nat (2 ^ 63)) = 0" using double_of_mag(3,4) [of 0] by simp_all
    then have zz: "v < 0" "?m = 0" using z mag d double_of_mag [OF m(1)] by (auto split: if_splits)
    have "?n * 2 ^ 1074 = 0" using e unfolding zz(2) by simp
    then show False using zz(1) by simp
  qed
qed

section \<open>Flipped bits\<close>

definition flip_bits :: "u64 \<Rightarrow> u64" where
  "flip_bits x = (if double_neg x then NOT x else x XOR push_bit 63 1)"

lemma hd_be_bytes: "hd (be_bytes x) AND 0x80 \<noteq> 0 \<longleftrightarrow> double_neg x"
proof -
  have "unat (ucast (drop_bit 56 x) :: byte) = unat x div 2 ^ 56"
    using unat_u64_less [of x] by (simp add: unsigned_ucast_eq take_bit_eq_mod drop_bit_eq_div unat_div)
  then have "hd (be_bytes x) AND 128 \<noteq> 0 \<longleftrightarrow> 128 \<le> unat x div 2 ^ 56"
    unfolding be_bytes_def list.sel top_bit by simp
  also have "\<dots> \<longleftrightarrow> double_neg x" by (simp add: double_neg_def div_le_dividend less_eq_div_iff_mult_less_eq)
  finally show ?thesis by simp
qed

lemma byte_of_xor:
  "k + 8 \<le> s \<Longrightarrow> ucast (drop_bit k (x XOR push_bit s 1)) = (ucast (drop_bit k x) :: byte)"
  "j < 8 \<Longrightarrow> k + j < 64 \<Longrightarrow> ucast (drop_bit k (x XOR push_bit (k + j) 1)) = (ucast (drop_bit k x) XOR push_bit j 1 :: byte)" for x :: u64
  by (rule bit_word_eqI; auto simp: bit_simps)+

lemma be_bytes_not: "map NOT (be_bytes x) = be_bytes (NOT x)"
  unfolding be_bytes_def list.map by (intro arg_cong2 [where f = Cons] refl; rule bit_word_eqI) (auto simp: bit_simps)

lemma be_bytes_xor: "(hd (be_bytes x) XOR 0x80) # tl (be_bytes x) = be_bytes (x XOR push_bit 63 1)"
proof -
  have t: "ucast (drop_bit k x) = (ucast (drop_bit k (x XOR push_bit 63 1)) :: byte)" if "k + 8 \<le> 63" for k
    using that by (rule byte_of_xor(1) [symmetric])
  have t0: "ucast x = (ucast (x XOR push_bit 63 1) :: byte)" using t [of 0] by simp
  have h: "ucast (drop_bit 56 x) XOR 0x80 = (ucast (drop_bit 56 (x XOR push_bit 63 1)) :: byte)" using byte_of_xor(2) [of 7 56 x] by simp
  show ?thesis unfolding be_bytes_def list.sel by (intro arg_cong2 [where f = Cons] refl h t t0) simp_all
qed

lemma flip_number_be: "flip_number (be_bytes x) = be_bytes (flip_bits x)"
  using be_bytes_not [of x] be_bytes_xor [of x] hd_be_bytes [of x] by (simp add: flip_number_def flip_bits_def)

lemma unat_flip: "unat (flip_bits x) = (if double_neg x then 2 ^ 63 - 1 - double_mag x else 2 ^ 63 + double_mag x)"
proof (cases "double_neg x")
  case True
  have "NOT x = - 1 - x" by (simp add: not_eq_complement)
  moreover have "unat (- 1 - x) = 2 ^ 64 - 1 - unat x"
    by (simp add: unat_sub unsigned_minus_1_eq_mask mask_eq_exp_minus_1)
  ultimately show ?thesis using True double_unat [of x] by (simp add: flip_bits_def)
next
  case False
  then have "unat x < 2 ^ 63" by (simp add: double_neg_def)
  moreover have "x XOR push_bit 63 1 = x + 2 ^ 63" by (rule xor_sign_add)
  ultimately have "unat (x XOR push_bit 63 1) = unat x + 2 ^ 63" by (simp add: unat_word_ariths)
  then show ?thesis using False double_unat [of x] by (simp add: flip_bits_def)
qed

text \<open>The flipped bits have the order of the values, but for the zero with a sign.\<close>

lemma flip_bits_less:
  assumes "x \<noteq> of_nat (2 ^ 63)" "y \<noteq> of_nat (2 ^ 63)"
  shows "flip_bits x < flip_bits y \<longleftrightarrow> scaled x < scaled y" "flip_bits x = flip_bits y \<longleftrightarrow> scaled x = scaled y"
proof -
  have nz: "0 < scaled_mag (double_mag z)" if "z \<noteq> of_nat (2 ^ 63)" "double_neg z" for z
  proof -
    have "double_mag z \<noteq> 0"
    proof
      assume "double_mag z = 0"
      then have "unat z = 2 ^ 63" using that(2) double_unat(1) [of z] by simp
      then have "of_nat (unat z) = (of_nat (2 ^ 63) :: u64)" by (rule arg_cong)
      then show False using that(1) by simp
    qed
    then show ?thesis using scaled_mag_mono [of 0 "double_mag z"] by simp
  qed
  note m = double_unat(2) [of x] double_unat(2) [of y]
  have ms: "scaled_mag (double_mag x) < scaled_mag (double_mag y) \<longleftrightarrow> double_mag x < double_mag y"
     "scaled_mag (double_mag y) < scaled_mag (double_mag x) \<longleftrightarrow> double_mag y < double_mag x"
    "scaled_mag (double_mag x) = scaled_mag (double_mag y) \<longleftrightarrow> double_mag x = double_mag y" by (simp_all add: scaled_mag_less scaled_mag_eq)
  show "flip_bits x < flip_bits y \<longleftrightarrow> scaled x < scaled y" "flip_bits x = flip_bits y \<longleftrightarrow> scaled x = scaled y"
    using m ms nz [OF assms(1)] nz [OF assms(2)]
    by (auto simp: word_less_nat_alt word_unat_eq_iff [of "flip_bits x"] unat_flip scaled_def)
qed

end
