(* ===== verification/SortkeyOrder.thy ===== *)
theory SortkeyOrder
  imports SortkeyNum
begin

text \<open>
  The order of sort keys: the linear order of SQL values, what a field and a record are encoded as, and that the
  keys of records are ordered as the lists of their values.
\<close>

section \<open>The order of SQL values\<close>

text \<open>What a key stands for: null, then the numbers by value, then texts and blobs by their bytes.\<close>

datatype sk_val = SkNull | SkNum int | SkText "byte list" | SkBlob "byte list"

primrec sk_class :: "sk_val \<Rightarrow> nat" where
  "sk_class SkNull = 0"
| "sk_class (SkNum n) = 1"
| "sk_class (SkText t) = 2"
| "sk_class (SkBlob b) = 3"

fun sk_less :: "sk_val \<Rightarrow> sk_val \<Rightarrow> bool" where
  "sk_less (SkNum m) (SkNum n) \<longleftrightarrow> m < n"
| "sk_less (SkText s) (SkText t) \<longleftrightarrow> s < t"
| "sk_less (SkBlob s) (SkBlob t) \<longleftrightarrow> s < t"
| "sk_less a b \<longleftrightarrow> sk_class a < sk_class b"

instantiation sk_val :: linorder
begin

definition less_sk_val :: "sk_val \<Rightarrow> sk_val \<Rightarrow> bool" where
  "less_sk_val = sk_less"

definition less_eq_sk_val :: "sk_val \<Rightarrow> sk_val \<Rightarrow> bool" where
  "less_eq_sk_val a b \<longleftrightarrow> sk_less a b \<or> a = b"

instance
proof
  fix a b c :: sk_val
  show "a < b \<longleftrightarrow> a \<le> b \<and> \<not> b \<le> a"
    by (cases a; cases b) (auto simp: less_sk_val_def less_eq_sk_val_def)
  show "a \<le> a" by (simp add: less_eq_sk_val_def)
  show "a \<le> b \<Longrightarrow> b \<le> c \<Longrightarrow> a \<le> c"
    by (cases a; cases b; cases c) (auto simp: less_eq_sk_val_def)
  show "a \<le> b \<Longrightarrow> b \<le> a \<Longrightarrow> a = b"
    by (cases a; cases b) (auto simp: less_eq_sk_val_def)
  show "a \<le> b \<or> b \<le> a"
    by (cases a; cases b) (auto simp: less_eq_sk_val_def)
qed

end

lemma sk_less_simps [simp]:
  "SkNum m < SkNum n \<longleftrightarrow> m < n" "SkText s < SkText t \<longleftrightarrow> s < t" "SkBlob s < SkBlob t \<longleftrightarrow> s < t"
  "sk_class a \<noteq> sk_class b \<Longrightarrow> a < b \<longleftrightarrow> sk_class a < sk_class b"
  by (simp_all add: less_sk_val_def) (cases a; cases b; simp)

text \<open>The text that a collation compares, and the value of a field.\<close>

definition coll_text :: "coll \<Rightarrow> byte list \<Rightarrow> byte list" where
  "coll_text c b = map (fold_case c) (take (collTextLen c b) b)"

definition sk_value :: "coll \<Rightarrow> field \<Rightarrow> sk_val" where
  "sk_value c f =
     (case field_value f of
        VNull \<Rightarrow> SkNull
      | VInt w \<Rightarrow> SkNum (sint w * double_unit)
      | VReal x \<Rightarrow> SkNum (scaled x)
      | VText b \<Rightarrow> SkText (coll_text c b)
      | VBlob b \<Rightarrow> SkBlob b)"

text \<open>The numbers whose order the keys keep: integers up to \<open>2 ^ 53\<close>, reals that are numbers and not the negative zero.\<close>

definition sk_exact :: "field \<Rightarrow> bool" where
  "sk_exact f \<longleftrightarrow>
     (case field_value f of
        VInt w \<Rightarrow> \<bar>sint w\<bar> \<le> 2 ^ 53
      | VReal x \<Rightarrow> \<not> double_nan x \<and> x \<noteq> of_nat (2 ^ 63)
      | _ \<Rightarrow> True)"

definition field_ok :: "field \<Rightarrow> bool" where
  "field_ok f \<longleftrightarrow> fst f < 2 ^ 31 \<and> length (snd f) = serial_len (fst f)"

section \<open>The bytes of a value\<close>

definition number_bytes :: "u64 \<Rightarrow> byte list" where
  "number_bytes x = SORTKEY_NUM # be_bytes (flip_bits x)"

definition escaped :: "byte list \<Rightarrow> byte list" where
  "escaped b = concat (map escape_byte b) @ [0, 0]"

lemma be_bytes_read_int: "length b = 8 \<Longrightarrow> be_bytes (read_int_loop 0 b) = b"
proof -
  assume l: "length b = 8"
  have "read_int_loop (of_int 0) b = of_int (int (be_val b))" by (subst read_int_loop_value) simp
  then have r: "read_int_loop 0 b = of_nat (be_val b)" by simp
  have "be_val b < 2 ^ 64" using be_val_less [of b] l by simp
  then have "unat (read_int_loop 0 b) = be_val b" unfolding r by (simp add: unat_of_nat take_bit_nat_eq_self)
  then have v: "be_val (be_bytes (read_int_loop 0 b)) = be_val b" by (simp add: be_val_be_bytes)
  show ?thesis
    using be_val_order [of "be_bytes (read_int_loop 0 b)" b] be_val_order [of b "be_bytes (read_int_loop 0 b)"] l v
    by (metis length_be_bytes less_irrefl linorder_neqE)
qed

text \<open>The type word of a field and its tag.\<close>

lemma u32_of_nat: "n < 2 ^ 31 \<Longrightarrow> unat (of_nat n :: u32) = n"
  by (simp add: unat_of_nat take_bit_nat_eq_self)

lemma u32_compare:
  assumes "n < 2 ^ 31" "m < 2 ^ 31"
  shows "(of_nat n :: u32) \<le> of_nat m \<longleftrightarrow> n \<le> m" "(of_nat n :: u32) = of_nat m \<longleftrightarrow> n = m"
  using u32_of_nat [OF assms(1)] u32_of_nat [OF assms(2)] by (simp_all add: word_le_nat_alt word_unat_eq_iff)

lemma u32_cases:
  assumes "n < 2 ^ 31"
  shows "(of_nat n :: u32) \<le> 6 \<longleftrightarrow> n \<le> 6" "(of_nat n :: u32) = 0 \<longleftrightarrow> n = 0" "(of_nat n :: u32) = 7 \<longleftrightarrow> n = 7"
    "(of_nat n :: u32) = 8 \<longleftrightarrow> n = 8" "(of_nat n :: u32) = 9 \<longleftrightarrow> n = 9" "(12 :: u32) \<le> of_nat n \<longleftrightarrow> 12 \<le> n"
    "(13 :: u32) \<le> of_nat n \<longleftrightarrow> 13 \<le> n" "(of_nat n :: u32) AND 1 \<noteq> 0 \<longleftrightarrow> odd n"
  using u32_compare(1) [OF assms, of 6] u32_compare(2) [OF assms, of 0] u32_compare(2) [OF assms, of 7]
    u32_compare(2) [OF assms, of 8] u32_compare(2) [OF assms, of 9] u32_compare(1) [OF _ assms, of 12] u32_compare(1) [OF _ assms, of 13]
  by (simp_all add: parity_word)

lemma serialTypeLen_of_nat: "n < 2 ^ 31 \<Longrightarrow> serialTypeLen (of_nat n) = serial_len n"
proof -
  assume n: "n < 2 ^ 31"
  have d: "unat (((of_nat n :: u32) - 12) div 2) = (n - 12) div 2" if "12 \<le> n"
  proof -
    have "(of_nat n :: u32) - 12 = of_nat (n - 12)" using that by (simp add: of_nat_diff)
    then show ?thesis using u32_of_nat [of "n - 12"] n by (simp add: unat_div)
  qed
  show ?thesis using u32_cases [OF n] u32_of_nat [OF n] d by (simp add: serialTypeLen_def serial_len_def)
qed

text \<open>What a field is encoded as.\<close>

lemma coll_text_escaped: "encodeText b c = SORTKEY_TEXT # escaped (coll_text c b)"
  by (simp add: encodeText_def escaped_def coll_text_def comp_def)

definition double_of_field :: "field \<Rightarrow> u64" where
  "double_of_field f = (case field_value f of VInt w \<Rightarrow> double_of_i64 (sint w) | VReal x \<Rightarrow> x | _ \<Rightarrow> 0)"

definition field_key :: "coll \<Rightarrow> field \<Rightarrow> byte list" where
  "field_key c f =
     (case field_value f of
        VNull \<Rightarrow> [SORTKEY_NULL]
      | VText b \<Rightarrow> SORTKEY_TEXT # escaped (coll_text c b)
      | VBlob b \<Rightarrow> SORTKEY_BLOB # escaped b
      | _ \<Rightarrow> number_bytes (double_of_field f))"

lemma encode_field_key:
  assumes "field_ok f"
  shows "encode_field (of_nat (fst f)) (snd f) c = field_key c f"
proof -
  obtain n b where f: "f = (n, b)" by (cases f)
  have n: "n < 2 ^ 31" and l: "length b = serial_len n" using assms by (simp_all add: field_ok_def f)
  note u = u32_cases [OF n]
  note tags = SORTKEY_NULL_def SORTKEY_NUM_def SORTKEY_TEXT_def SORTKEY_BLOB_def
  have num: "SORTKEY_NUM # flip_number (be_bytes x) = number_bytes x" for x by (simp add: flip_number_be number_bytes_def)
  consider "n = 0 \<or> n = 10 \<or> n = 11" | "n = 8 \<or> n = 9" | "n \<noteq> 0" "n \<le> 6" | "n = 7" | "13 \<le> n" "odd n" | "12 \<le> n" "even n"
  proof -
    have "n = 0 \<or> n = 10 \<or> n = 11 \<or> n = 8 \<or> n = 9 \<or> n \<noteq> 0 \<and> n \<le> 6 \<or> n = 7 \<or> 12 \<le> n" by arith
    moreover have "n = 12 \<or> 13 \<le> n" if "12 \<le> n" using that by arith
    ultimately show ?thesis using that by (metis even_numeral)
  qed
  then show ?thesis
  proof cases
    case 1
    then show ?thesis by (elim disjE) (simp_all add: f encode_field_def serialTypeTag_def field_key_def field_value_def tags)
  next
    case 2
    then show ?thesis using num
      by (elim disjE) (simp_all add: f encode_field_def serialTypeTag_def field_key_def field_value_def tags encodeNumeric_def sk_int_def double_of_field_def)
  next
    case 3
    then show ?thesis using u num
      by (simp add: f encode_field_def serialTypeTag_def field_key_def field_value_def encodeNumeric_def sk_int_def double_of_field_def)
  next
    case 4
    have "length b = 8" using l 4 by (simp add: serial_len_def)
    then show ?thesis using 4 num [of "read_int_loop 0 b"]
      by (simp add: f encode_field_def serialTypeTag_def field_key_def field_value_def encodeNumeric_def double_of_field_def be_bytes_read_int)
  next
    case 5
    then have "n \<noteq> 0" "\<not> n \<le> 6" "n \<noteq> 8" "n \<noteq> 9" "n \<noteq> 7" by auto
    then show ?thesis using 5 u
      by (simp add: f encode_field_def serialTypeTag_def field_key_def field_value_def coll_text_escaped) (simp add: tags)
  next
    case 6
    then have "n \<noteq> 0" "\<not> n \<le> 6" "n \<noteq> 8" "n \<noteq> 9" "n \<noteq> 7" by auto
    then show ?thesis using 6 u
      by (simp add: f encode_field_def serialTypeTag_def field_key_def field_value_def) (simp add: tags encodeVarLen_def escaped_def)
  qed
qed

section \<open>The order of keys\<close>

lemma escaped_less:
  "escaped a @ xs < escaped b @ ys \<longleftrightarrow> a < b \<or> a = b \<and> xs < ys"
proof (induction a arbitrary: b)
  case Nil
  show ?case by (cases b) (auto simp: escaped_def escape_byte_def word_greater_zero_iff)
next
  case (Cons x a)
  show ?case
  proof (cases b)
    case Nil
    then show ?thesis by (auto simp: escaped_def escape_byte_def)
  next
    case (Cons y b')
    then show ?thesis using Cons.IH [of b'] by (auto simp: escaped_def escape_byte_def word_greater_zero_iff)
  qed
qed

lemma number_bytes_less:
  assumes "x \<noteq> of_nat (2 ^ 63)" "y \<noteq> of_nat (2 ^ 63)"
  shows "number_bytes x @ xs < number_bytes y @ ys \<longleftrightarrow> scaled x < scaled y \<or> scaled x = scaled y \<and> xs < ys"
proof -
  have app: "as @ xs < bs @ ys \<longleftrightarrow> as < bs \<or> as = bs \<and> xs < ys" if "length as = length bs" for as bs :: "byte list"
    using that by (induction as bs rule: list_induct2) auto
  have inj: "be_bytes u = be_bytes v \<longleftrightarrow> u = v" for u v by (metis be_val_be_bytes word_unat_eq_iff)
  show ?thesis using flip_bits_less [OF assms] by (simp add: number_bytes_def app be_bytes_order inj)
qed

lemma double_of_field_exact:
  assumes "sk_exact f" "field_value f = VInt w \<or> field_value f = VReal x"
  shows "double_of_field f \<noteq> of_nat (2 ^ 63)" "sk_value c f = SkNum (scaled (double_of_field f))" "\<not> double_nan (double_of_field f)"
  using assms scaled_double_of_i64 by (auto simp: sk_exact_def double_of_field_def sk_value_def)

lemma field_key_cases:
  assumes "sk_exact f"
  obtains "sk_value c f = SkNull" "field_key c f = [0x05]"
  | u where "sk_value c f = SkNum (scaled u)" "field_key c f = number_bytes u" "u \<noteq> of_nat (2 ^ 63)" "\<not> double_nan u"
  | t where "sk_value c f = SkText t" "field_key c f = 0x35 # escaped t"
  | b where "sk_value c f = SkBlob b" "field_key c f = 0x45 # escaped b"
proof (cases "field_value f")
  case VNull
  then show ?thesis by (intro that(1)) (simp_all add: sk_value_def field_key_def SORTKEY_NULL_def)
next
  case (VInt w)
  then show ?thesis using double_of_field_exact [OF assms, of w 0] by (intro that(2) [of "double_of_field f"]) (simp_all add: field_key_def)
next
  case (VReal x)
  then show ?thesis using double_of_field_exact [OF assms, of 0 x] by (intro that(2) [of "double_of_field f"]) (simp_all add: field_key_def)
next
  case (VText b)
  then show ?thesis by (intro that(3) [of "coll_text c b"]) (simp_all add: sk_value_def field_key_def SORTKEY_TEXT_def)
next
  case (VBlob b)
  then show ?thesis by (intro that(4) [of b]) (simp_all add: sk_value_def field_key_def SORTKEY_BLOB_def)
qed

lemma field_key_less:
  assumes "sk_exact f" "sk_exact g"
  shows "field_key c f @ xs < field_key c g @ ys \<longleftrightarrow> sk_value c f < sk_value c g \<or> sk_value c f = sk_value c g \<and> xs < ys"
proof -
  have nb: "number_bytes u = 0x15 # be_bytes (flip_bits u)" for u by (simp add: number_bytes_def SORTKEY_NUM_def)
  note nl = number_bytes_less [unfolded nb append_Cons Cons_less_Cons, simplified]
  show ?thesis
    by (rule field_key_cases [OF assms(1), of c]; rule field_key_cases [OF assms(2), of c]) (auto simp: nb nl escaped_less)
qed

section \<open>Reading an encoded record\<close>

lemma byte_digit32:
  assumes "g < 128"
  shows "ucast (of_nat (128 + g) :: byte) AND 127 = (of_nat g :: u32)" "ucast (of_nat g :: byte) = (of_nat g :: u32)"
    "ucast (of_nat g :: byte) AND 127 = (of_nat g :: u32)"
proof -
  have "\<forall>g \<in> set [0..<128]. ucast (of_nat (128 + g) :: byte) AND 127 = (of_nat g :: u32) \<and> ucast (of_nat g :: byte) = (of_nat g :: u32)
     \<and> ucast (of_nat g :: byte) AND 127 = (of_nat g :: u32)" by code_simp
  moreover have "g \<in> set [0..<128]" using assms by simp
  ultimately show "ucast (of_nat (128 + g) :: byte) AND 127 = (of_nat g :: u32)" "ucast (of_nat g :: byte) = (of_nat g :: u32)"
    "ucast (of_nat g :: byte) AND 127 = (of_nat g :: u32)" by blast+
qed

lemma sk_varint_loop_put:
  "drop (p + i) d = map (\<lambda>g. of_nat (128 + g)) gs @ of_nat g # rest \<Longrightarrow> \<forall>g \<in> set gs. g < 128 \<Longrightarrow> g < 128 \<Longrightarrow>
     length gs < k \<Longrightarrow> sk_varint_loop d p (of_nat a) i k = Inr (i + length gs + 1, of_nat (vvalue a gs * 128 + g))"
proof (induction gs arbitrary: i a k)
  case Nil
  then obtain k' where k: "k = Suc k'" by (cases k) auto
  have l: "p + i < length d" using Nil.prems(1) by (metis append_Nil drop_eq_Nil leI list.map(1) list.simps(3))
  have b: "d ! (p + i) = of_nat g" using Nil.prems(1) Cons_nth_drop_Suc [OF l] by simp
  show ?case
    unfolding k sk_varint_loop.simps read_byte_ok [OF l] b bindR_Inr Let_def byte_digit32(3) [OF Nil.prems(3)] or_digit [OF Nil.prems(3)]
    using byte_digit(3) [OF Nil.prems(3)] by simp
next
  case (Cons h gs)
  then obtain k' where k: "k = Suc k'" by (cases k) auto
  have h: "h < 128" using Cons.prems(2) by simp
  have l: "p + i < length d" using Cons.prems(1) by (metis append_Cons drop_eq_Nil leI list.map(2) list.simps(3))
  have dr: "d ! (p + i) = of_nat (128 + h)" "drop (p + (i + 1)) d = map (\<lambda>g. of_nat (128 + g)) gs @ of_nat g # rest"
    using Cons.prems(1) Cons_nth_drop_Suc [OF l] by simp_all
  have "sk_varint_loop d p (of_nat (a * 128 + h)) (i + 1) k' = Inr (i + 1 + length gs + 1, of_nat (vvalue (a * 128 + h) gs * 128 + g))"
    by (rule Cons.IH [OF dr(2)]) (use Cons.prems k in simp_all)
  moreover have "sk_varint_loop d p (of_nat a) i k = sk_varint_loop d p (of_nat (a * 128 + h)) (i + 1) k'"
    unfolding k sk_varint_loop.simps read_byte_ok [OF l] dr(1) bindR_Inr Let_def byte_digit32(1) [OF h] or_digit [OF h]
    using byte_digit(1) [OF h] by simp
  ultimately show ?case by simp
qed

lemma skGetVarint32_put:
  assumes d: "drop p d = put_varint n @ rest" and n: "n < 2 ^ 56"
  shows "skGetVarint32 d p = Inr (length (put_varint n), of_nat n)"
proof -
  have l: "p < length d" using d by (metis append_is_Nil_conv drop_eq_Nil leI length_greater_0_conv length_put_varint_pos)
  show ?thesis
  proof (cases "vdigits (n div 128)")
    case Nil
    then have "n = n mod 128" using vvalue_vdigits [of "n div 128"] by simp
    then have m: "n < 128" by (metis mod_less_divisor zero_less_numeral)
    have "d ! p = of_nat n" using d Cons_nth_drop_Suc [OF l] Nil m by (simp add: put_varint_def)
    then show ?thesis using l byte_digit(3) [OF m] byte_digit32(2) [OF m] Nil m by (simp add: skGetVarint32_def put_varint_def)
  next
    case (Cons h gs)
    have dig: "h < 128" "\<forall>g \<in> set gs. g < 128" using vdigits_less [of "n div 128"] Cons by simp_all
    have nv: "vvalue h gs * 128 + n mod 128 = n" using vvalue_vdigits [of "n div 128"] Cons by simp
    have "n div 128 < 128 ^ 7" using n by (simp add: less_mult_imp_div_less)
    then have len: "length gs < 8" using length_vdigits [of "n div 128" 7] Cons by simp
    have b: "d ! p = of_nat (128 + h)" "drop (p + 1) d = map (\<lambda>g. of_nat (128 + g)) gs @ of_nat (n mod 128) # rest"
      using d Cons Cons_nth_drop_Suc [OF l] by (simp_all add: put_varint_def)
    have "sk_varint_loop d p (of_nat h) 1 8 = Inr (1 + length gs + 1, of_nat (vvalue h gs * 128 + n mod 128))"
      by (rule sk_varint_loop_put [OF b(2) dig(2)]) (use len in simp_all)
    then show ?thesis
      using l b(1) byte_digit(1) [OF dig(1)] byte_digit32(1) [OF dig(1)] nv Cons by (simp add: skGetVarint32_def put_varint_def)
  qed
qed

primrec keys_from :: "key_info option \<Rightarrow> nat \<Rightarrow> field list \<Rightarrow> byte list" where
  "keys_from ki i [] = []"
| "keys_from ki i (f # fs) = field_key (collFromKeyInfo ki i) f @ keys_from ki (Suc i) fs"

primrec sk_values :: "key_info option \<Rightarrow> nat \<Rightarrow> field list \<Rightarrow> sk_val list" where
  "sk_values ki i [] = []"
| "sk_values ki i (f # fs) = sk_value (collFromKeyInfo ki i) f # sk_values ki (Suc i) fs"

definition key_fields :: "int \<Rightarrow> nat \<Rightarrow> field list \<Rightarrow> field list" where
  "key_fields n i fs = (if n > 0 then take (nat n - i) fs else fs)"

lemma length_types_Cons: "length (types_bytes (f # fs)) = length (put_varint (fst f)) + length (types_bytes fs)"
  by (simp add: types_bytes_def)

lemma sk_fields_encoded:
  "drop ho d = types_bytes fs @ rest \<Longrightarrow> ho + length (types_bytes fs) = hs \<Longrightarrow> drop doff d = concat (map snd fs) \<Longrightarrow>
     doff \<le> length d \<Longrightarrow> list_all field_ok fs \<Longrightarrow> outPos = length out \<Longrightarrow> outPos + length (keys_from ki i (key_fields n i fs)) \<le> m \<Longrightarrow>
     sk_fields d (Some m) n ki hs ho doff i outPos out =
       Inr (int (outPos + length (keys_from ki i (key_fields n i fs))), out @ keys_from ki i (key_fields n i fs))"
proof (induction fs arbitrary: ho doff i outPos out)
  case Nil
  then show ?case by (subst sk_fields.simps) (simp add: types_bytes_def key_fields_def)
next
  case (Cons f fs)
  let ?v = "put_varint (fst f)"
  have f: "field_ok f" "list_all field_ok fs" "fst f < 2 ^ 31" "length (snd f) = serial_len (fst f)"
    using Cons.prems(5) by (simp_all add: field_ok_def list_all_iff)
  have lt: "ho < hs" using Cons.prems(2) length_put_varint_pos [of "fst f"] length_types_Cons [of f fs] by linarith
  have dr: "drop ho d = ?v @ types_bytes fs @ rest" using Cons.prems(1) by (simp add: types_bytes_def)
  have v: "skGetVarint32 d ho = Inr (length ?v, of_nat (fst f))" using skGetVarint32_put [OF dr] f(3) by simp
  note l = serialTypeLen_of_nat [OF f(3)]
  show ?case
  proof (cases "n > 0 \<and> int i \<ge> n")
    case True
    then have "key_fields n i (f # fs) = []" by (simp add: key_fields_def nat_le_iff)
    then show ?thesis using True lt by (subst sk_fields.simps) simp
  next
    case False
    then have k: "key_fields n i (f # fs) = f # key_fields n (Suc i) fs"
      by (auto simp: key_fields_def take_Cons split: nat.splits) (metis Suc_diff_Suc diff_Suc_1 nat_less_iff not_le zero_less_diff zless_nat_eq_int_zless)
    let ?e = "field_key (collFromKeyInfo ki i) f"
    have len: "length (concat (map snd (f # fs))) = length d - doff" using arg_cong [OF Cons.prems(3), of length] by simp
    have fit: "\<not> doff + serialTypeLen (of_nat (fst f)) > length d"
    proof (cases "snd f = []")
      case True
      then have "serial_len (fst f) = 0" using f(4) by simp
      moreover have "doff \<le> length d" by (rule Cons.prems(4))
      ultimately show ?thesis using l by simp
    next
      case False
      then show ?thesis using len f(4) l by (cases "doff \<le> length d") auto
    qed
    have fld: "take (serialTypeLen (of_nat (fst f))) (drop doff d) = snd f" using Cons.prems(3) f(4) l by simp
    have enc: "encode_field (of_nat (fst f)) (snd f) c = field_key c f" for c by (rule encode_field_key [OF f(1)])
    have c: "\<not> (n > 0 \<and> int i \<ge> n)" using False by simp
    have cap: "\<not> outPos + length ?e > m" using Cons.prems(7) k by simp
    have step: "sk_fields d (Some m) n ki hs ho doff i outPos out =
        sk_fields d (Some m) n ki hs (ho + length ?v) (doff + serialTypeLen (of_nat (fst f))) (i + 1) (outPos + length ?e) (out @ ?e)"
      unfolding sk_fields.simps [of d "Some m" n ki hs ho doff i outPos out] if_P [OF lt] if_not_P [OF c] v sum.case prod.case Let_def
        if_not_P [OF fit] option.case fld enc if_not_P [OF cap] ..
    have "drop (ho + length ?v) d = types_bytes fs @ rest" using dr by (metis add.commute append_eq_conv_conj drop_drop)
    moreover have "drop (doff + serial_len (fst f)) d = concat (map snd fs)"
    proof -
      have "drop (serial_len (fst f)) (drop doff d) = concat (map snd fs)" unfolding Cons.prems(3) f(4) [symmetric] by simp
      then show ?thesis by (simp add: add.commute)
    qed
    ultimately show ?thesis
      unfolding step k l using Cons.IH [of "ho + length ?v" "doff + serial_len (fst f)" "outPos + length ?e" "out @ ?e" "Suc i"] Cons.prems(2,6,7) f(2,4) fit l k
      by (simp add: types_bytes_def)
  qed
qed

lemma length_escaped: "length (escaped b) = length b + length (filter (\<lambda>x. x = 0) b) + 2"
  by (induction b) (auto simp: escaped_def escape_byte_def)

lemma strip_blanks_le: "strip_blanks d n \<le> n"
  by (induction n) auto

lemma length_coll_text: "length (coll_text c b) \<le> length b"
  using strip_blanks_le [of b "length b"] by (simp add: coll_text_def collTextLen_def)

lemma length_field_key: "length (field_key c f) \<le> 9 + 2 * length (snd f)"
proof -
  have e: "length (escaped b) \<le> 2 * length b + 2" for b using length_filter_le [of "\<lambda>x. x = 0" b] by (simp add: length_escaped)
  have t: "length (escaped (coll_text c b)) \<le> 2 * length b + 2" for b
    using e [of "coll_text c b"] length_coll_text [of c b] by linarith
  have n: "length (number_bytes x) = 9" for x by (simp add: number_bytes_def)
  have v: "field_value f = VText b \<or> field_value f = VBlob b \<Longrightarrow> b = snd f" for b
    by (auto simp: field_value_def Let_def split: if_splits)
  show ?thesis using e [of "snd f"] t [of "snd f"] v n by (auto simp: field_key_def split: sqlval.splits)
qed

lemma length_keys_from: "length (keys_from ki i fs) \<le> 9 * length (types_bytes fs) + 2 * length (concat (map snd fs))"
proof (induction fs arbitrary: i)
  case (Cons f fs)
  obtain n where n: "length (put_varint (fst f)) = Suc n" using length_put_varint_pos [of "fst f"] gr0_conv_Suc by blast
  have lin: "b \<le> 9 * t' + 2 * d \<Longrightarrow> a \<le> 9 + 2 * s \<Longrightarrow> p = Suc n \<Longrightarrow> t = p + t' \<Longrightarrow> a + b \<le> 9 * t + 2 * (s + d)" for a b d p s t t' :: nat
    by simp
  show ?case
    unfolding keys_from.simps list.map concat.simps length_append
    by (rule lin [OF Cons.IH length_field_key n length_types_Cons])
qed (simp add: types_bytes_def)

lemma keys_from_prefix: "length (keys_from ki i (key_fields n i fs)) \<le> length (keys_from ki i fs)"
proof -
  have "length (keys_from ki i (take m fs)) \<le> length (keys_from ki i fs)" for m
    by (induction fs arbitrary: m i) (auto simp: take_Cons split: nat.splits)
  then show ?thesis by (simp add: key_fields_def)
qed

lemma record_form_fields: "record_form hs fs \<Longrightarrow> list_all field_ok fs"
  by (auto simp: record_form_def field_ok_def list_all_iff)

text \<open>The key of a record in the storage format; the estimate is enough as long as it does not wrap.\<close>

lemma sort_key_encoded:
  assumes "record_form hs fs" "9 * length (encode_record hs fs) + 16 < 2 ^ 31"
  shows "sortKeyFromRecordPrefixColl (encode_record hs fs) n ki = Inr (keys_from ki 0 (key_fields n 0 fs))"
proof -
  let ?d = "encode_record hs fs" and ?v = "put_varint hs"
  have hs: "hs = length ?v + length (types_bytes fs)" "hs < 2 ^ 31" using assms(1) by (simp_all add: record_form_def)
  have len: "length ?d = hs + length (concat (map snd fs))" using hs(1) by (simp add: encode_record_def)
  have d0: "drop 0 ?d = ?v @ types_bytes fs @ concat (map snd fs)" by (simp add: encode_record_def)
  have v: "skGetVarint32 ?d 0 = Inr (length ?v, of_nat hs)" by (rule skGetVarint32_put [OF d0]) (use hs(2) in simp)
  have ne: "?d \<noteq> []" using length_put_varint_pos [of hs] by (auto simp: encode_record_def)
  have e: "key_estimate (length ?d) = (if 9 * length ?d + 16 < 64 then 64 else int (9 * length ?d + 16))"
    using assms(2) by (simp add: key_estimate_def signed_of_nat signed_take_bit_int_eq_self Let_def del: of_nat_add of_nat_mult)
  let ?m = "nat (key_estimate (length ?d))"
  have m: "9 * length ?d + 16 \<le> ?m" "0 < key_estimate (length ?d)" unfolding e by auto
  have "length (keys_from ki 0 (key_fields n 0 fs)) \<le> 9 * length ?d"
    using keys_from_prefix [of ki 0 n fs] length_keys_from [of ki 0 fs] len hs(1) by linarith
  then have fit: "0 + length (keys_from ki 0 (key_fields n 0 fs)) \<le> ?m" using m(1) by linarith
  have "sk_fields ?d (Some ?m) n ki hs (length ?v) hs 0 0 [] =
      Inr (int (0 + length (keys_from ki 0 (key_fields n 0 fs))), [] @ keys_from ki 0 (key_fields n 0 fs))"
    by (rule sk_fields_encoded [where rest = "concat (map snd fs)"])
      (use hs(1) fit len record_form_fields [OF assms(1)] in \<open>simp_all add: encode_record_def\<close>)
  then have "sortKeyEncode ?d (Some ?m) n ki =
      Inr (int (length (keys_from ki 0 (key_fields n 0 fs))), keys_from ki 0 (key_fields n 0 fs))"
    using ne v len u32_of_nat [OF hs(2)] by (simp add: sortKeyEncode_def)
  then show ?thesis
    using m(2) by (simp add: sortKeyFromRecordPrefixColl_def sortKeyFromRecordPrefixCollBuffer_def Let_def)
qed

section \<open>The order of records\<close>

lemma keys_from_less:
  "\<forall>f \<in> set fs \<union> set gs. sk_exact f \<Longrightarrow>
     (keys_from ki i fs < keys_from ki i gs \<longleftrightarrow> sk_values ki i fs < sk_values ki i gs)"
proof (induction fs arbitrary: gs i)
  case Nil
  have ne: "field_key c f \<noteq> []" for c f by (simp add: field_key_def number_bytes_def split: sqlval.splits)
  show ?case
  proof (cases gs)
    case (Cons g gs')
    obtain y ys where "field_key (collFromKeyInfo ki i) g = y # ys" using ne [of "collFromKeyInfo ki i" g] by (auto simp: neq_Nil_conv)
    then show ?thesis using Cons by simp
  qed simp
next
  case (Cons f fs)
  show ?case
  proof (cases gs)
    case (Cons g gs')
    then show ?thesis
      using field_key_less [of f g "collFromKeyInfo ki i" "keys_from ki (Suc i) fs" "keys_from ki (Suc i) gs'"] Cons.prems Cons.IH [of gs' "Suc i"]
      by simp
  qed simp
qed

lemma keys_from_eq:
  "\<forall>f \<in> set fs \<union> set gs. sk_exact f \<Longrightarrow> keys_from ki i fs = keys_from ki i gs \<longleftrightarrow> sk_values ki i fs = sk_values ki i gs"
  using keys_from_less [of fs gs ki i] keys_from_less [of gs fs ki i] by (metis Un_commute less_irrefl linorder_neqE)

lemma compareSortKeys_key_cmp: "compareSortKeys a b = key_cmp a b"
  by (simp add: compareSortKeys_def key_cmp_def Let_def)

end
