(* ===== verification/SortkeyDecode.thy ===== *)
theory SortkeyDecode
  imports SortkeyOrder
begin

text \<open>
  Decoding a sort key: varints as they are written, numbers, strings without their escapes, and the record that is
  put together, on the path for two numbers and in general.
\<close>

section \<open>Varints as they are written\<close>

lemma byte_or_digit:
  assumes "g < 128"
  shows "of_nat g OR 0x80 = (of_nat (128 + g) :: byte)" "(of_nat g AND 0x7f) OR 0x80 = (of_nat (128 + g) :: byte)"
    "(of_nat g OR 0x80) AND 0x7f = (of_nat g :: byte)"
proof -
  have "\<forall>g \<in> set [0..<128]. of_nat g OR 0x80 = (of_nat (128 + g) :: byte) \<and> (of_nat g AND 0x7f) OR 0x80 = (of_nat (128 + g) :: byte) \<and>
      (of_nat g OR 0x80) AND 0x7f = (of_nat g :: byte)" by code_simp
  moreover have "g \<in> set [0..<128]" using assms by simp
  ultimately show "of_nat g OR 0x80 = (of_nat (128 + g) :: byte)" "(of_nat g AND 0x7f) OR 0x80 = (of_nat (128 + g) :: byte)"
    "(of_nat g OR 0x80) AND 0x7f = (of_nat g :: byte)" by blast+
qed

lemma byte_low: "of_nat n AND 0x7f = (of_nat (n mod 128) :: byte)"
proof -
  have "of_nat n AND 0x7f = take_bit 7 (of_nat n :: byte)" by (simp add: take_bit_eq_mask mask_eq_exp_minus_1)
  also have "\<dots> = of_nat (take_bit 7 n)" by (simp add: take_bit_of_nat)
  finally show ?thesis by (simp add: take_bit_eq_mod)
qed

lemma varint_buf_digits: "0 < n \<Longrightarrow> rev (varint_buf n) = map (\<lambda>g. of_nat (128 + g)) (vdigits n)"
proof (induction n rule: varint_buf.induct)
  case (1 n)
  have g: "n mod 128 < 128" by simp
  show ?case
  proof (cases "n div 128 = 0")
    case True
    then have "vdigits (n div 128) = []" by (simp add: vdigits.simps)
    then show ?thesis using 1(2) True byte_or_digit(1) [OF g]
      by (subst varint_buf.simps, subst vdigits.simps) simp
  next
    case False
    then have "rev (varint_buf (n div 128)) = map (\<lambda>g. of_nat (128 + g)) (vdigits (n div 128))" using 1(1) by simp
    then show ?thesis using 1(2) False byte_or_digit(1) [OF g]
      by (subst varint_buf.simps, subst vdigits.simps) simp
  qed
qed

lemma putVarint32_eq:
  assumes "n < 2 ^ 56"
  shows "putVarint32 n = put_varint n"
proof -
  have g: "n mod 128 < 128" by simp
  consider "n < 128" | "128 \<le> n" "n \<le> 16383" | "16383 < n" by linarith
  then show ?thesis
  proof cases
    case 1
    then have "vdigits (n div 128) = []" by (simp add: vdigits.simps)
    then show ?thesis using 1 by (simp add: putVarint32_def put_varint_def)
  next
    case 2
    have h: "n div 128 < 128" "n div 128 \<noteq> 0" using 2 by simp_all
    have "vdigits (n div 128) = [n div 128]"
      using h by (subst vdigits.simps) (simp add: vdigits.simps [of 0])
    then show ?thesis using 2 byte_or_digit(2) [OF h(1)] byte_low [of n]
      by (simp add: putVarint32_def sqlite3PutVarint_def put_varint_def)
  next
    case 3
    have nz: "0 < n div 128" "n div 2 ^ 56 = 0" using 3 assms by simp_all
    have b: "varint_buf n = (of_nat (n mod 128) OR 0x80) # varint_buf (n div 128)" using nz(1) by (subst varint_buf.simps) simp
    have "putVarint64 n = rev (varint_buf (n div 128)) @ [of_nat (n mod 128)]"
      using nz(2) byte_or_digit(3) [OF g] by (simp add: putVarint64_def b)
    then show ?thesis using 3 varint_buf_digits [OF nz(1)]
      by (simp add: putVarint32_def sqlite3PutVarint_def put_varint_def)
  qed
qed

lemma sqlite3VarintLen_eq: "sqlite3VarintLen n = length (put_varint n)"
proof (induction n rule: sqlite3VarintLen.induct)
  case (1 n)
  show ?case
  proof (cases "n div 128 = 0")
    case True
    then show ?thesis by (subst sqlite3VarintLen.simps) (simp add: put_varint_def vdigits.simps)
  next
    case False
    then show ?thesis using 1 by (subst sqlite3VarintLen.simps) (simp add: put_varint_def vdigits.simps [of "n div 128"])
  qed
qed

section \<open>Numbers as they are decoded\<close>

lemma double_of_nat_unit:
  assumes "n \<le> 2 ^ 63"
  shows "2 ^ 1074 dvd scaled_mag (double_of_nat n)" "double_of_nat n < 2 ^ 63"
proof -
  have "2 ^ 1074 dvd scaled_mag (double_of_nat n) \<and> double_of_nat n < 2 ^ 63"
  proof (cases "n \<le> 2 ^ 53")
    case True
    then show ?thesis using double_of_nat_exact [OF True] double_of_nat_small [OF True] by simp
  next
    case False
    let ?k = "floorlog 2 n"
    let ?s = "?k - 53"
    let ?q = "n div 2 ^ ?s"
    have n0: "0 < n" using False by simp
    have b: "2 ^ (?k - 1) \<le> n" "n < 2 ^ ?k" using floorlog2_bounds [OF n0] by simp_all
    have "(2 :: nat) ^ 53 < 2 ^ ?k" using b(2) False by linarith
    then have k: "53 < ?k" by (rule power_less_imp_less_exp [rotated]) simp
    have "n < 2 ^ 64" using assms by (rule le_less_trans) simp
    then have k64: "?k \<le> 64" by (rule floorlog2_le)
    have pw: "(2 :: nat) ^ j = 2 ^ a * 2 ^ (j - a)" if "a \<le> j" for a j using that by (simp add: power_add [symmetric])
    have s: "?k - 1 - 52 = ?s" by simp
    have lo: "(2 :: nat) ^ (?k - 1) = 2 ^ 52 * 2 ^ ?s" using pw [of 52 "?k - 1"] k unfolding s by linarith
    have hi: "(2 :: nat) ^ ?k = 2 ^ 53 * 2 ^ ?s" using pw [of 53 ?k] k by linarith
    have q: "2 ^ 52 \<le> ?q" "?q < 2 ^ 53"
      using b lo hi by (simp_all add: less_eq_div_iff_mult_less_eq less_mult_imp_div_less)
    obtain r where r: "double_of_nat n = (?k + 1021) * 2 ^ 52 + r" "2 ^ 52 \<le> r" "r \<le> 2 ^ 53"
    proof -
      have "double_of_nat n = (?k + 1021) * 2 ^ 52 + ?q \<or> double_of_nat n = (?k + 1021) * 2 ^ 52 + (?q + 1)"
        using n0 k by (simp add: double_of_nat_def Let_def)
      then show ?thesis using that [of ?q] that [of "?q + 1"] q by linarith
    qed
    have v: "scaled_mag (double_of_nat n) = r * 2 ^ (?k + 1021)"
    proof (cases "r = 2 ^ 53")
      case True
      have "double_of_nat n = (?k + 1022) * 2 ^ 52 + 2 ^ 52" unfolding r(1) True by simp
      then have "scaled_mag (double_of_nat n) = 2 ^ 52 * 2 ^ (?k + 1022)" using scaled_mag_parts' [of "2 ^ 52" "?k + 1022"] by simp
      also have "\<dots> = 2 ^ 53 * 2 ^ (?k + 1021)" by (simp only: power_add [symmetric]) simp
      finally show ?thesis unfolding True .
    next
      case False
      then show ?thesis unfolding r(1) by (intro scaled_mag_parts') (use r in simp_all)
    qed
    have "(2 :: nat) ^ 1074 dvd 2 ^ (?k + 1021)" using k by (intro le_imp_power_dvd) simp
    then have "2 ^ 1074 dvd scaled_mag (double_of_nat n)" unfolding v by (rule dvd_mult)
    moreover have "double_of_nat n < 2 ^ 63"
    proof -
      have "(?k + 1021) * 2 ^ 52 \<le> 1085 * 2 ^ 52" using k64 by simp
      then show ?thesis unfolding r(1) using r(3) by simp
    qed
    ultimately show ?thesis by (rule conjI)
  qed
  then show "2 ^ 1074 dvd scaled_mag (double_of_nat n)" "double_of_nat n < 2 ^ 63" by simp_all
qed

lemma double_of_i64_unit:
  assumes "\<bar>v\<bar> \<le> 2 ^ 63"
  shows "double_unit dvd scaled (double_of_i64 v)"
proof -
  let ?n = "nat \<bar>v\<bar>"
  let ?m = "double_of_nat ?n"
  have n: "?n \<le> 2 ^ 63" using assms by (simp add: nat_le_iff)
  note m = double_of_nat_unit [OF n]
  have d: "double_of_i64 v = (if v < 0 then of_nat (2 ^ 63 + ?m) else of_nat ?m)"
    by (simp add: double_of_i64_def del: of_nat_add)
  have "double_unit dvd int (scaled_mag ?m)" using m(1) unfolding double_unit_def by (metis of_nat_dvd_iff of_nat_numeral of_nat_power)
  then show ?thesis unfolding d scaled_def using double_of_mag [OF m(2)] by auto
qed

lemma double_unit_pos: "0 < double_unit"
  by (simp add: double_unit_def)

lemma double_trunc_exact: "double_unit dvd scaled x \<Longrightarrow> double_trunc x * double_unit = scaled x"
  by (auto simp: double_trunc_def scaled_def split: if_splits)

lemma double_trunc_bounds:
  assumes "- c * double_unit \<le> scaled x" "scaled x \<le> c * double_unit"
  shows "- c \<le> double_trunc x" "double_trunc x \<le> c"
proof -
  let ?a = "int (scaled_mag (double_mag x))"
  have "?a \<le> c * double_unit" using assms by (auto simp: scaled_def split: if_splits)
  then have "?a div double_unit \<le> c * double_unit div double_unit" using double_unit_pos by (intro zdiv_mono1) simp_all
  then have "?a div double_unit \<le> c" using double_unit_pos by simp
  moreover have "0 \<le> ?a div double_unit" using double_unit_pos by (simp add: pos_imp_zdiv_nonneg_iff)
  ultimately show "- c \<le> double_trunc x" "double_trunc x \<le> c" by (auto simp: double_trunc_def)
qed

text \<open>The integer that is chosen has the value of the double, whatever \<open>ub\<close> is.\<close>

lemma decoded_integer:
  assumes "double_eq (double_of_i64 (i64_of_double ub x)) x"
    "scaled x \<ge> - 9220000000000000000 * double_unit" "scaled x \<le> 9220000000000000000 * double_unit"
  shows "i64_of_double ub x * double_unit = scaled x" "- (2 ^ 63) \<le> i64_of_double ub x" "i64_of_double ub x < 2 ^ 63"
proof -
  have n: "\<not> double_nan x" and e: "scaled (double_of_i64 (i64_of_double ub x)) = scaled x" using assms(1) by (simp_all add: double_eq_def)
  have t: "- 9220000000000000000 \<le> double_trunc x" "double_trunc x \<le> 9220000000000000000"
    using double_trunc_bounds [of 9220000000000000000 x] assms(2,3) by simp_all
  then have i: "i64_of_double ub x = double_trunc x" using n by (simp add: i64_of_double_def)
  have "double_unit dvd scaled x" unfolding e [symmetric] i by (rule double_of_i64_unit) (use t in simp)
  then show "i64_of_double ub x * double_unit = scaled x" unfolding i by (rule double_trunc_exact)
  show "- (2 ^ 63) \<le> i64_of_double ub x" "i64_of_double ub x < 2 ^ 63" unfolding i using t by simp_all
qed

lemma writeIntBE_val: "be_val (writeIntBE v n p) = nat (v mod 256 ^ n) * 256 ^ length p + be_val p" "length (writeIntBE v n p) = n + length p"
proof (induction n arbitrary: v p)
  case (Suc n)
  {
    case 1
    have b: "unat (of_int (v mod 256) :: byte) = nat (v mod 256)"
    proof -
      have "uint (of_int (v mod 256) :: byte) = v mod 256" by (simp add: uint_word_of_int)
      then show ?thesis by (simp add: unat_eq_nat_uint)
    qed
    have m: "v mod 256 ^ Suc n = 256 * (v div 256 mod 256 ^ n) + v mod 256" using zmod_zmult2_eq [of "256 ^ n" v 256] by simp
    have "nat (v mod 256 ^ Suc n) = nat (v div 256 mod 256 ^ n) * 256 + nat (v mod 256)"
      unfolding m by (simp add: nat_add_distrib nat_mult_distrib)
    then show ?case using Suc(1) [of "v div 256" "of_int (v mod 256) # p"] b by (simp add: algebra_simps)
  next
    case 2
    show ?case using Suc(2) by simp
  }
qed (simp_all)

lemma recReadInt_write:
  assumes "0 < n" "n \<le> 8" "- (128 * 256 ^ (n - 1)) \<le> v" "v < 128 * 256 ^ (n - 1)"
  shows "recReadInt (writeIntBE v n []) = of_int v"
proof -
  let ?b = "writeIntBE v n []"
  have l: "length ?b = n" using writeIntBE_val(2) by simp
  have ne: "?b \<noteq> []" using l assms(1) by (metis less_irrefl list.size(3))
  obtain k where k: "n = Suc k" using assms(1) gr0_conv_Suc by blast
  let ?M = "256 ^ k :: int"
  have M: "0 < ?M" "(256 :: int) ^ n = 256 * ?M" by (simp_all add: k)
  have bv: "be_val ?b = nat (v mod 256 ^ n)" using writeIntBE_val(1) [of v n "[]"] by simp
  have vb: "- (128 * ?M) \<le> v" "v < 128 * ?M" using assms(3,4) k by simp_all
  have "sint (recReadInt ?b) = v"
  proof (cases "0 \<le> v")
    case True
    then have m: "v mod 256 ^ n = v" using vb M by simp
    have "int (be_val ?b) < 128 * ?M" unfolding bv m using True vb by simp
    then have "\<not> 128 * 256 ^ k \<le> be_val ?b" by (metis (mono_tags, lifting) not_le of_nat_le_iff of_nat_mult of_nat_numeral of_nat_power)
    then show ?thesis using recReadInt_signed [OF ne] assms(2) l k True unfolding bv m by simp
  next
    case False
    have "v mod 256 ^ n = (v + 256 ^ n) mod 256 ^ n" by simp
    also have "\<dots> = v + 256 ^ n" by (rule mod_pos_pos_trivial) (use vb M False in linarith)+
    finally have m: "v mod 256 ^ n = v + 256 ^ n" .
    have "128 * ?M \<le> int (be_val ?b)" unfolding bv m using False vb M by simp
    then have "128 * 256 ^ k \<le> be_val ?b" by (metis (mono_tags, lifting) of_nat_le_iff of_nat_mult of_nat_numeral of_nat_power)
    moreover have "int (be_val ?b) = v + 256 ^ n" unfolding bv m using vb M by simp
    ultimately show ?thesis using recReadInt_signed [OF ne] assms(2) l k by simp
  qed
  then have "of_int (sint (recReadInt ?b)) = (of_int v :: u64)" by simp
  then show ?thesis by simp
qed

text \<open>The field that stands for an integer.\<close>

lemma intSerialType_field:
  assumes "- (2 ^ 63) \<le> v" "v < 2 ^ 63" "intSerialType v = (st, len)"
  shows "field_ok (unat st, writeIntBE v len [])" "field_value (unat st, writeIntBE v len []) = VInt (of_int v)"
    "st \<le> 6 \<or> st = 8 \<or> st = 9" "len = 0 \<longleftrightarrow> st = 8 \<or> st = 9"
proof -
  have w: "length (writeIntBE v len []) = len" using writeIntBE_val(2) by simp
  have r: "recReadInt (writeIntBE v n []) = of_int v" if "0 < n" "n \<le> 8" "- (128 * 256 ^ (n - 1)) \<le> v" "v < 128 * 256 ^ (n - 1)" for n
    using recReadInt_write that .
  have "(v = 0 \<and> st = 8 \<and> len = 0) \<or> (v = 1 \<and> st = 9 \<and> len = 0) \<or> (-128 \<le> v \<and> v < 128 \<and> st = 1 \<and> len = 1) \<or>
      (-32768 \<le> v \<and> v < 32768 \<and> st = 2 \<and> len = 2) \<or> (-8388608 \<le> v \<and> v < 8388608 \<and> st = 3 \<and> len = 3) \<or>
      (-2147483648 \<le> v \<and> v < 2147483648 \<and> st = 4 \<and> len = 4) \<or>
      (-140737488355328 \<le> v \<and> v < 140737488355328 \<and> st = 5 \<and> len = 6) \<or> (st = 6 \<and> len = 8)"
    using assms(3) by (auto simp: intSerialType_def split: if_splits)
  then show "field_ok (unat st, writeIntBE v len [])" "field_value (unat st, writeIntBE v len []) = VInt (of_int v)"
    "st \<le> 6 \<or> st = 8 \<or> st = 9" "len = 0 \<longleftrightarrow> st = 8 \<or> st = 9"
    using w assms(1,2) r [of 1] r [of 2] r [of 3] r [of 4] r [of 6] r [of 8]
    by (auto simp: field_ok_def serial_len_def int_sizes_def field_value_def)
qed

lemma unflip_number_flip: "unflip_number (be_bytes (flip_bits x)) = be_bytes x"
proof -
  have inj: "be_bytes u = be_bytes v \<longleftrightarrow> u = v" for u v by (metis be_val_be_bytes word_unat_eq_iff)
  have n: "map NOT (be_bytes y) = be_bytes (NOT y)" "(hd (be_bytes y) XOR 0x80) # tl (be_bytes y) = be_bytes (y XOR push_bit 63 1)" for y
    using be_bytes_not be_bytes_xor by simp_all
  have s: "double_neg (flip_bits x) \<longleftrightarrow> \<not> double_neg x"
    using double_unat(2) [of x] by (simp add: double_neg_def [of "flip_bits x"] unat_flip not_le less_imp_diff_less)
  show ?thesis
    using s n [of "flip_bits x"] hd_be_bytes [of "flip_bits x"] by (auto simp: unflip_number_def flip_bits_def xor.assoc)
qed

lemma read_be_bytes: "read_int_loop 0 (be_bytes x) = x"
proof -
  have "read_int_loop (of_int 0) (be_bytes x) = of_int (int (be_val (be_bytes x)))" by (subst read_int_loop_value) simp
  then show ?thesis by (simp add: be_val_be_bytes)
qed

definition dec_field :: "byte list \<Rightarrow> sk_field \<Rightarrow> field" where
  "dec_field k s = (unat (skType s), sk_body k s)"

text \<open>A decoded field has the value that its key stands for.\<close>

definition decodes :: "byte list \<Rightarrow> sk_val \<Rightarrow> sk_field \<Rightarrow> bool" where
  "decodes k v s \<longleftrightarrow> field_ok (dec_field k s) \<and> length (sk_body k s) = skLen s \<and> sk_value SORTKEY_COLL_BINARY (dec_field k s) = v"

lemma decodes_number:
  assumes "\<not> double_nan x"
  shows "decodes k (SkNum (scaled x)) (decodeNumericSortKeyToRecord ub (be_bytes (flip_bits x)))"
    "unat (skType (decodeNumericSortKeyToRecord ub (be_bytes (flip_bits x)))) < 10"
    "length (skBuf (decodeNumericSortKeyToRecord ub (be_bytes (flip_bits x)))) = skLen (decodeNumericSortKeyToRecord ub (be_bytes (flip_bits x)))"
    "sk_body k (decodeNumericSortKeyToRecord ub (be_bytes (flip_bits x))) = skBuf (decodeNumericSortKeyToRecord ub (be_bytes (flip_bits x)))"
proof -
  let ?s = "decodeNumericSortKeyToRecord ub (be_bytes (flip_bits x))" and ?i = "i64_of_double ub x"
  let ?P = "decodes k (SkNum (scaled x)) ?s \<and> unat (skType ?s) < 10 \<and> length (skBuf ?s) = skLen ?s \<and> sk_body k ?s = skBuf ?s"
  let ?c = "double_eq (double_of_i64 ?i) x \<and> scaled x \<ge> - 9220000000000000000 * double_unit \<and> scaled x \<le> 9220000000000000000 * double_unit"
  have ?P
  proof (cases ?c)
    case True
    note i = decoded_integer [OF conjunct1 [OF True] conjunct1 [OF conjunct2 [OF True]] conjunct2 [OF conjunct2 [OF True]]]
    obtain st len where it: "intSerialType ?i = (st, len)" by (cases "intSerialType ?i")
    note f = intSerialType_field [OF i(2,3) it]
    have s: "?s = \<lparr>skType = st, skLen = len, skBuf = writeIntBE ?i len [], skPtr = 0\<rparr>"
      unfolding decodeNumericSortKeyToRecord_def unflip_number_flip read_be_bytes Let_def if_P [OF True] it by simp
    have l: "length (writeIntBE ?i len []) = len" using writeIntBE_val(2) by simp
    have b: "sk_body k ?s = writeIntBE ?i len []" using f(3,4) l unfolding s by (auto simp: sk_body_def)
    have "sint (of_int ?i :: u64) = ?i" using i(2,3) by (simp add: signed_of_int signed_take_bit_int_eq_self)
    then have "sk_value SORTKEY_COLL_BINARY (dec_field k ?s) = SkNum (scaled x)"
      using f(2) i(1) b unfolding sk_value_def dec_field_def s by simp
    moreover have "unat st < 10" using f(3) by (auto simp: word_le_nat_alt)
    ultimately show ?thesis using f(1) l b by (simp add: decodes_def dec_field_def s)
  next
    case False
    have s: "?s = \<lparr>skType = 7, skLen = 8, skBuf = be_bytes x, skPtr = 0\<rparr>"
      unfolding decodeNumericSortKeyToRecord_def unflip_number_flip read_be_bytes Let_def if_not_P [OF False] by simp
    have b: "sk_body k ?s = be_bytes x" unfolding s by (simp add: sk_body_def)
    then show ?thesis
      unfolding decodes_def dec_field_def by (simp add: s field_ok_def serial_len_def sk_value_def field_value_def read_be_bytes)
  qed
  then show "decodes k (SkNum (scaled x)) ?s" "unat (skType ?s) < 10" "length (skBuf ?s) = skLen ?s" "sk_body k ?s = skBuf ?s" by simp_all
qed

section \<open>Strings as they are decoded\<close>

lemma sk_scan_escaped:
  "drop pos k = escaped b @ rest \<Longrightarrow> sk_scan k pos n = Inr (pos + length (escaped b), n + length b)"
proof (induction b arbitrary: pos n)
  case Nil
  have dr: "drop pos k = 0 # 0 # rest" using Nil by (simp add: escaped_def)
  have l: "pos + 1 < length k" using arg_cong [OF dr, of length] by simp
  have "k ! pos = 0" "k ! (pos + 1) = 0" using dr nth_drop [of pos k 0] nth_drop [of pos k 1] l by simp_all
  then show ?case using l by (subst sk_scan.simps) (simp add: escaped_def)
next
  case (Cons x b)
  show ?case
  proof (cases "x = 0")
    case True
    have dr: "drop pos k = 0 # 1 # escaped b @ rest" using Cons.prems True by (simp add: escaped_def escape_byte_def)
    have l: "pos + 1 < length k" using arg_cong [OF dr, of length] by simp
    have n: "k ! pos = 0" "k ! (pos + 1) = 1" using dr nth_drop [of pos k 0] nth_drop [of pos k 1] l by simp_all
    have "drop (pos + 2) k = drop 2 (drop pos k)" by (simp add: add.commute)
    then have "drop (pos + 2) k = escaped b @ rest" unfolding dr by simp
    from Cons.IH [OF this, of "n + 1"] show ?thesis using l n True
      by (subst sk_scan.simps) (simp add: escaped_def escape_byte_def)
  next
    case False
    have dr: "drop pos k = x # escaped b @ rest" using Cons.prems False by (simp add: escaped_def escape_byte_def)
    have l: "pos < length k" using arg_cong [OF dr, of length] by simp
    have n: "k ! pos = x" using dr nth_drop [of pos k 0] l by simp
    have "drop (pos + 1) k = drop 1 (drop pos k)" by simp
    then have "drop (pos + 1) k = escaped b @ rest" unfolding dr by simp
    from Cons.IH [OF this, of "n + 1"] show ?thesis using l n False
      by (subst sk_scan.simps) (simp add: escaped_def escape_byte_def)
  qed
qed

lemma sk_unescape_escaped: "drop pos k = escaped b @ rest \<Longrightarrow> sk_unescape k pos (length b) = b"
proof (induction b arbitrary: pos)
  case (Cons x b)
  show ?case
  proof (cases "x = 0")
    case True
    have dr: "drop pos k = 0 # 1 # escaped b @ rest" using Cons.prems True by (simp add: escaped_def escape_byte_def)
    have l: "pos + 1 < length k" using arg_cong [OF dr, of length] by simp
    have n: "k ! pos = 0" "k ! (pos + 1) = 1" using dr nth_drop [of pos k 0] nth_drop [of pos k 1] l by simp_all
    have "drop (pos + 2) k = drop 2 (drop pos k)" by (simp add: add.commute)
    then have "drop (pos + 2) k = escaped b @ rest" unfolding dr by simp
    from Cons.IH [OF this] show ?thesis using l n True by simp
  next
    case False
    have dr: "drop pos k = x # escaped b @ rest" using Cons.prems False by (simp add: escaped_def escape_byte_def)
    have l: "pos < length k" using arg_cong [OF dr, of length] by simp
    have n: "k ! pos = x" using dr nth_drop [of pos k 0] l by simp
    have "drop (pos + 1) k = drop 1 (drop pos k)" by simp
    then have "drop (pos + 1) k = escaped b @ rest" unfolding dr by simp
    from Cons.IH [OF this] show ?thesis using l n False by simp
  qed
qed simp

section \<open>Keys as they are decoded\<close>

lemma drop_step: "drop pos k = xs @ ys \<Longrightarrow> drop (pos + length xs) k = ys"
proof -
  assume d: "drop pos k = xs @ ys"
  have "drop (length xs) (drop pos k) = ys" unfolding d by simp
  then show ?thesis by (simp add: add.commute)
qed

lemma drop_head: "drop pos k = x # ys \<Longrightarrow> pos < length k \<and> k ! pos = x \<and> drop (pos + 1) k = ys"
proof -
  assume d: "drop pos k = x # ys"
  then have l: "pos < length k" by (metis drop_eq_Nil leI list.distinct(1))
  then show ?thesis using d Cons_nth_drop_Suc [OF l] by simp
qed

lemma sk_value_length:
  "sk_value c f = SkText t \<Longrightarrow> length t \<le> length (snd f)" "sk_value c f = SkBlob t \<Longrightarrow> length t \<le> length (snd f)"
  using length_coll_text by (auto simp: sk_value_def field_value_def Let_def split: if_splits)

lemma decodes_string:
  assumes "drop p k = escaped t @ rest" "length t < 2 ^ 29"
  shows "decodes k (SkText t) \<lparr>skType = of_nat (length t) * 2 + 13, skLen = length t, skBuf = [], skPtr = p\<rparr>"
    "decodes k (SkBlob t) \<lparr>skType = of_nat (length t) * 2 + 12, skLen = length t, skBuf = [], skPtr = p\<rparr>"
proof -
  note u = sk_unescape_escaped [OF assms(1)]
  have b: "sk_body k \<lparr>skType = of_nat m, skLen = length t, skBuf = [], skPtr = p\<rparr> = t" if "12 \<le> m" "m < 2 ^ 31" for m
  proof -
    have "\<not> (of_nat m :: u32) \<le> 6" "(of_nat m :: u32) \<noteq> 7" using u32_cases(1,3) [OF that(2)] that(1) by auto
    then show ?thesis using u by (simp add: sk_body_def)
  qed
  have d: "decodes k v \<lparr>skType = of_nat m, skLen = length t, skBuf = [], skPtr = p\<rparr>"
    if "12 \<le> m" "m < 2 ^ 31" "serial_len m = length t" "sk_value SORTKEY_COLL_BINARY (m, t) = v" for m v
    using b [OF that(1,2)] u32_of_nat [OF that(2)] that by (simp add: decodes_def dec_field_def field_ok_def)
  have w: "(of_nat (length t) * 2 + 13 :: u32) = of_nat (length t * 2 + 13)" "(of_nat (length t) * 2 + 12 :: u32) = of_nat (length t * 2 + 12)"
    by simp_all
  have bin: "coll_text SORTKEY_COLL_BINARY t = t" by (simp add: coll_text_def collTextLen_def) (simp add: map_idI fold_case_def)
  show "decodes k (SkText t) \<lparr>skType = of_nat (length t) * 2 + 13, skLen = length t, skBuf = [], skPtr = p\<rparr>"
    unfolding w(1) by (rule d) (use assms(2) bin in \<open>simp_all add: serial_len_def sk_value_def field_value_def\<close>)
  show "decodes k (SkBlob t) \<lparr>skType = of_nat (length t) * 2 + 12, skLen = length t, skBuf = [], skPtr = p\<rparr>"
    unfolding w(2) by (rule d) (use assms(2) in \<open>simp_all add: serial_len_def sk_value_def field_value_def\<close>)
qed

lemma sk_decode_keys:
  "drop pos k = keys_from ki i fs \<Longrightarrow> \<forall>f \<in> set fs. sk_exact f \<and> length (snd f) < 2 ^ 29 \<Longrightarrow> length acc + length fs \<le> 64 \<Longrightarrow>
     \<exists>ss. sk_decode ub k pos acc = Inr (acc @ ss) \<and> list_all2 (decodes k) (sk_values ki i fs) ss"
proof (induction fs arbitrary: pos i acc)
  case Nil
  then show ?case by (subst sk_decode.simps) simp
next
  case (Cons f fs)
  let ?c = "collFromKeyInfo ki i"
  have f: "sk_exact f" "length (snd f) < 2 ^ 29" and n: "length acc < 64" using Cons.prems(2,3) by simp_all
  have dr: "drop pos k = field_key ?c f @ keys_from ki (Suc i) fs" using Cons.prems(1) by simp
  note tags = SORTKEY_NULL_def SORTKEY_NUM_def SORTKEY_TEXT_def SORTKEY_BLOB_def
  have step: "\<exists>ss. sk_decode ub k pos acc = Inr (acc @ ss) \<and> list_all2 (decodes k) (sk_values ki i (f # fs)) ss"
    if s: "sk_decode ub k pos acc = sk_decode ub k (pos + length (field_key ?c f)) (acc @ [s])" "decodes k (sk_value ?c f) s" for s
  proof -
    obtain ss where "sk_decode ub k (pos + length (field_key ?c f)) (acc @ [s]) = Inr ((acc @ [s]) @ ss)"
      "list_all2 (decodes k) (sk_values ki (Suc i) fs) ss"
      using Cons.IH [OF drop_step [OF dr], of "acc @ [s]"] Cons.prems(2,3) by auto
    then show ?thesis using s by (intro exI [of _ "s # ss"]) simp
  qed
  show ?case
  proof (rule field_key_cases [OF f(1), of ?c])
    assume v: "sk_value ?c f = SkNull" "field_key ?c f = [0x05]"
    note h = drop_head [of pos k "0x05" "keys_from ki (Suc i) fs"]
    have "decodes k SkNull \<lparr>skType = 0, skLen = 0, skBuf = [], skPtr = 0\<rparr>"
      by (simp add: decodes_def dec_field_def sk_body_def field_ok_def serial_len_def int_sizes_def sk_value_def field_value_def)
    then show ?thesis using h dr n v by (intro step) (subst sk_decode.simps, simp_all add: tags)
  next
    fix u
    assume v: "sk_value ?c f = SkNum (scaled u)" "field_key ?c f = number_bytes u" "\<not> double_nan u"
    have d: "drop pos k = 0x15 # be_bytes (flip_bits u) @ keys_from ki (Suc i) fs" using dr v by (simp add: number_bytes_def tags)
    note h = drop_head [OF d]
    have l: "pos + 1 + 8 \<le> length k" using arg_cong [OF d, of length] by simp
    have t: "take 8 (drop (pos + 1) k) = be_bytes (flip_bits u)" using h by simp
    show ?thesis using h l t n v decodes_number(1) [OF v(3)]
      by (intro step) (subst sk_decode.simps, simp_all add: tags number_bytes_def)
  next
    fix t
    assume v: "sk_value ?c f = SkText t" "field_key ?c f = 0x35 # escaped t"
    have d: "drop pos k = 0x35 # escaped t @ keys_from ki (Suc i) fs" using dr v by simp
    note h = drop_head [OF d]
    have d1: "drop (pos + 1) k = escaped t @ keys_from ki (Suc i) fs" using h by simp
    have len: "length t < 2 ^ 29" using sk_value_length(1) [OF v(1)] f(2) by linarith
    show ?thesis using h n v sk_scan_escaped [OF d1, of 0] decodes_string(1) [OF d1 len]
      by (intro step) (subst sk_decode.simps, simp_all add: tags)
  next
    fix t
    assume v: "sk_value ?c f = SkBlob t" "field_key ?c f = 0x45 # escaped t"
    have d: "drop pos k = 0x45 # escaped t @ keys_from ki (Suc i) fs" using dr v by simp
    note h = drop_head [OF d]
    have d1: "drop (pos + 1) k = escaped t @ keys_from ki (Suc i) fs" using h by simp
    have len: "length t < 2 ^ 29" using sk_value_length(2) [OF v(1)] f(2) by linarith
    show ?thesis using h n v sk_scan_escaped [OF d1, of 0] decodes_string(2) [OF d1 len]
      by (intro step) (subst sk_decode.simps, simp_all add: tags)
  qed
qed

section \<open>Records as they are decoded\<close>

lemma decodes_values: "list_all2 (decodes k) vs ss \<Longrightarrow> sk_values None i (map (dec_field k) ss) = vs"
  by (induction arbitrary: i rule: list_all2_induct) (auto simp: decodes_def collFromKeyInfo_def)

lemma decodes_fields: "list_all2 (decodes k) vs ss \<Longrightarrow> list_all field_ok (map (dec_field k) ss) \<and> map (\<lambda>s. length (sk_body k s)) ss = map skLen ss"
  by (induction rule: list_all2_induct) (auto simp: decodes_def)

lemma length_put_varint_le: "n < 2 ^ 31 \<Longrightarrow> length (put_varint n) \<le> 5"
  using length_vdigits [of "n div 128" 4] by (simp add: put_varint_def less_mult_imp_div_less)

lemma length_types_le: "list_all field_ok gs \<Longrightarrow> length (types_bytes gs) \<le> 5 * length gs"
proof (induction gs)
  case (Cons g gs)
  then show ?case using length_put_varint_le [of "fst g"] length_types_Cons [of g gs] by (simp add: field_ok_def)
qed (simp add: types_bytes_def)

lemma record_header:
  assumes "list_all field_ok gs" "length gs \<le> 64"
  defines "n1 \<equiv> 1 + length (types_bytes gs)"
  shows "record_ok (if n1 > 126 then n1 + 1 else n1) gs"
proof -
  let ?n = "if n1 > 126 then n1 + 1 else n1"
  have t: "length (types_bytes gs) \<le> 320" using length_types_le [OF assms(1)] assms(2) by linarith
  have "length (put_varint ?n) = (if n1 > 126 then 2 else 1)"
  proof (cases "n1 > 126")
    case True
    then have n: "128 \<le> n1 + 1" "n1 + 1 < 16384" using t by (simp_all add: n1_def)
    then have "(n1 + 1) div 128 \<noteq> 0" "(n1 + 1) div 128 div 128 = 0" by simp_all
    then have "vdigits ((n1 + 1) div 128) = [(n1 + 1) div 128 mod 128]"
      by (subst vdigits.simps) (simp add: vdigits.simps [of 0])
    then show ?thesis using True by (simp add: put_varint_def)
  next
    case False
    then have "n1 div 128 = 0" by simp
    then show ?thesis using False by (simp add: put_varint_def vdigits.simps [of 0])
  qed
  then show ?thesis
    using t assms(1,2) by (auto simp: record_ok_def n1_def DOLTLITE_MAX_RECORD_FIELDS_def field_ok_def list_all_iff)
qed

lemma sum_varint_len: "sum_list (map (\<lambda>s. sqlite3VarintLen (unat (skType s))) ss) = length (types_bytes (map (dec_field k) ss))"
  by (induction ss) (simp_all add: types_bytes_def dec_field_def sqlite3VarintLen_eq)

lemma put_types:
  "list_all field_ok (map (dec_field k) ss) \<Longrightarrow>
     concat (map (\<lambda>s. putVarint32 (unat (skType s))) ss) = types_bytes (map (dec_field k) ss)"
proof (induction ss)
  case (Cons s ss)
  have "unat (skType s) < 2 ^ 56" using Cons.prems by (simp add: field_ok_def dec_field_def)
  then show ?case using Cons by (simp add: types_bytes_def dec_field_def putVarint32_eq)
qed (simp add: types_bytes_def)

lemma decoded_record:
  assumes "list_all2 (decodes k) vs ss" "length ss \<le> 64"
  defines "gs \<equiv> map (dec_field k) ss"
  defines "n1 \<equiv> 1 + sum_list (map (\<lambda>s. sqlite3VarintLen (unat (skType s))) ss)"
  defines "n \<equiv> if n1 > 126 then n1 + 1 else n1"
  shows "record_ok n gs" "putVarint32 n @ concat (map (\<lambda>s. putVarint32 (unat (skType s))) ss) @ concat (map (sk_body k) ss) = encode_record n gs"
    "length (encode_record n gs) = n + sum_list (map skLen ss)"
proof -
  note f = decodes_fields [OF assms(1)]
  have g: "list_all field_ok gs" "length gs \<le> 64" using f assms(2) by (simp_all add: gs_def)
  have n1: "n1 = 1 + length (types_bytes gs)" unfolding n1_def gs_def sum_varint_len [of ss k] ..
  show r: "record_ok n gs" using record_header [OF g] unfolding n_def n1 .
  have b: "concat (map snd gs) = concat (map (sk_body k) ss)" by (simp add: gs_def dec_field_def comp_def)
  have "n < 2 ^ 56" using r by (simp add: record_ok_def)
  then show "putVarint32 n @ concat (map (\<lambda>s. putVarint32 (unat (skType s))) ss) @ concat (map (sk_body k) ss) = encode_record n gs"
    using putVarint32_eq put_types [of k ss] f b by (simp add: encode_record_def gs_def)
  show "length (encode_record n gs) = n + sum_list (map skLen ss)"
  proof -
    have "sum_list (map (\<lambda>s. length (sk_body k s)) ss) = sum_list (map skLen ss)" unfolding conjunct2 [OF f] ..
    then show ?thesis using r b by (simp add: encode_record_def record_ok_def length_concat comp_def)
  qed
qed

lemma keys_from_Nil: "keys_from ki i fs = [] \<Longrightarrow> fs = []"
  by (cases fs) (auto simp: field_key_def number_bytes_def split: sqlval.splits)

lemma keys_from_number:
  assumes "drop p k = keys_from ki i fs" "p < length k" "k ! p = SORTKEY_NUM" "\<forall>f \<in> set fs. sk_exact f"
  shows "\<exists>f gs u. fs = f # gs \<and> sk_value (collFromKeyInfo ki i) f = SkNum (scaled u) \<and> \<not> double_nan u \<and>
     take 8 (drop (p + 1) k) = be_bytes (flip_bits u) \<and> drop (p + 9) k = keys_from ki (Suc i) gs"
proof (cases fs)
  case Nil
  then show ?thesis using assms by simp
next
  case (Cons f gs)
  let ?c = "collFromKeyInfo ki i"
  have dr: "drop p k = field_key ?c f @ keys_from ki (Suc i) gs" using assms(1) Cons by simp
  have ef: "sk_exact f" using assms(4) Cons by simp
  show ?thesis
  proof (rule field_key_cases [OF ef, of ?c])
    fix u
    assume v: "sk_value ?c f = SkNum (scaled u)" "field_key ?c f = number_bytes u" "\<not> double_nan u"
    have d: "drop p k = 0x15 # be_bytes (flip_bits u) @ keys_from ki (Suc i) gs" using dr v by (simp add: number_bytes_def SORTKEY_NUM_def)
    have "drop (p + length (number_bytes u)) k = keys_from ki (Suc i) gs" using drop_step [OF dr] v by simp
    then show ?thesis using Cons v drop_head [OF d] by (auto simp: number_bytes_def)
  qed (use dr assms(3) drop_head [of p k] in \<open>force simp: SORTKEY_NUM_def\<close>)+
qed

lemma two_numbers:
  assumes "k = keys_from ki i fs" "\<forall>f \<in> set fs. sk_exact f" "recordFromTwoNumericSortKeyBuffer ub k nAlloc = Inr (nAlloc', out)"
  shows "\<exists>hs gs. out = encode_record hs gs \<and> record_ok hs gs \<and> sk_values None 0 gs = sk_values ki i fs"
proof -
  have t: "length k = 18" "k ! 0 = SORTKEY_NUM" "k ! 9 = SORTKEY_NUM"
    using assms(3) by (auto simp: recordFromTwoNumericSortKeyBuffer_def Let_def split: if_splits)
  have k0: "drop 0 k = keys_from ki i fs" using assms(1) by simp
  obtain f fs1 u where u: "fs = f # fs1" "sk_value (collFromKeyInfo ki i) f = SkNum (scaled u)" "\<not> double_nan u"
    "take 8 (drop (0 + 1) k) = be_bytes (flip_bits u)" "drop (0 + 9) k = keys_from ki (Suc i) fs1"
    using keys_from_number [OF k0 _ t(2) assms(2)] t(1) by auto
  have d9: "drop 9 k = keys_from ki (Suc i) fs1" using u(5) by simp
  obtain g fs2 w where w: "fs1 = g # fs2" "sk_value (collFromKeyInfo ki (Suc i)) g = SkNum (scaled w)" "\<not> double_nan w"
    "take 8 (drop (9 + 1) k) = be_bytes (flip_bits w)" "drop (9 + 9) k = keys_from ki (Suc (Suc i)) fs2"
    using keys_from_number [OF d9 _ t(3)] t(1) assms(2) u(1) by auto
  have fs2: "fs2 = []" using keys_from_Nil [of ki "Suc (Suc i)" fs2] w(5) t(1) by simp
  let ?s0 = "decodeNumericSortKeyToRecord ub (be_bytes (flip_bits u))" and ?s1 = "decodeNumericSortKeyToRecord ub (be_bytes (flip_bits w))"
  note d0 = decodes_number(1) [OF u(3), of k ub] decodes_number(2,3) [OF u(3), of ub] decodes_number(4) [OF u(3), of k ub]
    and d1 = decodes_number(1) [OF w(3), of k ub] decodes_number(2,3) [OF w(3), of ub] decodes_number(4) [OF w(3), of k ub]
  let ?gs = "map (dec_field k) [?s0, ?s1]"
  have v: "put_varint n = [of_nat n]" if "n < 128" for n using that by (simp add: put_varint_def vdigits.simps [of 0])
  have out: "out = [3, ucast (skType ?s0), ucast (skType ?s1)] @ skBuf ?s0 @ skBuf ?s1"
    using assms(3) t u(4) w(4) d0(3) d1(3) by (simp add: recordFromTwoNumericSortKeyBuffer_def Let_def)
  have e: "out = encode_record 3 ?gs"
    unfolding out using d0(2,4) d1(2,4) v [of 3] v [of "unat (skType ?s0)"] v [of "unat (skType ?s1)"]
    by (simp add: encode_record_def types_bytes_def dec_field_def)
  have "list_all field_ok ?gs" using d0(1) d1(1) by (simp add: decodes_def)
  then have "record_ok 3 ?gs"
    using v [of 3] v [of "unat (skType ?s0)"] v [of "unat (skType ?s1)"] d0(2) d1(2)
    by (simp add: record_ok_def types_bytes_def dec_field_def field_ok_def DOLTLITE_MAX_RECORD_FIELDS_def)
  moreover have "sk_values None 0 ?gs = sk_values ki i fs"
    using decodes_values [of k "[SkNum (scaled u), SkNum (scaled w)]" "[?s0, ?s1]" 0] d0(1) d1(1) u(1,2) w(1,2) fs2 by simp
  ultimately show ?thesis using e by blast
qed

lemma record_from_keys:
  assumes "\<forall>f \<in> set fs. sk_exact f \<and> length (snd f) < 2 ^ 29" "length fs \<le> 64"
  shows "\<exists>hs gs. recordFromSortKey ub (keys_from ki i fs) = Inr (encode_record hs gs) \<and> record_ok hs gs \<and>
     sk_values None 0 gs = sk_values ki i fs"
proof (cases "keys_from ki i fs = []")
  case True
  have "put_varint 1 = [1]" by (simp add: put_varint_def vdigits.simps [of 0])
  then have "encode_record 1 [] = [1]" "record_ok 1 []" by (simp_all add: encode_record_def types_bytes_def record_ok_def)
  then show ?thesis using keys_from_Nil [OF True]
    by (intro exI [of _ 1] exI [of _ "[]"]) (simp add: recordFromSortKey_def recordFromSortKeyBuffer_def)
next
  case False
  let ?k = "keys_from ki i fs"
  show ?thesis
  proof (cases "recordFromTwoNumericSortKeyBuffer ub ?k 0")
    case (Inr r)
    obtain n out where r: "r = (n, out)" by (cases r)
    have "recordFromSortKey ub ?k = Inr out" using False Inr r by (simp add: recordFromSortKey_def recordFromSortKeyBuffer_def)
    then show ?thesis using two_numbers [OF refl _ Inr [unfolded r]] assms(1) by blast
  next
    case (Inl e)
    have e: "e = SQLITE_NOTFOUND" using Inl by (auto simp: recordFromTwoNumericSortKeyBuffer_def Let_def split: if_splits)
    obtain ss where ss: "sk_decode ub ?k 0 [] = Inr ss" "list_all2 (decodes ?k) (sk_values ki i fs) ss"
      using sk_decode_keys [of 0 ?k ki i fs "[]"] assms by auto
    have "length (sk_values ki i fs) = length fs" by (induction fs arbitrary: i) simp_all
    then have l: "length ss \<le> 64" using list_all2_lengthD [OF ss(2)] assms(2) by simp
    note d = decoded_record [OF ss(2) l]
    let ?n1 = "1 + sum_list (map (\<lambda>s. sqlite3VarintLen (unat (skType s))) ss)" and ?gs = "map (dec_field ?k) ss"
    let ?n = "if ?n1 > 126 then ?n1 + 1 else ?n1"
    have "recordFromSortKey ub ?k = Inr (encode_record ?n ?gs)"
      unfolding recordFromSortKey_def recordFromSortKeyBuffer_def if_not_P [OF False] Inl e sum.case Let_def ss(1) bindR_Inr d(2) d(3) by simp
    then show ?thesis using d(1) decodes_values [OF ss(2), of 0] by blast
  qed
qed

end
