(* ===== verification/SortkeySpec.thy ===== *)
theory SortkeySpec
  imports SortkeyOrder
begin

text \<open>
  What the order of sort keys is measured against, written from the documentation of SQLite and
  not from the code: the storage classes and integers of the record format, texts under the
  collations \<open>BINARY\<close>, \<open>NOCASE\<close> and \<open>RTRIM\<close>, and the lexicographic order of lists of values.
  The lemmas show that the values used by the proofs about the encoder are these.
\<close>

section \<open>Collations\<close>

definition ascii :: "string \<Rightarrow> byte list" where
  "ascii s = map (\<lambda>c. of_nat (of_char c)) s"

text \<open>The 26 letters of ASCII, each with its lower-case form; every other byte stands for itself.\<close>

definition letters :: "(byte \<times> byte) list" where
  "letters = zip (ascii ''ABCDEFGHIJKLMNOPQRSTUVWXYZ'') (ascii ''abcdefghijklmnopqrstuvwxyz'')"

definition lower :: "byte \<Rightarrow> byte" where
  "lower b = (case map_of letters b of Some l \<Rightarrow> l | None \<Rightarrow> b)"

text \<open>The name of the collation of a column, up to its terminating zero and without regard to case.\<close>

definition column_collation :: "key_info option \<Rightarrow> nat \<Rightarrow> byte list" where
  "column_collation ki i =
     (case ki of
        None \<Rightarrow> []
      | Some names \<Rightarrow>
          if i < length names
          then case names ! i of None \<Rightarrow> [] | Some z \<Rightarrow> map lower (takeWhile (\<lambda>c. c \<noteq> 0) z)
          else [])"

text \<open>The text that is compared byte by byte: in lower case, without its last blanks, or as it is.\<close>

definition collated :: "byte list \<Rightarrow> byte list \<Rightarrow> byte list" where
  "collated name t =
     (if name = ascii ''nocase'' then map lower t
      else if name = ascii ''rtrim'' then rev (dropWhile (\<lambda>b. b = 32) (rev t))
      else t)"

section \<open>Values\<close>

text \<open>The big-endian two's complement value of some bytes.\<close>

definition be_signed :: "byte list \<Rightarrow> int" where
  "be_signed b = (if 256 ^ length b \<le> 2 * be_val b then int (be_val b) - 256 ^ length b else int (be_val b))"

text \<open>
  The value of a field by its serial type; numbers, whether integer or real, by their value
  in units of \<open>2 ^ -1074\<close>, of which every finite double is a multiple.
\<close>

definition sql_value :: "byte list \<Rightarrow> field \<Rightarrow> sk_val" where
  "sql_value name f =
     (let st = fst f; b = snd f in
      if 1 \<le> st \<and> st \<le> 6 then SkNum (be_signed b * 2 ^ 1074)
      else if st = 7 then SkNum (scaled (of_nat (be_val b)))
      else if st = 8 then SkNum 0
      else if st = 9 then SkNum (2 ^ 1074)
      else if 12 \<le> st \<and> even st then SkBlob b
      else if 13 \<le> st then SkText (collated name b)
      else SkNull)"

primrec sql_values :: "key_info option \<Rightarrow> nat \<Rightarrow> field list \<Rightarrow> sk_val list" where
  "sql_values ki i [] = []"
| "sql_values ki i (f # fs) = sql_value (column_collation ki i) f # sql_values ki (Suc i) fs"

text \<open>
  The numbers whose order keys keep: integers up to \<open>2 ^ 53\<close>, and doubles that are numbers
  (\<open>0x7ff0..\<close> or below, without the sign) and not the negative zero (\<open>0x8000..\<close>).
\<close>

definition exact_number :: "field \<Rightarrow> bool" where
  "exact_number f \<longleftrightarrow>
     (1 \<le> fst f \<and> fst f \<le> 6 \<longrightarrow> \<bar>be_signed (snd f)\<bar> \<le> 2 ^ 53) \<and>
     (fst f = 7 \<longrightarrow> be_val (snd f) mod 2 ^ 63 \<le> 2047 * 2 ^ 52 \<and> be_val (snd f) \<noteq> 2 ^ 63)"

section \<open>The values of the encoder's proofs are these\<close>

lemma letters_range: "\<forall>p \<in> set letters. 65 \<le> fst p \<and> fst p \<le> 90 \<and> snd p = fst p + 32 \<and> snd p \<noteq> 0"
  by code_simp

lemma letters_all: "\<forall>n \<in> set [65..<91]. of_nat n \<in> set (map fst letters)"
  by code_simp

lemma lower_code: "lower b = UpperToLower b"
proof (cases "map_of letters b")
  case None
  have "\<not> (65 \<le> b \<and> b \<le> 90)"
  proof
    assume "65 \<le> b \<and> b \<le> 90"
    then have "65 \<le> unat b" "unat b < 91" by (simp_all add: word_le_nat_alt)
    then have "unat b \<in> set [65..<91]" by (simp only: set_upt atLeastLessThan_iff)
    then have "of_nat (unat b) \<in> set (map fst letters)" using letters_all by blast
    then show False using None by (simp add: map_of_eq_None_iff)
  qed
  then show ?thesis using None by (simp add: lower_def UpperToLower_def)
next
  case (Some l)
  then show ?thesis using letters_range map_of_SomeD [OF Some] by (auto simp: lower_def UpperToLower_def)
qed

lemma lower_zero: "lower b = 0 \<longleftrightarrow> b = 0"
proof (cases "map_of letters b")
  case (Some l)
  then show ?thesis using letters_range map_of_SomeD [OF Some] by (auto simp: lower_def)
qed (simp add: lower_def)

lemma sqlite3StrICmp_lower:
  "\<forall>x \<in> set b. x \<noteq> 0 \<Longrightarrow> sqlite3StrICmp a b = 0 \<longleftrightarrow> map lower (takeWhile (\<lambda>c. c \<noteq> 0) a) = map lower b"
proof (induction a b rule: sqlite3StrICmp.induct)
  case (1 c cs x xs)
  have "int (unat (lower c)) - int (unat (lower x)) = 0 \<longleftrightarrow> lower c = lower x"
    by (simp only: right_minus_eq of_nat_eq_iff word_unat_eq_iff)
  moreover have "c = 0 \<Longrightarrow> lower c \<noteq> lower x" using lower_zero [of c] lower_zero [of x] 1(3) by auto
  ultimately show ?case using 1 by (cases "c = x") (auto simp: Let_def lower_code [symmetric])
next
  case (2 c cs)
  have "int (unat (lower c)) = 0 \<longleftrightarrow> c = 0" by (simp only: of_nat_eq_0_iff unat_eq_0 lower_zero)
  then show ?case unfolding sqlite3StrICmp.simps lower_code [symmetric] by auto
next
  case (3 x xs)
  have "- int (unat (lower x)) = 0 \<longleftrightarrow> x = 0" by (simp only: neg_equal_0_iff_equal of_nat_eq_0_iff unat_eq_0 lower_zero)
  then show ?case using 3 unfolding sqlite3StrICmp.simps lower_code [symmetric] by auto
qed simp

lemma take_strip_blanks: "n \<le> length d \<Longrightarrow> take (strip_blanks d n) d = rev (dropWhile (\<lambda>b. b = 32) (rev (take n d)))"
  by (induction n) (auto simp: take_Suc_conv_app_nth)

lemma fold_case_lower: "fold_case SORTKEY_COLL_NOCASE = lower" "fold_case SORTKEY_COLL_RTRIM = id" "fold_case SORTKEY_COLL_BINARY = id"
  by (simp_all add: fun_eq_iff fold_case_def lower_code UpperToLower_def)

lemma coll_text_collated: "coll_text (collFromKeyInfo ki i) b = collated (column_collation ki i) b"
proof -
  let ?N = "map (of_nat \<circ> of_char) ''NOCASE'' :: byte list" and ?R = "map (of_nat \<circ> of_char) ''RTRIM'' :: byte list"
  have z: "\<forall>x \<in> set ?N. x \<noteq> 0" "\<forall>x \<in> set ?R. x \<noteq> 0" by code_simp+
  have l: "map lower ?N = ascii ''nocase''" "map lower ?R = ascii ''rtrim''" "ascii ''nocase'' \<noteq> ascii ''rtrim''"
    "[] \<noteq> ascii ''nocase''" "[] \<noteq> ascii ''rtrim''" by code_simp+
  note e = sqlite3StrICmp_lower [OF z(1), unfolded l] sqlite3StrICmp_lower [OF z(2), unfolded l]
  have n: "coll_text SORTKEY_COLL_NOCASE b = map lower b" by (simp add: coll_text_def collTextLen_def fold_case_lower)
  have r: "coll_text SORTKEY_COLL_RTRIM b = rev (dropWhile (\<lambda>b. b = 32) (rev b))"
    using take_strip_blanks [of "length b" b] by (simp add: coll_text_def collTextLen_def fold_case_lower)
  have d: "coll_text SORTKEY_COLL_BINARY b = b" by (simp add: coll_text_def collTextLen_def fold_case_lower)
  show ?thesis
    unfolding collFromKeyInfo_def column_collation_def collated_def e using l(3-5) by (auto simp: n r d split: option.splits)
qed

lemma be_signed_read:
  assumes "b \<noteq> []" "length b \<le> 8"
  shows "sint (recReadInt b) = be_signed b"
proof -
  have "(256 :: nat) ^ length b = 2 * (128 * 256 ^ (length b - 1))" using assms(1) by (cases b) auto
  then show ?thesis using recReadInt_signed [OF assms] by (simp add: be_signed_def)
qed

lemma read_real:
  assumes "length b = 8"
  shows "read_int_loop 0 b = of_nat (be_val b)"
  using read_int_loop_value [of 0 b] by simp

lemma int_field:
  assumes "field_ok f" "1 \<le> fst f" "fst f \<le> 6"
  shows "field_value f = VInt (recReadInt (snd f))" "sint (recReadInt (snd f)) = be_signed (snd f)"
proof -
  have "fst f \<in> {1, 2, 3, 4, 5, 6}" using assms(2,3) by auto
  then have "0 < length (snd f)" "length (snd f) \<le> 8" using assms(1) by (auto simp: field_ok_def serial_len_spec)
  then show "sint (recReadInt (snd f)) = be_signed (snd f)" by (intro be_signed_read) auto
qed (use assms in \<open>simp add: field_value_def Let_def\<close>)

lemma real_field:
  assumes "field_ok f" "fst f = 7"
  shows "field_value f = VReal (of_nat (be_val (snd f)))" "unat (of_nat (be_val (snd f)) :: u64) = be_val (snd f)"
proof -
  have l: "length (snd f) = 8" using assms by (simp add: field_ok_def serial_len_spec)
  then show "field_value f = VReal (of_nat (be_val (snd f)))" using assms(2) by (simp add: field_value_def Let_def read_real)
  have "be_val (snd f) < 2 ^ 64" using be_val_less [of "snd f"] l by simp
  then show "unat (of_nat (be_val (snd f)) :: u64) = be_val (snd f)" by (simp add: unat_of_nat take_bit_nat_eq_self)
qed

lemma sk_value_sql:
  assumes "field_ok f"
  shows "sk_value (collFromKeyInfo ki i) f = sql_value (column_collation ki i) f"
proof -
  consider "1 \<le> fst f" "fst f \<le> 6" | "fst f = 7" | "fst f = 0 \<or> 8 \<le> fst f" by linarith
  then show ?thesis
  proof cases
    case 1
    then show ?thesis using int_field [OF assms 1] by (simp add: sk_value_def sql_value_def double_unit_def)
  next
    case 2
    then show ?thesis using real_field [OF assms 2] by (simp add: sk_value_def sql_value_def)
  next
    case 3
    have "even (fst f)" if "12 \<le> fst f" "\<not> 13 \<le> fst f"
    proof -
      have "fst f = 12" using that by linarith
      then show ?thesis by simp
    qed
    then show ?thesis using 3
      by (auto simp: sk_value_def sql_value_def field_value_def Let_def double_unit_def coll_text_collated)
  qed
qed

lemma sk_values_sql: "list_all field_ok fs \<Longrightarrow> sk_values ki i fs = sql_values ki i fs"
  by (induction fs arbitrary: i) (simp_all add: sk_value_sql)

lemma sk_exact_number:
  assumes "field_ok f" "exact_number f"
  shows "sk_exact f"
proof -
  consider "1 \<le> fst f" "fst f \<le> 6" | "fst f = 7" | "fst f = 0 \<or> 8 \<le> fst f" by linarith
  then show ?thesis
  proof cases
    case 1
    then show ?thesis using int_field [OF assms(1) 1] assms(2) by (simp add: sk_exact_def exact_number_def)
  next
    case 2
    let ?x = "of_nat (be_val (snd f)) :: u64"
    note r = real_field [OF assms(1) 2]
    have "?x \<noteq> of_nat (2 ^ 63)" using r(2) assms(2) 2 by (auto simp: exact_number_def)
    moreover have "\<not> double_nan ?x" using r(2) assms(2) 2 by (simp add: double_nan_def double_mag_def exact_number_def)
    ultimately show ?thesis using r(1) by (simp add: sk_exact_def)
  next
    case 3
    then show ?thesis by (auto simp: sk_exact_def field_value_def Let_def)
  qed
qed

lemma key_fields_subset: "set (key_fields n i fs) \<subseteq> set fs"
  by (auto simp: key_fields_def dest: in_set_takeD)

lemma key_fields_ok: "record_form hs fs \<Longrightarrow> list_all field_ok (key_fields n i fs)"
  using record_form_fields [of hs fs] key_fields_subset [of n i fs] by (auto simp: list_all_iff)

lemma key_fields_exact:
  "record_form hs fs \<Longrightarrow> \<forall>f \<in> set (key_fields n i fs). exact_number f \<Longrightarrow> \<forall>f \<in> set (key_fields n i fs). sk_exact f"
  using key_fields_ok [of hs fs n i] sk_exact_number by (auto simp: list_all_iff)

end
