(* ===== verification/SortkeyProps.thy ===== *)
theory SortkeyProps
  imports SortkeyDecode SortkeySpec
begin

text \<open>
  What sort keys promise: the order of records, the way back, the size of the buffer; and where the encoding
  falls short.
\<close>

section \<open>Sizes\<close>

lemma length_flip_number: "b \<noteq> [] \<Longrightarrow> length (flip_number b) = length b"
  by (simp add: flip_number_def)

lemma count_fold: "length (filter (\<lambda>b. fold_case c b = 0) t) = length (filter (\<lambda>x. x = 0) (map (fold_case c) t))"
  by (induction t) auto

lemma serial_len_real: "serialTypeLen 7 = 8" by (simp add: serialTypeLen_def)

lemma encodedFieldSize_eq:
  assumes "length d = serialTypeLen st"
  shows "encodedFieldSize st d c = length (encode_field st d c)" "encodedFieldSize st d c \<le> 9 + 2 * length d"
proof -
  have num: "length (encodeNumeric st d) = 9"
  proof (cases "st = 7")
    case True
    then have l: "length d = 8" using assms serial_len_real by simp
    then have "d \<noteq> []" by auto
    then show ?thesis using True l by (simp add: encodeNumeric_def length_flip_number)
  qed (simp add: encodeNumeric_def flip_number_be)
  have tx: "1 + collTextLen c d + length (filter (\<lambda>b. fold_case c b = 0) (take (collTextLen c d) d)) + 2 = length (encodeText d c)"
  proof -
    have "collTextLen c d \<le> length d" using strip_blanks_le [of d "length d"] by (simp add: collTextLen_def)
    then show ?thesis unfolding coll_text_escaped by (simp add: length_escaped coll_text_def count_fold)
  qed
  have blob: "1 + length d + length (filter (\<lambda>b. b = 0) d) + 2 = length (encodeVarLen t d)" for t
    using length_escaped [of d] by (simp add: encodeVarLen_def escaped_def)
  show "encodedFieldSize st d c = length (encode_field st d c)"
    using num tx blob by (simp add: encodedFieldSize_def encode_field_def Let_def)
  have "length (filter (\<lambda>b. b = 0) d) \<le> length d + 6" by (rule trans_le_add1, rule length_filter_le)
  moreover have "collTextLen c d \<le> length d" using strip_blanks_le [of d "length d"] by (simp add: collTextLen_def)
  moreover have "length (filter (\<lambda>b. fold_case c b = 0) (take (collTextLen c d) d)) \<le> length (take (collTextLen c d) d)" by (rule length_filter_le)
  ultimately show "encodedFieldSize st d c \<le> 9 + 2 * length d" by (simp add: encodedFieldSize_def Let_def)
qed

text \<open>A run that only counts and a run that writes take the same steps.\<close>

lemma sk_fields_count:
  "sk_fields d None n ki hs ho doff i p x = Inr (r, y) \<Longrightarrow> doff \<le> length d \<Longrightarrow> i \<le> ho \<Longrightarrow> i \<le> hs \<Longrightarrow> p = length out \<Longrightarrow>
     p + 2 * (length d - doff) + 9 * (hs - i) \<le> m \<Longrightarrow>
     \<exists>out'. sk_fields d (Some m) n ki hs ho doff i p out = Inr (r, out') \<and> (0 \<le> r \<longrightarrow> r = int (length out'))"
proof (induction "hs - ho" arbitrary: ho doff i p out rule: less_induct)
  case less
  note un = sk_fields.simps [of d None n ki hs ho doff i p x] sk_fields.simps [of d "Some m" n ki hs ho doff i p out]
  show ?case
  proof (cases "ho < hs \<and> \<not> (n > 0 \<and> int i \<ge> n)")
    case False
    then show ?thesis using less.prems un by (auto split: if_splits)
  next
    case True
    then have lt: "ho < hs" and c: "\<not> (n > 0 \<and> int i \<ge> n)" by blast+
    note un = un [unfolded if_P [OF lt] if_not_P [OF c]]
    show ?thesis
    proof (cases "skGetVarint32 d ho")
      case (Inl e)
      then show ?thesis using less.prems(1) un by simp
    next
      case (Inr v)
      obtain b st where v: "v = (b, st)" by (cases v)
      note un = un [unfolded Inr v sum.case prod.case Let_def]
      let ?l = "serialTypeLen st"
      show ?thesis
      proof (cases "doff + ?l > length d")
        case True
        then show ?thesis using less.prems(1) un by simp
      next
        case False
        note un = un [unfolded if_not_P [OF False] option.case]
        let ?f = "take ?l (drop doff d)" and ?c = "collFromKeyInfo ki i"
        have fl: "length ?f = ?l" using False by simp
        note e = encodedFieldSize_eq [OF fl, of ?c]
        have b: "0 < b" using skGetVarint32_pos [of d ho b st] Inr v by simp
        have sp: "p + 2 * (length d - doff) + 9 * (hs - i) = p + 9 + 2 * ?l + 2 * (length d - (doff + ?l)) + 9 * (hs - (i + 1))"
          using False lt less.prems(3) by arith
        have fit: "\<not> p + length (encode_field st ?f ?c) > m" using less.prems(6) sp e fl by linarith
        have "sk_fields d None n ki hs (ho + b) (doff + ?l) (i + 1) (p + length (encode_field st ?f ?c)) x = Inr (r, y)"
          using less.prems(1) un(1) e(1) by simp
        from less.hyps [OF _ this _ _ _ _, of "out @ encode_field st ?f ?c"]
        show ?thesis using un(2) fit False b lt less.prems(3-6) sp e fl by simp
      qed
    qed
  qed
qed

section \<open>Properties\<close>

text \<open>
  C16. Comparing the sort keys of two records byte by byte orders the records by the values of their
  fields from the first on: nulls before numbers before texts before blobs, numbers by value whether integer or
  real, texts as the collation of their column compares them (lower-cased letters for \<open>NOCASE\<close>, without the last
  blanks for \<open>RTRIM\<close>); equal keys are keys of equal values.  The values, integers and collations are those of
  \<open>SortkeySpec\<close>, which shares no definition with the encoder.  The conditions: integers are within \<open>2 ^ 53\<close>, reals are
  neither not-a-number nor the negative zero (\<open>exact_number\<close>; \<open>sort_key_collision\<close> shows that the first is
  needed), and a record is short enough for the estimate of the buffer not to wrap (\<open>9 * length + 16 < 2 ^ 31\<close>).
\<close>

theorem sort_key_order:
  assumes "record_form hs fs" "9 * length (encode_record hs fs) + 16 < 2 ^ 31"
    "record_form hs' gs" "9 * length (encode_record hs' gs) + 16 < 2 ^ 31"
    "\<forall>f \<in> set (key_fields n 0 fs) \<union> set (key_fields n 0 gs). exact_number f"
  shows "\<exists>a b. sortKeyFromRecordPrefixColl (encode_record hs fs) n ki = Inr a \<and>
     sortKeyFromRecordPrefixColl (encode_record hs' gs) n ki = Inr b \<and>
     (compareSortKeys a b < 0 \<longleftrightarrow> sql_values ki 0 (key_fields n 0 fs) < sql_values ki 0 (key_fields n 0 gs)) \<and>
     (compareSortKeys a b = 0 \<longleftrightarrow> sql_values ki 0 (key_fields n 0 fs) = sql_values ki 0 (key_fields n 0 gs))"
proof -
  have e: "\<forall>f \<in> set (key_fields n 0 fs) \<union> set (key_fields n 0 gs). sk_exact f"
    using key_fields_exact [OF assms(1), of n 0] key_fields_exact [OF assms(3), of n 0] assms(5) by blast
  show ?thesis
    using sort_key_encoded [OF assms(1,2)] sort_key_encoded [OF assms(3,4)] keys_from_less [OF e] keys_from_eq [OF e]
    by (simp add: compareSortKeys_key_cmp sk_values_sql [OF key_fields_ok [OF assms(1)]] sk_values_sql [OF key_fields_ok [OF assms(3)]])
qed

text \<open>
  C17. A record decoded from a sort key of up to 64 fields is in the storage format and has the values of the
  key fields: texts as collated, numbers by value (a real that is a whole number comes back as an integer),
  whatever the platform does where C leaves the conversion of a double undefined.  The conditions are those of the order:
  integers within \<open>2 ^ 53\<close>, reals neither not-a-number nor the negative zero, and a record for which the
  estimate of the buffer does not wrap; larger integers do come back as others (\<open>sort_key_collision\<close>), and fields after
  the 64th are dropped (\<open>sort_key_drops_fields\<close>).
\<close>

theorem sort_key_roundtrip:
  assumes "record_form hs fs" "9 * length (encode_record hs fs) + 16 < 2 ^ 31"
    "\<forall>f \<in> set (key_fields n 0 fs). exact_number f" "length (key_fields n 0 fs) \<le> 64"
  shows "\<exists>k hs' gs. sortKeyFromRecordPrefixColl (encode_record hs fs) n ki = Inr k \<and>
     recordFromSortKey ub k = Inr (encode_record hs' gs) \<and> record_ok hs' gs \<and>
     sql_values None 0 gs = sql_values ki 0 (key_fields n 0 fs)"
proof -
  have "length (snd f) < 2 ^ 29" if "f \<in> set (key_fields n 0 fs)" for f
  proof -
    have f: "f \<in> set fs" using that key_fields_subset by blast
    have "length (snd f) \<le> sum_list (map (\<lambda>g. length (snd g)) fs)" by (rule member_le_sum_list) (use f in auto)
    also have "\<dots> = length (concat (map snd fs))" by (simp add: length_concat comp_def)
    also have "\<dots> \<le> length (encode_record hs fs)" by (simp add: encode_record_def)
    finally show ?thesis using assms(2) by simp
  qed
  then obtain hs' gs where g: "recordFromSortKey ub (keys_from ki 0 (key_fields n 0 fs)) = Inr (encode_record hs' gs)" "record_ok hs' gs"
    "sk_values None 0 gs = sk_values ki 0 (key_fields n 0 fs)"
    using record_from_keys [of "key_fields n 0 fs" ub ki 0] key_fields_exact [OF assms(1,3)] key_fields_ok [OF assms(1), of n 0] assms(4)
    by (fastforce simp: list_all_iff)
  have "list_all field_ok gs" using g(2) record_form_fields [of hs' gs] by (simp add: record_ok_form)
  then have "sql_values None 0 gs = sql_values ki 0 (key_fields n 0 fs)"
    using g(3) sk_values_sql [of gs None 0] sk_values_sql [OF key_fields_ok [OF assms(1)], of ki 0 n 0] by simp
  then show ?thesis using sort_key_encoded [OF assms(1,2), of n ki] g(1,2) by blast
qed

text \<open>
  C18. On any bytes that the size run of the encoder gets through, the estimate of the buffer is enough as
  long as it does not wrap: the key is written with the size that was computed, or the record is
  reported as corrupt.
\<close>

theorem sort_key_fits:
  assumes "sortKeyEncode d None n ki = Inr (r, x)" "9 * length d + 16 < 2 ^ 31"
  shows "if r < 0 then sortKeyFromRecordPrefixColl d n ki = Inl SQLITE_CORRUPT
     else \<exists>k. sortKeyFromRecordPrefixColl d n ki = Inr k \<and> int (length k) = r"
proof (cases "d = []")
  case True
  then show ?thesis using assms(1)
    by (simp add: sortKeyEncode_def sortKeyFromRecordPrefixColl_def sortKeyFromRecordPrefixCollBuffer_def Let_def)
next
  case False
  obtain b h where v: "skGetVarint32 d 0 = Inr (b, h)" using assms(1) False by (auto simp: sortKeyEncode_def res_simps)
  have e: "key_estimate (length d) = (if 9 * length d + 16 < 64 then 64 else int (9 * length d + 16))"
    using assms(2) by (simp add: key_estimate_def signed_of_nat signed_take_bit_int_eq_self Let_def del: of_nat_add of_nat_mult)
  let ?m = "nat (key_estimate (length d))"
  have m: "9 * length d + 16 \<le> ?m" "0 < key_estimate (length d)" unfolding e by auto
  show ?thesis
  proof (cases "unat h > length d")
    case True
    then show ?thesis using assms(1) False v
      by (simp add: sortKeyEncode_def sortKeyFromRecordPrefixColl_def sortKeyFromRecordPrefixCollBuffer_def Let_def)
  next
    case h: False
    have "sk_fields d None n ki (unat h) b (unat h) 0 0 [] = Inr (r, x)" using assms(1) False v h by (simp add: sortKeyEncode_def)
    moreover have "2 * (length d - unat h) + 9 * unat h \<le> 9 * length d" using h by simp
    then have "0 + 2 * (length d - unat h) + 9 * (unat h - 0) \<le> ?m" using m(1) by simp
    ultimately obtain out where
      o: "sk_fields d (Some ?m) n ki (unat h) b (unat h) 0 0 [] = Inr (r, out)" "0 \<le> r \<longrightarrow> r = int (length out)"
      using sk_fields_count [of d n ki "unat h" b "unat h" 0 0 "[]" r x "[]" ?m] h by auto
    then have "sortKeyEncode d (Some ?m) n ki = Inr (r, out)" using False v h by (simp add: sortKeyEncode_def)
    then show ?thesis using o(2) m(2) by (simp add: sortKeyFromRecordPrefixColl_def sortKeyFromRecordPrefixCollBuffer_def Let_def)
  qed
qed

section \<open>Where the encoding falls short\<close>

text \<open>Two integers above \<open>2 ^ 53\<close> have the same key, so that one index entry stands for both.\<close>

lemma double_of_nat_odd: "double_of_nat (2 ^ 53 + 1) = double_of_nat (2 ^ 53)"
proof -
  have k: "floorlog 2 (2 ^ 53 + 1 :: nat) = 54"
  proof (rule le_antisym)
    show "floorlog 2 (2 ^ 53 + 1 :: nat) \<le> 54" by (rule floorlog2_le) simp
    have "(2 :: nat) ^ 53 < 2 ^ floorlog 2 (2 ^ 53 + 1 :: nat)" using floorlog2_bounds [of "2 ^ 53 + 1"] by linarith
    then have "53 < floorlog 2 (2 ^ 53 + 1 :: nat)" by (rule power_less_imp_less_exp [rotated]) simp
    then show "54 \<le> floorlog 2 (2 ^ 53 + 1 :: nat)" by simp
  qed
  show ?thesis unfolding double_of_nat_53 unfolding double_of_nat_def Let_def k by simp
qed

theorem sort_key_collision:
  "\<exists>k. sortKeyFromRecord (encode_record 2 [(6, [0, 32, 0, 0, 0, 0, 0, 0])]) = Inr k \<and>
     sortKeyFromRecord (encode_record 2 [(6, [0, 32, 0, 0, 0, 0, 0, 1])]) = Inr k \<and>
     field_value (6, [0, 32, 0, 0, 0, 0, 0, 0]) = VInt 9007199254740992 \<and>
     field_value (6, [0, 32, 0, 0, 0, 0, 0, 1]) = VInt 9007199254740993"
proof -
  let ?a = "(6, [0, 32, 0, 0, 0, 0, 0, 0]) :: field" and ?b = "(6, [0, 32, 0, 0, 0, 0, 0, 1]) :: field"
  have v: "field_value ?a = VInt 9007199254740992" "field_value ?b = VInt 9007199254740993" by (simp_all add: field_value_def recReadInt_def)
  have p: "put_varint 2 = [2]" "put_varint 6 = [6]" by (simp_all add: put_varint_def vdigits.simps [of 0])
  have r: "record_form 2 [?a]" "record_form 2 [?b]"
    by (simp_all add: record_form_def types_bytes_def p serial_len_def int_sizes_def DOLTLITE_MAX_RECORD_FIELDS_def)
  have l: "9 * length (encode_record 2 [?a]) + 16 < 2 ^ 31" "9 * length (encode_record 2 [?b]) + 16 < 2 ^ 31"
    by (simp_all add: encode_record_def types_bytes_def p)
  have "double_of_field ?a = double_of_i64 (2 ^ 53)" "double_of_field ?b = double_of_i64 (2 ^ 53 + 1)"
    unfolding double_of_field_def v by simp_all
  then have "double_of_field ?a = double_of_field ?b" using double_of_nat_odd by (simp add: double_of_i64_def nat_add_distrib)
  then have "field_key c ?a = field_key c ?b" for c unfolding field_key_def v by simp
  then show ?thesis
    using sort_key_encoded [OF r(1) l(1), of 0 None] sort_key_encoded [OF r(2) l(2), of 0 None] v
    by (simp add: sortKeyFromRecord_def sortKeyFromRecordPrefix_def key_fields_def)
qed

text \<open>A header that ends inside a varint is read beyond the record.\<close>

theorem sort_key_overread: "sortKeySize [2, 128] = Inl OUT_OF_BOUNDS"
  by (simp add: sortKeySize_def sortKeyEncode_def skGetVarint32_def sk_fields.simps read_byte_def sk_varint_loop.simps(2) [where k = 7, simplified])

text \<open>The estimate of the buffer wraps for a record of 238609293 bytes and becomes 64.\<close>

theorem key_estimate_wraps: "n = 238609293 \<Longrightarrow> key_estimate n = 64"
  by (simp add: key_estimate_def)

text \<open>Fields after the 64th are dropped.\<close>

lemma sk_decode_nulls:
  "pos + j = length k \<Longrightarrow> k = replicate (length k) SORTKEY_NULL \<Longrightarrow> length acc + i = 64 \<Longrightarrow> i \<le> j \<Longrightarrow>
     sk_decode ub k pos acc = Inr (acc @ replicate i \<lparr>skType = 0, skLen = 0, skBuf = [], skPtr = 0\<rparr>)"
proof (induction i arbitrary: pos j acc)
  case 0
  then show ?case by (subst sk_decode.simps) simp
next
  case (Suc i)
  have l: "pos < length k" using Suc.prems(1,4) by linarith
  have n: "k ! pos = SORTKEY_NULL" using Suc.prems(2) l by (metis nth_replicate)
  let ?s = "\<lparr>skType = 0, skLen = 0, skBuf = [], skPtr = 0\<rparr> :: sk_field"
  have "sk_decode ub k (pos + 1) (acc @ [?s]) = Inr ((acc @ [?s]) @ replicate i ?s)"
    using Suc.IH [of "pos + 1" "j - 1" "acc @ [?s]"] Suc.prems by simp
  then show ?case using l n Suc.prems(3) by (subst sk_decode.simps) simp
qed

theorem sort_key_drops_fields:
  "recordFromSortKey ub (replicate 65 SORTKEY_NULL) = recordFromSortKey ub (replicate 64 SORTKEY_NULL)"
proof -
  have d: "sk_decode ub (replicate n SORTKEY_NULL) 0 [] = Inr (replicate 64 \<lparr>skType = 0, skLen = 0, skBuf = [], skPtr = 0\<rparr>)" if "64 \<le> n" for n
    using sk_decode_nulls [of 0 n "replicate n SORTKEY_NULL" "[]" 64 ub] that by simp
  have b: "map (sk_body k) (replicate n \<lparr>skType = 0, skLen = 0, skBuf = [], skPtr = 0\<rparr>) = replicate n []" for k n
    by (simp add: sk_body_def)
  have ne: "replicate n SORTKEY_NULL \<noteq> []" if "64 \<le> n" for n using that by auto
  have two: "recordFromTwoNumericSortKeyBuffer ub (replicate n SORTKEY_NULL) 0 = Inl SQLITE_NOTFOUND" if "64 \<le> n" for n
    using that by (simp add: recordFromTwoNumericSortKeyBuffer_def)
  have g: "64 \<le> (64 :: nat)" "64 \<le> (65 :: nat)" by simp_all
  show ?thesis
    unfolding recordFromSortKey_def recordFromSortKeyBuffer_def if_not_P [OF ne [OF g(1)]] if_not_P [OF ne [OF g(2)]]
      two [OF g(1)] two [OF g(2)] d [OF g(1)] d [OF g(2)] bindR_Inr Let_def b ..
qed

section \<open>Examples\<close>

lemma ex_records:
  "record_form 3 [(1, [5]), (15, [66])]" "record_form 3 [(1, [5]), (15, [98])]"
  "encode_record 3 [(1, [5]), (15, [66])] = [3, 1, 15, 5, 66]" "encode_record 3 [(1, [5]), (15, [98])] = [3, 1, 15, 5, 98]"
  "\<forall>f \<in> {(1, [5]), (15, [66]), (15, [98])}. exact_number f"
proof -
  have p: "put_varint 3 = [3]" "put_varint (Suc 0) = [1]" "put_varint 15 = [15]" by (simp_all add: put_varint_def vdigits.simps [of 0])
  show "record_form 3 [(1, [5]), (15, [66])]" "record_form 3 [(1, [5]), (15, [98])]"
    by (simp_all add: record_form_def types_bytes_def p serial_len_spec)
  show "encode_record 3 [(1, [5]), (15, [66])] = [3, 1, 15, 5, 66]" "encode_record 3 [(1, [5]), (15, [98])] = [3, 1, 15, 5, 98]"
    by (simp_all add: encode_record_def types_bytes_def p)
  show "\<forall>f \<in> {(1, [5]), (15, [66]), (15, [98])}. exact_number f"
    by (simp add: exact_number_def be_signed_def)
qed

text \<open>The texts \<open>B\<close> and \<open>b\<close> in a column with the collation \<open>NoCase\<close>, and in one without.\<close>

definition ex_nocase :: key_info where
  "ex_nocase = [None, Some (ascii ''NoCase'')]"

lemma ex_values:
  "sql_values (Some ex_nocase) 0 [(1, [5]), (15, [66])] = [SkNum (5 * 2 ^ 1074), SkText [98]]"
  "sql_values (Some ex_nocase) 0 [(1, [5]), (15, [98])] = [SkNum (5 * 2 ^ 1074), SkText [98]]"
proof -
  have c: "column_collation (Some ex_nocase) 0 = []" "column_collation (Some ex_nocase) (Suc 0) = ascii ''nocase''" by code_simp+
  have l: "lower 66 = 98" "lower 98 = 98" by (simp_all add: lower_code UpperToLower_def)
  show "sql_values (Some ex_nocase) 0 [(1, [5]), (15, [66])] = [SkNum (5 * 2 ^ 1074), SkText [98]]"
    "sql_values (Some ex_nocase) 0 [(1, [5]), (15, [98])] = [SkNum (5 * 2 ^ 1074), SkText [98]]"
    by (simp_all add: c l sql_value_def be_signed_def collated_def)
qed

lemma sort_key_order_witness:
  "\<exists>a b. sortKeyFromRecordPrefixColl [3, 1, 15, 5, 66] 0 (Some ex_nocase) = Inr a \<and>
     sortKeyFromRecordPrefixColl [3, 1, 15, 5, 98] 0 (Some ex_nocase) = Inr b \<and> compareSortKeys a b = 0"
  using sort_key_order [OF ex_records(1) _ ex_records(2), of 0 "Some ex_nocase"] ex_records(3-5) ex_values
  by (simp add: key_fields_def del: sql_values.simps) blast

lemma sort_key_roundtrip_witness:
  "\<exists>k hs' gs. sortKeyFromRecordPrefixColl [3, 1, 15, 5, 66] 0 (Some ex_nocase) = Inr k \<and>
     recordFromSortKey (\<lambda>x. 0) k = Inr (encode_record hs' gs) \<and> sql_values None 0 gs = [SkNum (5 * 2 ^ 1074), SkText [98]]"
  using sort_key_roundtrip [OF ex_records(1), of 0 "Some ex_nocase" "\<lambda>x. 0"] ex_records(3,5) ex_values(1)
  by (auto simp: key_fields_def simp del: sql_values.simps)

lemma sort_key_fits_witness: "\<exists>k. sortKeyFromRecordPrefixColl [2, 0] 0 None = Inr k \<and> int (length k) = 1"
proof -
  have "sortKeyEncode [2, 0] None 0 None = Inr (1, [])"
    by (simp add: sortKeyEncode_def skGetVarint32_def sk_fields.simps serialTypeLen_def int_sizes_def encodedFieldSize_def serialTypeTag_def
        SORTKEY_NULL_def SORTKEY_NUM_def SORTKEY_TEXT_def SORTKEY_BLOB_def)
  from sort_key_fits [OF this] show ?thesis by simp
qed

end
