(* ===== verification/Diff.thy ===== *)
theory Diff
  imports CursorScan RecordFormat
begin

text \<open>
  The differences between two trees (\<open>prolly_diff.c\<close>, \<open>prolly_diff.h\<close>): the comparison of two records, the
  walk of two cursors side by side that reports every changed row to a callback, the walk of two trees
  level by level that leaves out what both share, and the iterator that hands out one change at a time.

  A function here works on a pair of cursors, \<open>Old\<close> and \<open>New\<close>, over one store and one cache; a cursor is \<open>None\<close>
  while it is not allocated.  A pointer with its length is the list of its bytes, and a null pointer the
  empty list.  Allocation never fails.
\<close>

section \<open>Two cursors over one store\<close>

datatype side = Old | New

record 's dpair = "'s env" +
  dOld :: "cursor option"
  dNew :: "cursor option"

definition cur_of :: "side \<Rightarrow> ('s, 'z) dpair_scheme \<Rightarrow> cursor option" where
  "cur_of s w = (case s of Old \<Rightarrow> dOld w | New \<Rightarrow> dNew w)"

definition set_cur :: "side \<Rightarrow> cursor option \<Rightarrow> ('s, 'z) dpair_scheme \<Rightarrow> ('s, 'z) dpair_scheme" where
  "set_cur s c w = (case s of Old \<Rightarrow> w\<lparr>dOld := c\<rparr> | New \<Rightarrow> w\<lparr>dNew := c\<rparr>)"

text \<open>An operation of the cursor, on one of the two.\<close>

definition on_cur :: "side \<Rightarrow> ('s cenv, 'a) op \<Rightarrow> (('s, 'z) dpair_scheme, 'a) op" where
  "on_cur s m w =
     (case cur_of s w of
        None \<Rightarrow> (w, Inl OUT_OF_BOUNDS)
      | Some c \<Rightarrow>
          case m \<lparr>eStore = eStore w, eCache = eCache w, eCur = c\<rparr> of
            (v, r) \<Rightarrow> (set_cur s (Some (eCur v)) (w\<lparr>eStore := eStore v, eCache := eCache v\<rparr>), r))"

definition cur_valid :: "side \<Rightarrow> (('s, 'z) dpair_scheme, bool) op" where
  "cur_valid s = readO (\<lambda>w. case cur_of s w of None \<Rightarrow> Inl OUT_OF_BOUNDS | Some c \<Rightarrow> Inr (prollyCursorIsValid c))"

section \<open>Comparing keys and values\<close>

definition diffBlobKeyCmp :: "byte list \<Rightarrow> byte list \<Rightarrow> int" where
  "diffBlobKeyCmp a b =
     (let n = (if length a < length b then length a else length b); c = memcmp a b n in
      if c \<noteq> 0 then c else int (length a) - int (length b))"

definition diffCompareKeys :: "(('s, 'z) dpair_scheme, int) op" where
  "diffCompareKeys =
     bindO (on_cur Old prollyCursorKey) (\<lambda>kOld. bindO (on_cur New prollyCursorKey) (\<lambda>kNew.
     retO (diffBlobKeyCmp kOld kNew)))"

text \<open>The argument is a serial type that was stored as \<open>int\<close>, converted to 64 bits.\<close>

definition diffSerialTypeSize :: "u64 \<Rightarrow> int" where
  "diffSerialTypeSize st =
     (if st = 0 then 0 else if st = 1 then 1 else if st = 2 then 2 else if st = 3 then 3
      else if st = 4 then 4 else if st = 5 then 6 else if st = 6 then 8 else if st = 7 then 8
      else if st = 8 \<or> st = 9 then 0
      else if st \<ge> 12 \<and> st AND 1 = 0 then int_cast (st - 12) sdiv 2
      else if st \<ge> 13 \<and> st AND 1 = 1 then int_cast (st - 13) sdiv 2
      else 0)"

text \<open>The loop over the fields of two records with the same number of fields.\<close>

fun fields_equal :: "byte list \<Rightarrow> byte list \<Rightarrow> (int \<times> int) list \<Rightarrow> (int \<times> int) list \<Rightarrow> bool res" where
  "fields_equal a b ((stA, offA) # fsA) ((stB, offB) # fsB) =
     (if stA \<noteq> stB then Inr False
      else
        let szA = diffSerialTypeSize (of_int stA); szB = diffSerialTypeSize (of_int stB) in
        if szA \<noteq> szB then Inr False
        else if szA > 0 then
          bindR (read_at a offA szA) (\<lambda>x. bindR (read_at b offB szA) (\<lambda>y.
          if memcmp x y (nat szA) \<noteq> 0 then Inr False else fields_equal a b fsA fsB))
        else fields_equal a b fsA fsB)"
| "fields_equal a b _ _ = Inr True"

definition diffRecordsEqualFieldwise :: "byte list \<Rightarrow> byte list \<Rightarrow> bool res" where
  "diffRecordsEqualFieldwise a b =
     (if length a < 1 \<or> length b < 1 then Inl SQLITE_CORRUPT
      else
        case doltliteParseRecordStrict a of
          (_, Inl e) \<Rightarrow> Inl e
        | (ia, Inr _) \<Rightarrow>
            case doltliteParseRecordStrict b of
              (_, Inl e) \<Rightarrow> Inl e
            | (ib, Inr _) \<Rightarrow>
                if nField ia \<noteq> nField ib then Inr False
                else fields_equal a b (zip (aType ia) (aOffset ia)) (zip (aType ib) (aOffset ib)))"

definition prollyValuesEqual :: "byte list \<Rightarrow> byte list \<Rightarrow> bool res" where
  "prollyValuesEqual a b =
     (if length a = length b \<and> length a = 0 then Inr True
      else if length a = length b \<and> memcmp a b (length a) = 0 then
        if length a < 2 then Inl SQLITE_CORRUPT
        else bindR (diffRecordsEqualFieldwise a b) (\<lambda>eq. if eq then Inr True else Inl SQLITE_CORRUPT)
      else if length a < 2 \<or> length b < 2 then Inl SQLITE_CORRUPT
      else diffRecordsEqualFieldwise a b)"

text \<open>The result is the code: \<open>SQLITE_DONE\<close> for values that differ.\<close>

definition diffValuesEqual :: "(('s, 'z) dpair_scheme, unit res) op" where
  "diffValuesEqual =
     bindO (on_cur Old prollyCursorValue) (\<lambda>vOld. bindO (on_cur New prollyCursorValue) (\<lambda>vNew.
     retO (bindR (prollyValuesEqual vOld vNew) (\<lambda>eq. if eq then Inr () else Inl SQLITE_DONE))))"

section \<open>Changes\<close>

definition PROLLY_DIFF_ADD :: byte where "PROLLY_DIFF_ADD = 1"
definition PROLLY_DIFF_DELETE :: byte where "PROLLY_DIFF_DELETE = 2"
definition PROLLY_DIFF_MODIFY :: byte where "PROLLY_DIFF_MODIFY = 3"

record diff_change =
  dcType :: byte
  dcKey :: "byte list"
  dcIntKey :: u64
  dcOldVal :: "byte list"
  dcNewVal :: "byte list"

definition diff_change0 :: diff_change where
  "diff_change0 = \<lparr>dcType = 0, dcKey = [], dcIntKey = 0, dcOldVal = [], dcNewVal = []\<rparr>"

text \<open>The callback with its context, and the stack of \<open>prollyDiff\<close>, the top first.\<close>

type_synonym 'c diff_cb = "'c \<Rightarrow> diff_change \<Rightarrow> 'c \<times> unit res"

record ('s, 'c) dwalk = "'s dpair" +
  pCtx :: 'c
  aStack :: "hash list"

definition call_cb :: "'c diff_cb \<Rightarrow> diff_change \<Rightarrow> (('s, 'c) dwalk, unit) op" where
  "call_cb cb ch w = (case cb (pCtx w) ch of (c, r) \<Rightarrow> (w\<lparr>pCtx := c\<rparr>, r))"

definition diffFillKey :: "side \<Rightarrow> byte \<Rightarrow> diff_change \<Rightarrow> (('s, 'z) dpair_scheme, diff_change) op" where
  "diffFillKey s fl ch =
     bindO (on_cur s prollyCursorKey) (\<lambda>k.
     bindO (if fl AND PROLLY_NODE_INTKEY \<noteq> 0 then on_cur s prollyCursorIntKey else retO 0) (\<lambda>ik.
     retO (ch\<lparr>dcKey := k, dcIntKey := ik\<rparr>)))"

definition diffEmitDelete :: "byte \<Rightarrow> 'c diff_cb \<Rightarrow> (('s, 'c) dwalk, unit) op" where
  "diffEmitDelete fl cb =
     bindO (diffFillKey Old fl (diff_change0\<lparr>dcType := PROLLY_DIFF_DELETE\<rparr>)) (\<lambda>ch.
     bindO (on_cur Old prollyCursorValue) (\<lambda>v.
     call_cb cb (ch\<lparr>dcOldVal := v, dcNewVal := []\<rparr>)))"

definition diffEmitAdd :: "byte \<Rightarrow> 'c diff_cb \<Rightarrow> (('s, 'c) dwalk, unit) op" where
  "diffEmitAdd fl cb =
     bindO (diffFillKey New fl (diff_change0\<lparr>dcType := PROLLY_DIFF_ADD\<rparr>)) (\<lambda>ch.
     bindO (on_cur New prollyCursorValue) (\<lambda>v.
     call_cb cb (ch\<lparr>dcOldVal := [], dcNewVal := v\<rparr>)))"

definition diffEmitModify :: "byte \<Rightarrow> 'c diff_cb \<Rightarrow> (('s, 'c) dwalk, unit) op" where
  "diffEmitModify fl cb =
     bindO (diffFillKey New fl (diff_change0\<lparr>dcType := PROLLY_DIFF_MODIFY\<rparr>)) (\<lambda>ch.
     bindO (on_cur Old prollyCursorValue) (\<lambda>vOld. bindO (on_cur New prollyCursorValue) (\<lambda>vNew.
     call_cb cb (ch\<lparr>dcOldVal := vOld, dcNewVal := vNew\<rparr>))))"

section \<open>Walking two cursors\<close>

text \<open>The loop while both cursors are valid, and the loop over what one of them has left.\<close>

fun merge_both :: "nat \<Rightarrow> 's chunk_get \<Rightarrow> byte \<Rightarrow> 'c diff_cb \<Rightarrow> (('s, 'c) dwalk, unit) op" where
  "merge_both 0 get fl cb = failO NO_RETURN"
| "merge_both (Suc n) get fl cb =
     bindO (cur_valid Old) (\<lambda>vOld. bindO (cur_valid New) (\<lambda>vNew.
     if vOld \<and> vNew then
       bindO diffCompareKeys (\<lambda>cmp.
       bindO
         (if cmp < 0 then bindO (diffEmitDelete fl cb) (\<lambda>_. on_cur Old (prollyCursorNext get))
          else if cmp > 0 then bindO (diffEmitAdd fl cb) (\<lambda>_. on_cur New (prollyCursorNext get))
          else
            bindO diffValuesEqual (\<lambda>rc.
            bindO (if rc = Inl SQLITE_DONE then diffEmitModify fl cb else readO (\<lambda>_. rc)) (\<lambda>_.
            bindO (on_cur Old (prollyCursorNext get)) (\<lambda>_. on_cur New (prollyCursorNext get))))) (\<lambda>_.
       merge_both n get fl cb))
     else retO ()))"

fun walk_rest :: "nat \<Rightarrow> 's chunk_get \<Rightarrow> side \<Rightarrow> (('s, 'c) dwalk, unit) op \<Rightarrow> (('s, 'c) dwalk, unit) op" where
  "walk_rest 0 get s emit = failO NO_RETURN"
| "walk_rest (Suc n) get s emit =
     bindO (cur_valid s) (\<lambda>v.
     if v then bindO emit (\<lambda>_. bindO (on_cur s (prollyCursorNext get)) (\<lambda>_. walk_rest n get s emit))
     else retO ())"

definition diffMergeWalk :: "nat \<Rightarrow> 's chunk_get \<Rightarrow> byte \<Rightarrow> 'c diff_cb \<Rightarrow> (('s, 'c) dwalk, unit) op" where
  "diffMergeWalk n get fl cb =
     bindO (merge_both n get fl cb) (\<lambda>_.
     bindO (walk_rest n get Old (diffEmitDelete fl cb)) (\<lambda>_.
     walk_rest n get New (diffEmitAdd fl cb)))"

text \<open>Cursors that are allocated, used, closed and freed, whatever the use returns.\<close>

definition close_cur :: "side \<Rightarrow> (('s, 'z) dpair_scheme, unit) op" where
  "close_cur s = bindO (on_cur s prollyCursorClose) (\<lambda>_. updO (set_cur s None))"

definition finallyO :: "('w, 'a) op \<Rightarrow> ('w, unit) op \<Rightarrow> ('w, 'a) op" where
  "finallyO m c w = (case m w of (w, r) \<Rightarrow> bindO c (\<lambda>_. readO (\<lambda>_. r)) w)"

definition diffCursorWalk :: "nat \<Rightarrow> 's chunk_get \<Rightarrow> hash \<Rightarrow> hash \<Rightarrow> byte \<Rightarrow> 'c diff_cb \<Rightarrow> (('s, 'c) dwalk, unit) op" where
  "diffCursorWalk n get oldRoot newRoot fl cb =
     bindO (updO (set_cur Old (Some (prollyCursorInit oldRoot fl)))) (\<lambda>_.
     bindO (updO (set_cur New (Some (prollyCursorInit newRoot fl)))) (\<lambda>_.
     finallyO
       (bindO (on_cur Old (prollyCursorFirst get)) (\<lambda>_. bindO (on_cur New (prollyCursorFirst get)) (\<lambda>_.
        diffMergeWalk n get fl cb)))
       (bindO (close_cur Old) (\<lambda>_. close_cur New))))"

text \<open>The one cursor of \<open>diffEmitSubtree\<close> is on the side of the change that it reports.\<close>

definition diffEmitSubtree :: "nat \<Rightarrow> 's chunk_get \<Rightarrow> hash \<Rightarrow> byte \<Rightarrow> side \<Rightarrow> 'c diff_cb \<Rightarrow> (('s, 'c) dwalk, unit) op" where
  "diffEmitSubtree n get root fl s cb =
     (if prollyHashIsEmpty root then retO ()
      else
        bindO (updO (set_cur s (Some (prollyCursorInit root fl)))) (\<lambda>_.
        finallyO
          (bindO (on_cur s (prollyCursorFirst get)) (\<lambda>res.
           if res \<noteq> 0 then retO ()
           else walk_rest n get s (case s of New \<Rightarrow> diffEmitAdd fl cb | Old \<Rightarrow> diffEmitDelete fl cb)))
          (close_cur s)))"

section \<open>Walking two trees\<close>

definition diffNodeKeyCmp :: "node \<Rightarrow> nat \<Rightarrow> node \<Rightarrow> nat \<Rightarrow> int res" where
  "diffNodeKeyCmp a i b j = bindR (prollyNodeKey a i) (\<lambda>ka. bindR (prollyNodeKey b j) (\<lambda>kb. Inr (diffBlobKeyCmp ka kb)))"

definition diffEmitKey :: "diff_change \<Rightarrow> node \<Rightarrow> nat \<Rightarrow> byte \<Rightarrow> diff_change res" where
  "diffEmitKey ch nd i fl =
     bindR (prollyNodeKey nd i) (\<lambda>k.
     bindR (if fl AND PROLLY_NODE_INTKEY \<noteq> 0 then prollyNodeIntKey nd i else Inr 0) (\<lambda>ik.
     Inr (ch\<lparr>dcKey := k, dcIntKey := ik\<rparr>)))"

text \<open>Reporting one item of a leaf.\<close>

definition leaf_change :: "side \<Rightarrow> node \<Rightarrow> nat \<Rightarrow> byte \<Rightarrow> diff_change res" where
  "leaf_change s nd i fl =
     bindR (diffEmitKey (diff_change0\<lparr>dcType := (case s of Old \<Rightarrow> PROLLY_DIFF_DELETE | New \<Rightarrow> PROLLY_DIFF_ADD)\<rparr>) nd i fl) (\<lambda>ch.
     bindR (prollyNodeValue nd i) (\<lambda>v.
     Inr (case s of Old \<Rightarrow> ch\<lparr>dcOldVal := v\<rparr> | New \<Rightarrow> ch\<lparr>dcNewVal := v\<rparr>)))"

definition leaf_modify :: "node \<Rightarrow> nat \<Rightarrow> byte list \<Rightarrow> byte list \<Rightarrow> byte \<Rightarrow> diff_change res" where
  "leaf_modify nd j vOld vNew fl =
     bindR (diffEmitKey (diff_change0\<lparr>dcType := PROLLY_DIFF_MODIFY\<rparr>) nd j fl) (\<lambda>ch.
     Inr (ch\<lparr>dcOldVal := vOld, dcNewVal := vNew\<rparr>))"

definition emit_leaf :: "diff_change res \<Rightarrow> 'c diff_cb \<Rightarrow> (('s, 'c) dwalk, unit) op" where
  "emit_leaf ch cb = bindO (readO (\<lambda>_. ch)) (call_cb cb)"

fun leaf_rest :: "nat \<Rightarrow> side \<Rightarrow> node \<Rightarrow> nat \<Rightarrow> byte \<Rightarrow> 'c diff_cb \<Rightarrow> (('s, 'c) dwalk, unit) op" where
  "leaf_rest 0 s nd i fl cb = retO ()"
| "leaf_rest (Suc n) s nd i fl cb = bindO (emit_leaf (leaf_change s nd i fl) cb) (\<lambda>_. leaf_rest n s nd (i + 1) fl cb)"

function leaf_walk :: "node \<Rightarrow> node \<Rightarrow> nat \<Rightarrow> nat \<Rightarrow> byte \<Rightarrow> 'c diff_cb \<Rightarrow> (('s, 'c) dwalk, unit) op" where
  "leaf_walk nOld nNew i j fl cb =
     (if i < nItems nOld \<and> j < nItems nNew then
        bindO (readO (\<lambda>_. diffNodeKeyCmp nOld i nNew j)) (\<lambda>cmp.
        if cmp < 0 then
          bindO (emit_leaf (leaf_change Old nOld i fl) cb) (\<lambda>_. leaf_walk nOld nNew (i + 1) j fl cb)
        else if cmp > 0 then
          bindO (emit_leaf (leaf_change New nNew j fl) cb) (\<lambda>_. leaf_walk nOld nNew i (j + 1) fl cb)
        else
          bindO (readO (\<lambda>_. prollyNodeValue nOld i)) (\<lambda>vOld. bindO (readO (\<lambda>_. prollyNodeValue nNew j)) (\<lambda>vNew.
          bindO (readO (\<lambda>_. prollyValuesEqual vOld vNew)) (\<lambda>eq.
          bindO (if eq then retO () else emit_leaf (leaf_modify nNew j vOld vNew fl) cb) (\<lambda>_.
          leaf_walk nOld nNew (i + 1) (j + 1) fl cb)))))
      else
        bindO (leaf_rest (nItems nOld - i) Old nOld i fl cb) (\<lambda>_. leaf_rest (nItems nNew - j) New nNew j fl cb))"
  by pat_completeness auto
termination by (relation "measure (\<lambda>(nOld, nNew, i, j, fl, cb). (nItems nOld - i) + (nItems nNew - j))") auto

declare leaf_walk.simps [simp del]

definition diffLeaves :: "node \<Rightarrow> node \<Rightarrow> byte \<Rightarrow> 'c diff_cb \<Rightarrow> (('s, 'c) dwalk, unit) op" where
  "diffLeaves nOld nNew fl cb = leaf_walk nOld nNew 0 0 fl cb"

text \<open>Reading a node from the store, not through the cache.\<close>

definition read_node :: "'s chunk_get \<Rightarrow> hash \<Rightarrow> (('s, 'z) env_scheme, node) op" where
  "read_node get h w =
     (case get (eStore w) h of
        (st, Inl e) \<Rightarrow> (w\<lparr>eStore := st\<rparr>, Inl e)
      | (st, Inr d) \<Rightarrow> (w\<lparr>eStore := st\<rparr>, prollyNodeParse d))"

text \<open>
  The walk from the first children whose keys differ: two new cursors are placed behind the key of the
  children before them, or at the start of the trees.
\<close>

definition seek_past_int :: "'s chunk_get \<Rightarrow> u64 \<Rightarrow> ('s cenv, unit) op" where
  "seek_past_int get k =
     bindO (prollyCursorSeekInt get k) (\<lambda>res. if res = 0 then prollyCursorNext get else retO ())"

definition seek_past_blob :: "'s chunk_get \<Rightarrow> byte list \<Rightarrow> ('s cenv, unit) op" where
  "seek_past_blob get k =
     bindO (prollyCursorSeekBlob get k) (\<lambda>res. if res = 0 then prollyCursorNext get else retO ())"

definition mismatch_walk ::
  "nat \<Rightarrow> 's chunk_get \<Rightarrow> hash \<Rightarrow> hash \<Rightarrow> node \<Rightarrow> nat \<Rightarrow> byte \<Rightarrow> 'c diff_cb \<Rightarrow> (('s, 'c) dwalk, unit) op" where
  "mismatch_walk n get oldRoot newRoot nOld i fl cb =
     bindO (updO (set_cur Old (Some (prollyCursorInit oldRoot fl)))) (\<lambda>_.
     bindO (updO (set_cur New (Some (prollyCursorInit newRoot fl)))) (\<lambda>_.
     finallyO
       (bindO
          (if i > 0 \<and> fl AND PROLLY_NODE_INTKEY \<noteq> 0 then
             bindO (readO (\<lambda>_. prollyNodeIntKey nOld (i - 1))) (\<lambda>k.
             bindO (on_cur Old (seek_past_int get k)) (\<lambda>_. on_cur New (seek_past_int get k)))
           else if i > 0 then
             bindO (readO (\<lambda>_. prollyNodeKey nOld (i - 1))) (\<lambda>k.
             bindO (on_cur Old (seek_past_blob get k)) (\<lambda>_. on_cur New (seek_past_blob get k)))
           else
             bindO (on_cur Old (prollyCursorFirst get)) (\<lambda>_. bindO (on_cur New (prollyCursorFirst get)) (\<lambda>_. retO ()))) (\<lambda>_.
        diffMergeWalk n get fl cb))
       (bindO (close_cur Old) (\<lambda>_. close_cur New))))"

text \<open>The children that only one of the nodes has left.\<close>

fun subtrees_rest :: "nat \<Rightarrow> nat \<Rightarrow> 's chunk_get \<Rightarrow> side \<Rightarrow> node \<Rightarrow> nat \<Rightarrow> byte \<Rightarrow> 'c diff_cb \<Rightarrow> (('s, 'c) dwalk, unit) op" where
  "subtrees_rest 0 n get s nd i fl cb = retO ()"
| "subtrees_rest (Suc m) n get s nd i fl cb =
     bindO (readO (\<lambda>_. prollyNodeChildHash nd i)) (\<lambda>h.
     bindO (diffEmitSubtree n get h fl s cb) (\<lambda>_. subtrees_rest m n get s nd (i + 1) fl cb))"

function diff_children ::
  "nat \<Rightarrow> 's chunk_get \<Rightarrow> hash \<Rightarrow> hash \<Rightarrow> node \<Rightarrow> node \<Rightarrow> nat \<Rightarrow> nat \<Rightarrow> byte \<Rightarrow> 'c diff_cb \<Rightarrow> (('s, 'c) dwalk, unit) op" where
  "diff_children n get oldRoot newRoot nOld nNew i j fl cb =
     (if i < nItems nOld \<and> j < nItems nNew then
        bindO (readO (\<lambda>_. prollyNodeChildHash nOld i)) (\<lambda>oldChild. bindO (readO (\<lambda>_. prollyNodeChildHash nNew j)) (\<lambda>newChild.
        if prollyHashCompare oldChild newChild = 0 then diff_children n get oldRoot newRoot nOld nNew (i + 1) (j + 1) fl cb
        else
          bindO (readO (\<lambda>_. diffNodeKeyCmp nOld i nNew j)) (\<lambda>cmp.
          if cmp = 0 then
            bindO (updO (\<lambda>w. w\<lparr>aStack := newChild # oldChild # aStack w\<rparr>)) (\<lambda>_.
            diff_children n get oldRoot newRoot nOld nNew (i + 1) (j + 1) fl cb)
          else mismatch_walk n get oldRoot newRoot nOld i fl cb)))
      else
        bindO (subtrees_rest (nItems nOld - i) n get Old nOld i fl cb) (\<lambda>_.
        subtrees_rest (nItems nNew - j) n get New nNew j fl cb))"
  by pat_completeness auto
termination by (relation "measure (\<lambda>(n, get, oldRoot, newRoot, nOld, nNew, i, j, fl, cb). nItems nOld - i)") auto

declare diff_children.simps [simp del]

definition diffNodesOneLevel ::
  "nat \<Rightarrow> 's chunk_get \<Rightarrow> hash \<Rightarrow> hash \<Rightarrow> hash \<Rightarrow> hash \<Rightarrow> byte \<Rightarrow> 'c diff_cb \<Rightarrow> (('s, 'c) dwalk, unit) op" where
  "diffNodesOneLevel n get oldHash newHash oldRoot newRoot fl cb =
     (if prollyHashCompare oldHash newHash = 0 then retO ()
      else if prollyHashIsEmpty oldHash \<and> prollyHashIsEmpty newHash then retO ()
      else if prollyHashIsEmpty oldHash then diffEmitSubtree n get newHash fl New cb
      else if prollyHashIsEmpty newHash then diffEmitSubtree n get oldHash fl Old cb
      else
        bindO (read_node get oldHash) (\<lambda>nOld. bindO (read_node get newHash) (\<lambda>nNew.
        if level nOld = 0 \<and> level nNew = 0 then diffLeaves nOld nNew fl cb
        else if level nOld > 0 \<and> level nNew > 0 then diff_children n get oldRoot newRoot nOld nNew 0 0 fl cb
        else diffCursorWalk n get oldRoot newRoot fl cb)))"

fun diff_loop :: "nat \<Rightarrow> nat \<Rightarrow> 's chunk_get \<Rightarrow> hash \<Rightarrow> hash \<Rightarrow> byte \<Rightarrow> 'c diff_cb \<Rightarrow> (('s, 'c) dwalk, unit) op" where
  "diff_loop m n get oldRoot newRoot fl cb w =
     (case aStack w of
        newH # oldH # st \<Rightarrow>
          (case m of
             0 \<Rightarrow> (w, Inl NO_RETURN)
           | Suc m' \<Rightarrow>
               bindO (diffNodesOneLevel n get oldH newH oldRoot newRoot fl cb) (\<lambda>_. diff_loop m' n get oldRoot newRoot fl cb)
                 (w\<lparr>aStack := st\<rparr>))
      | _ \<Rightarrow> (w, Inr ()))"

declare diff_loop.simps [simp del]

definition prollyDiff :: "nat \<Rightarrow> nat \<Rightarrow> 's chunk_get \<Rightarrow> hash \<Rightarrow> hash \<Rightarrow> byte \<Rightarrow> 'c diff_cb \<Rightarrow> (('s, 'c) dwalk, unit) op" where
  "prollyDiff m n get oldRoot newRoot fl cb =
     bindO (updO (\<lambda>w. w\<lparr>aStack := [newRoot, oldRoot]\<rparr>)) (\<lambda>_.
     finallyO (diff_loop m n get oldRoot newRoot fl cb) (updO (\<lambda>w. w\<lparr>aStack := []\<rparr>)))"

section \<open>The iterator\<close>

record 's diff_iter = "'s dpair" +
  itFlags :: byte
  itEof :: bool
  itRc :: "unit res"
  current :: diff_change
  pKeyCopy :: "byte list"
  pOldValCopy :: "byte list"
  pNewValCopy :: "byte list"

definition diffIterFreeCopies :: "('s diff_iter, unit) op" where
  "diffIterFreeCopies = updO (\<lambda>w. w\<lparr>pKeyCopy := [], pOldValCopy := [], pNewValCopy := []\<rparr>)"

text \<open>Running an operation with \<open>pIter->rc = ...\<close>, and leaving the function if it fails.\<close>

definition set_rc :: "('s diff_iter, 'a) op \<Rightarrow> ('s diff_iter, 'a) op" where
  "set_rc m w =
     (case m w of
        (w, Inl e) \<Rightarrow> (w\<lparr>itRc := Inl e\<rparr>, Inl e)
      | (w, Inr a) \<Rightarrow> (w\<lparr>itRc := Inr ()\<rparr>, Inr a))"

definition diffIterCopyKey :: "side \<Rightarrow> ('s diff_iter, unit) op" where
  "diffIterCopyKey s =
     bindO (on_cur s prollyCursorKey) (\<lambda>k.
     bindO (updO (\<lambda>w. if length k > 0 then w\<lparr>pKeyCopy := k\<rparr> else w)) (\<lambda>_.
     bindO (updO (\<lambda>w. w\<lparr>current := (current w)\<lparr>dcKey := pKeyCopy w\<rparr>\<rparr>)) (\<lambda>_.
     bindO (readO (\<lambda>w. Inr (itFlags w))) (\<lambda>fl.
     bindO (if fl AND PROLLY_NODE_INTKEY \<noteq> 0 then on_cur s prollyCursorIntKey else retO 0) (\<lambda>ik.
     updO (\<lambda>w. w\<lparr>current := (current w)\<lparr>dcIntKey := ik\<rparr>\<rparr>))))))"

definition copy_old :: "('s diff_iter, unit) op" where
  "copy_old =
     bindO (on_cur Old prollyCursorValue) (\<lambda>v.
     updO (\<lambda>w. if length v > 0 then w\<lparr>pOldValCopy := v\<rparr> else w))"

definition copy_new :: "('s diff_iter, unit) op" where
  "copy_new =
     bindO (on_cur New prollyCursorValue) (\<lambda>v.
     updO (\<lambda>w. if length v > 0 then w\<lparr>pNewValCopy := v\<rparr> else w))"

text \<open>The four blocks that copy a row that only one side has, and move on.\<close>

definition iter_one :: "'s chunk_get \<Rightarrow> side \<Rightarrow> ('s diff_iter, unit) op" where
  "iter_one get s =
     bindO (updO (\<lambda>w. w\<lparr>current := (current w)\<lparr>dcType := (case s of Old \<Rightarrow> PROLLY_DIFF_DELETE | New \<Rightarrow> PROLLY_DIFF_ADD)\<rparr>\<rparr>)) (\<lambda>_.
     bindO (set_rc (diffIterCopyKey s)) (\<lambda>_.
     bindO (case s of Old \<Rightarrow> copy_old | New \<Rightarrow> copy_new) (\<lambda>_.
     bindO (updO (\<lambda>w. w\<lparr>current := (case s of Old \<Rightarrow> (current w)\<lparr>dcOldVal := pOldValCopy w\<rparr>
                                            | New \<Rightarrow> (current w)\<lparr>dcNewVal := pNewValCopy w\<rparr>)\<rparr>)) (\<lambda>_.
     set_rc (on_cur s (prollyCursorNext get))))))"

definition iter_both :: "'s chunk_get \<Rightarrow> ('s diff_iter, unit) op" where
  "iter_both get = bindO (set_rc (on_cur Old (prollyCursorNext get))) (\<lambda>_. set_rc (on_cur New (prollyCursorNext get)))"

definition iter_modify :: "'s chunk_get \<Rightarrow> ('s diff_iter, unit) op" where
  "iter_modify get =
     bindO (updO (\<lambda>w. w\<lparr>itRc := Inr (), current := (current w)\<lparr>dcType := PROLLY_DIFF_MODIFY\<rparr>\<rparr>)) (\<lambda>_.
     bindO (set_rc (diffIterCopyKey New)) (\<lambda>_.
     bindO copy_old (\<lambda>_. bindO copy_new (\<lambda>_.
     bindO (updO (\<lambda>w. w\<lparr>current := (current w)\<lparr>dcOldVal := pOldValCopy w, dcNewVal := pNewValCopy w\<rparr>\<rparr>)) (\<lambda>_.
     iter_both get)))))"

text \<open>\<open>Some\<close> is \<open>SQLITE_ROW\<close> with the change, \<open>None\<close> is \<open>SQLITE_DONE\<close>.\<close>

fun step_loop :: "nat \<Rightarrow> 's chunk_get \<Rightarrow> ('s diff_iter, diff_change option) op" where
  "step_loop 0 get = failO NO_RETURN"
| "step_loop (Suc n) get =
     bindO (cur_valid Old) (\<lambda>validOld. bindO (cur_valid New) (\<lambda>validNew.
     if \<not> validOld \<and> \<not> validNew then bindO (updO (\<lambda>w. w\<lparr>itEof := True\<rparr>)) (\<lambda>_. retO None)
     else
       bindO (updO (\<lambda>w. w\<lparr>current := diff_change0\<rparr>)) (\<lambda>_.
       let row = \<lambda>m. bindO m (\<lambda>_. readO (\<lambda>w. Inr (Some (current w)))) in
       if validOld \<and> validNew then
         bindO diffCompareKeys (\<lambda>cmp.
         if cmp < 0 then row (iter_one get Old)
         else if cmp > 0 then row (iter_one get New)
         else
           bindO diffValuesEqual (\<lambda>rc.
           bindO (updO (\<lambda>w. w\<lparr>itRc := rc\<rparr>)) (\<lambda>_.
           if rc = Inr () then bindO (iter_both get) (\<lambda>_. step_loop n get)
           else if rc = Inl SQLITE_DONE then row (iter_modify get)
           else bindO (readO (\<lambda>_. rc)) (\<lambda>_. retO None))))
       else if validOld then row (iter_one get Old)
       else row (iter_one get New))))"

definition prollyDiffIterStep :: "nat \<Rightarrow> 's chunk_get \<Rightarrow> ('s diff_iter, diff_change option) op" where
  "prollyDiffIterStep n get =
     bindO (readO (\<lambda>w. Inr (itEof w))) (\<lambda>eof.
     if eof then retO None
     else
       bindO (readO itRc) (\<lambda>_.
       bindO diffIterFreeCopies (\<lambda>_. step_loop n get)))"

text \<open>The iterator that \<open>prollyDiffIterOpen\<close> fills in, on a store and a cache.\<close>

definition diff_iter0 :: "'s \<Rightarrow> cache \<Rightarrow> hash \<Rightarrow> hash \<Rightarrow> byte \<Rightarrow> 's diff_iter" where
  "diff_iter0 st ca oldRoot newRoot fl =
     \<lparr>eStore = st, eCache = ca, dOld = Some (prollyCursorInit oldRoot fl), dNew = Some (prollyCursorInit newRoot fl),
      itFlags = fl, itEof = False, itRc = Inr (), current = diff_change0, pKeyCopy = [], pOldValCopy = [], pNewValCopy = []\<rparr>"

definition prollyDiffIterOpen :: "'s chunk_get \<Rightarrow> 's \<Rightarrow> cache \<Rightarrow> hash \<Rightarrow> hash \<Rightarrow> byte \<Rightarrow> 's diff_iter \<times> unit res" where
  "prollyDiffIterOpen get st ca oldRoot newRoot fl =
     (case bindO (on_cur Old (prollyCursorFirst get)) (\<lambda>_. on_cur New (prollyCursorFirst get))
             (diff_iter0 st ca oldRoot newRoot fl) of
        (w, Inl e) \<Rightarrow> (w\<lparr>itEof := True, itRc := Inl e\<rparr>, Inl e)
      | (w, Inr _) \<Rightarrow>
          bindO (cur_valid Old) (\<lambda>vOld. bindO (cur_valid New) (\<lambda>vNew.
          updO (\<lambda>w. if \<not> vOld \<and> \<not> vNew then w\<lparr>itEof := True\<rparr> else w))) w)"

definition prollyDiffIterClose :: "('s diff_iter, unit) op" where
  "prollyDiffIterClose =
     bindO (\<lambda>w. if dOld w \<noteq> None then close_cur Old w else (w, Inr ())) (\<lambda>_.
     bindO (\<lambda>w. if dNew w \<noteq> None then close_cur New w else (w, Inr ())) (\<lambda>_.
     bindO diffIterFreeCopies (\<lambda>_.
     updO (\<lambda>w. w\<lparr>itEof := True\<rparr>))))"

end
