(* ===== verification/DiffSpec.thy ===== *)
theory DiffSpec
  imports Diff RecordProps
begin

text \<open>
  The differences of two tables as a specification: a walk of two lists of rows, the set of changes of two
  maps from keys to values, and that they agree; and the comparison of values on records of the storage format.
\<close>

section \<open>The differences of two lists of rows\<close>

definition int_key :: "byte \<Rightarrow> byte list \<Rightarrow> u64" where
  "int_key fl k = (if fl AND PROLLY_NODE_INTKEY \<noteq> 0 then (case prollyDecodeIntKey k 0 of Inr v \<Rightarrow> v | Inl _ \<Rightarrow> 0) else 0)"

definition del_change :: "byte \<Rightarrow> row \<Rightarrow> diff_change" where
  "del_change fl r = \<lparr>dcType = PROLLY_DIFF_DELETE, dcKey = fst r, dcIntKey = int_key fl (fst r), dcOldVal = snd r, dcNewVal = []\<rparr>"

definition add_change :: "byte \<Rightarrow> row \<Rightarrow> diff_change" where
  "add_change fl r = \<lparr>dcType = PROLLY_DIFF_ADD, dcKey = fst r, dcIntKey = int_key fl (fst r), dcOldVal = [], dcNewVal = snd r\<rparr>"

definition side_change :: "side \<Rightarrow> byte \<Rightarrow> row \<Rightarrow> diff_change" where
  "side_change s fl r = (case s of Old \<Rightarrow> del_change fl r | New \<Rightarrow> add_change fl r)"

definition mod_change :: "byte \<Rightarrow> byte list \<Rightarrow> byte list \<Rightarrow> byte list \<Rightarrow> diff_change" where
  "mod_change fl k v v' = \<lparr>dcType = PROLLY_DIFF_MODIFY, dcKey = k, dcIntKey = int_key fl k, dcOldVal = v, dcNewVal = v'\<rparr>"

fun diff_rows :: "byte \<Rightarrow> row list \<Rightarrow> row list \<Rightarrow> diff_change list \<times> unit res" where
  "diff_rows fl [] ns = (map (add_change fl) ns, Inr ())"
| "diff_rows fl (x # xs) [] = (map (del_change fl) (x # xs), Inr ())"
| "diff_rows fl (x # xs) (n # ns) =
     (if fst x < fst n then apfst ((#) (del_change fl x)) (diff_rows fl xs (n # ns))
      else if fst n < fst x then apfst ((#) (add_change fl n)) (diff_rows fl (x # xs) ns)
      else
        case prollyValuesEqual (snd x) (snd n) of
          Inl e \<Rightarrow> ([], Inl e)
        | Inr True \<Rightarrow> diff_rows fl xs ns
        | Inr False \<Rightarrow> apfst ((#) (mod_change fl (fst x) (snd x) (snd n))) (diff_rows fl xs ns))"

lemma diff_rows_Nil2 [simp]: "diff_rows fl xs [] = (map (del_change fl) xs, Inr ())"
  by (cases xs) auto

text \<open>The changes of two maps from keys to values, and the values that can be compared.\<close>

definition changes :: "byte \<Rightarrow> (byte list \<rightharpoonup> byte list) \<Rightarrow> (byte list \<rightharpoonup> byte list) \<Rightarrow> diff_change set" where
  "changes fl m m' =
     {del_change fl (k, v) | k v. m k = Some v \<and> m' k = None} \<union>
     {add_change fl (k, v) | k v. m k = None \<and> m' k = Some v} \<union>
     {mod_change fl k v v' | k v v'. m k = Some v \<and> m' k = Some v' \<and> prollyValuesEqual v v' = Inr False}"

definition comparable :: "(byte list \<rightharpoonup> byte list) \<Rightarrow> (byte list \<rightharpoonup> byte list) \<Rightarrow> bool" where
  "comparable m m' \<longleftrightarrow> (\<forall>k v v'. m k = Some v \<longrightarrow> m' k = Some v' \<longrightarrow> (\<exists>b. prollyValuesEqual v v' = Inr b))"

abbreviation keyed :: "row list \<Rightarrow> bool" where
  "keyed rows \<equiv> sorted_wrt (<) (map fst rows)"

lemma keyed_less: "keyed (x # xs) \<Longrightarrow> map_of xs k = Some v \<Longrightarrow> fst x < k"
  by (force dest: map_of_SomeD)

lemma keyed_map_of: "keyed xs \<Longrightarrow> map_of xs k = Some v \<longleftrightarrow> (k, v) \<in> set xs"
  by (simp add: strict_sorted_iff map_of_eq_Some_iff)

lemma keyed_notin: "keyed (x # xs) \<Longrightarrow> k \<le> fst x \<Longrightarrow> map_of xs k = None"
  by (metis keyed_less not_le option.exhaust)

lemma change_keys [simp]:
  "dcKey (del_change fl r) = fst r" "dcKey (add_change fl r) = fst r" "dcKey (mod_change fl k v v') = k"
  by (simp_all add: del_change_def add_change_def mod_change_def)

lemma changes_keyI: "c \<in> changes fl m m' \<Longrightarrow> dcKey c \<in> dom m \<union> dom m'"
  by (auto simp: changes_def)

lemma changes_one_side:
  "keyed xs \<Longrightarrow> changes fl (map_of xs) Map.empty = del_change fl ` set xs"
  "keyed xs \<Longrightarrow> changes fl Map.empty (map_of xs) = add_change fl ` set xs"
  by (auto simp: changes_def keyed_map_of)

lemma apfst_append_Nil [simp]: "apfst ((@) []) p = p"
  by (cases p) simp

text \<open>A key that one of the maps lacks, and one that both have.\<close>

lemma changes_del:
  "m k = None \<Longrightarrow> m' k = None \<Longrightarrow> changes fl (m(k \<mapsto> v)) m' = insert (del_change fl (k, v)) (changes fl m m')"
  unfolding changes_def by (auto split: if_splits) (metis option.distinct(1))+

lemma changes_add:
  "m k = None \<Longrightarrow> m' k = None \<Longrightarrow> changes fl m (m'(k \<mapsto> v)) = insert (add_change fl (k, v)) (changes fl m m')"
  unfolding changes_def by (auto split: if_splits) (metis option.distinct(1))+

lemma changes_both:
  assumes "m k = None" "m' k = None"
  shows "changes fl (m(k \<mapsto> v)) (m'(k \<mapsto> v')) =
     (if prollyValuesEqual v v' = Inr False then insert (mod_change fl k v v') (changes fl m m') else changes fl m m')"
  using assms unfolding changes_def by (auto split: if_splits) (metis option.distinct(1))+

lemma diff_rows_set:
  "keyed xs \<Longrightarrow> keyed ns \<Longrightarrow> snd (diff_rows fl xs ns) = Inr () \<Longrightarrow>
     set (fst (diff_rows fl xs ns)) = changes fl (map_of xs) (map_of ns) \<and>
     sorted_wrt (<) (map dcKey (fst (diff_rows fl xs ns)))"
proof (induction fl xs ns rule: diff_rows.induct)
  case (1 fl ns)
  have "sorted_wrt (<) (map dcKey (map (add_change fl) ns))" using 1 by (simp add: comp_def)
  then show ?case using changes_one_side(2) [OF 1(2)] by simp
next
  case (2 fl x xs)
  have "sorted_wrt (<) (map dcKey (map (del_change fl) (x # xs)))" using 2 by (simp add: comp_def)
  then show ?case using changes_one_side(1) [OF 2(1)] by (simp del: map_of.simps(2))
next
  case (3 fl x xs n ns)
  have k: "keyed xs" "keyed ns" using "3.prems"(1,2) by simp_all
  have lt: "fst x < dcKey c \<or> fst n < dcKey c" if "c \<in> changes fl (map_of xs) (map_of ns)" for c
    using changes_keyI [OF that] keyed_less [OF "3.prems"(1)] keyed_less [OF "3.prems"(2)] unfolding dom_def by blast
  consider (l) "fst x < fst n" | (g) "fst n < fst x" | (e) "fst x = fst n" by fastforce
  then show ?case
  proof cases
    case l
    have no: "map_of xs (fst x) = None" "map_of (n # ns) (fst x) = None"
      using "3.prems" l keyed_notin [of x xs "fst x"] keyed_notin [of n ns "fst x"] by auto
    have m: "map_of (x # xs) = (map_of xs)(fst x \<mapsto> snd x)" by (cases x) simp
    have c: "snd (diff_rows fl xs (n # ns)) = Inr ()" using "3.prems"(3) l by (simp add: apfst_def map_prod_def split_beta)
    note ih = "3.IH"(1) [OF l k(1) "3.prems"(2) c]
    have "fst x < dcKey ch" if "ch \<in> changes fl (map_of xs) (map_of (n # ns))" for ch
      using changes_keyI [OF that] "3.prems"(1,2) l by (auto dest!: map_of_SomeD split: if_splits)
    moreover have "changes fl (map_of (x # xs)) (map_of (n # ns)) = insert (del_change fl x) (changes fl (map_of xs) (map_of (n # ns)))"
      unfolding m using changes_del [of "map_of xs" "fst x" "map_of (n # ns)" fl "snd x"] no by simp
    ultimately show ?thesis using ih l by (simp add: apfst_def map_prod_def split_beta del: map_of.simps(2))
  next
    case g
    have nl: "\<not> fst x < fst n" using g by simp
    have no: "map_of (x # xs) (fst n) = None" "map_of ns (fst n) = None"
      using "3.prems" g keyed_notin [of x xs "fst n"] keyed_notin [of n ns "fst n"] by auto
    have m: "map_of (n # ns) = (map_of ns)(fst n \<mapsto> snd n)" by (cases n) simp
    have c: "snd (diff_rows fl (x # xs) ns) = Inr ()" using "3.prems"(3) g nl by (simp add: apfst_def map_prod_def split_beta)
    note ih = "3.IH"(2) [OF nl g "3.prems"(1) k(2) c]
    have "fst n < dcKey ch" if "ch \<in> changes fl (map_of (x # xs)) (map_of ns)" for ch
      using changes_keyI [OF that] "3.prems"(1,2) g by (auto dest!: map_of_SomeD split: if_splits)
    moreover have "changes fl (map_of (x # xs)) (map_of (n # ns)) = insert (add_change fl n) (changes fl (map_of (x # xs)) (map_of ns))"
      unfolding m using changes_add [of "map_of (x # xs)" "fst n" "map_of ns" fl "snd n"] no by simp
    ultimately show ?thesis using ih g nl by (simp add: apfst_def map_prod_def split_beta del: map_of.simps(2))
  next
    case e
    have nl: "\<not> fst x < fst n" "\<not> fst n < fst x" using e by simp_all
    have no: "map_of xs (fst x) = None" "map_of ns (fst x) = None"
      using "3.prems" e keyed_notin [of x xs "fst x"] keyed_notin [of n ns "fst n"] by auto
    have m: "map_of (x # xs) = (map_of xs)(fst x \<mapsto> snd x)" "map_of (n # ns) = (map_of ns)(fst x \<mapsto> snd n)"
      using e by (cases x; cases n; simp)+
    obtain b where b: "prollyValuesEqual (snd x) (snd n) = Inr b"
      using "3.prems"(3) nl by (cases "prollyValuesEqual (snd x) (snd n)") auto
    have c: "snd (diff_rows fl xs ns) = Inr ()"
      using "3.prems"(3) nl b by (cases b) (simp_all add: apfst_def map_prod_def split_beta)
    have lt': "fst x < dcKey ch" if "ch \<in> changes fl (map_of xs) (map_of ns)" for ch using lt [OF that] e by auto
    have ch: "changes fl (map_of (x # xs)) (map_of (n # ns)) =
       (if b then changes fl (map_of xs) (map_of ns) else insert (mod_change fl (fst x) (snd x) (snd n)) (changes fl (map_of xs) (map_of ns)))"
      unfolding m using changes_both [of "map_of xs" "fst x" "map_of ns" fl "snd x" "snd n"] no b by simp
    show ?thesis
    proof (cases b)
      case True
      then show ?thesis using "3.IH"(3) [OF nl b _ k c] b nl ch by (simp del: map_of.simps(2))
    next
      case False
      then show ?thesis using "3.IH"(4) [OF nl b _ k c] b nl ch lt'
        by (simp add: apfst_def map_prod_def split_beta del: map_of.simps(2))
    qed
  qed
qed

text \<open>An error stops the comparison at the first key whose values cannot be compared.\<close>

lemma diff_rows_stop:
  "snd (diff_rows fl xs ns) = Inl e \<Longrightarrow> \<exists>A x B P n Q. xs = A @ x # B \<and> ns = P @ n # Q \<and> fst x = fst n \<and>
     prollyValuesEqual (snd x) (snd n) = Inl e \<and> diff_rows fl A P = (fst (diff_rows fl xs ns), Inr ())"
proof (induction fl xs ns rule: diff_rows.induct)
  case (3 fl x xs n ns)
  consider (l) "fst x < fst n" | (g) "fst n < fst x" | (e) "fst x = fst n" by fastforce
  then show ?case
  proof cases
    case l
    have "snd (diff_rows fl xs (n # ns)) = Inl e" using "3.prems" l by (simp add: apfst_def map_prod_def split_beta)
    from "3.IH"(1) [OF l this] obtain A y B P m Q where s: "xs = A @ y # B" "n # ns = P @ m # Q" "fst y = fst m"
      "prollyValuesEqual (snd y) (snd m) = Inl e" "diff_rows fl A P = (fst (diff_rows fl xs (n # ns)), Inr ())" by blast
    have "diff_rows fl (x # A) P = apfst ((#) (del_change fl x)) (diff_rows fl A P)"
      using s(2) l by (cases P) auto
    then have "diff_rows fl (x # A) P = (fst (diff_rows fl (x # xs) (n # ns)), Inr ())"
      using s(5) l by (simp add: apfst_def map_prod_def split_beta)
    then show ?thesis using s(1-4) by (metis append_Cons)
  next
    case g
    have nl: "\<not> fst x < fst n" using g by simp
    have "snd (diff_rows fl (x # xs) ns) = Inl e" using "3.prems" g nl by (simp add: apfst_def map_prod_def split_beta)
    from "3.IH"(2) [OF nl g this] obtain A y B P m Q where s: "x # xs = A @ y # B" "ns = P @ m # Q" "fst y = fst m"
      "prollyValuesEqual (snd y) (snd m) = Inl e" "diff_rows fl A P = (fst (diff_rows fl (x # xs) ns), Inr ())" by blast
    have "diff_rows fl A (n # P) = apfst ((#) (add_change fl n)) (diff_rows fl A P)"
      using s(1) g nl by (cases A) auto
    then have "diff_rows fl A (n # P) = (fst (diff_rows fl (x # xs) (n # ns)), Inr ())"
      using s(5) g nl by (simp add: apfst_def map_prod_def split_beta)
    then show ?thesis using s(1-4) by (metis append_Cons)
  next
    case e
    then have nl: "\<not> fst x < fst n" "\<not> fst n < fst x" by simp_all
    show ?thesis
    proof (cases "prollyValuesEqual (snd x) (snd n)")
      case (Inl c)
      then have "c = e" using "3.prems" nl by simp
      then show ?thesis using Inl e nl
        by (intro exI [of _ "[]"] exI [of _ x] exI [of _ xs] exI [of _ n] exI [of _ ns]) simp
    next
      case (Inr b)
      have "snd (diff_rows fl xs ns) = Inl e" using "3.prems" nl Inr by (cases b) (simp_all add: apfst_def map_prod_def split_beta)
      then obtain A y B P m Q where s: "xs = A @ y # B" "ns = P @ m # Q" "fst y = fst m"
        "prollyValuesEqual (snd y) (snd m) = Inl e" "diff_rows fl A P = (fst (diff_rows fl xs ns), Inr ())"
        using "3.IH"(3) [OF nl Inr] "3.IH"(4) [OF nl Inr] by (cases b) blast+
      have "diff_rows fl (x # A) (n # P) = (fst (diff_rows fl (x # xs) (n # ns)), Inr ())"
        using s(5) nl Inr by (cases b) (simp_all add: apfst_def map_prod_def split_beta)
      then show ?thesis using s(1-4) by (metis append_Cons)
    qed
  qed
qed simp_all

lemma diff_rows_total:
  assumes "keyed xs" "keyed ns" "comparable (map_of xs) (map_of ns)"
  shows "snd (diff_rows fl xs ns) = Inr ()"
proof (cases "snd (diff_rows fl xs ns)")
  case (Inl e)
  from diff_rows_stop [OF this] obtain A x B P n Q where s: "xs = A @ x # B" "ns = P @ n # Q" "fst x = fst n"
    "prollyValuesEqual (snd x) (snd n) = Inl e" by blast
  have "(fst x, snd x) \<in> set xs" using s(1) by simp
  moreover have "(fst x, snd n) \<in> set ns" using s(2,3) by simp
  ultimately have "map_of xs (fst x) = Some (snd x)" "map_of ns (fst x) = Some (snd n)"
    using keyed_map_of [OF assms(1)] keyed_map_of [OF assms(2)] by blast+
  then show ?thesis using assms(3) s(4) by (fastforce simp: comparable_def)
qed simp

lemma changes_iff:
  "c \<in> changes fl m m' \<longleftrightarrow> (\<exists>v. m (dcKey c) = Some v \<and> m' (dcKey c) = None \<and> c = del_change fl (dcKey c, v)) \<or>
     (\<exists>v. m (dcKey c) = None \<and> m' (dcKey c) = Some v \<and> c = add_change fl (dcKey c, v)) \<or>
     (\<exists>v v'. m (dcKey c) = Some v \<and> m' (dcKey c) = Some v' \<and> prollyValuesEqual v v' = Inr False \<and> c = mod_change fl (dcKey c) v v')"
  unfolding changes_def by (auto; force)

lemma changes_below:
  "changes fl (m |` {k'. k' < k}) (m' |` {k'. k' < k}) = {c \<in> changes fl m m'. dcKey c < k}"
  by (rule set_eqI) (simp add: changes_iff restrict_map_def)

lemma keyed_below:
  assumes "keyed (A @ x # B)"
  shows "map_of A = map_of (A @ x # B) |` {k. k < fst x}"
proof
  fix k
  have ax: "\<forall>a \<in> set A. fst a < fst x" and b: "keyed (x # B)" using assms by (auto simp: sorted_wrt_append)
  show "map_of A k = (map_of (A @ x # B) |` {k. k < fst x}) k"
  proof (cases "k < fst x")
    case True
    have "map_of (x # B) k = None" using keyed_notin [OF b, of k] True by simp
    then show ?thesis using True unfolding map_of_append restrict_map_def map_add_def by (simp split: option.split)
  next
    case False
    have "map_of A k = None" using ax False by (auto simp: map_of_eq_None_iff)
    then show ?thesis using False by simp
  qed
qed

lemma diff_rows_comparable:
  "keyed xs \<Longrightarrow> keyed ns \<Longrightarrow> snd (diff_rows fl xs ns) = Inr () \<Longrightarrow> comparable (map_of xs) (map_of ns)"
proof (induction fl xs ns rule: diff_rows.induct)
  case (3 fl x xs n ns)
  have k: "keyed xs" "keyed ns" using "3.prems"(1,2) by simp_all
  consider (l) "fst x < fst n" | (g) "fst n < fst x" | (e) "fst x = fst n" by fastforce
  then show ?case
  proof cases
    case l
    have no: "map_of (n # ns) (fst x) = None" using "3.prems"(2) l keyed_notin [of n ns "fst x"] by auto
    have "comparable (map_of xs) (map_of (n # ns))"
      using "3.IH"(1) [OF l k(1) "3.prems"(2)] "3.prems"(3) l by (simp add: apfst_def map_prod_def split_beta del: map_of.simps(2))
    then show ?thesis using no unfolding comparable_def by (auto split: if_splits)
  next
    case g
    have nl: "\<not> fst x < fst n" using g by simp
    have no: "map_of (x # xs) (fst n) = None" using "3.prems"(1) g keyed_notin [of x xs "fst n"] by auto
    have "comparable (map_of (x # xs)) (map_of ns)"
      using "3.IH"(2) [OF nl g "3.prems"(1) k(2)] "3.prems"(3) g nl by (simp add: apfst_def map_prod_def split_beta del: map_of.simps(2))
    then show ?thesis using no unfolding comparable_def by (auto split: if_splits)
  next
    case e
    then have nl: "\<not> fst x < fst n" "\<not> fst n < fst x" by simp_all
    obtain b where b: "prollyValuesEqual (snd x) (snd n) = Inr b"
      using "3.prems"(3) nl by (cases "prollyValuesEqual (snd x) (snd n)") auto
    have "comparable (map_of xs) (map_of ns)"
      using "3.IH"(3) [OF nl b _ k] "3.IH"(4) [OF nl b _ k] "3.prems"(3) nl b by (cases b) (simp_all add: apfst_def map_prod_def split_beta)
    then show ?thesis using e b unfolding comparable_def by (auto split: if_splits)
  qed
qed (simp_all add: comparable_def)

text \<open>Where all keys of one part are less than all keys of the other, the parts are compared apart.\<close>

lemma diff_rows_split:
  assumes "\<forall>x \<in> set xs \<union> set ns. \<forall>y \<in> set xs' \<union> set ns'. fst x < fst y"
  shows "diff_rows fl (xs @ xs') (ns @ ns') =
     (case diff_rows fl xs ns of (cs, Inl e) \<Rightarrow> (cs, Inl e) | (cs, Inr _) \<Rightarrow> apfst ((@) cs) (diff_rows fl xs' ns'))"
  using assms
proof (induction fl xs ns rule: diff_rows.induct)
  case (1 fl ns)
  then show ?case
  proof (induction ns)
    case (Cons n ns)
    have "diff_rows fl xs' (n # ns @ ns') = apfst ((#) (add_change fl n)) (diff_rows fl xs' (ns @ ns'))"
      using Cons.prems by (cases xs') auto
    then show ?case using Cons by (simp add: apfst_def map_prod_def split_beta)
  qed simp
next
  case (2 fl x xs)
  have "diff_rows fl (xs @ xs') ns' = apfst ((@) (map (del_change fl) xs)) (diff_rows fl xs' ns')" if "\<forall>x \<in> set xs. \<forall>y \<in> set xs' \<union> set ns'. fst x < fst y" for xs
    using that
  proof (induction xs)
    case (Cons z zs)
    have "diff_rows fl (z # zs @ xs') ns' = apfst ((#) (del_change fl z)) (diff_rows fl (zs @ xs') ns')"
      using Cons.prems by (cases ns') auto
    then show ?case using Cons by (simp add: apfst_def map_prod_def split_beta)
  qed simp
  from this [of "x # xs"] show ?case using 2 by simp
next
  case (3 fl x xs n ns)
  then show ?case
    by (auto simp: apfst_def map_prod_def split_beta split: sum.splits bool.splits)
qed

section \<open>Comparing records\<close>

lemma diffSerialTypeSize_of_nat:
  assumes "n < 2 ^ 31"
  shows "diffSerialTypeSize (of_nat n) = int (serial_len n)"
proof -
  have lt: "(of_nat n :: u64) = of_nat m \<longleftrightarrow> n = m" "(of_nat m :: u64) \<le> of_nat n \<longleftrightarrow> m \<le> n" if "m < 2 ^ 31" for m
    using serial_compare [OF assms that] serial_compare(1) [OF that assms] by auto
  have eqs: "(of_nat n :: u64) = 0 \<longleftrightarrow> n = 0" "(of_nat n :: u64) = 1 \<longleftrightarrow> n = 1" "(of_nat n :: u64) = 2 \<longleftrightarrow> n = 2"
     "(of_nat n :: u64) = 3 \<longleftrightarrow> n = 3" "(of_nat n :: u64) = 4 \<longleftrightarrow> n = 4" "(of_nat n :: u64) = 5 \<longleftrightarrow> n = 5"
     "(of_nat n :: u64) = 6 \<longleftrightarrow> n = 6" "(of_nat n :: u64) = 7 \<longleftrightarrow> n = 7" "(of_nat n :: u64) = 8 \<longleftrightarrow> n = 8"
     "(of_nat n :: u64) = 9 \<longleftrightarrow> n = 9" "12 \<le> (of_nat n :: u64) \<longleftrightarrow> 12 \<le> n" "13 \<le> (of_nat n :: u64) \<longleftrightarrow> 13 \<le> n"
    using lt(1) [of 0] lt(1) [of 1] lt(1) [of 2] lt(1) [of 3] lt(1) [of 4] lt(1) [of 5] lt(1) [of 6] lt(1) [of 7] lt(1) [of 8]
      lt(1) [of 9] lt(2) [of 12] lt(2) [of 13] by simp_all
  have par: "(of_nat n :: u64) AND 1 = of_nat (n mod 2)"
    using parity_word [of n, where ?'a = 64] by (auto simp: odd_iff_mod_2_eq_one)
  show ?thesis
  proof (cases "12 \<le> n")
    case True
    have c: "int_cast (of_nat n - 12) = int (n - 12)" "13 \<le> n \<Longrightarrow> int_cast (of_nat n - 13) = int (n - 13)"
      using int_cast_of_nat [of "n - 12"] int_cast_of_nat [of "n - 13"] assms True by (simp_all add: of_nat_diff)
    have h: "int m sdiv 2 = int (m div 2)" for m :: nat by (simp add: signed_divide_int_def sgn_if zdiv_int)
    have h12: "(int n - 12) sdiv 2 = int ((n - 12) div 2)" using h [of "n - 12"] True by (simp add: of_nat_diff)
    have h13: "13 \<le> n \<Longrightarrow> (int n - 13) sdiv 2 = int ((n - 13) div 2)" using h [of "n - 13"] by (simp add: of_nat_diff)
    have n13: "n mod 2 = 1 \<Longrightarrow> 13 \<le> n" using True by (cases "n = 12") auto
    have o: "n mod 2 = 1 \<Longrightarrow> (n - 13) div 2 = (n - 12) div 2" using n13 by presburger
    show ?thesis using True eqs c h12 h13 o n13 par by (cases "n mod 2 = 0") (auto simp: diffSerialTypeSize_def serial_len_def)
  next
    case False
    then have "n \<in> {0..11}" by simp
    then show ?thesis using eqs by (auto simp: diffSerialTypeSize_def serial_len_def int_sizes_def nth_Cons split: nat.splits)
  qed
qed

lemma fields_equal_encoded:
  assumes "list_all (\<lambda>f. fst f < 2 ^ 31 \<and> length (snd f) = serial_len (fst f)) fs"
    "list_all (\<lambda>f. fst f < 2 ^ 31 \<and> length (snd f) = serial_len (fst f)) gs" "length fs = length gs"
  shows "fields_equal (pre @ concat (map snd fs)) (pre' @ concat (map snd gs))
       (zip (map (\<lambda>f. int (fst f)) fs) (field_offsets (int (length pre)) fs))
       (zip (map (\<lambda>f. int (fst f)) gs) (field_offsets (int (length pre')) gs)) = Inr (fs = gs)"
  using assms
proof (induction fs arbitrary: gs pre pre')
  case (Cons f fs)
  obtain g gs' where gs: "gs = g # gs'" using Cons.prems(3) by (cases gs) auto
  have f: "fst f < 2 ^ 31" "length (snd f) = serial_len (fst f)" "fst g < 2 ^ 31" "length (snd g) = serial_len (fst g)"
    using Cons.prems gs by simp_all
  have ih: "fields_equal ((pre @ snd f) @ concat (map snd fs)) ((pre' @ snd g) @ concat (map snd gs'))
       (zip (map (\<lambda>f. int (fst f)) fs) (field_offsets (int (length (pre @ snd f))) fs))
       (zip (map (\<lambda>f. int (fst f)) gs') (field_offsets (int (length (pre' @ snd g))) gs')) = Inr (fs = gs')"
    by (rule Cons.IH) (use Cons.prems gs in simp_all)
  have rd: "read_at (p @ x @ q) (int (length p)) (int (length x)) = Inr x" for p x q :: "byte list"
    by (simp add: read_at_def)
  show ?case
  proof (cases "fst f = fst g")
    case True
    have l: "length (snd g) = length (snd f)" using f True by simp
    have z: "snd f = [] \<Longrightarrow> snd g = []" using l by simp
    have mc: "memcmp (snd f) (snd g) (length (snd f)) = 0 \<longleftrightarrow> snd f = snd g"
      using memcmp_same_length [of "snd f" "snd g"] l by simp
    have sz': "diffSerialTypeSize (of_int (int (fst g))) = int (length (snd f))"
      using diffSerialTypeSize_of_nat [OF f(3)] f(2) True by simp
    have pr: "(f = g) \<longleftrightarrow> snd f = snd g" using True by (cases f; cases g) simp
    let ?A = "pre @ snd f @ concat (map snd fs)" and ?B = "pre' @ snd g @ concat (map snd gs')"
    let ?za = "zip (map (\<lambda>f. int (fst f)) fs) (field_offsets (int (length pre) + int (length (snd f))) fs)"
    let ?zb = "zip (map (\<lambda>f. int (fst f)) gs') (field_offsets (int (length pre') + int (length (snd f))) gs')"
    have r1: "read_at ?A (int (length pre)) (int (length (snd f))) = Inr (snd f)" by (rule rd)
    have r2: "read_at ?B (int (length pre')) (int (length (snd f))) = Inr (snd g)" using rd [of pre' "snd g"] l by simp
    have ih': "fields_equal ?A ?B ?za ?zb = Inr (fs = gs')" using ih l by simp
    have "fields_equal ?A ?B ((int (fst g), int (length pre)) # ?za) ((int (fst g), int (length pre')) # ?zb) =
       Inr (snd f = snd g \<and> fs = gs')"
    proof (cases "snd f = []")
      case True
      then show ?thesis using ih' z sz' by (subst fields_equal.simps(1)) (simp only: Let_def, simp)
    next
      case False
      have g: "length (snd f) > 0" using False by simp
      show ?thesis using ih' sz' r1 r2 g mc by (subst fields_equal.simps(1)) (simp only: Let_def, simp)
    qed
    then show ?thesis unfolding gs using True l pr by simp
  next
    case False
    then have "f \<noteq> g" by auto
    then show ?thesis unfolding gs using False by simp
  qed
qed simp

lemma diffRecordsEqualFieldwise_encoded:
  assumes "record_ok hs fs" "record_ok hs' gs"
  shows "diffRecordsEqualFieldwise (encode_record hs fs) (encode_record hs' gs) = Inr (fs = gs)"
proof -
  have e: "encode_record hs fs = (put_varint hs @ types_bytes fs) @ concat (map snd fs)"
    "encode_record hs' gs = (put_varint hs' @ types_bytes gs) @ concat (map snd gs)" by (simp_all add: encode_record_def)
  have l: "int hs = int (length (put_varint hs @ types_bytes fs))" "int hs' = int (length (put_varint hs' @ types_bytes gs))"
    using assms by (simp_all add: record_ok_def)
  have ne: "\<not> length (encode_record hs fs) < 1" "\<not> length (encode_record hs' gs) < 1"
    using length_put_varint_pos [of hs] length_put_varint_pos [of hs'] unfolding encode_record_def length_append by linarith+
  show ?thesis
  proof (cases "length fs = length gs")
    case True
    have "fields_equal (encode_record hs fs) (encode_record hs' gs)
       (zip (map (\<lambda>f. int (fst f)) fs) (field_offsets (int hs) fs)) (zip (map (\<lambda>f. int (fst f)) gs) (field_offsets (int hs') gs)) = Inr (fs = gs)"
      unfolding e l by (rule fields_equal_encoded) (use assms True in \<open>simp_all add: record_ok_def\<close>)
    then show ?thesis using ne True
      by (simp add: diffRecordsEqualFieldwise_def parse_strict_encoded [OF assms(1)] parse_strict_encoded [OF assms(2)] nField_def)
  next
    case False
    then have "fs \<noteq> gs" by auto
    then show ?thesis using ne False
      by (simp add: diffRecordsEqualFieldwise_def parse_strict_encoded [OF assms(1)] parse_strict_encoded [OF assms(2)] nField_def)
  qed
qed

lemma length_encode_record:
  assumes "fs \<noteq> []"
  shows "2 \<le> length (encode_record hs fs)"
proof -
  obtain f fs' where "fs = f # fs'" using assms by (cases fs) auto
  then have "0 < length (types_bytes fs)" using length_put_varint_pos [of "fst f"] by (simp add: types_bytes_def)
  then show ?thesis using length_put_varint_pos [of hs] unfolding encode_record_def length_append by linarith
qed

lemma values_equal_records:
  assumes "record_ok hs fs" "record_ok hs' gs" "fs \<noteq> []" "gs \<noteq> []"
  shows "prollyValuesEqual (encode_record hs fs) (encode_record hs' gs) = Inr (fs = gs)"
proof -
  let ?a = "encode_record hs fs" and ?b = "encode_record hs' gs"
  have l: "2 \<le> length ?a" "2 \<le> length ?b" using length_encode_record assms(3,4) by auto
  have "fs = gs" if "length ?a = length ?b" "memcmp ?a ?b (length ?a) = 0"
  proof -
    have ab: "?a = ?b" using memcmp_same_length [OF that(1)] that(2) by simp
    have "prod.fst (doltliteParseRecordStrict ?a) = prod.fst (doltliteParseRecordStrict ?b)" using ab by simp
    have "diffRecordsEqualFieldwise ?a ?b = diffRecordsEqualFieldwise ?a ?a" using ab by simp
    then show ?thesis
      unfolding diffRecordsEqualFieldwise_encoded [OF assms(1,2)] diffRecordsEqualFieldwise_encoded [OF assms(1,1)] by simp
  qed
  then show ?thesis using l diffRecordsEqualFieldwise_encoded [OF assms(1,2)]
    by (auto simp: prollyValuesEqual_def)
qed

end
