(* ===== verification/DiffPair.thy ===== *)
theory DiffPair
  imports DiffSpec
begin

text \<open>
  What a cursor has left to read, and two cursors over one store and one cache: an operation of one of them
  leaves what the other has left alone.
\<close>

section \<open>What a cursor has left to read\<close>

lemma prollyNodeIntKey_key_of:
  assumes "cached H fl ca p l its" "i < length its" "fl = PROLLY_NODE_INTKEY"
  shows "prollyNodeIntKey (ceNode (ent ca p)) i = Inr (int_key fl (fst (its ! i)))"
proof -
  let ?nd = "ceNode (ent ca p)" and ?d = "node_bytes (of_nat l) fl its"
  have p: "prollyNodeParse ?d = Inr ?nd" "storable (of_nat l) fl its" using assms(1) by (auto simp: cached_def view_ent)
  have f: "flags ?nd = fl" using node_bytes_parse [OF p(2)] p(1) by auto
  have h: "node_holds ?nd its" "nItems ?nd = length its" using cached_node(2,3) [OF assms(1)] by simp_all
  obtain u where u: "prollyNodeIntKey ?nd i = Inr u" "prollyNodeKey ?nd i = Inr (prollyEncodeIntKey u)"
    using prollyNodeIntKey_key [OF prollyNodeParse_wf(1) [OF p(1)], of i] assms(2,3) f h(2) by auto
  have k: "fst (its ! i) = prollyEncodeIntKey u" using u(2) h assms(2) by (simp add: node_holds_def)
  have "prollyDecodeIntKey (prollyEncodeIntKey u) 0 = Inr u" using prollyDecodeIntKey_encode [of 0 "[]" u "[]"] by simp
  then show ?thesis using u(1) k assms(3) by (simp add: int_key_def PROLLY_NODE_INTKEY_def)
qed

lemma storable_flag: "storable lev fl rows \<Longrightarrow> fl AND PROLLY_NODE_INTKEY \<noteq> 0 \<longleftrightarrow> fl = PROLLY_NODE_INTKEY"
  by (auto simp: storable_def PROLLY_NODE_INTKEY_def PROLLY_NODE_BLOBKEY_def)

context tree_reader
begin

definition cur_rest :: "byte \<Rightarrow> 's cenv \<Rightarrow> row list \<Rightarrow> ref multiset \<Rightarrow> bool" where
  "cur_rest fl v rs R \<longleftrightarrow> cur_ok v R \<and>
     (if rs = [] then eState (eCur v) \<noteq> CURSOR_VALID else \<exists>rows pos. at_row fl v rows pos R \<and> rs = drop pos rows)"

lemma cur_rest_ok: "cur_rest fl v rs R \<Longrightarrow> cur_ok v R"
  by (simp add: cur_rest_def)

lemma cur_rest_valid: "cur_rest fl v rs R \<Longrightarrow> prollyCursorIsValid (eCur v) \<longleftrightarrow> rs \<noteq> []"
  by (auto simp: cur_rest_def prollyCursorIsValid_def at_row_def split: if_splits)

lemma at_row_rest: "at_row fl v rows pos R \<Longrightarrow> cur_rest fl v (drop pos rows) R"
  using read_ok(3) [of fl v rows pos R] by (auto simp: cur_rest_def at_row_def)

lemma at_pos_other:
  assumes "cur_ok v R" "cur_ok v' R'" "eCur v' = eCur v" "chunks (eStore v') = chunks (eStore v)"
    "keeps (eCache v) (eCache v') (cur_refs (eCur v))"
  shows "at_pos fl v l j its rows pos \<Longrightarrow> at_pos fl v' l j its rows pos"
proof -
  have lv: "lev v' k = lev v k" for k by (simp add: lev_def assms(3))
  have kb: "keeps_below v v' k" for k
    using lev_ref [OF assms(1)] assms(5) by (simp add: keeps_below_def lv keeps_def)
  have n: "at_node fl v' j l its" if "at_node fl v j l its" for j l its
    using at_node_keeps [OF that assms(2) kb, of j] by simp
  show "at_pos fl v l j its rows pos \<Longrightarrow> at_pos fl v' l j its rows pos"
  proof (induction l arbitrary: j its rows pos)
    case 0
    then show ?case using n lv assms(3) by simp
  next
    case (Suc l)
    then obtain i its' parts pos' where p: "at_node fl v j (Suc l) its" "lvIdx (lev v j) = int i" "i < length its" "rows = concat parts"
      "list_all2 (subtree hash fl (chunks (eStore v)) l) its parts"
      "node_at hash fl (chunks (eStore v)) l (its ! i) its'" "denote hash fl (chunks (eStore v)) l its' (parts ! i)"
      "at_pos fl v l (Suc j) its' (parts ! i) pos'" "pos = length (concat (take i parts)) + pos'"
      by auto
    show ?case
      by (rule at_pos_SucI [of fl v' j l its i rows parts its' pos' pos])
        (use p n [OF p(1)] Suc.IH [OF p(8)] lv assms(4) in simp_all)
  qed
qed

lemma cur_rest_other:
  assumes "cur_rest fl v rs R" "cur_ok v' R'" "eCur v' = eCur v" "chunks (eStore v') = chunks (eStore v)"
    "keeps (eCache v) (eCache v') (cur_refs (eCur v))"
  shows "cur_rest fl v' rs R'"
proof (cases "rs = []")
  case False
  then obtain rows pos where a: "at_row fl v rows pos R" "rs = drop pos rows" using assms(1) by (auto simp: cur_rest_def)
  have "at_row fl v' rows pos R'"
    using a(1) at_pos_other [OF cur_rest_ok [OF assms(1)] assms(2-5)] assms(2,3)
    unfolding at_row_def empty_above_def lev_def by metis
  then show ?thesis using a(2) assms(2) False by (auto simp: cur_rest_def)
qed (use assms in \<open>simp add: cur_rest_def\<close>)

lemma next_rest:
  assumes "cur_rest fl v (r # rs) R"
  shows "\<exists>v'. prollyCursorNext get v = (v', Inr ()) \<and> stays R v v' \<and> cur_rest fl v' rs R"
proof -
  obtain rows pos where a: "at_row fl v rows pos R" "r # rs = drop pos rows" using assms by (auto simp: cur_rest_def)
  have d: "rs = drop (Suc pos) rows" using a(2) by (metis drop_Suc list.sel(3) tl_drop)
  obtain v' where v': "prollyCursorNext get v = (v', Inr ())" "stays R v v'" "cur_ok v' R"
    "if Suc pos < length rows then at_row fl v' rows (Suc pos) R else eState (eCur v') = CURSOR_EOF"
    using move_ok [OF a(1), of True] unfolding may_move_def moved_def if_True by blast
  have "rs = [] \<longleftrightarrow> \<not> Suc pos < length rows" using d by auto
  then show ?thesis using v' d by (auto simp: cur_rest_def split: if_splits)
qed

lemma read_rest:
  assumes "cur_rest fl v (r # rs) R"
  shows "prollyCursorKey v = (v, Inr (fst r))" "prollyCursorValue v = (v, Inr (snd r))"
    "(if fl AND PROLLY_NODE_INTKEY \<noteq> 0 then prollyCursorIntKey v else (v, Inr 0)) = (v, Inr (int_key fl (fst r)))"
proof -
  obtain rows pos where a: "at_row fl v rows pos R" "r # rs = drop pos rows" using assms by (auto simp: cur_rest_def)
  have r: "r = rows ! pos" using a(2) by (metis drop_eq_Nil hd_drop_conv_nth linorder_not_less list.distinct(1) list.sel(1))
  show "prollyCursorKey v = (v, Inr (fst r))" "prollyCursorValue v = (v, Inr (snd r))"
    using read_ok [OF a(1)] r by simp_all
  obtain l its where b: "cur_ok v R" "eState (eCur v) = CURSOR_VALID" "at_pos fl v l 0 its rows pos"
    using a(1) by (auto simp: at_row_def)
  obtain leaf i where lf: "iLevel (eCur v) = l" "at_node fl v l 0 leaf" "lvIdx (lev v l) = int i" "i < length leaf" "leaf ! i = rows ! pos"
    using at_pos_leaf [OF b(3)] by auto
  have ca: "cached hash fl (eCache v) (lvEntry (lev v l)) 0 leaf" using lf(2) by (simp add: at_node_def)
  then have st: "storable 0 fl leaf" by (simp add: cached_def)
  show "(if fl AND PROLLY_NODE_INTKEY \<noteq> 0 then prollyCursorIntKey v else (v, Inr 0)) = (v, Inr (int_key fl (fst r)))"
  proof (cases "fl = PROLLY_NODE_INTKEY")
    case True
    have "prollyCursorIntKey v = (v, Inr (int_key fl (fst (leaf ! i))))"
      using b lf at_node_facts(5) [OF lf(2)] node_of_ok [OF lf(2)] prollyNodeIntKey_key_of [OF ca lf(4) True]
      by (simp add: prollyCursorIntKey_def at_leaf_def get_state_def get_ilevel_def guardR_def)
    then show ?thesis using storable_flag [OF st] True lf(5) r by simp
  next
    case False
    then have "fl AND PROLLY_NODE_INTKEY = 0" using storable_flag [OF st] by blast
    then show ?thesis by (simp add: int_key_def)
  qed
qed

lemma first_rest:
  assumes ok: "cur_ok v R" and t: "tree hash fl (chunks (eStore v)) (curRoot (eCur v)) rows"
  shows "\<exists>v'. prollyCursorFirst get v = (v', Inr (if rows = [] then 1 else 0)) \<and> stays R v v' \<and> cur_rest fl v' rows R"
proof (cases "rows = []")
  case True
  then have r: "curRoot (eCur v) = hash0" using t subtree_rows by (fastforce simp: tree_def)
  show ?thesis using first_empty(1) [OF ok r] True by (auto simp: cur_rest_def)
next
  case False
  obtain l its where "root_at fl v l its rows" using tree_root_at [OF t False] by blast
  from prollyCursorFirst_ok [OF ok this] obtain v' where "prollyCursorFirst get v = (v', Inr 0)" "stays R v v'" "at_row fl v' rows 0 R"
    by blast
  moreover from this(3) have "cur_ok v' R" by (simp add: at_row_def)
  ultimately show ?thesis using False unfolding cur_rest_def if_not_P [OF False] by (metis drop0)
qed

end

section \<open>Two cursors\<close>

fun other :: "side \<Rightarrow> side" where
  "other Old = New"
| "other New = Old"

lemma other_other [simp]: "other (other s) = s"
  by (cases s) simp_all

lemma other_neq [simp]: "other s \<noteq> s" "s \<noteq> other s"
  by (cases s; simp)+

definition crefs :: "cursor option \<Rightarrow> ref multiset" where
  "crefs c = (case c of None \<Rightarrow> {#} | Some c \<Rightarrow> cur_refs c)"

definition cenv_of :: "('s, 'z) dpair_scheme \<Rightarrow> cursor \<Rightarrow> 's cenv" where
  "cenv_of w c = \<lparr>eStore = eStore w, eCache = eCache w, eCur = c\<rparr>"

lemma cenv_of_sel [simp]: "eStore (cenv_of w c) = eStore w" "eCache (cenv_of w c) = eCache w" "eCur (cenv_of w c) = c"
  by (simp_all add: cenv_of_def)

definition with_env :: "side \<Rightarrow> 's cenv \<Rightarrow> ('s, 'z) dpair_scheme \<Rightarrow> ('s, 'z) dpair_scheme" where
  "with_env s v w = set_cur s (Some (eCur v)) (w\<lparr>eStore := eStore v, eCache := eCache v\<rparr>)"

lemma on_cur_run: "cur_of s w = Some c \<Longrightarrow> m (cenv_of w c) = (v, r) \<Longrightarrow> on_cur s m w = (with_env s v w, r)"
  by (simp add: on_cur_def cenv_of_def with_env_def)

lemma set_cur_sel [simp]:
  "cur_of t (set_cur s c w) = (if t = s then c else cur_of t w)" "eStore (set_cur s c w) = eStore w"
  "eCache (set_cur s c w) = eCache w" "dpair.more (set_cur s c w) = dpair.more w"
  by (cases s; cases t; simp add: set_cur_def cur_of_def)+

lemma cur_of_env [simp]: "cur_of t (w\<lparr>eStore := a, eCache := b\<rparr>) = cur_of t w"
  by (cases t) (simp_all add: cur_of_def)

lemma with_env_sel [simp]:
  "cur_of t (with_env s v w) = (if t = s then Some (eCur v) else cur_of t w)" "eStore (with_env s v w) = eStore v"
  "eCache (with_env s v w) = eCache v" "dpair.more (with_env s v w) = dpair.more w"
  by (simp_all add: with_env_def)

text \<open>The state of the two cursors and of their surroundings only.\<close>

definition same_pair :: "('s, 'y) dpair_scheme \<Rightarrow> ('s, 'z) dpair_scheme \<Rightarrow> bool" where
  "same_pair w w' \<longleftrightarrow> eStore w' = eStore w \<and> eCache w' = eCache w \<and> (\<forall>s. cur_of s w' = cur_of s w)"

lemma same_pairI: "eStore w' = eStore w \<Longrightarrow> eCache w' = eCache w \<Longrightarrow> dOld w' = dOld w \<Longrightarrow> dNew w' = dNew w \<Longrightarrow> same_pair w w'"
  by (simp add: same_pair_def cur_of_def split: side.split)

context tree_reader
begin

text \<open>
  \<open>left s\<close> are the rows that the cursor on side \<open>s\<close> has left.  \<open>R\<close> are the references that others hold.
\<close>

definition pair_at :: "byte \<Rightarrow> ('s, 'z) dpair_scheme \<Rightarrow> (side \<Rightarrow> row list) \<Rightarrow> ref multiset \<Rightarrow> bool" where
  "pair_at fl w left R \<longleftrightarrow> env_ok w (crefs (cur_of Old w) + crefs (cur_of New w) + R) \<and>
     (\<forall>s. case cur_of s w of None \<Rightarrow> left s = [] | Some c \<Rightarrow> cur_rest fl (cenv_of w c) (left s) (crefs (cur_of (other s) w) + R))"

definition pair_stays :: "ref multiset \<Rightarrow> ('s, 'y) dpair_scheme \<Rightarrow> ('s, 'z) dpair_scheme \<Rightarrow> bool" where
  "pair_stays R w w' \<longleftrightarrow> chunks (eStore w') = chunks (eStore w) \<and> keeps (eCache w) (eCache w') R \<and>
     (\<forall>s. map_option curRoot (cur_of s w') = map_option curRoot (cur_of s w))"

lemma pair_stays_refl [simp]: "pair_stays R w w"
  by (simp add: pair_stays_def)

lemma pair_stays_trans: "pair_stays R a b \<Longrightarrow> pair_stays R b c \<Longrightarrow> pair_stays R a c"
  unfolding pair_stays_def by (metis keeps_trans)

lemma pair_at_same: "pair_at fl w left R \<Longrightarrow> same_pair w w' \<Longrightarrow> pair_at fl w' left R"
proof -
  assume a: "pair_at fl w left R" "same_pair w w'"
  then have e: "cenv_of w' c = cenv_of w c" "cur_of s w' = cur_of s w" for c s by (simp_all add: same_pair_def cenv_of_def)
  show "pair_at fl w' left R" using a unfolding pair_at_def e by (simp add: same_pair_def env_ok_def)
qed

lemma pair_stays_same: "same_pair w w' \<Longrightarrow> pair_stays R w w'"
  by (simp add: same_pair_def pair_stays_def keeps_def)

lemma refs_sides: "crefs (cur_of Old w) + crefs (cur_of New w) = crefs (cur_of s w) + crefs (cur_of (other s) w)"
  by (cases s) (simp_all add: add.commute)

lemma pair_at_cur:
  assumes "pair_at fl w left R" "cur_of s w = Some c"
  shows "cur_rest fl (cenv_of w c) (left s) (crefs (cur_of (other s) w) + R)"
  using assms by (auto simp: pair_at_def split: option.splits)

lemma pair_at_none: "pair_at fl w left R \<Longrightarrow> cur_of s w = None \<Longrightarrow> left s = []"
  by (drule pair_at_def [THEN iffD1], elim conjE allE [of _ s]) simp

lemma cur_valid_pair: "pair_at fl w left R \<Longrightarrow> cur_of s w = Some c \<Longrightarrow> cur_valid s w = (w, Inr (left s \<noteq> []))"
  using cur_rest_valid [OF pair_at_cur] by (fastforce simp: cur_valid_def)

text \<open>What an operation of one cursor does to the pair.\<close>

lemma pair_step:
  assumes pa: "pair_at fl w left R" and c: "cur_of s w = Some c" and m: "m (cenv_of w c) = (v, r)"
    and st: "stays (crefs (cur_of (other s) w) + R) (cenv_of w c) v"
    and v: "cur_rest fl v rs (crefs (cur_of (other s) w) + R)"
  shows "\<exists>w'. on_cur s m w = (w', r) \<and> pair_at fl w' (left(s := rs)) R \<and> pair_stays R w w' \<and> dpair.more w' = dpair.more w \<and>
     cur_of s w' \<noteq> None \<and> cur_of (other s) w' = cur_of (other s) w"
proof -
  let ?w = "with_env s v w" and ?o = "crefs (cur_of (other s) w)"
  have vo: "env_ok v (cur_refs (eCur v) + (?o + R))" using cur_rest_ok [OF v] by (simp add: cur_ok_def)
  have e: "env_ok ?w (cur_refs (eCur v) + ?o + R)"
    using vo by (simp add: env_ok_def add.assoc)
  have r: "crefs (cur_of Old ?w) + crefs (cur_of New ?w) = cur_refs (eCur v) + ?o"
    unfolding refs_sides [of ?w s] by (simp add: crefs_def)
  have ce: "cenv_of ?w (eCur v) = v" by (cases v) (simp add: cenv_of_def)
  have "case cur_of t ?w of None \<Rightarrow> (left(s := rs)) t = []
      | Some c' \<Rightarrow> cur_rest fl (cenv_of ?w c') ((left(s := rs)) t) (crefs (cur_of (other t) ?w) + R)" for t
  proof (cases "t = s")
    case True
    show ?thesis using v by (simp only: True with_env_sel if_True if_False option.case ce fun_upd_same other_neq simp_thms)
  next
    case False
    then have t: "t = other s" "other t = s" by (cases s; cases t; simp)+
    show ?thesis
    proof (cases "cur_of t w")
      case None
      then show ?thesis using pair_at_none [OF pa] False by simp
    next
      case (Some d)
      have d: "cur_rest fl (cenv_of w d) (left t) (crefs (cur_of s w) + R)" using pair_at_cur [OF pa Some] t by simp
      have "cur_ok (cenv_of ?w d) (cur_refs (eCur v) + R)"
        using e cur_rest_ok [OF d] Some t by (simp add: cur_ok_def env_ok_def crefs_def ac_simps)
      moreover have "chunks (eStore v) = chunks (eStore w)" "keeps (eCache w) (eCache v) (cur_refs d)"
        using st Some t by (auto simp: stays_def crefs_def keeps_def)
      ultimately have "cur_rest fl (cenv_of ?w d) (left t) (cur_refs (eCur v) + R)"
        by (intro cur_rest_other [OF d]) simp_all
      then show ?thesis using Some False t by (simp add: crefs_def)
    qed
  qed
  then have "pair_at fl ?w (left(s := rs)) R" using e unfolding pair_at_def r by blast
  moreover have "pair_stays R w ?w" using st c by (auto simp: pair_stays_def stays_def keeps_def)
  ultimately show ?thesis using on_cur_run [where m = m, OF c m] by (intro exI [of _ ?w]) simp
qed

lemma on_cur_next:
  assumes "pair_at fl w left R" "cur_of s w = Some c" "left s = r # rs"
  shows "\<exists>w'. on_cur s (prollyCursorNext get) w = (w', Inr ()) \<and> pair_at fl w' (left(s := rs)) R \<and> pair_stays R w w' \<and>
     dpair.more w' = dpair.more w \<and> cur_of s w' \<noteq> None \<and> cur_of (other s) w' = cur_of (other s) w"
proof -
  obtain v where v: "prollyCursorNext get (cenv_of w c) = (v, Inr ())" "stays (crefs (cur_of (other s) w) + R) (cenv_of w c) v"
    "cur_rest fl v rs (crefs (cur_of (other s) w) + R)"
    using next_rest [of fl "cenv_of w c" r rs] pair_at_cur [OF assms(1,2)] assms(3) by auto
  show ?thesis by (rule pair_step [where m = "prollyCursorNext get", OF assms(1,2) v])
qed

lemma on_cur_first:
  assumes "pair_at fl w left R" "cur_of s w = Some c" "tree hash fl (chunks (eStore w)) (curRoot c) rows"
  shows "\<exists>w'. on_cur s (prollyCursorFirst get) w = (w', Inr (if rows = [] then 1 else 0)) \<and> pair_at fl w' (left(s := rows)) R \<and>
     pair_stays R w w' \<and> dpair.more w' = dpair.more w \<and> cur_of s w' \<noteq> None \<and> cur_of (other s) w' = cur_of (other s) w"
proof -
  have ok: "cur_ok (cenv_of w c) (crefs (cur_of (other s) w) + R)" using pair_at_cur [OF assms(1,2)] by (rule cur_rest_ok)
  obtain v where v: "prollyCursorFirst get (cenv_of w c) = (v, Inr (if rows = [] then 1 else 0))"
    "stays (crefs (cur_of (other s) w) + R) (cenv_of w c) v" "cur_rest fl v rows (crefs (cur_of (other s) w) + R)"
    using first_rest [OF ok, of fl rows] assms(3) by auto
  show ?thesis by (rule pair_step [where m = "prollyCursorFirst get", OF assms(1,2) v])
qed

lemma on_cur_read:
  assumes "pair_at fl w left R" "cur_of s w = Some c" "left s = r # rs"
  shows "on_cur s prollyCursorKey w = (w, Inr (fst r))" "on_cur s prollyCursorValue w = (w, Inr (snd r))"
    "(if fl AND PROLLY_NODE_INTKEY \<noteq> 0 then on_cur s prollyCursorIntKey w else (w, Inr 0)) = (w, Inr (int_key fl (fst r)))"
proof -
  have "cur_rest fl (cenv_of w c) (r # rs) (crefs (cur_of (other s) w) + R)"
    using pair_at_cur [OF assms(1,2)] assms(3) by simp
  note rd = read_rest [OF this]
  have same: "with_env s (cenv_of w c) w = w" using assms(2)
    by (cases s; cases w) (simp_all add: with_env_def cenv_of_def set_cur_def cur_of_def)
  show "on_cur s prollyCursorKey w = (w, Inr (fst r))" using on_cur_run [where m = prollyCursorKey, OF assms(2) rd(1)] same by simp
  show "on_cur s prollyCursorValue w = (w, Inr (snd r))" using on_cur_run [where m = prollyCursorValue, OF assms(2) rd(2)] same by simp
  show "(if fl AND PROLLY_NODE_INTKEY \<noteq> 0 then on_cur s prollyCursorIntKey w else (w, Inr 0)) = (w, Inr (int_key fl (fst r)))"
    using rd(3) on_cur_run [OF assms(2), of prollyCursorIntKey] same by (auto split: if_splits)
qed

text \<open>Allocating and freeing a cursor.\<close>

lemma pair_init:
  assumes "pair_at fl w left R" "cur_of s w = None"
  shows "pair_at fl (set_cur s (Some (prollyCursorInit root fl)) w) left R"
proof -
  let ?c = "prollyCursorInit root fl" and ?w = "set_cur s (Some (prollyCursorInit root fl)) w"
  have e: "env_ok w (crefs (cur_of (other s) w) + R)"
    using assms unfolding pair_at_def refs_sides [of w s] by (simp add: crefs_def)
  have l: "left s = []" by (rule pair_at_none [OF assms])
  have ce: "cenv_of ?w d = cenv_of w d" for d by (simp add: cenv_of_def)
  have i: "cur_rest fl (cenv_of ?w ?c) [] (crefs (cur_of (other s) w) + R)"
    using e by (simp add: cur_rest_def cur_ok_def cur_refs_init env_ok_def) (simp add: prollyCursorInit_def)
  have r: "crefs (cur_of Old ?w) + crefs (cur_of New ?w) = crefs (cur_of (other s) w)"
    unfolding refs_sides [of ?w s] by (simp add: crefs_def cur_refs_init)
  have "case cur_of t ?w of None \<Rightarrow> left t = [] | Some c' \<Rightarrow> cur_rest fl (cenv_of ?w c') (left t) (crefs (cur_of (other t) ?w) + R)" for t
  proof (cases "t = s")
    case True
    then show ?thesis using i l by simp
  next
    case False
    then have t: "t = other s" "other t = s" by (cases s; cases t; simp)+
    show ?thesis using pair_at_none [OF assms(1), of t] pair_at_cur [OF assms(1), of t] False t assms(2)
      by (simp add: ce crefs_def cur_refs_init split: option.split)
  qed
  moreover have "env_ok ?w (crefs (cur_of (other s) w) + R)" using e by (simp add: env_ok_def)
  ultimately show ?thesis unfolding pair_at_def r by blast
qed

lemma close_cur_ok:
  assumes "pair_at fl w left R" "cur_of s w = Some c"
  shows "\<exists>w'. close_cur s w = (w', Inr ()) \<and> pair_at fl w' (left(s := [])) R \<and> chunks (eStore w') = chunks (eStore w) \<and>
     keeps (eCache w) (eCache w') R \<and> dpair.more w' = dpair.more w \<and> cur_of s w' = None \<and> cur_of (other s) w' = cur_of (other s) w"
proof -
  let ?o = "crefs (cur_of (other s) w) + R"
  have ok: "cur_ok (cenv_of w c) ?o" using pair_at_cur [OF assms] by (rule cur_rest_ok)
  obtain v where v: "prollyCursorReleaseAll (cenv_of w c) = (v, Inr ())" "cur_ok v ?o" "stays ?o (cenv_of w c) v"
    "eState (eCur v) = CURSOR_INVALID" "cur_refs (eCur v) = {#}"
    using prollyCursorReleaseAll_ok [OF ok] by blast
  have cl: "prollyCursorClose (cenv_of w c) = (v, Inr ())" using v(1) by (simp add: prollyCursorClose_def)
  have cr: "cur_rest fl v [] ?o" using v(2,4) by (simp add: cur_rest_def)
  obtain w1 where w1: "on_cur s prollyCursorClose w = (w1, Inr ())" "pair_at fl w1 (left(s := [])) R" "pair_stays R w w1"
     "dpair.more w1 = dpair.more w" "cur_of (other s) w1 = cur_of (other s) w"
    using pair_step [where m = prollyCursorClose, OF assms cl v(3) cr] by blast
  have w1e: "w1 = with_env s v w" using on_cur_run [where m = prollyCursorClose, OF assms(2) cl] w1(1) by simp
  let ?w = "set_cur s None w1"
  have z: "crefs (cur_of s w1) = {#}" using w1e v(5) by (simp add: crefs_def)
  have ce: "cenv_of ?w d = cenv_of w1 d" for d by (simp add: cenv_of_def)
  have r: "crefs (cur_of Old ?w) + crefs (cur_of New ?w) = crefs (cur_of Old w1) + crefs (cur_of New w1)"
    unfolding refs_sides [of ?w s] refs_sides [of w1 s] using z by (simp add: crefs_def)
  have "case cur_of t ?w of None \<Rightarrow> (left(s := [])) t = []
      | Some c' \<Rightarrow> cur_rest fl (cenv_of ?w c') ((left(s := [])) t) (crefs (cur_of (other t) ?w) + R)" for t
  proof (cases "t = s")
    case False
    then have t: "t = other s" "other t = s" by (cases s; cases t; simp)+
    have z': "crefs (cur_of s ?w) = crefs (cur_of s w1)" using z by (simp add: crefs_def)
    show ?thesis using pair_at_none [OF w1(2), of t] pair_at_cur [OF w1(2), of t] False t z' by (simp add: ce split: option.split)
  qed simp
  then have "pair_at fl ?w (left(s := [])) R"
    using w1(2) unfolding pair_at_def r by (simp add: env_ok_def)
  then show ?thesis using w1 by (intro exI [of _ ?w]) (simp add: close_cur_def pair_stays_def)
qed

end

end
