(* ===== verification/DiffIter.thy ===== *)
theory DiffIter
  imports DiffPair
begin

text \<open>
  The iterator over the differences of two trees delivers the changes of the two tables.
\<close>

section \<open>One step of the iterator\<close>

lemma iter_more:
  fixes w w' :: "'s diff_iter"
  assumes "dpair.more w' = dpair.more w"
  shows "itFlags w' = itFlags w" "itEof w' = itEof w" "itRc w' = itRc w" "current w' = current w" "pKeyCopy w' = pKeyCopy w"
    "pOldValCopy w' = pOldValCopy w" "pNewValCopy w' = pNewValCopy w"
  using assms by (cases w; cases w'; simp)+

context tree_reader
begin

definition it_ok :: "byte \<Rightarrow> 's diff_iter \<Rightarrow> (side \<Rightarrow> row list) \<Rightarrow> ref multiset \<Rightarrow> bool" where
  "it_ok fl w left R \<longleftrightarrow> pair_at fl w left R \<and> (\<forall>s. cur_of s w \<noteq> None) \<and> itFlags w = fl"

lemma it_ok_same: "it_ok fl w left R \<Longrightarrow> same_pair w w' \<Longrightarrow> itFlags w' = itFlags w \<Longrightarrow> it_ok fl w' left R"
  unfolding it_ok_def using pair_at_same [of fl w left R w'] by (auto simp: same_pair_def)

lemma it_read:
  assumes "it_ok fl w left R" "left s = r # rs" "same_pair w w'"
  shows "on_cur s prollyCursorKey w' = (w', Inr (fst r))" "on_cur s prollyCursorValue w' = (w', Inr (snd r))"
    "(if fl AND PROLLY_NODE_INTKEY \<noteq> 0 then on_cur s prollyCursorIntKey else retO 0) w' = (w', Inr (int_key fl (fst r)))"
proof -
  have p: "pair_at fl w' left R" using assms(1,3) pair_at_same by (auto simp: it_ok_def)
  obtain c where c: "cur_of s w' = Some c" using assms(1,3) by (auto simp: it_ok_def same_pair_def)
  note r = on_cur_read [OF p c assms(2)]
  show "on_cur s prollyCursorKey w' = (w', Inr (fst r))" "on_cur s prollyCursorValue w' = (w', Inr (snd r))" by (rule r)+
  show "(if fl AND PROLLY_NODE_INTKEY \<noteq> 0 then on_cur s prollyCursorIntKey else retO 0) w' = (w', Inr (int_key fl (fst r)))"
    using r(3) by (auto split: if_splits)
qed

lemma it_next:
  assumes "it_ok fl w left R" "left s = r # rs"
  shows "\<exists>w'. set_rc (on_cur s (prollyCursorNext get)) w = (w', Inr ()) \<and> it_ok fl w' (left(s := rs)) R \<and> pair_stays R w w' \<and>
     itRc w' = Inr () \<and> itEof w' = itEof w \<and> current w' = current w \<and>
     pKeyCopy w' = pKeyCopy w \<and> pOldValCopy w' = pOldValCopy w \<and> pNewValCopy w' = pNewValCopy w"
proof -
  have p: "pair_at fl w left R" and f: "itFlags w = fl" using assms(1) by (simp_all add: it_ok_def)
  obtain c where c: "cur_of s w = Some c" using assms(1) by (auto simp: it_ok_def)
  obtain w1 where w1: "on_cur s (prollyCursorNext get) w = (w1, Inr ())" "pair_at fl w1 (left(s := rs)) R" "pair_stays R w w1"
     "dpair.more w1 = dpair.more w" "cur_of s w1 \<noteq> None" "cur_of (other s) w1 = cur_of (other s) w"
    using on_cur_next [OF p c assms(2)] by blast
  note mo = iter_more [OF w1(4)]
  have all: "\<forall>t. cur_of t w1 \<noteq> None"
  proof
    fix t
    show "cur_of t w1 \<noteq> None" using w1(5,6) assms(1) by (cases t; cases s) (auto simp: it_ok_def)
  qed
  let ?w = "w1\<lparr>itRc := Inr ()\<rparr>"
  have sp: "same_pair w1 ?w" by (rule same_pairI) simp_all
  have "it_ok fl ?w (left(s := rs)) R" using pair_at_same [OF w1(2) sp] all sp mo f by (auto simp: it_ok_def same_pair_def)
  moreover have "pair_stays R w ?w" using pair_stays_trans [OF w1(3) pair_stays_same [OF sp]] .
  ultimately show ?thesis using w1(1) mo by (intro exI [of _ ?w]) (simp add: set_rc_def)
qed

lemma copy_key_ok:
  assumes "it_ok fl w left R" "left s = r # rs" "pKeyCopy w = []"
  shows "set_rc (diffIterCopyKey s) w =
     (w\<lparr>itRc := Inr (), pKeyCopy := fst r, current := (current w)\<lparr>dcKey := fst r, dcIntKey := int_key fl (fst r)\<rparr>\<rparr>, Inr ())"
proof -
  have f: "itFlags w = fl" using assms(1) by (simp add: it_ok_def)
  have e: "(if length (fst r) > 0 then w\<lparr>pKeyCopy := fst r\<rparr> else w) = w\<lparr>pKeyCopy := fst r\<rparr>"
    using assms(3) by (cases w) simp
  let ?w = "w\<lparr>pKeyCopy := fst r, current := (current w)\<lparr>dcKey := fst r\<rparr>\<rparr>"
  have sp: "same_pair w ?w" "same_pair w w" by (rule same_pairI; simp)+
  have "diffIterCopyKey s w = (?w\<lparr>current := (current ?w)\<lparr>dcIntKey := int_key fl (fst r)\<rparr>\<rparr>, Inr ())"
    using it_read(1) [OF assms(1,2) sp(2)] it_read(3) [OF assms(1,2) sp(1)] e f
    by (simp add: diffIterCopyKey_def)
  then show ?thesis by (simp add: set_rc_def)
qed

lemma copy_val_ok:
  assumes "it_ok fl w left R"
  shows "left Old = r # rs \<Longrightarrow> pOldValCopy w = [] \<Longrightarrow> copy_old w = (w\<lparr>pOldValCopy := snd r\<rparr>, Inr ())"
    "left New = r # rs \<Longrightarrow> pNewValCopy w = [] \<Longrightarrow> copy_new w = (w\<lparr>pNewValCopy := snd r\<rparr>, Inr ())"
proof -
  have sp: "same_pair w w" by (rule same_pairI) simp_all
  assume "left Old = r # rs" "pOldValCopy w = []"
  moreover have "w\<lparr>pOldValCopy := []\<rparr> = w" if "pOldValCopy w = []" using that by (cases w) simp
  ultimately show "copy_old w = (w\<lparr>pOldValCopy := snd r\<rparr>, Inr ())"
    using it_read(2) [OF assms _ sp, of Old r rs] by (auto simp: copy_old_def)
next
  have sp: "same_pair w w" by (rule same_pairI) simp_all
  assume "left New = r # rs" "pNewValCopy w = []"
  moreover have "w\<lparr>pNewValCopy := []\<rparr> = w" if "pNewValCopy w = []" using that by (cases w) simp
  ultimately show "copy_new w = (w\<lparr>pNewValCopy := snd r\<rparr>, Inr ())"
    using it_read(2) [OF assms _ sp, of New r rs] by (auto simp: copy_new_def)
qed

definition fresh :: "'s diff_iter \<Rightarrow> bool" where
  "fresh w \<longleftrightarrow> pKeyCopy w = [] \<and> pOldValCopy w = [] \<and> pNewValCopy w = []"

lemma iter_one_ok:
  assumes "it_ok fl w left R" "left s = r # rs" "fresh w" "current w = diff_change0"
  shows "\<exists>w'. iter_one get s w = (w', Inr ()) \<and> it_ok fl w' (left(s := rs)) R \<and> pair_stays R w w' \<and>
     itRc w' = Inr () \<and> itEof w' = itEof w \<and> current w' = side_change s fl r"
proof -
  let ?ty = "case s of Old \<Rightarrow> PROLLY_DIFF_DELETE | New \<Rightarrow> PROLLY_DIFF_ADD"
  let ?w1 = "w\<lparr>current := (current w)\<lparr>dcType := ?ty\<rparr>\<rparr>"
  let ?w2 = "?w1\<lparr>itRc := Inr (), pKeyCopy := fst r, current := (current ?w1)\<lparr>dcKey := fst r, dcIntKey := int_key fl (fst r)\<rparr>\<rparr>"
  have s1: "same_pair w ?w1" and s2: "same_pair w ?w2" by (rule same_pairI; simp)+
  have i1: "it_ok fl ?w1 left R" using it_ok_same [OF assms(1) s1] by simp
  have i2: "it_ok fl ?w2 left R" using it_ok_same [OF assms(1) s2] by simp
  have ck: "set_rc (diffIterCopyKey s) ?w1 = (?w2, Inr ())"
    using copy_key_ok [OF i1 assms(2)] assms(3) by (simp add: fresh_def)
  let ?w3 = "case s of Old \<Rightarrow> ?w2\<lparr>pOldValCopy := snd r\<rparr> | New \<Rightarrow> ?w2\<lparr>pNewValCopy := snd r\<rparr>"
  have cv: "(case s of Old \<Rightarrow> copy_old | New \<Rightarrow> copy_new) ?w2 = (?w3, Inr ())"
    using copy_val_ok [OF i2, of r rs] assms(2,3) by (cases s) (simp_all add: fresh_def)
  let ?w4 = "?w3\<lparr>current := (case s of Old \<Rightarrow> (current ?w3)\<lparr>dcOldVal := pOldValCopy ?w3\<rparr> | New \<Rightarrow> (current ?w3)\<lparr>dcNewVal := pNewValCopy ?w3\<rparr>)\<rparr>"
  have s4: "same_pair w ?w4" by (rule same_pairI; cases s) simp_all
  have i4: "it_ok fl ?w4 left R" using it_ok_same [OF assms(1) s4] by (cases s) simp_all
  obtain w' where w': "set_rc (on_cur s (prollyCursorNext get)) ?w4 = (w', Inr ())" "it_ok fl w' (left(s := rs)) R" "pair_stays R ?w4 w'"
     "itRc w' = Inr ()" "itEof w' = itEof ?w4" "current w' = current ?w4"
    using it_next [OF i4 assms(2)] by blast
  have "iter_one get s w = (w', Inr ())"
    unfolding iter_one_def using ck cv w'(1) by simp
  moreover have "current ?w4 = side_change s fl r"
    using assms(4) by (cases s) (simp_all add: side_change_def del_change_def add_change_def diff_change0_def)
  moreover have "itEof ?w4 = itEof w" by (cases s) simp_all
  ultimately show ?thesis using w' pair_stays_trans [OF pair_stays_same [OF s4] w'(3)] by (intro exI [of _ w']) simp
qed

lemma iter_both_ok:
  assumes "it_ok fl w left R" "left Old = x # xs" "left New = n # ns"
  shows "\<exists>w'. iter_both get w = (w', Inr ()) \<and> it_ok fl w' (left(Old := xs, New := ns)) R \<and> pair_stays R w w' \<and>
     itRc w' = Inr () \<and> itEof w' = itEof w \<and> current w' = current w \<and> (fresh w \<longrightarrow> fresh w')"
proof -
  obtain w1 where w1: "set_rc (on_cur Old (prollyCursorNext get)) w = (w1, Inr ())" "it_ok fl w1 (left(Old := xs)) R" "pair_stays R w w1"
     "itEof w1 = itEof w" "current w1 = current w" "pKeyCopy w1 = pKeyCopy w" "pOldValCopy w1 = pOldValCopy w" "pNewValCopy w1 = pNewValCopy w"
    using it_next [OF assms(1,2)] by blast
  have l: "(left(Old := xs)) New = n # ns" using assms(3) by simp
  obtain w2 where w2: "set_rc (on_cur New (prollyCursorNext get)) w1 = (w2, Inr ())" "it_ok fl w2 (left(Old := xs, New := ns)) R" "pair_stays R w1 w2"
     "itRc w2 = Inr ()" "itEof w2 = itEof w1" "current w2 = current w1" "pKeyCopy w2 = pKeyCopy w1" "pOldValCopy w2 = pOldValCopy w1" "pNewValCopy w2 = pNewValCopy w1"
    using it_next [OF w1(2) l] by blast
  show ?thesis using w1 w2 pair_stays_trans [OF w1(3) w2(3)] by (intro exI [of _ w2]) (simp add: iter_both_def fresh_def)
qed

lemma iter_modify_ok:
  assumes "it_ok fl w left R" "left Old = x # xs" "left New = n # ns" "fst x = fst n" "fresh w" "current w = diff_change0"
  shows "\<exists>w'. iter_modify get w = (w', Inr ()) \<and> it_ok fl w' (left(Old := xs, New := ns)) R \<and> pair_stays R w w' \<and>
     itRc w' = Inr () \<and> itEof w' = itEof w \<and> current w' = mod_change fl (fst x) (snd x) (snd n)"
proof -
  let ?w1 = "w\<lparr>itRc := Inr (), current := (current w)\<lparr>dcType := PROLLY_DIFF_MODIFY\<rparr>\<rparr>"
  let ?w2 = "?w1\<lparr>itRc := Inr (), pKeyCopy := fst n, current := (current ?w1)\<lparr>dcKey := fst n, dcIntKey := int_key fl (fst n)\<rparr>\<rparr>"
  let ?w3 = "?w2\<lparr>pOldValCopy := snd x\<rparr>"
  let ?w4 = "?w3\<lparr>pNewValCopy := snd n\<rparr>"
  let ?w5 = "?w4\<lparr>current := (current ?w4)\<lparr>dcOldVal := pOldValCopy ?w4, dcNewVal := pNewValCopy ?w4\<rparr>\<rparr>"
  have s1: "same_pair w ?w1" and s2: "same_pair w ?w2" and s3: "same_pair w ?w3" and s5: "same_pair w ?w5" by (rule same_pairI; simp)+
  have i1: "it_ok fl ?w1 left R" using it_ok_same [OF assms(1) s1] by simp
  have i2: "it_ok fl ?w2 left R" using it_ok_same [OF assms(1) s2] by simp
  have i3: "it_ok fl ?w3 left R" using it_ok_same [OF assms(1) s3] by simp
  have i5: "it_ok fl ?w5 left R" using it_ok_same [OF assms(1) s5] by simp
  have ck: "set_rc (diffIterCopyKey New) ?w1 = (?w2, Inr ())"
    using copy_key_ok [OF i1 assms(3)] assms(5) by (simp add: fresh_def)
  have co: "copy_old ?w2 = (?w3, Inr ())" using copy_val_ok(1) [OF i2 assms(2)] assms(5) by (simp add: fresh_def)
  have cn: "copy_new ?w3 = (?w4, Inr ())" using copy_val_ok(2) [OF i3 assms(3)] assms(5) by (simp add: fresh_def)
  obtain w' where w': "iter_both get ?w5 = (w', Inr ())" "it_ok fl w' (left(Old := xs, New := ns)) R" "pair_stays R ?w5 w'"
     "itRc w' = Inr ()" "itEof w' = itEof ?w5" "current w' = current ?w5"
    using iter_both_ok [OF i5 assms(2,3)] by blast
  have "iter_modify get w = (w', Inr ())"
    unfolding iter_modify_def using ck co cn w'(1) by simp
  moreover have "current ?w5 = mod_change fl (fst x) (snd x) (snd n)"
    using assms(4,6) by (simp add: mod_change_def diff_change0_def)
  ultimately show ?thesis using w' pair_stays_trans [OF pair_stays_same [OF s5] w'(3)] by (intro exI [of _ w']) simp
qed

end

section \<open>The codes of the comparison\<close>

lemma varint_loop_codes: "fails_only {OUT_OF_BOUNDS} (varint_loop d p pEnd v i k)"
  by (induction d p pEnd v i k rule: varint_loop.induct) (auto simp: read_byte_def Let_def)

lemma dlReadVarint_codes: "fails_only {OUT_OF_BOUNDS} (dlReadVarint d p pEnd)"
  using varint_loop_codes by (auto simp: dlReadVarint_def read_byte_def Let_def)

lemma parse_fields_codes: "fails_only {SQLITE_CORRUPT, OUT_OF_BOUNDS} (snd (parse_fields d pe p off info))"
proof (induction d pe p off info rule: parse_fields.induct)
  case (1 d pe p off info)
  show ?case
  proof (cases "p < pe")
    case True
    show ?thesis
    proof (cases "dlReadVarint d p pe")
      case (Inl e)
      then have "e = OUT_OF_BOUNDS" using dlReadVarint_codes [of d p pe] by simp
      then show ?thesis using True Inl by (subst parse_fields.simps) simp
    next
      case (Inr q)
      obtain nb st where q: "q = (nb, st)" by (cases q)
      note ih = "1.IH" [OF True Inr q [symmetric] _ _ refl refl]
      show ?thesis using True Inr q ih by (subst parse_fields.simps) (simp add: Let_def)
    qed
  next
    case False
    then show ?thesis by (subst parse_fields.simps) simp
  qed
qed

lemma parse_strict_codes: "fails_only {SQLITE_CORRUPT, OUT_OF_BOUNDS} (snd (doltliteParseRecordStrict d))"
  using parse_fields_codes dlReadVarint_codes [of d 0 "length d"]
  by (auto simp: doltliteParseRecordStrict_def split: sum.split)

lemma fields_equal_codes: "fails_only {SQLITE_CORRUPT, OUT_OF_BOUNDS} (fields_equal a b xs ys)"
  by (induction a b xs ys rule: fields_equal.induct) (auto simp: Let_def read_at_def)

lemma prollyValuesEqual_codes: "fails_only {SQLITE_CORRUPT, OUT_OF_BOUNDS} (prollyValuesEqual a b)"
proof -
  have f: "fails_only {SQLITE_CORRUPT, OUT_OF_BOUNDS} (diffRecordsEqualFieldwise a b)" for a b
    using parse_strict_codes [of a] parse_strict_codes [of b] fields_equal_codes
    by (auto simp: diffRecordsEqualFieldwise_def split: prod.split sum.split)
  then show ?thesis
    unfolding prollyValuesEqual_def by (intro fails_only_intros) auto
qed

section \<open>The iterator\<close>

fun diff_drain :: "nat \<Rightarrow> nat \<Rightarrow> 's chunk_get \<Rightarrow> 's diff_iter \<Rightarrow> 's diff_iter \<times> (diff_change list \<times> unit res)" where
  "diff_drain 0 n get w = (w, ([], Inl NO_RETURN))"
| "diff_drain (Suc m) n get w =
     (case prollyDiffIterStep n get w of
        (w, Inl e) \<Rightarrow> (w, ([], Inl e))
      | (w, Inr None) \<Rightarrow> (w, ([], Inr ()))
      | (w, Inr (Some ch)) \<Rightarrow> apsnd (apfst ((#) ch)) (diff_drain m n get w))"

lemma diff_rows_side:
  "diff_rows fl (x # xs) [] = apfst ((#) (del_change fl x)) (diff_rows fl xs [])"
  "diff_rows fl [] (n # ns) = apfst ((#) (add_change fl n)) (diff_rows fl [] ns)"
  by simp_all

lemma diffBlobKeyCmp_sign [simp]:
  "diffBlobKeyCmp a b < 0 \<longleftrightarrow> a < b" "0 < diffBlobKeyCmp a b \<longleftrightarrow> b < a" "diffBlobKeyCmp a b = 0 \<longleftrightarrow> a = b"
proof -
  let ?n = "if length a < length b then length a else length b"
  have "diffBlobKeyCmp a b < 0 \<longleftrightarrow> key_cmp a b < 0" "0 < diffBlobKeyCmp a b \<longleftrightarrow> 0 < key_cmp a b"
    by (auto simp: diffBlobKeyCmp_def key_cmp_def Let_def)
  then show "diffBlobKeyCmp a b < 0 \<longleftrightarrow> a < b" "0 < diffBlobKeyCmp a b \<longleftrightarrow> b < a" by simp_all
  then show "diffBlobKeyCmp a b = 0 \<longleftrightarrow> a = b" by (metis less_irrefl linorder_neqE)
qed

context tree_reader
begin

abbreviation total :: "(side \<Rightarrow> row list) \<Rightarrow> nat" where
  "total left \<equiv> length (left Old) + length (left New)"

definition step_post :: "byte \<Rightarrow> 's diff_iter \<Rightarrow> (side \<Rightarrow> row list) \<Rightarrow> ref multiset \<Rightarrow> diff_change list \<times> unit res \<Rightarrow>
    's diff_iter \<times> diff_change option res \<Rightarrow> bool" where
  "step_post fl w left R d x \<longleftrightarrow> (case x of (w', r) \<Rightarrow>
     pair_stays R w w' \<and>
     (\<exists>left'. it_ok fl w' left' R \<and>
       (case d of
          ([], Inr _) \<Rightarrow> r = Inr None \<and> itEof w'
        | ([], Inl e) \<Rightarrow> r = Inl e \<and> itRc w' = Inl e \<and> \<not> itEof w'
        | (ch # cs, e) \<Rightarrow> r = Inr (Some ch) \<and> itRc w' = Inr () \<and> \<not> itEof w' \<and>
            diff_rows fl (left' Old) (left' New) = (cs, e) \<and> total left' < total left \<and> length (left' Old) \<le> length (left Old))))"

lemma step_postI:
  assumes "pair_stays R w w'" "it_ok fl w' left' R" "itRc w' = Inr ()" "\<not> itEof w'"
    "d = apfst ((#) ch) (diff_rows fl (left' Old) (left' New))" "total left' < total left" "length (left' Old) \<le> length (left Old)"
  shows "step_post fl w left R d (w', Inr (Some ch))"
  using assms by (auto simp: step_post_def apfst_def map_prod_def split_beta intro!: exI [of _ left'])

text \<open>A row that only one side has.\<close>

lemma row_one_ok:
  assumes "it_ok fl w left R" "left s = r # rs" "fresh w" "current w = diff_change0" "\<not> itEof w"
    "d = apfst ((#) (side_change s fl r)) (diff_rows fl ((left(s := rs)) Old) ((left(s := rs)) New))"
  shows "\<exists>w'. bindO (iter_one get s) (\<lambda>_. readO (\<lambda>w. Inr (Some (current w)))) w = (w', Inr (Some (side_change s fl r))) \<and>
     step_post fl w left R d (w', Inr (Some (side_change s fl r)))"
proof -
  obtain w' where w': "iter_one get s w = (w', Inr ())" "it_ok fl w' (left(s := rs)) R" "pair_stays R w w'"
     "itRc w' = Inr ()" "itEof w' = itEof w" "current w' = side_change s fl r"
    using iter_one_ok [OF assms(1-4)] by blast
  have "total (left(s := rs)) < total left" "length ((left(s := rs)) Old) \<le> length (left Old)"
    using assms(2) by (cases s; simp)+
  from step_postI [OF w'(3,2,4) _ assms(6) this] w' assms(5) show ?thesis by simp
qed

lemma step_post_trans:
  assumes "step_post fl w' left' R d x" "pair_stays R w w'" "total left' \<le> total left" "length (left' Old) \<le> length (left Old)"
  shows "step_post fl w left R d x"
proof -
  obtain w'' r where x: "x = (w'', r)" by (cases x)
  have "pair_stays R w w''" using assms(1,2) x pair_stays_trans [of R w w' w''] by (simp add: step_post_def)
  then show ?thesis using assms(1,3,4) x unfolding step_post_def
    by (fastforce split: list.splits sum.splits prod.splits)
qed

lemma step_loop_ok:
  assumes "it_ok fl w left R" "fresh w" "itRc w = Inr ()" "\<not> itEof w" "length (left Old) < n"
  shows "step_post fl w left R (diff_rows fl (left Old) (left New)) (step_loop n get w)"
  using assms
proof (induction n arbitrary: w left)
  case (Suc n)
  let ?d = "diff_rows fl (left Old) (left New)"
  have pa: "pair_at fl w left R" using Suc.prems(1) by (simp add: it_ok_def)
  have cv: "cur_valid s w = (w, Inr (left s \<noteq> []))" for s
  proof -
    obtain c where "cur_of s w = Some c" using Suc.prems(1) by (auto simp: it_ok_def)
    from cur_valid_pair [OF pa this] show ?thesis .
  qed
  have bv: "bindO (cur_valid s) f w = f (left s \<noteq> []) w" for s and f :: "bool \<Rightarrow> ('s diff_iter, diff_change option) op"
    by (rule bindO_Inr [where m = "cur_valid s", OF cv])
  let ?w = "w\<lparr>current := diff_change0\<rparr>"
  have sp: "same_pair w ?w" by (rule same_pairI) simp_all
  have i: "it_ok fl ?w left R" "fresh ?w" "current ?w = diff_change0" "\<not> itEof ?w"
    using it_ok_same [OF Suc.prems(1) sp] Suc.prems(2,4) by (simp_all add: fresh_def)
  have ww: "step_post fl ?w left R d x \<Longrightarrow> step_post fl w left R d x" for d x
    using step_post_trans [OF _ pair_stays_same [OF sp]] by blast
  have one: "step_post fl w left R ?d (bindO (iter_one get s) (\<lambda>_. readO (\<lambda>w. Inr (Some (current w)))) ?w)"
    if s: "left s = r # rs" and d: "?d = apfst ((#) (side_change s fl r)) (diff_rows fl ((left(s := rs)) Old) ((left(s := rs)) New))" for s r rs
    using row_one_ok [OF i(1) s i(2-4) d] ww by metis
  show ?case
  proof (cases "left Old")
    case lo: Nil
    show ?thesis
    proof (cases "left New")
      case Nil
      let ?e = "w\<lparr>itEof := True\<rparr>"
      have se: "same_pair w ?e" by (rule same_pairI) simp_all
      have "it_ok fl ?e left R" using it_ok_same [OF Suc.prems(1) se] by simp
      moreover have "step_loop (Suc n) get w = (?e, Inr None)" using bv lo Nil by simp
      ultimately show ?thesis using lo Nil pair_stays_same [OF se] by (auto simp: step_post_def simp del: step_loop.simps)
    next
      case (Cons r rs)
      have d: "?d = apfst ((#) (side_change New fl r)) (diff_rows fl ((left(New := rs)) Old) ((left(New := rs)) New))"
        using lo Cons by (simp add: side_change_def)
      show ?thesis using one [OF Cons d] bv lo Cons by (simp add: Let_def)
    qed
  next
    case lo: (Cons x xs)
    show ?thesis
    proof (cases "left New")
      case Nil
      have d: "?d = apfst ((#) (side_change Old fl x)) (diff_rows fl ((left(Old := xs)) Old) ((left(Old := xs)) New))"
        using lo Nil by (simp add: side_change_def)
      show ?thesis using one [OF lo d] bv lo Nil by (simp add: Let_def)
    next
      case ln: (Cons m ns)
      have sw: "same_pair w w" by (rule same_pairI) simp_all
      note rd = it_read [OF Suc.prems(1) lo] it_read [OF Suc.prems(1) ln]
      have ck: "diffCompareKeys ?w = (?w, Inr (diffBlobKeyCmp (fst x) (fst m)))"
        using rd(1) [OF sp] rd(4) [OF sp] by (simp add: diffCompareKeys_def)
      have dv: "diffValuesEqual ?w = (?w, Inr (bindR (prollyValuesEqual (snd x) (snd m)) (\<lambda>eq. if eq then Inr () else Inl SQLITE_DONE)))"
        using rd(2) [OF sp] rd(5) [OF sp] by (simp add: diffValuesEqual_def)
      consider (l) "fst x < fst m" | (g) "fst m < fst x" | (e) "fst x = fst m" by fastforce
      then show ?thesis
      proof cases
        case l
        have d: "?d = apfst ((#) (side_change Old fl x)) (diff_rows fl ((left(Old := xs)) Old) ((left(Old := xs)) New))"
          using lo ln l by (simp add: side_change_def)
        show ?thesis using one [OF lo d] bv lo ln ck l by (simp add: Let_def)
      next
        case g
        have d: "?d = apfst ((#) (side_change New fl m)) (diff_rows fl ((left(New := ns)) Old) ((left(New := ns)) New))"
          using lo ln g less_not_sym [OF g] by (simp add: side_change_def)
        show ?thesis using one [OF ln d] bv lo ln ck g less_not_sym [OF g] by (simp add: Let_def)
      next
        case e
        have k: "diffBlobKeyCmp (fst x) (fst m) = 0" using e by simp
        show ?thesis
        proof (cases "prollyValuesEqual (snd x) (snd m)")
          case (Inl c)
          then have c: "c \<noteq> SQLITE_DONE" using prollyValuesEqual_codes [of "snd x" "snd m"] by auto
          let ?e = "?w\<lparr>itRc := Inl c\<rparr>"
          have se: "same_pair w ?e" by (rule same_pairI) simp_all
          have ie: "it_ok fl ?e left R" using it_ok_same [OF Suc.prems(1) se] by simp
          have "step_loop (Suc n) get w = (?e, Inl c)" using bv lo ln ck dv k Inl c by (simp add: Let_def)
          then show ?thesis using ie pair_stays_same [OF se] lo ln e Inl Suc.prems(4) by (auto simp: step_post_def)
        next
          case (Inr b)
          show ?thesis
          proof (cases b)
            case True
            let ?e = "?w\<lparr>itRc := Inr ()\<rparr>"
            have se: "same_pair w ?e" by (rule same_pairI) simp_all
            have ie: "it_ok fl ?e left R" using it_ok_same [OF Suc.prems(1) se] by simp
            obtain w' where w': "iter_both get ?e = (w', Inr ())" "it_ok fl w' (left(Old := xs, New := ns)) R" "pair_stays R ?e w'"
              "itRc w' = Inr ()" "itEof w' = itEof ?e" "fresh ?e \<longrightarrow> fresh w'"
              using iter_both_ok [OF ie lo ln] by blast
            have f: "fresh w'" "\<not> itEof w'" using w'(5,6) Suc.prems(2,4) by (simp_all add: fresh_def)
            have l: "length ((left(Old := xs, New := ns)) Old) < n" using Suc.prems(5) lo by simp
            have run: "step_loop (Suc n) get w = step_loop n get w'" using bv lo ln ck dv k Inr True w'(1) by (simp add: Let_def)
            have d: "?d = diff_rows fl ((left(Old := xs, New := ns)) Old) ((left(Old := xs, New := ns)) New)"
              using lo ln e Inr True by simp
            have ps: "pair_stays R w w'" using pair_stays_trans [OF pair_stays_same [OF se] w'(3)] .
            show ?thesis unfolding run d
              by (rule step_post_trans [OF Suc.IH [OF w'(2) f(1) w'(4) f(2) l] ps]) (use lo ln in simp_all)
          next
            case False
            let ?e = "?w\<lparr>itRc := Inl SQLITE_DONE\<rparr>"
            have se: "same_pair w ?e" by (rule same_pairI) simp_all
            have ie: "it_ok fl ?e left R" "fresh ?e" "current ?e = diff_change0"
              using it_ok_same [OF Suc.prems(1) se] Suc.prems(2) by (simp_all add: fresh_def)
            obtain w' where w': "iter_modify get ?e = (w', Inr ())" "it_ok fl w' (left(Old := xs, New := ns)) R" "pair_stays R ?e w'"
              "itRc w' = Inr ()" "itEof w' = itEof ?e" "current w' = mod_change fl (fst x) (snd x) (snd m)"
              using iter_modify_ok [OF ie(1) lo ln e ie(2,3)] by blast
            have run: "step_loop (Suc n) get w = (w', Inr (Some (mod_change fl (fst x) (snd x) (snd m))))"
              using bv lo ln ck dv k Inr False w'(1,6) by (simp add: Let_def)
            have d: "?d = apfst ((#) (mod_change fl (fst x) (snd x) (snd m))) (diff_rows fl ((left(Old := xs, New := ns)) Old) ((left(Old := xs, New := ns)) New))"
              using lo ln e Inr False by simp
            have ps: "pair_stays R w w'" using pair_stays_trans [OF pair_stays_same [OF se] w'(3)] .
            show ?thesis unfolding run
              by (rule step_postI [OF ps w'(2,4) _ d]) (use lo ln w'(5) Suc.prems(4) in simp_all)
          qed
        qed
      qed
    qed
  qed
qed simp

end

section \<open>The whole run\<close>

context tree_reader
begin

lemma step_ok:
  assumes "it_ok fl w left R" "itRc w = Inr ()" "\<not> itEof w" "length (left Old) < n"
  shows "step_post fl w left R (diff_rows fl (left Old) (left New)) (prollyDiffIterStep n get w)"
proof -
  let ?w = "w\<lparr>pKeyCopy := [], pOldValCopy := [], pNewValCopy := []\<rparr>"
  have sp: "same_pair w ?w" by (rule same_pairI) simp_all
  have i: "it_ok fl ?w left R" using it_ok_same [OF assms(1) sp] by simp
  have "prollyDiffIterStep n get w = step_loop n get ?w"
    using assms(2,3) by (simp add: prollyDiffIterStep_def diffIterFreeCopies_def)
  moreover have "step_post fl ?w left R (diff_rows fl (left Old) (left New)) (step_loop n get ?w)"
    by (rule step_loop_ok [OF i]) (use assms in \<open>simp_all add: fresh_def\<close>)
  ultimately show ?thesis using step_post_trans [OF _ pair_stays_same [OF sp]] by simp
qed

text \<open>What an ended iterator returns.\<close>

definition ended :: "unit res \<Rightarrow> diff_change option res" where
  "ended e = (case e of Inl x \<Rightarrow> Inl x | Inr _ \<Rightarrow> Inr None)"

lemma step_ended: "itEof w \<and> e = Inr () \<or> \<not> itEof w \<and> itRc w = e \<and> e \<noteq> Inr () \<Longrightarrow> prollyDiffIterStep n get w = (w, ended e)"
  by (cases e) (auto simp: prollyDiffIterStep_def ended_def)

lemma drain_ok:
  assumes "it_ok fl w left R" "itRc w = Inr ()" "itEof w \<longrightarrow> left Old = [] \<and> left New = []" "length (left Old) < n" "total left < m"
  shows "\<exists>w' left'. diff_drain m n get w = (w', diff_rows fl (left Old) (left New)) \<and> it_ok fl w' left' R \<and> pair_stays R w w' \<and>
     (\<forall>k. prollyDiffIterStep k get w' = (w', ended (snd (diff_rows fl (left Old) (left New)))))"
  using assms
proof (induction m arbitrary: w left)
  case (Suc m)
  show ?case
  proof (cases "itEof w")
    case True
    then have "prollyDiffIterStep k get w = (w, Inr None)" for k by (simp add: prollyDiffIterStep_def)
    then show ?thesis using Suc.prems(1,3) True by (intro exI [of _ w] exI [of _ left]) (simp add: ended_def)
  next
    case False
    obtain w1 r where w1: "prollyDiffIterStep n get w = (w1, r)" by (cases "prollyDiffIterStep n get w")
    obtain cs e where d: "diff_rows fl (left Old) (left New) = (cs, e)" by (cases "diff_rows fl (left Old) (left New)")
    have sp: "step_post fl w left R (cs, e) (w1, r)" using step_ok [OF Suc.prems(1,2) False Suc.prems(4)] w1 d by simp
    show ?thesis
    proof (cases cs)
      case Nil
      obtain left' where l: "it_ok fl w1 left' R" "pair_stays R w w1"
        "itEof w1 \<and> e = Inr () \<and> r = Inr None \<or> \<not> itEof w1 \<and> itRc w1 = e \<and> e \<noteq> Inr () \<and> (\<exists>x. e = Inl x \<and> r = Inl x)"
        using sp Nil by (cases e) (auto simp: step_post_def)
      have "diff_drain (Suc m) n get w = (w1, ([], e))" using l(3) w1 by auto
      moreover have "prollyDiffIterStep k get w1 = (w1, ended e)" for k by (rule step_ended) (use l(3) in blast)
      ultimately show ?thesis using l(1,2) d Nil by auto
    next
      case (Cons ch cs')
      obtain left' where l: "it_ok fl w1 left' R" "pair_stays R w w1" "r = Inr (Some ch)" "itRc w1 = Inr ()" "\<not> itEof w1"
        "diff_rows fl (left' Old) (left' New) = (cs', e)" "total left' < total left" "length (left' Old) \<le> length (left Old)"
        using sp Cons by (auto simp: step_post_def)
      have b: "length (left' Old) < n" "total left' < m" using l(7,8) Suc.prems(4,5) by simp_all
      obtain w2 left2 where w2: "diff_drain m n get w1 = (w2, (cs', e))" "it_ok fl w2 left2 R" "pair_stays R w1 w2"
        "\<forall>k. prollyDiffIterStep k get w2 = (w2, ended e)"
        using Suc.IH [OF l(1,4) _ b] l(5,6) by auto
      have "diff_drain (Suc m) n get w = (w2, (cs, e))" using w1 l(3) w2(1) Cons by simp
      then show ?thesis using w2 d pair_stays_trans [OF l(2) w2(3)] by auto
    qed
  qed
qed simp

lemma open_ok:
  assumes "env_ok \<lparr>eStore = st, eCache = ca\<rparr> R" "tree hash fl (chunks st) oldRoot xs" "tree hash fl (chunks st) newRoot ns"
  shows "\<exists>w left. prollyDiffIterOpen get st ca oldRoot newRoot fl = (w, Inr ()) \<and> it_ok fl w left R \<and> left Old = xs \<and> left New = ns \<and>
     itRc w = Inr () \<and> (itEof w \<longrightarrow> xs = [] \<and> ns = []) \<and> chunks (eStore w) = chunks st \<and> keeps ca (eCache w) R"
proof -
  let ?w = "diff_iter0 st ca oldRoot newRoot fl"
  let ?u = "?w\<lparr>dOld := None, dNew := None\<rparr>"
  have c0: "cur_of s ?u = None" for s by (cases s) (simp_all add: cur_of_def)
  have e0: "env_ok ?u R" using assms(1) by (simp add: env_ok_def diff_iter0_def)
  have "pair_at fl ?u (\<lambda>_. []) R" using e0 unfolding pair_at_def c0 by (simp add: crefs_def)
  from pair_init [OF this, of Old oldRoot] have "pair_at fl (set_cur Old (Some (prollyCursorInit oldRoot fl)) ?u) (\<lambda>_. []) R" using c0 by simp
  from pair_init [OF this, of New newRoot] have "pair_at fl (set_cur New (Some (prollyCursorInit newRoot fl)) (set_cur Old (Some (prollyCursorInit oldRoot fl)) ?u)) (\<lambda>_. []) R"
    using c0 by simp
  moreover have "set_cur New (Some (prollyCursorInit newRoot fl)) (set_cur Old (Some (prollyCursorInit oldRoot fl)) ?u) = ?w"
    by (simp add: set_cur_def diff_iter0_def)
  ultimately have p0: "pair_at fl ?w (\<lambda>_. []) R" by metis
  have cs: "cur_of Old ?w = Some (prollyCursorInit oldRoot fl)" "cur_of New ?w = Some (prollyCursorInit newRoot fl)"
    by (simp_all add: cur_of_def diff_iter0_def)
  have rt: "curRoot (prollyCursorInit root fl) = root" for root by (simp add: prollyCursorInit_def)
  have t1: "tree hash fl (chunks (eStore ?w)) (curRoot (prollyCursorInit oldRoot fl)) xs" using assms(2) rt by (simp add: diff_iter0_def)
  obtain w1 where w1: "on_cur Old (prollyCursorFirst get) ?w = (w1, Inr (if xs = [] then 1 else 0))"
    "pair_at fl w1 ((\<lambda>_. [])(Old := xs)) R" "pair_stays R ?w w1" "dpair.more w1 = dpair.more ?w" "cur_of Old w1 \<noteq> None"
    "cur_of New w1 = cur_of New ?w" using on_cur_first [OF p0 cs(1) t1] by auto
  have c1: "cur_of New w1 = Some (prollyCursorInit newRoot fl)" using w1(6) cs(2) by simp
  have t2: "tree hash fl (chunks (eStore w1)) (curRoot (prollyCursorInit newRoot fl)) ns"
    using assms(3) rt w1(3) by (simp add: diff_iter0_def pair_stays_def)
  let ?left = "(\<lambda>_. [])(Old := xs, New := ns)"
  obtain w2 where w2: "on_cur New (prollyCursorFirst get) w1 = (w2, Inr (if ns = [] then 1 else 0))"
    "pair_at fl w2 ?left R" "pair_stays R w1 w2" "dpair.more w2 = dpair.more w1" "cur_of New w2 \<noteq> None" "cur_of Old w2 = cur_of Old w1"
    using on_cur_first [OF w1(2) c1 t2] by auto
  note mo = iter_more [OF w2(4)] iter_more [OF w1(4)]
  have all: "cur_of s w2 \<noteq> None" for s using w2(5,6) w1(5) by (cases s) auto
  have it: "it_ok fl w2 ?left R" using w2(2) all mo by (simp add: it_ok_def diff_iter0_def)
  have cv: "cur_valid s w2 = (w2, Inr (?left s \<noteq> []))" for s
  proof -
    obtain c where "cur_of s w2 = Some c" using all [of s] by auto
    from cur_valid_pair [OF w2(2) this] show ?thesis .
  qed
  have bv: "bindO (cur_valid s) f w2 = f (?left s \<noteq> []) w2" for s and f :: "bool \<Rightarrow> ('s diff_iter, unit) op"
    by (rule bindO_Inr [where m = "cur_valid s", OF cv])
  define w3 where "w3 = (if xs = [] \<and> ns = [] then w2\<lparr>itEof := True\<rparr> else w2)"
  have se: "same_pair w2 w3" unfolding w3_def by (cases "xs = [] \<and> ns = []") (auto intro: same_pairI)
  have run: "prollyDiffIterOpen get st ca oldRoot newRoot fl = (w3, Inr ())"
    using w1(1) w2(1) bv by (simp add: prollyDiffIterOpen_def w3_def)
  have f: "itRc w3 = Inr ()" "itFlags w3 = itFlags w2" "itEof w3 \<longrightarrow> xs = [] \<and> ns = []"
    using mo by (auto simp: diff_iter0_def w3_def)
  have it3: "it_ok fl w3 ?left R" by (rule it_ok_same [OF it se f(2)])
  have "pair_stays R ?w w3" by (rule pair_stays_trans [OF pair_stays_trans [OF w1(3) w2(3)] pair_stays_same [OF se]])
  then have st: "chunks (eStore w3) = chunks st" "keeps ca (eCache w3) R" by (simp_all add: pair_stays_def diff_iter0_def)
  show ?thesis using run it3 f(1,3) st by (intro exI [of _ w3] exI [of _ ?left]) (simp only: fun_upd_apply simp_thms if_True if_False side.distinct)
qed

lemma close_ok:
  assumes "it_ok fl w left R"
  shows "\<exists>w'. prollyDiffIterClose w = (w', Inr ()) \<and> env_ok w' R \<and> chunks (eStore w') = chunks (eStore w) \<and>
     keeps (eCache w) (eCache w') R \<and> itEof w' \<and> dOld w' = None \<and> dNew w' = None"
proof -
  have p: "pair_at fl w left R" using assms by (simp add: it_ok_def)
  obtain a b where ab: "cur_of Old w = Some a" "cur_of New w = Some b" using assms unfolding it_ok_def by (meson not_None_eq)
  obtain w1 where w1: "close_cur Old w = (w1, Inr ())" "pair_at fl w1 (left(Old := [])) R" "chunks (eStore w1) = chunks (eStore w)"
    "keeps (eCache w) (eCache w1) R" "cur_of Old w1 = None" "cur_of New w1 = cur_of New w"
    using close_cur_ok [OF p ab(1)] by auto
  have b: "cur_of New w1 = Some b" using w1(6) ab(2) by simp
  obtain w2 where w2: "close_cur New w1 = (w2, Inr ())" "pair_at fl w2 (left(Old := [], New := [])) R" "chunks (eStore w2) = chunks (eStore w1)"
    "keeps (eCache w1) (eCache w2) R" "cur_of New w2 = None" "cur_of Old w2 = cur_of Old w1"
    using close_cur_ok [OF w1(2) b] by auto
  let ?w = "w2\<lparr>pKeyCopy := [], pOldValCopy := [], pNewValCopy := [], itEof := True\<rparr>"
  have "dOld w \<noteq> None" "dNew w1 \<noteq> None" using ab b by (simp_all add: cur_of_def)
  then have "prollyDiffIterClose w = (?w, Inr ())"
    using w1(1) w2(1) by (simp add: prollyDiffIterClose_def diffIterFreeCopies_def)
  moreover have "env_ok ?w R"
    using w2(2) w1(5) w2(5,6) by (simp add: pair_at_def crefs_def env_ok_def)
  moreover have "dOld ?w = None" "dNew ?w = None" using w1(5) w2(5,6) by (simp_all add: cur_of_def)
  ultimately show ?thesis using w1(3,4) w2(3,4) keeps_trans [OF w1(4) w2(4)] by (intro exI [of _ ?w]) simp
qed

lemma diff_iter_ok:
  assumes "env_ok \<lparr>eStore = st, eCache = ca\<rparr> R" "tree hash fl (chunks st) oldRoot xs" "tree hash fl (chunks st) newRoot ns"
    "length xs < n" "length xs + length ns < m"
  shows "\<exists>w1 w2 w3. prollyDiffIterOpen get st ca oldRoot newRoot fl = (w1, Inr ()) \<and>
     diff_drain m n get w1 = (w2, diff_rows fl xs ns) \<and>
     (\<forall>k. prollyDiffIterStep k get w2 = (w2, ended (snd (diff_rows fl xs ns)))) \<and>
     prollyDiffIterClose w2 = (w3, Inr ()) \<and> env_ok w3 R \<and> chunks (eStore w3) = chunks st \<and> keeps ca (eCache w3) R"
proof -
  obtain w1 left where w1: "prollyDiffIterOpen get st ca oldRoot newRoot fl = (w1, Inr ())" "it_ok fl w1 left R" "left Old = xs"
     "left New = ns" "itRc w1 = Inr ()" "itEof w1 \<longrightarrow> xs = [] \<and> ns = []" "chunks (eStore w1) = chunks st" "keeps ca (eCache w1) R"
    using open_ok [OF assms(1-3)] by blast
  have b: "length (left Old) < n" "total left < m" using w1(3,4) assms(4,5) by simp_all
  obtain w2 left2 where w2: "diff_drain m n get w1 = (w2, diff_rows fl xs ns)" "it_ok fl w2 left2 R" "pair_stays R w1 w2"
     "\<forall>k. prollyDiffIterStep k get w2 = (w2, ended (snd (diff_rows fl xs ns)))"
    using drain_ok [OF w1(2,5) _ b] w1(3,4,6) by auto
  obtain w3 where w3: "prollyDiffIterClose w2 = (w3, Inr ())" "env_ok w3 R" "chunks (eStore w3) = chunks (eStore w2)"
     "keeps (eCache w2) (eCache w3) R" using close_ok [OF w2(2)] by blast
  have "chunks (eStore w3) = chunks st" "keeps ca (eCache w3) R"
    using w1(7) w2(3) w3(3) keeps_trans [OF keeps_trans [OF w1(8)] w3(4)] by (simp_all add: pair_stays_def)
  then show ?thesis using w1(1) w2(1,4) w3(1,2) by blast
qed

end

section \<open>The iterator on the chunk store\<close>

lemma env_store: "store_inv H U cs f \<Longrightarrow> cache_inv H U ca R \<Longrightarrow> reader.env_ok H U f \<lparr>eStore = cs, eCache = ca\<rparr> R"
  using store_chunks_U by (simp add: reader.env_ok_def)

text \<open>
  C13. An iterator over the differences of two trees in the chunk store delivers exactly the differences
  of the two maps of rows, each once and in the order of the keys: a deletion for a key that only the old
  tree has, an addition for a key that only the new tree has, a modification with both values for a
  key whose records differ in a field.  It then reports the end on every further step, changes no chunk, and after
  closing the cache is well formed with exactly the references that others hold.
\<close>

theorem diff_iter_correct:
  assumes "store_inv H U cs f" "cache_inv H U ca R" "tree H fl (chunks f cs) oldRoot xs" "tree H fl (chunks f cs) newRoot ns"
    "sorted_wrt (<) (map fst xs)" "sorted_wrt (<) (map fst ns)" "comparable (map_of xs) (map_of ns)"
    "length xs < n" "length xs + length ns < m"
  shows "\<exists>w1 w2 w3 chs. prollyDiffIterOpen (\<lambda>cs. chunkStoreGet cs f) cs ca oldRoot newRoot fl = (w1, Inr ()) \<and>
     diff_drain m n (\<lambda>cs. chunkStoreGet cs f) w1 = (w2, (chs, Inr ())) \<and>
     set chs = changes fl (map_of xs) (map_of ns) \<and> sorted_wrt (<) (map dcKey chs) \<and>
     (\<forall>k. prollyDiffIterStep k (\<lambda>cs. chunkStoreGet cs f) w2 = (w2, Inr None)) \<and>
     prollyDiffIterClose w2 = (w3, Inr ()) \<and> store_inv H U (eStore w3) f \<and> chunks f (eStore w3) = chunks f cs \<and> cache_inv H U (eCache w3) R"
proof -
  have t: "snd (diff_rows fl xs ns) = Inr ()" by (rule diff_rows_total [OF assms(5-7)])
  have d: "diff_rows fl xs ns = (fst (diff_rows fl xs ns), Inr ())" using t by (metis prod.collapse)
  obtain w1 w2 w3 where w: "prollyDiffIterOpen (\<lambda>cs. chunkStoreGet cs f) cs ca oldRoot newRoot fl = (w1, Inr ())"
    "diff_drain m n (\<lambda>cs. chunkStoreGet cs f) w1 = (w2, diff_rows fl xs ns)"
    "\<forall>k. prollyDiffIterStep k (\<lambda>cs. chunkStoreGet cs f) w2 = (w2, reader.ended (snd (diff_rows fl xs ns)))"
    "prollyDiffIterClose w2 = (w3, Inr ())" "reader.env_ok H U f w3 R" "chunks f (eStore w3) = chunks f cs"
    using reader.diff_iter_ok [OF env_store [OF assms(1,2)] assms(3,4,8,9)] by blast
  have "\<forall>k. prollyDiffIterStep k (\<lambda>cs. chunkStoreGet cs f) w2 = (w2, Inr None)" using w(3) t by (simp add: reader.ended_def)
  moreover have "store_inv H U (eStore w3) f" "cache_inv H U (eCache w3) R" using w(5) by (simp_all add: reader.env_ok_def)
  moreover have "diff_drain m n (\<lambda>cs. chunkStoreGet cs f) w1 = (w2, (fst (diff_rows fl xs ns), Inr ()))" using w(2) d by metis
  ultimately show ?thesis using w(1,4,6) diff_rows_set [OF assms(5,6) t] by blast
qed

text \<open>
  C14. When the values of some key cannot be compared, because they are not records of the storage
  format, the iterator delivers exactly the differences at the keys before the first such key and then
  fails with the code of the comparison, again on every further step; closing it still gives all references back.
\<close>

theorem diff_iter_error:
  assumes "store_inv H U cs f" "cache_inv H U ca R" "tree H fl (chunks f cs) oldRoot xs" "tree H fl (chunks f cs) newRoot ns"
    "sorted_wrt (<) (map fst xs)" "sorted_wrt (<) (map fst ns)" "\<not> comparable (map_of xs) (map_of ns)"
    "length xs < n" "length xs + length ns < m"
  shows "\<exists>w1 w2 w3 chs e k v v'. prollyDiffIterOpen (\<lambda>cs. chunkStoreGet cs f) cs ca oldRoot newRoot fl = (w1, Inr ()) \<and>
     diff_drain m n (\<lambda>cs. chunkStoreGet cs f) w1 = (w2, (chs, Inl e)) \<and>
     map_of xs k = Some v \<and> map_of ns k = Some v' \<and> prollyValuesEqual v v' = Inl e \<and>
     set chs = {c \<in> changes fl (map_of xs) (map_of ns). dcKey c < k} \<and> sorted_wrt (<) (map dcKey chs) \<and>
     (\<forall>k. prollyDiffIterStep k (\<lambda>cs. chunkStoreGet cs f) w2 = (w2, Inl e)) \<and>
     prollyDiffIterClose w2 = (w3, Inr ()) \<and> chunks f (eStore w3) = chunks f cs \<and> cache_inv H U (eCache w3) R"
proof -
  have ne: "snd (diff_rows fl xs ns) \<noteq> Inr ()"
  proof
    assume a: "snd (diff_rows fl xs ns) = Inr ()"
    show False using diff_rows_comparable [OF assms(5,6) a] assms(7) by simp
  qed
  then obtain e where e: "snd (diff_rows fl xs ns) = Inl e" by (cases "snd (diff_rows fl xs ns)") auto
  from diff_rows_stop [OF e] obtain A x B P y Q where s: "xs = A @ x # B" "ns = P @ y # Q" "fst x = fst y"
    "prollyValuesEqual (snd x) (snd y) = Inl e" "diff_rows fl A P = (fst (diff_rows fl xs ns), Inr ())" by blast
  have k: "keyed A" "keyed P" using assms(5,6) s(1,2) by (simp_all add: sorted_wrt_append)
  have "(fst x, snd x) \<in> set xs" using s(1) by simp
  moreover have "(fst x, snd y) \<in> set ns" using s(2,3) by simp
  ultimately have m: "map_of xs (fst x) = Some (snd x)" "map_of ns (fst x) = Some (snd y)"
    using keyed_map_of [OF assms(5)] keyed_map_of [OF assms(6)] by blast+
  have st: "set (fst (diff_rows fl xs ns)) = changes fl (map_of A) (map_of P) \<and> sorted_wrt (<) (map dcKey (fst (diff_rows fl xs ns)))"
    using diff_rows_set [OF k, of fl] s(5) by simp
  have b: "map_of A = map_of xs |` {k. k < fst x}" "map_of P = map_of ns |` {k. k < fst x}"
    using keyed_below [of A x B] keyed_below [of P y Q] assms(5,6) s(1-3) by simp_all
  obtain w1 w2 w3 where w: "prollyDiffIterOpen (\<lambda>cs. chunkStoreGet cs f) cs ca oldRoot newRoot fl = (w1, Inr ())"
    "diff_drain m n (\<lambda>cs. chunkStoreGet cs f) w1 = (w2, diff_rows fl xs ns)"
    "\<forall>k. prollyDiffIterStep k (\<lambda>cs. chunkStoreGet cs f) w2 = (w2, reader.ended (snd (diff_rows fl xs ns)))"
    "prollyDiffIterClose w2 = (w3, Inr ())" "reader.env_ok H U f w3 R" "chunks f (eStore w3) = chunks f cs"
    using reader.diff_iter_ok [OF env_store [OF assms(1,2)] assms(3,4,8,9)] by blast
  have "\<forall>k. prollyDiffIterStep k (\<lambda>cs. chunkStoreGet cs f) w2 = (w2, Inl e)" using w(3) e by (simp add: reader.ended_def)
  moreover have "cache_inv H U (eCache w3) R" using w(5) by (simp add: reader.env_ok_def)
  moreover have "diff_drain m n (\<lambda>cs. chunkStoreGet cs f) w1 = (w2, (fst (diff_rows fl xs ns), Inl e))" using w(2) e by (metis prod.collapse)
  moreover have "set (fst (diff_rows fl xs ns)) = {c \<in> changes fl (map_of xs) (map_of ns). dcKey c < fst x}"
    using st unfolding b changes_below by blast
  ultimately show ?thesis using w(1,4,6) m s(4) st by blast
qed

text \<open>
  C15. Two values that are records of the storage format are equal for the comparison exactly when they have the
  same fields, each with the same serial type and the same bytes.
\<close>

theorem prollyValuesEqual_records:
  assumes "record_ok hs fs" "record_ok hs' gs" "fs \<noteq> []" "gs \<noteq> []"
  shows "prollyValuesEqual (encode_record hs fs) (encode_record hs' gs) = Inr (fs = gs)"
  by (rule values_equal_records [OF assms])

lemma diff_iter_correct_witness:
  "\<exists>cs w1 w2 w3. chunkStorePut ex_hash chunkStoreOpenMemory ex_node = Inr (cs, ex_hash ex_node) \<and>
     prollyDiffIterOpen (\<lambda>cs. chunkStoreGet cs []) cs (prollyCacheInit 4) hash0 (ex_hash ex_node) PROLLY_NODE_BLOBKEY = (w1, Inr ()) \<and>
     diff_drain 2 1 (\<lambda>cs. chunkStoreGet cs []) w1 = (w2, ([add_change PROLLY_NODE_BLOBKEY ([1], [2])], Inr ())) \<and>
     prollyDiffIterClose w2 = (w3, Inr ())"
proof -
  obtain cs where cs: "chunkStorePut ex_hash chunkStoreOpenMemory ex_node = Inr (cs, ex_hash ex_node)" "store_inv ex_hash {ex_node} cs []"
    "chunks [] cs = {ex_node}" "cache_inv ex_hash {ex_node} (prollyCacheInit 4) {#}" by (rule ex_store)
  have t: "tree ex_hash PROLLY_NODE_BLOBKEY (chunks [] cs) (ex_hash ex_node) [([1], [2])]" using ex_tree cs(3) by simp
  have z: "tree ex_hash PROLLY_NODE_BLOBKEY (chunks [] cs) hash0 []" by (simp add: tree_def)
  have c: "comparable (map_of []) (map_of [([1 :: byte], [2 :: byte])])" by (simp add: comparable_def)
  have ch: "changes PROLLY_NODE_BLOBKEY (map_of []) (map_of [([1], [2])]) = {add_change PROLLY_NODE_BLOBKEY ([1], [2])}"
    using changes_one_side(2) [of "[([1], [2])]"] by simp
  have one: "chs = [a]" if "set chs = {a}" "sorted_wrt (<) (map dcKey chs)" for chs a
  proof -
    have "distinct chs" using that(2) by (simp add: strict_sorted_iff distinct_map)
    then have "length chs = 1" using that(1) distinct_card by fastforce
    then show ?thesis using that(1) by (cases chs) auto
  qed
  show ?thesis
    using diff_iter_correct [OF cs(2,4) z t _ _ c, of 1 2] cs(1) ch one by fastforce
qed

lemma diff_iter_error_witness:
  "\<exists>cs w1 w2 e. chunkStorePut ex_hash chunkStoreOpenMemory ex_node = Inr (cs, ex_hash ex_node) \<and>
     prollyDiffIterOpen (\<lambda>cs. chunkStoreGet cs []) cs (prollyCacheInit 4) (ex_hash ex_node) (ex_hash ex_node) PROLLY_NODE_BLOBKEY = (w1, Inr ()) \<and>
     diff_drain 3 2 (\<lambda>cs. chunkStoreGet cs []) w1 = (w2, ([], Inl SQLITE_CORRUPT))"
proof -
  obtain cs where cs: "chunkStorePut ex_hash chunkStoreOpenMemory ex_node = Inr (cs, ex_hash ex_node)" "store_inv ex_hash {ex_node} cs []"
    "chunks [] cs = {ex_node}" "cache_inv ex_hash {ex_node} (prollyCacheInit 4) {#}" by (rule ex_store)
  have t: "tree ex_hash PROLLY_NODE_BLOBKEY (chunks [] cs) (ex_hash ex_node) [([1], [2])]" using ex_tree cs(3) by simp
  have e: "prollyValuesEqual [2] [2] = Inl SQLITE_CORRUPT" by (simp add: prollyValuesEqual_def memcmp_same_length)
  have c: "\<not> comparable (map_of [([1 :: byte], [2])]) (map_of [([1], [2])])" using e by (auto simp: comparable_def)
  obtain w1 w2 w3 chs x k v v' where w: "prollyDiffIterOpen (\<lambda>cs. chunkStoreGet cs []) cs (prollyCacheInit 4) (ex_hash ex_node) (ex_hash ex_node) PROLLY_NODE_BLOBKEY = (w1, Inr ())"
    "diff_drain 3 2 (\<lambda>cs. chunkStoreGet cs []) w1 = (w2, (chs, Inl x))" "map_of [([1], [2])] k = Some v" "map_of [([1], [2])] k = Some v'"
    "prollyValuesEqual v v' = Inl x" "set chs = {c \<in> changes PROLLY_NODE_BLOBKEY (map_of [([1], [2])]) (map_of [([1], [2])]). dcKey c < k}"
    using diff_iter_error [OF cs(2,4) t t _ _ c, of 2 3] by auto
  have k: "k = [1]" "v = [2]" "v' = [2]" using w(3,4) by (simp_all split: if_splits)
  have "set chs = {}" using w(6) k by (auto simp: changes_iff split: if_splits)
  then show ?thesis using w(1,2,5) k e cs(1) by auto
qed

lemma prollyValuesEqual_records_witness:
  "prollyValuesEqual (encode_record 5 sample_fields) (encode_record 2 [(1, [7])]) = Inr False"
proof -
  have r: "record_ok 5 sample_fields" "record_ok 2 [(1, [7])]"
    by (simp_all add: record_ok_def sample_fields_def types_bytes_def put_varint_def vdigits.simps serial_len_def
        DOLTLITE_MAX_RECORD_FIELDS_def int_sizes_def)
  show ?thesis using prollyValuesEqual_records [OF r] by (simp add: sample_fields_def)
qed

end
