(* ===== verification/DiffWalk.thy ===== *)
theory DiffWalk
  imports DiffIter
begin

text \<open>
  The walk of two cursors that reports to a callback, and the comparison of two leaves.
\<close>

section \<open>The walk of two cursors\<close>

text \<open>The callback that keeps every change.\<close>

definition collect_cb :: "diff_change list diff_cb" where
  "collect_cb chs ch = (chs @ [ch], Inr ())"

type_synonym 's cwalk = "('s, diff_change list) dwalk"

lemma walk_more:
  fixes w w' :: "('s, 'c) dwalk"
  assumes "dpair.more w' = dpair.more w"
  shows "pCtx w' = pCtx w" "aStack w' = aStack w"
  using assms by (cases w; cases w'; simp)+

lemma call_collect [simp]: "call_cb collect_cb ch w = (w\<lparr>pCtx := pCtx w @ [ch]\<rparr>, Inr ())"
  by (simp add: call_cb_def collect_cb_def)

context tree_reader
begin

definition wk_ok :: "side set \<Rightarrow> byte \<Rightarrow> 's cwalk \<Rightarrow> (side \<Rightarrow> row list) \<Rightarrow> ref multiset \<Rightarrow> bool" where
  "wk_ok V fl w left R \<longleftrightarrow> pair_at fl w left R \<and> (\<forall>s \<in> V. cur_of s w \<noteq> None)"

lemma same_ctx: "same_pair w (w\<lparr>pCtx := c\<rparr>)"
  by (rule same_pairI) simp_all

lemma wk_ok_ctx [simp]: "wk_ok V fl w left R \<Longrightarrow> wk_ok V fl (w\<lparr>pCtx := c\<rparr>) left R"
proof -
  assume a: "wk_ok V fl w left R"
  then have "pair_at fl w left R" by (simp add: wk_ok_def)
  from pair_at_same [OF this same_ctx [of w c]] show "wk_ok V fl (w\<lparr>pCtx := c\<rparr>) left R"
    using a same_ctx [of w c] unfolding wk_ok_def same_pair_def by metis
qed

lemma wk_read:
  assumes "wk_ok V fl w left R" "left s = r # rs"
  shows "on_cur s prollyCursorKey w = (w, Inr (fst r))" "on_cur s prollyCursorValue w = (w, Inr (snd r))"
    "(if fl AND PROLLY_NODE_INTKEY \<noteq> 0 then on_cur s prollyCursorIntKey else retO 0) w = (w, Inr (int_key fl (fst r)))"
proof -
  have p: "pair_at fl w left R" using assms(1) by (simp add: wk_ok_def)
  obtain c where c: "cur_of s w = Some c" using pair_at_none [OF p, of s] assms(2) by fastforce
  note r = on_cur_read [OF p c assms(2)]
  show "on_cur s prollyCursorKey w = (w, Inr (fst r))" "on_cur s prollyCursorValue w = (w, Inr (snd r))" by (rule r)+
  show "(if fl AND PROLLY_NODE_INTKEY \<noteq> 0 then on_cur s prollyCursorIntKey else retO 0) w = (w, Inr (int_key fl (fst r)))"
    using r(3) by (auto split: if_splits)
qed

lemma wk_valid: "wk_ok V fl w left R \<Longrightarrow> s \<in> V \<Longrightarrow> bindO (cur_valid s) f w = f (left s \<noteq> []) w"
proof -
  assume a: "wk_ok V fl w left R" and s: "s \<in> V"
  then obtain c where c: "cur_of s w = Some c" by (auto simp: wk_ok_def)
  have p: "pair_at fl w left R" using a by (simp add: wk_ok_def)
  have "cur_valid s w = (w, Inr (left s \<noteq> []))" by (rule cur_valid_pair [OF p c])
  then show ?thesis by (rule bindO_Inr [where m = "cur_valid s"])
qed

lemma wk_next:
  assumes "wk_ok V fl w left R" "left s = r # rs"
  shows "\<exists>w'. on_cur s (prollyCursorNext get) w = (w', Inr ()) \<and> wk_ok V fl w' (left(s := rs)) R \<and> pair_stays R w w' \<and>
     pCtx w' = pCtx w \<and> aStack w' = aStack w"
proof -
  have p: "pair_at fl w left R" using assms(1) by (simp add: wk_ok_def)
  obtain c where c: "cur_of s w = Some c" using pair_at_none [OF p, of s] assms(2) by fastforce
  obtain w1 where w1: "on_cur s (prollyCursorNext get) w = (w1, Inr ())" "pair_at fl w1 (left(s := rs)) R" "pair_stays R w w1"
     "dpair.more w1 = dpair.more w" "cur_of s w1 \<noteq> None" "cur_of (other s) w1 = cur_of (other s) w"
    using on_cur_next [OF p c assms(2)] by blast
  have "cur_of t w1 \<noteq> None" if "t \<in> V" for t using w1(5,6) assms(1) that by (cases t; cases s) (auto simp: wk_ok_def)
  then show ?thesis using w1 walk_more [OF w1(4)] by (auto simp: wk_ok_def)
qed

lemma emit_ok:
  assumes "wk_ok V fl w left R"
  shows "left Old = x # xs \<Longrightarrow> diffEmitDelete fl collect_cb w = (w\<lparr>pCtx := pCtx w @ [del_change fl x]\<rparr>, Inr ())"
    "left New = n # ns \<Longrightarrow> diffEmitAdd fl collect_cb w = (w\<lparr>pCtx := pCtx w @ [add_change fl n]\<rparr>, Inr ())"
    "left Old = x # xs \<Longrightarrow> left New = n # ns \<Longrightarrow>
       diffEmitModify fl collect_cb w = (w\<lparr>pCtx := pCtx w @ [mod_change fl (fst n) (snd x) (snd n)]\<rparr>, Inr ())"
  using wk_read [OF assms, of Old x xs] wk_read [OF assms, of New n ns]
  by (auto simp: diffEmitDelete_def diffEmitAdd_def diffEmitModify_def diffFillKey_def del_change_def add_change_def
      mod_change_def diff_change0_def)

text \<open>What a walk has added to the collected changes.\<close>

definition walked :: "ref multiset \<Rightarrow> 's cwalk \<Rightarrow> 's cwalk \<Rightarrow> diff_change list \<Rightarrow> bool" where
  "walked R w w' cs \<longleftrightarrow> pair_stays R w w' \<and> pCtx w' = pCtx w @ cs \<and> aStack w' = aStack w"

lemma walked_Nil: "pair_stays R w w' \<Longrightarrow> pCtx w' = pCtx w \<Longrightarrow> aStack w' = aStack w \<Longrightarrow> walked R w w' []"
  by (simp add: walked_def)

lemma walked_one: "walked R (w\<lparr>pCtx := pCtx w @ cs\<rparr>) w' cs' \<Longrightarrow> walked R w w' (cs @ cs')"
  using pair_stays_same [OF same_ctx [of w "pCtx w @ cs"], of R] by (auto simp: walked_def intro: pair_stays_trans)

lemma walked_trans: "walked R a b cs \<Longrightarrow> walked R b c ds \<Longrightarrow> walked R a c (cs @ ds)"
  by (auto simp: walked_def intro: pair_stays_trans)

lemma walk_rest_ok:
  assumes "wk_ok V fl w left R" "length (left s) < n" and V: "s \<in> V"
    and emit: "\<And>w left r rs. wk_ok V fl w left R \<Longrightarrow> left s = r # rs \<Longrightarrow> emit w = (w\<lparr>pCtx := pCtx w @ [ch r]\<rparr>, Inr ())"
  shows "\<exists>w'. walk_rest n get s emit w = (w', Inr ()) \<and> wk_ok V fl w' (left(s := [])) R \<and> walked R w w' (map ch (left s))"
  using assms(1,2)
proof (induction n arbitrary: w left)
  case (Suc n)
  show ?case
  proof (cases "left s")
    case Nil
    then have "left(s := []) = left" by auto
    then show ?thesis using Nil Suc.prems(1) by (intro exI [of _ w]) (simp add: walked_Nil wk_valid [OF Suc.prems(1) V])
  next
    case (Cons r rs)
    let ?w = "w\<lparr>pCtx := pCtx w @ [ch r]\<rparr>"
    obtain w1 where w1: "on_cur s (prollyCursorNext get) ?w = (w1, Inr ())" "wk_ok V fl w1 (left(s := rs)) R" "pair_stays R ?w w1"
      "pCtx w1 = pCtx ?w" "aStack w1 = aStack ?w" using wk_next [OF wk_ok_ctx [OF Suc.prems(1)] Cons] by blast
    have l: "length ((left(s := rs)) s) < n" using Suc.prems(2) Cons by simp
    obtain w2 where w2: "walk_rest n get s emit w1 = (w2, Inr ())" "wk_ok V fl w2 (left(s := [])) R" "walked R w1 w2 (map ch rs)"
      using Suc.IH [OF w1(2) l] unfolding fun_upd_upd fun_upd_same by blast
    have "walk_rest (Suc n) get s emit w = (w2, Inr ())"
      using Cons emit [OF Suc.prems(1) Cons] w1(1) w2(1) by (simp add: wk_valid [OF Suc.prems(1) V])
    moreover have "walked R w w2 ([ch r] @ map ch rs)"
      by (rule walked_one) (use walked_trans [OF walked_Nil [OF w1(3-5)] w2(3)] in simp)
    moreover have "[ch r] @ map ch rs = map ch (left s)" using Cons by simp
    ultimately show ?thesis using w2(2) by metis
  qed
qed simp

lemma merge_both_ok:
  assumes "wk_ok UNIV fl w left R" "diff_rows fl (left Old) (left New) = (cs, Inr ())" "total left < n"
  shows "\<exists>w' left' ds es. merge_both n get fl collect_cb w = (w', Inr ()) \<and> wk_ok UNIV fl w' left' R \<and> walked R w w' ds \<and>
     diff_rows fl (left' Old) (left' New) = (es, Inr ()) \<and> cs = ds @ es \<and> (left' Old = [] \<or> left' New = []) \<and> total left' \<le> total left"
  using assms
proof (induction n arbitrary: w left cs)
  case (Suc n)
  note bv = wk_valid [OF Suc.prems(1) UNIV_I]
  show ?case
  proof (cases "left Old = [] \<or> left New = []")
    case True
    then have "merge_both (Suc n) get fl collect_cb w = (w, Inr ())" by (auto simp: bv)
    then show ?thesis using True Suc.prems(1,2)
      by (intro exI [of _ w] exI [of _ left] exI [of _ "[]"] exI [of _ cs]) (simp add: walked_Nil del: merge_both.simps)
  next
    case False
    then obtain x xs m ns where lo: "left Old = x # xs" and ln: "left New = m # ns" by (metis neq_Nil_conv)
    note rd = wk_read [OF Suc.prems(1) lo] wk_read [OF Suc.prems(1) ln]
    have ck: "diffCompareKeys w = (w, Inr (diffBlobKeyCmp (fst x) (fst m)))" using rd(1,4) by (simp add: diffCompareKeys_def)
    have dv: "diffValuesEqual w = (w, Inr (bindR (prollyValuesEqual (snd x) (snd m)) (\<lambda>eq. if eq then Inr () else Inl SQLITE_DONE)))"
      using rd(2,5) by (simp add: diffValuesEqual_def)
    have go: ?thesis if run: "merge_both (Suc n) get fl collect_cb w = merge_both n get fl collect_cb w1"
        and w1: "wk_ok UNIV fl w1 left1 R" "walked R w w1 as" and d: "diff_rows fl (left1 Old) (left1 New) = (bs, Inr ())" "cs = as @ bs"
        and t: "total left1 < total left" for w1 left1 as bs
    proof -
      have "total left1 < n" using t Suc.prems(3) by simp
      from Suc.IH [OF w1(1) d(1) this] obtain w' left' ds es where "merge_both n get fl collect_cb w1 = (w', Inr ())"
        "wk_ok UNIV fl w' left' R" "walked R w1 w' ds" "diff_rows fl (left' Old) (left' New) = (es, Inr ())" "bs = ds @ es"
        "left' Old = [] \<or> left' New = []" "total left' \<le> total left1" by blast
      then show ?thesis unfolding run using d(2) t walked_trans [OF w1(2), of w' ds]
        by (intro exI [of _ w'] exI [of _ left'] exI [of _ "as @ ds"] exI [of _ es]) simp
    qed
    consider (l) "fst x < fst m" | (g) "fst m < fst x" | (e) "fst x = fst m" by fastforce
    then show ?thesis
    proof cases
      case l
      let ?w = "w\<lparr>pCtx := pCtx w @ [del_change fl x]\<rparr>"
      obtain w1 where w1: "on_cur Old (prollyCursorNext get) ?w = (w1, Inr ())" "wk_ok UNIV fl w1 (left(Old := xs)) R" "pair_stays R ?w w1"
        "pCtx w1 = pCtx ?w" "aStack w1 = aStack ?w" using wk_next [OF wk_ok_ctx [OF Suc.prems(1)] lo] by blast
      have wd: "walked R w w1 [del_change fl x]" using walked_one [OF walked_Nil [OF w1(3-5)]] by simp
      obtain bs where bs: "diff_rows fl xs (m # ns) = (bs, Inr ())" "cs = del_change fl x # bs"
        using Suc.prems(2) lo ln l by (cases "diff_rows fl xs (m # ns)") auto
      have "merge_both (Suc n) get fl collect_cb w = merge_both n get fl collect_cb w1"
        using lo ln ck l emit_ok(1) [OF Suc.prems(1) lo] w1(1) by (simp add: bv)
      from go [OF this w1(2) wd] bs lo ln show ?thesis by simp
    next
      case g
      let ?w = "w\<lparr>pCtx := pCtx w @ [add_change fl m]\<rparr>"
      obtain w1 where w1: "on_cur New (prollyCursorNext get) ?w = (w1, Inr ())" "wk_ok UNIV fl w1 (left(New := ns)) R" "pair_stays R ?w w1"
        "pCtx w1 = pCtx ?w" "aStack w1 = aStack ?w" using wk_next [OF wk_ok_ctx [OF Suc.prems(1)] ln] by blast
      have wd: "walked R w w1 [add_change fl m]" using walked_one [OF walked_Nil [OF w1(3-5)]] by simp
      obtain bs where bs: "diff_rows fl (x # xs) ns = (bs, Inr ())" "cs = add_change fl m # bs"
        using Suc.prems(2) lo ln g less_not_sym [OF g] by (cases "diff_rows fl (x # xs) ns") auto
      have "merge_both (Suc n) get fl collect_cb w = merge_both n get fl collect_cb w1"
        using lo ln ck g less_not_sym [OF g] emit_ok(2) [OF Suc.prems(1) ln] w1(1) by (simp add: bv)
      from go [OF this w1(2) wd] bs lo ln show ?thesis by simp
    next
      case e
      obtain b where b: "prollyValuesEqual (snd x) (snd m) = Inr b"
        using Suc.prems(2) lo ln e by (cases "prollyValuesEqual (snd x) (snd m)") auto
      let ?as = "if b then [] else [mod_change fl (fst x) (snd x) (snd m)]"
      let ?w = "w\<lparr>pCtx := pCtx w @ ?as\<rparr>"
      have id: "w\<lparr>pCtx := pCtx w\<rparr> = w" by (cases w) simp
      obtain w1 where w1: "on_cur Old (prollyCursorNext get) ?w = (w1, Inr ())" "wk_ok UNIV fl w1 (left(Old := xs)) R" "pair_stays R ?w w1"
        "pCtx w1 = pCtx ?w" "aStack w1 = aStack ?w" using wk_next [OF wk_ok_ctx [OF Suc.prems(1)] lo] by blast
      have ln1: "(left(Old := xs)) New = m # ns" using ln by simp
      obtain w2 where w2: "on_cur New (prollyCursorNext get) w1 = (w2, Inr ())" "wk_ok UNIV fl w2 (left(Old := xs, New := ns)) R" "pair_stays R w1 w2"
        "pCtx w2 = pCtx w1" "aStack w2 = aStack w1" using wk_next [OF w1(2) ln1] by blast
      have wd: "walked R w w2 ?as"
        using walked_one [OF walked_trans [OF walked_Nil [OF w1(3-5)] walked_Nil [OF w2(3-5)]]] by simp
      obtain bs where bs: "diff_rows fl xs ns = (bs, Inr ())" "cs = ?as @ bs"
        using Suc.prems(2) lo ln e b by (cases "diff_rows fl xs ns") (auto split: bool.splits)
      have "merge_both (Suc n) get fl collect_cb w = merge_both n get fl collect_cb w2"
        using lo ln ck dv e b emit_ok(3) [OF Suc.prems(1) lo ln] w1(1) w2(1) id by (cases b) (simp_all add: bv)
      from go [OF this w2(2) wd] bs lo ln show ?thesis by simp
    qed
  qed
qed simp

lemma diffMergeWalk_ok:
  assumes "wk_ok UNIV fl w left R" "diff_rows fl (left Old) (left New) = (cs, Inr ())" "total left < n"
  shows "\<exists>w' left'. diffMergeWalk n get fl collect_cb w = (w', Inr ()) \<and> wk_ok UNIV fl w' left' R \<and> walked R w w' cs"
proof -
  obtain w1 l1 ds es where w1: "merge_both n get fl collect_cb w = (w1, Inr ())" "wk_ok UNIV fl w1 l1 R" "walked R w w1 ds"
     "diff_rows fl (l1 Old) (l1 New) = (es, Inr ())" "cs = ds @ es" "l1 Old = [] \<or> l1 New = []" "total l1 \<le> total left"
    using merge_both_ok [OF assms] by blast
  have b: "length (l1 Old) < n" "length ((l1(Old := [])) New) < n" using w1(7) assms(3) by simp_all
  have l1n: "(l1(Old := [])) New = l1 New" by simp
  obtain w2 where w2: "walk_rest n get Old (diffEmitDelete fl collect_cb) w1 = (w2, Inr ())" "wk_ok UNIV fl w2 (l1(Old := [])) R"
     "walked R w1 w2 (map (del_change fl) (l1 Old))"
    using walk_rest_ok [OF w1(2) b(1) UNIV_I, of "diffEmitDelete fl collect_cb" "del_change fl"] emit_ok(1) by blast
  obtain w3 where w3: "walk_rest n get New (diffEmitAdd fl collect_cb) w2 = (w3, Inr ())" "wk_ok UNIV fl w3 (l1(Old := [], New := [])) R"
     "walked R w2 w3 (map (add_change fl) (l1 New))"
    using walk_rest_ok [OF w2(2) b(2) UNIV_I, of "diffEmitAdd fl collect_cb" "add_change fl"] emit_ok(2) l1n by metis
  have "es = map (del_change fl) (l1 Old) @ map (add_change fl) (l1 New)" using w1(4,6) by auto
  then have "walked R w w3 cs" using walked_trans [OF walked_trans [OF w1(3) w2(3)] w3(3)] w1(5) by simp
  then show ?thesis using w1(1) w2(1) w3(1,2) by (auto simp: diffMergeWalk_def)
qed

end

section \<open>Cursors for one walk\<close>

lemma search_post_found:
  assumes "search_post ks k (p, r)" "sorted_wrt (<) ks" "k \<in> set ks"
  shows "r = 0 \<and> p < length ks \<and> ks ! p = k"
proof -
  have ne: "ks \<noteq> []" using assms(3) by auto
  obtain m where m: "m < length ks" "ks ! m = k" using assms(3) by (auto simp: in_set_conv_nth)
  have "\<not> (k < ks ! p \<and> (\<forall>j < p. ks ! j < k) \<and> p < length ks)"
  proof
    assume a: "k < ks ! p \<and> (\<forall>j < p. ks ! j < k) \<and> p < length ks"
    then have "\<not> m < p" "m \<noteq> p" using m by auto
    then have "ks ! p < ks ! m" using sorted_wrt_nth_less [OF assms(2), of p m] m a by simp
    then show False using a m less_asym by metis
  qed
  then show ?thesis using assms(1,3) ne by (auto simp: search_post_def)
qed

context tree_reader
begin

lemma seek_past_rest:
  assumes ok: "cur_ok v R" and t: "tree hash fl (chunks (eStore v)) (curRoot (eCur v)) (as @ r # bs)" and s: "keyed (as @ r # bs)"
  shows "\<exists>v'. seek_past_blob get (fst r) v = (v', Inr ()) \<and> stays R v v' \<and> cur_rest fl v' bs R"
proof -
  let ?rows = "as @ r # bs"
  obtain l its where ra: "root_at fl v l its ?rows" using tree_root_at [OF t] by auto
  obtain v1 res pos where v1: "prollyCursorSeekBlob get (fst r) v = (v1, Inr res)" "stays R v v1" "at_row fl v1 ?rows pos R"
     "search_post (map fst ?rows) (fst r) (pos, - res)" using prollyCursorSeekBlob_ok [OF ok ra s] by blast
  have f: "- res = 0 \<and> pos < length (map fst ?rows) \<and> map fst ?rows ! pos = fst r" by (rule search_post_found [OF v1(4) s]) simp
  have "map fst ?rows ! length as = fst r" by (simp add: nth_append)
  then have p: "pos = length as"
    using f s nth_eq_iff_index_eq [of "map fst ?rows" pos "length as"] unfolding strict_sorted_iff by simp
  have "cur_rest fl v1 (r # bs) R" using at_row_rest [OF v1(3)] p by simp
  from next_rest [OF this] obtain v2 where "prollyCursorNext get v1 = (v2, Inr ())" "stays R v1 v2" "cur_rest fl v2 bs R" by blast
  then show ?thesis using v1(1,2) f stays_trans [of R v v1 v2] by (intro exI [of _ v2]) (simp add: seek_past_blob_def)
qed

lemma on_cur_seek:
  assumes "pair_at fl w left R" "cur_of s w = Some c" "tree hash fl (chunks (eStore w)) (curRoot c) (as @ r # bs)" "keyed (as @ r # bs)"
  shows "\<exists>w'. on_cur s (seek_past_blob get (fst r)) w = (w', Inr ()) \<and> pair_at fl w' (left(s := bs)) R \<and> pair_stays R w w' \<and>
     dpair.more w' = dpair.more w \<and> cur_of s w' \<noteq> None \<and> cur_of (other s) w' = cur_of (other s) w"
proof -
  have ok: "cur_ok (cenv_of w c) (crefs (cur_of (other s) w) + R)" using pair_at_cur [OF assms(1,2)] by (rule cur_rest_ok)
  obtain v where v: "seek_past_blob get (fst r) (cenv_of w c) = (v, Inr ())"
    "stays (crefs (cur_of (other s) w) + R) (cenv_of w c) v" "cur_rest fl v bs (crefs (cur_of (other s) w) + R)"
    using seek_past_rest [OF ok, of fl as r bs] assms(3,4) by auto
  show ?thesis by (rule pair_step [where m = "seek_past_blob get (fst r)", OF assms(1,2) v])
qed

definition idle :: "('s, 'z) dpair_scheme \<Rightarrow> ref multiset \<Rightarrow> bool" where
  "idle w R \<longleftrightarrow> env_ok w R \<and> (\<forall>s. cur_of s w = None)"

lemma idle_pair: "idle w R \<Longrightarrow> pair_at fl w (\<lambda>_. []) R"
  by (simp add: idle_def pair_at_def crefs_def)

lemma pair_idle: "pair_at fl w left R \<Longrightarrow> (\<forall>s. cur_of s w = None) \<Longrightarrow> idle w R"
  by (simp add: idle_def pair_at_def crefs_def)

definition finished :: "ref multiset \<Rightarrow> 's cwalk \<Rightarrow> 's cwalk \<Rightarrow> diff_change list \<Rightarrow> bool" where
  "finished R w w' cs \<longleftrightarrow> idle w' R \<and> chunks (eStore w') = chunks (eStore w) \<and> keeps (eCache w) (eCache w') R \<and>
     pCtx w' = pCtx w @ cs \<and> aStack w' = aStack w"

lemma finished_trans: "finished R a b cs \<Longrightarrow> finished R b c ds \<Longrightarrow> finished R a c (cs @ ds)"
  unfolding finished_def using keeps_trans by auto

lemma finished_refl: "idle w R \<Longrightarrow> finished R w w []"
  by (simp add: finished_def)

text \<open>Closing the cursors that are there.\<close>

lemma close_both_ok:
  assumes "wk_ok UNIV fl w left R"
  shows "\<exists>w'. bindO (close_cur Old) (\<lambda>_. close_cur New) w = (w', Inr ()) \<and> finished R w w' []"
proof -
  have p: "pair_at fl w left R" using assms by (simp add: wk_ok_def)
  obtain a b where ab: "cur_of Old w = Some a" "cur_of New w = Some b" using assms unfolding wk_ok_def by (metis UNIV_I not_None_eq)
  obtain w1 where w1: "close_cur Old w = (w1, Inr ())" "pair_at fl w1 (left(Old := [])) R" "chunks (eStore w1) = chunks (eStore w)"
    "keeps (eCache w) (eCache w1) R" "dpair.more w1 = dpair.more w" "cur_of Old w1 = None" "cur_of New w1 = cur_of New w"
    using close_cur_ok [OF p ab(1)] by auto
  have b: "cur_of New w1 = Some b" using w1(7) ab(2) by simp
  obtain w2 where w2: "close_cur New w1 = (w2, Inr ())" "pair_at fl w2 (left(Old := [], New := [])) R" "chunks (eStore w2) = chunks (eStore w1)"
    "keeps (eCache w1) (eCache w2) R" "dpair.more w2 = dpair.more w1" "cur_of New w2 = None" "cur_of Old w2 = cur_of Old w1"
    using close_cur_ok [OF w1(2) b] by auto
  have no: "\<forall>s. cur_of s w2 = None"
  proof
    fix s show "cur_of s w2 = None" using w1(6) w2(6,7) by (cases s) simp_all
  qed
  show ?thesis using w1(1,3) w2(1,3) pair_idle [OF w2(2) no] keeps_trans [OF w1(4) w2(4)] walk_more [OF w1(5)] walk_more [OF w2(5)]
    by (intro exI [of _ w2]) (simp add: finished_def)
qed

lemma walked_finished: "walked R a b cs \<Longrightarrow> finished R b c [] \<Longrightarrow> finished R a c cs"
  unfolding walked_def finished_def pair_stays_def using keeps_trans by auto

text \<open>Two cursors that are opened on two trees, used and closed.\<close>

abbreviation opened :: "hash \<Rightarrow> hash \<Rightarrow> byte \<Rightarrow> 's cwalk \<Rightarrow> 's cwalk" where
  "opened oldRoot newRoot fl w \<equiv> set_cur New (Some (prollyCursorInit newRoot fl)) (set_cur Old (Some (prollyCursorInit oldRoot fl)) w)"

lemma opened_ok:
  assumes "idle w R"
  shows "pair_at fl (opened oldRoot newRoot fl w) (\<lambda>_. []) R" "cur_of Old (opened oldRoot newRoot fl w) = Some (prollyCursorInit oldRoot fl)"
    "cur_of New (opened oldRoot newRoot fl w) = Some (prollyCursorInit newRoot fl)"
proof -
  have n: "cur_of s w = None" for s using assms by (simp add: idle_def)
  show "pair_at fl (opened oldRoot newRoot fl w) (\<lambda>_. []) R"
    by (rule pair_init [OF pair_init [OF idle_pair [OF assms]]]) (simp_all add: n)
qed simp_all

lemma curRoot_init [simp]: "curRoot (prollyCursorInit root fl) = root"
  by (simp add: prollyCursorInit_def)

lemma scoped_ok:
  assumes i: "idle w R"
    and m: "\<exists>w1 left. m (opened oldRoot newRoot fl w) = (w1, Inr ()) \<and> wk_ok UNIV fl w1 left R \<and> walked R (opened oldRoot newRoot fl w) w1 cs"
  shows "\<exists>w'. bindO (updO (set_cur Old (Some (prollyCursorInit oldRoot fl)))) (\<lambda>_.
     bindO (updO (set_cur New (Some (prollyCursorInit newRoot fl)))) (\<lambda>_.
     finallyO m (bindO (close_cur Old) (\<lambda>_. close_cur New)))) w = (w', Inr ()) \<and> finished R w w' cs"
proof -
  obtain w1 left where w1: "m (opened oldRoot newRoot fl w) = (w1, Inr ())" "wk_ok UNIV fl w1 left R" "walked R (opened oldRoot newRoot fl w) w1 cs"
    using m by blast
  obtain w2 where w2: "bindO (close_cur Old) (\<lambda>_. close_cur New) w1 = (w2, Inr ())" "finished R w1 w2 []"
    using close_both_ok [OF w1(2)] by blast
  have "finished R (opened oldRoot newRoot fl w) w2 cs" by (rule walked_finished [OF w1(3) w2(2)])
  moreover have "pCtx (opened oldRoot newRoot fl w) = pCtx w" "aStack (opened oldRoot newRoot fl w) = aStack w"
    by (simp_all add: set_cur_def)
  ultimately have "finished R w w2 cs" by (simp add: finished_def)
  then show ?thesis using w1(1) w2(1) by (simp add: finallyO_def)
qed

text \<open>Placing both cursors.\<close>

lemma place_both:
  assumes i: "idle w R"
    and a: "\<And>(w :: 's cwalk) left. pair_at fl w left R \<Longrightarrow> cur_of Old w = Some (prollyCursorInit oldRoot fl) \<Longrightarrow> chunks (eStore w) = S \<Longrightarrow>
      \<exists>w' x. on_cur Old f w = (w', Inr x) \<and> pair_at fl w' (left(Old := xs)) R \<and> pair_stays R w w' \<and>
        dpair.more w' = dpair.more w \<and> cur_of Old w' \<noteq> None \<and> cur_of New w' = cur_of New w"
    and b: "\<And>(w :: 's cwalk) left. pair_at fl w left R \<Longrightarrow> cur_of New w = Some (prollyCursorInit newRoot fl) \<Longrightarrow> chunks (eStore w) = S \<Longrightarrow>
      \<exists>w' x. on_cur New f w = (w', Inr x) \<and> pair_at fl w' (left(New := ns)) R \<and> pair_stays R w w' \<and>
        dpair.more w' = dpair.more w \<and> cur_of New w' \<noteq> None \<and> cur_of Old w' = cur_of Old w"
    and S: "chunks (eStore w) = S"
  shows "\<exists>w' left. bindO (on_cur Old f) (\<lambda>_. bindO (on_cur New f) (\<lambda>_. retO ())) (opened oldRoot newRoot fl w) = (w', Inr ()) \<and>
     wk_ok UNIV fl w' left R \<and> left Old = xs \<and> left New = ns \<and> walked R (opened oldRoot newRoot fl w) w' []"
proof -
  note o = opened_ok [OF i, where oldRoot = oldRoot and newRoot = newRoot and fl = fl]
  have c: "chunks (eStore (opened oldRoot newRoot fl w)) = S" using S by simp
  obtain w1 x where w1: "on_cur Old f (opened oldRoot newRoot fl w) = (w1, Inr x)" "pair_at fl w1 ((\<lambda>_. [])(Old := xs)) R"
    "pair_stays R (opened oldRoot newRoot fl w) w1" "dpair.more w1 = dpair.more (opened oldRoot newRoot fl w)"
    "cur_of Old w1 \<noteq> None" "cur_of New w1 = cur_of New (opened oldRoot newRoot fl w)" using a [OF o(1,2) c] by blast
  have c1: "cur_of New w1 = Some (prollyCursorInit newRoot fl)" "chunks (eStore w1) = S"
    using w1(3,6) o(3) c by (simp_all add: pair_stays_def)
  obtain w2 y where w2: "on_cur New f w1 = (w2, Inr y)" "pair_at fl w2 ((\<lambda>_. [])(Old := xs, New := ns)) R"
    "pair_stays R w1 w2" "dpair.more w2 = dpair.more w1" "cur_of New w2 \<noteq> None" "cur_of Old w2 = cur_of Old w1"
    using b [OF w1(2) c1] by blast
  have all: "\<forall>s. cur_of s w2 \<noteq> None"
  proof
    fix s show "cur_of s w2 \<noteq> None" using w1(5) w2(5,6) by (cases s) simp_all
  qed
  have "walked R (opened oldRoot newRoot fl w) w2 []"
    by (rule walked_Nil [OF pair_stays_trans [OF w1(3) w2(3)]]) (use walk_more [OF w1(4)] walk_more [OF w2(4)] in simp_all)
  moreover have "wk_ok UNIV fl w2 ((\<lambda>_. [])(Old := xs, New := ns)) R" using w2(2) all by (simp add: wk_ok_def)
  ultimately show ?thesis using w1(1) w2(1) by (intro exI [of _ w2] exI [of _ "(\<lambda>_. [])(Old := xs, New := ns)"]) simp
qed

lemma first_both_ok:
  assumes "idle w R" "tree hash fl (chunks (eStore w)) oldRoot xs" "tree hash fl (chunks (eStore w)) newRoot ns"
  shows "\<exists>w' left. bindO (on_cur Old (prollyCursorFirst get)) (\<lambda>_. bindO (on_cur New (prollyCursorFirst get)) (\<lambda>_. retO ())) (opened oldRoot newRoot fl w) =
       (w', Inr ()) \<and> wk_ok UNIV fl w' left R \<and> left Old = xs \<and> left New = ns \<and> walked R (opened oldRoot newRoot fl w) w' []"
proof (rule place_both [OF assms(1) _ _ refl])
  fix w' :: "'s cwalk" and left
  assume a: "pair_at fl w' left R" "chunks (eStore w') = chunks (eStore w)"
  show "\<exists>w'' x. on_cur Old (prollyCursorFirst get) w' = (w'', Inr x) \<and> pair_at fl w'' (left(Old := xs)) R \<and> pair_stays R w' w'' \<and>
      dpair.more w'' = dpair.more w' \<and> cur_of Old w'' \<noteq> None \<and> cur_of New w'' = cur_of New w'"
    if "cur_of Old w' = Some (prollyCursorInit oldRoot fl)"
    using on_cur_first [OF a(1) that, of xs] assms(2) a(2) by auto
  show "\<exists>w'' x. on_cur New (prollyCursorFirst get) w' = (w'', Inr x) \<and> pair_at fl w'' (left(New := ns)) R \<and> pair_stays R w' w'' \<and>
      dpair.more w'' = dpair.more w' \<and> cur_of New w'' \<noteq> None \<and> cur_of Old w'' = cur_of Old w'"
    if "cur_of New w' = Some (prollyCursorInit newRoot fl)"
    using on_cur_first [OF a(1) that, of ns] assms(3) a(2) by auto
qed

lemma diffCursorWalk_ok:
  assumes "idle w R" "tree hash fl (chunks (eStore w)) oldRoot xs" "tree hash fl (chunks (eStore w)) newRoot ns"
    "diff_rows fl xs ns = (cs, Inr ())" "length xs + length ns < n"
  shows "\<exists>w'. diffCursorWalk n get oldRoot newRoot fl collect_cb w = (w', Inr ()) \<and> finished R w w' cs"
  unfolding diffCursorWalk_def
proof (rule scoped_ok [OF assms(1)])
  obtain w1 left where w1: "bindO (on_cur Old (prollyCursorFirst get)) (\<lambda>_. bindO (on_cur New (prollyCursorFirst get)) (\<lambda>_. retO ())) (opened oldRoot newRoot fl w) =
       (w1, Inr ())" "wk_ok UNIV fl w1 left R" "left Old = xs" "left New = ns" "walked R (opened oldRoot newRoot fl w) w1 []"
    using first_both_ok [OF assms(1-3)] by blast
  obtain w2 left2 where w2: "diffMergeWalk n get fl collect_cb w1 = (w2, Inr ())" "wk_ok UNIV fl w2 left2 R" "walked R w1 w2 cs"
    using diffMergeWalk_ok [OF w1(2), of cs n] w1(3,4) assms(4,5) by auto
  have "bindO (on_cur Old (prollyCursorFirst get)) (\<lambda>_. bindO (on_cur New (prollyCursorFirst get)) (\<lambda>_. diffMergeWalk n get fl collect_cb)) (opened oldRoot newRoot fl w)
     = (w2, Inr ())"
    using w1(1) w2(1) by (auto simp: bindO_def split: prod.splits sum.splits)
  then show "\<exists>w2 left. bindO (on_cur Old (prollyCursorFirst get)) (\<lambda>_. bindO (on_cur New (prollyCursorFirst get)) (\<lambda>_. diffMergeWalk n get fl collect_cb))
      (opened oldRoot newRoot fl w) = (w2, Inr ()) \<and> wk_ok UNIV fl w2 left R \<and> walked R (opened oldRoot newRoot fl w) w2 cs"
    using w2(2) walked_trans [OF w1(5) w2(3)] by auto
qed

lemma diffEmitSubtree_ok:
  assumes "idle w R" "tree hash fl (chunks (eStore w)) root rows" "length rows < n" "rows \<noteq> [] \<Longrightarrow> \<not> prollyHashIsEmpty root"
  shows "\<exists>w'. diffEmitSubtree n get root fl s collect_cb w = (w', Inr ()) \<and> finished R w w' (map (side_change s fl) rows)"
proof (cases "prollyHashIsEmpty root")
  case True
  then show ?thesis using assms(1,4) finished_refl [OF assms(1)] by (cases "rows = []") (simp_all add: diffEmitSubtree_def)
next
  case False
  let ?w = "set_cur s (Some (prollyCursorInit root fl)) w"
  have n: "cur_of t w = None" for t using assms(1) by (simp add: idle_def)
  have p: "pair_at fl ?w (\<lambda>_. []) R" by (rule pair_init [OF idle_pair [OF assms(1)] n])
  have c: "cur_of s ?w = Some (prollyCursorInit root fl)" by simp
  have t: "tree hash fl (chunks (eStore ?w)) (curRoot (prollyCursorInit root fl)) rows" using assms(2) by simp
  obtain w1 where w1: "on_cur s (prollyCursorFirst get) ?w = (w1, Inr (if rows = [] then 1 else 0))" "pair_at fl w1 ((\<lambda>_. [])(s := rows)) R"
     "pair_stays R ?w w1" "dpair.more w1 = dpair.more ?w" "cur_of s w1 \<noteq> None" "cur_of (other s) w1 = cur_of (other s) ?w"
    using on_cur_first [OF p c t] by blast
  have wk: "wk_ok {s} fl w1 ((\<lambda>_. [])(s := rows)) R" using w1(2,5) by (simp add: wk_ok_def)
  let ?emit = "case s of New \<Rightarrow> diffEmitAdd fl collect_cb | Old \<Rightarrow> diffEmitDelete fl collect_cb"
  have em: "?emit v = (v\<lparr>pCtx := pCtx v @ [side_change s fl r]\<rparr>, Inr ())" if "wk_ok {s} fl v left R" "left s = r # rs" for v left r rs
    using emit_ok [OF that(1)] that(2) by (cases s) (simp_all add: side_change_def)
  have l: "length (((\<lambda>_. [])(s := rows)) s) < n" using assms(3) by simp
  have "\<exists>w'. walk_rest n get s ?emit w1 = (w', Inr ()) \<and> wk_ok {s} fl w' (((\<lambda>_. [])(s := rows))(s := [])) R \<and>
     walked R w1 w' (map (side_change s fl) (((\<lambda>_. [])(s := rows)) s))"
    by (rule walk_rest_ok [where emit = ?emit and ch = "side_change s fl", OF wk l singletonI]) (rule em)
  then obtain w2 where w2: "walk_rest n get s ?emit w1 = (w2, Inr ())" "wk_ok {s} fl w2 ((\<lambda>_. [])(s := rows, s := [])) R"
    "walked R w1 w2 (map (side_change s fl) rows)" unfolding fun_upd_same by blast
  have p2: "pair_at fl w2 ((\<lambda>_. [])(s := rows, s := [])) R" using w2(2) by (simp add: wk_ok_def)
  obtain c2 where c2: "cur_of s w2 = Some c2" using w2(2) by (auto simp: wk_ok_def)
  obtain w3 where w3: "close_cur s w2 = (w3, Inr ())" "pair_at fl w3 ((\<lambda>_. [])(s := rows, s := [], s := [])) R" "chunks (eStore w3) = chunks (eStore w2)"
    "keeps (eCache w2) (eCache w3) R" "dpair.more w3 = dpair.more w2" "cur_of s w3 = None" "cur_of (other s) w3 = cur_of (other s) w2"
    using close_cur_ok [OF p2 c2] by blast
  have o2: "cur_of (other s) w2 = None"
    using w2(3) w1(6) n [of "other s"] unfolding walked_def pair_stays_def by (metis other_neq(1) set_cur_sel(1) option.map_disc_iff)
  have no: "\<forall>t. cur_of t w3 = None"
  proof
    fix t show "cur_of t w3 = None" using w3(6,7) o2 by (cases t; cases s) simp_all
  qed
  have run: "(bindO (on_cur s (prollyCursorFirst get)) (\<lambda>res. if res \<noteq> 0 then retO () else walk_rest n get s ?emit)) ?w = (w2, Inr ())"
  proof (cases "rows = []")
    case True
    have "bindO (cur_valid s) f w1 = f False w1" for f :: "bool \<Rightarrow> ('s cwalk, unit) op" using wk_valid [OF wk, of s f] True by simp
    moreover obtain n' where "n = Suc n'" using assms(3) by (cases n) auto
    ultimately have "w2 = w1" using w2(1) by simp
    then show ?thesis using w1(1) True by simp
  qed (use w1(1) w2(1) in simp)
  have pc: "pCtx ?w = pCtx w" "aStack ?w = aStack w" by (cases s; simp add: set_cur_def)+
  have "pair_stays R w1 w2" using w2(3) by (simp add: walked_def)
  note ps = pair_stays_trans [OF w1(3) this]
  have k: "keeps (eCache w) (eCache w3) R" using keeps_trans [OF _ w3(4), of "eCache w"] ps by (simp add: pair_stays_def)
  have "finished R w w3 (map (side_change s fl) rows)"
    using w2(3) ps w3(3) walk_more [OF w3(5)] walk_more [OF w1(4)] pc pair_idle [OF w3(2) no] k
    by (simp add: finished_def walked_def pair_stays_def)
  moreover have "diffEmitSubtree n get root fl s collect_cb w = (w3, Inr ())"
    using False run w3(1) by (simp add: diffEmitSubtree_def finallyO_def)
  ultimately show ?thesis by blast
qed

end

section \<open>Leaves\<close>

lemma diff_rows_split_ok:
  assumes "\<forall>x \<in> set xs \<union> set ns. \<forall>y \<in> set xs' \<union> set ns'. fst x < fst y"
  shows "diff_rows fl (xs @ xs') (ns @ ns') = (D, Inr ()) \<longleftrightarrow>
     (\<exists>c d. diff_rows fl xs ns = (c, Inr ()) \<and> diff_rows fl xs' ns' = (d, Inr ()) \<and> D = c @ d)"
  unfolding diff_rows_split [OF assms]
  by (auto simp: apfst_def map_prod_def split: sum.splits prod.splits)

lemma values_equal_refl: "prollyValuesEqual v v = Inr b \<Longrightarrow> b"
proof -
  have "memcmp v v (length v) = 0" by (simp add: memcmp_same_length)
  then show "prollyValuesEqual v v = Inr b \<Longrightarrow> b"
    by (auto simp: prollyValuesEqual_def res_simps split: if_splits)
qed

lemma diff_rows_refl: "diff_rows fl xs xs = (D, Inr ()) \<Longrightarrow> D = []"
proof (induction xs arbitrary: D)
  case (Cons x xs)
  then show ?case using values_equal_refl [of "snd x"]
    by (auto split: sum.splits bool.splits)
qed simp

text \<open>A parsed node.\<close>

definition parsed :: "byte \<Rightarrow> nat \<Rightarrow> row list \<Rightarrow> node \<Rightarrow> bool" where
  "parsed fl l its nd \<longleftrightarrow> storable (of_nat l) fl its \<and> l < PROLLY_CURSOR_MAX_DEPTH \<and> prollyNodeParse (node_bytes (of_nat l) fl its) = Inr nd"

lemma parsed_facts:
  assumes "parsed fl l its nd"
  shows "node_holds nd its" "nItems nd = length its" "level nd > 0 \<longleftrightarrow> 0 < l" "its \<noteq> []"
    "i < length its \<Longrightarrow> prollyNodeKey nd i = Inr (fst (its ! i))" "i < length its \<Longrightarrow> prollyNodeValue nd i = Inr (snd (its ! i))"
    "i < length its \<Longrightarrow> 0 < l \<Longrightarrow> prollyNodeChildHash nd i = Inr (snd (its ! i))"
proof -
  have st: "storable (of_nat l) fl its" and l: "l < PROLLY_CURSOR_MAX_DEPTH" and p: "prollyNodeParse (node_bytes (of_nat l) fl its) = Inr nd"
    using assms by (simp_all add: parsed_def)
  show n: "node_holds nd its" using node_bytes_parse [OF st] p by auto
  show nn: "nItems nd = length its" using n by (simp add: node_holds_def)
  show lv: "level nd > 0 \<longleftrightarrow> 0 < l" using node_bytes_parse [OF st] p of_nat_level [OF l] by auto
  show "its \<noteq> []" using st by (simp add: storable_def)
  show "i < length its \<Longrightarrow> prollyNodeKey nd i = Inr (fst (its ! i))" "i < length its \<Longrightarrow> prollyNodeValue nd i = Inr (snd (its ! i))"
    using n by (simp_all add: node_holds_def)
  show "prollyNodeChildHash nd i = Inr (snd (its ! i))" if "i < length its" "0 < l"
    using prollyNodeChildHash_value [OF prollyNodeParse_wf(1) [OF p], of i] that nn lv n by (auto simp: node_holds_def)
qed

lemma parsed_int_key:
  assumes "parsed fl l its nd" "i < length its" "fl = PROLLY_NODE_INTKEY"
  shows "\<exists>u. prollyNodeIntKey nd i = Inr u \<and> fst (its ! i) = prollyEncodeIntKey u \<and> int_key fl (fst (its ! i)) = u"
proof -
  have p: "prollyNodeParse (node_bytes (of_nat l) fl its) = Inr nd" "storable (of_nat l) fl its" using assms(1) by (simp_all add: parsed_def)
  have f: "flags nd = fl" using node_bytes_parse [OF p(2)] p(1) by auto
  note h = parsed_facts(2,5) [OF assms(1)]
  obtain u where u: "prollyNodeIntKey nd i = Inr u" "prollyNodeKey nd i = Inr (prollyEncodeIntKey u)"
    using prollyNodeIntKey_key [OF prollyNodeParse_wf(1) [OF p(1)], of i] assms(2,3) f h(1) by auto
  have k: "fst (its ! i) = prollyEncodeIntKey u" using u(2) h assms(2) by simp
  have "prollyDecodeIntKey (prollyEncodeIntKey u) 0 = Inr u" using prollyDecodeIntKey_encode [of 0 "[]" u "[]"] by simp
  then show ?thesis using u(1) k assms(3) by (simp add: int_key_def PROLLY_NODE_INTKEY_def)
qed

lemma diffEmitKey_ok:
  assumes "parsed fl l its nd" "i < length its"
  shows "diffEmitKey ch nd i fl = Inr (ch\<lparr>dcKey := fst (its ! i), dcIntKey := int_key fl (fst (its ! i))\<rparr>)"
proof -
  have "fl AND PROLLY_NODE_INTKEY \<noteq> 0 \<longleftrightarrow> fl = PROLLY_NODE_INTKEY" using assms(1) storable_flag by (auto simp: parsed_def)
  then show ?thesis using parsed_facts(5) [OF assms] parsed_int_key [OF assms]
    by (cases "fl = PROLLY_NODE_INTKEY") (auto simp: diffEmitKey_def int_key_def)
qed

lemma leaf_change_ok: "parsed fl l its nd \<Longrightarrow> i < length its \<Longrightarrow> leaf_change s nd i fl = Inr (side_change s fl (its ! i))"
  using diffEmitKey_ok [of fl l its nd i] parsed_facts(6) [of fl l its nd i]
  by (cases s) (simp_all add: leaf_change_def side_change_def del_change_def add_change_def diff_change0_def)

lemma leaf_modify_ok:
  "parsed fl l its nd \<Longrightarrow> j < length its \<Longrightarrow> leaf_modify nd j v v' fl = Inr (mod_change fl (fst (its ! j)) v v')"
  using diffEmitKey_ok [of fl l its nd j] by (simp add: leaf_modify_def mod_change_def diff_change0_def)

lemma emit_leaf_ok: "emit_leaf (Inr ch) collect_cb w = (w\<lparr>pCtx := pCtx w @ [ch]\<rparr>, Inr ())"
  by (simp add: emit_leaf_def)

lemma leaf_rest_ok:
  assumes "parsed fl l its nd"
  shows "i + n = length its \<Longrightarrow> leaf_rest n s nd i fl collect_cb w = (w\<lparr>pCtx := pCtx w @ map (side_change s fl) (drop i its)\<rparr>, Inr ())"
proof (induction n arbitrary: i w)
  case (Suc n)
  have i: "i < length its" using Suc.prems by simp
  have d: "drop i its = its ! i # drop (Suc i) its" using i by (simp add: Cons_nth_drop_Suc)
  show ?case using Suc.IH [of "Suc i" "w\<lparr>pCtx := pCtx w @ [side_change s fl (its ! i)]\<rparr>"] Suc.prems
    by (simp add: leaf_change_ok [OF assms i] emit_leaf_ok d)
next
  case 0
  then show ?case by (cases w) simp
qed

lemma leaf_walk_ok:
  fixes w :: "'s cwalk"
  assumes p: "parsed fl 0 xs nOld" "parsed fl 0 ns nNew"
  shows "i \<le> length xs \<Longrightarrow> j \<le> length ns \<Longrightarrow> diff_rows fl (drop i xs) (drop j ns) = (cs, Inr ()) \<Longrightarrow>
     leaf_walk nOld nNew i j fl collect_cb w = (w\<lparr>pCtx := pCtx w @ cs\<rparr>, Inr ())"
proof (induction "length xs - i + (length ns - j)" arbitrary: i j cs w rule: less_induct)
  case less
  note n = parsed_facts(2) [OF p(1)] parsed_facts(2) [OF p(2)]
  show ?case
  proof (cases "i < length xs \<and> j < length ns")
    case False
    have so: "leaf_rest (length xs - i) Old nOld i fl collect_cb w = (w\<lparr>pCtx := pCtx w @ map (del_change fl) (drop i xs)\<rparr>, Inr ())" for w :: "'s cwalk"
      using leaf_rest_ok [OF p(1), of i "length xs - i" Old w] less.prems(1) by (simp add: side_change_def)
    have sn: "leaf_rest (length ns - j) New nNew j fl collect_cb w = (w\<lparr>pCtx := pCtx w @ map (add_change fl) (drop j ns)\<rparr>, Inr ())" for w :: "'s cwalk"
      using leaf_rest_ok [OF p(2), of j "length ns - j" New w] less.prems(2) by (simp add: side_change_def)
    have "cs = map (del_change fl) (drop i xs) @ map (add_change fl) (drop j ns)" using less.prems(3) False by (auto simp: not_less)
    then show ?thesis using False n so sn by (subst leaf_walk.simps) (auto simp del: drop_map)
  next
    case True
    then have i: "i < length xs" and j: "j < length ns" by simp_all
    let ?x = "xs ! i" and ?n = "ns ! j"
    have d: "drop i xs = ?x # drop (Suc i) xs" "drop j ns = ?n # drop (Suc j) ns" using i j by (simp_all add: Cons_nth_drop_Suc)
    have ck: "diffNodeKeyCmp nOld i nNew j = Inr (diffBlobKeyCmp (fst ?x) (fst ?n))"
      using parsed_facts(5) [OF p(1) i] parsed_facts(5) [OF p(2) j] by (simp add: diffNodeKeyCmp_def)
    consider (l) "fst ?x < fst ?n" | (g) "fst ?n < fst ?x" | (e) "fst ?x = fst ?n" by fastforce
    then show ?thesis
    proof cases
      case l
      obtain bs where bs: "diff_rows fl (drop (Suc i) xs) (drop j ns) = (bs, Inr ())" "cs = del_change fl ?x # bs"
        using less.prems(3) d l by (cases "diff_rows fl (drop (Suc i) xs) (drop j ns)") auto
      have "length xs - Suc i + (length ns - j) < length xs - i + (length ns - j)" using i by simp
      from less.hyps [OF this _ less.prems(2) bs(1)] i show ?thesis
        using True n ck l leaf_change_ok [OF p(1) i] bs(2) by (subst leaf_walk.simps) (simp add: side_change_def emit_leaf_ok)
    next
      case g
      obtain bs where bs: "diff_rows fl (drop i xs) (drop (Suc j) ns) = (bs, Inr ())" "cs = add_change fl ?n # bs"
        using less.prems(3) d g less_not_sym [OF g] by (cases "diff_rows fl (drop i xs) (drop (Suc j) ns)") auto
      have "length xs - i + (length ns - Suc j) < length xs - i + (length ns - j)" using j by simp
      from less.hyps [OF this less.prems(1) _ bs(1)] j show ?thesis
        using True n ck g less_not_sym [OF g] leaf_change_ok [OF p(2) j] bs(2) by (subst leaf_walk.simps) (simp add: side_change_def emit_leaf_ok)
    next
      case e
      obtain b where b: "prollyValuesEqual (snd ?x) (snd ?n) = Inr b"
        using less.prems(3) d e by (cases "prollyValuesEqual (snd ?x) (snd ?n)") auto
      obtain bs where bs: "diff_rows fl (drop (Suc i) xs) (drop (Suc j) ns) = (bs, Inr ())"
          "cs = (if b then bs else mod_change fl (fst ?n) (snd ?x) (snd ?n) # bs)"
        using less.prems(3) d e b by (cases "diff_rows fl (drop (Suc i) xs) (drop (Suc j) ns)") (auto split: bool.splits)
      have "length xs - Suc i + (length ns - Suc j) < length xs - i + (length ns - j)" using i j by simp
      note ih = less.hyps [OF this _ _ bs(1)]
      show ?thesis using True n ck e leaf_modify_ok [OF p(2) j] bs(2) b ih i j parsed_facts(6) [OF p(1) i] parsed_facts(6) [OF p(2) j]
        by (subst leaf_walk.simps) (cases b; simp add: emit_leaf_ok)
    qed
  qed
qed

end
