(* ===== verification/DiffTree.thy ===== *)
theory DiffTree
  imports DiffWalk
begin

text \<open>
  The walk of two trees that skips what they share (\<open>prollyDiff\<close>).  The pairs of nodes on its stack stand for pairs of
  segments of the two tables (\<open>stk\<close>); a round replaces a pair by what it reports and what it pushes.
\<close>

section \<open>Segments of the two tables\<close>

text \<open>
  The rows below two nodes that are compared with each other are a segment of the old and one of the new rows
  between the same keys.
\<close>

definition apart :: "row list \<Rightarrow> row list \<Rightarrow> row list \<Rightarrow> row list \<Rightarrow> bool" where
  "apart xs ns xs' ns' \<longleftrightarrow> (\<forall>x \<in> set xs \<union> set ns. \<forall>y \<in> set xs' \<union> set ns'. fst x < fst y)"

definition seg :: "row list \<Rightarrow> row list \<Rightarrow> row list \<Rightarrow> row list \<Rightarrow> bool" where
  "seg X N xs ns \<longleftrightarrow> (\<exists>A B P Q. X = A @ xs @ B \<and> N = P @ ns @ Q \<and> apart A P (xs @ B) (ns @ Q) \<and> apart xs ns B Q)"

lemma seg_refl: "seg X N X N"
  unfolding seg_def apart_def by (intro exI [of _ "[]"]) simp

lemma seg_sub:
  assumes "seg X N (a @ xs @ b) (p @ ns @ q)" "apart a p (xs @ b) (ns @ q)" "apart xs ns b q"
  shows "seg X N xs ns"
proof -
  obtain A B P Q where s: "X = A @ (a @ xs @ b) @ B" "N = P @ (p @ ns @ q) @ Q" "apart A P ((a @ xs @ b) @ B) ((p @ ns @ q) @ Q)"
    "apart (a @ xs @ b) (p @ ns @ q) B Q" using assms(1) unfolding seg_def by blast
  have "apart (A @ a) (P @ p) (xs @ b @ B) (ns @ q @ Q)" "apart xs ns (b @ B) (q @ Q)"
    using s(3,4) assms(2,3) unfolding apart_def by auto
  then show ?thesis unfolding seg_def using s(1,2)
    by (intro exI [of _ "A @ a"] exI [of _ "b @ B"] exI [of _ "P @ p"] exI [of _ "q @ Q"]) simp
qed

lemma apart_diff:
  "apart xs ns xs' ns' \<Longrightarrow> diff_rows fl (xs @ xs') (ns @ ns') = (D, Inr ()) \<longleftrightarrow>
     (\<exists>c d. diff_rows fl xs ns = (c, Inr ()) \<and> diff_rows fl xs' ns' = (d, Inr ()) \<and> D = c @ d)"
  unfolding apart_def by (rule diff_rows_split_ok)

lemma seg_diff:
  assumes "seg X N xs ns" "diff_rows fl X N = (D, Inr ())"
  shows "\<exists>d. diff_rows fl xs ns = (d, Inr ()) \<and> set d \<subseteq> set D"
proof -
  obtain A B P Q where s: "X = A @ xs @ B" "N = P @ ns @ Q" "apart A P (xs @ B) (ns @ Q)" "apart xs ns B Q"
    using assms(1) unfolding seg_def by blast
  obtain c e where "diff_rows fl (xs @ B) (ns @ Q) = (e, Inr ())" "D = c @ e"
    using assms(2) s(1,2) apart_diff [OF s(3)] by auto
  then show ?thesis using apart_diff [OF s(4)] by auto
qed

text \<open>From some point of a segment to the end of the tables.\<close>

lemma seg_from:
  assumes "seg X N (a @ xs) (p @ ns)" "apart a p xs ns" "diff_rows fl X N = (D, Inr ())"
  shows "\<exists>A B P Q d. X = (A @ a) @ xs @ B \<and> N = (P @ p) @ ns @ Q \<and> diff_rows fl (xs @ B) (ns @ Q) = (d, Inr ()) \<and> set d \<subseteq> set D \<and>
     set (fst (diff_rows fl xs ns)) \<subseteq> set d"
proof -
  obtain A B P Q where s: "X = A @ (a @ xs) @ B" "N = P @ (p @ ns) @ Q" "apart A P ((a @ xs) @ B) ((p @ ns) @ Q)" "apart (a @ xs) (p @ ns) B Q"
    using assms(1) unfolding seg_def by blast
  have ap: "apart (A @ a) (P @ p) (xs @ B) (ns @ Q)" "apart xs ns B Q" using s(3,4) assms(2) unfolding apart_def by auto
  have "X = (A @ a) @ (xs @ B)" "N = (P @ p) @ (ns @ Q)" using s(1,2) by simp_all
  then obtain c d where d: "diff_rows fl (xs @ B) (ns @ Q) = (d, Inr ())" "D = c @ d"
    using assms(3) apart_diff [OF ap(1)] by auto
  obtain e where "diff_rows fl xs ns = (e, Inr ())" "set e \<subseteq> set d" using d(1) apart_diff [OF ap(2)] by auto
  then show ?thesis using s(1,2) d by (intro exI [of _ A] exI [of _ B] exI [of _ P] exI [of _ Q] exI [of _ d]) simp
qed

section \<open>The children of two nodes\<close>

lemma keyed_append: "keyed (xs @ ys) \<longleftrightarrow> keyed xs \<and> keyed ys \<and> (\<forall>x \<in> set xs. \<forall>y \<in> set ys. fst x < fst y)"
  by (auto simp: sorted_wrt_append)

lemma keyed_last: "keyed xs \<Longrightarrow> x \<in> set xs \<Longrightarrow> fst x \<le> fst (last xs)"
proof -
  assume k: "keyed xs" and x: "x \<in> set xs"
  have ne: "xs \<noteq> []" using x by auto
  have "xs = butlast xs @ [last xs]" using ne by simp
  then have "\<forall>y \<in> set (butlast xs). fst y < fst (last xs)" using k by (metis keyed_append list.set_intros(1))
  moreover have "x \<in> set (butlast xs) \<or> x = last xs" using x ne by (metis append_butlast_last_id in_set_butlastD set_ConsD rotate1.simps(2) set_rotate1)
  ultimately show ?thesis by auto
qed

lemma take_parts_last:
  assumes "list_all2 (subtree H fl S l) its parts" "0 < i" "i \<le> length its"
  shows "concat (take i parts) \<noteq> []" "fst (last (concat (take i parts))) = fst (its ! (i - 1))"
proof -
  have len: "length parts = length its" using assms(1) by (auto dest: list_all2_lengthD)
  have i: "i - 1 < length parts" "i - 1 < length its" using assms(2,3) len by simp_all
  have "take i parts = take (i - 1) parts @ [parts ! (i - 1)]"
    using take_Suc_conv_app_nth [OF i(1)] assms(2) by simp
  moreover have "parts ! (i - 1) \<noteq> [] \<and> fst (last (parts ! (i - 1))) = fst (its ! (i - 1))"
    using subtree_rows list_all2_nthD [OF assms(1) i(2)] by blast
  ultimately show "concat (take i parts) \<noteq> []" "fst (last (concat (take i parts))) = fst (its ! (i - 1))" by simp_all
qed

text \<open>Behind children with the same last keys the rows of both nodes lie behind the same key.\<close>

lemma children_apart:
  assumes "list_all2 (subtree H fl S l) its parts" "list_all2 (subtree H fl S' l') its' parts'" "i \<le> length its" "i \<le> length its'"
    "\<forall>k < i. fst (its ! k) = fst (its' ! k)" "keyed (concat parts)" "keyed (concat parts')"
  shows "apart (concat (take i parts)) (concat (take i parts')) (concat (drop i parts)) (concat (drop i parts'))"
proof (cases "i = 0")
  case True
  then show ?thesis by (simp add: apart_def)
next
  case False
  let ?a = "concat (take i parts)" and ?b = "concat (drop i parts)" and ?c = "concat (take i parts')" and ?d = "concat (drop i parts')"
  have k: "keyed (?a @ ?b)" "keyed (?c @ ?d)" using assms(6,7) by (simp_all flip: concat_append)
  have l: "?a \<noteq> []" "fst (last ?a) = fst (its ! (i - 1))" "?c \<noteq> []" "fst (last ?c) = fst (its' ! (i - 1))"
    using take_parts_last [OF assms(1)] take_parts_last [OF assms(2)] False assms(3,4) by simp_all
  have e: "fst (last ?a) = fst (last ?c)" using l(2,4) assms(5) False by simp
  have le: "fst x \<le> fst (last ?a)" if "x \<in> set ?a \<union> set ?c" for x
    using keyed_last [of ?a x] keyed_last [of ?c x] k that e unfolding keyed_append by auto
  have gt: "fst (last ?a) < fst y" if "y \<in> set ?b \<union> set ?d" for y
    using k last_in_set [OF l(1)] last_in_set [OF l(3)] that e unfolding keyed_append by (metis Un_iff)
  show ?thesis unfolding apart_def using le gt by (meson le_less_trans)
qed

section \<open>The stack\<close>

definition rep :: "(byte list \<Rightarrow> hash) \<Rightarrow> byte \<Rightarrow> byte list set \<Rightarrow> hash \<Rightarrow> nat \<Rightarrow> row list \<Rightarrow> bool" where
  "rep H fl S h l rows \<longleftrightarrow> h = hash0 \<and> rows = [] \<or>
     h \<noteq> hash0 \<and> l < PROLLY_CURSOR_MAX_DEPTH \<and> (\<exists>k. subtree H fl S l (k, h) rows)"

lemma tree_rep: "tree H fl S h rows \<longleftrightarrow> (\<exists>l. rep H fl S h l rows)"
  by (auto simp: tree_def rep_def)

lemma rep_rows: "rep H fl S h l rows \<Longrightarrow> h \<noteq> hash0 \<Longrightarrow> rows \<noteq> []"
  by (auto simp: rep_def dest: subtree_rows)

text \<open>An upper bound of the pairs that a pair of nodes leads to.\<close>

definition pair_weight :: "nat \<Rightarrow> row list \<Rightarrow> nat" where
  "pair_weight l rows = (if rows = [] then 1 else (l + 1) * length rows)"

lemma pair_weight_pos: "0 < pair_weight l rows"
  by (simp add: pair_weight_def)

text \<open>The pairs on the stack, the differences that they stand for, and the bound of the rounds still to come.\<close>

inductive stk :: "(byte list \<Rightarrow> hash) \<Rightarrow> byte \<Rightarrow> byte list set \<Rightarrow> row list \<Rightarrow> row list \<Rightarrow> hash list \<Rightarrow> diff_change set \<Rightarrow> nat \<Rightarrow> bool"
  for H fl S X N where
  stk_Nil: "stk H fl S X N [] {} 0"
| stk_pair: "stk H fl S X N st E m \<Longrightarrow> rep H fl S ho lo xs \<Longrightarrow> rep H fl S hn ln ns \<Longrightarrow> seg X N xs ns \<Longrightarrow>
     stk H fl S X N (hn # ho # st) (E \<union> set (fst (diff_rows fl xs ns))) (m + pair_weight lo xs)"

inductive_cases stk_ConsE: "stk H fl S X N (hn # st) E m"
inductive_cases stk_NilE: "stk H fl S X N [] E m"

lemma stk_sound: "stk H fl S X N st E m \<Longrightarrow> diff_rows fl X N = (D, Inr ()) \<Longrightarrow> E \<subseteq> set D"
proof (induction rule: stk.induct)
  case (stk_pair st E m ho lo xs hn ln ns)
  then show ?case using seg_diff [OF stk_pair.hyps(4) stk_pair.prems] by auto
qed simp

section \<open>One pair of nodes\<close>

context tree_reader
begin

lemma idle_hashing: "idle w R \<Longrightarrow> hashing hash U" "idle w R \<Longrightarrow> chunks (eStore w) \<subseteq> U"
  by (simp_all add: idle_def env_ok_def cache_inv_def)

lemma idle_node_hash:
  assumes "idle w R" "node_at hash fl (chunks (eStore w)) l (k, h) its"
  shows "hash_ok h"
  using idle_hashing [OF assms(1)] assms(2) by (auto simp: hashing_def node_at_def)

lemma rep_hash: "idle w R \<Longrightarrow> rep hash fl (chunks (eStore w)) h l rows \<Longrightarrow> hash_ok h"
  using idle_node_hash by (auto simp: rep_def subtree_def)

lemma read_node_ok:
  assumes "idle w R" "node_at hash fl (chunks (eStore w)) l (k, h) its" "l < PROLLY_CURSOR_MAX_DEPTH"
  shows "\<exists>w' nd. read_node get h w = (w', Inr nd) \<and> parsed fl l its nd \<and> finished R w w' []"
proof -
  let ?d = "node_bytes (of_nat l) fl its"
  have d: "storable (of_nat l) fl its" "?d \<in> chunks (eStore w)" "h = hash ?d" using assms(2) by (simp_all add: node_at_def)
  have i: "inv (eStore w)" using assms(1) by (simp add: idle_def env_ok_def)
  obtain st where st: "get (eStore w) (hash ?d) = (st, Inr ?d)" "inv st" "chunks st = chunks (eStore w)" using get_ok [OF i d(2)] by blast
  obtain nd where p: "prollyNodeParse ?d = Inr nd" using node_bytes_parse [OF d(1)] by blast
  let ?w = "w\<lparr>eStore := st\<rparr>"
  have c: "cur_of s ?w = cur_of s w" for s by (cases s) (simp_all add: cur_of_def)
  have "finished R w ?w []" using assms(1) st c by (simp add: finished_def idle_def env_ok_def keeps_def)
  moreover have "read_node get h w = (?w, Inr nd)" using st(1) p d(3) by (simp add: read_node_def)
  ultimately show ?thesis using p d(1) assms(3) by (auto simp: parsed_def)
qed

lemma subtrees_rest_ok:
  assumes p: "parsed fl (Suc l) its nd" and nz: "hash0 \<notin> hash ` U"
  shows "idle w R \<Longrightarrow> i + m = length its \<Longrightarrow> list_all2 (subtree hash fl (chunks (eStore w)) l) its parts \<Longrightarrow>
     length (concat (drop i parts)) < n \<Longrightarrow>
     \<exists>w'. subtrees_rest m n get s nd i fl collect_cb w = (w', Inr ()) \<and> finished R w w' (map (side_change s fl) (concat (drop i parts)))"
proof (induction m arbitrary: i w)
  case 0
  then have "drop i parts = []" by (auto dest: list_all2_lengthD)
  then show ?case using finished_refl [OF "0.prems"(1)] by simp
next
  case (Suc m)
  have i: "i < length its" using Suc.prems(2) by simp
  have len: "length parts = length its" using Suc.prems(3) by (auto dest: list_all2_lengthD)
  have l: "l < PROLLY_CURSOR_MAX_DEPTH" using p by (simp add: parsed_def)
  have d: "concat (drop i parts) = parts ! i @ concat (drop (Suc i) parts)"
    using i len Cons_nth_drop_Suc [of i parts] by (metis concat.simps(2))
  have st: "subtree hash fl (chunks (eStore w)) l (its ! i) (parts ! i)" using list_all2_nthD [OF Suc.prems(3) i] .
  let ?h = "snd (its ! i)"
  have st': "subtree hash fl (chunks (eStore w)) l (fst (its ! i), ?h) (parts ! i)" using st by simp
  have hU: "?h \<in> hash ` U" using st' idle_hashing(2) [OF Suc.prems(1)] by (auto simp: subtree_def node_at_def)
  then have h0: "?h \<noteq> hash0" using nz by metis
  have hok: "hash_ok ?h" using hU idle_hashing(1) [OF Suc.prems(1)] by (auto simp: hashing_def)
  have t: "tree hash fl (chunks (eStore w)) ?h (parts ! i)" unfolding tree_def using h0 l st' by blast
  have ne: "\<not> prollyHashIsEmpty ?h" using prollyHashIsEmpty_iff [OF hok] h0 by simp
  have b: "length (parts ! i) < n" "length (concat (drop (Suc i) parts)) < n" using Suc.prems(4) d by simp_all
  obtain w1 where w1: "diffEmitSubtree n get ?h fl s collect_cb w = (w1, Inr ())" "finished R w w1 (map (side_change s fl) (parts ! i))"
    using diffEmitSubtree_ok [OF Suc.prems(1) t b(1) ne] by blast
  have c1: "idle w1 R" "chunks (eStore w1) = chunks (eStore w)" using w1(2) by (simp_all add: finished_def)
  obtain w2 where w2: "subtrees_rest m n get s nd (Suc i) fl collect_cb w1 = (w2, Inr ())"
    "finished R w1 w2 (map (side_change s fl) (concat (drop (Suc i) parts)))"
    using Suc.IH [OF c1(1) _ _ b(2)] Suc.prems(2,3) c1(2) by auto
  have "subtrees_rest (Suc m) n get s nd i fl collect_cb w = (w2, Inr ())"
    using parsed_facts(7) [OF p i] w1(1) w2(1) by simp
  then show ?case using finished_trans [OF w1(2) w2(2)] unfolding d map_append by blast
qed

text \<open>Two cursors behind the same key.\<close>

lemma seek_both_ok:
  assumes "idle w R" "tree hash fl (chunks (eStore w)) oldRoot (A @ x # xs)" "tree hash fl (chunks (eStore w)) newRoot (P @ y # ns)"
    "keyed (A @ x # xs)" "keyed (P @ y # ns)" "fst x = k" "fst y = k"
  shows "\<exists>w' left. bindO (on_cur Old (seek_past_blob get k)) (\<lambda>_. bindO (on_cur New (seek_past_blob get k)) (\<lambda>_. retO ())) (opened oldRoot newRoot fl w) =
       (w', Inr ()) \<and> wk_ok UNIV fl w' left R \<and> left Old = xs \<and> left New = ns \<and> walked R (opened oldRoot newRoot fl w) w' []"
proof (rule place_both [OF assms(1) _ _ refl])
  fix w' :: "'s cwalk" and left
  assume a: "pair_at fl w' left R" "chunks (eStore w') = chunks (eStore w)"
  show "\<exists>w'' u. on_cur Old (seek_past_blob get k) w' = (w'', Inr u) \<and> pair_at fl w'' (left(Old := xs)) R \<and> pair_stays R w' w'' \<and>
      dpair.more w'' = dpair.more w' \<and> cur_of Old w'' \<noteq> None \<and> cur_of New w'' = cur_of New w'"
    if "cur_of Old w' = Some (prollyCursorInit oldRoot fl)"
    using on_cur_seek [OF a(1) that, of A x xs] assms(2,4,6) a(2) by auto
  show "\<exists>w'' u. on_cur New (seek_past_blob get k) w' = (w'', Inr u) \<and> pair_at fl w'' (left(New := ns)) R \<and> pair_stays R w' w'' \<and>
      dpair.more w'' = dpair.more w' \<and> cur_of New w'' \<noteq> None \<and> cur_of Old w'' = cur_of Old w'"
    if "cur_of New w' = Some (prollyCursorInit newRoot fl)"
    using on_cur_seek [OF a(1) that, of P y ns] assms(3,5,7) a(2) by auto
qed

lemma bindO_place: "bindO a (\<lambda>_. bindO b (\<lambda>_. retO ())) w = (w1, Inr ()) \<Longrightarrow>
    bindO (bindO a (\<lambda>_. b)) (\<lambda>_. m) w = m w1" "bindO a (\<lambda>_. bindO b (\<lambda>_. retO ())) w = (w1, Inr ()) \<Longrightarrow>
    bindO (bindO a (\<lambda>_. bindO b (\<lambda>_. retO ()))) (\<lambda>_. m) w = m w1"
  by (auto simp: bindO_def split: prod.splits sum.splits)

text \<open>The walk from the first children with different keys.\<close>

lemma mismatch_walk_ok:
  assumes i: "idle w R" and t: "tree hash fl (chunks (eStore w)) oldRoot X" "tree hash fl (chunks (eStore w)) newRoot N"
    and k: "keyed X" "keyed N" and p: "parsed fl l its nd" "i < length its"
    and pos: "if i = 0 then xs = X \<and> ns = N else (\<exists>A x P y. X = A @ x # xs \<and> N = P @ y # ns \<and> fst x = fst (its ! (i - 1)) \<and> fst y = fst (its ! (i - 1)))"
    and d: "diff_rows fl xs ns = (cs, Inr ())" and n: "length xs + length ns < n"
  shows "\<exists>w'. mismatch_walk n get oldRoot newRoot nd i fl collect_cb w = (w', Inr ()) \<and> finished R w w' cs"
  unfolding mismatch_walk_def
proof (rule scoped_ok [OF i])
  let ?o = "opened oldRoot newRoot fl w"
  let ?place = "if i > 0 \<and> fl AND PROLLY_NODE_INTKEY \<noteq> 0 then
             bindO (readO (\<lambda>_. prollyNodeIntKey nd (i - 1))) (\<lambda>k.
             bindO (on_cur Old (seek_past_int get k)) (\<lambda>_. on_cur New (seek_past_int get k)))
           else if i > 0 then
             bindO (readO (\<lambda>_. prollyNodeKey nd (i - 1))) (\<lambda>k.
             bindO (on_cur Old (seek_past_blob get k)) (\<lambda>_. on_cur New (seek_past_blob get k)))
           else
             bindO (on_cur Old (prollyCursorFirst get)) (\<lambda>_. bindO (on_cur New (prollyCursorFirst get)) (\<lambda>_. retO ()))"
  have "\<exists>w1 left. bindO ?place (\<lambda>_. m) ?o = m w1 \<and> wk_ok UNIV fl w1 left R \<and> left Old = xs \<and> left New = ns \<and> walked R ?o w1 []"
    for m :: "('s cwalk, unit) op"
  proof (cases "i = 0")
    case True
    obtain w1 left where w1: "bindO (on_cur Old (prollyCursorFirst get)) (\<lambda>_. bindO (on_cur New (prollyCursorFirst get)) (\<lambda>_. retO ())) ?o = (w1, Inr ())"
      "wk_ok UNIV fl w1 left R" "left Old = X" "left New = N" "walked R ?o w1 []" using first_both_ok [OF i t] by blast
    show ?thesis using bindO_place(2) [OF w1(1), of m] w1(2-5) pos True by (intro exI [of _ w1] exI [of _ left]) simp
  next
    case False
    let ?k = "fst (its ! (i - 1))"
    obtain A x P y where s: "X = A @ x # xs" "N = P @ y # ns" "fst x = ?k" "fst y = ?k" using pos False by auto
    obtain w1 left where w1: "bindO (on_cur Old (seek_past_blob get ?k)) (\<lambda>_. bindO (on_cur New (seek_past_blob get ?k)) (\<lambda>_. retO ())) ?o = (w1, Inr ())"
      "wk_ok UNIV fl w1 left R" "left Old = xs" "left New = ns" "walked R ?o w1 []"
      using seek_both_ok [OF i _ _ _ _ s(3,4), of fl oldRoot A xs newRoot P ns] t k s(1,2) by auto
    have j: "i - 1 < length its" using p(2) by simp
    have "bindO ?place (\<lambda>_. m) ?o = m w1"
    proof (cases "fl AND PROLLY_NODE_INTKEY \<noteq> 0")
      case True
      then have "fl = PROLLY_NODE_INTKEY" using p(1) storable_flag by (auto simp: parsed_def)
      then obtain u where u: "prollyNodeIntKey nd (i - 1) = Inr u" "?k = prollyEncodeIntKey u" using parsed_int_key [OF p(1) j] by blast
      have "seek_past_int get u = seek_past_blob get ?k" using u(2) by (simp add: seek_past_int_def seek_past_blob_def prollyCursorSeekInt_def)
      then have "?place ?o = bindO (on_cur Old (seek_past_blob get ?k)) (\<lambda>_. on_cur New (seek_past_blob get ?k)) ?o"
        using True False u(1) by simp
      then show ?thesis using bindO_place(1) [OF w1(1), of m] by (simp add: bindO_def)
    next
      case False': False
      have "?place ?o = bindO (on_cur Old (seek_past_blob get ?k)) (\<lambda>_. on_cur New (seek_past_blob get ?k)) ?o"
        using False' False parsed_facts(5) [OF p(1) j] by simp
      then show ?thesis using bindO_place(1) [OF w1(1), of m] by (simp add: bindO_def)
    qed
    then show ?thesis using w1(2-5) by blast
  qed
  then obtain w1 left where w1: "bindO ?place (\<lambda>_. diffMergeWalk n get fl collect_cb) ?o = diffMergeWalk n get fl collect_cb w1"
    "wk_ok UNIV fl w1 left R" "left Old = xs" "left New = ns" "walked R ?o w1 []" by blast
  obtain w2 left2 where w2: "diffMergeWalk n get fl collect_cb w1 = (w2, Inr ())" "wk_ok UNIV fl w2 left2 R" "walked R w1 w2 cs"
    using diffMergeWalk_ok [OF w1(2), of cs n] w1(3,4) d n by auto
  show "\<exists>w1 left. bindO ?place (\<lambda>_. diffMergeWalk n get fl collect_cb) ?o = (w1, Inr ()) \<and> wk_ok UNIV fl w1 left R \<and> walked R ?o w1 cs"
    using w1(1) w2(1,2) walked_trans [OF w1(5) w2(3)] by auto
qed

end

section \<open>One round\<close>

lemma concat_drop_Suc: "i < length xss \<Longrightarrow> concat (drop i xss) = xss ! i @ concat (drop (Suc i) xss)"
  by (metis Cons_nth_drop_Suc concat.simps(2))

lemma concat_take_Suc: "i < length xss \<Longrightarrow> concat (take (Suc i) xss) = concat (take i xss) @ xss ! i"
  by (simp add: take_Suc_conv_app_nth)

lemma concat_at: "i < length xss \<Longrightarrow> concat xss = concat (take i xss) @ xss ! i @ concat (drop (Suc i) xss)"
  by (metis append_take_drop_id concat_append concat_drop_Suc)

lemma append_at_last: "a \<noteq> [] \<Longrightarrow> (xs @ a) @ ys = (xs @ butlast a) @ last a # ys"
  by simp

lemma diff_rows_apart_set:
  "apart xs ns xs' ns' \<Longrightarrow> diff_rows fl (xs @ xs') (ns @ ns') = (D, Inr ()) \<Longrightarrow>
     set D = set (fst (diff_rows fl xs ns)) \<union> set (fst (diff_rows fl xs' ns'))"
  using apart_diff [of xs ns xs' ns' fl D] by auto

context tree_reader
begin

text \<open>What a round has done: changes reported and pairs pushed stand for the differences of the pair.\<close>

definition round_post ::
  "byte \<Rightarrow> row list \<Rightarrow> row list \<Rightarrow> diff_change list \<Rightarrow> ref multiset \<Rightarrow> 's cwalk \<Rightarrow> diff_change set \<Rightarrow> nat \<Rightarrow> diff_change set \<Rightarrow> nat \<Rightarrow> 's cwalk \<Rightarrow> bool" where
  "round_post fl X N D R w E m F b w' \<longleftrightarrow> (\<exists>cs E' m'. idle w' R \<and> chunks (eStore w') = chunks (eStore w) \<and>
     keeps (eCache w) (eCache w') R \<and> pCtx w' = pCtx w @ cs \<and> stk hash fl (chunks (eStore w)) X N (aStack w') E' m' \<and>
     m' \<le> m + b \<and> set cs \<union> E' \<subseteq> E \<union> set D \<and> E \<union> F \<subseteq> set cs \<union> E')"

lemma round_finished:
  assumes "finished R w w' cs" "stk hash fl (chunks (eStore w)) X N (aStack w) E m" "set cs \<subseteq> set D" "F \<subseteq> set cs"
  shows "round_post fl X N D R w E m F b w'"
  unfolding round_post_def
  by (rule exI [of _ cs], rule exI [of _ E], rule exI [of _ m]) (use assms in \<open>auto simp: finished_def\<close>)

lemma round_weaken: "round_post fl X N D R w E m F b w' \<Longrightarrow> F' \<subseteq> F \<Longrightarrow> b \<le> b' \<Longrightarrow> round_post fl X N D R w E m F' b' w'"
  unfolding round_post_def by (meson Un_mono add_left_mono order_refl order_trans)

lemma diff_children_ok:
  assumes t: "tree hash fl S oldRoot X" "tree hash fl S newRoot N" and k: "keyed X" "keyed N" and D: "diff_rows fl X N = (D, Inr ())"
    and p: "parsed fl (Suc l) its nOld" "parsed fl (Suc l') its' nNew"
    and ch: "list_all2 (subtree hash fl S l) its parts" "list_all2 (subtree hash fl S l') its' parts'"
    and sg: "seg X N (concat parts) (concat parts')" and nz: "hash0 \<notin> hash ` U" and n: "length X + length N < n"
  shows "idle w R \<Longrightarrow> chunks (eStore w) = S \<Longrightarrow> stk hash fl S X N (aStack w) E m \<Longrightarrow> i \<le> length its \<Longrightarrow> i \<le> length its' \<Longrightarrow>
     \<forall>k < i. fst (its ! k) = fst (its' ! k) \<Longrightarrow>
     \<exists>w'. diff_children n get oldRoot newRoot nOld nNew i i fl collect_cb w = (w', Inr ()) \<and>
       round_post fl X N D R w E m (set (fst (diff_rows fl (concat (drop i parts)) (concat (drop i parts'))))) ((l + 1) * length (concat (drop i parts))) w'"
proof (induction "length its - i" arbitrary: i w E m rule: less_induct)
  case less
  note pr = less.prems
  have len: "length parts = length its" "length parts' = length its'" using ch by (auto dest: list_all2_lengthD)
  have l: "Suc l < PROLLY_CURSOR_MAX_DEPTH" "Suc l' < PROLLY_CURSOR_MAX_DEPTH" using p by (simp_all add: parsed_def)
  have kp: "keyed (concat parts)" "keyed (concat parts')"
  proof -
    obtain A B P Q where "X = A @ concat parts @ B" "N = P @ concat parts' @ Q" using sg unfolding seg_def by blast
    then show "keyed (concat parts)" "keyed (concat parts')" using k by (simp_all only: keyed_append)
  qed
  have ap: "apart (concat (take j parts)) (concat (take j parts')) (concat (drop j parts)) (concat (drop j parts'))"
    if "j \<le> length its" "j \<le> length its'" "\<forall>k < j. fst (its ! k) = fst (its' ! k)" for j
    by (rule children_apart [OF ch that kp])
  note api = ap [OF pr(4-6)]
  have cc: "concat parts = concat (take i parts) @ concat (drop i parts)" "concat parts' = concat (take i parts') @ concat (drop i parts')"
    by (simp_all flip: concat_append)
  obtain A B P Q d where fr: "X = (A @ concat (take i parts)) @ concat (drop i parts) @ B" "N = (P @ concat (take i parts')) @ concat (drop i parts') @ Q"
    "diff_rows fl (concat (drop i parts) @ B) (concat (drop i parts') @ Q) = (d, Inr ())" "set d \<subseteq> set D"
    "set (fst (diff_rows fl (concat (drop i parts)) (concat (drop i parts')))) \<subseteq> set d"
    using seg_from [OF sg [unfolded cc] api D] by blast
  have sg0: "seg X N (concat (take i parts) @ concat (drop i parts) @ []) (concat (take i parts') @ concat (drop i parts') @ [])" using sg cc by simp
  have "seg X N (concat (drop i parts)) (concat (drop i parts'))" by (rule seg_sub [OF sg0]) (use api in \<open>simp_all add: apart_def\<close>)
  then obtain dd where dd: "diff_rows fl (concat (drop i parts)) (concat (drop i parts')) = (dd, Inr ())" "set dd \<subseteq> set D"
    using seg_diff [OF _ D] by blast
  note nn = parsed_facts(2) [OF p(1)] parsed_facts(2) [OF p(2)]
  show ?case
  proof (cases "i < length its \<and> i < length its'")
    case False
    have lx: "length X = length A + length (concat (take i parts)) + length (concat (drop i parts)) + length B"
      "length N = length P + length (concat (take i parts')) + length (concat (drop i parts')) + length Q"
      by (subst fr(1), simp) (subst fr(2), simp)
    have b: "length (concat (drop i parts)) < n" "length (concat (drop i parts')) < n" using lx n by linarith+
    have s1: "list_all2 (subtree hash fl (chunks (eStore w)) l) its parts" using ch(1) pr(2) by simp
    obtain w1 where w1: "subtrees_rest (length its - i) n get Old nOld i fl collect_cb w = (w1, Inr ())"
      "finished R w w1 (map (side_change Old fl) (concat (drop i parts)))"
      using subtrees_rest_ok [OF p(1) nz pr(1) _ s1 b(1), of "length its - i" Old] pr(4) by auto
    have i1: "idle w1 R" "chunks (eStore w1) = S" using w1(2) pr(2) by (simp_all add: finished_def)
    have s2: "list_all2 (subtree hash fl (chunks (eStore w1)) l') its' parts'" using ch(2) i1(2) by simp
    obtain w2 where w2: "subtrees_rest (length its' - i) n get New nNew i fl collect_cb w1 = (w2, Inr ())"
      "finished R w1 w2 (map (side_change New fl) (concat (drop i parts')))"
      using subtrees_rest_ok [OF p(2) nz i1(1) _ s2 b(2), of "length its' - i" New] pr(5) by auto
    let ?cs = "map (side_change Old fl) (concat (drop i parts)) @ map (side_change New fl) (concat (drop i parts'))"
    have fin: "finished R w w2 ?cs" by (rule finished_trans [OF w1(2) w2(2)])
    have "drop i parts = [] \<or> drop i parts' = []" using False len by auto
    then have cs: "?cs = dd" using dd(1) by (auto simp: side_change_def)
    have "diff_children n get oldRoot newRoot nOld nNew i i fl collect_cb w = (w2, Inr ())"
      using w1(1) w2(1) nn False by (subst diff_children.simps) auto
    moreover have "round_post fl X N D R w E m (set (fst (diff_rows fl (concat (drop i parts)) (concat (drop i parts')))))
        ((l + 1) * length (concat (drop i parts))) w2"
      by (rule round_finished [OF fin _ ]) (use pr(2,3) cs dd in auto)
    ultimately show ?thesis by blast
  next
    case True
    then have i: "i < length its" "i < length its'" by simp_all
    have st: "subtree hash fl S l (its ! i) (parts ! i)" "subtree hash fl S l' (its' ! i) (parts' ! i)"
      using list_all2_nthD [OF ch(1) i(1)] list_all2_nthD [OF ch(2) i(2)] .
    let ?h = "snd (its ! i)" and ?h' = "snd (its' ! i)"
    have hU: "?h \<in> hash ` U" "?h' \<in> hash ` U"
      using st idle_hashing(2) [OF pr(1)] pr(2) by (auto simp: subtree_def node_at_def)
    have h0: "?h \<noteq> hash0" "?h' \<noteq> hash0" using hU nz by metis+
    have hok: "hash_ok ?h" "hash_ok ?h'" using hU idle_hashing(1) [OF pr(1)] by (auto simp: hashing_def)
    have inj: "inj_on hash U" and SU: "S \<subseteq> U" using idle_hashing [OF pr(1)] pr(2) by (simp_all add: hashing_def)
    have l256: "l < 256" "l' < 256" using l by (simp_all add: PROLLY_CURSOR_MAX_DEPTH_def)
    have hd: "prollyNodeChildHash nOld i = Inr ?h" "prollyNodeChildHash nNew i = Inr ?h'"
      using parsed_facts(7) [OF p(1) i(1)] parsed_facts(7) [OF p(2) i(2)] by simp_all
    have hc: "prollyHashCompare ?h ?h' = 0 \<longleftrightarrow> ?h = ?h'" by (rule prollyHashCompare_0 [OF hok])
    have dr: "concat (drop i parts) = parts ! i @ concat (drop (Suc i) parts)" "concat (drop i parts') = parts' ! i @ concat (drop (Suc i) parts')"
      using i len by (simp_all add: concat_drop_Suc)
    have dec: "length its - Suc i < length its - i" using i(1) by simp
    have si: "Suc i \<le> length its" "Suc i \<le> length its'" using i by simp_all
    show ?thesis
    proof (cases "fst (its ! i) = fst (its' ! i)")
      case same: True
      have ks: "\<forall>k < Suc i. fst (its ! k) = fst (its' ! k)" using pr(6) same by (auto simp: less_Suc_eq)
      have ap1: "apart (parts ! i) (parts' ! i) (concat (drop (Suc i) parts)) (concat (drop (Suc i) parts'))"
        using ap [OF si ks] unfolding concat_take_Suc [OF i(1) [folded len(1)]] concat_take_Suc [OF i(2) [folded len(2)]] apart_def set_append
        by blast
      have sgi: "seg X N (parts ! i) (parts' ! i)"
      proof (rule seg_sub)
        show "seg X N (concat (take i parts) @ parts ! i @ concat (drop (Suc i) parts)) (concat (take i parts') @ parts' ! i @ concat (drop (Suc i) parts'))"
          using sg cc dr by simp
      qed (use api ap1 dr in simp_all)
      have ds: "set dd = set (fst (diff_rows fl (parts ! i) (parts' ! i))) \<union> set (fst (diff_rows fl (concat (drop (Suc i) parts)) (concat (drop (Suc i) parts'))))"
        using diff_rows_apart_set [OF ap1] dd(1) dr by simp
      show ?thesis
      proof (cases "?h = ?h'")
        case eq: True
        have s': "subtree hash fl S l (fst (its ! i), ?h) (parts ! i)" "subtree hash fl S l' (fst (its' ! i), ?h) (parts' ! i)"
          using st by (simp, metis eq prod.collapse)
        have "parts ! i = parts' ! i" by (rule subtree_unique [OF inj SU SU s' l256])
        moreover obtain z where "diff_rows fl (parts ! i) (parts' ! i) = (z, Inr ())" using seg_diff [OF sgi D] by blast
        ultimately have z: "fst (diff_rows fl (parts ! i) (parts' ! i)) = []" using diff_rows_refl [of fl "parts ! i" z] by simp
        obtain w' where w': "diff_children n get oldRoot newRoot nOld nNew (Suc i) (Suc i) fl collect_cb w = (w', Inr ())"
          "round_post fl X N D R w E m (set (fst (diff_rows fl (concat (drop (Suc i) parts)) (concat (drop (Suc i) parts')))))
            ((l + 1) * length (concat (drop (Suc i) parts))) w'"
          using less.hyps [OF dec pr(1-3) si ks] by blast
        have "diff_children n get oldRoot newRoot nOld nNew i i fl collect_cb w = (w', Inr ())"
          using w'(1) hd hc eq True nn by (subst diff_children.simps) simp
        moreover have "set dd = set (fst (diff_rows fl (concat (drop (Suc i) parts)) (concat (drop (Suc i) parts'))))" using ds z by simp
        moreover have "(l + 1) * length (concat (drop (Suc i) parts)) \<le> (l + 1) * length (concat (drop i parts))"
          by (rule mult_le_mono2) (simp add: dr(1) del: length_concat)
        ultimately show ?thesis using round_weaken [OF w'(2)] dd(1) by (metis fst_conv order_refl)
      next
        case neq: False
        have ck: "diffNodeKeyCmp nOld i nNew i = Inr (diffBlobKeyCmp (fst (its ! i)) (fst (its' ! i)))"
          using parsed_facts(5) [OF p(1) i(1)] parsed_facts(5) [OF p(2) i(2)] by (simp add: diffNodeKeyCmp_def)
        let ?w = "w\<lparr>aStack := ?h' # ?h # aStack w\<rparr>"
        have cw: "cur_of s ?w = cur_of s w" for s by (cases s) (simp_all add: cur_of_def)
        have iw: "idle ?w R" "chunks (eStore ?w) = S" using pr(1,2) cw by (simp_all add: idle_def env_ok_def)
        have rp: "rep hash fl S ?h l (parts ! i)" "rep hash fl S ?h' l' (parts' ! i)"
          using h0 l st unfolding rep_def by (metis Suc_lessD prod.collapse)+
        let ?E = "E \<union> set (fst (diff_rows fl (parts ! i) (parts' ! i)))" and ?m = "m + pair_weight l (parts ! i)"
        have sk: "stk hash fl S X N (aStack ?w) ?E ?m" using stk_pair [OF pr(3) rp sgi] by simp
        obtain w' where w': "diff_children n get oldRoot newRoot nOld nNew (Suc i) (Suc i) fl collect_cb ?w = (w', Inr ())"
          "round_post fl X N D R ?w ?E ?m (set (fst (diff_rows fl (concat (drop (Suc i) parts)) (concat (drop (Suc i) parts')))))
            ((l + 1) * length (concat (drop (Suc i) parts))) w'"
          using less.hyps [OF dec iw sk si ks] by blast
        have run: "diff_children n get oldRoot newRoot nOld nNew i i fl collect_cb w = (w', Inr ())"
          using w'(1) hd hc neq True nn ck same by (subst diff_children.simps) simp
        have ne: "parts ! i \<noteq> []" using subtree_rows [OF st(1)] by simp
        have bd: "?m + (l + 1) * length (concat (drop (Suc i) parts)) \<le> m + (l + 1) * length (concat (drop i parts))"
          using dr(1) ne by (simp add: pair_weight_def algebra_simps del: length_concat)
        have "set (fst (diff_rows fl (parts ! i) (parts' ! i))) \<subseteq> set D" using ds dd(2) by blast
        then have "round_post fl X N D R w E m (set dd) ((l + 1) * length (concat (drop i parts))) w'"
          using w'(2) bd pr(2) ds unfolding round_post_def by (fastforce simp del: length_concat)
        then show ?thesis using run dd(1) by auto
      qed
    next
      case diff: False
      have neq: "?h \<noteq> ?h'"
      proof
        assume e: "?h = ?h'"
        have s': "subtree hash fl S l (fst (its ! i), ?h) (parts ! i)" "subtree hash fl S l' (fst (its' ! i), ?h) (parts' ! i)"
          using st by (simp, metis e prod.collapse)
        have "parts ! i = parts' ! i" by (rule subtree_unique [OF inj SU SU s' l256])
        then show False using subtree_rows [OF st(1)] subtree_rows [OF st(2)] diff by simp
      qed
      have ck: "diffNodeKeyCmp nOld i nNew i = Inr (diffBlobKeyCmp (fst (its ! i)) (fst (its' ! i)))"
        using parsed_facts(5) [OF p(1) i(1)] parsed_facts(5) [OF p(2) i(2)] by (simp add: diffNodeKeyCmp_def)
      have run: "diff_children n get oldRoot newRoot nOld nNew i i fl collect_cb w = mismatch_walk n get oldRoot newRoot nOld i fl collect_cb w"
        using hd hc neq True nn ck diff by (subst diff_children.simps) simp
      let ?xs = "if i = 0 then X else concat (drop i parts) @ B" and ?ns = "if i = 0 then N else concat (drop i parts') @ Q"
      let ?d = "if i = 0 then D else d"
      have pos: "if i = 0 then ?xs = X \<and> ?ns = N else (\<exists>A x P y. X = A @ x # ?xs \<and> N = P @ y # ?ns \<and> fst x = fst (its ! (i - 1)) \<and> fst y = fst (its ! (i - 1)))"
      proof (cases "i = 0")
        case nz: False
        let ?a = "concat (take i parts)" and ?c = "concat (take i parts')"
        have tp: "?a \<noteq> []" "fst (last ?a) = fst (its ! (i - 1))" "?c \<noteq> []" "fst (last ?c) = fst (its' ! (i - 1))"
          using take_parts_last [OF ch(1), of i] take_parts_last [OF ch(2), of i] nz i by simp_all
        have "fst (its ! (i - 1)) = fst (its' ! (i - 1))" using pr(6) nz by simp
        moreover have "(A @ ?a) @ ?xs = (A @ butlast ?a) @ last ?a # ?xs" "(P @ ?c) @ ?ns = (P @ butlast ?c) @ last ?c # ?ns"
          by (rule append_at_last [OF tp(1)], rule append_at_last [OF tp(3)])
        moreover have "X = (A @ ?a) @ ?xs" "N = (P @ ?c) @ ?ns" using fr(1,2) nz by simp_all
        ultimately have "X = (A @ butlast ?a) @ last ?a # ?xs" "N = (P @ butlast ?c) @ last ?c # ?ns" "fst (last ?a) = fst (its ! (i - 1))"
          "fst (last ?c) = fst (its ! (i - 1))" using tp by argo+
        then show ?thesis unfolding if_not_P [OF nz] by blast
      qed simp
      have lx: "length ?xs + length ?ns < n" using n arg_cong [OF fr(1), of length] arg_cong [OF fr(2), of length] by (auto simp del: length_concat)
      have dr': "diff_rows fl ?xs ?ns = (?d, Inr ())" using D fr(3) by simp
      have tw: "tree hash fl (chunks (eStore w)) oldRoot X" "tree hash fl (chunks (eStore w)) newRoot N" using t pr(2) by simp_all
      obtain w' where w': "mismatch_walk n get oldRoot newRoot nOld i fl collect_cb w = (w', Inr ())" "finished R w w' ?d"
        using mismatch_walk_ok [OF pr(1) tw k p(1) i(1) pos dr' lx] by blast
      have "round_post fl X N D R w E m (set dd) ((l + 1) * length (concat (drop i parts))) w'"
        by (rule round_finished [OF w'(2)]) (use pr(2,3) fr(4,5) dd in auto)
      then show ?thesis using run w'(1) dd(1) by auto
    qed
  qed
qed

end

lemma side_change_eq: "side_change New fl = add_change fl" "side_change Old fl = del_change fl"
  by (rule ext, simp add: side_change_def)+

context tree_reader
begin

lemma round_trans:
  assumes "finished R w w1 []" "round_post fl X N D R w1 E m F b w'"
  shows "round_post fl X N D R w E m F b w'"
  using assms keeps_trans unfolding round_post_def finished_def by fastforce

lemma rep_tree: "rep hash fl S h l rows \<Longrightarrow> tree hash fl S h rows"
  using tree_rep by blast

lemma rep_unique:
  assumes "idle w R" "rep hash fl (chunks (eStore w)) h l xs" "rep hash fl (chunks (eStore w)) h l' ns"
  shows "xs = ns"
proof -
  note h = idle_hashing [OF assms(1)]
  have inj: "inj_on hash U" using h(1) by (simp add: hashing_def)
  show ?thesis
  proof (cases "h = hash0")
    case False
    then obtain k k' where "subtree hash fl (chunks (eStore w)) l (k, h) xs" "subtree hash fl (chunks (eStore w)) l' (k', h) ns" "l < 256" "l' < 256"
      using assms(2,3) by (auto simp: rep_def PROLLY_CURSOR_MAX_DEPTH_def)
    then show ?thesis by (rule subtree_unique [OF inj h(2) h(2)])
  qed (use assms(2,3) in \<open>simp add: rep_def\<close>)
qed

lemma rep_node:
  assumes "idle w R" "rep hash fl (chunks (eStore w)) h l rows" "h \<noteq> hash0"
  shows "\<exists>its w' nd. read_node get h w = (w', Inr nd) \<and> parsed fl l its nd \<and> finished R w w' [] \<and> rows \<noteq> [] \<and>
     (case l of 0 \<Rightarrow> rows = its | Suc l' \<Rightarrow> \<exists>parts. rows = concat parts \<and> list_all2 (subtree hash fl (chunks (eStore w)) l') its parts)"
proof -
  obtain k its where s: "l < PROLLY_CURSOR_MAX_DEPTH" "node_at hash fl (chunks (eStore w)) l (k, h) its" "denote hash fl (chunks (eStore w)) l its rows"
    using assms(2,3) by (auto simp: rep_def subtree_def)
  have "rows \<noteq> []" by (rule rep_rows [OF assms(2,3)])
  moreover have "case l of 0 \<Rightarrow> rows = its | Suc l' \<Rightarrow> \<exists>parts. rows = concat parts \<and> list_all2 (subtree hash fl (chunks (eStore w)) l') its parts"
    using s(3) by (cases l) (simp_all add: denote_Suc)
  ultimately show ?thesis using read_node_ok [OF assms(1) s(2,1)] by blast
qed

lemma wk_ctx_idle: "idle w R \<Longrightarrow> idle (w\<lparr>pCtx := c\<rparr>) R" for w :: "'s cwalk"
proof -
  have "cur_of s (w\<lparr>pCtx := c\<rparr>) = cur_of s w" for s by (cases s) (simp_all add: cur_of_def)
  then show "idle w R \<Longrightarrow> idle (w\<lparr>pCtx := c\<rparr>) R" by (simp add: idle_def env_ok_def)
qed

text \<open>
  A round that descends no further: the nodes are the same, one is absent, or one is a leaf.  It reports the
  differences of the pair, or those of the two trees where only one of the nodes is a leaf.
\<close>

lemma diffNodesOneLevel_flat:
  assumes t: "tree hash fl S oldRoot X" "tree hash fl S newRoot N" and D: "diff_rows fl X N = (D, Inr ())"
    and n: "length X + length N < n" and w: "idle w R" "chunks (eStore w) = S"
    and r: "rep hash fl S ho lo xs" "rep hash fl S hn ln ns"
    and d: "diff_rows fl xs ns = (d, Inr ())" and le: "length xs \<le> length X" "length ns \<le> length N"
    and flat: "ho = hn \<or> ho = hash0 \<or> hn = hash0 \<or> lo = 0 \<or> ln = 0"
  shows "\<exists>w' cs. diffNodesOneLevel n get ho hn oldRoot newRoot fl collect_cb w = (w', Inr ()) \<and> finished R w w' cs \<and> (cs = d \<or> cs = D)"
proof -
  have r': "rep hash fl (chunks (eStore w)) ho lo xs" "rep hash fl (chunks (eStore w)) hn ln ns" using r w(2) by simp_all
  note hk = rep_hash [OF w(1) r'(1)] rep_hash [OF w(1) r'(2)]
  have he: "prollyHashCompare ho hn = 0 \<longleftrightarrow> ho = hn" "prollyHashIsEmpty ho \<longleftrightarrow> ho = hash0" "prollyHashIsEmpty hn \<longleftrightarrow> hn = hash0"
    using prollyHashCompare_0 [OF hk] prollyHashIsEmpty_iff [OF hk(1)] prollyHashIsEmpty_iff [OF hk(2)] by simp_all
  consider (same) "ho = hn" | (old) "ho = hash0" "hn \<noteq> hash0" | (new) "ho \<noteq> hash0" "hn = hash0" | (both) "ho \<noteq> hn" "ho \<noteq> hash0" "hn \<noteq> hash0" by blast
  then show ?thesis
  proof cases
    case same
    have "xs = ns" using rep_unique [OF w(1)] r' same by blast
    then have "d = []" using d diff_rows_refl by blast
    then show ?thesis using finished_refl [OF w(1)] he same by (auto simp: diffNodesOneLevel_def)
  next
    case old
    have e: "xs = []" using r(1) old by (simp add: rep_def)
    obtain w' where w': "diffEmitSubtree n get hn fl New collect_cb w = (w', Inr ())" "finished R w w' (map (side_change New fl) ns)"
      using diffEmitSubtree_ok [OF w(1) rep_tree [OF r'(2)], of n New] le n old he by auto
    have "d = map (side_change New fl) ns" using d e by (simp add: side_change_eq)
    then show ?thesis using w' he old by (auto simp: diffNodesOneLevel_def)
  next
    case new
    have e: "ns = []" using r(2) new by (simp add: rep_def)
    obtain w' where w': "diffEmitSubtree n get ho fl Old collect_cb w = (w', Inr ())" "finished R w w' (map (side_change Old fl) xs)"
      using diffEmitSubtree_ok [OF w(1) rep_tree [OF r'(1)], of n Old] le n new he by auto
    have "d = map (side_change Old fl) xs" using d e by (simp add: side_change_eq)
    then show ?thesis using w' he new by (auto simp: diffNodesOneLevel_def)
  next
    case both
    obtain its w1 nOld where w1: "read_node get ho w = (w1, Inr nOld)" "parsed fl lo its nOld" "finished R w w1 []" "xs \<noteq> []"
      "case lo of 0 \<Rightarrow> xs = its | Suc l' \<Rightarrow> \<exists>parts. xs = concat parts \<and> list_all2 (subtree hash fl (chunks (eStore w)) l') its parts"
      using rep_node [OF w(1) r'(1) both(2)] by blast
    have i1: "idle w1 R" "chunks (eStore w1) = S" "aStack w1 = aStack w" using w1(3) w(2) by (simp_all add: finished_def)
    have r1: "rep hash fl (chunks (eStore w1)) hn ln ns" using r(2) i1(2) by simp
    obtain its' w2 nNew where w2: "read_node get hn w1 = (w2, Inr nNew)" "parsed fl ln its' nNew" "finished R w1 w2 []" "ns \<noteq> []"
      "case ln of 0 \<Rightarrow> ns = its' | Suc l' \<Rightarrow> \<exists>parts. ns = concat parts \<and> list_all2 (subtree hash fl (chunks (eStore w1)) l') its' parts"
      using rep_node [OF i1(1) r1 both(3)] by blast
    have i2: "idle w2 R" "chunks (eStore w2) = S" "aStack w2 = aStack w" using w2(3) i1 by (simp_all add: finished_def)
    have f2: "finished R w w2 []" using finished_trans [OF w1(3) w2(3)] by simp
    have lv: "level nOld > 0 \<longleftrightarrow> 0 < lo" "level nNew > 0 \<longleftrightarrow> 0 < ln" using parsed_facts(3) [OF w1(2)] parsed_facts(3) [OF w2(2)] by simp_all
    have lv0: "level nOld = 0 \<longleftrightarrow> lo = 0" "level nNew = 0 \<longleftrightarrow> ln = 0" using lv by (auto simp: word_gt_0)
    have run: "diffNodesOneLevel n get ho hn oldRoot newRoot fl collect_cb w =
        (if lo = 0 \<and> ln = 0 then diffLeaves nOld nNew fl collect_cb
         else if lo > 0 \<and> ln > 0 then diff_children n get oldRoot newRoot nOld nNew 0 0 fl collect_cb
         else diffCursorWalk n get oldRoot newRoot fl collect_cb) w2"
      unfolding diffNodesOneLevel_def using both he w1(1) w2(1) lv lv0 by simp
    consider (leaves) "lo = 0" "ln = 0" | (mixed) "lo = 0 \<longleftrightarrow> ln \<noteq> 0" using flat both by auto
    then show ?thesis
    proof cases
      case leaves
      have p: "parsed fl 0 xs nOld" "parsed fl 0 ns nNew" using w1(2,5) w2(2,5) leaves by simp_all
      have "leaf_walk nOld nNew 0 0 fl collect_cb w2 = (w2\<lparr>pCtx := pCtx w2 @ d\<rparr>, Inr ())" by (rule leaf_walk_ok [OF p]) (use d(1) in simp_all)
      moreover have "finished R w2 (w2\<lparr>pCtx := pCtx w2 @ d\<rparr>) d"
        using i2(1) wk_ctx_idle [OF i2(1)] by (simp add: finished_def)
      ultimately show ?thesis using finished_trans [OF f2] run leaves by (fastforce simp add: diffLeaves_def)
    next
      case mixed
      have t2: "tree hash fl (chunks (eStore w2)) oldRoot X" "tree hash fl (chunks (eStore w2)) newRoot N" using t i2(2) by simp_all
      obtain w' where "diffCursorWalk n get oldRoot newRoot fl collect_cb w2 = (w', Inr ())" "finished R w2 w' D"
        using diffCursorWalk_ok [OF i2(1) t2 D n] by blast
      then show ?thesis using finished_trans [OF f2] run mixed by fastforce
    qed
  qed
qed

lemma diffNodesOneLevel_ok:
  assumes t: "tree hash fl S oldRoot X" "tree hash fl S newRoot N" and k: "keyed X" "keyed N" and D: "diff_rows fl X N = (D, Inr ())"
    and nz: "hash0 \<notin> hash ` U" and n: "length X + length N < n"
    and w: "idle w R" "chunks (eStore w) = S" and st: "stk hash fl S X N (aStack w) E m"
    and r: "rep hash fl S ho lo xs" "rep hash fl S hn ln ns" and sg: "seg X N xs ns"
  shows "\<exists>w' b. diffNodesOneLevel n get ho hn oldRoot newRoot fl collect_cb w = (w', Inr ()) \<and> b < pair_weight lo xs \<and>
     round_post fl X N D R w E m (set (fst (diff_rows fl xs ns))) b w'"
proof -
  have r': "rep hash fl (chunks (eStore w)) ho lo xs" "rep hash fl (chunks (eStore w)) hn ln ns" using r w(2) by simp_all
  note hk = rep_hash [OF w(1) r'(1)] rep_hash [OF w(1) r'(2)]
  have he: "prollyHashCompare ho hn = 0 \<longleftrightarrow> ho = hn" "prollyHashIsEmpty ho \<longleftrightarrow> ho = hash0" "prollyHashIsEmpty hn \<longleftrightarrow> hn = hash0"
    using prollyHashCompare_0 [OF hk] prollyHashIsEmpty_iff [OF hk(1)] prollyHashIsEmpty_iff [OF hk(2)] by simp_all
  obtain d where d: "diff_rows fl xs ns = (d, Inr ())" "set d \<subseteq> set D" using seg_diff [OF sg D] by blast
  have le: "length xs \<le> length X" "length ns \<le> length N" using sg unfolding seg_def by auto
  have stw: "stk hash fl (chunks (eStore w)) X N (aStack w) E m" using st w(2) by simp
  have fin: ?thesis if "diffNodesOneLevel n get ho hn oldRoot newRoot fl collect_cb w = (w', Inr ())" "finished R w w' cs" "set cs \<subseteq> set D" "set d \<subseteq> set cs" for w' cs
    using round_finished [OF that(2) stw that(3,4), where b = 0] that(1) d(1) pair_weight_pos [of lo xs] by auto
  show ?thesis
  proof (cases "ho = hn \<or> ho = hash0 \<or> hn = hash0 \<or> lo = 0 \<or> ln = 0")
    case True
    obtain w' cs where "diffNodesOneLevel n get ho hn oldRoot newRoot fl collect_cb w = (w', Inr ())" "finished R w w' cs" "cs = d \<or> cs = D"
      using diffNodesOneLevel_flat [OF t D n w r d(1) le True] by blast
    then show ?thesis using fin d(2) by blast
  next
    case both: False
    obtain its w1 nOld where w1: "read_node get ho w = (w1, Inr nOld)" "parsed fl lo its nOld" "finished R w w1 []" "xs \<noteq> []"
      "case lo of 0 \<Rightarrow> xs = its | Suc l' \<Rightarrow> \<exists>parts. xs = concat parts \<and> list_all2 (subtree hash fl (chunks (eStore w)) l') its parts"
      using rep_node [OF w(1) r'(1)] both by blast
    have i1: "idle w1 R" "chunks (eStore w1) = S" "aStack w1 = aStack w" using w1(3) w(2) by (simp_all add: finished_def)
    have r1: "rep hash fl (chunks (eStore w1)) hn ln ns" using r(2) i1(2) by simp
    obtain its' w2 nNew where w2: "read_node get hn w1 = (w2, Inr nNew)" "parsed fl ln its' nNew" "finished R w1 w2 []" "ns \<noteq> []"
      "case ln of 0 \<Rightarrow> ns = its' | Suc l' \<Rightarrow> \<exists>parts. ns = concat parts \<and> list_all2 (subtree hash fl (chunks (eStore w1)) l') its' parts"
      using rep_node [OF i1(1) r1] both by blast
    have i2: "idle w2 R" "chunks (eStore w2) = S" "aStack w2 = aStack w" using w2(3) i1 by (simp_all add: finished_def)
    have f2: "finished R w w2 []" using finished_trans [OF w1(3) w2(3)] by simp
    have lv: "level nOld > 0 \<longleftrightarrow> 0 < lo" "level nNew > 0 \<longleftrightarrow> 0 < ln" using parsed_facts(3) [OF w1(2)] parsed_facts(3) [OF w2(2)] by simp_all
    have lv0: "level nOld = 0 \<longleftrightarrow> lo = 0" "level nNew = 0 \<longleftrightarrow> ln = 0" using lv by (auto simp: word_gt_0)
    obtain l l' where inner: "lo = Suc l" "ln = Suc l'" using both by (metis not0_implies_Suc)
    have run: "diffNodesOneLevel n get ho hn oldRoot newRoot fl collect_cb w = diff_children n get oldRoot newRoot nOld nNew 0 0 fl collect_cb w2"
      unfolding diffNodesOneLevel_def using both he w1(1) w2(1) lv lv0 inner by simp
    obtain parts parts' where p: "xs = concat parts" "list_all2 (subtree hash fl S l) its parts" "ns = concat parts'" "list_all2 (subtree hash fl S l') its' parts'"
      using w1(5) w2(5) inner w(2) i1(2) by auto
    have pp: "parsed fl (Suc l) its nOld" "parsed fl (Suc l') its' nNew" using w1(2) w2(2) inner by simp_all
    have s: "stk hash fl S X N (aStack w2) E m" using st i2(3) by simp
    obtain w' where w': "diff_children n get oldRoot newRoot nOld nNew 0 0 fl collect_cb w2 = (w', Inr ())"
      "round_post fl X N D R w2 E m (set (fst (diff_rows fl xs ns))) ((l + 1) * length xs) w'"
      using diff_children_ok [OF t k D pp p(2,4) sg [unfolded p(1,3)] nz n i2(1,2) s, of 0] p(1,3) by auto
    have "(l + 1) * length xs < pair_weight lo xs" using w1(4) inner by (simp add: pair_weight_def)
    then show ?thesis using round_trans [OF f2 w'(2)] w'(1) run by auto
  qed
qed

lemma diff_loop_ok:
  assumes t: "tree hash fl S oldRoot X" "tree hash fl S newRoot N" and k: "keyed X" "keyed N" and D: "diff_rows fl X N = (D, Inr ())"
    and nz: "hash0 \<notin> hash ` U" and n: "length X + length N < n"
  shows "idle w R \<Longrightarrow> chunks (eStore w) = S \<Longrightarrow> stk hash fl S X N (aStack w) E b \<Longrightarrow> b \<le> m \<Longrightarrow>
     \<exists>w' cs. diff_loop m n get oldRoot newRoot fl collect_cb w = (w', Inr ()) \<and> idle w' R \<and> chunks (eStore w') = S \<and>
       keeps (eCache w) (eCache w') R \<and> pCtx w' = pCtx w @ cs \<and> set cs \<subseteq> set D \<and> E \<subseteq> set cs"
proof (induction m arbitrary: w E b)
  case 0
  have "aStack w = []" using "0.prems"(3,4) pair_weight_pos [THEN gr_implies_not0] by (cases rule: stk.cases) auto
  then show ?case using "0.prems" by (intro exI [of _ w] exI [of _ "[]"]) (auto simp: diff_loop.simps elim: stk_NilE)
next
  case (Suc m)
  from Suc.prems(3) show ?case
  proof (cases rule: stk.cases)
    case stk_Nil
    then show ?thesis using Suc.prems(1,2) by (intro exI [of _ w] exI [of _ "[]"]) (simp add: diff_loop.simps)
  next
    case (stk_pair st E0 b0 ho lo xs hn ln ns)
    let ?w = "w\<lparr>aStack := st\<rparr>"
    have c: "cur_of s ?w = cur_of s w" for s by (cases s) (simp_all add: cur_of_def)
    have i: "idle ?w R" "chunks (eStore ?w) = S" using Suc.prems(1,2) c by (simp_all add: idle_def env_ok_def)
    have s: "stk hash fl S X N (aStack ?w) E0 b0" using stk_pair by simp
    obtain w1 b1 where w1: "diffNodesOneLevel n get ho hn oldRoot newRoot fl collect_cb ?w = (w1, Inr ())" "b1 < pair_weight lo xs"
      "round_post fl X N D R ?w E0 b0 (set (fst (diff_rows fl xs ns))) b1 w1"
      using diffNodesOneLevel_ok [OF t k D nz n i s] stk_pair by blast
    obtain cs E1 m1 where p: "idle w1 R" "chunks (eStore w1) = S" "keeps (eCache w) (eCache w1) R" "pCtx w1 = pCtx w @ cs"
      "stk hash fl S X N (aStack w1) E1 m1" "m1 \<le> b0 + b1" "set cs \<union> E1 \<subseteq> E0 \<union> set D" "E \<subseteq> set cs \<union> E1"
      using w1(3) i(2) stk_pair unfolding round_post_def by auto
    have b: "m1 \<le> m" using p(6) w1(2) Suc.prems(4) stk_pair by simp
    obtain w' ds where w': "diff_loop m n get oldRoot newRoot fl collect_cb w1 = (w', Inr ())" "idle w' R" "chunks (eStore w') = S"
      "keeps (eCache w1) (eCache w') R" "pCtx w' = pCtx w1 @ ds" "set ds \<subseteq> set D" "E1 \<subseteq> set ds"
      using Suc.IH [OF p(1,2,5) b] by blast
    have "diff_loop (Suc m) n get oldRoot newRoot fl collect_cb w = (w', Inr ())"
      using w1(1) w'(1) stk_pair by (subst diff_loop.simps) simp
    moreover have "E0 \<subseteq> set D" by (rule stk_sound [OF s D])
    ultimately show ?thesis using w' p keeps_trans [OF p(3) w'(4)] by (intro exI [of _ w'] exI [of _ "cs @ ds"]) auto
  qed
qed

end

context tree_reader
begin

lemma prollyDiff_ok:
  assumes w: "idle w R" and t: "tree hash fl (chunks (eStore w)) oldRoot X" "tree hash fl (chunks (eStore w)) newRoot N"
    and k: "keyed X" "keyed N" and D: "diff_rows fl X N = (D, Inr ())" and nz: "hash0 \<notin> hash ` U"
    and n: "length X + length N < n" and m: "PROLLY_CURSOR_MAX_DEPTH * length X < m"
  shows "\<exists>w' cs. prollyDiff m n get oldRoot newRoot fl collect_cb w = (w', Inr ()) \<and> idle w' R \<and> chunks (eStore w') = chunks (eStore w) \<and>
     keeps (eCache w) (eCache w') R \<and> pCtx w' = pCtx w @ cs \<and> set cs = set D \<and> aStack w' = []"
proof -
  let ?S = "chunks (eStore w)" and ?w = "w\<lparr>aStack := [newRoot, oldRoot]\<rparr>"
  have c: "cur_of s (v\<lparr>aStack := st\<rparr>) = cur_of s v" for s st and v :: "'s cwalk" by (cases s) (simp_all add: cur_of_def)
  have i: "idle (v\<lparr>aStack := st\<rparr>) R" if "idle v R" for st and v :: "'s cwalk" using that c by (simp add: idle_def env_ok_def)
  obtain lo ln where r: "rep hash fl ?S oldRoot lo X" "rep hash fl ?S newRoot ln N" using t tree_rep by blast
  obtain lo' where lo': "rep hash fl ?S oldRoot lo' X" "pair_weight lo' X \<le> m"
  proof (cases "X = []")
    case False
    have "lo + 1 \<le> PROLLY_CURSOR_MAX_DEPTH" using r(1) False by (auto simp: rep_def)
    then have "(lo + 1) * length X \<le> PROLLY_CURSOR_MAX_DEPTH * length X" by (rule mult_le_mono1)
    then show thesis using that [OF r(1)] m False by (simp add: pair_weight_def)
  qed (use that [OF r(1)] m in \<open>simp add: pair_weight_def\<close>)
  have s: "stk hash fl ?S X N (aStack ?w) (set D) (pair_weight lo' X)"
    using stk_pair [OF stk_Nil lo'(1) r(2) seg_refl] D by simp
  have e: "chunks (eStore ?w) = ?S" by simp
  obtain w' cs where w': "diff_loop m n get oldRoot newRoot fl collect_cb ?w = (w', Inr ())" "idle w' R" "chunks (eStore w') = ?S"
    "keeps (eCache ?w) (eCache w') R" "pCtx w' = pCtx ?w @ cs" "set cs \<subseteq> set D" "set D \<subseteq> set cs"
    using diff_loop_ok [OF t k D nz n i [OF w] e s lo'(2)] by blast
  have "prollyDiff m n get oldRoot newRoot fl collect_cb w = (w'\<lparr>aStack := []\<rparr>, Inr ())"
    using w'(1) by (simp add: prollyDiff_def finallyO_def)
  then show ?thesis using w' i [OF w'(2)] by (intro exI [of _ "w'\<lparr>aStack := []\<rparr>"] exI [of _ cs]) auto
qed

end

context tree_reader
begin

text \<open>Where one of the trees is empty or a single leaf, the first round reports everything.\<close>

lemma prollyDiff_flat:
  assumes w: "idle w R" and t: "tree hash fl (chunks (eStore w)) oldRoot X" "tree hash fl (chunks (eStore w)) newRoot N"
    and D: "diff_rows fl X N = (D, Inr ())" and n: "length X + length N < n" and m: "0 < m"
    and flat: "rep hash fl (chunks (eStore w)) oldRoot 0 X \<or> rep hash fl (chunks (eStore w)) newRoot 0 N"
  shows "\<exists>w'. prollyDiff m n get oldRoot newRoot fl collect_cb w = (w', Inr ()) \<and> pCtx w' = pCtx w @ D"
proof -
  let ?S = "chunks (eStore w)" and ?w = "w\<lparr>aStack := []\<rparr>"
  have c: "cur_of s ?w = cur_of s w" for s by (cases s) (simp_all add: cur_of_def)
  have i: "idle ?w R" using w c by (simp add: idle_def env_ok_def)
  have e: "chunks (eStore ?w) = ?S" by simp
  obtain lo ln where r: "rep hash fl ?S oldRoot lo X" "rep hash fl ?S newRoot ln N" "lo = 0 \<or> ln = 0"
    using t flat tree_rep by metis
  then have f: "oldRoot = newRoot \<or> oldRoot = hash0 \<or> newRoot = hash0 \<or> lo = 0 \<or> ln = 0" by blast
  obtain w1 where w1: "diffNodesOneLevel n get oldRoot newRoot oldRoot newRoot fl collect_cb ?w = (w1, Inr ())" "finished R ?w w1 D"
    using diffNodesOneLevel_flat [OF t D n i e r(1,2) D _ _ f] by blast
  obtain m' where m': "m = Suc m'" using m by (cases m) auto
  have a: "aStack w1 = []" "pCtx w1 = pCtx w @ D" using w1(2) by (simp_all add: finished_def)
  have l: "diff_loop m' n get oldRoot newRoot fl collect_cb w1 = (w1, Inr ())" using a(1) by (subst diff_loop.simps) simp
  have "diff_loop m n get oldRoot newRoot fl collect_cb (w\<lparr>aStack := [newRoot, oldRoot]\<rparr>) = (w1, Inr ())"
    using w1(1) l by (subst diff_loop.simps) (simp add: m')
  then show ?thesis using a(2) by (simp add: prollyDiff_def finallyO_def)
qed

end

section \<open>On the chunk store\<close>

text \<open>
  C12. The walk of two trees in the chunk store that skips what they share reports to its callback exactly the
  differences of the two maps of rows: every one is reported at least once, and nothing else is, whatever the heights of
  the trees and wherever their nodes end.  Where one of the trees is empty or a single leaf (\<open>rep\<close> at level 0), every
  difference is reported exactly once and in the order of the keys; with inner nodes on both sides the code reports some
  differences again when it meets nodes that end at different keys, and the order is left open.  The values of a key of
  both tables must be comparable (records that parse, \<open>comparable\<close>).  The walk returns after a bounded number of rounds,
  changes no chunk, and leaves the references that others hold in the cache and no cursor of its own.
\<close>

theorem prollyDiff_complete:
  assumes "store_inv H U (eStore w) f" "cache_inv H U (eCache w) R" "dOld w = None" "dNew w = None" "hash0 \<notin> H ` U"
    "tree H fl (chunks f (eStore w)) oldRoot xs" "tree H fl (chunks f (eStore w)) newRoot ns"
    "sorted_wrt (<) (map fst xs)" "sorted_wrt (<) (map fst ns)" "comparable (map_of xs) (map_of ns)"
    "length xs + length ns < n" "PROLLY_CURSOR_MAX_DEPTH * length xs < m"
  shows "\<exists>w' chs. prollyDiff m n (\<lambda>cs. chunkStoreGet cs f) oldRoot newRoot fl collect_cb w = (w', Inr ()) \<and>
     pCtx w' = pCtx w @ chs \<and> set chs = changes fl (map_of xs) (map_of ns) \<and>
     (rep H fl (chunks f (eStore w)) oldRoot 0 xs \<or> rep H fl (chunks f (eStore w)) newRoot 0 ns \<longrightarrow>
        sorted_wrt (<) (map dcKey chs)) \<and>
     store_inv H U (eStore w') f \<and> chunks f (eStore w') = chunks f (eStore w) \<and> cache_inv H U (eCache w') R \<and>
     dOld w' = None \<and> dNew w' = None \<and> aStack w' = []"
proof -
  have t: "snd (diff_rows fl xs ns) = Inr ()" by (rule diff_rows_total [OF assms(8-10)])
  have d: "diff_rows fl xs ns = (fst (diff_rows fl xs ns), Inr ())" using t by (metis prod.collapse)
  have "reader.env_ok H U f \<lparr>eStore = eStore w, eCache = eCache w\<rparr> R" by (rule env_store [OF assms(1,2)])
  then have i: "reader.idle H U f w R" using assms(3,4) by (auto simp: reader.idle_def reader.env_ok_def cur_of_def split: side.split)
  obtain w' cs where w': "prollyDiff m n (\<lambda>cs. chunkStoreGet cs f) oldRoot newRoot fl collect_cb w = (w', Inr ())" "reader.idle H U f w' R"
    "chunks f (eStore w') = chunks f (eStore w)" "pCtx w' = pCtx w @ cs" "set cs = set (fst (diff_rows fl xs ns))" "aStack w' = []"
    using reader.prollyDiff_ok [OF i assms(6-9) d assms(5,11,12)] by blast
  have cl: "cur_of s w' = None" for s using w'(2) by (simp add: reader.idle_def)
  have "dOld w' = None" "dNew w' = None" using cl [of Old] cl [of New] by (simp_all add: cur_of_def)
  moreover have "store_inv H U (eStore w') f" "cache_inv H U (eCache w') R" using w'(2) by (simp_all add: reader.idle_def reader.env_ok_def)
  moreover have "sorted_wrt (<) (map dcKey cs)"
    if "rep H fl (chunks f (eStore w)) oldRoot 0 xs \<or> rep H fl (chunks f (eStore w)) newRoot 0 ns"
  proof -
    have "cs = fst (diff_rows fl xs ns)"
      using reader.prollyDiff_flat [OF i assms(6,7) d assms(11) _ that, of m] assms(12) w'(1,4) by auto
    then show ?thesis using diff_rows_set [OF assms(8,9) t] by simp
  qed
  ultimately show ?thesis using w' diff_rows_set [OF assms(8,9) t] by blast
qed

lemma prollyDiff_complete_witness:
  "\<exists>cs w' chs. chunkStorePut ex_hash chunkStoreOpenMemory ex_node = Inr (cs, ex_hash ex_node) \<and>
     prollyDiff 20 2 (\<lambda>cs. chunkStoreGet cs []) hash0 (ex_hash ex_node) PROLLY_NODE_BLOBKEY collect_cb
       \<lparr>eStore = cs, eCache = prollyCacheInit 4, dOld = None, dNew = None, pCtx = [], aStack = []\<rparr> = (w', Inr ()) \<and>
     pCtx w' = chs \<and> set chs = {add_change PROLLY_NODE_BLOBKEY ([1], [2])}"
proof -
  obtain cs where cs: "chunkStorePut ex_hash chunkStoreOpenMemory ex_node = Inr (cs, ex_hash ex_node)" "store_inv ex_hash {ex_node} cs []"
    "chunks [] cs = {ex_node}" "cache_inv ex_hash {ex_node} (prollyCacheInit 4) {#}" by (rule ex_store)
  have t: "tree ex_hash PROLLY_NODE_BLOBKEY (chunks [] cs) (ex_hash ex_node) [([1], [2])]" using ex_tree cs(3) by simp
  have z: "tree ex_hash PROLLY_NODE_BLOBKEY (chunks [] cs) hash0 []" by (simp add: tree_def)
  have h: "hash0 \<notin> ex_hash ` {ex_node}" using t by (auto simp: tree_def)
  have c: "comparable (map_of []) (map_of [([1 :: byte], [2 :: byte])])" by (simp add: comparable_def)
  have ch: "changes PROLLY_NODE_BLOBKEY (map_of []) (map_of [([1], [2])]) = {add_change PROLLY_NODE_BLOBKEY ([1], [2])}"
    using changes_one_side(2) [of "[([1], [2])]"] by simp
  let ?w = "\<lparr>eStore = cs, eCache = prollyCacheInit 4, dOld = None, dNew = None, pCtx = [] :: diff_change list, aStack = []\<rparr>"
  have "store_inv ex_hash {ex_node} (eStore ?w) []" "cache_inv ex_hash {ex_node} (eCache ?w) {#}" "dOld ?w = None" "dNew ?w = None"
    "tree ex_hash PROLLY_NODE_BLOBKEY (chunks [] (eStore ?w)) hash0 []"
    "tree ex_hash PROLLY_NODE_BLOBKEY (chunks [] (eStore ?w)) (ex_hash ex_node) [([1], [2])]" using cs(2,4) t z by simp_all
  note p = prollyDiff_complete [OF this(1-4) h this(5,6) _ _ c, of 2 20]
  show ?thesis using p cs(1) unfolding ch by simp blast
qed

end
