(* ===== verification/Spec2Isabelle.thy ===== *)
theory Spec2Isabelle
  imports Prelude Bytes Probe Search Interfaces HashSet Node OrderSort MutMap MutMapInv MutMapUndo MutMapSpec Commit Ancestor RecordFormat RecordProps Xxhash Blob Refs RefsSpec RefsBlob ChunkStore ChunkDurable Chunker TreeSpec TreeBuild TreeProgress TreeStore Cache CacheLinks CacheInv CacheRun Cursor CursorInv CursorMove CursorScan MutateStore SortkeyProps DiffTree
begin

text \<open>
  DoltLite is SQLite with its B-tree file format replaced by a content-addressed store of prolly trees,
  so that a database has commits, branches and merges.  All sources named below are under
  \<open>src/packages/doltlite/source/src\<close>.  This library models that storage engine in its own layers, from the
  bytes of a chunk up to the flush of a transaction's edits, and proves what each layer promises the next.

  \<^bold>\<open>The program's parts and how they interact.\<close>  A table or an index is a prolly tree.  Its nodes
  (\<open>prolly_node.c\<close>) are byte strings of sorted keys with values; the value of an item of an inner node is the
  hash of a child.  Nodes, commits and catalogs are chunks of the chunk store (\<open>chunk_store.c\<close>), which finds
  a chunk by its hash in a sorted index of committed chunks and in a hash table of pending ones, and which commits by
  appending records to the log of its file; it also holds the references (branches, tags, remotes, tracking
  branches), stored as one more chunk.  The tree builder (\<open>prolly_chunker.c\<close>) turns sorted rows into
  nodes.  Readers go through a cursor (\<open>prolly_cursor.c\<close>) and a cache of parsed nodes with reference counts
  (\<open>prolly_cache.c\<close>).  Writers collect edits in the edit map (\<open>prolly_mutmap.c\<close>), with savepoints, and a flush
  (\<open>prolly_mutate.c\<close>) walks the old tree beside the edits and feeds the builder.  Two trees are compared
  by \<open>prolly_diff.c\<close>, which skips the subtrees that they share.  On top, commits
  (\<open>doltlite_commit.c\<close>) form a graph whose merge bases \<open>doltlite_ancestor.c\<close> searches, and rows are
  SQLite records, read by \<open>doltlite_record.c\<close>; \<open>sortkey.c\<close> makes them keys of trees that compare byte by byte.

  \<^bold>\<open>Theories.\<close>
  \<^item> \<open>Prelude\<close>: machine types, result codes, the composition of fallible operations, checked reads, list lemmas.
  \<open>Interfaces\<close>: the contracts \<open>visited_set\<close>, \<open>edit_map\<close>, \<open>chunk_reader\<close>, \<open>chunk_repo\<close>, each interpreted where its
  provider is modelled.  \<open>Probe\<close>, \<open>Search\<close>: linear probing and binary search, shared by several components.
  \<^item> \<open>Bytes\<close>, \<open>HashSet\<close>: integer encodings and sortable keys; hashes and the set of hashes (\<open>visited_set\<close>),
  exact up to \<open>2 ^ 25\<close> hashes, where its allocation fails.
  \<^item> \<open>Node\<close>: layout, parser, accessors, searches and builder of nodes; the round trip, the safety of the
  parser on any bytes, the correctness of the searches.
  \<^item> \<open>OrderSort\<close>, \<open>MutMap\<close>, \<open>MutMapInv\<close>, \<open>MutMapUndo\<close>, \<open>MutMapSpec\<close>: the edit map.  Its quicksort sorts and ends;
  its operations are those of a map (\<open>edit_map\<close>); runs with savepoints refine a machine of maps and
  snapshots; iteration is in key order.
  \<^item> \<open>Blob\<close>, \<open>Commit\<close>, \<open>Ancestor\<close>: the wire format of commits and its round trip; the merge-base search,
  which ends and finds a common ancestor.
  \<^item> \<open>RecordFormat\<close>, \<open>RecordProps\<close>: SQLite records; round trip (up to the parser's limit of 256 fields), bounds, text,
  column map.
  \<^item> \<open>Xxhash\<close>: the hash of the boundary test, against an independent statement of the published algorithm and its
  test vectors.
  \<^item> \<open>Refs\<close>, \<open>RefsSpec\<close>, \<open>RefsBlob\<close>: the references, which refine finite maps, and their blob.
  \<^item> \<open>ChunkStore\<close>, \<open>ChunkStoreInv\<close>: the store in memory, its invariant \<open>store_inv\<close>, its refinement of a
  transactional set of chunks (\<open>chunk_repo\<close>).  \<open>ChunkFile\<close>, \<open>ChunkDisk\<close>, \<open>ChunkCommit\<close>, \<open>ChunkDurable\<close>: the file,
  its replay, commits; durability, atomicity at every byte, progress, failure, and the torn tail that breaks
  the next commit.
  \<^item> \<open>Chunker\<close>, \<open>TreeSpec\<close>, \<open>TreeBuild\<close>, \<open>TreeProgress\<close>, \<open>TreeStore\<close>: the builder; what rows a root denotes; that
  the tree built denotes the rows given, on a list of chunks and on the chunk store; that its root hash
  identifies the rows; when the builder fails with \<open>SQLITE_FULL\<close>.
  \<^item> \<open>Cache\<close>, \<open>CacheLinks\<close>, \<open>CacheInv\<close>, \<open>CacheRun\<close>: the node cache as a heap of linked entries; no operation follows
  a dangling pointer and no referenced entry is evicted.
  \<^item> \<open>Cursor\<close>, \<open>CursorInv\<close>, \<open>CursorMove\<close>, \<open>CursorScan\<close>: the cursor; scans in both directions and range scans after a seek
  read the rows that the tree denotes (locale \<open>tree_reader\<close>).
  \<^item> \<open>Mutate\<close>, \<open>MutateLeaf\<close>, \<open>MutateRun\<close>, \<open>MutateFlush\<close>, \<open>MutateStore\<close>: flushes; the new root denotes the old rows with
  the edits applied, splices included, and a run on the chunk store follows the run on a list of chunks.
  \<^item> \<open>Sortkey\<close>, \<open>SortkeyNum\<close>, \<open>SortkeyOrder\<close>, \<open>SortkeySpec\<close>, \<open>SortkeyDecode\<close>, \<open>SortkeyProps\<close>: the sort keys of index entries; the
  values of records under SQLite's collations, stated apart from the encoder; the keys compare as these
  values do, decode to them and fit their buffer, and the integers and field numbers for which they do not.
  \<^item> \<open>Diff\<close>, \<open>DiffSpec\<close>, \<open>DiffPair\<close>, \<open>DiffIter\<close>, \<open>DiffWalk\<close>, \<open>DiffTree\<close>: the differences of two trees; the iterator and the
  walk that skips shared subtrees report exactly the changes of the two maps of rows (the walk can repeat some), and
  the iterator stops at the first values that cannot be compared.
  \<^bold>\<open>Conventions.\<close>  Names are those of the sources; records stand for structs, lists for arrays.  A fallible operation
  returns \<open>Inl\<close> an error code or \<open>Inr\<close> its results; a cursor operation also returns the state that an error leaves.
  Two codes are of the model: \<open>OUT_OF_BOUNDS\<close>, a read or write outside an object, through a null or freed
  pointer, or a failed assertion (of \<open>prepKey\<close>, of the accessors of nodes, of cursors, of the cache, of the builder's
  levels and of the mutation); and \<open>NO_RETURN\<close>, fuel that ran out.  Each theorem about a result excludes both, or says
  which inputs lead to it.  A pointer with a length is a list of bytes.

  \<^bold>\<open>Widths.\<close>  Words of 8 to 64 bits, and \<open>int\<close>s with the cut to 32 bits written out (\<open>int32\<close>), are: the fields of nodes,
  of records and of the formats on disk, their lengths and offsets; the levels of savepoints; the slot counts of the hash
  set of \<open>prolly_hashset.c\<close> and the sizes of its allocations; the sizes of the arrays of a blob of references; the
  estimate of the buffer of a sort key.  Unbounded, and faithful only while the C value is below \<open>2 ^ 31\<close>, are: the capacity of the
  node cache (the callers pass 1024); the loops that double the buffers of a node builder (faithful below a gigabyte of keys or
  values in a node); the allocation sizes of the pending table and of the merged index (up to 33 million pending chunks, 67 million in all); the slot counts
  of the other hash set, in \<open>doltlite_ancestor.c\<close>; the lengths summed for the blob of references, apart from the check of the
  total that the code makes.  Otherwise \<open>malloc\<close> succeeds.

  \<^bold>\<open>Fuel.\<close>  A loop that is not structural takes a bound, which the theorems show to be enough: the size of
  the table for probing; the number of elements plus one for the quicksort's depth, for the chains of the
  chunk store and of the cache, for the drain of an iterator, and for the merge of a leaf with edits (items plus
  edits plus one); \<open>8 * n + 2\<close> rounds for the breadth-first searches in a history of \<open>n\<close> commits;
  \<open>PROLLY_CURSOR_MAX_DEPTH\<close> for descents, which is the height that the builder never exceeds; for
  the walks of differences the number of rows plus one, and \<open>PROLLY_CURSOR_MAX_DEPTH\<close> rounds per row for the stack of pairs.

  \<^bold>\<open>Parameters.\<close>  The chunk hash (BLAKE3, \<open>prolly_hash.c\<close>) is a function; the theorems ask that it has 20 bytes,
  is never zero and has no collision on the chunks in question.  The boundary test \<open>prollyWeibullCheck\<close>, which computes
  with floating-point numbers, is a function, and the theorems hold for every one.  What the operating system
  answers to the chunk store (locks, mapping, room on the device) is a parameter; writes reach the device in order.

  \<^bold>\<open>Not modelled.\<close>  SQLite itself above its \<open>btree.h\<close> interface (parser, planner, virtual machine, the
  original pager and B-tree, VFS layers, extensions, tests, tools) is upstream code that this project vendors.
  \<open>prolly_btree.c\<close>, which adapts the engine to that interface, is bound to SQLite's connection, schema
  and VDBE structures.  The SQL functions and virtual tables of the version-control layer (\<open>doltlite.c\<close>, \<open>doltlite_merge.c\<close>,
  \<open>doltlite_branch.c\<close> and others) mostly run SQL statements through that API.  Remotes use sockets and HTTP.
  The state that a failed flush leaves in the store and the cache is not part of its result.  The rest of the
  repository (Go and TypeScript packages) is other programs.
\<close>

end
